(* ===== verification/Prelude.thy ===== *)
theory Prelude
  imports Main "HOL-Library.Word" "HOL-Library.Monad_Syntax"
begin

text \<open>
  Shared vocabulary of the development: bytes, checked memory access, C integer arithmetic,
  the allocator, and the lemmas on them that every component uses.

  Memory access is explicit. A pointer to a byte string is the list of the bytes from the
  pointer to the end of the object it points into; \<open>rd\<close> reads through it and \<open>wr\<close> and
  \<open>wr_bytes\<close> write through it, and all three answer \<open>None\<close> where the C code would touch
  memory outside the object. A definition of type \<open>\<dots> option\<close> therefore is \<open>None\<close> exactly when the
  code has undefined behaviour (or, where a comment says so, when a loop does not end), and
  "the result is \<open>Some\<close>" is a memory-safety theorem.

  C \<open>int\<close> is \<open>int\<close>, with \<open>wrap32\<close> written where a computation may leave the range; \<open>size_t\<close> is
  \<open>nat\<close> with \<open>szadd\<close>, \<open>szsub\<close>, \<open>szmul\<close> wrapping at \<open>2 ^ 32\<close>, because the project builds the
  library for \<open>ARCHS_STANDARD_32_BIT\<close>.
\<close>

unbundle bit_operations_syntax

named_theorems mem_simps "checked memory access"
named_theorems c_arith "wrapping C arithmetic inside its range"

type_synonym byte = "8 word"
type_synonym pg_wchar = "32 word"


section \<open>Checked memory access\<close>

definition rd :: "'a list \<Rightarrow> nat \<Rightarrow> 'a option" where
  "rd s i = (if i < length s then Some (s ! i) else None)"

definition rdi :: "'a list \<Rightarrow> int \<Rightarrow> 'a option" where
  "rdi s i = (if 0 \<le> i then rd s (nat i) else None)"

definition wr :: "'a list \<Rightarrow> nat \<Rightarrow> 'a \<Rightarrow> 'a list option" where
  "wr s i b = (if i < length s then Some (s[i := b]) else None)"

definition wr_bytes :: "'a list \<Rightarrow> nat \<Rightarrow> 'a list \<Rightarrow> 'a list option" where
  "wr_bytes s i bs =
     (if i + length bs \<le> length s then Some (take i s @ bs @ drop (i + length bs) s) else None)"

definition rd_bytes :: "'a list \<Rightarrow> nat \<Rightarrow> nat \<Rightarrow> 'a list option" where
  "rd_bytes s i n = (if i + n \<le> length s then Some (take n (drop i s)) else None)"

lemma rd_Some_iff: "rd s i = Some b \<longleftrightarrow> i < length s \<and> b = s ! i"
  by (auto simp: rd_def)

lemma rd_in [mem_simps]: "i < length s \<Longrightarrow> rd s i = Some (s ! i)"
  by (simp add: rd_def)

lemma rd_Nil [simp]: "rd [] i = None"
  by (simp add: rd_def)

lemma rd_Cons_0 [simp]: "rd (b # s) 0 = Some b"
  by (simp add: rd_def)

lemma rd_Cons_Suc [simp]: "rd (b # s) (Suc i) = rd s i"
  by (simp add: rd_def)

lemma rd_Cons_numeral [simp]: "rd (b # s) (numeral k) = rd s (pred_numeral k)"
  by (simp add: rd_def nth_Cons')

lemma rdi_in [mem_simps]: "0 \<le> i \<Longrightarrow> i < int (length s) \<Longrightarrow> rdi s i = Some (s ! nat i)"
  by (simp add: rdi_def rd_def nat_less_iff)

lemma wr_in [mem_simps]: "i < length s \<Longrightarrow> wr s i b = Some (s[i := b])"
  by (simp add: wr_def)

lemma wr_bytes_in [mem_simps]:
  "i + length bs \<le> length s \<Longrightarrow> wr_bytes s i bs = Some (take i s @ bs @ drop (i + length bs) s)"
  by (simp add: wr_bytes_def)

lemma rd_bytes_in [mem_simps]:
  "i + n \<le> length s \<Longrightarrow> rd_bytes s i n = Some (take n (drop i s))"
  by (simp add: rd_bytes_def)

lemma wr_bytes_length: "wr_bytes s i bs = Some s' \<Longrightarrow> length s' = length s"
  by (auto simp: wr_bytes_def split: if_splits)

lemma wr_length: "wr s i b = Some s' \<Longrightarrow> length s' = length s"
  by (auto simp: wr_def split: if_splits)

lemma take_wr_bytes:
  assumes "wr_bytes s i bs = Some s'"
  shows "take (i + length bs) s' = take i s @ bs"
  using assms by (auto simp: wr_bytes_def split: if_splits)


section \<open>C strings\<close>

text \<open>\<open>strlen\<close> needs a terminator inside the object; without one the scan runs off its end.\<close>

definition c_str :: "byte list \<Rightarrow> byte list" where
  "c_str s = takeWhile (\<lambda>b. b \<noteq> 0) s"

definition c_strlen :: "byte list \<Rightarrow> nat option" where
  "c_strlen s = (if 0 \<in> set s then Some (length (c_str s)) else None)"

lemma c_str_no_nul: "0 \<notin> set (c_str s)"
  by (auto simp: c_str_def dest: set_takeWhileD)

lemma c_str_id: "0 \<notin> set s \<Longrightarrow> c_str s = s"
  unfolding c_str_def by (rule takeWhile_eq_all_conv [THEN iffD2]) auto

lemma c_str_append: "0 \<notin> set s \<Longrightarrow> c_str (s @ 0 # r) = s"
  by (induction s) (auto simp: c_str_def)

lemma c_strlen_append: "0 \<notin> set s \<Longrightarrow> c_strlen (s @ 0 # r) = Some (length s)"
  by (simp add: c_strlen_def c_str_append)

lemma c_str_Cons: "c_str (b # s) = (if b = 0 then [] else b # c_str s)"
  by (simp add: c_str_def)

lemma c_str_Nil [simp]: "c_str [] = []"
  by (simp add: c_str_def)

lemma length_c_str: "length (c_str s) \<le> length s"
  by (simp add: c_str_def length_takeWhile_le)

lemma c_strlen_Some: "c_strlen s = Some n \<Longrightarrow> n < length s \<and> s ! n = 0 \<and> c_str s = take n s"
proof (induction s arbitrary: n)
  case (Cons b s)
  then show ?case
    by (cases "b = 0"; cases n) (auto simp: c_strlen_def c_str_Cons split: if_splits)
qed (simp add: c_strlen_def)

text \<open>The macro \<open>IS_HIGHBIT_SET\<close> of \<open>c.h\<close>.\<close>

definition IS_HIGHBIT_SET :: "byte \<Rightarrow> bool" where
  "IS_HIGHBIT_SET ch \<longleftrightarrow> ch AND 0x80 \<noteq> 0"


section \<open>Bytes and words\<close>

lemma unat_bound: "unat c < 2 ^ LENGTH('a)" for c :: "'a::len word"
  by (rule unsigned_less)

lemma unat_byte: "unat c < 256" for c :: byte
  using unat_bound [of c] by simp

lemma word_eq_unat: "v = w \<longleftrightarrow> unat v = unat w" for v w :: "'a::len word"
  by (rule word_eq_iff_unsigned)

lemma and_not_mask_eq: "c AND NOT (mask k) = push_bit k (drop_bit k c)" for c :: "'a::len word"
  by (rule bit_word_eqI) (auto simp: bit_simps)

lemma unat_and_not_mask: "unat (c AND NOT (mask k)) = unat c div 2 ^ k * 2 ^ k" for c :: "'a::len word"
proof -
  have "push_bit k (drop_bit k (unat c)) = unat c div 2 ^ k * 2 ^ k"
    by (simp add: push_bit_eq_mult drop_bit_eq_div)
  moreover have "unat c div 2 ^ k * 2 ^ k < 2 ^ LENGTH('a)"
    using unat_bound [of c] div_times_less_eq_dividend [of "unat c" "2 ^ k"]
    by (metis order_le_less_trans)
  ultimately show ?thesis
    by (simp add: and_not_mask_eq unsigned_push_bit_eq unat_drop_bit_eq take_bit_nat_eq_self)
qed

text \<open>Testing the high bits of a word (a mask \<open>0x80\<close>, \<open>0xe0\<close>, \dots is \<open>- (2 ^ k)\<close>) is a range test.\<close>

lemma and_high_bits: "x = - (2 ^ k) \<Longrightarrow> (c AND x = v) = (unat c div 2 ^ k * 2 ^ k = unat v)"
  for c :: "'a::len word"
  by (simp only: minus_exp_eq_not_mask unat_and_not_mask word_eq_unat [of "_ AND _"])

lemma not_high_lt: "\<not> IS_HIGHBIT_SET c \<longleftrightarrow> c < 0x80"
  using and_high_bits [of "0x80" 7 c 0] unat_byte [of c]
  by (simp add: IS_HIGHBIT_SET_def word_less_nat_alt) arith

lemma high_ge: "IS_HIGHBIT_SET c \<longleftrightarrow> 0x80 \<le> c"
  using not_high_lt [of c] by auto

lemma unat_or_add:
  fixes x y :: "'a::len word"
  assumes "unat x mod 2 ^ k = 0" and "unat y < 2 ^ k"
  shows "unat (x OR y) = unat x + unat y"
proof -
  have tx: "take_bit k (unat x) = 0" using assms(1) by (simp add: take_bit_eq_mod)
  have ty: "take_bit k (unat y) = unat y" using assms(2) by (simp add: take_bit_nat_eq_self)
  have "\<not> bit (unat x) n \<or> \<not> bit (unat y) n" for n
    using tx ty by (metis bit_0_eq bit_take_bit_iff bot_apply bot_bool_def)
  then have "unat x + unat y = unat x OR unat y"
    by (intro disjunctive_add_eq_or) (auto simp: bit_eq_iff bit_simps)
  then show ?thesis by (simp add: unsigned_or_eq)
qed

lemma unat_and_low: "m = 2 ^ k - 1 \<Longrightarrow> unat (x AND m) = unat x mod 2 ^ k" for x :: "'a::len word"
proof -
  assume "m = 2 ^ k - 1"
  then have "x AND m = take_bit k x" by (simp add: mask_eq_exp_minus_1 take_bit_eq_mask)
  then show ?thesis by (metis unsigned_take_bit_eq take_bit_eq_mod)
qed

lemma unat_shiftr: "unat (drop_bit k x) = unat x div 2 ^ k" for x :: "'a::len word"
  by (metis unat_drop_bit_eq drop_bit_eq_div)

lemma unat_shiftl: "unat x * 2 ^ k < 2 ^ LENGTH('a) \<Longrightarrow> unat (push_bit k x) = unat x * 2 ^ k" for x :: "'a::len word"
  by (metis unsigned_push_bit_eq push_bit_eq_mult take_bit_nat_eq_self)

lemma unat_to_byte: "unat (ucast x :: byte) = unat x mod 256" for x :: "'a::len word"
  by (simp add: unsigned_ucast_eq take_bit_eq_mod)

lemma unat_from_byte: "unat (ucast b :: 32 word) = unat b" for b :: byte
  using unat_byte [of b] by (simp add: unsigned_ucast_eq take_bit_nat_eq_self_iff)


section \<open>C integers\<close>

definition wrap32 :: "int \<Rightarrow> int" where
  "wrap32 x = (x + 2 ^ 31) mod 2 ^ 32 - 2 ^ 31"

definition INT_MAX :: int where
  "INT_MAX = 2147483647"

definition szadd :: "nat \<Rightarrow> nat \<Rightarrow> nat" where
  "szadd a b = (a + b) mod 2 ^ 32"

definition szmul :: "nat \<Rightarrow> nat \<Rightarrow> nat" where
  "szmul a b = (a * b) mod 2 ^ 32"

definition szsub :: "nat \<Rightarrow> nat \<Rightarrow> nat" where
  "szsub a b = nat ((int a - int b) mod 2 ^ 32)"

lemma wrap32_id [c_arith]: "- (2 ^ 31) \<le> x \<Longrightarrow> x < 2 ^ 31 \<Longrightarrow> wrap32 x = x"
  by (simp add: wrap32_def)

lemma wrap32_range: "- (2 ^ 31) \<le> wrap32 x" "wrap32 x < 2 ^ 31"
proof -
  have "0 \<le> (x + 2 ^ 31) mod 2 ^ 32" "(x + 2 ^ 31) mod 2 ^ 32 < 2 ^ 32"
    by (rule pos_mod_sign, simp) (rule pos_mod_bound, simp)
  then show "- (2 ^ 31) \<le> wrap32 x" "wrap32 x < 2 ^ 31"
    by (simp_all add: wrap32_def)
qed

lemma szadd_id [c_arith]: "a + b < 2 ^ 32 \<Longrightarrow> szadd a b = a + b"
  by (simp add: szadd_def)

lemma szmul_id [c_arith]: "a * b < 2 ^ 32 \<Longrightarrow> szmul a b = a * b"
  by (simp add: szmul_def)

lemma szsub_id [c_arith]: "b \<le> a \<Longrightarrow> a < 2 ^ 32 \<Longrightarrow> szsub a b = a - b"
  by (simp add: szsub_def nat_diff_distrib)


section \<open>The allocator\<close>

text \<open>
  \<open>malloc\<close> and \<open>realloc\<close> may fail at any call: the state lists the outcome of the calls still to
  come (once the list is used up every call succeeds). Fresh memory holds an arbitrary byte
  \<open>junk\<close>, over which every theorem quantifies. \<open>realloc\<close> keeps the old contents up to the
  smaller of the two sizes.
\<close>

record alloc =
  oks :: "bool list"
  junk :: byte

definition next_ok :: "alloc \<Rightarrow> bool" where
  "next_ok a = (case oks a of [] \<Rightarrow> True | b # _ \<Rightarrow> b)"

definition after_alloc :: "alloc \<Rightarrow> alloc" where
  "after_alloc a = a\<lparr>oks := tl (oks a)\<rparr>"

definition c_malloc :: "alloc \<Rightarrow> nat \<Rightarrow> byte list option \<times> alloc" where
  "c_malloc a n =
     ((if next_ok a then Some (replicate n (junk a)) else None), after_alloc a)"

definition c_realloc :: "alloc \<Rightarrow> byte list \<Rightarrow> nat \<Rightarrow> byte list option \<times> alloc" where
  "c_realloc a old n =
     ((if next_ok a then Some (take n old @ replicate (n - length old) (junk a)) else None),
      after_alloc a)"

lemma c_realloc_Some:
  assumes "c_realloc a old n = (Some new, a')"
  shows "length new = n" and "take (min n (length old)) new = take n old"
  using assms by (auto simp: c_realloc_def min_def split: if_splits)

lemma c_malloc_Some: "c_malloc a n = (Some new, a') \<Longrightarrow> length new = n"
  by (auto simp: c_malloc_def split: if_splits)

lemma c_realloc_grow:
  assumes "c_realloc a old n = (Some new, a')" and "length old \<le> n"
  shows "take (length old) new = old"
  using assms by (auto simp: c_realloc_def split: if_splits)


section \<open>Options\<close>

lemma bind_Some_iff: "(Option.bind x f = Some y) \<longleftrightarrow> (\<exists>z. x = Some z \<and> f z = Some y)"
  by (cases x) auto

lemma if_bind: "(if c then x else y) \<bind> f = (if c then x \<bind> f else (y \<bind> f))" for x :: "'a option"
  by simp

end
