(* ===== verification/ExpBuffer.thy ===== *)
theory ExpBuffer
  imports Prelude
begin

text \<open>
  The expansible string buffer of \<open>src/interfaces/libpq/pqexpbuffer.c\<close>, in which libpq collects
  error messages and incoming strings.

  A buffer is the record \<open>expbuf\<close>; \<open>eb_data = None\<close> is the pointer to the static \<open>oom_buffer\<close>,
  \<open>Some d\<close> a malloc'd block with its \<open>length d\<close> bytes. Operations return \<open>None\<close> only on a write
  outside that block. \<open>valid_expbuf\<close> is the invariant \<open>pqexpbuffer.h\<close> states, \<open>eb_contents\<close> the
  abstract value (the bytes before the terminator). The lemmas show that every operation keeps
  the invariant, never writes out of bounds, that the doubling loops end, and that a buffer
  that is not broken holds exactly what was appended to it.
\<close>

section \<open>The data structure\<close>

record expbuf =
  eb_data :: "byte list option"
  eb_len :: nat
  eb_maxlen :: nat

definition INITIAL_EXPBUFFER_SIZE :: nat where
  "INITIAL_EXPBUFFER_SIZE = 256"

definition SZ_INT_MAX :: nat where
  "SZ_INT_MAX = 2147483647"

definition PQExpBufferBroken :: "expbuf \<Rightarrow> bool" where
  "PQExpBufferBroken str \<longleftrightarrow> eb_maxlen str = 0"


section \<open>Operations\<close>

definition markPQExpBufferBroken :: "expbuf \<Rightarrow> expbuf" where
  "markPQExpBufferBroken str = str\<lparr>eb_data := None, eb_len := 0, eb_maxlen := 0\<rparr>"

definition initPQExpBuffer :: "alloc \<Rightarrow> (expbuf \<times> alloc) option" where
  "initPQExpBuffer a =
     (case c_malloc a INITIAL_EXPBUFFER_SIZE of
        (None, a') \<Rightarrow> Some (\<lparr>eb_data = None, eb_len = 0, eb_maxlen = 0\<rparr>, a')
      | (Some d, a') \<Rightarrow> do {
          d' \<leftarrow> wr d 0 0;
          Some (\<lparr>eb_data = Some d', eb_len = 0, eb_maxlen = INITIAL_EXPBUFFER_SIZE\<rparr>, a')
        })"

text \<open>\<open>createPQExpBuffer\<close> returns NULL (the inner \<open>None\<close>) when the struct cannot be allocated.\<close>

definition createPQExpBuffer :: "alloc \<Rightarrow> (expbuf option \<times> alloc) option" where
  "createPQExpBuffer a =
     (if next_ok a
      then do { (str, a') \<leftarrow> initPQExpBuffer (after_alloc a); Some (Some str, a') }
      else Some (None, after_alloc a))"

definition termPQExpBuffer :: "expbuf \<Rightarrow> expbuf" where
  "termPQExpBuffer str = str\<lparr>eb_data := None, eb_maxlen := 0, eb_len := 0\<rparr>"

definition resetPQExpBuffer :: "alloc \<Rightarrow> expbuf \<Rightarrow> (expbuf \<times> alloc) option" where
  "resetPQExpBuffer a str =
     (case eb_data str of
        Some d \<Rightarrow> do { d' \<leftarrow> wr d 0 0; Some (str\<lparr>eb_len := 0, eb_data := Some d'\<rparr>, a) }
      | None \<Rightarrow> initPQExpBuffer a)"

text \<open>The loop \<open>while (needed > newlen) newlen = 2 * newlen\<close>; \<open>None\<close> is "does not end".\<close>

partial_function (option) enlarge_loop :: "nat \<Rightarrow> nat \<Rightarrow> nat option" where
  "enlarge_loop needed newlen =
     (if needed > newlen then enlarge_loop needed (szmul 2 newlen) else Some newlen)"

definition enlargePQExpBuffer :: "alloc \<Rightarrow> expbuf \<Rightarrow> nat \<Rightarrow> (bool \<times> expbuf \<times> alloc) option" where
  "enlargePQExpBuffer a str needed =
     (if PQExpBufferBroken str then Some (False, str, a)
      else if needed \<ge> szsub SZ_INT_MAX (eb_len str) then Some (False, markPQExpBufferBroken str, a)
      else let needed = szadd needed (szadd (eb_len str) 1) in
        if needed \<le> eb_maxlen str then Some (True, str, a)
        else do {
          newlen \<leftarrow> enlarge_loop needed (if eb_maxlen str > 0 then szmul 2 (eb_maxlen str) else 64);
          let newlen = (if newlen > SZ_INT_MAX then SZ_INT_MAX else newlen);
          d \<leftarrow> eb_data str;
          case c_realloc a d newlen of
            (Some d', a') \<Rightarrow> Some (True, str\<lparr>eb_data := Some d', eb_maxlen := newlen\<rparr>, a')
          | (None, a') \<Rightarrow> Some (False, markPQExpBufferBroken str, a')
        })"

text \<open>
  \<open>vsnprintf\<close> into \<open>avail\<close> bytes at offset \<open>pos\<close>: the formatted text is \<open>txt\<close>; at most
  \<open>avail - 1\<close> bytes of it and a NUL are stored, and the full length is returned.
\<close>

definition c_vsnprintf :: "byte list \<Rightarrow> nat \<Rightarrow> nat \<Rightarrow> byte list \<Rightarrow> (byte list \<times> int) option" where
  "c_vsnprintf d pos avail txt = do {
     d' \<leftarrow> wr_bytes d pos (if avail = 0 then [] else take (avail - 1) txt @ [0]);
     Some (d', int (length txt))
   }"

text \<open>One try of the body of the loop in \<open>appendPQExpBuffer\<close>: format if there is room.\<close>

definition append_try :: "expbuf \<Rightarrow> byte list \<Rightarrow> (bool \<times> expbuf) option" where
  "append_try str txt =
     (if eb_maxlen str > szadd (eb_len str) 16
      then let avail = szsub (szsub (eb_maxlen str) (eb_len str)) 1 in do {
        d \<leftarrow> eb_data str;
        (d', nprinted) \<leftarrow> c_vsnprintf d (eb_len str) avail txt;
        let str' = str\<lparr>eb_data := Some d'\<rparr>;
        if nprinted \<ge> 0 \<and> nprinted < int avail - 1
          then Some (True, str'\<lparr>eb_len := szadd (eb_len str) (nat nprinted)\<rparr>)
          else Some (False, str')
      }
      else Some (False, str))"

partial_function (option) append_loop :: "alloc \<Rightarrow> expbuf \<Rightarrow> byte list \<Rightarrow> (expbuf \<times> alloc) option" where
  "append_loop a str txt =
     Option.bind (append_try str txt) (\<lambda>r.
       if fst r then Some (snd r, a)
       else Option.bind (enlargePQExpBuffer a (snd r) (eb_maxlen (snd r))) (\<lambda>q.
         if fst q then append_loop (snd (snd q)) (fst (snd q)) txt
         else Some (fst (snd q), snd (snd q))))"

definition appendPQExpBuffer :: "alloc \<Rightarrow> expbuf \<Rightarrow> byte list \<Rightarrow> (expbuf \<times> alloc) option" where
  "appendPQExpBuffer a str txt =
     (if PQExpBufferBroken str then Some (str, a) else append_loop a str txt)"

definition printfPQExpBuffer :: "alloc \<Rightarrow> expbuf \<Rightarrow> byte list \<Rightarrow> (expbuf \<times> alloc) option" where
  "printfPQExpBuffer a str txt = do {
     (str, a) \<leftarrow> resetPQExpBuffer a str;
     if PQExpBufferBroken str then Some (str, a) else append_loop a str txt
   }"

definition appendBinaryPQExpBuffer :: "alloc \<Rightarrow> expbuf \<Rightarrow> byte list \<Rightarrow> (expbuf \<times> alloc) option" where
  "appendBinaryPQExpBuffer a str bs = do {
     (ok, str, a) \<leftarrow> enlargePQExpBuffer a str (length bs);
     if \<not> ok then Some (str, a)
     else do {
       d \<leftarrow> eb_data str;
       d \<leftarrow> wr_bytes d (eb_len str) bs;
       let n = szadd (eb_len str) (length bs);
       d \<leftarrow> wr d n 0;
       Some (str\<lparr>eb_data := Some d, eb_len := n\<rparr>, a)
     }
   }"

definition appendPQExpBufferStr :: "alloc \<Rightarrow> expbuf \<Rightarrow> byte list \<Rightarrow> (expbuf \<times> alloc) option" where
  "appendPQExpBufferStr a str s = do {
     n \<leftarrow> c_strlen s;
     appendBinaryPQExpBuffer a str (take n s)
   }"

definition appendPQExpBufferChar :: "alloc \<Rightarrow> expbuf \<Rightarrow> byte \<Rightarrow> (expbuf \<times> alloc) option" where
  "appendPQExpBufferChar a str ch = do {
     (ok, str, a) \<leftarrow> enlargePQExpBuffer a str 1;
     if \<not> ok then Some (str, a)
     else do {
       d \<leftarrow> eb_data str;
       d \<leftarrow> wr d (eb_len str) ch;
       let n = szadd (eb_len str) 1;
       d \<leftarrow> wr d n 0;
       Some (str\<lparr>eb_data := Some d, eb_len := n\<rparr>, a)
     }
   }"


section \<open>The invariant and the abstract value\<close>

definition valid_expbuf :: "expbuf \<Rightarrow> bool" where
  "valid_expbuf str \<longleftrightarrow>
     (case eb_data str of
        None \<Rightarrow> eb_len str = 0 \<and> eb_maxlen str = 0
      | Some d \<Rightarrow> length d = eb_maxlen str \<and> eb_len str < eb_maxlen str \<and>
          eb_maxlen str \<le> SZ_INT_MAX \<and> d ! eb_len str = 0)"

definition eb_contents :: "expbuf \<Rightarrow> byte list" where
  "eb_contents str = (case eb_data str of None \<Rightarrow> [] | Some d \<Rightarrow> take (eb_len str) d)"

definition alive_expbuf :: "expbuf \<Rightarrow> bool" where
  "alive_expbuf str \<longleftrightarrow>
     (case eb_data str of
        None \<Rightarrow> False
      | Some d \<Rightarrow> length d = eb_maxlen str \<and> eb_len str < eb_maxlen str \<and> eb_maxlen str \<le> SZ_INT_MAX)"

lemma alive_expbufE:
  assumes "alive_expbuf str"
  obtains d where "eb_data str = Some d" "length d = eb_maxlen str" "eb_len str < eb_maxlen str"
    "eb_maxlen str \<le> SZ_INT_MAX" "\<not> PQExpBufferBroken str"
  using assms by (auto simp: alive_expbuf_def PQExpBufferBroken_def split: option.splits)

lemma valid_expbuf_alive: "valid_expbuf str \<Longrightarrow> \<not> PQExpBufferBroken str \<Longrightarrow> alive_expbuf str"
  by (auto simp: valid_expbuf_def alive_expbuf_def PQExpBufferBroken_def split: option.splits)

lemma valid_markPQExpBufferBroken [simp]: "valid_expbuf (markPQExpBufferBroken str)"
  by (simp add: valid_expbuf_def markPQExpBufferBroken_def)

lemma broken_markPQExpBufferBroken [simp]: "PQExpBufferBroken (markPQExpBufferBroken str)"
  by (simp add: PQExpBufferBroken_def markPQExpBufferBroken_def)

lemma valid_termPQExpBuffer: "valid_expbuf (termPQExpBuffer str)"
  by (simp add: valid_expbuf_def termPQExpBuffer_def)


section \<open>Initialising and resetting\<close>

lemma initPQExpBuffer_spec:
  "\<exists>str a'. initPQExpBuffer a = Some (str, a') \<and> valid_expbuf str \<and> eb_contents str = [] \<and>
     (PQExpBufferBroken str \<longleftrightarrow> \<not> next_ok a)"
  by (simp add: initPQExpBuffer_def c_malloc_def INITIAL_EXPBUFFER_SIZE_def mem_simps
      valid_expbuf_def eb_contents_def PQExpBufferBroken_def SZ_INT_MAX_def)

lemma resetPQExpBuffer_spec:
  assumes "valid_expbuf str"
  shows "\<exists>str' a'. resetPQExpBuffer a str = Some (str', a') \<and> valid_expbuf str' \<and>
    eb_contents str' = [] \<and> (PQExpBufferBroken str' \<longrightarrow> PQExpBufferBroken str \<and> \<not> next_ok a)"
proof (cases "eb_data str")
  case None
  then show ?thesis
    using initPQExpBuffer_spec [of a] assms
    by (auto simp: resetPQExpBuffer_def valid_expbuf_def PQExpBufferBroken_def)
next
  case (Some d)
  then have "0 < length d" "length d = eb_maxlen str" "eb_maxlen str \<le> SZ_INT_MAX"
    using assms by (auto simp: valid_expbuf_def)
  with Some show ?thesis
    by (auto simp: resetPQExpBuffer_def mem_simps valid_expbuf_def eb_contents_def
        PQExpBufferBroken_def)
qed


section \<open>Growing the buffer\<close>

text \<open>The doubling loop ends and never wraps, from any positive size up to \<open>INT_MAX\<close> twice.\<close>

lemma enlarge_loop_ends:
  assumes "0 < newlen" "newlen < 2 ^ 32" "needed \<le> SZ_INT_MAX"
  shows "\<exists>r. enlarge_loop needed newlen = Some r \<and> needed \<le> r \<and> newlen \<le> r \<and> r < 2 ^ 32"
  using assms
proof (induction "needed - newlen" arbitrary: newlen rule: less_induct)
  case less
  show ?case
  proof (cases "needed > newlen")
    case True
    then have dbl: "szmul 2 newlen = 2 * newlen" "2 * newlen < 2 ^ 32"
      using less.prems by (auto simp: c_arith SZ_INT_MAX_def)
    then obtain r where "enlarge_loop needed (2 * newlen) = Some r" "needed \<le> r" "2 * newlen \<le> r"
      "r < 2 ^ 32"
      using less.hyps [of "2 * newlen"] less.prems True diff_less_mono2 [of newlen "2 * newlen" needed]
      by auto
    then show ?thesis
      using True dbl by (subst enlarge_loop.simps) auto
  next
    case False
    then show ?thesis
      using less.prems by (subst enlarge_loop.simps) auto
  qed
qed

lemma enlarge_alloc_length:
  "c_realloc a d n = (Some d', a') \<Longrightarrow> length d \<le> n \<Longrightarrow> length d' = n \<and> take (length d) d' = d"
  using c_realloc_Some c_realloc_grow by blast

text \<open>What one enlargement gives: room for \<open>n\<close> more bytes and the terminator, or a broken buffer.\<close>

definition enlarged :: "expbuf \<Rightarrow> nat \<Rightarrow> bool \<Rightarrow> expbuf \<Rightarrow> bool" where
  "enlarged str n ok str' \<longleftrightarrow>
     (if ok then alive_expbuf str' \<and> eb_len str' = eb_len str \<and> eb_contents str' = eb_contents str \<and>
        eb_maxlen str \<le> eb_maxlen str' \<and> eb_len str + n < eb_maxlen str'
      else str' = markPQExpBufferBroken str)"

lemma enlargePQExpBuffer_spec:
  assumes "alive_expbuf str" and n: "n < 2 ^ 32"
  shows "\<exists>ok str' a'. enlargePQExpBuffer a str n = Some (ok, str', a') \<and> enlarged str n ok str'"
proof -
  from assms(1) obtain d where d: "eb_data str = Some d" "length d = eb_maxlen str"
    "eb_len str < eb_maxlen str" "eb_maxlen str \<le> SZ_INT_MAX" "\<not> PQExpBufferBroken str"
    by (rule alive_expbufE)
  let ?lim = "SZ_INT_MAX - eb_len str"
  have lim: "szsub SZ_INT_MAX (eb_len str) = ?lim"
    using d by (simp add: szsub_id SZ_INT_MAX_def)
  show ?thesis
  proof (cases "n \<ge> ?lim")
    case True
    then show ?thesis
      using d lim by (auto simp: enlargePQExpBuffer_def enlarged_def)
  next
    case False
    let ?needed = "n + (eb_len str + 1)"
    have needed: "szadd n (szadd (eb_len str) 1) = ?needed" "?needed \<le> SZ_INT_MAX"
      using False d by (auto simp: c_arith SZ_INT_MAX_def)
    show ?thesis
    proof (cases "?needed \<le> eb_maxlen str")
      case True
      then show ?thesis
        using False d lim needed assms(1) by (auto simp: enlargePQExpBuffer_def enlarged_def)
    next
      case more: False
      have start: "szmul 2 (eb_maxlen str) = 2 * eb_maxlen str" "0 < 2 * eb_maxlen str"
        "2 * eb_maxlen str < 2 ^ 32"
        using d by (auto simp: c_arith SZ_INT_MAX_def)
      obtain r where r: "enlarge_loop ?needed (2 * eb_maxlen str) = Some r" "?needed \<le> r"
        "2 * eb_maxlen str \<le> r"
        using enlarge_loop_ends [OF start(2,3) needed(2)] by auto
      define newlen where "newlen = (if r > SZ_INT_MAX then SZ_INT_MAX else r)"
      have newlen: "eb_maxlen str \<le> newlen" "?needed \<le> newlen" "newlen \<le> SZ_INT_MAX"
        using r needed d by (auto simp: newlen_def)
      obtain d' a' where alloc: "c_realloc a d newlen = (d', a')"
        by (cases "c_realloc a d newlen") auto
      have enl: "enlargePQExpBuffer a str n =
        (case d' of Some d' \<Rightarrow> Some (True, str\<lparr>eb_data := Some d', eb_maxlen := newlen\<rparr>, a')
         | None \<Rightarrow> Some (False, markPQExpBufferBroken str, a'))"
        using False more d lim needed(1) start r(1) alloc
        by (auto simp: enlargePQExpBuffer_def newlen_def split: option.split)
      show ?thesis
      proof (cases d')
        case None
        then show ?thesis using enl by (auto simp: enlarged_def)
      next
        case (Some dd)
        have "length dd = newlen" "take (length d) dd = d"
          using alloc Some d(2) newlen(1) enlarge_alloc_length by metis+
        then have "take (eb_len str) dd = take (eb_len str) d"
          using d by (metis less_imp_le_nat min.absorb1 take_take)
        then show ?thesis
          using enl Some d newlen \<open>length dd = newlen\<close>
          by (auto simp: enlarged_def alive_expbuf_def eb_contents_def)
      qed
    qed
  qed
qed


section \<open>Appending\<close>

text \<open>What an append leaves: a valid buffer with the text added at the end, or a broken one.\<close>

definition appended :: "expbuf \<Rightarrow> byte list \<Rightarrow> expbuf \<Rightarrow> bool" where
  "appended str bs str' \<longleftrightarrow> valid_expbuf str' \<and>
     (\<not> PQExpBufferBroken str' \<longrightarrow>
       \<not> PQExpBufferBroken str \<and> eb_contents str' = eb_contents str @ bs \<and>
       eb_len str' = eb_len str + length bs)"

lemma enlargePQExpBuffer_broken: "PQExpBufferBroken str \<Longrightarrow> enlargePQExpBuffer a str n = Some (False, str, a)"
  by (simp add: enlargePQExpBuffer_def)

lemma enlarged_okE:
  assumes "enlarged str n True str'"
  obtains d where "eb_data str' = Some d" "length d = eb_maxlen str'" "eb_len str' = eb_len str"
    "eb_len str + n < length d" "eb_maxlen str' \<le> SZ_INT_MAX" "eb_contents str = take (eb_len str) d"
    "\<not> PQExpBufferBroken str'"
  using assms
  by (auto simp: enlarged_def alive_expbuf_def eb_contents_def PQExpBufferBroken_def split: option.splits)

lemma appendBinaryPQExpBuffer_spec:
  assumes "valid_expbuf str" "length bs < 2 ^ 32"
  shows "\<exists>str' a'. appendBinaryPQExpBuffer a str bs = Some (str', a') \<and> appended str bs str'"
proof (cases "PQExpBufferBroken str")
  case True
  then show ?thesis
    using assms by (auto simp: appendBinaryPQExpBuffer_def enlargePQExpBuffer_broken appended_def)
next
  case False
  then obtain ok str1 a1 where e: "enlargePQExpBuffer a str (length bs) = Some (ok, str1, a1)"
    "enlarged str (length bs) ok str1"
    using enlargePQExpBuffer_spec [OF valid_expbuf_alive [OF assms(1) False] assms(2)] by blast
  show ?thesis
  proof (cases ok)
    case True
    with e(2) have "enlarged str (length bs) True str1" by simp
    then obtain d where d: "eb_data str1 = Some d" "length d = eb_maxlen str1"
      "eb_len str1 = eb_len str" "eb_len str + length bs < length d" "eb_maxlen str1 \<le> SZ_INT_MAX"
      "eb_contents str = take (eb_len str) d"
      by (rule enlarged_okE)
    let ?n = "eb_len str + length bs"
    let ?d1 = "take (eb_len str) d @ bs @ drop ?n d"
    have n: "szadd (eb_len str) (length bs) = ?n"
      using d by (simp add: c_arith SZ_INT_MAX_def)
    let ?str' = "str1\<lparr>eb_data := Some (?d1[?n := 0]), eb_len := ?n\<rparr>"
    have "appendBinaryPQExpBuffer a str bs = Some (?str', a1)"
      using e True d(1-5) n by (simp add: appendBinaryPQExpBuffer_def mem_simps Let_def)
    moreover have "appended str bs ?str'"
      unfolding appended_def d(6) using d(1-5) False
      by (simp add: valid_expbuf_def eb_contents_def)
    ultimately show ?thesis by blast
  next
    case F: False
    then show ?thesis
      using e by (auto simp: appendBinaryPQExpBuffer_def enlarged_def appended_def)
  qed
qed

lemma appendPQExpBufferChar_is_Binary: "appendPQExpBufferChar a str ch = appendBinaryPQExpBuffer a str [ch]"
proof -
  have "wr_bytes d i [ch] = wr d i ch" for d i
    by (auto simp: wr_bytes_def wr_def upd_conv_take_nth_drop)
  then show ?thesis
    by (cases "enlargePQExpBuffer a str 1")
      (auto simp: appendPQExpBufferChar_def appendBinaryPQExpBuffer_def Let_def)
qed

lemma append_try_spec:
  assumes "alive_expbuf str" "length txt < 2 ^ 31"
  shows "\<exists>done str'. append_try str txt = Some (done, str') \<and>
    (if done then appended str txt str' \<and> \<not> PQExpBufferBroken str'
     else alive_expbuf str' \<and> eb_len str' = eb_len str \<and> eb_maxlen str' = eb_maxlen str \<and>
       eb_contents str' = eb_contents str)"
proof -
  from assms(1) obtain d where d: "eb_data str = Some d" "length d = eb_maxlen str"
    "eb_len str < eb_maxlen str" "eb_maxlen str \<le> SZ_INT_MAX" "\<not> PQExpBufferBroken str"
    by (rule alive_expbufE)
  let ?len = "eb_len str" and ?max = "eb_maxlen str"
  have sz: "szadd ?len 16 = ?len + 16" "szsub (szsub ?max ?len) 1 = ?max - ?len - 1"
    using d by (simp_all add: c_arith SZ_INT_MAX_def)
  show ?thesis
  proof (cases "?max > ?len + 16")
    case True
    let ?avail = "?max - ?len - 1"
    let ?w = "take (?avail - 1) txt @ [0]"
    let ?d' = "take ?len d @ ?w @ drop (?len + length ?w) d"
    have fits: "?len + length ?w \<le> length d" using d True by auto
    then have wr: "c_vsnprintf d ?len ?avail txt = Some (?d', int (length txt))"
      using True by (simp add: c_vsnprintf_def mem_simps)
    have len: "length ?d' = ?max" using fits d by auto
    show ?thesis
    proof (cases "length txt < ?avail - 1")
      case small: True
      have "szadd ?len (length txt) = ?len + length txt"
        using small d by (simp add: c_arith SZ_INT_MAX_def)
      moreover have "take (?len + length txt) ?d' = take ?len d @ txt" "?d' ! (?len + length txt) = 0"
        using small d by (simp_all add: nth_append)
      moreover have "append_try str txt =
        Some (True, str\<lparr>eb_data := Some ?d', eb_len := szadd ?len (length txt)\<rparr>)"
        using True small d(1) sz wr by (simp add: append_try_def Let_def)
      ultimately show ?thesis
        using small d len
        by (intro exI [of _ True]) (simp add: appended_def valid_expbuf_def eb_contents_def PQExpBufferBroken_def)
    next
      case big: False
      then have "\<not> int (length txt) < int ?avail - 1" by linarith
      then have "append_try str txt = Some (False, str\<lparr>eb_data := Some ?d'\<rparr>)"
        using True d(1) sz wr by (simp add: append_try_def Let_def)
      then show ?thesis
        using d len by (auto simp: alive_expbuf_def eb_contents_def)
    qed
  next
    case False
    then show ?thesis using assms d sz by (auto simp: append_try_def)
  qed
qed

text \<open>
  Each failed try at least doubles the buffer, so the loop ends: with the text stored, or with
  the buffer broken.
\<close>

lemma append_loop_spec:
  assumes "alive_expbuf str" "length txt < 2 ^ 31"
  shows "\<exists>str' a'. append_loop a str txt = Some (str', a') \<and> appended str txt str'"
  using assms(1)
proof (induction "SZ_INT_MAX - eb_maxlen str" arbitrary: a str rule: less_induct)
  case less
  obtain don str1 where t: "append_try str txt = Some (don, str1)"
    "if don then appended str txt str1 \<and> \<not> PQExpBufferBroken str1
     else alive_expbuf str1 \<and> eb_len str1 = eb_len str \<and> eb_maxlen str1 = eb_maxlen str \<and>
       eb_contents str1 = eb_contents str"
    using append_try_spec [OF less.prems assms(2)] by blast
  show ?case
  proof (cases don)
    case True
    then show ?thesis using t by (subst append_loop.simps) simp
  next
    case False
    with t have s1: "alive_expbuf str1" "eb_len str1 = eb_len str" "eb_maxlen str1 = eb_maxlen str"
      "eb_contents str1 = eb_contents str" by auto
    from less.prems s1 have lim: "eb_len str < eb_maxlen str" "eb_maxlen str < 2 ^ 32"
      and nb: "\<not> PQExpBufferBroken str"
      by (auto elim!: alive_expbufE simp: SZ_INT_MAX_def)
    then obtain ok str2 a2 where e: "enlargePQExpBuffer a str1 (eb_maxlen str1) = Some (ok, str2, a2)"
      "enlarged str1 (eb_maxlen str1) ok str2"
      using enlargePQExpBuffer_spec [OF s1(1)] s1(3) by metis
    have unf: "append_loop a str txt = (if ok then append_loop a2 str2 txt else Some (str2, a2))"
      using t(1) False e(1) by (subst append_loop.simps) simp
    show ?thesis
    proof (cases ok)
      case True
      then have s2: "alive_expbuf str2" "eb_len str2 = eb_len str" "eb_contents str2 = eb_contents str"
        "eb_maxlen str < eb_maxlen str2"
        using e(2) s1 lim by (auto simp: enlarged_def)
      then have "eb_maxlen str2 \<le> SZ_INT_MAX" "\<not> PQExpBufferBroken str2"
        by (auto elim: alive_expbufE)
      then obtain str' a' where "append_loop a2 str2 txt = Some (str', a')" "appended str2 txt str'"
        using less.hyps [of str2 a2] s2 by (metis diff_less_mono2 less_le_trans)
      then show ?thesis
        using unf True s2 nb by (auto simp: appended_def)
    next
      case F: False
      then show ?thesis using unf e(2) by (auto simp: enlarged_def appended_def)
    qed
  qed
qed

lemma appendPQExpBuffer_spec:
  assumes "valid_expbuf str" "length txt < 2 ^ 31"
  shows "\<exists>str' a'. appendPQExpBuffer a str txt = Some (str', a') \<and> appended str txt str'"
  using assms append_loop_spec [OF valid_expbuf_alive [OF assms(1)] assms(2)]
  by (cases "PQExpBufferBroken str") (auto simp: appendPQExpBuffer_def appended_def)


section \<open>The interface the clients rely on\<close>

text \<open>
  What a message writer of libpq relies on, for whichever append operation it calls: an append
  never faults, keeps the invariant, and either breaks the buffer or adds its argument at the
  end. From it: a whole sequence of appends leaves the concatenation, or a broken buffer, so a
  message is never silently truncated.
\<close>

locale string_sink =
  fixes app :: "alloc \<Rightarrow> 'b \<Rightarrow> byte list \<Rightarrow> ('b \<times> alloc) option"
    and broken :: "'b \<Rightarrow> bool"
    and contents :: "'b \<Rightarrow> byte list"
    and valid :: "'b \<Rightarrow> bool"
    and lim :: nat
  assumes app_total: "valid b \<Longrightarrow> length bs < lim \<Longrightarrow> \<exists>b' a'. app a b bs = Some (b', a')"
    and app_valid: "valid b \<Longrightarrow> length bs < lim \<Longrightarrow> app a b bs = Some (b', a') \<Longrightarrow> valid b'"
    and app_contents: "valid b \<Longrightarrow> length bs < lim \<Longrightarrow> app a b bs = Some (b', a') \<Longrightarrow> \<not> broken b' \<Longrightarrow>
      \<not> broken b \<and> contents b' = contents b @ bs"
begin

primrec app_all :: "alloc \<Rightarrow> 'b \<Rightarrow> byte list list \<Rightarrow> ('b \<times> alloc) option" where
  "app_all a b [] = Some (b, a)"
| "app_all a b (bs # bss) = Option.bind (app a b bs) (\<lambda>r. app_all (snd r) (fst r) bss)"

lemma app_all_spec:
  assumes "valid b" "\<forall>bs \<in> set bss. length bs < lim"
  shows "\<exists>b' a'. app_all a b bss = Some (b', a') \<and> valid b' \<and>
    (\<not> broken b' \<longrightarrow> \<not> broken b \<and> contents b' = contents b @ concat bss)"
  using assms
proof (induction bss arbitrary: a b)
  case Nil
  then show ?case by simp
next
  case (Cons bs bss)
  then obtain b1 a1 where 1: "app a b bs = Some (b1, a1)" "valid b1"
    using app_total [of b bs a] app_valid [of b bs a] by auto
  obtain b' a' where "app_all a1 b1 bss = Some (b', a')" "valid b'"
    "\<not> broken b' \<longrightarrow> \<not> broken b1 \<and> contents b' = contents b1 @ concat bss"
    using Cons.IH [OF 1(2), of a1] Cons.prems(2) by auto
  then show ?case
    using 1(1) app_contents [OF Cons.prems(1) _ 1(1)] Cons.prems(2) by auto
qed

end

interpretation bin_sink:
  string_sink appendBinaryPQExpBuffer PQExpBufferBroken eb_contents valid_expbuf "2 ^ 32"
proof unfold_locales
  fix b :: expbuf and bs :: "byte list" and a b' a'
  assume v: "valid_expbuf b" "length bs < 2 ^ 32"
  then show "\<exists>b' a'. appendBinaryPQExpBuffer a b bs = Some (b', a')"
    using appendBinaryPQExpBuffer_spec by blast
  assume "appendBinaryPQExpBuffer a b bs = Some (b', a')"
  then have *: "appended b bs b'"
    using appendBinaryPQExpBuffer_spec [OF v, of a] by auto
  then show "valid_expbuf b'" by (simp add: appended_def)
  assume "\<not> PQExpBufferBroken b'"
  with * show "\<not> PQExpBufferBroken b \<and> eb_contents b' = eb_contents b @ bs"
    by (simp add: appended_def)
qed

interpretation fmt_sink:
  string_sink appendPQExpBuffer PQExpBufferBroken eb_contents valid_expbuf "2 ^ 31"
proof unfold_locales
  fix b :: expbuf and bs :: "byte list" and a b' a'
  assume v: "valid_expbuf b" "length bs < 2 ^ 31"
  then show "\<exists>b' a'. appendPQExpBuffer a b bs = Some (b', a')"
    using appendPQExpBuffer_spec by blast
  assume "appendPQExpBuffer a b bs = Some (b', a')"
  then have *: "appended b bs b'"
    using appendPQExpBuffer_spec [OF v, of a] by auto
  then show "valid_expbuf b'" by (simp add: appended_def)
  assume "\<not> PQExpBufferBroken b'"
  with * show "\<not> PQExpBufferBroken b \<and> eb_contents b' = eb_contents b @ bs"
    by (simp add: appended_def)
qed

lemma printfPQExpBuffer_spec:
  assumes "valid_expbuf str" "length txt < 2 ^ 31"
  shows "\<exists>str' a'. printfPQExpBuffer a str txt = Some (str', a') \<and> valid_expbuf str' \<and>
    (\<not> PQExpBufferBroken str' \<longrightarrow> eb_contents str' = txt)"
proof -
  obtain s1 a1 where r: "resetPQExpBuffer a str = Some (s1, a1)" "valid_expbuf s1" "eb_contents s1 = []"
    using resetPQExpBuffer_spec [OF assms(1)] by blast
  then have "printfPQExpBuffer a str txt = appendPQExpBuffer a1 s1 txt"
    by (simp add: printfPQExpBuffer_def appendPQExpBuffer_def)
  then show ?thesis
    using appendPQExpBuffer_spec [OF r(2) assms(2), of a1] r(3) by (auto simp: appended_def)
qed

end
