(* ===== verification/Wchar.thy ===== *)
theory Wchar
  imports Prelude
begin

text \<open>
  Multibyte character lengths, display widths and validators:
  \<open>src/backend/utils/mb/wchar.c\<close> (compiled into the client library by the project) and the macros
  of \<open>src/include/mb/pg_wchar.h\<close>.

  A function that receives \<open>const unsigned char *s\<close> receives the bytes from \<open>s\<close> to the end of the
  object and answers \<open>None\<close> if it would read past them. The verifiers answer the length of a valid
  character or \<open>-1\<close>, as the code does. \<open>pg_wchar_table\<close> is the dispatch table, indexed by encoding
  id. The lemmas state the contract the comment "multibyte sequence validators" gives: no read
  beyond \<open>len\<close>, an answer of \<open>-1\<close> or of a length within \<open>len\<close> that agrees with \<open>mblen\<close>, no zero byte
  inside a multibyte character.
\<close>

section \<open>Macros\<close>

definition SS2 :: byte where "SS2 = 0x8e"

definition SS3 :: byte where "SS3 = 0x8f"

definition ISSJISHEAD :: "byte \<Rightarrow> bool" where
  "ISSJISHEAD c \<longleftrightarrow> (c \<ge> 0x81 \<and> c \<le> 0x9f) \<or> (c \<ge> 0xe0 \<and> c \<le> 0xfc)"

definition ISSJISTAIL :: "byte \<Rightarrow> bool" where
  "ISSJISTAIL c \<longleftrightarrow> (c \<ge> 0x40 \<and> c \<le> 0x7e) \<or> (c \<ge> 0x80 \<and> c \<le> 0xfc)"

definition IS_LC1 :: "byte \<Rightarrow> bool" where
  "IS_LC1 c \<longleftrightarrow> c \<ge> 0x81 \<and> c \<le> 0x8d"

definition IS_LCPRV1 :: "byte \<Rightarrow> bool" where
  "IS_LCPRV1 c \<longleftrightarrow> c = 0x9a \<or> c = 0x9b"

definition IS_LC2 :: "byte \<Rightarrow> bool" where
  "IS_LC2 c \<longleftrightarrow> c \<ge> 0x90 \<and> c \<le> 0x99"

definition IS_LCPRV2 :: "byte \<Rightarrow> bool" where
  "IS_LCPRV2 c \<longleftrightarrow> c = 0x9c \<or> c = 0x9d"

definition IS_EUC_RANGE_VALID :: "byte \<Rightarrow> bool" where
  "IS_EUC_RANGE_VALID c \<longleftrightarrow> c \<ge> 0xa1 \<and> c \<le> 0xfe"


section \<open>Character lengths\<close>

definition pg_ascii_mblen :: "byte list \<Rightarrow> int option" where
  "pg_ascii_mblen s = Some 1"

definition pg_euc_mblen :: "byte list \<Rightarrow> int option" where
  "pg_euc_mblen s = do {
     c \<leftarrow> rd s 0;
     Some (if c = SS2 then 2 else if c = SS3 then 3 else if IS_HIGHBIT_SET c then 2 else 1)
   }"

definition pg_eucjp_mblen :: "byte list \<Rightarrow> int option" where
  "pg_eucjp_mblen s = pg_euc_mblen s"

definition pg_euckr_mblen :: "byte list \<Rightarrow> int option" where
  "pg_euckr_mblen s = pg_euc_mblen s"

definition pg_euccn_mblen :: "byte list \<Rightarrow> int option" where
  "pg_euccn_mblen s = do { c \<leftarrow> rd s 0; Some (if IS_HIGHBIT_SET c then 2 else 1) }"

definition pg_euctw_mblen :: "byte list \<Rightarrow> int option" where
  "pg_euctw_mblen s = do {
     c \<leftarrow> rd s 0;
     Some (if c = SS2 then 4 else if c = SS3 then 3 else if IS_HIGHBIT_SET c then 2 else 1)
   }"

definition pg_johab_mblen :: "byte list \<Rightarrow> int option" where
  "pg_johab_mblen s = pg_euc_mblen s"

definition pg_utf_mblen :: "byte list \<Rightarrow> int option" where
  "pg_utf_mblen s = do {
     c \<leftarrow> rd s 0;
     Some (if c AND 0x80 = 0 then 1
           else if c AND 0xe0 = 0xc0 then 2
           else if c AND 0xf0 = 0xe0 then 3
           else if c AND 0xf8 = 0xf0 then 4
           else 1)
   }"

definition pg_mule_mblen :: "byte list \<Rightarrow> int option" where
  "pg_mule_mblen s = do {
     c \<leftarrow> rd s 0;
     Some (if IS_LC1 c then 2 else if IS_LCPRV1 c then 3 else if IS_LC2 c then 3
           else if IS_LCPRV2 c then 4 else 1)
   }"

definition pg_latin1_mblen :: "byte list \<Rightarrow> int option" where
  "pg_latin1_mblen s = Some 1"

definition pg_sjis_mblen :: "byte list \<Rightarrow> int option" where
  "pg_sjis_mblen s = do {
     c \<leftarrow> rd s 0;
     Some (if c \<ge> 0xa1 \<and> c \<le> 0xdf then 1 else if IS_HIGHBIT_SET c then 2 else 1)
   }"

definition pg_big5_mblen :: "byte list \<Rightarrow> int option" where
  "pg_big5_mblen s = do { c \<leftarrow> rd s 0; Some (if IS_HIGHBIT_SET c then 2 else 1) }"

definition pg_gbk_mblen :: "byte list \<Rightarrow> int option" where
  "pg_gbk_mblen s = do { c \<leftarrow> rd s 0; Some (if IS_HIGHBIT_SET c then 2 else 1) }"

definition pg_uhc_mblen :: "byte list \<Rightarrow> int option" where
  "pg_uhc_mblen s = do { c \<leftarrow> rd s 0; Some (if IS_HIGHBIT_SET c then 2 else 1) }"

text \<open>The only length function that looks at the second byte.\<close>

definition pg_gb18030_mblen :: "byte list \<Rightarrow> int option" where
  "pg_gb18030_mblen s = do {
     c \<leftarrow> rd s 0;
     if \<not> IS_HIGHBIT_SET c then Some 1
     else do {
       c2 \<leftarrow> rd s 1;
       Some (if (c2 \<ge> 0x40 \<and> c2 \<le> 0x7e) \<or> (c2 \<ge> 0x80 \<and> c2 \<le> 0xfe) then 2
             else if c2 \<ge> 0x30 \<and> c2 \<le> 0x39 then 4
             else 2)
     }
   }"


section \<open>Validators\<close>

definition pg_ascii_verifier :: "byte list \<Rightarrow> int \<Rightarrow> int option" where
  "pg_ascii_verifier s len = Some 1"

definition pg_eucjp_verifier :: "byte list \<Rightarrow> int \<Rightarrow> int option" where
  "pg_eucjp_verifier s len = do {
     c1 \<leftarrow> rd s 0;
     if c1 = SS2 then
       (if 2 > len then Some (-1)
        else do {
          c2 \<leftarrow> rd s 1;
          if c2 < 0xa1 \<or> c2 > 0xdf then Some (-1) else Some 2
        })
     else if c1 = SS3 then
       (if 3 > len then Some (-1)
        else do {
          c2 \<leftarrow> rd s 1;
          if \<not> IS_EUC_RANGE_VALID c2 then Some (-1)
          else do {
            c2 \<leftarrow> rd s 2;
            if \<not> IS_EUC_RANGE_VALID c2 then Some (-1) else Some 3
          }
        })
     else if IS_HIGHBIT_SET c1 then
       (if 2 > len then Some (-1)
        else if \<not> IS_EUC_RANGE_VALID c1 then Some (-1)
        else do {
          c2 \<leftarrow> rd s 1;
          if \<not> IS_EUC_RANGE_VALID c2 then Some (-1) else Some 2
        })
     else Some 1
   }"

definition pg_euckr_verifier :: "byte list \<Rightarrow> int \<Rightarrow> int option" where
  "pg_euckr_verifier s len = do {
     c1 \<leftarrow> rd s 0;
     if IS_HIGHBIT_SET c1 then
       (if 2 > len then Some (-1)
        else if \<not> IS_EUC_RANGE_VALID c1 then Some (-1)
        else do {
          c2 \<leftarrow> rd s 1;
          if \<not> IS_EUC_RANGE_VALID c2 then Some (-1) else Some 2
        })
     else Some 1
   }"

definition pg_euccn_verifier :: "byte list \<Rightarrow> int \<Rightarrow> int option" where
  "pg_euccn_verifier = pg_euckr_verifier"

definition pg_euctw_verifier :: "byte list \<Rightarrow> int \<Rightarrow> int option" where
  "pg_euctw_verifier s len = do {
     c1 \<leftarrow> rd s 0;
     if c1 = SS2 then
       (if 4 > len then Some (-1)
        else do {
          c2 \<leftarrow> rd s 1;
          if c2 < 0xa1 \<or> c2 > 0xa7 then Some (-1)
          else do {
            c2 \<leftarrow> rd s 2;
            if \<not> IS_EUC_RANGE_VALID c2 then Some (-1)
            else do {
              c2 \<leftarrow> rd s 3;
              if \<not> IS_EUC_RANGE_VALID c2 then Some (-1) else Some 4
            }
          }
        })
     else if c1 = SS3 then Some (-1)
     else if IS_HIGHBIT_SET c1 then
       (if 2 > len then Some (-1)
        else do {
          c2 \<leftarrow> rd s 1;
          if \<not> IS_EUC_RANGE_VALID c2 then Some (-1) else Some 2
        })
     else Some 1
   }"

text \<open>
  The loop \<open>while (--l > 0) { c = *++s; if (bad c) return -1; }\<close> that six of the verifiers share,
  over the \<open>n\<close> bytes that follow the first one.
\<close>

fun tail_bytes_ok :: "(byte \<Rightarrow> bool) \<Rightarrow> byte list \<Rightarrow> nat \<Rightarrow> nat \<Rightarrow> bool option" where
  "tail_bytes_ok ok s i 0 = Some True"
| "tail_bytes_ok ok s i (Suc n) = do {
     c \<leftarrow> rd s i;
     if \<not> ok c then Some False else tail_bytes_ok ok s (Suc i) n
   }"

definition pg_johab_verifier :: "byte list \<Rightarrow> int \<Rightarrow> int option" where
  "pg_johab_verifier s len = do {
     mbl \<leftarrow> pg_johab_mblen s;
     if len < mbl then Some (-1)
     else do {
       c \<leftarrow> rd s 0;
       if \<not> IS_HIGHBIT_SET c then Some mbl
       else do {
         ok \<leftarrow> tail_bytes_ok IS_EUC_RANGE_VALID s 1 (nat (mbl - 1));
         Some (if ok then mbl else -1)
       }
     }
   }"

definition pg_mule_verifier :: "byte list \<Rightarrow> int \<Rightarrow> int option" where
  "pg_mule_verifier s len = do {
     mbl \<leftarrow> pg_mule_mblen s;
     if len < mbl then Some (-1)
     else do {
       ok \<leftarrow> tail_bytes_ok IS_HIGHBIT_SET s 1 (nat (mbl - 1));
       Some (if ok then mbl else -1)
     }
   }"

definition pg_latin1_verifier :: "byte list \<Rightarrow> int \<Rightarrow> int option" where
  "pg_latin1_verifier s len = Some 1"

definition pg_sjis_verifier :: "byte list \<Rightarrow> int \<Rightarrow> int option" where
  "pg_sjis_verifier s len = do {
     mbl \<leftarrow> pg_sjis_mblen s;
     if len < mbl then Some (-1)
     else if mbl = 1 then Some mbl
     else do {
       c1 \<leftarrow> rd s 0;
       c2 \<leftarrow> rd s 1;
       if \<not> ISSJISHEAD c1 \<or> \<not> ISSJISTAIL c2 then Some (-1) else Some mbl
     }
   }"

definition pg_big5_verifier :: "byte list \<Rightarrow> int \<Rightarrow> int option" where
  "pg_big5_verifier s len = do {
     mbl \<leftarrow> pg_big5_mblen s;
     if len < mbl then Some (-1)
     else do {
       ok \<leftarrow> tail_bytes_ok (\<lambda>c. c \<noteq> 0) s 1 (nat (mbl - 1));
       Some (if ok then mbl else -1)
     }
   }"

definition pg_gbk_verifier :: "byte list \<Rightarrow> int \<Rightarrow> int option" where
  "pg_gbk_verifier s len = do {
     mbl \<leftarrow> pg_gbk_mblen s;
     if len < mbl then Some (-1)
     else do {
       ok \<leftarrow> tail_bytes_ok (\<lambda>c. c \<noteq> 0) s 1 (nat (mbl - 1));
       Some (if ok then mbl else -1)
     }
   }"

definition pg_uhc_verifier :: "byte list \<Rightarrow> int \<Rightarrow> int option" where
  "pg_uhc_verifier s len = do {
     mbl \<leftarrow> pg_uhc_mblen s;
     if len < mbl then Some (-1)
     else do {
       ok \<leftarrow> tail_bytes_ok (\<lambda>c. c \<noteq> 0) s 1 (nat (mbl - 1));
       Some (if ok then mbl else -1)
     }
   }"

definition pg_gb18030_verifier :: "byte list \<Rightarrow> int \<Rightarrow> int option" where
  "pg_gb18030_verifier s len = do {
     mbl \<leftarrow> pg_gb18030_mblen s;
     if len < mbl then Some (-1)
     else do {
       ok \<leftarrow> tail_bytes_ok (\<lambda>c. c \<noteq> 0) s 1 (nat (mbl - 1));
       Some (if ok then mbl else -1)
     }
   }"

text \<open>
  \<open>pg_utf8_islegal\<close>: the cases fall through, so length 4 checks byte 3, then 2, then 1, then 0.
\<close>

definition utf8_trail_bad :: "byte \<Rightarrow> bool" where
  "utf8_trail_bad a \<longleftrightarrow> a < 0x80 \<or> a > 0xBF"

definition utf8_case1 :: "byte list \<Rightarrow> bool option" where
  "utf8_case1 source = do {
     a \<leftarrow> rd source 0;
     Some (if a \<ge> 0x80 \<and> a < 0xC2 then False else if a > 0xF4 then False else True)
   }"

definition utf8_case2 :: "byte list \<Rightarrow> bool option" where
  "utf8_case2 source = do {
     a \<leftarrow> rd source 1;
     c \<leftarrow> rd source 0;
     if (if c = 0xE0 then a < 0xA0 \<or> a > 0xBF
         else if c = 0xED then a < 0x80 \<or> a > 0x9F
         else if c = 0xF0 then a < 0x90 \<or> a > 0xBF
         else if c = 0xF4 then a < 0x80 \<or> a > 0x8F
         else utf8_trail_bad a)
     then Some False else utf8_case1 source
   }"

definition utf8_case3 :: "byte list \<Rightarrow> bool option" where
  "utf8_case3 source = do {
     a \<leftarrow> rd source 2;
     if utf8_trail_bad a then Some False else utf8_case2 source
   }"

definition utf8_case4 :: "byte list \<Rightarrow> bool option" where
  "utf8_case4 source = do {
     a \<leftarrow> rd source 3;
     if utf8_trail_bad a then Some False else utf8_case3 source
   }"

definition pg_utf8_islegal :: "byte list \<Rightarrow> int \<Rightarrow> bool option" where
  "pg_utf8_islegal source l =
     (if l = 4 then utf8_case4 source
      else if l = 3 then utf8_case3 source
      else if l = 2 then utf8_case2 source
      else if l = 1 then utf8_case1 source
      else Some False)"

definition pg_utf8_verifier :: "byte list \<Rightarrow> int \<Rightarrow> int option" where
  "pg_utf8_verifier s len = do {
     l \<leftarrow> pg_utf_mblen s;
     if len < l then Some (-1)
     else do {
       legal \<leftarrow> pg_utf8_islegal s l;
       Some (if \<not> legal then -1 else l)
     }
   }"


section \<open>The validators' contract\<close>

text \<open>
  The contract of an \<open>mbverify\<close> function, with its \<open>mblen\<close>. \<open>slack\<close> is how many bytes past \<open>len\<close>
  the verifier may read: 0 for all of them but \<open>GB18030\<close>, whose \<open>mblen\<close> reads the second byte
  before \<open>len\<close> is checked.
\<close>

locale mb_verifier =
  fixes mblen :: "byte list \<Rightarrow> int option"
    and verify :: "byte list \<Rightarrow> int \<Rightarrow> int option"
    and slack :: nat
  assumes total: "0 < len \<Longrightarrow> len + int slack \<le> int (length s) \<Longrightarrow> \<exists>l. verify s len = Some l"
    and range: "0 < len \<Longrightarrow> verify s len = Some l \<Longrightarrow> l = - 1 \<or> (0 < l \<and> l \<le> len)"
    and agrees: "verify s len = Some l \<Longrightarrow> 0 < l \<Longrightarrow> s \<noteq> [] \<Longrightarrow> mblen s = Some l"
    and ascii: "0 < len \<Longrightarrow> \<not> IS_HIGHBIT_SET c \<Longrightarrow> verify (c # r) len = Some 1"
    and no_nul: "verify s len = Some l \<Longrightarrow> 0 < i \<Longrightarrow> int i < l \<Longrightarrow> s ! i \<noteq> 0"
begin

lemma progress:
  assumes "0 < len" "len + int slack \<le> int (length s)" "verify s len = Some l" "l \<noteq> - 1"
  shows "nat (len - l) < nat len" and "len - l + int slack \<le> int (length (drop (nat l) s))"
  using assms range [OF assms(1,3)] by auto

end

named_theorems verify_defs "definitions unfolded to check a verifier against its contract"

lemmas [verify_defs] =
  pg_ascii_verifier_def pg_ascii_mblen_def pg_latin1_verifier_def pg_latin1_mblen_def
  pg_eucjp_verifier_def pg_eucjp_mblen_def pg_euckr_verifier_def pg_euckr_mblen_def
  pg_euccn_verifier_def pg_euccn_mblen_def pg_euctw_verifier_def pg_euctw_mblen_def
  pg_johab_verifier_def pg_johab_mblen_def pg_mule_verifier_def pg_mule_mblen_def
  pg_sjis_verifier_def pg_sjis_mblen_def pg_big5_verifier_def pg_big5_mblen_def
  pg_gbk_verifier_def pg_gbk_mblen_def pg_uhc_verifier_def pg_uhc_mblen_def
  pg_gb18030_verifier_def pg_gb18030_mblen_def pg_euc_mblen_def

lemma tail_bytes_ok_in:
  "i + n \<le> length s \<Longrightarrow> tail_bytes_ok ok s i n = Some (\<forall>j. i \<le> j \<and> j < i + n \<longrightarrow> ok (s ! j))"
proof (induction n arbitrary: i)
  case 0
  then show ?case by auto
next
  case (Suc n)
  have *: "(\<forall>j. i \<le> j \<and> j < i + Suc n \<longrightarrow> ok (s ! j)) \<longleftrightarrow>
    ok (s ! i) \<and> (\<forall>j. Suc i \<le> j \<and> j < Suc i + n \<longrightarrow> ok (s ! j))"
    by (auto simp: Suc_le_eq) (metis le_neq_implies_less)
  show ?case
    unfolding * using Suc by (simp add: mem_simps)
qed

lemma tail_bytes_ok_True:
  "tail_bytes_ok ok s i n = Some True \<Longrightarrow> i \<le> j \<Longrightarrow> j < i + n \<Longrightarrow> j < length s \<and> ok (s ! j)"
proof (induction n arbitrary: i)
  case 0
  then show ?case by simp
next
  case (Suc n)
  then show ?case
    by (cases "i = j") (auto simp: bind_Some_iff rd_Some_iff split: if_splits)
qed

lemma utf_c0: "(c AND 0xe0 = 0xc0) = (0xc0 \<le> c \<and> c \<le> (0xdf::byte))"
  using and_high_bits [of "0xe0" 5 c "0xc0"] unat_byte [of c]
  by (simp add: word_le_nat_alt) arith

lemma utf_e0: "(c AND 0xf0 = 0xe0) = (0xe0 \<le> c \<and> c \<le> (0xef::byte))"
  using and_high_bits [of "0xf0" 4 c "0xe0"] unat_byte [of c]
  by (simp add: word_le_nat_alt) arith

lemma utf_f0: "(c AND 0xf8 = 0xf0) = (0xf0 \<le> c \<and> c \<le> (0xf7::byte))"
  using and_high_bits [of "0xf8" 3 c "0xf0"] unat_byte [of c]
  by (simp add: word_le_nat_alt) arith

lemma utf_80: "(c AND 0x80 = 0) = (c < (0x80::byte))"
  using not_high_lt [of c] by (simp add: IS_HIGHBIT_SET_def)

lemmas utf_ranges = utf_80 utf_c0 utf_e0 utf_f0

lemma pg_utf_mblen_ranges:
  "pg_utf_mblen (c # r) =
     Some (if c < 0x80 then 1 else if 0xc0 \<le> c \<and> c \<le> 0xdf then 2
           else if 0xe0 \<le> c \<and> c \<le> 0xef then 3 else if 0xf0 \<le> c \<and> c \<le> 0xf7 then 4 else 1)"
  by (simp add: pg_utf_mblen_def utf_ranges)


lemma SS_high [simp]: "IS_HIGHBIT_SET SS2" "IS_HIGHBIT_SET SS3" "SS2 \<noteq> SS3" "SS3 \<noteq> SS2"
  by (simp_all add: SS2_def SS3_def IS_HIGHBIT_SET_def)

lemma zero_byte [simp]: "\<not> IS_EUC_RANGE_VALID 0" "\<not> IS_HIGHBIT_SET 0" "\<not> ISSJISTAIL 0"
  by (simp_all add: IS_EUC_RANGE_VALID_def IS_HIGHBIT_SET_def ISSJISTAIL_def)

lemma euc_range_not_SS [simp]: "\<not> IS_EUC_RANGE_VALID SS2" "\<not> IS_EUC_RANGE_VALID SS3"
  by (simp_all add: IS_EUC_RANGE_VALID_def SS2_def SS3_def)

interpretation ascii: mb_verifier pg_ascii_mblen pg_ascii_verifier 0
  by unfold_locales (auto simp: verify_defs)

interpretation latin1: mb_verifier pg_latin1_mblen pg_latin1_verifier 0
  by unfold_locales (auto simp: verify_defs)

interpretation eucjp: mb_verifier pg_eucjp_mblen pg_eucjp_verifier 0
proof unfold_locales
  fix len l :: int and s r :: "byte list" and c i
  show "0 < len \<Longrightarrow> len + int 0 \<le> int (length s) \<Longrightarrow> \<exists>l. pg_eucjp_verifier s len = Some l"
    by (cases s) (auto simp: verify_defs mem_simps simp del: length_greater_0_conv)
  show "0 < len \<Longrightarrow> pg_eucjp_verifier s len = Some l \<Longrightarrow> l = - 1 \<or> (0 < l \<and> l \<le> len)"
    by (cases s) (auto simp: verify_defs bind_Some_iff split: if_splits)
  show "pg_eucjp_verifier s len = Some l \<Longrightarrow> 0 < l \<Longrightarrow> s \<noteq> [] \<Longrightarrow> pg_eucjp_mblen s = Some l"
    by (cases s) (auto simp: verify_defs bind_Some_iff split: if_splits)
  show "0 < len \<Longrightarrow> \<not> IS_HIGHBIT_SET c \<Longrightarrow> pg_eucjp_verifier (c # r) len = Some 1"
    by (auto simp: verify_defs)
  assume v: "pg_eucjp_verifier s len = Some l" "0 < i" "int i < l"
  then have "i = 1 \<or> i = 2 \<or> i = 3"
    by (cases s) (auto simp: verify_defs bind_Some_iff split: if_splits)
  then show "s ! i \<noteq> 0"
    by (elim disjE; use v in \<open>auto simp: verify_defs bind_Some_iff rd_Some_iff
        dest!: tail_bytes_ok_True [where j = i] split: if_splits\<close>)
qed

interpretation euckr: mb_verifier pg_euckr_mblen pg_euckr_verifier 0
proof unfold_locales
  fix len l :: int and s r :: "byte list" and c i
  show "0 < len \<Longrightarrow> len + int 0 \<le> int (length s) \<Longrightarrow> \<exists>l. pg_euckr_verifier s len = Some l"
    by (cases s) (auto simp: verify_defs mem_simps simp del: length_greater_0_conv)
  show "0 < len \<Longrightarrow> pg_euckr_verifier s len = Some l \<Longrightarrow> l = - 1 \<or> (0 < l \<and> l \<le> len)"
    by (cases s) (auto simp: verify_defs bind_Some_iff split: if_splits)
  show "pg_euckr_verifier s len = Some l \<Longrightarrow> 0 < l \<Longrightarrow> s \<noteq> [] \<Longrightarrow> pg_euckr_mblen s = Some l"
    by (cases s) (auto simp: verify_defs bind_Some_iff split: if_splits)
  show "0 < len \<Longrightarrow> \<not> IS_HIGHBIT_SET c \<Longrightarrow> pg_euckr_verifier (c # r) len = Some 1"
    by (auto simp: verify_defs)
  assume v: "pg_euckr_verifier s len = Some l" "0 < i" "int i < l"
  then have "i = 1 \<or> i = 2 \<or> i = 3"
    by (cases s) (auto simp: verify_defs bind_Some_iff split: if_splits)
  then show "s ! i \<noteq> 0"
    by (elim disjE; use v in \<open>auto simp: verify_defs bind_Some_iff rd_Some_iff
        dest!: tail_bytes_ok_True [where j = i] split: if_splits\<close>)
qed

interpretation euccn: mb_verifier pg_euccn_mblen pg_euccn_verifier 0
proof unfold_locales
  fix len l :: int and s r :: "byte list" and c i
  show "0 < len \<Longrightarrow> len + int 0 \<le> int (length s) \<Longrightarrow> \<exists>l. pg_euccn_verifier s len = Some l"
    by (cases s) (auto simp: verify_defs mem_simps simp del: length_greater_0_conv)
  show "0 < len \<Longrightarrow> pg_euccn_verifier s len = Some l \<Longrightarrow> l = - 1 \<or> (0 < l \<and> l \<le> len)"
    by (cases s) (auto simp: verify_defs bind_Some_iff split: if_splits)
  show "pg_euccn_verifier s len = Some l \<Longrightarrow> 0 < l \<Longrightarrow> s \<noteq> [] \<Longrightarrow> pg_euccn_mblen s = Some l"
    by (cases s) (auto simp: verify_defs bind_Some_iff split: if_splits)
  show "0 < len \<Longrightarrow> \<not> IS_HIGHBIT_SET c \<Longrightarrow> pg_euccn_verifier (c # r) len = Some 1"
    by (auto simp: verify_defs)
  assume v: "pg_euccn_verifier s len = Some l" "0 < i" "int i < l"
  then have "i = 1 \<or> i = 2 \<or> i = 3"
    by (cases s) (auto simp: verify_defs bind_Some_iff split: if_splits)
  then show "s ! i \<noteq> 0"
    by (elim disjE; use v in \<open>auto simp: verify_defs bind_Some_iff rd_Some_iff
        dest!: tail_bytes_ok_True [where j = i] split: if_splits\<close>)
qed

interpretation euctw: mb_verifier pg_euctw_mblen pg_euctw_verifier 0
proof unfold_locales
  fix len l :: int and s r :: "byte list" and c i
  show "0 < len \<Longrightarrow> len + int 0 \<le> int (length s) \<Longrightarrow> \<exists>l. pg_euctw_verifier s len = Some l"
    by (cases s) (auto simp: verify_defs mem_simps simp del: length_greater_0_conv)
  show "0 < len \<Longrightarrow> pg_euctw_verifier s len = Some l \<Longrightarrow> l = - 1 \<or> (0 < l \<and> l \<le> len)"
    by (cases s) (auto simp: verify_defs bind_Some_iff split: if_splits)
  show "pg_euctw_verifier s len = Some l \<Longrightarrow> 0 < l \<Longrightarrow> s \<noteq> [] \<Longrightarrow> pg_euctw_mblen s = Some l"
    by (cases s) (auto simp: verify_defs bind_Some_iff split: if_splits)
  show "0 < len \<Longrightarrow> \<not> IS_HIGHBIT_SET c \<Longrightarrow> pg_euctw_verifier (c # r) len = Some 1"
    by (auto simp: verify_defs)
  assume v: "pg_euctw_verifier s len = Some l" "0 < i" "int i < l"
  then have "i = 1 \<or> i = 2 \<or> i = 3"
    by (cases s) (auto simp: verify_defs bind_Some_iff split: if_splits)
  then show "s ! i \<noteq> 0"
    by (elim disjE; use v in \<open>auto simp: verify_defs bind_Some_iff rd_Some_iff
        dest!: tail_bytes_ok_True [where j = i] split: if_splits\<close>)
qed

interpretation johab: mb_verifier pg_johab_mblen pg_johab_verifier 0
proof unfold_locales
  fix len l :: int and s r :: "byte list" and c i
  show "0 < len \<Longrightarrow> len + int 0 \<le> int (length s) \<Longrightarrow> \<exists>l. pg_johab_verifier s len = Some l"
    by (cases s) (auto simp: verify_defs mem_simps tail_bytes_ok_in simp del: length_greater_0_conv)
  show "0 < len \<Longrightarrow> pg_johab_verifier s len = Some l \<Longrightarrow> l = - 1 \<or> (0 < l \<and> l \<le> len)"
    by (cases s) (auto simp: verify_defs bind_Some_iff split: if_splits)
  show "pg_johab_verifier s len = Some l \<Longrightarrow> 0 < l \<Longrightarrow> s \<noteq> [] \<Longrightarrow> pg_johab_mblen s = Some l"
    by (cases s) (auto simp: verify_defs bind_Some_iff split: if_splits)
  show "0 < len \<Longrightarrow> \<not> IS_HIGHBIT_SET c \<Longrightarrow> pg_johab_verifier (c # r) len = Some 1"
    by (auto simp: verify_defs)
  assume v: "pg_johab_verifier s len = Some l" "0 < i" "int i < l"
  then have "i = 1 \<or> i = 2 \<or> i = 3"
    by (cases s) (auto simp: verify_defs bind_Some_iff split: if_splits)
  then show "s ! i \<noteq> 0"
    by (elim disjE; use v in \<open>auto simp: verify_defs bind_Some_iff rd_Some_iff
        dest!: tail_bytes_ok_True [where j = i] split: if_splits\<close>)
qed

interpretation big5: mb_verifier pg_big5_mblen pg_big5_verifier 0
proof unfold_locales
  fix len l :: int and s r :: "byte list" and c i
  show "0 < len \<Longrightarrow> len + int 0 \<le> int (length s) \<Longrightarrow> \<exists>l. pg_big5_verifier s len = Some l"
    by (cases s) (auto simp: verify_defs mem_simps tail_bytes_ok_in simp del: length_greater_0_conv)
  show "0 < len \<Longrightarrow> pg_big5_verifier s len = Some l \<Longrightarrow> l = - 1 \<or> (0 < l \<and> l \<le> len)"
    by (cases s) (auto simp: verify_defs bind_Some_iff split: if_splits)
  show "pg_big5_verifier s len = Some l \<Longrightarrow> 0 < l \<Longrightarrow> s \<noteq> [] \<Longrightarrow> pg_big5_mblen s = Some l"
    by (cases s) (auto simp: verify_defs bind_Some_iff split: if_splits)
  show "0 < len \<Longrightarrow> \<not> IS_HIGHBIT_SET c \<Longrightarrow> pg_big5_verifier (c # r) len = Some 1"
    by (auto simp: verify_defs)
  assume v: "pg_big5_verifier s len = Some l" "0 < i" "int i < l"
  then have "i = 1 \<or> i = 2 \<or> i = 3"
    by (cases s) (auto simp: verify_defs bind_Some_iff split: if_splits)
  then show "s ! i \<noteq> 0"
    by (elim disjE; use v in \<open>auto simp: verify_defs bind_Some_iff rd_Some_iff
        dest!: tail_bytes_ok_True [where j = i] split: if_splits\<close>)
qed

interpretation gbk: mb_verifier pg_gbk_mblen pg_gbk_verifier 0
proof unfold_locales
  fix len l :: int and s r :: "byte list" and c i
  show "0 < len \<Longrightarrow> len + int 0 \<le> int (length s) \<Longrightarrow> \<exists>l. pg_gbk_verifier s len = Some l"
    by (cases s) (auto simp: verify_defs mem_simps tail_bytes_ok_in simp del: length_greater_0_conv)
  show "0 < len \<Longrightarrow> pg_gbk_verifier s len = Some l \<Longrightarrow> l = - 1 \<or> (0 < l \<and> l \<le> len)"
    by (cases s) (auto simp: verify_defs bind_Some_iff split: if_splits)
  show "pg_gbk_verifier s len = Some l \<Longrightarrow> 0 < l \<Longrightarrow> s \<noteq> [] \<Longrightarrow> pg_gbk_mblen s = Some l"
    by (cases s) (auto simp: verify_defs bind_Some_iff split: if_splits)
  show "0 < len \<Longrightarrow> \<not> IS_HIGHBIT_SET c \<Longrightarrow> pg_gbk_verifier (c # r) len = Some 1"
    by (auto simp: verify_defs)
  assume v: "pg_gbk_verifier s len = Some l" "0 < i" "int i < l"
  then have "i = 1 \<or> i = 2 \<or> i = 3"
    by (cases s) (auto simp: verify_defs bind_Some_iff split: if_splits)
  then show "s ! i \<noteq> 0"
    by (elim disjE; use v in \<open>auto simp: verify_defs bind_Some_iff rd_Some_iff
        dest!: tail_bytes_ok_True [where j = i] split: if_splits\<close>)
qed

interpretation uhc: mb_verifier pg_uhc_mblen pg_uhc_verifier 0
proof unfold_locales
  fix len l :: int and s r :: "byte list" and c i
  show "0 < len \<Longrightarrow> len + int 0 \<le> int (length s) \<Longrightarrow> \<exists>l. pg_uhc_verifier s len = Some l"
    by (cases s) (auto simp: verify_defs mem_simps tail_bytes_ok_in simp del: length_greater_0_conv)
  show "0 < len \<Longrightarrow> pg_uhc_verifier s len = Some l \<Longrightarrow> l = - 1 \<or> (0 < l \<and> l \<le> len)"
    by (cases s) (auto simp: verify_defs bind_Some_iff split: if_splits)
  show "pg_uhc_verifier s len = Some l \<Longrightarrow> 0 < l \<Longrightarrow> s \<noteq> [] \<Longrightarrow> pg_uhc_mblen s = Some l"
    by (cases s) (auto simp: verify_defs bind_Some_iff split: if_splits)
  show "0 < len \<Longrightarrow> \<not> IS_HIGHBIT_SET c \<Longrightarrow> pg_uhc_verifier (c # r) len = Some 1"
    by (auto simp: verify_defs)
  assume v: "pg_uhc_verifier s len = Some l" "0 < i" "int i < l"
  then have "i = 1 \<or> i = 2 \<or> i = 3"
    by (cases s) (auto simp: verify_defs bind_Some_iff split: if_splits)
  then show "s ! i \<noteq> 0"
    by (elim disjE; use v in \<open>auto simp: verify_defs bind_Some_iff rd_Some_iff
        dest!: tail_bytes_ok_True [where j = i] split: if_splits\<close>)
qed

lemma pg_gb18030_mblen_cases:
  "pg_gb18030_mblen s = Some m \<Longrightarrow> m = 1 \<or> m = 2 \<or> m = 4"
  by (auto simp: pg_gb18030_mblen_def bind_Some_iff split: if_split_asm)

interpretation gb18030: mb_verifier pg_gb18030_mblen pg_gb18030_verifier 1
proof unfold_locales
  fix len l :: int and s r :: "byte list" and c i
  show "\<exists>l. pg_gb18030_verifier s len = Some l" if "0 < len" "len + int 1 \<le> int (length s)"
  proof -
    have "rd s 0 = Some (s ! 0)" "rd s 1 = Some (s ! 1)"
      using that by (auto simp: rd_def)
    then have "\<exists>l. pg_gb18030_mblen s = Some l \<and> 0 < l"
      by (simp add: pg_gb18030_mblen_def)
    then obtain l where "pg_gb18030_mblen s = Some l" "0 < l" by blast
    then show ?thesis
      using that by (cases "len < l") (auto simp: pg_gb18030_verifier_def tail_bytes_ok_in)
  qed
  show "0 < len \<Longrightarrow> pg_gb18030_verifier s len = Some l \<Longrightarrow> l = - 1 \<or> (0 < l \<and> l \<le> len)"
    by (auto simp: pg_gb18030_verifier_def bind_Some_iff dest!: pg_gb18030_mblen_cases split: if_split_asm)
  show "pg_gb18030_verifier s len = Some l \<Longrightarrow> 0 < l \<Longrightarrow> s \<noteq> [] \<Longrightarrow> pg_gb18030_mblen s = Some l"
    by (auto simp: pg_gb18030_verifier_def bind_Some_iff split: if_split_asm)
  show "0 < len \<Longrightarrow> \<not> IS_HIGHBIT_SET c \<Longrightarrow> pg_gb18030_verifier (c # r) len = Some 1"
    by (auto simp: verify_defs)
  assume v: "pg_gb18030_verifier s len = Some l" "0 < i" "int i < l"
  then have "pg_gb18030_mblen s = Some l" "tail_bytes_ok (\<lambda>c. c \<noteq> 0) s 1 (nat (l - 1)) = Some True"
    by (auto simp: pg_gb18030_verifier_def bind_Some_iff split: if_split_asm)
  then show "s ! i \<noteq> 0"
    using v tail_bytes_ok_True [of "\<lambda>c. c \<noteq> 0" s 1 "nat (l - 1)" i] by auto
qed

lemma mule_high: "IS_LC1 c \<Longrightarrow> IS_HIGHBIT_SET c" "IS_LCPRV1 c \<Longrightarrow> IS_HIGHBIT_SET c"
  "IS_LC2 c \<Longrightarrow> IS_HIGHBIT_SET c" "IS_LCPRV2 c \<Longrightarrow> IS_HIGHBIT_SET c"
  by (auto simp: IS_LC1_def IS_LCPRV1_def IS_LC2_def IS_LCPRV2_def high_ge
      intro: order_trans [of _ "0x81"] order_trans [of _ "0x90"])

lemma sjis_kana_high: "0xa1 \<le> c \<Longrightarrow> IS_HIGHBIT_SET c"
  by (auto simp: high_ge intro: order_trans [of _ "0xa1"])

interpretation mule: mb_verifier pg_mule_mblen pg_mule_verifier 0
proof unfold_locales
  fix len l :: int and s r :: "byte list" and c i
  show "0 < len \<Longrightarrow> len + int 0 \<le> int (length s) \<Longrightarrow> \<exists>l. pg_mule_verifier s len = Some l"
    by (cases s) (auto simp: verify_defs mem_simps tail_bytes_ok_in simp del: length_greater_0_conv)
  show "0 < len \<Longrightarrow> pg_mule_verifier s len = Some l \<Longrightarrow> l = - 1 \<or> (0 < l \<and> l \<le> len)"
    by (cases s) (auto simp: verify_defs bind_Some_iff split: if_splits)
  show "pg_mule_verifier s len = Some l \<Longrightarrow> 0 < l \<Longrightarrow> s \<noteq> [] \<Longrightarrow> pg_mule_mblen s = Some l"
    by (cases s) (auto simp: verify_defs bind_Some_iff split: if_splits)
  show "0 < len \<Longrightarrow> \<not> IS_HIGHBIT_SET c \<Longrightarrow> pg_mule_verifier (c # r) len = Some 1"
    by (auto simp: verify_defs dest: mule_high)
  assume v: "pg_mule_verifier s len = Some l" "0 < i" "int i < l"
  then have "i = 1 \<or> i = 2 \<or> i = 3"
    by (cases s) (auto simp: verify_defs bind_Some_iff split: if_splits)
  then show "s ! i \<noteq> 0"
    by (elim disjE; use v in \<open>auto simp: verify_defs bind_Some_iff rd_Some_iff
        dest!: tail_bytes_ok_True [where j = i] split: if_splits\<close>)
qed

interpretation sjis: mb_verifier pg_sjis_mblen pg_sjis_verifier 0
proof unfold_locales
  fix len l :: int and s r :: "byte list" and c i
  show "0 < len \<Longrightarrow> len + int 0 \<le> int (length s) \<Longrightarrow> \<exists>l. pg_sjis_verifier s len = Some l"
    by (cases s) (auto simp: verify_defs mem_simps simp del: length_greater_0_conv)
  show "0 < len \<Longrightarrow> pg_sjis_verifier s len = Some l \<Longrightarrow> l = - 1 \<or> (0 < l \<and> l \<le> len)"
    by (cases s) (auto simp: verify_defs bind_Some_iff split: if_splits)
  show "pg_sjis_verifier s len = Some l \<Longrightarrow> 0 < l \<Longrightarrow> s \<noteq> [] \<Longrightarrow> pg_sjis_mblen s = Some l"
    by (cases s) (auto simp: verify_defs bind_Some_iff split: if_splits)
  show "0 < len \<Longrightarrow> \<not> IS_HIGHBIT_SET c \<Longrightarrow> pg_sjis_verifier (c # r) len = Some 1"
    by (auto simp: verify_defs dest: sjis_kana_high)
  assume v: "pg_sjis_verifier s len = Some l" "0 < i" "int i < l"
  then have "i = 1 \<or> i = 2 \<or> i = 3"
    by (cases s) (auto simp: verify_defs bind_Some_iff split: if_splits)
  then show "s ! i \<noteq> 0"
    by (elim disjE; use v in \<open>auto simp: verify_defs bind_Some_iff rd_Some_iff
        dest!: tail_bytes_ok_True [where j = i] split: if_splits\<close>)
qed

end
