(* ===== verification/Utf8.thy ===== *)
theory Utf8
  imports Wchar
begin

text \<open>
  UTF-8 in \<open>src/backend/utils/mb/wchar.c\<close>: encoding a code point (\<open>unicode_to_utf8\<close>), decoding one
  (\<open>utf8_to_unicode\<close>), and the validator \<open>pg_utf8_verifier\<close> with \<open>pg_utf8_islegal\<close> of theory
  \<open>Wchar\<close>. The lemmas show that decoding inverts encoding and that the validator accepts exactly
  the encodings of Unicode scalar values, each in its one shortest form.
\<close>

definition unicode_to_utf8 :: "pg_wchar \<Rightarrow> byte list" where
  "unicode_to_utf8 c =
     (if c \<le> 0x7F then [ucast c]
      else if c \<le> 0x7FF then
        [ucast (0xC0 OR (drop_bit 6 c AND 0x1F)),
         ucast (0x80 OR (c AND 0x3F))]
      else if c \<le> 0xFFFF then
        [ucast (0xE0 OR (drop_bit 12 c AND 0x0F)),
         ucast (0x80 OR (drop_bit 6 c AND 0x3F)),
         ucast (0x80 OR (c AND 0x3F))]
      else
        [ucast (0xF0 OR (drop_bit 18 c AND 0x07)),
         ucast (0x80 OR (drop_bit 12 c AND 0x3F)),
         ucast (0x80 OR (drop_bit 6 c AND 0x3F)),
         ucast (0x80 OR (c AND 0x3F))])"

definition utf8_to_unicode :: "byte list \<Rightarrow> pg_wchar option" where
  "utf8_to_unicode c = do {
     c0 \<leftarrow> rd c 0;
     if c0 AND 0x80 = 0 then Some (ucast c0)
     else if c0 AND 0xe0 = 0xc0 then do {
       c1 \<leftarrow> rd c 1;
       Some (push_bit 6 (ucast c0 AND 0x1f) OR (ucast c1 AND 0x3f))
     }
     else if c0 AND 0xf0 = 0xe0 then do {
       c1 \<leftarrow> rd c 1;
       c2 \<leftarrow> rd c 2;
       Some (push_bit 12 (ucast c0 AND 0x0f) OR push_bit 6 (ucast c1 AND 0x3f) OR (ucast c2 AND 0x3f))
     }
     else if c0 AND 0xf8 = 0xf0 then do {
       c1 \<leftarrow> rd c 1;
       c2 \<leftarrow> rd c 2;
       c3 \<leftarrow> rd c 3;
       Some (push_bit 18 (ucast c0 AND 0x07) OR push_bit 12 (ucast c1 AND 0x3f) OR
             push_bit 6 (ucast c2 AND 0x3f) OR (ucast c3 AND 0x3f))
     }
     else Some 0xffffffff
   }"


section \<open>Both directions as arithmetic\<close>

definition utf8_nats :: "nat \<Rightarrow> nat list" where
  "utf8_nats n =
     (if n < 128 then [n]
      else if n < 2048 then [192 + n div 64 mod 32, 128 + n mod 64]
      else if n < 65536 then [224 + n div 4096 mod 16, 128 + n div 64 mod 64, 128 + n mod 64]
      else [240 + n div 262144 mod 8, 128 + n div 4096 mod 64, 128 + n div 64 mod 64, 128 + n mod 64])"

lemma unat_field:
  fixes x m b :: pg_wchar
  assumes "m = 2 ^ k - 1" "unat b mod 2 ^ k = 0" "unat b + 2 ^ k \<le> 256"
  shows "unat (ucast (b OR (x AND m)) :: byte) = unat b + unat x mod 2 ^ k"
proof -
  have "unat (x AND m) = unat x mod 2 ^ k" by (rule unat_and_low [OF assms(1)])
  moreover have "unat x mod 2 ^ k < 2 ^ k" by simp
  ultimately have "unat (b OR (x AND m)) = unat b + unat x mod 2 ^ k"
    using unat_or_add [OF assms(2)] by simp
  moreover have "unat b + unat x mod 2 ^ k < 256"
    using assms(3) \<open>unat x mod 2 ^ k < 2 ^ k\<close> by linarith
  ultimately show ?thesis by (simp add: unat_to_byte)
qed

lemma unat_unicode_to_utf8: "map unat (unicode_to_utf8 c) = utf8_nats (unat c)"
proof -
  have l: "(c \<le> 0x7F) = (unat c < 128)" "(c \<le> 0x7FF) = (unat c < 2048)" "(c \<le> 0xFFFF) = (unat c < 65536)"
    by (simp_all add: word_le_nat_alt) linarith+
  have f: "unat (ucast (0x80 OR (x AND 0x3F)) :: byte) = 128 + unat x mod 64"
    "unat (ucast (0xC0 OR (x AND 0x1F)) :: byte) = 192 + unat x mod 32"
    "unat (ucast (0xE0 OR (x AND 0x0F)) :: byte) = 224 + unat x mod 16"
    "unat (ucast (0xF0 OR (x AND 0x07)) :: byte) = 240 + unat x mod 8" for x :: pg_wchar
    using unat_field [of "0x3F" 6 "0x80" x] unat_field [of "0x1F" 5 "0xC0" x]
      unat_field [of "0x0F" 4 "0xE0" x] unat_field [of "0x07" 3 "0xF0" x] by simp_all
  have g: "unat (drop_bit 6 c) = unat c div 64" "unat (drop_bit 12 c) = unat c div 4096"
    "unat (drop_bit 18 c) = unat c div 262144"
    using unat_shiftr [of 6 c] unat_shiftr [of 12 c] unat_shiftr [of 18 c] by simp_all
  have "unat c < 128 \<Longrightarrow> unat (ucast c :: byte) = unat c"
    by (simp add: unat_to_byte)
  then show ?thesis
    unfolding unicode_to_utf8_def utf8_nats_def l
    by (simp only: f g list.map if_True if_False split: if_split) simp
qed

text \<open>Bytes are determined by their values, so facts on \<open>utf8_nats\<close> carry over.\<close>

lemma map_unat_inj: "map unat xs = map unat ys \<longleftrightarrow> xs = ys" for xs ys :: "byte list"
proof
  assume "map unat xs = map unat ys"
  then show "xs = ys"
    by (rule map_injective) (auto intro: injI simp: word_eq_unat)
qed simp

lemma length_unicode_to_utf8: "length (unicode_to_utf8 c) = length (utf8_nats (unat c))"
  by (metis length_map unat_unicode_to_utf8)

lemma unat_or_field:
  fixes x y :: pg_wchar
  assumes "unat x mod 2 ^ k = 0" "unat y < 2 ^ k"
  shows "unat (x OR y) = unat x + unat y"
  using assms by (rule unat_or_add)

lemma unat_cont: "unat (ucast b AND 0x3f :: pg_wchar) = unat b mod 64" for b :: byte
  using unat_and_low [of "0x3f" 6 "ucast b :: pg_wchar"] by (simp add: unat_from_byte)

lemma unat_lead:
  "unat (ucast b AND 0x1f :: pg_wchar) = unat b mod 32"
  "unat (ucast b AND 0x0f :: pg_wchar) = unat b mod 16"
  "unat (ucast b AND 0x07 :: pg_wchar) = unat b mod 8" for b :: byte
  using unat_and_low [of "0x1f" 5 "ucast b :: pg_wchar"] unat_and_low [of "0x0f" 4 "ucast b :: pg_wchar"]
    unat_and_low [of "0x07" 3 "ucast b :: pg_wchar"]
  by (simp_all add: unat_from_byte)

lemma unat_shift_field:
  fixes x :: pg_wchar
  assumes "unat x < 64" "k \<le> 18"
  shows "unat (push_bit k x) = unat x * 2 ^ k"
proof -
  have "(2::nat) ^ k \<le> 2 ^ 18" using assms(2) by (rule power_increasing) simp
  then have "unat x * 2 ^ k \<le> 63 * 2 ^ 18"
    using assms(1) by (intro mult_le_mono) auto
  then show ?thesis by (intro unat_shiftl) simp
qed

lemma unat_ranges:
  fixes c :: byte
  shows "(c < 0x80) = (unat c < 128)"
    "(0xc0 \<le> c \<and> c \<le> 0xdf) = (192 \<le> unat c \<and> unat c < 224)"
    "(0xe0 \<le> c \<and> c \<le> 0xef) = (224 \<le> unat c \<and> unat c < 240)"
    "(0xf0 \<le> c \<and> c \<le> 0xf7) = (240 \<le> unat c \<and> unat c < 248)"
  by (simp_all add: word_le_nat_alt word_less_nat_alt) linarith+

lemma decode1: "unat b0 < 128 \<Longrightarrow> \<exists>w. utf8_to_unicode (b0 # r) = Some w \<and> unat w = unat b0"
  by (simp add: utf8_to_unicode_def utf_ranges unat_ranges unat_from_byte)

lemma decode2:
  assumes "192 \<le> unat b0" "unat b0 < 224"
  shows "\<exists>w. utf8_to_unicode (b0 # b1 # r) = Some w \<and> unat w = unat b0 mod 32 * 64 + unat b1 mod 64"
proof -
  have "unat (push_bit 6 (ucast b0 AND 0x1f :: pg_wchar)) = unat b0 mod 32 * 64"
    using unat_shift_field [of "ucast b0 AND 0x1f" 6] unat_lead [of b0] by simp
  then have "unat (push_bit 6 (ucast b0 AND 0x1f) OR (ucast b1 AND 0x3f :: pg_wchar)) =
      unat b0 mod 32 * 64 + unat b1 mod 64"
    using unat_or_field [of "push_bit 6 (ucast b0 AND 0x1f)" 6] unat_cont [of b1] by simp
  then show ?thesis
    using assms by (simp add: utf8_to_unicode_def utf_ranges unat_ranges del: push_bit_numeral)
qed

lemma decode3:
  assumes "224 \<le> unat b0" "unat b0 < 240"
  shows "\<exists>w. utf8_to_unicode (b0 # b1 # b2 # r) = Some w \<and>
    unat w = unat b0 mod 16 * 4096 + unat b1 mod 64 * 64 + unat b2 mod 64"
proof -
  let ?x = "push_bit 12 (ucast b0 AND 0x0f :: pg_wchar)" and ?y = "push_bit 6 (ucast b1 AND 0x3f :: pg_wchar)"
  have x: "unat ?x = unat b0 mod 16 * 4096"
    using unat_shift_field [of "ucast b0 AND 0x0f" 12] unat_lead [of b0] by simp
  have y: "unat ?y = unat b1 mod 64 * 64"
    using unat_shift_field [of "ucast b1 AND 0x3f" 6] unat_cont [of b1] by simp
  have yz: "unat (?y OR (ucast b2 AND 0x3f)) = unat b1 mod 64 * 64 + unat b2 mod 64"
    using unat_or_field [of ?y 6] y unat_cont [of b2] by simp
  have "unat b1 mod 64 * 64 + unat b2 mod 64 < 4096"
    using mod_less_divisor [of 64 "unat b1"] mod_less_divisor [of 64 "unat b2"] by linarith
  then have "unat (?x OR (?y OR (ucast b2 AND 0x3f))) =
      unat b0 mod 16 * 4096 + unat b1 mod 64 * 64 + unat b2 mod 64"
    using unat_or_field [of ?x 12 "?y OR (ucast b2 AND 0x3f)"] x yz by simp
  then show ?thesis
    using assms by (simp add: utf8_to_unicode_def utf_ranges unat_ranges or.assoc)
qed

lemma decode4:
  assumes "240 \<le> unat b0" "unat b0 < 248"
  shows "\<exists>w. utf8_to_unicode (b0 # b1 # b2 # b3 # r) = Some w \<and>
    unat w = unat b0 mod 8 * 262144 + unat b1 mod 64 * 4096 + unat b2 mod 64 * 64 + unat b3 mod 64"
proof -
  let ?x = "push_bit 18 (ucast b0 AND 0x07 :: pg_wchar)" and ?y = "push_bit 12 (ucast b1 AND 0x3f :: pg_wchar)"
    and ?z = "push_bit 6 (ucast b2 AND 0x3f :: pg_wchar)"
  have x: "unat ?x = unat b0 mod 8 * 262144"
    using unat_shift_field [of "ucast b0 AND 0x07" 18] unat_lead [of b0] by simp
  have y: "unat ?y = unat b1 mod 64 * 4096"
    using unat_shift_field [of "ucast b1 AND 0x3f" 12] unat_cont [of b1] by simp
  have z: "unat ?z = unat b2 mod 64 * 64"
    using unat_shift_field [of "ucast b2 AND 0x3f" 6] unat_cont [of b2] by simp
  have zw: "unat (?z OR (ucast b3 AND 0x3f)) = unat b2 mod 64 * 64 + unat b3 mod 64"
    using unat_or_field [of ?z 6] z unat_cont [of b3] by simp
  have "unat b2 mod 64 * 64 + unat b3 mod 64 < 4096"
    using mod_less_divisor [of 64 "unat b2"] mod_less_divisor [of 64 "unat b3"] by linarith
  then have yzw: "unat (?y OR (?z OR (ucast b3 AND 0x3f))) =
      unat b1 mod 64 * 4096 + unat b2 mod 64 * 64 + unat b3 mod 64"
    using unat_or_field [of ?y 12 "?z OR (ucast b3 AND 0x3f)"] y zw by simp
  have "unat b1 mod 64 * 4096 + unat b2 mod 64 * 64 + unat b3 mod 64 < 262144"
    using mod_less_divisor [of 64 "unat b1"] mod_less_divisor [of 64 "unat b2"]
      mod_less_divisor [of 64 "unat b3"] by linarith
  then have "unat (?x OR (?y OR (?z OR (ucast b3 AND 0x3f)))) =
      unat b0 mod 8 * 262144 + unat b1 mod 64 * 4096 + unat b2 mod 64 * 64 + unat b3 mod 64"
    using unat_or_field [of ?x 18 "?y OR (?z OR (ucast b3 AND 0x3f))"] x yzw by simp
  then show ?thesis
    using assms by (simp add: utf8_to_unicode_def utf_ranges unat_ranges or.assoc)
qed


section \<open>Decoding inverts encoding\<close>

lemma field_mod: "c = k * q \<Longrightarrow> (c + m mod k) mod k = m mod (k::nat)"
  by simp

lemmas utf8_field_mod =
  field_mod [of 128 64 2] field_mod [of 192 32 6] field_mod [of 224 16 14] field_mod [of 240 8 30]

lemma sextets:
  fixes n :: nat
  shows "n = n div 64 * 64 + n mod 64"
    and "n div 64 = n div 4096 * 64 + n div 64 mod 64"
    and "n div 4096 = n div 262144 * 64 + n div 4096 mod 64"
  using div_mult_mod_eq [of "n div 64" 64] div_mult_mod_eq [of "n div 4096" 64]
  by (simp_all add: div_mult2_eq [symmetric])

lemma utf8_roundtrip:
  assumes "unat c < 2 ^ 21"
  shows "utf8_to_unicode (unicode_to_utf8 c @ r) = Some c"
proof -
  let ?n = "unat c"
  have enc: "map unat (unicode_to_utf8 c) = utf8_nats ?n" by (rule unat_unicode_to_utf8)
  have "\<exists>w. utf8_to_unicode (unicode_to_utf8 c @ r) = Some w \<and> unat w = ?n"
  proof -
    consider "?n < 128" | "128 \<le> ?n" "?n < 2048" | "2048 \<le> ?n" "?n < 65536" | "65536 \<le> ?n" "?n < 2097152"
      using assms by fastforce
    then show ?thesis
    proof cases
      case 1
      then obtain a where "unicode_to_utf8 c = [a]" "unat a = ?n"
        using enc by (auto simp: utf8_nats_def)
      then show ?thesis using decode1 [of a r] 1 by simp
    next
      case 2
      then obtain a b where ab: "unicode_to_utf8 c = [a, b]" "unat a = 192 + ?n div 64 mod 32"
        "unat b = 128 + ?n mod 64"
        using enc by (auto simp: utf8_nats_def)
      have "unat a mod 32 = ?n div 64" "unat b mod 64 = ?n mod 64"
        unfolding ab(2-) using 2 by (subst utf8_field_mod; simp add: less_mult_imp_div_less)+
      then have "unat a mod 32 * 64 + unat b mod 64 = ?n"
        using sextets [of ?n] by linarith
      moreover have "192 \<le> unat a" "unat a < 224" unfolding ab(2) by simp_all
      ultimately show ?thesis using decode2 [of a b r] ab(1) by simp
    next
      case 3
      then obtain a b d where ab: "unicode_to_utf8 c = [a, b, d]" "unat a = 224 + ?n div 4096 mod 16"
        "unat b = 128 + ?n div 64 mod 64" "unat d = 128 + ?n mod 64"
        using enc by (auto simp: utf8_nats_def)
      have "unat a mod 16 = ?n div 4096" "unat b mod 64 = ?n div 64 mod 64" "unat d mod 64 = ?n mod 64"
        unfolding ab(2-) using 3 by (subst utf8_field_mod; simp add: less_mult_imp_div_less)+
      then have "unat a mod 16 * 4096 + unat b mod 64 * 64 + unat d mod 64 = ?n"
        using sextets [of ?n] by linarith
      moreover have "224 \<le> unat a" "unat a < 240" unfolding ab(2) by simp_all
      ultimately show ?thesis using decode3 [of a b d r] ab(1) by simp
    next
      case 4
      then obtain a b d e where ab: "unicode_to_utf8 c = [a, b, d, e]" "unat a = 240 + ?n div 262144 mod 8"
        "unat b = 128 + ?n div 4096 mod 64" "unat d = 128 + ?n div 64 mod 64" "unat e = 128 + ?n mod 64"
        using enc by (auto simp: utf8_nats_def)
      have "unat a mod 8 = ?n div 262144" "unat b mod 64 = ?n div 4096 mod 64"
        "unat d mod 64 = ?n div 64 mod 64" "unat e mod 64 = ?n mod 64"
        unfolding ab(2-) using 4 by (subst utf8_field_mod; simp add: less_mult_imp_div_less)+
      then have "unat a mod 8 * 262144 + unat b mod 64 * 4096 + unat d mod 64 * 64 + unat e mod 64 = ?n"
        using sextets [of ?n] by linarith
      moreover have "240 \<le> unat a" "unat a < 248" unfolding ab(2) by simp_all
      ultimately show ?thesis using decode4 [of a b d e r] ab(1) by simp
    qed
  qed
  then show ?thesis by (auto simp: word_eq_unat [of _ c])
qed


section \<open>What the validator accepts\<close>

text \<open>The Unicode scalar values: code points up to 0x10FFFF without the surrogates.\<close>

definition utf8_scalar :: "pg_wchar \<Rightarrow> bool" where
  "utf8_scalar c \<longleftrightarrow> unat c < 0x110000 \<and> \<not> (0xD800 \<le> unat c \<and> unat c < 0xE000)"

text \<open>The validator on the byte values, length by length.\<close>

definition legal2 :: "nat \<Rightarrow> nat \<Rightarrow> bool" where
  "legal2 a b \<longleftrightarrow> 128 \<le> b \<and> b < 192 \<and> (a = 0xE0 \<longrightarrow> 160 \<le> b) \<and> (a = 0xED \<longrightarrow> b < 160) \<and>
     (a = 0xF0 \<longrightarrow> 144 \<le> b) \<and> (a = 0xF4 \<longrightarrow> b < 144)"

lemma utf8_case1_unat: "utf8_case1 (a # s) = Some (unat a < 128 \<or> (194 \<le> unat a \<and> unat a \<le> 244))"
  by (simp add: utf8_case1_def word_le_nat_alt word_less_nat_alt) linarith

lemma utf8_case2_unat:
  "utf8_case2 (a # b # s) = Some (legal2 (unat a) (unat b) \<and> (unat a < 128 \<or> (194 \<le> unat a \<and> unat a \<le> 244)))"
  unfolding utf8_case2_def utf8_case1_unat rd_Cons_0 bind.bind_lunit
  by (auto simp: legal2_def utf8_trail_bad_def word_le_nat_alt word_less_nat_alt
      word_eq_unat [of a] rd_def utf8_case1_unat)

lemma utf8_trail_unat: "utf8_trail_bad b = (\<not> (128 \<le> unat b \<and> unat b < 192))"
  by (simp add: utf8_trail_bad_def word_le_nat_alt word_less_nat_alt) linarith

lemma pg_utf_mblen_unat:
  "pg_utf_mblen (c # r) =
     Some (if unat c < 128 then 1 else if 192 \<le> unat c \<and> unat c < 224 then 2
           else if 224 \<le> unat c \<and> unat c < 240 then 3 else if 240 \<le> unat c \<and> unat c < 248 then 4 else 1)"
  unfolding pg_utf_mblen_ranges unat_ranges ..

lemma verify2:
  assumes "192 \<le> unat a" "unat a < 224" "2 \<le> len"
  shows "pg_utf8_verifier (a # b # r) len = Some (if legal2 (unat a) (unat b) \<and> 194 \<le> unat a then 2 else - 1)"
  using assms by (simp add: pg_utf8_verifier_def pg_utf_mblen_unat pg_utf8_islegal_def utf8_case2_unat)

lemma verify3:
  assumes "224 \<le> unat a" "unat a < 240" "3 \<le> len"
  shows "pg_utf8_verifier (a # b # d # r) len =
    Some (if legal2 (unat a) (unat b) \<and> 128 \<le> unat d \<and> unat d < 192 then 3 else - 1)"
  using assms
  by (simp add: pg_utf8_verifier_def pg_utf_mblen_unat pg_utf8_islegal_def utf8_case3_def utf8_case2_unat
      utf8_trail_unat)

lemma verify4:
  assumes "240 \<le> unat a" "unat a < 248" "4 \<le> len"
  shows "pg_utf8_verifier (a # b # d # e # r) len =
    Some (if legal2 (unat a) (unat b) \<and> 128 \<le> unat d \<and> unat d < 192 \<and> 128 \<le> unat e \<and> unat e < 192 \<and>
      unat a \<le> 244 then 4 else - 1)"
  using assms
  by (simp add: pg_utf8_verifier_def pg_utf_mblen_unat pg_utf8_islegal_def utf8_case4_def utf8_case3_def
      utf8_case2_unat utf8_trail_unat)

text \<open>A code point as its high part and two groups of six bits.\<close>

lemma utf8_groups:
  fixes n :: nat
  obtains h m l where "n = h * 4096 + m * 64 + l" "m < 64" "l < 64"
    "n div 64 = h * 64 + m" "n mod 64 = l" "n div 4096 = h" "n div 64 mod 64 = m"
proof
  show "n = n div 4096 * 4096 + n div 64 mod 64 * 64 + n mod 64" using sextets [of n] by linarith
  show "n div 64 = n div 4096 * 64 + n div 64 mod 64" using sextets(2) [of n] .
qed simp_all

theorem pg_utf8_verifier_complete:
  assumes "utf8_scalar c" "int (length (unicode_to_utf8 c)) \<le> len"
  shows "pg_utf8_verifier (unicode_to_utf8 c @ r) len = Some (int (length (unicode_to_utf8 c)))"
proof -
  let ?n = "unat c"
  have enc: "map unat (unicode_to_utf8 c) = utf8_nats ?n" by (rule unat_unicode_to_utf8)
  have n: "?n < 0x110000" "\<not> (0xD800 \<le> ?n \<and> ?n < 0xE000)"
    using assms(1) by (auto simp: utf8_scalar_def)
  obtain h m l where g: "?n = h * 4096 + m * 64 + l" "m < 64" "l < 64"
    "?n div 64 = h * 64 + m" "?n mod 64 = l" "?n div 4096 = h" "?n div 64 mod 64 = m"
    by (rule utf8_groups)
  consider "?n < 128" | "128 \<le> ?n" "?n < 2048" | "2048 \<le> ?n" "?n < 65536" | "65536 \<le> ?n"
    by fastforce
  then show ?thesis
  proof cases
    case 1
    then obtain a where "unicode_to_utf8 c = [a]" "unat a = ?n"
      using enc by (auto simp: utf8_nats_def)
    then show ?thesis
      using 1 assms(2)
      by (simp add: pg_utf8_verifier_def pg_utf_mblen_unat pg_utf8_islegal_def utf8_case1_unat)
  next
    case 2
    then obtain a b where ab: "unicode_to_utf8 c = [a, b]" "unat a = 192 + ?n div 64 mod 32"
      "unat b = 128 + ?n mod 64"
      using enc by (auto simp: utf8_nats_def)
    have "?n div 64 mod 32 = ?n div 64" "2 \<le> ?n div 64" "?n div 64 < 32"
      using 2 by (simp_all add: less_mult_imp_div_less)
    then have "194 \<le> unat a" "unat a < 224" "legal2 (unat a) (unat b)"
      using ab(2,3) g(3,5) by (simp_all add: legal2_def)
    then show ?thesis using verify2 [of a len b r] ab(1) assms(2) by simp
  next
    case 3
    then obtain a b d where ab: "unicode_to_utf8 c = [a, b, d]" "unat a = 224 + ?n div 4096 mod 16"
      "unat b = 128 + ?n div 64 mod 64" "unat d = 128 + ?n mod 64"
      using enc by (auto simp: utf8_nats_def)
    have h: "h < 16" "h = 0 \<longrightarrow> 32 \<le> m" "h = 13 \<longrightarrow> m < 32" using 3 g(1-3) n(2) by auto
    then have "unat a = 224 + h" "unat b = 128 + m" "unat d = 128 + l"
      using ab(2-) g(5-7) by simp_all
    then have "224 \<le> unat a" "unat a < 240" "legal2 (unat a) (unat b)" "128 \<le> unat d" "unat d < 192"
      using h g(2,3) by (simp_all add: legal2_def)
    then show ?thesis using verify3 [of a len b d r] ab(1) assms(2) by simp
  next
    case 4
    then obtain a b d e where ab: "unicode_to_utf8 c = [a, b, d, e]" "unat a = 240 + ?n div 262144 mod 8"
      "unat b = 128 + ?n div 4096 mod 64" "unat d = 128 + ?n div 64 mod 64" "unat e = 128 + ?n mod 64"
      using enc by (auto simp: utf8_nats_def)
    have q: "?n div 262144 = h div 64" using g(6) by (simp add: div_mult2_eq [symmetric])
    have h: "16 \<le> h" "h < 272" using 4 g(1-3) n(1) by linarith+
    then have "h div 64 < 5" by (simp add: less_mult_imp_div_less)
    then have v: "unat a = 240 + h div 64" "unat b = 128 + h mod 64" "unat d = 128 + m" "unat e = 128 + l"
      using ab(2-) g(5-7) q by simp_all
    moreover have "h div 64 = 0 \<longrightarrow> 16 \<le> h mod 64" "h div 64 = 4 \<longrightarrow> h mod 64 < 16"
      using h div_mult_mod_eq [of h 64] by (intro impI; linarith)+
    moreover have "h mod 64 < 64" by simp
    ultimately have "240 \<le> unat a" "unat a \<le> 244" "legal2 (unat a) (unat b)" "128 \<le> unat d" "unat d < 192"
      "128 \<le> unat e" "unat e < 192"
      using \<open>h div 64 < 5\<close> g(2,3) by (simp_all add: legal2_def)
    then show ?thesis using verify4 [of a len b d e r] ab(1) assms(2) by simp
  qed
qed

lemma unat_of_code_point: "n < 0x110000 \<Longrightarrow> unat (word_of_nat n :: pg_wchar) = n"
  by (simp add: unsigned_of_nat take_bit_nat_eq_self)

text \<open>A list of byte values is an encoding when it is \<open>utf8_nats\<close> of a scalar value.\<close>

lemma encodes:
  assumes "map unat xs = utf8_nats n" "n < 0x110000" "\<not> (0xD800 \<le> n \<and> n < 0xE000)"
  shows "\<exists>c. utf8_scalar c \<and> xs = unicode_to_utf8 c"
proof (intro exI conjI)
  let ?c = "word_of_nat n :: pg_wchar"
  have u: "unat ?c = n" using assms(2) by (rule unat_of_code_point)
  show "utf8_scalar ?c" using assms(2,3) by (simp add: utf8_scalar_def u)
  have "map unat xs = map unat (unicode_to_utf8 ?c)"
    using assms(1) by (simp only: unat_unicode_to_utf8 u)
  then show "xs = unicode_to_utf8 ?c" by (simp only: map_unat_inj)
qed

lemma div_group: "l < 64 \<Longrightarrow> (q * 64 + l) div 64 = q \<and> (q * 64 + l) mod 64 = (l::nat)"
  by simp

lemma utf8_nats2:
  assumes "2 \<le> h" "h < 32" "l < 64"
  shows "utf8_nats (h * 64 + l) = [192 + h, 128 + l]"
  using assms div_group [OF assms(3), of h] by (auto simp: utf8_nats_def)

lemma utf8_nats3:
  assumes "h < 16" "h = 0 \<longrightarrow> 32 \<le> m" "m < 64" "l < 64"
  shows "utf8_nats ((h * 64 + m) * 64 + l) = [224 + h, 128 + m, 128 + l]"
proof -
  let ?n = "(h * 64 + m) * 64 + l"
  have 1: "?n div 64 = h * 64 + m" "?n mod 64 = l" using div_group [OF assms(4)] by blast+
  have "?n div 4096 = ?n div 64 div 64" by (simp add: div_mult2_eq [symmetric])
  then have 2: "?n div 4096 = h" "?n div 64 mod 64 = m"
    using 1 div_group [OF assms(3)] by simp_all
  have "2048 \<le> ?n" "?n < 65536" using assms by (cases "h = 0"; simp)+
  then show ?thesis using 1 2 assms(1) by (simp add: utf8_nats_def)
qed

lemma utf8_nats4:
  assumes "16 \<le> h" "h < 272" "m < 64" "l < 64"
  shows "utf8_nats ((h * 64 + m) * 64 + l) = [240 + h div 64, 128 + h mod 64, 128 + m, 128 + l]"
proof -
  let ?n = "(h * 64 + m) * 64 + l"
  have 1: "?n div 64 = h * 64 + m" "?n mod 64 = l" using div_group [OF assms(4)] by blast+
  have "?n div 4096 = ?n div 64 div 64" "?n div 262144 = ?n div 64 div 64 div 64"
    by (simp_all add: div_mult2_eq [symmetric])
  then have 2: "?n div 4096 = h" "?n div 64 mod 64 = m" "?n div 262144 = h div 64"
    using 1 div_group [OF assms(3)] by simp_all
  have "65536 \<le> ?n" "h div 64 < 8" using assms by (simp_all add: less_mult_imp_div_less)
  then show ?thesis using 1 2 by (simp add: utf8_nats_def)
qed

text \<open>
  What an accepted character is: the prefix of length \<open>l\<close>, with the byte values in the ranges of
  the well-formed sequences.
\<close>

inductive utf8_accepted :: "byte list \<Rightarrow> int \<Rightarrow> bool" where
  one: "unat a < 128 \<Longrightarrow> utf8_accepted (a # r) 1"
| two: "194 \<le> unat a \<Longrightarrow> unat a < 224 \<Longrightarrow> legal2 (unat a) (unat b) \<Longrightarrow> utf8_accepted (a # b # r) 2"
| three: "224 \<le> unat a \<Longrightarrow> unat a < 240 \<Longrightarrow> legal2 (unat a) (unat b) \<Longrightarrow> 128 \<le> unat d \<Longrightarrow>
    unat d < 192 \<Longrightarrow> utf8_accepted (a # b # d # r) 3"
| four: "240 \<le> unat a \<Longrightarrow> unat a \<le> 244 \<Longrightarrow> legal2 (unat a) (unat b) \<Longrightarrow> 128 \<le> unat d \<Longrightarrow>
    unat d < 192 \<Longrightarrow> 128 \<le> unat e \<Longrightarrow> unat e < 192 \<Longrightarrow> utf8_accepted (a # b # d # e # r) 4"

lemma list_cases_ge:
  "1 \<le> length s \<Longrightarrow> \<exists>a r. s = a # r"
  "2 \<le> length s \<Longrightarrow> \<exists>a b r. s = a # b # r"
  "3 \<le> length s \<Longrightarrow> \<exists>a b d r. s = a # b # d # r"
  "4 \<le> length s \<Longrightarrow> \<exists>a b d e r. s = a # b # d # e # r"
  by (cases s; force simp: Suc_le_length_iff numeral_eq_Suc)+

lemma pg_utf8_verifier_cases:
  assumes "0 < len" "len \<le> int (length s)"
  shows "pg_utf8_verifier s len = Some (- 1) \<or>
    (\<exists>l. pg_utf8_verifier s len = Some l \<and> l \<le> len \<and> utf8_accepted s l)"
proof -
  obtain a r where s: "s = a # r" using list_cases_ge(1) [of s] assms by force
  consider "unat a < 128" | "128 \<le> unat a \<and> unat a < 192 \<or> 248 \<le> unat a" | "192 \<le> unat a" "unat a < 224"
    | "224 \<le> unat a" "unat a < 240" | "240 \<le> unat a" "unat a < 248"
    by linarith
  then show ?thesis
  proof cases
    case 1
    then have "pg_utf8_verifier s len = Some 1"
      using assms(1) by (simp add: s pg_utf8_verifier_def pg_utf_mblen_unat pg_utf8_islegal_def utf8_case1_unat)
    then show ?thesis using 1 assms(1) s by (auto intro: utf8_accepted.intros)
  next
    case 2
    then have "pg_utf8_verifier s len = Some (- 1)"
      using assms(1) by (auto simp: s pg_utf8_verifier_def pg_utf_mblen_unat pg_utf8_islegal_def utf8_case1_unat)
    then show ?thesis ..
  next
    case 3
    show ?thesis
    proof (cases "2 \<le> len")
      case True
      then obtain b r' where "s = a # b # r'" using list_cases_ge(2) [of s] assms s by force
      then show ?thesis using verify2 [OF 3 True, of b r'] True 3 by (auto intro: utf8_accepted.intros)
    qed (use 3 s in \<open>simp add: pg_utf8_verifier_def pg_utf_mblen_unat\<close>)
  next
    case 4
    show ?thesis
    proof (cases "3 \<le> len")
      case True
      then obtain b d r' where "s = a # b # d # r'" using list_cases_ge(3) [of s] assms s by force
      then show ?thesis using verify3 [OF 4 True, of b d r'] True 4 by (auto intro: utf8_accepted.intros)
    qed (use 4 s in \<open>simp add: pg_utf8_verifier_def pg_utf_mblen_unat\<close>)
  next
    case 5
    show ?thesis
    proof (cases "4 \<le> len")
      case True
      then obtain b d e r' where "s = a # b # d # e # r'" using list_cases_ge(4) [of s] assms s by force
      then show ?thesis using verify4 [OF 5 True, of b d e r'] True 5 by (auto intro: utf8_accepted.intros)
    qed (use 5 s in \<open>simp add: pg_utf8_verifier_def pg_utf_mblen_unat\<close>)
  qed
qed

lemma group3_bounds:
  fixes h m l :: nat
  assumes "h < 16" "m < 64" "l < 64" "h = 13 \<longrightarrow> m < 32"
  shows "(h * 64 + m) * 64 + l < 0x110000"
    and "\<not> (0xD800 \<le> (h * 64 + m) * 64 + l \<and> (h * 64 + m) * 64 + l < 0xE000)"
proof -
  show "(h * 64 + m) * 64 + l < 0x110000" using assms by (simp add: add_mult_distrib)
  consider "h < 13" | "h = 13" | "13 < h" by linarith
  then show "\<not> (0xD800 \<le> (h * 64 + m) * 64 + l \<and> (h * 64 + m) * 64 + l < 0xE000)"
    using assms by cases (simp_all add: add_mult_distrib)
qed

lemma group4_bounds:
  fixes h m l :: nat
  assumes "16 \<le> h" "h < 272" "m < 64" "l < 64"
  shows "(h * 64 + m) * 64 + l < 0x110000" and "\<not> (h * 64 + m) * 64 + l < 0xE000"
  using assms by (simp_all add: add_mult_distrib)

lemma utf8_accepted_scalar:
  assumes "utf8_accepted s l"
  shows "\<exists>c. utf8_scalar c \<and> take (nat l) s = unicode_to_utf8 c"
  using assms
proof cases
  case (one a r)
  then show ?thesis using encodes [of "[a]" "unat a"] by (simp add: utf8_nats_def)
next
  case (two a b r)
  let ?h = "unat a - 192" and ?l = "unat b - 128"
  have r: "2 \<le> ?h" "?h < 32" "?l < 64" "128 \<le> unat b" using two by (auto simp: legal2_def)
  then have "map unat [a, b] = utf8_nats (?h * 64 + ?l)"
    using two utf8_nats2 [OF r(1-3)] by simp
  moreover have "?h * 64 + ?l < 2048" using r by linarith
  ultimately show ?thesis using encodes [of "[a, b]" "?h * 64 + ?l"] two(1,2) by force
next
  case (three a b d r)
  let ?h = "unat a - 224" and ?m = "unat b - 128" and ?l = "unat d - 128"
  have r: "?h < 16" "?h = 0 \<longrightarrow> 32 \<le> ?m" "?m < 64" "?l < 64" "?h = 13 \<longrightarrow> ?m < 32" "128 \<le> unat b"
    using three by (auto simp: legal2_def)
  then have "map unat [a, b, d] = utf8_nats ((?h * 64 + ?m) * 64 + ?l)"
    using three utf8_nats3 [OF r(1-4)] by simp
  moreover note group3_bounds [OF r(1,3,4,5)]
  ultimately show ?thesis using encodes [of "[a, b, d]" "(?h * 64 + ?m) * 64 + ?l"] three(1,2) by force
next
  case (four a b d e r)
  let ?h = "(unat a - 240) * 64 + (unat b - 128)" and ?m = "unat d - 128" and ?l = "unat e - 128"
  have b: "unat b - 128 < 64" "128 \<le> unat b" "unat a = 240 \<longrightarrow> 144 \<le> unat b" "unat a = 244 \<longrightarrow> unat b < 144"
    using four by (auto simp: legal2_def)
  have h: "16 \<le> ?h" "?h < 272"
    using b four by (cases "unat a = 240"; cases "unat a = 244"; linarith)+
  have m: "?m < 64" "?l < 64" using four by auto
  have dm: "?h div 64 = unat a - 240" "?h mod 64 = unat b - 128" using div_group [OF b(1)] by blast+
  have "map unat [a, b, d, e] = utf8_nats ((?h * 64 + ?m) * 64 + ?l)"
    unfolding utf8_nats4 [OF h m] dm using four b by simp
  moreover note group4_bounds [OF h m]
  ultimately show ?thesis
    using encodes [of "[a, b, d, e]" "(?h * 64 + ?m) * 64 + ?l"] four(1,2) by force
qed

lemma pg_utf8_islegal_length:
  "pg_utf8_islegal s l = Some True \<Longrightarrow> l \<le> int (length s)"
  by (auto simp: pg_utf8_islegal_def utf8_case4_def utf8_case3_def utf8_case2_def utf8_case1_def
      bind_Some_iff rd_Some_iff Suc_le_eq split: if_split_asm)

lemma utf8_accepted_no_nul: "utf8_accepted s l \<Longrightarrow> 0 < i \<Longrightarrow> int i < l \<Longrightarrow> s ! i \<noteq> 0"
proof (induction rule: utf8_accepted.induct)
  case (three a b d r)
  then have "i = 1 \<or> i = 2" by auto
  then show ?case using three by (auto simp: legal2_def)
next
  case (four a b d e r)
  then have "i = 1 \<or> i = 2 \<or> i = 3" by auto
  then show ?case using four by (auto simp: legal2_def)
qed (auto simp: legal2_def)

lemma pg_utf8_verifier_accepts:
  assumes "pg_utf8_verifier s len = Some l" "0 < l"
  shows "utf8_accepted s l"
proof -
  have v: "pg_utf_mblen s = Some l" "l \<le> len" "pg_utf8_islegal s l = Some True"
    using assms by (auto simp: pg_utf8_verifier_def bind_Some_iff split: if_splits)
  then have "pg_utf8_verifier s l = Some l"
    by (simp add: pg_utf8_verifier_def)
  then show ?thesis
    using pg_utf8_verifier_cases [OF assms(2) pg_utf8_islegal_length [OF v(3)]] assms(2) by auto
qed

interpretation utf8: mb_verifier pg_utf_mblen pg_utf8_verifier 0
proof unfold_locales
  fix len l :: int and s r :: "byte list" and c i
  show "0 < len \<Longrightarrow> len + int 0 \<le> int (length s) \<Longrightarrow> \<exists>l. pg_utf8_verifier s len = Some l"
    using pg_utf8_verifier_cases [of len s] by auto
  show "0 < len \<Longrightarrow> pg_utf8_verifier s len = Some l \<Longrightarrow> l = - 1 \<or> (0 < l \<and> l \<le> len)"
    by (cases s) (auto simp: pg_utf8_verifier_def pg_utf_mblen_def bind_Some_iff split: if_splits)
  show "pg_utf8_verifier s len = Some l \<Longrightarrow> 0 < l \<Longrightarrow> s \<noteq> [] \<Longrightarrow> pg_utf_mblen s = Some l"
    by (auto simp: pg_utf8_verifier_def bind_Some_iff split: if_splits)
  show "0 < len \<Longrightarrow> \<not> IS_HIGHBIT_SET c \<Longrightarrow> pg_utf8_verifier (c # r) len = Some 1"
    by (simp add: not_high_lt unat_ranges pg_utf8_verifier_def pg_utf_mblen_unat pg_utf8_islegal_def utf8_case1_unat)
  show "pg_utf8_verifier s len = Some l \<Longrightarrow> 0 < i \<Longrightarrow> int i < l \<Longrightarrow> s ! i \<noteq> 0"
    using utf8_accepted_no_nul [OF pg_utf8_verifier_accepts] by auto
qed

end
