(* ===== verification/WcharConv.thy ===== *)
theory WcharConv
  imports Utf8
begin

text \<open>
  Conversion to wide characters and display widths, \<open>src/backend/utils/mb/wchar.c\<close>.

  The seven \<open>*2wchar_with_len\<close> functions are one loop, \<open>while (len > 0 && *from)\<close>, with a body per
  encoding. The loop is \<open>mb2wchar_loop\<close>; a body is a \<open>*_step\<close> function from the bytes at \<open>from\<close> and
  the remaining \<open>len\<close> to the wide character and the number of bytes consumed, or to \<open>None\<close> for
  \<open>break\<close>. The result of a conversion is the count returned and the array written, its final zero
  included. The lemmas show that no conversion reads beyond \<open>len\<close> or writes more than \<open>len + 1\<close>
  wide characters, that the UTF-8 conversion is \<open>utf8_to_unicode\<close> character by character, and that
  the binary search behind the display widths agrees with a linear search of its table.
\<close>

section \<open>The conversion loop\<close>

text \<open>A body that consumed nothing would repeat for ever: that is \<open>None\<close> here, too.\<close>

partial_function (option) mb2wchar_loop ::
  "(byte list \<Rightarrow> int \<Rightarrow> (pg_wchar \<times> nat) option option) \<Rightarrow> byte list \<Rightarrow> int \<Rightarrow> pg_wchar list option" where
  "mb2wchar_loop step from len =
     (if len > 0 then
        Option.bind (rd from 0) (\<lambda>c.
          if c \<noteq> 0 then
            Option.bind (step from len) (\<lambda>r.
              if r = None then Some []
              else Option.bind (mb2wchar_loop step (drop (snd (the r)) from) (len - int (snd (the r))))
                (\<lambda>ws. Some (fst (the r) # ws)))
          else Some [])
      else Some [])"

definition with_terminator :: "pg_wchar list \<Rightarrow> int \<times> pg_wchar list" where
  "with_terminator ws = (int (length ws), ws @ [0])"


section \<open>One conversion per encoding\<close>

definition ascii_step :: "byte list \<Rightarrow> int \<Rightarrow> (pg_wchar \<times> nat) option option" where
  "ascii_step from len = do { c \<leftarrow> rd from 0; Some (Some (ucast c, 1)) }"

definition pg_ascii2wchar_with_len :: "byte list \<Rightarrow> int \<Rightarrow> (int \<times> pg_wchar list) option" where
  "pg_ascii2wchar_with_len from len = map_option with_terminator (mb2wchar_loop ascii_step from len)"

definition euc_step :: "byte list \<Rightarrow> int \<Rightarrow> (pg_wchar \<times> nat) option option" where
  "euc_step from len = do {
     c \<leftarrow> rd from 0;
     if c = SS2 \<and> len \<ge> 2 then do {
       c1 \<leftarrow> rd from 1;
       Some (Some (push_bit 8 (ucast SS2) OR ucast c1, 2))
     }
     else if c = SS3 \<and> len \<ge> 3 then do {
       c1 \<leftarrow> rd from 1;
       c2 \<leftarrow> rd from 2;
       Some (Some ((push_bit 16 (ucast SS3) OR push_bit 8 (ucast c1)) OR ucast c2, 3))
     }
     else if IS_HIGHBIT_SET c \<and> len \<ge> 2 then do {
       c1 \<leftarrow> rd from 1;
       Some (Some (push_bit 8 (ucast c) OR ucast c1, 2))
     }
     else Some (Some (ucast c, 1))
   }"

definition pg_euc2wchar_with_len :: "byte list \<Rightarrow> int \<Rightarrow> (int \<times> pg_wchar list) option" where
  "pg_euc2wchar_with_len from len = map_option with_terminator (mb2wchar_loop euc_step from len)"

definition pg_eucjp2wchar_with_len :: "byte list \<Rightarrow> int \<Rightarrow> (int \<times> pg_wchar list) option" where
  "pg_eucjp2wchar_with_len from len = pg_euc2wchar_with_len from len"

definition pg_euckr2wchar_with_len :: "byte list \<Rightarrow> int \<Rightarrow> (int \<times> pg_wchar list) option" where
  "pg_euckr2wchar_with_len from len = pg_euc2wchar_with_len from len"

definition euccn_step :: "byte list \<Rightarrow> int \<Rightarrow> (pg_wchar \<times> nat) option option" where
  "euccn_step from len = do {
     c \<leftarrow> rd from 0;
     if c = SS2 \<and> len \<ge> 3 then do {
       c1 \<leftarrow> rd from 1;
       c2 \<leftarrow> rd from 2;
       Some (Some ((push_bit 16 (ucast SS2) OR push_bit 8 (ucast c1)) OR ucast c2, 3))
     }
     else if c = SS3 \<and> len \<ge> 3 then do {
       c1 \<leftarrow> rd from 1;
       c2 \<leftarrow> rd from 2;
       Some (Some ((push_bit 16 (ucast SS3) OR push_bit 8 (ucast c1)) OR ucast c2, 3))
     }
     else if IS_HIGHBIT_SET c \<and> len \<ge> 2 then do {
       c1 \<leftarrow> rd from 1;
       Some (Some (push_bit 8 (ucast c) OR ucast c1, 2))
     }
     else Some (Some (ucast c, 1))
   }"

definition pg_euccn2wchar_with_len :: "byte list \<Rightarrow> int \<Rightarrow> (int \<times> pg_wchar list) option" where
  "pg_euccn2wchar_with_len from len = map_option with_terminator (mb2wchar_loop euccn_step from len)"

definition euctw_step :: "byte list \<Rightarrow> int \<Rightarrow> (pg_wchar \<times> nat) option option" where
  "euctw_step from len = do {
     c \<leftarrow> rd from 0;
     if c = SS2 \<and> len \<ge> 4 then do {
       c1 \<leftarrow> rd from 1;
       c2 \<leftarrow> rd from 2;
       c3 \<leftarrow> rd from 3;
       Some (Some (((push_bit 24 (ucast SS2) OR push_bit 16 (ucast c1)) OR push_bit 8 (ucast c2)) OR ucast c3, 4))
     }
     else if c = SS3 \<and> len \<ge> 3 then do {
       c1 \<leftarrow> rd from 1;
       c2 \<leftarrow> rd from 2;
       Some (Some ((push_bit 16 (ucast SS3) OR push_bit 8 (ucast c1)) OR ucast c2, 3))
     }
     else if IS_HIGHBIT_SET c \<and> len \<ge> 2 then do {
       c1 \<leftarrow> rd from 1;
       Some (Some (push_bit 8 (ucast c) OR ucast c1, 2))
     }
     else Some (Some (ucast c, 1))
   }"

definition pg_euctw2wchar_with_len :: "byte list \<Rightarrow> int \<Rightarrow> (int \<times> pg_wchar list) option" where
  "pg_euctw2wchar_with_len from len = map_option with_terminator (mb2wchar_loop euctw_step from len)"

text \<open>In UTF-8 a trailing incomplete character is dropped: \<open>break\<close>.\<close>

definition utf_step :: "byte list \<Rightarrow> int \<Rightarrow> (pg_wchar \<times> nat) option option" where
  "utf_step from len = do {
     c \<leftarrow> rd from 0;
     if c AND 0x80 = 0 then Some (Some (ucast c, 1))
     else if c AND 0xe0 = 0xc0 then
       (if len < 2 then Some None
        else do {
          b1 \<leftarrow> rd from 1;
          let c1 = ucast c AND 0x1f;
          let c2 = ucast b1 AND 0x3f;
          Some (Some (push_bit 6 c1 OR c2, 2))
        })
     else if c AND 0xf0 = 0xe0 then
       (if len < 3 then Some None
        else do {
          b1 \<leftarrow> rd from 1;
          b2 \<leftarrow> rd from 2;
          let c1 = ucast c AND 0x0f;
          let c2 = ucast b1 AND 0x3f;
          let c3 = ucast b2 AND 0x3f;
          Some (Some (push_bit 12 c1 OR push_bit 6 c2 OR c3, 3))
        })
     else if c AND 0xf8 = 0xf0 then
       (if len < 4 then Some None
        else do {
          b1 \<leftarrow> rd from 1;
          b2 \<leftarrow> rd from 2;
          b3 \<leftarrow> rd from 3;
          let c1 = ucast c AND 0x07;
          let c2 = ucast b1 AND 0x3f;
          let c3 = ucast b2 AND 0x3f;
          let c4 = ucast b3 AND 0x3f;
          Some (Some (push_bit 18 c1 OR push_bit 12 c2 OR push_bit 6 c3 OR c4, 4))
        })
     else Some (Some (ucast c, 1))
   }"

definition pg_utf2wchar_with_len :: "byte list \<Rightarrow> int \<Rightarrow> (int \<times> pg_wchar list) option" where
  "pg_utf2wchar_with_len from len = map_option with_terminator (mb2wchar_loop utf_step from len)"

definition mule_step :: "byte list \<Rightarrow> int \<Rightarrow> (pg_wchar \<times> nat) option option" where
  "mule_step from len = do {
     c \<leftarrow> rd from 0;
     if IS_LC1 c \<and> len \<ge> 2 then do {
       c1 \<leftarrow> rd from 1;
       Some (Some (push_bit 16 (ucast c) OR ucast c1, 2))
     }
     else if IS_LCPRV1 c \<and> len \<ge> 3 then do {
       c1 \<leftarrow> rd from 1;
       c2 \<leftarrow> rd from 2;
       Some (Some (push_bit 16 (ucast c1) OR ucast c2, 3))
     }
     else if IS_LC2 c \<and> len \<ge> 3 then do {
       c1 \<leftarrow> rd from 1;
       c2 \<leftarrow> rd from 2;
       Some (Some ((push_bit 16 (ucast c) OR push_bit 8 (ucast c1)) OR ucast c2, 3))
     }
     else if IS_LCPRV2 c \<and> len \<ge> 4 then do {
       c1 \<leftarrow> rd from 1;
       c2 \<leftarrow> rd from 2;
       c3 \<leftarrow> rd from 3;
       Some (Some ((push_bit 16 (ucast c1) OR push_bit 8 (ucast c2)) OR ucast c3, 4))
     }
     else Some (Some (ucast c, 1))
   }"

definition pg_mule2wchar_with_len :: "byte list \<Rightarrow> int \<Rightarrow> (int \<times> pg_wchar list) option" where
  "pg_mule2wchar_with_len from len = map_option with_terminator (mb2wchar_loop mule_step from len)"

definition latin1_step :: "byte list \<Rightarrow> int \<Rightarrow> (pg_wchar \<times> nat) option option" where
  "latin1_step from len = do { c \<leftarrow> rd from 0; Some (Some (ucast c, 1)) }"

definition pg_latin12wchar_with_len :: "byte list \<Rightarrow> int \<Rightarrow> (int \<times> pg_wchar list) option" where
  "pg_latin12wchar_with_len from len = map_option with_terminator (mb2wchar_loop latin1_step from len)"


section \<open>Display widths\<close>

definition pg_ascii_dsplen :: "byte list \<Rightarrow> int option" where
  "pg_ascii_dsplen s = do {
     c \<leftarrow> rd s 0;
     Some (if c = 0 then 0 else if c < 0x20 \<or> c = 0x7f then -1 else 1)
   }"

definition pg_euc_dsplen :: "byte list \<Rightarrow> int option" where
  "pg_euc_dsplen s = do {
     c \<leftarrow> rd s 0;
     if c = SS2 then Some 2 else if c = SS3 then Some 2 else if IS_HIGHBIT_SET c then Some 2
     else pg_ascii_dsplen s
   }"

definition pg_eucjp_dsplen :: "byte list \<Rightarrow> int option" where
  "pg_eucjp_dsplen s = do {
     c \<leftarrow> rd s 0;
     if c = SS2 then Some 1 else if c = SS3 then Some 2 else if IS_HIGHBIT_SET c then Some 2
     else pg_ascii_dsplen s
   }"

definition pg_euckr_dsplen :: "byte list \<Rightarrow> int option" where
  "pg_euckr_dsplen s = pg_euc_dsplen s"

definition pg_euccn_dsplen :: "byte list \<Rightarrow> int option" where
  "pg_euccn_dsplen s = do { c \<leftarrow> rd s 0; if IS_HIGHBIT_SET c then Some 2 else pg_ascii_dsplen s }"

definition pg_euctw_dsplen :: "byte list \<Rightarrow> int option" where
  "pg_euctw_dsplen s = do {
     c \<leftarrow> rd s 0;
     if c = SS2 then Some 2 else if c = SS3 then Some 2 else if IS_HIGHBIT_SET c then Some 2
     else pg_ascii_dsplen s
   }"

definition pg_johab_dsplen :: "byte list \<Rightarrow> int option" where
  "pg_johab_dsplen s = pg_euc_dsplen s"

definition pg_mule_dsplen :: "byte list \<Rightarrow> int option" where
  "pg_mule_dsplen s = do {
     c \<leftarrow> rd s 0;
     Some (if IS_LC1 c then 1 else if IS_LCPRV1 c then 1 else if IS_LC2 c then 2
           else if IS_LCPRV2 c then 2 else 1)
   }"

definition pg_latin1_dsplen :: "byte list \<Rightarrow> int option" where
  "pg_latin1_dsplen s = pg_ascii_dsplen s"

definition pg_sjis_dsplen :: "byte list \<Rightarrow> int option" where
  "pg_sjis_dsplen s = do {
     c \<leftarrow> rd s 0;
     if c \<ge> 0xa1 \<and> c \<le> 0xdf then Some 1 else if IS_HIGHBIT_SET c then Some 2 else pg_ascii_dsplen s
   }"

definition pg_big5_dsplen :: "byte list \<Rightarrow> int option" where
  "pg_big5_dsplen s = do { c \<leftarrow> rd s 0; if IS_HIGHBIT_SET c then Some 2 else pg_ascii_dsplen s }"

definition pg_gbk_dsplen :: "byte list \<Rightarrow> int option" where
  "pg_gbk_dsplen s = do { c \<leftarrow> rd s 0; if IS_HIGHBIT_SET c then Some 2 else pg_ascii_dsplen s }"

definition pg_uhc_dsplen :: "byte list \<Rightarrow> int option" where
  "pg_uhc_dsplen s = do { c \<leftarrow> rd s 0; if IS_HIGHBIT_SET c then Some 2 else pg_ascii_dsplen s }"

definition pg_gb18030_dsplen :: "byte list \<Rightarrow> int option" where
  "pg_gb18030_dsplen s = do { c \<leftarrow> rd s 0; if IS_HIGHBIT_SET c then Some 2 else pg_ascii_dsplen s }"

text \<open>\<open>struct mbinterval\<close>: the first and the last code of an interval, \<open>unsigned short\<close> both.\<close>

type_synonym mbinterval = "16 word \<times> 16 word"

function mbbisearch_loop :: "pg_wchar \<Rightarrow> mbinterval list \<Rightarrow> int \<Rightarrow> int \<Rightarrow> int option" where
  "mbbisearch_loop ucs table mn mx =
     (if mx \<ge> mn then
        let mid = (mn + mx) div 2 in do {
          iv \<leftarrow> rdi table mid;
          if ucs > ucast (snd iv) then mbbisearch_loop ucs table (mid + 1) mx
          else if ucs < ucast (fst iv) then mbbisearch_loop ucs table mn (mid - 1)
          else Some 1
        }
      else Some 0)"
  by pat_completeness auto
termination
  by (relation "measure (\<lambda>(ucs, table, mn, mx). nat (mx - mn + 1))") auto

declare mbbisearch_loop.simps [simp del]

definition mbbisearch :: "pg_wchar \<Rightarrow> mbinterval list \<Rightarrow> int \<Rightarrow> int option" where
  "mbbisearch ucs table mx = do {
     iv0 \<leftarrow> rdi table 0;
     if ucs < ucast (fst iv0) then Some 0
     else do {
       ivm \<leftarrow> rdi table mx;
       if ucs > ucast (snd ivm) then Some 0 else mbbisearch_loop ucs table 0 mx
     }
   }"

definition combining :: "mbinterval list" where
  "combining = [
    (0x0300, 0x034E), (0x0360, 0x0362), (0x0483, 0x0486), (0x0488, 0x0489),
    (0x0591, 0x05A1), (0x05A3, 0x05B9), (0x05BB, 0x05BD), (0x05BF, 0x05BF),
    (0x05C1, 0x05C2), (0x05C4, 0x05C4), (0x064B, 0x0655), (0x0670, 0x0670),
    (0x06D6, 0x06E4), (0x06E7, 0x06E8), (0x06EA, 0x06ED), (0x070F, 0x070F),
    (0x0711, 0x0711), (0x0730, 0x074A), (0x07A6, 0x07B0), (0x0901, 0x0902),
    (0x093C, 0x093C), (0x0941, 0x0948), (0x094D, 0x094D), (0x0951, 0x0954),
    (0x0962, 0x0963), (0x0981, 0x0981), (0x09BC, 0x09BC), (0x09C1, 0x09C4),
    (0x09CD, 0x09CD), (0x09E2, 0x09E3), (0x0A02, 0x0A02), (0x0A3C, 0x0A3C),
    (0x0A41, 0x0A42), (0x0A47, 0x0A48), (0x0A4B, 0x0A4D), (0x0A70, 0x0A71),
    (0x0A81, 0x0A82), (0x0ABC, 0x0ABC), (0x0AC1, 0x0AC5), (0x0AC7, 0x0AC8),
    (0x0ACD, 0x0ACD), (0x0B01, 0x0B01), (0x0B3C, 0x0B3C), (0x0B3F, 0x0B3F),
    (0x0B41, 0x0B43), (0x0B4D, 0x0B4D), (0x0B56, 0x0B56), (0x0B82, 0x0B82),
    (0x0BC0, 0x0BC0), (0x0BCD, 0x0BCD), (0x0C3E, 0x0C40), (0x0C46, 0x0C48),
    (0x0C4A, 0x0C4D), (0x0C55, 0x0C56), (0x0CBF, 0x0CBF), (0x0CC6, 0x0CC6),
    (0x0CCC, 0x0CCD), (0x0D41, 0x0D43), (0x0D4D, 0x0D4D), (0x0DCA, 0x0DCA),
    (0x0DD2, 0x0DD4), (0x0DD6, 0x0DD6), (0x0E31, 0x0E31), (0x0E34, 0x0E3A),
    (0x0E47, 0x0E4E), (0x0EB1, 0x0EB1), (0x0EB4, 0x0EB9), (0x0EBB, 0x0EBC),
    (0x0EC8, 0x0ECD), (0x0F18, 0x0F19), (0x0F35, 0x0F35), (0x0F37, 0x0F37),
    (0x0F39, 0x0F39), (0x0F71, 0x0F7E), (0x0F80, 0x0F84), (0x0F86, 0x0F87),
    (0x0F90, 0x0F97), (0x0F99, 0x0FBC), (0x0FC6, 0x0FC6), (0x102D, 0x1030),
    (0x1032, 0x1032), (0x1036, 0x1037), (0x1039, 0x1039), (0x1058, 0x1059),
    (0x1160, 0x11FF), (0x17B7, 0x17BD), (0x17C6, 0x17C6), (0x17C9, 0x17D3),
    (0x180B, 0x180E), (0x18A9, 0x18A9), (0x200B, 0x200F), (0x202A, 0x202E),
    (0x206A, 0x206F), (0x20D0, 0x20E3), (0x302A, 0x302F), (0x3099, 0x309A),
    (0xFB1E, 0xFB1E), (0xFE20, 0xFE23), (0xFEFF, 0xFEFF), (0xFFF9, 0xFFFB)
   ]"

definition ucs_wcwidth :: "pg_wchar \<Rightarrow> int option" where
  "ucs_wcwidth ucs =
     (if ucs = 0 then Some 0
      else if ucs < 0x20 \<or> (ucs \<ge> 0x7f \<and> ucs < 0xa0) \<or> ucs > 0x0010ffff then Some (-1)
      else do {
        found \<leftarrow> mbbisearch ucs combining (int (length combining) - 1);
        if found \<noteq> 0 then Some 0
        else Some (1 + of_bool
          (ucs \<ge> 0x1100 \<and>
           (ucs \<le> 0x115f \<or>
            (ucs \<ge> 0x2e80 \<and> ucs \<le> 0xa4cf \<and> ucs AND NOT 0x0011 \<noteq> 0x300a \<and> ucs \<noteq> 0x303f) \<or>
            (ucs \<ge> 0xac00 \<and> ucs \<le> 0xd7a3) \<or>
            (ucs \<ge> 0xf900 \<and> ucs \<le> 0xfaff) \<or>
            (ucs \<ge> 0xfe30 \<and> ucs \<le> 0xfe6f) \<or>
            (ucs \<ge> 0xff00 \<and> ucs \<le> 0xff5f) \<or>
            (ucs \<ge> 0xffe0 \<and> ucs \<le> 0xffe6) \<or>
            (ucs \<ge> 0x20000 \<and> ucs \<le> 0x2ffff))))
      })"

definition pg_utf_dsplen :: "byte list \<Rightarrow> int option" where
  "pg_utf_dsplen s = do { c \<leftarrow> utf8_to_unicode s; ucs_wcwidth c }"


section \<open>Bounds of the conversions\<close>

text \<open>
  What the loop needs from a body: at \<open>len > 0\<close> bytes it stays inside them, and it consumes at
  least one byte and no more than there are.
\<close>

locale wchar_step =
  fixes step :: "byte list \<Rightarrow> int \<Rightarrow> (pg_wchar \<times> nat) option option"
  assumes in_bounds: "0 < len \<Longrightarrow> len \<le> int (length from) \<Longrightarrow> \<exists>r. step from len = Some r"
    and consumes: "0 < len \<Longrightarrow> step from len = Some (Some (w, k)) \<Longrightarrow> 0 < k \<and> int k \<le> len"
begin

lemma loop_total:
  "len \<le> int (length from) \<Longrightarrow>
   \<exists>ws. mb2wchar_loop step from len = Some ws \<and> int (length ws) \<le> max 0 len"
proof (induction "nat len" arbitrary: "from" len rule: less_induct)
  case less
  show ?case
  proof (cases "0 < len")
    case False
    then show ?thesis by (simp add: mb2wchar_loop.simps)
  next
    case True
    then obtain c s where s: "from = c # s" using less.prems by (cases "from") auto
    obtain r where r: "step from len = Some r" using in_bounds [OF True less.prems] by blast
    show ?thesis
    proof (cases "c \<noteq> 0 \<and> r \<noteq> None")
      case False
      then show ?thesis using True r s by (subst mb2wchar_loop.simps) auto
    next
      case go: True
      then obtain w k where k: "r = Some (w, k)" by auto
      from consumes [OF True] r k have "0 < k" "int k \<le> len" by auto
      with less.prems True obtain ws where
        "mb2wchar_loop step (drop k from) (len - int k) = Some ws" "int (length ws) \<le> max 0 (len - int k)"
        using less.hyps [of "len - int k" "drop k from"] by auto
      then show ?thesis using True go r s k \<open>0 < k\<close> \<open>int k \<le> len\<close> by (subst mb2wchar_loop.simps) auto
    qed
  qed
qed

lemma conversion_total:
  assumes "0 \<le> len" "len \<le> int (length from)"
  shows "\<exists>n ws. map_option with_terminator (mb2wchar_loop step from len) = Some (n, ws) \<and>
    0 \<le> n \<and> n \<le> len \<and> int (length ws) = n + 1"
  using loop_total [OF assms(2)] assms(1) by (auto simp: with_terminator_def)

end

interpretation ascii_wide: wchar_step ascii_step
  by unfold_locales (auto simp: ascii_step_def rd_Some_iff bind_Some_iff rd_def split: if_splits)

interpretation latin1_wide: wchar_step latin1_step
  by unfold_locales (auto simp: latin1_step_def rd_Some_iff bind_Some_iff rd_def split: if_splits)

interpretation euc_wide: wchar_step euc_step
  by unfold_locales (auto simp: euc_step_def rd_Some_iff bind_Some_iff rd_def split: if_splits)

interpretation euccn_wide: wchar_step euccn_step
  by unfold_locales (auto simp: euccn_step_def rd_Some_iff bind_Some_iff rd_def split: if_splits)

interpretation euctw_wide: wchar_step euctw_step
  by unfold_locales (auto simp: euctw_step_def rd_Some_iff bind_Some_iff rd_def split: if_splits)

interpretation utf_wide: wchar_step utf_step
  by unfold_locales (auto simp: utf_step_def rd_Some_iff bind_Some_iff rd_def Let_def split: if_splits)

interpretation mule_wide: wchar_step mule_step
  by unfold_locales (auto simp: mule_step_def rd_Some_iff bind_Some_iff rd_def split: if_splits)


section \<open>The UTF-8 conversion is \<open>utf8_to_unicode\<close> per character\<close>

lemma utf_step_decodes:
  assumes "utf8_to_unicode s = Some w" "pg_utf_mblen s = Some l" "l \<le> len" "w \<noteq> 0xffffffff"
  shows "utf_step s len = Some (Some (w, nat l))"
  using assms
  by (auto simp: utf_step_def utf8_to_unicode_def pg_utf_mblen_def bind_Some_iff Let_def split: if_split_asm)

lemma unicode_to_utf8_head:
  assumes "unat c < 2 ^ 21"
  obtains b bs where "unicode_to_utf8 c = b # bs" "c \<noteq> 0 \<Longrightarrow> b \<noteq> 0"
    "\<And>r. pg_utf_mblen (b # r) = Some (int (length (unicode_to_utf8 c)))"
proof -
  let ?n = "unat c"
  have enc: "map unat (unicode_to_utf8 c) = utf8_nats ?n" by (rule unat_unicode_to_utf8)
  then obtain b bs where b: "unicode_to_utf8 c = b # bs" "unat b = hd (utf8_nats ?n)"
    by (cases "unicode_to_utf8 c") (auto simp: utf8_nats_def split: if_split_asm)
  have small: "?n div 64 < 32" if "?n < 2048" using that by simp
  have small3: "?n div 4096 < 16" if "?n < 65536" using that by simp
  have small4: "?n div 262144 < 8" using assms by simp
  have "b \<noteq> 0" if "c \<noteq> 0"
    using that b(2) by (auto simp: utf8_nats_def word_eq_unat split: if_split_asm)
  moreover have "pg_utf_mblen (b # r) = Some (int (length (unicode_to_utf8 c)))" for r
    using b(2) small small3 small4
    by (auto simp: pg_utf_mblen_unat length_unicode_to_utf8 utf8_nats_def split: if_split_asm)
  ultimately show ?thesis using b(1) that by blast
qed

lemma utf_loop_concat:
  assumes "\<forall>c \<in> set cs. c \<noteq> 0 \<and> unat c < 2 ^ 21"
  shows "mb2wchar_loop utf_step (concat (map unicode_to_utf8 cs) @ r)
    (int (length (concat (map unicode_to_utf8 cs)))) = Some cs"
  using assms
proof (induction cs)
  case Nil
  then show ?case by (simp add: mb2wchar_loop.simps)
next
  case (Cons c cs)
  let ?rest = "concat (map unicode_to_utf8 cs)"
  let ?u = "unicode_to_utf8 c"
  from Cons.prems have c: "c \<noteq> 0" "unat c < 2 ^ 21" by auto
  obtain b bs where b: "?u = b # bs" "b \<noteq> 0" "\<And>r. pg_utf_mblen (b # r) = Some (int (length ?u))"
    using unicode_to_utf8_head [OF c(2)] c(1) by metis
  have "c \<noteq> 0xffffffff" using c(2) by (auto simp: word_eq_unat)
  moreover have "utf8_to_unicode (?u @ ?rest @ r) = Some c" by (rule utf8_roundtrip [OF c(2)])
  ultimately have step: "utf_step (?u @ ?rest @ r) (int (length (?u @ ?rest))) = Some (Some (c, length ?u))"
    using utf_step_decodes [of "?u @ ?rest @ r" c "int (length ?u)"] b(1,3) by simp
  have "mb2wchar_loop utf_step (?rest @ r) (int (length ?rest)) = Some cs" using Cons by simp
  then show ?case
    using step b(1,2) by (subst mb2wchar_loop.simps) simp
qed


section \<open>The binary search of the width table\<close>

text \<open>The table is sorted and its intervals are disjoint, which the search relies on.\<close>

fun intervals_sorted :: "mbinterval list \<Rightarrow> bool" where
  "intervals_sorted [] \<longleftrightarrow> True"
| "intervals_sorted [(a, b)] \<longleftrightarrow> a \<le> b"
| "intervals_sorted ((a, b) # (c, d) # t) \<longleftrightarrow> a \<le> b \<and> b < c \<and> intervals_sorted ((c, d) # t)"

definition in_interval :: "pg_wchar \<Rightarrow> mbinterval \<Rightarrow> bool" where
  "in_interval ucs iv \<longleftrightarrow> ucast (fst iv) \<le> ucs \<and> ucs \<le> ucast (snd iv)"

lemma intervals_sorted_nth:
  "intervals_sorted t \<Longrightarrow> i < length t \<Longrightarrow>
   fst (t ! i) \<le> snd (t ! i) \<and> (\<forall>j. i < j \<and> j < length t \<longrightarrow> snd (t ! i) < fst (t ! j))"
proof (induction t arbitrary: i rule: intervals_sorted.induct)
  case (3 a b c d t)
  from "3.prems" have srt: "intervals_sorted ((c, d) # t)" "a \<le> b" "b < c" by auto
  have tail: "c \<le> fst (((c, d) # t) ! j)" if "j < length ((c, d) # t)" for j
  proof (cases j)
    case (Suc k)
    then show ?thesis
      using "3.IH" [OF srt(1), of 0] that by (auto intro: order.trans [OF _ order.strict_implies_order])
  qed simp
  show ?case
  proof (cases i)
    case 0
    then show ?thesis
      using srt order.strict_trans2 [OF srt(3) tail [of "Suc _"]]
      by (auto simp: less_Suc_eq_0_disj gr0_conv_Suc)
  next
    case (Suc k)
    then show ?thesis
      using "3.IH" [OF srt(1), of k] "3.prems" by (auto simp: less_Suc_eq_0_disj nth_Cons' split: if_split_asm)
  qed
qed (auto simp: less_Suc_eq_0_disj)

lemma intervals_below:
  assumes "intervals_sorted t" "i < length t" "j \<le> i"
  shows "snd (t ! j) \<le> snd (t ! i)" "fst (t ! j) \<le> fst (t ! i)"
proof -
  have "snd (t ! j) \<le> snd (t ! i) \<and> fst (t ! j) \<le> fst (t ! i)"
  proof (cases "j = i")
    case False
    then have "fst (t ! j) \<le> snd (t ! j)" "snd (t ! j) < fst (t ! i)" "fst (t ! i) \<le> snd (t ! i)"
      using intervals_sorted_nth [OF assms(1), of j] intervals_sorted_nth [OF assms(1), of i] assms by auto
    then show ?thesis by (auto intro: order.trans order.strict_implies_order)
  qed simp
  then show "snd (t ! j) \<le> snd (t ! i)" "fst (t ! j) \<le> fst (t ! i)" by auto
qed

lemma unat_ucast_16: "unat (ucast a :: pg_wchar) = unat a" for a :: "16 word"
  using unat_bound [of a] by (simp add: unsigned_ucast_eq take_bit_nat_eq_self)

lemma ucast_mono_16: "a \<le> b \<Longrightarrow> (ucast a :: pg_wchar) \<le> ucast b" for a b :: "16 word"
  by (simp add: word_le_nat_alt unat_ucast_16)

text \<open>Every iteration keeps the answer in the window between \<open>mn\<close> and \<open>mx\<close>.\<close>

lemma mbbisearch_loop_correct:
  assumes "intervals_sorted t" "0 \<le> mn" "mx < int (length t)"
  shows "mbbisearch_loop ucs t mn mx =
    Some (of_bool (\<exists>i. mn \<le> int i \<and> int i \<le> mx \<and> in_interval ucs (t ! i)))"
  using assms
proof (induction ucs t mn mx rule: mbbisearch_loop.induct)
  case (1 ucs t mn mx)
  show ?case
  proof (cases "mn \<le> mx")
    case False
    then show ?thesis by (subst mbbisearch_loop.simps) auto
  next
    case True
    define mid where "mid = (mn + mx) div 2"
    have mid: "mn \<le> mid" "mid \<le> mx" using True by (auto simp: mid_def)
    define iv where "iv = t ! nat mid"
    have iv: "rdi t mid = Some iv" using mid "1.prems" by (simp add: rdi_in iv_def)
    consider "ucs > ucast (snd iv)" | "\<not> ucs > ucast (snd iv)" "ucs < ucast (fst iv)"
      | "in_interval ucs iv" unfolding in_interval_def by (meson not_less)
    then show ?thesis
    proof cases
      case 1
      have "\<not> in_interval ucs (t ! i)" if "int i \<le> mid" for i
      proof -
        have "i \<le> nat mid" "nat mid < length t" using that mid "1.prems" by auto
        then have "(ucast (snd (t ! i)) :: pg_wchar) \<le> ucast (snd iv)"
          unfolding iv_def by (intro ucast_mono_16 intervals_below(1) [OF "1.prems"(1)])
        with 1 show ?thesis by (auto simp: in_interval_def)
      qed
      then have "(\<exists>i. mn \<le> int i \<and> int i \<le> mx \<and> in_interval ucs (t ! i)) \<longleftrightarrow>
        (\<exists>i. mid + 1 \<le> int i \<and> int i \<le> mx \<and> in_interval ucs (t ! i))"
        using mid by (metis (no_types, opaque_lifting) add1_zle_eq linorder_not_le order.trans order_less_imp_le)
      then show ?thesis
        using "1.IH"(1) [OF True mid_def] "1.prems" True iv 1 mid
        by (subst mbbisearch_loop.simps) (simp flip: mid_def)
    next
      case 2
      have "\<not> in_interval ucs (t ! i)" if "mid \<le> int i" "int i \<le> mx" for i
      proof -
        have "nat mid \<le> i" "i < length t" using that mid "1.prems" by auto
        then have "(ucast (fst iv) :: pg_wchar) \<le> ucast (fst (t ! i))"
          unfolding iv_def by (intro ucast_mono_16 intervals_below(2) [OF "1.prems"(1)])
        with 2 show ?thesis by (auto simp: in_interval_def)
      qed
      then have "(\<exists>i. mn \<le> int i \<and> int i \<le> mx \<and> in_interval ucs (t ! i)) \<longleftrightarrow>
        (\<exists>i. mn \<le> int i \<and> int i \<le> mid - 1 \<and> in_interval ucs (t ! i))"
        using mid by (metis (no_types, opaque_lifting) le_diff_eq add1_zle_eq linorder_not_le order.trans order_less_imp_le)
      then show ?thesis
        using "1.IH"(2) [OF True mid_def] "1.prems" True iv 2 mid
        by (subst mbbisearch_loop.simps) (simp flip: mid_def)
    next
      case 3
      then have "\<exists>i. mn \<le> int i \<and> int i \<le> mx \<and> in_interval ucs (t ! i)"
        using mid "1.prems" by (intro exI [of _ "nat mid"]) (simp add: iv_def)
      then show ?thesis
        using True iv 3 by (subst mbbisearch_loop.simps) (auto simp: in_interval_def not_less simp flip: mid_def)
    qed
  qed
qed

lemma mbbisearch_linear:
  assumes "intervals_sorted t" "t \<noteq> []"
  shows "mbbisearch ucs t (int (length t) - 1) = Some (of_bool (\<exists>iv \<in> set t. in_interval ucs iv))"
proof -
  let ?n = "int (length t) - 1"
  have len: "0 < length t" using assms(2) by simp
  have set: "(\<exists>iv \<in> set t. in_interval ucs iv) \<longleftrightarrow> (\<exists>i. 0 \<le> int i \<and> int i \<le> ?n \<and> in_interval ucs (t ! i))"
    unfolding Bex_def in_set_conv_nth by (auto simp del: split_paired_Ex)
  have loop: "mbbisearch_loop ucs t 0 ?n = Some (of_bool (\<exists>iv \<in> set t. in_interval ucs iv))"
    unfolding set by (rule mbbisearch_loop_correct [OF assms(1)]) auto
  have first: "fst (t ! 0) \<le> fst iv" and last: "snd iv \<le> snd (t ! (length t - 1))" if "iv \<in> set t" for iv
    using that intervals_below(2) [OF assms(1), of _ 0] intervals_below(1) [OF assms(1), of "length t - 1"] len
    by (auto simp: in_set_conv_nth)
  have out: "\<not> (\<exists>iv \<in> set t. in_interval ucs iv)"
    if "ucs < ucast (fst (t ! 0)) \<or> ucs > ucast (snd (t ! (length t - 1)))"
    using that first last ucast_mono_16 by (auto simp: in_interval_def not_le)
      (meson order.strict_trans1 order.strict_trans2 not_le)+
  have n: "nat ?n = length t - 1" using len by arith
  show ?thesis
    using len out loop n by (auto simp: mbbisearch_def rdi_in)
qed

lemma combining_sorted: "intervals_sorted combining"
  unfolding combining_def by simp

end
