(* ===== verification/Encnames.thy ===== *)
theory Encnames
  imports Prelude "HOL-Library.List_Lexorder"
begin

text \<open>
  Encoding identifiers and names, \<open>src/include/mb/pg_wchar.h\<close> and
  \<open>src/backend/utils/mb/encnames.c\<close>, and the case folding of \<open>src/port/pgstrcasecmp.c\<close>.

  \<open>enum pg_enc\<close> is used as an \<open>int\<close> by the code (it is compared with -1 and with ranges and it
  indexes tables), so an encoding is an \<open>int\<close> here and its constructors abbreviate their numbers.
  A C string that is only read as one is the list of its bytes before the terminator.

  \<open>isalnum\<close>, \<open>isupper\<close>, \<open>tolower\<close> and their like depend on the locale for bytes with the high bit:
  the record \<open>ctype\<close> holds what the locale says of those, and 7-bit bytes are ASCII in all of them.
\<close>

section \<open>Encodings\<close>

abbreviation (input) PG_SQL_ASCII :: int where "PG_SQL_ASCII \<equiv> 0"
abbreviation (input) PG_EUC_JP :: int where "PG_EUC_JP \<equiv> 1"
abbreviation (input) PG_EUC_CN :: int where "PG_EUC_CN \<equiv> 2"
abbreviation (input) PG_EUC_KR :: int where "PG_EUC_KR \<equiv> 3"
abbreviation (input) PG_EUC_TW :: int where "PG_EUC_TW \<equiv> 4"
abbreviation (input) PG_EUC_JIS_2004 :: int where "PG_EUC_JIS_2004 \<equiv> 5"
abbreviation (input) PG_UTF8 :: int where "PG_UTF8 \<equiv> 6"
abbreviation (input) PG_MULE_INTERNAL :: int where "PG_MULE_INTERNAL \<equiv> 7"
abbreviation (input) PG_LATIN1 :: int where "PG_LATIN1 \<equiv> 8"
abbreviation (input) PG_LATIN2 :: int where "PG_LATIN2 \<equiv> 9"
abbreviation (input) PG_LATIN3 :: int where "PG_LATIN3 \<equiv> 10"
abbreviation (input) PG_LATIN4 :: int where "PG_LATIN4 \<equiv> 11"
abbreviation (input) PG_LATIN5 :: int where "PG_LATIN5 \<equiv> 12"
abbreviation (input) PG_LATIN6 :: int where "PG_LATIN6 \<equiv> 13"
abbreviation (input) PG_LATIN7 :: int where "PG_LATIN7 \<equiv> 14"
abbreviation (input) PG_LATIN8 :: int where "PG_LATIN8 \<equiv> 15"
abbreviation (input) PG_LATIN9 :: int where "PG_LATIN9 \<equiv> 16"
abbreviation (input) PG_LATIN10 :: int where "PG_LATIN10 \<equiv> 17"
abbreviation (input) PG_WIN1256 :: int where "PG_WIN1256 \<equiv> 18"
abbreviation (input) PG_WIN1258 :: int where "PG_WIN1258 \<equiv> 19"
abbreviation (input) PG_WIN866 :: int where "PG_WIN866 \<equiv> 20"
abbreviation (input) PG_WIN874 :: int where "PG_WIN874 \<equiv> 21"
abbreviation (input) PG_KOI8R :: int where "PG_KOI8R \<equiv> 22"
abbreviation (input) PG_WIN1251 :: int where "PG_WIN1251 \<equiv> 23"
abbreviation (input) PG_WIN1252 :: int where "PG_WIN1252 \<equiv> 24"
abbreviation (input) PG_ISO_8859_5 :: int where "PG_ISO_8859_5 \<equiv> 25"
abbreviation (input) PG_ISO_8859_6 :: int where "PG_ISO_8859_6 \<equiv> 26"
abbreviation (input) PG_ISO_8859_7 :: int where "PG_ISO_8859_7 \<equiv> 27"
abbreviation (input) PG_ISO_8859_8 :: int where "PG_ISO_8859_8 \<equiv> 28"
abbreviation (input) PG_WIN1250 :: int where "PG_WIN1250 \<equiv> 29"
abbreviation (input) PG_WIN1253 :: int where "PG_WIN1253 \<equiv> 30"
abbreviation (input) PG_WIN1254 :: int where "PG_WIN1254 \<equiv> 31"
abbreviation (input) PG_WIN1255 :: int where "PG_WIN1255 \<equiv> 32"
abbreviation (input) PG_WIN1257 :: int where "PG_WIN1257 \<equiv> 33"
abbreviation (input) PG_KOI8U :: int where "PG_KOI8U \<equiv> 34"
abbreviation (input) PG_SJIS :: int where "PG_SJIS \<equiv> 35"
abbreviation (input) PG_BIG5 :: int where "PG_BIG5 \<equiv> 36"
abbreviation (input) PG_GBK :: int where "PG_GBK \<equiv> 37"
abbreviation (input) PG_UHC :: int where "PG_UHC \<equiv> 38"
abbreviation (input) PG_GB18030 :: int where "PG_GB18030 \<equiv> 39"
abbreviation (input) PG_JOHAB :: int where "PG_JOHAB \<equiv> 40"
abbreviation (input) PG_SHIFT_JIS_2004 :: int where "PG_SHIFT_JIS_2004 \<equiv> 41"

abbreviation (input) PG_ENCODING_BE_LAST :: int where "PG_ENCODING_BE_LAST \<equiv> PG_KOI8U"
abbreviation (input) PG_LAST_ENCODING :: int where "PG_LAST_ENCODING \<equiv> 42"

definition PG_VALID_BE_ENCODING :: "int \<Rightarrow> bool" where
  "PG_VALID_BE_ENCODING enc \<longleftrightarrow> enc \<ge> 0 \<and> enc \<le> PG_ENCODING_BE_LAST"

definition PG_ENCODING_IS_CLIENT_ONLY :: "int \<Rightarrow> bool" where
  "PG_ENCODING_IS_CLIENT_ONLY enc \<longleftrightarrow> enc > PG_ENCODING_BE_LAST \<and> enc < PG_LAST_ENCODING"

definition PG_VALID_ENCODING :: "int \<Rightarrow> bool" where
  "PG_VALID_ENCODING enc \<longleftrightarrow> enc \<ge> 0 \<and> enc < PG_LAST_ENCODING"

definition PG_VALID_FE_ENCODING :: "int \<Rightarrow> bool" where
  "PG_VALID_FE_ENCODING enc \<longleftrightarrow> PG_VALID_ENCODING enc"

text \<open>All names of an encoding, sorted: name and encoding. The final \<open>NULL\<close> entry is not counted by \<open>pg_encname_tbl_sz\<close> and left out.\<close>

definition pg_encname_tbl :: "(string \<times> int) list" where
  "pg_encname_tbl = [
    (''abc'', PG_WIN1258), (''alt'', PG_WIN866), (''big5'', PG_BIG5), (''euccn'', PG_EUC_CN),
    (''eucjis2004'', PG_EUC_JIS_2004), (''eucjp'', PG_EUC_JP), (''euckr'', PG_EUC_KR),
    (''euctw'', PG_EUC_TW), (''gb18030'', PG_GB18030), (''gbk'', PG_GBK), (''iso88591'', PG_LATIN1),
    (''iso885910'', PG_LATIN6), (''iso885913'', PG_LATIN7), (''iso885914'', PG_LATIN8),
    (''iso885915'', PG_LATIN9), (''iso885916'', PG_LATIN10), (''iso88592'', PG_LATIN2),
    (''iso88593'', PG_LATIN3), (''iso88594'', PG_LATIN4), (''iso88595'', PG_ISO_8859_5),
    (''iso88596'', PG_ISO_8859_6), (''iso88597'', PG_ISO_8859_7), (''iso88598'', PG_ISO_8859_8),
    (''iso88599'', PG_LATIN5), (''johab'', PG_JOHAB), (''koi8'', PG_KOI8R), (''koi8r'', PG_KOI8R),
    (''koi8u'', PG_KOI8U), (''latin1'', PG_LATIN1), (''latin10'', PG_LATIN10), (''latin2'', PG_LATIN2),
    (''latin3'', PG_LATIN3), (''latin4'', PG_LATIN4), (''latin5'', PG_LATIN5), (''latin6'', PG_LATIN6),
    (''latin7'', PG_LATIN7), (''latin8'', PG_LATIN8), (''latin9'', PG_LATIN9), (''mskanji'', PG_SJIS),
    (''muleinternal'', PG_MULE_INTERNAL), (''shiftjis'', PG_SJIS),
    (''shiftjis2004'', PG_SHIFT_JIS_2004), (''sjis'', PG_SJIS), (''sqlascii'', PG_SQL_ASCII),
    (''tcvn'', PG_WIN1258), (''tcvn5712'', PG_WIN1258), (''uhc'', PG_UHC), (''unicode'', PG_UTF8),
    (''utf8'', PG_UTF8), (''vscii'', PG_WIN1258), (''win'', PG_WIN1251), (''win1250'', PG_WIN1250),
    (''win1251'', PG_WIN1251), (''win1252'', PG_WIN1252), (''win1253'', PG_WIN1253),
    (''win1254'', PG_WIN1254), (''win1255'', PG_WIN1255), (''win1256'', PG_WIN1256),
    (''win1257'', PG_WIN1257), (''win1258'', PG_WIN1258), (''win866'', PG_WIN866),
    (''win874'', PG_WIN874), (''win932'', PG_SJIS), (''win936'', PG_GBK), (''win949'', PG_UHC),
    (''win950'', PG_BIG5), (''windows1250'', PG_WIN1250), (''windows1251'', PG_WIN1251),
    (''windows1252'', PG_WIN1252), (''windows1253'', PG_WIN1253), (''windows1254'', PG_WIN1254),
    (''windows1255'', PG_WIN1255), (''windows1256'', PG_WIN1256), (''windows1257'', PG_WIN1257),
    (''windows1258'', PG_WIN1258), (''windows866'', PG_WIN866), (''windows874'', PG_WIN874),
    (''windows932'', PG_SJIS), (''windows936'', PG_GBK), (''windows949'', PG_UHC),
    (''windows950'', PG_BIG5)
   ]"

definition pg_encname_tbl_sz :: nat where
  "pg_encname_tbl_sz = length pg_encname_tbl"

definition pg_enc2name_tbl :: "(string \<times> int) list" where
  "pg_enc2name_tbl = [
    (''SQL_ASCII'', PG_SQL_ASCII), (''EUC_JP'', PG_EUC_JP), (''EUC_CN'', PG_EUC_CN),
    (''EUC_KR'', PG_EUC_KR), (''EUC_TW'', PG_EUC_TW), (''EUC_JIS_2004'', PG_EUC_JIS_2004),
    (''UTF8'', PG_UTF8), (''MULE_INTERNAL'', PG_MULE_INTERNAL), (''LATIN1'', PG_LATIN1),
    (''LATIN2'', PG_LATIN2), (''LATIN3'', PG_LATIN3), (''LATIN4'', PG_LATIN4), (''LATIN5'', PG_LATIN5),
    (''LATIN6'', PG_LATIN6), (''LATIN7'', PG_LATIN7), (''LATIN8'', PG_LATIN8), (''LATIN9'', PG_LATIN9),
    (''LATIN10'', PG_LATIN10), (''WIN1256'', PG_WIN1256), (''WIN1258'', PG_WIN1258),
    (''WIN866'', PG_WIN866), (''WIN874'', PG_WIN874), (''KOI8R'', PG_KOI8R), (''WIN1251'', PG_WIN1251),
    (''WIN1252'', PG_WIN1252), (''ISO_8859_5'', PG_ISO_8859_5), (''ISO_8859_6'', PG_ISO_8859_6),
    (''ISO_8859_7'', PG_ISO_8859_7), (''ISO_8859_8'', PG_ISO_8859_8), (''WIN1250'', PG_WIN1250),
    (''WIN1253'', PG_WIN1253), (''WIN1254'', PG_WIN1254), (''WIN1255'', PG_WIN1255),
    (''WIN1257'', PG_WIN1257), (''KOI8U'', PG_KOI8U), (''SJIS'', PG_SJIS), (''BIG5'', PG_BIG5),
    (''GBK'', PG_GBK), (''UHC'', PG_UHC), (''GB18030'', PG_GB18030), (''JOHAB'', PG_JOHAB),
    (''SHIFT_JIS_2004'', PG_SHIFT_JIS_2004)
   ]"

text \<open>Entry \<open>None\<close> is the terminating \<open>NULL\<close>.\<close>

definition pg_enc2gettext_tbl :: "(int \<times> string option) list" where
  "pg_enc2gettext_tbl = [
    (PG_UTF8, Some ''UTF-8''), (PG_LATIN1, Some ''LATIN1''), (PG_LATIN2, Some ''LATIN2''),
    (PG_LATIN3, Some ''LATIN3''), (PG_LATIN4, Some ''LATIN4''), (PG_ISO_8859_5, Some ''ISO-8859-5''),
    (PG_ISO_8859_6, Some ''ISO_8859-6''), (PG_ISO_8859_7, Some ''ISO-8859-7''),
    (PG_ISO_8859_8, Some ''ISO-8859-8''), (PG_LATIN5, Some ''LATIN5''), (PG_LATIN6, Some ''LATIN6''),
    (PG_LATIN7, Some ''LATIN7''), (PG_LATIN8, Some ''LATIN8''), (PG_LATIN9, Some ''LATIN-9''),
    (PG_LATIN10, Some ''LATIN10''), (PG_KOI8R, Some ''KOI8-R''), (PG_KOI8U, Some ''KOI8-U''),
    (PG_WIN1250, Some ''CP1250''), (PG_WIN1251, Some ''CP1251''), (PG_WIN1252, Some ''CP1252''),
    (PG_WIN1253, Some ''CP1253''), (PG_WIN1254, Some ''CP1254''), (PG_WIN1255, Some ''CP1255''),
    (PG_WIN1256, Some ''CP1256''), (PG_WIN1257, Some ''CP1257''), (PG_WIN1258, Some ''CP1258''),
    (PG_WIN866, Some ''CP866''), (PG_WIN874, Some ''CP874''), (PG_EUC_CN, Some ''EUC-CN''),
    (PG_EUC_JP, Some ''EUC-JP''), (PG_EUC_KR, Some ''EUC-KR''), (PG_EUC_TW, Some ''EUC-TW''),
    (PG_EUC_JIS_2004, Some ''EUC-JP''), (0, None)
   ]"


section \<open>Characters and C strings\<close>

record ctype =
  ct_isalnum :: "byte \<Rightarrow> bool"
  ct_isupper :: "byte \<Rightarrow> bool"
  ct_islower :: "byte \<Rightarrow> bool"
  ct_tolower :: "byte \<Rightarrow> byte"
  ct_toupper :: "byte \<Rightarrow> byte"

definition C_locale :: ctype where
  "C_locale = \<lparr>ct_isalnum = (\<lambda>_. False), ct_isupper = (\<lambda>_. False), ct_islower = (\<lambda>_. False),
     ct_tolower = id, ct_toupper = id\<rparr>"

definition isalnum :: "ctype \<Rightarrow> byte \<Rightarrow> bool" where
  "isalnum ct c =
     (if IS_HIGHBIT_SET c then ct_isalnum ct c
      else (0x30 \<le> c \<and> c \<le> 0x39) \<or> (0x41 \<le> c \<and> c \<le> 0x5A) \<or> (0x61 \<le> c \<and> c \<le> 0x7A))"

text \<open>The bytes of a string constant.\<close>

definition c_bytes :: "string \<Rightarrow> byte list" where
  "c_bytes s = map of_char s"

fun c_strcmp :: "byte list \<Rightarrow> byte list \<Rightarrow> int" where
  "c_strcmp [] [] = 0"
| "c_strcmp [] (b # t) = - int (unat b)"
| "c_strcmp (a # s) [] = int (unat a)"
| "c_strcmp (a # s) (b # t) = (if a = b then c_strcmp s t else int (unat a) - int (unat b))"

text \<open>The first character of a string, its terminator when it is empty; \<open>char\<close> is signed on the targets.\<close>

definition ch0 :: "byte list \<Rightarrow> byte" where
  "ch0 s = (case s of [] \<Rightarrow> 0 | c # r \<Rightarrow> c)"


section \<open>Case folding\<close>

definition pg_tolower :: "ctype \<Rightarrow> byte \<Rightarrow> byte" where
  "pg_tolower ct ch =
     (if ch \<ge> 0x41 \<and> ch \<le> 0x5A then ch + (0x61 - 0x41)
      else if IS_HIGHBIT_SET ch \<and> ct_isupper ct ch then ct_tolower ct ch
      else ch)"

definition pg_toupper :: "ctype \<Rightarrow> byte \<Rightarrow> byte" where
  "pg_toupper ct ch =
     (if ch \<ge> 0x61 \<and> ch \<le> 0x7A then ch + (0x41 - 0x61)
      else if IS_HIGHBIT_SET ch \<and> ct_islower ct ch then ct_toupper ct ch
      else ch)"

definition pg_ascii_toupper :: "byte \<Rightarrow> byte" where
  "pg_ascii_toupper ch = (if ch \<ge> 0x61 \<and> ch \<le> 0x7A then ch + (0x41 - 0x61) else ch)"

definition pg_ascii_tolower :: "byte \<Rightarrow> byte" where
  "pg_ascii_tolower ch = (if ch \<ge> 0x41 \<and> ch \<le> 0x5A then ch + (0x61 - 0x41) else ch)"

text \<open>
  One round of the comparison loops: the folded pair, when the characters differ. The arms that fold
  \<open>ch1\<close> and \<open>ch2\<close> in the loop are the arms of \<open>pg_tolower\<close>, written out in the code.
\<close>

definition fold_pair :: "ctype \<Rightarrow> byte \<Rightarrow> byte \<Rightarrow> byte \<times> byte" where
  "fold_pair ct ch1 ch2 =
     (if ch1 \<noteq> ch2
      then (if ch1 \<ge> 0x41 \<and> ch1 \<le> 0x5A then ch1 + (0x61 - 0x41)
            else if IS_HIGHBIT_SET ch1 \<and> ct_isupper ct ch1 then ct_tolower ct ch1 else ch1,
            if ch2 \<ge> 0x41 \<and> ch2 \<le> 0x5A then ch2 + (0x61 - 0x41)
            else if IS_HIGHBIT_SET ch2 \<and> ct_isupper ct ch2 then ct_tolower ct ch2 else ch2)
      else (ch1, ch2))"

text \<open>The strings are read through pointers: \<open>None\<close> when the scan leaves either object.\<close>

fun pg_strcasecmp :: "ctype \<Rightarrow> byte list \<Rightarrow> byte list \<Rightarrow> int option" where
  "pg_strcasecmp ct (c1 # s1) (c2 # s2) =
     (let (ch1, ch2) = fold_pair ct c1 c2 in
      if ch1 \<noteq> ch2 then Some (int (unat ch1) - int (unat ch2))
      else if ch1 = 0 then Some 0
      else pg_strcasecmp ct s1 s2)"
| "pg_strcasecmp ct s1 s2 = None"

fun pg_strncasecmp :: "ctype \<Rightarrow> byte list \<Rightarrow> byte list \<Rightarrow> nat \<Rightarrow> int option" where
  "pg_strncasecmp ct s1 s2 0 = Some 0"
| "pg_strncasecmp ct (c1 # s1) (c2 # s2) (Suc n) =
     (let (ch1, ch2) = fold_pair ct c1 c2 in
      if ch1 \<noteq> ch2 then Some (int (unat ch1) - int (unat ch2))
      else if ch1 = 0 then Some 0
      else pg_strncasecmp ct s1 s2 n)"
| "pg_strncasecmp ct s1 s2 (Suc n) = None"


section \<open>Encodings by name\<close>

abbreviation (input) NAMEDATALEN :: nat where "NAMEDATALEN \<equiv> 64"

fun clean_encoding_name :: "ctype \<Rightarrow> byte list \<Rightarrow> byte list" where
  "clean_encoding_name ct [] = []"
| "clean_encoding_name ct (c # key) =
     (if isalnum ct c
      then (if sint c \<ge> 0x41 \<and> sint c \<le> 0x5A then c + 0x61 - 0x41 else c) # clean_encoding_name ct key
      else clean_encoding_name ct key)"

definition encname_result :: "byte list \<Rightarrow> byte list \<Rightarrow> int" where
  "encname_result key name =
     (let result = sint (ch0 key) - sint (ch0 name) in
      if result = 0 then c_strcmp key name else result)"

text \<open>The pointers \<open>base\<close> and \<open>last\<close> are indexes of the table. \<open>Some None\<close> is \<open>NULL\<close>.\<close>

function encname_search ::
  "byte list \<Rightarrow> (string \<times> int) list \<Rightarrow> int \<Rightarrow> int \<Rightarrow> (string \<times> int) option option" where
  "encname_search key tbl base lst =
     (if lst \<ge> base then
        let pos = base + (lst - base) div 2 in do {
          position \<leftarrow> rdi tbl pos;
          let result = encname_result key (c_bytes (fst position));
          if result = 0 then Some (Some position)
          else if result < 0 then encname_search key tbl base (pos - 1)
          else encname_search key tbl (pos + 1) lst
        }
      else Some None)"
  by pat_completeness auto
termination
  by (relation "measure (\<lambda>(key, tbl, base, lst). nat (lst - base + 1))") auto

declare encname_search.simps [simp del]

text \<open>The \<open>FRONTEND\<close> arm: a name that is too long is not found (a message goes to \<open>stderr\<close>).\<close>

definition pg_char_to_encname_struct :: "ctype \<Rightarrow> byte list option \<Rightarrow> (string \<times> int) option option" where
  "pg_char_to_encname_struct ct name =
     (case name of
        None \<Rightarrow> Some None
      | Some n \<Rightarrow>
          if n = [] then Some None
          else if length n \<ge> NAMEDATALEN then Some None
          else encname_search (clean_encoding_name ct n) pg_encname_tbl 0 (int pg_encname_tbl_sz - 1))"

definition pg_char_to_encoding :: "ctype \<Rightarrow> byte list option \<Rightarrow> int option" where
  "pg_char_to_encoding ct name =
     (case name of
        None \<Rightarrow> Some (- 1)
      | Some n \<Rightarrow> do {
          p \<leftarrow> pg_char_to_encname_struct ct (Some n);
          Some (case p of Some e \<Rightarrow> snd e | None \<Rightarrow> - 1)
        })"

definition pg_encoding_to_char :: "int \<Rightarrow> string option" where
  "pg_encoding_to_char encoding =
     (if PG_VALID_ENCODING encoding then do { p \<leftarrow> rdi pg_enc2name_tbl encoding; Some (fst p) }
      else Some [])"

definition pg_valid_client_encoding :: "ctype \<Rightarrow> byte list option \<Rightarrow> int option" where
  "pg_valid_client_encoding ct name = do {
     enc \<leftarrow> pg_char_to_encoding ct name;
     Some (if enc < 0 then - 1 else if \<not> PG_VALID_FE_ENCODING enc then - 1 else enc)
   }"

definition pg_valid_server_encoding :: "ctype \<Rightarrow> byte list option \<Rightarrow> int option" where
  "pg_valid_server_encoding ct name = do {
     enc \<leftarrow> pg_char_to_encoding ct name;
     Some (if enc < 0 then - 1 else if \<not> PG_VALID_BE_ENCODING enc then - 1 else enc)
   }"

definition pg_valid_server_encoding_id :: "int \<Rightarrow> int" where
  "pg_valid_server_encoding_id encoding = of_bool (PG_VALID_BE_ENCODING encoding)"


section \<open>The search finds what a linear search finds\<close>

lemma length_clean_encoding_name: "length (clean_encoding_name ct n) \<le> length n"
  by (induction n) auto

lemma unat_of_char: "unat (of_char c :: byte) = of_char c"
proof -
  have "unat (of_nat (of_char c) :: byte) = of_char c" by (simp add: unat_of_nat del: of_nat_of_char)
  then show ?thesis by (simp add: of_nat_of_char)
qed

lemma map_unat_c_bytes: "map unat (c_bytes s) = map of_char s"
  by (simp add: c_bytes_def unat_of_char)

lemma uint_unat: "uint a = int (unat a)" for a :: byte
  by (rule uint_nat)

lemma word_value_eq: "unat a = unat b \<longleftrightarrow> a = b" "uint a = uint b \<longleftrightarrow> a = b" "uint a = 0 \<longleftrightarrow> a = 0"
    "0 < uint a \<longleftrightarrow> a \<noteq> 0" "uint a < uint b \<longleftrightarrow> unat a < unat b" for a b :: byte
  by (simp_all only: uint_unat of_nat_eq_iff of_nat_less_iff of_nat_eq_0_iff of_nat_0_less_iff
      word_unat_eq_iff [symmetric] unat_eq_0 unat_gt_0)

lemma c_strcmp_antisym: "c_strcmp t s = - c_strcmp s t"
  by (induction s t rule: c_strcmp.induct) auto

lemma c_strcmp_zero: "0 \<notin> set s \<Longrightarrow> 0 \<notin> set t \<Longrightarrow> c_strcmp s t = 0 \<longleftrightarrow> s = t"
  by (induction s t rule: c_strcmp.induct) (auto simp: word_value_eq)

lemma c_strcmp_less:
  "0 \<notin> set s \<Longrightarrow> 0 \<notin> set t \<Longrightarrow> c_strcmp s t < 0 \<longleftrightarrow> map unat s < map unat t"
proof (induction s t rule: c_strcmp.induct)
  case (4 a s b t)
  then show ?case by (cases "a = b") (auto simp: word_value_eq)
qed (auto simp: word_value_eq)

lemma clean_encoding_name_no_nul: "0 \<notin> set n \<Longrightarrow> 0 \<notin> set (clean_encoding_name ct n)"
proof (induction n)
  case (Cons c n)
  have "c + 0x61 - 0x41 \<noteq> 0" if "0x41 \<le> sint c" "sint c \<le> 0x5A"
  proof
    assume "c + 0x61 - 0x41 = 0"
    then have "c = - 0x20" by (simp add: eq_neg_iff_add_eq_0 add.commute)
    then show False using that by simp
  qed
  then show ?case using Cons by auto
qed simp

text \<open>Every name of the table is made of 7-bit letters and digits, and the names ascend.\<close>

definition enc_key :: "string \<times> int \<Rightarrow> nat list" where
  "enc_key p = map of_char (fst p)"

lemma table_sorted: "sorted_wrt (<) (map enc_key pg_encname_tbl)"
proof -
  have "successively (<) (map enc_key pg_encname_tbl)"
    by (simp add: pg_encname_tbl_def enc_key_def)
  then show ?thesis by (simp add: successively_conv_sorted_wrt)
qed

lemma table_ascii: "list_all (\<lambda>p. fst p \<noteq> [] \<and> list_all (\<lambda>k. 0 < k \<and> k < 128) (enc_key p)) pg_encname_tbl"
  by (simp add: pg_encname_tbl_def enc_key_def)

lemma enc_key_bytes: "enc_key p = map unat (c_bytes (fst p))"
  by (simp add: enc_key_def map_unat_c_bytes)

text \<open>The three-way comparison decides on which side of the table the key lies.\<close>

lemma sint_7bit:
  fixes c :: byte
  assumes "unat c < 128"
  shows "sint c = int (unat c)"
proof -
  have "uint c < 128" using assms unfolding uint_unat by linarith
  moreover have "0 \<le> uint c" by simp
  ultimately have "signed_take_bit 7 (uint c) = uint c" by (intro signed_take_bit_int_eq_self) (auto intro: order.trans [of _ 0])
  then show ?thesis by (simp add: sint_uint uint_unat [symmetric])
qed

lemma sint_high:
  fixes c :: byte
  assumes "128 \<le> unat c"
  shows "sint c < 0"
proof -
  have u: "uint c \<ge> 128" "uint c < 256" using assms unat_byte [of c] unfolding uint_unat by linarith+
  then have "uint c div 128 = 1" by presburger
  then show ?thesis by (simp add: sint_uint bit_iff_odd)
qed

lemma encname_result_cases:
  assumes "0 \<notin> set key" "0 \<notin> set name" "name \<noteq> []" "\<forall>c \<in> set name. unat c < 128"
  shows "encname_result key name = 0 \<longleftrightarrow> key = name"
    and "unat (ch0 key) < 128 \<Longrightarrow> encname_result key name < 0 \<longleftrightarrow> map unat key < map unat name"
    and "128 \<le> unat (ch0 key) \<Longrightarrow> encname_result key name < 0"
proof -
  obtain b t where b: "name = b # t" "unat b < 128" "unat b > 0"
    using assms(2-4) by (cases name) (auto simp: unat_gt_0)
  have sb: "sint b = int (unat b)" by (rule sint_7bit [OF b(2)])
  show eq0: "encname_result key name = 0 \<longleftrightarrow> key = name"
    using c_strcmp_zero [OF assms(1,2)] by (auto simp: encname_result_def Let_def)
  show "unat (ch0 key) < 128 \<Longrightarrow> encname_result key name < 0 \<longleftrightarrow> map unat key < map unat name"
  proof (cases key)
    case (Cons a s)
    assume "unat (ch0 key) < 128"
    then have "sint a = int (unat a)" using Cons by (intro sint_7bit) (simp add: ch0_def)
    then show ?thesis
      using c_strcmp_less [OF assms(1,2)] Cons b sb
      by (cases "a = b") (auto simp: encname_result_def Let_def ch0_def word_value_eq)
  qed (use b sb in \<open>auto simp: encname_result_def ch0_def word_value_eq\<close>)
  show "encname_result key name < 0" if "128 \<le> unat (ch0 key)"
  proof -
    have "sint (ch0 key) - sint (ch0 name) < 0"
      using sint_high [OF that] sb b(1) of_nat_0_le_iff [of "unat b", where ?'a = int]
      by (simp add: ch0_def [of "b # t"] del: of_nat_0_le_iff of_nat_unat)
    then show ?thesis by (simp add: encname_result_def Let_def)
  qed
qed


text \<open>What an entry contributes, and the answer a linear search gives.\<close>

definition enc_lookup :: "byte list \<Rightarrow> (string \<times> int) option" where
  "enc_lookup key = find (\<lambda>p. c_bytes (fst p) = key) pg_encname_tbl"

lemma tbl_nth:
  assumes "i < length pg_encname_tbl"
  shows "c_bytes (fst (pg_encname_tbl ! i)) \<noteq> []"
    and "\<forall>c \<in> set (c_bytes (fst (pg_encname_tbl ! i))). unat c < 128"
    and "0 \<notin> set (c_bytes (fst (pg_encname_tbl ! i)))"
proof -
  from table_ascii assms have t: "fst (pg_encname_tbl ! i) \<noteq> []"
      "\<forall>k \<in> set (enc_key (pg_encname_tbl ! i)). 0 < k \<and> k < 128"
    using nth_mem [OF assms] by (auto simp: list_all_iff)
  then show "c_bytes (fst (pg_encname_tbl ! i)) \<noteq> []" by (simp add: c_bytes_def)
  show "\<forall>c \<in> set (c_bytes (fst (pg_encname_tbl ! i))). unat c < 128"
    and "0 \<notin> set (c_bytes (fst (pg_encname_tbl ! i)))"
    using t(2) unfolding enc_key_bytes by (force simp: word_value_eq)+
qed

lemma tbl_ascending:
  "i < j \<Longrightarrow> j < length pg_encname_tbl \<Longrightarrow> enc_key (pg_encname_tbl ! i) < enc_key (pg_encname_tbl ! j)"
  using table_sorted by (simp add: sorted_wrt_iff_nth_less)

lemma encname_sides:
  assumes "0 \<notin> set key" "p < length pg_encname_tbl" "i < length pg_encname_tbl"
    and "key = c_bytes (fst (pg_encname_tbl ! i))"
  shows "encname_result key (c_bytes (fst (pg_encname_tbl ! p))) < 0 \<Longrightarrow> i < p"
    and "encname_result key (c_bytes (fst (pg_encname_tbl ! p))) > 0 \<Longrightarrow> p < i"
proof -
  have ascii: "unat (ch0 key) < 128"
    using tbl_nth(1,2) [OF assms(3), folded assms(4)] by (auto simp: ch0_def split: list.split)
  note r = encname_result_cases [OF assms(1) tbl_nth(3) [OF assms(2)] tbl_nth(1,2) [OF assms(2)]]
  show "i < p" if "encname_result key (c_bytes (fst (pg_encname_tbl ! p))) < 0"
  proof -
    have "enc_key (pg_encname_tbl ! i) < enc_key (pg_encname_tbl ! p)"
      using that r(2) [OF ascii] assms(4) by (simp add: enc_key_bytes)
    then show ?thesis
      using tbl_ascending [of p i] assms by (metis linorder_neqE_nat order.asym order.irrefl)
  qed
  show "p < i" if "encname_result key (c_bytes (fst (pg_encname_tbl ! p))) > 0"
  proof -
    have "key \<noteq> c_bytes (fst (pg_encname_tbl ! p))" "\<not> enc_key (pg_encname_tbl ! i) < enc_key (pg_encname_tbl ! p)"
      using that r(1) r(2) [OF ascii] assms(4) by (auto simp: enc_key_bytes)
    then show ?thesis
      using tbl_ascending [of i p] assms by (metis linorder_neqE_nat)
  qed
qed

lemma encname_search_correct:
  assumes "0 \<notin> set key" "0 \<le> base" "lst < int (length pg_encname_tbl)"
    and "\<And>i. i < length pg_encname_tbl \<Longrightarrow> key = c_bytes (fst (pg_encname_tbl ! i)) \<Longrightarrow> base \<le> int i \<and> int i \<le> lst"
  shows "\<exists>r. encname_search key pg_encname_tbl base lst = Some r \<and>
    (case r of None \<Rightarrow> \<forall>p \<in> set pg_encname_tbl. c_bytes (fst p) \<noteq> key
     | Some p \<Rightarrow> p \<in> set pg_encname_tbl \<and> c_bytes (fst p) = key)"
  using assms
proof (induction "nat (lst - base + 1)" arbitrary: base lst rule: less_induct)
  case less
  show ?case
  proof (cases "base \<le> lst")
    case False
    then have "key \<noteq> c_bytes (fst (pg_encname_tbl ! i))" if "i < length pg_encname_tbl" for i
      using less.prems(4) [OF that] by force
    then have "\<forall>p \<in> set pg_encname_tbl. c_bytes (fst p) \<noteq> key" by (metis in_set_conv_nth)
    then show ?thesis using False by (subst encname_search.simps) simp
  next
    case True
    define pos where "pos = base + (lst - base) div 2"
    define p where "p = pg_encname_tbl ! nat pos"
    have pos: "base \<le> pos" "pos \<le> lst" "nat pos < length pg_encname_tbl"
      using True less.prems by (auto simp: pos_def)
    have rd: "rdi pg_encname_tbl pos = Some p" using pos less.prems by (simp add: rdi_in p_def)
    let ?r = "encname_result key (c_bytes (fst p))"
    note sides = encname_sides [OF less.prems(1) pos(3), folded p_def]
    consider "?r = 0" | "?r < 0" | "?r > 0" by linarith
    then show ?thesis
    proof cases
      case 1
      then have "c_bytes (fst p) = key"
        using encname_result_cases(1) [OF less.prems(1) tbl_nth(3) [OF pos(3)] tbl_nth(1,2) [OF pos(3)]]
        by (simp add: p_def)
      then show ?thesis using True rd 1 pos
        by (subst encname_search.simps) (auto simp: p_def simp flip: pos_def)
    next
      case 2
      then show ?thesis
        using less.hyps [of "pos - 1" base] less.prems pos True rd sides(1)
        by (subst encname_search.simps) (fastforce simp flip: pos_def)
    next
      case 3
      then show ?thesis
        using less.hyps [of lst "pos + 1"] less.prems pos True rd sides(2)
        by (subst encname_search.simps) (fastforce simp flip: pos_def)
    qed
  qed
qed


lemma tbl_unique:
  assumes "p \<in> set pg_encname_tbl" "q \<in> set pg_encname_tbl" "c_bytes (fst p) = c_bytes (fst q)"
  shows "p = q"
proof -
  obtain i j where ij: "i < length pg_encname_tbl" "j < length pg_encname_tbl"
      "p = pg_encname_tbl ! i" "q = pg_encname_tbl ! j"
    using assms(1,2) by (metis in_set_conv_nth)
  have "enc_key p = enc_key q" using assms(3) by (simp add: enc_key_bytes)
  then have "i = j"
    using tbl_ascending [of i j] tbl_ascending [of j i] ij by (metis linorder_neqE_nat order.irrefl)
  then show ?thesis using ij by simp
qed

lemma enc_lookup_iff: "enc_lookup key = Some p \<longleftrightarrow> p \<in> set pg_encname_tbl \<and> c_bytes (fst p) = key"
proof
  assume "p \<in> set pg_encname_tbl \<and> c_bytes (fst p) = key"
  moreover from this obtain q where "enc_lookup key = Some q"
    unfolding enc_lookup_def by (metis (mono_tags, lifting) find_None_iff not_None_eq)
  moreover from this have "q \<in> set pg_encname_tbl \<and> c_bytes (fst q) = key"
    unfolding enc_lookup_def by (auto simp: find_Some_iff)
  ultimately show "enc_lookup key = Some p" using tbl_unique by metis
qed (auto simp: enc_lookup_def find_Some_iff)

lemma encname_search_lookup:
  assumes "0 \<notin> set key"
  shows "encname_search key pg_encname_tbl 0 (int pg_encname_tbl_sz - 1) = Some (enc_lookup key)"
proof -
  obtain r where r: "encname_search key pg_encname_tbl 0 (int pg_encname_tbl_sz - 1) = Some r"
    and c: "case r of None \<Rightarrow> \<forall>p \<in> set pg_encname_tbl. c_bytes (fst p) \<noteq> key
      | Some p \<Rightarrow> p \<in> set pg_encname_tbl \<and> c_bytes (fst p) = key"
    using encname_search_correct [OF assms, of 0 "int pg_encname_tbl_sz - 1"]
    by (auto simp: pg_encname_tbl_sz_def)
  have "r = enc_lookup key"
  proof (cases r)
    case None
    then have "enc_lookup key \<noteq> Some p" for p using c by (auto simp: enc_lookup_iff)
    then show ?thesis using None by (cases "enc_lookup key") auto
  next
    case (Some p)
    then show ?thesis using c enc_lookup_iff [of key p] by simp
  qed
  then show ?thesis using r by simp
qed

text \<open>Cleaning a 7-bit name, on the values of its bytes.\<close>

fun clean_nats :: "nat list \<Rightarrow> nat list" where
  "clean_nats [] = []"
| "clean_nats (c # s) =
     (if 65 \<le> c \<and> c \<le> 90 then (c + 32) # clean_nats s
      else if (48 \<le> c \<and> c \<le> 57) \<or> (97 \<le> c \<and> c \<le> 122) then c # clean_nats s
      else clean_nats s)"

lemma unat_highbit: "IS_HIGHBIT_SET c \<longleftrightarrow> 128 \<le> unat c"
  by (simp add: high_ge word_le_nat_alt)

lemma map_unat_clean:
  "\<forall>c \<in> set n. unat c < 128 \<Longrightarrow> map unat (clean_encoding_name ct n) = clean_nats (map unat n)"
proof (induction n)
  case (Cons c n)
  have c: "unat c < 128" using Cons.prems by simp
  have up: "unat (c + 0x61 - 0x41) = unat c + 32" if "unat c \<le> 90"
    using that by (simp add: unat_word_ariths)
  have "isalnum ct c \<longleftrightarrow> (48 \<le> unat c \<and> unat c \<le> 57) \<or> (65 \<le> unat c \<and> unat c \<le> 90) \<or> (97 \<le> unat c \<and> unat c \<le> 122)"
    using c by (simp add: isalnum_def unat_highbit word_le_nat_alt)
  moreover have "sint c \<ge> 0x41 \<and> sint c \<le> 0x5A \<longleftrightarrow> 65 \<le> unat c \<and> unat c \<le> 90"
    unfolding sint_7bit [OF c] by linarith
  ultimately show ?case using Cons up by auto
qed simp

text \<open>The official names, cleaned.\<close>

definition clean_names :: "string list" where
  "clean_names = [
    ''sqlascii'', ''eucjp'', ''euccn'', ''euckr'', ''euctw'', ''eucjis2004'', ''utf8'',
    ''muleinternal'', ''latin1'', ''latin2'', ''latin3'', ''latin4'', ''latin5'', ''latin6'',
    ''latin7'', ''latin8'', ''latin9'', ''latin10'', ''win1256'', ''win1258'', ''win866'', ''win874'',
    ''koi8r'', ''win1251'', ''win1252'', ''iso88595'', ''iso88596'', ''iso88597'', ''iso88598'',
    ''win1250'', ''win1253'', ''win1254'', ''win1255'', ''win1257'', ''koi8u'', ''sjis'', ''big5'',
    ''gbk'', ''uhc'', ''gb18030'', ''johab'', ''shiftjis2004''
   ]"

lemma clean_names_correct:
  "list_all2 (\<lambda>nm q. clean_nats (map of_char (fst q)) = map of_char nm) clean_names pg_enc2name_tbl"
  by (simp add: clean_names_def pg_enc2name_tbl_def)

lemma clean_names_listed:
  "list_all2 (\<lambda>nm q. (nm, snd q) \<in> set pg_encname_tbl) clean_names pg_enc2name_tbl"
  by (simp add: clean_names_def pg_enc2name_tbl_def pg_encname_tbl_def)


lemma official_name_found:
  assumes "PG_VALID_ENCODING e"
  shows "\<exists>nm. pg_encoding_to_char e = Some nm \<and> snd (pg_enc2name_tbl ! nat e) = e \<and>
    nm \<noteq> [] \<and> length nm < NAMEDATALEN \<and> (\<forall>c \<in> set (c_bytes nm). 0 < unat c \<and> unat c < 128) \<and>
    nm = fst (pg_enc2name_tbl ! nat e)"
proof -
  have len: "length pg_enc2name_tbl = 42" by (simp add: pg_enc2name_tbl_def)
  have e: "nat e < 42" using assms by (auto simp: PG_VALID_ENCODING_def)
  have ids: "map snd pg_enc2name_tbl = map int [0..<42]"
    by (simp add: pg_enc2name_tbl_def upt_rec)
  have "list_all (\<lambda>q. fst q \<noteq> [] \<and> length (fst q) < NAMEDATALEN \<and>
      list_all (\<lambda>c. 0 < c \<and> c < (128::nat)) (map of_char (fst q))) pg_enc2name_tbl"
    by (simp add: pg_enc2name_tbl_def)
  then have "fst (pg_enc2name_tbl ! nat e) \<noteq> [] \<and> length (fst (pg_enc2name_tbl ! nat e)) < NAMEDATALEN \<and>
      (\<forall>c \<in> set (c_bytes (fst (pg_enc2name_tbl ! nat e))). 0 < unat c \<and> unat c < 128)"
    using nth_mem [of "nat e" pg_enc2name_tbl] e len
    by (auto simp: list_all_iff c_bytes_def unat_of_char)
  moreover have "snd (pg_enc2name_tbl ! nat e) = e"
    using arg_cong [OF ids, of "\<lambda>l. l ! nat e"] e len assms
    by (auto simp: PG_VALID_ENCODING_def nth_map)
  ultimately show ?thesis
    using assms e len by (simp add: pg_encoding_to_char_def PG_VALID_ENCODING_def rdi_in)
qed

lemma official_name_lookup:
  assumes "PG_VALID_ENCODING e"
  shows "\<exists>nm. enc_lookup (clean_encoding_name ct (c_bytes (fst (pg_enc2name_tbl ! nat e)))) = Some (nm, e)"
proof -
  let ?q = "pg_enc2name_tbl ! nat e"
  have len: "length pg_enc2name_tbl = 42" by (simp add: pg_enc2name_tbl_def)
  have e: "nat e < 42" using assms by (auto simp: PG_VALID_ENCODING_def)
  have q: "snd ?q = e" "\<forall>c \<in> set (c_bytes (fst ?q)). unat c < 128"
    using official_name_found [OF assms] by auto
  let ?nm = "clean_names ! nat e"
  have "clean_nats (map of_char (fst ?q)) = map of_char ?nm" "(?nm, e) \<in> set pg_encname_tbl"
    using list_all2_nthD2 [OF clean_names_correct, of "nat e"] list_all2_nthD2 [OF clean_names_listed, of "nat e"]
      q(1) e len by auto
  moreover from this have "c_bytes ?nm = clean_encoding_name ct (c_bytes (fst ?q))"
    using map_unat_clean [OF q(2)] map_unat_c_bytes
    by (metis (no_types, lifting) map_injective injI word_unat_eq_iff)
  ultimately show ?thesis by (auto simp: enc_lookup_iff)
qed


section \<open>Case-independent comparison\<close>

text \<open>What the locale must give: folding a character does not make it the terminator.\<close>

definition ctype_ok :: "ctype \<Rightarrow> bool" where
  "ctype_ok ct \<longleftrightarrow> (\<forall>c. IS_HIGHBIT_SET c \<longrightarrow> ct_isupper ct c \<longrightarrow> ct_tolower ct c \<noteq> 0)"

lemma C_locale_ok: "ctype_ok C_locale"
  by (simp add: ctype_ok_def C_locale_def)

lemma fold_pair_tolower:
  "fold_pair ct a b = (if a = b then (a, b) else (pg_tolower ct a, pg_tolower ct b))"
  by (simp add: fold_pair_def pg_tolower_def)

lemma pg_tolower_zero:
  assumes "ctype_ok ct"
  shows "pg_tolower ct c = 0 \<longleftrightarrow> c = 0"
proof -
  have "unat (c + 0x20) = unat c + 32" if "unat c \<le> 90" using that by (simp add: unat_word_ariths)
  then have "c + 0x20 \<noteq> 0" if "c \<le> 0x5A"
    using that by (auto simp: word_le_nat_alt)
  moreover have "\<not> IS_HIGHBIT_SET 0" by (simp add: IS_HIGHBIT_SET_def)
  ultimately show ?thesis using assms by (auto simp: pg_tolower_def ctype_ok_def)
qed

lemma pg_tolower_0 [simp]: "pg_tolower ct 0 = 0"
  by (simp add: pg_tolower_def IS_HIGHBIT_SET_def)

lemma pg_tolower_zero': "ctype_ok ct \<Longrightarrow> 0 = pg_tolower ct c \<longleftrightarrow> c = 0"
  using pg_tolower_zero [of ct c] by auto

lemma pg_strcasecmp_spec:
  assumes "ctype_ok ct" "0 \<notin> set s1" "0 \<notin> set s2"
  shows "pg_strcasecmp ct (s1 @ 0 # r1) (s2 @ 0 # r2) = Some (c_strcmp (map (pg_tolower ct) s1) (map (pg_tolower ct) s2))"
  using assms(2,3)
proof (induction s1 arbitrary: s2)
  case Nil
  then show ?case by (cases s2) (auto simp: fold_pair_tolower pg_tolower_zero [OF assms(1)] pg_tolower_zero' [OF assms(1)])
next
  case (Cons a s1)
  note z = pg_tolower_zero [OF assms(1)] pg_tolower_zero' [OF assms(1)]
  show ?case
  proof (cases s2)
    case Nil
    then show ?thesis using Cons.prems by (auto simp: fold_pair_tolower z)
  next
    case (Cons b t)
    then show ?thesis using Cons.IH [of t] Cons.prems by (auto simp: fold_pair_tolower z)
  qed
qed

lemma pg_strncasecmp_spec:
  assumes "ctype_ok ct" "0 \<notin> set s1" "0 \<notin> set s2"
  shows "pg_strncasecmp ct (s1 @ 0 # r1) (s2 @ 0 # r2) n =
    Some (c_strcmp (map (pg_tolower ct) (take n s1)) (map (pg_tolower ct) (take n s2)))"
  using assms(2,3)
proof (induction n arbitrary: s1 s2)
  case (Suc n)
  note z = pg_tolower_zero [OF assms(1)] pg_tolower_zero' [OF assms(1)]
  show ?case
    using Suc.prems Suc.IH [of "tl s1" "tl s2"]
    by (cases s1; cases s2) (auto simp: fold_pair_tolower z)
qed simp



section \<open>Properties\<close>

lemma pg_char_to_encoding_eq:
  assumes "n \<noteq> []" "0 \<notin> set n" "length n < NAMEDATALEN"
  shows "pg_char_to_encoding ct (Some n) =
    Some (case enc_lookup (clean_encoding_name ct n) of Some e \<Rightarrow> snd e | None \<Rightarrow> - 1)"
  using assms encname_search_lookup [OF clean_encoding_name_no_nul [OF assms(2)]]
  by (simp add: pg_char_to_encoding_def pg_char_to_encname_struct_def)

text \<open>C34: The binary search over the sorted name table never leaves the table and returns the
  encoding of the one entry whose name is the cleaned-up argument, or -1 when there is none.\<close>

theorem encoding_search_is_lookup:
  assumes "n \<noteq> []" "0 \<notin> set n" "length n < 64"
  shows "\<exists>e. pg_char_to_encoding ct (Some n) = Some e \<and>
    (if \<exists>nm. (nm, e) \<in> set pg_encname_tbl \<and> c_bytes nm = clean_encoding_name ct n
     then PG_VALID_ENCODING e
     else e = - 1 \<and> (\<forall>p \<in> set pg_encname_tbl. c_bytes (fst p) \<noteq> clean_encoding_name ct n))"
proof (cases "enc_lookup (clean_encoding_name ct n)")
  case None
  then have "\<forall>p \<in> set pg_encname_tbl. c_bytes (fst p) \<noteq> clean_encoding_name ct n"
    using enc_lookup_iff by (metis option.distinct(1))
  then show ?thesis using pg_char_to_encoding_eq [OF assms] None by force
next
  case (Some p)
  have valid: "list_all (\<lambda>p. PG_VALID_ENCODING (snd p)) pg_encname_tbl"
    by (simp add: pg_encname_tbl_def PG_VALID_ENCODING_def)
  obtain nm e where p: "p = (nm, e)" by force
  then have "(nm, e) \<in> set pg_encname_tbl" "c_bytes nm = clean_encoding_name ct n"
    using Some by (auto simp: enc_lookup_iff)
  then show ?thesis
    using pg_char_to_encoding_eq [OF assms] Some valid p by (force simp: list_all_iff)
qed

lemma encoding_search_is_lookup_witness:
  "\<exists>e. pg_char_to_encoding C_locale (Some [0x55, 0x74, 0x66, 0x2D, 0x38]) = Some e \<and>
    (if \<exists>nm. (nm, e) \<in> set pg_encname_tbl \<and> c_bytes nm = clean_encoding_name C_locale [0x55, 0x74, 0x66, 0x2D, 0x38]
     then PG_VALID_ENCODING e
     else e = - 1 \<and> (\<forall>p \<in> set pg_encname_tbl. c_bytes (fst p) \<noteq> clean_encoding_name C_locale [0x55, 0x74, 0x66, 0x2D, 0x38]))"
  by (rule encoding_search_is_lookup) simp_all

text \<open>Round trip of encoding names: the name that \<open>pg_encoding_to_char\<close> gives for an
  encoding is found by \<open>pg_char_to_encoding\<close>, in every locale, and means the same encoding.\<close>

theorem encoding_name_roundtrip:
  assumes "PG_VALID_ENCODING e"
  shows "\<exists>nm. pg_encoding_to_char e = Some nm \<and> pg_char_to_encoding ct (Some (c_bytes nm)) = Some e"
proof -
  obtain nm where nm: "pg_encoding_to_char e = Some nm" "nm \<noteq> []" "length nm < NAMEDATALEN"
      "\<forall>c \<in> set (c_bytes nm). 0 < unat c \<and> unat c < 128" "nm = fst (pg_enc2name_tbl ! nat e)"
    using official_name_found [OF assms] by auto
  then have "c_bytes nm \<noteq> []" "0 \<notin> set (c_bytes nm)" "length (c_bytes nm) < NAMEDATALEN"
    by (auto simp: c_bytes_def)
  then have "pg_char_to_encoding ct (Some (c_bytes nm)) = Some e"
    using pg_char_to_encoding_eq [of "c_bytes nm" ct] official_name_lookup [OF assms, of ct] nm(5) by auto
  then show ?thesis using nm(1) by blast
qed

lemma encoding_name_roundtrip_witness:
  "\<exists>nm. pg_encoding_to_char 6 = Some nm \<and> pg_char_to_encoding C_locale (Some (c_bytes nm)) = Some 6"
  by (rule encoding_name_roundtrip) (simp add: PG_VALID_ENCODING_def)

text \<open>The case-independent comparison of two C strings reads only the strings and their
  terminators, is zero exactly when the folded strings are equal, and is antisymmetric.\<close>

theorem strcasecmp_folds:
  assumes "ctype_ok ct" "0 \<notin> set s1" "0 \<notin> set s2"
  shows "\<exists>r. pg_strcasecmp ct (s1 @ 0 # r1) (s2 @ 0 # r2) = Some r \<and>
    pg_strcasecmp ct (s2 @ 0 # r2) (s1 @ 0 # r1) = Some (- r) \<and>
    (r = 0 \<longleftrightarrow> map (pg_tolower ct) s1 = map (pg_tolower ct) s2)"
proof -
  let ?l = "map (pg_tolower ct)"
  have anti: "c_strcmp (?l s2) (?l s1) = - c_strcmp (?l s1) (?l s2)"
    by (rule c_strcmp_antisym)
  have "0 \<notin> set (?l s)" if "0 \<notin> set s" for s
    using that by (auto simp: pg_tolower_zero' [OF assms(1)])
  then show ?thesis
    using assms by (simp add: pg_strcasecmp_spec anti c_strcmp_zero)
qed

lemma strcasecmp_folds_witness:
  "\<exists>r. pg_strcasecmp C_locale ([0x41, 0x62] @ 0 # []) ([0x61, 0x42] @ 0 # []) = Some r \<and>
    pg_strcasecmp C_locale ([0x61, 0x42] @ 0 # []) ([0x41, 0x62] @ 0 # []) = Some (- r) \<and>
    (r = 0 \<longleftrightarrow> map (pg_tolower C_locale) [0x41, 0x62] = map (pg_tolower C_locale) [0x61, 0x42])"
  by (rule strcasecmp_folds [OF C_locale_ok]) simp_all

end
