(* ===== verification/MbTable.thy ===== *)
theory MbTable
  imports WcharConv Encnames
begin

text \<open>
  The table of encodings and the routines that dispatch through it, the last part of
  \<open>src/backend/utils/mb/wchar.c\<close>: \<open>pg_encoding_mblen\<close>, \<open>pg_encoding_dsplen\<close>,
  \<open>pg_encoding_verifymb\<close>, \<open>pg_encoding_max_length\<close>, the validation of whole strings and the errors
  it reports.

  A row of \<open>pg_wchar_table\<close> holds its functions. \<open>ereport(ERROR)\<close> and \<open>elog(ERROR)\<close> do not return:
  they are the \<open>Inl\<close> of a result. The lemmas show that every row meets the contract
  \<open>mb_verifier\<close>, hence that validation of a string reads inside it and ends for every encoding,
  that it accepts the concatenations of accepted characters, and for UTF-8 exactly the encodings of
  sequences of Unicode scalar values other than zero.
\<close>

section \<open>The table\<close>

record pg_wchar_tbl =
  mb2wchar_with_len :: "(byte list \<Rightarrow> int \<Rightarrow> (int \<times> pg_wchar list) option) option"
  mblen :: "byte list \<Rightarrow> int option"
  dsplen :: "byte list \<Rightarrow> int option"
  mbverify :: "byte list \<Rightarrow> int \<Rightarrow> int option"
  maxmblen :: int

text \<open>An initializer of the table, its fields in the order of the \<open>struct\<close>.\<close>

definition wchar_row ::
  "(byte list \<Rightarrow> int \<Rightarrow> (int \<times> pg_wchar list) option) option \<Rightarrow> (byte list \<Rightarrow> int option) \<Rightarrow>
   (byte list \<Rightarrow> int option) \<Rightarrow> (byte list \<Rightarrow> int \<Rightarrow> int option) \<Rightarrow> int \<Rightarrow> pg_wchar_tbl" where
  "wchar_row conv ml dl mv mx =
     \<lparr>mb2wchar_with_len = conv, mblen = ml, dsplen = dl, mbverify = mv, maxmblen = mx\<rparr>"

definition pg_wchar_table :: "pg_wchar_tbl list" where
  "pg_wchar_table = [
    wchar_row (Some pg_ascii2wchar_with_len) pg_ascii_mblen pg_ascii_dsplen pg_ascii_verifier 1,
    wchar_row (Some pg_eucjp2wchar_with_len) pg_eucjp_mblen pg_eucjp_dsplen pg_eucjp_verifier 3,
    wchar_row (Some pg_euccn2wchar_with_len) pg_euccn_mblen pg_euccn_dsplen pg_euccn_verifier 2,
    wchar_row (Some pg_euckr2wchar_with_len) pg_euckr_mblen pg_euckr_dsplen pg_euckr_verifier 3,
    wchar_row (Some pg_euctw2wchar_with_len) pg_euctw_mblen pg_euctw_dsplen pg_euctw_verifier 4,
    wchar_row (Some pg_eucjp2wchar_with_len) pg_eucjp_mblen pg_eucjp_dsplen pg_eucjp_verifier 3,
    wchar_row (Some pg_utf2wchar_with_len) pg_utf_mblen pg_utf_dsplen pg_utf8_verifier 4,
    wchar_row (Some pg_mule2wchar_with_len) pg_mule_mblen pg_mule_dsplen pg_mule_verifier 4,
    wchar_row (Some pg_latin12wchar_with_len) pg_latin1_mblen pg_latin1_dsplen pg_latin1_verifier 1,
    wchar_row (Some pg_latin12wchar_with_len) pg_latin1_mblen pg_latin1_dsplen pg_latin1_verifier 1,
    wchar_row (Some pg_latin12wchar_with_len) pg_latin1_mblen pg_latin1_dsplen pg_latin1_verifier 1,
    wchar_row (Some pg_latin12wchar_with_len) pg_latin1_mblen pg_latin1_dsplen pg_latin1_verifier 1,
    wchar_row (Some pg_latin12wchar_with_len) pg_latin1_mblen pg_latin1_dsplen pg_latin1_verifier 1,
    wchar_row (Some pg_latin12wchar_with_len) pg_latin1_mblen pg_latin1_dsplen pg_latin1_verifier 1,
    wchar_row (Some pg_latin12wchar_with_len) pg_latin1_mblen pg_latin1_dsplen pg_latin1_verifier 1,
    wchar_row (Some pg_latin12wchar_with_len) pg_latin1_mblen pg_latin1_dsplen pg_latin1_verifier 1,
    wchar_row (Some pg_latin12wchar_with_len) pg_latin1_mblen pg_latin1_dsplen pg_latin1_verifier 1,
    wchar_row (Some pg_latin12wchar_with_len) pg_latin1_mblen pg_latin1_dsplen pg_latin1_verifier 1,
    wchar_row (Some pg_latin12wchar_with_len) pg_latin1_mblen pg_latin1_dsplen pg_latin1_verifier 1,
    wchar_row (Some pg_latin12wchar_with_len) pg_latin1_mblen pg_latin1_dsplen pg_latin1_verifier 1,
    wchar_row (Some pg_latin12wchar_with_len) pg_latin1_mblen pg_latin1_dsplen pg_latin1_verifier 1,
    wchar_row (Some pg_latin12wchar_with_len) pg_latin1_mblen pg_latin1_dsplen pg_latin1_verifier 1,
    wchar_row (Some pg_latin12wchar_with_len) pg_latin1_mblen pg_latin1_dsplen pg_latin1_verifier 1,
    wchar_row (Some pg_latin12wchar_with_len) pg_latin1_mblen pg_latin1_dsplen pg_latin1_verifier 1,
    wchar_row (Some pg_latin12wchar_with_len) pg_latin1_mblen pg_latin1_dsplen pg_latin1_verifier 1,
    wchar_row (Some pg_latin12wchar_with_len) pg_latin1_mblen pg_latin1_dsplen pg_latin1_verifier 1,
    wchar_row (Some pg_latin12wchar_with_len) pg_latin1_mblen pg_latin1_dsplen pg_latin1_verifier 1,
    wchar_row (Some pg_latin12wchar_with_len) pg_latin1_mblen pg_latin1_dsplen pg_latin1_verifier 1,
    wchar_row (Some pg_latin12wchar_with_len) pg_latin1_mblen pg_latin1_dsplen pg_latin1_verifier 1,
    wchar_row (Some pg_latin12wchar_with_len) pg_latin1_mblen pg_latin1_dsplen pg_latin1_verifier 1,
    wchar_row (Some pg_latin12wchar_with_len) pg_latin1_mblen pg_latin1_dsplen pg_latin1_verifier 1,
    wchar_row (Some pg_latin12wchar_with_len) pg_latin1_mblen pg_latin1_dsplen pg_latin1_verifier 1,
    wchar_row (Some pg_latin12wchar_with_len) pg_latin1_mblen pg_latin1_dsplen pg_latin1_verifier 1,
    wchar_row (Some pg_latin12wchar_with_len) pg_latin1_mblen pg_latin1_dsplen pg_latin1_verifier 1,
    wchar_row (Some pg_latin12wchar_with_len) pg_latin1_mblen pg_latin1_dsplen pg_latin1_verifier 1,
    wchar_row None pg_sjis_mblen pg_sjis_dsplen pg_sjis_verifier 2,
    wchar_row None pg_big5_mblen pg_big5_dsplen pg_big5_verifier 2,
    wchar_row None pg_gbk_mblen pg_gbk_dsplen pg_gbk_verifier 2,
    wchar_row None pg_uhc_mblen pg_uhc_dsplen pg_uhc_verifier 2,
    wchar_row None pg_gb18030_mblen pg_gb18030_dsplen pg_gb18030_verifier 4,
    wchar_row None pg_johab_mblen pg_johab_dsplen pg_johab_verifier 3,
    wchar_row None pg_sjis_mblen pg_sjis_dsplen pg_sjis_verifier 2
   ]"


section \<open>Dispatch\<close>

definition pg_mic_mblen :: "byte list \<Rightarrow> int option" where
  "pg_mic_mblen mbstr = pg_mule_mblen mbstr"

definition pg_encoding_mblen :: "int \<Rightarrow> byte list \<Rightarrow> int option" where
  "pg_encoding_mblen encoding mbstr =
     (if encoding \<ge> 0 \<and> encoding < int (length pg_wchar_table)
      then do { row \<leftarrow> rdi pg_wchar_table encoding; mblen row mbstr }
      else do { row \<leftarrow> rdi pg_wchar_table PG_SQL_ASCII; mblen row mbstr })"

definition pg_encoding_dsplen :: "int \<Rightarrow> byte list \<Rightarrow> int option" where
  "pg_encoding_dsplen encoding mbstr =
     (if encoding \<ge> 0 \<and> encoding < int (length pg_wchar_table)
      then do { row \<leftarrow> rdi pg_wchar_table encoding; dsplen row mbstr }
      else do { row \<leftarrow> rdi pg_wchar_table PG_SQL_ASCII; dsplen row mbstr })"

definition pg_encoding_verifymb :: "int \<Rightarrow> byte list \<Rightarrow> int \<Rightarrow> int option" where
  "pg_encoding_verifymb encoding mbstr len =
     (if encoding \<ge> 0 \<and> encoding < int (length pg_wchar_table)
      then do { row \<leftarrow> rdi pg_wchar_table encoding; mbverify row mbstr len }
      else do { row \<leftarrow> rdi pg_wchar_table PG_SQL_ASCII; mbverify row mbstr len })"

text \<open>No range check here: an encoding outside the table reads outside it.\<close>

definition pg_encoding_max_length :: "int \<Rightarrow> int option" where
  "pg_encoding_max_length encoding = do { row \<leftarrow> rdi pg_wchar_table encoding; Some (maxmblen row) }"


section \<open>Errors\<close>

datatype mb_error =
    Invalid_byte_sequence string string  \<comment> \<open>encoding name, bytes in hexadecimal\<close>
  | Untranslatable_character string string string  \<comment> \<open>bytes, source and destination encoding\<close>
  | Invalid_source_encoding int
  | Unexpected_source_encoding string string  \<comment> \<open>expected, got\<close>
  | Invalid_destination_encoding int
  | Unexpected_destination_encoding string string
  | Negative_length

text \<open>\<open>sprintf(p, "%02x", c)\<close>.\<close>

definition hex2 :: "byte \<Rightarrow> string" where
  "hex2 b = [''0123456789abcdef'' ! unat (drop_bit 4 b), ''0123456789abcdef'' ! unat (b AND 0x0f)]"

definition hex_bytes :: "byte list \<Rightarrow> int \<Rightarrow> int \<Rightarrow> string option" where
  "hex_bytes mbstr l len = do {
     let jlimit = min l len;
     let jlimit = min jlimit 8;
     bs \<leftarrow> rd_bytes mbstr 0 (nat jlimit);
     Some (concat (map hex2 bs))
   }"

definition report_invalid_encoding :: "int \<Rightarrow> byte list \<Rightarrow> int \<Rightarrow> (mb_error + 'a) option" where
  "report_invalid_encoding encoding mbstr len = do {
     l \<leftarrow> pg_encoding_mblen encoding mbstr;
     buf \<leftarrow> hex_bytes mbstr l len;
     e \<leftarrow> rdi pg_enc2name_tbl encoding;
     Some (Inl (Invalid_byte_sequence (fst e) buf))
   }"

definition report_untranslatable_char :: "int \<Rightarrow> int \<Rightarrow> byte list \<Rightarrow> int \<Rightarrow> (mb_error + 'a) option" where
  "report_untranslatable_char src_encoding dest_encoding mbstr len = do {
     l \<leftarrow> pg_encoding_mblen src_encoding mbstr;
     buf \<leftarrow> hex_bytes mbstr l len;
     s \<leftarrow> rdi pg_enc2name_tbl src_encoding;
     d \<leftarrow> rdi pg_enc2name_tbl dest_encoding;
     Some (Inl (Untranslatable_character buf (fst s) (fst d)))
   }"

definition check_encoding_conversion_args :: "int \<Rightarrow> int \<Rightarrow> int \<Rightarrow> int \<Rightarrow> int \<Rightarrow> (mb_error + unit) option" where
  "check_encoding_conversion_args src_encoding dest_encoding len expected_src_encoding expected_dest_encoding =
     (if \<not> PG_VALID_ENCODING src_encoding then Some (Inl (Invalid_source_encoding src_encoding))
      else if src_encoding \<noteq> expected_src_encoding \<and> expected_src_encoding \<ge> 0 then do {
        x \<leftarrow> rdi pg_enc2name_tbl expected_src_encoding;
        g \<leftarrow> rdi pg_enc2name_tbl src_encoding;
        Some (Inl (Unexpected_source_encoding (fst x) (fst g)))
      }
      else if \<not> PG_VALID_ENCODING dest_encoding then Some (Inl (Invalid_destination_encoding dest_encoding))
      else if dest_encoding \<noteq> expected_dest_encoding \<and> expected_dest_encoding \<ge> 0 then do {
        x \<leftarrow> rdi pg_enc2name_tbl expected_dest_encoding;
        g \<leftarrow> rdi pg_enc2name_tbl dest_encoding;
        Some (Inl (Unexpected_destination_encoding (fst x) (fst g)))
      }
      else if len < 0 then Some (Inl Negative_length)
      else Some (Inr ()))"


section \<open>Validating a string\<close>

text \<open>\<open>memchr\<close>: the index of the first occurrence among the first \<open>n\<close> bytes.\<close>

fun c_memchr :: "byte list \<Rightarrow> byte \<Rightarrow> nat \<Rightarrow> nat option option" where
  "c_memchr s c 0 = Some None"
| "c_memchr [] c (Suc n) = None"
| "c_memchr (b # s) c (Suc n) =
     (if b = c then Some (Some 0)
      else do { r \<leftarrow> c_memchr s c n; Some (map_option Suc r) })"

partial_function (option) verify_loop ::
  "(byte list \<Rightarrow> int \<Rightarrow> int option) \<Rightarrow> int \<Rightarrow> bool \<Rightarrow> byte list \<Rightarrow> int \<Rightarrow> int \<Rightarrow> (mb_error + int) option" where
  "verify_loop verify encoding noError mbstr len mb_len =
     (if len > 0 then
        Option.bind (rd mbstr 0) (\<lambda>c.
          if \<not> IS_HIGHBIT_SET c then
            (if c \<noteq> 0 then verify_loop verify encoding noError (drop 1 mbstr) (len - 1) (mb_len + 1)
             else if noError then Some (Inr (- 1))
             else report_invalid_encoding encoding mbstr len)
          else
            Option.bind (verify mbstr len) (\<lambda>l.
              if l < 0 then (if noError then Some (Inr (- 1)) else report_invalid_encoding encoding mbstr len)
              else verify_loop verify encoding noError (drop (nat l) mbstr) (len - l) (mb_len + 1)))
      else Some (Inr mb_len))"

definition pg_verify_mbstr_len :: "int \<Rightarrow> byte list \<Rightarrow> int \<Rightarrow> bool \<Rightarrow> (mb_error + int) option" where
  "pg_verify_mbstr_len encoding mbstr len noError = do {
     mx \<leftarrow> pg_encoding_max_length encoding;
     if mx \<le> 1 then do {
       nullpos \<leftarrow> c_memchr mbstr 0 (nat (len mod 2 ^ 32));
       case nullpos of
         None \<Rightarrow> Some (Inr len)
       | Some p \<Rightarrow>
           if noError then Some (Inr (- 1)) else report_invalid_encoding encoding (drop p mbstr) 1
     }
     else do {
       row \<leftarrow> rdi pg_wchar_table encoding;
       verify_loop (mbverify row) encoding noError mbstr len 0
     }
   }"

definition pg_verify_mbstr :: "int \<Rightarrow> byte list \<Rightarrow> int \<Rightarrow> bool \<Rightarrow> (mb_error + bool) option" where
  "pg_verify_mbstr encoding mbstr len noError =
     map_option (map_sum id (\<lambda>n. n \<ge> 0)) (pg_verify_mbstr_len encoding mbstr len noError)"

text \<open>The current database encoding is a parameter.\<close>

definition pg_verifymbstr :: "int \<Rightarrow> byte list \<Rightarrow> int \<Rightarrow> bool \<Rightarrow> (mb_error + bool) option" where
  "pg_verifymbstr database_encoding mbstr len noError =
     map_option (map_sum id (\<lambda>n. n \<ge> 0)) (pg_verify_mbstr_len database_encoding mbstr len noError)"

definition pg_database_encoding_max_length :: "int \<Rightarrow> int option" where
  "pg_database_encoding_max_length database_encoding = do {
     row \<leftarrow> rdi pg_wchar_table database_encoding; Some (maxmblen row) }"


section \<open>Validation against the contract of a verifier\<close>

text \<open>\<open>len\<close> bytes that are \<open>n\<close> accepted characters, none of them zero.\<close>

inductive verified :: "(byte list \<Rightarrow> int \<Rightarrow> int option) \<Rightarrow> byte list \<Rightarrow> int \<Rightarrow> int \<Rightarrow> bool" for verify where
  empty: "verified verify s 0 0"
| char: "0 < len \<Longrightarrow> verify s len = Some l \<Longrightarrow> 0 < l \<Longrightarrow> s ! 0 \<noteq> 0 \<Longrightarrow>
    verified verify (drop (nat l) s) (len - l) n \<Longrightarrow> verified verify s len (n + 1)"

inductive_cases verified_stepE: "verified verify s len n"

context mb_verifier
begin

lemma verified_bounds: "verified verify s len n \<Longrightarrow> 0 \<le> n \<and> n \<le> len"
proof (induction rule: verified.induct)
  case (char len s l n)
  then show ?case by auto
qed simp

lemma verified_unique: "verified verify s len n \<Longrightarrow> verified verify s len m \<Longrightarrow> m = n"
proof (induction arbitrary: m rule: verified.induct)
  case (char len s l n)
  from char.prems char.hyps show ?case
    by (cases rule: verified.cases) (auto dest: char.IH)
qed (auto elim: verified_stepE)

lemma loop_noError:
  "len + int slack \<le> int (length s) \<Longrightarrow> 0 \<le> len \<Longrightarrow>
   (\<exists>n. verified verify s len n \<and> verify_loop verify enc True s len k = Some (Inr (k + n))) \<or>
   (\<nexists>n. verified verify s len n) \<and> verify_loop verify enc True s len k = Some (Inr (- 1))"
proof (induction "nat len" arbitrary: s len k rule: less_induct)
  case less
  show ?case
  proof (cases "0 < len")
    case False
    then have "len = 0" using less.prems by simp
    then show ?thesis by (auto simp: verify_loop.simps intro: verified.empty)
  next
    case True
    obtain c r where s: "s = c # r" using True less.prems by (cases s) auto
    obtain l where l: "verify s len = Some l" using total [OF True less.prems(1)] by blast
    have l_range: "l = - 1 \<or> 0 < l \<and> l \<le> len" by (rule range [OF True l])
    have ascii1: "l = 1" if "\<not> IS_HIGHBIT_SET c" using ascii [OF True that, of r] l s by simp
    have zero: "\<not> IS_HIGHBIT_SET 0" by simp
    show ?thesis
    proof (cases "c = 0 \<or> l = - 1")
      case True
      then have "\<nexists>n. verified verify s len n"
        using l s \<open>0 < len\<close> by (auto elim: verified_stepE)
      moreover have "verify_loop verify enc True s len k = Some (Inr (- 1))"
        using True s l \<open>0 < len\<close> ascii1 zero by (subst verify_loop.simps) auto
      ultimately show ?thesis by blast
    next
      case False
      with l_range have lp: "0 < l" "l \<le> len" "c \<noteq> 0" by auto
      have step: "verify_loop verify enc True s len k = verify_loop verify enc True (drop (nat l) s) (len - l) (k + 1)"
        using lp s l \<open>0 < len\<close> ascii1 by (subst verify_loop.simps) auto
      have iff: "verified verify s len (n + 1) \<longleftrightarrow> verified verify (drop (nat l) s) (len - l) n" for n
        using lp l s \<open>0 < len\<close> by (auto elim: verified_stepE intro: verified.char)
      have ex: "(\<exists>n. verified verify s len n) \<longleftrightarrow> (\<exists>n. verified verify (drop (nat l) s) (len - l) n)"
        by (metis diff_add_cancel iff)
      have "nat (len - l) < nat len" "len - l + int slack \<le> int (length (drop (nat l) s))" "0 \<le> len - l"
        using lp less.prems \<open>0 < len\<close> by auto
      from less.hyps [OF this, of "k + 1"] show ?thesis
      proof (elim disjE exE conjE)
        fix n assume "verified verify (drop (nat l) s) (len - l) n"
          "verify_loop verify enc True (drop (nat l) s) (len - l) (k + 1) = Some (Inr (k + 1 + n))"
        then show ?thesis
          unfolding step by (intro disjI1 exI [of _ "n + 1"]) (simp add: iff)
      qed (simp add: step ex)
    qed
  qed
qed

end

section \<open>Every row of the table meets the contract\<close>

text \<open>One byte of slack: the GB18030 verifier and \<open>mblen\<close> look at the second byte before the length.\<close>

definition row_ok :: "pg_wchar_tbl \<Rightarrow> bool" where
  "row_ok row \<longleftrightarrow> mb_verifier (mblen row) (mbverify row) 1 \<and>
     (\<forall>s. 2 \<le> length s \<longrightarrow> (\<exists>l. mblen row s = Some l \<and> 0 < l \<and> l \<le> maxmblen row))"

lemma mb_verifier_slack: "mb_verifier ml mv 0 \<Longrightarrow> mb_verifier ml mv 1"
  unfolding mb_verifier_def by auto

lemmas verifier_contracts =
  ascii.mb_verifier_axioms eucjp.mb_verifier_axioms euccn.mb_verifier_axioms euckr.mb_verifier_axioms
  euctw.mb_verifier_axioms utf8.mb_verifier_axioms mule.mb_verifier_axioms latin1.mb_verifier_axioms
  sjis.mb_verifier_axioms big5.mb_verifier_axioms gbk.mb_verifier_axioms uhc.mb_verifier_axioms
  johab.mb_verifier_axioms

lemmas mblen_defs =
  pg_ascii_mblen_def pg_eucjp_mblen_def pg_euccn_mblen_def pg_euckr_mblen_def pg_euctw_mblen_def
  pg_utf_mblen_def pg_mule_mblen_def pg_latin1_mblen_def pg_sjis_mblen_def pg_big5_mblen_def
  pg_gbk_mblen_def pg_uhc_mblen_def pg_gb18030_mblen_def pg_johab_mblen_def pg_euc_mblen_def

lemma rows_ok: "list_all row_ok pg_wchar_table"
  unfolding pg_wchar_table_def list.pred_inject
  by (intro conjI TrueI; simp add: row_ok_def wchar_row_def verifier_contracts [THEN mb_verifier_slack]
      gb18030.mb_verifier_axioms del: One_nat_def; auto simp: mblen_defs rd_def bind_Some_iff)

lemma table_length: "length pg_wchar_table = 42"
  by (simp add: pg_wchar_table_def)

lemma valid_row:
  assumes "PG_VALID_ENCODING e"
  obtains row where "rdi pg_wchar_table e = Some row" "mb_verifier (mblen row) (mbverify row) 1"
    "\<And>s. 2 \<le> length s \<Longrightarrow> \<exists>l. mblen row s = Some l \<and> 0 < l \<and> l \<le> maxmblen row"
proof -
  have "0 \<le> e" "nat e < length pg_wchar_table"
    using assms by (auto simp: PG_VALID_ENCODING_def table_length)
  moreover from this rows_ok have "row_ok (pg_wchar_table ! nat e)" by (auto simp: list_all_length)
  ultimately show ?thesis
    using that [of "pg_wchar_table ! nat e"] by (auto simp: rdi_def rd_def row_ok_def)
qed

lemma enc2name_length: "length pg_enc2name_tbl = 42"
  by (simp add: pg_enc2name_tbl_def)

lemma report_total:
  assumes "PG_VALID_ENCODING e" "0 < len" "len + 1 \<le> int (length s)"
  shows "\<exists>err. report_invalid_encoding e s len = Some (Inl err)"
proof -
  obtain row where row: "rdi pg_wchar_table e = Some row"
    "\<And>s. 2 \<le> length s \<Longrightarrow> \<exists>l. mblen row s = Some l \<and> 0 < l \<and> l \<le> maxmblen row"
    using valid_row [OF assms(1)] by metis
  obtain l where l: "mblen row s = Some l" using row(2) [of s] assms(2,3) by auto
  have "pg_encoding_mblen e s = Some l"
    using row(1) l assms(1) by (simp add: pg_encoding_mblen_def PG_VALID_ENCODING_def table_length)
  moreover have "rdi pg_enc2name_tbl e \<noteq> None"
    using assms(1) by (auto simp: rdi_def rd_def PG_VALID_ENCODING_def enc2name_length)
  moreover have "nat (min (min l len) 8) \<le> length s" using assms(2,3) by auto
  ultimately show ?thesis
    by (auto simp: report_invalid_encoding_def hex_bytes_def Let_def mem_simps)
qed

context mb_verifier
begin

lemma loop_error:
  assumes "slack \<le> 1" "PG_VALID_ENCODING enc"
  shows "len + 1 \<le> int (length s) \<Longrightarrow> 0 \<le> len \<Longrightarrow> 0 \<le> k \<Longrightarrow>
    (\<exists>n. 0 \<le> n \<and> verify_loop verify enc True s len k = Some (Inr n) \<and> verify_loop verify enc False s len k = Some (Inr n)) \<or>
    (\<exists>e. verify_loop verify enc True s len k = Some (Inr (- 1)) \<and> verify_loop verify enc False s len k = Some (Inl e))"
proof (induction "nat len" arbitrary: s len k rule: less_induct)
  case less
  show ?case
  proof (cases "0 < len")
    case False
    then show ?thesis using less.prems by (auto simp: verify_loop.simps)
  next
    case True
    obtain c r where s: "s = c # r" using True less.prems by (cases s) auto
    obtain l where l: "verify s len = Some l" using total [OF True, of s] less.prems(1) assms(1) by auto
    have l_range: "l = - 1 \<or> 0 < l \<and> l \<le> len" by (rule range [OF True l])
    have ascii1: "l = 1" if "\<not> IS_HIGHBIT_SET c" using ascii [OF True that, of r] l s by simp
    obtain e where e: "report_invalid_encoding enc s len = Some (Inl e :: mb_error + int)"
      using report_total [OF assms(2) True less.prems(1)] by blast
    show ?thesis
    proof (cases "c = 0 \<or> l = - 1")
      case fail: True
      then have "verify_loop verify enc True s len k = Some (Inr (- 1))"
          "verify_loop verify enc False s len k = Some (Inl e)"
        using s l True ascii1 e by (subst verify_loop.simps; auto)+
      then show ?thesis by blast
    next
      case False
      with l_range have lp: "0 < l" "l \<le> len" "c \<noteq> 0" by auto
      have "verify_loop verify enc b s len k = verify_loop verify enc b (drop (nat l) s) (len - l) (k + 1)" for b
        using lp s l True ascii1 by (subst verify_loop.simps) auto
      then show ?thesis
        using less.hyps [of "len - l" "drop (nat l) s" "k + 1"] lp less.prems True by simp
    qed
  qed
qed

end


lemma memchr_total: "n \<le> length s \<Longrightarrow> \<exists>r. c_memchr s c n = Some r \<and> (\<forall>p. r = Some p \<longrightarrow> p < n)"
proof (induction s c n rule: c_memchr.induct)
  case (3 b s c n)
  then show ?case by (cases "b = c") auto
qed auto

lemma report_total_at:
  assumes "PG_VALID_ENCODING e" "p + 2 \<le> length s"
  shows "\<exists>err. report_invalid_encoding e (drop p s) 1 = Some (Inl err)"
  by (rule report_total [OF assms(1)]) (use assms(2) in auto)


section \<open>UTF-8\<close>

lemma scalar_bound: "utf8_scalar c \<Longrightarrow> unat c < 2 ^ 21"
  by (simp add: utf8_scalar_def)

lemma unicode_to_utf8_nonempty: "0 < length (unicode_to_utf8 c)"
  by (simp add: length_unicode_to_utf8 utf8_nats_def)

lemma verified_utf8_decodes:
  "verified pg_utf8_verifier s len n \<Longrightarrow> len \<le> int (length s) \<Longrightarrow>
   \<exists>cs. n = int (length cs) \<and> (\<forall>c \<in> set cs. utf8_scalar c \<and> c \<noteq> 0) \<and>
     take (nat len) s = concat (map unicode_to_utf8 cs)"
proof (induction rule: verified.induct)
  case (empty s)
  then show ?case by (intro exI [of _ "[]"]) simp
next
  case (char len s l n)
  have l: "l \<le> len" using utf8.range [OF char(1,2)] char(1,3) by auto
  have acc: "utf8_accepted s l" by (rule pg_utf8_verifier_accepts [OF char(2,3)])
  then obtain c where c: "utf8_scalar c" "take (nat l) s = unicode_to_utf8 c"
    using utf8_accepted_scalar by blast
  have "c \<noteq> 0"
  proof
    assume "c = 0"
    then have "take (nat l) s = [0]" using c(2) by (simp add: unicode_to_utf8_def)
    then show False using char(3,4) by (cases s; cases "nat l") auto
  qed
  obtain cs where cs: "n = int (length cs)" "\<forall>c \<in> set cs. utf8_scalar c \<and> c \<noteq> 0"
      "take (nat (len - l)) (drop (nat l) s) = concat (map unicode_to_utf8 cs)"
    using char l by fastforce
  have "nat len = nat l + nat (len - l)" using l char(3) by simp
  then have "take (nat len) s = unicode_to_utf8 c @ concat (map unicode_to_utf8 cs)"
    using c(2) cs(3) by (simp only: take_add)
  then show ?case using cs c(1) \<open>c \<noteq> 0\<close> by (intro exI [of _ "c # cs"]) simp
qed

lemma encoded_verified_utf8:
  "\<forall>c \<in> set cs. utf8_scalar c \<and> c \<noteq> 0 \<Longrightarrow>
   verified pg_utf8_verifier (concat (map unicode_to_utf8 cs) @ r)
     (int (length (concat (map unicode_to_utf8 cs)))) (int (length cs))"
proof (induction cs)
  case (Cons c cs)
  let ?rest = "concat (map unicode_to_utf8 cs)"
  obtain b bs where b: "unicode_to_utf8 c = b # bs" "b \<noteq> 0"
    using unicode_to_utf8_head [OF scalar_bound, of c] Cons.prems by (metis list.set_intros(1))
  have "pg_utf8_verifier (unicode_to_utf8 c @ ?rest @ r) (int (length (unicode_to_utf8 c @ ?rest))) =
      Some (int (length (unicode_to_utf8 c)))"
    using Cons.prems by (intro pg_utf8_verifier_complete) auto
  moreover have "verified pg_utf8_verifier (?rest @ r) (int (length ?rest)) (int (length cs))"
    using Cons by simp
  moreover have "(unicode_to_utf8 c @ ?rest @ r) ! 0 \<noteq> 0" "0 < length (unicode_to_utf8 c)"
    using b by simp_all
  ultimately have "verified pg_utf8_verifier (unicode_to_utf8 c @ ?rest @ r)
      (int (length (unicode_to_utf8 c @ ?rest))) (int (length cs) + 1)"
    by (intro verified.char [where l = "int (length (unicode_to_utf8 c))"]) (simp_all add: add_pos_nonneg)
  then show ?case by (simp add: add.commute)
qed (simp add: verified.empty)

lemma utf8_row: "rdi pg_wchar_table PG_UTF8 = Some (wchar_row (Some pg_utf2wchar_with_len) pg_utf_mblen pg_utf_dsplen pg_utf8_verifier 4)"
  by (simp add: rdi_def rd_def pg_wchar_table_def)

lemma pg_verify_mbstr_len_utf8:
  "pg_verify_mbstr_len PG_UTF8 s len noError = verify_loop pg_utf8_verifier PG_UTF8 noError s len 0"
  using utf8_row by (simp add: pg_verify_mbstr_len_def pg_encoding_max_length_def wchar_row_def)



section \<open>Properties\<close>



text \<open>C28: UTF-8 validation is exact: \<open>pg_verify_mbstr_len\<close> accepts \<open>len\<close> bytes with count \<open>n\<close> if and
  only if they are the encodings, as \<open>unicode_to_utf8\<close> writes them, of \<open>n\<close> Unicode scalar values
  other than zero.\<close>

theorem verify_utf8_exact:
  assumes "0 \<le> len" "len \<le> int (length s)" "0 \<le> n"
  shows "pg_verify_mbstr_len PG_UTF8 s len True = Some (Inr n) \<longleftrightarrow>
    (\<exists>cs. n = int (length cs) \<and> (\<forall>c \<in> set cs. utf8_scalar c \<and> c \<noteq> 0) \<and>
       take (nat len) s = concat (map unicode_to_utf8 cs))"
proof -
  have loop: "(\<exists>n. verified pg_utf8_verifier s len n \<and> pg_verify_mbstr_len PG_UTF8 s len True = Some (Inr n)) \<or>
      (\<nexists>n. verified pg_utf8_verifier s len n) \<and> pg_verify_mbstr_len PG_UTF8 s len True = Some (Inr (- 1))"
    using utf8.loop_noError [of len s PG_UTF8 0] assms by (simp add: pg_verify_mbstr_len_utf8)
  have enc: "verified pg_utf8_verifier s len (int (length cs))"
    if "\<forall>c \<in> set cs. utf8_scalar c \<and> c \<noteq> 0" "take (nat len) s = concat (map unicode_to_utf8 cs)" for cs
  proof -
    have "s = concat (map unicode_to_utf8 cs) @ drop (nat len) s" using that(2) append_take_drop_id by metis
    moreover have "len = int (length (concat (map unicode_to_utf8 cs)))"
      using assms by (simp flip: that(2))
    ultimately show ?thesis using encoded_verified_utf8 [OF that(1)] by metis
  qed
  show ?thesis
  proof
    assume "pg_verify_mbstr_len PG_UTF8 s len True = Some (Inr n)"
    then have "verified pg_utf8_verifier s len n" using loop assms(3) by auto
    then show "\<exists>cs. n = int (length cs) \<and> (\<forall>c \<in> set cs. utf8_scalar c \<and> c \<noteq> 0) \<and>
       take (nat len) s = concat (map unicode_to_utf8 cs)"
      using verified_utf8_decodes assms(2) by blast
  next
    assume "\<exists>cs. n = int (length cs) \<and> (\<forall>c \<in> set cs. utf8_scalar c \<and> c \<noteq> 0) \<and>
       take (nat len) s = concat (map unicode_to_utf8 cs)"
    then have "verified pg_utf8_verifier s len n" using enc by blast
    then show "pg_verify_mbstr_len PG_UTF8 s len True = Some (Inr n)"
      using loop utf8.verified_unique by blast
  qed
qed

lemma verify_utf8_exact_witness:
  "pg_verify_mbstr_len PG_UTF8 [0x41, 0xC3, 0xA9, 0] 3 True = Some (Inr 2) \<longleftrightarrow>
    (\<exists>cs. 2 = int (length cs) \<and> (\<forall>c \<in> set cs. utf8_scalar c \<and> c \<noteq> 0) \<and>
       take (nat 3) [0x41, 0xC3, 0xA9, 0] = concat (map unicode_to_utf8 cs))"
  by (rule verify_utf8_exact) simp_all

text \<open>C30: Conversion of UTF-8 to wide characters inverts the encoding: the bytes of a sequence of
  code points below \<open>2 ^ 21\<close> other than zero convert to the count and the sequence itself, with a
  final zero, whatever follows them.\<close>

theorem utf2wchar_inverts_encoding:
  assumes "\<forall>c \<in> set cs. c \<noteq> 0 \<and> unat c < 2 ^ 21"
  shows "pg_utf2wchar_with_len (concat (map unicode_to_utf8 cs) @ r) (int (length (concat (map unicode_to_utf8 cs)))) =
    Some (int (length cs), cs @ [0])"
  using utf_loop_concat [OF assms, of r] by (simp add: pg_utf2wchar_with_len_def with_terminator_def)

lemma utf2wchar_inverts_encoding_witness:
  "pg_utf2wchar_with_len (concat (map unicode_to_utf8 [0x41, 0x20AC, 0x1F600]) @ [0])
     (int (length (concat (map unicode_to_utf8 [0x41, 0x20AC, 0x1F600])))) =
    Some (int (length [0x41, 0x20AC, 0x1F600 :: pg_wchar]), [0x41, 0x20AC, 0x1F600] @ [0])"
  by (rule utf2wchar_inverts_encoding) simp

end
