(* ===== verification/Conn.thy ===== *)
theory Conn
  imports ExpBuffer MbTable
begin

text \<open>
  The data of a connection and of a query result: \<open>src/interfaces/libpq/libpq-int.h\<close> and the
  enumerations of \<open>libpq-fe.h\<close>.

  \<open>pg_conn\<close> and \<open>pg_result\<close> hold the fields that the modelled functions use, under their names in
  the code. A buffer is the list of the bytes of its block, so that its allocated size can be
  compared with the \<open>int\<close> field that records it. Linked lists are lists, oldest or newest first as
  the code links them; a pointer that may be \<open>NULL\<close> is an option.

  What the code asks of its environment is part of the state, in the record \<open>env\<close>: the outcomes of
  \<open>malloc\<close>, \<open>recv\<close>, \<open>send\<close> and \<open>poll\<close> still to come, the bytes given to \<open>send\<close>, the arguments of \<open>poll\<close>, the
  notices passed to the notice receiver, the clock, the character classes and error texts of the
  C library, and the two process-wide variables of \<open>fe-exec.c\<close>. The connection is not an SSL
  connection (\<open>conn->ssl\<close> is \<open>NULL\<close>), \<open>SIGPIPE\<close> is masked (\<open>sigpipe_so\<close>, which the target platform has),
  \<open>Pfdebug\<close> is off, and no event procedures are registered.
\<close>

section \<open>Enumerations\<close>

datatype ConnStatusType =
    CONNECTION_OK | CONNECTION_BAD | CONNECTION_STARTED | CONNECTION_MADE
  | CONNECTION_AWAITING_RESPONSE | CONNECTION_AUTH_OK | CONNECTION_SETENV
  | CONNECTION_SSL_STARTUP | CONNECTION_NEEDED

datatype ExecStatusType =
    PGRES_EMPTY_QUERY | PGRES_COMMAND_OK | PGRES_TUPLES_OK | PGRES_COPY_OUT | PGRES_COPY_IN
  | PGRES_BAD_RESPONSE | PGRES_NONFATAL_ERROR | PGRES_FATAL_ERROR | PGRES_COPY_BOTH

datatype PGTransactionStatusType =
  PQTRANS_IDLE | PQTRANS_ACTIVE | PQTRANS_INTRANS | PQTRANS_INERROR | PQTRANS_UNKNOWN

datatype PGVerbosity = PQERRORS_TERSE | PQERRORS_DEFAULT | PQERRORS_VERBOSE

datatype PGAsyncStatusType =
  PGASYNC_IDLE | PGASYNC_BUSY | PGASYNC_READY | PGASYNC_COPY_IN | PGASYNC_COPY_OUT | PGASYNC_COPY_BOTH

datatype PGQueryClass = PGQUERY_SIMPLE | PGQUERY_EXTENDED | PGQUERY_PREPARE | PGQUERY_DESCRIBE


section \<open>Results\<close>

text \<open>\<open>PGresAttDesc\<close>; \<open>name\<close> is \<open>None\<close> in a descriptor that has only been cleared.\<close>

record PGresAttDesc =
  ad_name :: "byte list option"
  ad_tableid :: int
  ad_columnid :: int
  ad_format :: int
  ad_typid :: int
  ad_typlen :: int
  ad_atttypmod :: int

text \<open>\<open>PGresAttValue\<close>: the value with its terminating zero byte.\<close>

record PGresAttValue =
  av_len :: int
  av_value :: "byte list option"

definition NULL_LEN :: int where
  "NULL_LEN = - 1"

text \<open>
  The blocks of a result (\<open>PGresult_data\<close>): number and size in bytes, in the order of the chain.
  \<open>nextBlock\<close> numbers the blocks; it stands for the fresh address \<open>malloc\<close> returns.
\<close>

record pg_result =
  ntups :: int
  numAttributes :: int
  attDescs :: "PGresAttDesc list option"
  tuples :: "PGresAttValue list list"
  tupArrSize :: int
  numParameters :: int
  paramDescs :: "int list option"
  resultStatus :: ExecStatusType
  cmdStatus :: "byte list"
  binary :: int
  res_noticeRec :: bool
  res_client_encoding :: int
  errMsg :: "byte list option"
  errFields :: "(byte \<times> byte list) list"
  curBlock :: "(nat \<times> nat) list"
  curOffset :: int
  spaceLeft :: int
  nextBlock :: nat


section \<open>The environment\<close>

text \<open>
  \<open>recv\<close> delivers the next bytes of a packet (no bytes: nothing read, or the connection is closed)
  or fails with an \<open>errno\<close>; \<open>send\<close> accepts some bytes or fails. When a list is used up, \<open>recv\<close> reports
  a closed connection, \<open>send\<close> accepts everything and \<open>poll\<close> reports a ready socket.
\<close>

datatype errno = EINTR | EAGAIN | ECONNRESET | EPIPE | Other_errno int

datatype recv_event = Recv "byte list" | Recv_error errno
datatype send_event = Sent nat | Send_error errno
datatype poll_event = Poll int | Poll_error errno

record env =
  e_alloc :: alloc
  e_recv :: "recv_event list"
  e_send :: "send_event list"
  e_poll :: "poll_event list"
  e_sent :: "byte list"
  e_polled :: "(int \<times> bool \<times> bool \<times> int) list"
  e_now :: int
  e_strerror :: "errno \<Rightarrow> byte list"
  e_notices :: "pg_result list"
  e_errno :: "errno option"
  e_ctype :: ctype
  static_client_encoding :: int
  static_std_strings :: bool


section \<open>The connection\<close>

text \<open>\<open>PGnotify\<close>.\<close>

record PGnotify =
  relname :: "byte list"
  notify_be_pid :: int
  extra :: "byte list"

text \<open>The object ids of the server's functions for large objects; 0 stands for a function the server does not have.\<close>

record PGlobjfuncs =
  fn_lo_open :: int
  fn_lo_close :: int
  fn_lo_creat :: int
  fn_lo_create :: int
  fn_lo_unlink :: int
  fn_lo_lseek :: int
  fn_lo_tell :: int
  fn_lo_truncate :: int
  fn_lo_read :: int
  fn_lo_write :: int

record pg_conn =
  pguser :: "byte list option"
  pgpass :: "byte list option"
  dbName :: "byte list option"
  replication :: "byte list option"
  pgoptions :: "byte list option"
  appname :: "byte list option"
  fbappname :: "byte list option"
  client_encoding_initial :: "byte list option"
  send_appname :: bool
  noticeRec :: bool
  status :: ConnStatusType
  asyncStatus :: PGAsyncStatusType
  xactStatus :: PGTransactionStatusType
  queryclass :: PGQueryClass
  last_query :: "byte list option"
  last_sqlstate :: "byte list"
  nonblocking :: bool
  copy_is_binary :: byte
  copy_already_done :: int
  notifies :: "PGnotify list"
  sock :: int
  pversion :: "32 word"
  sversion :: int
  be_pid :: int
  be_key :: int
  password_needed :: bool
  md5Salt :: "byte list"
  lobjfuncs :: "PGlobjfuncs option"
  pstatus :: "(byte list \<times> byte list) list"
  client_encoding :: int
  std_strings :: bool
  verbosity :: PGVerbosity
  inBuffer :: "byte list"
  inBufSize :: int
  inStart :: int
  inCursor :: int
  inEnd :: int
  outBuffer :: "byte list"
  outBufSize :: int
  outCount :: int
  outMsgStart :: int
  outMsgEnd :: int
  result :: "pg_result option"
  curTuple :: "PGresAttValue list option"
  errorMessage :: expbuf
  workBuffer :: expbuf
  env :: env

definition PG_PROTOCOL_MAJOR :: "32 word \<Rightarrow> nat" where
  "PG_PROTOCOL_MAJOR v = unat (drop_bit 16 v)"

definition EOF :: int where
  "EOF = - 1"


section \<open>Messages\<close>

text \<open>Decimal and character formats of \<open>printf\<close>, as far as the messages need them.\<close>

fun show_nat :: "nat \<Rightarrow> byte list" where
  "show_nat n = (if n < 10 then [of_nat (48 + n)] else show_nat (n div 10) @ [of_nat (48 + n mod 10)])"

declare show_nat.simps [simp del]

definition show_int :: "int \<Rightarrow> byte list" where
  "show_int i = (if i < 0 then 0x2D # show_nat (nat (- i)) else show_nat (nat i))"

text \<open>\<open>%s\<close> of a C string; the messages of the library itself are string constants.\<close>

abbreviation (input) lit :: "string \<Rightarrow> byte list" where "lit \<equiv> c_bytes"

definition set_alloc :: "alloc \<Rightarrow> pg_conn \<Rightarrow> pg_conn" where
  "set_alloc a conn = conn\<lparr>env := (env conn)\<lparr>e_alloc := a\<rparr>\<rparr>"

text \<open>The calls \<open>printfPQExpBuffer(&conn->errorMessage, \<dots>)\<close>.\<close>

definition printf_error :: "pg_conn \<Rightarrow> byte list \<Rightarrow> pg_conn option" where
  "printf_error conn txt = do {
     (str, a) \<leftarrow> printfPQExpBuffer (e_alloc (env conn)) (errorMessage conn) txt;
     Some (set_alloc a (conn\<lparr>errorMessage := str\<rparr>))
   }"

end
