(* ===== verification/Results.thy ===== *)
theory Results
  imports Conn
begin

text \<open>
  Query results and what a connection keeps of them: the first part of
  \<open>src/interfaces/libpq/fe-exec.c\<close>, from the space management of \<open>PGresult\<close> to
  \<open>pqSaveParameterStatus\<close>.

  \<open>pqResultAlloc\<close> answers a place in a block (\<open>space\<close>). What is stored there is the value of the field
  that points to it, so a string of a result is the list of its bytes; the lemmas on the
  allocator show that this is sound: every place is inside its block, apart from the other
  places handed out, and aligned when the caller asks for it. The structure sizes are those of
  the 32-bit targets.
\<close>

section \<open>Space management\<close>

definition PGRESULT_DATA_BLOCKSIZE :: nat where "PGRESULT_DATA_BLOCKSIZE = 2048"
definition PGRESULT_ALIGN_BOUNDARY :: int where "PGRESULT_ALIGN_BOUNDARY = 8"
definition sizeof_PGresult_data :: nat where "sizeof_PGresult_data = 4"
definition PGRESULT_BLOCK_OVERHEAD :: nat where "PGRESULT_BLOCK_OVERHEAD = 8"
definition PGRESULT_SEP_ALLOC_THRESHOLD :: nat where "PGRESULT_SEP_ALLOC_THRESHOLD = PGRESULT_DATA_BLOCKSIZE div 2"

definition sizeof_PGresAttDesc :: nat where "sizeof_PGresAttDesc = 28"
definition sizeof_PGresAttValue :: nat where "sizeof_PGresAttValue = 8"
definition sizeof_PGresParamDesc :: nat where "sizeof_PGresParamDesc = 4"
definition sizeof_PGMessageField :: nat where "sizeof_PGMessageField = 8"

lemmas result_sizes =
  PGRESULT_DATA_BLOCKSIZE_def PGRESULT_ALIGN_BOUNDARY_def sizeof_PGresult_data_def PGRESULT_BLOCK_OVERHEAD_def
  PGRESULT_SEP_ALLOC_THRESHOLD_def sizeof_PGresAttDesc_def sizeof_PGresAttValue_def
  sizeof_PGresParamDesc_def sizeof_PGMessageField_def

text \<open>The address of an object: the result's \<open>null_field\<close>, or an offset in a block.\<close>

datatype space = Null_field | Space nat int

text \<open>The alignment step at the head of \<open>pqResultAlloc\<close>.\<close>

definition align_result :: "pg_result \<Rightarrow> pg_result" where
  "align_result res =
     (let offset = curOffset res mod PGRESULT_ALIGN_BOUNDARY in
      if offset \<noteq> 0 then
        res\<lparr>curOffset := wrap32 (curOffset res + (PGRESULT_ALIGN_BOUNDARY - offset)),
            spaceLeft := wrap32 (spaceLeft res - (PGRESULT_ALIGN_BOUNDARY - offset))\<rparr>
      else res)"

text \<open>
  The answer is the address (\<open>None\<close> for \<open>NULL\<close>), the updated result and the allocator. The outer
  \<open>None\<close> is the dereference of a \<open>curBlock\<close> that is \<open>NULL\<close>.
\<close>

definition pqResultAlloc ::
  "alloc \<Rightarrow> pg_result \<Rightarrow> nat \<Rightarrow> bool \<Rightarrow> (space option \<times> pg_result \<times> alloc) option" where
  "pqResultAlloc a res nBytes isBinary =
     (if nBytes \<le> 0 then Some (Some Null_field, res, a)
      else let res = (if isBinary then align_result res else res) in
        if nBytes \<le> nat (spaceLeft res mod 2 ^ 32) then
          (case curBlock res of
             [] \<Rightarrow> None
           | (b, _) # _ \<Rightarrow>
               Some (Some (Space b (curOffset res)),
                 res\<lparr>curOffset := wrap32 (curOffset res + int nBytes), spaceLeft := wrap32 (spaceLeft res - int nBytes)\<rparr>, a))
        else if nBytes \<ge> PGRESULT_SEP_ALLOC_THRESHOLD then
          let a' = after_alloc a in
          if \<not> next_ok a then Some (None, res, a')
          else let b = nextBlock res; bsize = szadd nBytes PGRESULT_BLOCK_OVERHEAD in
            (case curBlock res of
               c # rest \<Rightarrow>
                 Some (Some (Space b (int PGRESULT_BLOCK_OVERHEAD)),
                   res\<lparr>curBlock := c # (b, bsize) # rest, nextBlock := b + 1\<rparr>, a')
             | [] \<Rightarrow>
                 Some (Some (Space b (int PGRESULT_BLOCK_OVERHEAD)),
                   res\<lparr>curBlock := [(b, bsize)], spaceLeft := 0, nextBlock := b + 1\<rparr>, a'))
        else
          let a' = after_alloc a in
          if \<not> next_ok a then Some (None, res, a')
          else let b = nextBlock res;
              off = (if isBinary then int PGRESULT_BLOCK_OVERHEAD else int sizeof_PGresult_data) in
            Some (Some (Space b off),
              res\<lparr>curBlock := (b, PGRESULT_DATA_BLOCKSIZE) # curBlock res, nextBlock := b + 1,
                  curOffset := wrap32 (off + int nBytes),
                  spaceLeft := wrap32 (int PGRESULT_DATA_BLOCKSIZE - off - int nBytes)\<rparr>, a'))"

definition PQresultAlloc ::
  "alloc \<Rightarrow> pg_result \<Rightarrow> nat \<Rightarrow> (space option \<times> pg_result \<times> alloc) option" where
  "PQresultAlloc a res nBytes = pqResultAlloc a res nBytes True"

text \<open>The string stored, or \<open>NULL\<close>. Strings are given without their terminator.\<close>

definition pqResultStrdup ::
  "alloc \<Rightarrow> pg_result \<Rightarrow> byte list \<Rightarrow> (byte list option \<times> pg_result \<times> alloc) option" where
  "pqResultStrdup a res str = do {
     (space, res, a) \<leftarrow> pqResultAlloc a res (szadd (length str) 1) False;
     Some (case space of Some _ \<Rightarrow> Some str | None \<Rightarrow> None, res, a)
   }"

definition pqSetResultError :: "alloc \<Rightarrow> pg_result \<Rightarrow> byte list option \<Rightarrow> (pg_result \<times> alloc) option" where
  "pqSetResultError a res msg =
     (case msg of
        Some (c # s) \<Rightarrow> do {
          (m, res, a) \<leftarrow> pqResultStrdup a res (c # s);
          Some (res\<lparr>errMsg := m\<rparr>, a)
        }
      | _ \<Rightarrow> Some (res\<lparr>errMsg := None\<rparr>, a))"

text \<open>The C string in a buffer; the static \<open>oom_buffer\<close> is the empty one.\<close>

definition eb_cstr :: "expbuf \<Rightarrow> byte list option" where
  "eb_cstr str =
     (case eb_data str of
        None \<Rightarrow> Some []
      | Some d \<Rightarrow> (if 0 \<in> set d then Some (c_str d) else None))"

definition pqCatenateResultError :: "alloc \<Rightarrow> pg_result \<Rightarrow> byte list \<Rightarrow> (pg_result \<times> alloc) option" where
  "pqCatenateResultError a res msg = do {
     (errorBuf, a) \<leftarrow> initPQExpBuffer a;
     (errorBuf, a) \<leftarrow> (case errMsg res of
        Some m \<Rightarrow> appendPQExpBufferStr a errorBuf (m @ [0])
      | None \<Rightarrow> Some (errorBuf, a));
     (errorBuf, a) \<leftarrow> appendPQExpBufferStr a errorBuf (msg @ [0]);
     txt \<leftarrow> eb_cstr errorBuf;
     pqSetResultError a res (Some txt)
   }"


section \<open>Making and returning results\<close>

definition empty_result :: "bool \<Rightarrow> int \<Rightarrow> ExecStatusType \<Rightarrow> pg_result" where
  "empty_result hooks enc st = \<lparr>
     ntups = 0, numAttributes = 0, attDescs = None, tuples = [], tupArrSize = 0, numParameters = 0,
     paramDescs = None, resultStatus = st, cmdStatus = [0], binary = 0, res_noticeRec = hooks,
     res_client_encoding = enc, errMsg = None, errFields = [], curBlock = [], curOffset = 0,
     spaceLeft = 0, nextBlock = 0\<rparr>"

definition is_error_status :: "ExecStatusType \<Rightarrow> bool" where
  "is_error_status st \<longleftrightarrow>
     (case st of
        PGRES_EMPTY_QUERY \<Rightarrow> False | PGRES_COMMAND_OK \<Rightarrow> False | PGRES_TUPLES_OK \<Rightarrow> False
      | PGRES_COPY_OUT \<Rightarrow> False | PGRES_COPY_IN \<Rightarrow> False | PGRES_COPY_BOTH \<Rightarrow> False
      | _ \<Rightarrow> True)"

text \<open>\<open>conn\<close> may be \<open>NULL\<close>.\<close>

definition PQmakeEmptyPGresult ::
  "alloc \<Rightarrow> pg_conn option \<Rightarrow> ExecStatusType \<Rightarrow> (pg_result option \<times> alloc) option" where
  "PQmakeEmptyPGresult a conn st =
     (if \<not> next_ok a then Some (None, after_alloc a)
      else let a = after_alloc a in
        case conn of
          Some conn \<Rightarrow>
            let res = empty_result (noticeRec conn) (client_encoding conn) st in
            if is_error_status st then do {
              msg \<leftarrow> eb_cstr (errorMessage conn);
              (res, a) \<leftarrow> pqSetResultError a res (Some msg);
              Some (Some res, a)
            }
            else Some (Some res, a)
        | None \<Rightarrow> Some (Some (empty_result False PG_SQL_ASCII st), a))"

text \<open>The calls with \<open>conn\<close>: the allocator is part of the connection's environment.\<close>

definition makeEmptyPGresult :: "pg_conn \<Rightarrow> ExecStatusType \<Rightarrow> (pg_result option \<times> pg_conn) option" where
  "makeEmptyPGresult conn st = do {
     (res, a) \<leftarrow> PQmakeEmptyPGresult (e_alloc (env conn)) (Some conn) st;
     Some (res, set_alloc a conn)
   }"

definition pqClearAsyncResult :: "pg_conn \<Rightarrow> pg_conn" where
  "pqClearAsyncResult conn = conn\<lparr>result := None, curTuple := None\<rparr>"

definition pqSaveErrorResult :: "pg_conn \<Rightarrow> pg_conn option" where
  "pqSaveErrorResult conn =
     (case result conn of
        Some res \<Rightarrow>
          if resultStatus res \<noteq> PGRES_FATAL_ERROR \<or> errMsg res = None then do {
            (r, conn) \<leftarrow> makeEmptyPGresult (pqClearAsyncResult conn) PGRES_FATAL_ERROR;
            Some (conn\<lparr>result := r\<rparr>)
          }
          else do {
            msg \<leftarrow> eb_cstr (errorMessage conn);
            (res, a) \<leftarrow> pqCatenateResultError (e_alloc (env conn)) res msg;
            Some (set_alloc a (conn\<lparr>result := Some res\<rparr>))
          }
      | None \<Rightarrow> do {
          (r, conn) \<leftarrow> makeEmptyPGresult (pqClearAsyncResult conn) PGRES_FATAL_ERROR;
          Some (conn\<lparr>result := r\<rparr>)
        })"

definition PQresultErrorMessage :: "pg_result option \<Rightarrow> byte list" where
  "PQresultErrorMessage res =
     (case res of None \<Rightarrow> [] | Some r \<Rightarrow> (case errMsg r of None \<Rightarrow> [] | Some m \<Rightarrow> m))"

fun find_field :: "(byte \<times> byte list) list \<Rightarrow> byte \<Rightarrow> byte list option" where
  "find_field [] fieldcode = None"
| "find_field ((code, contents) # fs) fieldcode =
     (if code = fieldcode then Some contents else find_field fs fieldcode)"

definition PQresultErrorField :: "pg_result option \<Rightarrow> byte \<Rightarrow> byte list option" where
  "PQresultErrorField res fieldcode =
     (case res of None \<Rightarrow> None | Some r \<Rightarrow> find_field (errFields r) fieldcode)"

definition pqPrepareAsyncResult :: "pg_conn \<Rightarrow> (pg_result option \<times> pg_conn) option" where
  "pqPrepareAsyncResult conn = do {
     let res = result conn;
     let conn = conn\<lparr>result := None, curTuple := None\<rparr>;
     case res of
       None \<Rightarrow> makeEmptyPGresult conn PGRES_FATAL_ERROR
     | Some r \<Rightarrow> do {
         (str, a) \<leftarrow> resetPQExpBuffer (e_alloc (env conn)) (errorMessage conn);
         (str, a) \<leftarrow> appendPQExpBufferStr a str (PQresultErrorMessage res @ [0]);
         Some (res, set_alloc a (conn\<lparr>errorMessage := str\<rparr>))
       }
   }"

definition pqSaveMessageField :: "alloc \<Rightarrow> pg_result \<Rightarrow> byte \<Rightarrow> byte list \<Rightarrow> (pg_result \<times> alloc) option" where
  "pqSaveMessageField a res code v = do {
     (pfield, res, a) \<leftarrow> pqResultAlloc a res (szadd sizeof_PGMessageField (length v)) True;
     Some (case pfield of
         None \<Rightarrow> (res, a)
       | Some _ \<Rightarrow> (res\<lparr>errFields := (code, v) # errFields res\<rparr>, a))
   }"

text \<open>
  \<open>pqInternalNotice\<close>: the formatted text is \<open>txt\<close>, cut to the 1023 characters of \<open>msgBuf\<close>. The receiver
  is called with the notice, which \<open>e_notices\<close> records.
\<close>

definition PG_DIAG_MESSAGE_PRIMARY :: byte where "PG_DIAG_MESSAGE_PRIMARY = 0x4D"
definition PG_DIAG_SEVERITY :: byte where "PG_DIAG_SEVERITY = 0x53"

definition internal_notice :: "bool \<Rightarrow> env \<Rightarrow> byte list \<Rightarrow> env option" where
  "internal_notice hooks en txt =
     (if \<not> hooks then Some en
      else let msgBuf = take 1023 txt in do {
        (res, a) \<leftarrow> PQmakeEmptyPGresult (e_alloc en) None PGRES_NONFATAL_ERROR;
        case res of
          None \<Rightarrow> Some (en\<lparr>e_alloc := a\<rparr>)
        | Some res \<Rightarrow> do {
            let res = res\<lparr>res_noticeRec := hooks\<rparr>;
            (res, a) \<leftarrow> pqSaveMessageField a res PG_DIAG_MESSAGE_PRIMARY msgBuf;
            (res, a) \<leftarrow> pqSaveMessageField a res PG_DIAG_SEVERITY (lit ''NOTICE'');
            (m, res, a) \<leftarrow> pqResultAlloc a res (szadd (length msgBuf) 2) False;
            let en = en\<lparr>e_alloc := a\<rparr>;
            Some (case m of
                None \<Rightarrow> en
              | Some _ \<Rightarrow> en\<lparr>e_notices := e_notices en @ [res\<lparr>errMsg := Some (msgBuf @ [0x0A])\<rparr>]\<rparr>)
          }
      })"

text \<open>With the hooks of the connection.\<close>

definition pqInternalNotice :: "pg_conn \<Rightarrow> byte list \<Rightarrow> pg_conn option" where
  "pqInternalNotice conn txt = do {
     en \<leftarrow> internal_notice (noticeRec conn) (env conn) txt;
     Some (conn\<lparr>env := en\<rparr>)
   }"

text \<open>The row array grows by doubling from 128 pointers of 4 bytes.\<close>

definition pqAddTuple :: "alloc \<Rightarrow> pg_result \<Rightarrow> PGresAttValue list \<Rightarrow> (bool \<times> pg_result \<times> alloc) option" where
  "pqAddTuple a res tup =
     (if ntups res \<ge> tupArrSize res then
        let newSize = (if tupArrSize res > 0 then wrap32 (tupArrSize res * 2) else 128) in
        if \<not> next_ok a then Some (False, res, after_alloc a)
        else if ntups res < newSize \<and> newSize * 4 < 2 ^ 32 then
          Some (True, res\<lparr>tupArrSize := newSize, tuples := tuples res @ [tup], ntups := ntups res + 1\<rparr>, after_alloc a)
        else None
      else Some (True, res\<lparr>tuples := tuples res @ [tup], ntups := ntups res + 1\<rparr>, a))"


section \<open>Parameter status\<close>

text \<open>\<open>%d\<close> of \<open>sscanf\<close>: white space, an optional sign, digits.\<close>

definition is_space :: "byte \<Rightarrow> bool" where
  "is_space c \<longleftrightarrow> c = 0x20 \<or> (0x09 \<le> c \<and> c \<le> 0x0D)"

definition is_digit :: "byte \<Rightarrow> bool" where
  "is_digit c \<longleftrightarrow> 0x30 \<le> c \<and> c \<le> 0x39"

definition digits_value :: "byte list \<Rightarrow> int" where
  "digits_value ds = foldl (\<lambda>v d. 10 * v + (int (unat d) - 48)) 0 ds"

definition scan_d :: "byte list \<Rightarrow> (int \<times> byte list) option" where
  "scan_d s =
     (let s = dropWhile is_space s;
          neg = (s \<noteq> [] \<and> hd s = 0x2D);
          s = (if s \<noteq> [] \<and> (hd s = 0x2D \<or> hd s = 0x2B) then tl s else s);
          ds = takeWhile is_digit s in
      if ds = [] then None
      else Some (wrap32 (if neg then - digits_value ds else digits_value ds), dropWhile is_digit s))"

text \<open>\<open>sscanf(value, "%d.%d.%d", \<dots>)\<close>: the numbers converted.\<close>

definition scan_dot_d :: "byte list \<Rightarrow> (int \<times> byte list) option" where
  "scan_dot_d s = (if s \<noteq> [] \<and> hd s = 0x2E then scan_d (tl s) else None)"

definition scan_version :: "byte list \<Rightarrow> int list" where
  "scan_version s =
     (case scan_d s of
        None \<Rightarrow> []
      | Some (a, s) \<Rightarrow> (case scan_dot_d s of
          None \<Rightarrow> [a]
        | Some (b, s) \<Rightarrow> (case scan_dot_d s of None \<Rightarrow> [a, b] | Some (c, s) \<Rightarrow> [a, b, c])))"

definition version_number :: "byte list \<Rightarrow> int" where
  "version_number v =
     (let ns = scan_version v in
      if length ns < 2 then 0
      else let vrev = (if length ns = 2 then 0 else ns ! 2) in
        wrap32 (wrap32 (wrap32 (100 * (ns ! 0)) + ns ! 1) * 100 + vrev))"

fun forget_parameter :: "(byte list \<times> byte list) list \<Rightarrow> byte list \<Rightarrow> (byte list \<times> byte list) list" where
  "forget_parameter [] name = []"
| "forget_parameter ((n, v) # ps) name = (if n = name then ps else (n, v) # forget_parameter ps name)"

definition sizeof_pgParameterStatus :: nat where "sizeof_pgParameterStatus = 12"

definition pqSaveParameterStatus :: "pg_conn \<Rightarrow> byte list \<Rightarrow> byte list \<Rightarrow> pg_conn option" where
  "pqSaveParameterStatus conn name v =
     (let conn = conn\<lparr>pstatus := forget_parameter (pstatus conn) name\<rparr>;
          ok = next_ok (e_alloc (env conn));
          conn = set_alloc (after_alloc (e_alloc (env conn))) conn;
          conn = (if ok then conn\<lparr>pstatus := (name, v) # pstatus conn\<rparr> else conn) in
      if name = lit ''client_encoding'' then do {
        enc \<leftarrow> pg_char_to_encoding (e_ctype (env conn)) (Some v);
        let enc = (if enc < 0 then PG_SQL_ASCII else enc);
        Some (conn\<lparr>client_encoding := enc, env := (env conn)\<lparr>static_client_encoding := enc\<rparr>\<rparr>)
      }
      else if name = lit ''standard_conforming_strings'' then
        Some (conn\<lparr>std_strings := (v = lit ''on''), env := (env conn)\<lparr>static_std_strings := (v = lit ''on'')\<rparr>\<rparr>)
      else if name = lit ''server_version'' then Some (conn\<lparr>sversion := version_number v\<rparr>)
      else Some conn)"

definition PQparameterStatus :: "pg_conn \<Rightarrow> byte list \<Rightarrow> byte list option" where
  "PQparameterStatus conn paramName = map_of (pstatus conn) paramName"


section \<open>The allocator hands out disjoint places\<close>

text \<open>
  \<open>arena_ok res R\<close>: the places \<open>R\<close> (block, offset, size) lie inside the blocks of the result, behind the
  link at their start, and do not overlap; the free space of the current block is behind all of them.
\<close>

type_synonym region = "nat \<times> int \<times> int"

definition region_in :: "pg_result \<Rightarrow> region \<Rightarrow> bool" where
  "region_in res r \<longleftrightarrow>
     (case r of (b, off, n) \<Rightarrow>
        \<exists>sz. (b, sz) \<in> set (curBlock res) \<and> int sizeof_PGresult_data \<le> off \<and> 0 < n \<and> off + n \<le> int sz)"

definition apart :: "region \<Rightarrow> region \<Rightarrow> bool" where
  "apart r s \<longleftrightarrow> (case (r, s) of ((b, off, n), (b', off', n')) \<Rightarrow> b \<noteq> b' \<or> off + n \<le> off' \<or> off' + n' \<le> off)"

definition free_space_ok :: "pg_result \<Rightarrow> region set \<Rightarrow> bool" where
  "free_space_ok res R \<longleftrightarrow>
     (case curBlock res of
        [] \<Rightarrow> spaceLeft res = 0 \<and> curOffset res = 0
      | (b, sz) # _ \<Rightarrow>
          (spaceLeft res = 0 \<and> curOffset res = 0) \<or>
          (sz = PGRESULT_DATA_BLOCKSIZE \<and> 4 \<le> curOffset res \<and> 0 \<le> spaceLeft res \<and>
           curOffset res + spaceLeft res = int PGRESULT_DATA_BLOCKSIZE \<and>
           (\<forall>(b', off, n) \<in> R. b' = b \<longrightarrow> off + n \<le> curOffset res)))"

definition arena_ok :: "pg_result \<Rightarrow> region set \<Rightarrow> bool" where
  "arena_ok res R \<longleftrightarrow>
     (\<forall>(b, sz) \<in> set (curBlock res). b < nextBlock res) \<and>
     (\<forall>r \<in> R. region_in res r) \<and> (\<forall>r \<in> R. \<forall>s \<in> R. r \<noteq> s \<longrightarrow> apart r s) \<and> free_space_ok res R"

lemma arena_empty: "arena_ok (empty_result h e s) {}"
  by (simp add: arena_ok_def empty_result_def free_space_ok_def)

lemma align_arena:
  assumes "arena_ok res R"
  shows "arena_ok (align_result res) R \<and> curOffset (align_result res) mod 8 = 0 \<and>
    curBlock (align_result res) = curBlock res \<and> nextBlock (align_result res) = nextBlock res"
proof (cases "curOffset res mod 8 = 0")
  case True
  then show ?thesis using assms by (simp add: align_result_def result_sizes)
next
  case False
  let ?o = "curOffset res"
  from False assms obtain b sz rest where c: "curBlock res = (b, sz) # rest" "sz = 2048" "4 \<le> ?o"
    "0 \<le> spaceLeft res" "?o + spaceLeft res = 2048" "\<forall>(b', off, n) \<in> R. b' = b \<longrightarrow> off + n \<le> ?o"
    by (auto simp: arena_ok_def free_space_ok_def result_sizes split: list.splits prod.splits)
  have up: "(?o + (8 - ?o mod 8)) mod 8 = 0" "?o + (8 - ?o mod 8) \<le> 2048"
  proof -
    have "?o \<le> 2048" using c(4,5) by linarith
    then show "?o + (8 - ?o mod 8) \<le> 2048" using False by presburger
  qed presburger
  have m: "0 \<le> ?o mod 8" "?o mod 8 < 8" by simp_all
  have w: "wrap32 (?o + (8 - ?o mod 8)) = ?o + (8 - ?o mod 8)"
    "wrap32 (spaceLeft res - (8 - ?o mod 8)) = spaceLeft res - (8 - ?o mod 8)"
    using up c m by (auto intro!: wrap32_id)
  have a: "align_result res = res\<lparr>curOffset := ?o + (8 - ?o mod 8), spaceLeft := spaceLeft res - (8 - ?o mod 8)\<rparr>"
    using False w by (simp add: align_result_def result_sizes Let_def)
  have "\<forall>(b', off, n) \<in> R. b' = b \<longrightarrow> off + n \<le> ?o + (8 - ?o mod 8)"
    using c(6) m by fastforce
  then show ?thesis
    using assms c up m unfolding a
    by (auto simp: arena_ok_def free_space_ok_def region_in_def result_sizes)
qed

text \<open>The three ways to place an object.\<close>

lemma arena_take:
  assumes "arena_ok res R" "0 < nBytes" "int nBytes \<le> spaceLeft res"
  shows "\<exists>b rest. curBlock res = (b, PGRESULT_DATA_BLOCKSIZE) # rest \<and>
    arena_ok (res\<lparr>curOffset := wrap32 (curOffset res + int nBytes), spaceLeft := wrap32 (spaceLeft res - int nBytes)\<rparr>)
      (insert (b, curOffset res, int nBytes) R) \<and> (\<forall>r \<in> R. apart (b, curOffset res, int nBytes) r)"
proof -
  let ?o = "curOffset res"
  obtain b sz rest where c: "curBlock res = (b, sz) # rest" "sz = PGRESULT_DATA_BLOCKSIZE" "4 \<le> ?o"
    "0 \<le> spaceLeft res" "?o + spaceLeft res = 2048" "\<forall>(b', off, n) \<in> R. b' = b \<longrightarrow> off + n \<le> ?o"
    using assms by (auto simp: arena_ok_def free_space_ok_def result_sizes split: list.splits prod.splits)
  have w: "wrap32 (?o + int nBytes) = ?o + int nBytes" "wrap32 (spaceLeft res - int nBytes) = spaceLeft res - int nBytes"
    using c assms by (auto intro!: wrap32_id)
  have ap: "\<forall>r \<in> R. apart (b, ?o, int nBytes) r \<and> apart r (b, ?o, int nBytes)"
    using c(6) by (fastforce simp: apart_def)
  have "\<forall>(b', off, n) \<in> R. b' = b \<longrightarrow> off + n \<le> ?o + int nBytes" using c(6) by fastforce
  then show ?thesis
    using assms c ap unfolding w
    by (auto simp: arena_ok_def free_space_ok_def region_in_def result_sizes)
qed


lemma arena_fresh:
  assumes "arena_ok res R" "set (curBlock res') = insert (nextBlock res, sz) (set (curBlock res))"
    and "nextBlock res' = nextBlock res + 1" "4 \<le> off" "0 < n" "off + n \<le> int sz"
    and "free_space_ok res' (insert (nextBlock res, off, n) R)"
  shows "arena_ok res' (insert (nextBlock res, off, n) R) \<and> (\<forall>r \<in> R. apart (nextBlock res, off, n) r)"
proof -
  have fresh: "b < nextBlock res" if "(b, o', n') \<in> R" for b o' n'
    using assms(1) that by (fastforce simp: arena_ok_def region_in_def)
  then have ap: "\<forall>r \<in> R. apart (nextBlock res, off, n) r \<and> apart r (nextBlock res, off, n)"
    by (force simp: apart_def)
  have inside: "region_in res' r" if "region_in res r" for r
    using that assms(2) by (auto simp: region_in_def)
  have "region_in res' (nextBlock res, off, n)"
    using assms by (auto simp: region_in_def result_sizes)
  moreover have "\<forall>(b, sz) \<in> set (curBlock res'). b < nextBlock res'"
    using assms(1-3) by (auto simp: arena_ok_def)
  ultimately show ?thesis using assms(1,7) ap inside by (auto simp: arena_ok_def)
qed

lemma arena_separate:
  assumes "arena_ok res R" "0 < nBytes"
    and "res' = (case curBlock res of
        c # rest \<Rightarrow> res\<lparr>curBlock := c # (nextBlock res, nBytes + 8) # rest, nextBlock := nextBlock res + 1\<rparr>
      | [] \<Rightarrow> res\<lparr>curBlock := [(nextBlock res, nBytes + 8)], spaceLeft := 0, nextBlock := nextBlock res + 1\<rparr>)"
  shows "arena_ok res' (insert (nextBlock res, 8, int nBytes) R) \<and> (\<forall>r \<in> R. apart (nextBlock res, 8, int nBytes) r)"
proof (rule arena_fresh [OF assms(1)])
  show "free_space_ok res' (insert (nextBlock res, 8, int nBytes) R)"
    using assms by (cases "curBlock res") (auto simp: arena_ok_def free_space_ok_def)
qed (use assms in \<open>auto split: list.splits\<close>)

lemma arena_new_block:
  assumes "arena_ok res R" "0 < nBytes" "nBytes < PGRESULT_SEP_ALLOC_THRESHOLD" "off = 4 \<or> off = 8"
    and "res' = res\<lparr>curBlock := (nextBlock res, PGRESULT_DATA_BLOCKSIZE) # curBlock res, nextBlock := nextBlock res + 1,
          curOffset := off + int nBytes, spaceLeft := 2048 - off - int nBytes\<rparr>"
  shows "arena_ok res' (insert (nextBlock res, off, int nBytes) R) \<and> (\<forall>r \<in> R. apart (nextBlock res, off, int nBytes) r)"
proof (rule arena_fresh [OF assms(1)])
  have "b < nextBlock res" if "(b, o', n') \<in> R" for b o' n'
    using assms(1) that by (fastforce simp: arena_ok_def region_in_def)
  then show "free_space_ok res' (insert (nextBlock res, off, int nBytes) R)"
    using assms(2-5) by (force simp: free_space_ok_def result_sizes)
qed (use assms in \<open>auto simp: result_sizes\<close>)

lemma arena_space_range:
  "arena_ok res R \<Longrightarrow> 0 \<le> spaceLeft res \<and> spaceLeft res \<le> 2048 \<and> 0 \<le> curOffset res \<and> curOffset res \<le> 2048"
  by (auto simp: arena_ok_def free_space_ok_def result_sizes split: list.splits)

definition only_space_changed :: "pg_result \<Rightarrow> pg_result \<Rightarrow> bool" where
  "only_space_changed res res' \<longleftrightarrow>
     res'\<lparr>curBlock := curBlock res, curOffset := curOffset res, spaceLeft := spaceLeft res,
       nextBlock := nextBlock res\<rparr> = res"

lemma pqResultAlloc_spec:
  assumes "arena_ok res R" "0 < nBytes" "nBytes < 4294967288"
  shows "\<exists>space res' a'. pqResultAlloc a res nBytes isBinary = Some (space, res', a') \<and> only_space_changed res res' \<and>
    (case space of
       None \<Rightarrow> \<not> next_ok a \<and> arena_ok res' R
     | Some Null_field \<Rightarrow> False
     | Some (Space b off) \<Rightarrow> arena_ok res' (insert (b, off, int nBytes) R) \<and>
         (\<forall>r \<in> R. apart (b, off, int nBytes) r) \<and> (isBinary \<longrightarrow> off mod 8 = 0))"
proof -
  define res1 where "res1 = (if isBinary then align_result res else res)"
  have res1: "arena_ok res1 R" "isBinary \<longrightarrow> curOffset res1 mod 8 = 0"
      "curBlock res1 = curBlock res" "nextBlock res1 = nextBlock res"
    using align_arena [OF assms(1)] assms(1) by (auto simp: res1_def)
  have only1: "only_space_changed res (res1\<lparr>curOffset := co, spaceLeft := sl\<rparr>)" for co sl
    unfolding res1_def align_result_def only_space_changed_def Let_def by auto
  have only2: "only_space_changed res (res1\<lparr>curBlock := cb, nextBlock := nb, curOffset := co, spaceLeft := sl\<rparr>)" for cb nb co sl
    unfolding res1_def align_result_def only_space_changed_def Let_def by auto
  have only: "only_space_changed res (res1\<lparr>curBlock := cb, curOffset := co, spaceLeft := sl, nextBlock := nb\<rparr>)" for cb co sl nb
    unfolding res1_def align_result_def only_space_changed_def Let_def by auto
  note sp = arena_space_range [OF res1(1)]
  have sz: "nat (spaceLeft res1 mod 2 ^ 32) = nat (spaceLeft res1)" using sp by auto
  consider "nBytes \<le> nat (spaceLeft res1)"
    | "\<not> nBytes \<le> nat (spaceLeft res1)" "\<not> next_ok a"
    | "\<not> nBytes \<le> nat (spaceLeft res1)" "next_ok a" "nBytes \<ge> PGRESULT_SEP_ALLOC_THRESHOLD"
    | "\<not> nBytes \<le> nat (spaceLeft res1)" "next_ok a" "nBytes < PGRESULT_SEP_ALLOC_THRESHOLD"
    by linarith
  then show ?thesis
  proof cases
    case 1
    then have "int nBytes \<le> spaceLeft res1" using assms(2) by linarith
    from arena_take [OF res1(1) assms(2) this] obtain b rest where
      b: "curBlock res1 = (b, PGRESULT_DATA_BLOCKSIZE) # rest" by blast
    with arena_take [OF res1(1) assms(2) \<open>int nBytes \<le> spaceLeft res1\<close>] 1 assms(2) sz res1(2)
      only1 [where co = "wrap32 (curOffset res1 + int nBytes)" and sl = "wrap32 (spaceLeft res1 - int nBytes)"]
    show ?thesis unfolding pqResultAlloc_def res1_def [symmetric] Let_def by simp
  next
    case 2
    then show ?thesis
      using assms(2) sz res1(1) only [where cb = "curBlock res1" and co = "curOffset res1" and sl = "spaceLeft res1" and nb = "nextBlock res1"]
      unfolding pqResultAlloc_def res1_def [symmetric] Let_def by simp
  next
    case 3
    have "szadd nBytes PGRESULT_BLOCK_OVERHEAD = nBytes + PGRESULT_BLOCK_OVERHEAD"
      using assms(3) by (simp add: c_arith result_sizes)
    with 3 assms(2) sz arena_separate [OF res1(1) assms(2) refl]
      only [where co = "curOffset res1" and sl = "spaceLeft res1" and nb = "nextBlock res1 + 1"]
      only [where co = "curOffset res1" and sl = 0 and nb = "nextBlock res1 + 1"]
    show ?thesis unfolding pqResultAlloc_def res1_def [symmetric] Let_def
      by (cases "curBlock res1") (auto simp: PGRESULT_BLOCK_OVERHEAD_def split: prod.splits)
  next
    case 4
    let ?off = "if isBinary then 8 else 4 :: int"
    have "wrap32 (?off + int nBytes) = ?off + int nBytes" "wrap32 (2048 - ?off - int nBytes) = 2048 - ?off - int nBytes"
      using 4(3) by (auto simp: result_sizes intro!: wrap32_id)
    with only2 4 assms(2) sz arena_new_block [OF res1(1) assms(2) 4(3), of ?off, OF _ refl]
    show ?thesis unfolding pqResultAlloc_def res1_def [symmetric] Let_def
      by (cases isBinary) (auto simp: result_sizes)
  qed
qed

end
