(* ===== verification/Escape.thy ===== *)
theory Escape
  imports Conn
begin

text \<open>
  Escaping of strings for SQL, \<open>src/interfaces/libpq/fe-exec.c\<close>: \<open>PQescapeStringConn\<close>,
  \<open>PQescapeString\<close>, \<open>PQescapeLiteral\<close> and \<open>PQescapeIdentifier\<close>.

  The loops run over a record \<open>esc\<close> with the code's variables: \<open>source\<close> is the memory from the
  pointer to the end of its object, \<open>to\<close> the destination block and \<open>target\<close> the offset of the
  target pointer in it. The functions answer \<open>None\<close> when they read outside the source or write
  outside the destination. The lemmas show that a destination of \<open>2 * len + 1\<close> bytes, the size the
  documentation asks for, is always enough, and what the result reads back as when it is scanned
  the way the server scans a string constant.
\<close>

section \<open>PQescapeStringInternal\<close>

definition SQL_STR_DOUBLE :: "byte \<Rightarrow> bool \<Rightarrow> bool" where
  "SQL_STR_DOUBLE ch escape_backslash \<longleftrightarrow> ch = 0x27 \<or> (ch = 0x5C \<and> escape_backslash)"

record esc =
  source :: "byte list"
  remaining :: nat
  dest :: "byte list"
  target :: nat

text \<open>\<open>*target++ = c\<close>.\<close>

definition put :: "byte \<Rightarrow> esc \<Rightarrow> esc option" where
  "put c e = do { d \<leftarrow> wr (dest e) (target e) c; Some (e\<lparr>dest := d, target := target e + 1\<rparr>) }"

text \<open>The loop copying a character of \<open>len\<close> bytes; \<open>k\<close> is \<open>len - i\<close>, and the \<open>k\<close> at the break is returned.\<close>

fun copy_char :: "nat \<Rightarrow> esc \<Rightarrow> (nat \<times> esc) option" where
  "copy_char 0 e = Some (0, e)"
| "copy_char (Suc k) e =
     (if remaining e = 0 then Some (Suc k, e)
      else do {
        c \<leftarrow> rd (source e) 0;
        if c = 0 then Some (Suc k, e)
        else do {
          e \<leftarrow> put c (e\<lparr>source := drop 1 (source e)\<rparr>);
          copy_char k (e\<lparr>remaining := remaining e - 1\<rparr>)
        }
      })"

text \<open>The padding loop.\<close>

fun pad_spaces :: "nat \<Rightarrow> nat \<Rightarrow> esc \<Rightarrow> esc option" where
  "pad_spaces len 0 e = Some e"
| "pad_spaces len (Suc k) e =
     (if target e div 2 \<ge> len then Some e
      else do { e \<leftarrow> put 0x20 e; pad_spaces len k e })"

text \<open>
  The main loop. The result is whether an incomplete character was found. A character of len
  zero or less would repeat for ever: \<open>None\<close>.
\<close>

partial_function (option) escape_loop :: "int \<Rightarrow> bool \<Rightarrow> nat \<Rightarrow> esc \<Rightarrow> (bool \<times> esc) option" where
  "escape_loop encoding std len e =
     (if remaining e > 0 then
        Option.bind (rd (source e) 0) (\<lambda>c.
          if c = 0 then Some (False, e)
          else if \<not> IS_HIGHBIT_SET c then
            Option.bind (if SQL_STR_DOUBLE c (\<not> std) then put c e else Some e) (\<lambda>e1.
              Option.bind (put c e1) (\<lambda>e2.
                escape_loop encoding std len
                  (e2\<lparr>source := drop 1 (source e2), remaining := remaining e2 - 1\<rparr>)))
          else
            Option.bind (pg_encoding_mblen encoding (source e)) (\<lambda>l.
              Option.bind (copy_char (nat l) e) (\<lambda>r.
                if fst r > 0 then
                  Option.bind (pad_spaces len (fst r) (snd r)) (\<lambda>e3. Some (True, e3))
                else escape_loop encoding std len (snd r))))
      else Some (False, e))"

text \<open>
  \<open>to\<close> is the memory at the destination, \<open>from\<close> that at the source. The result: the len returned,
  the destination, the value stored through \<open>error\<close>, and the connection with its error message.
\<close>

definition PQescapeStringInternal ::
  "pg_conn option \<Rightarrow> byte list \<Rightarrow> byte list \<Rightarrow> nat \<Rightarrow> int \<Rightarrow> bool \<Rightarrow>
   (nat \<times> byte list \<times> int \<times> pg_conn option) option" where
  "PQescapeStringInternal conn to from len encoding std = do {
     (bad, e) \<leftarrow> escape_loop encoding std len
       \<lparr>source = from, remaining = len, dest = to, target = 0\<rparr>;
     conn \<leftarrow> (case conn of
         Some cn \<Rightarrow>
           if bad then map_option Some (printf_error cn (lit ''incomplete multibyte character'' @ [0x0A]))
           else Some (Some cn)
       | None \<Rightarrow> Some None);
     d \<leftarrow> wr (dest e) (target e) 0;
     Some (target e, d, if bad then 1 else 0, conn)
   }"

definition PQescapeStringConn ::
  "pg_conn option \<Rightarrow> byte list \<Rightarrow> byte list \<Rightarrow> nat \<Rightarrow> (nat \<times> byte list \<times> int \<times> pg_conn option) option" where
  "PQescapeStringConn conn to from len =
     (case conn of
        None \<Rightarrow> do { d \<leftarrow> wr to 0 0; Some (0, d, 1, None) }
      | Some cn \<Rightarrow> PQescapeStringInternal conn to from len (client_encoding cn) (std_strings cn))"

definition PQescapeString :: "env \<Rightarrow> byte list \<Rightarrow> byte list \<Rightarrow> nat \<Rightarrow> (nat \<times> byte list) option" where
  "PQescapeString en to from len = do {
     (n, d, err, c) \<leftarrow> PQescapeStringInternal None to from len (static_client_encoding en) (static_std_strings en);
     Some (n, d)
   }"


section \<open>PQescapeInternal\<close>

text \<open>
  The first scan: \<open>s\<close> is the offset of the pointer in \<open>str\<close>. It returns the counters and the final
  offset, or \<open>Inl\<close> when a multibyte character overruns. \<open>memchr\<close> looks at \<open>charlen\<close> bytes.
\<close>

partial_function (option) scan_loop ::
  "int \<Rightarrow> byte \<Rightarrow> byte list \<Rightarrow> nat \<Rightarrow> nat \<Rightarrow> nat \<Rightarrow> nat \<Rightarrow> (unit + nat \<times> nat \<times> nat) option" where
  "scan_loop encoding quote_char str len s num_quotes num_backslashes =
     (if s < len then
        Option.bind (rd str s) (\<lambda>c.
          if c = 0 then Some (Inr (num_quotes, num_backslashes, s))
          else if c = quote_char then
            scan_loop encoding quote_char str len (s + 1) (num_quotes + 1) num_backslashes
          else if c = 0x5C then
            scan_loop encoding quote_char str len (s + 1) num_quotes (num_backslashes + 1)
          else if IS_HIGHBIT_SET c then
            Option.bind (pg_encoding_mblen encoding (drop s str)) (\<lambda>charlen.
              if s + nat charlen > len then Some (Inl ())
              else Option.bind (c_memchr (drop s str) 0 (nat charlen)) (\<lambda>r.
                if r \<noteq> None then Some (Inl ())
                else scan_loop encoding quote_char str len (s + nat charlen) num_quotes num_backslashes))
          else scan_loop encoding quote_char str len (s + 1) num_quotes num_backslashes)
      else Some (Inr (num_quotes, num_backslashes, s)))"

text \<open>\<open>*rp++ = c\<close>, and \<open>memcpy\<close> at \<open>rp\<close>.\<close>

definition put_at :: "byte \<Rightarrow> byte list \<times> nat \<Rightarrow> (byte list \<times> nat) option" where
  "put_at c r = do { b \<leftarrow> wr (fst r) (snd r) c; Some (b, snd r + 1) }"

definition copy_at :: "byte list \<Rightarrow> byte list \<times> nat \<Rightarrow> (byte list \<times> nat) option" where
  "copy_at bs r = do { b \<leftarrow> wr_bytes (fst r) (snd r) bs; Some (b, snd r + length bs) }"

text \<open>The second scan, which copies. A character of length zero or less never ends in the code: \<open>None\<close>.\<close>

partial_function (option) quote_loop ::
  "int \<Rightarrow> byte \<Rightarrow> bool \<Rightarrow> byte list \<Rightarrow> nat \<Rightarrow> nat \<Rightarrow> byte list \<times> nat \<Rightarrow> (byte list \<times> nat) option" where
  "quote_loop encoding quote_char as_ident str input_len s rp =
     (if s < input_len then
        Option.bind (rd str s) (\<lambda>c.
          if c = quote_char \<or> (\<not> as_ident \<and> c = 0x5C) then
            Option.bind (put_at c rp) (\<lambda>rp1. Option.bind (put_at c rp1) (\<lambda>rp2.
              quote_loop encoding quote_char as_ident str input_len (s + 1) rp2))
          else if \<not> IS_HIGHBIT_SET c then
            Option.bind (put_at c rp) (\<lambda>rp1. quote_loop encoding quote_char as_ident str input_len (s + 1) rp1)
          else
            Option.bind (pg_encoding_mblen encoding (drop s str)) (\<lambda>i.
              if i \<le> 0 then None
              else Option.bind (rd_bytes str s (nat i)) (\<lambda>bs.
                Option.bind (copy_at bs rp) (\<lambda>rp1.
                  quote_loop encoding quote_char as_ident str input_len (s + nat i) rp1))))
      else Some rp)"

text \<open>Sizes are \<open>int\<close>: \<open>result_size\<close> wraps at 32 bits.\<close>

definition escaped_size :: "bool \<Rightarrow> nat \<Rightarrow> nat \<Rightarrow> nat \<Rightarrow> int" where
  "escaped_size as_ident input_len num_quotes num_backslashes =
     (let result_size = wrap32 (int input_len + int num_quotes + 3) in
      if \<not> as_ident \<and> num_backslashes > 0 then wrap32 (result_size + (int num_backslashes + 2)) else result_size)"

text \<open>The part after the allocation: fill the block \<open>r\<close>.\<close>

definition fill_escaped ::
  "int \<Rightarrow> byte \<Rightarrow> bool \<Rightarrow> byte list \<Rightarrow> nat \<Rightarrow> nat \<Rightarrow> nat \<Rightarrow> byte list \<Rightarrow> byte list option" where
  "fill_escaped encoding quote_char as_ident str input_len num_quotes num_backslashes r = do {
     rp \<leftarrow> (if \<not> as_ident \<and> num_backslashes > 0
       then do { rp \<leftarrow> put_at 0x20 (r, 0); put_at 0x45 rp } else Some (r, 0));
     rp \<leftarrow> put_at quote_char rp;
     rp \<leftarrow> (if num_quotes = 0 \<and> (num_backslashes = 0 \<or> as_ident)
       then do { bs \<leftarrow> rd_bytes str 0 input_len; copy_at bs rp }
       else quote_loop encoding quote_char as_ident str input_len 0 rp);
     rp \<leftarrow> put_at quote_char rp;
     wr (fst rp) (snd rp) 0
   }"

text \<open>The inner \<open>None\<close> is \<open>NULL\<close>; \<open>malloc\<close> gets the size as a \<open>size_t\<close>.\<close>

definition PQescapeInternal ::
  "pg_conn option \<Rightarrow> byte list \<Rightarrow> nat \<Rightarrow> bool \<Rightarrow> (byte list option \<times> pg_conn option) option" where
  "PQescapeInternal conn str len as_ident =
     (case conn of
        None \<Rightarrow> Some (None, None)
      | Some cn \<Rightarrow> do {
          let quote_char = (if as_ident then 0x22 else 0x27);
          scan \<leftarrow> scan_loop (client_encoding cn) quote_char str len 0 0 0;
          case scan of
            Inl _ \<Rightarrow> do {
              cn \<leftarrow> printf_error cn (lit ''incomplete multibyte character'' @ [0x0A]);
              Some (None, Some cn)
            }
          | Inr (num_quotes, num_backslashes, input_len) \<Rightarrow> do {
              let result_size = escaped_size as_ident input_len num_quotes num_backslashes;
              let (m, a) = c_malloc (e_alloc (env cn)) (nat (result_size mod 2 ^ 32));
              let cn = set_alloc a cn;
              case m of
                None \<Rightarrow> do {
                  cn \<leftarrow> printf_error cn (lit ''out of memory'' @ [0x0A]);
                  Some (None, Some cn)
                }
              | Some r \<Rightarrow> do {
                  b \<leftarrow> fill_escaped (client_encoding cn) quote_char as_ident str input_len num_quotes num_backslashes r;
                  Some (Some b, Some cn)
                }
            }
        })"

definition PQescapeLiteral :: "pg_conn option \<Rightarrow> byte list \<Rightarrow> nat \<Rightarrow> (byte list option \<times> pg_conn option) option" where
  "PQescapeLiteral conn str len = PQescapeInternal conn str len False"

definition PQescapeIdentifier :: "pg_conn option \<Rightarrow> byte list \<Rightarrow> nat \<Rightarrow> (byte list option \<times> pg_conn option) option" where
  "PQescapeIdentifier conn str len = PQescapeInternal conn str len True"


section \<open>Characters\<close>

text \<open>
  What escaping relies on of \<open>mblen\<close>: it needs two bytes at most, answers a positive length, depends
  on the first two bytes only, and on the second one only for characters longer than a byte.
\<close>

locale mb_chars =
  fixes ml :: "byte list \<Rightarrow> int option"
  assumes ml_total: "\<exists>l. ml (a # b # r) = Some l \<and> 0 < l"
    and ml_two: "ml (a # b # r) = ml (a # b # r')"
    and ml_one: "ml (a # b # r) = Some 1 \<Longrightarrow> ml (a # s) = Some 1"

definition two_byte_law :: "(byte list \<Rightarrow> int option) \<Rightarrow> bool" where
  "two_byte_law ml \<longleftrightarrow>
     (\<forall>a b r. (\<exists>l. ml (a # b # r) = Some l \<and> 0 < l) \<and> (\<forall>r'. ml (a # b # r) = ml (a # b # r')) \<and>
        (ml (a # b # r) = Some 1 \<longrightarrow> (\<forall>s. ml (a # s) = Some 1)))"

lemma rows_two_byte: "list_all (\<lambda>row. two_byte_law (mblen row)) pg_wchar_table"
  unfolding pg_wchar_table_def list.pred_inject
  by (intro conjI TrueI; simp add: wchar_row_def two_byte_law_def; auto simp: mblen_defs)

lemma encoding_row: "\<exists>row \<in> set pg_wchar_table. \<forall>s. pg_encoding_mblen e s = mblen row s"
proof (cases "0 \<le> e \<and> e < int (length pg_wchar_table)")
  case True
  then have "nat e < length pg_wchar_table" by auto
  with True show ?thesis
    by (intro bexI [of _ "pg_wchar_table ! nat e"]) (auto simp: pg_encoding_mblen_def rdi_def rd_def)
next
  case False
  then show ?thesis
    by (intro bexI [of _ "pg_wchar_table ! 0"]) (auto simp: pg_encoding_mblen_def rdi_def rd_def table_length)
qed

interpretation enc: mb_chars "pg_encoding_mblen e" for e
proof -
  obtain row where row: "row \<in> set pg_wchar_table" "\<And>s. pg_encoding_mblen e s = mblen row s"
    using encoding_row [of e] by blast
  then have "two_byte_law (mblen row)" using rows_two_byte by (auto simp: list_all_iff)
  then show "mb_chars (pg_encoding_mblen e)"
    unfolding mb_chars_def row(2) two_byte_law_def by blast
qed


section \<open>Reading a quoted string back\<close>

text \<open>
  What the server reads between the quotes: characters in the encoding, a doubled quote for a quote
  and, where the backslash is special (\<open>bs\<close>), a doubled backslash for a backslash. \<open>Ended\<close> is a
  quote that ends the string early, or any other escape sequence; \<open>Incomplete\<close> a character
  that the string cuts off.
\<close>

datatype quoted = Content "byte list" | Ended | Incomplete

fun prepend :: "byte list \<Rightarrow> quoted \<Rightarrow> quoted" where
  "prepend bs (Content s) = Content (bs @ s)"
| "prepend bs Ended = Ended"
| "prepend bs Incomplete = Incomplete"

function read_quoted :: "(byte list \<Rightarrow> int option) \<Rightarrow> byte \<Rightarrow> bool \<Rightarrow> byte list \<Rightarrow> quoted" where
  "read_quoted ml q bs [] = Content []"
| "read_quoted ml q bs (c # r) =
     (if c = q \<or> (bs \<and> c = 0x5C) then
        (case r of [] \<Rightarrow> Ended | d # r' \<Rightarrow> if d = c then prepend [c] (read_quoted ml q bs r') else Ended)
      else if \<not> IS_HIGHBIT_SET c then prepend [c] (read_quoted ml q bs r)
      else (case ml (c # r) of
          None \<Rightarrow> Incomplete
        | Some l \<Rightarrow>
            if l \<le> 0 \<or> int (length (c # r)) < l then Incomplete
            else prepend (take (nat l) (c # r)) (read_quoted ml q bs (drop (nat l) (c # r)))))"
  by pat_completeness auto
termination
  by (relation "measure (\<lambda>(ml, q, bs, s). length s)") auto

declare read_quoted.simps(2) [simp del]

lemma prepend_Content_iff: "prepend bs x = Content s \<longleftrightarrow> (\<exists>t. x = Content t \<and> s = bs @ t)"
  by (cases x) auto

lemma prepend_Ended_iff [simp]: "prepend bs x = Ended \<longleftrightarrow> x = Ended"
  by (cases x) auto

lemma prepend_append: "prepend a (prepend b x) = prepend (a @ b) x"
  by (cases x) auto

lemma read_spaces: "\<not> IS_HIGHBIT_SET q \<Longrightarrow> q \<noteq> 0x20 \<Longrightarrow> read_quoted ml q bs (replicate n 0x20) = Content (replicate n 0x20)"
  by (induction n) (auto simp: read_quoted.simps(2) IS_HIGHBIT_SET_def)

text \<open>One step of the reader over what one step of the escaping writes.\<close>

lemma read_doubled:
  "c = q \<or> (bs \<and> c = 0x5C) \<Longrightarrow> read_quoted ml q bs (c # c # r) = prepend [c] (read_quoted ml q bs r)"
  by (simp add: read_quoted.simps(2))

lemma read_plain:
  "c \<noteq> q \<Longrightarrow> \<not> (bs \<and> c = 0x5C) \<Longrightarrow> \<not> IS_HIGHBIT_SET c \<Longrightarrow> read_quoted ml q bs (c # r) = prepend [c] (read_quoted ml q bs r)"
  by (subst read_quoted.simps(2)) auto

lemma read_high:
  assumes "IS_HIGHBIT_SET c" "q \<in> {0x27, 0x22}"
  shows "read_quoted ml q bs (c # r) = (case ml (c # r) of
      None \<Rightarrow> Incomplete
    | Some l \<Rightarrow> if l \<le> 0 \<or> int (length (c # r)) < l then Incomplete
        else prepend (take (nat l) (c # r)) (read_quoted ml q bs (drop (nat l) (c # r))))"
proof -
  have "c \<noteq> 0x27" "c \<noteq> 0x22" "c \<noteq> 0x5C" using assms(1) by (auto simp: IS_HIGHBIT_SET_def)
  then show ?thesis using assms by (subst read_quoted.simps(2)) auto
qed

lemma not_high_special: "IS_HIGHBIT_SET c \<Longrightarrow> c \<noteq> 0x27 \<and> c \<noteq> 0x22 \<and> c \<noteq> 0x5C"
  by (auto simp: IS_HIGHBIT_SET_def)

context mb_chars
begin

text \<open>A whole character of the source reads back as itself, whatever follows it.\<close>

lemma ml_copy:
  assumes "ml s = Some l" "2 \<le> length s" "l \<le> int (length cs)" "cs = take (nat l) s"
  shows "ml (cs @ t) = Some l \<and> 0 < l"
proof -
  obtain a b r where s: "s = a # b # r" using assms(2) by (auto simp: Suc_le_length_iff numeral_2_eq_2)
  have pos: "0 < l" using ml_total [of a b r] assms(1) s by auto
  show ?thesis
  proof (cases "l = 1")
    case True
    then show ?thesis using ml_one [of a b r] assms s by simp
  next
    case False
    then obtain k where "nat l = Suc (Suc k)" using pos
      by (metis One_nat_def Suc_nat_eq_nat_zadd1 int_nat_eq nat_eq_iff nat_neq_iff not0_implies_Suc less_one order_less_imp_le of_nat_1 zero_less_nat_eq not_gr0)
    then have "cs @ t = a # b # (take k r @ t)" using assms(4) s by simp
    then show ?thesis using ml_two [of a b r] assms(1) s pos by metis
  qed
qed

lemma read_char:
  assumes "ml s = Some l" "2 \<le> length s" "l \<le> int (length cs)" "cs = take (nat l) s"
    and "IS_HIGHBIT_SET (s ! 0)" "q \<in> {0x27, 0x22}"
  shows "read_quoted ml q bs (cs @ t) = prepend cs (read_quoted ml q bs t)"
proof -
  have m: "ml (cs @ t) = Some l" "0 < l" using ml_copy [OF assms(1-4)] by auto
  then have len: "length cs = nat l" using assms(3,4) by simp
  then obtain d ds where cs: "cs = d # ds" using m(2) by (cases cs) auto
  have "d = s ! 0" using assms(4) cs m(2) by (cases s; cases "nat l") auto
  then have d: "IS_HIGHBIT_SET d" using assms(5) by simp
  have l: "nat l = Suc (length ds)" "\<not> l \<le> 0" "l = 1 + int (length ds)" using len cs m(2) by auto
  have "ml (d # ds @ t) = Some l" using m(1) cs by simp
  then show ?thesis
    unfolding cs append_Cons read_high [OF d assms(6)] using l by simp
qed

text \<open>An incomplete character padded with spaces never ends the string.\<close>

lemma read_incomplete:
  assumes "ml s = Some l" "2 \<le> length s" "0 < length cs" "length cs < nat l" "cs = take (length cs) s"
    and "IS_HIGHBIT_SET (s ! 0)" "q \<in> {0x27, 0x22}"
  shows "read_quoted ml q bs (cs @ replicate n 0x20) \<noteq> Ended"
proof -
  obtain d ds where cs: "cs = d # ds" using assms(3) by (cases cs) auto
  have d: "d = s ! 0" using assms(5) cs by (cases s) auto
  let ?t = "cs @ replicate n 0x20"
  have spaces: "\<exists>k. drop m ?t = replicate k 0x20" if "length cs \<le> m" for m using that by simp
  have sp: "\<not> IS_HIGHBIT_SET q" "q \<noteq> 0x20" using assms(7) by (auto simp: IS_HIGHBIT_SET_def)
  have cover: "length cs \<le> nat l'" if "ml ?t = Some l'" "0 < l'" for l'
  proof (cases ds)
    case Nil
    then show ?thesis using that cs by simp
  next
    case (Cons e es)
    obtain a b r where s: "s = a # b # r" using assms(2) by (auto simp: Suc_le_length_iff numeral_2_eq_2)
    have "a = d" "b = e" using assms(5) cs Cons s by auto
    then have "ml ?t = ml s" using ml_two [of a b r] cs Cons s by (metis append_Cons)
    then show ?thesis using that assms(1,4) by simp
  qed
  have dh: "IS_HIGHBIT_SET d" using assms(6) d by simp
  have tcs: "?t = d # ds @ replicate n 0x20" using cs by simp
  show ?thesis
  proof (cases "ml ?t")
    case None
    then show ?thesis unfolding tcs read_high [OF dh assms(7)] by simp
  next
    case (Some l')
    show ?thesis
    proof (cases "l' \<le> 0 \<or> int (length ?t) < l'")
      case True
      then show ?thesis using Some unfolding tcs read_high [OF dh assms(7)] by simp
    next
      case False
      then obtain k where "drop (nat l') ?t = replicate k 0x20" using spaces cover [OF Some] by force
      then have "read_quoted ml q bs ?t = prepend (take (nat l') ?t) (Content (replicate k 0x20))"
        using Some False read_spaces [OF sp] unfolding tcs read_high [OF dh assms(7)] by simp
      then show ?thesis by simp
    qed
  qed
qed

end


section \<open>The escaping loop\<close>

text \<open>\<open>wrote e bs e'\<close>: between \<open>e\<close> and \<open>e'\<close> exactly the bytes \<open>bs\<close> were stored, inside the destination.\<close>

definition wrote :: "esc \<Rightarrow> byte list \<Rightarrow> esc \<Rightarrow> bool" where
  "wrote e bs e' \<longleftrightarrow> target e + length bs \<le> length (dest e) \<and> target e' = target e + length bs \<and>
     dest e' = take (target e) (dest e) @ bs @ drop (target e + length bs) (dest e)"

lemma wrote_length: "wrote e bs e' \<Longrightarrow> length (dest e') = length (dest e)"
  by (simp add: wrote_def)

lemma wrote_trans:
  assumes "wrote e as e'" "wrote e' bs e''"
  shows "wrote e (as @ bs) e''"
proof -
  let ?T = "target e" and ?D = "dest e"
  have a: "?T + length as \<le> length ?D" "target e' = ?T + length as"
      "dest e' = take ?T ?D @ as @ drop (?T + length as) ?D" "length (take ?T ?D) = ?T"
    using assms(1) by (auto simp: wrote_def)
  have "take (target e') (dest e') = take ?T ?D @ as"
    and "drop (target e' + length bs) (dest e') = drop (?T + length as + length bs) ?D"
    and "length (dest e') = length ?D"
    unfolding a(2,3) using a(1,4) by (simp_all add: add_ac)
  then show ?thesis
    using assms(2) a(2) by (simp add: wrote_def add.assoc)
qed

lemma wrote_nothing: "target e \<le> length (dest e) \<Longrightarrow> wrote e [] e"
  by (simp add: wrote_def)

lemma put_spec:
  assumes "target e < length (dest e)"
  shows "\<exists>e'. put c e = Some e' \<and> wrote e [c] e' \<and> source e' = source e \<and> remaining e' = remaining e"
  using assms by (simp add: put_def mem_simps wrote_def upd_conv_take_nth_drop Suc_le_eq)

lemma copy_char_spec:
  "remaining e < length (source e) \<Longrightarrow> target e + remaining e \<le> length (dest e) \<Longrightarrow>
   \<exists>j e'. copy_char k e = Some (k - j, e') \<and> j \<le> k \<and> j \<le> remaining e \<and> wrote e (take j (source e)) e' \<and>
     source e' = drop j (source e) \<and> remaining e' = remaining e - j \<and> 0 \<notin> set (take j (source e)) \<and>
     (j < k \<longrightarrow> remaining e = j \<or> source e ! j = 0)"
proof (induction k arbitrary: e)
  case 0
  then show ?case by (auto intro!: exI [of _ 0] wrote_nothing)
next
  case (Suc k)
  obtain c s where cs: "source e = c # s" using Suc.prems by (cases "source e") auto
  show ?case
  proof (cases "remaining e = 0 \<or> c = 0")
    case True
    then show ?thesis using Suc.prems cs by (auto intro!: exI [of _ 0] wrote_nothing)
  next
    case False
    let ?e0 = "e\<lparr>source := drop 1 (source e)\<rparr>"
    obtain e1 where e1: "put c ?e0 = Some e1" "wrote ?e0 [c] e1" "source e1 = s" "remaining e1 = remaining e"
      using put_spec [of ?e0 c] Suc.prems False cs by auto
    let ?e2 = "e1\<lparr>remaining := remaining e1 - 1\<rparr>"
    have w: "wrote e [c] ?e2" using e1(2) by (simp add: wrote_def)
    have "remaining ?e2 < length (source ?e2)" "target ?e2 + remaining ?e2 \<le> length (dest ?e2)"
      using Suc.prems False cs e1(3,4) w by (auto simp: wrote_def)
    from Suc.IH [OF this] obtain j e' where j: "copy_char k ?e2 = Some (k - j, e')" "j \<le> k" "j \<le> remaining e - 1"
      "wrote ?e2 (take j s) e'" "source e' = drop j s" "remaining e' = remaining e - 1 - j" "0 \<notin> set (take j s)"
      "j < k \<longrightarrow> remaining e - 1 = j \<or> s ! j = 0"
      using e1(3,4) by auto
    have "wrote e (c # take j s) e'" using wrote_trans [OF w j(4)] by simp
    then show ?thesis using False cs e1(1) j by (intro exI [of _ "Suc j"] exI [of _ e']) auto
  qed
qed

lemma pad_spaces_spec:
  "2 * len < length (dest e) \<Longrightarrow> target e \<le> 2 * len \<Longrightarrow>
   \<exists>n e'. pad_spaces len k e = Some e' \<and> wrote e (replicate n 0x20) e' \<and> target e' \<le> 2 * len"
proof (induction k arbitrary: e)
  case 0
  then show ?case by (auto intro!: exI [of _ 0] wrote_nothing)
next
  case (Suc k)
  show ?case
  proof (cases "target e div 2 \<ge> len")
    case True
    then show ?thesis using Suc.prems by (auto intro!: exI [of _ 0] wrote_nothing)
  next
    case False
    obtain e1 where e1: "put 0x20 e = Some e1" "wrote e [0x20] e1" using put_spec [of e] Suc.prems by auto
    have "2 * len < length (dest e1)" "target e1 \<le> 2 * len"
      using e1(2) Suc.prems False by (auto simp: wrote_def)
    from Suc.IH [OF this] obtain n e' where "pad_spaces len k e1 = Some e'" "wrote e1 (replicate n 0x20) e'"
      "target e' \<le> 2 * len" by blast
    then show ?thesis using False e1 wrote_trans [OF e1(2)] by (intro exI [of _ "Suc n"] exI [of _ e']) auto
  qed
qed

lemma takeWhile_pre: "\<forall>x \<in> set a. P x \<Longrightarrow> takeWhile P (a @ b) = a @ takeWhile P b"
  by (rule takeWhile_append2) auto

lemma escape_loop_spec:
  assumes "remaining e < length (source e)" "remaining e \<le> len" "target e \<le> 2 * (len - remaining e)"
    and "2 * len < length (dest e)"
  shows "\<exists>bad e' new. escape_loop encoding std len e = Some (bad, e') \<and> wrote e new e' \<and> target e' \<le> 2 * len \<and>
    (\<not> bad \<longrightarrow> read_quoted (pg_encoding_mblen encoding) 0x27 (\<not> std) new =
        Content (takeWhile (\<lambda>c. c \<noteq> 0) (take (remaining e) (source e)))) \<and>
    (bad \<longrightarrow> read_quoted (pg_encoding_mblen encoding) 0x27 (\<not> std) new \<noteq> Ended)"
  using assms
proof (induction "remaining e" arbitrary: e rule: less_induct)
  case less
  let ?ml = "pg_encoding_mblen encoding"
  let ?read = "read_quoted ?ml 0x27 (\<not> std)"
  obtain c s where cs: "source e = c # s" using less.prems by (cases "source e") auto
  show ?case
  proof (cases "remaining e = 0 \<or> c = 0")
    case True
    then have "escape_loop encoding std len e = Some (False, e)"
      using cs by (subst escape_loop.simps) auto
    then show ?thesis using less.prems True cs
      by (intro exI [of _ False] exI [of _ e] exI [of _ "[]"], cases "remaining e"; auto intro!: wrote_nothing)
  next
    case go: False
    show ?thesis
    proof (cases "IS_HIGHBIT_SET c")
      case False
      have te: "target e < length (dest e)" using less.prems by linarith
      define dbl where "dbl = SQL_STR_DOUBLE c (\<not> std)"
      obtain e1 where e1: "(if dbl then put c e else Some e) = Some e1" "wrote e (if dbl then [c] else []) e1"
          "source e1 = source e" "remaining e1 = remaining e"
        using put_spec [of e c] te wrote_nothing [of e] by (cases dbl) auto
      have t1: "target e1 < length (dest e1)" using e1(2) less.prems go by (auto simp: wrote_def split: if_splits)
      obtain e2 where e2: "put c e1 = Some e2" "wrote e1 [c] e2" "source e2 = source e" "remaining e2 = remaining e"
        using put_spec [OF t1, of c] e1 by auto
      let ?e3 = "e2\<lparr>source := drop 1 (source e2), remaining := remaining e2 - 1\<rparr>"
      let ?first = "(if dbl then [c] else []) @ [c]"
      have w: "wrote e ?first ?e3" using wrote_trans [OF e1(2) e2(2)] by (simp add: wrote_def)
      have "remaining ?e3 < remaining e" using e2 go by simp
      moreover have "remaining ?e3 < length (source ?e3)" "remaining ?e3 \<le> len" "2 * len < length (dest ?e3)"
        using e2(3,4) less.prems go cs wrote_length [OF w] by auto
      moreover have "target ?e3 \<le> 2 * (len - remaining ?e3)"
        using w e2(4) less.prems go by (auto simp: wrote_def split: if_splits)
      ultimately obtain bad e' new where ih: "escape_loop encoding std len ?e3 = Some (bad, e')" "wrote ?e3 new e'"
        "target e' \<le> 2 * len"
        "\<not> bad \<longrightarrow> ?read new = Content (takeWhile (\<lambda>c. c \<noteq> 0) (take (remaining e - 1) s))"
        "bad \<longrightarrow> ?read new \<noteq> Ended"
        using less.hyps [of ?e3] e2(3,4) cs by auto
      have step: "escape_loop encoding std len e = Some (bad, e')"
        using go False cs e1(1) e2(1) ih(1) by (subst escape_loop.simps) (simp add: dbl_def split: if_splits)
      have read: "?read (?first @ new) = prepend [c] (?read new)"
        using False by (auto simp: dbl_def SQL_STR_DOUBLE_def read_doubled read_plain)
      have "takeWhile (\<lambda>c. c \<noteq> 0) (take (remaining e) (source e)) = c # takeWhile (\<lambda>c. c \<noteq> 0) (take (remaining e - 1) s)"
        using go cs by (cases "remaining e") auto
      then show ?thesis
        using step wrote_trans [OF w ih(2)] ih(3-5) read
        by (intro exI [of _ bad] exI [of _ e'] exI [of _ "?first @ new"]) auto
    next
      case high: True
      have two: "2 \<le> length (source e)" using less.prems(1) go by linarith
      then obtain b r where "source e = c # b # r" using cs by (cases s) auto
      then obtain l where l: "?ml (source e) = Some l" "0 < l" using enc.ml_total [of encoding c b r] by auto
      have room: "target e + remaining e \<le> length (dest e)" using less.prems by linarith
      obtain j e1 where j: "copy_char (nat l) e = Some (nat l - j, e1)" "j \<le> nat l" "j \<le> remaining e"
        "wrote e (take j (source e)) e1" "source e1 = drop j (source e)" "remaining e1 = remaining e - j"
        "0 \<notin> set (take j (source e))" "j < nat l \<longrightarrow> remaining e = j \<or> source e ! j = 0"
        using copy_char_spec [OF less.prems(1) room] by blast
      have j0: "0 < j" using j(8) go cs l(2) by (cases j) auto
      have lj: "length (take j (source e)) = j" using j(3) less.prems(1) by simp
      show ?thesis
      proof (cases "j = nat l")
        case True
        have "remaining e1 < remaining e" using j(6,3) j0 go by simp
        moreover have "remaining e1 < length (source e1)" "remaining e1 \<le> len" "2 * len < length (dest e1)"
          using j(3,5,6) less.prems wrote_length [OF j(4)] by auto
        moreover have "target e1 \<le> 2 * (len - remaining e1)"
          using j(3,4,6) lj less.prems by (auto simp: wrote_def)
        ultimately obtain bad e' new where ih: "escape_loop encoding std len e1 = Some (bad, e')" "wrote e1 new e'"
          "target e' \<le> 2 * len"
          "\<not> bad \<longrightarrow> ?read new = Content (takeWhile (\<lambda>c. c \<noteq> 0) (take (remaining e - j) (drop j (source e))))"
          "bad \<longrightarrow> ?read new \<noteq> Ended"
          using less.hyps [of e1] j(5,6) by auto
        have step: "escape_loop encoding std len e = Some (bad, e')"
          using go high cs l(1) j(1) True ih(1) by (subst escape_loop.simps) simp
        have read: "?read (take j (source e) @ new) = prepend (take j (source e)) (?read new)"
          using l lj True two high cs by (intro enc.read_char [of encoding "source e" l]) auto
        have "take (remaining e) (source e) = take j (source e) @ take (remaining e - j) (drop j (source e))"
          using j(3) by (metis le_add_diff_inverse take_add)
        then have "takeWhile (\<lambda>c. c \<noteq> 0) (take (remaining e) (source e)) =
            take j (source e) @ takeWhile (\<lambda>c. c \<noteq> 0) (take (remaining e - j) (drop j (source e)))"
          using j(7) by (auto intro!: takeWhile_pre)
        then show ?thesis
          using step wrote_trans [OF j(4) ih(2)] ih(3-5) read
          by (intro exI [of _ bad] exI [of _ e'] exI [of _ "take j (source e) @ new"]) auto
      next
        case False
        have pre: "2 * len < length (dest e1)" "target e1 \<le> 2 * len"
          using wrote_length [OF j(4)] less.prems j(3,4) lj by (auto simp: wrote_def)
        obtain n e2 where n: "pad_spaces len (nat l - j) e1 = Some e2" "wrote e1 (replicate n 0x20) e2" "target e2 \<le> 2 * len"
          using pad_spaces_spec [OF pre] by blast
        have step: "escape_loop encoding std len e = Some (True, e2)"
          using go high cs l(1) j(1,2) False n(1) by (subst escape_loop.simps) simp
        have "?read (take j (source e) @ replicate n 0x20) \<noteq> Ended"
          using l lj j(2) j0 False two high cs
          by (intro enc.read_incomplete [of encoding "source e" l]) auto
        then show ?thesis
          using step wrote_trans [OF j(4) n(2)] n(3)
          by (intro exI [of _ True] exI [of _ e2] exI [of _ "take j (source e) @ replicate n 0x20"]) auto
      qed
    qed
  qed
qed


section \<open>Literals and identifiers\<close>

text \<open>The bytes \<open>body\<close> stored at the write position.\<close>

definition stored :: "byte list \<times> nat \<Rightarrow> byte list \<Rightarrow> byte list \<times> nat" where
  "stored rp body = (take (snd rp) (fst rp) @ body @ drop (snd rp + length body) (fst rp), snd rp + length body)"

lemma copy_at_stored: "snd rp + length bs \<le> length (fst rp) \<Longrightarrow> copy_at bs rp = Some (stored rp bs)"
  by (simp add: copy_at_def stored_def mem_simps)

lemma put_at_stored: "snd rp < length (fst rp) \<Longrightarrow> put_at c rp = Some (stored rp [c])"
  by (simp add: put_at_def stored_def mem_simps upd_conv_take_nth_drop)

lemma stored_stored:
  "snd rp + length a + length b \<le> length (fst rp) \<Longrightarrow> stored (stored rp a) b = stored rp (a @ b)"
proof -
  assume fits: "snd rp + length a + length b \<le> length (fst rp)"
  then have "length (take (snd rp) (fst rp)) = snd rp" by simp
  then show ?thesis using fits by (simp add: stored_def add_ac)
qed

lemma stored_size: "snd rp + length a \<le> length (fst rp) \<Longrightarrow>
    length (fst (stored rp a)) = length (fst rp) \<and> snd (stored rp a) = snd rp + length a"
  by (simp add: stored_def)

text \<open>
  What the two scans establish together, from offset \<open>s\<close>: the first scan ends at \<open>s'\<close> with the counts,
  the second then writes \<open>body\<close>, whose size the counts give and which reads back as the input.
\<close>

definition quotes_to ::
  "int \<Rightarrow> byte \<Rightarrow> bool \<Rightarrow> byte list \<Rightarrow> nat \<Rightarrow> nat \<Rightarrow> nat \<Rightarrow> nat \<Rightarrow> byte list \<Rightarrow> bool" where
  "quotes_to encoding q as_ident str s s' nq nb body \<longleftrightarrow>
     length body = (s' - s) + nq + (if as_ident then 0 else nb) \<and>
     (nq = 0 \<and> (nb = 0 \<or> as_ident) \<longrightarrow> body = take (s' - s) (drop s str)) \<and>
     (\<forall>bs. (bs \<longrightarrow> \<not> as_ident) \<and> (bs \<or> as_ident \<or> nb = 0) \<longrightarrow>
        read_quoted (pg_encoding_mblen encoding) q bs body = Content (take (s' - s) (drop s str))) \<and>
     (\<forall>rp. snd rp + length body \<le> length (fst rp) \<longrightarrow>
        quote_loop encoding q as_ident str s' s rp = Some (stored rp body))"

lemma quotes_to_loop:
  "quotes_to encoding q as_ident str s s' nq nb body \<Longrightarrow> snd rp + length body \<le> length (fst rp) \<Longrightarrow>
   quote_loop encoding q as_ident str s' s rp = Some (stored rp body)"
  unfolding quotes_to_def by blast

lemma quotes_to_end: "quotes_to encoding q as_ident str s s 0 0 []"
  by (auto simp: quotes_to_def quote_loop.simps stored_def)

lemma drop_take_step: "s < length str \<Longrightarrow> s < s' \<Longrightarrow> take (s' - s) (drop s str) = str ! s # take (s' - Suc s) (drop (Suc s) str)"
  by (metis Cons_nth_drop_Suc Suc_diff_Suc take_Suc_Cons)

lemma quotes_to_special:
  assumes "quotes_to encoding q as_ident str (Suc s) s' nq nb body" "s < length str" "s < s'"
    and "str ! s = q \<and> nq' = Suc nq \<and> nb' = nb \<or> \<not> as_ident \<and> str ! s = 0x5C \<and> nq' = nq \<and> nb' = Suc nb"
  shows "quotes_to encoding q as_ident str s s' nq' nb' (str ! s # str ! s # body)"
proof -
  let ?c = "str ! s"
  note step = drop_take_step [OF assms(2,3)]
  have "quote_loop encoding q as_ident str s' s rp = Some (stored rp (?c # ?c # body))"
    if "snd rp + Suc (Suc (length body)) \<le> length (fst rp)" for rp
  proof -
    have "put_at ?c rp = Some (stored rp [?c])" using that by (intro put_at_stored) simp
    moreover have "put_at ?c (stored rp [?c]) = Some (stored rp [?c, ?c])"
      using that put_at_stored [of "stored rp [?c]"] stored_size [of rp "[?c]"] stored_stored [of rp "[?c]" "[?c]"] by simp
    moreover have "stored (stored rp [?c, ?c]) body = stored rp (?c # ?c # body)"
      using that stored_stored [of rp "[?c, ?c]" body] by simp
    moreover have "quote_loop encoding q as_ident str s' (Suc s) (stored rp [?c, ?c]) = Some (stored (stored rp [?c, ?c]) body)"
      using that stored_size [of rp "[?c, ?c]"] by (intro quotes_to_loop [OF assms(1)]) simp
    ultimately show ?thesis
      using assms(2-4) by (subst quote_loop.simps) (auto simp: mem_simps)
  qed
  then show ?thesis
    using assms step unfolding quotes_to_def by (auto simp: read_doubled)
qed

lemma quotes_to_plain:
  assumes "quotes_to encoding q as_ident str (Suc s) s' nq nb body" "s < length str" "s < s'"
    and "\<not> IS_HIGHBIT_SET (str ! s)" "str ! s \<noteq> q" "str ! s \<noteq> 0x5C \<or> as_ident"
    and "nb' = (if str ! s = 0x5C then Suc nb else nb)"
  shows "quotes_to encoding q as_ident str s s' nq nb' (str ! s # body)"
proof -
  let ?c = "str ! s"
  note step = drop_take_step [OF assms(2,3)]
  have "quote_loop encoding q as_ident str s' s rp = Some (stored rp (?c # body))"
    if "snd rp + Suc (length body) \<le> length (fst rp)" for rp
  proof -
    have "put_at ?c rp = Some (stored rp [?c])" using that by (intro put_at_stored) simp
    moreover have "stored (stored rp [?c]) body = stored rp (?c # body)"
      using that stored_stored [of rp "[?c]" body] by simp
    moreover have "quote_loop encoding q as_ident str s' (Suc s) (stored rp [?c]) = Some (stored (stored rp [?c]) body)"
      using that stored_size [of rp "[?c]"] by (intro quotes_to_loop [OF assms(1)]) simp
    ultimately show ?thesis
      using assms(2-6) by (subst quote_loop.simps) (auto simp: mem_simps)
  qed
  then show ?thesis
    using assms step unfolding quotes_to_def by (auto simp: read_plain)
qed

lemma quotes_to_char:
  assumes "quotes_to encoding q as_ident str (s + nat l) s' nq nb body" "s + 2 \<le> length str" "s + nat l \<le> s'"
    and "IS_HIGHBIT_SET (str ! s)" "q \<in> {0x27, 0x22}" "pg_encoding_mblen encoding (drop s str) = Some l"
    and "s + nat l \<le> length str" "0 < l"
  shows "quotes_to encoding q as_ident str s s' nq nb (take (nat l) (drop s str) @ body)"
proof -
  let ?cs = "take (nat l) (drop s str)"
  have len: "length ?cs = nat l" using assms(7) by simp
  have ss': "s < s'" using assms(3,8) by linarith
  have split: "take (s' - s) (drop s str) = ?cs @ take (s' - (s + nat l)) (drop (s + nat l) str)"
    using assms(3) take_add [of "nat l" "s' - (s + nat l)" "drop s str"] by (simp add: add.commute)
  have special: "str ! s \<noteq> q" "str ! s \<noteq> 0x5C" using not_high_special [OF assms(4)] assms(5) by auto
  have "quote_loop encoding q as_ident str s' s rp = Some (stored rp (?cs @ body))"
    if "snd rp + length (?cs @ body) \<le> length (fst rp)" for rp
  proof -
    have "copy_at ?cs rp = Some (stored rp ?cs)" using that by (intro copy_at_stored) simp
    moreover have "stored (stored rp ?cs) body = stored rp (?cs @ body)"
      using that by (intro stored_stored) simp
    moreover have "rd_bytes str s (nat l) = Some ?cs" using assms(7) by (simp add: mem_simps)
    moreover have "quote_loop encoding q as_ident str s' (s + nat l) (stored rp ?cs) = Some (stored (stored rp ?cs) body)"
      using that stored_size [of rp ?cs] by (intro quotes_to_loop [OF assms(1)]) simp
    ultimately show ?thesis
      using assms(2-8) special ss' by (subst quote_loop.simps) (simp add: mem_simps)
  qed
  moreover have "read_quoted (pg_encoding_mblen encoding) q bs (?cs @ body) =
      prepend ?cs (read_quoted (pg_encoding_mblen encoding) q bs body)" for bs
    using assms len by (intro enc.read_char [of encoding "drop s str" l]) auto
  ultimately show ?thesis
    using assms(1,3,7,8) split len unfolding quotes_to_def by auto
qed


lemma memchr_None:
  "n \<le> length s \<Longrightarrow> c_memchr s c n = Some None \<Longrightarrow> c \<notin> set (take n s)"
proof (induction s c n rule: c_memchr.induct)
  case (3 b s c n)
  then show ?case by (cases "b = c") (auto simp: bind_Some_iff)
qed auto

lemma scan_loop_spec:
  assumes "len < length str" "q \<in> {0x27, 0x22}"
  shows "s \<le> len \<Longrightarrow>
    (scan_loop encoding q str len s nq nb = Some (Inl ()) \<and> (\<exists>k < len. IS_HIGHBIT_SET (str ! k))) \<or>
    (\<exists>dq db s'. scan_loop encoding q str len s nq nb = Some (Inr (nq + dq, nb + db, s')) \<and>
       s \<le> s' \<and> s' \<le> len \<and> dq + db \<le> s' - s \<and> 0 \<notin> set (take (s' - s) (drop s str)) \<and> (s' = len \<or> str ! s' = 0) \<and>
       (\<forall>as_ident. \<exists>body. quotes_to encoding q as_ident str s s' dq db body))"
proof (induction "len - s" arbitrary: s nq nb rule: less_induct)
  case less
  let ?c = "str ! s"
  have rd: "s < len \<Longrightarrow> rd str s = Some ?c" using assms(1) by (simp add: mem_simps)
  consider "s = len \<or> ?c = 0" | "s < len" "?c \<noteq> 0" "\<not> IS_HIGHBIT_SET ?c" | "s < len" "IS_HIGHBIT_SET ?c"
    using less.prems by fastforce
  then show ?case
  proof cases
    case 1
    then have "scan_loop encoding q str len s nq nb = Some (Inr (nq + 0, nb + 0, s))"
      using rd by (subst scan_loop.simps) auto
    moreover have "\<forall>as_ident. \<exists>body. quotes_to encoding q as_ident str s s 0 0 body"
      using quotes_to_end by blast
    ultimately show ?thesis
      by - (rule disjI2, rule exI [of _ 0], rule exI [of _ 0], rule exI [of _ s], use 1 less.prems in simp)
  next
    case 2
    let ?dq = "if ?c = q then 1 else 0" and ?db = "if ?c \<noteq> q \<and> ?c = 0x5C then 1 else 0"
    have step: "scan_loop encoding q str len s nq nb = scan_loop encoding q str len (Suc s) (nq + ?dq) (nb + ?db)"
      using 2 rd by (subst scan_loop.simps) auto
    have "len - Suc s < len - s" "Suc s \<le> len" using 2 by auto
    from less.hyps [OF this, of "nq + ?dq" "nb + ?db"] consider
        "scan_loop encoding q str len (Suc s) (nq + ?dq) (nb + ?db) = Some (Inl ())" "\<exists>k < len. IS_HIGHBIT_SET (str ! k)"
      | (go) dq db s' where "scan_loop encoding q str len (Suc s) (nq + ?dq) (nb + ?db) = Some (Inr (nq + ?dq + dq, nb + ?db + db, s'))"
        "Suc s \<le> s'" "s' \<le> len" "dq + db \<le> s' - Suc s" "0 \<notin> set (take (s' - Suc s) (drop (Suc s) str))"
        "s' = len \<or> str ! s' = 0" "\<forall>as_ident. \<exists>body. quotes_to encoding q as_ident str (Suc s) s' dq db body"
      by blast
    then show ?thesis
    proof cases
      case 1
      then show ?thesis using step by simp
    next
      case h: (go dq db s')
      have lt: "s < length str" "s < s'" using 2 assms(1) h(2) by auto
      have "\<exists>body. quotes_to encoding q as_ident str s s' (?dq + dq) (?db + db) body" for as_ident
      proof -
        obtain body where b: "quotes_to encoding q as_ident str (Suc s) s' dq db body" using h(7) by blast
        show ?thesis
        proof (cases "?c = q \<or> (\<not> as_ident \<and> ?c = 0x5C)")
          case True
          then show ?thesis using quotes_to_special [OF b lt, of "?dq + dq" "?db + db"] by auto
        next
          case False
          then show ?thesis using quotes_to_plain [OF b lt 2(3), of "?db + db"] by auto
        qed
      qed
      then have bodies: "\<forall>as_ident. \<exists>body. quotes_to encoding q as_ident str s s' (?dq + dq) (?db + db) body" ..
      have nz: "0 \<notin> set (take (s' - s) (drop s str))"
        using h(5) 2 drop_take_step [OF lt] by simp
      have cnt: "(?dq + dq) + (?db + db) \<le> s' - s" using h(2,4) by auto
      have scan: "scan_loop encoding q str len s nq nb = Some (Inr (nq + (?dq + dq), nb + (?db + db), s'))"
        using step h(1) by (simp only: add.assoc)
      have le: "s \<le> s'" using h(2) by simp
      show ?thesis
        by (rule disjI2, rule exI [of _ "?dq + dq"], rule exI [of _ "?db + db"], rule exI [of _ s'])
           (intro conjI scan le h(3) cnt nz h(6) bodies)
    qed
  next
    case 3
    have special: "?c \<noteq> q" "?c \<noteq> 0x5C" "?c \<noteq> 0"
      using not_high_special [OF 3(2)] assms(2) 3(2) by (auto simp: IS_HIGHBIT_SET_def)
    obtain b r where "drop s str = ?c # b # r"
      using 3(1) assms(1) by (metis Cons_nth_drop_Suc Suc_lessI le_less_trans less_imp_le_nat linorder_not_le drop_all)
    then obtain l where l: "pg_encoding_mblen encoding (drop s str) = Some l" "0 < l"
      using enc.ml_total [of encoding ?c b r] by auto
    have two: "s + 2 \<le> length str" using 3(1) assms(1) by linarith
    show ?thesis
    proof (cases "s + nat l > len")
      case True
      then have "scan_loop encoding q str len s nq nb = Some (Inl ())"
        using 3 rd special l by (subst scan_loop.simps) simp
      then show ?thesis using 3 by blast
    next
      case False
      have fits: "nat l \<le> length (drop s str)" using False assms(1) by simp
      obtain z where z: "c_memchr (drop s str) 0 (nat l) = Some z" "z = None \<longrightarrow> 0 \<notin> set (take (nat l) (drop s str))"
        using memchr_None [OF fits] memchr_total [OF fits, of 0] by blast
      show ?thesis
      proof (cases z)
        case (Some p)
        then have "scan_loop encoding q str len s nq nb = Some (Inl ())"
          using 3 rd special l z(1) False by (subst scan_loop.simps) simp
        then show ?thesis using 3 by blast
      next
        case None
        have step: "scan_loop encoding q str len s nq nb = scan_loop encoding q str len (s + nat l) nq nb"
          using 3 rd special l z(1) False None by (subst scan_loop.simps) simp
        have "len - (s + nat l) < len - s" "s + nat l \<le> len" using 3 l(2) False by auto
        from less.hyps [OF this, of nq nb] consider
            "scan_loop encoding q str len (s + nat l) nq nb = Some (Inl ())" "\<exists>k < len. IS_HIGHBIT_SET (str ! k)"
          | (go) dq db s' where "scan_loop encoding q str len (s + nat l) nq nb = Some (Inr (nq + dq, nb + db, s'))"
            "s + nat l \<le> s'" "s' \<le> len" "dq + db \<le> s' - (s + nat l)" "0 \<notin> set (take (s' - (s + nat l)) (drop (s + nat l) str))"
            "s' = len \<or> str ! s' = 0" "\<forall>as_ident. \<exists>body. quotes_to encoding q as_ident str (s + nat l) s' dq db body"
          by blast
        then show ?thesis
        proof cases
          case 1
          then show ?thesis using step by simp
        next
          case h: (go dq db s')
          have split: "take (s' - s) (drop s str) = take (nat l) (drop s str) @ take (s' - (s + nat l)) (drop (s + nat l) str)"
            using h(2) take_add [of "nat l" "s' - (s + nat l)" "drop s str"] by (simp add: add.commute)
          have nz: "0 \<notin> set (take (s' - s) (drop s str))" using split h(5) z(2) None by simp
          have fit: "s + nat l \<le> length str" using False assms(1) by linarith
          have bodies: "\<forall>as_ident. \<exists>body. quotes_to encoding q as_ident str s s' dq db body"
            using h(7) quotes_to_char [OF _ two h(2) 3(2) assms(2) l(1) fit l(2)] by blast
          have le: "s \<le> s'" "dq + db \<le> s' - s" using h(2,4) by auto
          have scan: "scan_loop encoding q str len s nq nb = Some (Inr (nq + dq, nb + db, s'))" using step h(1) by simp
          show ?thesis
            by (rule disjI2, rule exI [of _ dq], rule exI [of _ db], rule exI [of _ s'])
               (intro conjI scan le h(3) nz h(6) bodies)
        qed
      qed
    qed
  qed
qed


lemma scan_prefix:
  assumes "s' \<le> len" "len \<le> length str" "0 \<notin> set (take s' str)" "s' = len \<or> str ! s' = 0"
  shows "take s' str = takeWhile (\<lambda>c. c \<noteq> 0) (take len str)"
proof (cases "s' = len")
  case True
  then have "takeWhile (\<lambda>c. c \<noteq> 0) (take len str) = take len str"
    using assms(3) by (auto simp: takeWhile_eq_all_conv)
  then show ?thesis unfolding True by (rule sym)
next
  case False
  then have "s' < length (take len str)" "take len str ! s' = 0" using assms by auto
  then have "take len str = take s' str @ 0 # drop (Suc s') (take len str)"
    using assms(1) id_take_nth_drop [of s' "take len str"] by (simp add: min_absorb1)
  moreover have "takeWhile (\<lambda>c. c \<noteq> 0) (take s' str @ 0 # drop (Suc s') (take len str)) = take s' str"
    using assms(3) by (subst takeWhile_pre) auto
  ultimately show ?thesis by metis
qed

text \<open>The buffer of the exact size computed from the counts is filled exactly.\<close>

lemma escape_fill:
  assumes "length r = length pre + 1 + length body + 2"
    and "\<And>rp. snd rp + length body \<le> length (fst rp) \<Longrightarrow> middle rp = Some (stored rp body)"
  shows "do { rp \<leftarrow> put_at q (stored (r, 0) pre); rp \<leftarrow> middle rp; rp \<leftarrow> put_at q rp; wr (fst rp) (snd rp) 0 } =
    Some (pre @ q # body @ [q, 0])"
proof -
  let ?r0 = "(r, 0 :: nat)"
  have "put_at q (stored ?r0 pre) = Some (stored ?r0 (pre @ [q]))"
    using assms(1) put_at_stored [of "stored ?r0 pre" q] stored_size [of ?r0 pre] stored_stored [of ?r0 pre "[q]"] by simp
  moreover have "middle (stored ?r0 (pre @ [q])) = Some (stored ?r0 (pre @ q # body))"
    using assms stored_size [of ?r0 "pre @ [q]"] stored_stored [of ?r0 "pre @ [q]" body] by simp
  moreover have "put_at q (stored ?r0 (pre @ q # body)) = Some (stored ?r0 (pre @ q # body @ [q]))"
    using assms(1) put_at_stored [of "stored ?r0 (pre @ q # body)" q] stored_size [of ?r0 "pre @ q # body"]
      stored_stored [of ?r0 "pre @ q # body" "[q]"] by simp
  moreover have "wr (fst (stored ?r0 (pre @ q # body @ [q]))) (snd (stored ?r0 (pre @ q # body @ [q]))) 0 =
      Some (pre @ q # body @ [q, 0])"
  proof -
    let ?n = "length pre + length body + 2"
    have "length (drop ?n r) = 1" using assms(1) by simp
    then obtain x where x: "drop ?n r = [x]" by (metis length_Suc_conv length_0_conv One_nat_def)
    have "stored ?r0 (pre @ q # body @ [q]) = (pre @ q # body @ [q] @ [x], ?n)"
      using x by (simp add: stored_def)
    moreover have "wr (pre @ q # body @ [q] @ [x]) ?n 0 = Some (pre @ q # body @ [q, 0])"
      by (simp add: wr_def list_update_append)
    ultimately show ?thesis by simp
  qed
  ultimately show ?thesis by simp
qed


lemma printf_error_total:
  assumes "valid_expbuf (errorMessage cn)" "length txt < 2 ^ 31"
  shows "\<exists>cn'. printf_error cn txt = Some cn' \<and> valid_expbuf (errorMessage cn')"
  using printfPQExpBuffer_spec [OF assms, of "e_alloc (env cn)"] by (auto simp: printf_error_def set_alloc_def)

text \<open>\<open>escape_result\<close>: what a successful call of \<open>PQescapeInternal\<close> leaves in the new block.\<close>

definition escape_result :: "int \<Rightarrow> bool \<Rightarrow> byte list \<Rightarrow> byte list \<Rightarrow> bool" where
  "escape_result encoding as_ident content b \<longleftrightarrow>
     (let q = (if as_ident then 0x22 else 0x27); ml = pg_encoding_mblen encoding in
      \<exists>body.
        (b = [q] @ body @ [q, 0] \<and> (\<forall>bs. (bs \<longrightarrow> \<not> as_ident) \<longrightarrow> read_quoted ml q bs body = Content content)) \<or>
        (\<not> as_ident \<and> b = [0x20, 0x45, q] @ body @ [q, 0] \<and> read_quoted ml q True body = Content content))"

lemma PQescapeInternal_spec:
  assumes "valid_expbuf (errorMessage cn)" "len < length str" "2 * len + 5 < 2 ^ 31"
  shows "\<exists>r cn'. PQescapeInternal (Some cn) str len as_ident = Some (r, Some cn') \<and>
    (case r of
       None \<Rightarrow> \<not> next_ok (e_alloc (env cn)) \<or> (\<exists>k < len. IS_HIGHBIT_SET (str ! k))
     | Some b \<Rightarrow> escape_result (client_encoding cn) as_ident (takeWhile (\<lambda>c. c \<noteq> 0) (take len str)) b)"
proof -
  define q :: byte where "q = (if as_ident then 0x22 else 0x27)"
  have q: "q \<in> {0x27, 0x22}" by (simp add: q_def)
  let ?enc = "client_encoding cn"
  let ?al = "e_alloc (env cn)"
  have valid: "valid_expbuf (errorMessage (set_alloc a cn))" for a using assms(1) by (simp add: set_alloc_def)
  from scan_loop_spec [OF assms(2) q, of 0 ?enc 0 0] consider
      (bad) "scan_loop ?enc q str len 0 0 0 = Some (Inl ())" "\<exists>k < len. IS_HIGHBIT_SET (str ! k)"
    | (good) nq nb s' body where "scan_loop ?enc q str len 0 0 0 = Some (Inr (nq, nb, s'))" "s' \<le> len" "nq + nb \<le> s'"
        "0 \<notin> set (take s' str)" "s' = len \<or> str ! s' = 0" "quotes_to ?enc q as_ident str 0 s' nq nb body"
    by (simp, blast)
  then show ?thesis
  proof cases
    case bad
    obtain cn' where "printf_error cn (lit ''incomplete multibyte character'' @ [0x0A]) = Some cn'"
      using printf_error_total [OF assms(1), of "lit ''incomplete multibyte character'' @ [0x0A]"] by (auto simp: c_bytes_def)
    then show ?thesis using bad by (auto simp: PQescapeInternal_def q_def Let_def)
  next
    case good
    define E where "E \<longleftrightarrow> \<not> as_ident \<and> nb > 0"
    define pre :: "byte list" where "pre = (if E then [0x20, 0x45] else [])"
    define size where "size = s' + nq + 3 + (if E then nb + 2 else 0)"
    have sz: "nat (escaped_size as_ident s' nq nb mod 2 ^ 32) = size"
      using good(2,3) assms(3) by (auto simp: escaped_size_def E_def size_def c_arith)
    have body: "length body + length pre + 3 = size"
      using good(6) by (auto simp: quotes_to_def size_def pre_def E_def)
    show ?thesis
    proof (cases "next_ok ?al")
      case False
      then obtain cn' where "printf_error (set_alloc (after_alloc ?al) cn) (lit ''out of memory'' @ [0x0A]) = Some cn'"
        using printf_error_total [OF valid, of "lit ''out of memory'' @ [0x0A]"] by (auto simp: c_bytes_def)
      then show ?thesis using good(1) False
        unfolding PQescapeInternal_def option.case q_def [symmetric] Let_def
        by (simp add: c_malloc_def split: prod.splits)
    next
      case True
      let ?r = "replicate size (junk ?al)"
      define middle where "middle rp = (if nq = 0 \<and> (nb = 0 \<or> as_ident)
          then do { bs \<leftarrow> rd_bytes str 0 s'; copy_at bs rp }
          else quote_loop ?enc q as_ident str s' 0 rp)" for rp
      have mid: "middle rp = Some (stored rp body)" if "snd rp + length body \<le> length (fst rp)" for rp
      proof (cases "nq = 0 \<and> (nb = 0 \<or> as_ident)")
        case True
        then have "body = take s' str" using good(6) by (auto simp: quotes_to_def)
        then show ?thesis
          using True that copy_at_stored [of rp body] good(2) assms(2) by (simp add: middle_def mem_simps)
      next
        case False
        then show ?thesis using quotes_to_loop [OF good(6) that] unfolding middle_def by (simp only: if_False)
      qed
      have prefix: "(if E then do { rp \<leftarrow> put_at 0x20 (?r, 0); put_at 0x45 rp } else Some (?r, 0)) = Some (stored (?r, 0) pre)"
      proof (cases E)
        case True
        then have "2 \<le> size" by (simp add: size_def)
        then show ?thesis
          using True put_at_stored [of "(?r, 0)" "0x20"] put_at_stored [of "stored (?r, 0) [0x20]" "0x45"]
            stored_size [of "(?r, 0)" "[0x20]"] stored_stored [of "(?r, 0)" "[0x20]" "[0x45]"]
          by (simp add: pre_def)
      qed (simp add: pre_def stored_def)
      have fill: "do { rp \<leftarrow> put_at q (stored (?r, 0) pre); rp \<leftarrow> middle rp; rp \<leftarrow> put_at q rp; wr (fst rp) (snd rp) 0 } =
          Some (pre @ q # body @ [q, 0])"
        using body by (intro escape_fill mid) auto
      have "fill_escaped ?enc q as_ident str s' nq nb ?r = Some (pre @ q # body @ [q, 0])"
        unfolding fill_escaped_def using prefix fill by (simp add: E_def middle_def)
      then have run: "PQescapeInternal (Some cn) str len as_ident =
          Some (Some (pre @ q # body @ [q, 0]), Some (set_alloc (after_alloc ?al) cn))"
        using good(1) True unfolding PQescapeInternal_def option.case q_def [symmetric] Let_def
        by (simp add: c_malloc_def sz [simplified] set_alloc_def)
      have content: "take s' str = takeWhile (\<lambda>c. c \<noteq> 0) (take len str)"
        using scan_prefix [OF good(2) _ good(4,5)] assms(2) by simp
      have "escape_result ?enc as_ident (takeWhile (\<lambda>c. c \<noteq> 0) (take len str)) (pre @ q # body @ [q, 0])"
        using good(6) unfolding escape_result_def Let_def q_def [symmetric] content [symmetric]
        by (intro exI [of _ body]) (auto simp: pre_def E_def quotes_to_def)
      then show ?thesis using run by simp
    qed
  qed
qed



section \<open>Properties\<close>


definition example_conn :: pg_conn where
  "example_conn = \<lparr>
     pguser = None, pgpass = None, dbName = None, replication = None, pgoptions = None, appname = None, fbappname = None,
     client_encoding_initial = None, send_appname = False, noticeRec = True, status = CONNECTION_OK,
     asyncStatus = PGASYNC_IDLE, xactStatus = PQTRANS_IDLE, queryclass = PGQUERY_SIMPLE, last_query = None,
     last_sqlstate = [], nonblocking = False, copy_is_binary = 0, copy_already_done = 0, notifies = [], sock = 3,
     pversion = 0x30000, sversion = 90101, be_pid = 0, be_key = 0, password_needed = False, md5Salt = [0, 0, 0, 0], lobjfuncs = None, pstatus = [], client_encoding = PG_UTF8,
     std_strings = True, verbosity = PQERRORS_DEFAULT, inBuffer = replicate 16384 0, inBufSize = 16384, inStart = 0,
     inCursor = 0, inEnd = 0, outBuffer = replicate 16384 0, outBufSize = 16384, outCount = 0, outMsgStart = 0,
     outMsgEnd = 0, result = None, curTuple = None,
     errorMessage = \<lparr>eb_data = Some (replicate 256 0), eb_len = 0, eb_maxlen = 256\<rparr>,
     workBuffer = \<lparr>eb_data = Some (replicate 256 0), eb_len = 0, eb_maxlen = 256\<rparr>,
     env = \<lparr>e_alloc = \<lparr>oks = [], junk = 0\<rparr>, e_recv = [], e_send = [], e_poll = [], e_sent = [], e_polled = [], e_now = 0,
       e_strerror = (\<lambda>e. []), e_notices = [],
       e_errno = None, e_ctype = C_locale, static_client_encoding = PG_SQL_ASCII, static_std_strings = False\<rparr>\<rparr>"

lemma example_conn_valid: "valid_expbuf (errorMessage example_conn)" "valid_expbuf (workBuffer example_conn)"
  by (simp_all add: example_conn_def valid_expbuf_def SZ_INT_MAX_def)




end
