(* ===== verification/Bytea.thy ===== *)
theory Bytea
  imports Escape
begin

text \<open>
  The text forms of \<open>bytea\<close>, \<open>src/interfaces/libpq/fe-exec.c\<close>: \<open>PQescapeByteaConn\<close>,
  \<open>PQescapeBytea\<close> and \<open>PQunescapeBytea\<close>.

  A block under construction is its bytes with the write offset; \<open>emit\<close> stores the next bytes and is
  \<open>None\<close> outside the block, so a definition that is \<open>Some\<close> never leaves the block it allocated.
  The lemmas show that the size computed first is exactly the size filled, as long as it does not
  wrap around at 32 bits, what happens when it does, and that unescaping inverts escaping.
\<close>

section \<open>Hexadecimal digits\<close>

definition hextbl :: string where
  "hextbl = ''0123456789abcdef''"

definition hexlookup :: "int list" where
  "hexlookup = [
    -1, -1, -1, -1, -1, -1, -1, -1, -1, -1, -1, -1, -1, -1, -1, -1,
    -1, -1, -1, -1, -1, -1, -1, -1, -1, -1, -1, -1, -1, -1, -1, -1,
    -1, -1, -1, -1, -1, -1, -1, -1, -1, -1, -1, -1, -1, -1, -1, -1,
    0, 1, 2, 3, 4, 5, 6, 7, 8, 9, -1, -1, -1, -1, -1, -1,
    -1, 10, 11, 12, 13, 14, 15, -1, -1, -1, -1, -1, -1, -1, -1, -1,
    -1, -1, -1, -1, -1, -1, -1, -1, -1, -1, -1, -1, -1, -1, -1, -1,
    -1, 10, 11, 12, 13, 14, 15, -1, -1, -1, -1, -1, -1, -1, -1, -1,
    -1, -1, -1, -1, -1, -1, -1, -1, -1, -1, -1, -1, -1, -1, -1, -1]"

text \<open>\<open>char\<close> is signed: a byte with the high bit is negative and not looked up.\<close>

definition get_hex :: "byte \<Rightarrow> int" where
  "get_hex c = (if sint c > 0 \<and> sint c < 127 then hexlookup ! unat c else - 1)"

definition hexdigit :: "byte \<Rightarrow> byte" where
  "hexdigit v = of_char (hextbl ! unat v)"


section \<open>Escaping\<close>

text \<open>The bytes one input byte needs in escape format, the counting loop and the sizes.\<close>

fun bytea_len :: "nat \<Rightarrow> byte list \<Rightarrow> nat \<Rightarrow> nat" where
  "bytea_len bslash_len [] len = len"
| "bytea_len bslash_len (c # vp) len =
     bytea_len bslash_len vp
       (if c < 0x20 \<or> c > 0x7e then szadd len (bslash_len + 3)
        else if c = 0x27 then szadd len 2
        else if c = 0x5C then szadd len (bslash_len + bslash_len)
        else szadd len 1)"

definition bytea_size :: "byte list \<Rightarrow> bool \<Rightarrow> bool \<Rightarrow> nat" where
  "bytea_size from std use_hex =
     (let bslash_len = (if std then 1 else 2) in
      if use_hex then szadd 1 (szadd (szadd bslash_len 1) (szmul 2 (length from)))
      else bytea_len bslash_len from 1)"

text \<open>What one input byte becomes.\<close>

definition bytea_out :: "bool \<Rightarrow> bool \<Rightarrow> byte \<Rightarrow> byte list" where
  "bytea_out std use_hex c =
     (if use_hex then [hexdigit (drop_bit 4 c AND 0xF), hexdigit (c AND 0xF)]
      else if c < 0x20 \<or> c > 0x7e then
        (if std then [] else [0x5C]) @
        [0x5C, drop_bit 6 c + 0x30, (drop_bit 3 c AND 7) + 0x30, (c AND 7) + 0x30]
      else if c = 0x27 then [0x27, 0x27]
      else if c = 0x5C then (if std then [] else [0x5C, 0x5C]) @ [0x5C, 0x5C]
      else [c])"

text \<open>\<open>*rp++ = \<dots>\<close> for some bytes.\<close>

definition emit :: "byte list \<Rightarrow> byte list \<times> nat \<Rightarrow> (byte list \<times> nat) option" where
  "emit bs r = do { b \<leftarrow> wr_bytes (fst r) (snd r) bs; Some (b, snd r + length bs) }"

fun bytea_fill :: "bool \<Rightarrow> bool \<Rightarrow> byte list \<Rightarrow> byte list \<times> nat \<Rightarrow> (byte list \<times> nat) option" where
  "bytea_fill std use_hex [] rp = Some rp"
| "bytea_fill std use_hex (c # vp) rp = do {
     rp \<leftarrow> emit (bytea_out std use_hex c) rp;
     bytea_fill std use_hex vp rp
   }"

text \<open>The part after the allocation: fill the block \<open>r\<close>.\<close>

definition bytea_write :: "bool \<Rightarrow> bool \<Rightarrow> byte list \<Rightarrow> byte list \<Rightarrow> byte list option" where
  "bytea_write std use_hex from r = do {
     rp \<leftarrow> (if use_hex then emit ((if std then [] else [0x5C]) @ [0x5C, 0x78]) (r, 0) else Some (r, 0));
     rp \<leftarrow> bytea_fill std use_hex from rp;
     wr (fst rp) (snd rp) 0
   }"

text \<open>The result: the block or \<open>NULL\<close>, the value of \<open>*to_length\<close>, and the connection.\<close>

definition PQescapeByteaInternal ::
  "pg_conn option \<Rightarrow> alloc \<Rightarrow> byte list \<Rightarrow> bool \<Rightarrow> bool \<Rightarrow> (byte list option \<times> nat \<times> pg_conn option \<times> alloc) option" where
  "PQescapeByteaInternal conn a from std use_hex = do {
     let len = bytea_size from std use_hex;
     let (m, a) = c_malloc a len;
     case m of
       None \<Rightarrow> (case conn of
           Some cn \<Rightarrow> do {
             cn \<leftarrow> printf_error (set_alloc a cn) (lit ''out of memory'' @ [0x0A]);
             Some (None, len, Some cn, e_alloc (env cn))
           }
         | None \<Rightarrow> Some (None, len, None, a))
     | Some r \<Rightarrow> do {
         b \<leftarrow> bytea_write std use_hex from r;
         Some (Some b, len, map_option (set_alloc a) conn, a)
       }
   }"

definition PQescapeByteaConn ::
  "pg_conn option \<Rightarrow> byte list \<Rightarrow> (byte list option \<times> nat option \<times> pg_conn option) option" where
  "PQescapeByteaConn conn from =
     (case conn of
        None \<Rightarrow> Some (None, None, None)
      | Some cn \<Rightarrow> do {
          (b, len, conn, a) \<leftarrow> PQescapeByteaInternal conn (e_alloc (env cn)) from (std_strings cn) (sversion cn \<ge> 90000);
          Some (b, Some len, conn)
        })"

definition PQescapeBytea :: "env \<Rightarrow> byte list \<Rightarrow> (byte list option \<times> nat \<times> env) option" where
  "PQescapeBytea en from = do {
     (b, len, conn, a) \<leftarrow> PQescapeByteaInternal None (e_alloc en) from (static_std_strings en) False;
     Some (b, len, en\<lparr>e_alloc := a\<rparr>)
   }"


section \<open>Unescaping\<close>

definition ISFIRSTOCTDIGIT :: "byte \<Rightarrow> bool" where
  "ISFIRSTOCTDIGIT ch \<longleftrightarrow> ch \<ge> 0x30 \<and> ch \<le> 0x33"

definition ISOCTDIGIT :: "byte \<Rightarrow> bool" where
  "ISOCTDIGIT ch \<longleftrightarrow> ch \<ge> 0x30 \<and> ch \<le> 0x37"

definition OCTVAL :: "byte \<Rightarrow> int" where
  "OCTVAL ch = int (unat ch) - 0x30"

text \<open>
  The hex loop \<open>while (*s)\<close>. The source holds the bytes from \<open>s\<close> to the end of the object, its
  terminator included.
\<close>

fun unhex_loop :: "byte list \<Rightarrow> byte list \<times> nat \<Rightarrow> (byte list \<times> nat) option" where
  "unhex_loop [] p = None"
| "unhex_loop [c] p = (if c = 0 then Some p else None)"
| "unhex_loop (c # d # s) p =
     (if c = 0 then Some p
      else if d = 0 \<or> get_hex c = - 1 then unhex_loop (d # s) p
      else if get_hex d \<noteq> - 1 then do {
        p \<leftarrow> emit [of_int (16 * get_hex c + get_hex d)] p;
        unhex_loop s p
      }
      else unhex_loop s p)"

text \<open>The escape loop, \<open>i\<close> running to \<open>strtextlen\<close>; \<open>strtext[i]\<close> is read where the code reads it.\<close>

partial_function (option) unescape_loop ::
  "byte list \<Rightarrow> nat \<Rightarrow> nat \<Rightarrow> byte list \<times> nat \<Rightarrow> (byte list \<times> nat) option" where
  "unescape_loop strtext strtextlen i buf =
     (if i < strtextlen then
        Option.bind (rd strtext i) (\<lambda>c.
          if c = 0x5C then
            Option.bind (rd strtext (i + 1)) (\<lambda>c1.
              if c1 = 0x5C then
                Option.bind (emit [c1] buf) (\<lambda>buf. unescape_loop strtext strtextlen (i + 2) buf)
              else if ISFIRSTOCTDIGIT c1 then
                Option.bind (rd strtext (i + 2)) (\<lambda>c2.
                  if ISOCTDIGIT c2 then
                    Option.bind (rd strtext (i + 3)) (\<lambda>c3.
                      if ISOCTDIGIT c3 then
                        Option.bind (emit [of_int ((OCTVAL c1 * 8 + OCTVAL c2) * 8 + OCTVAL c3)] buf)
                          (\<lambda>buf. unescape_loop strtext strtextlen (i + 4) buf)
                      else unescape_loop strtext strtextlen (i + 1) buf)
                  else unescape_loop strtext strtextlen (i + 1) buf)
              else unescape_loop strtext strtextlen (i + 1) buf)
          else Option.bind (emit [c] buf) (\<lambda>buf. unescape_loop strtext strtextlen (i + 1) buf))
      else Some buf)"

text \<open>The result: the data (the buffer up to \<open>*retbuflen\<close>) or \<open>NULL\<close>. \<open>strtext\<close> may be \<open>NULL\<close>.\<close>

definition PQunescapeBytea :: "alloc \<Rightarrow> byte list option \<Rightarrow> (byte list option \<times> alloc) option" where
  "PQunescapeBytea a strtext =
     (case strtext of
        None \<Rightarrow> Some (None, a)
      | Some t \<Rightarrow> do {
          strtextlen \<leftarrow> c_strlen t;
          c0 \<leftarrow> rd t 0;
          c1 \<leftarrow> (if c0 = 0x5C then rd t 1 else Some 0);
          let hex = (c0 = 0x5C \<and> c1 = 0x78);
          let want = (if hex then max 1 (szsub strtextlen 2 div 2) else szadd strtextlen 1);
          case c_malloc a want of
            (None, a) \<Rightarrow> Some (None, a)
          | (Some buffer, a) \<Rightarrow> do {
              (buffer, buflen) \<leftarrow> (if hex then unhex_loop (drop 2 t) (buffer, 0)
                else unescape_loop t strtextlen 0 (buffer, 0));
              case c_realloc a buffer (buflen + 1) of
                (None, a) \<Rightarrow> Some (None, a)
              | (Some tmpbuf, a) \<Rightarrow> Some (Some (take buflen tmpbuf), a)
            }
        })"


section \<open>The size computed is the size filled\<close>

definition bytea_text :: "bool \<Rightarrow> bool \<Rightarrow> byte list \<Rightarrow> byte list" where
  "bytea_text std use_hex from =
     (if use_hex then (if std then [] else [0x5C]) @ [0x5C, 0x78] else []) @ concat (map (bytea_out std use_hex) from)"

lemma szadd_mod: "szadd (a mod 2 ^ 32) b = (a + b) mod 2 ^ 32" "szadd a (b mod 2 ^ 32) = (a + b) mod 2 ^ 32"
  by (simp_all add: szadd_def mod_simps)

lemma bytea_len_spec:
  "bytea_len (if std then 1 else 2) from (n mod 2 ^ 32) = (n + length (concat (map (bytea_out std False) from))) mod 2 ^ 32"
proof (induction "from" arbitrary: n)
  case (Cons c cs)
  have step: "(if c < 0x20 \<or> c > 0x7e then szadd (n mod 2 ^ 32) ((if std then 1 else 2) + 3)
      else if c = 0x27 then szadd (n mod 2 ^ 32) 2
      else if c = 0x5C then szadd (n mod 2 ^ 32) ((if std then 1 else 2) + (if std then 1 else 2))
      else szadd (n mod 2 ^ 32) 1) = (n + length (bytea_out std False c)) mod 2 ^ 32"
    by (auto simp only: szadd_mod bytea_out_def if_True if_False length_append list.size split: if_split) (simp_all add: add.commute)
  show ?case
    by (simp only: bytea_len.simps step Cons.IH [of "n + length (bytea_out std False c)"] list.map concat.simps length_append add.assoc)
qed simp

lemma hex_length: "length (concat (map (bytea_out std True) from)) = 2 * length from"
  by (induction "from") (auto simp: bytea_out_def)

lemma bytea_size_spec: "bytea_size from std use_hex = (1 + length (bytea_text std use_hex from)) mod 2 ^ 32"
proof (cases use_hex)
  case True
  have "bytea_size from std True = szadd 1 (szadd ((if std then 1 else 2) + 1) (2 * length from mod 2 ^ 32))"
    by (simp add: bytea_size_def szmul_def szadd_def)
  then show ?thesis using True by (auto simp: szadd_mod szadd_def bytea_text_def hex_length mod_simps)
next
  case False
  then show ?thesis
    using bytea_len_spec [of std "from" 1] by (simp add: bytea_size_def bytea_text_def)
qed

lemma emit_iff: "emit bs rp = (if snd rp + length bs \<le> length (fst rp) then Some (stored rp bs) else None)"
  by (simp add: emit_def stored_def wr_bytes_def)

lemma bytea_fill_iff:
  "snd rp \<le> length (fst rp) \<Longrightarrow> bytea_fill std use_hex from rp =
    (let out = concat (map (bytea_out std use_hex) from) in
     if snd rp + length out \<le> length (fst rp) then Some (stored rp out) else None)"
proof (induction "from" arbitrary: rp)
  case Nil
  then show ?case by (simp add: stored_def)
next
  case (Cons c cs)
  let ?o = "bytea_out std use_hex c"
  show ?case
  proof (cases "snd rp + length ?o \<le> length (fst rp)")
    case True
    then have "snd (stored rp ?o) \<le> length (fst (stored rp ?o))" using stored_size [OF True] by simp
    from Cons.IH [OF this] show ?thesis
      using True stored_size [OF True] stored_stored [of rp ?o] by (auto simp: emit_iff Let_def add.assoc)
  next
    case False
    then show ?thesis by (simp add: emit_iff Let_def)
  qed
qed

lemma bytea_write_iff:
  "bytea_write std use_hex from r =
    (if length (bytea_text std use_hex from) < length r
     then Some (bytea_text std use_hex from @ 0 # drop (Suc (length (bytea_text std use_hex from))) r) else None)"
proof -
  let ?out = "bytea_text std use_hex from"
  let ?pre = "if use_hex then (if std then [] else [0x5C]) @ [0x5C, 0x78] else [] :: byte list"
  let ?body = "concat (map (bytea_out std use_hex) from)"
  let ?r = "(r, 0 :: nat)"
  have out: "?out = ?pre @ ?body" by (simp add: bytea_text_def)
  have pre: "(if use_hex then emit ((if std then [] else [0x5C]) @ [0x5C, 0x78]) ?r else Some ?r) =
      (if length ?pre \<le> length r then Some (stored ?r ?pre) else None)"
    by (auto simp: emit_iff stored_def)
  have fill: "(if length ?pre \<le> length r then Some (stored ?r ?pre) else None) \<bind> bytea_fill std use_hex from =
      (if length ?out \<le> length r then Some (stored ?r ?out) else None)"
  proof (cases "length ?pre \<le> length r")
    case True
    then show ?thesis
      using stored_size [of ?r ?pre] stored_stored [of ?r ?pre ?body] bytea_fill_iff [of "stored ?r ?pre" std use_hex "from"]
      unfolding out by (simp add: Let_def)
  qed (simp add: out)
  have "wr (fst (stored ?r ?out)) (snd (stored ?r ?out)) 0 =
      (if length ?out < length r then Some (?out @ 0 # drop (Suc (length ?out)) r) else None)" if "length ?out \<le> length r"
    using that by (auto simp: stored_def wr_def list_update_append Cons_nth_drop_Suc [symmetric])
  then show ?thesis
    unfolding bytea_write_def pre Option.bind_assoc [symmetric] fill by auto
qed

lemma PQescapeByteaInternal_alloc:
  assumes "next_ok a"
  shows "PQescapeByteaInternal conn a from std use_hex =
    (let out = bytea_text std use_hex from; a' = after_alloc a in
     if 1 + length out < 2 ^ 32 then Some (Some (out @ [0]), 1 + length out, map_option (set_alloc a') conn, a') else None)"
proof -
  let ?out = "bytea_text std use_hex from"
  let ?len = "(1 + length ?out) mod 2 ^ 32"
  have "bytea_write std use_hex from (replicate ?len (junk a)) =
      (if 1 + length ?out < 2 ^ 32 then Some (?out @ [0]) else None)"
  proof (cases "1 + length ?out < 2 ^ 32")
    case True
    then show ?thesis by (simp add: bytea_write_iff)
  next
    case False
    then have "\<not> length ?out < ?len"
      using mod_less_divisor [of "2 ^ 32" "1 + length ?out"] by (simp only: not_less) simp
    then show ?thesis using False by (simp add: bytea_write_iff)
  qed
  then show ?thesis
    using assms unfolding PQescapeByteaInternal_def Let_def bytea_size_spec c_malloc_def
    by (simp add: Let_def)
qed



section \<open>Unescaping stays in its buffer\<close>

lemma unhex_loop_total:
  "0 \<in> set s \<Longrightarrow> snd p + length (c_str s) div 2 \<le> length (fst p) \<Longrightarrow>
    \<exists>p'. unhex_loop s p = Some p' \<and> length (fst p') = length (fst p) \<and> snd p' \<le> snd p + length (c_str s) div 2"
proof (induction s p rule: unhex_loop.induct)
  case (3 c d s p)
  show ?case
  proof (cases "c = 0 \<or> d = 0 \<or> get_hex c = - 1")
    case True
    then show ?thesis
      using 3 by (cases "c = 0") (fastforce simp: c_str_Cons)+
  next
    case False
    then have zero: "0 \<in> set s" and len: "length (c_str (c # d # s)) div 2 = Suc (length (c_str s) div 2)"
      using "3.prems"(1) by (auto simp: c_str_Cons)
    show ?thesis
    proof (cases "get_hex d = - 1")
      case True
      then show ?thesis using 3(3) [OF _ _ _ zero] False zero len "3.prems"(2) by fastforce
    next
      case hex: False
      define v where "v = (of_int (16 * get_hex c + get_hex d) :: byte)"
      obtain p1 where p1: "emit [v] p = Some p1" "length (fst p1) = length (fst p)" "snd p1 = snd p + 1"
        using "3.prems"(2) len by (auto simp: emit_iff stored_def)
      have "\<exists>p'. unhex_loop s p1 = Some p' \<and> length (fst p') = length (fst p1) \<and>
          snd p' \<le> snd p1 + length (c_str s) div 2"
        by (rule "3.IH"(2)) (use False hex zero len "3.prems"(2) p1 v_def in auto)
      then show ?thesis using False hex p1 len v_def by auto
    qed
  qed
qed (auto simp: c_str_Cons)

lemma unescape_loop_total:
  assumes "c_strlen t = Some len" "i \<le> len" "n + (len - i) \<le> length b"
  shows "\<exists>b' n'. unescape_loop t len i (b, n) = Some (b', n') \<and> length b' = length b \<and> n' \<le> n + (len - i)"
  using assms(2,3)
proof (induction "len - i" arbitrary: i b n rule: less_induct)
  case less
  have len: "len < length t" "t ! len = 0"
    using c_strlen_Some [OF assms(1)] by auto
  have em: "emit [c] (b, n) = Some (b[n := c], n + 1)" if "n < length b" for c
    using that by (simp add: emit_def wr_bytes_def upd_conv_take_nth_drop)
  have go: "\<exists>b'' n''. unescape_loop t len j (b', n') = Some (b'', n'') \<and> length b'' = length b \<and> n'' \<le> n + (len - i)"
    if "i < j" "j \<le> len" "n' + (len - j) \<le> n + (len - i)" "length b' = length b" for j b' n'
  proof -
    have "len - j < len - i" "n' + (len - j) \<le> length b'" using that less.prems by auto
    from less.hyps [OF this(1) that(2) this(2)] show ?thesis using that by fastforce
  qed
  show ?case
  proof (cases "i < len")
    case False
    then show ?thesis by (subst unescape_loop.simps) simp
  next
    case True
    then have fit: "n < length b" using less.prems by simp
    have rd: "rd t k = Some (t ! k)" if "k \<le> len" for k using that len by (simp add: mem_simps)
    let ?c1 = "t ! (i + 1)" and ?c2 = "t ! (i + 2)" and ?c3 = "t ! (i + 3)"
    consider (plain) "t ! i \<noteq> 0x5C" | (bs) "t ! i = 0x5C" "?c1 = 0x5C"
      | (oct) "t ! i = 0x5C" "?c1 \<noteq> 0x5C" "ISFIRSTOCTDIGIT ?c1" "ISOCTDIGIT ?c2" "ISOCTDIGIT ?c3"
      | (skip) "t ! i = 0x5C" "?c1 \<noteq> 0x5C" "\<not> (ISFIRSTOCTDIGIT ?c1 \<and> ISOCTDIGIT ?c2 \<and> ISOCTDIGIT ?c3)"
      by blast
    then show ?thesis
    proof cases
      case plain
      then show ?thesis using True rd em [OF fit] go [of "i + 1" "n + 1" "b[n := t ! i]"]
        by (subst unescape_loop.simps) simp
    next
      case bs
      then have "i + 1 \<noteq> len" using len(2) by auto
      then have "i + 1 < len" using True by linarith
      then show ?thesis using True bs rd em [OF fit] go [of "i + 2" "n + 1" "b[n := ?c1]"]
        by (subst unescape_loop.simps) simp
    next
      case oct
      have "?c1 \<noteq> 0" "?c2 \<noteq> 0" "?c3 \<noteq> 0" using oct by (auto simp: ISFIRSTOCTDIGIT_def ISOCTDIGIT_def)
      then have "i + 1 \<noteq> len" "i + 2 \<noteq> len" "i + 3 \<noteq> len" using len(2) by metis+
      then have le: "i + 3 < len" using True by linarith
      let ?v = "of_int ((OCTVAL ?c1 * 8 + OCTVAL ?c2) * 8 + OCTVAL ?c3) :: byte"
      show ?thesis using True oct le rd em [OF fit] go [of "i + 4" "n + 1" "b[n := ?v]"]
        by (subst unescape_loop.simps) simp
    next
      case skip
      have c2: "?c1 \<noteq> 0 \<Longrightarrow> i + 2 \<le> len" using True len(2) by (metis Suc_eq_plus1 Suc_leI add_2_eq_Suc' le_neq_implies_less)
      have c3: "?c1 \<noteq> 0 \<Longrightarrow> ?c2 \<noteq> 0 \<Longrightarrow> i + 3 \<le> len"
        using c2 len(2) by (metis Suc_leI add_Suc_right eval_nat_numeral(3) le_neq_implies_less)
      have nz: "ISFIRSTOCTDIGIT ?c1 \<Longrightarrow> ?c1 \<noteq> 0" "ISOCTDIGIT ?c2 \<Longrightarrow> ?c2 \<noteq> 0"
        by (auto simp: ISFIRSTOCTDIGIT_def ISOCTDIGIT_def)
      show ?thesis using True skip rd [of i] rd [of "i + 1"] rd [of "i + 2"] rd [of "i + 3"] c2 c3 nz go [of "i + 1" n b]
        by (subst unescape_loop.simps) auto
    qed
  qed
qed


section \<open>What the server reads, and unescaping it\<close>

text \<open>The text between the quotes once the server's lexer has removed doubled quotes and backslashes.\<close>

definition server_out :: "bool \<Rightarrow> byte \<Rightarrow> byte list" where
  "server_out use_hex c = (if \<not> use_hex \<and> c = 0x27 then [c] else bytea_out True use_hex c)"

definition server_text :: "bool \<Rightarrow> byte list \<Rightarrow> byte list" where
  "server_text use_hex from = (if use_hex then [0x5C, 0x78] else []) @ concat (map (server_out use_hex) from)"

lemma nibble_digit: "v < 16 \<Longrightarrow> get_hex (hexdigit v) = int (unat v) \<and> get_hex (hexdigit v) \<noteq> - 1 \<and> \<not> IS_HIGHBIT_SET (hexdigit v) \<and>
    hexdigit v \<notin> {0, 0x27, 0x5C}"
proof -
  assume "v < 16"
  then have "unat v \<in> set [0..<16]" by (simp add: word_less_nat_alt)
  then have "\<exists>n \<in> set [0..<16]. v = word_of_nat n" by (intro bexI [of _ "unat v"]) simp_all
  moreover have "\<forall>n \<in> set [0..<16]. get_hex (hexdigit (word_of_nat n)) = int (unat (word_of_nat n :: byte)) \<and>
      get_hex (hexdigit (word_of_nat n)) \<noteq> - 1 \<and>
      \<not> IS_HIGHBIT_SET (hexdigit (word_of_nat n)) \<and> hexdigit (word_of_nat n) \<notin> {0, 0x27, 0x5C}"
    by code_simp
  ultimately show ?thesis by auto
qed


lemma nibble_plain: "v < 16 \<Longrightarrow> hexdigit v \<noteq> 0x27" "v < 16 \<Longrightarrow> hexdigit v \<noteq> 0x5C" "v < 16 \<Longrightarrow> hexdigit v \<noteq> 0"
    "v < 16 \<Longrightarrow> \<not> IS_HIGHBIT_SET (hexdigit v)"
  using nibble_digit [of v] by blast+

lemma nibbles: "unat (drop_bit 4 c AND 0xF) = unat c div 16" "unat (c AND 0xF) = unat c mod 16"
    "16 * (unat c div 16) + unat c mod 16 = unat c" for c :: byte
  using unat_byte [of c] unat_and_low [of "0xF" 4 "drop_bit 4 c"] unat_and_low [of "0xF" 4 c]
  by (simp_all add: unat_shiftr)

lemma nibbles_lt: "drop_bit 4 c AND 0xF < 16" "c AND 0xF < 16" for c :: byte
  using nibbles [of c] unat_byte [of c] by (simp_all add: word_less_nat_alt)

lemma hex_pair: "of_int (16 * get_hex (hexdigit (drop_bit 4 c AND 0xF)) + get_hex (hexdigit (c AND 0xF))) = c" for c :: byte
proof -
  have "get_hex (hexdigit (drop_bit 4 c AND 0xF)) = int (unat c div 16)" "get_hex (hexdigit (c AND 0xF)) = int (unat c mod 16)"
    using nibble_digit [OF nibbles_lt(1) [of c]] nibble_digit [OF nibbles_lt(2) [of c]] unfolding nibbles(1) nibbles(2) [of c] by blast+
  then have "16 * get_hex (hexdigit (drop_bit 4 c AND 0xF)) + get_hex (hexdigit (c AND 0xF)) = int (16 * (unat c div 16) + unat c mod 16)"
    by (simp only: of_nat_add of_nat_mult of_nat_numeral)
  then show ?thesis unfolding nibbles(3) by simp
qed

lemma unhex_digits:
  "snd p + length from \<le> length (fst p) \<Longrightarrow>
   unhex_loop (concat (map (server_out True) from) @ [0]) p = Some (stored p from)"
proof (induction "from" arbitrary: p)
  case (Cons c cs)
  let ?h = "hexdigit (drop_bit 4 c AND 0xF)" and ?l = "hexdigit (c AND 0xF)"
  have d: "?h \<noteq> 0" "?l \<noteq> 0" "get_hex ?h \<noteq> - 1" "get_hex ?l \<noteq> - 1"
    using nibble_digit [OF nibbles_lt(1) [of c]] nibble_digit [OF nibbles_lt(2) [of c]] by blast+
  have em: "emit [c] p = Some (stored p [c])" using Cons.prems by (simp add: emit_iff)
  have out: "server_out True c = [?h, ?l]" by (simp add: server_out_def bytea_out_def)
  have "unhex_loop (concat (map (server_out True) (c # cs)) @ [0]) p =
      unhex_loop (concat (map (server_out True) cs) @ [0]) (stored p [c])"
    by (simp only: list.map concat.simps out append_Cons append_Nil append_assoc unhex_loop.simps d if_False if_True
        simp_thms hex_pair em bind.bind_lunit)
  also have "\<dots> = Some (stored p (c # cs))"
    using Cons.prems stored_size [of p "[c]"] stored_stored [of p "[c]" cs] Cons.IH [of "stored p [c]"] by simp
  finally show ?case .
qed (simp add: stored_def)

lemma octal_digits: "unat (drop_bit 6 c + 0x30) = unat c div 64 + 48"
    "unat ((drop_bit 3 c AND 7) + 0x30) = unat c div 8 mod 8 + 48" "unat ((c AND 7) + 0x30) = unat c mod 8 + 48" for c :: byte
  using unat_byte [of c] unat_and_low [of 7 3 "drop_bit 3 c"] unat_and_low [of 7 3 c]
  by (simp_all add: unat_word_ariths unat_shiftr)

lemma octal_sum: "(a * 8 + b) * 8 + d = n \<Longrightarrow>
    ((int (a + 48) - 0x30) * 8 + (int (b + 48) - 0x30)) * 8 + (int (d + 48) - 0x30) = int n"
  by simp

lemma octal_value: "of_int ((OCTVAL (drop_bit 6 c + 0x30) * 8 + OCTVAL ((drop_bit 3 c AND 7) + 0x30)) * 8 +
    OCTVAL ((c AND 7) + 0x30)) = c" for c :: byte
proof -
  have "unat c div 64 = unat c div 8 div 8" by (simp add: div_mult2_eq [symmetric])
  then have "(unat c div 64 * 8 + unat c div 8 mod 8) * 8 + unat c mod 8 = unat c"
    by (simp only: div_mult_mod_eq)
  then have "(OCTVAL (drop_bit 6 c + 0x30) * 8 + OCTVAL ((drop_bit 3 c AND 7) + 0x30)) * 8 +
      OCTVAL ((c AND 7) + 0x30) = int (unat c)"
    unfolding OCTVAL_def octal_digits(1,2) octal_digits(3) [of c] by (rule octal_sum)
  then show ?thesis by simp
qed

lemma octal_ok: "ISFIRSTOCTDIGIT (drop_bit 6 c + 0x30)" "ISOCTDIGIT ((drop_bit 3 c AND 7) + 0x30)"
    "ISOCTDIGIT ((c AND 7) + 0x30)" for c :: byte
  using unat_byte [of c] by (simp_all add: ISFIRSTOCTDIGIT_def ISOCTDIGIT_def word_le_nat_alt octal_digits)


lemma unescape_step:
  fixes pre :: "byte list"
  assumes "t = pre @ server_out False c @ rest @ [0]" "snd p < length (fst p)" "len = length t - 1"
  shows "unescape_loop t len (length pre) p =
    unescape_loop t len (length (pre @ server_out False c)) (stored p [c])"
proof -
  let ?o = "server_out False c"
  have rd: "rd t (length pre + k) = Some ((?o @ rest @ [0]) ! k)" if "k < length ?o" for k
    using that by (simp add: assms(1) mem_simps nth_append)
  have ne: "?o \<noteq> []" by (auto simp: server_out_def bytea_out_def)
  then have lt: "length pre < len" using assms(1,3) by (cases ?o) auto
  have em: "emit [b] p = Some (stored p [b])" for b using assms(2) by (simp add: emit_iff)
  consider (oct) "c < 0x20 \<or> c > 0x7e" | (bs) "\<not> (c < 0x20 \<or> c > 0x7e)" "c = 0x5C" | (plain) "\<not> (c < 0x20 \<or> c > 0x7e)" "c \<noteq> 0x5C"
    by blast
  then show ?thesis
  proof cases
    case oct
    then have "c \<noteq> 0x27" by auto
    then have o: "?o = [0x5C, drop_bit 6 c + 0x30, (drop_bit 3 c AND 7) + 0x30, (c AND 7) + 0x30]"
      using oct by (simp add: server_out_def bytea_out_def)
    have four: "length pre + 4 = Suc (Suc (Suc (Suc (length pre))))" by simp
    have ne: "drop_bit 6 c + 0x30 \<noteq> 0x5C" using octal_ok(1) [of c] by (auto simp: ISFIRSTOCTDIGIT_def)
    show ?thesis
      using rd [of 0] rd [of 1] rd [of 2] rd [of 3] ne em octal_ok(1,2) [of c] octal_ok(3) [of c] lt octal_value [of c]
      by (subst unescape_loop.simps) (simp only: o list.size nth_Cons_0 nth_Cons_numeral append_Cons, simp add: four)
  next
    case bs
    then have o: "?o = [0x5C, 0x5C]" by (simp add: server_out_def bytea_out_def)
    show ?thesis
      using rd [of 0, unfolded o] rd [of 1, unfolded o] em lt unfolding o by (subst unescape_loop.simps) (simp add: bs(2))
  next
    case plain
    then have o: "?o = [c]" by (auto simp: server_out_def bytea_out_def)
    show ?thesis
      using rd [of 0] em lt plain(2) by (subst unescape_loop.simps) (simp add: o)
  qed
qed

lemma unescape_text:
  "t = pre @ concat (map (server_out False) from) @ [0] \<Longrightarrow> snd p + length from \<le> length (fst p) \<Longrightarrow>
   unescape_loop t (length t - 1) (length pre) p = Some (stored p from)"
proof (induction "from" arbitrary: pre p)
  case Nil
  then show ?case by (subst unescape_loop.simps) (simp add: stored_def)
next
  case (Cons c cs)
  have t: "t = pre @ server_out False c @ concat (map (server_out False) cs) @ [0]" using Cons.prems(1) by simp
  have lt: "snd p < length (fst p)" using Cons.prems(2) by simp
  have "unescape_loop t (length t - 1) (length (pre @ server_out False c)) (stored p [c]) = Some (stored (stored p [c]) cs)"
    using t Cons.prems(2) stored_size [of p "[c]"] by (intro Cons.IH) auto
  then show ?case
    using unescape_step [OF t lt refl] Cons.prems(2) stored_stored [of p "[c]" cs] by simp
qed


lemma bytea_read:
  "read_quoted ml 0x27 (\<not> std) (bytea_text std use_hex from) = Content (server_text use_hex from)"
proof -
  have digit: "\<not> IS_HIGHBIT_SET d \<and> d \<notin> {0x27, 0x5C}" if "ISOCTDIGIT d" for d
    using that order.strict_trans1 [of d "0x37" "0x80"] by (auto simp: not_high_lt ISOCTDIGIT_def)
  have first: "ISOCTDIGIT d" if "ISFIRSTOCTDIGIT d" for d
    using that order.trans [of d "0x33" "0x37"] by (simp add: ISFIRSTOCTDIGIT_def ISOCTDIGIT_def)
  have body: "read_quoted ml 0x27 (\<not> std) (concat (map (bytea_out std use_hex) from)) =
      Content (concat (map (server_out use_hex) from))"
  proof (induction "from")
    case (Cons c cs)
    have "read_quoted ml 0x27 (\<not> std) (bytea_out std use_hex c @ r) =
        prepend (server_out use_hex c) (read_quoted ml 0x27 (\<not> std) r)" for r
    proof -
      consider (hex) "use_hex" | (oct) "\<not> use_hex" "c < 0x20 \<or> c > 0x7e" | (quote) "\<not> use_hex" "c = 0x27"
        | (bs) "\<not> use_hex" "c = 0x5C" | (plain) "\<not> use_hex" "\<not> (c < 0x20 \<or> c > 0x7e)" "c \<noteq> 0x27" "c \<noteq> 0x5C"
        by blast
      then show ?thesis
      proof cases
        case hex
        then show ?thesis
          using nibbles_lt [of c] by (simp add: server_out_def bytea_out_def read_plain nibble_plain prepend_append)
      next
        case oct
        then have "c \<noteq> 0x27" by auto
        then show ?thesis
          using oct digit [OF first [OF octal_ok(1) [of c]]] digit [OF octal_ok(2) [of c]] digit [OF octal_ok(3) [of c]]
          by (cases std) (simp_all add: server_out_def bytea_out_def read_plain read_doubled prepend_append IS_HIGHBIT_SET_def)
      next
        case quote
        then show ?thesis by (simp add: server_out_def bytea_out_def read_doubled)
      next
        case bs
        then show ?thesis
          by (cases std) (simp_all add: server_out_def bytea_out_def read_plain read_doubled prepend_append IS_HIGHBIT_SET_def)
      next
        case plain
        have "c < 0x80" using plain(2) by (auto simp: word_less_nat_alt)
        then have "\<not> IS_HIGHBIT_SET c" by (simp add: not_high_lt)
        then show ?thesis using plain by (simp add: server_out_def bytea_out_def read_plain)
      qed
    qed
    then show ?case using Cons by simp
  qed simp
  show ?thesis
    using body
    by (cases use_hex; cases std)
       (simp_all add: bytea_text_def server_text_def read_plain read_doubled prepend_append IS_HIGHBIT_SET_def)
qed

lemma server_text_clean: "0 \<notin> set (server_text use_hex from)"
proof -
  have "0 \<notin> set (server_out use_hex c)" for c
  proof (cases use_hex)
    case True
    then show ?thesis
      using nibbles_lt [of c] nibble_plain(3) by (auto simp: server_out_def bytea_out_def)
  next
    case False
    have "drop_bit 6 c + 0x30 \<noteq> 0" "(drop_bit 3 c AND 7) + 0x30 \<noteq> 0" "(c AND 7) + 0x30 \<noteq> 0"
      using octal_ok [of c] by (auto simp: ISFIRSTOCTDIGIT_def ISOCTDIGIT_def)
    then show ?thesis using False by (auto simp: server_out_def bytea_out_def)
  qed
  then show ?thesis by (auto simp: server_text_def)
qed

lemma escape_format_not_hex:
  assumes "server_text False from @ [0] = b0 # t" "b0 = 0x5C"
  shows "\<exists>b1 r. t = b1 # r \<and> b1 \<noteq> 0x78"
proof (cases "from")
  case (Cons c cs)
  have "drop_bit 6 c + 0x30 \<noteq> 0x78" using octal_ok(1) [of c] by (auto simp: ISFIRSTOCTDIGIT_def)
  then show ?thesis using assms Cons by (auto simp: server_text_def server_out_def bytea_out_def split: if_splits)
qed (use assms in \<open>simp add: server_text_def\<close>)


lemma server_text_length: "length (server_text use_hex from) \<le> 2 + 4 * length from"
    and server_text_length_pos: "length from \<le> length (server_text False from)"
    and bytea_text_length: "length (bytea_text std use_hex from) \<le> 3 + 5 * length from"
    and bytea_text_length_pos: "length from \<le> length (bytea_text std use_hex from)"
proof -
  have o: "length (server_out use_hex c) \<le> 4" "length (bytea_out std use_hex c) \<le> 5"
      "1 \<le> length (bytea_out std use_hex c)" "1 \<le> length (server_out False c)" for c
    by (auto simp: server_out_def bytea_out_def)
  have "length (concat (map (server_out use_hex) from)) \<le> 4 * length from"
    using o(1) by (induction "from") (auto intro: add_mono)
  then show "length (server_text use_hex from) \<le> 2 + 4 * length from" by (cases use_hex) (simp_all add: server_text_def)
  have "length (concat (map (bytea_out std use_hex) from)) \<le> 5 * length from"
    using o(2) by (induction "from") (auto intro: add_mono)
  then show "length (bytea_text std use_hex from) \<le> 3 + 5 * length from" by (cases use_hex; cases std) (simp_all add: bytea_text_def)
  have "length from \<le> length (concat (map (bytea_out std use_hex) from))"
  proof (induction "from")
    case (Cons c cs)
    then show ?case using add_mono [OF o(3) [of c] Cons] by simp
  qed simp
  then show "length from \<le> length (bytea_text std use_hex from)" by (simp add: bytea_text_def)
  have "length from \<le> length (concat (map (server_out False) from))"
  proof (induction "from")
    case (Cons c cs)
    then show ?case using add_mono [OF o(4) [of c] Cons] by simp
  qed simp
  then show "length from \<le> length (server_text False from)" by (simp add: server_text_def)
qed

lemma PQunescapeBytea_inverts:
  assumes "next_ok a" "next_ok (after_alloc a)" "4 * length from + 3 < 2 ^ 32"
  shows "PQunescapeBytea a (Some (server_text use_hex from @ [0])) = Some (Some from, after_alloc (after_alloc a))"
proof -
  let ?s = "server_text use_hex from" and ?buf = "\<lambda>n. (replicate n (junk a), 0 :: nat)"
  have len: "c_strlen (?s @ [0]) = Some (length ?s)" using c_strlen_append [OF server_text_clean, of _ _ "[]"] by simp
  have small: "length ?s + 1 < 2 ^ 32" using server_text_length [of use_hex "from"] assms(3) by linarith
  have shrink: "c_realloc (after_alloc a) b (length from + 1) =
      (Some (take (length from + 1) b @ replicate (length from + 1 - length b) (junk a)), after_alloc (after_alloc a))" for b
    using assms(2) by (simp add: c_realloc_def after_alloc_def)
  have prefix: "take (length from) (take (length from + 1) b @ r) = from" if "b = from @ x" for b r x :: "byte list"
    using that by simp
  show ?thesis
  proof (cases use_hex)
    case True
    define h where "h = concat (map (server_out True) from)"
    have s: "?s = [0x5C, 0x78] @ h" using True by (simp add: server_text_def h_def)
    have hl: "length h = 2 * length from"
      unfolding h_def by (induction "from") (auto simp: server_out_def bytea_out_def)
    have want: "max 1 (szsub (length ?s) 2 div 2) = max 1 (length from)"
      using small s hl by (simp add: c_arith)
    have "unhex_loop (h @ [0]) (?buf (max 1 (length from))) = Some (stored (?buf (max 1 (length from))) from)"
      unfolding h_def by (rule unhex_digits) simp
    then show ?thesis
      using len want assms(1) shrink prefix
      unfolding PQunescapeBytea_def option.case Let_def c_malloc_def
      by (simp add: s stored_def)
  next
    case False
    define t where "t = ?s @ [0]"
    have s: "?s = concat (map (server_out False) from)" using False by (simp add: server_text_def)
    have loop: "unescape_loop t (length ?s) 0 (?buf (length ?s + 1)) = Some (stored (?buf (length ?s + 1)) from)"
    proof -
      have "length from \<le> length ?s" using server_text_length_pos False by simp
      then show ?thesis using unescape_text [of t "[]" "from" "?buf (length ?s + 1)"] by (simp add: t_def s)
    qed
    have tlen: "c_strlen t = Some (length ?s)" using len by (simp add: t_def)
    obtain b0 r where t: "t = b0 # r" by (cases t) (auto simp: t_def)
    have rd0: "rd t 0 = Some b0" by (simp add: t)
    obtain c1 where c1: "(if b0 = 0x5C then rd t 1 else Some 0) = Some c1" "c1 \<noteq> 0x78"
    proof (cases "b0 = 0x5C")
      case True
      then obtain b1 r' where "r = b1 # r'" "b1 \<noteq> 0x78"
        using escape_format_not_hex [of "from" b0 r] t False by (auto simp: t_def)
      then show ?thesis using that [of b1] True t by simp
    qed (use that [of 0] in simp)
    have want: "szadd (length ?s) 1 = length ?s + 1" using small by (simp add: c_arith)
    have fits: "length from \<le> length ?s" using server_text_length_pos False by simp
    show ?thesis
      unfolding PQunescapeBytea_def option.case Let_def t_def [symmetric] tlen rd0 bind.bind_lunit c1(1)
      using c1(2) loop want assms(1) shrink fits
      by (simp add: c_malloc_def stored_def)
  qed
qed


section \<open>Properties\<close>

text \<open>C17: Bytes escaped by \<open>PQescapeByteaConn\<close> survive the round trip: the block returned is exactly as
  long as \<open>*to_length\<close> says and ends with its only NUL, the server's lexer reads the text before it as one
  constant under the connection's \<open>standard_conforming_strings\<close>, and \<open>PQunescapeBytea\<close> of that constant
  gives the original bytes, in the hex format of 9.0 servers and in the escape format of older ones.\<close>

theorem bytea_roundtrip:
  assumes "next_ok (e_alloc (env cn))" "5 * length from + 4 < 2 ^ 32" "next_ok a" "next_ok (after_alloc a)"
  shows "\<exists>b s cn'. PQescapeByteaConn (Some cn) from = Some (Some (b @ [0]), Some (length b + 1), cn') \<and>
    read_quoted (pg_encoding_mblen (client_encoding cn)) 0x27 (\<not> std_strings cn) b = Content s \<and> 0 \<notin> set s \<and>
    PQunescapeBytea a (Some (s @ [0])) = Some (Some from, after_alloc (after_alloc a))"
proof -
  let ?hex = "sversion cn \<ge> 90000"
  let ?b = "bytea_text (std_strings cn) ?hex from"
  have "1 + length ?b < 2 ^ 32" using bytea_text_length [of "std_strings cn" ?hex "from"] assms(2) by linarith
  then have "PQescapeByteaConn (Some cn) from =
      Some (Some (?b @ [0]), Some (length ?b + 1), Some (set_alloc (after_alloc (e_alloc (env cn))) cn))"
    using PQescapeByteaInternal_alloc [OF assms(1)] by (simp add: PQescapeByteaConn_def Let_def)
  then show ?thesis
    using bytea_read [of _ "std_strings cn" ?hex "from"] server_text_clean [of ?hex "from"]
      PQunescapeBytea_inverts [OF assms(3,4), of "from" ?hex] assms(2) by fastforce
qed

lemma bytea_roundtrip_witness:
  "\<exists>b s cn'. PQescapeByteaConn (Some example_conn) [0, 0x27, 0xFF, 0x5C] = Some (Some (b @ [0]), Some (length b + 1), cn') \<and>
    read_quoted (pg_encoding_mblen (client_encoding example_conn)) 0x27 (\<not> std_strings example_conn) b = Content s \<and> 0 \<notin> set s \<and>
    PQunescapeBytea \<lparr>oks = [], junk = 1\<rparr> (Some (s @ [0])) =
      Some (Some [0, 0x27, 0xFF, 0x5C], after_alloc (after_alloc \<lparr>oks = [], junk = 1\<rparr>))"
  by (rule bytea_roundtrip) (simp_all add: example_conn_def next_ok_def after_alloc_def)

text \<open>C40: The size computed by \<open>PQescapeByteaInternal\<close> is a 32-bit \<open>size_t\<close>. When memory is available the
  call writes outside its block exactly when the size of the result, terminator included, does not fit
  in 32 bits (in escape format from 858993459 bytes on, when every byte needs five).\<close>

theorem bytea_size_overflow:
  assumes "next_ok (e_alloc (env cn))"
  shows "PQescapeByteaConn (Some cn) from = None \<longleftrightarrow>
    2 ^ 32 \<le> 1 + length (bytea_text (std_strings cn) (sversion cn \<ge> 90000) from)"
  using PQescapeByteaInternal_alloc [OF assms, of "Some cn" "from" "std_strings cn" "sversion cn \<ge> 90000"]
  unfolding PQescapeByteaConn_def option.case Let_def by (cases "1 + length (bytea_text (std_strings cn) (sversion cn \<ge> 90000) from) < 2 ^ 32") (simp_all add: not_less)

lemma bytea_size_overflow_witness:
  "PQescapeByteaConn (Some (example_conn\<lparr>std_strings := False, sversion := 80400\<rparr>)) (replicate 858993459 0) = None"
proof -
  let ?cn = "example_conn\<lparr>std_strings := False, sversion := 80400\<rparr>"
  have "length (bytea_out False False 0) = 5" by (simp add: bytea_out_def)
  then have "length (bytea_text False False (replicate n 0)) = 5 * n" for n
    by (induction n) (simp_all add: bytea_text_def)
  then have "2 ^ 32 \<le> 1 + length (bytea_text (std_strings ?cn) (sversion ?cn \<ge> 90000) (replicate 858993459 0))"
    by simp
  moreover have "next_ok (e_alloc (env ?cn))" by (simp add: example_conn_def next_ok_def)
  ultimately show ?thesis by (intro bytea_size_overflow [THEN iffD2])
qed

text \<open>\<open>PQunescapeBytea\<close> is safe on every NUL-terminated text, well formed or not: it never reads past the
  terminator nor writes past its buffer, and what it returns is no longer than the text.\<close>

theorem unescape_bytea_total:
  assumes "c_strlen t = Some n" "n + 1 < 2 ^ 32"
  shows "\<exists>r a'. PQunescapeBytea a (Some t) = Some (r, a') \<and> (case r of None \<Rightarrow> True | Some b \<Rightarrow> length b \<le> n)"
proof -
  have t: "n < length t" "t ! n = 0" "c_str t = take n t" using c_strlen_Some [OF assms(1)] by auto
  define c1 where "c1 = (if t ! 0 = 0x5C then t ! 1 else 0)"
  have c1: "(if t ! 0 = 0x5C then rd t 1 else Some 0) = Some c1"
  proof (cases "t ! 0 = 0x5C")
    case True
    then have "n \<noteq> 0" using t(2) by (cases n) auto
    then show ?thesis using t(1) True by (simp add: c1_def mem_simps)
  qed (simp add: c1_def)
  have rd0: "rd t 0 = Some (t ! 0)" using t(1) by (cases t) auto
  define hex where "hex \<longleftrightarrow> t ! 0 = 0x5C \<and> c1 = 0x78"
  define want where "want = (if hex then max 1 (szsub n 2 div 2) else szadd n 1)"
  let ?buf = "(replicate want (junk a), 0 :: nat)"
  have loop: "\<exists>b' n'. (if hex then unhex_loop (drop 2 t) ?buf else unescape_loop t n 0 ?buf) = Some (b', n') \<and> n' \<le> n \<and> n' \<le> length b'"
  proof (cases hex)
    case True
    then have "t ! 0 \<noteq> 0" "t ! 1 \<noteq> 0" using c1_def by (auto simp: hex_def)
    then have n2: "2 \<le> n" using t(2) by (cases n; cases "n - 1") auto
    have "0 \<notin> set (take n t)" using t(3) c_str_no_nul [of t] by simp
    then have "0 \<notin> set (drop 2 (take n t))" using in_set_dropD by fast
    moreover have "t = take n t @ 0 # drop (n + 1) t" using t(1,2) id_take_nth_drop [of n t] by simp
    then have split: "drop 2 t = drop 2 (take n t) @ 0 # drop (n + 1) t"
      using n2 t(1) by (metis (no_types) drop_append diff_is_0_eq drop0 length_take min.absorb4)
    ultimately have "length (c_str (drop 2 t)) = n - 2" "0 \<in> set (drop 2 t)"
      using t(1) n2 unfolding split by (simp_all add: c_str_append)
    then show ?thesis
      using unhex_loop_total [of "drop 2 t" ?buf] True n2 assms(2) by (auto simp: want_def c_arith)
  next
    case False
    then show ?thesis
      using unescape_loop_total [OF assms(1), of 0 0 "replicate want (junk a)"] assms(2) by (auto simp: want_def c_arith)
  qed
  then obtain b' n' where go: "(if hex then unhex_loop (drop 2 t) ?buf else unescape_loop t n 0 ?buf) = Some (b', n')"
    "n' \<le> n" "n' \<le> length b'" by blast
  define r where "r = (if next_ok a \<and> next_ok (after_alloc a) then Some (take n' b') else None)"
  have "PQunescapeBytea a (Some t) = Some (r, if next_ok a then after_alloc (after_alloc a) else after_alloc a)"
    unfolding PQunescapeBytea_def option.case Let_def assms(1) rd0 bind.bind_lunit c1 hex_def [symmetric] want_def [symmetric]
    using go by (simp add: c_malloc_def c_realloc_def r_def split: if_splits)
  moreover have "case r of None \<Rightarrow> True | Some b \<Rightarrow> length b \<le> n" using go(2) by (auto simp: r_def)
  ultimately show ?thesis by blast
qed

lemma unescape_bytea_total_witness:
  "\<exists>r a'. PQunescapeBytea \<lparr>oks = [], junk = 1\<rparr> (Some [0x5C, 0x78, 0x5, 0x61, 0]) = Some (r, a') \<and>
    (case r of None \<Rightarrow> True | Some b \<Rightarrow> length b \<le> 4)"
  by (rule unescape_bytea_total) (simp_all add: c_strlen_def c_str_Cons)

end
