(* ===== verification/FeMisc.thy ===== *)
theory FeMisc
  imports Results
begin

text \<open>
  Buffered communication: \<open>src/interfaces/libpq/fe-misc.c\<close>, and the plain-socket arms of
  \<open>pqsecure_read\<close> and \<open>pqsecure_write\<close> of \<open>fe-secure.c\<close>.

  A function that answers \<open>0\<close> or \<open>EOF\<close> and stores a value through a pointer answers an option of the
  value instead (\<open>None\<close> is \<open>EOF\<close>: not enough data, nothing stored); the others answer the \<open>int\<close> of the code. The outer
  option is undefined behaviour or a loop that does not end.

  \<open>conn_ok\<close> says what every function keeps: the sizes recorded are those of the blocks, the three
  cursors of the input buffer are in order, and both buffers are multiples of 8192 bytes, from
  which it follows that the cursor arithmetic of the code never overflows. The lemmas show that
  under it every operation is defined, keeps it, and does to the data what its comment says.
\<close>

section \<open>Reading from the input buffer\<close>

definition pqGetc :: "pg_conn \<Rightarrow> (byte option \<times> pg_conn) option" where
  "pqGetc conn =
     (if inCursor conn \<ge> inEnd conn then Some (None, conn)
      else do {
        c \<leftarrow> rdi (inBuffer conn) (inCursor conn);
        Some (Some c, conn\<lparr>inCursor := wrap32 (inCursor conn + 1)\<rparr>)
      })"

text \<open>\<open>while (inCursor < inEnd && inBuffer[inCursor]) inCursor++\<close>.\<close>

function gets_scan :: "byte list \<Rightarrow> int \<Rightarrow> int \<Rightarrow> int option" where
  "gets_scan buf cursor end =
     (if cursor < end then do {
        c \<leftarrow> rdi buf cursor;
        if c \<noteq> 0 then gets_scan buf (cursor + 1) end else Some cursor
      }
      else Some cursor)"
  by pat_completeness auto
termination
  by (relation "measure (\<lambda>(buf, cursor, end). nat (end - cursor))") auto

declare gets_scan.simps [simp del]

text \<open>\<open>buf\<close> is the caller's buffer; the answer holds its new value.\<close>

definition pqGets_internal :: "expbuf \<Rightarrow> pg_conn \<Rightarrow> bool \<Rightarrow> (int \<times> expbuf \<times> pg_conn) option" where
  "pqGets_internal buf conn resetbuffer = do {
     cursor \<leftarrow> gets_scan (inBuffer conn) (inCursor conn) (inEnd conn);
     if cursor \<ge> inEnd conn then Some (EOF, buf, conn)
     else do {
       let slen = cursor - inCursor conn;
       (buf, a) \<leftarrow> (if resetbuffer then resetPQExpBuffer (e_alloc (env conn)) buf else Some (buf, e_alloc (env conn)));
       bs \<leftarrow> rd_bytes (inBuffer conn) (nat (inCursor conn)) (nat slen);
       (buf, a) \<leftarrow> appendBinaryPQExpBuffer a buf bs;
       Some (0, buf, set_alloc a (conn\<lparr>inCursor := wrap32 (cursor + 1)\<rparr>))
     }
   }"

definition pqGets :: "expbuf \<Rightarrow> pg_conn \<Rightarrow> (int \<times> expbuf \<times> pg_conn) option" where
  "pqGets buf conn = pqGets_internal buf conn True"

definition pqGets_append :: "expbuf \<Rightarrow> pg_conn \<Rightarrow> (int \<times> expbuf \<times> pg_conn) option" where
  "pqGets_append buf conn = pqGets_internal buf conn False"

definition pqGetnchar :: "nat \<Rightarrow> pg_conn \<Rightarrow> (byte list option \<times> pg_conn) option" where
  "pqGetnchar len conn =
     (if len > nat ((inEnd conn - inCursor conn) mod 2 ^ 32) then Some (None, conn)
      else do {
        bs \<leftarrow> rd_bytes (inBuffer conn) (nat (inCursor conn)) len;
        Some (Some bs, conn\<lparr>inCursor := wrap32 (inCursor conn + int len)\<rparr>)
      })"

text \<open>\<open>ntohs\<close>, \<open>ntohl\<close>: the value of bytes in network order.\<close>

definition be_value :: "byte list \<Rightarrow> int" where
  "be_value bs = foldl (\<lambda>v b. 256 * v + int (unat b)) 0 bs"

definition be_bytes :: "nat \<Rightarrow> int \<Rightarrow> byte list" where
  "be_bytes n v = rev (map (\<lambda>i. of_int (v div 256 ^ i)) [0..<n])"

definition pqGetInt :: "nat \<Rightarrow> pg_conn \<Rightarrow> (int option \<times> pg_conn) option" where
  "pqGetInt bytes conn =
     (if bytes = 2 then
        (if wrap32 (inCursor conn + 2) > inEnd conn then Some (None, conn)
         else do {
           tmp2 \<leftarrow> rd_bytes (inBuffer conn) (nat (inCursor conn)) 2;
           Some (Some (be_value tmp2), conn\<lparr>inCursor := wrap32 (inCursor conn + 2)\<rparr>)
         })
      else if bytes = 4 then
        (if wrap32 (inCursor conn + 4) > inEnd conn then Some (None, conn)
         else do {
           tmp4 \<leftarrow> rd_bytes (inBuffer conn) (nat (inCursor conn)) 4;
           Some (Some (wrap32 (be_value tmp4)), conn\<lparr>inCursor := wrap32 (inCursor conn + 4)\<rparr>)
         })
      else do {
        conn \<leftarrow> pqInternalNotice conn (lit ''integer of size '' @ show_nat bytes @ lit '' not supported by pqGetInt'');
        Some (None, conn)
      })"


section \<open>Room in the buffers\<close>

text \<open>
  \<open>do newsize = \<dots>; while (newsize > 0 && bytes_needed > newsize)\<close>, for the doubling and for the
  steps of 8192.
\<close>

partial_function (option) size_loop :: "(int \<Rightarrow> int) \<Rightarrow> nat \<Rightarrow> int \<Rightarrow> int option" where
  "size_loop step bytes_needed newsize =
     (let newsize = step newsize in
      if newsize > 0 \<and> bytes_needed > nat newsize then size_loop step bytes_needed newsize
      else Some newsize)"

definition double_size :: "int \<Rightarrow> int" where "double_size newsize = wrap32 (newsize * 2)"
definition step_size :: "int \<Rightarrow> int" where "step_size newsize = wrap32 (newsize + 8192)"

text \<open>One attempt: the new block and size, or nothing.\<close>

definition try_size :: "alloc \<Rightarrow> byte list \<Rightarrow> nat \<Rightarrow> int \<Rightarrow> (byte list \<times> int) option \<times> alloc" where
  "try_size a buffer bytes_needed newsize =
     (if newsize > 0 \<and> bytes_needed \<le> nat newsize then
        (case c_realloc a buffer (nat newsize) of
           (Some newbuf, a) \<Rightarrow> (Some (newbuf, newsize), a)
         | (None, a) \<Rightarrow> (None, a))
      else (None, a))"

definition grow_buffer :: "alloc \<Rightarrow> byte list \<Rightarrow> int \<Rightarrow> nat \<Rightarrow> ((byte list \<times> int) option \<times> alloc) option" where
  "grow_buffer a buffer bufsize bytes_needed = do {
     newsize \<leftarrow> size_loop double_size bytes_needed bufsize;
     case try_size a buffer bytes_needed newsize of
       (Some r, a) \<Rightarrow> Some (Some r, a)
     | (None, a) \<Rightarrow> do {
         newsize \<leftarrow> size_loop step_size bytes_needed bufsize;
         Some (try_size a buffer bytes_needed newsize)
       }
   }"

definition pqCheckOutBufferSpace :: "nat \<Rightarrow> pg_conn \<Rightarrow> (int \<times> pg_conn) option" where
  "pqCheckOutBufferSpace bytes_needed conn =
     (if bytes_needed \<le> nat (outBufSize conn) then Some (0, conn)
      else do {
        (r, a) \<leftarrow> grow_buffer (e_alloc (env conn)) (outBuffer conn) (outBufSize conn) bytes_needed;
        case r of
          Some (newbuf, newsize) \<Rightarrow> Some (0, set_alloc a (conn\<lparr>outBuffer := newbuf, outBufSize := newsize\<rparr>))
        | None \<Rightarrow> do {
            conn \<leftarrow> printf_error (set_alloc a conn) (lit ''cannot allocate memory for output buffer'' @ [0x0A]);
            Some (EOF, conn)
          }
      })"

definition pqCheckInBufferSpace :: "nat \<Rightarrow> pg_conn \<Rightarrow> (int \<times> pg_conn) option" where
  "pqCheckInBufferSpace bytes_needed conn =
     (if bytes_needed \<le> nat (inBufSize conn) then Some (0, conn)
      else do {
        (r, a) \<leftarrow> grow_buffer (e_alloc (env conn)) (inBuffer conn) (inBufSize conn) bytes_needed;
        case r of
          Some (newbuf, newsize) \<Rightarrow> Some (0, set_alloc a (conn\<lparr>inBuffer := newbuf, inBufSize := newsize\<rparr>))
        | None \<Rightarrow> do {
            conn \<leftarrow> printf_error (set_alloc a conn) (lit ''cannot allocate memory for input buffer'' @ [0x0A]);
            Some (EOF, conn)
          }
      })"


section \<open>The socket\<close>

definition c_recv :: "env \<Rightarrow> nat \<Rightarrow> recv_event \<times> env" where
  "c_recv en len =
     (case e_recv en of
        [] \<Rightarrow> (Recv [], en)
      | Recv bs # r \<Rightarrow>
          if length bs \<le> len then (Recv bs, en\<lparr>e_recv := r\<rparr>)
          else (Recv (take len bs), en\<lparr>e_recv := Recv (drop len bs) # r\<rparr>)
      | Recv_error e # r \<Rightarrow> (Recv_error e, en\<lparr>e_recv := r\<rparr>))"

definition c_send :: "env \<Rightarrow> byte list \<Rightarrow> send_event \<times> env" where
  "c_send en bs =
     (case e_send en of
        [] \<Rightarrow> (Sent (length bs), en\<lparr>e_sent := e_sent en @ bs\<rparr>)
      | Sent n # r \<Rightarrow>
          (Sent (min n (length bs)), en\<lparr>e_send := r, e_sent := e_sent en @ take (min n (length bs)) bs\<rparr>)
      | Send_error e # r \<Rightarrow> (Send_error e, en\<lparr>e_send := r\<rparr>))"

definition c_poll :: "env \<Rightarrow> int \<Rightarrow> bool \<Rightarrow> bool \<Rightarrow> int \<Rightarrow> poll_event \<times> env" where
  "c_poll en fd forRead forWrite timeout_ms =
     (let en = en\<lparr>e_polled := e_polled en @ [(fd, forRead, forWrite, timeout_ms)]\<rparr> in
      case e_poll en of
        [] \<Rightarrow> (Poll 1, en)
      | e # r \<Rightarrow> (e, en\<lparr>e_poll := r\<rparr>))"

definition set_errno :: "errno option \<Rightarrow> pg_conn \<Rightarrow> pg_conn" where
  "set_errno e conn = conn\<lparr>env := (env conn)\<lparr>e_errno := e\<rparr>\<rparr>"

text \<open>\<open>strerror_r\<close> into \<open>char sebuf[256]\<close>.\<close>

definition pqStrerror :: "env \<Rightarrow> errno \<Rightarrow> nat \<Rightarrow> byte list" where
  "pqStrerror en errnum buflen =
     (if length (e_strerror en errnum) < buflen then e_strerror en errnum else lit ''Unknown error'')"

definition server_closed_text :: "byte list" where
  "server_closed_text =
     lit ''server closed the connection unexpectedly'' @ [0x0A, 0x09] @
     lit ''This probably means the server terminated abnormally'' @ [0x0A, 0x09] @
     lit ''before or while processing the request.'' @ [0x0A]"

definition pqsecure_read :: "pg_conn \<Rightarrow> nat \<Rightarrow> (int \<times> byte list \<times> pg_conn) option" where
  "pqsecure_read conn len =
     (case c_recv (env conn) len of
        (Recv bs, en) \<Rightarrow> Some (int (length bs), bs, set_errno None (conn\<lparr>env := en\<rparr>))
      | (Recv_error e, en) \<Rightarrow> do {
          let conn = conn\<lparr>env := en\<rparr>;
          conn \<leftarrow> (case e of
              EAGAIN \<Rightarrow> Some conn
            | EINTR \<Rightarrow> Some conn
            | ECONNRESET \<Rightarrow> printf_error conn server_closed_text
            | _ \<Rightarrow> printf_error conn (lit ''could not receive data from server: '' @ pqStrerror en e 256 @ [0x0A]));
          Some (- 1, [], set_errno (Some e) conn)
        })"

definition pqsecure_write :: "pg_conn \<Rightarrow> byte list \<Rightarrow> (int \<times> pg_conn) option" where
  "pqsecure_write conn bs =
     (case c_send (env conn) bs of
        (Sent n, en) \<Rightarrow> Some (int n, set_errno None (conn\<lparr>env := en\<rparr>))
      | (Send_error e, en) \<Rightarrow> do {
          let conn = conn\<lparr>env := en\<rparr>;
          conn \<leftarrow> (case e of
              EAGAIN \<Rightarrow> Some conn
            | EINTR \<Rightarrow> Some conn
            | EPIPE \<Rightarrow> printf_error conn server_closed_text
            | ECONNRESET \<Rightarrow> printf_error conn server_closed_text
            | _ \<Rightarrow> printf_error conn (lit ''could not send data to server: '' @ pqStrerror en e 256 @ [0x0A]));
          Some (- 1, set_errno (Some e) conn)
        })"

text \<open>\<open>end_time\<close> is \<open>-1\<close> to wait without limit; otherwise the time left in milliseconds.\<close>

definition pqSocketPoll :: "env \<Rightarrow> int \<Rightarrow> bool \<Rightarrow> bool \<Rightarrow> int \<Rightarrow> int \<times> env" where
  "pqSocketPoll en sck forRead forWrite end_time =
     (if \<not> forRead \<and> \<not> forWrite then (0, en)
      else
        let timeout_ms = (if end_time = - 1 then - 1
              else if end_time > e_now en then wrap32 ((end_time - e_now en) * 1000) else 0) in
        (case c_poll en sck forRead forWrite timeout_ms of
           (Poll n, en) \<Rightarrow> (n, en)
         | (Poll_error e, en) \<Rightarrow> (- 1, en\<lparr>e_errno := Some e\<rparr>)))"

partial_function (option) poll_loop :: "env \<Rightarrow> int \<Rightarrow> bool \<Rightarrow> bool \<Rightarrow> int \<Rightarrow> (int \<times> env) option" where
  "poll_loop en sck forRead forWrite end_time =
     (case pqSocketPoll en sck forRead forWrite end_time of (r, en) \<Rightarrow>
        if r < 0 \<and> e_errno en = Some EINTR then poll_loop en sck forRead forWrite end_time
        else Some (r, en))"

definition errno_text :: "env \<Rightarrow> byte list" where
  "errno_text en = (case e_errno en of None \<Rightarrow> [] | Some e \<Rightarrow> pqStrerror en e 256)"

definition pqSocketCheck :: "pg_conn \<Rightarrow> bool \<Rightarrow> bool \<Rightarrow> int \<Rightarrow> (int \<times> pg_conn) option" where
  "pqSocketCheck conn forRead forWrite end_time =
     (if sock conn < 0 then do {
        conn \<leftarrow> printf_error conn (lit ''socket not open'' @ [0x0A]);
        Some (- 1, conn)
      }
      else do {
        (r, en) \<leftarrow> poll_loop (env conn) (sock conn) forRead forWrite end_time;
        let conn = conn\<lparr>env := en\<rparr>;
        if r < 0 then do {
          conn \<leftarrow> printf_error conn (lit ''select() failed: '' @ errno_text en @ [0x0A]);
          Some (r, conn)
        }
        else Some (r, conn)
      })"

definition pqReadReady :: "pg_conn \<Rightarrow> (int \<times> pg_conn) option" where
  "pqReadReady conn = pqSocketCheck conn True False 0"

definition pqWriteReady :: "pg_conn \<Rightarrow> (int \<times> pg_conn) option" where
  "pqWriteReady conn = pqSocketCheck conn False True 0"

definition pqWaitTimed :: "bool \<Rightarrow> bool \<Rightarrow> pg_conn \<Rightarrow> int \<Rightarrow> (int \<times> pg_conn) option" where
  "pqWaitTimed forRead forWrite conn finish_time = do {
     (r, conn) \<leftarrow> pqSocketCheck conn forRead forWrite finish_time;
     if r < 0 then Some (EOF, conn)
     else if r = 0 then do {
       conn \<leftarrow> printf_error conn (lit ''timeout expired'' @ [0x0A]);
       Some (EOF, conn)
     }
     else Some (0, conn)
   }"

definition pqWait :: "bool \<Rightarrow> bool \<Rightarrow> pg_conn \<Rightarrow> (int \<times> pg_conn) option" where
  "pqWait forRead forWrite conn = pqWaitTimed forRead forWrite conn (- 1)"


section \<open>Reading from the socket\<close>

definition left_justify :: "pg_conn \<Rightarrow> pg_conn option" where
  "left_justify conn =
     (if inStart conn < inEnd conn then
        (if inStart conn > 0 then do {
           bs \<leftarrow> rd_bytes (inBuffer conn) (nat (inStart conn)) (nat (inEnd conn - inStart conn));
           buf \<leftarrow> wr_bytes (inBuffer conn) 0 bs;
           Some (conn\<lparr>inBuffer := buf, inEnd := inEnd conn - inStart conn,
             inCursor := inCursor conn - inStart conn, inStart := 0\<rparr>)
         }
         else Some conn)
      else Some (conn\<lparr>inStart := 0, inCursor := 0, inEnd := 0\<rparr>))"

text \<open>\<open>True\<close>: give up, there is not even a little room.\<close>

definition make_room :: "pg_conn \<Rightarrow> (bool \<times> pg_conn) option" where
  "make_room conn =
     (if inBufSize conn - inEnd conn < 8192 then do {
        (r, conn) \<leftarrow> pqCheckInBufferSpace (nat (inEnd conn) + 8192) conn;
        Some (r \<noteq> 0 \<and> inBufSize conn - inEnd conn < 100, conn)
      }
      else Some (False, conn))"

text \<open>One \<open>pqsecure_read\<close> into the free part of the buffer.\<close>

definition read_some :: "pg_conn \<Rightarrow> (int \<times> pg_conn) option" where
  "read_some conn = do {
     (nread, bs, conn) \<leftarrow> pqsecure_read conn (nat (inBufSize conn - inEnd conn));
     buf \<leftarrow> wr_bytes (inBuffer conn) (nat (inEnd conn)) bs;
     Some (nread, conn\<lparr>inBuffer := buf\<rparr>)
   }"

definition definitely_failed :: "pg_conn \<Rightarrow> int \<times> pg_conn" where
  "definitely_failed conn = (- 1, conn\<lparr>status := CONNECTION_BAD, sock := - 1\<rparr>)"

text \<open>From the label \<open>retry4\<close>.\<close>

partial_function (option) read_retry4 :: "pg_conn \<Rightarrow> (int \<times> pg_conn) option" where
  "read_retry4 conn =
     Option.bind (read_some conn) (\<lambda>(nread, conn).
       if nread < 0 then
         (if e_errno (env conn) = Some EINTR then read_retry4 conn
          else if e_errno (env conn) = Some EAGAIN then Some (0, conn)
          else if e_errno (env conn) = Some ECONNRESET then Some (definitely_failed conn)
          else Some (- 1, conn))
       else if nread > 0 then Some (1, conn\<lparr>inEnd := inEnd conn + nread\<rparr>)
       else Some (definitely_failed conn))"

text \<open>A read of no bytes: is it the end of the connection?\<close>

definition read_nothing :: "pg_conn \<Rightarrow> (int \<times> pg_conn) option" where
  "read_nothing conn = do {
     (r, conn) \<leftarrow> pqReadReady conn;
     if r = 0 then Some (0, conn)
     else if r = 1 then read_retry4 conn
     else do {
       conn \<leftarrow> printf_error conn server_closed_text;
       Some (definitely_failed conn)
     }
   }"

text \<open>From the label \<open>retry3\<close>.\<close>

partial_function (option) read_retry3 :: "int \<Rightarrow> pg_conn \<Rightarrow> (int \<times> pg_conn) option" where
  "read_retry3 someread conn =
     Option.bind (read_some conn) (\<lambda>(nread, conn).
       if nread < 0 then
         (if e_errno (env conn) = Some EINTR then read_retry3 someread conn
          else if e_errno (env conn) = Some EAGAIN then Some (someread, conn)
          else if e_errno (env conn) = Some ECONNRESET then Some (definitely_failed conn)
          else Some (- 1, conn))
       else if nread > 0 then
         (let conn = conn\<lparr>inEnd := inEnd conn + nread\<rparr> in
          if inEnd conn > 32768 \<and> inBufSize conn - inEnd conn \<ge> 8192 then read_retry3 1 conn
          else Some (1, conn))
       else if someread \<noteq> 0 then Some (1, conn)
       else read_nothing conn)"

definition pqReadData :: "pg_conn \<Rightarrow> (int \<times> pg_conn) option" where
  "pqReadData conn =
     (if sock conn < 0 then do {
        conn \<leftarrow> printf_error conn (lit ''connection not open'' @ [0x0A]);
        Some (- 1, conn)
      }
      else do {
        conn \<leftarrow> left_justify conn;
        (full, conn) \<leftarrow> make_room conn;
        if full then Some (- 1, conn) else read_retry3 0 conn
      })"


section \<open>Sending\<close>

text \<open>
  The loop of \<open>pqSendSome\<close>: \<open>ptr\<close> as an offset in the output buffer, \<open>len\<close> and \<open>remaining\<close>. \<open>Inl\<close> is
  the \<open>return -1\<close> inside the loop, \<open>Inr\<close> its end with \<open>result\<close>.
\<close>

partial_function (option) send_loop ::
  "int \<Rightarrow> int \<Rightarrow> int \<Rightarrow> pg_conn \<Rightarrow> (pg_conn + int \<times> int \<times> int \<times> pg_conn) option" where
  "send_loop ptr len remaining conn =
     (if len > 0 then
        Option.bind (rd_bytes (outBuffer conn) (nat ptr) (nat len)) (\<lambda>bs.
        Option.bind (pqsecure_write conn bs) (\<lambda>(sent, conn).
          if sent < 0 \<and> e_errno (env conn) = Some EINTR then send_loop ptr len remaining conn
          else if sent < 0 \<and> e_errno (env conn) \<noteq> Some EAGAIN then Some (Inl (conn\<lparr>outCount := 0\<rparr>))
          else
            let ptr = (if sent < 0 then ptr else ptr + sent);
                len = (if sent < 0 then len else len - sent);
                remaining = (if sent < 0 then remaining else remaining - sent) in
            if len > 0 then
              (if nonblocking conn then Some (Inr (1, ptr, remaining, conn))
               else Option.bind (pqReadData conn) (\<lambda>(r, conn).
                 if r < 0 then Some (Inr (- 1, ptr, remaining, conn))
                 else Option.bind (pqWait True True conn) (\<lambda>(r, conn).
                   if r \<noteq> 0 then Some (Inr (- 1, ptr, remaining, conn))
                   else send_loop ptr len remaining conn)))
            else Some (Inr (0, ptr, remaining, conn))))
      else Some (Inr (0, ptr, remaining, conn)))"

definition pqSendSome :: "pg_conn \<Rightarrow> int \<Rightarrow> (int \<times> pg_conn) option" where
  "pqSendSome conn len =
     (if sock conn < 0 then do {
        conn \<leftarrow> printf_error conn (lit ''connection not open'' @ [0x0A]);
        Some (- 1, conn)
      }
      else do {
        r \<leftarrow> send_loop 0 len (outCount conn) conn;
        case r of
          Inl conn \<Rightarrow> Some (- 1, conn)
        | Inr (r, ptr, remaining, conn) \<Rightarrow> do {
            buf \<leftarrow> (if remaining > 0 then do {
                bs \<leftarrow> rd_bytes (outBuffer conn) (nat ptr) (nat remaining);
                wr_bytes (outBuffer conn) 0 bs
              }
              else Some (outBuffer conn));
            Some (r, conn\<lparr>outBuffer := buf, outCount := remaining\<rparr>)
          }
      })"

definition pqFlush :: "pg_conn \<Rightarrow> (int \<times> pg_conn) option" where
  "pqFlush conn = (if outCount conn > 0 then pqSendSome conn (outCount conn) else Some (0, conn))"


section \<open>Building messages\<close>

definition pqPutMsgStart :: "byte \<Rightarrow> bool \<Rightarrow> pg_conn \<Rightarrow> (int \<times> pg_conn) option" where
  "pqPutMsgStart msg_type force_len conn = do {
     let endPos = (if msg_type \<noteq> 0 then outCount conn + 1 else outCount conn);
     let len_word = (force_len \<or> PG_PROTOCOL_MAJOR (pversion conn) \<ge> 3);
     let lenPos = (if len_word then endPos else - 1);
     let endPos = (if len_word then endPos + 4 else endPos);
     (r, conn) \<leftarrow> pqCheckOutBufferSpace (nat endPos) conn;
     if r \<noteq> 0 then Some (EOF, conn)
     else do {
       buf \<leftarrow> (if msg_type \<noteq> 0 then wr (outBuffer conn) (nat (outCount conn)) msg_type else Some (outBuffer conn));
       Some (0, conn\<lparr>outBuffer := buf, outMsgStart := lenPos, outMsgEnd := endPos\<rparr>)
     }
   }"

definition pqPutMsgBytes :: "byte list \<Rightarrow> pg_conn \<Rightarrow> (int \<times> pg_conn) option" where
  "pqPutMsgBytes bs conn = do {
     (r, conn) \<leftarrow> pqCheckOutBufferSpace (szadd (nat (outMsgEnd conn)) (length bs)) conn;
     if r \<noteq> 0 then Some (EOF, conn)
     else do {
       buf \<leftarrow> wr_bytes (outBuffer conn) (nat (outMsgEnd conn)) bs;
       Some (0, conn\<lparr>outBuffer := buf, outMsgEnd := wrap32 (outMsgEnd conn + int (length bs))\<rparr>)
     }
   }"

definition pqPutMsgEnd :: "pg_conn \<Rightarrow> (int \<times> pg_conn) option" where
  "pqPutMsgEnd conn = do {
     buf \<leftarrow> (if outMsgStart conn \<ge> 0
       then wr_bytes (outBuffer conn) (nat (outMsgStart conn)) (be_bytes 4 (outMsgEnd conn - outMsgStart conn))
       else Some (outBuffer conn));
     let conn = conn\<lparr>outBuffer := buf, outCount := outMsgEnd conn\<rparr>;
     if outCount conn \<ge> 8192 then do {
       let toSend = outCount conn - outCount conn mod 8192;
       (r, conn) \<leftarrow> pqSendSome conn toSend;
       Some (if r < 0 then EOF else 0, conn)
     }
     else Some (0, conn)
   }"

definition pqPutc :: "byte \<Rightarrow> pg_conn \<Rightarrow> (int \<times> pg_conn) option" where
  "pqPutc c conn = do { (r, conn) \<leftarrow> pqPutMsgBytes [c] conn; Some (if r \<noteq> 0 then EOF else 0, conn) }"

text \<open>A string is given without its terminator, which is sent too.\<close>

definition pqPuts :: "byte list \<Rightarrow> pg_conn \<Rightarrow> (int \<times> pg_conn) option" where
  "pqPuts s conn = do { (r, conn) \<leftarrow> pqPutMsgBytes (s @ [0]) conn; Some (if r \<noteq> 0 then EOF else 0, conn) }"

definition pqPutnchar :: "byte list \<Rightarrow> pg_conn \<Rightarrow> (int \<times> pg_conn) option" where
  "pqPutnchar s conn = do { (r, conn) \<leftarrow> pqPutMsgBytes s conn; Some (if r \<noteq> 0 then EOF else 0, conn) }"

definition pqPutInt :: "int \<Rightarrow> nat \<Rightarrow> pg_conn \<Rightarrow> (int \<times> pg_conn) option" where
  "pqPutInt v bytes conn =
     (if bytes = 2 \<or> bytes = 4 then do {
        (r, conn) \<leftarrow> pqPutMsgBytes (be_bytes bytes v) conn;
        Some (if r \<noteq> 0 then EOF else 0, conn)
      }
      else do {
        conn \<leftarrow> pqInternalNotice conn (lit ''integer of size '' @ show_nat bytes @ lit '' not supported by pqPutInt'');
        Some (EOF, conn)
      })"


section \<open>Multibyte helpers\<close>

definition PQmblen :: "byte list \<Rightarrow> int \<Rightarrow> int option" where
  "PQmblen s encoding = pg_encoding_mblen encoding s"

definition PQdsplen :: "byte list \<Rightarrow> int \<Rightarrow> int option" where
  "PQdsplen s encoding = pg_encoding_dsplen encoding s"

text \<open>The value of \<open>getenv("PGCLIENTENCODING")\<close> is an argument.\<close>

definition PQenv2encoding :: "ctype \<Rightarrow> byte list option \<Rightarrow> int option" where
  "PQenv2encoding ct str =
     (case str of
        Some (c # s) \<Rightarrow> do {
          encoding \<leftarrow> pg_char_to_encoding ct (Some (c # s));
          Some (if encoding < 0 then PG_SQL_ASCII else encoding)
        }
      | _ \<Rightarrow> Some PG_SQL_ASCII)"



section \<open>The invariant of a connection\<close>

text \<open>What a result must satisfy for the allocator: some set of regions accounts for its space.\<close>

definition res_ok :: "pg_result \<Rightarrow> bool" where
  "res_ok res \<longleftrightarrow> (\<exists>R. arena_ok res R)"

definition in_ok :: "pg_conn \<Rightarrow> bool" where
  "in_ok conn \<longleftrightarrow>
     length (inBuffer conn) = nat (inBufSize conn) \<and> inBufSize conn mod 8192 = 0 \<and>
     0 < inBufSize conn \<and> inBufSize conn < 2 ^ 31 \<and>
     0 \<le> inStart conn \<and> inStart conn \<le> inCursor conn \<and> inCursor conn \<le> inEnd conn \<and> inEnd conn \<le> inBufSize conn"

definition out_ok :: "pg_conn \<Rightarrow> bool" where
  "out_ok conn \<longleftrightarrow>
     length (outBuffer conn) = nat (outBufSize conn) \<and> outBufSize conn mod 8192 = 0 \<and>
     0 < outBufSize conn \<and> outBufSize conn < 2 ^ 31 \<and> 0 \<le> outCount conn \<and> outCount conn \<le> outBufSize conn"

definition conn_ok :: "pg_conn \<Rightarrow> bool" where
  "conn_ok conn \<longleftrightarrow> in_ok conn \<and> out_ok conn \<and> valid_expbuf (errorMessage conn) \<and> valid_expbuf (workBuffer conn)"

text \<open>The message under construction.\<close>

definition msg_ok :: "pg_conn \<Rightarrow> bool" where
  "msg_ok conn \<longleftrightarrow>
     outCount conn \<le> outMsgEnd conn \<and> outMsgEnd conn \<le> outBufSize conn \<and>
     (outMsgStart conn = - 1 \<or> outCount conn \<le> outMsgStart conn \<and> outMsgStart conn + 4 \<le> outMsgEnd conn)"

text \<open>The unread bytes: from \<open>inCursor\<close>, and of the whole message from \<open>inStart\<close>; the bytes waiting to be sent.\<close>

definition unread :: "pg_conn \<Rightarrow> byte list" where
  "unread conn = take (nat (inEnd conn - inCursor conn)) (drop (nat (inCursor conn)) (inBuffer conn))"

definition in_data :: "pg_conn \<Rightarrow> byte list" where
  "in_data conn = take (nat (inEnd conn - inStart conn)) (drop (nat (inStart conn)) (inBuffer conn))"

definition pending :: "pg_conn \<Rightarrow> byte list" where
  "pending conn = take (nat (outCount conn)) (outBuffer conn)"

lemma conn_ok_cong:
  assumes "conn_ok c" "inBuffer c' = inBuffer c" "inBufSize c' = inBufSize c" "inStart c' = inStart c"
    "inCursor c' = inCursor c" "inEnd c' = inEnd c" "outBuffer c' = outBuffer c" "outBufSize c' = outBufSize c"
    "outCount c' = outCount c" "valid_expbuf (errorMessage c')" "valid_expbuf (workBuffer c')"
  shows "conn_ok c'"
  using assms by (simp add: conn_ok_def in_ok_def out_ok_def)

text \<open>\<open>only_env\<close>: nothing but the environment and the error message changed.\<close>

definition only_env :: "pg_conn \<Rightarrow> pg_conn \<Rightarrow> bool" where
  "only_env c c' \<longleftrightarrow> c'\<lparr>env := env c, errorMessage := errorMessage c\<rparr> = c"

lemma only_env_trans: "only_env a b \<Longrightarrow> only_env b c \<Longrightarrow> only_env a c"
  unfolding only_env_def by (cases a; cases b; cases c) simp

lemma only_env_refl [simp]: "only_env c c"
  by (simp add: only_env_def)

lemma only_env_update [simp]: "only_env c (c\<lparr>env := e\<rparr>)" "only_env c (c\<lparr>errorMessage := m\<rparr>)"
  by (simp_all add: only_env_def)


lemma only_env_fields:
  assumes "only_env c c'"
  shows "inBuffer c' = inBuffer c" "inBufSize c' = inBufSize c" "inStart c' = inStart c" "inCursor c' = inCursor c"
    "inEnd c' = inEnd c" "outBuffer c' = outBuffer c" "outBufSize c' = outBufSize c" "outCount c' = outCount c"
    "outMsgStart c' = outMsgStart c" "outMsgEnd c' = outMsgEnd c" "workBuffer c' = workBuffer c" "sock c' = sock c"
    "nonblocking c' = nonblocking c" "result c' = result c" "asyncStatus c' = asyncStatus c" "status c' = status c"
    "pversion c' = pversion c" "noticeRec c' = noticeRec c"
  using assms unfolding only_env_def by (cases c; cases c'; simp)+

lemma only_env_ok: "conn_ok c \<Longrightarrow> only_env c c' \<Longrightarrow> valid_expbuf (errorMessage c') \<Longrightarrow> conn_ok c'"
  by (rule conn_ok_cong) (auto simp: only_env_fields conn_ok_def)

lemma conn_ok_env [simp]: "conn_ok (c\<lparr>env := e\<rparr>) = conn_ok c"
  by (simp add: conn_ok_def in_ok_def out_ok_def)

lemma in_ok_env [simp]: "in_ok (c\<lparr>env := e\<rparr>) = in_ok c"
  by (simp add: in_ok_def)

lemma set_alloc_ok [simp]: "conn_ok (set_alloc a c) = conn_ok c" "only_env c (set_alloc a c)"
  by (simp_all add: set_alloc_def)

text \<open>The two ways of reporting change the message, the notices and the allocator only.\<close>

definition same_net :: "env \<Rightarrow> env \<Rightarrow> bool" where
  "same_net e e' \<longleftrightarrow> e'\<lparr>e_alloc := e_alloc e, e_notices := e_notices e\<rparr> = e"

lemma same_net_fields:
  assumes "same_net e e'"
  shows "e_recv e' = e_recv e" "e_send e' = e_send e" "e_poll e' = e_poll e" "e_sent e' = e_sent e"
    "e_errno e' = e_errno e" "e_now e' = e_now e" "e_strerror e' = e_strerror e" "e_ctype e' = e_ctype e"
  using assms unfolding same_net_def by (cases e; cases e'; simp)+

lemma same_net_refl [simp]: "same_net e e" "same_net e (e\<lparr>e_alloc := a\<rparr>)" "same_net e (e\<lparr>e_notices := n\<rparr>)"
    "same_net e (e\<lparr>e_alloc := a, e_notices := n\<rparr>)"
  by (simp_all add: same_net_def)

lemma printf_error_spec:
  assumes "valid_expbuf (errorMessage c)" "length txt < 2 ^ 31"
  shows "\<exists>c'. printf_error c txt = Some c' \<and> only_env c c' \<and> same_net (env c) (env c') \<and> valid_expbuf (errorMessage c')"
  using printfPQExpBuffer_spec [OF assms, of "e_alloc (env c)"]
  by (auto simp: printf_error_def set_alloc_def only_env_def same_net_def)

lemma printf_error_ok:
  assumes "conn_ok c" "length txt < 2 ^ 31"
  obtains c' where "printf_error c txt = Some c'" "only_env c c'" "same_net (env c) (env c')" "conn_ok c'"
  using printf_error_spec [of c "txt"] assms only_env_ok [OF assms(1)] by (auto simp: conn_ok_def)

lemma lit_length [simp]: "length (lit s) = length s"
  by (simp add: c_bytes_def)

lemma res_ok_cong:
  assumes "curBlock r' = curBlock r" "curOffset r' = curOffset r" "spaceLeft r' = spaceLeft r" "nextBlock r' = nextBlock r"
  shows "res_ok r' = res_ok r"
proof -
  have "region_in r' x = region_in r x" for x using assms by (cases x) (simp add: region_in_def)
  moreover have "free_space_ok r' R = free_space_ok r R" for R
    using assms by (cases "curBlock r") (simp_all add: free_space_ok_def)
  ultimately have "arena_ok r' R = arena_ok r R" for R using assms by (simp add: arena_ok_def)
  then show ?thesis by (simp add: res_ok_def)
qed

lemma resOk_alloc:
  assumes "res_ok res" "0 < n" "n < 4294967288"
  obtains sp res' a' where "pqResultAlloc a res n bin = Some (sp, res', a')" "res_ok res'" "only_space_changed res res'"
    "sp = None \<longrightarrow> \<not> next_ok a"
proof -
  from assms(1) obtain R where R: "arena_ok res R" by (auto simp: res_ok_def)
  show ?thesis
    using pqResultAlloc_spec [OF R assms(2,3), of a bin] that by (fastforce simp: res_ok_def split: option.splits space.splits)
qed

lemma pqSaveMessageField_total:
  assumes "res_ok res" "length v < 2 ^ 31"
  obtains res' a' where "pqSaveMessageField a res code v = Some (res', a')" "res_ok res'"
proof -
  have n: "0 < szadd sizeof_PGMessageField (length v)" "szadd sizeof_PGMessageField (length v) < 4294967288"
    using assms(2) by (simp_all add: szadd_def sizeof_PGMessageField_def)
  obtain sp r a' where r: "pqResultAlloc a res (szadd sizeof_PGMessageField (length v)) True = Some (sp, r, a')" "res_ok r"
    by (rule resOk_alloc [OF assms(1) n])
  have "res_ok (r\<lparr>errFields := f\<rparr>)" for f using r(2) res_ok_cong [of "r\<lparr>errFields := f\<rparr>" r] by simp
  then show ?thesis using that r by (cases sp) (auto simp: pqSaveMessageField_def)
qed

lemma internal_notice_spec: "\<exists>e'. internal_notice hooks e txt = Some e' \<and> same_net e e'"
proof (cases hooks)
  case True
  let ?a = "e_alloc e" and ?m = "take 1023 txt"
  show ?thesis
  proof (cases "next_ok ?a")
    case ok: True
    let ?r = "(empty_result False PG_SQL_ASCII PGRES_NONFATAL_ERROR)\<lparr>res_noticeRec := True\<rparr>"
    have r0: "res_ok ?r"
      using arena_empty [of True PG_SQL_ASCII PGRES_NONFATAL_ERROR] by (auto simp: res_ok_def empty_result_def)
    have short: "length ?m < 2 ^ 31" by (simp add: min_less_iff_disj)
    have short2: "length (lit ''NOTICE'') < 2 ^ 31" by simp
    obtain r1 a1 where 1: "pqSaveMessageField (after_alloc ?a) ?r PG_DIAG_MESSAGE_PRIMARY ?m = Some (r1, a1)" "res_ok r1"
      by (rule pqSaveMessageField_total [OF r0 short])
    obtain r2 a2 where 2: "pqSaveMessageField a1 r1 PG_DIAG_SEVERITY (lit ''NOTICE'') = Some (r2, a2)" "res_ok r2"
      by (rule pqSaveMessageField_total [OF 1(2) short2])
    have n: "0 < szadd (length ?m) 2" "szadd (length ?m) 2 < 4294967288" using short by (simp_all add: szadd_def)
    obtain sp r3 a3 where 3: "pqResultAlloc a2 r2 (szadd (length ?m) 2) False = Some (sp, r3, a3)"
      by (rule resOk_alloc [OF 2(2) n])
    show ?thesis
      using True ok 1(1) 2(1) 3
      by (cases sp) (auto simp: internal_notice_def PQmakeEmptyPGresult_def same_net_def)
  qed (use True in \<open>auto simp: internal_notice_def PQmakeEmptyPGresult_def same_net_def\<close>)
qed (simp add: internal_notice_def)

lemma pqInternalNotice_spec:
  "\<exists>c'. pqInternalNotice c txt = Some c' \<and> only_env c c' \<and> same_net (env c) (env c') \<and> errorMessage c' = errorMessage c"
  using internal_notice_spec [of "noticeRec c" "env c" "txt"] by (auto simp: pqInternalNotice_def only_env_def)


section \<open>Reading: what every operation does to the unread bytes\<close>

lemma conn_ok_cursor:
  assumes "conn_ok c" "inCursor c \<le> k" "k \<le> inEnd c"
  shows "conn_ok (c\<lparr>inCursor := k\<rparr>)"
  using assms by (simp add: conn_ok_def in_ok_def out_ok_def)

text \<open>The sizes are multiples of 8192 below \<open>2 ^ 31\<close>: there is always room above the end.\<close>

lemma size_bound: "n mod 8192 = 0 \<Longrightarrow> n < 2 ^ 31 \<Longrightarrow> n \<le> 2 ^ 31 - (8192 :: int)"
  by (auto elim!: dvdE simp flip: dvd_eq_mod_eq_0)

lemma in_okD:
  assumes "in_ok c"
  shows "0 \<le> inStart c" "inStart c \<le> inCursor c" "inCursor c \<le> inEnd c" "inEnd c \<le> inBufSize c"
    "length (inBuffer c) = nat (inBufSize c)" "inBufSize c \<le> 2147475456" "0 < inBufSize c"
  using assms size_bound [of "inBufSize c"] by (simp_all add: in_ok_def)

lemma out_okD:
  assumes "out_ok c"
  shows "0 \<le> outCount c" "outCount c \<le> outBufSize c" "length (outBuffer c) = nat (outBufSize c)"
    "outBufSize c \<le> 2147475456" "0 < outBufSize c"
  using assms size_bound [of "outBufSize c"] by (simp_all add: out_ok_def)

lemma conn_okD: "conn_ok c \<Longrightarrow> in_ok c" "conn_ok c \<Longrightarrow> out_ok c" "conn_ok c \<Longrightarrow> valid_expbuf (errorMessage c)"
    "conn_ok c \<Longrightarrow> valid_expbuf (workBuffer c)"
  by (simp_all add: conn_ok_def)

lemma unread_length: "in_ok c \<Longrightarrow> length (unread c) = nat (inEnd c - inCursor c)"
  using in_okD [of c] by (simp add: unread_def)

lemma unread_nth: "in_ok c \<Longrightarrow> i < length (unread c) \<Longrightarrow> unread c ! i = inBuffer c ! (nat (inCursor c) + i)"
  using in_okD [of c] by (simp add: unread_def)

lemma unread_skip:
  assumes "in_ok c" "k \<le> length (unread c)"
  shows "unread (c\<lparr>inCursor := inCursor c + int k\<rparr>) = drop k (unread c)"
proof -
  have "nat (inEnd c - (inCursor c + int k)) = nat (inEnd c) - (k + nat (inCursor c))"
    using in_okD [OF assms(1)] by linarith
  moreover have "nat (inCursor c + int k) = k + nat (inCursor c)" using in_okD [OF assms(1)] by linarith
  moreover have "nat (inEnd c - inCursor c) - k = nat (inEnd c) - (k + nat (inCursor c))"
    using in_okD [OF assms(1)] by linarith
  ultimately show ?thesis by (simp add: unread_def drop_take)
qed

lemma rd_bytes_unread:
  assumes "in_ok c" "n \<le> length (unread c)"
  shows "rd_bytes (inBuffer c) (nat (inCursor c)) n = Some (take n (unread c))"
  using assms in_okD [OF assms(1)] unread_length [OF assms(1)]
  by (simp add: rd_bytes_def unread_def min_def nat_le_iff) linarith

text \<open>
  \<open>advanced c k c'\<close>: the cursor moved over \<open>k\<close> unread bytes; apart from it only the environment and the
  error message may have changed.
\<close>

definition advanced :: "pg_conn \<Rightarrow> nat \<Rightarrow> pg_conn \<Rightarrow> bool" where
  "advanced c k c' \<longleftrightarrow> k \<le> length (unread c) \<and> only_env (c\<lparr>inCursor := inCursor c + int k\<rparr>) c'"

lemma advanced_unread: "in_ok c \<Longrightarrow> advanced c k c' \<Longrightarrow> unread c' = drop k (unread c)"
  unfolding advanced_def
  by (subst unread_skip [symmetric]) (auto simp: only_env_fields unread_def [of c'] unread_def [of "_\<lparr>inCursor := _\<rparr>"])

lemma advanced_0: "only_env c c' \<Longrightarrow> advanced c 0 c'"
  by (simp add: advanced_def)

lemma advanced_ok:
  assumes "conn_ok c" "advanced c k c'" "valid_expbuf (errorMessage c')"
  shows "conn_ok c'"
proof -
  have "k \<le> nat (inEnd c - inCursor c)" using assms(1,2) unread_length conn_okD(1) by (auto simp: advanced_def)
  then have "conn_ok (c\<lparr>inCursor := inCursor c + int k\<rparr>)"
    using assms(1) in_okD [OF conn_okD(1) [OF assms(1)]] by (intro conn_ok_cursor) auto
  then show ?thesis using assms(2,3) only_env_ok by (auto simp: advanced_def)
qed

lemma cursor_wrap:
  assumes "in_ok c" "k \<le> length (unread c)"
  shows "wrap32 (inCursor c + int k) = inCursor c + int k"
  using assms in_okD [OF assms(1)] unread_length [OF assms(1)] by (intro c_arith) auto

lemma pqGetc_spec:
  assumes "conn_ok c"
  shows "case unread c of
      [] \<Rightarrow> pqGetc c = Some (None, c)
    | b # r \<Rightarrow> \<exists>c'. pqGetc c = Some (Some b, c') \<and> advanced c 1 c' \<and> conn_ok c' \<and> unread c' = r"
proof (cases "unread c")
  case Nil
  then show ?thesis using unread_length [OF conn_okD(1) [OF assms]] by (simp add: pqGetc_def)
next
  case (Cons b r)
  note ok = conn_okD(1) [OF assms]
  have lt: "inCursor c < inEnd c" using unread_length [OF ok] Cons by auto
  let ?c' = "c\<lparr>inCursor := inCursor c + 1\<rparr>"
  have "rdi (inBuffer c) (inCursor c) = Some b"
    using lt in_okD [OF ok] unread_nth [OF ok, of 0] Cons by (simp add: mem_simps)
  then have "pqGetc c = Some (Some b, ?c')" using lt cursor_wrap [OF ok, of 1] Cons by (simp add: pqGetc_def)
  moreover have "advanced c 1 ?c'" using Cons by (simp add: advanced_def)
  moreover from this have "conn_ok ?c'" using advanced_ok [OF assms, of 1 ?c'] conn_okD(3) [OF assms] by simp
  moreover have "unread ?c' = r" using unread_skip [OF ok, of 1] Cons by simp
  ultimately show ?thesis using Cons by auto
qed

lemma gets_scan_spec:
  assumes "in_ok c" "k \<le> length (unread c)"
  shows "gets_scan (inBuffer c) (inCursor c + int k) (inEnd c) =
    Some (inCursor c + int k + int (length (c_str (drop k (unread c)))))"
  using assms(2)
proof (induction "length (unread c) - k" arbitrary: k)
  case 0
  then show ?case using unread_length [OF assms(1)] by (subst gets_scan.simps) auto
next
  case (Suc n)
  have lt: "k < length (unread c)" using Suc by simp
  have rd: "rdi (inBuffer c) (inCursor c + int k) = Some (unread c ! k)"
    using lt in_okD [OF assms(1)] unread_length [OF assms(1)] unread_nth [OF assms(1) lt]
    by (simp add: mem_simps nat_add_distrib)
  have IH: "gets_scan (inBuffer c) (inCursor c + int (Suc k)) (inEnd c) =
      Some (inCursor c + int (Suc k) + int (length (c_str (drop (Suc k) (unread c)))))"
    by (rule Suc.hyps(1)) (use Suc in auto)
  have split: "drop k (unread c) = unread c ! k # drop (Suc k) (unread c)" using lt by (simp add: Cons_nth_drop_Suc)
  have "inCursor c + int k < inEnd c" using lt unread_length [OF assms(1)] by linarith
  then show ?case
    using rd IH by (subst gets_scan.simps) (simp add: split c_str_Cons algebra_simps)
qed


lemma c_str_lt: "0 \<in> set s \<Longrightarrow> length (c_str s) < length s"
  by (induction s) (auto simp: c_str_Cons)

lemma c_str_take: "take (length (c_str s)) s = c_str s"
  by (simp add: c_str_def takeWhile_eq_take [symmetric])

lemma c_str_full: "0 \<notin> set s \<Longrightarrow> length (c_str s) = length s"
  by (simp add: c_str_id)

lemma pqGets_internal_spec:
  assumes "conn_ok c" "valid_expbuf buf"
  shows "if 0 \<in> set (unread c) then \<exists>buf' c'. pqGets_internal buf c reset = Some (0, buf', c') \<and>
      advanced c (length (c_str (unread c)) + 1) c' \<and> conn_ok c' \<and> valid_expbuf buf' \<and>
      (\<not> PQExpBufferBroken buf' \<longrightarrow> eb_contents buf' = (if reset then [] else eb_contents buf) @ c_str (unread c)) \<and>
      same_net (env c) (env c') \<and> errorMessage c' = errorMessage c
    else pqGets_internal buf c reset = Some (EOF, buf, c)"
proof -
  note ok = conn_okD(1) [OF assms(1)]
  let ?s = "c_str (unread c)"
  have scan: "gets_scan (inBuffer c) (inCursor c) (inEnd c) = Some (inCursor c + int (length ?s))"
    using gets_scan_spec [OF ok, of 0] by simp
  have len: "int (length (unread c)) = inEnd c - inCursor c" using unread_length [OF ok] in_okD [OF ok] by simp
  show ?thesis
  proof (cases "0 \<in> set (unread c)")
    case False
    then show ?thesis using scan len c_str_full [OF False] by (simp add: pqGets_internal_def)
  next
    case True
    then have lt: "length ?s < length (unread c)" by (rule c_str_lt)
    then have cur: "inCursor c + int (length ?s) < inEnd c" using len by linarith
    have "length ?s < 4294967296" using lt len in_okD [OF ok] by linarith
    then have short: "length ?s < 2 ^ 32" by simp
    let ?a = "e_alloc (env c)"
    obtain b1 a1 where 1: "(if reset then resetPQExpBuffer ?a buf else Some (buf, ?a)) = Some (b1, a1)" "valid_expbuf b1"
      "eb_contents b1 = (if reset then [] else eb_contents buf)"
      using resetPQExpBuffer_spec [OF assms(2), of ?a] assms(2) by (cases reset) auto
    obtain b2 a2 where 2: "appendBinaryPQExpBuffer a1 b1 ?s = Some (b2, a2)" "appended b1 ?s b2"
      using appendBinaryPQExpBuffer_spec [OF 1(2) short] by blast
    let ?c' = "set_alloc a2 (c\<lparr>inCursor := inCursor c + int (length ?s + 1)\<rparr>)"
    have rd: "rd_bytes (inBuffer c) (nat (inCursor c)) (length ?s) = Some ?s"
      using rd_bytes_unread [OF ok, of "length ?s"] lt c_str_take [of "unread c"] by simp
    have "wrap32 (inCursor c + int (length ?s + 1)) = inCursor c + int (length ?s + 1)"
      using cursor_wrap [OF ok, of "length ?s + 1"] lt by simp
    then have run: "pqGets_internal buf c reset = Some (0, b2, ?c')"
      unfolding pqGets_internal_def scan bind.bind_lunit Let_def
      using cur 1(1) 2(1) rd by (simp add: algebra_simps)
    have adv: "advanced c (length ?s + 1) ?c'" using lt by (simp add: advanced_def)
    moreover have "conn_ok ?c'" using advanced_ok [OF assms(1) adv] conn_okD(3) [OF assms(1)] by (simp add: set_alloc_def)
    ultimately show ?thesis using True run 1(3) 2(2)
      by (auto simp: appended_def set_alloc_def)
  qed
qed

lemma pqGetnchar_spec:
  assumes "conn_ok c"
  shows "if n \<le> length (unread c) then \<exists>c'. pqGetnchar n c = Some (Some (take n (unread c)), c') \<and>
      advanced c n c' \<and> conn_ok c' \<and> env c' = env c \<and> errorMessage c' = errorMessage c
    else pqGetnchar n c = Some (None, c)"
proof -
  note ok = conn_okD(1) [OF assms]
  have len: "nat ((inEnd c - inCursor c) mod 2 ^ 32) = length (unread c)"
    using unread_length [OF ok] in_okD [OF ok] by simp
  let ?c' = "c\<lparr>inCursor := inCursor c + int n\<rparr>"
  show ?thesis
  proof (cases "n \<le> length (unread c)")
    case True
    then have "advanced c n ?c'" by (simp add: advanced_def)
    then show ?thesis
      using True len cursor_wrap [OF ok True] rd_bytes_unread [OF ok True] advanced_ok [OF assms] conn_okD(3) [OF assms]
      by (simp add: pqGetnchar_def)
  qed (use len in \<open>simp add: pqGetnchar_def\<close>)
qed

lemma be_value_append: "be_value (s @ [b]) = 256 * be_value s + int (unat b)"
  by (simp add: be_value_def)

lemma be_value_range: "0 \<le> be_value s \<and> be_value s < 256 ^ length s"
proof (induction s rule: rev_induct)
  case (snoc b s)
  have "int (unat b) < 256" using unat_byte [of b] by linarith
  then have "256 * be_value s + int (unat b) < 256 * (be_value s + 1)" by simp
  also have "\<dots> \<le> 256 * 256 ^ length s" using snoc by (intro mult_left_mono) simp_all
  finally show ?case using snoc unfolding be_value_append by simp
qed (simp add: be_value_def)

lemma be_bytes_Suc: "be_bytes (Suc n) v = be_bytes n (v div 256) @ [of_int v]"
proof -
  have "map (\<lambda>i. of_int (v div 256 ^ i)) [0..<Suc n] = of_int v # map (\<lambda>i. of_int (v div 256 div 256 ^ i) :: byte) [0..<n]"
    by (subst upt_conv_Cons, simp, subst map_Suc_upt [symmetric]) (simp add: zdiv_zmult2_eq [symmetric] o_def)
  then show ?thesis by (simp add: be_bytes_def)
qed

lemma be_bytes_length [simp]: "length (be_bytes n v) = n"
  by (simp add: be_bytes_def)

lemma be_value_bytes: "be_value (be_bytes n v) = v mod 256 ^ n"
proof (induction n arbitrary: v)
  case (Suc n)
  have "int (unat (of_int v :: byte)) = v mod 256" by (simp add: uint_word_of_int)
  then show ?case unfolding be_bytes_Suc be_value_append Suc
    by (simp add: zmod_zmult2_eq)
qed (simp add: be_bytes_def be_value_def)

text \<open>What \<open>pqGetInt\<close> makes of the bytes: an unsigned short, a signed long.\<close>

definition net_int :: "byte list \<Rightarrow> int" where
  "net_int bs = (if length bs = 4 then wrap32 (be_value bs) else be_value bs)"

lemma pqGetInt_spec:
  assumes "conn_ok c" "n = 2 \<or> n = 4"
  shows "if n \<le> length (unread c) then \<exists>c'. pqGetInt n c = Some (Some (net_int (take n (unread c))), c') \<and>
      advanced c n c' \<and> conn_ok c' \<and> env c' = env c \<and> errorMessage c' = errorMessage c
    else pqGetInt n c = Some (None, c)"
proof -
  note ok = conn_okD(1) [OF assms(1)]
  let ?c' = "c\<lparr>inCursor := inCursor c + int n\<rparr>"
  have wrap: "wrap32 (inCursor c + int n) = inCursor c + int n"
    using in_okD [OF ok] assms(2) by (intro c_arith) auto
  have le: "(wrap32 (inCursor c + int n) > inEnd c) = (\<not> n \<le> length (unread c))"
    unfolding wrap using unread_length [OF ok] in_okD [OF ok] by linarith
  show ?thesis
  proof (cases "n \<le> length (unread c)")
    case True
    then have adv: "advanced c n ?c'" by (simp add: advanced_def)
    have "length (take n (unread c)) = n" using True by simp
    then have net: "net_int (take n (unread c)) = (if n = 4 then wrap32 (be_value (take n (unread c))) else be_value (take n (unread c)))"
      by (simp add: net_int_def)
    have "pqGetInt n c = Some (Some (net_int (take n (unread c))), ?c')"
      using assms(2) True le wrap rd_bytes_unread [OF ok True] net by (auto simp: pqGetInt_def)
    then show ?thesis using True adv advanced_ok [OF assms(1) adv] conn_okD(3) [OF assms(1)] by simp
  qed (use le assms(2) in \<open>auto simp: pqGetInt_def\<close>)
qed



section \<open>Room in the buffers\<close>

text \<open>
  Both ways of enlarging a buffer have the same contract: as long as the size stays in range it grows
  and stays a multiple of 8192; otherwise the step shows the overflow by a size that is not positive.
\<close>

definition good_size :: "int \<Rightarrow> bool" where
  "good_size n \<longleftrightarrow> 0 < n \<and> n < 2147483648 \<and> n mod 8192 = 0"

lemma good_size_le: "good_size n \<Longrightarrow> n \<le> 2147475456"
  using size_bound [of n] by (simp add: good_size_def)

locale size_step =
  fixes step :: "int \<Rightarrow> int"
  assumes step_grows: "good_size n \<Longrightarrow> step n \<le> 0 \<or> n < step n \<and> good_size (step n)"
begin

lemma loop_ends:
  assumes "good_size n"
  shows "\<exists>m. size_loop step need n = Some m \<and> (m \<le> 0 \<or> n < m \<and> good_size m \<and> need \<le> nat m)"
  using assms
proof (induction "nat (2147483648 - n)" arbitrary: n rule: less_induct)
  case less
  show ?case
  proof (cases "step n > 0 \<and> need > nat (step n)")
    case True
    then have good: "n < step n" "good_size (step n)" using step_grows [OF less.prems] by auto
    have "nat (2147483648 - step n) < nat (2147483648 - n)" using good by (simp add: good_size_def)
    from less.hyps [OF this good(2)] show ?thesis
      using True good(1) by (subst size_loop.simps) (auto simp: Let_def)
  next
    case False
    then have run: "size_loop step need n = Some (step n)" by (subst size_loop.simps) (auto simp: Let_def)
    show ?thesis using run False step_grows [OF less.prems] by auto
  qed
qed

end

lemma double_size_step: "good_size n \<Longrightarrow> double_size n \<le> 0 \<or> double_size n = 2 * n \<and> good_size (2 * n)"
proof (cases "n < 1073741824")
  case True
  moreover assume "good_size n"
  ultimately show ?thesis by (simp add: double_size_def c_arith good_size_def mod_mult_right_eq [symmetric])
next
  case False
  moreover assume "good_size n"
  ultimately have n: "0 \<le> 2 * n - 2147483648" "2 * n - 2147483648 < 2147483648" by (simp_all add: good_size_def)
  have "(n * 2 + 2147483648) mod 4294967296 = (2 * n - 2147483648) mod 4294967296"
    by (simp add: mod_eq_dvd_iff)
  also have "\<dots> = 2 * n - 2147483648" using n by simp
  finally show ?thesis using n by (simp add: double_size_def wrap32_def)
qed

lemma step_size_step:
  assumes "good_size n"
  shows "step_size n \<le> 0 \<or> step_size n = n + 8192 \<and> good_size (n + 8192)" "n < 2147475456 \<Longrightarrow> step_size n = n + 8192"
proof -
  show 1: "n < 2147475456 \<Longrightarrow> step_size n = n + 8192"
    using assms by (simp add: step_size_def c_arith good_size_def)
  show "step_size n \<le> 0 \<or> step_size n = n + 8192 \<and> good_size (n + 8192)"
  proof (cases "n < 2147475456")
    case True
    then show ?thesis using 1 assms by (simp add: good_size_def)
  next
    case False
    then have "n = 2147475456" using good_size_le [OF assms] by simp
    then show ?thesis by (simp add: step_size_def wrap32_def)
  qed
qed

interpretation doubling: size_step double_size
  by unfold_locales (use double_size_step in \<open>fastforce simp: good_size_def\<close>)

interpretation stepping: size_step step_size
  by unfold_locales (use step_size_step(1) in fastforce)

text \<open>In steps of 8192 every size up to \<open>2 ^ 31 - 8192\<close> is reached.\<close>

lemma stepping_reaches:
  assumes "good_size n" "nat n < need" "need \<le> 2147475456" "size_loop step_size need n = Some m"
  shows "0 < m"
  using assms
proof (induction "nat (2147483648 - n)" arbitrary: n rule: less_induct)
  case less
  have n: "n < 2147475456" using less.prems by linarith
  then have step: "step_size n = n + 8192" "good_size (n + 8192)"
    using step_size_step [OF less.prems(1)] less.prems(1) by (auto simp: good_size_def)
  show ?case
  proof (cases "need > nat (n + 8192)")
    case True
    have "nat (2147483648 - (n + 8192)) < nat (2147483648 - n)" using n by simp
    moreover have "size_loop step_size need (n + 8192) = Some m"
      using less.prems(4) True step less.prems(1) by (subst (asm) size_loop.simps) (simp add: good_size_def Let_def)
    ultimately show ?thesis using less.hyps step(2) True less.prems(3) by blast
  next
    case False
    then have "m = n + 8192" using less.prems(4) step by (subst (asm) size_loop.simps) (simp add: Let_def)
    then show ?thesis using less.prems(1) by (simp add: good_size_def)
  qed
qed

text \<open>\<open>grown\<close>: a new block that starts with the old one.\<close>

definition grown :: "byte list \<Rightarrow> int \<Rightarrow> nat \<Rightarrow> byte list \<Rightarrow> int \<Rightarrow> bool" where
  "grown old oldsize need new newsize \<longleftrightarrow>
     good_size newsize \<and> oldsize \<le> newsize \<and> length new = nat newsize \<and> need \<le> nat newsize \<and>
     take (length old) new = old"

lemma try_size_spec:
  assumes "length old = nat n" "m \<le> 0 \<or> n < m \<and> good_size m \<and> need \<le> nat m"
  shows "\<exists>r a'. try_size a old need m = (r, a') \<and>
    (case r of Some (new, k) \<Rightarrow> grown old n need new k | None \<Rightarrow> m \<le> 0 \<and> a' = a \<or> \<not> next_ok a \<and> a' = after_alloc a)"
  using assms by (auto simp: try_size_def c_realloc_def grown_def good_size_def)

lemma grow_buffer_spec:
  assumes "good_size n" "length old = nat n" "nat n < need"
  shows "\<exists>r a'. grow_buffer a old n need = Some (r, a') \<and>
    (case r of Some (new, k) \<Rightarrow> grown old n need new k | None \<Rightarrow> need \<le> 2147475456 \<longrightarrow> False \<in> set (oks a))"
proof -
  have fails: "\<not> next_ok a' \<Longrightarrow> False \<in> set (oks a')" "False \<in> set (oks (after_alloc a')) \<Longrightarrow> False \<in> set (oks a')" for a'
    by (cases "oks a'"; simp add: next_ok_def after_alloc_def)+
  obtain m where m: "size_loop double_size need n = Some m" "m \<le> 0 \<or> n < m \<and> good_size m \<and> need \<le> nat m"
    using doubling.loop_ends [OF assms(1)] by blast
  obtain k where k: "size_loop step_size need n = Some k" "k \<le> 0 \<or> n < k \<and> good_size k \<and> need \<le> nat k"
    using stepping.loop_ends [OF assms(1)] by blast
  obtain r a' where r: "try_size a old need m = (r, a')"
    "case r of Some (new, k) \<Rightarrow> grown old n need new k | None \<Rightarrow> m \<le> 0 \<and> a' = a \<or> \<not> next_ok a \<and> a' = after_alloc a"
    using try_size_spec [OF assms(2) m(2)] by blast
  obtain r' a'' where r': "try_size a' old need k = (r', a'')"
    "case r' of Some (new, k) \<Rightarrow> grown old n need new k | None \<Rightarrow> k \<le> 0 \<and> a'' = a' \<or> \<not> next_ok a' \<and> a'' = after_alloc a'"
    using try_size_spec [OF assms(2) k(2)] by blast
  show ?thesis
  proof (cases r)
    case None
    have "need \<le> 2147475456 \<Longrightarrow> \<not> k \<le> 0" using stepping_reaches [OF assms(1,3) _ k(1)] by auto
    then show ?thesis using None m(1) k(1) r r' fails by (cases r') (auto simp: grow_buffer_def)
  qed (use m r in \<open>auto simp: grow_buffer_def\<close>)
qed


lemma grown_bytes: "grown old n need new k \<Longrightarrow> take i new = take i old" if "i \<le> length old"
  using that unfolding grown_def by (metis min.absorb1 take_take)

text \<open>The frames: what an operation may change of a connection.\<close>

definition only_in :: "pg_conn \<Rightarrow> pg_conn \<Rightarrow> bool" where
  "only_in c c' \<longleftrightarrow> c'\<lparr>inBuffer := inBuffer c, inBufSize := inBufSize c, inStart := inStart c, inCursor := inCursor c,
     inEnd := inEnd c, status := status c, sock := sock c, env := env c, errorMessage := errorMessage c\<rparr> = c"

definition only_out :: "pg_conn \<Rightarrow> pg_conn \<Rightarrow> bool" where
  "only_out c c' \<longleftrightarrow> c'\<lparr>outBuffer := outBuffer c, outBufSize := outBufSize c, outCount := outCount c,
     outMsgStart := outMsgStart c, outMsgEnd := outMsgEnd c, env := env c, errorMessage := errorMessage c\<rparr> = c"

definition only_io :: "pg_conn \<Rightarrow> pg_conn \<Rightarrow> bool" where
  "only_io c c' \<longleftrightarrow> c'\<lparr>inBuffer := inBuffer c, inBufSize := inBufSize c, inStart := inStart c, inCursor := inCursor c,
     inEnd := inEnd c, status := status c, sock := sock c, outBuffer := outBuffer c, outBufSize := outBufSize c,
     outCount := outCount c, outMsgStart := outMsgStart c, outMsgEnd := outMsgEnd c,
     env := env c, errorMessage := errorMessage c\<rparr> = c"

lemma only_in_fields:
  assumes "only_in c c'"
  shows "outBuffer c' = outBuffer c" "outBufSize c' = outBufSize c" "outCount c' = outCount c"
    "outMsgStart c' = outMsgStart c" "outMsgEnd c' = outMsgEnd c" "workBuffer c' = workBuffer c"
    "nonblocking c' = nonblocking c" "result c' = result c" "asyncStatus c' = asyncStatus c" "pversion c' = pversion c"
    "noticeRec c' = noticeRec c"
  using assms unfolding only_in_def by (cases c; cases c'; simp)+

lemma only_out_fields:
  assumes "only_out c c'"
  shows "inBuffer c' = inBuffer c" "inBufSize c' = inBufSize c" "inStart c' = inStart c" "inCursor c' = inCursor c"
    "inEnd c' = inEnd c" "workBuffer c' = workBuffer c" "sock c' = sock c" "status c' = status c"
    "nonblocking c' = nonblocking c" "result c' = result c" "asyncStatus c' = asyncStatus c" "pversion c' = pversion c"
    "noticeRec c' = noticeRec c"
  using assms unfolding only_out_def by (cases c; cases c'; simp)+

lemma only_io_fields:
  assumes "only_io c c'"
  shows "workBuffer c' = workBuffer c" "nonblocking c' = nonblocking c" "result c' = result c"
    "asyncStatus c' = asyncStatus c" "pversion c' = pversion c" "noticeRec c' = noticeRec c"
  using assms unfolding only_io_def by (cases c; cases c'; simp)+

lemma frame_trans: "only_in a b \<Longrightarrow> only_in b c \<Longrightarrow> only_in a c" "only_out a b \<Longrightarrow> only_out b c \<Longrightarrow> only_out a c"
    "only_io a b \<Longrightarrow> only_io b c \<Longrightarrow> only_io a c"
  unfolding only_in_def only_out_def only_io_def by (cases a; cases b; cases c; simp)+

lemma frame_mono: "only_env a b \<Longrightarrow> only_in a b" "only_env a b \<Longrightarrow> only_out a b" "only_in a b \<Longrightarrow> only_io a b"
    "only_out a b \<Longrightarrow> only_io a b"
  unfolding only_in_def only_out_def only_io_def only_env_def by (cases a; cases b; simp)+

lemma frame_refl [simp]: "only_in c c" "only_out c c" "only_io c c"
  by (simp_all add: only_in_def only_out_def only_io_def)

lemma conn_ok_out:
  assumes "conn_ok c" "only_out c c'" "out_ok c'" "valid_expbuf (errorMessage c')"
  shows "conn_ok c'"
  using assms only_out_fields [OF assms(2)] by (simp add: conn_ok_def in_ok_def)

lemma conn_ok_in:
  assumes "conn_ok c" "only_in c c'" "in_ok c'" "valid_expbuf (errorMessage c')"
  shows "conn_ok c'"
  using assms only_in_fields [OF assms(2)] by (simp add: conn_ok_def out_ok_def)

lemma same_net_trans: "same_net a b \<Longrightarrow> same_net b c \<Longrightarrow> same_net a c"
  unfolding same_net_def by (cases a; cases b; cases c) simp

lemma printf_error_alloc:
  assumes "conn_ok c" "length txt < 2 ^ 31"
  obtains c' where "printf_error (set_alloc a c) txt = Some c'" "only_env c c'" "same_net (env c) (env c')" "conn_ok c'"
proof -
  have net: "same_net (env c) (env (set_alloc a c))" by (simp add: set_alloc_def)
  show ?thesis
    using printf_error_ok [of "set_alloc a c" "txt"] assms that only_env_trans [OF set_alloc_ok(2)] same_net_trans [OF net]
    by (metis set_alloc_ok(1))
qed

lemma pqCheckOutBufferSpace_spec:
  assumes "conn_ok c"
  shows "\<exists>r c'. pqCheckOutBufferSpace need c = Some (r, c') \<and> conn_ok c' \<and> same_net (env c) (env c') \<and>
    (if r = 0 then grown (outBuffer c) (outBufSize c) need (outBuffer c') (outBufSize c') \<and>
       c' = c\<lparr>outBuffer := outBuffer c', outBufSize := outBufSize c', env := env c'\<rparr>
     else r = EOF \<and> only_env c c' \<and> (need \<le> 2147475456 \<longrightarrow> False \<in> set (oks (e_alloc (env c)))))"
proof -
  have good: "good_size (outBufSize c)" "length (outBuffer c) = nat (outBufSize c)"
    using conn_okD(2) [OF assms] by (auto simp: out_ok_def good_size_def)
  show ?thesis
  proof (cases "need \<le> nat (outBufSize c)")
    case True
    then show ?thesis using assms good by (simp add: pqCheckOutBufferSpace_def grown_def)
  next
    case False
    then have lt: "nat (outBufSize c) < need" by simp
    obtain r a' where r: "grow_buffer (e_alloc (env c)) (outBuffer c) (outBufSize c) need = Some (r, a')"
      "case r of Some (new, k) \<Rightarrow> grown (outBuffer c) (outBufSize c) need new k
         | None \<Rightarrow> need \<le> 2147475456 \<longrightarrow> False \<in> set (oks (e_alloc (env c)))"
      using grow_buffer_spec [OF good lt] by blast
    show ?thesis
    proof (cases r)
      case None
      obtain c' where "printf_error (set_alloc a' c) (lit ''cannot allocate memory for output buffer'' @ [0x0A]) = Some c'"
        "only_env c c'" "same_net (env c) (env c')" "conn_ok c'"
        by (rule printf_error_alloc [OF assms, of "lit ''cannot allocate memory for output buffer'' @ [0x0A]" a']) simp
      then show ?thesis
        using None r False by (auto simp: pqCheckOutBufferSpace_def EOF_def)
    next
      case (Some p)
      obtain new k where p: "p = (new, k)" by (cases p)
      let ?c' = "set_alloc a' (c\<lparr>outBuffer := new, outBufSize := k\<rparr>)"
      have gr: "grown (outBuffer c) (outBufSize c) need new k" using r(2) Some p by simp
      have "conn_ok ?c'"
        using assms gr by (simp add: conn_ok_def out_ok_def in_ok_def grown_def good_size_def set_alloc_def)
      then show ?thesis
        using r(1) Some p False gr by (simp add: pqCheckOutBufferSpace_def set_alloc_def)
    qed
  qed
qed

lemma pqCheckInBufferSpace_spec:
  assumes "conn_ok c"
  shows "\<exists>r c'. pqCheckInBufferSpace need c = Some (r, c') \<and> conn_ok c' \<and> same_net (env c) (env c') \<and>
    (if r = 0 then grown (inBuffer c) (inBufSize c) need (inBuffer c') (inBufSize c') \<and>
       c' = c\<lparr>inBuffer := inBuffer c', inBufSize := inBufSize c', env := env c'\<rparr>
     else r = EOF \<and> only_env c c' \<and> (need \<le> 2147475456 \<longrightarrow> False \<in> set (oks (e_alloc (env c)))))"
proof -
  have good: "good_size (inBufSize c)" "length (inBuffer c) = nat (inBufSize c)"
    using conn_okD(1) [OF assms] by (auto simp: in_ok_def good_size_def)
  show ?thesis
  proof (cases "need \<le> nat (inBufSize c)")
    case True
    then show ?thesis using assms good by (simp add: pqCheckInBufferSpace_def grown_def)
  next
    case False
    then have lt: "nat (inBufSize c) < need" by simp
    obtain r a' where r: "grow_buffer (e_alloc (env c)) (inBuffer c) (inBufSize c) need = Some (r, a')"
      "case r of Some (new, k) \<Rightarrow> grown (inBuffer c) (inBufSize c) need new k
         | None \<Rightarrow> need \<le> 2147475456 \<longrightarrow> False \<in> set (oks (e_alloc (env c)))"
      using grow_buffer_spec [OF good lt] by blast
    show ?thesis
    proof (cases r)
      case None
      obtain c' where "printf_error (set_alloc a' c) (lit ''cannot allocate memory for input buffer'' @ [0x0A]) = Some c'"
        "only_env c c'" "same_net (env c) (env c')" "conn_ok c'"
        by (rule printf_error_alloc [OF assms, of "lit ''cannot allocate memory for input buffer'' @ [0x0A]" a']) simp
      then show ?thesis
        using None r False by (auto simp: pqCheckInBufferSpace_def EOF_def)
    next
      case (Some p)
      obtain new k where p: "p = (new, k)" by (cases p)
      let ?c' = "set_alloc a' (c\<lparr>inBuffer := new, inBufSize := k\<rparr>)"
      have gr: "grown (inBuffer c) (inBufSize c) need new k" using r(2) Some p by simp
      have "conn_ok ?c'"
        using assms gr by (auto simp: conn_ok_def out_ok_def in_ok_def grown_def good_size_def set_alloc_def)
      then show ?thesis
        using r(1) Some p False gr by (simp add: pqCheckInBufferSpace_def set_alloc_def)
    qed
  qed
qed



section \<open>The socket\<close>

definition same_io :: "env \<Rightarrow> env \<Rightarrow> bool" where
  "same_io e e' \<longleftrightarrow> e_recv e' = e_recv e \<and> e_send e' = e_send e \<and> e_sent e' = e_sent e"

lemma same_io_trans: "same_io a b \<Longrightarrow> same_io b c \<Longrightarrow> same_io a c"
  by (simp add: same_io_def)

lemma same_net_io: "same_net e e' \<Longrightarrow> same_io e e'"
  by (simp add: same_io_def same_net_fields)

lemma pqStrerror_length: "n \<ge> 256 \<Longrightarrow> length (pqStrerror en e n) < n"
  by (simp add: pqStrerror_def)

lemma errno_text_length: "length (errno_text en) < 256"
  by (simp add: errno_text_def pqStrerror_length split: option.split)

lemma server_closed_length: "length server_closed_text < 2 ^ 31"
  by (simp add: server_closed_text_def)

lemma poll_loop_ends:
  "\<exists>r en'. poll_loop en sck fr fw t = Some (r, en') \<and> same_io en en'"
proof (induction "length (e_poll en)" arbitrary: en rule: less_induct)
  case less
  obtain r en1 where p: "pqSocketPoll en sck fr fw t = (r, en1)" by fastforce
  have io: "same_io en en1" and fewer: "e_poll en \<noteq> [] \<or> r = 0 \<or> r = 1" "r < 0 \<Longrightarrow> length (e_poll en1) < length (e_poll en)"
    using p by (auto simp: pqSocketPoll_def c_poll_def same_io_def Let_def split: if_splits list.splits poll_event.splits)
  show ?case
  proof (cases "r < 0 \<and> e_errno en1 = Some EINTR")
    case True
    then obtain r' en' where "poll_loop en1 sck fr fw t = Some (r', en')" "same_io en1 en'"
      using less fewer(2) by blast
    then show ?thesis using True p io same_io_trans by (subst poll_loop.simps) auto
  next
    case False
    then show ?thesis using p io by (subst poll_loop.simps) auto
  qed
qed

lemma pqSocketCheck_spec:
  assumes "conn_ok c"
  shows "\<exists>r c'. pqSocketCheck c fr fw t = Some (r, c') \<and> only_env c c' \<and> conn_ok c' \<and> same_io (env c) (env c')"
proof (cases "sock c < 0")
  case True
  obtain c' where "printf_error c (lit ''socket not open'' @ [0x0A]) = Some c'" "only_env c c'" "same_net (env c) (env c')" "conn_ok c'"
    by (rule printf_error_ok [OF assms, of "lit ''socket not open'' @ [0x0A]"]) simp
  then show ?thesis using True same_net_io by (auto simp: pqSocketCheck_def)
next
  case False
  obtain r en where p: "poll_loop (env c) (sock c) fr fw t = Some (r, en)" "same_io (env c) en"
    using poll_loop_ends by blast
  let ?c1 = "c\<lparr>env := en\<rparr>"
  show ?thesis
  proof (cases "r < 0")
    case True
    have "length (lit ''select() failed: '' @ errno_text en @ [0x0A]) < 2 ^ 31" using errno_text_length [of en] by simp
    then obtain c' where "printf_error ?c1 (lit ''select() failed: '' @ errno_text en @ [0x0A]) = Some c'" "only_env ?c1 c'"
      "same_net (env ?c1) (env c')" "conn_ok c'"
      using printf_error_ok [of ?c1] assms by (metis conn_ok_env)
    then show ?thesis
      using True False p same_io_trans [OF p(2)] same_net_io only_env_trans [of c ?c1 c'] by (auto simp: pqSocketCheck_def)
  qed (use False p assms in \<open>auto simp: pqSocketCheck_def\<close>)
qed

lemma pqReadReady_spec:
  assumes "conn_ok c"
  shows "\<exists>r c'. pqReadReady c = Some (r, c') \<and> only_env c c' \<and> conn_ok c' \<and> same_io (env c) (env c')"
  using pqSocketCheck_spec [OF assms] by (simp add: pqReadReady_def)

lemma pqWait_spec:
  assumes "conn_ok c"
  shows "\<exists>r c'. pqWait fr fw c = Some (r, c') \<and> (r = 0 \<or> r = EOF) \<and> only_env c c' \<and> conn_ok c' \<and> same_io (env c) (env c')"
proof -
  obtain r c1 where 1: "pqSocketCheck c fr fw (- 1) = Some (r, c1)" "only_env c c1" "conn_ok c1" "same_io (env c) (env c1)"
    using pqSocketCheck_spec [OF assms] by blast
  obtain c2 where 2: "printf_error c1 (lit ''timeout expired'' @ [0x0A]) = Some c2" "only_env c1 c2" "same_net (env c1) (env c2)" "conn_ok c2"
    by (rule printf_error_ok [OF 1(3), of "lit ''timeout expired'' @ [0x0A]"]) simp
  show ?thesis
    using 1 2 only_env_trans [OF 1(2) 2(2)] same_io_trans [OF 1(4) same_net_io [OF 2(3)]]
    by (auto simp: pqWait_def pqWaitTimed_def)
qed


section \<open>Reading from the socket\<close>

text \<open>The bytes the network still has to deliver, and how long that takes at most.\<close>

definition stream :: "env \<Rightarrow> byte list" where
  "stream en = concat (map (\<lambda>e. case e of Recv bs \<Rightarrow> bs | Recv_error _ \<Rightarrow> []) (e_recv en))"

definition stream_steps :: "env \<Rightarrow> nat" where
  "stream_steps en = sum_list (map (\<lambda>e. case e of Recv bs \<Rightarrow> Suc (length bs) | Recv_error _ \<Rightarrow> 1) (e_recv en))"

definition filled :: "pg_conn \<Rightarrow> byte list" where
  "filled c = take (nat (inEnd c)) (inBuffer c)"

lemma in_data_filled: "in_ok c \<Longrightarrow> in_data c = drop (nat (inStart c)) (filled c)"
  using in_okD [of c] by (simp add: in_data_def filled_def drop_take nat_diff_distrib)

lemma filled_length: "in_ok c \<Longrightarrow> length (filled c) = nat (inEnd c)"
  using in_okD [of c] by (simp add: filled_def)

text \<open>\<open>received c bs c'\<close>: the network delivered \<open>bs\<close>, which now follow the bytes in the buffer.\<close>

definition received :: "pg_conn \<Rightarrow> byte list \<Rightarrow> pg_conn \<Rightarrow> bool" where
  "received c bs c' \<longleftrightarrow> conn_ok c' \<and> only_in c c' \<and> inStart c' = inStart c \<and> inCursor c' = inCursor c \<and>
     inBufSize c' = inBufSize c \<and> filled c' = filled c @ bs \<and> stream (env c) = bs @ stream (env c') \<and>
     e_send (env c') = e_send (env c) \<and> e_sent (env c') = e_sent (env c)"

lemma received_trans: "received a bs b \<Longrightarrow> received b bs' c \<Longrightarrow> received a (bs @ bs') c"
  using frame_trans(1) [of a b c] by (auto simp: received_def)

lemma received_inEnd:
  assumes "conn_ok c" "received c bs c'"
  shows "inEnd c' = inEnd c + int (length bs)"
proof -
  have "length (filled c') = length (filled c) + length bs" "conn_ok c'" using assms(2) by (auto simp: received_def)
  then have "nat (inEnd c') = nat (inEnd c) + length bs" "0 \<le> inEnd c'" "0 \<le> inEnd c"
    using filled_length [OF conn_okD(1)] in_okD [OF conn_okD(1), of c] in_okD [OF conn_okD(1), of c'] assms(1) by auto
  then show ?thesis by linarith
qed

lemma received_refl: "conn_ok c \<Longrightarrow> received c [] c"
  by (simp add: received_def)

lemma received_env: "conn_ok c \<Longrightarrow> only_env c c' \<Longrightarrow> conn_ok c' \<Longrightarrow> same_io (env c) (env c') \<Longrightarrow> received c [] c'"
  by (simp add: received_def frame_mono only_env_fields filled_def stream_def same_io_def)

lemma c_recv_spec:
  "\<exists>en'. e_send en' = e_send en \<and> e_sent en' = e_sent en \<and>
    ((\<exists>bs. c_recv en n = (Recv bs, en') \<and> length bs \<le> n \<and> stream en = bs @ stream en' \<and>
       (0 < n \<longrightarrow> bs = [] \<or> stream_steps en' < stream_steps en)) \<or>
     (\<exists>e. c_recv en n = (Recv_error e, en') \<and> stream en' = stream en \<and> stream_steps en' < stream_steps en))"
proof (cases "e_recv en")
  case (Cons e r)
  then show ?thesis
    by (cases e) (auto simp: c_recv_def stream_def stream_steps_def)
qed (auto simp: c_recv_def stream_def)

lemma read_error_text:
  assumes "conn_ok c"
  obtains c' where "(case e of
              EAGAIN \<Rightarrow> Some c
            | EINTR \<Rightarrow> Some c
            | ECONNRESET \<Rightarrow> printf_error c server_closed_text
            | _ \<Rightarrow> printf_error c (lit ''could not receive data from server: '' @ pqStrerror en e 256 @ [0x0A])) = Some c'"
    "only_env c c'" "same_net (env c) (env c')" "conn_ok c'"
proof -
  have long: "length (lit ''could not receive data from server: '' @ pqStrerror en e 256 @ [0x0A]) < 2 ^ 31" for e
    using pqStrerror_length [where n = 256 and e = e and en = en] by simp
  show ?thesis
  proof (cases "e = EAGAIN \<or> e = EINTR")
    case True
    then show ?thesis using that [of c] assms by auto
  next
    case False
    define msg where "msg = (if e = ECONNRESET then server_closed_text
      else lit ''could not receive data from server: '' @ pqStrerror en e 256 @ [0x0A])"
    have "length msg < 2 ^ 31" using long [of e] server_closed_length by (simp add: msg_def)
    then obtain c' where c': "printf_error c msg = Some c'" "only_env c c'" "same_net (env c) (env c')" "conn_ok c'"
      using printf_error_ok [OF assms] by blast
    show ?thesis
      by (rule that [OF _ c'(2-4)]) (use c'(1) False in \<open>auto simp: msg_def split: errno.split\<close>)
  qed
qed


text \<open>One read: some bytes arrived, nothing did, or an error, after which fewer events are left.\<close>

lemma read_some_spec:
  assumes "conn_ok c"
  shows "(\<exists>bs c'. read_some c = Some (int (length bs), c') \<and> int (length bs) \<le> inBufSize c - inEnd c \<and>
      inEnd c' = inEnd c \<and> received c bs (c'\<lparr>inEnd := inEnd c + int (length bs)\<rparr>) \<and>
      (inEnd c < inBufSize c \<longrightarrow> bs = [] \<or> stream_steps (env c') < stream_steps (env c))) \<or>
    (\<exists>c'. read_some c = Some (- 1, c') \<and> received c [] c' \<and> stream_steps (env c') < stream_steps (env c))"
proof -
  note ok = conn_okD(1) [OF assms]
  let ?n = "nat (inBufSize c - inEnd c)"
  obtain en' where en': "e_send en' = e_send (env c)" "e_sent en' = e_sent (env c)"
    "(\<exists>bs. c_recv (env c) ?n = (Recv bs, en') \<and> length bs \<le> ?n \<and> stream (env c) = bs @ stream en' \<and>
       (0 < ?n \<longrightarrow> bs = [] \<or> stream_steps en' < stream_steps (env c))) \<or>
     (\<exists>e. c_recv (env c) ?n = (Recv_error e, en') \<and> stream en' = stream (env c) \<and> stream_steps en' < stream_steps (env c))"
    using c_recv_spec [of "env c" ?n] by (elim exE conjE) (rule that)
  from en'(3) show ?thesis
  proof
    assume "\<exists>bs. c_recv (env c) ?n = (Recv bs, en') \<and> length bs \<le> ?n \<and> stream (env c) = bs @ stream en' \<and>
       (0 < ?n \<longrightarrow> bs = [] \<or> stream_steps en' < stream_steps (env c))"
    then obtain bs where bs: "c_recv (env c) ?n = (Recv bs, en')" "length bs \<le> ?n" "stream (env c) = bs @ stream en'"
      "0 < ?n \<longrightarrow> bs = [] \<or> stream_steps en' < stream_steps (env c)" by (elim exE conjE) (rule that)
    let ?en = "en'\<lparr>e_errno := None\<rparr>"
    let ?buf = "take (nat (inEnd c)) (inBuffer c) @ bs @ drop (nat (inEnd c) + length bs) (inBuffer c)"
    let ?c' = "c\<lparr>env := ?en, inBuffer := ?buf\<rparr>"
    have fit: "nat (inEnd c) + length bs \<le> length (inBuffer c)" using bs(2) in_okD [OF ok] by linarith
    have run: "read_some c = Some (int (length bs), ?c')"
      using bs(1) fit by (simp add: read_some_def pqsecure_read_def set_errno_def wr_bytes_def)
    have lens: "nat (inEnd c + int (length bs)) = nat (inEnd c) + length bs" using in_okD [OF ok] by linarith
    have le: "int (length bs) \<le> inBufSize c - inEnd c" using bs(2) in_okD [OF ok] by linarith
    let ?c2 = "?c'\<lparr>inEnd := inEnd c + int (length bs)\<rparr>"
    have "length (take (nat (inEnd c)) (inBuffer c)) = nat (inEnd c)" using fit by simp
    then have fill: "filled ?c2 = filled c @ bs" by (simp add: filled_def lens)
    have "length ?buf = nat (inBufSize c)" using fit in_okD [OF ok] by simp
    then have "conn_ok ?c2"
      using assms le by (simp add: conn_ok_def in_ok_def out_ok_def)
    moreover have "only_in c ?c2" by (simp add: only_in_def)
    ultimately have "received c bs ?c2"
      using fill bs(3) en'(1,2) by (simp add: received_def stream_def)
    moreover have "inEnd c < inBufSize c \<longrightarrow> bs = [] \<or> stream_steps (env ?c') < stream_steps (env c)"
      using bs(4) by (simp add: stream_steps_def)
    ultimately show ?thesis using run le by (intro disjI1 exI [of _ bs] exI [of _ ?c']) simp
  next
    assume "\<exists>e. c_recv (env c) ?n = (Recv_error e, en') \<and> stream en' = stream (env c) \<and> stream_steps en' < stream_steps (env c)"
    then obtain e where e: "c_recv (env c) ?n = (Recv_error e, en')" "stream en' = stream (env c)" "stream_steps en' < stream_steps (env c)"
      by (elim exE conjE) (rule that)
    have "conn_ok (c\<lparr>env := en'\<rparr>)" using assms by simp
    then obtain c1 where c1: "(case e of
              EAGAIN \<Rightarrow> Some (c\<lparr>env := en'\<rparr>)
            | EINTR \<Rightarrow> Some (c\<lparr>env := en'\<rparr>)
            | ECONNRESET \<Rightarrow> printf_error (c\<lparr>env := en'\<rparr>) server_closed_text
            | _ \<Rightarrow> printf_error (c\<lparr>env := en'\<rparr>) (lit ''could not receive data from server: '' @ pqStrerror en' e 256 @ [0x0A])) = Some c1"
        "only_env (c\<lparr>env := en'\<rparr>) c1" "same_net en' (env c1)" "conn_ok c1"
      by (rule read_error_text [where e = e and en = en']) auto
    let ?c' = "set_errno (Some e) c1"
    have nofit: "wr_bytes (inBuffer ?c') (nat (inEnd ?c')) [] = Some (inBuffer ?c')"
      using in_okD [OF conn_okD(1) [OF c1(4)]] by (simp add: set_errno_def wr_bytes_def)
    have run: "read_some c = Some (- 1, ?c')"
      using e(1) c1(1) nofit by (simp add: read_some_def pqsecure_read_def)
    have env: "only_env c ?c'" using c1(2) only_env_trans [of c "c\<lparr>env := en'\<rparr>" c1] only_env_trans [of c c1 ?c'] by (simp add: set_errno_def)
    have "conn_ok ?c'" using c1(4) by (simp add: set_errno_def)
    then have "received c [] ?c'"
      using env assms e(2) en'(1,2) same_net_fields [OF c1(3)]
      by (simp add: received_def frame_mono only_env_fields filled_def stream_def set_errno_def)
    moreover have "stream_steps (env ?c') < stream_steps (env c)"
      using e(3) same_net_fields [OF c1(3)] by (simp add: stream_steps_def set_errno_def)
    ultimately show ?thesis using run by blast
  qed
qed

lemma received_failed: "received c bs c' \<Longrightarrow> received c bs (snd (definitely_failed c'))"
  unfolding received_def definitely_failed_def
  by (auto simp: conn_ok_def in_ok_def out_ok_def filled_def only_in_def)

text \<open>The answers of \<open>pqReadData\<close>: 1 some bytes were read, 0 none, -1 an error.\<close>

definition read_answer :: "int \<Rightarrow> byte list \<Rightarrow> bool" where
  "read_answer r bs \<longleftrightarrow> r = - 1 \<or> r = 0 \<and> bs = [] \<or> r = 1 \<and> bs \<noteq> []"

lemma read_retry4_spec:
  assumes "conn_ok c" "inEnd c < inBufSize c"
  shows "\<exists>r bs c'. read_retry4 c = Some (r, c') \<and> received c bs c' \<and> read_answer r bs"
  using assms
proof (induction "stream_steps (env c)" arbitrary: c rule: less_induct)
  case less
  from read_some_spec [OF less.prems(1)] show ?case
  proof
    assume "\<exists>bs c'. read_some c = Some (int (length bs), c') \<and> int (length bs) \<le> inBufSize c - inEnd c \<and>
      inEnd c' = inEnd c \<and> received c bs (c'\<lparr>inEnd := inEnd c + int (length bs)\<rparr>) \<and>
      (inEnd c < inBufSize c \<longrightarrow> bs = [] \<or> stream_steps (env c') < stream_steps (env c))"
    then obtain bs c' where r: "read_some c = Some (int (length bs), c')" "inEnd c' = inEnd c"
      "received c bs (c'\<lparr>inEnd := inEnd c + int (length bs)\<rparr>)" by (elim exE conjE) (rule that)
    show ?thesis
    proof (cases "bs = []")
      case True
      moreover have "c'\<lparr>inEnd := inEnd c\<rparr> = c'" using r(2) by (cases c') simp
      ultimately have "received c [] (snd (definitely_failed c'))" using r(3) received_failed [of c "[]" c'] by simp
      then show ?thesis using r(1) True
        by (subst read_retry4.simps) (auto simp: definitely_failed_def read_answer_def intro!: exI [of _ "[]"])
    next
      case False
      then show ?thesis using r by (subst read_retry4.simps) (auto simp: read_answer_def)
    qed
  next
    assume "\<exists>c'. read_some c = Some (- 1, c') \<and> received c [] c' \<and> stream_steps (env c') < stream_steps (env c)"
    then obtain c' where r: "read_some c = Some (- 1, c')" "received c [] c'" "stream_steps (env c') < stream_steps (env c)" by (elim exE conjE) (rule that)
    show ?thesis
    proof (cases "e_errno (env c') = Some EINTR")
      case True
      have "inEnd c' = inEnd c" "inBufSize c' = inBufSize c" "conn_ok c'"
        using r(2) received_inEnd [OF less.prems(1) r(2)] by (auto simp: received_def)
      then obtain q bs c'' where "read_retry4 c' = Some (q, c'')" "received c' bs c''" "read_answer q bs"
        using less.hyps [OF r(3)] less.prems by auto
      then show ?thesis using r True received_trans [OF r(2)] by (subst read_retry4.simps) fastforce
    next
      case False
      have "received c [] (snd (definitely_failed c'))" using received_failed [OF r(2)] .
      then show ?thesis using r False
        by (subst read_retry4.simps) (auto simp: definitely_failed_def read_answer_def intro!: exI [of _ "[]"])
    qed
  qed
qed


lemma read_nothing_spec:
  assumes "conn_ok c" "inEnd c < inBufSize c"
  shows "\<exists>r bs c'. read_nothing c = Some (r, c') \<and> received c bs c' \<and> read_answer r bs"
proof -
  obtain q c1 where 1: "pqReadReady c = Some (q, c1)" "only_env c c1" "conn_ok c1" "same_io (env c) (env c1)"
    using pqReadReady_spec [OF assms(1)] by blast
  have rec: "received c [] c1" using received_env [OF assms(1) 1(2-4)] .
  consider "q = 0" | "q = 1" | "q \<noteq> 0" "q \<noteq> 1" by blast
  then show ?thesis
  proof cases
    case 1
    then show ?thesis using 1(1) \<open>pqReadReady c = _\<close> rec by (auto simp: read_nothing_def read_answer_def)
  next
    case 2
    have "inEnd c1 < inBufSize c1" using assms(2) 1(2) by (simp add: only_env_fields)
    then obtain r bs c' where "read_retry4 c1 = Some (r, c')" "received c1 bs c'" "read_answer r bs"
      using read_retry4_spec [OF 1(3)] by blast
    then show ?thesis using 2 1(1) received_trans [OF rec] by (fastforce simp: read_nothing_def)
  next
    case 3
    obtain c2 where c2: "printf_error c1 server_closed_text = Some c2" "only_env c1 c2" "same_net (env c1) (env c2)" "conn_ok c2"
      by (rule printf_error_ok [OF 1(3) server_closed_length])
    have "received c1 [] c2" using received_env [OF 1(3) c2(2,4) same_net_io [OF c2(3)]] .
    then have "received c [] (snd (definitely_failed c2))" using received_trans [OF rec, of "[]"] received_failed by fastforce
    then show ?thesis using 3 1(1) c2(1)
      by (auto simp: read_nothing_def definitely_failed_def read_answer_def intro!: exI [of _ "[]"])
  qed
qed

text \<open>Once something was read, the answer of the first loop is 1 or an error.\<close>

lemma read_retry3_spec:
  assumes "conn_ok c" "inEnd c < inBufSize c" "someread = 0 \<or> someread = 1"
  shows "\<exists>r bs c'. read_retry3 someread c = Some (r, c') \<and> received c bs c' \<and>
    (if someread = 0 then read_answer r bs else r = 1 \<or> r = - 1)"
  using assms
proof (induction "stream_steps (env c)" arbitrary: c someread rule: less_induct)
  case less
  from read_some_spec [OF less.prems(1)] show ?case
  proof
    assume "\<exists>bs c'. read_some c = Some (int (length bs), c') \<and> int (length bs) \<le> inBufSize c - inEnd c \<and>
      inEnd c' = inEnd c \<and> received c bs (c'\<lparr>inEnd := inEnd c + int (length bs)\<rparr>) \<and>
      (inEnd c < inBufSize c \<longrightarrow> bs = [] \<or> stream_steps (env c') < stream_steps (env c))"
    then obtain bs c' where r: "read_some c = Some (int (length bs), c')" "inEnd c' = inEnd c"
      "received c bs (c'\<lparr>inEnd := inEnd c + int (length bs)\<rparr>)"
      "inEnd c < inBufSize c \<longrightarrow> bs = [] \<or> stream_steps (env c') < stream_steps (env c)"
      by (elim exE conjE) (rule that)
    show ?thesis
    proof (cases "bs = []")
      case True
      have same: "c'\<lparr>inEnd := inEnd c\<rparr> = c'" using r(2) by (cases c') simp
      then have rec: "received c [] c'" using r(3) True by simp
      then have ok: "conn_ok c'" "inEnd c' < inBufSize c'" using less.prems(2) r(2) by (auto simp: received_def)
      show ?thesis
      proof (cases "someread = 0")
        case True
        obtain q bs' c'' where "read_nothing c' = Some (q, c'')" "received c' bs' c''" "read_answer q bs'"
          using read_nothing_spec [OF ok] by blast
        then show ?thesis using r(1) \<open>bs = []\<close> True received_trans [OF rec] by (subst read_retry3.simps) fastforce
      next
        case False
        then show ?thesis using r(1) \<open>bs = []\<close> rec by (subst read_retry3.simps) auto
      qed
    next
      case False
      let ?c1 = "c'\<lparr>inEnd := inEnd c + int (length bs)\<rparr>"
      have ok: "conn_ok ?c1" using r(3) by (simp add: received_def)
      show ?thesis
      proof (cases "inEnd ?c1 > 32768 \<and> inBufSize ?c1 - inEnd ?c1 \<ge> 8192")
        case True
        have "stream_steps (env ?c1) < stream_steps (env c)" using r(4) less.prems(2) False by simp
        moreover have "inEnd ?c1 < inBufSize ?c1" using True by simp
        ultimately obtain q bs' c'' where go: "read_retry3 1 ?c1 = Some (q, c'')" "received ?c1 bs' c''" "q = 1 \<or> q = - 1"
          using less.hyps [of ?c1 1] ok by auto
        have run: "read_retry3 someread c = Some (q, c'')"
          using r(1,2) True False go(1) by (subst read_retry3.simps) (simp add: Let_def)
        have "received c (bs @ bs') c''" using received_trans [OF r(3) go(2)] .
        then show ?thesis using run go(3) False by (auto simp: read_answer_def)
      next
        case no: False
        have run: "read_retry3 someread c = Some (1, ?c1)"
          using r(1,2) no False by (subst read_retry3.simps) (auto simp: Let_def)
        then show ?thesis using r(3) False by (auto simp: read_answer_def)
      qed
    qed
  next
    assume "\<exists>c'. read_some c = Some (- 1, c') \<and> received c [] c' \<and> stream_steps (env c') < stream_steps (env c)"
    then obtain c' where r: "read_some c = Some (- 1, c')" "received c [] c'" "stream_steps (env c') < stream_steps (env c)"
      by (elim exE conjE) (rule that)
    show ?thesis
    proof (cases "e_errno (env c') = Some EINTR")
      case True
      have "inEnd c' < inBufSize c'" "conn_ok c'"
        using r(2) received_inEnd [OF less.prems(1) r(2)] less.prems(2) by (auto simp: received_def)
      then obtain q bs c'' where "read_retry3 someread c' = Some (q, c'')" "received c' bs c''"
        "if someread = 0 then read_answer q bs else q = 1 \<or> q = - 1"
        using less.hyps [OF r(3)] less.prems(3) by blast
      then show ?thesis using r True received_trans [OF r(2)] by (subst read_retry3.simps) fastforce
    next
      case False
      have "received c [] (snd (definitely_failed c'))" using received_failed [OF r(2)] .
      then show ?thesis using r False less.prems(3)
        by (subst read_retry3.simps) (auto simp: definitely_failed_def read_answer_def intro!: exI [of _ "[]"])
    qed
  qed
qed


text \<open>
  \<open>read_in c bs c'\<close>: what a caller sees of \<open>pqReadData\<close>. The data may have moved in the buffer and the
  buffer may have grown, but the data from \<open>inStart\<close> on are the old ones followed by \<open>bs\<close>.
\<close>

definition read_in :: "pg_conn \<Rightarrow> byte list \<Rightarrow> pg_conn \<Rightarrow> bool" where
  "read_in c bs c' \<longleftrightarrow> conn_ok c' \<and> only_in c c' \<and> in_data c' = in_data c @ bs \<and>
     inCursor c' - inStart c' = inCursor c - inStart c \<and> stream (env c) = bs @ stream (env c') \<and>
     e_send (env c') = e_send (env c) \<and> e_sent (env c') = e_sent (env c)"

lemma read_in_trans: "read_in a bs b \<Longrightarrow> read_in b bs' c \<Longrightarrow> read_in a (bs @ bs') c"
  using frame_trans(1) [of a b c] by (auto simp: read_in_def)

lemma received_read_in:
  assumes "conn_ok c" "received c bs c'"
  shows "read_in c bs c'"
proof -
  have "nat (inStart c) \<le> length (filled c)"
    using in_okD [OF conn_okD(1) [OF assms(1)]] filled_length [OF conn_okD(1) [OF assms(1)]] by simp
  then have "in_data c' = in_data c @ bs"
    using assms in_data_filled conn_okD(1) by (auto simp: received_def)
  then show ?thesis using assms(2) by (simp add: received_def read_in_def)
qed

lemma left_justify_spec:
  assumes "conn_ok c"
  shows "\<exists>c'. left_justify c = Some c' \<and> read_in c [] c' \<and> inStart c' = 0 \<and> env c' = env c"
proof -
  note ok = in_okD [OF conn_okD(1) [OF assms]]
  consider "inStart c < inEnd c" "inStart c > 0" | "inStart c < inEnd c" "inStart c = 0" | "inStart c = inEnd c"
    using ok by linarith
  then show ?thesis
  proof cases
    case 1
    let ?n = "nat (inEnd c - inStart c)"
    define bs where "bs = take ?n (drop (nat (inStart c)) (inBuffer c))"
    have "nat (inStart c) + ?n \<le> length (inBuffer c)" using ok by linarith
    then have len: "length bs = ?n" by (simp add: bs_def)
    have fit: "nat (inStart c) + ?n \<le> length (inBuffer c)" "?n \<le> length (inBuffer c)" using ok by linarith+
    let ?buf = "bs @ drop (length bs) (inBuffer c)"
    let ?c' = "c\<lparr>inBuffer := ?buf, inEnd := inEnd c - inStart c, inCursor := inCursor c - inStart c, inStart := 0\<rparr>"
    have "left_justify c = Some ?c'"
      using 1 fit len by (simp add: left_justify_def mem_simps bs_def [symmetric] wr_bytes_def)
    moreover have "in_data ?c' = in_data c" using len by (simp add: in_data_def bs_def [symmetric])
    moreover have "conn_ok ?c'"
      using assms len fit ok by (auto simp: conn_ok_def in_ok_def out_ok_def)
    moreover have "only_in c ?c'" by (simp add: only_in_def)
    ultimately show ?thesis by (simp add: read_in_def)
  next
    case 2
    then show ?thesis using assms by (simp add: left_justify_def read_in_def)
  next
    case 3
    let ?c' = "c\<lparr>inStart := 0, inCursor := 0, inEnd := 0\<rparr>"
    have "conn_ok ?c'" using assms by (simp add: conn_ok_def in_ok_def out_ok_def)
    moreover have "only_in c ?c'" by (simp add: only_in_def)
    moreover have "inCursor c = inStart c" using 3 ok by linarith
    ultimately show ?thesis using 3 by (simp add: left_justify_def read_in_def in_data_def)
  qed
qed

lemma make_room_spec:
  assumes "conn_ok c"
  shows "\<exists>full c'. make_room c = Some (full, c') \<and> read_in c [] c' \<and> (\<not> full \<longrightarrow> inEnd c' < inBufSize c')"
proof (cases "inBufSize c - inEnd c < 8192")
  case False
  then have "make_room c = Some (False, c)" "inEnd c < inBufSize c" by (simp_all add: make_room_def)
  then show ?thesis using assms by (auto simp: read_in_def)
next
  case True
  note ok = in_okD [OF conn_okD(1) [OF assms]]
  let ?need = "nat (inEnd c) + 8192"
  obtain r c' where r: "pqCheckInBufferSpace ?need c = Some (r, c')" "conn_ok c'" "same_net (env c) (env c')"
    "if r = 0 then grown (inBuffer c) (inBufSize c) ?need (inBuffer c') (inBufSize c') \<and>
       c' = c\<lparr>inBuffer := inBuffer c', inBufSize := inBufSize c', env := env c'\<rparr>
     else r = EOF \<and> only_env c c' \<and> (?need \<le> 2147475456 \<longrightarrow> False \<in> set (oks (e_alloc (env c))))"
    using pqCheckInBufferSpace_spec [OF assms] by blast
  have io: "same_io (env c) (env c')" using same_net_io [OF r(3)] .
  show ?thesis
  proof (cases "r = 0")
    case True
    then have g: "grown (inBuffer c) (inBufSize c) ?need (inBuffer c') (inBufSize c')"
      and c': "c' = c\<lparr>inBuffer := inBuffer c', inBufSize := inBufSize c', env := env c'\<rparr>" using r(4) by auto
    have same: "inStart c' = inStart c" "inEnd c' = inEnd c" "inCursor c' = inCursor c" "only_in c c'"
      using c' by (cases c; cases c'; simp add: only_in_def)+
    have "filled c' = filled c" using grown_bytes [OF _ g, of "nat (inEnd c)"] ok by (simp add: filled_def same)
    then have "in_data c' = in_data c"
      using in_data_filled [OF conn_okD(1) [OF assms]] in_data_filled [OF conn_okD(1) [OF r(2)]] same by simp
    moreover have "inEnd c' < inBufSize c'"
    proof -
      have "nat (inEnd c) + 8192 \<le> nat (inBufSize c')" using g by (simp add: grown_def)
      then show ?thesis using ok same by linarith
    qed
    moreover have "make_room c = Some (False, c')" using r(1) True \<open>inBufSize c - inEnd c < 8192\<close> by (simp add: make_room_def)
    ultimately show ?thesis
      using r(2) same io by (auto simp: read_in_def same_io_def stream_def)
  next
    case False
    then have only: "only_env c c'" using r(4) by simp
    have "read_in c [] c'" using received_read_in [OF assms received_env [OF assms only r(2) io]] .
    then show ?thesis using r(1) False True by (auto simp: make_room_def)
  qed
qed

lemma pqReadData_spec:
  assumes "conn_ok c"
  shows "\<exists>r bs c'. pqReadData c = Some (r, c') \<and> read_in c bs c' \<and> read_answer r bs"
proof (cases "sock c < 0")
  case True
  obtain c' where c': "printf_error c (lit ''connection not open'' @ [0x0A]) = Some c'" "only_env c c'" "same_net (env c) (env c')" "conn_ok c'"
    by (rule printf_error_ok [OF assms, of "lit ''connection not open'' @ [0x0A]"]) simp
  have "read_in c [] c'" using received_read_in [OF assms received_env [OF assms c'(2,4) same_net_io [OF c'(3)]]] .
  then show ?thesis using True c'(1) by (auto simp: pqReadData_def read_answer_def intro!: exI [of _ "[]"])
next
  case False
  obtain c1 where c1: "left_justify c = Some c1" "read_in c [] c1" using left_justify_spec [OF assms] by blast
  then have ok1: "conn_ok c1" by (simp add: read_in_def)
  obtain full c2 where c2: "make_room c1 = Some (full, c2)" "read_in c1 [] c2" "\<not> full \<longrightarrow> inEnd c2 < inBufSize c2"
    using make_room_spec [OF ok1] by blast
  have ok2: "conn_ok c2" "read_in c [] c2" using c2(2) read_in_trans [OF c1(2) c2(2)] by (simp_all add: read_in_def)
  show ?thesis
  proof (cases full)
    case True
    then show ?thesis using False c1(1) c2(1) ok2(2) by (auto simp: pqReadData_def read_answer_def intro!: exI [of _ "[]"])
  next
    case not_full: False
    obtain r bs c3 where c3: "read_retry3 0 c2 = Some (r, c3)" "received c2 bs c3" "read_answer r bs"
      using read_retry3_spec [OF ok2(1), of 0] c2(3) not_full by auto
    have "read_in c bs c3" using read_in_trans [OF ok2(2) received_read_in [OF ok2(1) c3(2)]] by simp
    then show ?thesis using False not_full c1(1) c2(1) c3(1,3) by (auto simp: pqReadData_def)
  qed
qed



section \<open>Sending\<close>

lemma write_error_text:
  assumes "conn_ok c"
  obtains c' where "(case e of
              EAGAIN \<Rightarrow> Some c
            | EINTR \<Rightarrow> Some c
            | EPIPE \<Rightarrow> printf_error c server_closed_text
            | ECONNRESET \<Rightarrow> printf_error c server_closed_text
            | _ \<Rightarrow> printf_error c (lit ''could not send data to server: '' @ pqStrerror en e 256 @ [0x0A])) = Some c'"
    "only_env c c'" "same_net (env c) (env c')" "conn_ok c'"
proof -
  have long: "length (lit ''could not send data to server: '' @ pqStrerror en e 256 @ [0x0A]) < 2 ^ 31" for e
    using pqStrerror_length [where n = 256 and e = e and en = en] by simp
  show ?thesis
  proof (cases "e = EAGAIN \<or> e = EINTR")
    case True
    then show ?thesis using that [of c] assms by auto
  next
    case False
    define msg where "msg = (if e = ECONNRESET \<or> e = EPIPE then server_closed_text
      else lit ''could not send data to server: '' @ pqStrerror en e 256 @ [0x0A])"
    have "length msg < 2 ^ 31" using long [of e] server_closed_length by (simp add: msg_def)
    then obtain c' where c': "printf_error c msg = Some c'" "only_env c c'" "same_net (env c) (env c')" "conn_ok c'"
      using printf_error_ok [OF assms] by blast
    show ?thesis
      by (rule that [OF _ c'(2-4)]) (use c'(1) False in \<open>auto simp: msg_def split: errno.split\<close>)
  qed
qed

text \<open>One write: a prefix of the bytes went out, or an error.\<close>

definition send_steps :: "env \<Rightarrow> nat" where
  "send_steps en = length (e_send en)"

lemma pqsecure_write_spec:
  assumes "conn_ok c"
  shows "\<exists>n c'. pqsecure_write c bs = Some (n, c') \<and> only_env c c' \<and> conn_ok c' \<and> n \<le> int (length bs) \<and>
    e_sent (env c') = e_sent (env c) @ take (nat n) bs \<and> (n < int (length bs) \<longrightarrow> send_steps (env c') < send_steps (env c))"
proof -
  obtain ev en where ev: "c_send (env c) bs = (ev, en)" by fastforce
  show ?thesis
  proof (cases ev)
    case (Sent n)
    have n: "n \<le> length bs" "e_sent en = e_sent (env c) @ take n bs" "n < length bs \<longrightarrow> send_steps en < send_steps (env c)"
      using ev Sent by (auto simp: c_send_def send_steps_def split: list.splits send_event.splits)
    let ?c' = "set_errno None (c\<lparr>env := en\<rparr>)"
    have "pqsecure_write c bs = Some (int n, ?c')" using ev Sent by (simp add: pqsecure_write_def)
    moreover have "conn_ok ?c'" "only_env c ?c'" using assms by (simp_all add: set_errno_def)
    moreover have "e_sent (env ?c') = e_sent (env c) @ take (nat (int n)) bs" using n(2) by (simp add: set_errno_def)
    moreover have "int n < int (length bs) \<longrightarrow> send_steps (env ?c') < send_steps (env c)"
      using n(3) by (simp add: set_errno_def send_steps_def)
    ultimately show ?thesis using n(1) by (intro exI [of _ "int n"] exI [of _ ?c']) simp
  next
    case (Send_error e)
    have n: "e_sent en = e_sent (env c)" "send_steps en < send_steps (env c)"
      using ev Send_error by (auto simp: c_send_def send_steps_def split: list.splits send_event.splits)
    have "conn_ok (c\<lparr>env := en\<rparr>)" using assms by simp
    then obtain c1 where c1: "(case e of
              EAGAIN \<Rightarrow> Some (c\<lparr>env := en\<rparr>)
            | EINTR \<Rightarrow> Some (c\<lparr>env := en\<rparr>)
            | EPIPE \<Rightarrow> printf_error (c\<lparr>env := en\<rparr>) server_closed_text
            | ECONNRESET \<Rightarrow> printf_error (c\<lparr>env := en\<rparr>) server_closed_text
            | _ \<Rightarrow> printf_error (c\<lparr>env := en\<rparr>) (lit ''could not send data to server: '' @ pqStrerror en e 256 @ [0x0A])) = Some c1"
        "only_env (c\<lparr>env := en\<rparr>) c1" "same_net en (env c1)" "conn_ok c1"
      by (rule write_error_text [where e = e and en = en]) auto
    let ?c' = "set_errno (Some e) c1"
    have "pqsecure_write c bs = Some (- 1, ?c')" using ev Send_error c1(1) by (simp add: pqsecure_write_def)
    moreover have "only_env c ?c'"
      using c1(2) only_env_trans [of c "c\<lparr>env := en\<rparr>" c1] only_env_trans [of c c1 ?c'] by (simp add: set_errno_def)
    moreover have "conn_ok ?c'" using c1(4) by (simp add: set_errno_def)
    moreover have "e_sent (env ?c') = e_sent (env c)" "send_steps (env ?c') < send_steps (env c)"
      using n same_net_fields [OF c1(3)] by (simp_all add: set_errno_def send_steps_def)
    ultimately show ?thesis by (intro exI [of _ "- 1"] exI [of _ ?c']) simp
  qed
qed

text \<open>
  \<open>sending c ptr\<close>: the bytes before \<open>ptr\<close> have gone out since \<open>c\<close>; the output buffer is as it was.
\<close>

definition sending :: "pg_conn \<Rightarrow> int \<Rightarrow> pg_conn \<Rightarrow> bool" where
  "sending c ptr c' \<longleftrightarrow> conn_ok c' \<and> only_in c c' \<and>
     e_sent (env c') = e_sent (env c) @ take (nat ptr) (outBuffer c)"

lemma sending_env: "sending c ptr c1 \<Longrightarrow> only_env c1 c2 \<Longrightarrow> conn_ok c2 \<Longrightarrow> e_sent (env c2) = e_sent (env c1) \<Longrightarrow> sending c ptr c2"
  using frame_trans(1) [of c c1 c2] frame_mono(1) [of c1 c2] by (simp add: sending_def)

lemma sending_read: "sending c ptr c1 \<Longrightarrow> read_in c1 bs c2 \<Longrightarrow> sending c ptr c2"
  using frame_trans(1) [of c c1 c2] by (simp add: sending_def read_in_def)

definition send_result :: "pg_conn \<Rightarrow> int \<Rightarrow> (pg_conn + int \<times> int \<times> int \<times> pg_conn) \<Rightarrow> bool" where
  "send_result c amount r \<longleftrightarrow>
     (case r of
        Inl c' \<Rightarrow> \<exists>p c1. 0 \<le> p \<and> p \<le> amount \<and> sending c p c1 \<and> c' = c1\<lparr>outCount := 0\<rparr>
      | Inr (r, p, remaining, c') \<Rightarrow> 0 \<le> p \<and> p \<le> amount \<and> sending c p c' \<and> remaining = outCount c - p \<and>
          (r = 0 \<and> p = amount \<or> r = 1 \<and> p < amount \<and> nonblocking c \<or> r = - 1 \<and> p < amount \<and> \<not> nonblocking c))"

lemma send_loop_spec:
  assumes "conn_ok c" "0 \<le> ptr" "ptr \<le> amount" "amount \<le> outCount c" "sending c ptr c1"
  shows "\<exists>r. send_loop ptr (amount - ptr) (outCount c - ptr) c1 = Some r \<and> send_result c amount r"
  using assms(2,3,5)
proof (induction "send_steps (env c1)" arbitrary: ptr c1 rule: less_induct)
  case less
  note out = out_okD [OF conn_okD(2) [OF assms(1)]]
  have c1: "conn_ok c1" "only_in c c1" using less.prems(3) by (auto simp: sending_def)
  note buf = only_in_fields [OF c1(2)]
  show ?case
  proof (cases "ptr = amount")
    case True
    then show ?thesis using less.prems by (subst send_loop.simps) (simp add: send_result_def)
  next
    case False
    let ?n = "nat (amount - ptr)"
    define bs where "bs = take ?n (drop (nat ptr) (outBuffer c))"
    have fit: "nat ptr + ?n \<le> length (outBuffer c)" using less.prems assms(4) out by linarith
    then have len: "int (length bs) = amount - ptr" using less.prems False by (simp add: bs_def)
    have rd: "rd_bytes (outBuffer c1) (nat ptr) ?n = Some bs" using fit by (simp add: buf mem_simps bs_def)
    obtain k c2 where w: "pqsecure_write c1 bs = Some (k, c2)" "only_env c1 c2" "conn_ok c2" "k \<le> int (length bs)"
      "e_sent (env c2) = e_sent (env c1) @ take (nat k) bs" "k < int (length bs) \<longrightarrow> send_steps (env c2) < send_steps (env c1)"
      using pqsecure_write_spec [OF c1(1)] by blast
    define p where "p = (if k < 0 then ptr else ptr + k)"
    have p: "ptr \<le> p" "0 \<le> p" "p \<le> amount" "nat p = nat ptr + nat k"
      using w(4) len less.prems by (auto simp: p_def)
    have "take (nat p) (outBuffer c) = take (nat ptr) (outBuffer c) @ take (nat k) bs"
      using p(4) w(4) len by (simp add: take_add bs_def take_take min_def) linarith
    then have s2: "sending c p c2"
      using less.prems(3) w(2,3,5) frame_trans(1) [OF c1(2) frame_mono(1) [OF w(2)]] by (simp add: sending_def)
    have nb: "nonblocking c2 = nonblocking c" using only_env_fields [OF w(2)] buf by simp
    consider (intr) "k < 0" "e_errno (env c2) = Some EINTR" | (fail) "k < 0" "e_errno (env c2) \<noteq> Some EINTR" "e_errno (env c2) \<noteq> Some EAGAIN"
      | (go) "\<not> (k < 0 \<and> e_errno (env c2) = Some EINTR)" "\<not> (k < 0 \<and> e_errno (env c2) \<noteq> Some EAGAIN)"
      by blast
    then show ?thesis
    proof cases
      case intr
      have "send_steps (env c2) < send_steps (env c1)" using w(6) intr(1) by simp
      moreover have "p = ptr" using intr(1) by (simp add: p_def)
      ultimately obtain r where "send_loop ptr (amount - ptr) (outCount c - ptr) c2 = Some r" "send_result c amount r"
        using less.hyps [of c2 ptr] less.prems s2 by auto
      then show ?thesis using False less.prems rd w(1) intr by (subst send_loop.simps) simp
    next
      case fail
      then have "send_result c amount (Inl (c2\<lparr>outCount := 0\<rparr>))" using p s2 by (auto simp: send_result_def)
      then show ?thesis using False less.prems rd w(1) fail by (subst send_loop.simps) simp
    next
      case go
      have unfold: "send_loop ptr (amount - ptr) (outCount c - ptr) c1 =
        (if amount - p > 0 then
           (if nonblocking c2 then Some (Inr (1, p, outCount c - p, c2))
            else Option.bind (pqReadData c2) (\<lambda>(r, conn).
              if r < 0 then Some (Inr (- 1, p, outCount c - p, conn))
              else Option.bind (pqWait True True conn) (\<lambda>(r, conn).
                if r \<noteq> 0 then Some (Inr (- 1, p, outCount c - p, conn))
                else send_loop p (amount - p) (outCount c - p) conn)))
         else Some (Inr (0, p, outCount c - p, c2)))"
      proof -
        have arith: "(if k < 0 then ptr else ptr + k) = p" "(if k < 0 then amount - ptr else amount - ptr - k) = amount - p"
          "(if k < 0 then outCount c - ptr else outCount c - ptr - k) = outCount c - p" by (auto simp: p_def)
        have pos: "amount - ptr > 0" using False less.prems by simp
        show ?thesis
          by (subst send_loop.simps)
             (simp only: pos if_True rd bind.bind_lunit w(1) prod.case go if_False Let_def arith)
      qed
      show ?thesis
      proof (cases "p = amount")
        case True
        then show ?thesis using unfold s2 p by (simp add: send_result_def)
      next
        case more: False
        show ?thesis
        proof (cases "nonblocking c")
          case True
          then show ?thesis using unfold more s2 p nb by (simp add: send_result_def)
        next
          case False
          obtain q bs' c3 where r3: "pqReadData c2 = Some (q, c3)" "read_in c2 bs' c3" using pqReadData_spec [OF w(3)] by blast
          have s3: "sending c p c3" using sending_read [OF s2 r3(2)] .
          have ok3: "conn_ok c3" using r3(2) by (simp add: read_in_def)
          obtain q' c4 where r4: "pqWait True True c3 = Some (q', c4)" "only_env c3 c4" "conn_ok c4" "same_io (env c3) (env c4)"
            using pqWait_spec [OF ok3] by blast
          have s4: "sending c p c4" using sending_env [OF s3 r4(2,3)] r4(4) by (simp add: same_io_def)
          have steps: "send_steps (env c4) < send_steps (env c1)"
          proof -
            have "k < int (length bs)" using more p len by (auto simp: p_def split: if_splits)
            then show ?thesis using w(6) r3(2) r4(4) by (simp add: send_steps_def read_in_def same_io_def)
          qed
          obtain r where r: "send_loop p (amount - p) (outCount c - p) c4 = Some r" "send_result c amount r"
            using less.hyps [OF steps p(2,3) s4] by blast
          have bad: "send_result c amount (Inr (- 1, p, outCount c - p, d))" if "sending c p d" for d
            using that more p False by (simp add: send_result_def)
          show ?thesis
            using unfold more p nb False r3(1) r4(1) r bad [OF s3] bad [OF s4] by (simp split: if_splits)
        qed
      qed
    qed
  qed
qed


text \<open>
  \<open>sent_out c k c'\<close>: the first \<open>k\<close> bytes waiting have gone out, the others are still waiting.
\<close>

definition sent_out :: "pg_conn \<Rightarrow> nat \<Rightarrow> pg_conn \<Rightarrow> bool" where
  "sent_out c k c' \<longleftrightarrow> conn_ok c' \<and> only_io c c' \<and> k \<le> length (pending c) \<and>
     e_sent (env c') = e_sent (env c) @ take k (pending c) \<and> pending c' = drop k (pending c)"

lemma pending_length: "out_ok c \<Longrightarrow> length (pending c) = nat (outCount c)"
  using out_okD [of c] by (simp add: pending_def)

lemma sending_shift:
  assumes "conn_ok c" "0 \<le> p" "p \<le> outCount c" "sending c p c1"
  defines "n \<equiv> outCount c - p"
  shows "\<exists>buf. (if n > 0 then do {
                bs \<leftarrow> rd_bytes (outBuffer c1) (nat p) (nat n);
                wr_bytes (outBuffer c1) 0 bs
              }
              else Some (outBuffer c1)) = Some buf \<and> sent_out c (nat p) (c1\<lparr>outBuffer := buf, outCount := n\<rparr>)"
proof -
  note out = out_okD [OF conn_okD(2) [OF assms(1)]]
  have c1: "conn_ok c1" "only_in c c1" "e_sent (env c1) = e_sent (env c) @ take (nat p) (outBuffer c)"
    using assms(4) by (auto simp: sending_def)
  note buf = only_in_fields [OF c1(2)]
  let ?bs = "take (nat n) (drop (nat p) (outBuffer c))"
  have fit: "nat p + nat n \<le> length (outBuffer c)" using assms out by linarith
  define new where "new = (if n > 0 then ?bs @ drop (nat n) (outBuffer c) else outBuffer c)"
  have len: "length ?bs = nat n" using fit by simp
  have run: "(if n > 0 then do { bs \<leftarrow> rd_bytes (outBuffer c1) (nat p) (nat n); wr_bytes (outBuffer c1) 0 bs }
              else Some (outBuffer c1)) = Some new"
    using fit len by (simp add: new_def buf mem_simps wr_bytes_def)
  have pend: "pending c = take (nat p) (outBuffer c) @ ?bs"
  proof -
    have "nat (outCount c) = nat p + nat n" using assms(2,3) by (simp add: n_def)
    then show ?thesis by (simp add: pending_def take_add)
  qed
  let ?c' = "c1\<lparr>outBuffer := new, outCount := n\<rparr>"
  have new_len: "length new = length (outBuffer c)" using fit len by (simp add: new_def)
  have "pending ?c' = ?bs" using len by (cases "n > 0") (simp_all add: pending_def new_def)
  moreover have "length (take (nat p) (outBuffer c)) = nat p" using fit by simp
  moreover have "conn_ok ?c'"
    using c1(1) out new_len buf assms(2,3) by (auto simp: conn_ok_def in_ok_def out_ok_def n_def)
  moreover have "only_io c ?c'"
    using frame_trans(3) [OF frame_mono(3) [OF c1(2)], of ?c'] by (simp add: only_io_def)
  ultimately have "sent_out c (nat p) ?c'" using c1(3) pend by (simp add: sent_out_def)
  then show ?thesis using run by blast
qed

text \<open>
  The answers: 0 all \<open>len\<close> bytes went out, 1 the socket would block, -1 an error. After an error the
  waiting bytes may have been given up, and only then bytes are lost.
\<close>

definition send_answer :: "pg_conn \<Rightarrow> nat \<Rightarrow> int \<Rightarrow> pg_conn \<Rightarrow> bool" where
  "send_answer c len r c' \<longleftrightarrow> conn_ok c' \<and> only_io c c' \<and>
     (r = 0 \<and> sent_out c len c' \<or>
      r = 1 \<and> nonblocking c \<and> (\<exists>k < len. sent_out c k c') \<or>
      r = - 1 \<and> (\<exists>k \<le> len. sent_out c k c' \<or>
         pending c' = [] \<and> e_sent (env c') = e_sent (env c) @ take k (pending c)))"

lemma pqSendSome_spec:
  assumes "conn_ok c" "0 \<le> len" "len \<le> outCount c"
  shows "\<exists>r c'. pqSendSome c len = Some (r, c') \<and> send_answer c (nat len) r c'"
proof (cases "sock c < 0")
  case True
  obtain c' where c': "printf_error c (lit ''connection not open'' @ [0x0A]) = Some c'" "only_env c c'" "same_net (env c) (env c')" "conn_ok c'"
    by (rule printf_error_ok [OF assms(1), of "lit ''connection not open'' @ [0x0A]"]) simp
  have "sent_out c 0 c'"
    using c' frame_mono same_net_fields [OF c'(3)] by (simp add: sent_out_def pending_def only_env_fields)
  then have "send_answer c (nat len) (- 1) c'" using c' frame_mono by (auto simp: send_answer_def sent_out_def)
  then show ?thesis using True c'(1) by (auto simp: pqSendSome_def)
next
  case False
  have "sending c 0 c" using assms(1) by (simp add: sending_def)
  then obtain r where r: "send_loop 0 len (outCount c) c = Some r" "send_result c len r"
    using send_loop_spec [OF assms(1), of 0 len c] assms by auto
  show ?thesis
  proof (cases r)
    case (Inl c')
    then obtain p c1 where p: "0 \<le> p" "p \<le> len" "sending c p c1" "c' = c1\<lparr>outCount := 0\<rparr>"
      using r(2) by (auto simp: send_result_def)
    have c1: "conn_ok c1" "only_in c c1" "e_sent (env c1) = e_sent (env c) @ take (nat p) (outBuffer c)"
      using p(3) by (auto simp: sending_def)
    have "take (nat p) (pending c) = take (nat p) (outBuffer c)" using p(1,2) assms by (simp add: pending_def min_def)
    moreover have "conn_ok c'" using c1(1) p(4) by (auto simp: conn_ok_def in_ok_def out_ok_def)
    moreover have "only_io c c'" using frame_trans(3) [OF frame_mono(3) [OF c1(2)], of c'] p(4) by (simp add: only_io_def)
    moreover have "nat p \<le> nat len" using p by simp
    ultimately have "send_answer c (nat len) (- 1) c'"
      using c1(3) p(4) by (auto simp: send_answer_def pending_def intro!: exI [of _ "nat p"])
    then show ?thesis using False r(1) Inl by (simp add: pqSendSome_def)
  next
    case (Inr t)
    obtain q p remaining c1 where t: "t = (q, p, remaining, c1)" by (cases t)
    have p: "0 \<le> p" "p \<le> len" "sending c p c1" "remaining = outCount c - p"
      "q = 0 \<and> p = len \<or> q = 1 \<and> p < len \<and> nonblocking c \<or> q = - 1 \<and> p < len \<and> \<not> nonblocking c"
      using r(2) Inr t by (auto simp: send_result_def)
    obtain buf where buf: "(if outCount c - p > 0 then do {
                bs \<leftarrow> rd_bytes (outBuffer c1) (nat p) (nat (outCount c - p));
                wr_bytes (outBuffer c1) 0 bs
              }
              else Some (outBuffer c1)) = Some buf" "sent_out c (nat p) (c1\<lparr>outBuffer := buf, outCount := outCount c - p\<rparr>)"
      using sending_shift [OF assms(1) p(1) _ p(3)] p(2) assms(3) by auto
    let ?c' = "c1\<lparr>outBuffer := buf, outCount := outCount c - p\<rparr>"
    have "pqSendSome c len = Some (q, ?c')"
      using False r(1) Inr t p(4) buf(1) unfolding pqSendSome_def by simp
    moreover have "send_answer c (nat len) q ?c'"
      using p(1,2,5) buf(2) by (auto simp: send_answer_def sent_out_def nat_less_eq_zless intro: exI [of _ "nat p"])
    ultimately show ?thesis by blast
  qed
qed

lemma pqFlush_spec:
  assumes "conn_ok c"
  shows "\<exists>r c'. pqFlush c = Some (r, c') \<and> send_answer c (length (pending c)) r c'"
proof (cases "outCount c > 0")
  case True
  then show ?thesis
    using pqSendSome_spec [OF assms, of "outCount c"] pending_length [OF conn_okD(2) [OF assms]] by (simp add: pqFlush_def)
next
  case False
  then have "pending c = []" by (simp add: pending_def)
  then show ?thesis using False assms by (simp add: pqFlush_def send_answer_def sent_out_def)
qed

end
