(* ===== verification/Messages.thy ===== *)
theory Messages
  imports FeMisc Escape
begin

text \<open>
  Building messages: what \<open>pqPutMsgStart\<close>, the \<open>pqPut\<dots>\<close> functions and \<open>pqPutMsgEnd\<close> of
  \<open>src/interfaces/libpq/fe-misc.c\<close> do together, and the properties of the buffered communication.

  The functions that add to a message share one contract, the locale \<open>message_writer\<close>: the operation either
  answers \<open>EOF\<close> and leaves the message alone or appends its bytes. From it a whole message, whatever its
  fields are, is shown to be framed by its type and its length.
\<close>

section \<open>The message under construction\<close>

definition msg_bytes :: "pg_conn \<Rightarrow> byte list" where
  "msg_bytes c = take (nat (outMsgEnd c - outCount c)) (drop (nat (outCount c)) (outBuffer c))"

definition built :: "pg_conn \<Rightarrow> byte list \<Rightarrow> pg_conn \<Rightarrow> bool" where
  "built c bs c' \<longleftrightarrow> conn_ok c' \<and> msg_ok c' \<and> only_out c c' \<and> outCount c' = outCount c \<and>
     outMsgStart c' = outMsgStart c \<and> msg_bytes c' = msg_bytes c @ bs \<and> pending c' = pending c \<and>
     e_sent (env c') = e_sent (env c)"

text \<open>A writer that could not get memory changes nothing but the error message.\<close>

definition unbuilt :: "pg_conn \<Rightarrow> pg_conn \<Rightarrow> bool" where
  "unbuilt c c' \<longleftrightarrow> conn_ok c' \<and> only_env c c' \<and> e_sent (env c') = e_sent (env c)"

lemma built_trans: "built a bs b \<Longrightarrow> built b bs' c \<Longrightarrow> built a (bs @ bs') c"
  using frame_trans(2) [of a b c] by (auto simp: built_def)

lemma msg_okD:
  assumes "conn_ok c" "msg_ok c"
  shows "0 \<le> outCount c" "outCount c \<le> outMsgEnd c" "outMsgEnd c \<le> outBufSize c" "outBufSize c \<le> 2147475456"
    "length (outBuffer c) = nat (outBufSize c)" "length (msg_bytes c) = nat (outMsgEnd c - outCount c)"
proof -
  show "0 \<le> outCount c" "outCount c \<le> outMsgEnd c" "outMsgEnd c \<le> outBufSize c" "outBufSize c \<le> 2147475456"
    and len: "length (outBuffer c) = nat (outBufSize c)"
    using assms out_okD [OF conn_okD(2)] by (auto simp: msg_ok_def)
  then have "nat (outCount c) + nat (outMsgEnd c - outCount c) \<le> length (outBuffer c)" by linarith
  then show "length (msg_bytes c) = nat (outMsgEnd c - outCount c)" by (simp add: msg_bytes_def)
qed

lemma wrap32_small: "- 2147483648 \<le> x \<Longrightarrow> x < 2147483648 \<Longrightarrow> wrap32 x = x"
  by (simp add: c_arith)

lemma pqPutMsgStart_spec:
  fixes t :: byte and force_len :: bool
  assumes "conn_ok c"
  defines "k \<equiv> (if t \<noteq> 0 then 1 else 0 :: nat)" and "w \<equiv> force_len \<or> PG_PROTOCOL_MAJOR (pversion c) \<ge> 3"
  shows "\<exists>r c'. pqPutMsgStart t force_len c = Some (r, c') \<and>
    (if r = 0 then conn_ok c' \<and> msg_ok c' \<and> only_out c c' \<and> outCount c' = outCount c \<and> pending c' = pending c \<and>
       e_sent (env c') = e_sent (env c) \<and> outMsgStart c' = (if w then outCount c + int k else - 1) \<and>
       length (msg_bytes c') = k + (if w then 4 else 0) \<and> take k (msg_bytes c') = take k [t]
     else r = EOF \<and> unbuilt c c')"
proof -
  define endPos where "endPos = outCount c + int k + (if w then 4 else 0)"
  note out = out_okD [OF conn_okD(2) [OF assms(1)]]
  obtain r c1 where r: "pqCheckOutBufferSpace (nat endPos) c = Some (r, c1)" "conn_ok c1" "same_net (env c) (env c1)"
    "if r = 0 then grown (outBuffer c) (outBufSize c) (nat endPos) (outBuffer c1) (outBufSize c1) \<and>
       c1 = c\<lparr>outBuffer := outBuffer c1, outBufSize := outBufSize c1, env := env c1\<rparr>
     else r = EOF \<and> only_env c c1 \<and> (nat endPos \<le> 2147475456 \<longrightarrow> False \<in> set (oks (e_alloc (env c))))"
    using pqCheckOutBufferSpace_spec [OF assms(1)] by blast
  have pos: "(if w then (if t \<noteq> 0 then outCount c + 1 else outCount c) + 4 else (if t \<noteq> 0 then outCount c + 1 else outCount c)) = endPos"
    "(if w then (if t \<noteq> 0 then outCount c + 1 else outCount c) else - 1) = (if w then outCount c + int k else - 1)"
    by (auto simp: endPos_def k_def)
  show ?thesis
  proof (cases "r = 0")
    case False
    then have "unbuilt c c1" using r(2,4) same_net_fields [OF r(3)] by (simp add: unbuilt_def)
    then show ?thesis using False r(1,4) by (simp add: pqPutMsgStart_def Let_def w_def [symmetric] pos)
  next
    case True
    then have g: "grown (outBuffer c) (outBufSize c) (nat endPos) (outBuffer c1) (outBufSize c1)"
      and c1: "c1 = c\<lparr>outBuffer := outBuffer c1, outBufSize := outBufSize c1, env := env c1\<rparr>" using r(4) by auto
    have same: "outCount c1 = outCount c" "only_out c c1" using c1 by (cases c; cases c1; simp add: only_out_def)+
    have len: "nat endPos \<le> length (outBuffer c1)" "endPos \<le> outBufSize c1"
      using g out by (auto simp: grown_def endPos_def good_size_def)
    have "outCount c + int k \<le> endPos" by (simp add: endPos_def)
    then have lt: "nat (outCount c) + k \<le> nat endPos" using out by linarith
    define buf where "buf = (if t \<noteq> 0 then (outBuffer c1)[nat (outCount c) := t] else outBuffer c1)"
    have buf_len: "length buf = length (outBuffer c1)" by (simp add: buf_def)
    have wr: "(if t \<noteq> 0 then wr (outBuffer c1) (nat (outCount c1)) t else Some (outBuffer c1)) = Some buf"
      using lt len by (cases "t = 0") (simp_all add: buf_def same wr_def k_def)
    let ?c' = "c1\<lparr>outBuffer := buf, outMsgStart := if w then outCount c + int k else - 1, outMsgEnd := endPos\<rparr>"
    have run: "pqPutMsgStart t force_len c = Some (0, ?c')"
      unfolding pqPutMsgStart_def Let_def w_def [symmetric] pos using r(1) True wr by simp
    have ok: "conn_ok ?c'" using r(2) buf_len by (simp add: conn_ok_def in_ok_def out_ok_def)
    have mok: "msg_ok ?c'" using len(2) by (auto simp: msg_ok_def same endPos_def)
    have "pending ?c' = pending c"
      using grown_bytes [OF _ g, of "nat (outCount c)"] out by (simp add: pending_def buf_def same)
    moreover have "length (msg_bytes ?c') = k + (if w then 4 else 0)"
      using msg_okD(6) [OF ok mok] by (simp add: same endPos_def) (simp add: nat_add_distrib)
    moreover have "take k (msg_bytes ?c') = take k [t]"
    proof (cases "t = 0")
      case False
      have "nat (outCount c) < length (outBuffer c1)" using lt len False by (simp add: k_def)
      then have "drop (nat (outCount c)) buf = t # drop (Suc (nat (outCount c))) (outBuffer c1)"
        using False by (simp add: buf_def drop_update_cancel Cons_nth_drop_Suc [symmetric, of _ "(outBuffer c1)[nat (outCount c) := t]"])
      moreover have "nat (endPos - outCount c) = Suc (if w then 4 else 0)" using False by (simp add: endPos_def k_def)
      ultimately show ?thesis using False by (simp add: msg_bytes_def same k_def)
    qed (simp add: k_def)
    moreover have "only_out c ?c'" using frame_trans(2) [OF same(2), of ?c'] by (simp add: only_out_def)
    ultimately show ?thesis using run ok mok same_net_fields [OF r(3)] same by simp
  qed
qed

lemma pqPutMsgBytes_spec:
  assumes "conn_ok c" "msg_ok c" "length bs < 2 ^ 31"
  shows "\<exists>r c'. pqPutMsgBytes bs c = Some (r, c') \<and> (if r = 0 then built c bs c' else r = EOF \<and> unbuilt c c')"
proof -
  note m = msg_okD [OF assms(1,2)]
  let ?need = "nat (outMsgEnd c) + length bs"
  have "length bs < 2147483648" using assms(3) by simp
  then have "?need < 4294967296" using m by linarith
  then have need: "szadd (nat (outMsgEnd c)) (length bs) = ?need" by (simp add: c_arith)
  obtain r c1 where r: "pqCheckOutBufferSpace ?need c = Some (r, c1)" "conn_ok c1" "same_net (env c) (env c1)"
    "if r = 0 then grown (outBuffer c) (outBufSize c) ?need (outBuffer c1) (outBufSize c1) \<and>
       c1 = c\<lparr>outBuffer := outBuffer c1, outBufSize := outBufSize c1, env := env c1\<rparr>
     else r = EOF \<and> only_env c c1 \<and> (?need \<le> 2147475456 \<longrightarrow> False \<in> set (oks (e_alloc (env c))))"
    using pqCheckOutBufferSpace_spec [OF assms(1)] by blast
  show ?thesis
  proof (cases "r = 0")
    case False
    then have "unbuilt c c1" using r(2,4) same_net_fields [OF r(3)] by (simp add: unbuilt_def)
    then show ?thesis using False r(1,4) by (simp add: pqPutMsgBytes_def need)
  next
    case True
    then have g: "grown (outBuffer c) (outBufSize c) ?need (outBuffer c1) (outBufSize c1)"
      and c1: "c1 = c\<lparr>outBuffer := outBuffer c1, outBufSize := outBufSize c1, env := env c1\<rparr>" using r(4) by auto
    have same: "outCount c1 = outCount c" "outMsgEnd c1 = outMsgEnd c" "outMsgStart c1 = outMsgStart c" "only_out c c1"
      using c1 by (cases c; cases c1; simp add: only_out_def)+
    have fit: "?need \<le> length (outBuffer c1)" "?need \<le> nat (outBufSize c1)" "outBufSize c1 \<le> 2147475456"
      using g good_size_le by (auto simp: grown_def)
    define buf where "buf = take (nat (outMsgEnd c)) (outBuffer c1) @ bs @ drop ?need (outBuffer c1)"
    have buf_len: "length buf = length (outBuffer c1)" using fit by (simp add: buf_def)
    have wr: "wr_bytes (outBuffer c1) (nat (outMsgEnd c1)) bs = Some buf"
      using fit by (simp add: same wr_bytes_def buf_def)
    have pos: "wrap32 (outMsgEnd c1 + int (length bs)) = outMsgEnd c + int (length bs)"
      unfolding same using fit m by (intro wrap32_small) linarith+
    let ?c' = "c1\<lparr>outBuffer := buf, outMsgEnd := outMsgEnd c + int (length bs)\<rparr>"
    have run: "pqPutMsgBytes bs c = Some (0, ?c')"
      using r(1) True wr pos by (simp add: pqPutMsgBytes_def need)
    have ok: "conn_ok ?c'" using r(2) buf_len by (simp add: conn_ok_def in_ok_def out_ok_def)
    have "0 < outBufSize c1" using g by (simp add: grown_def good_size_def)
    then have "outMsgEnd c + int (length bs) \<le> outBufSize c1" using fit(2) m by linarith
    then have mok: "msg_ok ?c'" using assms(2) by (auto simp: msg_ok_def same)
    have le: "nat (outMsgEnd c) \<le> length (outBuffer c)" using m by linarith
    have start: "take (nat (outMsgEnd c)) buf = take (nat (outMsgEnd c)) (outBuffer c)"
      using fit grown_bytes [OF _ g, of "nat (outMsgEnd c)"] m by (simp add: buf_def)
    have "take (nat (outCount c)) buf = take (nat (outCount c)) (take (nat (outMsgEnd c)) buf)" using m by (simp add: min_def)
    also have "\<dots> = take (nat (outCount c)) (outBuffer c)" unfolding start using m by (simp add: min_def)
    finally have "pending ?c' = pending c" by (simp add: pending_def same)
    moreover have "msg_bytes ?c' = msg_bytes c @ bs"
    proof -
      have "msg_bytes ?c' = drop (nat (outCount c)) (take (nat (outMsgEnd c) + length bs) buf)"
        using m by (simp add: msg_bytes_def same drop_take nat_add_distrib nat_diff_distrib)
      also have "take (nat (outMsgEnd c) + length bs) buf = take (nat (outMsgEnd c)) (outBuffer c) @ bs"
        using fit start le by (simp add: buf_def)
      finally show ?thesis using m by (simp add: msg_bytes_def drop_take nat_diff_distrib)
    qed
    moreover have "only_out c ?c'" using frame_trans(2) [OF same(4), of ?c'] by (simp add: only_out_def)
    ultimately show ?thesis using run ok mok same_net_fields [OF r(3)] same by (simp add: built_def)
  qed
qed



section \<open>Adding to a message\<close>

locale message_writer =
  fixes put :: "pg_conn \<Rightarrow> (int \<times> pg_conn) option"
    and bytes :: "byte list"
  assumes appends: "conn_ok c \<Longrightarrow> msg_ok c \<Longrightarrow>
    \<exists>r c'. put c = Some (r, c') \<and> (if r = 0 then built c bytes c' else r = EOF \<and> unbuilt c c')"
begin

text \<open>A writer that is tried after another one, as the callers write \<open>put\<^sub>1 || put\<^sub>2\<close>.\<close>

lemma after_another:
  assumes "conn_ok c" "msg_ok c" "first c = Some (r, c1)" "if r = 0 then built c bs c1 else r = EOF \<and> unbuilt c c1"
  shows "\<exists>r' c'. (if r \<noteq> 0 then Some (EOF, c1) else put c1) = Some (r', c') \<and>
    (r' = 0 \<longrightarrow> built c (bs @ bytes) c') \<and> (r' \<noteq> 0 \<longrightarrow> r' = EOF \<and> conn_ok c')"
proof (cases "r = 0")
  case True
  then have b: "built c bs c1" "conn_ok c1" "msg_ok c1" using assms(4) by (auto simp: built_def)
  obtain r' c' where "put c1 = Some (r', c')" "if r' = 0 then built c1 bytes c' else r' = EOF \<and> unbuilt c1 c'"
    using appends [OF b(2,3)] by blast
  then show ?thesis using True built_trans [OF b(1)] by (auto simp: unbuilt_def split: if_splits)
qed (use assms(4) in \<open>auto simp: unbuilt_def EOF_def\<close>)

end

lemma pqPutMsgBytes_writer: "length bs < 2 ^ 31 \<Longrightarrow> message_writer (pqPutMsgBytes bs) bs"
  by unfold_locales (rule pqPutMsgBytes_spec)

lemma answer_of_bytes:
  assumes "length bs < 2 ^ 31"
  shows "message_writer (\<lambda>c. do { (r, c) \<leftarrow> pqPutMsgBytes bs c; Some (if r \<noteq> 0 then EOF else 0, c) }) bs"
proof
  fix c assume "conn_ok c" "msg_ok c"
  then obtain r c' where "pqPutMsgBytes bs c = Some (r, c')" "if r = 0 then built c bs c' else r = EOF \<and> unbuilt c c'"
    using pqPutMsgBytes_spec [OF _ _ assms] by blast
  then show "\<exists>r c'. (do { (r, c) \<leftarrow> pqPutMsgBytes bs c; Some (if r \<noteq> 0 then EOF else 0, c) }) = Some (r, c') \<and>
      (if r = 0 then built c bs c' else r = EOF \<and> unbuilt c c')"
    by (auto simp: EOF_def split: if_splits)
qed

interpretation putc: message_writer "pqPutc b" "[b]" for b
  using answer_of_bytes [of "[b]"] by (simp add: pqPutc_def [abs_def])

interpretation putint2: message_writer "pqPutInt v 2" "be_bytes 2 v" for v
  using answer_of_bytes [of "be_bytes 2 v"] by (simp add: pqPutInt_def [abs_def])

interpretation putint4: message_writer "pqPutInt v 4" "be_bytes 4 v" for v
  using answer_of_bytes [of "be_bytes 4 v"] by (simp add: pqPutInt_def [abs_def])

text \<open>The writers of strings work for strings that fit in an \<open>int\<close>.\<close>

lemma puts_writer: "length s + 1 < 2 ^ 31 \<Longrightarrow> message_writer (pqPuts s) (s @ [0])"
  using answer_of_bytes [of "s @ [0]"] by (simp add: pqPuts_def [abs_def])

lemma putnchar_writer: "length s < 2 ^ 31 \<Longrightarrow> message_writer (pqPutnchar s) s"
  using answer_of_bytes [of s] by (simp add: pqPutnchar_def [abs_def])

text \<open>The fields of a message, put one after the other until one fails, as the callers do.\<close>

datatype field = Int2 int | Int4 int | Str "byte list" | Bytes "byte list" | Char byte

fun field_bytes :: "field \<Rightarrow> byte list" where
  "field_bytes (Int2 v) = be_bytes 2 v"
| "field_bytes (Int4 v) = be_bytes 4 v"
| "field_bytes (Str s) = s @ [0]"
| "field_bytes (Bytes s) = s"
| "field_bytes (Char c) = [c]"

fun put_field :: "field \<Rightarrow> pg_conn \<Rightarrow> (int \<times> pg_conn) option" where
  "put_field (Int2 v) = pqPutInt v 2"
| "put_field (Int4 v) = pqPutInt v 4"
| "put_field (Str s) = pqPuts s"
| "put_field (Bytes s) = pqPutnchar s"
| "put_field (Char c) = pqPutc c"

fun put_fields :: "field list \<Rightarrow> pg_conn \<Rightarrow> (int \<times> pg_conn) option" where
  "put_fields [] c = Some (0, c)"
| "put_fields (f # fs) c = do { (r, c) \<leftarrow> put_field f c; if r \<noteq> 0 then Some (EOF, c) else put_fields fs c }"

definition short_field :: "field \<Rightarrow> bool" where
  "short_field f \<longleftrightarrow> length (field_bytes f) < 2 ^ 31"

lemma put_field_writer: "short_field f \<Longrightarrow> message_writer (put_field f) (field_bytes f)"
  by (cases f)
     (simp_all add: short_field_def putc.message_writer_axioms putint2.message_writer_axioms putint4.message_writer_axioms
       puts_writer putnchar_writer)

lemma put_fields_spec:
  "\<forall>f \<in> set fs. short_field f \<Longrightarrow> conn_ok c \<Longrightarrow> msg_ok c \<Longrightarrow>
   \<exists>r c'. put_fields fs c = Some (r, c') \<and>
     (if r = 0 then built c (concat (map field_bytes fs)) c' else r = EOF \<and> conn_ok c' \<and> e_sent (env c') = e_sent (env c) \<and> pending c' = pending c)"
proof (induction fs arbitrary: c)
  case Nil
  then show ?case by (simp add: built_def)
next
  case (Cons f fs)
  have "message_writer (put_field f) (field_bytes f)" using Cons.prems(1) put_field_writer by simp
  then obtain r c1 where 1: "put_field f c = Some (r, c1)" "if r = 0 then built c (field_bytes f) c1 else r = EOF \<and> unbuilt c c1"
    using message_writer.appends Cons.prems(2,3) by blast
  show ?case
  proof (cases "r = 0")
    case False
    then show ?thesis using 1 by (auto simp: unbuilt_def EOF_def pending_def only_env_fields)
  next
    case True
    then have b: "built c (field_bytes f) c1" "conn_ok c1" "msg_ok c1" using 1(2) by (auto simp: built_def)
    obtain r' c' where 2: "put_fields fs c1 = Some (r', c')" "if r' = 0 then built c1 (concat (map field_bytes fs)) c'
        else r' = EOF \<and> conn_ok c' \<and> e_sent (env c') = e_sent (env c1) \<and> pending c' = pending c1"
      using Cons.IH [of c1] Cons.prems(1) b(2,3) by auto
    then show ?thesis using 1(1) True b(1) built_trans [OF b(1)] by (auto simp: built_def split: if_splits)
  qed
qed


section \<open>Finishing a message\<close>

text \<open>The length word counts itself and what follows it.\<close>

definition framed :: "byte list \<Rightarrow> int \<Rightarrow> byte list" where
  "framed m s =
     (if s \<ge> 0 then take (nat s) m @ be_bytes 4 (int (length m) - s) @ drop (nat s + 4) m else m)"

lemma pqPutMsgEnd_spec:
  assumes "conn_ok c" "msg_ok c"
  defines "w \<equiv> pending c @ framed (msg_bytes c) (if outMsgStart c = - 1 then - 1 else outMsgStart c - outCount c)"
  shows "\<exists>r c'. pqPutMsgEnd c = Some (r, c') \<and> conn_ok c' \<and> only_io c c' \<and>
    (if r = 0 then e_sent (env c') @ pending c' = e_sent (env c) @ w
     else r = EOF \<and> (\<exists>k. e_sent (env c') = e_sent (env c) @ take k w))"
proof -
  note m = msg_okD [OF assms(1,2)]
  define s where "s = outMsgStart c"
  define n where "n = outMsgEnd c"
  have s: "s = - 1 \<or> outCount c \<le> s \<and> s + 4 \<le> n" using assms(2) by (simp add: msg_ok_def s_def n_def)
  define buf where "buf = (if s \<ge> 0 then take (nat s) (outBuffer c) @ be_bytes 4 (n - s) @ drop (nat s + 4) (outBuffer c) else outBuffer c)"
  have fit: "s \<noteq> - 1 \<Longrightarrow> nat s + 4 \<le> nat n" "nat n \<le> length (outBuffer c)" using s m by (auto simp: n_def)
  have wr: "(if s \<ge> 0 then wr_bytes (outBuffer c) (nat s) (be_bytes 4 (n - s)) else Some (outBuffer c)) = Some buf"
    using s m fit by (auto simp: buf_def wr_bytes_def)
  have len: "length buf = length (outBuffer c)" using fit s m by (auto simp: buf_def)
  let ?c1 = "c\<lparr>outBuffer := buf, outCount := n\<rparr>"
  have ok1: "conn_ok ?c1" using assms(1) len m by (auto simp: conn_ok_def in_ok_def out_ok_def n_def)
  have pend: "pending ?c1 = w"
  proof -
    let ?k = "nat (outCount c)"
    have all: "take (nat n) (outBuffer c) = pending c @ msg_bytes c"
    proof -
      have "nat n = ?k + nat (n - outCount c)" using m by (simp add: n_def)
      then show ?thesis by (simp add: pending_def msg_bytes_def n_def [symmetric] take_add)
    qed
    have pl: "length (pending c) = ?k" using m pending_length conn_okD(2) assms(1) by blast
    show ?thesis
    proof (cases "s = - 1")
      case True
      then show ?thesis using all by (simp add: pending_def buf_def w_def framed_def s_def)
    next
      case False
      then have pos: "0 \<le> s" "outCount c \<le> s" "s + 4 \<le> n" using s m by auto
      have split: "nat s = ?k + nat (s - outCount c)" using pos m by simp
      have ml: "length (msg_bytes c) = nat (n - outCount c)" using m by (simp add: n_def)
      have len': "int (length (msg_bytes c)) - (s - outCount c) = n - s" using ml pos by simp
      have "take (nat n) buf = take (nat s) (take (nat n) (outBuffer c)) @ be_bytes 4 (n - s) @ drop (nat s + 4) (take (nat n) (outBuffer c))"
        using pos fit by (simp add: buf_def drop_take min_def)
      also have "\<dots> = pending c @ framed (msg_bytes c) (s - outCount c)"
        unfolding all framed_def len' using pos pl split by (simp add: add.assoc)
      finally show ?thesis using False by (simp add: pending_def w_def s_def)
    qed
  qed
  have only1: "only_io c ?c1" by (simp add: only_io_def)
  show ?thesis
  proof (cases "n \<ge> 8192")
    case False
    have "pqPutMsgEnd c = Some (0, ?c1)"
      unfolding pqPutMsgEnd_def s_def [symmetric] n_def [symmetric] wr using False by (simp add: Let_def)
    then show ?thesis using ok1 only1 pend by simp
  next
    case True
    let ?send = "n - n mod 8192"
    have range: "0 \<le> ?send" "?send \<le> outCount ?c1" using True pos_mod_sign [of 8192 n] zmod_le_nonneg_dividend [of n 8192] by simp_all
    obtain r c' where r: "pqSendSome ?c1 ?send = Some (r, c')" "send_answer ?c1 (nat ?send) r c'"
      using pqSendSome_spec [OF ok1 range] by blast
    have run: "pqPutMsgEnd c = Some (if r < 0 then EOF else 0, c')"
      unfolding pqPutMsgEnd_def s_def [symmetric] n_def [symmetric] wr using True r(1) by (simp add: Let_def)
    have ok: "conn_ok c'" "only_io c c'" using r(2) frame_trans(3) [OF only1] by (auto simp: send_answer_def)
    have all: "r \<ge> 0 \<Longrightarrow> e_sent (env c') @ pending c' = e_sent (env c) @ w"
      using r(2) pend by (auto simp: send_answer_def sent_out_def)
    have some: "r < 0 \<Longrightarrow> \<exists>k. e_sent (env c') = e_sent (env c) @ take k w"
      using r(2) pend by (auto simp: send_answer_def sent_out_def)
    show ?thesis using run ok all some by (cases "r < 0") (auto simp: EOF_def)
  qed
qed



section \<open>Properties\<close>

text \<open>A whole message, written the way the callers in the library write one.\<close>

definition put_message :: "byte \<Rightarrow> field list \<Rightarrow> pg_conn \<Rightarrow> (int \<times> pg_conn) option" where
  "put_message t fs c = do {
     (r, c) \<leftarrow> pqPutMsgStart t False c;
     if r \<noteq> 0 then Some (EOF, c)
     else do {
       (r, c) \<leftarrow> put_fields fs c;
       if r \<noteq> 0 then Some (EOF, c) else pqPutMsgEnd c
     }
   }"

lemma framed_message:
  assumes "length m = k + 4" "take k m = h" "length h = k"
  shows "framed (m @ body) (int k) = h @ be_bytes 4 (4 + int (length body)) @ body"
proof -
  have "take k (m @ body) = h" using assms by simp
  moreover have "drop (k + 4) (m @ body) = body" using assms by simp
  ultimately show ?thesis using assms(1) by (simp add: framed_def)
qed

lemma put_message_spec:
  assumes "conn_ok c" "PG_PROTOCOL_MAJOR (pversion c) \<ge> 3" "t \<noteq> 0" "\<forall>f \<in> set fs. short_field f"
  defines "msg \<equiv> t # be_bytes 4 (4 + int (length (concat (map field_bytes fs)))) @ concat (map field_bytes fs)"
  shows "\<exists>r c'. put_message t fs c = Some (r, c') \<and> conn_ok c' \<and>
    (if r = 0 then e_sent (env c') @ pending c' = e_sent (env c) @ pending c @ msg
     else r = EOF \<and> (\<exists>k. e_sent (env c') = e_sent (env c) @ take k (pending c @ msg)))"
proof -
  obtain r c1 where raw: "pqPutMsgStart t False c = Some (r, c1)"
    "if r = 0 then conn_ok c1 \<and> msg_ok c1 \<and> only_out c c1 \<and> outCount c1 = outCount c \<and> pending c1 = pending c \<and>
       e_sent (env c1) = e_sent (env c) \<and> outMsgStart c1 = (if False \<or> PG_PROTOCOL_MAJOR (pversion c) \<ge> 3
         then outCount c + int (if t \<noteq> 0 then 1 else 0) else - 1) \<and>
       length (msg_bytes c1) = (if t \<noteq> 0 then 1 else 0) + (if False \<or> PG_PROTOCOL_MAJOR (pversion c) \<ge> 3 then 4 else 0) \<and>
       take (if t \<noteq> 0 then 1 else 0) (msg_bytes c1) = take (if t \<noteq> 0 then 1 else 0) [t]
     else r = EOF \<and> unbuilt c c1"
    using pqPutMsgStart_spec [OF assms(1), of t False] by blast
  have 1: "pqPutMsgStart t False c = Some (r, c1)"
    "if r = 0 then conn_ok c1 \<and> msg_ok c1 \<and> only_out c c1 \<and> outCount c1 = outCount c \<and> pending c1 = pending c \<and>
       e_sent (env c1) = e_sent (env c) \<and> outMsgStart c1 = outCount c + 1 \<and>
       length (msg_bytes c1) = 1 + 4 \<and> take 1 (msg_bytes c1) = [t]
     else r = EOF \<and> unbuilt c c1"
    using raw assms(2,3) by auto
  show ?thesis
  proof (cases "r = 0")
    case False
    then show ?thesis using 1 by (auto simp: put_message_def unbuilt_def EOF_def intro: exI [of _ 0])
  next
    case True
    then have c1: "conn_ok c1" "msg_ok c1" "outCount c1 = outCount c" "pending c1 = pending c" "e_sent (env c1) = e_sent (env c)"
      "outMsgStart c1 = outCount c + 1" "length (msg_bytes c1) = 1 + 4" "take 1 (msg_bytes c1) = [t]" using 1(2) by auto
    obtain r2 c2 where 2: "put_fields fs c1 = Some (r2, c2)" "if r2 = 0 then built c1 (concat (map field_bytes fs)) c2
       else r2 = EOF \<and> conn_ok c2 \<and> e_sent (env c2) = e_sent (env c1) \<and> pending c2 = pending c1"
      using put_fields_spec [OF assms(4) c1(1,2)] by blast
    show ?thesis
    proof (cases "r2 = 0")
      case False
      then show ?thesis using 1(1) True 2 c1 by (auto simp: put_message_def EOF_def intro: exI [of _ 0])
    next
      case ok2: True
      then have b: "conn_ok c2" "msg_ok c2" "outCount c2 = outCount c" "pending c2 = pending c" "e_sent (env c2) = e_sent (env c)"
        "outMsgStart c2 = outCount c + 1" "msg_bytes c2 = msg_bytes c1 @ concat (map field_bytes fs)"
        using 2(2) c1 by (auto simp: built_def)
      have "0 \<le> outCount c" using out_okD [OF conn_okD(2) [OF assms(1)]] by simp
      then have fr: "framed (msg_bytes c2) (if outMsgStart c2 = - 1 then - 1 else outMsgStart c2 - outCount c2) = msg"
        using framed_message [OF c1(7,8), of "concat (map field_bytes fs)"] by (simp add: b msg_def)
      obtain r3 c3 where 3: "pqPutMsgEnd c2 = Some (r3, c3)" "conn_ok c3"
        "if r3 = 0 then e_sent (env c3) @ pending c3 = e_sent (env c2) @ pending c2 @ msg
         else r3 = EOF \<and> (\<exists>k. e_sent (env c3) = e_sent (env c2) @ take k (pending c2 @ msg))"
        using pqPutMsgEnd_spec [OF b(1,2)] unfolding fr by blast
      have run: "put_message t fs c = Some (r3, c3)" using 1(1) True 2(1) ok2 3(1) by (simp add: put_message_def)
      show ?thesis using run 3(2,3) b(4,5) by (auto split: if_splits)
    qed
  qed
qed

lemma example_conn_ok: "conn_ok example_conn"
  using example_conn_valid by (simp add: conn_ok_def in_ok_def out_ok_def) (simp add: example_conn_def)

text \<open>C18: A message written with \<open>pqPutMsgStart\<close>, any sequence of the \<open>pqPut\<close> functions and \<open>pqPutMsgEnd\<close> reaches
  the server framed: if no step fails, what was sent and what is waiting grow by exactly the type byte,
  a length word that counts itself and the contents, and the contents; if a step fails, the server has seen
  a prefix of that stream and no other byte.\<close>

theorem message_framing:
  assumes "conn_ok c" "PG_PROTOCOL_MAJOR (pversion c) \<ge> 3" "t \<noteq> 0" "\<forall>f \<in> set fs. short_field f"
  shows "\<exists>r c'. put_message t fs c = Some (r, c') \<and> conn_ok c' \<and>
    (let body = concat (map field_bytes fs); msg = t # be_bytes 4 (4 + int (length body)) @ body in
     if r = 0 then e_sent (env c') @ pending c' = e_sent (env c) @ pending c @ msg
     else r = EOF \<and> (\<exists>k. e_sent (env c') = e_sent (env c) @ take k (pending c @ msg)))"
  using put_message_spec [OF assms] by (simp add: Let_def)

lemma message_framing_witness:
  "\<exists>r c'. put_message 0x51 [Str (lit ''select 1''), Int4 7] example_conn = Some (r, c') \<and> conn_ok c' \<and>
    (let body = concat (map field_bytes [Str (lit ''select 1''), Int4 7]); msg = 0x51 # be_bytes 4 (4 + int (length body)) @ body in
     if r = 0 then e_sent (env c') @ pending c' = e_sent (env example_conn) @ pending example_conn @ msg
     else r = EOF \<and> (\<exists>k. e_sent (env c') = e_sent (env example_conn) @ take k (pending example_conn @ msg)))"
  by (rule message_framing [OF example_conn_ok])
     (simp_all add: short_field_def example_conn_def PG_PROTOCOL_MAJOR_def)

text \<open>C20: \<open>pqFlush\<close> loses and duplicates nothing. Answer 0: everything waiting has been sent; 1: the socket would block, the
  connection is non-blocking, and a proper prefix has been sent while the rest still waits; -1: a prefix has been
  sent and the rest still waits or has been given up.\<close>

theorem flush_conserves:
  assumes "conn_ok c"
  shows "\<exists>r c'. pqFlush c = Some (r, c') \<and> conn_ok c' \<and>
    (\<exists>k \<le> length (pending c). e_sent (env c') = e_sent (env c) @ take k (pending c) \<and>
       (pending c' = drop k (pending c) \<or> r = - 1 \<and> pending c' = []) \<and>
       (r = 0 \<and> k = length (pending c) \<or> r = 1 \<and> nonblocking c \<and> k < length (pending c) \<or> r = - 1))"
proof -
  obtain r c' where r: "pqFlush c = Some (r, c')" "send_answer c (length (pending c)) r c'"
    using pqFlush_spec [OF assms] by blast
  have ok: "conn_ok c'" using r(2) by (simp add: send_answer_def)
  consider "r = 0" "sent_out c (length (pending c)) c'" | k where "r = 1" "nonblocking c" "k < length (pending c)" "sent_out c k c'"
    | k where "r = - 1" "k \<le> length (pending c)" "sent_out c k c' \<or> pending c' = [] \<and> e_sent (env c') = e_sent (env c) @ take k (pending c)"
    using r(2) unfolding send_answer_def by blast
  then show ?thesis
  proof cases
    case 1
    then show ?thesis using r(1) ok by (auto simp: sent_out_def)
  next
    case 2
    then show ?thesis using r(1) ok by (auto simp: sent_out_def intro!: exI [of _ k])
  next
    case 3
    then show ?thesis using r(1) ok by (auto simp: sent_out_def intro!: exI [of _ k])
  qed
qed

lemma flush_conserves_witness:
  "\<exists>r c'. pqFlush (example_conn\<lparr>outCount := 5\<rparr>) = Some (r, c') \<and> conn_ok c' \<and>
    (\<exists>k \<le> length (pending (example_conn\<lparr>outCount := 5\<rparr>)).
       e_sent (env c') = e_sent (env (example_conn\<lparr>outCount := 5\<rparr>)) @ take k (pending (example_conn\<lparr>outCount := 5\<rparr>)) \<and>
       (pending c' = drop k (pending (example_conn\<lparr>outCount := 5\<rparr>)) \<or> r = - 1 \<and> pending c' = []) \<and>
       (r = 0 \<and> k = length (pending (example_conn\<lparr>outCount := 5\<rparr>)) \<or>
        r = 1 \<and> nonblocking (example_conn\<lparr>outCount := 5\<rparr>) \<and> k < length (pending (example_conn\<lparr>outCount := 5\<rparr>)) \<or> r = - 1))"
  by (rule flush_conserves) (use example_conn_ok in \<open>simp add: conn_ok_def in_ok_def out_ok_def example_conn_def\<close>)

text \<open>C19: \<open>pqReadData\<close> appends to the data from \<open>inStart\<close> on exactly the next bytes the network delivers, keeps the cursor
  at the same data while it moves and enlarges the buffer, ends whatever sequence of packets, interruptions and errors
  arrives, and answers 1 only when something was read and 0 only when nothing was.\<close>

theorem read_data_appends:
  assumes "conn_ok c"
  shows "\<exists>r bs c'. pqReadData c = Some (r, c') \<and> conn_ok c' \<and> in_data c' = in_data c @ bs \<and>
    stream (env c) = bs @ stream (env c') \<and> inCursor c' - inStart c' = inCursor c - inStart c \<and>
    (r = - 1 \<or> r = 0 \<and> bs = [] \<or> r = 1 \<and> bs \<noteq> [])"
  using pqReadData_spec [OF assms] unfolding read_in_def read_answer_def by blast

lemma read_data_appends_witness:
  "\<exists>r bs c'. pqReadData example_conn = Some (r, c') \<and> conn_ok c' \<and> in_data c' = in_data example_conn @ bs \<and>
    stream (env example_conn) = bs @ stream (env c') \<and> inCursor c' - inStart c' = inCursor example_conn - inStart example_conn \<and>
    (r = - 1 \<or> r = 0 \<and> bs = [] \<or> r = 1 \<and> bs \<noteq> [])"
  by (rule read_data_appends [OF example_conn_ok])

text \<open>Integers survive the wire: the bytes \<open>pqPutInt\<close> adds to a message for \<open>v\<close>, when they come next in the
  input, make \<open>pqGetInt\<close> return \<open>v\<close> again: reduced to the signed 32-bit range for 4 bytes, and to the unsigned 16-bit range
  for 2 (a negative value does not come back).\<close>

theorem int_wire_roundtrip:
  assumes "conn_ok c" "msg_ok c" "n = 2 \<or> n = 4"
  shows "\<exists>r c'. pqPutInt v n c = Some (r, c') \<and> conn_ok c' \<and> (r = 0 \<longrightarrow>
    (\<forall>d rest. conn_ok d \<longrightarrow> unread d = drop (length (msg_bytes c)) (msg_bytes c') @ rest \<longrightarrow>
       (\<exists>d'. pqGetInt n d = Some (Some (if n = 4 then wrap32 v else v mod 2 ^ 16), d') \<and> conn_ok d' \<and> unread d' = rest)))"
proof -
  have "message_writer (pqPutInt v n) (be_bytes n v)"
    using assms(3) putint2.message_writer_axioms putint4.message_writer_axioms by auto
  then obtain r c' where put: "pqPutInt v n c = Some (r, c')" "if r = 0 then built c (be_bytes n v) c' else r = EOF \<and> unbuilt c c'"
    using message_writer.appends [OF _ assms(1,2)] by blast
  have reads: "\<exists>d'. pqGetInt n d = Some (Some (if n = 4 then wrap32 v else v mod 2 ^ 16), d') \<and> conn_ok d' \<and> unread d' = rest"
    if h: "r = 0" "conn_ok d" "unread d = drop (length (msg_bytes c)) (msg_bytes c') @ rest" for d rest
  proof -
    have un: "unread d = be_bytes n v @ rest" using h(1,3) put(2) by (simp add: built_def)
    then have len: "n \<le> length (unread d)" "take n (unread d) = be_bytes n v" by simp_all
    obtain d' where d': "pqGetInt n d = Some (Some (net_int (be_bytes n v)), d')" "advanced d n d'" "conn_ok d'"
      using pqGetInt_spec [OF h(2) assms(3)] len by auto
    have "wrap32 (v mod 2 ^ 32) = wrap32 v" by (simp add: wrap32_def mod_simps)
    then have "net_int (be_bytes n v) = (if n = 4 then wrap32 v else v mod 2 ^ 16)"
      using assms(3) by (auto simp: net_int_def be_value_bytes)
    moreover have "unread d' = rest" using advanced_unread [OF conn_okD(1) [OF h(2)] d'(2)] un by simp
    ultimately show ?thesis using d' by auto
  qed
  have "conn_ok c'" using put(2) by (auto simp: built_def unbuilt_def split: if_splits)
  then show ?thesis using put(1) reads by blast
qed

lemma int_wire_roundtrip_witness:
  "\<exists>r c'. pqPutInt (- 2) 4 (example_conn\<lparr>outMsgStart := - 1\<rparr>) = Some (r, c') \<and> conn_ok c' \<and> (r = 0 \<longrightarrow>
    (\<forall>d rest. conn_ok d \<longrightarrow> unread d = drop (length (msg_bytes (example_conn\<lparr>outMsgStart := - 1\<rparr>))) (msg_bytes c') @ rest \<longrightarrow>
       (\<exists>d'. pqGetInt 4 d = Some (Some (if (4 :: nat) = 4 then wrap32 (- 2) else (- 2) mod 2 ^ 16), d') \<and> conn_ok d' \<and> unread d' = rest)))"
  by (rule int_wire_roundtrip)
     (use example_conn_ok in \<open>simp_all add: conn_ok_def in_ok_def out_ok_def msg_ok_def, simp_all add: example_conn_def\<close>)

text \<open>\<open>pqGets\<close> takes from the input exactly one NUL-terminated string: with a terminator among the unread bytes it answers 0,
  moves the cursor behind the terminator and leaves in the buffer the bytes before it (unless memory ran out, which marks
  the buffer broken); without one it answers \<open>EOF\<close> and changes nothing, so it can be tried again when more has arrived.\<close>

theorem gets_one_string:
  assumes "conn_ok c" "valid_expbuf buf"
  shows "if 0 \<in> set (unread c) then \<exists>buf' c'. pqGets buf c = Some (0, buf', c') \<and> conn_ok c' \<and> valid_expbuf buf' \<and>
      unread c = c_str (unread c) @ 0 # unread c' \<and> (\<not> PQExpBufferBroken buf' \<longrightarrow> eb_contents buf' = c_str (unread c))
    else pqGets buf c = Some (EOF, buf, c)"
proof (cases "0 \<in> set (unread c)")
  case True
  let ?s = "c_str (unread c)"
  obtain buf' c' where g: "pqGets buf c = Some (0, buf', c')" "advanced c (length ?s + 1) c'" "conn_ok c'" "valid_expbuf buf'"
    "\<not> PQExpBufferBroken buf' \<longrightarrow> eb_contents buf' = ?s"
    using pqGets_internal_spec [OF assms, of True] True by (auto simp: pqGets_def)
  have "unread c = take (length ?s) (unread c) @ unread c ! length ?s # drop (length ?s + 1) (unread c)"
    using id_take_nth_drop [OF c_str_lt [OF True]] by simp
  moreover have "unread c ! length ?s = 0"
    using True nth_length_takeWhile [of "\<lambda>b. b \<noteq> 0" "unread c"] c_str_lt [OF True] by (simp add: c_str_def)
  ultimately have "unread c = ?s @ 0 # unread c'"
    using advanced_unread [OF conn_okD(1) [OF assms(1)] g(2)] by (simp add: c_str_take)
  then show ?thesis using True g by auto
next
  case False
  then show ?thesis using pqGets_internal_spec [OF assms, of True] by (simp add: pqGets_def)
qed

lemma gets_one_string_witness:
  "if 0 \<in> set (unread example_conn) then \<exists>buf' c'. pqGets (workBuffer example_conn) example_conn = Some (0, buf', c') \<and>
      conn_ok c' \<and> valid_expbuf buf' \<and> unread example_conn = c_str (unread example_conn) @ 0 # unread c' \<and>
      (\<not> PQExpBufferBroken buf' \<longrightarrow> eb_contents buf' = c_str (unread example_conn))
    else pqGets (workBuffer example_conn) example_conn = Some (EOF, workBuffer example_conn, example_conn)"
  by (rule gets_one_string [OF example_conn_ok example_conn_valid(2)])

text \<open>C39: \<open>pqCheckInBufferSpace\<close> either leaves a buffer of at least the size asked for that starts with all the old bytes, its size a
  multiple of 8192 below \<open>2 ^ 31\<close>, or fails without touching the buffer, and then more than \<open>2 ^ 31 - 8192\<close> bytes were asked for
  or an allocation failed; the doubling never ends in a negative or a too small size.\<close>

theorem in_buffer_growth:
  assumes "conn_ok c"
  shows "\<exists>r c'. pqCheckInBufferSpace n c = Some (r, c') \<and> conn_ok c' \<and> unread c' = unread c \<and>
    (r = 0 \<and> n \<le> nat (inBufSize c') \<and> inBufSize c' mod 8192 = 0 \<and> inBufSize c' < 2 ^ 31 \<and>
       take (length (inBuffer c)) (inBuffer c') = inBuffer c \<or>
     r = EOF \<and> inBuffer c' = inBuffer c \<and> (2 ^ 31 - 8192 < n \<or> False \<in> set (oks (e_alloc (env c)))))"
proof -
  obtain r c' where r: "pqCheckInBufferSpace n c = Some (r, c')" "conn_ok c'"
    "if r = 0 then grown (inBuffer c) (inBufSize c) n (inBuffer c') (inBufSize c') \<and>
       c' = c\<lparr>inBuffer := inBuffer c', inBufSize := inBufSize c', env := env c'\<rparr>
     else r = EOF \<and> only_env c c' \<and> (n \<le> 2147475456 \<longrightarrow> False \<in> set (oks (e_alloc (env c))))"
    using pqCheckInBufferSpace_spec [OF assms] by blast
  show ?thesis
  proof (cases "r = 0")
    case True
    then have g: "grown (inBuffer c) (inBufSize c) n (inBuffer c') (inBufSize c')"
      and c': "c' = c\<lparr>inBuffer := inBuffer c', inBufSize := inBufSize c', env := env c'\<rparr>" using r(3) by auto
    have same: "inCursor c' = inCursor c" "inEnd c' = inEnd c" using c' by (cases c; cases c'; simp)+
    note ok = in_okD [OF conn_okD(1) [OF assms]]
    have "take (nat (inEnd c)) (inBuffer c') = take (nat (inEnd c)) (inBuffer c)" using grown_bytes [OF _ g] ok by simp
    then have "drop (nat (inCursor c)) (take (nat (inEnd c)) (inBuffer c')) = drop (nat (inCursor c)) (take (nat (inEnd c)) (inBuffer c))"
      by simp
    then have "unread c' = unread c" using ok by (simp add: unread_def same drop_take nat_diff_distrib)
    then show ?thesis using r(1,2) True g by (auto simp: grown_def good_size_def)
  next
    case False
    then show ?thesis using r by (auto simp: only_env_fields unread_def)
  qed
qed

lemma in_buffer_growth_witness:
  "\<exists>r c'. pqCheckInBufferSpace 100000 example_conn = Some (r, c') \<and> conn_ok c' \<and> unread c' = unread example_conn \<and>
    (r = 0 \<and> 100000 \<le> nat (inBufSize c') \<and> inBufSize c' mod 8192 = 0 \<and> inBufSize c' < 2 ^ 31 \<and>
       take (length (inBuffer example_conn)) (inBuffer c') = inBuffer example_conn \<or>
     r = EOF \<and> inBuffer c' = inBuffer example_conn \<and>
       (2 ^ 31 - 8192 < (100000 :: nat) \<or> False \<in> set (oks (e_alloc (env example_conn)))))"
  by (rule in_buffer_growth [OF example_conn_ok])

end
