(* ===== verification/BaseProps.thy ===== *)
theory BaseProps
  imports FeMisc Escape WcharConv Utf8
begin

text \<open>
  Properties of the lower components: the expandable buffers (\<open>pqexpbuffer.c\<close>), the space of a result and the
  parameter status list (\<open>fe-exec.c\<close>), and the character tables and conversions (\<open>wchar.c\<close>). Their lemmas are in
  the theories of the components.
\<close>

section \<open>Expandable buffers\<close>

text \<open>A message built up piece by piece with \<open>appendPQExpBuffer\<close>.\<close>

fun append_pieces :: "alloc \<Rightarrow> expbuf \<Rightarrow> byte list list \<Rightarrow> (expbuf \<times> alloc) option" where
  "append_pieces a str [] = Some (str, a)"
| "append_pieces a str (p # ps) = do { (str, a) \<leftarrow> appendPQExpBuffer a str p; append_pieces a str ps }"

lemma append_pieces_sink: "append_pieces a str ps = fmt_sink.app_all a str ps"
proof (induction ps arbitrary: a str)
  case (Cons p ps)
  then show ?case by (cases "appendPQExpBuffer a str p") auto
qed simp

text \<open>C32: However memory runs out while a text is appended piece by piece, no call writes outside the buffer and the
  growth loop always ends; in the end the buffer holds the old contents and every piece, in order, or it is
  marked broken: a piece is never lost silently.\<close>

theorem expbuf_appends_all_or_broken:
  assumes "valid_expbuf str" "\<forall>p \<in> set ps. length p < 2 ^ 31"
  shows "\<exists>str' a'. append_pieces a str ps = Some (str', a') \<and> valid_expbuf str' \<and>
    (\<not> PQExpBufferBroken str' \<longrightarrow> \<not> PQExpBufferBroken str \<and> eb_contents str' = eb_contents str @ concat ps)"
  unfolding append_pieces_sink by (rule fmt_sink.app_all_spec [OF assms])

lemma expbuf_appends_all_or_broken_witness:
  "\<exists>str' a'. append_pieces \<lparr>oks = [True, False], junk = 7\<rparr> (errorMessage example_conn) [[0x61], [0x62, 0x63]] = Some (str', a') \<and>
    valid_expbuf str' \<and> (\<not> PQExpBufferBroken str' \<longrightarrow> \<not> PQExpBufferBroken (errorMessage example_conn) \<and>
      eb_contents str' = eb_contents (errorMessage example_conn) @ concat [[0x61], [0x62, 0x63]])"
  by (rule expbuf_appends_all_or_broken [OF example_conn_valid(1)]) simp

text \<open>C33: \<open>enlargePQExpBuffer\<close> returns for every request that fits in \<open>size_t\<close>: with success there is room for the bytes asked for and a
  terminator, and the contents and length are unchanged; without, the buffer is marked broken, never left in between.\<close>

theorem enlarge_guarantees_room:
  assumes "valid_expbuf str" "n < 2 ^ 32"
  shows "\<exists>ok str' a'. enlargePQExpBuffer a str n = Some (ok, str', a') \<and>
    (if ok then alive_expbuf str' \<and> eb_len str + n < eb_maxlen str' \<and> eb_contents str' = eb_contents str \<and> eb_len str' = eb_len str
     else PQExpBufferBroken str')"
proof (cases "PQExpBufferBroken str")
  case True
  then show ?thesis using assms(1) enlargePQExpBuffer_broken [OF True, of a n] by auto
next
  case False
  obtain ok str' a' where e: "enlargePQExpBuffer a str n = Some (ok, str', a')" "enlarged str n ok str'"
    using enlargePQExpBuffer_spec [OF valid_expbuf_alive [OF assms(1) False] assms(2)] by blast
  then show ?thesis using e by (cases ok) (auto simp: enlarged_def)
qed

lemma enlarge_guarantees_room_witness:
  "\<exists>ok str' a'. enlargePQExpBuffer \<lparr>oks = [], junk = 0\<rparr> (errorMessage example_conn) 5000 = Some (ok, str', a') \<and>
    (if ok then alive_expbuf str' \<and> eb_len (errorMessage example_conn) + 5000 < eb_maxlen str' \<and>
       eb_contents str' = eb_contents (errorMessage example_conn) \<and> eb_len str' = eb_len (errorMessage example_conn)
     else PQExpBufferBroken str')"
  by (rule enlarge_guarantees_room [OF example_conn_valid(1)]) simp


section \<open>The space of a result\<close>

text \<open>A sequence of allocations in one result; a failed one (\<open>NULL\<close>) hands out nothing.\<close>

fun alloc_all :: "alloc \<Rightarrow> pg_result \<Rightarrow> (nat \<times> bool) list \<Rightarrow> (region list \<times> pg_result \<times> alloc) option" where
  "alloc_all a res [] = Some ([], res, a)"
| "alloc_all a res ((n, bin) # ns) = do {
     (sp, res, a) \<leftarrow> pqResultAlloc a res n bin;
     (rs, res, a) \<leftarrow> alloc_all a res ns;
     Some ((case sp of Some (Space b off) \<Rightarrow> [(b, off, int n)] | _ \<Rightarrow> []) @ rs, res, a)
   }"

lemma alloc_all_spec:
  "arena_ok res R \<Longrightarrow> \<forall>(n, bin) \<in> set ns. 0 < n \<and> n < 2 ^ 31 \<Longrightarrow>
   \<exists>rs res' a'. alloc_all a res ns = Some (rs, res', a') \<and> arena_ok res' (R \<union> set rs) \<and>
     (\<forall>r \<in> set rs. \<forall>s \<in> R. apart r s) \<and> (\<forall>i < length rs. \<forall>j < i. apart (rs ! i) (rs ! j))"
proof (induction ns arbitrary: a res R)
  case Nil
  then show ?case by simp
next
  case (Cons p ns)
  obtain n bin where p: "p = (n, bin)" by (cases p)
  then have n: "0 < n" "n < 4294967288" using Cons.prems(2) by auto
  obtain sp r1 a1 where 1: "pqResultAlloc a res n bin = Some (sp, r1, a1)"
    "case sp of None \<Rightarrow> \<not> next_ok a \<and> arena_ok r1 R | Some Null_field \<Rightarrow> False
     | Some (Space b off) \<Rightarrow> arena_ok r1 (insert (b, off, int n) R) \<and>
         (\<forall>r \<in> R. apart (b, off, int n) r) \<and> (bin \<longrightarrow> off mod 8 = 0)"
    using pqResultAlloc_spec [OF Cons.prems(1) n, of a bin] by blast
  show ?case
  proof (cases sp)
    case None
    then have ok: "arena_ok r1 R" using 1(2) by simp
    obtain rs res' a' where "alloc_all a1 r1 ns = Some (rs, res', a')" "arena_ok res' (R \<union> set rs)"
      "\<forall>r \<in> set rs. \<forall>s \<in> R. apart r s" "\<forall>i < length rs. \<forall>j < i. apart (rs ! i) (rs ! j)"
      using Cons.IH [OF ok, of a1] Cons.prems(2) by auto
    then show ?thesis using 1(1) None by (simp add: p)
  next
    case (Some s)
    then obtain b off where s: "s = Space b off" using 1(2) by (cases s) auto
    let ?r = "(b, off, int n)"
    have ok: "arena_ok r1 (insert ?r R)" and new: "\<forall>r \<in> R. apart ?r r" using 1(2) Some s by auto
    obtain rs res' a' where go: "alloc_all a1 r1 ns = Some (rs, res', a')" "arena_ok res' (insert ?r R \<union> set rs)"
      "\<forall>r \<in> set rs. \<forall>s \<in> insert ?r R. apart r s" "\<forall>i < length rs. \<forall>j < i. apart (rs ! i) (rs ! j)"
      using Cons.IH [OF ok, of a1] Cons.prems(2) by auto
    have run: "alloc_all a res (p # ns) = Some (?r # rs, res', a')" using 1(1) Some s go(1) by (simp add: p)
    have "apart ((?r # rs) ! i) ((?r # rs) ! j)" if "i < length (?r # rs)" "j < i" for i j
      using that go(3,4) by (cases i; cases j) (auto simp: nth_Cons')
    then show ?thesis using run go(2,3) new by (auto simp: Un_insert_left Un_insert_right)
  qed
qed

text \<open>C31: The places handed out by any sequence of \<open>pqResultAlloc\<close> calls on a fresh result lie inside blocks of the result and do not
  overlap, whichever of the three ways of finding space each call takes and whichever allocations fail.\<close>

theorem result_space_disjoint:
  assumes "\<forall>(n, bin) \<in> set ns. 0 < n \<and> n < 2 ^ 31"
  shows "\<exists>rs res' a'. alloc_all a (empty_result h enc st) ns = Some (rs, res', a') \<and>
    (\<forall>r \<in> set rs. region_in res' r) \<and> (\<forall>i < length rs. \<forall>j < i. apart (rs ! i) (rs ! j))"
proof -
  obtain rs res' a' where "alloc_all a (empty_result h enc st) ns = Some (rs, res', a')" "arena_ok res' ({} \<union> set rs)"
    "\<forall>i < length rs. \<forall>j < i. apart (rs ! i) (rs ! j)"
    using alloc_all_spec [OF arena_empty assms] by blast
  then show ?thesis unfolding arena_ok_def by auto
qed

lemma result_space_disjoint_witness:
  "\<exists>rs res' a'. alloc_all \<lparr>oks = [True, False], junk = 0\<rparr> (empty_result False 6 PGRES_TUPLES_OK) [(5, False), (28, True), (4000, False)] =
      Some (rs, res', a') \<and>
    (\<forall>r \<in> set rs. region_in res' r) \<and> (\<forall>i < length rs. \<forall>j < i. apart (rs ! i) (rs ! j))"
  by (rule result_space_disjoint) simp


section \<open>Parameter status\<close>

lemma forget_parameter_map:
  "distinct (map fst ps) \<Longrightarrow> distinct (map fst (forget_parameter ps n)) \<and> n \<notin> fst ` set (forget_parameter ps n) \<and>
    fst ` set (forget_parameter ps n) \<subseteq> fst ` set ps \<and> (\<forall>m. m \<noteq> n \<longrightarrow> map_of (forget_parameter ps n) m = map_of ps m)"
  by (induction ps n rule: forget_parameter.induct) auto

lemma pg_char_to_encoding_total: "0 \<notin> set v \<Longrightarrow> \<exists>e. pg_char_to_encoding ct (Some v) = Some e"
  using pg_char_to_encoding_eq [of v ct]
  by (cases "v = []"; cases "length v < 64") (auto simp: pg_char_to_encoding_def pg_char_to_encname_struct_def)

text \<open>After \<open>pqSaveParameterStatus\<close> a lookup of the parameter gives the value just saved (or nothing, when there was no memory
  for it: never the outdated value), every other parameter keeps its value, and no name is listed twice.\<close>

theorem parameter_status_latest:
  assumes "distinct (map fst (pstatus c))" "0 \<notin> set v"
  shows "\<exists>c'. pqSaveParameterStatus c n v = Some c' \<and> distinct (map fst (pstatus c')) \<and>
    PQparameterStatus c' n = (if next_ok (e_alloc (env c)) then Some v else None) \<and>
    (\<forall>m. m \<noteq> n \<longrightarrow> PQparameterStatus c' m = PQparameterStatus c m)"
proof -
  note f = forget_parameter_map [OF assms(1), of n]
  let ?ps = "(if next_ok (e_alloc (env c)) then [(n, v)] else []) @ forget_parameter (pstatus c) n"
  obtain e where "pg_char_to_encoding (e_ctype (env c)) (Some v) = Some e" using pg_char_to_encoding_total [OF assms(2)] by blast
  then have "\<exists>c'. pqSaveParameterStatus c n v = Some c' \<and> pstatus c' = ?ps"
    by (auto simp: pqSaveParameterStatus_def Let_def set_alloc_def)
  moreover have "map_of (forget_parameter (pstatus c) n) n = None" using f by (simp add: map_of_eq_None_iff)
  ultimately show ?thesis using f by (auto simp: PQparameterStatus_def)
qed

lemma parameter_status_latest_witness:
  "\<exists>c'. pqSaveParameterStatus (example_conn\<lparr>pstatus := [(lit ''TimeZone'', lit ''UTC'')]\<rparr>) (lit ''TimeZone'') (lit ''CET'') = Some c' \<and>
    distinct (map fst (pstatus c')) \<and>
    PQparameterStatus c' (lit ''TimeZone'') =
      (if next_ok (e_alloc (env (example_conn\<lparr>pstatus := [(lit ''TimeZone'', lit ''UTC'')]\<rparr>))) then Some (lit ''CET'') else None) \<and>
    (\<forall>m. m \<noteq> lit ''TimeZone'' \<longrightarrow> PQparameterStatus c' m =
      PQparameterStatus (example_conn\<lparr>pstatus := [(lit ''TimeZone'', lit ''UTC'')]\<rparr>) m)"
  by (rule parameter_status_latest) (simp_all add: c_bytes_def)

lemma digits_value_snoc: "digits_value (ds @ [d]) = 10 * digits_value ds + (int (unat d) - 48)"
  by (simp add: digits_value_def)

lemma digit_byte: "k < 10 \<Longrightarrow> int (unat (of_nat (48 + k) :: byte)) = 48 + int k \<and> is_digit (of_nat (48 + k))"
proof -
  assume k: "k < 10"
  have u: "unat (of_nat (48 + k) :: byte) = 48 + k" using k unfolding unat_of_nat by simp
  then have "is_digit (of_nat (48 + k))" using k unfolding is_digit_def word_le_nat_alt u by simp
  then show ?thesis unfolding u by simp
qed

lemma show_nat_digits: "digits_value (show_nat n) = int n \<and> list_all is_digit (show_nat n) \<and> show_nat n \<noteq> []"
proof (induction n rule: show_nat.induct)
  case (1 n)
  show ?case
  proof (cases "n < 10")
    case True
    then show ?thesis using digit_byte [of n] by (subst (1 2 3) show_nat.simps) (simp add: digits_value_def del: of_nat_add)
  next
    case False
    have m: "n mod 10 < 10" by simp
    have "int (10 * (n div 10) + n mod 10) = int n" by (simp only: mult_div_mod_eq)
    then have "10 * int (n div 10) + int (n mod 10) = int n" by (simp only: of_nat_add of_nat_mult of_nat_numeral)
    then show ?thesis using 1 [OF False] False digit_byte [OF m]
      by (subst (1 2 3) show_nat.simps) (simp add: digits_value_snoc del: of_nat_add)
  qed
qed


lemma scan_d_digits:
  assumes "ds \<noteq> []" "list_all is_digit ds" "digits_value ds < 2 ^ 31" "0 \<le> digits_value ds" "r = [] \<or> \<not> is_digit (hd r)"
  shows "scan_d (ds @ r) = Some (digits_value ds, r)"
proof -
  obtain d ds' where ds: "ds = d # ds'" using assms(1) by (cases ds) auto
  have d: "is_digit d" using assms(2) ds by simp
  have nspace: "\<not> is_space d" and nsign: "d \<noteq> 0x2D" "d \<noteq> 0x2B"
    using d unfolding is_space_def is_digit_def by (auto simp: word_le_nat_alt)
  have tw: "takeWhile is_digit (ds @ r) = ds" "dropWhile is_digit (ds @ r) = r"
    using assms(2,5) by (induction ds) (auto, (cases r; simp)+)
  have dw: "dropWhile is_space (ds @ r) = ds @ r" using nspace ds by simp
  have hd: "hd (ds @ r) \<noteq> 0x2D" "hd (ds @ r) \<noteq> 0x2B" using ds nsign by simp_all
  have w: "wrap32 (digits_value ds) = digits_value ds" using assms(3,4) by (intro c_arith) simp_all
  show ?thesis unfolding scan_d_def Let_def dw using hd tw assms(1) w by simp
qed

text \<open>\<open>pqSaveParameterStatus\<close> computes \<open>sversion\<close> from the text the server reports as \<open>server_version\<close>: \<open>a.b.c\<close> gives
  \<open>(100 * a + b) * 100 + c\<close> and a development version \<open>a.b\<dots>\<close> without a third number gives \<open>(100 * a + b) * 100\<close>.\<close>

theorem server_version_number:
  assumes "a < 200000" "b < 100" "r = [] \<or> hd r \<noteq> 0x2E \<and> \<not> is_digit (hd r)"
    and v: "v = show_nat a @ 0x2E # show_nat b @ (if three then 0x2E # show_nat c else []) @ r" and "c < 100"
  shows "version_number v = int ((100 * a + b) * 100 + (if three then c else 0))"
proof -
  note sa = show_nat_digits [of a] and sb = show_nat_digits [of b] and sc = show_nat_digits [of c]
  have dot: "\<not> is_digit 0x2E" by (simp add: is_digit_def)
  let ?r2 = "(if three then 0x2E # show_nat c else []) @ r"
  have "scan_d v = Some (int a, 0x2E # show_nat b @ ?r2)"
    using scan_d_digits [of "show_nat a" "0x2E # show_nat b @ ?r2"] sa dot assms(1) by (simp add: v)
  moreover have "scan_d (show_nat b @ ?r2) = Some (int b, ?r2)"
    using scan_d_digits [of "show_nat b" ?r2] sb dot assms(2,3) by (cases three) auto
  moreover have "three \<Longrightarrow> scan_d (show_nat c @ r) = Some (int c, r)"
    using scan_d_digits [of "show_nat c" r] sc assms(3,5) by auto
  ultimately have scan: "scan_version v = (if three then [int a, int b, int c] else [int a, int b])"
    using assms(3) by (auto simp: scan_version_def scan_dot_d_def)
  have w: "wrap32 (100 * int a) = 100 * int a" "wrap32 (100 * int a + int b) = 100 * int a + int b"
    "wrap32 (10000 * int a + int b * 100 + int c) = 10000 * int a + int b * 100 + int c"
    "wrap32 (10000 * int a + int b * 100) = 10000 * int a + int b * 100"
    using assms(1,2,5) by (simp_all add: c_arith)
  show ?thesis unfolding version_number_def scan by (cases three) (simp_all add: Let_def w)
qed

lemma server_version_number_witness:
  "version_number (show_nat 9 @ 0x2E # show_nat 1 @ (if True then 0x2E # show_nat 1 else []) @ []) =
    int ((100 * 9 + 1) * 100 + (if True then 1 else 0))"
  by (rule server_version_number [where r = "[]"]) simp_all


section \<open>Characters\<close>

text \<open>For every encoding, \<open>pg_encoding_mblen\<close> of a character with two readable bytes is defined, positive and at most
  \<open>pg_encoding_max_length\<close> of that encoding, so buffers sized by the latter hold any character.\<close>

theorem mblen_within_max_length:
  assumes "PG_VALID_ENCODING e" "2 \<le> length s"
  shows "\<exists>l m. pg_encoding_mblen e s = Some l \<and> pg_encoding_max_length e = Some m \<and> 0 < l \<and> l \<le> m"
proof -
  obtain row where row: "rdi pg_wchar_table e = Some row" "\<And>s. 2 \<le> length s \<Longrightarrow> \<exists>l. mblen row s = Some l \<and> 0 < l \<and> l \<le> maxmblen row"
    using valid_row [OF assms(1)] by metis
  have "e \<ge> 0 \<and> e < int (length pg_wchar_table)" using assms(1) by (simp add: PG_VALID_ENCODING_def table_length)
  then show ?thesis using row(1) row(2) [OF assms(2)] by (auto simp: pg_encoding_mblen_def pg_encoding_max_length_def)
qed

lemma mblen_within_max_length_witness:
  "\<exists>l m. pg_encoding_mblen 1 [0x8F, 0xA1] = Some l \<and> pg_encoding_max_length 1 = Some m \<and> 0 < l \<and> l \<le> m"
  by (rule mblen_within_max_length) (simp_all add: PG_VALID_ENCODING_def)

text \<open>The binary search of \<open>ucs_wcwidth\<close> in a table of intervals never leaves the table and finds what a search through
  the whole table finds; the table of combining characters is sorted, as the search needs.\<close>

theorem combining_search_is_linear:
  "mbbisearch ucs combining (int (length combining) - 1) = Some (of_bool (\<exists>iv \<in> set combining. in_interval ucs iv))"
  by (rule mbbisearch_linear [OF combining_sorted]) (simp add: combining_def)

text \<open>\<open>pg_utf2wchar_with_len\<close> reads nothing behind the \<open>len\<close> bytes it is given, valid or not, ends, and writes at most
  \<open>len\<close> characters and a terminator, so a result array of \<open>len + 1\<close> characters is large enough.\<close>

theorem utf2wchar_bounds:
  assumes "0 \<le> len" "len \<le> int (length from)"
  shows "\<exists>n ws. pg_utf2wchar_with_len from len = Some (n, ws) \<and> 0 \<le> n \<and> n \<le> len \<and> int (length ws) = n + 1"
  unfolding pg_utf2wchar_with_len_def by (rule utf_wide.conversion_total [OF assms])

lemma utf2wchar_bounds_witness:
  "\<exists>n ws. pg_utf2wchar_with_len [0xE2, 0x82] 2 = Some (n, ws) \<and> 0 \<le> n \<and> n \<le> 2 \<and> int (length ws) = n + 1"
  by (rule utf2wchar_bounds) simp_all

text \<open>The GB18030 verifier looks at the second byte of a character before it compares the length with anything: on a string of
  one byte with the high bit set it reads behind the string.\<close>

theorem gb18030_reads_past_end:
  "pg_gb18030_verifier [c] 1 = (if IS_HIGHBIT_SET c then None else Some 1)"
  by (auto simp: pg_gb18030_verifier_def pg_gb18030_mblen_def tail_bytes_ok.simps)

end
