(* ===== verification/ErrorPos.thy ===== *)
theory ErrorPos
  imports Escape
begin

text \<open>
  The display of an error position: \<open>reportErrorPosition\<close> of \<open>fe-protocol3.c\<close>.

  The display shows the line of the query that holds the error position, cut to the width of a screen,
  and a marker under the position. The arrays \<open>qidx\<close> and \<open>scridx\<close> are lists of their \<open>malloc\<close>ed length
  whose elements are \<open>None\<close> until they are set; reading such an element, or outside an array, is \<open>None\<close>.
\<close>

section \<open>Scanning the query\<close>

record scan =
  wquery :: "byte list"
  qidx :: "nat option list"
  scridx :: "int option list"
  cno :: nat
  qoffset :: nat
  scroffset :: int
  loc_line :: int
  ibeg :: nat

definition idx :: "'a option list \<Rightarrow> nat \<Rightarrow> 'a option" where
  "idx arr i = Option.bind (rd arr i) (\<lambda>v. v)"

text \<open>\<open>qidx[cno] = qoffset; scridx[cno] = scroffset\<close>.\<close>

definition set_offsets :: "scan \<Rightarrow> scan option" where
  "set_offsets s = do {
     q \<leftarrow> wr (qidx s) (cno s) (Some (qoffset s));
     r \<leftarrow> wr (scridx s) (cno s) (Some (scroffset s));
     Some (s\<lparr>qidx := q, scridx := r\<rparr>)
   }"

text \<open>\<open>ch == '\r' || cno == 0 || wquery[qidx[cno - 1]] != '\r'\<close>.\<close>

definition starts_line :: "byte \<Rightarrow> scan \<Rightarrow> bool option" where
  "starts_line ch s =
     (if ch = 0x0D \<or> cno s = 0 then Some True
      else do {
        p \<leftarrow> idx (qidx s) (cno s - 1);
        c \<leftarrow> rd (wquery s) p;
        Some (c \<noteq> 0x0D)
      })"

text \<open>Tabs and ends of lines; \<open>True\<close> is the \<open>break\<close> at the end of the line that holds \<open>loc\<close>.\<close>

definition line_end :: "int \<Rightarrow> byte \<Rightarrow> scan \<Rightarrow> (bool \<times> scan) option" where
  "line_end loc ch s =
     (if ch = 0x09 then do {
        w \<leftarrow> wr (wquery s) (qoffset s) 0x20;
        Some (False, s\<lparr>wquery := w\<rparr>)
      }
      else if ch = 0x0D \<or> ch = 0x0A then
        (if int (cno s) < loc then do {
           new \<leftarrow> starts_line ch s;
           Some (False, s\<lparr>loc_line := (if new then loc_line s + 1 else loc_line s), ibeg := cno s + 1\<rparr>)
         }
         else Some (True, s))
      else Some (False, s))"

definition next_char :: "int \<Rightarrow> bool \<Rightarrow> scan \<Rightarrow> scan option" where
  "next_char encoding mb_encoding s =
     (if mb_encoding then do {
        w \<leftarrow> pg_encoding_dsplen encoding (drop (qoffset s) (wquery s));
        l \<leftarrow> pg_encoding_mblen encoding (drop (qoffset s) (wquery s));
        Some (s\<lparr>scroffset := scroffset s + (if w \<le> 0 then 1 else w), qoffset := qoffset s + nat l, cno := cno s + 1\<rparr>)
      }
      else Some (s\<lparr>scroffset := scroffset s + 1, qoffset := qoffset s + 1, cno := cno s + 1\<rparr>))"

text \<open>The answer is \<open>iend\<close>, or \<open>None\<close> for its value \<open>-1\<close>, "not set yet".\<close>

partial_function (option) scan_query :: "int \<Rightarrow> int \<Rightarrow> bool \<Rightarrow> scan \<Rightarrow> (nat option \<times> scan) option" where
  "scan_query loc encoding mb_encoding s =
     Option.bind (rd (wquery s) (qoffset s)) (\<lambda>ch.
       if ch = 0 then Some (None, s)
       else Option.bind (set_offsets s) (\<lambda>s.
         Option.bind (line_end loc ch s) (\<lambda>(stop, s).
           if stop then Some (Some (cno s), s)
           else Option.bind (next_char encoding mb_encoding s) (scan_query loc encoding mb_encoding))))"


section \<open>Cutting the line\<close>

definition DISPLAY_SIZE :: int where "DISPLAY_SIZE = 60"
definition MIN_RIGHT_CUT :: int where "MIN_RIGHT_CUT = 10"

partial_function (option) cut_end :: "int option list \<Rightarrow> nat \<Rightarrow> nat \<Rightarrow> nat option" where
  "cut_end scr ib ie =
     Option.bind (idx scr ie) (\<lambda>e. Option.bind (idx scr ib) (\<lambda>b.
       if e - b > DISPLAY_SIZE then cut_end scr ib (ie - 1) else Some ie))"

partial_function (option) cut_right :: "int option list \<Rightarrow> nat \<Rightarrow> nat \<Rightarrow> bool \<Rightarrow> (nat \<times> bool) option" where
  "cut_right scr loc ie end_trunc =
     Option.bind (idx scr loc) (\<lambda>l. Option.bind (idx scr ie) (\<lambda>e.
       if l + MIN_RIGHT_CUT < e then cut_right scr loc (ie - 1) True else Some (ie, end_trunc)))"

partial_function (option) cut_left :: "int option list \<Rightarrow> nat \<Rightarrow> nat \<Rightarrow> bool \<Rightarrow> (nat \<times> bool) option" where
  "cut_left scr ib ie beg_trunc =
     Option.bind (idx scr ie) (\<lambda>e. Option.bind (idx scr ib) (\<lambda>b.
       if e - b > DISPLAY_SIZE then cut_left scr (ib + 1) ie True else Some (ib, beg_trunc)))"

text \<open>\<open>(ibeg, iend, beg_trunc, end_trunc)\<close>.\<close>

definition cut_line :: "int option list \<Rightarrow> nat \<Rightarrow> nat \<Rightarrow> nat \<Rightarrow> (nat \<times> nat \<times> bool \<times> bool) option" where
  "cut_line scr loc ib ie = do {
     e \<leftarrow> idx scr ie;
     b \<leftarrow> idx scr ib;
     if e - b > DISPLAY_SIZE then do {
       l \<leftarrow> idx scr loc;
       if b + DISPLAY_SIZE \<ge> l + MIN_RIGHT_CUT then do {
         ie \<leftarrow> cut_end scr ib ie;
         Some (ib, ie, False, True)
       }
       else do {
         (ie, end_trunc) \<leftarrow> cut_right scr loc ie False;
         (ib, beg_trunc) \<leftarrow> cut_left scr ib ie False;
         Some (ib, ie, beg_trunc, end_trunc)
       }
     }
     else Some (ib, ie, False, False)
   }"


section \<open>The display\<close>

text \<open>The width on the screen of what was added to \<open>msg\<close> from byte \<open>i\<close> on.\<close>

partial_function (option) prefix_width :: "int \<Rightarrow> expbuf \<Rightarrow> nat \<Rightarrow> int \<Rightarrow> int option" where
  "prefix_width encoding msg i width =
     (if i < eb_len msg then
        Option.bind (eb_data msg) (\<lambda>d.
        Option.bind (pg_encoding_dsplen encoding (drop i d)) (\<lambda>w.
        Option.bind (pg_encoding_mblen encoding (drop i d)) (\<lambda>l.
          prefix_width encoding msg (i + nat l) (width + (if w \<le> 0 then 1 else w)))))
      else Some width)"

fun append_spaces :: "alloc \<Rightarrow> expbuf \<Rightarrow> nat \<Rightarrow> (expbuf \<times> alloc) option" where
  "append_spaces a msg 0 = Some (msg, a)"
| "append_spaces a msg (Suc n) = do { (msg, a) \<leftarrow> appendPQExpBufferChar a msg 0x20; append_spaces a msg n }"

definition show_position :: "alloc \<Rightarrow> expbuf \<Rightarrow> scan \<Rightarrow> nat \<Rightarrow> nat \<Rightarrow> int \<Rightarrow> (expbuf \<times> alloc) option" where
  "show_position a msg s loc iend encoding = do {
     (ib, ie, beg_trunc, end_trunc) \<leftarrow> cut_line (scridx s) loc (ibeg s) iend;
     p \<leftarrow> idx (qidx s) ie;
     wq \<leftarrow> wr (wquery s) p 0;
     let i = eb_len msg;
     (msg, a) \<leftarrow> appendPQExpBuffer a msg (lit ''LINE '' @ show_int (loc_line s) @ lit '': '');
     (msg, a) \<leftarrow> (if beg_trunc then appendPQExpBufferStr a msg (lit ''...'' @ [0]) else Some (msg, a));
     width \<leftarrow> prefix_width encoding msg i 0;
     q \<leftarrow> idx (qidx s) ib;
     (msg, a) \<leftarrow> appendPQExpBufferStr a msg (drop q wq);
     (msg, a) \<leftarrow> (if end_trunc then appendPQExpBufferStr a msg (lit ''...'' @ [0]) else Some (msg, a));
     (msg, a) \<leftarrow> appendPQExpBufferChar a msg 0x0A;
     l \<leftarrow> idx (scridx s) loc;
     b \<leftarrow> idx (scridx s) ib;
     (msg, a) \<leftarrow> append_spaces a msg (nat (width + (l - b)));
     (msg, a) \<leftarrow> appendPQExpBufferChar a msg 0x5E;
     appendPQExpBufferChar a msg 0x0A
   }"

text \<open>\<open>query\<close> is a C string, given without its terminator; the arrays have \<open>slen\<close> elements of 4 bytes.\<close>

definition reportErrorPosition :: "alloc \<Rightarrow> expbuf \<Rightarrow> byte list \<Rightarrow> int \<Rightarrow> int \<Rightarrow> (expbuf \<times> alloc) option" where
  "reportErrorPosition a msg query loc encoding =
     (let loc = wrap32 (loc - 1) in
      if loc < 0 then Some (msg, a)
      else if \<not> next_ok a then Some (msg, after_alloc a)
      else let a = after_alloc a; slen = length query + 1; n = szmul slen 4 div 4 in
        if \<not> next_ok a then Some (msg, after_alloc a)
        else let a = after_alloc a in
          if \<not> next_ok a then Some (msg, after_alloc a)
          else let a = after_alloc a in do {
            maxlen \<leftarrow> pg_encoding_max_length encoding;
            (iend, s) \<leftarrow> scan_query loc encoding (maxlen \<noteq> 1)
              \<lparr>wquery = query @ [0], qidx = replicate n None, scridx = replicate n None, cno = 0, qoffset = 0,
               scroffset = 0, loc_line = 1, ibeg = 0\<rparr>;
            (iend, s) \<leftarrow> (case iend of
                Some i \<Rightarrow> Some (i, s)
              | None \<Rightarrow> do { s' \<leftarrow> set_offsets s; Some (cno s, s') });
            if loc \<le> int (cno s) then show_position a msg s (nat loc) iend encoding
            else Some (msg, a)
          })"


section \<open>Characters and their widths\<close>

lemma ucs_wcwidth_total: "\<exists>w. ucs_wcwidth c = Some w"
proof -
  have "combining \<noteq> []" by (simp add: combining_def)
  from mbbisearch_linear [OF combining_sorted this, of c] show ?thesis by (auto simp: ucs_wcwidth_def)
qed

definition widths_ok :: "pg_wchar_tbl \<Rightarrow> bool" where
  "widths_ok row \<longleftrightarrow>
     (\<forall>c r. \<not> IS_HIGHBIT_SET c \<longrightarrow> mblen row (c # r) = Some 1) \<and>
     (\<forall>s l. mblen row s = Some l \<longrightarrow> nat l \<le> length s \<longrightarrow> s \<noteq> [] \<longrightarrow> (\<exists>w. dsplen row s = Some w))"

lemmas dsplen_defs =
  pg_ascii_dsplen_def pg_eucjp_dsplen_def pg_euccn_dsplen_def pg_euckr_dsplen_def pg_euctw_dsplen_def
  pg_mule_dsplen_def pg_latin1_dsplen_def pg_sjis_dsplen_def pg_big5_dsplen_def
  pg_gbk_dsplen_def pg_uhc_dsplen_def pg_gb18030_dsplen_def pg_johab_dsplen_def pg_euc_dsplen_def

lemma ascii_lead:
  assumes "\<not> IS_HIGHBIT_SET c"
  shows "c \<noteq> SS2" "c \<noteq> SS3" "\<not> IS_LC1 c" "\<not> IS_LCPRV1 c" "\<not> IS_LC2 c" "\<not> IS_LCPRV2 c"
    "\<not> (0xa1 \<le> c \<and> c \<le> 0xdf)" "c AND 0x80 = 0"
proof -
  have "unat c < 128" using assms by (simp add: not_high_lt word_less_nat_alt)
  then show "c \<noteq> SS2" "c \<noteq> SS3" "\<not> IS_LC1 c" "\<not> IS_LCPRV1 c" "\<not> IS_LC2 c" "\<not> IS_LCPRV2 c"
    "\<not> (0xa1 \<le> c \<and> c \<le> 0xdf)"
    by (auto simp: SS2_def SS3_def IS_LC1_def IS_LCPRV1_def IS_LC2_def IS_LCPRV2_def word_le_nat_alt)
  show "c AND 0x80 = 0" using assms by (simp add: IS_HIGHBIT_SET_def)
qed

lemma utf_widths: "pg_utf_mblen s = Some l \<Longrightarrow> nat l \<le> length s \<Longrightarrow> s \<noteq> [] \<Longrightarrow> \<exists>w. pg_utf_dsplen s = Some w"
  using ucs_wcwidth_total
  by (auto simp: pg_utf_mblen_def pg_utf_dsplen_def utf8_to_unicode_def rd_def split: if_splits)

lemma rows_widths: "list_all widths_ok pg_wchar_table"
  unfolding pg_wchar_table_def list.pred_inject
  by (intro conjI TrueI; simp add: wchar_row_def widths_ok_def utf_widths; simp add: mblen_defs dsplen_defs rd_def ascii_lead)

lemma encoding_widths:
  obtains row where "widths_ok row" "\<And>s. pg_encoding_mblen e s = mblen row s" "\<And>s. pg_encoding_dsplen e s = dsplen row s"
proof (cases "0 \<le> e \<and> e < int (length pg_wchar_table)")
  case True
  then have "nat e < length pg_wchar_table" by auto
  with True rows_widths show ?thesis
    by (intro that [of "pg_wchar_table ! nat e"])
      (auto simp: pg_encoding_mblen_def pg_encoding_dsplen_def rdi_def rd_def list_all_length)
next
  case False
  with rows_widths show ?thesis
    by (intro that [of "pg_wchar_table ! 0"])
      (auto simp: pg_encoding_mblen_def pg_encoding_dsplen_def rdi_def rd_def table_length list_all_length)
qed

lemma mblen_ascii: "\<not> IS_HIGHBIT_SET c \<Longrightarrow> pg_encoding_mblen e (c # r) = Some 1"
  by (rule encoding_widths [of e]) (simp add: widths_ok_def)

lemma dsplen_complete:
  assumes "pg_encoding_mblen e s = Some l" "nat l \<le> length s" "s \<noteq> []"
  obtains w where "pg_encoding_dsplen e s = Some w"
proof -
  obtain row where row: "widths_ok row" "\<And>s. pg_encoding_mblen e s = mblen row s" "\<And>s. pg_encoding_dsplen e s = dsplen row s"
    using encoding_widths [of e] by blast
  from row(1) assms [unfolded row(2)] have "\<exists>w. dsplen row s = Some w" unfolding widths_ok_def by blast
  then show ?thesis using that row(3) by auto
qed

text \<open>A query whose characters are all complete.\<close>

function whole_chars :: "int \<Rightarrow> byte list \<Rightarrow> bool" where
  "whole_chars e q =
     (if q = [] then True
      else case pg_encoding_mblen e (q @ [0]) of
        None \<Rightarrow> False
      | Some l \<Rightarrow> (if 0 < l \<and> nat l \<le> length q then whole_chars e (drop (nat l) q) else False))"
  by pat_completeness auto
termination
  by (relation "measure (\<lambda>(e, q). length q)") auto

declare whole_chars.simps [simp del]


section \<open>The scan stays inside the query\<close>

definition scan_ok :: "byte list \<Rightarrow> int \<Rightarrow> scan \<Rightarrow> bool" where
  "scan_ok q loc s \<longleftrightarrow>
     length (wquery s) = length q + 1 \<and> drop (qoffset s) (wquery s) = drop (qoffset s) (q @ [0]) \<and>
     cno s \<le> qoffset s \<and> qoffset s \<le> length q \<and> length (qidx s) = length q + 1 \<and> length (scridx s) = length q + 1 \<and>
     (\<forall>i < cno s. (\<exists>p \<le> length q. qidx s ! i = Some p) \<and> scridx s ! i \<noteq> None) \<and>
     ibeg s \<le> cno s \<and> int (ibeg s) \<le> loc \<and> 0 \<le> loc_line s \<and> loc_line s \<le> int (cno s) + 1"

text \<open>All offsets up to the end of the line are set.\<close>

definition line_known :: "byte list \<Rightarrow> int \<Rightarrow> nat \<Rightarrow> scan \<Rightarrow> bool" where
  "line_known q loc ie s \<longleftrightarrow>
     length (wquery s) = length q + 1 \<and> wquery s ! length q = 0 \<and>
     (\<forall>i \<le> ie. (\<exists>p \<le> length q. idx (qidx s) i = Some p) \<and> (\<exists>x. idx (scridx s) i = Some x)) \<and>
     ibeg s \<le> ie \<and> int (ibeg s) \<le> loc \<and> cno s = ie \<and> 0 \<le> loc_line s \<and> loc_line s \<le> int ie + 1"

lemma set_offsets_spec:
  assumes "scan_ok q loc s"
  shows "\<exists>s'. set_offsets s = Some s' \<and> line_known q loc (cno s) s' \<and> s' = s\<lparr>qidx := qidx s', scridx := scridx s'\<rparr> \<and>
    length (qidx s') = length q + 1 \<and> length (scridx s') = length q + 1 \<and>
    (\<forall>i < Suc (cno s). (\<exists>p \<le> length q. qidx s' ! i = Some p) \<and> scridx s' ! i \<noteq> None)"
proof -
  have *: "cno s < length q + 1" "wquery s ! length q = 0"
  proof -
    show "cno s < length q + 1" using assms by (simp add: scan_ok_def)
    have "drop (qoffset s) (wquery s) ! (length q - qoffset s) = drop (qoffset s) (q @ [0]) ! (length q - qoffset s)"
      using assms by (simp add: scan_ok_def)
    moreover have "qoffset s \<le> length q" "length (wquery s) = length q + 1" using assms by (simp_all add: scan_ok_def)
    ultimately show "wquery s ! length q = 0" by (simp add: nth_append)
  qed
  show ?thesis
    using assms * by (auto simp: set_offsets_def scan_ok_def line_known_def wr_def idx_def rd_def nth_list_update less_Suc_eq_le)
qed


lemma line_end_spec:
  assumes s: "scan_ok q loc s" and s1: "set_offsets s = Some s1" "line_known q loc (cno s) s1"
    "s1 = s\<lparr>qidx := qidx s1, scridx := scridx s1\<rparr>" and "qoffset s < length q"
  shows "(int (cno s) \<ge> loc \<and> line_end loc ch s1 = Some (True, s1)) \<or>
    (\<exists>w l ib. line_end loc ch s1 = Some (False, s1\<lparr>wquery := w, loc_line := l, ibeg := ib\<rparr>) \<and>
       length w = length q + 1 \<and> (ch \<noteq> 0x09 \<longrightarrow> w = wquery s) \<and> (ch = 0x09 \<longrightarrow> w = (wquery s)[qoffset s := 0x20]) \<and>
       ib \<le> cno s + 1 \<and> int ib \<le> loc \<and> loc_line s \<le> l \<and> l \<le> loc_line s + 1)"
proof -
  have eq: "wquery s1 = wquery s" "cno s1 = cno s" "qoffset s1 = qoffset s" "ibeg s1 = ibeg s" "loc_line s1 = loc_line s"
    by (subst s1(3), simp)+
  have len: "length (wquery s) = length q + 1" "ibeg s \<le> cno s" "int (ibeg s) \<le> loc" using s by (simp_all add: scan_ok_def)
  consider (tab) "ch = 0x09" | (stop) "ch = 0x0D \<or> ch = 0x0A" "loc \<le> int (cno s)"
    | (line) "ch = 0x0D \<or> ch = 0x0A" "int (cno s) < loc" | (other) "ch \<noteq> 0x09" "ch \<noteq> 0x0D" "ch \<noteq> 0x0A" by fastforce
  then show ?thesis
  proof cases
    case tab
    show ?thesis
      by (rule disjI2, rule exI [of _ "(wquery s)[qoffset s := 0x20]"], rule exI [of _ "loc_line s1"], rule exI [of _ "ibeg s"])
        (use tab eq len assms(5) in \<open>auto simp: line_end_def wr_def\<close>)
  next
    case stop
    then show ?thesis using eq by (auto simp: line_end_def)
  next
    case line
    have "\<exists>new. starts_line ch s1 = Some new"
    proof (cases "ch = 0x0D \<or> cno s = 0")
      case False
      obtain p where "p \<le> length q" "idx (qidx s1) (cno s - 1) = Some p"
        using s1(2) unfolding line_known_def by (meson diff_le_self)
      then show ?thesis using False len eq by (auto simp: rd_def starts_line_def)
    qed (auto simp: starts_line_def eq)
    then obtain new where new: "starts_line ch s1 = Some new" by blast
    have "line_end loc ch s1 = Some (False, s1\<lparr>loc_line := (if new then loc_line s1 + 1 else loc_line s1), ibeg := cno s + 1\<rparr>)"
      using line by (auto simp: line_end_def eq new)
    then show ?thesis using line len eq
      by (intro disjI2 exI [of _ "wquery s"] exI [of _ "if new then loc_line s1 + 1 else loc_line s1"] exI [of _ "cno s + 1"]) auto
  next
    case other
    then show ?thesis using len eq
      by (intro disjI2 exI [of _ "wquery s"] exI [of _ "loc_line s1"] exI [of _ "ibeg s"]) (auto simp: line_end_def)
  qed
qed


text \<open>The rest of the query from the offset, tabs replaced at its head, steps by the same length.\<close>

lemma next_char_spec:
  assumes "qoffset s < length q" "length w = length q + 1" "drop (qoffset s) (wquery s) = drop (qoffset s) (q @ [0])"
    and "ch = q ! qoffset s" "ch \<noteq> 0x09 \<Longrightarrow> w = wquery s" "ch = 0x09 \<Longrightarrow> w = (wquery s)[qoffset s := 0x20]"
    and "mb \<Longrightarrow> whole_chars e (drop (qoffset s) q)" and t: "qoffset t = qoffset s" "wquery t = w"
  shows "\<exists>k ds. next_char e mb t = Some (t\<lparr>scroffset := ds, qoffset := qoffset s + k, cno := cno t + 1\<rparr>) \<and> 0 < k \<and>
    qoffset s + k \<le> length q \<and> drop (qoffset s + k) w = drop (qoffset s + k) (q @ [0]) \<and>
    (mb \<longrightarrow> whole_chars e (drop (qoffset s + k) q))"
proof -
  let ?o = "qoffset s"
  have rest: "drop (?o + k) w = drop (?o + k) (q @ [0])" if "0 < k" for k
  proof -
    have "drop (?o + k) (wquery s) = drop (?o + k) (q @ [0])"
      using assms(3) by (metis add.commute drop_drop)
    then show ?thesis using assms(5,6) that by (cases "ch = 0x09") auto
  qed
  show ?thesis
  proof (cases mb)
    case False
    then show ?thesis using assms(1) rest [of 1]
      by (intro exI [of _ 1] exI [of _ "scroffset t + 1"]) (auto simp: next_char_def t)
  next
    case True
    let ?q = "drop ?o q"
    have q: "?q \<noteq> []" "?q = ch # drop (Suc ?o) q" using assms(1,4) by (simp_all add: Cons_nth_drop_Suc)
    from assms(7) True q(1) obtain l where l: "pg_encoding_mblen e (?q @ [0]) = Some l" "0 < l" "nat l \<le> length ?q"
      "whole_chars e (drop (nat l) ?q)"
      by (subst (asm) whole_chars.simps) (auto split: option.splits if_splits)
    have w: "drop ?o w = (if ch = 0x09 then 0x20 # tl (?q @ [0]) else ?q @ [0])"
    proof (cases "ch = 0x09")
      case True
      have "drop ?o w = 0x20 # drop (Suc ?o) w"
        using assms(1,2,6) True by (subst Cons_nth_drop_Suc [symmetric]) auto
      also have "drop (Suc ?o) w = drop (Suc ?o) (q @ [0])" using rest [of 1] by simp
      finally show ?thesis using True assms(1) q(2) by simp
    qed (use assms(1,3,5) in simp)
    have ml: "pg_encoding_mblen e (drop ?o w) = Some l"
    proof (cases "ch = 0x09")
      case True
      then have "pg_encoding_mblen e (?q @ [0]) = Some 1" by (subst q(2)) (simp add: mblen_ascii IS_HIGHBIT_SET_def)
      then show ?thesis using l(1) w True by (simp add: mblen_ascii IS_HIGHBIT_SET_def)
    qed (use w l(1) in simp)
    have "nat l \<le> length (drop ?o w)" "drop ?o w \<noteq> []" using l(3) assms(1,2) by auto
    then obtain d where d: "pg_encoding_dsplen e (drop ?o w) = Some d"
      using dsplen_complete [OF ml] by blast
    show ?thesis
      by (rule exI [of _ "nat l"], rule exI [of _ "scroffset t + (if d \<le> 0 then 1 else d)"])
        (use True l ml d rest [of "nat l"] assms(1) in \<open>auto simp: next_char_def t add.commute\<close>)
  qed
qed

lemma scan_query_spec:
  assumes "scan_ok q loc s" "0 \<notin> set q" "mb \<Longrightarrow> whole_chars e (drop (qoffset s) q)"
  shows "\<exists>r s'. scan_query loc e mb s = Some (r, s') \<and>
    (case r of None \<Rightarrow> scan_ok q loc s' | Some ie \<Rightarrow> line_known q loc ie s' \<and> loc \<le> int ie \<and> ie \<le> length q)"
  using assms
proof (induction "length q - qoffset s" arbitrary: s rule: less_induct)
  case less
  let ?ch = "(q @ [0]) ! qoffset s"
  have len: "qoffset s \<le> length q" "length (wquery s) = length q + 1"
    "drop (qoffset s) (wquery s) = drop (qoffset s) (q @ [0])" using less.prems(1) by (simp_all add: scan_ok_def)
  have ch: "rd (wquery s) (qoffset s) = Some ?ch"
    using len(1,2) hd_drop_conv_nth [of "qoffset s" "wquery s"] hd_drop_conv_nth [of "qoffset s" "q @ [0]"] len(3)
    by (simp add: rd_def)
  show ?case
  proof (cases "qoffset s < length q")
    case False
    then have "?ch = 0" using len(1) by (simp add: nth_append)
    then show ?thesis using ch less.prems(1) by (intro exI [of _ None] exI [of _ s]) (subst scan_query.simps, simp)
  next
    case True
    then have nz: "?ch \<noteq> 0" "?ch = q ! qoffset s" using less.prems(2) by (auto simp: nth_append dest: nth_mem)
    obtain s1 where s1: "set_offsets s = Some s1" "line_known q loc (cno s) s1" "s1 = s\<lparr>qidx := qidx s1, scridx := scridx s1\<rparr>"
      "length (qidx s1) = length q + 1" "length (scridx s1) = length q + 1"
      "\<forall>i < Suc (cno s). (\<exists>p \<le> length q. qidx s1 ! i = Some p) \<and> scridx s1 ! i \<noteq> None"
      using set_offsets_spec [OF less.prems(1)] by blast
    have eq: "cno s1 = cno s" "qoffset s1 = qoffset s" "loc_line s1 = loc_line s" by (subst s1(3), simp)+
    from line_end_spec [OF less.prems(1) s1(1-3) True, of ?ch] show ?thesis
    proof (elim disjE exE conjE)
      assume "loc \<le> int (cno s)" "line_end loc ?ch s1 = Some (True, s1)"
      moreover have "cno s \<le> length q" using less.prems(1) by (simp add: scan_ok_def)
      ultimately show ?thesis using ch nz s1(1,2) eq
        by (intro exI [of _ "Some (cno s)"] exI [of _ s1]) (subst scan_query.simps, simp)
    next
      fix w l ib
      let ?s2 = "s1\<lparr>wquery := w, loc_line := l, ibeg := ib\<rparr>"
      assume le: "line_end loc ?ch s1 = Some (False, ?s2)" "length w = length q + 1"
        "?ch \<noteq> 0x09 \<longrightarrow> w = wquery s" "?ch = 0x09 \<longrightarrow> w = (wquery s)[qoffset s := 0x20]" "ib \<le> cno s + 1" "int ib \<le> loc" "loc_line s \<le> l" "l \<le> loc_line s + 1"
      have "qoffset ?s2 = qoffset s" "wquery ?s2 = w" using eq by simp_all
      from next_char_spec [OF True le(2) len(3) nz(2) le(3,4) [rule_format] less.prems(3) this]
      obtain k ds where k: "next_char e mb ?s2 = Some (?s2\<lparr>scroffset := ds, qoffset := qoffset s + k, cno := cno ?s2 + 1\<rparr>)" "0 < k"
        "qoffset s + k \<le> length q" "drop (qoffset s + k) w = drop (qoffset s + k) (q @ [0])"
        "mb \<longrightarrow> whole_chars e (drop (qoffset s + k) q)" by blast
      let ?s3 = "?s2\<lparr>scroffset := ds, qoffset := qoffset s + k, cno := cno ?s2 + 1\<rparr>"
      have "scan_ok q loc ?s3"
        using less.prems(1) s1(4-6) k(2-4) le eq by (auto simp: scan_ok_def)
      moreover have "length q - qoffset ?s3 < length q - qoffset s" using k(2,3) True by simp
      moreover have "whole_chars e (drop (qoffset ?s3) q)" if mb using k(5) that by simp
      ultimately have "\<exists>r s'. scan_query loc e mb ?s3 = Some (r, s') \<and>
          (case r of None \<Rightarrow> scan_ok q loc s' | Some ie \<Rightarrow> line_known q loc ie s' \<and> loc \<le> int ie \<and> ie \<le> length q)"
        using less.hyps [OF _ _ less.prems(2)] by blast
      then obtain r s' where "scan_query loc e mb ?s3 = Some (r, s')"
        "case r of None \<Rightarrow> scan_ok q loc s' | Some ie \<Rightarrow> line_known q loc ie s' \<and> loc \<le> int ie \<and> ie \<le> length q" by blast
      then show ?thesis using ch nz s1(1) le(1) k(1)
        by (intro exI [of _ r] exI [of _ s']) (subst scan_query.simps, simp)
    qed
  qed
qed


section \<open>The display is built inside its buffers\<close>

lemma cut_end_spec:
  assumes "\<forall>i \<le> m. \<exists>x. idx scr i = Some x" "ib \<le> ie" "ie \<le> m"
  shows "\<exists>r. cut_end scr ib ie = Some r \<and> ib \<le> r \<and> r \<le> ie"
  using assms(2,3)
proof (induction "ie - ib" arbitrary: ie)
  case 0
  then obtain x where "ie = ib" "idx scr ie = Some x" using assms(1) by auto
  then show ?case by (subst cut_end.simps) (simp add: DISPLAY_SIZE_def)
next
  case (Suc n)
  obtain e b where "idx scr ie = Some e" "idx scr ib = Some b" using assms(1) Suc.prems by (meson le_trans)
  moreover obtain r where "cut_end scr ib (ie - 1) = Some r" "ib \<le> r" "r \<le> ie - 1"
  proof -
    have "n = (ie - 1) - ib" "ib \<le> ie - 1" "ie - 1 \<le> m" using Suc.hyps(2) Suc.prems by linarith+
    from Suc.hyps(1) [OF this] show ?thesis using that by blast
  qed
  ultimately show ?case using Suc.prems by (subst cut_end.simps) auto
qed

lemma cut_right_spec:
  assumes "\<forall>i \<le> m. \<exists>x. idx scr i = Some x" "loc \<le> ie" "ie \<le> m"
  shows "\<exists>r t'. cut_right scr loc ie t = Some (r, t') \<and> loc \<le> r \<and> r \<le> ie"
  using assms(2,3)
proof (induction "ie - loc" arbitrary: ie t)
  case 0
  then obtain x where "ie = loc" "idx scr ie = Some x" using assms(1) by auto
  then show ?case by (subst cut_right.simps) (simp add: MIN_RIGHT_CUT_def)
next
  case (Suc n)
  obtain e b where "idx scr ie = Some e" "idx scr loc = Some b" using assms(1) Suc.prems by (meson le_trans)
  moreover obtain r t' where "cut_right scr loc (ie - 1) True = Some (r, t')" "loc \<le> r" "r \<le> ie - 1"
  proof -
    have "n = (ie - 1) - loc" "loc \<le> ie - 1" "ie - 1 \<le> m" using Suc.hyps(2) Suc.prems by linarith+
    from Suc.hyps(1) [OF this] show ?thesis using that by blast
  qed
  ultimately show ?case using Suc.prems by (subst cut_right.simps) auto
qed

lemma cut_left_spec:
  assumes "\<forall>i \<le> m. \<exists>x. idx scr i = Some x" "ib \<le> ie" "ie \<le> m"
  shows "\<exists>r t'. cut_left scr ib ie t = Some (r, t') \<and> ib \<le> r \<and> r \<le> ie"
  using assms(2)
proof (induction "ie - ib" arbitrary: ib t)
  case 0
  then obtain x where "ie = ib" "idx scr ie = Some x" using assms(1,3) by auto
  then show ?case by (subst cut_left.simps) (simp add: DISPLAY_SIZE_def)
next
  case (Suc n)
  obtain e b where "idx scr ie = Some e" "idx scr ib = Some b" using assms(1,3) Suc.prems by (meson le_trans)
  moreover obtain r t' where "cut_left scr (ib + 1) ie True = Some (r, t')" "ib + 1 \<le> r" "r \<le> ie"
  proof -
    have "n = ie - (ib + 1)" "ib + 1 \<le> ie" using Suc.hyps(2) by linarith+
    from Suc.hyps(1) [OF this] show ?thesis using that by blast
  qed
  ultimately show ?case using Suc.prems by (subst cut_left.simps) auto
qed

lemma cut_line_spec:
  assumes "\<forall>i \<le> ie. \<exists>x. idx scr i = Some x" "ib \<le> loc" "loc \<le> ie"
  shows "\<exists>ib' ie' bt et. cut_line scr loc ib ie = Some (ib', ie', bt, et) \<and> ib' \<le> ie' \<and> ie' \<le> ie"
proof -
  obtain e b l where s: "idx scr ie = Some e" "idx scr ib = Some b" "idx scr loc = Some l"
    using assms by (meson le_trans order_refl)
  show ?thesis
  proof (cases "e - b > DISPLAY_SIZE")
    case True
    show ?thesis
    proof (cases "b + DISPLAY_SIZE \<ge> l + MIN_RIGHT_CUT")
      case right: True
      obtain r where "cut_end scr ib ie = Some r" "ib \<le> r" "r \<le> ie"
        using cut_end_spec [OF assms(1), of ib ie] assms by auto
      then have "cut_line scr loc ib ie = Some (ib, r, False, True)" using s True right by (simp add: cut_line_def)
      then show ?thesis using \<open>ib \<le> r\<close> \<open>r \<le> ie\<close> by blast
    next
      case False
      obtain r t where r: "cut_right scr loc ie False = Some (r, t)" "loc \<le> r" "r \<le> ie"
        using cut_right_spec [OF assms(1), of loc ie False] assms by auto
      obtain r' t' where "cut_left scr ib r False = Some (r', t')" "ib \<le> r'" "r' \<le> r"
        using cut_left_spec [OF assms(1), of ib r False] assms r by auto
      then show ?thesis using s True False r by (simp add: cut_line_def)
    qed
  next
    case False
    then have "cut_line scr loc ib ie = Some (ib, ie, False, False)" using s by (simp add: cut_line_def)
    then show ?thesis using assms by auto
  qed
qed

lemma prefix_width_spec:
  assumes "valid_expbuf msg" "\<forall>c \<in> set (drop i (eb_contents msg)). \<not> IS_HIGHBIT_SET c"
  shows "\<exists>w. prefix_width e msg i x = Some w"
  using assms(2)
proof (induction "eb_len msg - i" arbitrary: i x)
  case 0
  then show ?case by (subst prefix_width.simps) simp
next
  case (Suc n)
  then have i: "i < eb_len msg" by simp
  with assms(1) obtain d where d: "eb_data msg = Some d" "eb_len msg < length d"
    by (cases "eb_data msg") (auto simp: valid_expbuf_def)
  have c: "drop i (eb_contents msg) = d ! i # drop (Suc i) (eb_contents msg)"
    using i d by (simp add: eb_contents_def Cons_nth_drop_Suc [symmetric])
  have dd: "drop i d = d ! i # drop (Suc i) d" using i d by (simp add: Cons_nth_drop_Suc)
  have "\<not> IS_HIGHBIT_SET (d ! i)" using Suc.prems c by simp
  then have ml: "pg_encoding_mblen e (drop i d) = Some 1" by (simp add: dd mblen_ascii)
  then obtain w where w: "pg_encoding_dsplen e (drop i d) = Some w"
    using dsplen_complete [OF ml] dd by (metis length_greater_0_conv list.distinct(1) nat_one_as_int Suc_leI One_nat_def nat_1)
  have "\<forall>c \<in> set (drop (Suc i) (eb_contents msg)). \<not> IS_HIGHBIT_SET c" using Suc.prems c by simp
  then obtain w' where "prefix_width e msg (Suc i) (x + (if w \<le> 0 then 1 else w)) = Some w'"
  proof -
    have "n = eb_len msg - Suc i" using Suc.hyps(2) by linarith
    from Suc.hyps(1) [OF this] show ?thesis using that \<open>\<forall>c \<in> set (drop (Suc i) (eb_contents msg)). \<not> IS_HIGHBIT_SET c\<close> by blast
  qed
  then show ?case using i d ml w by (subst prefix_width.simps) simp
qed


text \<open>\<open>adds msg a m\<close>: the step ends with a valid buffer, broken or longer by some text.\<close>

definition adds :: "expbuf \<Rightarrow> (expbuf \<times> alloc) option \<Rightarrow> bool" where
  "adds msg m \<longleftrightarrow> (\<exists>msg' a' t. m = Some (msg', a') \<and> appended msg t msg')"

lemma appended_trans: "appended a s b \<Longrightarrow> appended b t c \<Longrightarrow> appended a (s @ t) c"
  by (auto simp: appended_def)

lemma appended_refl: "valid_expbuf a \<Longrightarrow> appended a [] a"
  by (simp add: appended_def)

lemma appended_valid: "appended a t b \<Longrightarrow> valid_expbuf b"
  by (simp add: appended_def)

lemma appendPQExpBufferStr_spec:
  assumes "valid_expbuf msg" "0 \<in> set s" "length s < 2 ^ 32"
  shows "\<exists>msg' a'. appendPQExpBufferStr a msg s = Some (msg', a') \<and> appended msg (c_str s) msg'"
proof -
  from assms(2) have n: "c_strlen s = Some (length (c_str s))" by (simp add: c_strlen_def)
  have t: "take (length (c_str s)) s = c_str s" unfolding c_str_def by (rule takeWhile_eq_take [symmetric])
  have "length (c_str s) < 2 ^ 32" using length_c_str [of s] assms(3) by linarith
  from appendBinaryPQExpBuffer_spec [OF assms(1) this, of a] show ?thesis
    by (simp add: appendPQExpBufferStr_def n t)
qed

lemma appendPQExpBufferChar_spec:
  assumes "valid_expbuf msg"
  shows "\<exists>msg' a'. appendPQExpBufferChar a msg c = Some (msg', a') \<and> appended msg [c] msg'"
  using appendBinaryPQExpBuffer_spec [OF assms, of "[c]" a] by (simp add: appendPQExpBufferChar_is_Binary)

lemma append_spaces_spec:
  assumes "valid_expbuf msg"
  shows "\<exists>msg' a'. append_spaces a msg n = Some (msg', a') \<and> appended msg (replicate n 0x20) msg'"
  using assms
proof (induction n arbitrary: a msg)
  case 0
  then show ?case by (simp add: appended_refl)
next
  case (Suc n)
  obtain m1 a1 where 1: "appendPQExpBufferChar a msg 0x20 = Some (m1, a1)" "appended msg [0x20] m1"
    using appendPQExpBufferChar_spec [OF Suc.prems] by blast
  obtain m2 a2 where 2: "append_spaces a1 m1 n = Some (m2, a2)" "appended m1 (replicate n 0x20) m2"
    using Suc.IH [OF appended_valid [OF 1(2)]] by blast
  show ?case using 1(1) 2(1) appended_trans [OF 1(2) 2(2)] by simp
qed

lemma show_nat_ascii: "\<forall>c \<in> set (show_nat n). \<not> IS_HIGHBIT_SET c"
proof (induction n rule: show_nat.induct)
  case (1 n)
  have "\<not> IS_HIGHBIT_SET (of_nat (48 + m) :: byte)" if "m < 10" for m
  proof -
    have "unat (of_nat (48 + m) :: byte) = 48 + m" using that by (simp only: unat_of_nat) simp
    then show ?thesis using that by (simp only: not_high_lt word_less_nat_alt) simp
  qed
  then show ?case using 1 by (subst show_nat.simps) auto
qed

lemma show_nat_length: "length (show_nat n) \<le> n + 1"
proof (induction n rule: show_nat.induct)
  case (1 n)
  then show ?case by (subst show_nat.simps) auto
qed


lemma c_bytes_length: "length (c_bytes s) = length s"
  by (simp add: c_bytes_def)

lemma append_dots_spec:
  assumes "valid_expbuf msg"
  shows "\<exists>msg' a' t. (if f then appendPQExpBufferStr a msg (lit ''...'' @ [0]) else Some (msg, a)) = Some (msg', a') \<and>
    appended msg t msg' \<and> (\<forall>c \<in> set t. \<not> IS_HIGHBIT_SET c)"
proof (cases f)
  case True
  have "0 \<in> set (lit ''...'' @ [0])" "length (lit ''...'' @ [0]) < 2 ^ 32" by (simp_all add: c_bytes_length)
  from appendPQExpBufferStr_spec [OF assms this, of a] obtain msg' a' where
    "appendPQExpBufferStr a msg (lit ''...'' @ [0]) = Some (msg', a')" "appended msg (c_str (lit ''...'' @ [0])) msg'" by blast
  moreover have "\<forall>c \<in> set (c_str (lit ''...'' @ [0])). \<not> IS_HIGHBIT_SET c"
    by (simp add: c_str_def c_bytes_def IS_HIGHBIT_SET_def)
  ultimately show ?thesis using True by auto
next
  case False
  then show ?thesis using appended_refl [OF assms] by auto
qed

lemma show_position_spec:
  assumes s: "line_known q (int loc) ie s" "loc \<le> ie" and m: "valid_expbuf msg" and len: "length q < 2 ^ 29" "ie \<le> length q"
  shows "\<exists>msg' a' t. show_position a msg s loc ie e = Some (msg', a') \<and> appended msg t msg'"
proof -
  have k: "\<forall>i \<le> ie. \<exists>x. idx (scridx s) i = Some x" "\<And>i. i \<le> ie \<Longrightarrow> \<exists>p \<le> length q. idx (qidx s) i = Some p"
    "ibeg s \<le> loc" "length (wquery s) = length q + 1" "wquery s ! length q = 0" "0 \<le> loc_line s" "loc_line s \<le> int ie + 1"
    using s by (auto simp: line_known_def)
  obtain ib ie' bt et where cut: "cut_line (scridx s) loc (ibeg s) ie = Some (ib, ie', bt, et)" "ib \<le> ie'" "ie' \<le> ie"
    using cut_line_spec [OF k(1,3) s(2)] by blast
  obtain p where p: "p \<le> length q" "idx (qidx s) ie' = Some p" using k(2) [OF cut(3)] by blast
  obtain r where r: "r \<le> length q" "idx (qidx s) ib = Some r" using k(2) [of ib] cut by (meson le_trans)
  obtain l b where lb: "idx (scridx s) loc = Some l" "idx (scridx s) ib = Some b"
    using k(1) s(2) cut by (meson le_trans)
  define wq where "wq = (wquery s)[p := 0]"
  have wq: "wr (wquery s) p 0 = Some wq" using p k(4) by (simp add: wr_def wq_def)
  have "0 \<in> set (drop r wq)"
  proof -
    have "drop r wq ! (length q - r) = 0" using r p(1) k(4,5) by (cases "p = length q") (simp_all add: wq_def)
    moreover have "length q - r < length (drop r wq)" using r k(4) by (simp add: wq_def)
    ultimately show ?thesis by (metis nth_mem)
  qed
  then have dr: "0 \<in> set (drop r wq)" "length (drop r wq) < 2 ^ 32" using k(4) len by (simp_all add: wq_def)
  let ?pre = "lit ''LINE '' @ show_int (loc_line s) @ lit '': ''"
  have pre: "length ?pre < 2 ^ 31" "\<forall>c \<in> set ?pre. \<not> IS_HIGHBIT_SET c"
  proof -
    have "length (show_int (loc_line s)) \<le> ie + 2"
      using show_nat_length [of "nat (loc_line s)"] k(6,7) by (simp add: show_int_def)
    then show "length ?pre < 2 ^ 31" using len by (simp add: c_bytes_length)
    show "\<forall>c \<in> set ?pre. \<not> IS_HIGHBIT_SET c"
      using show_nat_ascii k(6) by (auto simp: show_int_def c_bytes_def IS_HIGHBIT_SET_def)
  qed
  obtain m1 a1 where 1: "appendPQExpBuffer a msg ?pre = Some (m1, a1)" "appended msg ?pre m1"
    using appendPQExpBuffer_spec [OF m pre(1)] by blast
  obtain m2 a2 t2 where 2: "(if bt then appendPQExpBufferStr a1 m1 (lit ''...'' @ [0]) else Some (m1, a1)) = Some (m2, a2)"
    "appended m1 t2 m2" "\<forall>c \<in> set t2. \<not> IS_HIGHBIT_SET c"
    using append_dots_spec [OF appended_valid [OF 1(2)]] by blast
  have m12: "appended msg (?pre @ t2) m2" by (rule appended_trans [OF 1(2) 2(2)])
  have "\<forall>c \<in> set (drop (eb_len msg) (eb_contents m2)). \<not> IS_HIGHBIT_SET c"
  proof (cases "PQExpBufferBroken m2")
    case True
    then show ?thesis using appended_valid [OF m12]
      by (cases "eb_data m2") (auto simp: eb_contents_def valid_expbuf_def PQExpBufferBroken_def)
  next
    case False
    have "length (eb_contents msg) = eb_len msg"
      using m by (cases "eb_data msg") (auto simp: eb_contents_def valid_expbuf_def)
    then show ?thesis using m12 False pre(2) 2(3) by (auto simp: appended_def)
  qed
  then obtain w where w: "prefix_width e m2 (eb_len msg) 0 = Some w"
    using prefix_width_spec [OF appended_valid [OF m12]] by blast
  obtain m3 a3 t3 where 3: "appendPQExpBufferStr a2 m2 (drop r wq) = Some (m3, a3)" "appended m2 t3 m3"
    using appendPQExpBufferStr_spec [OF appended_valid [OF m12] dr] by blast
  obtain m4 a4 t4 where 4: "(if et then appendPQExpBufferStr a3 m3 (lit ''...'' @ [0]) else Some (m3, a3)) = Some (m4, a4)" "appended m3 t4 m4"
    using append_dots_spec [OF appended_valid [OF 3(2)]] by blast
  obtain m5 a5 where 5: "appendPQExpBufferChar a4 m4 0x0A = Some (m5, a5)" "appended m4 [0x0A] m5"
    using appendPQExpBufferChar_spec [OF appended_valid [OF 4(2)]] by blast
  obtain m6 a6 t6 where 6: "append_spaces a5 m5 (nat (w + (l - b))) = Some (m6, a6)" "appended m5 t6 m6"
    using append_spaces_spec [OF appended_valid [OF 5(2)]] by blast
  obtain m7 a7 where 7: "appendPQExpBufferChar a6 m6 0x5E = Some (m7, a7)" "appended m6 [0x5E] m7"
    using appendPQExpBufferChar_spec [OF appended_valid [OF 6(2)]] by blast
  obtain m8 a8 where 8: "appendPQExpBufferChar a7 m7 0x0A = Some (m8, a8)" "appended m7 [0x0A] m8"
    using appendPQExpBufferChar_spec [OF appended_valid [OF 7(2)]] by blast
  have "show_position a msg s loc ie e = Some (m8, a8)"
    by (simp add: show_position_def cut(1) p(2) wq 1(1) 2(1) w r(2) 3(1) 4(1) 5(1) lb 6(1) 7(1) 8(1))
  moreover have "\<exists>t. appended msg t m8"
    using appended_trans [OF m12 appended_trans [OF 3(2) appended_trans [OF 4(2) appended_trans [OF 5(2)
      appended_trans [OF 6(2) appended_trans [OF 7(2) 8(2)]]]]]] by blast
  ultimately show ?thesis by blast
qed


lemma valid_max_length: "PG_VALID_ENCODING e \<Longrightarrow> \<exists>m. pg_encoding_max_length e = Some m"
  by (auto simp: pg_encoding_max_length_def elim!: valid_row)

lemma reportErrorPosition_spec:
  assumes m: "valid_expbuf msg" and q: "0 \<notin> set q" "length q < 2 ^ 29" and e: "PG_VALID_ENCODING e"
    and w: "pg_encoding_max_length e \<noteq> Some 1 \<Longrightarrow> whole_chars e q"
  shows "\<exists>msg' a' t. reportErrorPosition a msg q loc e = Some (msg', a') \<and> appended msg t msg'"
proof (cases "0 \<le> wrap32 (loc - 1) \<and> next_ok a \<and> next_ok (after_alloc a) \<and> next_ok (after_alloc (after_alloc a))")
  case False
  then show ?thesis using appended_refl [OF m] by (auto simp: reportErrorPosition_def Let_def)
next
  case True
  let ?l = "wrap32 (loc - 1)"
  let ?a = "after_alloc (after_alloc (after_alloc a))"
  have n: "szmul (length q + 1) 4 div 4 = length q + 1" using q(2) by (simp add: szmul_id)
  obtain mx where mx: "pg_encoding_max_length e = Some mx" using valid_max_length [OF e] by blast
  define s where "s = \<lparr>wquery = q @ [0], qidx = replicate (length q + 1) None, scridx = replicate (length q + 1) None,
     cno = 0, qoffset = 0, scroffset = 0, loc_line = 1, ibeg = 0\<rparr>"
  have ok: "scan_ok q ?l s" using True by (simp add: scan_ok_def s_def)
  have wc: "whole_chars e (drop (qoffset s) q)" if "mx \<noteq> 1" using w mx that by (simp add: s_def)
  obtain r s' where r: "scan_query ?l e (mx \<noteq> 1) s = Some (r, s')"
    "case r of None \<Rightarrow> scan_ok q ?l s' | Some ie \<Rightarrow> line_known q ?l ie s' \<and> ?l \<le> int ie \<and> ie \<le> length q"
    using scan_query_spec [OF ok q(1), of "mx \<noteq> 1" e] wc by blast
  have "\<exists>ie s2. (case r of Some i \<Rightarrow> Some (i, s') | None \<Rightarrow> do { s2 \<leftarrow> set_offsets s'; Some (cno s', s2) }) = Some (ie, s2) \<and>
      line_known q ?l ie s2 \<and> ie \<le> length q"
  proof (cases r)
    case None
    with r(2) have s': "scan_ok q ?l s'" by simp
    from set_offsets_spec [OF this] obtain s2 where "set_offsets s' = Some s2" "line_known q ?l (cno s') s2" by blast
    moreover have "cno s' \<le> length q" using s' by (simp add: scan_ok_def)
    ultimately show ?thesis using None by simp
  next
    case (Some ie)
    with r(2) show ?thesis by simp
  qed
  then obtain ie s2 where f: "(case r of Some i \<Rightarrow> Some (i, s') | None \<Rightarrow> do { s2 \<leftarrow> set_offsets s'; Some (cno s', s2) }) = Some (ie, s2)"
    "line_known q ?l ie s2" "ie \<le> length q" by blast
  have eq: "reportErrorPosition a msg q loc e =
      (if ?l \<le> int (cno s2) then show_position ?a msg s2 (nat ?l) ie e else Some (msg, ?a))"
    using True by (simp only: reportErrorPosition_def Let_def n mx r(1) f(1) s_def [symmetric] Option.bind.simps prod.case if_False if_True not_less [symmetric] simp_thms)
  show ?thesis
  proof (cases "?l \<le> int (cno s2)")
    case True
    have c: "cno s2 = ie" using f(2) by (simp add: line_known_def)
    have "int (nat ?l) = ?l" using \<open>0 \<le> ?l \<and> _\<close> by simp
    then have "line_known q (int (nat ?l)) ie s2" "nat ?l \<le> ie" using f(2) True c by simp_all
    from show_position_spec [OF this m q(2) f(3), of ?a e] show ?thesis using eq True by simp
  next
    case False
    then show ?thesis using eq appended_refl [OF m] by auto
  qed
qed


section \<open>A query of one line\<close>

definition printable :: "byte \<Rightarrow> bool" where
  "printable c \<longleftrightarrow> 0x20 \<le> c \<and> c < 0x7f"

lemma printable_ascii: "printable c \<Longrightarrow> \<not> IS_HIGHBIT_SET c"
  by (simp add: printable_def not_high_lt word_less_nat_alt)

lemma no_combining_ascii: "c < 0x300 \<Longrightarrow> iv \<in> set combining \<Longrightarrow> \<not> in_interval c iv"
proof -
  have "list_all (\<lambda>iv. 0x300 \<le> (ucast (fst iv) :: pg_wchar)) combining" by (simp add: combining_def)
  then show "c < 0x300 \<Longrightarrow> iv \<in> set combining \<Longrightarrow> \<not> in_interval c iv"
    by (auto simp: list_all_iff in_interval_def)
qed

lemma ucs_width_printable:
  assumes "printable c"
  shows "ucs_wcwidth (ucast c) = Some 1"
proof -
  have u: "unat (ucast c :: pg_wchar) = unat c" by (rule unat_from_byte)
  have c: "0x20 \<le> unat c" "unat c < 0x7f" using assms by (simp_all add: printable_def word_le_nat_alt word_less_nat_alt)
  have ne: "combining \<noteq> []" by (simp add: combining_def)
  have "(ucast c :: pg_wchar) < 0x300" using c u by (simp add: word_less_nat_alt)
  then have "mbbisearch (ucast c) combining (int (length combining) - 1) = Some 0"
    using mbbisearch_linear [OF combining_sorted ne, of "ucast c"] no_combining_ascii by auto
  moreover have "(ucast c :: pg_wchar) \<noteq> 0" "\<not> (ucast c :: pg_wchar) < 0x20" "\<not> (ucast c :: pg_wchar) \<ge> 0x7f"
    "\<not> (ucast c :: pg_wchar) > 0x0010ffff" "\<not> (ucast c :: pg_wchar) \<ge> 0x1100"
    using c u by (auto simp: word_less_nat_alt word_le_nat_alt)
  ultimately show ?thesis by (simp add: ucs_wcwidth_def)
qed

definition printable_row :: "pg_wchar_tbl \<Rightarrow> bool" where
  "printable_row row \<longleftrightarrow> (\<forall>c r. printable c \<longrightarrow> dsplen row (c # r) = Some 1)"

lemma printable_width: "printable c \<Longrightarrow> pg_utf_dsplen (c # r) = Some 1" "printable c \<Longrightarrow> pg_ascii_dsplen (c # r) = Some 1"
  "printable c \<Longrightarrow> pg_mule_dsplen (c # r) = Some 1"
proof -
  assume p: "printable c"
  then have a: "c AND 0x80 = 0" "\<not> IS_LC2 c" "\<not> IS_LCPRV2 c" using ascii_lead [OF printable_ascii] by auto
  show "pg_utf_dsplen (c # r) = Some 1" using p a by (simp add: pg_utf_dsplen_def utf8_to_unicode_def rd_def ucs_width_printable)
  have "c \<noteq> 0" "\<not> c < 0x20" "c \<noteq> 0x7f" using p by (auto simp: printable_def word_less_nat_alt word_le_nat_alt)
  then show "pg_ascii_dsplen (c # r) = Some 1" by (simp add: pg_ascii_dsplen_def rd_def)
  show "pg_mule_dsplen (c # r) = Some 1" using a by (simp add: pg_mule_dsplen_def rd_def)
qed

lemma rows_printable: "list_all printable_row pg_wchar_table"
  unfolding pg_wchar_table_def list.pred_inject
  by (intro conjI TrueI; simp add: wchar_row_def printable_row_def printable_width;
      simp add: printable_width pg_eucjp_dsplen_def pg_euccn_dsplen_def pg_euckr_dsplen_def pg_euctw_dsplen_def
        pg_latin1_dsplen_def pg_sjis_dsplen_def pg_big5_dsplen_def pg_gbk_dsplen_def pg_uhc_dsplen_def
        pg_gb18030_dsplen_def pg_johab_dsplen_def pg_euc_dsplen_def rd_def ascii_lead printable_ascii)

lemma dsplen_printable: "printable c \<Longrightarrow> pg_encoding_dsplen e (c # r) = Some 1"
proof (cases "0 \<le> e \<and> e < int (length pg_wchar_table)")
  case True
  assume "printable c"
  moreover have "nat e < length pg_wchar_table" using True by auto
  ultimately show ?thesis using True rows_printable
    by (auto simp: pg_encoding_dsplen_def rdi_def rd_def list_all_length printable_row_def)
next
  case False
  assume "printable c"
  with False rows_printable show ?thesis
    by (auto simp: pg_encoding_dsplen_def rdi_def rd_def list_all_length printable_row_def table_length)
qed

lemma prefix_width_printable:
  assumes "valid_expbuf msg" "\<forall>c \<in> set (drop i (eb_contents msg)). printable c" "i \<le> eb_len msg"
  shows "prefix_width e msg i x = Some (x + int (eb_len msg - i))"
  using assms(2,3)
proof (induction "eb_len msg - i" arbitrary: i x)
  case 0
  then show ?case by (subst prefix_width.simps) simp
next
  case (Suc n)
  then have i: "i < eb_len msg" by simp
  with assms(1) obtain d where d: "eb_data msg = Some d" "eb_len msg < length d"
    by (cases "eb_data msg") (auto simp: valid_expbuf_def)
  have c: "drop i (eb_contents msg) = d ! i # drop (Suc i) (eb_contents msg)"
    using i d by (simp add: eb_contents_def Cons_nth_drop_Suc [symmetric])
  have dd: "drop i d = d ! i # drop (Suc i) d" using i d by (simp add: Cons_nth_drop_Suc)
  have p: "printable (d ! i)" using Suc.prems c by simp
  have "n = eb_len msg - Suc i" "\<forall>c \<in> set (drop (Suc i) (eb_contents msg)). printable c" "Suc i \<le> eb_len msg"
    using Suc.hyps(2) Suc.prems c i by auto
  from Suc.hyps(1) [OF this] have "prefix_width e msg (Suc i) (x + 1) = Some (x + 1 + int (eb_len msg - Suc i))" .
  then show ?case using i d mblen_ascii [OF printable_ascii [OF p]] dsplen_printable [OF p]
    by (subst prefix_width.simps) (simp add: dd)
qed


text \<open>The state of the scan after \<open>n\<close> characters of a line without tabs.\<close>

definition scanned :: "byte list \<Rightarrow> nat \<Rightarrow> scan" where
  "scanned q n = \<lparr>wquery = q @ [0], qidx = map Some [0..<n] @ replicate (Suc (length q) - n) None,
     scridx = map (\<lambda>i. Some (int i)) [0..<n] @ replicate (Suc (length q) - n) None,
     cno = n, qoffset = n, scroffset = int n, loc_line = 1, ibeg = 0\<rparr>"

lemma set_offsets_scanned:
  assumes "n \<le> length q"
  shows "set_offsets (scanned q n) = Some ((scanned q (Suc n))\<lparr>cno := n, qoffset := n, scroffset := int n\<rparr>)"
proof -
  have k: "Suc (length q) - n = Suc (length q - n)" "Suc (length q) - Suc n = length q - n" using assms by (simp_all add: Suc_diff_le)
  have upt: "[0..<Suc n] = [0..<n] @ [n]" by simp
  show ?thesis
    unfolding set_offsets_def wr_def scanned_def k upt
    by (simp add: list_update_append del: upt_Suc)
qed

lemma scan_query_steps:
  assumes "\<forall>i < m. printable (q ! i)" "m \<le> length q" "n \<le> m"
  shows "scan_query loc e mb (scanned q n) = scan_query loc e mb (scanned q m)"
  using assms(3)
proof (induction "m - n" arbitrary: n)
  case 0
  then show ?case by simp
next
  case (Suc k)
  then have n: "n < m" "n < length q" using assms(2) by simp_all
  have p: "printable (q ! n)" using assms(1) n(1) by simp
  have c: "q ! n \<noteq> 0" "q ! n \<noteq> 0x09" "q ! n \<noteq> 0x0D" "q ! n \<noteq> 0x0A"
    using p by (auto simp: printable_def word_le_nat_alt)
  let ?s1 = "(scanned q (Suc n))\<lparr>cno := n, qoffset := n, scroffset := int n\<rparr>"
  have ch: "rd (wquery (scanned q n)) (qoffset (scanned q n)) = Some (q ! n)" using n by (simp add: scanned_def rd_def nth_append)
  have d: "drop n (q @ [0]) = q ! n # drop (Suc n) (q @ [0])" using n by (simp add: Cons_nth_drop_Suc)
  have "next_char e mb ?s1 = Some (scanned q (Suc n))"
  proof -
    have "drop (qoffset ?s1) (wquery ?s1) = q ! n # drop (Suc n) (q @ [0])" using d by (simp add: scanned_def)
    then show ?thesis
      using mblen_ascii [OF printable_ascii [OF p]] dsplen_printable [OF p] by (simp add: next_char_def scanned_def)
  qed
  moreover have "line_end loc (q ! n) ?s1 = Some (False, ?s1)" using c by (simp add: line_end_def)
  moreover have "scan_query loc e mb (scanned q (Suc n)) = scan_query loc e mb (scanned q m)"
    using Suc.hyps(1) [of "Suc n"] Suc.hyps(2) n by simp
  ultimately show ?case
    using ch c(1) set_offsets_scanned [of n q] n by (subst scan_query.simps) simp
qed

lemma scan_query_printable:
  assumes "\<forall>c \<in> set q. printable c"
  shows "scan_query loc e mb (scanned q 0) = Some (None, scanned q (length q))"
proof -
  have "scan_query loc e mb (scanned q 0) = scan_query loc e mb (scanned q (length q))"
    by (rule scan_query_steps) (use assms in auto)
  also have "\<dots> = Some (None, scanned q (length q))" by (subst scan_query.simps) (simp add: scanned_def rd_def)
  finally show ?thesis .
qed

text \<open>C36: For a query of one line that fits the screen, the display of an error at character \<open>loc\<close> is the line, headed by its number,
  and a marker exactly under that character, in every encoding.\<close>

theorem error_position_single_line:
  assumes "valid_expbuf msg" "PG_VALID_ENCODING e" "\<forall>c \<in> set q. printable c" "length q \<le> 60"
    and "1 \<le> loc" "loc \<le> int (length q) + 1" "next_ok a" "next_ok (after_alloc a)" "next_ok (after_alloc (after_alloc a))"
  shows "\<exists>msg' a'. reportErrorPosition a msg q loc e = Some (msg', a') \<and> valid_expbuf msg' \<and>
    (\<not> PQExpBufferBroken msg' \<longrightarrow> eb_contents msg' =
       eb_contents msg @ lit ''LINE 1: '' @ q @ [0x0A] @ replicate (8 + nat (loc - 1)) 0x20 @ [0x5E, 0x0A])"
proof -
  let ?a = "after_alloc (after_alloc (after_alloc a))"
  let ?l = "nat (loc - 1)"
  define s where "s = (scanned q (Suc (length q)))\<lparr>cno := length q, qoffset := length q, scroffset := int (length q)\<rparr>"
  have l: "wrap32 (loc - 1) = loc - 1" "?l \<le> length q" using assms(4-6) by (auto simp: wrap32_id)
  have n: "szmul (length q + 1) 4 div 4 = length q + 1" using assms(4) by (simp add: szmul_id)
  obtain mx where mx: "pg_encoding_max_length e = Some mx" using valid_max_length [OF assms(2)] by blast
  have s0: "\<lparr>wquery = q @ [0], qidx = replicate (length q + 1) None, scridx = replicate (length q + 1) None,
     cno = 0, qoffset = 0, scroffset = 0, loc_line = 1, ibeg = 0\<rparr> = scanned q 0" by (simp add: scanned_def)
  have se: "set_offsets (scanned q (length q)) = Some s" unfolding s_def by (rule set_offsets_scanned) simp
  have x: "idx (qidx s) i = Some i" "idx (scridx s) i = Some (int i)" if "i \<le> length q" for i
    using that by (simp_all add: s_def scanned_def idx_def rd_def nth_append)
  have eq: "reportErrorPosition a msg q loc e = show_position ?a msg s ?l (length q) e"
    using assms(5-9) l
    by (simp add: reportErrorPosition_def Let_def n [simplified] mx s0 [simplified] scan_query_printable [OF assms(3)] se)
      (simp add: scanned_def s_def)
  have cut: "cut_line (scridx s) ?l (ibeg s) (length q) = Some (0, length q, False, False)"
    using x(2) [of 0] x(2) [of "length q"] assms(4) by (simp add: cut_line_def DISPLAY_SIZE_def s_def scanned_def)
  have wq: "wr (wquery s) (length q) 0 = Some (q @ [0])" by (simp add: wr_def s_def scanned_def list_update_append)
  let ?pre = "lit ''LINE 1: ''"
  have pre: "lit ''LINE '' @ show_int (loc_line s) @ lit '': '' = ?pre"
    by (simp add: s_def scanned_def show_int_def show_nat.simps c_bytes_def)
  have pp: "length ?pre = 8" "\<forall>c \<in> set ?pre. printable c" by (simp_all add: c_bytes_def printable_def)
  obtain m1 a1 where 1: "appendPQExpBuffer ?a msg ?pre = Some (m1, a1)" "appended msg ?pre m1"
    using appendPQExpBuffer_spec [OF assms(1), of ?pre ?a] pp(1) by auto
  have q0: "0 \<in> set (q @ [0])" "length (q @ [0]) < 2 ^ 32" "c_str (q @ [0]) = q"
  proof -
    have "0 \<notin> set q" using assms(3) by (auto simp: printable_def)
    then show "c_str (q @ [0]) = q" using c_str_append [of q "[]"] by simp
  qed (use assms(4) in simp_all)
  obtain w where w: "prefix_width e m1 (eb_len msg) 0 = Some w" "\<not> PQExpBufferBroken m1 \<longrightarrow> w = 8"
  proof (cases "PQExpBufferBroken m1")
    case True
    then have "eb_len m1 = 0" using appended_valid [OF 1(2)]
      by (cases "eb_data m1") (auto simp: valid_expbuf_def PQExpBufferBroken_def)
    then show ?thesis using True that by (subst (asm) prefix_width.simps) simp
  next
    case False
    have "length (eb_contents msg) = eb_len msg"
      using assms(1) by (cases "eb_data msg") (auto simp: eb_contents_def valid_expbuf_def)
    then have "eb_len m1 = eb_len msg + 8" "\<forall>c \<in> set (drop (eb_len msg) (eb_contents m1)). printable c"
      using 1(2) False pp by (simp_all add: appended_def)
    with prefix_width_printable [OF appended_valid [OF 1(2)] this(2), of e 0] show ?thesis using that by simp
  qed
  obtain m3 a3 where 3: "appendPQExpBufferStr a1 m1 (q @ [0]) = Some (m3, a3)" "appended m1 q m3"
    using appendPQExpBufferStr_spec [OF appended_valid [OF 1(2)] q0(1,2), of a1] unfolding q0(3) by blast
  obtain m5 a5 where 5: "appendPQExpBufferChar a3 m3 0x0A = Some (m5, a5)" "appended m3 [0x0A] m5"
    using appendPQExpBufferChar_spec [OF appended_valid [OF 3(2)]] by blast
  obtain m6 a6 where 6: "append_spaces a5 m5 (nat (w + (int ?l - 0))) = Some (m6, a6)" "appended m5 (replicate (nat (w + (int ?l - 0))) 0x20) m6"
    using append_spaces_spec [OF appended_valid [OF 5(2)]] by blast
  obtain m7 a7 where 7: "appendPQExpBufferChar a6 m6 0x5E = Some (m7, a7)" "appended m6 [0x5E] m7"
    using appendPQExpBufferChar_spec [OF appended_valid [OF 6(2)]] by blast
  obtain m8 a8 where 8: "appendPQExpBufferChar a7 m7 0x0A = Some (m8, a8)" "appended m7 [0x0A] m8"
    using appendPQExpBufferChar_spec [OF appended_valid [OF 7(2)]] by blast
  have "show_position ?a msg s ?l (length q) e = Some (m8, a8)"
    using x(1) [of "length q"] x(1) [of 0] x(2) [of 0] x(2) [OF l(2)] 6(1)
    by (simp add: show_position_def cut wq pre 1(1) w(1) 3(1) 5(1) 7(1) 8(1))
  moreover have "eb_contents m8 = eb_contents msg @ ?pre @ q @ [0x0A] @ replicate (8 + ?l) 0x20 @ [0x5E, 0x0A]"
    if "\<not> PQExpBufferBroken m8"
  proof -
    have "w = 8" using that w(2) 3(2) 5(2) 6(2) 7(2) 8(2) by (simp add: appended_def)
    then have "nat (w + (int ?l - 0)) = 8 + ?l" using assms(5) by linarith
    then show ?thesis using that 1(2) 3(2) 5(2) 6(2) 7(2) 8(2) by (simp add: appended_def)
  qed
  ultimately show ?thesis using eq appended_valid [OF 8(2)] by auto
qed


lemma error_position_single_line_witness:
  "\<exists>msg' a'. reportErrorPosition \<lparr>oks = [], junk = 7\<rparr> (errorMessage example_conn) (lit ''SELECT x'') 8 PG_UTF8 = Some (msg', a') \<and>
    valid_expbuf msg' \<and> (\<not> PQExpBufferBroken msg' \<longrightarrow> eb_contents msg' = eb_contents (errorMessage example_conn) @
      lit ''LINE 1: '' @ lit ''SELECT x'' @ [0x0A] @ replicate (8 + nat (8 - 1)) 0x20 @ [0x5E, 0x0A])"
  by (rule error_position_single_line)
    (simp_all add: example_conn_valid PG_VALID_ENCODING_def c_bytes_def printable_def next_ok_def after_alloc_def)

text \<open>C35: \<open>reportErrorPosition\<close> is memory safe and ends for every query whose characters are complete in the client's encoding,
  whatever position the server reports and whichever allocations fail: it only adds text to the message, or leaves the message
  broken.\<close>

theorem error_position_safe:
  assumes "valid_expbuf msg" "0 \<notin> set q" "length q < 2 ^ 29" "PG_VALID_ENCODING e"
    and "pg_encoding_max_length e = Some 1 \<or> whole_chars e q"
  shows "\<exists>msg' a' t. reportErrorPosition a msg q loc e = Some (msg', a') \<and> valid_expbuf msg' \<and>
    (\<not> PQExpBufferBroken msg' \<longrightarrow> \<not> PQExpBufferBroken msg \<and> eb_contents msg' = eb_contents msg @ t)"
  using reportErrorPosition_spec [OF assms(1-4), of a loc] assms(5) by (auto simp: appended_def)

lemma error_position_safe_witness:
  "\<exists>msg' a' t. reportErrorPosition \<lparr>oks = [True, True, True, False], junk = 7\<rparr> (errorMessage example_conn) [0x0A, 0xC3, 0xA9, 0x09] 3 PG_UTF8 = Some (msg', a') \<and>
    valid_expbuf msg' \<and> (\<not> PQExpBufferBroken msg' \<longrightarrow> \<not> PQExpBufferBroken (errorMessage example_conn) \<and>
      eb_contents msg' = eb_contents (errorMessage example_conn) @ t)"
proof (rule error_position_safe)
  show "pg_encoding_max_length PG_UTF8 = Some 1 \<or> whole_chars PG_UTF8 [0x0A, 0xC3, 0xA9, 0x09]"
    by (simp add: whole_chars.simps pg_encoding_mblen_def utf8_row table_length wchar_row_def pg_utf_mblen_def rd_def)
qed (simp_all add: example_conn_valid PG_VALID_ENCODING_def)

lemma lead_byte:
  fixes c :: byte
  assumes "c AND 0xf0 = 0xe0 \<or> c AND 0xf8 = 0xf0"
  shows "c \<noteq> 0" "c \<noteq> 0x09" "c \<noteq> 0x0D" "c \<noteq> 0x0A" "c AND 0x80 \<noteq> 0" "c AND 0xe0 \<noteq> 0xc0"
proof -
  show "c \<noteq> 0" "c \<noteq> 0x09" "c \<noteq> 0x0D" "c \<noteq> 0x0A" using assms by auto
  have "(c AND 0xf0) AND 0x80 = c AND 0x80" "(c AND 0xf8) AND 0x80 = c AND 0x80"
    "(c AND 0xf0) AND 0xe0 = c AND 0xe0" "(c AND 0xf8) AND 0xe0 = c AND 0xe0" by (simp_all add: and.assoc)
  then show "c AND 0x80 \<noteq> 0" "c AND 0xe0 \<noteq> 0xc0" using assms by auto
qed



end
