(* ===== verification/Protocol3.thy ===== *)
theory Protocol3
  imports FeMisc ErrorPos
begin

text \<open>
  The messages of protocol 3: \<open>fe-protocol3.c\<close> up to \<open>getReadyForQuery\<close>.

  A subroutine that reads a message answers \<open>0\<close> or \<open>EOF\<close>, as in the code, and the connection; the outer
  \<open>None\<close> is an access outside a buffer or through a null pointer. Letters of message types are given by
  their codes. Text is in C strings: the contents of a buffer up to its first NUL (\<open>eb_cstr\<close>).
\<close>

section \<open>Helpers\<close>

text \<open>A read that may find too little data: \<open>eof\<close> is the error exit.\<close>

definition or_eof :: "('a option \<times> pg_conn) option \<Rightarrow> (pg_conn \<Rightarrow> 'b option) \<Rightarrow> ('a \<Rightarrow> pg_conn \<Rightarrow> 'b option) \<Rightarrow> 'b option" where
  "or_eof m eof k = Option.bind m (\<lambda>(v, conn). case v of None \<Rightarrow> eof conn | Some v \<Rightarrow> k v conn)"

text \<open>\<open>pqGets(&conn->workBuffer, conn)\<close>.\<close>

definition gets_work :: "pg_conn \<Rightarrow> (int \<times> pg_conn) option" where
  "gets_work conn = do {
     (r, buf, conn) \<leftarrow> pqGets (workBuffer conn) conn;
     Some (r, conn\<lparr>workBuffer := buf\<rparr>)
   }"

text \<open>\<open>(int) ((int16) v)\<close>.\<close>

definition int16 :: "int \<Rightarrow> int" where
  "int16 v = (v + 32768) mod 65536 - 32768"

text \<open>An \<open>int\<close> stored in an \<open>Oid\<close>, which is unsigned.\<close>

definition oid :: "int \<Rightarrow> int" where
  "oid v = v mod 2 ^ 32"

text \<open>\<open>%x\<close> of \<open>printf\<close>.\<close>

fun show_hex :: "nat \<Rightarrow> byte list" where
  "show_hex n = (if n < 16 then [if n < 10 then of_nat (48 + n) else of_nat (87 + n)]
     else show_hex (n div 16) @ show_hex (n mod 16))"

declare show_hex.simps [simp del]

text \<open>\<open>%02x\<close> of a \<open>char\<close>, which is signed and is promoted to \<open>int\<close>.\<close>

definition hex_char :: "byte \<Rightarrow> byte list" where
  "hex_char c =
     (let n = nat (sint c mod 2 ^ 32) in if n < 16 then 0x30 # show_hex n else show_hex n)"

text \<open>\<open>atoi\<close>.\<close>

definition atoi :: "byte list \<Rightarrow> int" where
  "atoi s = (case scan_d s of None \<Rightarrow> 0 | Some (n, _) \<Rightarrow> n)"

text \<open>\<open>strncpy\<close> into an array of \<open>n\<close> characters.\<close>

definition c_strncpy :: "byte list \<Rightarrow> nat \<Rightarrow> byte list" where
  "c_strncpy s n = take n (s @ replicate n 0)"

definition CMDSTATUS_LEN :: nat where "CMDSTATUS_LEN = 64"

text \<open>\<open>VALID_LONG_MESSAGE_TYPE\<close>: T, D, d, V, E, N, A.\<close>

definition VALID_LONG_MESSAGE_TYPE :: "byte \<Rightarrow> bool" where
  "VALID_LONG_MESSAGE_TYPE ident \<longleftrightarrow>
     ident = 0x54 \<or> ident = 0x44 \<or> ident = 0x64 \<or> ident = 0x56 \<or> ident = 0x45 \<or> ident = 0x4E \<or> ident = 0x41"

definition handleSyncLoss :: "pg_conn \<Rightarrow> byte \<Rightarrow> int \<Rightarrow> pg_conn option" where
  "handleSyncLoss conn ident msgLength = do {
     conn \<leftarrow> printf_error conn (lit ''lost synchronization with server: got message type '' @ [0x22, ident, 0x22] @
       lit '', length '' @ show_int msgLength @ [0x0A]);
     conn \<leftarrow> pqSaveErrorResult conn;
     Some (conn\<lparr>asyncStatus := PGASYNC_READY, sock := - 1, status := CONNECTION_BAD\<rparr>)
   }"


section \<open>Row and parameter descriptions\<close>

definition null_attr :: PGresAttDesc where
  "null_attr = \<lparr>ad_name = None, ad_tableid = 0, ad_columnid = 0, ad_format = 0, ad_typid = 0, ad_typlen = 0, ad_atttypmod = 0\<rparr>"

definition set_attr :: "pg_result \<Rightarrow> nat \<Rightarrow> PGresAttDesc \<Rightarrow> pg_result option" where
  "set_attr res i d = do {
     ds \<leftarrow> attDescs res;
     ds \<leftarrow> wr ds i d;
     Some (res\<lparr>attDescs := Some ds\<rparr>)
   }"

text \<open>The space of the descriptors, cleared. \<open>False\<close>: no memory.\<close>

definition alloc_attrs :: "pg_result \<Rightarrow> int \<Rightarrow> pg_conn \<Rightarrow> (bool \<times> pg_result \<times> pg_conn) option" where
  "alloc_attrs res nfields conn =
     (if nfields > 0 then do {
        (sp, res, a) \<leftarrow> pqResultAlloc (e_alloc (env conn)) res (szmul (nat nfields) sizeof_PGresAttDesc) True;
        Some (sp \<noteq> None,
          res\<lparr>attDescs := (if sp = None then None else Some (replicate (nat nfields) null_attr))\<rparr>, set_alloc a conn)
      }
      else Some (True, res, conn))"

text \<open>The loop over the fields from \<open>i\<close> on, \<open>n\<close> of them. \<open>False\<close>: \<open>goto failure\<close>.\<close>

fun read_attrs :: "nat \<Rightarrow> nat \<Rightarrow> pg_result \<Rightarrow> pg_conn \<Rightarrow> (bool \<times> pg_result \<times> pg_conn) option" where
  "read_attrs 0 i res conn = Some (True, res, conn)"
| "read_attrs (Suc n) i res conn = do {
     (r, conn) \<leftarrow> gets_work conn;
     if r \<noteq> 0 then Some (False, res, conn)
     else let failure = (\<lambda>conn. Some (False, res, conn)) in
       or_eof (pqGetInt 4 conn) failure (\<lambda>tableid conn.
       or_eof (pqGetInt 2 conn) failure (\<lambda>columnid conn.
       or_eof (pqGetInt 4 conn) failure (\<lambda>typid conn.
       or_eof (pqGetInt 2 conn) failure (\<lambda>typlen conn.
       or_eof (pqGetInt 4 conn) failure (\<lambda>atttypmod conn.
       or_eof (pqGetInt 2 conn) failure (\<lambda>format conn. do {
         let columnid = int16 columnid;
         let typlen = int16 typlen;
         let format = int16 format;
         txt \<leftarrow> eb_cstr (workBuffer conn);
         (name, res, a) \<leftarrow> pqResultStrdup (e_alloc (env conn)) res txt;
         let conn = set_alloc a conn;
         if name = None then Some (False, res, conn)
         else do {
           res \<leftarrow> set_attr res i \<lparr>ad_name = name, ad_tableid = oid tableid, ad_columnid = columnid, ad_format = format,
             ad_typid = oid typid, ad_typlen = typlen, ad_atttypmod = atttypmod\<rparr>;
           read_attrs n (i + 1) (if format \<noteq> 1 then res\<lparr>binary := 0\<rparr> else res) conn
         }
       }))))))
   }"

text \<open>From the number of fields on.\<close>

definition read_row_description :: "pg_result \<Rightarrow> pg_conn \<Rightarrow> (bool \<times> pg_result \<times> pg_conn) option" where
  "read_row_description res conn =
     or_eof (pqGetInt 2 conn) (\<lambda>conn. Some (False, res, conn)) (\<lambda>nfields conn. do {
       (ok, res, conn) \<leftarrow> alloc_attrs (res\<lparr>numAttributes := nfields\<rparr>) nfields conn;
       if \<not> ok then Some (False, res, conn)
       else read_attrs (nat nfields) 0 (res\<lparr>binary := (if nfields > 0 then 1 else 0)\<rparr>) conn
     })"

text \<open>
  In a Describe the result that is already there is filled in place: what was read stays in it when the
  message turns out to be incomplete. A result of its own is discarded then.
\<close>

definition getRowDescriptions :: "pg_conn \<Rightarrow> (int \<times> pg_conn) option" where
  "getRowDescriptions conn = do {
     let in_place = (queryclass conn = PGQUERY_DESCRIBE \<and> result conn \<noteq> None);
     (res, conn) \<leftarrow> (if in_place then Some (result conn, conn)
       else if queryclass conn = PGQUERY_DESCRIBE then makeEmptyPGresult conn PGRES_COMMAND_OK
       else makeEmptyPGresult conn PGRES_TUPLES_OK);
     case res of
       None \<Rightarrow> Some (EOF, conn)
     | Some res \<Rightarrow> do {
         (ok, res, conn) \<leftarrow> read_row_description res conn;
         if ok then Some (0, conn\<lparr>result := Some res\<rparr>)
         else Some (EOF, if in_place then conn\<lparr>result := Some res\<rparr> else conn)
       }
   }"

fun read_params :: "nat \<Rightarrow> nat \<Rightarrow> pg_result \<Rightarrow> pg_conn \<Rightarrow> (bool \<times> pg_result \<times> pg_conn) option" where
  "read_params 0 i res conn = Some (True, res, conn)"
| "read_params (Suc n) i res conn =
     or_eof (pqGetInt 4 conn) (\<lambda>conn. Some (False, res, conn)) (\<lambda>typid conn. do {
       ps \<leftarrow> paramDescs res;
       ps \<leftarrow> wr ps i (oid typid);
       read_params n (i + 1) (res\<lparr>paramDescs := Some ps\<rparr>) conn
     })"

definition getParamDescriptions :: "pg_conn \<Rightarrow> (int \<times> pg_conn) option" where
  "getParamDescriptions conn = do {
     (res, conn) \<leftarrow> makeEmptyPGresult conn PGRES_COMMAND_OK;
     case res of
       None \<Rightarrow> Some (EOF, conn)
     | Some res \<Rightarrow>
         or_eof (pqGetInt 2 conn) (\<lambda>conn. Some (EOF, conn)) (\<lambda>nparams conn. do {
           let res = res\<lparr>numParameters := nparams\<rparr>;
           (ok, res, conn) \<leftarrow> (if nparams > 0 then do {
               (sp, res, a) \<leftarrow> pqResultAlloc (e_alloc (env conn)) res (szmul (nat nparams) sizeof_PGresParamDesc) True;
               Some (sp \<noteq> None,
                 res\<lparr>paramDescs := (if sp = None then None else Some (replicate (nat nparams) 0))\<rparr>, set_alloc a conn)
             }
             else Some (True, res, conn));
           (ok, res, conn) \<leftarrow> (if ok then read_params (nat nparams) 0 res conn else Some (False, res, conn));
           if ok then Some (0, conn\<lparr>result := Some res\<rparr>) else Some (EOF, conn)
         })
   }"


section \<open>Rows\<close>

datatype row_outcome = Row_read | Row_incomplete | Row_no_memory

text \<open>The space of one value, when it has none yet. \<open>None\<close> inside: no memory.\<close>

definition value_space ::
  "pg_result \<Rightarrow> PGresAttValue \<Rightarrow> nat \<Rightarrow> int \<Rightarrow> pg_conn \<Rightarrow> (PGresAttValue option \<times> pg_result \<times> pg_conn) option" where
  "value_space res v i vlen conn =
     (case av_value v of
        Some _ \<Rightarrow> Some (Some v, res, conn)
      | None \<Rightarrow> do {
          ds \<leftarrow> attDescs res;
          d \<leftarrow> rd ds i;
          let isbinary = (ad_format d \<noteq> 0);
          let nbytes = nat (wrap32 (vlen + 1) mod 2 ^ 32);
          (sp, res, a) \<leftarrow> pqResultAlloc (e_alloc (env conn)) res nbytes isbinary;
          Some (if sp = None then None
            else Some (v\<lparr>av_value := Some (replicate nbytes (junk (e_alloc (env conn))))\<rparr>), res, set_alloc a conn)
        })"

text \<open>
  The loop over the fields from \<open>i\<close> on, \<open>n\<close> of them. The row under construction \<open>tup\<close> is \<open>conn->curTuple\<close>. The
  value of a null field is the \<open>null_field\<close> of the result, an array that holds one NUL.
\<close>

fun read_values ::
  "nat \<Rightarrow> nat \<Rightarrow> pg_result \<Rightarrow> PGresAttValue list \<Rightarrow> pg_conn \<Rightarrow>
     (row_outcome \<times> pg_result \<times> PGresAttValue list \<times> pg_conn) option" where
  "read_values 0 i res tup conn = Some (Row_read, res, tup, conn)"
| "read_values (Suc n) i res tup conn =
     or_eof (pqGetInt 4 conn) (\<lambda>conn. Some (Row_incomplete, res, tup, conn)) (\<lambda>vlen conn.
       if vlen = - 1 then do {
         tup \<leftarrow> wr tup i \<lparr>av_len = NULL_LEN, av_value = Some [0]\<rparr>;
         read_values n (i + 1) res tup conn
       }
       else do {
         let vlen = (if vlen < 0 then 0 else vlen);
         v \<leftarrow> rd tup i;
         (space, res, conn) \<leftarrow> value_space res v i vlen conn;
         case space of
           None \<Rightarrow> Some (Row_no_memory, res, tup, conn)
         | Some v \<Rightarrow> do {
             let v = v\<lparr>av_len := vlen\<rparr>;
             tup \<leftarrow> wr tup i v;
             or_eof (if vlen > 0 then pqGetnchar (nat vlen) conn else Some (Some [], conn))
               (\<lambda>conn. Some (Row_incomplete, res, tup, conn)) (\<lambda>bs conn. do {
                 b \<leftarrow> av_value v;
                 b \<leftarrow> wr_bytes b 0 bs;
                 b \<leftarrow> wr b (nat vlen) 0;
                 tup \<leftarrow> wr tup i (v\<lparr>av_value := Some b\<rparr>);
                 read_values n (i + 1) res tup conn
               })
           }
       })"

text \<open>The label \<open>outOfMemory\<close>, and the error exit before it: the message counts as read.\<close>

definition skip_message :: "int \<Rightarrow> pg_conn \<Rightarrow> pg_conn" where
  "skip_message msgLength conn = conn\<lparr>inCursor := inStart conn + 5 + msgLength\<rparr>"

definition row_no_memory :: "int \<Rightarrow> pg_conn \<Rightarrow> (int \<times> pg_conn) option" where
  "row_no_memory msgLength conn = do {
     conn \<leftarrow> printf_error (pqClearAsyncResult conn) (lit ''out of memory for query result'' @ [0x0A]);
     conn \<leftarrow> pqSaveErrorResult conn;
     Some (0, skip_message msgLength conn)
   }"

definition read_row :: "int \<Rightarrow> pg_result \<Rightarrow> PGresAttValue list \<Rightarrow> pg_conn \<Rightarrow> (int \<times> pg_conn) option" where
  "read_row msgLength res tup conn =
     or_eof (pqGetInt 2 conn) (\<lambda>conn. Some (EOF, conn)) (\<lambda>tupnfields conn.
       if tupnfields \<noteq> numAttributes res then do {
         conn \<leftarrow> printf_error conn (lit ''unexpected field count in '' @ [0x22, 0x44, 0x22] @ lit '' message'' @ [0x0A]);
         conn \<leftarrow> pqSaveErrorResult conn;
         Some (0, skip_message msgLength conn)
       }
       else do {
         (oc, res, tup, conn) \<leftarrow> read_values (nat (numAttributes res)) 0 res tup conn;
         let conn = conn\<lparr>result := Some res, curTuple := Some tup\<rparr>;
         case oc of
           Row_incomplete \<Rightarrow> Some (EOF, conn)
         | Row_no_memory \<Rightarrow> row_no_memory msgLength conn
         | Row_read \<Rightarrow> do {
             (ok, res, a) \<leftarrow> pqAddTuple (e_alloc (env conn)) res tup;
             let conn = set_alloc a (conn\<lparr>result := Some res\<rparr>);
             if ok then Some (0, conn\<lparr>curTuple := None\<rparr>) else row_no_memory msgLength conn
           }
       })"

definition getAnotherTuple :: "pg_conn \<Rightarrow> int \<Rightarrow> (int \<times> pg_conn) option" where
  "getAnotherTuple conn msgLength = do {
     res \<leftarrow> result conn;
     case curTuple conn of
       Some tup \<Rightarrow> read_row msgLength res tup conn
     | None \<Rightarrow> do {
         (sp, res, a) \<leftarrow> pqResultAlloc (e_alloc (env conn)) res (szmul (nat (numAttributes res)) sizeof_PGresAttValue) True;
         let conn = set_alloc a (conn\<lparr>result := Some res\<rparr>);
         if sp = None then row_no_memory msgLength conn
         else let tup = replicate (nat (numAttributes res)) \<lparr>av_len = 0, av_value = None\<rparr> in
           read_row msgLength res tup (conn\<lparr>curTuple := Some tup\<rparr>)
       }
   }"


section \<open>Errors and notices\<close>

definition PG_DIAG_SQLSTATE :: byte where "PG_DIAG_SQLSTATE = 0x43"
definition PG_DIAG_MESSAGE_DETAIL :: byte where "PG_DIAG_MESSAGE_DETAIL = 0x44"
definition PG_DIAG_MESSAGE_HINT :: byte where "PG_DIAG_MESSAGE_HINT = 0x48"
definition PG_DIAG_STATEMENT_POSITION :: byte where "PG_DIAG_STATEMENT_POSITION = 0x50"
definition PG_DIAG_INTERNAL_POSITION :: byte where "PG_DIAG_INTERNAL_POSITION = 0x70"
definition PG_DIAG_INTERNAL_QUERY :: byte where "PG_DIAG_INTERNAL_QUERY = 0x71"
definition PG_DIAG_CONTEXT :: byte where "PG_DIAG_CONTEXT = 0x57"
definition PG_DIAG_SOURCE_FILE :: byte where "PG_DIAG_SOURCE_FILE = 0x46"
definition PG_DIAG_SOURCE_LINE :: byte where "PG_DIAG_SOURCE_LINE = 0x4C"
definition PG_DIAG_SOURCE_FUNCTION :: byte where "PG_DIAG_SOURCE_FUNCTION = 0x52"

text \<open>The loop over the fields of the message. \<open>False\<close>: \<open>goto fail\<close>.\<close>

partial_function (option) read_fields :: "pg_result \<Rightarrow> expbuf \<Rightarrow> pg_conn \<Rightarrow> (bool \<times> pg_result \<times> expbuf \<times> pg_conn) option" where
  "read_fields res buf conn =
     Option.bind (pqGetc conn) (\<lambda>(c, conn).
       if c = None then Some (False, res, buf, conn)
       else if the c = 0 then Some (True, res, buf, conn)
       else Option.bind (pqGets buf conn) (\<lambda>(r, buf, conn).
         if r \<noteq> 0 then Some (False, res, buf, conn)
         else Option.bind (eb_cstr buf) (\<lambda>v.
           Option.bind (pqSaveMessageField (e_alloc (env conn)) res (the c) v) (\<lambda>(res, a).
             read_fields res buf (set_alloc a conn)))))"

text \<open>
  The overall message is built by calls of \<open>appendPQExpBuffer\<close> (a formatted text), \<open>appendPQExpBufferStr\<close> and
  \<open>appendPQExpBufferChar\<close>, in the order of the lists.
\<close>

datatype append_call = Fmt "byte list" | Str "byte list" | Chr byte

fun do_append :: "alloc \<Rightarrow> expbuf \<Rightarrow> append_call \<Rightarrow> (expbuf \<times> alloc) option" where
  "do_append a buf (Fmt t) = appendPQExpBuffer a buf t"
| "do_append a buf (Str s) = appendPQExpBufferStr a buf (s @ [0])"
| "do_append a buf (Chr c) = appendPQExpBufferChar a buf c"

fun do_appends :: "alloc \<Rightarrow> expbuf \<Rightarrow> append_call list \<Rightarrow> (expbuf \<times> alloc) option" where
  "do_appends a buf [] = Some (buf, a)"
| "do_appends a buf (c # cs) = do { (buf, a) \<leftarrow> do_append a buf c; do_appends a buf cs }"

definition opt_fmt :: "byte list option \<Rightarrow> (byte list \<Rightarrow> byte list) \<Rightarrow> append_call list" where
  "opt_fmt v f = (case v of None \<Rightarrow> [] | Some t \<Rightarrow> [Fmt (f t)])"

text \<open>Severity, SQLSTATE, the primary message.\<close>

definition head_calls :: "pg_conn \<Rightarrow> pg_result \<Rightarrow> append_call list" where
  "head_calls conn res =
     opt_fmt (PQresultErrorField (Some res) PG_DIAG_SEVERITY) (\<lambda>v. v @ lit '':  '') @
     (if verbosity conn = PQERRORS_VERBOSE then opt_fmt (PQresultErrorField (Some res) PG_DIAG_SQLSTATE) (\<lambda>v. v @ lit '': '') else []) @
     (case PQresultErrorField (Some res) PG_DIAG_MESSAGE_PRIMARY of None \<Rightarrow> [] | Some v \<Rightarrow> [Str v])"

text \<open>
  The position: a text added to the primary message, or the query and the position for the display. An
  internal position without a display still leaves \<open>querytext\<close> set, with a \<open>querypos\<close> of 0.
\<close>

definition position_calls :: "pg_conn \<Rightarrow> pg_result \<Rightarrow> append_call list \<times> byte list option \<times> int" where
  "position_calls conn res =
     (case PQresultErrorField (Some res) PG_DIAG_STATEMENT_POSITION of
        Some v \<Rightarrow>
          if verbosity conn \<noteq> PQERRORS_TERSE \<and> last_query conn \<noteq> None then ([], last_query conn, atoi v)
          else ([Fmt (lit '' at character '' @ v)], None, 0)
      | None \<Rightarrow>
          (case PQresultErrorField (Some res) PG_DIAG_INTERNAL_POSITION of
             None \<Rightarrow> ([], None, 0)
           | Some v \<Rightarrow>
               let querytext = PQresultErrorField (Some res) PG_DIAG_INTERNAL_QUERY in
               if verbosity conn \<noteq> PQERRORS_TERSE \<and> querytext \<noteq> None then ([], querytext, atoi v)
               else ([Fmt (lit '' at character '' @ v)], querytext, 0)))"

definition detail_calls :: "pg_conn \<Rightarrow> pg_result \<Rightarrow> append_call list" where
  "detail_calls conn res =
     (if verbosity conn \<noteq> PQERRORS_TERSE then
        opt_fmt (PQresultErrorField (Some res) PG_DIAG_MESSAGE_DETAIL) (\<lambda>v. lit ''DETAIL:  '' @ v @ [0x0A]) @
        opt_fmt (PQresultErrorField (Some res) PG_DIAG_MESSAGE_HINT) (\<lambda>v. lit ''HINT:  '' @ v @ [0x0A]) @
        opt_fmt (PQresultErrorField (Some res) PG_DIAG_INTERNAL_QUERY) (\<lambda>v. lit ''QUERY:  '' @ v @ [0x0A]) @
        opt_fmt (PQresultErrorField (Some res) PG_DIAG_CONTEXT) (\<lambda>v. lit ''CONTEXT:  '' @ v @ [0x0A])
      else []) @
     (if verbosity conn = PQERRORS_VERBOSE then
        let valf = PQresultErrorField (Some res) PG_DIAG_SOURCE_FILE;
            vall = PQresultErrorField (Some res) PG_DIAG_SOURCE_LINE;
            val = PQresultErrorField (Some res) PG_DIAG_SOURCE_FUNCTION in
        if val \<noteq> None \<or> valf \<noteq> None \<or> vall \<noteq> None then
          [Str (lit ''LOCATION:  '')] @ opt_fmt val (\<lambda>v. v @ lit '', '') @
          (case (valf, vall) of (Some f, Some l) \<Rightarrow> [Fmt (f @ lit '':'' @ l)] | _ \<Rightarrow> []) @ [Chr 0x0A]
        else []
      else [])"

definition build_message :: "pg_conn \<Rightarrow> pg_result \<Rightarrow> expbuf \<Rightarrow> (expbuf \<times> pg_conn) option" where
  "build_message conn res buf = do {
     (buf, a) \<leftarrow> resetPQExpBuffer (e_alloc (env conn)) buf;
     let conn = (case PQresultErrorField (Some res) PG_DIAG_SQLSTATE of
         None \<Rightarrow> conn
       | Some v \<Rightarrow> if length v < 6 then conn\<lparr>last_sqlstate := v\<rparr> else conn);
     let (calls, querytext, querypos) = position_calls conn res;
     (buf, a) \<leftarrow> do_appends a buf (head_calls conn res @ calls @ [Chr 0x0A]);
     (buf, a) \<leftarrow> (case querytext of
         None \<Rightarrow> Some (buf, a)
       | Some q \<Rightarrow>
           if verbosity conn \<noteq> PQERRORS_TERSE \<and> querypos > 0
           then reportErrorPosition a buf q querypos (client_encoding conn) else Some (buf, a));
     (buf, a) \<leftarrow> do_appends a buf (detail_calls conn res);
     Some (buf, set_alloc a conn)
   }"

text \<open>The first half: the fields are collected in a new result. No result: \<open>goto fail\<close>.\<close>

definition read_error_message :: "pg_conn \<Rightarrow> bool \<Rightarrow> (pg_result option \<times> expbuf \<times> pg_conn) option" where
  "read_error_message conn isError = do {
     (workBuf, a) \<leftarrow> initPQExpBuffer (e_alloc (env conn));
     (res, conn) \<leftarrow> makeEmptyPGresult (set_alloc a conn) PGRES_EMPTY_QUERY;
     case res of
       None \<Rightarrow> Some (None, workBuf, conn)
     | Some res \<Rightarrow> do {
         let res = res\<lparr>resultStatus := (if isError then PGRES_FATAL_ERROR else PGRES_NONFATAL_ERROR)\<rparr>;
         (ok, res, workBuf, conn) \<leftarrow> read_fields res workBuf conn;
         Some (if ok then Some res else None, workBuf, conn)
       }
   }"

definition pqGetErrorNotice3 :: "pg_conn \<Rightarrow> bool \<Rightarrow> (int \<times> pg_conn) option" where
  "pqGetErrorNotice3 conn isError = do {
     (res, workBuf, conn) \<leftarrow> read_error_message conn isError;
     case res of
       None \<Rightarrow> Some (EOF, conn)
     | Some res \<Rightarrow> do {
         (workBuf, conn) \<leftarrow> build_message conn res workBuf;
         txt \<leftarrow> eb_cstr workBuf;
         if isError then do {
           (m, res, a) \<leftarrow> pqResultStrdup (e_alloc (env conn)) res txt;
           let conn = set_alloc a conn;
           if m = None then Some (EOF, conn)
           else do {
             let conn = (pqClearAsyncResult conn)\<lparr>result := Some (res\<lparr>errMsg := m\<rparr>)\<rparr>;
             (str, a) \<leftarrow> appendPQExpBufferStr (e_alloc (env conn)) (errorMessage conn) (txt @ [0]);
             Some (0, set_alloc a (conn\<lparr>errorMessage := str\<rparr>))
           }
         }
         else
           let res = res\<lparr>errMsg := Some txt\<rparr> in
           Some (0, if res_noticeRec res
             then conn\<lparr>env := (env conn)\<lparr>e_notices := e_notices (env conn) @ [res]\<rparr>\<rparr> else conn)
       }
   }"


section \<open>Other messages\<close>

definition getParameterStatus :: "pg_conn \<Rightarrow> (int \<times> pg_conn) option" where
  "getParameterStatus conn = do {
     (r, conn) \<leftarrow> gets_work conn;
     if r \<noteq> 0 then Some (EOF, conn)
     else do {
       (valueBuf, a) \<leftarrow> initPQExpBuffer (e_alloc (env conn));
       (r, valueBuf, conn) \<leftarrow> pqGets valueBuf (set_alloc a conn);
       if r \<noteq> 0 then Some (EOF, conn)
       else do {
         name \<leftarrow> eb_cstr (workBuffer conn);
         v \<leftarrow> eb_cstr valueBuf;
         conn \<leftarrow> pqSaveParameterStatus conn name v;
         Some (0, conn)
       }
     }
   }"

text \<open>The notifications are a list, \<open>notifyHead\<close> first.\<close>

definition getNotify :: "pg_conn \<Rightarrow> (int \<times> pg_conn) option" where
  "getNotify conn =
     or_eof (pqGetInt 4 conn) (\<lambda>conn. Some (EOF, conn)) (\<lambda>pid conn. do {
       (r, conn) \<leftarrow> gets_work conn;
       if r \<noteq> 0 then Some (EOF, conn)
       else do {
         svname \<leftarrow> eb_cstr (workBuffer conn);
         let ok = next_ok (e_alloc (env conn));
         let conn = set_alloc (after_alloc (e_alloc (env conn))) conn;
         if \<not> ok then Some (EOF, conn)
         else do {
           (r, conn) \<leftarrow> gets_work conn;
           if r \<noteq> 0 then Some (EOF, conn)
           else do {
             ext \<leftarrow> eb_cstr (workBuffer conn);
             let ok = next_ok (e_alloc (env conn));
             let conn = set_alloc (after_alloc (e_alloc (env conn))) conn;
             Some (0, if ok then conn\<lparr>notifies := notifies conn @ [\<lparr>relname = svname, notify_be_pid = pid, extra = ext\<rparr>]\<rparr>
               else conn)
           }
         }
       }
     })"

fun read_formats :: "nat \<Rightarrow> nat \<Rightarrow> pg_result \<Rightarrow> pg_conn \<Rightarrow> (bool \<times> pg_result \<times> pg_conn) option" where
  "read_formats 0 i res conn = Some (True, res, conn)"
| "read_formats (Suc n) i res conn =
     or_eof (pqGetInt 2 conn) (\<lambda>conn. Some (False, res, conn)) (\<lambda>format conn. do {
       ds \<leftarrow> attDescs res;
       d \<leftarrow> rd ds i;
       res \<leftarrow> set_attr res i (d\<lparr>ad_format := int16 format\<rparr>);
       read_formats n (i + 1) res conn
     })"

definition getCopyStart :: "pg_conn \<Rightarrow> ExecStatusType \<Rightarrow> (int \<times> pg_conn) option" where
  "getCopyStart conn copytype = do {
     (res, conn) \<leftarrow> makeEmptyPGresult conn copytype;
     case res of
       None \<Rightarrow> Some (EOF, conn)
     | Some res \<Rightarrow>
         or_eof (pqGetc conn) (\<lambda>conn. Some (EOF, conn)) (\<lambda>c conn.
           let conn = conn\<lparr>copy_is_binary := c\<rparr>; res = res\<lparr>binary := sint c\<rparr> in
           or_eof (pqGetInt 2 conn) (\<lambda>conn. Some (EOF, conn)) (\<lambda>nfields conn. do {
             (ok, res, conn) \<leftarrow> alloc_attrs (res\<lparr>numAttributes := nfields\<rparr>) nfields conn;
             (ok, res, conn) \<leftarrow> (if ok then read_formats (nat nfields) 0 res conn else Some (False, res, conn));
             if ok then Some (0, conn\<lparr>result := Some res\<rparr>) else Some (EOF, conn)
           }))
   }"

definition getReadyForQuery :: "pg_conn \<Rightarrow> (int \<times> pg_conn) option" where
  "getReadyForQuery conn =
     or_eof (pqGetc conn) (\<lambda>conn. Some (EOF, conn)) (\<lambda>xact_status conn.
       Some (0, conn\<lparr>xactStatus :=
         (if xact_status = 0x49 then PQTRANS_IDLE
          else if xact_status = 0x54 then PQTRANS_INTRANS
          else if xact_status = 0x45 then PQTRANS_INERROR
          else PQTRANS_UNKNOWN)\<rparr>))"


section \<open>The parser\<close>

text \<open>\<open>if (conn->result == NULL) conn->result = PQmakeEmptyPGresult(conn, st)\<close>; \<open>False\<close>: it is still \<open>NULL\<close>.\<close>

definition have_result :: "ExecStatusType \<Rightarrow> pg_conn \<Rightarrow> (bool \<times> pg_conn) option" where
  "have_result st conn =
     (if result conn = None then do {
        (r, conn) \<leftarrow> makeEmptyPGresult conn st;
        Some (r \<noteq> None, conn\<lparr>result := r\<rparr>)
      }
      else Some (True, conn))"

text \<open>
  The handlers answer \<open>True\<close> when the message has been consumed and \<open>False\<close> for the early \<open>return\<close>s. \<open>then_status\<close>:
  the new state after a handler that has read its message.
\<close>

definition then_status :: "(int \<times> pg_conn) option \<Rightarrow> PGAsyncStatusType option \<Rightarrow> (bool \<times> pg_conn) option" where
  "then_status m st = do {
     (r, conn) \<leftarrow> m;
     Some (if r \<noteq> 0 then (False, conn)
       else (True, case st of None \<Rightarrow> conn | Some st \<Rightarrow> conn\<lparr>asyncStatus := st\<rparr>))
   }"

definition ready_result :: "ExecStatusType \<Rightarrow> pg_conn \<Rightarrow> (bool \<times> pg_conn) option" where
  "ready_result st conn = do {
     (ok, conn) \<leftarrow> have_result st conn;
     Some (if ok then (True, conn\<lparr>asyncStatus := PGASYNC_READY\<rparr>) else (False, conn))
   }"

definition command_complete :: "pg_conn \<Rightarrow> (bool \<times> pg_conn) option" where
  "command_complete conn = do {
     (r, conn) \<leftarrow> gets_work conn;
     if r \<noteq> 0 then Some (False, conn)
     else do {
       (ok, conn) \<leftarrow> have_result PGRES_COMMAND_OK conn;
       if \<not> ok then Some (False, conn)
       else do {
         tag \<leftarrow> eb_cstr (workBuffer conn);
         res \<leftarrow> result conn;
         Some (True, conn\<lparr>result := Some (res\<lparr>cmdStatus := c_strncpy tag CMDSTATUS_LEN\<rparr>), asyncStatus := PGASYNC_READY\<rparr>)
       }
     }
   }"

definition data_row :: "int \<Rightarrow> pg_conn \<Rightarrow> (bool \<times> pg_conn) option" where
  "data_row msgLength conn =
     (if \<exists>res. result conn = Some res \<and> resultStatus res = PGRES_TUPLES_OK then then_status (getAnotherTuple conn msgLength) None
      else if \<exists>res. result conn = Some res \<and> resultStatus res = PGRES_FATAL_ERROR then
        Some (True, conn\<lparr>inCursor := inCursor conn + msgLength\<rparr>)
      else do {
        conn \<leftarrow> printf_error conn (lit ''server sent data ('' @ [0x22, 0x44, 0x22] @ lit '' message) without prior row description ('' @
          [0x22, 0x54, 0x22] @ lit '' message)'' @ [0x0A]);
        conn \<leftarrow> pqSaveErrorResult conn;
        Some (True, conn\<lparr>inCursor := inCursor conn + msgLength\<rparr>)
      })"

text \<open>The \<open>switch\<close> of the busy state, by the type byte: C E Z I 1 2 3 S K T n t D G H W d c.\<close>

definition busy_message :: "byte \<Rightarrow> int \<Rightarrow> pg_conn \<Rightarrow> (bool \<times> pg_conn) option" where
  "busy_message ident msgLength conn =
     (if ident = 0x43 then command_complete conn
      else if ident = 0x45 then then_status (pqGetErrorNotice3 conn True) (Some PGASYNC_READY)
      else if ident = 0x5A then then_status (getReadyForQuery conn) (Some PGASYNC_IDLE)
      else if ident = 0x49 then ready_result PGRES_EMPTY_QUERY conn
      else if ident = 0x31 then
        (if queryclass conn = PGQUERY_PREPARE then ready_result PGRES_COMMAND_OK conn else Some (True, conn))
      else if ident = 0x32 \<or> ident = 0x33 then Some (True, conn)
      else if ident = 0x53 then then_status (getParameterStatus conn) None
      else if ident = 0x4B then
        or_eof (pqGetInt 4 conn) (\<lambda>conn. Some (False, conn)) (\<lambda>pid conn.
        let conn = conn\<lparr>be_pid := pid\<rparr> in
        or_eof (pqGetInt 4 conn) (\<lambda>conn. Some (False, conn)) (\<lambda>key conn.
          Some (True, conn\<lparr>be_key := key\<rparr>)))
      else if ident = 0x54 then
        (if result conn = None \<or> queryclass conn = PGQUERY_DESCRIBE then
           then_status (getRowDescriptions conn) (if queryclass conn = PGQUERY_DESCRIBE then Some PGASYNC_READY else None)
         else Some (False, conn\<lparr>asyncStatus := PGASYNC_READY\<rparr>))
      else if ident = 0x6E then
        (if queryclass conn = PGQUERY_DESCRIBE then ready_result PGRES_COMMAND_OK conn else Some (True, conn))
      else if ident = 0x74 then then_status (getParamDescriptions conn) None
      else if ident = 0x44 then data_row msgLength conn
      else if ident = 0x47 then then_status (getCopyStart conn PGRES_COPY_IN) (Some PGASYNC_COPY_IN)
      else if ident = 0x48 then do {
        (ok, conn) \<leftarrow> then_status (getCopyStart conn PGRES_COPY_OUT) (Some PGASYNC_COPY_OUT);
        Some (ok, if ok then conn\<lparr>copy_already_done := 0\<rparr> else conn)
      }
      else if ident = 0x57 then do {
        (ok, conn) \<leftarrow> then_status (getCopyStart conn PGRES_COPY_BOTH) (Some PGASYNC_COPY_BOTH);
        Some (ok, if ok then conn\<lparr>copy_already_done := 0\<rparr> else conn)
      }
      else if ident = 0x64 then Some (True, conn\<lparr>inCursor := inCursor conn + msgLength\<rparr>)
      else if ident = 0x63 then Some (True, conn)
      else do {
        conn \<leftarrow> printf_error conn (lit ''unexpected response from server; first received character was '' @
          [0x22, ident, 0x22, 0x0A]);
        conn \<leftarrow> pqSaveErrorResult conn;
        Some (True, conn\<lparr>asyncStatus := PGASYNC_READY, inCursor := inCursor conn + msgLength\<rparr>)
      })"

definition idle_message :: "byte \<Rightarrow> int \<Rightarrow> pg_conn \<Rightarrow> (bool \<times> pg_conn) option" where
  "idle_message ident msgLength conn =
     (if ident = 0x45 then then_status (pqGetErrorNotice3 conn False) None
      else if ident = 0x53 then then_status (getParameterStatus conn) None
      else do {
        conn \<leftarrow> pqInternalNotice conn (lit ''message type 0x'' @ hex_char ident @ lit '' arrived from server while idle'');
        Some (True, conn\<lparr>inCursor := inCursor conn + msgLength\<rparr>)
      })"

definition handle_message :: "byte \<Rightarrow> int \<Rightarrow> pg_conn \<Rightarrow> (bool \<times> pg_conn) option" where
  "handle_message ident msgLength conn =
     (if ident = 0x41 then then_status (getNotify conn) None
      else if ident = 0x4E then then_status (pqGetErrorNotice3 conn False) None
      else if asyncStatus conn \<noteq> PGASYNC_BUSY then
        (if asyncStatus conn \<noteq> PGASYNC_IDLE then Some (False, conn) else idle_message ident msgLength conn)
      else busy_message ident msgLength conn)"

text \<open>The end of the loop body: the message has been consumed; its length word decides where the next one starts.\<close>

definition end_message :: "byte \<Rightarrow> int \<Rightarrow> pg_conn \<Rightarrow> pg_conn option" where
  "end_message ident msgLength conn =
     (if inCursor conn = inStart conn + 5 + msgLength then Some (conn\<lparr>inStart := inCursor conn\<rparr>)
      else do {
        conn \<leftarrow> printf_error conn (lit ''message contents do not agree with length in message type '' @ [0x22, ident, 0x22, 0x0A]);
        conn \<leftarrow> pqSaveErrorResult conn;
        Some (conn\<lparr>asyncStatus := PGASYNC_READY, inStart := inStart conn + 5 + msgLength\<rparr>)
      })"

text \<open>One turn of the loop; \<open>False\<close> is a \<open>return\<close>.\<close>

definition parse_step :: "pg_conn \<Rightarrow> (bool \<times> pg_conn) option" where
  "parse_step conn =
     or_eof (pqGetc (conn\<lparr>inCursor := inStart conn\<rparr>)) (\<lambda>conn. Some (False, conn)) (\<lambda>ident conn.
     or_eof (pqGetInt 4 conn) (\<lambda>conn. Some (False, conn)) (\<lambda>msgLength conn.
       if msgLength < 4 \<or> msgLength > 30000 \<and> \<not> VALID_LONG_MESSAGE_TYPE ident then do {
         conn \<leftarrow> handleSyncLoss conn ident msgLength;
         Some (False, conn)
       }
       else let msgLength = msgLength - 4 in
         if inEnd conn - inCursor conn < msgLength then do {
           (r, conn) \<leftarrow> pqCheckInBufferSpace (szadd (nat (inCursor conn)) (nat msgLength)) conn;
           if r \<noteq> 0 then do { conn \<leftarrow> handleSyncLoss conn ident msgLength; Some (False, conn) }
           else Some (False, conn)
         }
         else do {
           (ok, conn) \<leftarrow> handle_message ident msgLength conn;
           if ok then do { conn \<leftarrow> end_message ident msgLength conn; Some (True, conn) }
           else Some (False, conn)
         }))"

partial_function (option) pqParseInput3 :: "pg_conn \<Rightarrow> pg_conn option" where
  "pqParseInput3 conn =
     Option.bind (parse_step conn) (\<lambda>(go, conn). if go then pqParseInput3 conn else Some conn)"

end
