(* ===== verification/ParseSpecs.thy ===== *)
theory ParseSpecs
  imports Protocol3
begin

text \<open>
  What every subroutine of the parser does on every input: the invariant of results and of the row under
  construction, and that it is kept. Nothing is assumed of the bytes the server sends.
\<close>

section \<open>Results\<close>

definition str_ok :: "byte list \<Rightarrow> bool" where
  "str_ok s \<longleftrightarrow> 0 \<notin> set s \<and> length s < 2147483647"

definition attrs :: "pg_result \<Rightarrow> PGresAttDesc list" where
  "attrs r = (case attDescs r of None \<Rightarrow> [] | Some ds \<Rightarrow> ds)"

definition attrs_ok :: "pg_result \<Rightarrow> bool" where
  "attrs_ok r \<longleftrightarrow> numAttributes r = int (length (attrs r))"

text \<open>A value and its terminator, or the null field.\<close>

definition value_ok :: "PGresAttValue \<Rightarrow> bool" where
  "value_ok v \<longleftrightarrow> (\<exists>b. av_value v = Some (b @ [0]) \<and> (av_len v = int (length b) \<or> av_len v = NULL_LEN \<and> b = []))"

text \<open>The array of rows has 128 elements doubled a number of times, so its size in bytes fits in 32 bits.\<close>

definition rows_ok :: "pg_result \<Rightarrow> bool" where
  "rows_ok r \<longleftrightarrow> ntups r = int (length (tuples r)) \<and> ntups r \<le> tupArrSize r \<and>
     (tupArrSize r = 0 \<or> (\<exists>k \<le> 22. tupArrSize r = 128 * 2 ^ k)) \<and>
     (\<forall>t \<in> set (tuples r). int (length t) = numAttributes r \<and> (\<forall>v \<in> set t. value_ok v))"

definition result_ok :: "pg_result \<Rightarrow> bool" where
  "result_ok r \<longleftrightarrow> res_ok r \<and> 0 \<le> numAttributes r \<and> numAttributes r < 65536 \<and>
     (resultStatus r = PGRES_TUPLES_OK \<longrightarrow> attrs_ok r) \<and> (resultStatus r \<noteq> PGRES_TUPLES_OK \<longrightarrow> tuples r = []) \<and> rows_ok r \<and>
     (\<forall>m. errMsg r = Some m \<longrightarrow> str_ok m) \<and> (\<forall>(c, v) \<in> set (errFields r). str_ok v)"

lemma res_ok_empty [simp]: "res_ok (empty_result h e s)"
  using arena_empty by (auto simp: res_ok_def)

lemma rows_ok_empty [simp]: "rows_ok (empty_result h e s)"
  by (simp add: rows_ok_def empty_result_def)

lemma attrs_ok_update [simp]:
  "attrs_ok (r\<lparr>ntups := a\<rparr>) = attrs_ok r" "attrs_ok (r\<lparr>tuples := d\<rparr>) = attrs_ok r" "attrs_ok (r\<lparr>tupArrSize := e\<rparr>) = attrs_ok r"
  "attrs_ok (r\<lparr>resultStatus := h\<rparr>) = attrs_ok r" "attrs_ok (r\<lparr>cmdStatus := i\<rparr>) = attrs_ok r" "attrs_ok (r\<lparr>binary := j\<rparr>) = attrs_ok r"
  "attrs_ok (r\<lparr>errMsg := k\<rparr>) = attrs_ok r" "attrs_ok (r\<lparr>errFields := l\<rparr>) = attrs_ok r"
  by (simp_all add: attrs_ok_def attrs_def)

lemma rows_ok_update [simp]:
  "rows_ok (r\<lparr>attDescs := c\<rparr>) = rows_ok r" "rows_ok (r\<lparr>numParameters := f\<rparr>) = rows_ok r" "rows_ok (r\<lparr>paramDescs := g\<rparr>) = rows_ok r"
  "rows_ok (r\<lparr>resultStatus := h\<rparr>) = rows_ok r" "rows_ok (r\<lparr>cmdStatus := i\<rparr>) = rows_ok r" "rows_ok (r\<lparr>binary := j\<rparr>) = rows_ok r"
  "rows_ok (r\<lparr>errMsg := k\<rparr>) = rows_ok r" "rows_ok (r\<lparr>errFields := l\<rparr>) = rows_ok r"
  by (simp_all add: rows_ok_def)

lemma rows_ok_none: "tuples r = [] \<Longrightarrow> rows_ok (r\<lparr>numAttributes := n\<rparr>) = rows_ok r"
  by (simp add: rows_ok_def)

lemma result_ok_empty [simp]: "result_ok (empty_result h e s)"
  by (simp add: result_ok_def attrs_ok_def attrs_def) (simp add: empty_result_def)

lemma only_space_fields:
  assumes "only_space_changed r r'"
  shows "ntups r' = ntups r" "numAttributes r' = numAttributes r" "attDescs r' = attDescs r" "tuples r' = tuples r"
    "tupArrSize r' = tupArrSize r" "numParameters r' = numParameters r" "paramDescs r' = paramDescs r"
    "resultStatus r' = resultStatus r" "cmdStatus r' = cmdStatus r" "binary r' = binary r" "res_noticeRec r' = res_noticeRec r"
    "res_client_encoding r' = res_client_encoding r" "errMsg r' = errMsg r" "errFields r' = errFields r"
  using assms unfolding only_space_changed_def by (cases r; cases r'; simp)+

lemma result_ok_space: "result_ok r \<Longrightarrow> res_ok r' \<Longrightarrow> only_space_changed r r' \<Longrightarrow> result_ok r'"
  unfolding result_ok_def rows_ok_def attrs_ok_def attrs_def by (simp add: only_space_fields)

lemma res_ok_update [simp]:
  "res_ok (r\<lparr>ntups := a\<rparr>) = res_ok r" "res_ok (r\<lparr>numAttributes := b\<rparr>) = res_ok r" "res_ok (r\<lparr>attDescs := c\<rparr>) = res_ok r"
  "res_ok (r\<lparr>tuples := d\<rparr>) = res_ok r" "res_ok (r\<lparr>tupArrSize := e\<rparr>) = res_ok r" "res_ok (r\<lparr>numParameters := f\<rparr>) = res_ok r"
  "res_ok (r\<lparr>paramDescs := g\<rparr>) = res_ok r" "res_ok (r\<lparr>resultStatus := h\<rparr>) = res_ok r" "res_ok (r\<lparr>cmdStatus := i\<rparr>) = res_ok r"
  "res_ok (r\<lparr>binary := j\<rparr>) = res_ok r" "res_ok (r\<lparr>errMsg := k\<rparr>) = res_ok r" "res_ok (r\<lparr>errFields := l\<rparr>) = res_ok r"
  by (rule res_ok_cong; simp)+


section \<open>Strings\<close>

lemma eb_cstr_spec:
  assumes "valid_expbuf b"
  obtains s where "eb_cstr b = Some s" "str_ok s" "s = c_str (eb_contents b)"
proof (cases "eb_data b")
  case None
  then show ?thesis using that [of "[]"] by (simp add: eb_cstr_def eb_contents_def str_ok_def)
next
  case (Some d)
  with assms have d: "length d = eb_maxlen b" "eb_len b < eb_maxlen b" "eb_maxlen b \<le> SZ_INT_MAX" "d ! eb_len b = 0"
    by (simp_all add: valid_expbuf_def)
  have split: "d = take (eb_len b) d @ 0 # drop (Suc (eb_len b)) d" using d by (metis id_take_nth_drop)
  have "0 \<in> set d" by (subst split) simp
  moreover have c: "c_str d = c_str (take (eb_len b) d)" by (subst split) (simp add: c_str_def takeWhile_tail)
  have "length (c_str d) < 2147483647" unfolding c using length_c_str [of "take (eb_len b) d"] d by (simp add: SZ_INT_MAX_def)
  then have "str_ok (c_str d)" using c_str_no_nul by (simp add: str_ok_def)
  ultimately show ?thesis using Some c that by (simp add: eb_cstr_def eb_contents_def)
qed

lemma str_ok_size: "str_ok s \<Longrightarrow> 0 < szadd (length s) 1 \<and> szadd (length s) 1 < 4294967288"
  by (simp add: str_ok_def szadd_def)

lemma pqResultStrdup_spec:
  assumes "result_ok r" "str_ok s"
  obtains m r' a' where "pqResultStrdup a r s = Some (m, r', a')" "result_ok r'" "only_space_changed r r'"
    "m = Some s \<or> m = None \<and> \<not> next_ok a"
proof -
  have ok: "res_ok r" using assms(1) by (simp add: result_ok_def)
  obtain sp r' a' where "pqResultAlloc a r (szadd (length s) 1) False = Some (sp, r', a')" "res_ok r'" "only_space_changed r r'"
    "sp = None \<longrightarrow> \<not> next_ok a"
    by (rule resOk_alloc [OF ok]) (use str_ok_size [OF assms(2)] in auto)
  then show ?thesis using that assms(1)
    by (cases sp) (auto simp: pqResultStrdup_def intro: result_ok_space)
qed

lemma pqSetResultError_spec:
  assumes "result_ok r" "str_ok s"
  obtains r' a' where "pqSetResultError a r (Some s) = Some (r', a')" "result_ok r'" "resultStatus r' = resultStatus r"
proof (cases s)
  case Nil
  then show ?thesis using assms that [of "r\<lparr>errMsg := None\<rparr>" a]
    by (simp add: pqSetResultError_def result_ok_def)
next
  case (Cons b s')
  obtain m r' a' where r: "pqResultStrdup a r s = Some (m, r', a')" "result_ok r'" "only_space_changed r r'"
    "m = Some s \<or> m = None \<and> \<not> next_ok a"
    by (rule pqResultStrdup_spec [OF assms])
  then have "result_ok (r'\<lparr>errMsg := m\<rparr>)"
    using assms(2) by (auto simp: result_ok_def)
  then show ?thesis using r(1,3) Cons that by (simp add: pqSetResultError_def only_space_fields)
qed

lemma pqCatenateResultError_spec:
  assumes "result_ok r" "str_ok s"
  obtains r' a' where "pqCatenateResultError a r s = Some (r', a')" "result_ok r'" "resultStatus r' = resultStatus r"
proof -
  obtain b a1 where 1: "initPQExpBuffer a = Some (b, a1)" "valid_expbuf b"
    using initPQExpBuffer_spec [of a] by blast
  have "\<exists>b2 a2. (case errMsg r of Some m \<Rightarrow> appendPQExpBufferStr a1 b (m @ [0]) | None \<Rightarrow> Some (b, a1)) = Some (b2, a2) \<and> valid_expbuf b2"
  proof (cases "errMsg r")
    case (Some m)
    then have "str_ok m" using assms(1) by (simp add: result_ok_def)
    then have "0 \<in> set (m @ [0])" "length (m @ [0]) < 2 ^ 32" by (simp_all add: str_ok_def)
    from appendPQExpBufferStr_spec [OF 1(2) this, of a1] show ?thesis using Some by (auto dest: appended_valid)
  qed (use 1 in simp)
  then obtain b2 a2 where 2: "(case errMsg r of Some m \<Rightarrow> appendPQExpBufferStr a1 b (m @ [0]) | None \<Rightarrow> Some (b, a1)) = Some (b2, a2)"
    "valid_expbuf b2" by blast
  have "0 \<in> set (s @ [0])" "length (s @ [0]) < 2 ^ 32" using assms(2) by (simp_all add: str_ok_def)
  from appendPQExpBufferStr_spec [OF 2(2) this, of a2] obtain b3 a3 where
    3: "appendPQExpBufferStr a2 b2 (s @ [0]) = Some (b3, a3)" "valid_expbuf b3" by (auto dest: appended_valid)
  obtain t where t: "eb_cstr b3 = Some t" "str_ok t" by (rule eb_cstr_spec [OF 3(2)])
  obtain r' a' where "pqSetResultError a3 r (Some t) = Some (r', a')" "result_ok r'" "resultStatus r' = resultStatus r"
    by (rule pqSetResultError_spec [OF assms(1) t(2)])
  then show ?thesis using that 1(1) 2(1) 3(1) t(1) by (simp add: pqCatenateResultError_def)
qed

text \<open>A new result: empty, but for the error message of an error result.\<close>

lemma makeEmptyPGresult_spec:
  assumes "conn_ok c"
  obtains r a' where "makeEmptyPGresult c st = Some (r, set_alloc a' c)" "r = None \<longrightarrow> \<not> next_ok (e_alloc (env c))"
    "\<And>x. r = Some x \<Longrightarrow> result_ok x \<and> resultStatus x = st \<and> ntups x = 0"
    "\<not> is_error_status st \<Longrightarrow> r = None \<or> r = Some (empty_result (noticeRec c) (client_encoding c) st)"
proof (cases "next_ok (e_alloc (env c))")
  case False
  then show ?thesis using that [of None "after_alloc (e_alloc (env c))"]
    by (simp add: makeEmptyPGresult_def PQmakeEmptyPGresult_def)
next
  case True
  let ?e = "empty_result (noticeRec c) (client_encoding c) st"
  have st: "resultStatus ?e = st" "ntups ?e = 0" by (simp_all add: empty_result_def)
  show ?thesis
  proof (cases "is_error_status st")
    case False
    then show ?thesis using True that [of "Some ?e" "after_alloc (e_alloc (env c))"] st
      by (simp add: makeEmptyPGresult_def PQmakeEmptyPGresult_def Let_def)
  next
    case err: True
    have "valid_expbuf (errorMessage c)" using assms by (simp add: conn_ok_def)
    then obtain s where s: "eb_cstr (errorMessage c) = Some s" "str_ok s" by (rule eb_cstr_spec)
    obtain r' a' where r: "pqSetResultError (after_alloc (e_alloc (env c))) ?e (Some s) = Some (r', a')" "result_ok r'"
      "resultStatus r' = resultStatus ?e"
      by (rule pqSetResultError_spec [OF result_ok_empty s(2)])
    have "ntups r' = 0"
      using r(2,3) err st by (auto simp: result_ok_def rows_ok_def is_error_status_def)
    then show ?thesis using True err r s(1) st that [of "Some r'" a']
      by (simp add: makeEmptyPGresult_def PQmakeEmptyPGresult_def Let_def)
  qed
qed


section \<open>What parsing may change\<close>

text \<open>Everything but the buffers, the socket, and the settings and the query of the client.\<close>

definition same_events :: "env \<Rightarrow> env \<Rightarrow> bool" where
  "same_events e e' \<longleftrightarrow> same_io e e' \<and> e_poll e' = e_poll e"

lemma same_events_trans: "same_events a b \<Longrightarrow> same_events b c \<Longrightarrow> same_events a c"
  by (simp add: same_events_def same_io_def)

lemma same_net_events: "same_net e e' \<Longrightarrow> same_events e e'"
  unfolding same_events_def same_io_def same_net_def by (cases e; cases e') simp

definition parse_frame :: "pg_conn \<Rightarrow> pg_conn \<Rightarrow> bool" where
  "parse_frame c c' \<longleftrightarrow> same_events (env c) (env c') \<and>
     c'\<lparr>inCursor := inCursor c, asyncStatus := asyncStatus c, xactStatus := xactStatus c, last_sqlstate := last_sqlstate c,
       copy_is_binary := copy_is_binary c, copy_already_done := copy_already_done c, notifies := notifies c,
       sversion := sversion c, be_pid := be_pid c, be_key := be_key c, pstatus := pstatus c,
       client_encoding := client_encoding c, std_strings := std_strings c, result := result c, curTuple := curTuple c,
       errorMessage := errorMessage c, workBuffer := workBuffer c, env := env c\<rparr> = c"

lemma parse_frame_fields:
  assumes "parse_frame c c'"
  shows "inBuffer c' = inBuffer c" "inBufSize c' = inBufSize c" "inStart c' = inStart c" "inEnd c' = inEnd c"
    "outBuffer c' = outBuffer c" "outBufSize c' = outBufSize c" "outCount c' = outCount c" "outMsgStart c' = outMsgStart c"
    "outMsgEnd c' = outMsgEnd c" "sock c' = sock c" "status c' = status c" "queryclass c' = queryclass c"
    "verbosity c' = verbosity c" "last_query c' = last_query c" "nonblocking c' = nonblocking c" "pversion c' = pversion c"
    "noticeRec c' = noticeRec c" "e_recv (env c') = e_recv (env c)" "e_sent (env c') = e_sent (env c)" "e_send (env c') = e_send (env c)" "e_poll (env c') = e_poll (env c)"
  using assms unfolding parse_frame_def same_events_def same_io_def by (cases c; cases c'; simp)+

lemma parse_frame_refl [simp]: "parse_frame c c"
  by (simp add: parse_frame_def same_events_def same_io_def)

lemma parse_frame_trans: "parse_frame a b \<Longrightarrow> parse_frame b c \<Longrightarrow> parse_frame a c"
  unfolding parse_frame_def same_events_def same_io_def by (cases a; cases b; cases c) simp

lemma only_env_parse: "only_env c c' \<Longrightarrow> same_events (env c) (env c') \<Longrightarrow> parse_frame c c'"
  unfolding parse_frame_def only_env_def by (cases c; cases c') simp

lemma parse_frame_update [simp]:
  "parse_frame c (c'\<lparr>inCursor := a\<rparr>) = parse_frame c c'" "parse_frame c (c'\<lparr>asyncStatus := b\<rparr>) = parse_frame c c'"
  "parse_frame c (c'\<lparr>xactStatus := d\<rparr>) = parse_frame c c'" "parse_frame c (c'\<lparr>last_sqlstate := e\<rparr>) = parse_frame c c'"
  "parse_frame c (c'\<lparr>copy_is_binary := f\<rparr>) = parse_frame c c'" "parse_frame c (c'\<lparr>copy_already_done := g\<rparr>) = parse_frame c c'"
  "parse_frame c (c'\<lparr>notifies := h\<rparr>) = parse_frame c c'" "parse_frame c (c'\<lparr>be_pid := i\<rparr>) = parse_frame c c'"
  "parse_frame c (c'\<lparr>be_key := j\<rparr>) = parse_frame c c'" "parse_frame c (c'\<lparr>result := k\<rparr>) = parse_frame c c'"
  "parse_frame c (c'\<lparr>curTuple := l\<rparr>) = parse_frame c c'" "parse_frame c (c'\<lparr>workBuffer := m\<rparr>) = parse_frame c c'"
  "parse_frame c (c'\<lparr>errorMessage := n\<rparr>) = parse_frame c c'" "parse_frame c (set_alloc q c') = parse_frame c c'"
  by (auto simp: parse_frame_def same_events_def same_io_def set_alloc_def)

text \<open>\<open>moved\<close>: a step of the parser, forward in the input.\<close>

definition state_ok :: "pg_conn \<Rightarrow> bool" where
  "state_ok c \<longleftrightarrow> conn_ok c \<and> PG_VALID_ENCODING (client_encoding c)"

definition moved :: "pg_conn \<Rightarrow> pg_conn \<Rightarrow> bool" where
  "moved c c' \<longleftrightarrow> parse_frame c c' \<and> state_ok c' \<and> inCursor c \<le> inCursor c'"

lemma moved_refl [simp]: "moved c c = state_ok c"
  by (simp add: moved_def)

lemma moved_trans: "moved a b \<Longrightarrow> moved b c \<Longrightarrow> moved a c"
  by (auto simp: moved_def intro: parse_frame_trans)

lemma moved_ok: "moved c c' \<Longrightarrow> state_ok c'"
  by (simp add: moved_def)

lemma conn_ok_update [simp]:
  "conn_ok (c\<lparr>asyncStatus := b\<rparr>) = conn_ok c" "conn_ok (c\<lparr>xactStatus := d\<rparr>) = conn_ok c"
  "conn_ok (c\<lparr>last_sqlstate := e\<rparr>) = conn_ok c" "conn_ok (c\<lparr>copy_is_binary := f\<rparr>) = conn_ok c"
  "conn_ok (c\<lparr>copy_already_done := g\<rparr>) = conn_ok c" "conn_ok (c\<lparr>notifies := h\<rparr>) = conn_ok c"
  "conn_ok (c\<lparr>be_pid := i\<rparr>) = conn_ok c" "conn_ok (c\<lparr>be_key := j\<rparr>) = conn_ok c" "conn_ok (c\<lparr>result := k\<rparr>) = conn_ok c"
  "conn_ok (c\<lparr>curTuple := l\<rparr>) = conn_ok c" "conn_ok (c\<lparr>pstatus := n\<rparr>) = conn_ok c"
  "conn_ok (c\<lparr>client_encoding := o1\<rparr>) = conn_ok c" "conn_ok (c\<lparr>std_strings := p1\<rparr>) = conn_ok c" "conn_ok (c\<lparr>sversion := q1\<rparr>) = conn_ok c"
  by (simp_all add: conn_ok_def in_ok_def out_ok_def)

lemma state_ok_update [simp]:
  "state_ok (c\<lparr>asyncStatus := b\<rparr>) = state_ok c" "state_ok (c\<lparr>xactStatus := d\<rparr>) = state_ok c"
  "state_ok (c\<lparr>last_sqlstate := e\<rparr>) = state_ok c" "state_ok (c\<lparr>copy_is_binary := f\<rparr>) = state_ok c"
  "state_ok (c\<lparr>copy_already_done := g\<rparr>) = state_ok c" "state_ok (c\<lparr>notifies := h\<rparr>) = state_ok c"
  "state_ok (c\<lparr>be_pid := i\<rparr>) = state_ok c" "state_ok (c\<lparr>be_key := j\<rparr>) = state_ok c" "state_ok (c\<lparr>result := k\<rparr>) = state_ok c"
  "state_ok (c\<lparr>curTuple := l\<rparr>) = state_ok c" "state_ok (set_alloc a c) = state_ok c" "state_ok (c\<lparr>env := e1\<rparr>) = state_ok c"
  by (simp_all add: state_ok_def) (simp add: set_alloc_def)

lemma moved_update [simp]:
  "moved c (c'\<lparr>asyncStatus := b\<rparr>) = moved c c'" "moved c (c'\<lparr>xactStatus := d\<rparr>) = moved c c'"
  "moved c (c'\<lparr>last_sqlstate := e\<rparr>) = moved c c'" "moved c (c'\<lparr>copy_is_binary := f\<rparr>) = moved c c'"
  "moved c (c'\<lparr>copy_already_done := g\<rparr>) = moved c c'" "moved c (c'\<lparr>notifies := h\<rparr>) = moved c c'"
  "moved c (c'\<lparr>be_pid := i\<rparr>) = moved c c'" "moved c (c'\<lparr>be_key := j\<rparr>) = moved c c'" "moved c (c'\<lparr>result := k\<rparr>) = moved c c'"
  "moved c (c'\<lparr>curTuple := l\<rparr>) = moved c c'" "moved c (set_alloc a c') = moved c c'"
  by (auto simp: moved_def) (simp_all add: set_alloc_def)


section \<open>Enough memory\<close>

text \<open>Every call of the allocator from here on succeeds.\<close>

definition plenty :: "alloc \<Rightarrow> bool" where
  "plenty a \<longleftrightarrow> oks a = []"

lemma plenty_next [simp]: "plenty a \<Longrightarrow> next_ok a" "plenty a \<Longrightarrow> after_alloc a = a"
  by (simp_all add: plenty_def next_ok_def after_alloc_def)

lemma pqResultAlloc_plenty:
  "pqResultAlloc a r n bin = Some (sp, r', a') \<Longrightarrow> plenty a \<Longrightarrow> a' = a \<and> sp \<noteq> None"
  by (auto simp: pqResultAlloc_def Let_def split: if_splits list.splits prod.splits)

lemma pqResultStrdup_plenty:
  "pqResultStrdup a r s = Some (m, r', a') \<Longrightarrow> plenty a \<Longrightarrow> a' = a \<and> m = Some s"
  by (auto simp: pqResultStrdup_def bind_Some_iff dest: pqResultAlloc_plenty)

lemma initPQExpBuffer_plenty:
  assumes "plenty a"
  shows "\<exists>b. initPQExpBuffer a = Some (b, a) \<and> valid_expbuf b \<and> \<not> PQExpBufferBroken b \<and> eb_contents b = []"
proof -
  obtain b a' where b: "initPQExpBuffer a = Some (b, a')" "valid_expbuf b" "eb_contents b = []" "PQExpBufferBroken b \<longleftrightarrow> \<not> next_ok a"
    using initPQExpBuffer_spec [of a] by blast
  moreover have "a' = a" using b(1) assms by (auto simp: initPQExpBuffer_def c_malloc_def bind_Some_iff)
  ultimately show ?thesis using assms by simp
qed

lemma resetPQExpBuffer_plenty:
  assumes "valid_expbuf b" "plenty a"
  shows "\<exists>b'. resetPQExpBuffer a b = Some (b', a) \<and> valid_expbuf b' \<and> \<not> PQExpBufferBroken b' \<and> eb_contents b' = []"
proof -
  obtain b' a' where r: "resetPQExpBuffer a b = Some (b', a')" "valid_expbuf b'" "eb_contents b' = []"
    "PQExpBufferBroken b' \<longrightarrow> PQExpBufferBroken b \<and> \<not> next_ok a"
    using resetPQExpBuffer_spec [OF assms(1), of a] by blast
  moreover have "a' = a"
    using r(1) initPQExpBuffer_plenty [OF assms(2)] by (auto simp: resetPQExpBuffer_def bind_Some_iff split: option.splits)
  ultimately show ?thesis using assms by simp
qed

lemma enlargePQExpBuffer_plenty:
  assumes "alive_expbuf b" "plenty a" "eb_len b + n + 1 < 2 ^ 31"
  shows "\<exists>b'. enlargePQExpBuffer a b n = Some (True, b', a)"
proof -
  obtain d where d: "eb_data b = Some d" "length d = eb_maxlen b" "eb_len b < eb_maxlen b" "eb_maxlen b \<le> SZ_INT_MAX" "\<not> PQExpBufferBroken b"
    by (rule alive_expbufE [OF assms(1)])
  have n: "n < 2 ^ 32" using assms(3) by simp
  obtain ok b' a' where e: "enlargePQExpBuffer a b n = Some (ok, b', a')"
    using enlargePQExpBuffer_spec [OF assms(1) n, of a] by blast
  have "\<not> n \<ge> szsub SZ_INT_MAX (eb_len b)"
    using assms(3) d(3,4) by (simp add: szsub_id SZ_INT_MAX_def)
  then have "ok \<and> a' = a"
    using e d(5) assms(2) by (auto simp: enlargePQExpBuffer_def Let_def bind_Some_iff c_realloc_def split: if_splits)
  then show ?thesis using e by simp
qed

lemma appendBinary_plenty:
  assumes "valid_expbuf b" "\<not> PQExpBufferBroken b" "plenty a" "eb_len b + length bs + 1 < 2 ^ 31"
  shows "\<exists>b'. appendBinaryPQExpBuffer a b bs = Some (b', a) \<and> \<not> PQExpBufferBroken b' \<and> appended b bs b'"
proof -
  have n: "length bs < 2 ^ 32" using assms(4) by simp
  obtain b' a' where a: "appendBinaryPQExpBuffer a b bs = Some (b', a')" "appended b bs b'"
    using appendBinaryPQExpBuffer_spec [OF assms(1) n, of a] by blast
  obtain b1 where e: "enlargePQExpBuffer a b (length bs) = Some (True, b1, a)"
    using enlargePQExpBuffer_plenty [OF valid_expbuf_alive [OF assms(1,2)] assms(3,4)] by blast
  have "enlarged b (length bs) True b1"
    using enlargePQExpBuffer_spec [OF valid_expbuf_alive [OF assms(1,2)] n, of a] e by auto
  then have "\<not> PQExpBufferBroken b1" by (rule enlarged_okE)
  then have "a' = a \<and> \<not> PQExpBufferBroken b'"
    using a(1) e by (auto simp: appendBinaryPQExpBuffer_def bind_Some_iff PQExpBufferBroken_def Let_def)
  then show ?thesis using a by simp
qed


section \<open>Reads\<close>

definition skip :: "nat \<Rightarrow> pg_conn \<Rightarrow> pg_conn" where
  "skip k c = c\<lparr>inCursor := inCursor c + int k\<rparr>"

lemma skip_fields [simp]:
  "env (skip k c) = env c" "result (skip k c) = result c" "curTuple (skip k c) = curTuple c" "asyncStatus (skip k c) = asyncStatus c"
  "workBuffer (skip k c) = workBuffer c" "inStart (skip k c) = inStart c" "inEnd (skip k c) = inEnd c"
  "queryclass (skip k c) = queryclass c" "client_encoding (skip k c) = client_encoding c" "inCursor (skip k c) = inCursor c + int k"
  "errorMessage (skip k c) = errorMessage c" "inBuffer (skip k c) = inBuffer c" "noticeRec (skip k c) = noticeRec c"
  "verbosity (skip k c) = verbosity c" "last_query (skip k c) = last_query c"
  by (simp_all add: skip_def)

lemma advanced_skip:
  assumes "advanced c k c'" "env c' = env c" "errorMessage c' = errorMessage c"
  shows "c' = skip k c"
proof -
  have "c'\<lparr>env := env (skip k c), errorMessage := errorMessage (skip k c)\<rparr> = skip k c"
    using assms(1) by (simp add: advanced_def only_env_def skip_def)
  moreover have "c'\<lparr>env := env (skip k c), errorMessage := errorMessage (skip k c)\<rparr> = c'"
    using assms(2,3) by (simp add: skip_def)
  ultimately show ?thesis by simp
qed

lemma skip_moved:
  assumes "state_ok c" "k \<le> length (unread c)"
  shows "moved c (skip k c)" "unread (skip k c) = drop k (unread c)"
proof -
  have c: "conn_ok c" using assms(1) by (simp add: state_ok_def)
  have "int k \<le> inEnd c - inCursor c" using assms(2) c unread_length [of c] by (auto simp: conn_ok_def in_ok_def)
  then have "conn_ok (skip k c)" unfolding skip_def by (intro conn_ok_cursor [OF c]) auto
  then show "moved c (skip k c)" using assms(1) by (simp add: moved_def state_ok_def) (simp add: skip_def)
  have "advanced c k (skip k c)" using assms(2) by (simp add: advanced_def skip_def)
  then show "unread (skip k c) = drop k (unread c)" using c by (intro advanced_unread) (simp_all add: conn_ok_def)
qed

lemma pqGetc_cases:
  assumes "state_ok c"
  obtains (none) "unread c = []" "pqGetc c = Some (None, c)"
    | (byte) b where "unread c = b # unread (skip 1 c)" "pqGetc c = Some (Some b, skip 1 c)" "moved c (skip 1 c)"
proof (cases "unread c")
  case Nil
  then show ?thesis using none pqGetc_spec [of c] assms by (simp add: state_ok_def)
next
  case (Cons b r)
  then have "inCursor c < inEnd c" using unread_length [of c] assms by (auto simp: state_ok_def conn_ok_def)
  moreover obtain c' where "pqGetc c = Some (Some b, c')" "conn_ok c'" "advanced c 1 c'"
    using pqGetc_spec [of c] assms Cons by (auto simp: state_ok_def)
  moreover from this have "env c' = env c" "errorMessage c' = errorMessage c"
    by (auto simp: pqGetc_def bind_Some_iff split: if_splits)
  ultimately have "pqGetc c = Some (Some b, skip 1 c)" using advanced_skip by blast
  then show ?thesis using byte skip_moved [OF assms, of 1] Cons by simp
qed

lemma pqGetInt_cases:
  assumes "state_ok c" "n = 2 \<or> n = 4"
  obtains (none) "length (unread c) < n" "pqGetInt n c = Some (None, c)"
    | (int) "n \<le> length (unread c)" "pqGetInt n c = Some (Some (net_int (take n (unread c))), skip n c)"
      "moved c (skip n c)" "unread (skip n c) = drop n (unread c)"
proof (cases "n \<le> length (unread c)")
  case True
  obtain c' where "pqGetInt n c = Some (Some (net_int (take n (unread c))), c')" "advanced c n c'" "env c' = env c"
    "errorMessage c' = errorMessage c"
    using pqGetInt_spec [of c n] assms True by (auto simp: state_ok_def)
  then show ?thesis using int True skip_moved [OF assms(1) True] advanced_skip by blast
next
  case False
  then show ?thesis using none pqGetInt_spec [of c n] assms by (auto simp: state_ok_def)
qed

lemma pqGetnchar_cases:
  assumes "state_ok c"
  obtains (none) "length (unread c) < n" "pqGetnchar n c = Some (None, c)"
    | (bytes) "n \<le> length (unread c)" "pqGetnchar n c = Some (Some (take n (unread c)), skip n c)"
      "moved c (skip n c)" "unread (skip n c) = drop n (unread c)"
proof (cases "n \<le> length (unread c)")
  case True
  obtain c' where "pqGetnchar n c = Some (Some (take n (unread c)), c')" "advanced c n c'" "env c' = env c"
    "errorMessage c' = errorMessage c"
    using pqGetnchar_spec [of c n] assms True by (auto simp: state_ok_def)
  then show ?thesis using bytes True skip_moved [OF assms(1) True] advanced_skip by blast
next
  case False
  then show ?thesis using none pqGetnchar_spec [of c n] assms by (auto simp: state_ok_def)
qed


lemma unread_update [simp]:
  "unread (set_alloc a c) = unread c" "unread (c\<lparr>asyncStatus := b\<rparr>) = unread c" "unread (c\<lparr>workBuffer := d\<rparr>) = unread c"
  "unread (c\<lparr>result := e\<rparr>) = unread c" "unread (c\<lparr>curTuple := f\<rparr>) = unread c" "unread (c\<lparr>copy_is_binary := g\<rparr>) = unread c"
  "unread (c\<lparr>be_pid := h\<rparr>) = unread c" "unread (c\<lparr>last_sqlstate := i\<rparr>) = unread c" "unread (c\<lparr>errorMessage := j\<rparr>) = unread c"
  by (simp_all add: unread_def set_alloc_def)

lemma set_alloc_fields [simp]:
  "result (set_alloc a c) = result c" "curTuple (set_alloc a c) = curTuple c" "asyncStatus (set_alloc a c) = asyncStatus c"
  "workBuffer (set_alloc a c) = workBuffer c" "inStart (set_alloc a c) = inStart c" "inEnd (set_alloc a c) = inEnd c"
  "queryclass (set_alloc a c) = queryclass c" "client_encoding (set_alloc a c) = client_encoding c"
  "inCursor (set_alloc a c) = inCursor c" "errorMessage (set_alloc a c) = errorMessage c" "inBuffer (set_alloc a c) = inBuffer c"
  "noticeRec (set_alloc a c) = noticeRec c" "verbosity (set_alloc a c) = verbosity c" "last_query (set_alloc a c) = last_query c"
  by (simp_all add: set_alloc_def)

lemma pqGets_cases:
  assumes "state_ok c" "valid_expbuf buf"
  obtains (none) "0 \<notin> set (unread c)" "pqGets buf c = Some (EOF, buf, c)"
    | (str) buf' a k where "pqGets buf c = Some (0, buf', set_alloc a (skip k c))" "valid_expbuf buf'" "0 \<in> set (unread c)"
      "k = length (c_str (unread c)) + 1" "k \<le> length (unread c)" "moved c (skip k c)" "unread (skip k c) = drop k (unread c)"
      "\<not> PQExpBufferBroken buf' \<Longrightarrow> eb_contents buf' = c_str (unread c)"
proof (cases "0 \<in> set (unread c)")
  case False
  then show ?thesis using none pqGets_internal_spec [of c buf True] assms by (simp add: pqGets_def state_ok_def)
next
  case True
  let ?k = "length (c_str (unread c)) + 1"
  obtain buf' c' where g: "pqGets buf c = Some (0, buf', c')" "advanced c ?k c'" "valid_expbuf buf'"
    "\<not> PQExpBufferBroken buf' \<longrightarrow> eb_contents buf' = c_str (unread c)"
    using pqGets_internal_spec [of c buf True] assms True by (auto simp: pqGets_def state_ok_def)
  from g(1) obtain a where a: "c' = set_alloc a (c\<lparr>inCursor := inCursor c'\<rparr>)"
    by (auto simp: pqGets_def pqGets_internal_def bind_Some_iff EOF_def set_alloc_def split: if_splits)
  have "only_env (c\<lparr>inCursor := inCursor c + int ?k\<rparr>) c'" using g(2) by (simp add: advanced_def)
  from only_env_fields(4) [OF this] have "inCursor c' = inCursor c + int ?k" by simp
  then have "c' = set_alloc a (skip ?k c)" using a by (simp add: skip_def)
  moreover have "?k \<le> length (unread c)" using g(2) by (simp add: advanced_def)
  ultimately show ?thesis using str [of buf' a ?k] g True skip_moved [OF assms(1)] by auto
qed

lemma gets_work_cases:
  assumes "state_ok c"
  obtains (none) "0 \<notin> set (unread c)" "gets_work c = Some (EOF, c)"
    | (str) b a k where "gets_work c = Some (0, (set_alloc a (skip k c))\<lparr>workBuffer := b\<rparr>)" "0 \<in> set (unread c)"
      "k = length (c_str (unread c)) + 1" "k \<le> length (unread c)" "moved c ((set_alloc a (skip k c))\<lparr>workBuffer := b\<rparr>)"
      "unread (skip k c) = drop k (unread c)" "valid_expbuf b" "\<not> PQExpBufferBroken b \<Longrightarrow> eb_contents b = c_str (unread c)"
proof -
  have v: "valid_expbuf (workBuffer c)" using assms by (simp add: state_ok_def conn_ok_def)
  show ?thesis
  proof (cases rule: pqGets_cases [OF assms v])
    case 1
    then show ?thesis using none by (simp add: gets_work_def)
  next
    case (2 b a k)
    have "moved c (set_alloc a (skip k c))" using 2 by simp
    then have "moved c ((set_alloc a (skip k c))\<lparr>workBuffer := b\<rparr>)"
      using 2(2) by (auto simp: moved_def state_ok_def conn_ok_def in_ok_def out_ok_def)
    then show ?thesis using str [of b a k] 2 by (simp add: gets_work_def)
  qed
qed

lemma state_ok_work: "state_ok c \<Longrightarrow> valid_expbuf (workBuffer c)"
  by (simp add: state_ok_def conn_ok_def)

lemma makeEmpty_cases:
  assumes "state_ok c"
  obtains (none) a' where "makeEmptyPGresult c st = Some (None, set_alloc a' c)" "\<not> next_ok (e_alloc (env c))"
    | (some) x a' where "makeEmptyPGresult c st = Some (Some x, set_alloc a' c)" "result_ok x" "resultStatus x = st" "ntups x = 0"
      "\<not> is_error_status st \<Longrightarrow> x = empty_result (noticeRec c) (client_encoding c) st"
proof -
  have "conn_ok c" using assms by (simp add: state_ok_def)
  then obtain r a' where r: "makeEmptyPGresult c st = Some (r, set_alloc a' c)" "r = None \<longrightarrow> \<not> next_ok (e_alloc (env c))"
    "\<And>x. r = Some x \<Longrightarrow> result_ok x \<and> resultStatus x = st \<and> ntups x = 0"
    "\<not> is_error_status st \<Longrightarrow> r = None \<or> r = Some (empty_result (noticeRec c) (client_encoding c) st)"
    using makeEmptyPGresult_spec [of c st] by blast
  show ?thesis
    by (cases r) (use r none some in auto)
qed

text \<open>An error report: afterwards there is an error result, or none for lack of memory.\<close>

definition error_result :: "pg_conn \<Rightarrow> bool" where
  "error_result c \<longleftrightarrow> curTuple c = None \<and>
     (\<forall>r. result c = Some r \<longrightarrow> result_ok r \<and> resultStatus r = PGRES_FATAL_ERROR \<and> ntups r = 0)"

lemma error_result_update [simp]:
  "error_result (c\<lparr>asyncStatus := b\<rparr>) = error_result c" "error_result (c\<lparr>inCursor := d\<rparr>) = error_result c"
  "error_result (c\<lparr>inStart := e\<rparr>) = error_result c"
  by (simp_all add: error_result_def)

lemma result_ok_error: "result_ok r \<Longrightarrow> resultStatus r = PGRES_FATAL_ERROR \<Longrightarrow> ntups r = 0"
  by (simp add: result_ok_def rows_ok_def)

lemma pqSaveErrorResult_spec:
  assumes "state_ok c" "\<And>r. result c = Some r \<Longrightarrow> result_ok r"
    "curTuple c = None \<or> (\<exists>r. result c = Some r \<and> resultStatus r \<noteq> PGRES_FATAL_ERROR)"
  obtains c' where "pqSaveErrorResult c = Some c'" "moved c c'" "error_result c'" "asyncStatus c' = asyncStatus c" "inCursor c' = inCursor c"
proof -
  note goal = that
  have clear: "state_ok (pqClearAsyncResult c)" using assms(1) by (simp add: pqClearAsyncResult_def)
  have new: ?thesis if eq: "pqSaveErrorResult c = do { (r, conn) \<leftarrow> makeEmptyPGresult (pqClearAsyncResult c) PGRES_FATAL_ERROR;
      Some (conn\<lparr>result := r\<rparr>) }"
  proof (cases rule: makeEmpty_cases [OF clear, of PGRES_FATAL_ERROR])
    case (1 a')
    then show ?thesis using goal [of "(set_alloc a' (pqClearAsyncResult c))\<lparr>result := None\<rparr>"] eq assms(1)
      by (simp add: pqClearAsyncResult_def error_result_def)
  next
    case (2 x a')
    then show ?thesis using goal [of "(set_alloc a' (pqClearAsyncResult c))\<lparr>result := Some x\<rparr>"] eq assms(1)
      by (simp add: pqClearAsyncResult_def error_result_def)
  qed
  show ?thesis
  proof (cases "\<exists>r. result c = Some r \<and> resultStatus r = PGRES_FATAL_ERROR \<and> errMsg r \<noteq> None")
    case False
    then show ?thesis by (intro new) (auto simp: pqSaveErrorResult_def split: option.splits)
  next
    case True
    then obtain r where r: "result c = Some r" "resultStatus r = PGRES_FATAL_ERROR" "errMsg r \<noteq> None" by blast
    have "valid_expbuf (errorMessage c)" using assms(1) by (simp add: state_ok_def conn_ok_def)
    then obtain s where s: "eb_cstr (errorMessage c) = Some s" "str_ok s" by (rule eb_cstr_spec)
    obtain r' a' where r': "pqCatenateResultError (e_alloc (env c)) r s = Some (r', a')" "result_ok r'" "resultStatus r' = resultStatus r"
      by (rule pqCatenateResultError_spec [OF assms(2) [OF r(1)] s(2)])
    let ?c = "set_alloc a' (c\<lparr>result := Some r'\<rparr>)"
    have "pqSaveErrorResult c = Some ?c" using r r' s by (auto simp: pqSaveErrorResult_def)
    moreover have "moved c ?c" using assms(1) by simp
    moreover have "error_result ?c" using r r' assms(3) result_ok_error [of r'] by (auto simp: error_result_def)
    ultimately show ?thesis using goal by simp
  qed
qed


section \<open>Total correctness of the readers\<close>

text \<open>\<open>ensures m P\<close>: the computation does not fault, and its answer satisfies \<open>P\<close>.\<close>

definition ensures :: "'a option \<Rightarrow> ('a \<Rightarrow> bool) \<Rightarrow> bool" where
  "ensures m P \<longleftrightarrow> (\<exists>x. m = Some x \<and> P x)"

lemma ensures_Some [simp]: "ensures (Some x) P = P x"
  by (simp add: ensures_def)

lemma ensures_bind [simp]: "ensures (Option.bind m k) P = ensures m (\<lambda>x. ensures (k x) P)"
  by (cases m) (auto simp: ensures_def)

lemma ensures_mono: "ensures m Q \<Longrightarrow> (\<And>x. Q x \<Longrightarrow> P x) \<Longrightarrow> ensures m P"
  by (auto simp: ensures_def)

lemma ensuresE: "ensures m P \<Longrightarrow> (\<And>x. m = Some x \<Longrightarrow> P x \<Longrightarrow> R) \<Longrightarrow> R"
  by (auto simp: ensures_def)

text \<open>
  \<open>got c k c'\<close>: from \<open>c\<close>, a subroutine has read \<open>k\<close> bytes and is at \<open>c'\<close>. Besides the cursor only the work buffer
  and the state of the allocator are different.
\<close>

definition got :: "pg_conn \<Rightarrow> nat \<Rightarrow> pg_conn \<Rightarrow> bool" where
  "got c k c' \<longleftrightarrow> state_ok c \<and> state_ok c' \<and> k \<le> length (unread c) \<and>
     (plenty (e_alloc (env c)) \<longrightarrow> e_alloc (env c') = e_alloc (env c)) \<and>
     (\<exists>a b. c' = (set_alloc a (skip k c))\<lparr>workBuffer := b\<rparr>)"

lemma gotI:
  assumes "state_ok c" "state_ok c'" "k \<le> length (unread c)" "plenty (e_alloc (env c)) \<Longrightarrow> e_alloc (env c') = e_alloc (env c)"
    "c' = (set_alloc a (skip k c))\<lparr>workBuffer := b\<rparr>"
  shows "got c k c'"
  using assms unfolding got_def by blast

lemma gotE:
  assumes "got c k c'"
  obtains a b where "c' = (set_alloc a (skip k c))\<lparr>workBuffer := b\<rparr>"
  using assms unfolding got_def by blast

lemma got_refl [simp]: "got c 0 c = state_ok c"
proof -
  have "c = (set_alloc (e_alloc (env c)) (skip 0 c))\<lparr>workBuffer := workBuffer c\<rparr>" by (simp add: set_alloc_def skip_def)
  then show ?thesis unfolding got_def by blast
qed

lemma gotD:
  assumes "got c k c'"
  shows "state_ok c" "state_ok c'" "k \<le> length (unread c)" "plenty (e_alloc (env c)) \<Longrightarrow> e_alloc (env c') = e_alloc (env c)"
    "moved c c'" "unread c' = drop k (unread c)" "result c' = result c" "curTuple c' = curTuple c"
    "asyncStatus c' = asyncStatus c" "queryclass c' = queryclass c" "client_encoding c' = client_encoding c"
    "inCursor c' = inCursor c + int k" "inStart c' = inStart c" "inEnd c' = inEnd c" "errorMessage c' = errorMessage c"
    "noticeRec c' = noticeRec c" "verbosity c' = verbosity c" "last_query c' = last_query c"
proof -
  obtain a b where c: "c' = (set_alloc a (skip k c))\<lparr>workBuffer := b\<rparr>" and k: "state_ok c" "state_ok c'" "k \<le> length (unread c)"
    using assms by (auto simp: got_def)
  then show "state_ok c" "state_ok c'" "k \<le> length (unread c)" "result c' = result c" "curTuple c' = curTuple c"
    "asyncStatus c' = asyncStatus c" "queryclass c' = queryclass c" "client_encoding c' = client_encoding c"
    "inCursor c' = inCursor c + int k" "inStart c' = inStart c" "inEnd c' = inEnd c" "errorMessage c' = errorMessage c"
    "noticeRec c' = noticeRec c" "verbosity c' = verbosity c" "last_query c' = last_query c"
    by simp_all
  show "plenty (e_alloc (env c)) \<Longrightarrow> e_alloc (env c') = e_alloc (env c)" using assms by (simp add: got_def)
  have m: "moved c (skip k c)" "unread (skip k c) = drop k (unread c)" using skip_moved [OF k(1,3)] .
  from m(2) show "unread c' = drop k (unread c)" unfolding c by simp
  from m(1) show "moved c c'" using k(2) unfolding c moved_def by simp
qed

lemma skip_skip [simp]: "skip m (skip k c) = skip (k + m) c"
  by (simp add: skip_def)

lemma skip_set_alloc [simp]: "skip m (set_alloc a c) = set_alloc a (skip m c)"
  by (simp add: skip_def set_alloc_def)

lemma skip_work [simp]: "skip m (c\<lparr>workBuffer := b\<rparr>) = (skip m c)\<lparr>workBuffer := b\<rparr>"
  by (simp add: skip_def)

lemma set_alloc_set_alloc [simp]: "set_alloc a (set_alloc b c) = set_alloc a c"
  by (simp add: set_alloc_def)

lemma set_alloc_work [simp]: "set_alloc a (c\<lparr>workBuffer := b\<rparr>) = (set_alloc a c)\<lparr>workBuffer := b\<rparr>"
  by (simp add: set_alloc_def)

lemma got_trans:
  assumes "got a k b" "got b m c"
  shows "got a (k + m) c"
proof -
  have "k + m \<le> length (unread a)" using gotD(3,6) [OF assms(1)] gotD(3) [OF assms(2)] by simp
  moreover obtain a1 b1 where "b = (set_alloc a1 (skip k a))\<lparr>workBuffer := b1\<rparr>" using assms(1) by (rule gotE)
  moreover obtain a2 b2 where "c = (set_alloc a2 (skip m b))\<lparr>workBuffer := b2\<rparr>" using assms(2) by (rule gotE)
  ultimately have "c = (set_alloc a2 (skip (k + m) a))\<lparr>workBuffer := b2\<rparr>" by simp
  with \<open>k + m \<le> length (unread a)\<close> show ?thesis
    using gotD(1,4) [OF assms(1)] gotD(2,4) [OF assms(2)] by (intro gotI) simp_all
qed

lemma alloc_set_alloc [simp]: "e_alloc (env (set_alloc a c)) = a"
  by (simp add: set_alloc_def)

lemma got_alloc:
  assumes "got c k c'" "plenty (e_alloc (env c')) \<Longrightarrow> a = e_alloc (env c')"
  shows "got c k (set_alloc a c')"
proof -
  have "plenty (e_alloc (env c)) \<Longrightarrow> a = e_alloc (env c)" using gotD(4) [OF assms(1)] assms(2) by auto
  moreover obtain a1 b1 where "c' = (set_alloc a1 (skip k c))\<lparr>workBuffer := b1\<rparr>" using assms(1) by (rule gotE)
  then have "set_alloc a c' = (set_alloc a (skip k c))\<lparr>workBuffer := b1\<rparr>" by simp
  moreover have "state_ok (set_alloc a c')" using gotD(2) [OF assms(1)] by simp
  ultimately show ?thesis using gotD(1,3) [OF assms(1)]
    by (intro gotI [of c "set_alloc a c'" k b1 a]) simp_all
qed

lemma got_skip:
  assumes "got c k c'" "m \<le> length (unread c')"
  shows "got c (k + m) (skip m c')"
proof (rule got_trans [OF assms(1)])
  have "skip m c' = (set_alloc (e_alloc (env c')) (skip m c'))\<lparr>workBuffer := workBuffer c'\<rparr>" by (simp add: set_alloc_def skip_def)
  moreover have "state_ok (skip m c')" using skip_moved(1) [OF gotD(2) [OF assms(1)] assms(2)] by (rule moved_ok)
  ultimately show "got c' m (skip m c')" using assms(2) gotD(2) [OF assms(1)] by (intro gotI) simp_all
qed

lemma or_eof_None [simp]: "or_eof (Some (None, c)) eof k = eof c"
  by (simp add: or_eof_def)

lemma or_eof_Some [simp]: "or_eof (Some (Some v, c)) eof k = k v c"
  by (simp add: or_eof_def)

lemma getc_got:
  assumes "got c0 n c" "unread c = [] \<Longrightarrow> ensures (eof c) P"
    "\<And>b c'. got c0 (n + 1) c' \<Longrightarrow> unread c = b # unread c' \<Longrightarrow> c' = skip 1 c \<Longrightarrow> ensures (k b c') P"
  shows "ensures (or_eof (pqGetc c) eof k) P"
proof (cases rule: pqGetc_cases [OF gotD(2) [OF assms(1)]])
  case 1
  then show ?thesis using assms(2) by simp
next
  case (2 b)
  have "1 \<le> length (unread c)" unfolding 2(1) by simp
  then have "got c0 (n + 1) (skip 1 c)" by (rule got_skip [OF assms(1)])
  then show ?thesis using 2 assms(3) by simp
qed

lemma getInt_got:
  assumes "got c0 n c" "m = 2 \<or> m = 4" "length (unread c) < m \<Longrightarrow> ensures (eof c) P"
    "\<And>v c'. got c0 (n + m) c' \<Longrightarrow> unread c' = drop m (unread c) \<Longrightarrow> m \<le> length (unread c) \<Longrightarrow>
      v = net_int (take m (unread c)) \<Longrightarrow> c' = skip m c \<Longrightarrow> ensures (k v c') P"
  shows "ensures (or_eof (pqGetInt m c) eof k) P"
proof (cases rule: pqGetInt_cases [OF gotD(2) [OF assms(1)] assms(2)])
  case 1
  then show ?thesis using assms(3) by simp
next
  case 2
  have "got c0 (n + m) (skip m c)" by (rule got_skip [OF assms(1) 2(1)])
  then show ?thesis using 2 assms(4) by simp
qed

text \<open>A string is read into the work buffer, which holds it unless memory ran out.\<close>

lemma pqGets_plenty:
  assumes "state_ok c" "valid_expbuf buf" "pqGets buf c = Some (0, buf', c')" "plenty (e_alloc (env c))"
  shows "e_alloc (env c') = e_alloc (env c)" "\<not> PQExpBufferBroken buf'"
proof -
  obtain b1 where b1: "resetPQExpBuffer (e_alloc (env c)) buf = Some (b1, e_alloc (env c))" "valid_expbuf b1"
    "\<not> PQExpBufferBroken b1" "eb_contents b1 = []"
    using resetPQExpBuffer_plenty [OF assms(2,4)] by blast
  obtain cursor bs a where g: "gets_scan (inBuffer c) (inCursor c) (inEnd c) = Some cursor"
    "rd_bytes (inBuffer c) (nat (inCursor c)) (nat (cursor - inCursor c)) = Some bs"
    "appendBinaryPQExpBuffer (e_alloc (env c)) b1 bs = Some (buf', a)" "e_alloc (env c') = a"
    using assms(3) b1(1) by (auto simp: pqGets_def pqGets_internal_def bind_Some_iff EOF_def Let_def split: if_splits)
  have ok: "in_ok c" using assms(1) by (simp add: state_ok_def conn_ok_def)
  have "length bs < 2147483647"
    using g(2) ok by (auto simp: rd_bytes_def in_ok_def split: if_splits)
  moreover have "eb_len b1 = 0" using b1(2-4) by (auto simp: valid_expbuf_def eb_contents_def PQExpBufferBroken_def split: option.splits)
  ultimately have "eb_len b1 + length bs + 1 < 2 ^ 31" by simp
  from appendBinary_plenty [OF b1(2,3) assms(4) this]
  show "e_alloc (env c') = e_alloc (env c)" "\<not> PQExpBufferBroken buf'" using g(3,4) by auto
qed

lemma pqGets_got:
  assumes "got c0 n c" "valid_expbuf buf" "0 \<notin> set (unread c) \<Longrightarrow> P (EOF, buf, c)"
    "\<And>b c'. got c0 (n + (length (c_str (unread c)) + 1)) c' \<Longrightarrow> 0 \<in> set (unread c) \<Longrightarrow> valid_expbuf b \<Longrightarrow>
      unread c' = drop (length (c_str (unread c)) + 1) (unread c) \<Longrightarrow> workBuffer c' = workBuffer c \<Longrightarrow>
      (\<not> PQExpBufferBroken b \<Longrightarrow> eb_contents b = c_str (unread c)) \<Longrightarrow>
      (plenty (e_alloc (env c)) \<Longrightarrow> \<not> PQExpBufferBroken b) \<Longrightarrow> P (0, b, c')"
  shows "ensures (pqGets buf c) P"
proof (cases rule: pqGets_cases [OF gotD(2) [OF assms(1)] assms(2)])
  case 1
  then show ?thesis using assms(3) by simp
next
  case (2 b a k)
  let ?c = "set_alloc a (skip k c)"
  note p = pqGets_plenty [OF gotD(2) [OF assms(1)] assms(2) 2(1)]
  have "got c0 (n + k) ?c"
    by (intro got_alloc got_skip [OF assms(1)]) (use 2 p in auto)
  then have "P (0, b, ?c)" using 2 p by (intro assms(4)) auto
  then show ?thesis using 2(1) by simp
qed

lemma gets_work_got:
  assumes "got c0 n c" "0 \<notin> set (unread c) \<Longrightarrow> P (EOF, c)"
    "\<And>c'. got c0 (n + (length (c_str (unread c)) + 1)) c' \<Longrightarrow> 0 \<in> set (unread c) \<Longrightarrow>
      unread c' = drop (length (c_str (unread c)) + 1) (unread c) \<Longrightarrow>
      (\<not> PQExpBufferBroken (workBuffer c') \<Longrightarrow> eb_contents (workBuffer c') = c_str (unread c)) \<Longrightarrow>
      (plenty (e_alloc (env c)) \<Longrightarrow> \<not> PQExpBufferBroken (workBuffer c')) \<Longrightarrow> P (0, c')"
  shows "ensures (gets_work c) P"
proof -
  have "valid_expbuf (workBuffer c)" using gotD(2) [OF assms(1)] by (rule state_ok_work)
  then show ?thesis unfolding gets_work_def ensures_bind
  proof (rule pqGets_got [OF assms(1)], goal_cases)
    case 1
    then show ?case using assms(2) by simp
  next
    case (2 b c')
    obtain a1 b1 where c': "c' = (set_alloc a1 (skip (n + (length (c_str (unread c)) + 1)) c0))\<lparr>workBuffer := b1\<rparr>"
      using 2(1) by (rule gotE)
    have "state_ok (c'\<lparr>workBuffer := b\<rparr>)" using gotD(2) [OF 2(1)] 2(3) by (simp add: state_ok_def conn_ok_def in_ok_def out_ok_def)
    then have "got c0 (n + (length (c_str (unread c)) + 1)) (c'\<lparr>workBuffer := b\<rparr>)"
      using gotD(1,3,4) [OF 2(1)] c' by (intro gotI) simp_all
    then have "P (0, c'\<lparr>workBuffer := b\<rparr>)" using 2 by (intro assms(3)) simp_all
    then show ?case by simp
  qed
qed

lemma cstr_ensures:
  assumes "valid_expbuf b" "\<And>s. str_ok s \<Longrightarrow> s = c_str (eb_contents b) \<Longrightarrow> P s"
  shows "ensures (eb_cstr b) P"
  by (rule eb_cstr_spec [OF assms(1)]) (simp add: assms(2))

lemma strdup_ensures:
  assumes "result_ok r" "str_ok s"
    "\<And>m r' a'. result_ok r' \<Longrightarrow> only_space_changed r r' \<Longrightarrow> m = Some s \<or> m = None \<and> \<not> next_ok a \<Longrightarrow>
      (plenty a \<Longrightarrow> a' = a \<and> m = Some s) \<Longrightarrow> P (m, r', a')"
  shows "ensures (pqResultStrdup a r s) P"
proof (rule pqResultStrdup_spec [OF assms(1,2), of a])
  fix m r' a'
  assume 1: "pqResultStrdup a r s = Some (m, r', a')" "result_ok r'" "only_space_changed r r'" "m = Some s \<or> m = None \<and> \<not> next_ok a"
  have "plenty a \<Longrightarrow> a' = a \<and> m = Some s" by (rule pqResultStrdup_plenty [OF 1(1)])
  then show ?thesis using 1 by (simp add: assms(3))
qed

lemma alloc_ensures:
  assumes "res_ok r" "0 < n" "n < 4294967288"
    "\<And>sp r' a'. res_ok r' \<Longrightarrow> only_space_changed r r' \<Longrightarrow> (plenty a \<Longrightarrow> a' = a \<and> sp \<noteq> None) \<Longrightarrow> P (sp, r', a')"
  shows "ensures (pqResultAlloc a r n bin) P"
proof (rule resOk_alloc [OF assms(1-3), of a bin])
  fix sp r' a'
  assume 1: "pqResultAlloc a r n bin = Some (sp, r', a')" "res_ok r'" "only_space_changed r r'"
  have "plenty a \<Longrightarrow> a' = a \<and> sp \<noteq> None" by (rule pqResultAlloc_plenty [OF 1(1)])
  then show ?thesis using 1 by (simp add: assms(4))
qed

end
