(* ===== verification/ParseRows.thy ===== *)
theory ParseRows
  imports ParseSpecs
begin

text \<open>
  The messages that carry results: row and parameter descriptions, rows, the start of a copy. Each reader is
  compared with a decoder that works on the bytes alone.
\<close>

section \<open>What a reader changes in its result\<close>

lemma only_space_refl [simp]: "only_space_changed r r"
  by (simp add: only_space_changed_def)

lemma only_space_trans: "only_space_changed a b \<Longrightarrow> only_space_changed b c \<Longrightarrow> only_space_changed a c"
  unfolding only_space_changed_def by (cases a; cases b; cases c) simp

text \<open>The descriptors, the summary of their formats and the space of the result.\<close>

definition described :: "pg_result \<Rightarrow> pg_result \<Rightarrow> bool" where
  "described r r' \<longleftrightarrow> only_space_changed (r\<lparr>attDescs := attDescs r', binary := binary r'\<rparr>) r'"

lemma described_refl [simp]: "described r r"
  by (simp add: described_def)

lemma described_trans: "described a b \<Longrightarrow> described b c \<Longrightarrow> described a c"
  unfolding described_def only_space_changed_def by (cases a; cases b; cases c) simp

lemma described_fields:
  assumes "described r r'"
  shows "ntups r' = ntups r" "numAttributes r' = numAttributes r" "tuples r' = tuples r" "tupArrSize r' = tupArrSize r"
    "numParameters r' = numParameters r" "paramDescs r' = paramDescs r" "resultStatus r' = resultStatus r"
    "cmdStatus r' = cmdStatus r" "res_noticeRec r' = res_noticeRec r" "res_client_encoding r' = res_client_encoding r"
    "errMsg r' = errMsg r" "errFields r' = errFields r"
  using only_space_fields [OF assms [unfolded described_def]] by simp_all

lemma described_space: "only_space_changed r r' \<Longrightarrow> described r r'"
  unfolding described_def only_space_changed_def by (cases r; cases r') simp

lemma described_update [simp]: "described r (r\<lparr>attDescs := d\<rparr>)" "described r (r\<lparr>binary := b\<rparr>)"
  by (simp_all add: described_def)

lemma attrs_update_binary [simp]: "attrs (r\<lparr>binary := b\<rparr>) = attrs r"
  by (simp add: attrs_def)

lemma result_ok_binary [simp]: "result_ok (r\<lparr>binary := b\<rparr>) = result_ok r"
  by (simp add: result_ok_def)

lemma attrs_space: "only_space_changed r r' \<Longrightarrow> attrs r' = attrs r"
  by (simp add: attrs_def only_space_fields)

lemma set_attr_ensures:
  assumes "result_ok r" "i < length (attrs r)"
  shows "\<exists>r'. set_attr r i d = Some r' \<and> result_ok r' \<and> described r r' \<and> attrs r' = (attrs r)[i := d] \<and> binary r' = binary r"
proof -
  obtain ds where ds: "attDescs r = Some ds" "attrs r = ds" using assms(2) by (cases "attDescs r") (auto simp: attrs_def)
  then have "result_ok (r\<lparr>attDescs := Some (ds[i := d])\<rparr>)"
    using assms(1) by (auto simp: result_ok_def attrs_ok_def attrs_def)
  then show ?thesis using assms ds by (simp add: set_attr_def mem_simps) (simp add: attrs_def)
qed


section \<open>Row descriptions\<close>

text \<open>One field of the message: the name, and 18 bytes.\<close>

definition field_at :: "byte list \<Rightarrow> (PGresAttDesc \<times> nat) option" where
  "field_at d = (if 0 \<notin> set d then None
     else let n = length (c_str d) + 1; e = drop n d in
       if length e < 18 then None
       else Some (\<lparr>ad_name = Some (c_str d), ad_tableid = oid (net_int (take 4 e)), ad_columnid = int16 (net_int (take 2 (drop 4 e))),
           ad_format = int16 (net_int (take 2 (drop 16 e))), ad_typid = oid (net_int (take 4 (drop 6 e))),
           ad_typlen = int16 (net_int (take 2 (drop 10 e))), ad_atttypmod = net_int (take 4 (drop 12 e))\<rparr>, n + 18))"

fun fields_at :: "nat \<Rightarrow> byte list \<Rightarrow> (PGresAttDesc list \<times> nat) option" where
  "fields_at 0 d = Some ([], 0)"
| "fields_at (Suc n) d = (case field_at d of None \<Rightarrow> None
     | Some (f, k) \<Rightarrow> map_option (\<lambda>(fs, m). (f # fs, k + m)) (fields_at n (drop k d)))"

lemma field_at_bound: "field_at d = Some (f, k) \<Longrightarrow> k \<le> length d"
  by (auto simp: field_at_def Let_def split: if_splits)

lemma fields_at_bound: "fields_at n d = Some (fs, k) \<Longrightarrow> length fs = n \<and> k \<le> length d"
  by (induction n d arbitrary: fs k rule: fields_at.induct) (fastforce dest: field_at_bound split: option.splits)+

text \<open>The six numbers of a field.\<close>

lemma field_numbers_got:
  assumes g: "got c0 n c"
    and few: "\<And>k c'. length (unread c) < 18 \<Longrightarrow> got c0 k c' \<Longrightarrow> ensures (eof c') P"
    and all: "\<And>c'. 18 \<le> length (unread c) \<Longrightarrow> got c0 (n + 18) c' \<Longrightarrow> unread c' = drop 18 (unread c) \<Longrightarrow> workBuffer c' = workBuffer c \<Longrightarrow>
      env c' = env c \<Longrightarrow>
      ensures (K (net_int (take 4 (unread c))) (net_int (take 2 (drop 4 (unread c)))) (net_int (take 4 (drop 6 (unread c))))
        (net_int (take 2 (drop 10 (unread c)))) (net_int (take 4 (drop 12 (unread c)))) (net_int (take 2 (drop 16 (unread c)))) c') P"
  shows "ensures (or_eof (pqGetInt 4 c) eof (\<lambda>v1 c. or_eof (pqGetInt 2 c) eof (\<lambda>v2 c. or_eof (pqGetInt 4 c) eof (\<lambda>v3 c.
    or_eof (pqGetInt 2 c) eof (\<lambda>v4 c. or_eof (pqGetInt 4 c) eof (\<lambda>v5 c. or_eof (pqGetInt 2 c) eof (\<lambda>v6 c. K v1 v2 v3 v4 v5 v6 c))))))) P"
proof (rule getInt_got [OF g], simp, rule few, simp, rule g)
  fix v1 c1 assume 1: "got c0 (n + 4) c1" "unread c1 = drop 4 (unread c)" "4 \<le> length (unread c)" "v1 = net_int (take 4 (unread c))" "c1 = skip 4 c"
  show "ensures (or_eof (pqGetInt 2 c1) eof (\<lambda>v2 c. or_eof (pqGetInt 4 c) eof (\<lambda>v3 c.
    or_eof (pqGetInt 2 c) eof (\<lambda>v4 c. or_eof (pqGetInt 4 c) eof (\<lambda>v5 c. or_eof (pqGetInt 2 c) eof (\<lambda>v6 c. K v1 v2 v3 v4 v5 v6 c)))))) P"
  proof (rule getInt_got [OF 1(1)], simp, rule few [OF _ 1(1)], use 1 in simp)
    fix v2 c2 assume 2: "got c0 (n + 4 + 2) c2" "unread c2 = drop 2 (unread c1)" "2 \<le> length (unread c1)" "v2 = net_int (take 2 (unread c1))" "c2 = skip 2 c1"
    show "ensures (or_eof (pqGetInt 4 c2) eof (\<lambda>v3 c.
      or_eof (pqGetInt 2 c) eof (\<lambda>v4 c. or_eof (pqGetInt 4 c) eof (\<lambda>v5 c. or_eof (pqGetInt 2 c) eof (\<lambda>v6 c. K v1 v2 v3 v4 v5 v6 c))))) P"
    proof (rule getInt_got [OF 2(1)], simp, rule few [OF _ 2(1)], use 1 2 in simp)
      fix v3 c3 assume 3: "got c0 (n + 4 + 2 + 4) c3" "unread c3 = drop 4 (unread c2)" "4 \<le> length (unread c2)" "v3 = net_int (take 4 (unread c2))" "c3 = skip 4 c2"
      show "ensures (or_eof (pqGetInt 2 c3) eof (\<lambda>v4 c. or_eof (pqGetInt 4 c) eof (\<lambda>v5 c. or_eof (pqGetInt 2 c) eof (\<lambda>v6 c. K v1 v2 v3 v4 v5 v6 c)))) P"
      proof (rule getInt_got [OF 3(1)], simp, rule few [OF _ 3(1)], use 1 2 3 in simp)
        fix v4 c4 assume 4: "got c0 (n + 4 + 2 + 4 + 2) c4" "unread c4 = drop 2 (unread c3)" "2 \<le> length (unread c3)" "v4 = net_int (take 2 (unread c3))" "c4 = skip 2 c3"
        show "ensures (or_eof (pqGetInt 4 c4) eof (\<lambda>v5 c. or_eof (pqGetInt 2 c) eof (\<lambda>v6 c. K v1 v2 v3 v4 v5 v6 c))) P"
        proof (rule getInt_got [OF 4(1)], simp, rule few [OF _ 4(1)], use 1 2 3 4 in simp)
          fix v5 c5 assume 5: "got c0 (n + 4 + 2 + 4 + 2 + 4) c5" "unread c5 = drop 4 (unread c4)" "4 \<le> length (unread c4)" "v5 = net_int (take 4 (unread c4))" "c5 = skip 4 c4"
          show "ensures (or_eof (pqGetInt 2 c5) eof (\<lambda>v6 c. K v1 v2 v3 v4 v5 v6 c)) P"
          proof (rule getInt_got [OF 5(1)], simp, rule few [OF _ 5(1)], use 1 2 3 4 5 in simp)
            fix v6 c6 assume 6: "got c0 (n + 4 + 2 + 4 + 2 + 4 + 2) c6" "unread c6 = drop 2 (unread c5)" "2 \<le> length (unread c5)" "v6 = net_int (take 2 (unread c5))" "c6 = skip 2 c5"
            have "18 \<le> length (unread c)" "unread c6 = drop 18 (unread c)" "got c0 (n + 18) c6" "workBuffer c6 = workBuffer c" "env c6 = env c"
              using 1 2 3 4 5 6 by (simp_all add: add.commute)
            from all [OF this(1,3,2,4,5)] show "ensures (K v1 v2 v3 v4 v5 v6 c6) P" using 1 2 3 4 5 6 by (simp add: drop_drop)
          qed
        qed
      qed
    qed
  qed
qed


lemma field_at_cases:
  assumes "0 \<in> set d" "k = length (c_str d) + 1" "18 \<le> length (drop k d)"
  shows "field_at d = Some (\<lparr>ad_name = Some (c_str d), ad_tableid = oid (net_int (take 4 (drop k d))),
      ad_columnid = int16 (net_int (take 2 (drop 4 (drop k d)))), ad_format = int16 (net_int (take 2 (drop 16 (drop k d)))),
      ad_typid = oid (net_int (take 4 (drop 6 (drop k d)))), ad_typlen = int16 (net_int (take 2 (drop 10 (drop k d)))),
      ad_atttypmod = net_int (take 4 (drop 12 (drop k d)))\<rparr>, k + 18)"
  using assms by (simp add: field_at_def Let_def)

text \<open>The summary of the formats: 1 only when every field is binary.\<close>

definition all_binary :: "PGresAttDesc list \<Rightarrow> int \<Rightarrow> int" where
  "all_binary ds b = (if \<forall>d \<in> set ds. ad_format d = 1 then b else 0)"

lemma all_binary_simps [simp]: "all_binary [] b = b"
  "all_binary (d # ds) b = all_binary ds (if ad_format d = 1 then b else 0)"
  by (auto simp: all_binary_def)

lemma c_str_idem [simp]: "c_str (c_str d) = c_str d"
  by (simp add: c_str_def)

definition attrs_post where
  "attrs_post c0 c r i n k0 = (\<lambda>(ok, r', c'). (\<exists>k. got c0 k c') \<and> result_ok r' \<and> described r r' \<and> length (attrs r') = length (attrs r) \<and>
     (ok \<longrightarrow> k0 + 19 * n \<le> nat (inCursor c' - inCursor c0)) \<and>
     (plenty (e_alloc (env c0)) \<longrightarrow> (case fields_at n (unread c) of None \<Rightarrow> \<not> ok
       | Some (fs, k) \<Rightarrow> ok \<and> got c0 (k0 + k) c' \<and> attrs r' = take i (attrs r) @ fs \<and> binary r' = all_binary fs (binary r))))"

lemma read_attrs_ensures:
  assumes "got c0 k0 c" "result_ok r" "length (attrs r) = i + n"
  shows "ensures (read_attrs n i r c) (attrs_post c0 c r i n k0)"
  using assms
proof (induction n arbitrary: i r c k0)
  case 0
  then show ?case using gotD(12) [OF 0(1)] by (auto simp: attrs_post_def)
next
  case (Suc n)
  let ?d = "unread c" let ?k = "length (c_str (unread c)) + 1"
  have none: "attrs_post c0 c r i (Suc n) k0 (False, r, c')" if "got c0 k c'" "field_at ?d = None" for k c'
    using that Suc.prems by (auto simp: attrs_post_def)
  show ?case unfolding read_attrs.simps ensures_bind
  proof (rule gets_work_got [OF Suc.prems(1)], goal_cases)
    case 1
    then show ?case using none [OF Suc.prems(1)] by (simp add: EOF_def field_at_def)
  next
    case (2 c1)
    note w = 2
    have "ensures (or_eof (pqGetInt 4 c1) (\<lambda>c. Some (False, r, c)) (\<lambda>v1 c. or_eof (pqGetInt 2 c) (\<lambda>c. Some (False, r, c)) (\<lambda>v2 c.
      or_eof (pqGetInt 4 c) (\<lambda>c. Some (False, r, c)) (\<lambda>v3 c. or_eof (pqGetInt 2 c) (\<lambda>c. Some (False, r, c)) (\<lambda>v4 c.
      or_eof (pqGetInt 4 c) (\<lambda>c. Some (False, r, c)) (\<lambda>v5 c. or_eof (pqGetInt 2 c) (\<lambda>c. Some (False, r, c)) (\<lambda>v6 c.
        (\<lambda>tableid columnid typid typlen atttypmod format conn. Option.bind (eb_cstr (workBuffer conn)) (\<lambda>txt.
         Option.bind (pqResultStrdup (e_alloc (env conn)) r txt) (\<lambda>(name, res, a).
         if name = None then Some (False, res, set_alloc a conn)
         else Option.bind (set_attr res i \<lparr>ad_name = name, ad_tableid = oid tableid, ad_columnid = int16 columnid, ad_format = int16 format,
             ad_typid = oid typid, ad_typlen = int16 typlen, ad_atttypmod = atttypmod\<rparr>) (\<lambda>res.
           read_attrs n (i + 1) (if int16 format \<noteq> 1 then res\<lparr>binary := 0\<rparr> else res) (set_alloc a conn)))))
        v1 v2 v3 v4 v5 v6 c))))))) (attrs_post c0 c r i (Suc n) k0)"
    proof (rule field_numbers_got [OF 2(1)], goal_cases)
      case (1 k c')
      then show ?case using none [OF 1(2)] 2(3) by (simp add: field_at_def Let_def)
    next
      case (2 c2)
      note e = 2
      have f: "field_at ?d = Some (\<lparr>ad_name = Some (c_str ?d), ad_tableid = oid (net_int (take 4 (unread c1))),
          ad_columnid = int16 (net_int (take 2 (drop 4 (unread c1)))), ad_format = int16 (net_int (take 2 (drop 16 (unread c1)))),
          ad_typid = oid (net_int (take 4 (drop 6 (unread c1)))), ad_typlen = int16 (net_int (take 2 (drop 10 (unread c1)))),
          ad_atttypmod = net_int (take 4 (drop 12 (unread c1)))\<rparr>, ?k + 18)"
        using field_at_cases [OF w(2) refl] e(1) w(3) by simp
      show ?case unfolding ensures_bind
      proof (rule cstr_ensures [OF state_ok_work [OF gotD(2) [OF e(2)]]], rule strdup_ensures [OF Suc.prems(2)], goal_cases)
        case 1
        then show ?case by simp
      next
        case (2 tx name r1 a1)
        have g: "got c0 (k0 + ?k + 18) (set_alloc a1 c2)" using 2(6) by (intro got_alloc [OF e(2)]) auto
        have p: "plenty (e_alloc (env c2)) \<and> plenty (e_alloc (env c))" if "plenty (e_alloc (env c0))"
          using that gotD(4) [OF e(2)] gotD(4) [OF Suc.prems(1)] by simp
        have t: "tx = c_str ?d" if "plenty (e_alloc (env c0))"
          using 2(2) w(4,5) p [OF that] e(4) by simp
        show ?case
        proof (cases name)
          case None
          then have "\<not> plenty (e_alloc (env c0))" using 2(6) p by auto
          then show ?thesis using None g 2(3,4) attrs_space [OF 2(4)] described_space [OF 2(4)] by (auto simp: attrs_post_def)
        next
          case (Some nm)
          let ?f = "\<lparr>ad_name = name, ad_tableid = oid (net_int (take 4 (unread c1))),
            ad_columnid = int16 (net_int (take 2 (drop 4 (unread c1)))), ad_format = int16 (net_int (take 2 (drop 16 (unread c1)))),
            ad_typid = oid (net_int (take 4 (drop 6 (unread c1)))), ad_typlen = int16 (net_int (take 2 (drop 10 (unread c1)))),
            ad_atttypmod = net_int (take 4 (drop 12 (unread c1)))\<rparr>"
          have "i < length (attrs r1)" using Suc.prems(3) attrs_space [OF 2(4)] by simp
          from set_attr_ensures [OF 2(3) this, of ?f] obtain r2 where r2: "set_attr r1 i ?f = Some r2" "result_ok r2" "described r1 r2"
            "attrs r2 = (attrs r1)[i := ?f]" "binary r2 = binary r1" by blast
          let ?r = "if int16 (net_int (take 2 (drop 16 (unread c1)))) \<noteq> 1 then r2\<lparr>binary := 0\<rparr> else r2"
          have l: "length (attrs ?r) = i + 1 + n" using r2(4) Suc.prems(3) attrs_space [OF 2(4)] by simp
          have "ensures (read_attrs n (i + 1) ?r (set_alloc a1 c2)) (attrs_post c0 (set_alloc a1 c2) ?r (i + 1) n (k0 + ?k + 18))"
            using g r2(2) l by (intro Suc.IH) auto
          then have "ensures (read_attrs n (i + 1) ?r (set_alloc a1 c2)) (attrs_post c0 c r i (Suc n) k0)"
          proof (rule ensures_mono, goal_cases)
            case (1 x)
            obtain ok r' c' where x: "x = (ok, r', c')" by (cases x)
            note post = 1 [unfolded x attrs_post_def, simplified]
            have d: "described r ?r"
              using described_space [OF 2(4)] r2(3) by (auto intro: described_trans described_update)
            have a: "take (Suc i) (attrs ?r) = take i (attrs r) @ [?f]"
              using r2(4) attrs_space [OF 2(4)] Suc.prems(3) by (simp add: take_Suc_conv_app_nth)
            have b: "binary ?r = (if ad_format ?f = 1 then binary r else 0)"
              using r2(5) only_space_fields(10) [OF 2(4)] by simp
            have u: "unread c2 = drop (?k + 18) ?d" using e(3) w(3) by (simp add: add.commute)
            have n: "?f = the (map_option fst (field_at ?d))" if "plenty (e_alloc (env c0))"
              using 2(6) t [OF that] p [OF that] f by simp
            show ?case unfolding x attrs_post_def prod.case
            proof (intro conjI impI, goal_cases)
              case 5
              then show ?case using post by simp
            next
              case 6
              obtain f where f': "field_at ?d = Some (f, ?k + 18)" "?f = f" using n [OF 6] f by simp
              have q: "case fields_at n (drop (?k + 18) ?d) of None \<Rightarrow> \<not> ok
                | Some (fs, m) \<Rightarrow> ok \<and> got c0 (k0 + ?k + 18 + m) c' \<and> attrs r' = take i (attrs r) @ f # fs \<and>
                    binary r' = all_binary (f # fs) (binary r)"
                using post 6 u a b f'(2) by (auto simp: ac_simps split: option.splits)
              then show ?case using f'(1) by (auto simp: ac_simps split: option.splits)
            qed (use post d described_trans [of r ?r r'] l Suc.prems(3) in auto)
          qed
          then show ?thesis using Some r2(1) by simp
        qed
      qed
    qed
    then show ?case by (simp add: Let_def)
  qed
qed


text \<open>\<open>result_ok\<close> without the agreement of the number of fields with the descriptors.\<close>

definition result_core :: "pg_result \<Rightarrow> bool" where
  "result_core r \<longleftrightarrow> res_ok r \<and> 0 \<le> numAttributes r \<and> numAttributes r < 65536 \<and>
     (resultStatus r \<noteq> PGRES_TUPLES_OK \<longrightarrow> tuples r = []) \<and> rows_ok r \<and>
     (\<forall>m. errMsg r = Some m \<longrightarrow> str_ok m) \<and> (\<forall>(c, v) \<in> set (errFields r). str_ok v)"

lemma result_ok_core: "result_ok r \<longleftrightarrow> result_core r \<and> (resultStatus r = PGRES_TUPLES_OK \<longrightarrow> attrs_ok r)"
  by (auto simp: result_ok_def result_core_def)

lemma result_core_space: "result_core r \<Longrightarrow> res_ok r' \<Longrightarrow> only_space_changed r r' \<Longrightarrow> result_core r'"
  unfolding result_core_def rows_ok_def by (simp add: only_space_fields)

lemma result_core_update [simp]:
  "result_core (r\<lparr>attDescs := d\<rparr>) = result_core r" "result_core (r\<lparr>binary := b\<rparr>) = result_core r"
  "result_core (r\<lparr>numParameters := n\<rparr>) = result_core r" "result_core (r\<lparr>paramDescs := p\<rparr>) = result_core r"
  by (simp_all add: result_core_def)

lemma result_core_num: "result_core r \<Longrightarrow> tuples r = [] \<Longrightarrow> 0 \<le> n \<Longrightarrow> n < 65536 \<Longrightarrow> result_core (r\<lparr>numAttributes := n\<rparr>)"
  by (simp add: result_core_def rows_ok_none)

lemma attrs_ok_described: "described r r' \<Longrightarrow> length (attrs r') = nat (numAttributes r) \<Longrightarrow> 0 \<le> numAttributes r \<Longrightarrow> attrs_ok r'"
  by (simp add: attrs_ok_def described_fields)

lemma described_attrs: "only_space_changed r r' \<Longrightarrow> described r (r'\<lparr>attDescs := d\<rparr>)"
  unfolding described_def only_space_changed_def by (cases r; cases r') simp

lemma net_int_2: "length d = 2 \<Longrightarrow> 0 \<le> net_int d \<and> net_int d < 65536"
  using be_value_range [of d] by (simp add: net_int_def)

lemma alloc_attrs_ensures:
  assumes "got c0 k c" "result_core r" "0 \<le> nf" "nf = numAttributes r"
  shows "ensures (alloc_attrs r nf c) (\<lambda>(ok, r', c'). got c0 k c' \<and> result_core r' \<and> described r r' \<and>
    (nf \<le> 0 \<longrightarrow> r' = r) \<and> (ok \<and> 0 < nf \<longrightarrow> attrs r' = replicate (nat nf) null_attr) \<and> (plenty (e_alloc (env c0)) \<longrightarrow> ok) \<and> binary r' = binary r)"
proof (cases "nf > 0")
  case False
  then show ?thesis using assms by (simp add: alloc_attrs_def)
next
  case True
  have n: "0 < szmul (nat nf) sizeof_PGresAttDesc" "szmul (nat nf) sizeof_PGresAttDesc < 4294967288"
    using True assms(2,4) by (auto simp: szmul_id sizeof_PGresAttDesc_def result_core_def)
  have ok: "res_ok r" using assms(2) by (simp add: result_core_def)
  have "ensures (pqResultAlloc (e_alloc (env c)) r (szmul (nat nf) sizeof_PGresAttDesc) True)
    (\<lambda>(sp, r', a'). got c0 k (set_alloc a' c) \<and> result_core r' \<and> only_space_changed r r' \<and> (plenty (e_alloc (env c0)) \<longrightarrow> sp \<noteq> None))"
  proof (rule alloc_ensures [OF ok n], goal_cases)
    case (1 sp r' a')
    have "plenty (e_alloc (env c))" if "plenty (e_alloc (env c0))" using gotD(4) [OF assms(1)] that by simp
    moreover have "got c0 k (set_alloc a' c)" using 1(3) by (intro got_alloc [OF assms(1)]) auto
    ultimately show ?case using 1 result_core_space [OF assms(2)] by auto
  qed
  then show ?thesis using True unfolding alloc_attrs_def
    by (auto elim!: ensures_mono intro!: described_attrs simp: only_space_fields) (auto simp: attrs_def)
qed


text \<open>The description of a row: the number of fields, and the fields.\<close>

definition row_desc_at :: "byte list \<Rightarrow> (PGresAttDesc list \<times> nat) option" where
  "row_desc_at d = (if length d < 2 then None
     else map_option (\<lambda>(fs, k). (fs, k + 2)) (fields_at (nat (net_int (take 2 d))) (drop 2 d)))"

text \<open>\<open>r\<close> is as it was made; in a Describe it may be the result of the parameters, which has no rows.\<close>

definition fresh_desc :: "pg_result \<Rightarrow> bool" where
  "fresh_desc r \<longleftrightarrow> result_core r \<and> tuples r = [] \<and> (resultStatus r = PGRES_TUPLES_OK \<longrightarrow> attrs r = [])"

definition desc_post where
  "desc_post c0 k0 c r = (\<lambda>(ok, r', c'). (\<exists>k. got c0 k c') \<and> result_core r' \<and> (ok \<longrightarrow> result_ok r') \<and> described (r\<lparr>numAttributes := numAttributes r'\<rparr>) r' \<and>
     (plenty (e_alloc (env c0)) \<longrightarrow> (case row_desc_at (unread c) of None \<Rightarrow> \<not> ok
       | Some (fs, k) \<Rightarrow> ok \<and> got c0 (k0 + k) c' \<and> numAttributes r' = int (length fs) \<and> (fs \<noteq> [] \<or> attrs r = [] \<longrightarrow> attrs r' = fs) \<and>
           binary r' = all_binary fs (if fs = [] then 0 else 1))))"

lemma described_num: "described (r\<lparr>numAttributes := n\<rparr>) r' \<Longrightarrow> described (r\<lparr>numAttributes := numAttributes r'\<rparr>) r'"
  by (simp add: described_fields)

lemma read_row_description_ensures:
  assumes "got c0 k0 c" "fresh_desc r"
  shows "ensures (read_row_description r c) (desc_post c0 k0 c r)"
  unfolding read_row_description_def
proof (rule getInt_got [OF assms(1)], goal_cases)
  case 2
  have "described (r\<lparr>numAttributes := numAttributes r\<rparr>) r" by simp
  with 2 assms show ?case by (auto simp: desc_post_def row_desc_at_def fresh_desc_def)
next
  case (3 nf c1)
  let ?r = "r\<lparr>numAttributes := nf\<rparr>"
  have nf: "0 \<le> nf" "nf < 65536" using net_int_2 [of "take 2 (unread c)"] 3(3,4) by auto
  have core: "result_core ?r" using assms(2) nf by (simp add: fresh_desc_def result_core_num)
  show ?case unfolding ensures_bind
  proof (rule ensures_mono [OF alloc_attrs_ensures [OF 3(1) core nf(1)]], simp, clarify, goal_cases)
    case (1 ok r1 c2)
    show ?case
    proof (cases ok)
      case False
      then show ?thesis using 1 described_num by (auto simp: desc_post_def)
    next
      case True
      let ?r1 = "r1\<lparr>binary := if nf > 0 then 1 else 0\<rparr>"
      have d: "described ?r ?r1" using 1(3) by (auto intro: described_trans)
      have num: "numAttributes r1 = nf" using described_fields(2) [OF 1(3)] by simp
      show ?thesis
      proof (cases "nf = 0")
        case nf0: True
        then have eq: "r1 = ?r" using 1(4) by simp
        have "result_ok ?r1" using core assms(2) eq nf0 unfolding result_ok_core
          by (auto simp: fresh_desc_def attrs_ok_def attrs_def)
        moreover have "row_desc_at (unread c) = Some ([], 2)" using 3 nf0 by (simp add: row_desc_at_def)
        moreover have "got c0 (k0 + 2) c2" using 1 3 by simp
        ultimately show ?thesis using True nf0 d core eq described_num [OF d] by (auto simp: desc_post_def attrs_def)
      next
        case False
        then have len: "length (attrs ?r1) = 0 + nat nf" "0 < nf" using 1(5) True nf by auto
        then have rok: "result_ok ?r1" using 1(2) num unfolding result_ok_core by (auto simp: attrs_ok_def)
        have u: "unread c2 = drop 2 (unread c)" using gotD(6) [OF 1(1)] gotD(6) [OF assms(1)] by simp
        from read_attrs_ensures [OF 1(1) rok len(1)]
        have "ensures (read_attrs (nat nf) 0 ?r1 c2) (desc_post c0 k0 c r)"
        proof (rule ensures_mono, goal_cases)
          case (1 x)
          obtain ok' r' c' where x: "x = (ok', r', c')" by (cases x)
          note post = 1 [unfolded x attrs_post_def, simplified]
          have d': "described ?r r'" using post d by (auto intro: described_trans)
          have num': "numAttributes r' = nf" using described_fields(2) [OF d'] by simp
          have rd: "row_desc_at (unread c) = map_option (\<lambda>(fs, k). (fs, k + 2)) (fields_at (nat nf) (drop 2 (unread c)))"
            using 3 by (simp add: row_desc_at_def)
          have bnd: "fields_at (nat nf) (drop 2 (unread c)) = Some (fs, k) \<Longrightarrow> length fs = nat nf" for fs k
            using fields_at_bound by blast
          show ?case unfolding x desc_post_def prod.case rd
          proof (intro conjI impI, goal_cases)
            case 5
            then show ?case using post u num' len nf bnd by (auto simp: ac_simps split: option.splits)
          qed (use post d' described_num [OF d'] in \<open>auto simp: result_ok_core\<close>)
        qed
        then show ?thesis using True len by simp
      qed
    qed
  qed
qed simp



section \<open>The result of the query\<close>

definition rows_of :: "pg_conn \<Rightarrow> int" where
  "rows_of c = (case result c of None \<Rightarrow> 0 | Some r \<Rightarrow> ntups r)"

definition results_ok :: "pg_conn \<Rightarrow> bool" where
  "results_ok c \<longleftrightarrow> (\<forall>r. result c = Some r \<longrightarrow> result_ok r \<and> (queryclass c = PGQUERY_DESCRIBE \<longrightarrow> resultStatus r \<noteq> PGRES_TUPLES_OK))"

text \<open>\<open>calm c c'\<close>: a step that leaves no row under construction and makes no rows.\<close>

definition calm :: "pg_conn \<Rightarrow> pg_conn \<Rightarrow> bool" where
  "calm c c' \<longleftrightarrow> moved c c' \<and> results_ok c' \<and> curTuple c' = None \<and> rows_of c' \<le> rows_of c"

lemma result_cong [simp]:
  "rows_of (c\<lparr>asyncStatus := b\<rparr>) = rows_of c" "results_ok (c\<lparr>asyncStatus := b\<rparr>) = results_ok c"
  "rows_of (c\<lparr>xactStatus := x\<rparr>) = rows_of c" "results_ok (c\<lparr>xactStatus := x\<rparr>) = results_ok c"
  "rows_of (c\<lparr>copy_is_binary := d\<rparr>) = rows_of c" "results_ok (c\<lparr>copy_is_binary := d\<rparr>) = results_ok c"
  "rows_of (c\<lparr>copy_already_done := e\<rparr>) = rows_of c" "results_ok (c\<lparr>copy_already_done := e\<rparr>) = results_ok c"
  "rows_of (c\<lparr>be_pid := f\<rparr>) = rows_of c" "results_ok (c\<lparr>be_pid := f\<rparr>) = results_ok c"
  "rows_of (c\<lparr>be_key := g\<rparr>) = rows_of c" "results_ok (c\<lparr>be_key := g\<rparr>) = results_ok c"
  "rows_of (c\<lparr>notifies := h\<rparr>) = rows_of c" "results_ok (c\<lparr>notifies := h\<rparr>) = results_ok c"
  "rows_of (c\<lparr>last_sqlstate := i\<rparr>) = rows_of c" "results_ok (c\<lparr>last_sqlstate := i\<rparr>) = results_ok c"
  "rows_of (c\<lparr>curTuple := j\<rparr>) = rows_of c" "results_ok (c\<lparr>curTuple := j\<rparr>) = results_ok c"
  "rows_of (c\<lparr>inCursor := k\<rparr>) = rows_of c" "results_ok (c\<lparr>inCursor := k\<rparr>) = results_ok c"
  "rows_of (set_alloc a c) = rows_of c" "results_ok (set_alloc a c) = results_ok c"
  by (simp_all add: rows_of_def results_ok_def set_alloc_def)

lemma got_result: "got c k c' \<Longrightarrow> rows_of c' = rows_of c \<and> results_ok c' = results_ok c"
  by (simp add: rows_of_def results_ok_def gotD(7,10))

lemma got_calm: "got c k c' \<Longrightarrow> results_ok c \<Longrightarrow> curTuple c = None \<Longrightarrow> calm c c'"
  using got_result [of c k c'] gotD [of c k c'] by (simp add: calm_def)

lemma got_new_result:
  assumes "got c k c'" "results_ok c" "curTuple c = None" "result_ok r" "ntups r = 0"
    "queryclass c = PGQUERY_DESCRIBE \<Longrightarrow> resultStatus r \<noteq> PGRES_TUPLES_OK"
  shows "calm c (c'\<lparr>result := Some r\<rparr>)"
  using assms gotD [OF assms(1)]
  by (auto simp: calm_def rows_of_def results_ok_def result_ok_def rows_ok_def split: option.splits)

lemma calm_update [simp]:
  "calm c (c'\<lparr>asyncStatus := b\<rparr>) = calm c c'" "calm c (c'\<lparr>xactStatus := x\<rparr>) = calm c c'"
  "calm c (c'\<lparr>copy_is_binary := d\<rparr>) = calm c c'" "calm c (c'\<lparr>copy_already_done := e\<rparr>) = calm c c'"
  "calm c (c'\<lparr>be_pid := f\<rparr>) = calm c c'" "calm c (c'\<lparr>be_key := g\<rparr>) = calm c c'" "calm c (c'\<lparr>notifies := h\<rparr>) = calm c c'"
  "calm c (c'\<lparr>last_sqlstate := i\<rparr>) = calm c c'" "calm c (set_alloc a c') = calm c c'"
  by (simp_all add: calm_def)

lemma fresh_empty [simp]: "fresh_desc (empty_result h e s)"
  using result_ok_empty [of h e s] by (simp add: fresh_desc_def result_ok_core) (simp add: empty_result_def attrs_def)

lemma empty_result_status [simp]: "resultStatus (empty_result h e s) = s" "ntups (empty_result h e s) = 0"
  "attrs (empty_result h e s) = []" "tuples (empty_result h e s) = []" "paramDescs (empty_result h e s) = None"
  "errMsg (empty_result h e s) = None" "errFields (empty_result h e s) = []" "numAttributes (empty_result h e s) = 0"
  by (simp_all add: empty_result_def attrs_def)

lemma makeEmpty_got:
  assumes "got c0 k c" "\<not> is_error_status st"
    "\<And>a'. \<not> plenty (e_alloc (env c0)) \<Longrightarrow> got c0 k (set_alloc a' c) \<Longrightarrow> P (None, set_alloc a' c)"
    "\<And>a'. got c0 k (set_alloc a' c) \<Longrightarrow> P (Some (empty_result (noticeRec c) (client_encoding c) st), set_alloc a' c)"
  shows "ensures (makeEmptyPGresult c st) P"
proof -
  have a: "makeEmptyPGresult c st = Some (if next_ok (e_alloc (env c)) then Some (empty_result (noticeRec c) (client_encoding c) st) else None,
    set_alloc (after_alloc (e_alloc (env c))) c)"
    using assms(2) by (simp add: makeEmptyPGresult_def PQmakeEmptyPGresult_def Let_def)
  have g: "got c0 k (set_alloc (after_alloc (e_alloc (env c))) c)" by (rule got_alloc [OF assms(1)]) simp
  show ?thesis
  proof (cases "next_ok (e_alloc (env c))")
    case False
    then have "\<not> plenty (e_alloc (env c0))" using gotD(4) [OF assms(1)] by auto
    then show ?thesis using a g False assms(3) by simp
  qed (use a g assms(4) in simp)
qed

definition desc_result where
  "desc_result c fs k r c' \<longleftrightarrow> r = (0::int) \<and> (\<exists>c1 res. got c k c1 \<and> c' = c1\<lparr>result := Some res\<rparr> \<and> result_ok res \<and>
     described ((empty_result (noticeRec c) (client_encoding c) PGRES_TUPLES_OK)\<lparr>numAttributes := int (length fs)\<rparr>) res \<and> attrs res = fs \<and>
     binary res = all_binary fs (if fs = [] then 0 else 1))"

lemma getRowDescriptions_ensures:
  assumes "state_ok c" "results_ok c" "curTuple c = None"
  shows "ensures (getRowDescriptions c) (\<lambda>(r, c'). calm c c' \<and> (plenty (e_alloc (env c)) \<and> queryclass c \<noteq> PGQUERY_DESCRIBE \<longrightarrow>
    (case row_desc_at (unread c) of None \<Rightarrow> r = EOF | Some (fs, k) \<Rightarrow> desc_result c fs k r c')))"
    (is "ensures _ ?P")
proof -
  have g0: "got c 0 c" using assms(1) by simp
  have new: "ensures (do { (ok, res, conn) \<leftarrow> read_row_description (empty_result (noticeRec c) (client_encoding c) st) c1;
      if ok then Some (0, conn\<lparr>result := Some res\<rparr>) else Some (EOF, conn) }) ?P"
    if g: "got c 0 c1" and st: "queryclass c = PGQUERY_DESCRIBE \<longrightarrow> st \<noteq> PGRES_TUPLES_OK"
      "queryclass c \<noteq> PGQUERY_DESCRIBE \<longrightarrow> st = PGRES_TUPLES_OK" for c1 st
    unfolding ensures_bind
  proof (rule ensures_mono [OF read_row_description_ensures [OF g fresh_empty]], clarify, goal_cases)
    case (1 ok res c')
    let ?e = "empty_result (noticeRec c) (client_encoding c) st"
    note post = 1 [unfolded desc_post_def prod.case]
    from post obtain k where k: "got c k c'" by blast
    have d: "described (?e\<lparr>numAttributes := numAttributes res\<rparr>) res" using post by blast
    have f: "ntups res = 0" "resultStatus res = st" using described_fields [OF d] by simp_all
    show ?case
    proof (cases ok)
      case True
      then have rok: "result_ok res" using post by blast
      have c: "calm c (c'\<lparr>result := Some res\<rparr>)"
        by (rule got_new_result [OF k assms(2,3) rok f(1)]) (use st f(2) in auto)
      have "desc_result c fs k' 0 (c'\<lparr>result := Some res\<rparr>)"
        if "plenty (e_alloc (env c))" "queryclass c \<noteq> PGQUERY_DESCRIBE" "row_desc_at (unread c1) = Some (fs, k')" for fs k'
      proof -
        have p: "got c (0 + k') c'" "numAttributes res = int (length fs)" "attrs res = fs" "binary res = all_binary fs (if fs = [] then 0 else 1)"
          using post that by auto
        then have "got c k' c'" by simp
        then show ?thesis unfolding desc_result_def using p rok d st that by metis
      qed
      moreover have "row_desc_at (unread c1) \<noteq> None" if "plenty (e_alloc (env c))" using post that True by (auto split: option.splits)
      ultimately show ?thesis using True c gotD(6) [OF g] by (auto simp: EOF_def)
    next
      case False
      then have "row_desc_at (unread c1) = None" if "plenty (e_alloc (env c))" using post that by (auto split: option.splits)
      then show ?thesis using False got_calm [OF k assms(2,3)] gotD(6) [OF g] by auto
    qed
  qed
  show ?thesis
  proof (cases "queryclass c = PGQUERY_DESCRIBE \<and> result c \<noteq> None")
    case True
    then obtain r where r: "result c = Some r" "result_ok r" "resultStatus r \<noteq> PGRES_TUPLES_OK" using assms(2) by (auto simp: results_ok_def)
    then have fr: "fresh_desc r" "ntups r = 0" by (auto simp: fresh_desc_def result_ok_core result_core_def rows_ok_def)
    have "ensures (read_row_description r c) (\<lambda>(ok, r', c'). calm c (c'\<lparr>result := Some r'\<rparr>))"
    proof (rule ensures_mono [OF read_row_description_ensures [OF g0 fr(1)]], clarify, goal_cases)
      case (1 ok r' c')
      note post = 1 [unfolded desc_post_def prod.case]
      then obtain k where k: "got c k c'" by blast
      have d: "described (r\<lparr>numAttributes := numAttributes r'\<rparr>) r'" using post by blast
      have "result_ok r'" using post described_fields(7) [OF d] r(3) by (simp add: result_ok_core)
      then show ?case using described_fields [OF d] fr r by (intro got_new_result [OF k assms(2,3)]) simp_all
    qed
    then show ?thesis using True r(1) by (auto simp: getRowDescriptions_def elim!: ensures_mono)
  next
    case False
    let ?st = "if queryclass c = PGQUERY_DESCRIBE then PGRES_COMMAND_OK else PGRES_TUPLES_OK"
    have eq: "getRowDescriptions c = do { (res, conn) \<leftarrow> makeEmptyPGresult c ?st;
        case res of None \<Rightarrow> Some (EOF, conn)
        | Some res \<Rightarrow> do { (ok, res, conn) \<leftarrow> read_row_description res conn;
            if ok then Some (0, conn\<lparr>result := Some res\<rparr>) else Some (EOF, conn) } }"
      using False by (cases "queryclass c = PGQUERY_DESCRIBE") (simp_all add: getRowDescriptions_def Let_def cong: option.case_cong if_cong)
    have ne: "\<not> is_error_status ?st" by (simp add: is_error_status_def)
    show ?thesis unfolding eq ensures_bind
    proof (rule makeEmpty_got [OF g0 ne], goal_cases)
      case (1 a')
      then show ?case using got_calm [OF 1(2) assms(2,3)] by simp
    next
      case (2 a')
      then show ?case using new [OF 2] by simp
    qed
  qed
qed



section \<open>Parameter descriptions and the start of a copy\<close>

lemma result_ok_params [simp]: "result_ok (r\<lparr>numParameters := n\<rparr>) = result_ok r" "result_ok (r\<lparr>paramDescs := p\<rparr>) = result_ok r"
  by (simp_all add: result_ok_core) (simp_all add: attrs_ok_def attrs_def)

text \<open>The types of the parameters, four bytes each.\<close>

fun ints_at :: "nat \<Rightarrow> byte list \<Rightarrow> int list option" where
  "ints_at 0 d = Some []"
| "ints_at (Suc n) d = (if length d < 4 then None else map_option (\<lambda>vs. oid (net_int (take 4 d)) # vs) (ints_at n (drop 4 d)))"

lemma read_params_ensures:
  assumes "got c0 k c" "result_ok r" "paramDescs r = Some ps" "length ps = i + n"
  shows "ensures (read_params n i r c) (\<lambda>(ok, r', c'). (\<exists>k'. got c0 k' c') \<and> result_ok r' \<and> resultStatus r' = resultStatus r \<and> ntups r' = ntups r \<and>
    (case ints_at n (unread c) of None \<Rightarrow> \<not> ok | Some vs \<Rightarrow> ok \<and> paramDescs r' = Some (take i ps @ vs) \<and> got c0 (k + 4 * n) c'))"
  using assms
proof (induction n arbitrary: i r c k ps)
  case 0
  then show ?case by auto
next
  case (Suc n)
  show ?case unfolding read_params.simps
  proof (rule getInt_got [OF Suc.prems(1)], goal_cases)
    case 2
    then show ?case using Suc.prems by auto
  next
    case (3 v c1)
    let ?r = "r\<lparr>paramDescs := Some (ps[i := oid v])\<rparr>"
    have "length (ps[i := oid v]) = Suc i + n" using Suc.prems(4) by simp
    from Suc.IH [OF 3(1) _ _ this, of ?r] have IH: "ensures (read_params n (Suc i) ?r c1) (\<lambda>(ok, r', c'). (\<exists>k'. got c0 k' c') \<and> result_ok r' \<and>
      resultStatus r' = resultStatus r \<and> ntups r' = ntups r \<and> (case ints_at n (unread c1) of None \<Rightarrow> \<not> ok
        | Some vs \<Rightarrow> ok \<and> paramDescs r' = Some (take (Suc i) (ps[i := oid v]) @ vs) \<and> got c0 (k + 4 + 4 * n) c'))"
      using Suc.prems(2) by simp
    have w: "wr ps i (oid v) = Some (ps[i := oid v])" "take (Suc i) (ps[i := oid v]) = take i ps @ [oid v]"
      using Suc.prems(4) by (simp_all add: mem_simps take_Suc_conv_app_nth)
    have "ensures (read_params n (Suc i) ?r c1) (\<lambda>(ok, r', c'). (\<exists>k'. got c0 k' c') \<and> result_ok r' \<and> resultStatus r' = resultStatus r \<and> ntups r' = ntups r \<and>
      (case ints_at (Suc n) (unread c) of None \<Rightarrow> \<not> ok | Some vs \<Rightarrow> ok \<and> paramDescs r' = Some (take i ps @ vs) \<and> got c0 (k + 4 * Suc n) c'))"
      by (rule ensures_mono [OF IH]) (use 3 w(2) in \<open>auto simp: algebra_simps split: option.splits\<close>)
    then show ?case using Suc.prems(3) w(1) by simp
  qed simp
qed

lemma getParamDescriptions_ensures:
  assumes "state_ok c" "results_ok c" "curTuple c = None"
  shows "ensures (getParamDescriptions c) (\<lambda>(r, c'). calm c c')"
proof -
  have g0: "got c 0 c" using assms(1) by simp
  note calmI = got_calm [OF _ assms(2,3)]
  have "\<not> is_error_status PGRES_COMMAND_OK" by (simp add: is_error_status_def)
  then show ?thesis unfolding getParamDescriptions_def ensures_bind
  proof (rule makeEmpty_got [OF g0], goal_cases)
    case (1 a')
    then show ?case using calmI [OF 1(2)] by simp
  next
    case (2 a')
    let ?e = "empty_result (noticeRec c) (client_encoding c) PGRES_COMMAND_OK"
    show ?case unfolding prod.case option.case
    proof (rule getInt_got [OF 2], goal_cases)
      case 2
      then show ?case using calmI [OF \<open>got c 0 (set_alloc a' c)\<close>] by simp
    next
      case (3 n c1)
      have n: "0 \<le> n" "n < 65536" using net_int_2 [of "take 2 (unread (set_alloc a' c))"] 3(3,4) by auto
      let ?r = "?e\<lparr>numParameters := n\<rparr>"
      have rest: "ensures (read_params (nat n) 0 r c2) (\<lambda>x. ensures (case x of (ok, res, conn) \<Rightarrow>
          if ok then Some (0, conn\<lparr>result := Some res\<rparr>) else Some (EOF, conn)) (\<lambda>(r, y). calm c y))"
        if "got c 2 c2" "result_ok r" "paramDescs r = Some ps" "length ps = nat n" "resultStatus r = PGRES_COMMAND_OK" "ntups r = 0" for r c2 ps
      proof -
        have l: "length ps = 0 + nat n" using that(4) by simp
        show ?thesis
        proof (rule ensures_mono [OF read_params_ensures [OF that(1,2,3) l]], clarify, goal_cases)
          case (1 ok r' c' k')
          then show ?case using that calmI [OF 1(1)] got_new_result [OF 1(1) assms(2,3) 1(2)] by simp
        qed
      qed
      show ?case
      proof (cases "n > 0")
        case False
        have "calm c (c1\<lparr>result := Some ?r\<rparr>)" by (rule got_new_result [OF 3(1) assms(2,3)]) simp_all
        then show ?thesis using False n by simp
      next
        case True
        have sz: "0 < szmul (nat n) sizeof_PGresParamDesc" "szmul (nat n) sizeof_PGresParamDesc < 4294967288"
          using True n by (simp_all add: szmul_id sizeof_PGresParamDesc_def)
        have ok: "res_ok ?r" by simp
        have "ensures (pqResultAlloc (e_alloc (env c1)) ?r (szmul (nat n) sizeof_PGresParamDesc) True)
          (\<lambda>(sp, r1, a1). if sp = None then calm c (set_alloc a1 c1) else got c 2 (set_alloc a1 c1) \<and> result_ok r1 \<and> resultStatus r1 = PGRES_COMMAND_OK \<and> ntups r1 = 0)"
        proof (rule alloc_ensures [OF ok sz], goal_cases)
          case (1 sp r1 a1)
          have g: "got c 2 (set_alloc a1 c1)" by (rule got_alloc [OF 3(1) [unfolded add_0]]) (use 1 in auto)
          have "result_ok ?r" by simp
          then have "result_ok r1" by (rule result_ok_space [OF _ 1(1,2)])
          then show ?case using g calmI [OF g] only_space_fields [OF 1(2)] by simp
        qed
        then show ?thesis using True
          by (auto elim!: ensures_mono intro!: rest)
      qed
    qed simp
  qed
qed


lemma calmD:
  assumes "calm c c'"
  shows "moved c c'" "results_ok c'" "curTuple c' = None" "rows_of c' \<le> rows_of c" "state_ok c'" "queryclass c' = queryclass c"
proof -
  show "moved c c'" "results_ok c'" "curTuple c' = None" "rows_of c' \<le> rows_of c" using assms by (simp_all add: calm_def)
  then show "state_ok c'" "queryclass c' = queryclass c" using parse_frame_fields(12) by (auto simp: moved_def)
qed

lemma calm_trans: "calm a b \<Longrightarrow> calm b c \<Longrightarrow> calm a c"
  by (auto simp: calm_def intro: moved_trans)

lemma calm_refl: "state_ok c \<Longrightarrow> results_ok c \<Longrightarrow> curTuple c = None \<Longrightarrow> calm c c"
  by (simp add: calm_def)

lemma calm_got: "calm c c1 \<Longrightarrow> got c1 k c2 \<Longrightarrow> calm c c2"
  using calm_trans [OF _ got_calm [of c1 k c2]] calmD [of c c1] by blast

lemma calm_new_result:
  assumes "calm c c1" "got c1 k c2" "result_ok r" "ntups r = 0" "queryclass c = PGQUERY_DESCRIBE \<Longrightarrow> resultStatus r \<noteq> PGRES_TUPLES_OK"
  shows "calm c (c2\<lparr>result := Some r\<rparr>)"
  by (rule calm_trans [OF assms(1) got_new_result [OF assms(2)]]) (use assms calmD [OF assms(1)] in simp_all)

lemma read_formats_ensures:
  assumes "got c0 k c" "result_ok r" "length (attrs r) = i + n"
  shows "ensures (read_formats n i r c) (\<lambda>(ok, r', c'). (\<exists>k'. got c0 k' c') \<and> result_ok r' \<and> described r r')"
  using assms
proof (induction n arbitrary: i r c k)
  case 0
  then show ?case by auto
next
  case (Suc n)
  show ?case unfolding read_formats.simps
  proof (rule getInt_got [OF Suc.prems(1)], goal_cases)
    case 2
    then show ?case using Suc.prems by auto
  next
    case (3 v c1)
    obtain ds where ds: "attDescs r = Some ds" "attrs r = ds" "i < length ds" using Suc.prems(3)
      by (cases "attDescs r") (auto simp: attrs_def)
    then have "i < length (attrs r)" by simp
    from set_attr_ensures [OF Suc.prems(2) this, of "(ds ! i)\<lparr>ad_format := int16 v\<rparr>"] obtain r2 where r2:
      "set_attr r i ((ds ! i)\<lparr>ad_format := int16 v\<rparr>) = Some r2" "result_ok r2" "described r r2" "length (attrs r2) = length (attrs r)" by auto
    have l: "length (attrs r2) = Suc i + n" using r2(4) Suc.prems(3) by simp
    have "ensures (read_formats n (Suc i) r2 c1) (\<lambda>(ok, r', c'). (\<exists>k'. got c0 k' c') \<and> result_ok r' \<and> described r r')"
      by (rule ensures_mono [OF Suc.IH [OF 3(1) r2(2) l]]) (auto intro: described_trans [OF r2(3)])
    then show ?case using ds r2(1) by (simp add: mem_simps)
  qed simp
qed

lemma getCopyStart_ensures:
  assumes "state_ok c" "results_ok c" "curTuple c = None" "st = PGRES_COPY_IN \<or> st = PGRES_COPY_OUT \<or> st = PGRES_COPY_BOTH"
  shows "ensures (getCopyStart c st) (\<lambda>(r, c'). calm c c')"
proof -
  have g0: "got c 0 c" using assms(1) by simp
  have st: "\<not> is_error_status st" "st \<noteq> PGRES_TUPLES_OK" using assms(4) by (auto simp: is_error_status_def)
  note calmI = got_calm [OF _ assms(2,3)]
  show ?thesis unfolding getCopyStart_def ensures_bind
  proof (rule makeEmpty_got [OF g0 st(1)], goal_cases)
    case (1 a')
    then show ?case using calmI [OF 1(2)] by simp
  next
    case (2 a')
    let ?e = "empty_result (noticeRec c) (client_encoding c) st"
    show ?case unfolding prod.case option.case
    proof (rule getc_got [OF 2], goal_cases)
      case 1
      then show ?case using calmI [OF \<open>got c 0 (set_alloc a' c)\<close>] by simp
    next
      case (2 b c1)
      let ?c1 = "c1\<lparr>copy_is_binary := b\<rparr>"
      have c1: "calm c ?c1" using calmI [OF 2(1)] by simp
      then have g1: "got ?c1 0 ?c1" by (simp add: calmD(5))
      show ?case unfolding Let_def
      proof (rule getInt_got [OF g1], goal_cases)
        case 2
        then show ?case using c1 by simp
      next
        case (3 n c2)
        have n: "0 \<le> n" "n < 65536" using net_int_2 [of "take 2 (unread ?c1)"] 3(3,4) by auto
        let ?r = "?e\<lparr>binary := sint b, numAttributes := n\<rparr>"
        have core: "result_core ?r" using n result_ok_empty [of "noticeRec c" "client_encoding c" st] unfolding result_ok_core
          by (intro result_core_num) simp_all
        have rest: "ensures (if ok then read_formats (nat n) 0 r c3 else Some (False, r, c3))
            (\<lambda>x. ensures (case x of (ok, res, conn) \<Rightarrow> if ok then Some (0, conn\<lparr>result := Some res\<rparr>) else Some (EOF, conn)) (\<lambda>(r, y). calm c y))"
          if "got ?c1 (0 + 2) c3" "result_core r" "described ?r r" "n \<le> 0 \<longrightarrow> r = ?r" "ok \<and> 0 < n \<longrightarrow> attrs r = replicate (nat n) null_attr" for ok r c3
        proof (cases ok)
          case False
          then show ?thesis using calm_got [OF c1 that(1)] by simp
        next
          case True
          have f: "ntups r = 0" "resultStatus r = st" using described_fields [OF that(3)] by simp_all
          then have rok: "result_ok r" using that(2) st(2) by (simp add: result_ok_core)
          have l: "length (attrs r) = 0 + nat n" using that(4,5) True n by (cases "n = 0") (auto simp: attrs_def empty_result_def)
          have "ensures (read_formats (nat n) 0 r c3) (\<lambda>x. ensures (case x of (ok, res, conn) \<Rightarrow>
              if ok then Some (0, conn\<lparr>result := Some res\<rparr>) else Some (EOF, conn)) (\<lambda>(r, y). calm c y))"
          proof (rule ensures_mono [OF read_formats_ensures [OF that(1) rok l]], clarify, goal_cases)
            case (1 ok' r' c' k')
            have "ntups r' = 0" "resultStatus r' = st" using described_fields [OF 1(3)] f by simp_all
            then show ?case using calm_got [OF c1 1(1)] calm_new_result [OF c1 1(1,2)] st(2) by simp
          qed
          then show ?thesis using True by simp
        qed
        have num: "n = numAttributes ?r" by simp
        show ?case unfolding ensures_bind
        proof (rule ensures_mono [OF alloc_attrs_ensures [OF 3(1) core n(1) num]], goal_cases)
          case (1 x)
          obtain ok r c3 where x: "x = (ok, r, c3)" by (cases x)
          show ?case unfolding x prod.case ensures_bind by (rule rest) (use 1 [unfolded x] in simp_all)
        qed
      qed simp
    qed
  qed
qed



section \<open>Rows\<close>

text \<open>The values of a row, each with its length word; a null has length -1.\<close>

definition null_value :: PGresAttValue where
  "null_value = \<lparr>av_len = NULL_LEN, av_value = Some [0]\<rparr>"

definition value_len :: "byte list \<Rightarrow> nat" where
  "value_len d = (if net_int (take 4 d) = - 1 then 0 else nat (net_int (take 4 d)))"

definition value_of :: "byte list \<Rightarrow> PGresAttValue" where
  "value_of d = (if net_int (take 4 d) = - 1 then null_value
     else \<lparr>av_len = int (value_len d), av_value = Some (take (value_len d) (drop 4 d) @ [0])\<rparr>)"

fun row_of :: "nat \<Rightarrow> byte list \<Rightarrow> (PGresAttValue list \<times> nat) option" where
  "row_of 0 d = Some ([], 0)"
| "row_of (Suc n) d =
     (if length d < 4 \<or> length d < 4 + value_len d then None
      else map_option (\<lambda>(vs, k). (value_of d # vs, 4 + value_len d + k)) (row_of n (drop (4 + value_len d) d)))"

text \<open>
  The row under construction after an attempt that ran out of data: a value that has space already has as much as the
  message, which will be read again, says.
\<close>

fun tup_fits :: "byte list \<Rightarrow> PGresAttValue list \<Rightarrow> bool" where
  "tup_fits d [] = True"
| "tup_fits d (v # vs) =
     (if length d < 4 then \<forall>w \<in> set (v # vs). av_value w = None
      else (net_int (take 4 d) \<noteq> - 1 \<longrightarrow> (\<forall>b. av_value v = Some b \<longrightarrow> length b = value_len d + 1)) \<and>
        (if length d < 4 + value_len d then \<forall>w \<in> set vs. av_value w = None else tup_fits (drop (4 + value_len d) d) vs))"

lemma net_int_4: "length d = 4 \<Longrightarrow> - 2147483648 \<le> net_int d \<and> net_int d < 2147483648"
  using wrap32_range [of "be_value d"] by (simp add: net_int_def)

lemma value_ok_of: "4 + value_len d \<le> length d \<Longrightarrow> value_ok (value_of d)"
  by (auto simp: value_ok_def value_of_def null_value_def)

lemma row_of_spec: "row_of n d = Some (vs, k) \<Longrightarrow> length vs = n \<and> k \<le> length d \<and> 4 * n \<le> k \<and> (\<forall>v \<in> set vs. value_ok v)"
proof (induction n d arbitrary: vs k rule: row_of.induct)
  case (2 n d)
  then have l: "\<not> (length d < 4 \<or> length d < 4 + value_len d)" by (metis option.simps(3) row_of.simps(2))
  with 2(2) obtain vs' k' where v: "row_of n (drop (4 + value_len d) d) = Some (vs', k')" "vs = value_of d # vs'" "k = 4 + value_len d + k'"
    by auto
  from 2(1) [OF l v(1)] l v(2,3) value_ok_of [of d] show ?case by auto
qed simp

lemma tup_fits_none: "\<forall>w \<in> set vs. av_value w = None \<Longrightarrow> tup_fits d vs"
  by (induction d vs rule: tup_fits.induct) auto

lemma tup_fits_short:
  assumes "\<not> length d < 4" "length d < 4 + value_len d" "av_value v = Some b" "length b = value_len d + 1"
    "\<forall>w \<in> set vs. av_value w = None"
  shows "tup_fits d (v # vs)"
  unfolding tup_fits.simps if_not_P [OF assms(1)] if_P [OF assms(2)] using assms(3-5) by auto

lemma value_len_append: "4 \<le> length d \<Longrightarrow> value_len (d @ e) = value_len d"
  by (simp add: value_len_def)

lemma tup_fits_append: "tup_fits d vs \<Longrightarrow> tup_fits (d @ e) vs"
proof (induction d vs rule: tup_fits.induct)
  case (2 d v vs)
  show ?case
  proof (cases "length d < 4")
    case True
    then show ?thesis using 2(2) by (intro tup_fits_none) simp
  next
    case False
    let ?m = "value_len d"
    have v: "net_int (take 4 d) \<noteq> - 1 \<longrightarrow> (\<forall>b. av_value v = Some b \<longrightarrow> length b = ?m + 1)"
      and r: "if length d < 4 + ?m then \<forall>w \<in> set vs. av_value w = None else tup_fits (drop (4 + ?m) d) vs"
      using 2(2) False unfolding tup_fits.simps if_not_P [OF False] by blast+
    have "if length (d @ e) < 4 + ?m then \<forall>w \<in> set vs. av_value w = None else tup_fits (drop (4 + ?m) (d @ e)) vs"
    proof (cases "length d < 4 + ?m")
      case True
      then show ?thesis using r tup_fits_none by auto
    next
      case long: False
      have "tup_fits (drop (4 + ?m) d @ e) vs" using 2(1) [OF False long] r long by simp
      then show ?thesis using long by simp
    qed
    moreover have "\<not> length (d @ e) < 4" "take 4 (d @ e) = take 4 d" "value_len (d @ e) = ?m"
      using False by (simp_all add: value_len_append)
    ultimately show ?thesis using v unfolding tup_fits.simps by presburger
  qed
qed simp

lemma getnchar_got:
  assumes "got c0 n c" "length (unread c) < m \<Longrightarrow> ensures (eof c) P"
    "\<And>c'. got c0 (n + m) c' \<Longrightarrow> unread c' = drop m (unread c) \<Longrightarrow> m \<le> length (unread c) \<Longrightarrow> c' = skip m c \<Longrightarrow>
      ensures (k (take m (unread c)) c') P"
  shows "ensures (or_eof (pqGetnchar m c) eof k) P"
proof (cases rule: pqGetnchar_cases [OF gotD(2) [OF assms(1)], of m])
  case 1
  then show ?thesis using assms(2) by simp
next
  case 2
  have "got c0 (n + m) (skip m c)" by (rule got_skip [OF assms(1) 2(1)])
  then show ?thesis using 2 assms(3) by simp
qed

lemma value_space_ensures:
  assumes "got c0 k c" "result_ok r" "i < length (attrs r)" "0 \<le> vlen" "vlen < 2147483648"
    "\<And>b. av_value v = Some b \<Longrightarrow> length b = nat vlen + 1"
  shows "ensures (value_space r v i vlen c) (\<lambda>(sp, r', c'). got c0 k c' \<and> result_ok r' \<and> only_space_changed r r' \<and>
    c' = set_alloc (e_alloc (env c')) c \<and>
    (sp = None \<longrightarrow> \<not> plenty (e_alloc (env c0))) \<and> (\<forall>v'. sp = Some v' \<longrightarrow> (\<exists>b. v' = v\<lparr>av_value := Some b\<rparr> \<and> length b = nat vlen + 1)))"
proof (cases "av_value v")
  case (Some b)
  have "c = set_alloc (e_alloc (env c)) c" by (simp add: set_alloc_def)
  moreover have "v = v\<lparr>av_value := Some b\<rparr>" using Some by simp
  moreover have "length b = nat vlen + 1" using assms(6) Some by simp
  ultimately show ?thesis using assms(1,2) Some unfolding value_space_def by force
next
  case None
  obtain ds where ds: "attDescs r = Some ds" "i < length ds" using assms(3) by (cases "attDescs r") (auto simp: attrs_def)
  let ?n = "nat (wrap32 (vlen + 1) mod 2 ^ 32)"
  have n: "?n = nat vlen + 1" using assms(4,5) by (simp add: wrap32_def mod_simps)
  have ok: "res_ok r" "0 < ?n" "?n < 4294967288" using assms(2,4,5) unfolding n by (simp_all add: result_ok_def)
  have "ensures (pqResultAlloc (e_alloc (env c)) r ?n bin) (\<lambda>(sp, r', a'). got c0 k (set_alloc a' c) \<and> result_ok r' \<and> only_space_changed r r' \<and>
    (sp = None \<longrightarrow> \<not> plenty (e_alloc (env c0))))" for bin
  proof (rule alloc_ensures [OF ok], goal_cases)
    case (1 sp r' a')
    have "got c0 k (set_alloc a' c)" by (rule got_alloc [OF assms(1)]) (use 1 in auto)
    moreover have "plenty (e_alloc (env c))" if "plenty (e_alloc (env c0))" using gotD(4) [OF assms(1)] that by simp
    ultimately show ?case using 1 result_ok_space [OF assms(2)] by auto
  qed
  then obtain sp r' a' where a: "pqResultAlloc (e_alloc (env c)) r ?n (ad_format (ds ! i) \<noteq> 0) = Some (sp, r', a')"
    "got c0 k (set_alloc a' c)" "result_ok r'" "only_space_changed r r'" "sp = None \<longrightarrow> \<not> plenty (e_alloc (env c0))"
    unfolding ensures_def by blast
  then have eq: "value_space r v i vlen c = Some (if sp = None then None
      else Some (v\<lparr>av_value := Some (replicate ?n (junk (e_alloc (env c))))\<rparr>), r', set_alloc a' c)"
    using None ds by (simp add: value_space_def mem_simps Let_def)
  show ?thesis unfolding eq using a(2-5) n by auto
qed


lemma drop_update_here: "i < length xs \<Longrightarrow> drop i (xs[i := v]) = v # drop (Suc i) xs"
  using Cons_nth_drop_Suc [of i "xs[i := v]"] by simp

definition values_post where
  "values_post c0 c r tup i n k0 = (\<lambda>(oc, r', tup', c'). (\<exists>k. got c0 k c') \<and> result_ok r' \<and> only_space_changed r r' \<and>
     length tup' = length tup \<and> take i tup' = take i tup \<and>
     (case oc of
        Row_read \<Rightarrow> \<exists>vs k. row_of n (unread c) = Some (vs, k) \<and> drop i tup' = vs \<and> got c0 (k0 + k) c'
      | Row_incomplete \<Rightarrow> row_of n (unread c) = None \<and> tup_fits (unread c) (drop i tup')
      | Row_no_memory \<Rightarrow> \<not> plenty (e_alloc (env c0))))"

text \<open>One more value read: the rest of the row starts behind it.\<close>

lemma values_post_step:
  assumes post: "values_post c0 c' r' (tup[i := v]) (Suc i) n (k0 + (4 + value_len (unread c))) x"
    and u: "unread c' = drop (4 + value_len (unread c)) (unread c)" "4 + value_len (unread c) \<le> length (unread c)"
    and r: "only_space_changed r r'" and i: "i < length tup" and v: "v = value_of (unread c)"
  shows "values_post c0 c r tup i (Suc n) k0 x"
proof -
  obtain oc r2 tup' c2 where x: "x = (oc, r2, tup', c2)" by (cases x)
  let ?d = "unread c"
  have p: "\<exists>k. got c0 k c2" "result_ok r2" "only_space_changed r' r2" "length tup' = length tup"
    "take (Suc i) tup' = take (Suc i) (tup[i := v])"
    using post unfolding x values_post_def by auto
  have t: "take i tup' = take i tup" using arg_cong [OF p(5), of "take i"] by simp
  have "tup' ! i = take (Suc i) tup' ! i" by simp
  then have "tup' ! i = v" using p(5) i by simp
  then have d: "drop i tup' = v # drop (Suc i) tup'" using i p(4) Cons_nth_drop_Suc [of i tup'] by simp
  have l: "\<not> (length ?d < 4 \<or> length ?d < 4 + value_len ?d)" "\<not> length ?d < 4" "\<not> length ?d < 4 + value_len ?d" using u(2) by auto
  have vl: "net_int (take 4 ?d) \<noteq> - 1 \<longrightarrow> (\<forall>b. av_value v = Some b \<longrightarrow> length b = value_len ?d + 1)"
    using u(2) unfolding v value_of_def by auto
  have oc: "case oc of
      Row_read \<Rightarrow> \<exists>vs k. row_of (Suc n) ?d = Some (vs, k) \<and> drop i tup' = vs \<and> got c0 (k0 + k) c2
    | Row_incomplete \<Rightarrow> row_of (Suc n) ?d = None \<and> tup_fits ?d (drop i tup')
    | Row_no_memory \<Rightarrow> \<not> plenty (e_alloc (env c0))"
  proof (cases oc)
    case Row_read
    then obtain vs k where "row_of n (drop (4 + value_len ?d) ?d) = Some (vs, k)" "drop (Suc i) tup' = vs"
      "got c0 (k0 + (4 + value_len ?d) + k) c2"
      using post u(1) unfolding x values_post_def by auto
    then show ?thesis using Row_read l(1) d v by (simp add: add.assoc)
  next
    case Row_incomplete
    then have "row_of n (drop (4 + value_len ?d) ?d) = None" "tup_fits (drop (4 + value_len ?d) ?d) (drop (Suc i) tup')"
      using post u(1) unfolding x values_post_def by auto
    moreover from this(2) have "tup_fits ?d (drop i tup')"
      using vl unfolding d tup_fits.simps if_not_P [OF l(2)] if_not_P [OF l(3)] by blast
    ultimately show ?thesis using Row_incomplete by simp
  next
    case Row_no_memory
    then show ?thesis using post unfolding x values_post_def by simp
  qed
  show ?thesis unfolding x values_post_def prod.case
    using p t oc only_space_trans [OF r p(3)] by blast
qed

lemma read_values_ensures:
  assumes "got c0 k0 c" "result_ok r" "length (attrs r) = length tup" "length tup = i + n" "tup_fits (unread c) (drop i tup)"
  shows "ensures (read_values n i r tup c) (values_post c0 c r tup i n k0)"
  using assms
proof (induction n arbitrary: i r tup c k0)
  case 0
  then show ?case by (auto simp: values_post_def)
next
  case (Suc n)
  let ?d = "unread c" let ?m = "value_len (unread c)"
  have i: "i < length tup" using Suc.prems(4) by simp
  have cons: "drop i tup = tup ! i # drop (Suc i) tup" using i by (simp add: Cons_nth_drop_Suc)
  note fits = Suc.prems(5) [unfolded cons]
  have next': "ensures (read_values n (Suc i) r1 (tup[i := v]) c1) (values_post c0 c r tup i (Suc n) k0)"
    if "got c0 (k0 + (4 + ?m)) c1" "unread c1 = drop (4 + ?m) ?d" "4 + ?m \<le> length ?d" "v = value_of ?d" "result_ok r1" "only_space_changed r r1"
    for r1 v c1
  proof (rule ensures_mono [OF Suc.IH values_post_step [OF _ that(2,3,6) i that(4)]])
    show "got c0 (k0 + (4 + ?m)) c1" by (fact that(1))
    show "result_ok r1" by (fact that(5))
    show "length (attrs r1) = length (tup[i := v])" using attrs_space [OF that(6)] Suc.prems(3) by simp
    show "length (tup[i := v]) = Suc i + n" using Suc.prems(4) by simp
    have nl: "\<not> length ?d < 4" "\<not> length ?d < 4 + ?m" using that(3) by auto
    show "tup_fits (unread c1) (drop (Suc i) (tup[i := v]))"
      using fits unfolding tup_fits.simps if_not_P [OF nl(1)] if_not_P [OF nl(2)] that(2) by simp
  qed simp
  show ?case unfolding read_values.simps
  proof (rule getInt_got [OF Suc.prems(1)], goal_cases)
    case 2
    then show ?case using Suc.prems by (auto simp: values_post_def)
  next
    case (3 vlen c1)
    show ?case
    proof (cases "vlen = - 1")
      case True
      then have m: "?m = 0" "value_of ?d = null_value" using 3(4) by (simp_all add: value_len_def value_of_def)
      have w: "wr tup i \<lparr>av_len = NULL_LEN, av_value = Some [0]\<rparr> = Some (tup[i := null_value])" using i by (simp add: mem_simps null_value_def)
      have "ensures (read_values n (Suc i) r (tup[i := null_value]) c1) (values_post c0 c r tup i (Suc n) k0)"
        by (rule next') (use 3 m Suc.prems(2) in simp_all)
      then show ?thesis using True w by simp
    next
      case False
      let ?l = "if vlen < 0 then 0 else vlen"
      have m: "nat ?l = ?m" "int ?m = ?l" using False 3(4) by (simp_all add: value_len_def)
      have l: "0 \<le> ?l" "?l < 2147483648" using 3(3,4) net_int_4 [of "take 4 ?d"] by auto
      have long: "\<not> length ?d < 4" using 3(3) by simp
      have has: "length b = nat ?l + 1" if "av_value (tup ! i) = Some b" for b
        using fits that False 3(4) unfolding tup_fits.simps if_not_P [OF long] m(1) by blast
      have att: "i < length (attrs r)" using i Suc.prems(3) by simp
      obtain sp r1 c2 where sp: "value_space r (tup ! i) i ?l c1 = Some (sp, r1, c2)" "got c0 (k0 + 4) c2" "result_ok r1" "only_space_changed r r1"
        "c2 = set_alloc (e_alloc (env c2)) c1" "sp = None \<longrightarrow> \<not> plenty (e_alloc (env c0))"
        "\<forall>v'. sp = Some v' \<longrightarrow> (\<exists>b. v' = (tup ! i)\<lparr>av_value := Some b\<rparr> \<and> length b = nat ?l + 1)"
        using value_space_ensures [OF 3(1) Suc.prems(2) att l has] unfolding ensures_def by blast
      have rd: "rd tup i = Some (tup ! i)" using i by (simp add: mem_simps)
      have u2: "unread c2 = drop 4 ?d" using gotD(6) [OF sp(2)] gotD(6) [OF Suc.prems(1)] by (simp add: add.commute)
      show ?thesis
      proof (cases sp)
        case None
        then have "values_post c0 c r tup i (Suc n) k0 (Row_no_memory, r1, tup, c2)"
          using sp(2,3,4,6) by (auto simp: values_post_def)
        then show ?thesis using False None rd sp(1) by simp
      next
        case (Some v')
        then obtain b where b: "v' = (tup ! i)\<lparr>av_value := Some b\<rparr>" "length b = ?m + 1" using sp(7) m(1) by auto
        let ?v = "v'\<lparr>av_len := ?l\<rparr>"
        have w: "wr tup i ?v = Some (tup[i := ?v])" using i by (simp add: mem_simps)
        have tail: "ensures (or_eof (pqGetnchar ?m c2) (\<lambda>conn. Some (Row_incomplete, r1, tup[i := ?v], conn)) (\<lambda>bs conn. do {
            b \<leftarrow> av_value ?v; b \<leftarrow> wr_bytes b 0 bs; b \<leftarrow> wr b (nat ?l) 0;
            tup \<leftarrow> wr (tup[i := ?v]) i (?v\<lparr>av_value := Some b\<rparr>); read_values n (i + 1) r1 tup conn }))
          (values_post c0 c r tup i (Suc n) k0)"
        proof (rule getnchar_got [OF sp(2)], goal_cases)
          case 1
          then have sh: "length ?d < 4 + ?m" using u2 by simp
          have "tup_fits ?d (drop i (tup[i := ?v]))"
          proof -
            have "drop i (tup[i := ?v]) = ?v # drop (Suc i) tup" using i by (rule drop_update_here)
            moreover have "\<forall>w \<in> set (drop (Suc i) tup). av_value w = None"
              using fits unfolding tup_fits.simps if_not_P [OF long] if_P [OF sh] by blast
            moreover have "av_value ?v = Some b" using b(1) by simp
            ultimately show ?thesis using tup_fits_short [OF long sh _ b(2)] by metis
          qed
          then show ?case using sp(2-4) sh by (auto simp: values_post_def)
        next
          case (2 c3)
          let ?bs = "take ?m (unread c2)"
          have lb: "length ?bs = ?m" using 2(3) by simp
          have wb: "wr_bytes b 0 ?bs = Some (?bs @ drop ?m b)" using b(2) lb by (simp add: mem_simps)
          have wt: "wr (?bs @ drop ?m b) ?m 0 = Some (?bs @ [0])" 
          proof -
            have "length (drop ?m b) = 1" using b(2) by simp
            then obtain z where "drop ?m b = [z]" unfolding One_nat_def length_Suc_conv length_0_conv by blast
            then show ?thesis using lb by (simp add: mem_simps list_update_append)
          qed
          have vo: "?v\<lparr>av_value := Some (?bs @ [0])\<rparr> = value_of ?d"
            using False 3(4) b(1) m(2) u2 unfolding value_of_def by simp
          have "ensures (read_values n (Suc i) r1 (tup[i := value_of ?d]) c3) (values_post c0 c r tup i (Suc n) k0)"
            by (rule next') (use 2 3 u2 sp(3,4) in \<open>simp_all add: ac_simps\<close>)
          then show ?case using b(1) wb wt vo i unfolding m(1) by (simp add: mem_simps)
        qed
        have z: "pqGetnchar 0 c2 = Some (Some [], c2)"
          using pqGetnchar_cases [OF gotD(2) [OF sp(2)], of 0] by (auto simp: skip_def)
        have "ensures (or_eof (if ?l > 0 then pqGetnchar (nat ?l) c2 else Some (Some [], c2)) (\<lambda>conn. Some (Row_incomplete, r1, tup[i := ?v], conn)) (\<lambda>bs conn. do {
            b \<leftarrow> av_value ?v; b \<leftarrow> wr_bytes b 0 bs; b \<leftarrow> wr b (nat ?l) 0;
            tup \<leftarrow> wr (tup[i := ?v]) i (?v\<lparr>av_value := Some b\<rparr>); read_values n (i + 1) r1 tup conn }))
          (values_post c0 c r tup i (Suc n) k0)"
          using tail z m(1) l(1) by (cases "?l > 0") (simp_all del: or_eof_Some)
        then show ?thesis using False Some rd sp(1) w by (cases "vlen < 0"; cases "vlen = 0") (simp_all add: Let_def)
      qed
    qed
  qed simp
qed

end
