(* ===== verification/ParseMsgs.thy ===== *)
theory ParseMsgs
  imports ParseRows
begin

text \<open>
  The handlers of the messages, on every input: no access outside a buffer, and the invariant of the parser, row under
  construction included, is kept.
\<close>

section \<open>Error reports\<close>

lemma printf_error_ensures:
  assumes "state_ok c" "length t < 2 ^ 31"
    "\<And>c'. moved c c' \<Longrightarrow> result c' = result c \<Longrightarrow> curTuple c' = curTuple c \<Longrightarrow> asyncStatus c' = asyncStatus c \<Longrightarrow>
      inCursor c' = inCursor c \<Longrightarrow> P c'"
  shows "ensures (printf_error c t) P"
proof -
  have "valid_expbuf (errorMessage c)" using assms(1) by (simp add: state_ok_def conn_ok_def)
  from printfPQExpBuffer_spec [OF this assms(2), of "e_alloc (env c)"] obtain str a where
    s: "printfPQExpBuffer (e_alloc (env c)) (errorMessage c) t = Some (str, a)" "valid_expbuf str" by auto
  have "state_ok (c\<lparr>errorMessage := str\<rparr>)" using assms(1) s(2) by (simp add: state_ok_def conn_ok_def in_ok_def out_ok_def)
  then have "moved c (set_alloc a (c\<lparr>errorMessage := str\<rparr>))" by (simp add: moved_def)
  then show ?thesis using s(1) by (auto simp: printf_error_def intro!: assms(3))
qed

definition may_report :: "pg_conn \<Rightarrow> bool" where
  "may_report c \<longleftrightarrow> state_ok c \<and> results_ok c \<and> (curTuple c = None \<or> (\<exists>r. result c = Some r \<and> resultStatus r \<noteq> PGRES_FATAL_ERROR))"

lemma report_ensures:
  assumes "may_report c" "length t < 2 ^ 31"
    "\<And>c'. calm c c' \<Longrightarrow> error_result c' \<Longrightarrow> rows_of c' = 0 \<Longrightarrow> asyncStatus c' = asyncStatus c \<Longrightarrow> inCursor c' = inCursor c \<Longrightarrow> Q c'"
  shows "ensures (printf_error c t) (\<lambda>x. ensures (pqSaveErrorResult x) Q)"
proof -
  have s: "state_ok c" using assms(1) by (simp add: may_report_def)
  show ?thesis
  proof (rule printf_error_ensures [OF s assms(2)])
    fix c1
    assume c1: "moved c c1" "result c1 = result c" "curTuple c1 = curTuple c" "asyncStatus c1 = asyncStatus c" "inCursor c1 = inCursor c"
    have "state_ok c1" using c1(1) by (rule moved_ok)
    then obtain c2 where c2: "pqSaveErrorResult c1 = Some c2" "moved c1 c2" "error_result c2" "asyncStatus c2 = asyncStatus c1"
      "inCursor c2 = inCursor c1"
      by (rule pqSaveErrorResult_spec) (use assms(1) c1 in \<open>auto simp: may_report_def results_ok_def\<close>)
    have "rows_of c2 = 0" using c2(3) by (auto simp: error_result_def rows_of_def split: option.splits)
    moreover have "0 \<le> rows_of c"
      using assms(1) by (auto simp: may_report_def results_ok_def rows_of_def result_ok_def rows_ok_def split: option.splits)
    moreover have "results_ok c2" using c2(3) by (auto simp: error_result_def results_ok_def)
    moreover have "curTuple c2 = None" using c2(3) by (simp add: error_result_def)
    ultimately have "calm c c2" using moved_trans [OF c1(1) c2(2)] by (simp add: calm_def)
    then show "ensures (pqSaveErrorResult c1) Q" using c1 c2 \<open>rows_of c2 = 0\<close> by (auto intro!: assms(3))
  qed
qed

lemma may_reportI: "state_ok c \<Longrightarrow> results_ok c \<Longrightarrow> curTuple c = None \<Longrightarrow> may_report c"
  by (simp add: may_report_def)

lemma moved_clear [simp]: "moved c (pqClearAsyncResult c') = moved c c'" "state_ok (pqClearAsyncResult c') = state_ok c'"
  by (simp_all add: pqClearAsyncResult_def)

lemma clear_fields [simp]: "result (pqClearAsyncResult c) = None" "curTuple (pqClearAsyncResult c) = None"
  "asyncStatus (pqClearAsyncResult c) = asyncStatus c" "inCursor (pqClearAsyncResult c) = inCursor c" "inStart (pqClearAsyncResult c) = inStart c"
  "rows_of (pqClearAsyncResult c) = 0" "results_ok (pqClearAsyncResult c)"
  by (simp_all add: pqClearAsyncResult_def rows_of_def results_ok_def)


section \<open>A new row\<close>

text \<open>The result with one more row.\<close>

definition added :: "pg_result \<Rightarrow> PGresAttValue list \<Rightarrow> pg_result \<Rightarrow> bool" where
  "added r vs r' \<longleftrightarrow> tuples r' = tuples r @ [vs] \<and> ntups r' = ntups r + 1 \<and> attDescs r' = attDescs r \<and> numAttributes r' = numAttributes r \<and>
     resultStatus r' = resultStatus r \<and> cmdStatus r' = cmdStatus r \<and> binary r' = binary r \<and> errMsg r' = errMsg r \<and> errFields r' = errFields r \<and>
     numParameters r' = numParameters r \<and> paramDescs r' = paramDescs r"

lemma added_space: "only_space_changed r0 r \<Longrightarrow> added r vs r' \<Longrightarrow> added r0 vs r'"
  unfolding added_def by (simp add: only_space_fields)

lemma rows_room:
  assumes "rows_ok r" "ntups r < 536870912" "tupArrSize r \<le> ntups r"
  shows "tupArrSize r = 0 \<and> ntups r = 0 \<or> (\<exists>k < 22. tupArrSize r = 128 * 2 ^ k \<and> ntups r = 128 * 2 ^ k)"
proof -
  have n: "ntups r = tupArrSize r" using assms(1,3) by (simp add: rows_ok_def)
  show ?thesis
  proof (cases "tupArrSize r = 0")
    case False
    then obtain k :: nat where k: "k \<le> 22" "tupArrSize r = 128 * 2 ^ k" using assms(1) by (auto simp: rows_ok_def)
    have "k \<noteq> 22" using assms(2) n k(2) by auto
    then show ?thesis using k n by auto
  qed (use n in simp)
qed

lemma pqAddTuple_ensures:
  assumes "result_ok r" "resultStatus r = PGRES_TUPLES_OK" "int (length tup) = numAttributes r" "\<forall>v \<in> set tup. value_ok v" "ntups r < 536870912"
  shows "ensures (pqAddTuple a r tup) (\<lambda>(ok, r', a'). result_ok r' \<and> (if ok then added r tup r' else r' = r) \<and> (plenty a \<longrightarrow> ok \<and> a' = a))"
proof -
  have rows: "rows_ok r" using assms(1) by (simp add: result_ok_def)
  have grown: "result_ok (r\<lparr>tupArrSize := sz, tuples := tuples r @ [tup], ntups := ntups r + 1\<rparr>)"
    if "ntups r + 1 \<le> sz" "sz = 0 \<or> (\<exists>k \<le> 22. sz = 128 * 2 ^ k)" for sz
    using assms(1-4) that by (auto simp: result_ok_def rows_ok_def)
  show ?thesis
  proof (cases "tupArrSize r \<le> ntups r")
    case False
    have "result_ok (r\<lparr>tupArrSize := tupArrSize r, tuples := tuples r @ [tup], ntups := ntups r + 1\<rparr>)"
      by (rule grown) (use False rows in \<open>auto simp: rows_ok_def\<close>)
    then show ?thesis using False by (simp add: pqAddTuple_def added_def)
  next
    case True
    define sz where "sz = (if tupArrSize r > 0 then wrap32 (tupArrSize r * 2) else 128)"
    have sz: "ntups r < sz" "sz * 4 < 4294967296" "\<exists>k \<le> 22. sz = 128 * 2 ^ k"
    proof -
      have "sz = 128 \<and> ntups r = 0 \<or> (\<exists>k < 22. sz = 128 * 2 ^ Suc k \<and> ntups r = 128 * 2 ^ k)"
      proof (cases "tupArrSize r = 0")
        case False
        then obtain k :: nat where k: "k < 22" "tupArrSize r = 128 * 2 ^ k" "ntups r = 128 * 2 ^ k" using rows_room [OF rows assms(5) True] by auto
        have b: "(2::int) ^ k \<le> 2 ^ 21" "(0::int) < 2 ^ k" by (rule power_increasing) (use k(1) in simp_all)
        have "(2::int) ^ k \<le> 2097152" using b(1) by simp
        then have "- 2147483648 \<le> (128::int) * 2 ^ k * 2 \<and> (128::int) * 2 ^ k * 2 < 2147483648" using b(2) by linarith
        then have "wrap32 (128 * 2 ^ k * 2) = 128 * 2 ^ k * 2" using wrap32_id [of "128 * 2 ^ k * 2"] by (simp del: power_Suc)
        then have "wrap32 (tupArrSize r * 2) = 128 * 2 ^ Suc k" unfolding k(2) by simp
        moreover have "tupArrSize r > 0" using k(2) by simp
        ultimately have "sz = 128 * 2 ^ Suc k" by (simp add: sz_def)
        then show ?thesis using k by blast
      qed (use rows_room [OF rows assms(5) True] in \<open>auto simp: sz_def\<close>)
      then consider "sz = 128" "ntups r = 0" | k :: nat where "k < 22" "sz = 128 * 2 ^ Suc k" "ntups r = 128 * 2 ^ k" by blast
      then show "ntups r < sz" "sz * 4 < 4294967296" "\<exists>k \<le> 22. sz = 128 * 2 ^ k"
      proof (atomize (full), cases)
        case 1
        then show "ntups r < sz \<and> sz * 4 < 4294967296 \<and> (\<exists>k \<le> 22. sz = 128 * 2 ^ k)" by (auto intro!: exI [of _ 0])
      next
        case (2 k)
        have "(2::int) ^ Suc k \<le> 2 ^ 22" using 2(1) by (intro power_increasing) simp_all
        then show "ntups r < sz \<and> sz * 4 < 4294967296 \<and> (\<exists>k \<le> 22. sz = 128 * 2 ^ k)" using 2 by (auto intro!: exI [of _ "Suc k"])
      qed
    qed
    have "result_ok (r\<lparr>tupArrSize := sz, tuples := tuples r @ [tup], ntups := ntups r + 1\<rparr>)" by (rule grown) (use sz in auto)
    then show ?thesis using True sz assms(1) plenty_next(1) [of a]
      by (cases "next_ok a") (auto simp add: pqAddTuple_def Let_def sz_def [symmetric] added_def)
  qed
qed



section \<open>Data rows\<close>

text \<open>
  The row under construction: the next message is the data row that was read in part, whose length covers less than its
  values claim.
\<close>

definition row_started :: "pg_conn \<Rightarrow> bool" where
  "row_started c \<longleftrightarrow> (\<forall>tup. curTuple c = Some tup \<longrightarrow> asyncStatus c = PGASYNC_BUSY \<and> 5 \<le> length (in_data c) \<and> hd (in_data c) = 0x44 \<and>
     (\<exists>r. result c = Some r \<and> resultStatus r = PGRES_TUPLES_OK \<and> numAttributes r = int (length tup)) \<and> tup_fits (drop 7 (in_data c)) tup)"

text \<open>What a handler does; \<open>ok\<close>: it has consumed its message.\<close>

definition handled :: "pg_conn \<Rightarrow> bool \<Rightarrow> pg_conn \<Rightarrow> bool" where
  "handled c ok c' \<longleftrightarrow> moved c c' \<and> results_ok c' \<and>
     (if ok then curTuple c' = None \<and> (rows_of c' \<le> rows_of c \<or> rows_of c' = rows_of c + 1 \<and> inStart c + 7 \<le> inCursor c')
      else row_started c' \<and> rows_of c' \<le> rows_of c)"

lemma calm_handled: "calm c c' \<Longrightarrow> handled c ok c'"
  by (auto simp: calm_def handled_def row_started_def)

text \<open>The state in which the handler of a message of \<open>n\<close> bytes is called.\<close>

definition at_message :: "pg_conn \<Rightarrow> int \<Rightarrow> bool" where
  "at_message c n \<longleftrightarrow> inCursor c = inStart c + 5 \<and> 0 \<le> n \<and> inCursor c + n \<le> inEnd c"

lemma moved_data:
  assumes "moved c c'"
  shows "in_data c' = in_data c" "inStart c' = inStart c" "inEnd c' = inEnd c" "queryclass c' = queryclass c" "verbosity c' = verbosity c"
    "last_query c' = last_query c" "noticeRec c' = noticeRec c"
proof -
  have f: "parse_frame c c'" using assms by (simp add: moved_def)
  show "in_data c' = in_data c" "inStart c' = inStart c" "inEnd c' = inEnd c" "queryclass c' = queryclass c" "verbosity c' = verbosity c"
    "last_query c' = last_query c" "noticeRec c' = noticeRec c"
    using parse_frame_fields [OF f] by (simp_all add: in_data_def)
qed

lemma state_ok_in: "state_ok c \<Longrightarrow> 0 \<le> inStart c \<and> inStart c \<le> inCursor c \<and> inCursor c \<le> inEnd c \<and> inEnd c \<le> int (length (inBuffer c)) \<and> int (length (inBuffer c)) < 2 ^ 31"
  by (auto simp: state_ok_def conn_ok_def in_ok_def)

lemma unread_data:
  assumes "state_ok c"
  shows "unread c = drop (nat (inCursor c - inStart c)) (in_data c)"
proof -
  obtain a b e where "inStart c = int a" "inCursor c = int b" "inEnd c = int e" "a \<le> b" "b \<le> e"
    using state_ok_in [OF assms] by (metis (no_types, opaque_lifting) nonneg_int_cases of_nat_le_iff order_trans)
  then show ?thesis unfolding unread_def in_data_def drop_take drop_drop by (simp flip: of_nat_diff)
qed

lemma skip_message_moved:
  assumes "moved c c'" "at_message c n"
  shows "moved c (skip_message n c')" "inCursor (skip_message n c') = inStart c + 5 + n"
proof -
  have s: "state_ok c'" using assms(1) by (rule moved_ok)
  have d: "inStart c' = inStart c" "inEnd c' = inEnd c" using moved_data [OF assms(1)] by simp_all
  have "conn_ok (skip_message n c')"
    using s d assms(2) by (simp add: skip_message_def state_ok_def conn_ok_def in_ok_def out_ok_def at_message_def)
  then show "moved c (skip_message n c')" using assms s d by (auto simp: moved_def skip_message_def state_ok_def at_message_def)
  show "inCursor (skip_message n c') = inStart c + 5 + n" using d by (simp add: skip_message_def)
qed


lemma row_no_memory_ensures:
  assumes "moved c c'" "at_message c n" "results_ok c" "rows_of c' \<le> rows_of c"
  shows "ensures (row_no_memory n c') (\<lambda>(r, c''). r = 0 \<and> handled c True c'')"
proof -
  have s: "state_ok c'" using assms(1) by (rule moved_ok)
  have m: "may_report (pqClearAsyncResult c')" using s by (simp add: may_report_def)
  have "0 \<le> rows_of c" using assms(3) by (auto simp: results_ok_def rows_of_def result_ok_def rows_ok_def split: option.splits)
  then show ?thesis unfolding row_no_memory_def ensures_bind
  proof (intro report_ensures [OF m], simp, goal_cases)
    case (1 c2)
    have "moved c (pqClearAsyncResult c')" using assms(1) by simp
    then have "moved c c2" using calmD(1) [OF 1(2)] by (rule moved_trans)
    from skip_message_moved(1) [OF this assms(2)] show ?case using 1 calmD [OF 1(2)]
      by (simp add: handled_def skip_message_def)
  qed
qed

definition row_post where
  "row_post c r = (\<lambda>(ret, c'). handled c (ret = 0) c' \<and>
     (plenty (e_alloc (env c)) \<and> 2 \<le> length (unread c) \<and> net_int (take 2 (unread c)) = numAttributes r \<longrightarrow>
       (\<forall>vs k. row_of (nat (numAttributes r)) (drop 2 (unread c)) = Some (vs, k) \<longrightarrow>
         ret = 0 \<and> inCursor c' = inCursor c + 2 + int k \<and> asyncStatus c' = asyncStatus c \<and> plenty (e_alloc (env c')) \<and>
         (\<exists>r'. result c' = Some r' \<and> added r vs r'))))"

lemma read_row_ensures:
  assumes ok: "state_ok c" "at_message c n" "results_ok c" "queryclass c \<noteq> PGQUERY_DESCRIBE" "asyncStatus c = PGASYNC_BUSY" "hd (in_data c) = 0x44"
    and r: "result c = Some r" "resultStatus r = PGRES_TUPLES_OK" "numAttributes r = int (length tup)" "ntups r < 536870912"
    and fits: "tup_fits (drop 2 (unread c)) tup" and tup: "curTuple c = Some tup"
  shows "ensures (read_row n r tup c) (row_post c r)"
proof -
  have g0: "got c 0 c" using ok(1) by simp
  have rok: "result_ok r" using ok(3) r(1) by (simp add: results_ok_def)
  have attr: "length (attrs r) = length tup" using rok r(2,3) by (simp add: result_ok_def attrs_ok_def)
  have five: "unread c = drop 5 (in_data c)" using unread_data [OF ok(1)] ok(2) by (simp add: at_message_def)
  have d7: "drop 7 (in_data c) = drop 2 (unread c)" using five by simp
  have l5: "5 \<le> length (in_data c)"
    using ok(2) state_ok_in [OF ok(1)] by (auto simp: at_message_def in_data_def)
  have started: "row_started c'" if "moved c c'" "asyncStatus c' = asyncStatus c" "result c' = Some r'" "only_space_changed r r'" "curTuple c' = Some tup'"
    "length tup' = length tup" "tup_fits (drop 2 (unread c)) tup'" for c' r' tup'
  proof -
    have "resultStatus r' = PGRES_TUPLES_OK" "numAttributes r' = int (length tup')"
      using only_space_fields [OF that(4)] r(2,3) that(6) by simp_all
    then show ?thesis unfolding row_started_def moved_data(1) [OF that(1)] d7 using that l5 ok(5,6) by simp
  qed
  show ?thesis unfolding read_row_def
  proof (rule getInt_got [OF g0], goal_cases)
    case 2
    have "row_started c" by (rule started [OF _ _ r(1) only_space_refl tup]) (use ok(1) fits in simp_all)
    then show ?case using 2 ok(1,3) by (simp add: row_post_def handled_def EOF_def)
  next
    case (3 nf c1)
    have m1: "moved c c1" using gotD(5) [OF 3(1)] .
    have s1: "state_ok c1" "results_ok c1" "result c1 = Some r" using gotD(2,7) [OF 3(1)] got_result [OF 3(1)] ok(3) r(1) by auto
    show ?case
    proof (cases "nf = numAttributes r")
      case False
      have m: "may_report c1" using s1 r(2) by (simp add: may_report_def)
      have "ensures (printf_error c1 (lit ''unexpected field count in '' @ [0x22, 0x44, 0x22] @ lit '' message'' @ [0x0A]))
        (\<lambda>x. ensures (pqSaveErrorResult x) (\<lambda>conn. row_post c r (0, skip_message n conn)))"
      proof (rule report_ensures [OF m], simp, goal_cases)
        case (1 c2)
        have "moved c c2" using m1 calmD(1) [OF 1(1)] by (rule moved_trans)
        from skip_message_moved(1) [OF this ok(2)] have "handled c True (skip_message n c2)"
          using 1 calmD [OF 1(1)] got_result [OF 3(1)] by (simp add: handled_def skip_message_def)
        then show ?case using False 3(4) by (simp add: row_post_def)
      qed
      then show ?thesis using False by simp
    next
      case True
      have l: "length tup = 0 + nat (numAttributes r)" "drop 0 tup = tup" using r(3) by simp_all
      have f: "tup_fits (unread c1) (drop 0 tup)" using fits 3(2) by simp
      have nn: "\<not> nf \<noteq> numAttributes r" using True by simp
      show ?thesis unfolding if_not_P [OF nn] ensures_bind
      proof (rule ensures_mono [OF read_values_ensures [OF 3(1) rok attr l(1) f]], goal_cases)
        case (1 x)
        obtain oc r2 t2 c2 where x: "x = (oc, r2, t2, c2)" by (cases x)
        note post = 1 [unfolded x values_post_def prod.case]
        from post obtain k where k: "got c k c2" by blast
        let ?c2 = "c2\<lparr>result := Some r2, curTuple := Some t2\<rparr>"
        have r2: "result_ok r2" "only_space_changed r r2" "length t2 = length tup" using post by blast+
        have m2: "moved c ?c2" using gotD(5) [OF k] by simp
        have rows: "rows_of ?c2 = rows_of c" using r(1) only_space_fields(1) [OF r2(2)] by (simp add: rows_of_def)
        have res2: "results_ok ?c2" using ok(4) r2(1) moved_data(4) [OF m2] by (simp add: results_ok_def)
        show ?case
        proof (cases oc)
          case Row_no_memory
          then have "\<not> plenty (e_alloc (env c))" using post by simp
          then have "ensures (row_no_memory n ?c2) (row_post c r)"
            using row_no_memory_ensures [OF m2 ok(2,3)] rows by (auto simp: row_post_def elim!: ensures_mono)
          then show ?thesis using Row_no_memory x by simp
        next
          case Row_incomplete
          then have inc: "row_of (nat (numAttributes r)) (unread c1) = None" "tup_fits (unread c1) t2" using post by simp_all
          have "row_started ?c2"
            by (rule started [OF m2 _ _ r2(2)]) (use gotD(9) [OF k] r2(3) inc(2) 3(2) in simp_all)
          then have "row_post c r (EOF, ?c2)" using m2 res2 rows inc(1) 3(2) by (simp add: row_post_def handled_def EOF_def)
          then show ?thesis using Row_incomplete x by simp
        next
          case Row_read
          then obtain vs k' where vs: "row_of (nat (numAttributes r)) (unread c1) = Some (vs, k')" "t2 = vs" "got c (0 + 2 + k') c2"
            using post by auto
          have t2: "int (length t2) = numAttributes r2" "\<forall>v \<in> set t2. value_ok v" "ntups r2 < 536870912" "resultStatus r2 = PGRES_TUPLES_OK"
            using row_of_spec [OF vs(1)] vs(2) r2(3) r only_space_fields [OF r2(2)] by auto
          have a: "ensures (pqAddTuple (e_alloc (env ?c2)) r2 t2) (\<lambda>(ok, r', a'). result_ok r' \<and> (if ok then added r2 t2 r' else r' = r2) \<and>
            (plenty (e_alloc (env ?c2)) \<longrightarrow> ok \<and> a' = e_alloc (env ?c2)))"
            by (rule pqAddTuple_ensures [OF r2(1) t2(4,1,2,3)])
          have "ensures (pqAddTuple (e_alloc (env ?c2)) r2 t2) (\<lambda>y. ensures (case y of (ok, res, a) \<Rightarrow>
            let conn = set_alloc a (?c2\<lparr>result := Some res\<rparr>) in
            if ok then Some (0, conn\<lparr>curTuple := None\<rparr>) else row_no_memory n conn) (row_post c r))"
          proof (rule ensures_mono [OF a], clarify, goal_cases)
            case (1 ok' r3 a3)
            let ?c3 = "set_alloc a3 (?c2\<lparr>result := Some r3\<rparr>)"
            have m3: "moved c ?c3" using m2 by simp
            show ?case
            proof (cases ok')
              case False
              then have "\<not> plenty (e_alloc (env c))" "rows_of ?c3 \<le> rows_of c"
                using 1 gotD(4) [OF k] rows by (auto simp: rows_of_def)
              then have "ensures (row_no_memory n ?c3) (row_post c r)"
                using row_no_memory_ensures [OF m3 ok(2,3)] by (auto simp: row_post_def elim!: ensures_mono)
              then show ?thesis using False by (simp add: Let_def)
            next
              case True
              then have ad: "added r t2 r3" using 1(2) added_space [OF r2(2)] by simp
              have "handled c True (?c3\<lparr>curTuple := None\<rparr>)"
              proof -
                have "moved c (?c3\<lparr>curTuple := None\<rparr>)" using m3 by simp
                moreover have "results_ok (?c3\<lparr>curTuple := None\<rparr>)"
                  using 1(1) ok(4) moved_data(4) [OF m3] by (simp add: results_ok_def)
                moreover have "rows_of (?c3\<lparr>curTuple := None\<rparr>) = rows_of c + 1" using ad r(1) by (simp add: rows_of_def added_def)
                moreover have "inStart c + 7 \<le> inCursor c2" using gotD(12) [OF vs(3)] ok(2) by (simp add: at_message_def)
                ultimately show ?thesis by (simp add: handled_def)
              qed
              moreover have "plenty a3" "inCursor c2 = inCursor c + 2 + int k'" if "plenty (e_alloc (env c))"
                using that 1(3) gotD(4,12) [OF vs(3)] by simp_all
              moreover have "row_of (nat (numAttributes r)) (drop 2 (unread c)) = Some (vs, k')" using vs(1) 3(2) by simp
              ultimately have "row_post c r (0, ?c3\<lparr>curTuple := None\<rparr>)"
                using ad vs(2) gotD(9) [OF k] by (simp add: row_post_def)
              then show ?thesis using True by (simp add: Let_def)
            qed
          qed
          then show ?thesis using Row_read x by (simp add: Let_def)
        qed
      qed
    qed
  qed simp
qed


text \<open>The memory of a row: with no fields, the \<open>null_field\<close> stands for it.\<close>

lemma row_space_ensures:
  assumes "result_ok r"
  shows "ensures (pqResultAlloc a r (szmul (nat (numAttributes r)) sizeof_PGresAttValue) True)
    (\<lambda>(sp, r', a'). result_ok r' \<and> only_space_changed r r' \<and> (plenty a \<longrightarrow> a' = a \<and> sp \<noteq> None))"
proof (cases "numAttributes r = 0")
  case True
  then show ?thesis using assms by (simp add: pqResultAlloc_def szmul_def)
next
  case False
  then have n: "0 < szmul (nat (numAttributes r)) sizeof_PGresAttValue" "szmul (nat (numAttributes r)) sizeof_PGresAttValue < 4294967288"
    and ok: "res_ok r"
    using assms by (auto simp: result_ok_def szmul_id sizeof_PGresAttValue_def)
  show ?thesis by (rule alloc_ensures [OF ok n]) (auto intro: result_ok_space [OF assms])
qed

lemma handled_trans:
  assumes "moved c c1" "rows_of c1 \<le> rows_of c" "handled c1 ok c'"
  shows "rows_of c1 = rows_of c \<Longrightarrow> handled c ok c'"
  using assms moved_data(2) [OF assms(1)] by (auto simp: handled_def intro: moved_trans)

lemma row_started_fits: "row_started c \<Longrightarrow> curTuple c = Some tup \<Longrightarrow> tup_fits (drop 7 (in_data c)) tup"
  by (auto simp: row_started_def)

lemma getAnotherTuple_ensures:
  assumes ok: "state_ok c" "at_message c n" "results_ok c" "queryclass c \<noteq> PGQUERY_DESCRIBE" "asyncStatus c = PGASYNC_BUSY" "hd (in_data c) = 0x44"
    and r: "result c = Some r" "resultStatus r = PGRES_TUPLES_OK" "ntups r < 536870912" and started: "row_started c"
  shows "ensures (getAnotherTuple c n) (\<lambda>(ret, c'). handled c (ret = 0) c' \<and> (curTuple c = None \<longrightarrow> row_post c r (ret, c')))"
proof -
  have five: "unread c = drop 5 (in_data c)" using unread_data [OF ok(1)] ok(2) by (simp add: at_message_def)
  have d7: "drop 7 (in_data c) = drop 2 (unread c)" using five by simp
  have rok: "result_ok r" using ok(3) r(1) by (simp add: results_ok_def)
  show ?thesis
  proof (cases "curTuple c")
    case (Some tup)
    have t: "numAttributes r = int (length tup)" "tup_fits (drop 2 (unread c)) tup"
      using started Some r(1) d7 by (auto simp: row_started_def)
    have "ensures (read_row n r tup c) (row_post c r)"
      by (rule read_row_ensures [OF ok r(1,2) t(1) r(3) t(2) Some])
    then show ?thesis using Some r(1) by (auto simp: getAnotherTuple_def row_post_def elim!: ensures_mono)
  next
    case None
    have "ensures (pqResultAlloc (e_alloc (env c)) r (szmul (nat (numAttributes r)) sizeof_PGresAttValue) True) (\<lambda>(sp, res, a).
      ensures (let conn = set_alloc a (c\<lparr>result := Some res\<rparr>) in
        if sp = None then row_no_memory n conn
        else let tup = replicate (nat (numAttributes res)) \<lparr>av_len = 0, av_value = None\<rparr> in
          read_row n res tup (conn\<lparr>curTuple := Some tup\<rparr>)) (row_post c r))"
    proof (rule ensures_mono [OF row_space_ensures [OF rok]], clarify, goal_cases)
      case (1 sp r1 a1)
      let ?c1 = "set_alloc a1 (c\<lparr>result := Some r1\<rparr>)"
      have f: "resultStatus r1 = PGRES_TUPLES_OK" "numAttributes r1 = numAttributes r" "ntups r1 = ntups r"
        using only_space_fields [OF 1(2)] r(2) by simp_all
      have m1: "moved c ?c1" using ok(1) by simp
      have rows: "rows_of ?c1 = rows_of c" using r(1) f(3) by (simp add: rows_of_def)
      show ?case
      proof (cases sp)
        case None
        then have "\<not> plenty (e_alloc (env c))" using 1(3) by auto
        then have "ensures (row_no_memory n ?c1) (row_post c r)"
          using row_no_memory_ensures [OF m1 ok(2,3)] rows by (auto simp: row_post_def elim!: ensures_mono)
        then show ?thesis using None by (simp add: Let_def)
      next
        case (Some place)
        let ?t = "replicate (nat (numAttributes r1)) \<lparr>av_len = 0, av_value = None\<rparr>"
        let ?c2 = "?c1\<lparr>curTuple := Some ?t\<rparr>"
        have m2: "moved c ?c2" using m1 by simp
        have d2: "in_data ?c2 = in_data c" "inStart ?c2 = inStart c" "inEnd ?c2 = inEnd c" "queryclass ?c2 = queryclass c"
          using moved_data [OF m2] by simp_all
        have u2: "unread ?c2 = unread c" by simp
        have nn: "numAttributes r1 = int (length ?t)" using rok f(2) by (simp add: result_ok_def)
        have "ensures (read_row n r1 ?t ?c2) (row_post ?c2 r1)"
        proof (rule read_row_ensures)
          show "state_ok ?c2" using m2 by (rule moved_ok)
          show "at_message ?c2 n" using ok(2) d2 by (simp add: at_message_def)
          show "results_ok ?c2" using 1(1) ok(4) by (simp add: results_ok_def d2)
          show "queryclass ?c2 \<noteq> PGQUERY_DESCRIBE" "asyncStatus ?c2 = PGASYNC_BUSY" "hd (in_data ?c2) = 0x44"
            using ok d2 by simp_all
          show "tup_fits (drop 2 (unread ?c2)) ?t" by (rule tup_fits_none) simp
          show "ntups r1 < 536870912" using f(3) r(3) by simp
        qed (use f nn in simp_all)
        then have "ensures (read_row n r1 ?t ?c2) (row_post c r)"
        proof (rule ensures_mono, clarify, goal_cases)
          case (1 ret c')
          have "handled c (ret = 0) c'" using 1 rows handled_trans [OF m2] by (simp add: row_post_def)
          moreover have "e_alloc (env ?c2) = e_alloc (env c)" if "plenty (e_alloc (env c))" using that \<open>plenty (e_alloc (env c)) \<longrightarrow> _\<close> by simp
          ultimately show ?case using 1 f(2) u2 added_space [OF \<open>only_space_changed r r1\<close>] unfolding row_post_def by auto
        qed
        then show ?thesis using Some by (simp add: Let_def)
      qed
    qed
    then have "ensures (getAnotherTuple c n) (row_post c r)" using None r(1) by (simp add: getAnotherTuple_def case_prod_unfold)
    then show ?thesis using None by (auto simp: row_post_def elim!: ensures_mono)
  qed
qed

end
