(* ===== verification/ParseErrors.thy ===== *)
theory ParseErrors
  imports ParseMsgs
begin

text \<open>
  Errors and notices: the fields of the message, the text made of them, and the error result.
\<close>

section \<open>The fields\<close>

text \<open>The fields of an error or notice message up to the terminating zero byte, and the length of it all.\<close>

function error_fields :: "byte list \<Rightarrow> ((byte \<times> byte list) list \<times> nat) option" where
  "error_fields [] = None"
| "error_fields (b # d) =
     (if b = 0 then Some ([], 1)
      else if 0 \<notin> set d then None
      else map_option (\<lambda>(fs, k). ((b, c_str d) # fs, length (c_str d) + 2 + k)) (error_fields (drop (length (c_str d) + 1) d)))"
  by pat_completeness auto
termination by (relation "measure length") auto

declare error_fields.simps(2) [simp del]

definition fields_only :: "pg_result \<Rightarrow> pg_result \<Rightarrow> bool" where
  "fields_only r r' \<longleftrightarrow> only_space_changed (r\<lparr>errFields := errFields r'\<rparr>) r'"

lemma fields_only_refl [simp]: "fields_only r r"
  by (simp add: fields_only_def)

lemma fields_only_trans: "fields_only a b \<Longrightarrow> fields_only b c \<Longrightarrow> fields_only a c"
  unfolding fields_only_def only_space_changed_def by (cases a; cases b; cases c) simp

lemma fields_only_fields:
  assumes "fields_only r r'"
  shows "ntups r' = ntups r" "numAttributes r' = numAttributes r" "attDescs r' = attDescs r" "tuples r' = tuples r"
    "resultStatus r' = resultStatus r" "errMsg r' = errMsg r" "res_noticeRec r' = res_noticeRec r"
  using only_space_fields [OF assms [unfolded fields_only_def]] by simp_all

text \<open>The bytes of the fields.\<close>

definition fields_size :: "pg_result \<Rightarrow> nat" where
  "fields_size r = sum_list (map (\<lambda>(c, v). length v + 1) (errFields r))"

lemma pqSaveMessageField_ensures:
  assumes "result_ok r" "str_ok v"
  shows "ensures (pqSaveMessageField a r code v) (\<lambda>(r', a'). result_ok r' \<and> fields_only r r' \<and>
    (errFields r' = (code, v) # errFields r \<or> errFields r' = errFields r) \<and>
    (plenty a \<longrightarrow> a' = a \<and> errFields r' = (code, v) # errFields r))"
proof -
  have n: "0 < szadd sizeof_PGMessageField (length v)" "szadd sizeof_PGMessageField (length v) < 4294967288"
    using assms(2) by (simp_all add: szadd_def sizeof_PGMessageField_def str_ok_def)
  have ok: "res_ok r" using assms(1) by (simp add: result_ok_def)
  show ?thesis unfolding pqSaveMessageField_def ensures_bind
  proof (rule alloc_ensures [OF ok n], goal_cases)
    case (1 sp r' a')
    have r': "result_ok r'" by (rule result_ok_space [OF assms(1) 1(1,2)])
    then have "result_ok (r'\<lparr>errFields := (code, v) # errFields r'\<rparr>)" using assms(2) by (simp add: result_ok_def)
    moreover have "fields_only r (r'\<lparr>errFields := fs\<rparr>)" for fs
      using 1(2) unfolding fields_only_def only_space_changed_def by (cases r; cases r') simp
    moreover have "fields_only r r'" using 1(2) unfolding fields_only_def only_space_changed_def by (cases r; cases r') simp
    ultimately show ?case using 1 r' only_space_fields(14) [OF 1(2)] by (auto split: option.splits)
  qed
qed

lemma c_str_drop_length: "0 \<in> set d \<Longrightarrow> length (drop (length (c_str d) + 1) d) < length d"
  by (cases d) auto

lemma str_ok_c_str: "length d < 2147483647 \<Longrightarrow> str_ok (c_str d)"
  using length_c_str [of d] c_str_no_nul [of d] by (simp add: str_ok_def)

lemma unread_bound: "state_ok c \<Longrightarrow> length (unread c) \<le> 2147475456"
  using size_bound [of "inBufSize c"] by (auto simp: state_ok_def conn_ok_def in_ok_def unread_def)

definition fields_post where
  "fields_post c0 c r n = (\<lambda>(ok, r', buf', c'). result_ok r' \<and> fields_only r r' \<and> valid_expbuf buf' \<and>
     (\<exists>k. got c0 (n + k) c' \<and> fields_size r' \<le> fields_size r + k) \<and>
     (plenty (e_alloc (env c0)) \<longrightarrow> (case error_fields (unread c) of None \<Rightarrow> \<not> ok
        | Some (fs, k) \<Rightarrow> ok \<and> got c0 (n + k) c' \<and> errFields r' = rev fs @ errFields r)))"

lemma read_fields_ensures:
  assumes "got c0 n c" "result_ok r" "valid_expbuf buf"
  shows "ensures (read_fields r buf c) (fields_post c0 c r n)"
  using assms
proof (induction "length (unread c)" arbitrary: c r buf n rule: less_induct)
  case less
  show ?case
  proof (cases rule: pqGetc_cases [OF gotD(2) [OF less(2)]])
    case 1
    have "got c0 (n + 0) c" using less(2) by simp
    then have "fields_post c0 c r n (False, r, buf, c)" using less(3,4) 1(1) unfolding fields_post_def prod.case
      by (intro conjI exI [of _ 0]) simp_all
    then show ?thesis using 1 by (subst read_fields.simps) simp
  next
    case (2 b)
    let ?c1 = "skip 1 c"
    have "1 \<le> length (unread c)" unfolding 2(1) by simp
    then have g1: "got c0 (n + 1) ?c1" by (rule got_skip [OF less(2)])
    show ?thesis
    proof (cases "b = 0")
      case True
      have "fields_post c0 c r n (True, r, buf, ?c1)" using less(3,4) g1 2(1) True unfolding fields_post_def prod.case
        by (intro conjI exI [of _ 1]) (simp_all add: error_fields.simps)
      then show ?thesis using 2 True by (subst read_fields.simps) simp
    next
      case False
      have "ensures (pqGets buf ?c1) (\<lambda>x. ensures (case x of (r', buf, conn) \<Rightarrow> if r' \<noteq> 0 then Some (False, r, buf, conn)
        else Option.bind (eb_cstr buf) (\<lambda>v. Option.bind (pqSaveMessageField (e_alloc (env conn)) r b v) (\<lambda>(res, a).
          read_fields res buf (set_alloc a conn)))) (fields_post c0 c r n))"
      proof (rule pqGets_got [OF g1 less(4)], goal_cases)
        case 1
        have "error_fields (unread c) = None" using 1 2(1) False by (simp add: error_fields.simps)
        then have "fields_post c0 c r n (False, r, buf, ?c1)" using g1 less(3,4) unfolding fields_post_def prod.case
          by (intro conjI exI [of _ 1]) simp_all
        then show ?case by (simp add: EOF_def)
      next
        case (2 buf' c2)
        let ?d = "unread ?c1"
        have v: "valid_expbuf buf'" by fact
        have l: "length ?d < 2147483647" using unread_bound [OF gotD(2) [OF g1]] by simp
        have "ensures (eb_cstr buf') (\<lambda>v. ensures (Option.bind (pqSaveMessageField (e_alloc (env c2)) r b v) (\<lambda>(res, a).
          read_fields res buf' (set_alloc a c2))) (fields_post c0 c r n))"
        proof (rule cstr_ensures [OF v], unfold ensures_bind, goal_cases)
          case (1 w)
          note w = 1(2)
          have wl: "length w \<le> length (c_str ?d)"
          proof (cases "PQExpBufferBroken buf'")
            case True
            then show ?thesis using 1(2) v by (auto simp: eb_contents_def valid_expbuf_def PQExpBufferBroken_def c_str_def split: option.splits)
          next
            case False
            then show ?thesis using 1(2) 2 by simp
          qed
          show ?case
          proof (rule ensures_mono [OF pqSaveMessageField_ensures [OF less(3) 1(1)]], clarify, goal_cases)
            case (1 r' a')
            have g2: "got c0 (n + 1 + (length (c_str ?d) + 1)) (set_alloc a' c2)" by (rule got_alloc [OF 2(1)]) (use 1 in auto)
            have u: "unread (set_alloc a' c2) = drop (length (c_str ?d) + 1) ?d" using 2 by simp
            have sh: "length (unread (set_alloc a' c2)) < length (unread c)"
              using c_str_drop_length [OF 2(2)] u \<open>unread c = b # unread (skip 1 c)\<close> by simp
            from less(1) [OF sh g2 1(1) v] show ?case
            proof (rule ensures_mono, goal_cases)
              case (1 x)
              obtain ok r2 buf2 c3 where x: "x = (ok, r2, buf2, c3)" by (cases x)
              let ?l = "length (c_str ?d)"
              note post = 1 [unfolded x fields_post_def prod.case]
              obtain k where k: "got c0 (n + 1 + (?l + 1) + k) c3" "fields_size r2 \<le> fields_size r' + k" using post by blast
              have fb: "fields_size r' \<le> fields_size r + (?l + 2)"
                using \<open>errFields r' = _ \<or> _\<close> wl by (auto simp: fields_size_def)
              have fl: "fields_only r r2" using post \<open>fields_only r r'\<close> by (blast intro: fields_only_trans)
              have "got c0 (n + (?l + 2 + k)) c3 \<and> fields_size r2 \<le> fields_size r + (?l + 2 + k)"
                using k fb by (simp add: ac_simps)
              moreover have "case error_fields (unread c) of None \<Rightarrow> \<not> ok
                | Some (fs, k) \<Rightarrow> ok \<and> got c0 (n + k) c3 \<and> errFields r2 = rev fs @ errFields r" if p: "plenty (e_alloc (env c0))"
              proof -
                have "plenty (e_alloc (env ?c1))" "plenty (e_alloc (env c2))" using gotD(4) [OF g1] gotD(4) [OF 2(1)] p by simp_all
                then have "w = c_str ?d" "errFields r' = (b, w) # errFields r" using 2 w \<open>plenty (e_alloc (env c2)) \<longrightarrow> _\<close> by auto
                moreover have "error_fields (unread c) = map_option (\<lambda>(fs, k). ((b, c_str ?d) # fs, ?l + 2 + k)) (error_fields (drop (?l + 1) ?d))"
                  using 2(2) False \<open>unread c = b # _\<close> by (simp add: error_fields.simps)
                ultimately show ?thesis using post p u by (auto simp: ac_simps split: option.splits)
              qed
              ultimately show ?case using post fl unfolding x fields_post_def prod.case by blast
            qed
          qed
        qed
        then show ?case by simp
      qed
      then show ?thesis using 2 False by (subst read_fields.simps) (simp cong: prod.case_cong if_cong)
    qed
  qed
qed



section \<open>With plenty of memory there stays plenty\<close>

lemma enlarge_plenty: "enlargePQExpBuffer a b n = Some (r, b', a') \<Longrightarrow> plenty a \<Longrightarrow> plenty a'"
  by (auto simp: enlargePQExpBuffer_def Let_def bind_Some_iff c_realloc_def split: if_splits)

lemma binary_plenty: "appendBinaryPQExpBuffer a b bs = Some (b', a') \<Longrightarrow> plenty a \<Longrightarrow> plenty a'"
  by (auto simp: appendBinaryPQExpBuffer_def Let_def bind_Some_iff split: if_splits dest: enlarge_plenty)

lemma str_plenty: "appendPQExpBufferStr a b s = Some (b', a') \<Longrightarrow> plenty a \<Longrightarrow> plenty a'"
  by (auto simp: appendPQExpBufferStr_def bind_Some_iff dest: binary_plenty)

lemma char_plenty: "appendPQExpBufferChar a b c = Some (b', a') \<Longrightarrow> plenty a \<Longrightarrow> plenty a'"
  by (auto simp: appendPQExpBufferChar_is_Binary dest: binary_plenty)

lemma append_loop_plenty': "append_loop a b t = Some r \<Longrightarrow> plenty a \<longrightarrow> plenty (snd r)"
proof (rule append_loop.raw_induct [of "\<lambda>a b t r. plenty a \<longrightarrow> plenty (snd r)"], goal_cases)
  case (1 rec a b t r)
  then show ?case by (cases r) (fastforce simp: bind_Some_iff split: if_splits dest: enlarge_plenty)
qed

lemma append_loop_plenty: "append_loop a b t = Some (b', a') \<Longrightarrow> plenty a \<Longrightarrow> plenty a'"
  using append_loop_plenty' by fastforce

lemma append_plenty: "appendPQExpBuffer a b t = Some (b', a') \<Longrightarrow> plenty a \<Longrightarrow> plenty a'"
  by (auto simp: appendPQExpBuffer_def split: if_splits dest: append_loop_plenty)

lemma do_append_plenty: "do_append a b c = Some (b', a') \<Longrightarrow> plenty a \<Longrightarrow> plenty a'"
  by (cases c) (auto dest: append_plenty str_plenty char_plenty)

lemma do_appends_plenty: "do_appends a b cs = Some (b', a') \<Longrightarrow> plenty a \<Longrightarrow> plenty a'"
  by (induction cs arbitrary: a b) (auto simp: bind_Some_iff dest: do_append_plenty)

lemma spaces_plenty: "append_spaces a b n = Some (b', a') \<Longrightarrow> plenty a \<Longrightarrow> plenty a'"
  by (induction n arbitrary: a b) (auto simp: bind_Some_iff dest: char_plenty)

lemma show_position_plenty: "show_position a b s l e c = Some (b', a') \<Longrightarrow> plenty a \<Longrightarrow> plenty a'"
  by (auto simp: show_position_def bind_Some_iff Let_def split: if_splits dest!: append_plenty str_plenty char_plenty spaces_plenty)

lemma reportErrorPosition_plenty: "reportErrorPosition a b q l e = Some (b', a') \<Longrightarrow> plenty a \<Longrightarrow> plenty a'"
  by (auto simp: reportErrorPosition_def bind_Some_iff Let_def split: if_splits option.splits dest: show_position_plenty)


section \<open>The text\<close>

fun call_text :: "append_call \<Rightarrow> byte list" where
  "call_text (Fmt t) = t"
| "call_text (Str s) = s"
| "call_text (Chr c) = [c]"

fun call_ok :: "append_call \<Rightarrow> bool" where
  "call_ok (Fmt t) \<longleftrightarrow> length t < 2147483648"
| "call_ok (Str s) \<longleftrightarrow> str_ok s"
| "call_ok (Chr c) \<longleftrightarrow> True"

lemma do_append_spec:
  assumes "valid_expbuf buf" "call_ok c"
  shows "\<exists>buf' a'. do_append a buf c = Some (buf', a') \<and> appended buf (call_text c) buf'"
proof (cases c)
  case (Fmt t)
  then show ?thesis using appendPQExpBuffer_spec [OF assms(1), of t a] assms(2) by simp
next
  case (Str t)
  then have "0 \<notin> set t" "length t < 2147483647" using assms(2) by (simp_all add: str_ok_def)
  then show ?thesis using appendPQExpBufferStr_spec [OF assms(1), of "t @ [0]" a] Str by (simp add: c_str_append)
next
  case (Chr ch)
  then show ?thesis using appendPQExpBufferChar_spec [OF assms(1)] by simp
qed

lemma do_appends_spec:
  "valid_expbuf buf \<Longrightarrow> \<forall>c \<in> set cs. call_ok c \<Longrightarrow>
     \<exists>buf' a'. do_appends a buf cs = Some (buf', a') \<and> appended buf (concat (map call_text cs)) buf'"
proof (induction cs arbitrary: a buf)
  case Nil
  then show ?case using appended_refl [OF Nil(1)] by simp
next
  case (Cons c cs)
  obtain b1 a1 where 1: "do_append a buf c = Some (b1, a1)" "appended buf (call_text c) b1"
    using do_append_spec [OF Cons(2), of c a] Cons(3) by auto
  obtain b2 a2 where 2: "do_appends a1 b1 cs = Some (b2, a2)" "appended b1 (concat (map call_text cs)) b2"
    using Cons(1) [OF appended_valid [OF 1(2)], of a1] Cons(3) by auto
  show ?case using 1 2 appended_trans [OF 1(2) 2(2)] by simp
qed

lemma find_field_in: "find_field fs code = Some v \<Longrightarrow> (code, v) \<in> set fs"
  by (induction fs) (auto split: if_splits)

lemma field_text_ok:
  assumes "result_ok res" "fields_size res \<le> 2147475456" "PQresultErrorField (Some res) code = Some v"
  shows "str_ok v" "length v < 2147475456"
proof -
  have m: "(code, v) \<in> set (errFields res)" using assms(3) by (simp add: PQresultErrorField_def find_field_in)
  show "str_ok v" using m assms(1) by (auto simp: result_ok_def)
  have "length v + 1 \<le> fields_size res" unfolding fields_size_def using member_le_sum_list [of "length v + 1" "map (\<lambda>(c, v). length v + 1) (errFields res)"] m
    by force
  then show "length v < 2147475456" using assms(2) by simp
qed

lemma two_fields_sum:
  "(c1, v1) \<in> set fs \<Longrightarrow> (c2, v2) \<in> set fs \<Longrightarrow> c1 \<noteq> c2 \<Longrightarrow> length v1 + length v2 + 2 \<le> sum_list (map (\<lambda>(c, v). length v + 1) fs)"
proof (induction fs)
  case (Cons f fs)
  have m: "length v + 1 \<le> sum_list (map (\<lambda>(c, v). length v + 1) fs)" if "(c, v) \<in> set fs" for c v
    using member_le_sum_list [of "length v + 1" "map (\<lambda>(c, v). length v + 1) fs"] that by force
  show ?case using Cons m by fastforce
qed simp

lemma two_fields_ok:
  assumes "result_ok res" "fields_size res \<le> 2147475456" "PQresultErrorField (Some res) c1 = Some v1" "PQresultErrorField (Some res) c2 = Some v2" "c1 \<noteq> c2"
  shows "length v1 + length v2 < 2147475456"
  using two_fields_sum [of c1 v1 "errFields res" c2 v2] assms by (simp add: PQresultErrorField_def find_field_in fields_size_def)

lemma opt_fmt_ok: "(\<And>v. o' = Some v \<Longrightarrow> length (f v) < 2147483648) \<Longrightarrow> \<forall>c \<in> set (opt_fmt o' f). call_ok c"
  by (cases o') (auto simp: opt_fmt_def)

lemma head_calls_ok:
  assumes "result_ok res" "fields_size res \<le> 2147475456"
  shows "\<forall>x \<in> set (head_calls c res). call_ok x"
proof -
  note f = field_text_ok [OF assms]
  have "length (v @ lit '':  '') < 2147483648" if "PQresultErrorField (Some res) PG_DIAG_SEVERITY = Some v" for v using f(2) [OF that] by simp
  moreover have "length (v @ lit '': '') < 2147483648" if "PQresultErrorField (Some res) PG_DIAG_SQLSTATE = Some v" for v using f(2) [OF that] by simp
  ultimately show ?thesis unfolding head_calls_def set_append ball_Un
    by (intro conjI; (rule opt_fmt_ok)?) (auto simp: f opt_fmt_def split: option.splits if_splits)
qed

lemma position_calls_ok:
  assumes "result_ok res" "fields_size res \<le> 2147475456" "position_calls c res = (calls, q, pos)"
  shows "\<forall>x \<in> set calls. call_ok x"
  using assms(3) field_text_ok(2) [OF assms(1,2)]
  by (fastforce simp: position_calls_def Let_def split: option.splits if_splits)

lemma detail_calls_ok:
  assumes "result_ok res" "fields_size res \<le> 2147475456"
  shows "\<forall>x \<in> set (detail_calls c res). call_ok x"
proof -
  note f = field_text_ok(2) [OF assms]
  have f': "length v < 2147475456" if "Some v = PQresultErrorField (Some res) code" for v code using f that by metis
  have pq: "str_ok (lit ''LOCATION:  '')" by (simp add: str_ok_def c_bytes_def)
  have "length (vf @ lit '':'' @ vl) < 2147483648"
    if "PQresultErrorField (Some res) PG_DIAG_SOURCE_FILE = Some vf" "PQresultErrorField (Some res) PG_DIAG_SOURCE_LINE = Some vl" for vf vl
    using two_fields_ok [OF assms that] by (simp add: PG_DIAG_SOURCE_FILE_def PG_DIAG_SOURCE_LINE_def)
  then show ?thesis using pq unfolding detail_calls_def Let_def
    by (auto simp: opt_fmt_def dest: f f' split: option.splits if_splits)
qed


text \<open>
  The query that is shown with a marker under the error, if one is. It has to be a C string of complete characters in
  the encoding of the client (or of any bytes, in a single-byte encoding).
\<close>

definition shown_query :: "pg_conn \<Rightarrow> pg_result \<Rightarrow> byte list option" where
  "shown_query c res = (case position_calls c res of (calls, q, pos) \<Rightarrow> if verbosity c \<noteq> PQERRORS_TERSE \<and> pos > 0 then q else None)"

definition displayable :: "int \<Rightarrow> byte list \<Rightarrow> bool" where
  "displayable e q \<longleftrightarrow> 0 \<notin> set q \<and> length q < 2 ^ 29 \<and> (pg_encoding_max_length e = Some 1 \<or> whole_chars e q)"

definition message_head :: "pg_conn \<Rightarrow> pg_result \<Rightarrow> byte list" where
  "message_head c res = concat (map call_text (head_calls c res @ fst (position_calls c res) @ [Chr 0x0A]))"

definition message_tail :: "pg_conn \<Rightarrow> pg_result \<Rightarrow> byte list" where
  "message_tail c res = concat (map call_text (detail_calls c res))"

text \<open>\<open>quiet c c'\<close>: nothing of the query has changed.\<close>

definition quiet :: "pg_conn \<Rightarrow> pg_conn \<Rightarrow> bool" where
  "quiet c c' \<longleftrightarrow> moved c c' \<and> result c' = result c \<and> curTuple c' = curTuple c \<and> asyncStatus c' = asyncStatus c \<and> inCursor c' = inCursor c \<and>
     errorMessage c' = errorMessage c"

lemma set_alloc_last [simp]: "set_alloc a (c\<lparr>last_sqlstate := v\<rparr>) = (set_alloc a c)\<lparr>last_sqlstate := v\<rparr>"
  by (simp add: set_alloc_def)

lemma quiet_intros: "state_ok c \<Longrightarrow> quiet c (set_alloc a c)" "state_ok c \<Longrightarrow> quiet c ((set_alloc a c)\<lparr>last_sqlstate := v\<rparr>)"
  by (simp_all add: quiet_def)

lemma build_message_ensures:
  assumes "state_ok c" "result_ok res" "fields_size res \<le> 2147475456" "valid_expbuf buf"
    "\<And>q. shown_query c res = Some q \<Longrightarrow> displayable (client_encoding c) q"
  shows "ensures (build_message c res buf) (\<lambda>(buf', c'). valid_expbuf buf' \<and> quiet c c' \<and>
    (plenty (e_alloc (env c)) \<longrightarrow> plenty (e_alloc (env c'))) \<and>
    (\<not> PQExpBufferBroken buf' \<longrightarrow> (\<exists>t. eb_contents buf' = message_head c res @ t @ message_tail c res \<and> (shown_query c res = None \<longrightarrow> t = []))))"
proof -
  obtain b1 a1 where 1: "resetPQExpBuffer (e_alloc (env c)) buf = Some (b1, a1)" "valid_expbuf b1" "eb_contents b1 = []"
    using resetPQExpBuffer_spec [OF assms(4), of "e_alloc (env c)"] by blast
  define c1 where "c1 = (case PQresultErrorField (Some res) PG_DIAG_SQLSTATE of None \<Rightarrow> c
    | Some v \<Rightarrow> if length v < 6 then c\<lparr>last_sqlstate := v\<rparr> else c)"
  have c1: "verbosity c1 = verbosity c" "last_query c1 = last_query c" "client_encoding c1 = client_encoding c" "\<And>a. quiet c (set_alloc a c1)"
    using assms(1) by (auto simp: c1_def quiet_intros split: option.splits)
  have same: "head_calls c1 res = head_calls c res" "position_calls c1 res = position_calls c res" "detail_calls c1 res = detail_calls c res"
    unfolding head_calls_def position_calls_def detail_calls_def c1(1,2) by (rule refl)+
  obtain calls q pos where p: "position_calls c res = (calls, q, pos)" by (cases "position_calls c res")
  have "\<forall>x \<in> set (head_calls c res @ calls @ [Chr 0x0A]). call_ok x"
    using head_calls_ok [OF assms(2,3)] position_calls_ok [OF assms(2,3) p] by auto
  from do_appends_spec [OF 1(2) this, of a1] obtain b2 a2 where
    2: "do_appends a1 b1 (head_calls c res @ calls @ [Chr 0x0A]) = Some (b2, a2)" "appended b1 (message_head c res) b2"
    using p by (auto simp: message_head_def)
  define X where "X = (case q of None \<Rightarrow> Some (b2, a2) | Some q \<Rightarrow> if verbosity c1 \<noteq> PQERRORS_TERSE \<and> pos > 0
      then reportErrorPosition a2 b2 q pos (client_encoding c1) else Some (b2, a2))"
  have "\<exists>b3 a3 t. X = Some (b3, a3) \<and> appended b2 t b3 \<and> (shown_query c res = None \<longrightarrow> t = [])"
  proof (cases "shown_query c res")
    case None
    then show ?thesis using p c1(1) appended_refl [OF appended_valid [OF 2(2)]] by (auto simp: X_def shown_query_def split: option.splits if_splits)
  next
    case (Some s)
    then have s: "q = Some s" "verbosity c \<noteq> PQERRORS_TERSE" "pos > 0" using p by (auto simp: shown_query_def split: if_splits)
    have d: "displayable (client_encoding c) s" using assms(5) Some by blast
    have "PG_VALID_ENCODING (client_encoding c)" using assms(1) by (simp add: state_ok_def)
    then have "\<exists>msg' a' t. reportErrorPosition a2 b2 s pos (client_encoding c) = Some (msg', a') \<and> appended b2 t msg'"
      using d by (intro reportErrorPosition_spec [OF appended_valid [OF 2(2)]]) (auto simp: displayable_def)
    then show ?thesis using s c1(1,3) Some by (auto simp: X_def)
  qed
  then obtain b3 a3 t where 3: "X = Some (b3, a3)" "appended b2 t b3" "shown_query c res = None \<longrightarrow> t = []" by (elim exE conjE)
  obtain b4 a4 where 4: "do_appends a3 b3 (detail_calls c res) = Some (b4, a4)" "appended b3 (message_tail c res) b4"
    using do_appends_spec [OF appended_valid [OF 3(2)] detail_calls_ok [OF assms(2,3), of c], of a3] by (auto simp: message_tail_def)
  have "build_message c res buf = Some (b4, set_alloc a4 c1)"
    using 1(1) 2(1) 3(1) [unfolded X_def] 4(1) p unfolding build_message_def c1_def [symmetric] same by (simp add: same)
  moreover have "appended b1 (message_head c res @ t @ message_tail c res) b4"
    using appended_trans [OF appended_trans [OF 2(2) 3(2)] 4(2)] by simp
  moreover have "plenty a4" if p0: "plenty (e_alloc (env c))"
  proof -
    have "plenty a1" using resetPQExpBuffer_plenty [OF assms(4) p0] 1(1) p0 by auto
    then have "plenty a2" using do_appends_plenty [OF 2(1)] by blast
    then have "plenty a3" using 3(1) by (auto simp: X_def split: option.splits if_splits dest: reportErrorPosition_plenty)
    then show ?thesis using do_appends_plenty [OF 4(1)] by blast
  qed
  ultimately show ?thesis using 1(3) 3(3) c1(4) by (auto simp: appended_def)
qed



section \<open>The message\<close>

definition error_status :: "bool \<Rightarrow> ExecStatusType" where
  "error_status isError = (if isError then PGRES_FATAL_ERROR else PGRES_NONFATAL_ERROR)"

definition read_post where
  "read_post c isError = (\<lambda>(ro, buf, c'). valid_expbuf buf \<and> (\<exists>k. got c k c') \<and>
     (\<forall>res. ro = Some res \<longrightarrow> result_ok res \<and> fields_size res \<le> 2147475456 \<and> resultStatus res = error_status isError \<and> ntups res = 0) \<and>
     (plenty (e_alloc (env c)) \<longrightarrow> (case error_fields (unread c) of None \<Rightarrow> ro = None
        | Some (fs, k) \<Rightarrow> got c k c' \<and> (\<exists>res. ro = Some res \<and> errFields res = rev fs))))"

lemma initPQExpBuffer_ensures:
  assumes "\<And>b a'. valid_expbuf b \<Longrightarrow> (plenty a \<Longrightarrow> a' = a) \<Longrightarrow> P (b, a')"
  shows "ensures (initPQExpBuffer a) P"
proof -
  obtain b a' where b: "initPQExpBuffer a = Some (b, a')" "valid_expbuf b" using initPQExpBuffer_spec [of a] by blast
  moreover have "a' = a" if "plenty a" using initPQExpBuffer_plenty [OF that] b(1) by auto
  ultimately show ?thesis using assms by simp
qed

lemma read_error_message_ensures:
  assumes "state_ok c"
  shows "ensures (read_error_message c isError) (read_post c isError)"
  unfolding read_error_message_def ensures_bind error_status_def [symmetric]
proof (rule initPQExpBuffer_ensures, unfold prod.case ensures_bind, goal_cases)
  case (1 b a1)
  have g1: "got c 0 (set_alloc a1 c)" by (rule got_alloc) (use assms 1 in auto)
  have ne: "\<not> is_error_status PGRES_EMPTY_QUERY" by (simp add: is_error_status_def)
  show ?case
  proof (rule makeEmpty_got [OF g1 ne], goal_cases)
    case (1 a2)
    then show ?case using \<open>valid_expbuf b\<close> by (auto simp: read_post_def)
  next
    case (2 a2)
    let ?r = "(empty_result (noticeRec (set_alloc a1 c)) (client_encoding (set_alloc a1 c)) PGRES_EMPTY_QUERY)\<lparr>resultStatus := error_status isError\<rparr>"
    have r: "result_ok ?r" "fields_size ?r = 0" "resultStatus ?r = error_status isError" "ntups ?r = 0" "errFields ?r = []"
      using result_ok_empty [of "noticeRec (set_alloc a1 c)" "client_encoding (set_alloc a1 c)" PGRES_EMPTY_QUERY]
      by (auto simp: result_ok_def error_status_def fields_size_def)
    let ?c2 = "set_alloc a2 (set_alloc a1 c)"
    have u: "unread ?c2 = unread c" by simp
    have "ensures (read_fields ?r b ?c2) (\<lambda>(ok, res, workBuf, conn). read_post c isError (if ok then Some res else None, workBuf, conn))"
    proof (rule ensures_mono [OF read_fields_ensures [OF 2 r(1) \<open>valid_expbuf b\<close>]], clarify, goal_cases)
      case (1 ok res buf c')
      note post = 1 [unfolded fields_post_def prod.case]
      then obtain k where k: "got c (0 + k) c'" "fields_size res \<le> k" using r(2) by auto
      have "fields_size res \<le> 2147475456" using k gotD(3) [OF k(1)] unread_bound [OF assms] by linarith
      moreover have "fields_only ?r res" using post by blast
      note f = fields_only_fields [OF this]
      moreover have "case error_fields (unread c) of None \<Rightarrow> \<not> ok | Some (fs, k) \<Rightarrow> ok \<and> got c (0 + k) c' \<and> errFields res = rev fs @ errFields ?r"
        if "plenty (e_alloc (env c))"
        using post that unfolding u by blast
      ultimately show ?case using post r k(1) f unfolding read_post_def prod.case by (auto split: option.splits)
    qed
    then show ?case by (auto simp: Let_def elim!: ensures_mono)
  qed
qed

definition display_ok :: "pg_conn \<Rightarrow> bool" where
  "display_ok c \<longleftrightarrow> list_all (\<lambda>isError. case read_error_message c isError of
       Some (Some res, buf, c') \<Rightarrow> (case shown_query c' res of None \<Rightarrow> True | Some q \<Rightarrow> displayable (client_encoding c') q)
     | _ \<Rightarrow> True) [False, True]"

definition error_text :: "pg_conn \<Rightarrow> pg_result \<Rightarrow> byte list" where
  "error_text c res = message_head c res @ message_tail c res"

definition error_post where
  "error_post c isError = (\<lambda>(r, c'). calm c c' \<and> (r = 0 \<and> isError \<longrightarrow> error_result c') \<and>
     (plenty (e_alloc (env c)) \<longrightarrow> (case error_fields (unread c) of None \<Rightarrow> r = EOF
        | Some (fs, k) \<Rightarrow> r = 0 \<and> inCursor c' = inCursor c + int k \<and> asyncStatus c' = asyncStatus c \<and>
            (isError \<longrightarrow> (\<exists>res m. result c' = Some res \<and> resultStatus res = PGRES_FATAL_ERROR \<and> errFields res = rev fs \<and> errMsg res = Some m \<and>
               (shown_query c res = None \<longrightarrow> m = [] \<or> m = c_str (error_text c res)))))))"

lemma message_text_cong:
  assumes "errFields r' = errFields r" "verbosity c' = verbosity c" "last_query c' = last_query c"
  shows "error_text c' r' = error_text c r" "shown_query c' r' = shown_query c r"
  unfolding error_text_def message_head_def message_tail_def shown_query_def head_calls_def position_calls_def detail_calls_def
    PQresultErrorField_def option.case assms by (rule refl)+

lemma append_error_ensures:
  assumes "calm c c'" "str_ok t" "\<And>c''. calm c c'' \<Longrightarrow> result c'' = result c' \<Longrightarrow> asyncStatus c'' = asyncStatus c' \<Longrightarrow>
    inCursor c'' = inCursor c' \<Longrightarrow> Q (c'' :: pg_conn)"
  shows "ensures (appendPQExpBufferStr (e_alloc (env c')) (errorMessage c') (t @ [0])) (\<lambda>(str, a). Q (set_alloc a (c'\<lparr>errorMessage := str\<rparr>)))"
proof -
  have s: "state_ok c'" using calmD(5) [OF assms(1)] .
  then have "valid_expbuf (errorMessage c')" by (simp add: state_ok_def conn_ok_def)
  moreover have "0 \<in> set (t @ [0])" "length (t @ [0]) < 2 ^ 32" using assms(2) by (simp_all add: str_ok_def)
  ultimately obtain str a where a: "appendPQExpBufferStr (e_alloc (env c')) (errorMessage c') (t @ [0]) = Some (str, a)" "valid_expbuf str"
    using appendPQExpBufferStr_spec [of "errorMessage c'" "t @ [0]" "e_alloc (env c')"] by (blast dest: appended_valid)
  have "state_ok (c'\<lparr>errorMessage := str\<rparr>)" using s a(2) by (simp add: state_ok_def conn_ok_def in_ok_def out_ok_def)
  then have "calm c (set_alloc a (c'\<lparr>errorMessage := str\<rparr>))" using assms(1)
    by (simp add: calm_def moved_def rows_of_def results_ok_def)
  then show ?thesis using a(1) by (simp add: assms(3))
qed


lemma quietD:
  assumes "quiet c c'"
  shows "moved c c'" "state_ok c'" "result c' = result c" "curTuple c' = curTuple c" "asyncStatus c' = asyncStatus c" "inCursor c' = inCursor c"
    "rows_of c' = rows_of c" "results_ok c' = results_ok c"
  using assms moved_data(4) [of c c'] moved_ok [of c c'] by (auto simp: quiet_def rows_of_def results_ok_def)

lemma calm_quiet: "calm c c1 \<Longrightarrow> quiet c1 c2 \<Longrightarrow> calm c c2"
  using quietD [of c1 c2] by (auto simp: calm_def intro: moved_trans)

lemma eb_cstr_text: "valid_expbuf b \<Longrightarrow> eb_cstr b = Some s \<Longrightarrow> s = c_str (eb_contents b)"
  by (metis eb_cstr_spec option.inject)

lemma notice_calm: "calm c c' \<Longrightarrow> calm c (c'\<lparr>env := (env c')\<lparr>e_notices := ns\<rparr>\<rparr>)"
  by (auto simp: calm_def moved_def state_ok_def conn_ok_def in_ok_def out_ok_def rows_of_def results_ok_def parse_frame_def same_events_def same_io_def)

lemma pqGetErrorNotice3_ensures:
  assumes "state_ok c" "results_ok c" "curTuple c = None" "display_ok c"
  shows "ensures (pqGetErrorNotice3 c isError) (error_post c isError)"
proof -
  obtain ro buf c1 where 1: "read_error_message c isError = Some (ro, buf, c1)" "read_post c isError (ro, buf, c1)"
    using read_error_message_ensures [OF assms(1), of isError] unfolding ensures_def by auto
  note post = 1(2) [unfolded read_post_def prod.case]
  obtain k0 where g: "got c k0 c1" using post by blast
  note calm1 = got_calm [OF g assms(2,3)]
  show ?thesis
  proof (cases ro)
    case None
    then have "error_fields (unread c) = None" if "plenty (e_alloc (env c))" using post that by (auto split: option.splits)
    then have "error_post c isError (EOF, c1)" using calm1 by (auto simp: error_post_def EOF_def)
    then show ?thesis using 1(1) None by (simp add: pqGetErrorNotice3_def)
  next
    case (Some res)
    then have r: "result_ok res" "fields_size res \<le> 2147475456" "resultStatus res = error_status isError" "ntups res = 0" using post by auto
    have disp: "displayable (client_encoding c1) q" if "shown_query c1 res = Some q" for q
      using assms(4) 1(1) Some that by (cases isError) (auto simp: display_ok_def)
    obtain b2 c2 where 2: "build_message c1 res buf = Some (b2, c2)" "valid_expbuf b2" "quiet c1 c2" "plenty (e_alloc (env c1)) \<longrightarrow> plenty (e_alloc (env c2))"
      "\<not> PQExpBufferBroken b2 \<longrightarrow> (\<exists>t. eb_contents b2 = message_head c1 res @ t @ message_tail c1 res \<and> (shown_query c1 res = None \<longrightarrow> t = []))"
      using build_message_ensures [OF gotD(2) [OF g] r(1,2) _ disp, of buf] post unfolding ensures_def by auto
    have calm2: "calm c c2" using calm1 2(3) by (rule calm_quiet)
    obtain s where s: "eb_cstr b2 = Some s" "str_ok s" "s = c_str (eb_contents b2)" by (rule eb_cstr_spec [OF 2(2)])
    have msg: "s = [] \<or> s = c_str (error_text c res')" if "errFields res' = errFields res" "shown_query c res' = None" for res'
    proof (cases "PQExpBufferBroken b2")
      case True
      then show ?thesis using s(3) 2(2)
        by (auto simp: eb_contents_def valid_expbuf_def PQExpBufferBroken_def c_str_def split: option.splits)
    next
      case False
      have c: "shown_query c1 res = shown_query c res'" "error_text c1 res = error_text c res'"
        using message_text_cong [OF that(1) [symmetric] gotD(17,18) [OF g]] by simp_all
      then show ?thesis using 2(5) False s(3) that(2) by (auto simp: error_text_def)
    qed
    have fields: "got c k c1 \<and> errFields res = rev fs" if "plenty (e_alloc (env c))" "error_fields (unread c) = Some (fs, k)" for fs k
      using post that Some by auto
    have ef: "error_fields (unread c) \<noteq> None" if "plenty (e_alloc (env c))" using post that Some by (auto split: option.splits)
    show ?thesis
    proof (cases isError)
      case False
      have p: "error_post c False (0, c3)" if "calm c c3" "inCursor c3 = inCursor c2" "asyncStatus c3 = asyncStatus c2" for c3
        using that fields ef quietD(5,6) [OF 2(3)] gotD(9,12) [OF g] unfolding error_post_def by (fastforce dest: gotD(9,12) split: option.splits)
      have "error_post c False (0, c2\<lparr>env := (env c2)\<lparr>e_notices := e_notices (env c2) @ [res\<lparr>errMsg := Some s\<rparr>]\<rparr>\<rparr>)"
        by (rule p [OF notice_calm [OF calm2]]) simp_all
      moreover have "error_post c False (0, c2)" by (rule p [OF calm2]) simp_all
      ultimately show ?thesis using False 1(1) Some 2(1) s(1) by (simp add: pqGetErrorNotice3_def Let_def)
    next
      case True
      have st: "resultStatus res = PGRES_FATAL_ERROR" using r(3) True by (simp add: error_status_def)
      have "ensures (pqResultStrdup (e_alloc (env c2)) res s) (\<lambda>x. ensures (case x of (m, res, a) \<Rightarrow> let conn = set_alloc a c2 in
          if m = None then Some (EOF, conn)
          else let conn = (pqClearAsyncResult conn)\<lparr>result := Some (res\<lparr>errMsg := m\<rparr>)\<rparr> in
            Option.bind (appendPQExpBufferStr (e_alloc (env conn)) (errorMessage conn) (s @ [0])) (\<lambda>(str, a).
              Some (0, set_alloc a (conn\<lparr>errorMessage := str\<rparr>)))) (error_post c True))"
      proof (rule strdup_ensures [OF r(1) s(2)], goal_cases)
        case (1 m r' a')
        have c2a: "calm c (set_alloc a' c2)" using calm2 by simp
        show ?case
        proof (cases m)
          case None
          have "\<not> plenty (e_alloc (env c))"
            using None 1(4) 2(4) gotD(4) [OF g] by auto
          then show ?thesis using None c2a by (simp add: error_post_def EOF_def)
        next
          case (Some m')
          then have m: "m' = s" using 1(3) by simp
          let ?r = "r'\<lparr>errMsg := Some s\<rparr>"
          let ?c3 = "(pqClearAsyncResult (set_alloc a' c2))\<lparr>result := Some ?r\<rparr>"
          have rr: "result_ok ?r" "resultStatus ?r = PGRES_FATAL_ERROR" "ntups ?r = 0" "errFields ?r = errFields res"
            using 1(1) s(2) only_space_fields [OF 1(2)] st r(4) by (auto simp: result_ok_def)
          have "0 \<le> rows_of c" using assms(2) by (auto simp: results_ok_def rows_of_def result_ok_def rows_ok_def split: option.splits)
          then have c3: "calm c ?c3" using c2a rr by (simp add: calm_def rows_of_def results_ok_def)
          have "ensures (appendPQExpBufferStr (e_alloc (env ?c3)) (errorMessage ?c3) (s @ [0]))
            (\<lambda>(str, a). error_post c True (0, set_alloc a (?c3\<lparr>errorMessage := str\<rparr>)))"
          proof (rule append_error_ensures [OF c3 s(2)], goal_cases)
            case (1 c4)
            have "error_result c4" using 1 rr calmD(3) [OF 1(1)] by (simp add: error_result_def)
            moreover have "inCursor c4 = inCursor c + int k \<and> asyncStatus c4 = asyncStatus c \<and> (\<exists>res m. result c4 = Some res \<and>
                resultStatus res = PGRES_FATAL_ERROR \<and> errFields res = rev fs \<and> errMsg res = Some m \<and>
                (shown_query c res = None \<longrightarrow> m = [] \<or> m = c_str (error_text c res)))"
              if p: "plenty (e_alloc (env c))" "error_fields (unread c) = Some (fs, k)" for fs k
            proof -
              have f: "got c k c1" "errFields res = rev fs" using fields [OF p] by simp_all
              have "shown_query c ?r = None \<longrightarrow> s = [] \<or> s = c_str (error_text c ?r)" using msg [OF rr(4)] by blast
              moreover have "inCursor c4 = inCursor c + int k" "asyncStatus c4 = asyncStatus c"
                using 1(3,4) quietD(5,6) [OF 2(3)] gotD(9,12) [OF f(1)] by simp_all
              moreover have "result c4 = Some ?r" using 1(2) by simp
              ultimately show ?thesis using rr f(2) by auto
            qed
            ultimately show ?case using 1(1) ef unfolding error_post_def prod.case by (auto split: option.splits)
          qed
          moreover have "env (pqClearAsyncResult x) = env x" "errorMessage (pqClearAsyncResult x) = errorMessage x" for x
            by (simp_all add: pqClearAsyncResult_def)
          ultimately show ?thesis using Some m by (auto simp: Let_def elim!: ensures_mono)
        qed
      qed
      then show ?thesis using True 1(1) Some 2(1) s(1) by (simp add: pqGetErrorNotice3_def Let_def)
    qed
  qed
qed

end
