(* ===== verification/ParseLoop.thy ===== *)
theory ParseLoop
  imports ParseErrors
begin

text \<open>
  The remaining handlers, the message loop, and what is true of it for every input.
\<close>

section \<open>Handlers that make no rows\<close>

lemma result_ok_cmd [simp]: "result_ok (r\<lparr>cmdStatus := t\<rparr>) = result_ok r"
  by (simp add: result_ok_def)

lemma have_result_ensures:
  assumes "state_ok c" "results_ok c" "curTuple c = None" "st = PGRES_COMMAND_OK \<or> st = PGRES_EMPTY_QUERY"
  shows "ensures (have_result st c) (\<lambda>(ok, c'). calm c c' \<and> asyncStatus c' = asyncStatus c \<and> inCursor c' = inCursor c \<and>
    workBuffer c' = workBuffer c \<and> (ok \<longrightarrow> result c' \<noteq> None) \<and>
    (plenty (e_alloc (env c)) \<longrightarrow> ok \<and> plenty (e_alloc (env c')) \<and> (\<forall>r. result c = Some r \<longrightarrow> c' = c)))"
proof (cases "result c")
  case (Some r)
  then show ?thesis using calm_refl [OF assms(1-3)] by (simp add: have_result_def)
next
  case None
  have g0: "got c 0 c" using assms(1) by simp
  have ne: "\<not> is_error_status st" using assms(4) by (auto simp: is_error_status_def)
  have "ensures (makeEmptyPGresult c st) (\<lambda>(r, c'). calm c (c'\<lparr>result := r\<rparr>) \<and> asyncStatus c' = asyncStatus c \<and> inCursor c' = inCursor c \<and>
    workBuffer c' = workBuffer c \<and> (plenty (e_alloc (env c)) \<longrightarrow> r \<noteq> None \<and> plenty (e_alloc (env c'))))"
  proof (rule makeEmpty_got [OF g0 ne], goal_cases)
    case (1 a')
    have "(set_alloc a' c)\<lparr>result := None\<rparr> = set_alloc a' c" using None by (simp add: set_alloc_def)
    then show ?case using 1 got_calm [OF 1(2) assms(2,3)] by simp
  next
    case (2 a')
    have "calm c ((set_alloc a' c)\<lparr>result := Some (empty_result (noticeRec c) (client_encoding c) st)\<rparr>)"
      by (rule got_new_result [OF 2 assms(2,3)]) (use assms(4) in auto)
    then show ?case using gotD(4) [OF 2] by simp
  qed
  then show ?thesis using None by (auto simp: have_result_def elim!: ensures_mono)
qed

lemma ready_result_ensures:
  assumes "state_ok c" "results_ok c" "curTuple c = None" "st = PGRES_COMMAND_OK \<or> st = PGRES_EMPTY_QUERY"
  shows "ensures (ready_result st c) (\<lambda>(ok, c'). calm c c')"
  using have_result_ensures [OF assms] by (auto simp: ready_result_def elim!: ensures_mono)

text \<open>The result of the command when it is complete: the command tag is cut to 64 characters.\<close>

definition tagged :: "pg_result \<Rightarrow> byte list \<Rightarrow> pg_result" where
  "tagged r tag = r\<lparr>cmdStatus := c_strncpy tag CMDSTATUS_LEN\<rparr>"

definition complete_post where
  "complete_post c = (\<lambda>(ok, c'). calm c c' \<and>
     (plenty (e_alloc (env c)) \<and> 0 \<in> set (unread c) \<longrightarrow> ok \<and> asyncStatus c' = PGASYNC_READY \<and> plenty (e_alloc (env c')) \<and>
        inCursor c' = inCursor c + int (length (c_str (unread c))) + 1 \<and>
        (\<forall>r. result c = Some r \<longrightarrow> result c' = Some (tagged r (c_str (unread c))))))"

lemma command_complete_ensures:
  assumes "state_ok c" "results_ok c" "curTuple c = None"
  shows "ensures (command_complete c) (complete_post c)"
proof -
  have g0: "got c 0 c" using assms(1) by simp
  show ?thesis unfolding command_complete_def ensures_bind
  proof (rule gets_work_got [OF g0], goal_cases)
    case 1
    then show ?case using calm_refl [OF assms] by (simp add: EOF_def complete_post_def)
  next
    case (2 c1)
    note g = this
    have s1: "state_ok c1" "results_ok c1" "curTuple c1 = None" using gotD [OF 2(1)] got_result [OF 2(1)] assms by auto
    have c1: "calm c c1" by (rule got_calm [OF 2(1) assms(2,3)])
    have "ensures (have_result PGRES_COMMAND_OK c1) (\<lambda>x. ensures (case x of (ok, conn) \<Rightarrow> if \<not> ok then Some (False, conn)
        else Option.bind (eb_cstr (workBuffer conn)) (\<lambda>tag. Option.bind (result conn) (\<lambda>res.
          Some (True, conn\<lparr>result := Some (res\<lparr>cmdStatus := c_strncpy tag CMDSTATUS_LEN\<rparr>), asyncStatus := PGASYNC_READY\<rparr>))))
      (complete_post c))"
    proof (rule ensures_mono [OF have_result_ensures [OF s1]], simp, clarify, goal_cases)
      case (1 ok c2)
      have c2: "calm c c2" using calm_trans [OF c1 1(1)] .
      show ?case
      proof (cases ok)
        case False
        then show ?thesis using c2 1(6) gotD(4) [OF 2(1)] by (auto simp: complete_post_def)
      next
        case True
        then obtain res where res: "result c2 = Some res" using 1(5) by auto
        let ?c3 = "\<lambda>t. c2\<lparr>result := Some (res\<lparr>cmdStatus := t\<rparr>), asyncStatus := PGASYNC_READY\<rparr>"
        have c3: "calm c (?c3 t)" for t using c2 res by (simp add: calm_def rows_of_def results_ok_def)
        have w: "valid_expbuf (workBuffer c2)" using calmD(5) [OF c2] by (rule state_ok_work)
        have "ensures (eb_cstr (workBuffer c2)) (\<lambda>tag. complete_post c (True, ?c3 (c_strncpy tag CMDSTATUS_LEN)))"
        proof (rule cstr_ensures [OF w], goal_cases)
          case (1 tag)
          have "tag = c_str (unread c)" "plenty (e_alloc (env c2))" "\<forall>r. result c = Some r \<longrightarrow> res = r" if p: "plenty (e_alloc (env c))"
            using 1(2) g \<open>workBuffer c2 = _\<close> \<open>plenty (e_alloc (env c1)) \<longrightarrow> _\<close> gotD(4,7) [OF g(1)] res p by auto
          then show ?case using c3 g(2) gotD(12) [OF g(1)] \<open>inCursor c2 = inCursor c1\<close> by (auto simp: complete_post_def tagged_def)
        qed
        then show ?thesis using True res by (auto elim!: ensures_mono)
      qed
    qed
    then show ?case by simp
  qed
qed

lemma getReadyForQuery_ensures:
  assumes "state_ok c" "results_ok c" "curTuple c = None"
  shows "ensures (getReadyForQuery c) (\<lambda>(r, c'). calm c c')"
proof -
  have g0: "got c 0 c" using assms(1) by simp
  note calmI = got_calm [OF _ assms(2,3)]
  show ?thesis unfolding getReadyForQuery_def
    by (rule getc_got [OF g0]) (use calmI calm_refl [OF assms] in \<open>auto\<close>)
qed

lemma getNotify_ensures:
  assumes "state_ok c" "results_ok c" "curTuple c = None"
  shows "ensures (getNotify c) (\<lambda>(r, c'). calm c c')"
proof -
  have g0: "got c 0 c" using assms(1) by simp
  note calmI = got_calm [OF _ assms(2,3)]
  show ?thesis unfolding getNotify_def
  proof (rule getInt_got [OF g0], goal_cases)
    case 2
    then show ?case using calm_refl [OF assms] by simp
  next
    case (3 pid c1)
    show ?case unfolding ensures_bind
    proof (rule gets_work_got [OF 3(1)], goal_cases)
      case 1
      then show ?case using calmI [OF 3(1)] by (simp add: EOF_def)
    next
      case (2 c2)
      let ?a = "after_alloc (e_alloc (env c2))"
      have g3: "got c (0 + 4 + (length (c_str (unread c1)) + 1)) (set_alloc ?a c2)" by (rule got_alloc [OF 2(1)]) simp
      have w: "valid_expbuf (workBuffer c2)" using gotD(2) [OF 2(1)] by (rule state_ok_work)
      have "ensures (gets_work (set_alloc ?a c2)) (\<lambda>x. ensures (case x of (r, conn) \<Rightarrow>
          if r \<noteq> 0 then Some (EOF, conn)
          else Option.bind (eb_cstr (workBuffer conn)) (\<lambda>ext.
            let ok = next_ok (e_alloc (env conn)); conn = set_alloc (after_alloc (e_alloc (env conn))) conn in
            Some (0, if ok then conn\<lparr>notifies := notifies conn @ [\<lparr>relname = svname, notify_be_pid = pid, extra = ext\<rparr>]\<rparr> else conn)))
          (\<lambda>(r, c'). calm c c'))" for svname
      proof (rule gets_work_got [OF g3], goal_cases)
        case 1
        then show ?case using calmI [OF g3] by (simp add: EOF_def)
      next
        case (2 c4)
        have w: "valid_expbuf (workBuffer c4)" using gotD(2) [OF 2(1)] by (rule state_ok_work)
        show ?case using calmI [OF 2(1)] by (auto simp: Let_def intro: cstr_ensures [OF w])
      qed
      then show ?case using calmI [OF g3] by (auto simp: Let_def intro: cstr_ensures [OF w])
    qed
  qed simp
qed


section \<open>Parameters\<close>

lemma encoding_valid:
  assumes "str_ok v"
  shows "\<exists>e. pg_char_to_encoding ct (Some v) = Some e \<and> (e < 0 \<or> PG_VALID_ENCODING e)"
proof (cases "v = [] \<or> NAMEDATALEN \<le> length v")
  case True
  then show ?thesis by (auto simp: pg_char_to_encoding_def pg_char_to_encname_struct_def)
next
  case False
  have valid: "list_all (\<lambda>p. PG_VALID_ENCODING (snd p)) pg_encname_tbl"
    by (simp add: pg_encname_tbl_def PG_VALID_ENCODING_def)
  have "PG_VALID_ENCODING e" if "enc_lookup (clean_encoding_name ct v) = Some (nm, e)" for nm e
    using that valid by (force simp: enc_lookup_iff list_all_iff)
  then show ?thesis using pg_char_to_encoding_eq [of v ct] False assms
    by (auto simp: str_ok_def split: option.splits)
qed

lemma parse_frame_parameters [simp]:
  "parse_frame c (c'\<lparr>pstatus := a\<rparr>) = parse_frame c c'" "parse_frame c (c'\<lparr>sversion := b\<rparr>) = parse_frame c c'"
  "parse_frame c (c'\<lparr>client_encoding := d\<rparr>) = parse_frame c c'" "parse_frame c (c'\<lparr>std_strings := e\<rparr>) = parse_frame c c'"
  "parse_frame c (c'\<lparr>env := (env c')\<lparr>static_client_encoding := f\<rparr>\<rparr>) = parse_frame c c'"
  "parse_frame c (c'\<lparr>env := (env c')\<lparr>static_std_strings := g\<rparr>\<rparr>) = parse_frame c c'"
  by (auto simp: parse_frame_def same_events_def same_io_def)

lemma state_ok_parameters [simp]:
  "state_ok (c\<lparr>pstatus := a\<rparr>) = state_ok c" "state_ok (c\<lparr>sversion := b\<rparr>) = state_ok c" "state_ok (c\<lparr>std_strings := e\<rparr>) = state_ok c"
  "state_ok (c\<lparr>client_encoding := d\<rparr>) = (conn_ok c \<and> PG_VALID_ENCODING d)"
  by (simp_all add: state_ok_def)

lemma calm_parameters:
  assumes "calm c c'" "conn_ok c'" "PG_VALID_ENCODING e"
  shows "calm c (c'\<lparr>pstatus := a\<rparr>)" "calm c (c'\<lparr>sversion := b\<rparr>)"
    "calm c (c'\<lparr>client_encoding := e, env := (env c')\<lparr>static_client_encoding := f\<rparr>\<rparr>)"
    "calm c (c'\<lparr>std_strings := g, env := (env c')\<lparr>static_std_strings := h\<rparr>\<rparr>)"
proof -
  have [simp]: "parse_frame c c'" "state_ok c'" "inCursor c \<le> inCursor c'" "results_ok c'" "curTuple c' = None" "rows_of c' \<le> rows_of c"
    using assms(1) by (auto simp: calm_def moved_def)
  have [simp]: "results_ok (c'\<lparr>pstatus := a\<rparr>)" "rows_of (c'\<lparr>pstatus := a\<rparr>) = rows_of c'" for a
    using \<open>results_ok c'\<close> by (simp_all add: results_ok_def rows_of_def)
  show "calm c (c'\<lparr>pstatus := a\<rparr>)" by (simp add: calm_def moved_def)
  have "parse_frame c ((c'\<lparr>client_encoding := e\<rparr>)\<lparr>env := (env (c'\<lparr>client_encoding := e\<rparr>))\<lparr>static_client_encoding := f\<rparr>\<rparr>)"
    "parse_frame c ((c'\<lparr>std_strings := g\<rparr>)\<lparr>env := (env (c'\<lparr>std_strings := g\<rparr>))\<lparr>static_std_strings := h\<rparr>\<rparr>)"
    unfolding parse_frame_parameters by simp_all
  then show "calm c (c'\<lparr>sversion := b\<rparr>)" "calm c (c'\<lparr>client_encoding := e, env := (env c')\<lparr>static_client_encoding := f\<rparr>\<rparr>)"
    "calm c (c'\<lparr>std_strings := g, env := (env c')\<lparr>static_std_strings := h\<rparr>\<rparr>)"
    using assms \<open>results_ok c'\<close> by (simp_all add: calm_def moved_def rows_of_def results_ok_def)
qed

lemma pqSaveParameterStatus_ensures:
  assumes "calm c c1" "str_ok v"
  shows "ensures (pqSaveParameterStatus c1 n v) (calm c)"
proof -
  define c2 where "c2 = (let conn = c1\<lparr>pstatus := forget_parameter (pstatus c1) n\<rparr>;
    ok = next_ok (e_alloc (env conn));
    conn = set_alloc (after_alloc (e_alloc (env conn))) conn in
    if ok then conn\<lparr>pstatus := (n, v) # pstatus conn\<rparr> else conn)"
  have p: "calm c (x\<lparr>pstatus := a\<rparr>)" if "calm c x" for x a
    by (rule calm_parameters(1) [OF that, of 0])
      (use that in \<open>auto simp: calm_def moved_def state_ok_def PG_VALID_ENCODING_def\<close>)
  have c2: "calm c c2" unfolding c2_def Let_def by (simp add: p assms(1))
  then have k: "conn_ok c2" by (simp add: calm_def moved_def state_ok_def)
  obtain e where e: "pg_char_to_encoding (e_ctype (env c2)) (Some v) = Some e" "e < 0 \<or> PG_VALID_ENCODING e"
    using encoding_valid [OF assms(2)] by blast
  have v: "PG_VALID_ENCODING (if e < 0 then PG_SQL_ASCII else e)"
    using e(2) by (auto simp: PG_VALID_ENCODING_def)
  note q = calm_parameters [OF c2 k v]
  show ?thesis unfolding pqSaveParameterStatus_def
    using q c2 e(1) unfolding c2_def Let_def by (simp add: Let_def)
qed

lemma getParameterStatus_ensures:
  assumes "state_ok c" "results_ok c" "curTuple c = None"
  shows "ensures (getParameterStatus c) (\<lambda>(r, c'). calm c c')"
proof -
  have g0: "got c 0 c" using assms(1) by simp
  note calmI = got_calm [OF _ assms(2,3)]
  show ?thesis unfolding getParameterStatus_def ensures_bind
  proof (rule gets_work_got [OF g0], goal_cases)
    case 1
    then show ?case using calm_refl [OF assms] by (simp add: EOF_def)
  next
    case (2 c1)
    have "ensures (initPQExpBuffer (e_alloc (env c1))) (\<lambda>x. ensures (case x of (valueBuf, a) \<Rightarrow>
        Option.bind (pqGets valueBuf (set_alloc a c1)) (\<lambda>(r, valueBuf, conn).
          if r \<noteq> 0 then Some (EOF, conn)
          else Option.bind (eb_cstr (workBuffer conn)) (\<lambda>name. Option.bind (eb_cstr valueBuf) (\<lambda>v.
            Option.bind (pqSaveParameterStatus conn name v) (\<lambda>conn. Some (0, conn)))))) (\<lambda>(r, c'). calm c c'))"
    proof (rule initPQExpBuffer_ensures, unfold prod.case ensures_bind, goal_cases)
      case (1 b a')
      have g2: "got c (0 + (length (c_str (unread c)) + 1)) (set_alloc a' c1)" by (rule got_alloc [OF 2(1)]) (use 1(2) in simp)
      show ?case
      proof (rule pqGets_got [OF g2 1(1)], goal_cases)
        case 1
        then show ?case using calmI [OF g2] by (simp add: EOF_def)
      next
        case (2 b2 c3)
        have w: "valid_expbuf (workBuffer c3)" using gotD(2) [OF 2(1)] by (rule state_ok_work)
        have "ensures (eb_cstr (workBuffer c3)) (\<lambda>name. ensures (eb_cstr b2) (\<lambda>v. ensures (pqSaveParameterStatus c3 name v) (calm c)))"
          by (intro cstr_ensures w 2(3) pqSaveParameterStatus_ensures calmI [OF 2(1)]) simp
        then show ?case by simp
      qed
    qed
    then show ?case by simp
  qed
qed

end
