(* ===== verification/ParseSteps.thy ===== *)
theory ParseSteps
  imports ParseLoop
begin

text \<open>
  The message loop: every turn of it, and the loop as a whole, on every input.
\<close>

lemma if_ensures: "(b \<Longrightarrow> ensures x P) \<Longrightarrow> (\<not> b \<Longrightarrow> ensures y P) \<Longrightarrow> ensures (if b then x else y) P"
  by simp

section \<open>The handlers of the switch\<close>

lemma then_status_ensures:
  "ensures m (\<lambda>(r, c'). calm c c') \<Longrightarrow> ensures (then_status m st) (\<lambda>(ok, c'). calm c c')"
  unfolding then_status_def ensures_bind by (erule ensures_mono) (auto split: option.splits)

lemma calm_skip:
  assumes "calm c c'" "inCursor c' = inCursor c" "at_message c n"
  shows "calm c (c'\<lparr>inCursor := inCursor c' + n\<rparr>)"
proof -
  have s: "state_ok c'" "inEnd c' = inEnd c" using calmD(1,5) [OF assms(1)] moved_data(3) by auto
  have l: "nat n \<le> length (unread c')"
    using assms(2,3) s unread_length [of c'] by (auto simp: at_message_def state_ok_def conn_ok_def)
  have "got c' (0 + nat n) (skip (nat n) c')" by (rule got_skip) (use s l in simp_all)
  then have "calm c (skip (nat n) c')" using calm_got [OF assms(1)] by simp
  then show ?thesis using assms(3) by (simp add: skip_def at_message_def)
qed

lemma error_calm:
  assumes "state_ok c" "results_ok c" "curTuple c = None" "display_ok c"
  shows "ensures (pqGetErrorNotice3 c isError) (\<lambda>(r, c'). calm c c')"
  using pqGetErrorNotice3_ensures [OF assms] by (rule ensures_mono) (auto simp: error_post_def)

text \<open>What a handler may rely on.\<close>

definition handler_ok :: "pg_conn \<Rightarrow> int \<Rightarrow> bool" where
  "handler_ok c n \<longleftrightarrow> state_ok c \<and> at_message c n \<and> results_ok c \<and> row_started c \<and> rows_of c < 536870912"

lemma data_row_ensures:
  assumes "handler_ok c n" "asyncStatus c = PGASYNC_BUSY" "hd (in_data c) = 0x44"
  shows "ensures (data_row n c) (\<lambda>(ok, c'). handled c ok c')"
proof -
  have h: "state_ok c" "at_message c n" "results_ok c" "row_started c" "rows_of c < 536870912" using assms(1) by (simp_all add: handler_ok_def)
  consider (tuples) r where "result c = Some r" "resultStatus r = PGRES_TUPLES_OK"
    | (fatal) r where "result c = Some r" "resultStatus r = PGRES_FATAL_ERROR"
    | (other) "\<forall>r. result c = Some r \<longrightarrow> resultStatus r \<noteq> PGRES_TUPLES_OK \<and> resultStatus r \<noteq> PGRES_FATAL_ERROR"
    by blast
  then show ?thesis
  proof cases
    case tuples
    have q: "queryclass c \<noteq> PGQUERY_DESCRIBE" "ntups r < 536870912"
      using h(3,5) tuples by (auto simp: results_ok_def rows_of_def)
    have "ensures (getAnotherTuple c n) (\<lambda>(ret, c'). handled c (ret = 0) c' \<and> (curTuple c = None \<longrightarrow> row_post c r (ret, c')))"
      by (rule getAnotherTuple_ensures [OF h(1,2,3) q(1) assms(2,3) tuples q(2) h(4)])
    then show ?thesis using tuples by (auto simp: data_row_def then_status_def elim!: ensures_mono)
  next
    case fatal
    then have t: "curTuple c = None" using h(4) by (auto simp: row_started_def)
    have "calm c (c\<lparr>inCursor := inCursor c + n\<rparr>)" by (rule calm_skip [OF calm_refl [OF h(1,3) t] refl h(2)])
    then show ?thesis using fatal by (simp add: data_row_def calm_handled)
  next
    case other
    then have t: "curTuple c = None" using h(4) by (cases "curTuple c") (auto simp: row_started_def)
    have o: "\<not> (\<exists>r. result c = Some r \<and> resultStatus r = PGRES_TUPLES_OK)" "\<not> (\<exists>r. result c = Some r \<and> resultStatus r = PGRES_FATAL_ERROR)"
      using other by blast+
    show ?thesis unfolding data_row_def if_not_P [OF o(1)] if_not_P [OF o(2)] ensures_bind
    proof (rule report_ensures [OF may_reportI [OF h(1,3) t]], goal_cases)
      case (2 c')
      then show ?case using calm_skip [OF 2(1,5) h(2)] by (simp add: calm_handled)
    qed simp
  qed
qed

lemma keys_ensures:
  assumes "state_ok c" "results_ok c" "curTuple c = None"
  shows "ensures (or_eof (pqGetInt 4 c) (\<lambda>conn. Some (False, conn)) (\<lambda>pid conn.
        let conn = conn\<lparr>be_pid := pid\<rparr> in
        or_eof (pqGetInt 4 conn) (\<lambda>conn. Some (False, conn)) (\<lambda>key conn.
          Some (True, conn\<lparr>be_key := key\<rparr>)))) (\<lambda>(ok, c'). calm c c')"
proof -
  have g0: "got c 0 c" using assms(1) by simp
  have keep: "state_ok (x\<lparr>be_pid := p\<rparr>) = state_ok x" "results_ok (x\<lparr>be_pid := p\<rparr>) = results_ok x" for x p by simp_all
  show ?thesis
  proof (rule getInt_got [OF g0], goal_cases)
    case 2
    then show ?case using calm_refl [OF assms] by simp
  next
    case (3 pid c1)
    let ?c1 = "c1\<lparr>be_pid := pid\<rparr>"
    have c1: "calm c ?c1" using got_calm [OF 3(1) assms(2,3)] by simp
    have g1: "got ?c1 0 ?c1" using calmD(5) [OF c1] by simp
    show ?case unfolding Let_def
    proof (rule getInt_got [OF g1], goal_cases)
      case 2
      then show ?case using c1 by simp
    next
      case (3 key c2)
      then show ?case using calm_got [OF c1 3(1)] by simp
    qed simp
  qed simp
qed

lemma busy_message_ensures:
  assumes "handler_ok c n" "asyncStatus c = PGASYNC_BUSY" "ident = hd (in_data c)" "ident = 0x45 \<Longrightarrow> display_ok c"
  shows "ensures (busy_message ident n c) (\<lambda>(ok, c'). handled c ok c')"
proof (cases "ident = 0x44")
  case True
  then show ?thesis using data_row_ensures [OF assms(1,2)] assms(3) by (simp add: busy_message_def)
next
  case False
  have h: "state_ok c" "at_message c n" "results_ok c" using assms(1) by (simp_all add: handler_ok_def)
  have t: "curTuple c = None" using assms(1,3) False by (auto simp: handler_ok_def row_started_def)
  note ok = h(1,3) t
  have r: "calm c c" by (rule calm_refl [OF ok])
  have k: "calm c (c\<lparr>inCursor := inCursor c + n\<rparr>)" by (rule calm_skip [OF r refl h(2)])
  have copy: "ensures (do {
        (ok, conn) \<leftarrow> then_status (getCopyStart c st) (Some st');
        Some (ok, if ok then conn\<lparr>copy_already_done := 0\<rparr> else conn)
      }) (\<lambda>(ok, c'). calm c c')" if "st = PGRES_COPY_IN \<or> st = PGRES_COPY_OUT \<or> st = PGRES_COPY_BOTH" for st st'
    unfolding ensures_bind
    by (rule ensures_mono [OF then_status_ensures [OF getCopyStart_ensures [OF ok that]]]) auto
  have cmd: "ensures (command_complete c) (\<lambda>(ok, c'). calm c c')"
    using command_complete_ensures [OF ok] by (rule ensures_mono) (auto simp: complete_post_def)
  have desc: "ensures (getRowDescriptions c) (\<lambda>(r, c'). calm c c')"
    using getRowDescriptions_ensures [OF ok] by (rule ensures_mono) auto
  have rep: "ensures (printf_error c t) (\<lambda>x. ensures (pqSaveErrorResult x) (\<lambda>conn. calm c (conn\<lparr>asyncStatus := PGASYNC_READY, inCursor := inCursor conn + n\<rparr>)))"
    if "length t < 2 ^ 31" for t
  proof (rule report_ensures [OF may_reportI [OF ok] that])
    fix c'
    assume "calm c c'" "inCursor c' = inCursor c"
    then have "calm c (c'\<lparr>inCursor := inCursor c' + n\<rparr>)" by (rule calm_skip [OF _ _ h(2)])
    then have "calm c ((c'\<lparr>inCursor := inCursor c' + n\<rparr>)\<lparr>asyncStatus := PGASYNC_READY\<rparr>)" by simp
    then show "calm c (c'\<lparr>asyncStatus := PGASYNC_READY, inCursor := inCursor c' + n\<rparr>)" by (cases c') simp
  qed
  have "ensures (busy_message ident n c) (\<lambda>(ok, c'). calm c c')"
    unfolding busy_message_def
  proof (intro if_ensures, goal_cases)
    case 1
    show ?case by (rule cmd)
  next
    case 2
    show ?case by (rule then_status_ensures) (rule error_calm [OF ok assms(4) [OF 2(2)]])
  next
    case 3
    show ?case by (rule then_status_ensures [OF getReadyForQuery_ensures [OF ok]])
  next
    case 4
    show ?case by (rule ready_result_ensures [OF ok]) simp
  next
    case 5
    show ?case by (rule ready_result_ensures [OF ok]) simp
  next
    case 8
    show ?case by (rule then_status_ensures [OF getParameterStatus_ensures [OF ok]])
  next
    case 9
    show ?case by (rule keys_ensures [OF ok])
  next
    case 10
    show ?case by (rule then_status_ensures [OF desc])
  next
    case 12
    show ?case by (rule ready_result_ensures [OF ok]) simp
  next
    case 14
    show ?case by (rule then_status_ensures [OF getParamDescriptions_ensures [OF ok]])
  next
    case 15
    then show ?case using False by simp
  next
    case 16
    show ?case by (rule then_status_ensures [OF getCopyStart_ensures [OF ok]]) simp
  next
    case 17
    show ?case by (rule copy) simp
  next
    case 18
    show ?case by (rule copy) simp
  next
    case 21
    show ?case unfolding ensures_bind by (rule ensures_mono [OF rep]) simp_all
  qed (use r k in simp_all)
  then show ?thesis by (rule ensures_mono) (auto simp: calm_handled)
qed


lemma idle_message_ensures:
  assumes "handler_ok c n" "asyncStatus c = PGASYNC_IDLE" "ident = 0x45 \<Longrightarrow> display_ok c"
  shows "ensures (idle_message ident n c) (\<lambda>(ok, c'). calm c c')"
proof -
  have h: "state_ok c" "at_message c n" "results_ok c" using assms(1) by (simp_all add: handler_ok_def)
  have t: "curTuple c = None" using assms(1,2) by (cases "curTuple c") (auto simp: handler_ok_def row_started_def)
  note ok = h(1,3) t
  show ?thesis unfolding idle_message_def
  proof (intro if_ensures, goal_cases)
    case 1
    show ?case by (rule then_status_ensures [OF error_calm [OF ok assms(3) [OF 1]]])
  next
    case 2
    show ?case by (rule then_status_ensures [OF getParameterStatus_ensures [OF ok]])
  next
    case 3
    obtain c' where c': "pqInternalNotice c (lit ''message type 0x'' @ hex_char ident @ lit '' arrived from server while idle'') = Some c'"
      "only_env c c'" "same_net (env c) (env c')" "errorMessage c' = errorMessage c"
      using pqInternalNotice_spec by blast
    have f: "parse_frame c c'" by (rule only_env_parse [OF c'(2) same_net_events [OF c'(3)]])
    obtain e where e: "c' = c\<lparr>env := e\<rparr>" using c'(2,4) by (cases c; cases c') (simp add: only_env_def)
    then have "state_ok c'" "inCursor c' = inCursor c" "rows_of c' = rows_of c" "results_ok c'" "curTuple c' = None"
      using ok by (simp_all add: rows_of_def results_ok_def)
    then have "calm c c'" using f by (simp add: calm_def moved_def)
    from calm_skip [OF this \<open>inCursor c' = inCursor c\<close> h(2)] show ?case using c'(1) by simp
  qed
qed

lemma handle_message_ensures:
  assumes "handler_ok c n" "ident = hd (in_data c)" "ident = 0x45 \<or> ident = 0x4E \<Longrightarrow> display_ok c"
  shows "ensures (handle_message ident n c) (\<lambda>(ok, c'). handled c ok c')"
proof -
  have h: "state_ok c" "results_ok c" "row_started c" using assms(1) by (simp_all add: handler_ok_def)
  have t: "curTuple c = None" if "ident \<noteq> 0x44"
    using h(3) assms(2) that by (cases "curTuple c") (auto simp: row_started_def)
  note calm = calm_handled
  show ?thesis unfolding handle_message_def
  proof (intro if_ensures, goal_cases)
    case 1
    then have "curTuple c = None" using t by simp
    from then_status_ensures [OF getNotify_ensures [OF h(1,2) this]] show ?case
      by (rule ensures_mono) (auto simp: calm)
  next
    case 2
    then have "curTuple c = None" "display_ok c" using t assms(3) by simp_all
    from then_status_ensures [OF error_calm [OF h(1,2) this]] show ?case by (rule ensures_mono) (auto simp: calm)
  next
    case 3
    then show ?case using h by (simp add: handled_def)
  next
    case 4
    have "ensures (idle_message ident n c) (\<lambda>(ok, c'). calm c c')"
      by (rule idle_message_ensures [OF assms(1)]) (use 4 assms(3) in auto)
    then show ?case by (rule ensures_mono) (auto simp: calm)
  next
    case 5
    show ?case by (rule busy_message_ensures [OF assms(1)]) (use 5 assms in auto)
  qed
qed


section \<open>One turn of the loop\<close>

text \<open>A message: a type byte, a length word that counts itself and the contents, the contents.\<close>

definition is_message :: "byte list \<Rightarrow> bool" where
  "is_message m \<longleftrightarrow> 5 \<le> length m \<and> net_int (take 4 (tl m)) = int (length m) - 1"

text \<open>
  The invariant of the parser; every turn of the loop sets the cursor. The rows there are and those the data that is
  there can hold stay below the number at which the array of rows no longer fits in 32 bits: a row takes 7 bytes at least.
\<close>

definition parser_ok :: "pg_conn \<Rightarrow> bool" where
  "parser_ok c \<longleftrightarrow> state_ok (c\<lparr>inCursor := inStart c\<rparr>) \<and> results_ok c \<and> row_started c \<and> 7 * rows_of c + (inEnd c - inStart c) < 3758096384"

text \<open>When the next message is an error or a notice, the query it points to can be displayed.\<close>

definition next_display_ok :: "pg_conn \<Rightarrow> bool" where
  "next_display_ok c \<longleftrightarrow>
     (5 \<le> length (in_data c) \<and> (hd (in_data c) = 0x45 \<or> hd (in_data c) = 0x4E) \<longrightarrow> display_ok (c\<lparr>inCursor := inStart c + 5\<rparr>))"

lemma show_nat_width: "n < 10 ^ k \<Longrightarrow> 0 < k \<Longrightarrow> length (show_nat n) \<le> k"
proof (induction k arbitrary: n)
  case (Suc k)
  show ?case
  proof (cases "n < 10")
    case False
    then have "0 < k" using Suc.prems by (cases k) auto
    moreover have "n div 10 < 10 ^ k" using Suc.prems(1) by (simp add: less_mult_imp_div_less mult.commute)
    ultimately have "length (show_nat (n div 10)) \<le> k" by (intro Suc.IH)
    then show ?thesis using False by (subst show_nat.simps) simp
  qed (subst show_nat.simps, simp)
qed simp

lemma show_int_width: "- 2147483648 \<le> i \<Longrightarrow> i < 2147483648 \<Longrightarrow> length (show_int i) \<le> 11"
  using show_nat_width [of "nat i" 11] show_nat_width [of "nat (- i)" 10] by (auto simp: show_int_def)

lemma may_report_started: "state_ok c \<Longrightarrow> results_ok c \<Longrightarrow> row_started c \<Longrightarrow> may_report c"
  by (cases "curTuple c") (auto simp: may_report_def row_started_def)

text \<open>What the loop leaves alone: the events of the network, the output, the settings; the connection is as it was or given up.\<close>

definition net_frame :: "pg_conn \<Rightarrow> pg_conn \<Rightarrow> bool" where
  "net_frame c c' \<longleftrightarrow> same_events (env c) (env c') \<and> outBuffer c' = outBuffer c \<and> outBufSize c' = outBufSize c \<and> outCount c' = outCount c \<and>
     nonblocking c' = nonblocking c \<and> pversion c' = pversion c \<and> queryclass c' = queryclass c \<and> verbosity c' = verbosity c \<and>
     last_query c' = last_query c \<and> noticeRec c' = noticeRec c \<and>
     (sock c' = sock c \<and> status c' = status c \<or> sock c' = - 1 \<and> status c' = CONNECTION_BAD)"

lemma net_frame_refl [simp]: "net_frame c c"
  by (simp add: net_frame_def same_events_def same_io_def)

lemma net_frame_trans: "net_frame a b \<Longrightarrow> net_frame b c \<Longrightarrow> net_frame a c"
  by (auto simp: net_frame_def same_events_def same_io_def)

lemma net_frame_update [simp]:
  "net_frame c (c'\<lparr>inStart := i\<rparr>) = net_frame c c'" "net_frame c (c'\<lparr>inCursor := j\<rparr>) = net_frame c c'"
  "net_frame (c\<lparr>inCursor := j\<rparr>) c' = net_frame c c'" "net_frame c (c'\<lparr>asyncStatus := b\<rparr>) = net_frame c c'"
  by (simp_all add: net_frame_def)

lemma parse_net_frame: "parse_frame c c' \<Longrightarrow> net_frame c c'"
  using parse_frame_fields [of c c'] by (simp add: net_frame_def parse_frame_def)

lemma moved_net_frame: "moved c c' \<Longrightarrow> net_frame c c'"
  by (simp add: moved_def parse_net_frame)

text \<open>The rows there are, and those the data can hold.\<close>

definition load :: "pg_conn \<Rightarrow> int" where
  "load c = 7 * rows_of c + (inEnd c - inStart c)"

definition sync_lost :: "pg_conn \<Rightarrow> pg_conn \<Rightarrow> bool" where
  "sync_lost c c' \<longleftrightarrow> state_ok c' \<and> results_ok c' \<and> error_result c' \<and> rows_of c' = 0 \<and> in_data c' = in_data c \<and> inStart c' = inStart c \<and>
    inEnd c' = inEnd c \<and> status c' = CONNECTION_BAD \<and> sock c' = - 1 \<and> asyncStatus c' = PGASYNC_READY \<and> verbosity c' = verbosity c \<and> net_frame c c'"

lemma handleSyncLoss_ensures:
  assumes "may_report c" "- 2147483648 \<le> n" "n < 2147483648"
  shows "ensures (handleSyncLoss c ident n) (sync_lost c)"
proof -
  let ?t = "lit ''lost synchronization with server: got message type '' @ [0x22, ident, 0x22] @ lit '', length '' @ show_int n @ [0x0A]"
  have t: "length ?t < 2 ^ 31" using show_int_width [OF assms(2,3)] by simp
  show ?thesis unfolding handleSyncLoss_def ensures_bind
  proof (rule report_ensures [OF assms(1) t], goal_cases)
    case (1 c')
    let ?c = "c'\<lparr>asyncStatus := PGASYNC_READY, sock := - 1, status := CONNECTION_BAD\<rparr>"
    have s: "state_ok c'" "results_ok c'" using calmD [OF 1(1)] by simp_all
    have "state_ok ?c" using s(1) by (simp add: state_ok_def conn_ok_def in_ok_def out_ok_def)
    moreover have "results_ok ?c" "rows_of ?c = 0" "error_result ?c" using s(2) 1(2,3) by (simp_all add: results_ok_def rows_of_def error_result_def)
    moreover have "in_data ?c = in_data c" "inStart ?c = inStart c" "inEnd ?c = inEnd c" "verbosity ?c = verbosity c"
      using moved_data [OF calmD(1) [OF 1(1)]] by (simp_all add: in_data_def)
    moreover have "net_frame c ?c" using moved_net_frame [OF calmD(1) [OF 1(1)]] by (auto simp: net_frame_def)
    ultimately show ?case by (simp add: sync_lost_def)
  qed
qed

lemma state_ok_start:
  assumes "state_ok c" "inStart c \<le> s" "s \<le> inEnd c"
  shows "state_ok (c\<lparr>inStart := s, inCursor := s\<rparr>)" "in_data (c\<lparr>inStart := s\<rparr>) = drop (nat (s - inStart c)) (in_data c)"
proof -
  show "state_ok (c\<lparr>inStart := s, inCursor := s\<rparr>)" using assms by (auto simp: state_ok_def conn_ok_def in_ok_def out_ok_def)
  have i: "0 \<le> inStart c" using state_ok_in [OF assms(1)] by simp
  have "nat s = nat (inStart c) + nat (s - inStart c)" "nat (inEnd c - s) = nat (inEnd c - inStart c) - nat (s - inStart c)"
    using i assms(2,3) by simp_all
  then show "in_data (c\<lparr>inStart := s\<rparr>) = drop (nat (s - inStart c)) (in_data c)"
    by (simp add: in_data_def drop_take add.commute)
qed

text \<open>The next message starts right behind this one. The cursor may be anywhere.\<close>

definition message_done :: "pg_conn \<Rightarrow> int \<Rightarrow> pg_conn \<Rightarrow> bool" where
  "message_done c n c' \<longleftrightarrow> state_ok (c'\<lparr>inCursor := inStart c'\<rparr>) \<and> results_ok c' \<and> curTuple c' = None \<and> inStart c' = inStart c + 5 + n \<and>
    inEnd c' = inEnd c \<and> (rows_of c' \<le> rows_of c \<or> rows_of c' = rows_of c + 1 \<and> 2 \<le> n) \<and>
    in_data c' = drop (nat (5 + n)) (in_data c) \<and> verbosity c' = verbosity c \<and> net_frame c c'"

lemma end_message_ensures:
  assumes "handled c True c'" "at_message c n" "0 \<le> rows_of c"
  shows "ensures (end_message ident n c') (message_done c n)"
proof -
  have h: "moved c c'" "results_ok c'" "curTuple c' = None" "state_ok c'"
    "rows_of c' \<le> rows_of c \<or> rows_of c' = rows_of c + 1 \<and> inStart c + 7 \<le> inCursor c'"
    using assms(1) moved_ok by (auto simp: handled_def)
  have d: "inStart c' = inStart c" "inEnd c' = inEnd c" "in_data c' = in_data c" "verbosity c' = verbosity c"
    using moved_data [OF h(1)] by simp_all
  have m: "0 \<le> n" "inStart c + 5 + n \<le> inEnd c" using assms(2) by (auto simp: at_message_def)
  show ?thesis
  proof (cases "inCursor c' = inStart c' + 5 + n")
    case True
    note s = state_ok_start [OF h(4), of "inStart c + 5 + n"]
    show ?thesis using True h d m s moved_net_frame [OF h(1)] by (simp add: end_message_def message_done_def rows_of_def results_ok_def)
  next
    case False
    have m': "may_report c'" using h by (simp add: may_report_def)
    show ?thesis unfolding end_message_def if_not_P [OF False] ensures_bind
    proof (rule report_ensures [OF m'], goal_cases)
      case (2 c2)
      have d2: "inStart c2 = inStart c" "inEnd c2 = inEnd c" "in_data c2 = in_data c" "verbosity c2 = verbosity c"
        using moved_data [OF calmD(1) [OF 2(1)]] d by simp_all
      let ?c2 = "c2\<lparr>asyncStatus := PGASYNC_READY\<rparr>"
      have "state_ok ?c2" using calmD(5) [OF 2(1)] by simp
      note s = state_ok_start [OF this, of "inStart c + 5 + n"]
      have "net_frame c ?c2"
        using net_frame_trans [OF moved_net_frame [OF h(1)] moved_net_frame [OF calmD(1) [OF 2(1)]]] by simp
      moreover have "in_data ?c2 = in_data c" using d2 by (simp add: in_data_def)
      ultimately show ?case using s 2 calmD [OF 2(1)] d2 assms(3) m by (simp add: message_done_def rows_of_def results_ok_def)
    qed simp
  qed
qed


lemma state_ok_rewind: "state_ok c \<Longrightarrow> state_ok (c\<lparr>inCursor := inStart c\<rparr>)"
  by (auto simp: state_ok_def conn_ok_def in_ok_def out_ok_def)

lemma rows_of_nonneg: "results_ok c \<Longrightarrow> 0 \<le> rows_of c"
  by (auto simp: results_ok_def rows_of_def result_ok_def rows_ok_def split: option.splits)

lemma parser_okI:
  assumes "parser_ok c" "state_ok c'" "results_ok c'" "row_started c'" "rows_of c' \<le> rows_of c" "inStart c' = inStart c" "inEnd c' = inEnd c"
  shows "parser_ok c'"
  using assms state_ok_rewind [OF assms(2)] by (simp add: parser_ok_def)

lemma row_started_cong:
  "row_started c \<Longrightarrow> in_data c' = in_data c \<Longrightarrow> curTuple c' = curTuple c \<Longrightarrow> asyncStatus c' = asyncStatus c \<Longrightarrow> result c' = result c \<Longrightarrow> row_started c'"
  by (simp add: row_started_def)

definition step_post :: "pg_conn \<Rightarrow> bool \<times> pg_conn \<Rightarrow> bool" where
  "step_post c = (\<lambda>(go, c'). parser_ok c' \<and> verbosity c' = verbosity c \<and> net_frame c c' \<and> load c' \<le> load c \<and>
     (if go then \<exists>m. is_message m \<and> in_data c = m @ in_data c' else state_ok c' \<and> in_data c' = in_data c))"

lemma got_step_post:
  assumes "parser_ok c" "got (c\<lparr>inCursor := inStart c\<rparr>) k c'"
  shows "step_post c (False, c')" "may_report c'"
proof -
  note g = gotD [OF assms(2)]
  have p: "results_ok c" "row_started c" using assms(1) by (simp_all add: parser_ok_def)
  have d: "in_data c' = in_data c" using moved_data(1) [OF g(5)] by (simp add: in_data_def)
  have r: "results_ok c'" "rows_of c' = rows_of c" using got_result [OF assms(2)] p by simp_all
  have s: "row_started c'" by (rule row_started_cong [OF p(2) d]) (use g in simp_all)
  have "parser_ok c'" by (rule parser_okI [OF assms(1) g(2) r(1) s]) (use r g in simp_all)
  then show "step_post c (False, c')" using g(2,17) d r(2) gotD(13,14) [OF assms(2)] moved_net_frame [OF g(5)] by (simp add: step_post_def load_def)
  show "may_report c'" by (rule may_report_started [OF g(2) r(1) s])
qed

lemma sync_lost_step:
  assumes "parser_ok c" "sync_lost c1 c'" "in_data c1 = in_data c" "inStart c1 = inStart c" "inEnd c1 = inEnd c" "verbosity c1 = verbosity c" "net_frame c c1"
  shows "step_post c (False, c')"
proof -
  have l: "state_ok c'" "results_ok c'" "curTuple c' = None" "rows_of c' = 0" "in_data c' = in_data c" "inStart c' = inStart c" "inEnd c' = inEnd c"
    and vb: "verbosity c' = verbosity c" "net_frame c1 c'" using assms(2-6) by (auto simp: sync_lost_def error_result_def)
  have rn: "0 \<le> rows_of c" using assms(1) by (simp add: parser_ok_def rows_of_nonneg)
  then have "parser_ok c'" by (intro parser_okI [OF assms(1) l(1,2)]) (use l in \<open>simp_all add: row_started_def\<close>)
  then show ?thesis using l vb rn net_frame_trans [OF assms(7) vb(2)] by (simp add: step_post_def load_def)
qed

lemma wait_outcome_ensures:
  assumes "parser_ok c" "got (c\<lparr>inCursor := inStart c\<rparr>) k c2" "- 2147483648 \<le> n" "n < 2147483648"
  shows "ensures (do {
      (r, conn) \<leftarrow> pqCheckInBufferSpace need c2;
      if r \<noteq> 0 then do { conn \<leftarrow> handleSyncLoss conn ident n; Some (x, conn) } else Some (y, conn)
    }) (\<lambda>(v, c'). (v = x \<or> v = y) \<and> step_post c (False, c') \<and> (curTuple c2 = None \<longrightarrow> curTuple c' = None))"
proof -
  note g = gotD [OF assms(2)] and p = got_step_post [OF assms(1,2)]
  have ok: "conn_ok c2" using g(2) by (simp add: state_ok_def)
  have d2: "in_data c2 = in_data c" "inStart c2 = inStart c" "inEnd c2 = inEnd c" "verbosity c2 = verbosity c"
    using moved_data [OF g(5)] by (simp_all add: in_data_def)
  obtain r c' where r: "pqCheckInBufferSpace need c2 = Some (r, c')" "conn_ok c'" "same_net (env c2) (env c')"
    "if r = 0 then grown (inBuffer c2) (inBufSize c2) need (inBuffer c') (inBufSize c') \<and>
       c' = c2\<lparr>inBuffer := inBuffer c', inBufSize := inBufSize c', env := env c'\<rparr>
     else r = EOF \<and> only_env c2 c' \<and> (need \<le> 2147475456 \<longrightarrow> False \<in> set (oks (e_alloc (env c2))))"
    using pqCheckInBufferSpace_spec [OF ok] by blast
  show ?thesis
  proof (cases "r = 0")
    case True
    then have gr: "grown (inBuffer c2) (inBufSize c2) need (inBuffer c') (inBufSize c')"
      and c': "c' = c2\<lparr>inBuffer := inBuffer c', inBufSize := inBufSize c', env := env c'\<rparr>" using r(4) by auto
    have same: "inStart c' = inStart c2" "inEnd c' = inEnd c2" "client_encoding c' = client_encoding c2" "result c' = result c2"
      "curTuple c' = curTuple c2" "asyncStatus c' = asyncStatus c2" "queryclass c' = queryclass c2" "verbosity c' = verbosity c2"
      by (subst c', simp)+
    have "filled c' = filled c2" using grown_bytes [OF _ gr, of "nat (inEnd c2)"] in_okD [OF conn_okD(1) [OF ok]] by (simp add: filled_def same)
    then have d: "in_data c' = in_data c2"
      using in_data_filled [OF conn_okD(1) [OF ok]] in_data_filled [OF conn_okD(1) [OF r(2)]] same by simp
    have p2: "parser_ok c2" using p(1) by (simp add: step_post_def)
    have "parser_ok c'"
      by (rule parser_okI [OF p2])
        (use r(2) g(2) same d p2 row_started_cong [of c2 c'] in \<open>simp_all add: state_ok_def results_ok_def rows_of_def parser_ok_def\<close>)
    moreover have "net_frame c2 c'" using same_net_events [OF r(3)] by (subst c', simp add: net_frame_def)
    then have "net_frame c c'" using p(1) net_frame_trans [of c c2 c'] by (simp add: step_post_def)
    moreover have "load c' \<le> load c" using p(1) same by (simp add: step_post_def load_def rows_of_def)
    ultimately have "step_post c (False, c')" using r(2) d d2 g(2) same by (simp add: step_post_def state_ok_def)
    then show ?thesis using True r(1) same(5) by simp
  next
    case False
    then obtain e m where c': "c' = c2\<lparr>env := e, errorMessage := m\<rparr>" using r(4) by (cases c'; cases c2) (simp add: only_env_def)
    have s: "state_ok c'" "in_data c' = in_data c" "inStart c' = inStart c" "inEnd c' = inEnd c" "verbosity c' = verbosity c"
      using r(2) g(2) d2 by (simp_all add: c' state_ok_def in_data_def)
    have "may_report c'" using p(2) s(1) by (simp add: may_report_def c' results_ok_def)
    from handleSyncLoss_ensures [OF this assms(3,4)]
    have "ensures (handleSyncLoss c' ident n) (\<lambda>c''. step_post c (False, c'') \<and> curTuple c'' = None)"
    proof (rule ensures_mono)
      have "net_frame c2 c'" using same_net_events [OF r(3)] by (simp add: c' net_frame_def)
      then have "net_frame c c'" using p(1) net_frame_trans [of c c2 c'] by (simp add: step_post_def)
      then have "step_post c (False, c'')" if "sync_lost c' c''" for c'' by (rule sync_lost_step [OF assms(1) that s(2-5)])
      then show "step_post c (False, c'') \<and> curTuple c'' = None" if "sync_lost c' c''" for c''
        using that by (simp add: sync_lost_def error_result_def)
    qed
    then show ?thesis using False r(1) by (auto elim!: ensures_mono)
  qed
qed

lemma wait_ensures:
  assumes "parser_ok c" "got (c\<lparr>inCursor := inStart c\<rparr>) k c2" "- 2147483648 \<le> n" "n < 2147483648"
  shows "ensures (do {
      (r, conn) \<leftarrow> pqCheckInBufferSpace need c2;
      if r \<noteq> 0 then do { conn \<leftarrow> handleSyncLoss conn ident n; Some (False, conn) } else Some (False, conn)
    }) (step_post c)"
  by (rule ensures_mono [OF wait_outcome_ensures [OF assms, of need ident False False]]) auto

lemma parse_step_ensures:
  assumes "parser_ok c" "next_display_ok c"
  shows "ensures (parse_step c) (step_post c)"
proof -
  let ?c = "c\<lparr>inCursor := inStart c\<rparr>"
  have ok: "state_ok ?c" "results_ok c" "row_started c" "7 * rows_of c + (inEnd c - inStart c) < 3758096384"
    using assms(1) by (simp_all add: parser_ok_def)
  have g0: "got ?c 0 ?c" using ok(1) by simp
  have u0: "unread ?c = in_data c" by (simp add: unread_def in_data_def)
  note wait = got_step_post(1) [OF assms(1)]
  show ?thesis unfolding parse_step_def
  proof (rule getc_got [OF g0], goal_cases)
    case 1
    show ?case using wait [OF g0] by simp
  next
    case (2 ident c1)
    note ident = 2(2) [unfolded u0]
    show ?case
    proof (rule getInt_got [OF 2(1)], goal_cases)
      case 2
      then show ?case using wait [OF \<open>got ?c (0 + 1) c1\<close>] by simp
    next
      case (3 v c2)
      note got2 = 3
      let ?n = "v - 4"
      have v: "- 2147483648 \<le> v" "v < 2147483648" using net_int_4 [of "take 4 (unread c1)"] 3(3,4) by simp_all
      have c2: "c2 = c\<lparr>inCursor := inStart c + 5\<rparr>" using 3(5) 2(3) by (simp add: skip_def)
      have d2: "in_data c2 = in_data c" "inStart c2 = inStart c" "inEnd c2 = inEnd c" "verbosity c2 = verbosity c" by (simp_all add: c2 in_data_def)
      show ?case
      proof (unfold Let_def, intro if_ensures, goal_cases)
        case 1
        have "ensures (handleSyncLoss c2 ident v) (\<lambda>c''. step_post c (False, c''))"
          by (rule ensures_mono [OF handleSyncLoss_ensures [OF got_step_post(2) [OF assms(1) got2(1)] v]])
            (rule sync_lost_step [OF assms(1) _ d2], simp_all add: c2)
        then show ?case by simp
      next
        case 2
        then show ?case using v by (intro wait_ensures [OF assms(1) got2(1)]) simp_all
      next
        case 3
        have s2: "state_ok c2" using gotD(2) [OF got2(1)] .
        have m: "at_message c2 ?n" using 3 by (simp add: at_message_def c2)
        have h: "handler_ok c2 ?n"
          using s2 m ok state_ok_in [OF s2] row_started_cong [OF ok(3), of c2] by (simp add: handler_ok_def c2 in_data_def)
        have five: "5 \<le> length (in_data c)" using ident got2(3) by simp
        have disp: "ident = 0x45 \<or> ident = 0x4E \<Longrightarrow> display_ok c2"
          using assms(2) five ident unfolding next_display_ok_def c2 by simp
        have id2: "ident = hd (in_data c2)" using ident d2 by simp
        have hm: "ensures (handle_message ident ?n c2) (\<lambda>(ok, c'). handled c2 ok c')"
          by (rule handle_message_ensures [OF h id2]) (rule disp)
        have "ensures (handle_message ident ?n c2) (\<lambda>x. ensures (case x of (ok, c') \<Rightarrow>
          if ok then Option.bind (end_message ident ?n c') (\<lambda>conn. Some (True, conn)) else Some (False, c')) (step_post c))"
        proof (rule ensures_mono [OF hm], goal_cases)
          case (1 x)
          obtain ok' c' where x: "x = (ok', c')" by (cases x)
          note 1 = 1 [unfolded x prod.case]
          show ?case
          proof (cases ok')
            case False
            then have c': "moved c2 c'" "results_ok c'" "row_started c'" "rows_of c' \<le> rows_of c2" using 1 by (simp_all add: handled_def)
            have "parser_ok c'"
              by (rule parser_okI [OF assms(1) moved_ok [OF c'(1)] c'(2,3)])
                (use c'(4) moved_data [OF c'(1)] d2 in \<open>simp_all add: c2\<close>)
            moreover have "net_frame c c'" using moved_net_frame [OF c'(1)] by (simp add: c2)
            ultimately show ?thesis using False moved_ok [OF c'(1)] moved_data [OF c'(1)] d2 c'(4) by (simp add: x step_post_def load_def c2)
          next
            case True
            have rn: "0 \<le> rows_of c" "rows_of c2 = rows_of c" using rows_of_nonneg [OF ok(2)] by (simp_all add: c2)
            have "ensures (end_message ident ?n c') (\<lambda>c''. step_post c (True, c''))"
            proof (rule ensures_mono [OF end_message_ensures [OF _ m]], goal_cases)
              case (3 c'')
              note d = 3 [unfolded message_done_def]
              let ?m = "take (nat (5 + ?n)) (in_data c)"
              have len: "length (in_data c) = nat (inEnd c - inStart c)" using unread_length [of ?c] ok(1) u0 by (simp add: state_ok_def conn_ok_def)
              have lm: "int (length ?m) = 5 + ?n" using m len by (auto simp: at_message_def c2)
              have "take 4 (tl ?m) = take 4 (unread c1)"
                using ident m by (cases "nat (5 + ?n)") (auto simp: at_message_def min_def)
              then have "is_message ?m" using lm m got2(4) unfolding is_message_def by (auto simp: at_message_def)
              moreover have "in_data c = ?m @ in_data c''" using d d2 by simp
              moreover have "parser_ok c''" unfolding parser_ok_def
                using d d2 rn ok(4) m by (auto simp: row_started_def at_message_def)
              moreover have "verbosity c'' = verbosity c" using d d2 by simp
              moreover have "net_frame c c''" using d by (simp add: c2)
              moreover have "load c'' \<le> load c" using d d2 rn m by (auto simp: load_def at_message_def)
              ultimately show ?case by (auto simp: step_post_def)
            qed (use 1 True rn in simp_all)
            then show ?thesis using True by (simp add: x)
          qed
        qed
        then show ?case by simp
      qed
    qed simp
  qed
qed



section \<open>The loop\<close>

text \<open>The states in which the loop starts a turn.\<close>

inductive parse_reach :: "pg_conn \<Rightarrow> pg_conn \<Rightarrow> bool" where
  reach_start: "parse_reach c c"
| reach_step: "parse_step c = Some (True, c1) \<Longrightarrow> parse_reach c1 c2 \<Longrightarrow> parse_reach c c2"

text \<open>What the loop leaves: the messages it has consumed are gone, the rest is there.\<close>

definition loop_post :: "pg_conn \<Rightarrow> pg_conn \<Rightarrow> bool" where
  "loop_post c c' \<longleftrightarrow> parser_ok c' \<and> state_ok c' \<and> net_frame c c' \<and> load c' \<le> load c \<and> (\<exists>ms. list_all is_message ms \<and> in_data c = concat ms @ in_data c')"

lemma is_message_length: "is_message m \<Longrightarrow> 5 \<le> length m"
  by (simp add: is_message_def)

lemma parse_loop_ensures:
  assumes "parser_ok c" "\<And>c1. parse_reach c c1 \<Longrightarrow> parser_ok c1 \<Longrightarrow> verbosity c1 = verbosity c \<Longrightarrow> next_display_ok c1"
  shows "ensures (pqParseInput3 c) (loop_post c)"
  using assms
proof (induction "length (in_data c)" arbitrary: c rule: less_induct)
  case less
  have "next_display_ok c" using less.prems reach_start by blast
  then obtain go c1 where s: "parse_step c = Some (go, c1)" "step_post c (go, c1)"
    using parse_step_ensures [OF less.prems(1)] by (auto simp: ensures_def)
  show ?case
  proof (cases go)
    case False
    have "list_all is_message []" "in_data c = concat [] @ in_data c1" using s(2) False by (simp_all add: step_post_def)
    then have "loop_post c c1" using s(2) False unfolding loop_post_def step_post_def by (auto intro!: exI [of _ "[]"])
    then show ?thesis using s(1) False by (simp add: pqParseInput3.simps)
  next
    case True
    then obtain m where m: "is_message m" "in_data c = m @ in_data c1" "parser_ok c1" "verbosity c1 = verbosity c"
      using s(2) by (auto simp: step_post_def)
    have "ensures (pqParseInput3 c1) (loop_post c1)"
    proof (rule less.hyps)
      show "length (in_data c1) < length (in_data c)" using m(2) is_message_length [OF m(1)] by auto
      show "parser_ok c1" by (rule m(3))
      show "next_display_ok c2" if "parse_reach c1 c2" "parser_ok c2" "verbosity c2 = verbosity c1" for c2
      proof -
        have "parse_step c = Some (True, c1)" using s(1) True by simp
        then have "parse_reach c c2" using that(1) by (rule reach_step)
        then show ?thesis using less.prems(2) that(2,3) m(4) by simp
      qed
    qed
    then obtain c2 where c2: "pqParseInput3 c1 = Some c2" "loop_post c1 c2" by (auto simp: ensures_def)
    then obtain ms where ms: "list_all is_message ms" "in_data c1 = concat ms @ in_data c2" by (auto simp: loop_post_def)
    have "list_all is_message (m # ms)" "in_data c = concat (m # ms) @ in_data c2" using ms m(1,2) by simp_all
    moreover have "net_frame c c2" "load c2 \<le> load c"
      using s(2) c2(2) net_frame_trans [of c c1 c2] by (auto simp: step_post_def loop_post_def)
    ultimately have "loop_post c c2" using c2(2) unfolding loop_post_def by blast
    then show ?thesis using s(1) True c2(1) by (subst pqParseInput3.simps) simp
  qed
qed

text \<open>A client that asked for terse messages is shown no query.\<close>

lemma terse_display_ok: "state_ok c \<Longrightarrow> verbosity c = PQERRORS_TERSE \<Longrightarrow> display_ok c"
proof -
  assume c: "state_ok c" "verbosity c = PQERRORS_TERSE"
  have "case read_error_message c isError of Some (Some res, buf, c') \<Rightarrow>
      (case shown_query c' res of None \<Rightarrow> True | Some q \<Rightarrow> displayable (client_encoding c') q) | _ \<Rightarrow> True" for isError
  proof -
    obtain ro buf c1 where r: "read_error_message c isError = Some (ro, buf, c1)" "read_post c isError (ro, buf, c1)"
      using read_error_message_ensures [OF c(1), of isError] unfolding ensures_def by auto
    obtain k where "got c k c1" using r(2) by (auto simp: read_post_def)
    then have "verbosity c1 = PQERRORS_TERSE" using gotD(17) c(2) by metis
    then have "shown_query c1 res = None" for res by (simp add: shown_query_def split: prod.splits)
    then show ?thesis using r(1) by (auto split: option.splits)
  qed
  then show ?thesis by (simp add: display_ok_def)
qed

lemma terse_next_display_ok:
  assumes "parser_ok c" "verbosity c = PQERRORS_TERSE"
  shows "next_display_ok c"
proof -
  have "state_ok (c\<lparr>inCursor := inStart c + 5\<rparr>)" if "5 \<le> length (in_data c)"
  proof -
    have s: "state_ok (c\<lparr>inCursor := inStart c\<rparr>)" using assms(1) by (simp add: parser_ok_def)
    have "unread (c\<lparr>inCursor := inStart c\<rparr>) = in_data c" by (simp add: unread_def in_data_def)
    then have "state_ok (skip 5 (c\<lparr>inCursor := inStart c\<rparr>))" using skip_moved(1) [OF s, of 5] that moved_ok by simp
    then show ?thesis by (simp add: skip_def)
  qed
  then show ?thesis using terse_display_ok assms(2) by (simp add: next_display_ok_def)
qed

text \<open>More data does not disturb the row under construction.\<close>

lemma row_started_append:
  assumes "row_started c" "in_data c' = in_data c @ bs" "curTuple c' = curTuple c" "asyncStatus c' = asyncStatus c" "result c' = result c"
  shows "row_started c'"
proof (cases "curTuple c")
  case (Some tup)
  then have t: "5 \<le> length (in_data c)" "tup_fits (drop 7 (in_data c)) tup" using assms(1) by (simp_all add: row_started_def)
  have "tup_fits (drop 7 (in_data c) @ drop (7 - length (in_data c)) bs) tup" using t(2) by (rule tup_fits_append)
  moreover have "hd (in_data c @ bs) = hd (in_data c)" using t(1) by (cases "in_data c") auto
  ultimately show ?thesis using assms Some by (simp add: row_started_def)
qed (use assms(3) in \<open>simp add: row_started_def\<close>)

end
