(* ===== verification/ParseQuery.thy ===== *)
theory ParseQuery
  imports ParseSteps
begin

text \<open>
  A whole answer of the server to a query, from its messages to the result of the client.
\<close>

section \<open>One complete message\<close>

definition server_message :: "byte \<Rightarrow> byte list \<Rightarrow> byte list" where
  "server_message ident body = ident # be_bytes 4 (4 + int (length body)) @ body"

definition at_body :: "pg_conn \<Rightarrow> pg_conn" where
  "at_body c = c\<lparr>inCursor := inStart c + 5\<rparr>"

definition short_enough :: "byte \<Rightarrow> byte list \<Rightarrow> bool" where
  "short_enough ident body \<longleftrightarrow> VALID_LONG_MESSAGE_TYPE ident \<or> length body \<le> 29996"

lemma at_body_fields [simp]:
  "env (at_body c) = env c" "result (at_body c) = result c" "curTuple (at_body c) = curTuple c" "asyncStatus (at_body c) = asyncStatus c"
  "queryclass (at_body c) = queryclass c" "inStart (at_body c) = inStart c" "inEnd (at_body c) = inEnd c" "in_data (at_body c) = in_data c"
  "inCursor (at_body c) = inStart c + 5" "rows_of (at_body c) = rows_of c" "results_ok (at_body c) = results_ok c" "row_started (at_body c) = row_started c"
  "verbosity (at_body c) = verbosity c" "last_query (at_body c) = last_query c" "client_encoding (at_body c) = client_encoding c"
  "noticeRec (at_body c) = noticeRec c"
  by (simp_all add: at_body_def in_data_def row_started_def)

text \<open>The type and the length of a message that is there in full are read alike everywhere.\<close>

lemma message_read:
  assumes "parser_ok c" "in_data c = server_message ident body @ rest"
  shows "or_eof (pqGetc (c\<lparr>inCursor := inStart c\<rparr>)) e1 (\<lambda>i c. or_eof (pqGetInt 4 c) (e2 i) (k i)) = k ident (4 + int (length body)) (at_body c)"
    "state_ok (at_body c)" "unread (at_body c) = body @ rest" "5 + int (length body) \<le> inEnd c - inStart c"
proof -
  let ?c = "c\<lparr>inCursor := inStart c\<rparr>" let ?n = "int (length body)"
  have s: "state_ok ?c" using assms(1) by (simp add: parser_ok_def)
  have u0: "unread ?c = server_message ident body @ rest" using assms(2) by (simp add: unread_def in_data_def)
  obtain b where b: "unread ?c = b # unread (skip 1 ?c)" "pqGetc ?c = Some (Some b, skip 1 ?c)" "moved ?c (skip 1 ?c)"
    using pqGetc_cases [OF s] u0 by (auto simp: server_message_def)
  have u1: "b = ident" "unread (skip 1 ?c) = be_bytes 4 (4 + ?n) @ body @ rest"
    using b(1) u0 by (simp_all add: server_message_def)
  have s1: "state_ok (skip 1 ?c)" using b(3) by (rule moved_ok)
  have "length (server_message ident body @ rest) \<le> nat (inEnd c - inStart c)"
    using u0 unread_length [of ?c] s by (simp add: state_ok_def conn_ok_def)
  then show lb: "5 + ?n \<le> inEnd c - inStart c" by (simp add: server_message_def)
  have bound: "inEnd c - inStart c < 2147483648" using state_ok_in [OF s] by simp
  have "be_value (be_bytes 4 (4 + ?n)) = 4 + ?n" using lb bound by (simp add: be_value_bytes)
  then have v: "net_int (be_bytes 4 (4 + ?n)) = 4 + ?n" using lb bound by (simp add: net_int_def wrap32_id)
  obtain "pqGetInt 4 (skip 1 ?c) = Some (Some (net_int (take 4 (unread (skip 1 ?c)))), skip 4 (skip 1 ?c))"
    "moved (skip 1 ?c) (skip 4 (skip 1 ?c))" "unread (skip 4 (skip 1 ?c)) = drop 4 (unread (skip 1 ?c))"
    by (rule pqGetInt_cases [OF s1, of 4]) (use u1 in auto)
  moreover have "skip 4 (skip 1 ?c) = at_body c" by (simp add: skip_def at_body_def)
  ultimately have g: "pqGetInt 4 (skip 1 ?c) = Some (Some (4 + ?n), at_body c)" "state_ok (at_body c)" "unread (at_body c) = body @ rest"
    using u1(2) v moved_ok by simp_all
  then show "state_ok (at_body c)" "unread (at_body c) = body @ rest" by simp_all
  show "or_eof (pqGetc (c\<lparr>inCursor := inStart c\<rparr>)) e1 (\<lambda>i c. or_eof (pqGetInt 4 c) (e2 i) (k i)) = k ident (4 + ?n) (at_body c)"
    unfolding b(2) or_eof_Some g(1) u1(1) ..
qed

lemma server_message_step:
  assumes ok: "parser_ok c" and data: "in_data c = server_message ident body @ rest" and short: "short_enough ident body"
  shows "parse_step c = Option.bind (handle_message ident (int (length body)) (at_body c)) (\<lambda>(ok, conn).
      if ok then Option.bind (end_message ident (int (length body)) conn) (\<lambda>conn. Some (True, conn)) else Some (False, conn))"
    "handler_ok (at_body c) (int (length body))" "unread (at_body c) = body @ rest"
proof -
  let ?n = "int (length body)"
  note read = message_read [OF ok data]
  have s: "state_ok (c\<lparr>inCursor := inStart c\<rparr>)" "results_ok c" "row_started c" "7 * rows_of c + (inEnd c - inStart c) < 3758096384"
    using ok by (simp_all add: parser_ok_def)
  have bound: "inEnd c - inStart c < 2147483648" using state_ok_in [OF s(1)] by simp
  show "unread (at_body c) = body @ rest" by (rule read(3))
  have m: "at_message (at_body c) ?n" using read(4) by (simp add: at_message_def)
  then show "handler_ok (at_body c) ?n"
    using read(2,4) s bound by (simp add: handler_ok_def)
  have long: "\<not> (4 + ?n < 4 \<or> 30000 < 4 + ?n \<and> \<not> VALID_LONG_MESSAGE_TYPE ident)" using short by (auto simp: short_enough_def)
  moreover have "\<not> inEnd (at_body c) - inCursor (at_body c) < ?n" using m by (simp add: at_message_def)
  moreover have sub: "4 + ?n - 4 = ?n" by simp
  ultimately show "parse_step c = Option.bind (handle_message ident ?n (at_body c)) (\<lambda>(ok, conn).
      if ok then Option.bind (end_message ident ?n conn) (\<lambda>conn. Some (True, conn)) else Some (False, conn))"
    unfolding parse_step_def read(1) if_not_P [OF long] Let_def sub by simp
qed

lemma server_message_length [simp]: "length (server_message ident body) = 5 + length body"
  by (simp add: server_message_def)

text \<open>A message that is read as it should be leaves the connection as it was.\<close>

definition same_link :: "pg_conn \<Rightarrow> pg_conn \<Rightarrow> bool" where
  "same_link c c' \<longleftrightarrow> net_frame c c' \<and> sock c' = sock c \<and> status c' = status c \<and> inEnd c' = inEnd c"

lemma same_link_refl [simp]: "same_link c c"
  by (simp add: same_link_def)

lemma same_link_trans: "same_link a b \<Longrightarrow> same_link b c \<Longrightarrow> same_link a c"
  using net_frame_trans by (auto simp: same_link_def)

lemma same_link_update [simp]:
  "same_link c (c'\<lparr>inStart := i\<rparr>) = same_link c c'" "same_link c (c'\<lparr>inCursor := j\<rparr>) = same_link c c'"
  by (simp_all add: same_link_def)

lemma same_linkD: "same_link c c' \<Longrightarrow> queryclass c' = queryclass c" "same_link c c' \<Longrightarrow> same_events (env c) (env c')"
  by (simp_all add: same_link_def net_frame_def)

lemma moved_same_link: "moved c c' \<Longrightarrow> same_link c c'"
  using moved_net_frame [of c c'] parse_frame_fields [of c c'] by (simp add: same_link_def moved_def)

text \<open>The turn of the loop for a message whose handler has read exactly its contents.\<close>

lemma exact_step:
  assumes ok: "parser_ok c" and data: "in_data c = server_message ident body @ rest" and short: "short_enough ident body"
    and h: "handle_message ident (int (length body)) (at_body c) = Some (True, c1)" and cur: "inCursor c1 = inStart c + 5 + int (length body)"
    and display: "ident = 0x45 \<or> ident = 0x4E \<Longrightarrow> display_ok (at_body c)"
  shows "parse_step c = Some (True, c1\<lparr>inStart := inCursor c1\<rparr>)" "parser_ok (c1\<lparr>inStart := inCursor c1\<rparr>)"
    "in_data (c1\<lparr>inStart := inCursor c1\<rparr>) = rest" "same_link c (c1\<lparr>inStart := inCursor c1\<rparr>)"
proof -
  note step = server_message_step [OF ok data short]
  have id: "ident = hd (in_data (at_body c))" using data by (simp add: server_message_def)
  have hd: "handled (at_body c) True c1"
    using handle_message_ensures [OF step(2) id] display h by (simp add: ensures_def)
  then have st: "inStart c1 = inStart c" using moved_data(2) by (auto simp: handled_def)
  have "same_link (at_body c) c1" using hd by (intro moved_same_link) (simp add: handled_def)
  then show "same_link c (c1\<lparr>inStart := inCursor c1\<rparr>)" by (simp add: same_link_def at_body_def)
  have e: "end_message ident (int (length body)) c1 = Some (c1\<lparr>inStart := inCursor c1\<rparr>)" using cur st by (simp add: end_message_def)
  then show s: "parse_step c = Some (True, c1\<lparr>inStart := inCursor c1\<rparr>)" using step(1) h by simp
  have "next_display_ok c" using id display by (simp add: next_display_ok_def flip: at_body_def)
  from parse_step_ensures [OF ok this] s show "parser_ok (c1\<lparr>inStart := inCursor c1\<rparr>)" by (simp add: step_post_def)
  have r: "0 \<le> rows_of (at_body c)" "at_message (at_body c) (int (length body))"
    using step(2) by (simp_all add: handler_ok_def rows_of_nonneg)
  have l: "nat (5 + int (length body)) = length (server_message ident body)" by simp
  have "message_done (at_body c) (int (length body)) (c1\<lparr>inStart := inCursor c1\<rparr>)"
    using end_message_ensures [OF hd r(2,1), of ident] e by simp
  then have "in_data (c1\<lparr>inStart := inCursor c1\<rparr>) = drop (nat (5 + int (length body))) (in_data (at_body c))"
    unfolding message_done_def by blast
  then have "in_data (c1\<lparr>inStart := inCursor c1\<rparr>) = drop (length (server_message ident body)) (in_data c)"
    unfolding l by simp
  then show "in_data (c1\<lparr>inStart := inCursor c1\<rparr>) = rest" unfolding data by simp
qed


section \<open>What the server writes\<close>

definition enc_field :: "PGresAttDesc \<Rightarrow> byte list" where
  "enc_field f = the (ad_name f) @ 0 # be_bytes 4 (ad_tableid f) @ be_bytes 2 (ad_columnid f) @ be_bytes 4 (ad_typid f) @
     be_bytes 2 (ad_typlen f) @ be_bytes 4 (ad_atttypmod f) @ be_bytes 2 (ad_format f)"

definition field_fits :: "PGresAttDesc \<Rightarrow> bool" where
  "field_fits f \<longleftrightarrow> (\<exists>n. ad_name f = Some n \<and> 0 \<notin> set n) \<and>
     0 \<le> ad_tableid f \<and> ad_tableid f < 2 ^ 32 \<and> 0 \<le> ad_typid f \<and> ad_typid f < 2 ^ 32 \<and>
     - (2 ^ 31) \<le> ad_atttypmod f \<and> ad_atttypmod f < 2 ^ 31 \<and> - 32768 \<le> ad_columnid f \<and> ad_columnid f < 32768 \<and>
     - 32768 \<le> ad_typlen f \<and> ad_typlen f < 32768 \<and> - 32768 \<le> ad_format f \<and> ad_format f < 32768"

definition enc_value :: "byte list option \<Rightarrow> byte list" where
  "enc_value v = (case v of None \<Rightarrow> be_bytes 4 (- 1) | Some b \<Rightarrow> be_bytes 4 (int (length b)) @ b)"

definition row_description :: "PGresAttDesc list \<Rightarrow> byte list" where
  "row_description fs = server_message 0x54 (be_bytes 2 (int (length fs)) @ concat (map enc_field fs))"

definition data_row_message :: "byte list option list \<Rightarrow> byte list" where
  "data_row_message vs = server_message 0x44 (be_bytes 2 (int (length vs)) @ concat (map enc_value vs))"

definition command_complete_message :: "byte list \<Rightarrow> byte list" where
  "command_complete_message tag = server_message 0x43 (tag @ [0])"

text \<open>A value as the client keeps it.\<close>

definition client_value :: "byte list option \<Rightarrow> PGresAttValue" where
  "client_value v = (case v of None \<Rightarrow> null_value | Some b \<Rightarrow> \<lparr>av_len = int (length b), av_value = Some (b @ [0])\<rparr>)"

lemma net_int_be4: "net_int (be_bytes 4 v) = wrap32 v"
proof -
  have "wrap32 (v mod 2 ^ 32) = wrap32 v" by (simp add: wrap32_def mod_simps)
  then show ?thesis by (simp add: net_int_def be_value_bytes)
qed

lemma net_int_be2: "net_int (be_bytes 2 v) = v mod 65536"
  by (simp add: net_int_def be_value_bytes)

lemma int16_mod: "- 32768 \<le> v \<Longrightarrow> v < 32768 \<Longrightarrow> int16 (v mod 65536) = v"
  by (simp add: int16_def mod_simps)

lemma oid_wrap: "0 \<le> v \<Longrightarrow> v < 2 ^ 32 \<Longrightarrow> oid (wrap32 v) = v"
  by (simp add: oid_def wrap32_def mod_simps)

lemma take_be [simp]: "take n (be_bytes n v @ d) = be_bytes n v" "drop n (be_bytes n v @ d) = d"
  by simp_all

lemma field_at_enc:
  assumes "field_fits f"
  shows "field_at (enc_field f @ d) = Some (f, length (enc_field f))"
proof -
  obtain n where n: "ad_name f = Some n" "0 \<notin> set n" using assms by (auto simp: field_fits_def)
  let ?e = "be_bytes 4 (ad_tableid f) @ be_bytes 2 (ad_columnid f) @ be_bytes 4 (ad_typid f) @
     be_bytes 2 (ad_typlen f) @ be_bytes 4 (ad_atttypmod f) @ be_bytes 2 (ad_format f) @ d"
  have e: "enc_field f @ d = n @ 0 # ?e" using n(1) by (simp add: enc_field_def)
  have c: "c_str (n @ 0 # ?e) = n" using n(2) by (auto simp: c_str_def takeWhile_tail takeWhile_eq_all_conv)
  have dr: "drop (length n + 1) (n @ 0 # ?e) = ?e" by simp
  have l: "length (enc_field f) = length n + 19" using n(1) by (simp add: enc_field_def)
  have parts: "take 4 ?e = be_bytes 4 (ad_tableid f)" "take 2 (drop 4 ?e) = be_bytes 2 (ad_columnid f)" "take 4 (drop 6 ?e) = be_bytes 4 (ad_typid f)"
    "take 2 (drop 10 ?e) = be_bytes 2 (ad_typlen f)" "take 4 (drop 12 ?e) = be_bytes 4 (ad_atttypmod f)" "take 2 (drop 16 ?e) = be_bytes 2 (ad_format f)"
    by simp_all
  have f: "oid (wrap32 (ad_tableid f)) = ad_tableid f" "oid (wrap32 (ad_typid f)) = ad_typid f" "wrap32 (ad_atttypmod f) = ad_atttypmod f"
    "int16 (ad_columnid f mod 65536) = ad_columnid f" "int16 (ad_typlen f mod 65536) = ad_typlen f" "int16 (ad_format f mod 65536) = ad_format f"
    using assms by (auto simp: field_fits_def intro!: oid_wrap int16_mod wrap32_id)
  have z: "0 \<in> set (n @ 0 # ?e)" "\<not> length ?e < 18" by simp_all
  show ?thesis unfolding e field_at_def c Let_def dr parts net_int_be4 net_int_be2 f using z n(1) l by simp
qed

lemma fields_at_enc:
  "list_all field_fits fs \<Longrightarrow> fields_at (length fs) (concat (map enc_field fs) @ d) = Some (fs, length (concat (map enc_field fs)))"
  by (induction fs) (simp_all add: field_at_enc)

lemma row_desc_enc:
  assumes "list_all field_fits fs" "length fs < 65536"
  shows "row_desc_at (be_bytes 2 (int (length fs)) @ concat (map enc_field fs) @ d) = Some (fs, 2 + length (concat (map enc_field fs)))"
  using fields_at_enc [OF assms(1)] assms(2) by (simp add: row_desc_at_def net_int_be2)

definition value_fits :: "byte list option \<Rightarrow> bool" where
  "value_fits v \<longleftrightarrow> (\<forall>b. v = Some b \<longrightarrow> length b < 2147483648)"

lemma value_enc:
  assumes "value_fits v"
  shows "value_of (enc_value v @ d) = client_value v" "4 + value_len (enc_value v @ d) = length (enc_value v)"
proof -
  show "value_of (enc_value v @ d) = client_value v" "4 + value_len (enc_value v @ d) = length (enc_value v)"
    using assms by (auto simp: value_fits_def value_of_def value_len_def enc_value_def client_value_def net_int_be4 wrap32_id split: option.splits)
qed

lemma row_of_enc:
  "list_all value_fits vs \<Longrightarrow> row_of (length vs) (concat (map enc_value vs) @ d) = Some (map client_value vs, length (concat (map enc_value vs)))"
proof (induction vs)
  case (Cons v vs)
  note e = value_enc [of v "concat (map enc_value vs) @ d"]
  have "drop (4 + value_len (enc_value v @ concat (map enc_value vs) @ d)) (enc_value v @ concat (map enc_value vs) @ d) = concat (map enc_value vs) @ d"
    using e(2) Cons.prems by simp
  then show ?case using Cons e by (simp add: add.assoc)
qed simp



section \<open>The result as it grows\<close>

text \<open>The client in the middle of an answer: the description has come, and these rows.\<close>

definition gathering :: "pg_conn \<Rightarrow> PGresAttDesc list \<Rightarrow> byte list option list list \<Rightarrow> bool" where
  "gathering c fs rows \<longleftrightarrow> parser_ok c \<and> plenty (e_alloc (env c)) \<and> asyncStatus c = PGASYNC_BUSY \<and> queryclass c \<noteq> PGQUERY_DESCRIBE \<and>
     curTuple c = None \<and> (\<exists>r. result c = Some r \<and> resultStatus r = PGRES_TUPLES_OK \<and> attrs r = fs \<and> numAttributes r = int (length fs) \<and>
       tuples r = map (map client_value) rows)"

lemma description_step:
  assumes "parser_ok c" "plenty (e_alloc (env c))" "asyncStatus c = PGASYNC_BUSY" "queryclass c \<noteq> PGQUERY_DESCRIBE" "result c = None"
    and data: "in_data c = row_description fs @ rest" and fs: "list_all field_fits fs" "length fs < 65536"
  obtains c' where "parse_step c = Some (True, c')" "gathering c' fs []" "in_data c' = rest" "same_link c c'"
proof -
  let ?body = "be_bytes 2 (int (length fs)) @ concat (map enc_field fs)"
  have d: "in_data c = server_message 0x54 ?body @ rest" using data by (simp add: row_description_def)
  have short: "short_enough 0x54 ?body" by (simp add: short_enough_def VALID_LONG_MESSAGE_TYPE_def)
  note step = server_message_step [OF assms(1) d short]
  have h: "state_ok (at_body c)" "results_ok (at_body c)" "row_started (at_body c)" using step(2) by (simp_all add: handler_ok_def)
  have t: "curTuple (at_body c) = None" using h(3) assms(5) by (cases "curTuple c") (auto simp: row_started_def)
  have rd: "row_desc_at (unread (at_body c)) = Some (fs, length ?body)" using row_desc_enc [OF fs, of rest] step(3) by simp
  obtain r c1 where r: "getRowDescriptions (at_body c) = Some (r, c1)" "desc_result (at_body c) fs (length ?body) r c1"
    using getRowDescriptions_ensures [OF h(1,2) t] rd assms(2,4) by (auto simp: ensures_def)
  obtain c2 res where c2: "got (at_body c) (length ?body) c2" "c1 = c2\<lparr>result := Some res\<rparr>" "attrs res = fs" "r = 0"
    "described ((empty_result (noticeRec c) (client_encoding c) PGRES_TUPLES_OK)\<lparr>numAttributes := int (length fs)\<rparr>) res"
    using r(2) by (auto simp: desc_result_def)
  have hm: "handle_message 0x54 (int (length ?body)) (at_body c) = Some (True, c1)"
    using assms(3-5) r(1) c2(4) by (simp add: handle_message_def busy_message_def then_status_def)
  have cur: "inCursor c1 = inStart c + 5 + int (length ?body)" using gotD(12) [OF c2(1)] c2(2) by simp
  note e = exact_step [OF assms(1) d short hm cur, simplified]
  have p: "plenty (e_alloc (env c2))" using gotD(4) [OF c2(1)] assms(2) by simp
  have res: "resultStatus res = PGRES_TUPLES_OK" "tuples res = []" "numAttributes res = int (length fs)"
    using described_fields [OF c2(5)] by (simp_all add: empty_result_def)
  have "gathering (c1\<lparr>inStart := inCursor c1\<rparr>) fs []"
    using e(2) p gotD(8,9,10) [OF c2(1)] assms(3,4) t c2(2,3) res by (simp add: gathering_def)
  then show thesis using that [of "c1\<lparr>inStart := inCursor c1\<rparr>"] e c2(2) by simp
qed

lemma row_step:
  assumes g: "gathering c fs rows" and data: "in_data c = data_row_message vs @ rest" and vs: "length vs = length fs" "list_all value_fits vs" "length fs < 65536"
  obtains c' where "parse_step c = Some (True, c')" "gathering c' fs (rows @ [vs])" "in_data c' = rest" "same_link c c'"
proof -
  let ?body = "be_bytes 2 (int (length vs)) @ concat (map enc_value vs)"
  have ok: "parser_ok c" "plenty (e_alloc (env c))" "asyncStatus c = PGASYNC_BUSY" "queryclass c \<noteq> PGQUERY_DESCRIBE" "curTuple c = None"
    using g by (simp_all add: gathering_def)
  obtain r where r: "result c = Some r" "resultStatus r = PGRES_TUPLES_OK" "attrs r = fs" "numAttributes r = int (length fs)"
    "tuples r = map (map client_value) rows" using g by (auto simp: gathering_def)
  have d: "in_data c = server_message 0x44 ?body @ rest" using data by (simp add: data_row_message_def)
  have short: "short_enough 0x44 ?body" by (simp add: short_enough_def VALID_LONG_MESSAGE_TYPE_def)
  note step = server_message_step [OF ok(1) d short]
  have h: "state_ok (at_body c)" "at_message (at_body c) (int (length ?body))" "results_ok (at_body c)" "row_started (at_body c)" "rows_of c < 536870912"
    using step(2) by (simp_all add: handler_ok_def)
  have n: "ntups r < 536870912" using h(5) r(1) by (simp add: rows_of_def)
  have hd: "hd (in_data (at_body c)) = 0x44" using d by (simp add: server_message_def)
  have row: "net_int (take 2 (unread (at_body c))) = numAttributes r" "2 \<le> length (unread (at_body c))"
    "row_of (nat (numAttributes r)) (drop 2 (unread (at_body c))) = Some (map client_value vs, length (concat (map enc_value vs)))"
    using step(3) row_of_enc [OF vs(2), of rest] vs(1,3) r(4) by (simp_all add: net_int_be2)
  obtain ret c1 where c1: "getAnotherTuple (at_body c) (int (length ?body)) = Some (ret, c1)" "row_post (at_body c) r (ret, c1)"
    using getAnotherTuple_ensures [OF h(1,2,3) _ _ hd _ r(2) n h(4)] ok(3-5) r(1) by (auto simp: ensures_def)
  have post: "ret = 0" "inCursor c1 = inStart c + 5 + int (length ?body)" "asyncStatus c1 = PGASYNC_BUSY" "plenty (e_alloc (env c1))"
    "\<exists>r'. result c1 = Some r' \<and> added r (map client_value vs) r'" "handled (at_body c) True c1"
    using c1(2) row ok(2,3) unfolding row_post_def prod.case by auto
  then obtain r' where r': "result c1 = Some r'" "added r (map client_value vs) r'" by blast
  have hm: "handle_message 0x44 (int (length ?body)) (at_body c) = Some (True, c1)"
    using ok(3) r(1,2) c1(1) post(1) by (simp add: handle_message_def busy_message_def data_row_def then_status_def)
  note e = exact_step [OF ok(1) d short hm post(2), simplified]
  have q: "curTuple c1 = None" "queryclass c1 = queryclass c" using post(6) moved_data(4) [of "at_body c" c1] by (auto simp: handled_def)
  have "attrs r' = fs" "resultStatus r' = PGRES_TUPLES_OK" "numAttributes r' = int (length fs)" "tuples r' = map (map client_value) (rows @ [vs])"
    using r'(2) r by (auto simp: added_def attrs_def)
  then have "gathering (c1\<lparr>inStart := inCursor c1\<rparr>) fs (rows @ [vs])"
    using e(2) post(3,4) q ok(4) r'(1) by (simp add: gathering_def)
  then show thesis using that [of "c1\<lparr>inStart := inCursor c1\<rparr>"] e by simp
qed

text \<open>Rows one after the other.\<close>

lemma rows_steps:
  assumes "gathering c fs rows0" "in_data c = concat (map data_row_message rows) @ rest" "list_all (\<lambda>vs. length vs = length fs \<and> list_all value_fits vs) rows"
    "length fs < 65536"
  obtains c' where "parse_reach c c'" "gathering c' fs (rows0 @ rows)" "in_data c' = rest" "same_link c c'"
  using assms
proof (induction rows arbitrary: c rows0 thesis)
  case Nil
  show ?case by (rule Nil.prems(1) [OF reach_start]) (use Nil.prems in simp_all)
next
  case (Cons vs rows)
  have "in_data c = data_row_message vs @ concat (map data_row_message rows) @ rest" using Cons.prems(3) by simp
  then obtain c1 where c1: "parse_step c = Some (True, c1)" "gathering c1 fs (rows0 @ [vs])" "in_data c1 = concat (map data_row_message rows) @ rest"
    "same_link c c1"
    by (rule row_step [OF Cons.prems(2)]) (use Cons.prems(4,5) in auto)
  obtain c2 where c2: "parse_reach c1 c2" "gathering c2 fs ((rows0 @ [vs]) @ rows)" "in_data c2 = rest" "same_link c1 c2"
    by (rule Cons.IH [OF _ c1(2,3)]) (use Cons.prems(4,5) in auto)
  show ?case using Cons.prems(1) [OF reach_step [OF c1(1) c2(1)]] c2 same_link_trans [OF c1(4)] by simp
qed

text \<open>The end of the answer.\<close>

definition answered :: "pg_conn \<Rightarrow> PGresAttDesc list \<Rightarrow> byte list option list list \<Rightarrow> byte list \<Rightarrow> bool" where
  "answered c fs rows tag \<longleftrightarrow> asyncStatus c = PGASYNC_READY \<and> curTuple c = None \<and>
     (\<exists>r. result c = Some r \<and> resultStatus r = PGRES_TUPLES_OK \<and> attrs r = fs \<and> numAttributes r = int (length fs) \<and>
       tuples r = map (map client_value) rows \<and> ntups r = int (length rows) \<and> cmdStatus r = c_strncpy tag CMDSTATUS_LEN)"

lemma complete_step:
  assumes g: "gathering c fs rows" and data: "in_data c = command_complete_message tag @ rest" and tag: "0 \<notin> set tag" "length tag < 29996"
  obtains c' where "parse_step c = Some (True, c')" "parser_ok c'" "answered c' fs rows tag" "in_data c' = rest"
    "same_link c c'" "plenty (e_alloc (env c'))"
proof -
  have ok: "parser_ok c" "plenty (e_alloc (env c))" "asyncStatus c = PGASYNC_BUSY" "curTuple c = None"
    using g by (simp_all add: gathering_def)
  obtain r where r: "result c = Some r" "resultStatus r = PGRES_TUPLES_OK" "attrs r = fs" "numAttributes r = int (length fs)"
    "tuples r = map (map client_value) rows" using g by (auto simp: gathering_def)
  have d: "in_data c = server_message 0x43 (tag @ [0]) @ rest" using data by (simp add: command_complete_message_def)
  have short: "short_enough 0x43 (tag @ [0])" using tag(2) by (simp add: short_enough_def)
  note step = server_message_step [OF ok(1) d short]
  have h: "state_ok (at_body c)" "results_ok (at_body c)" using step(2) by (simp_all add: handler_ok_def)
  have u: "0 \<in> set (unread (at_body c))" "c_str (unread (at_body c)) = tag" using step(3) tag(1) by (simp_all add: c_str_append)
  obtain b c1 where c1: "command_complete (at_body c) = Some (b, c1)" "complete_post (at_body c) (b, c1)"
    using command_complete_ensures [OF h] ok(4) by (auto simp: ensures_def)
  have post: "b" "asyncStatus c1 = PGASYNC_READY" "inCursor c1 = inStart c + 5 + int (length (tag @ [0]))" "calm (at_body c) c1"
    "result c1 = Some (tagged r tag)" "plenty (e_alloc (env c1))"
    using c1(2) u ok(2) r(1) unfolding complete_post_def prod.case by auto
  have hm: "handle_message 0x43 (int (length (tag @ [0]))) (at_body c) = Some (True, c1)"
    using ok(3) c1(1) post(1) by (simp add: handle_message_def busy_message_def)
  note e = exact_step [OF ok(1) d short hm post(3), simplified]
  have "result_ok r" using h(2) r(1) by (simp add: results_ok_def)
  then have "ntups r = int (length rows)" using r(5) by (simp add: result_ok_def rows_ok_def)
  then have "answered (c1\<lparr>inStart := inCursor c1\<rparr>) fs rows tag"
    using post(2,5) calmD(3) [OF post(4)] r by (simp add: answered_def tagged_def attrs_def)
  then show thesis using that [of "c1\<lparr>inStart := inCursor c1\<rparr>"] e post(6) by simp
qed



section \<open>The loop on an answer\<close>

lemma reach_run: "parse_reach c c' \<Longrightarrow> pqParseInput3 c = pqParseInput3 c'"
  by (induction rule: parse_reach.induct) (simp_all add: pqParseInput3.simps)

lemma parse_reach_trans: "parse_reach a b \<Longrightarrow> parse_reach b c \<Longrightarrow> parse_reach a c"
  by (induction rule: parse_reach.induct) (auto intro: reach_step)

text \<open>A client with a result to hand out leaves every message but notifications and notices where it is.\<close>

definition next_waits :: "byte list \<Rightarrow> bool" where
  "next_waits rest \<longleftrightarrow> rest = [] \<or>
     (\<exists>ident body r. rest = server_message ident body @ r \<and> short_enough ident body \<and> ident \<noteq> 0x41 \<and> ident \<noteq> 0x4E)"

lemma ready_stops:
  assumes "parser_ok c" "asyncStatus c = PGASYNC_READY" "next_waits (in_data c)"
  shows "\<exists>k. pqParseInput3 c = Some (c\<lparr>inCursor := k\<rparr>)"
proof (cases "in_data c = []")
  case True
  let ?c = "c\<lparr>inCursor := inStart c\<rparr>"
  have s: "state_ok ?c" using assms(1) by (simp add: parser_ok_def)
  have "unread ?c = []" using True by (simp add: unread_def in_data_def)
  then have "pqGetc ?c = Some (None, ?c)" by (cases rule: pqGetc_cases [OF s]) simp_all
  then have "pqParseInput3 c = Some ?c" by (simp add: pqParseInput3.simps parse_step_def)
  then show ?thesis by blast
next
  case False
  then obtain ident body r where m: "in_data c = server_message ident body @ r" "short_enough ident body" "ident \<noteq> 0x41" "ident \<noteq> 0x4E"
    using assms(3) by (auto simp: next_waits_def)
  have "handle_message ident (int (length body)) (at_body c) = Some (False, at_body c)"
    using m(3,4) assms(2) by (simp add: handle_message_def)
  then have "parse_step c = Some (False, at_body c)" using server_message_step(1) [OF assms(1) m(1,2)] by simp
  then have "pqParseInput3 c = Some (at_body c)" by (simp add: pqParseInput3.simps)
  then show ?thesis unfolding at_body_def by blast
qed

lemma answered_cursor [simp]: "answered (c\<lparr>inCursor := k\<rparr>) fs rows tag = answered c fs rows tag"
  by (simp add: answered_def)

lemma in_data_cursor [simp]: "in_data (c\<lparr>inCursor := k\<rparr>) = in_data c"
  by (simp add: in_data_def)

lemma answer_parsed:
  assumes ok: "parser_ok c" "plenty (e_alloc (env c))" "asyncStatus c = PGASYNC_BUSY" "queryclass c \<noteq> PGQUERY_DESCRIBE" "result c = None"
    and data: "in_data c = row_description fs @ concat (map data_row_message rows) @ command_complete_message tag @ rest"
    and fits: "list_all field_fits fs" "length fs < 65536" "list_all (\<lambda>vs. length vs = length fs \<and> list_all value_fits vs) rows"
      "0 \<notin> set tag" "length tag < 29996" "next_waits rest"
  shows "\<exists>c'. pqParseInput3 c = Some c' \<and> answered c' fs rows tag \<and> in_data c' = rest \<and> results_ok c'"
proof -
  obtain c1 where c1: "parse_step c = Some (True, c1)" "gathering c1 fs []"
    "in_data c1 = concat (map data_row_message rows) @ command_complete_message tag @ rest"
    by (rule description_step [OF ok data fits(1,2)])
  obtain c2 where c2: "parse_reach c1 c2" "gathering c2 fs ([] @ rows)" "in_data c2 = command_complete_message tag @ rest"
    by (rule rows_steps [OF c1(2,3) fits(3,2)])
  obtain c3 where c3: "parse_step c2 = Some (True, c3)" "parser_ok c3" "answered c3 fs ([] @ rows) tag" "in_data c3 = rest"
    by (rule complete_step [OF c2(2,3) fits(4,5)])
  have "parse_reach c c3" by (rule reach_step [OF c1(1) parse_reach_trans [OF c2(1) reach_step [OF c3(1) reach_start]]])
  then have run: "pqParseInput3 c = pqParseInput3 c3" by (rule reach_run)
  have "asyncStatus c3 = PGASYNC_READY" "next_waits (in_data c3)" using c3(3,4) fits(6) by (simp_all add: answered_def)
  from ready_stops [OF c3(2) this] obtain k where "pqParseInput3 c3 = Some (c3\<lparr>inCursor := k\<rparr>)" by blast
  moreover have "results_ok c3" using c3(2) by (simp add: parser_ok_def)
  ultimately show ?thesis using run c3(3,4) by simp
qed


section \<open>An error\<close>

definition enc_error :: "(byte \<times> byte list) list \<Rightarrow> byte list" where
  "enc_error fs = concat (map (\<lambda>(k, v). k # v @ [0]) fs) @ [0]"

lemma error_fields_enc:
  "list_all (\<lambda>(k, v). k \<noteq> 0 \<and> 0 \<notin> set v) fs \<Longrightarrow> error_fields (enc_error fs @ d) = Some (fs, length (enc_error fs))"
proof (induction fs)
  case Nil
  show ?case by (simp add: enc_error_def error_fields.simps(2))
next
  case (Cons f fs)
  obtain k v where f: "f = (k, v)" by (cases f)
  have e: "enc_error (f # fs) @ d = k # v @ 0 # (enc_error fs @ d)" by (simp add: enc_error_def f)
  have k: "k \<noteq> 0" "0 \<notin> set v" using Cons.prems by (simp_all add: f)
  have c: "c_str (v @ 0 # (enc_error fs @ d)) = v" by (rule c_str_append [OF k(2)])
  have z: "0 \<in> set (v @ 0 # (enc_error fs @ d))" by simp
  have dr: "drop (length v + 1) (v @ 0 # (enc_error fs @ d)) = enc_error fs @ d" by simp
  have l: "length (enc_error (f # fs)) = length v + 2 + length (enc_error fs)" by (simp add: enc_error_def f)
  show ?case unfolding e error_fields.simps(2) c dr using k(1) z Cons l f by simp
qed

lemma error_step:
  assumes ok: "parser_ok c" "plenty (e_alloc (env c))" "asyncStatus c = PGASYNC_BUSY" "curTuple c = None"
    and data: "in_data c = server_message 0x45 (enc_error fs) @ rest" and fs: "list_all (\<lambda>(k, v). k \<noteq> 0 \<and> 0 \<notin> set v) fs"
    and display: "display_ok (at_body c)"
  obtains c' res m where "parse_step c = Some (True, c')" "parser_ok c'" "asyncStatus c' = PGASYNC_READY" "in_data c' = rest"
    "result c' = Some res" "resultStatus res = PGRES_FATAL_ERROR" "errFields res = rev fs" "errMsg res = Some m"
    "shown_query c res = None \<longrightarrow> m = [] \<or> m = c_str (error_text c res)"
proof -
  let ?body = "enc_error fs"
  have short: "short_enough 0x45 ?body" by (simp add: short_enough_def VALID_LONG_MESSAGE_TYPE_def)
  note step = server_message_step [OF ok(1) data short]
  have h: "state_ok (at_body c)" "results_ok (at_body c)" "curTuple (at_body c) = None" using step(2) ok(4) by (simp_all add: handler_ok_def)
  obtain r c1 where c1: "pqGetErrorNotice3 (at_body c) True = Some (r, c1)" "error_post (at_body c) True (r, c1)"
    using pqGetErrorNotice3_ensures [OF h display, of True] by (auto simp: ensures_def)
  obtain res m where post: "r = 0" "inCursor c1 = inStart c + 5 + int (length ?body)" "result c1 = Some res" "resultStatus res = PGRES_FATAL_ERROR"
    "errFields res = rev fs" "errMsg res = Some m" "shown_query (at_body c) res = None \<longrightarrow> m = [] \<or> m = c_str (error_text (at_body c) res)"
    using c1(2) ok(2) error_fields_enc [OF fs, of rest] step(3) unfolding error_post_def prod.case by auto
  have hm: "handle_message 0x45 (int (length ?body)) (at_body c) = Some (True, c1\<lparr>asyncStatus := PGASYNC_READY\<rparr>)"
    using ok(3) c1(1) post(1) by (simp add: handle_message_def busy_message_def then_status_def)
  have cur: "inCursor (c1\<lparr>asyncStatus := PGASYNC_READY\<rparr>) = inStart c + 5 + int (length ?body)" using post(2) by simp
  note e = exact_step [OF ok(1) data short hm cur display]
  have t: "shown_query (at_body c) res = shown_query c res" "error_text (at_body c) res = error_text c res"
    using message_text_cong [of res res "at_body c" c] by simp_all
  show thesis
    by (rule that [OF e(1,2) _ e(3), of res m]) (use post(3-7) t in simp_all)
qed

end
