(* ===== verification/ParseProps.thy ===== *)
theory ParseProps
  imports ParseQuery Messages
begin

text \<open>
  The properties of the protocol 3 parser.
\<close>

section \<open>Example connections\<close>

text \<open>A client that waits for the answer to a simple query; \<open>bs\<close> has come in.\<close>

definition waiting_conn :: "byte list \<Rightarrow> pg_conn" where
  "waiting_conn bs = example_conn\<lparr>asyncStatus := PGASYNC_BUSY, verbosity := PQERRORS_TERSE,
     inBuffer := bs @ replicate (16384 - length bs) 0, inStart := 0, inCursor := 0, inEnd := int (length bs)\<rparr>"

lemma waiting_conn_fields [simp]:
  "asyncStatus (waiting_conn bs) = PGASYNC_BUSY" "verbosity (waiting_conn bs) = PQERRORS_TERSE" "inStart (waiting_conn bs) = 0"
  "inCursor (waiting_conn bs) = 0" "result (waiting_conn bs) = None" "curTuple (waiting_conn bs) = None"
  "queryclass (waiting_conn bs) = PGQUERY_SIMPLE" "in_data (waiting_conn bs) = bs" "plenty (e_alloc (env (waiting_conn bs)))"
  "inEnd (waiting_conn bs) = int (length bs)" "client_encoding (waiting_conn bs) = PG_UTF8" "last_query (waiting_conn bs) = None"
  by (simp_all add: waiting_conn_def example_conn_def in_data_def plenty_def)

lemma waiting_conn_ok:
  assumes "length bs \<le> 16384"
  shows "parser_ok (waiting_conn bs)" "state_ok (waiting_conn bs)"
proof -
  have "conn_ok (waiting_conn bs)"
    using example_conn_ok assms by (simp add: waiting_conn_def conn_ok_def in_ok_def out_ok_def) (simp add: example_conn_def)
  then show s: "state_ok (waiting_conn bs)" by (simp add: state_ok_def PG_VALID_ENCODING_def)
  then have "state_ok ((waiting_conn bs)\<lparr>inCursor := inStart (waiting_conn bs)\<rparr>)" by (rule state_ok_rewind)
  then show "parser_ok (waiting_conn bs)" using assms by (simp add: parser_ok_def results_ok_def row_started_def rows_of_def)
qed

definition example_fields :: "PGresAttDesc list" where
  "example_fields = [\<lparr>ad_name = Some (lit ''item''), ad_tableid = 16384, ad_columnid = 1, ad_format = 0, ad_typid = 25, ad_typlen = - 1, ad_atttypmod = - 1\<rparr>,
     \<lparr>ad_name = Some (lit ''price''), ad_tableid = 16384, ad_columnid = 2, ad_format = 0, ad_typid = 23, ad_typlen = 4, ad_atttypmod = - 1\<rparr>]"

definition example_rows :: "byte list option list list" where
  "example_rows = [[Some (lit ''tea''), Some (lit ''3'')], [Some (lit ''water''), None]]"

definition example_answer :: "byte list" where
  "example_answer = row_description example_fields @ concat (map data_row_message example_rows) @ command_complete_message (lit ''SELECT 2'') @
     server_message 0x5A [0x49]"

lemma example_answer_fits:
  "list_all field_fits example_fields" "list_all (\<lambda>vs. length vs = length example_fields \<and> list_all value_fits vs) example_rows"
  "next_waits (server_message 0x5A [0x49])" "length example_answer \<le> 16384"
proof -
  show "list_all field_fits example_fields" by (simp add: example_fields_def field_fits_def c_bytes_def)
  show "list_all (\<lambda>vs. length vs = length example_fields \<and> list_all value_fits vs) example_rows"
    by (simp add: example_rows_def example_fields_def value_fits_def)
  have "server_message 0x5A [0x49] = server_message 0x5A [0x49] @ []" "short_enough 0x5A [0x49]" by (simp_all add: short_enough_def)
  then show "next_waits (server_message 0x5A [0x49])" unfolding next_waits_def by fastforce
  show "length example_answer \<le> 16384"
    by (simp add: example_answer_def row_description_def data_row_message_def command_complete_message_def example_rows_def example_fields_def
      enc_field_def enc_value_def)
qed


definition example_error :: "(byte \<times> byte list) list" where
  "example_error = [(0x53, lit ''ERROR''), (0x43, lit ''42P01''), (0x4D, lit ''relation does not exist'')]"

section \<open>Safety\<close>

text \<open>C5: Whatever bytes the server sends, however they are cut into packets and whichever allocations fail, \<open>pqParseInput3\<close> ends
  without an access outside a buffer, a result or the row under construction, keeps the invariant \<open>parser_ok\<close> and removes
  whole messages from the front of the data. The one exception is a message it comes to that reports an error at a position in
  a query text that ends in an incomplete character.\<close>

theorem parse_input_safe:
  assumes "parser_ok c"
  shows "(\<exists>c' ms. pqParseInput3 c = Some c' \<and> parser_ok c' \<and> list_all is_message ms \<and> in_data c = concat ms @ in_data c') \<or>
    (\<exists>c1. parse_reach c c1 \<and> \<not> next_display_ok c1)"
proof (cases "\<forall>c1. parse_reach c c1 \<longrightarrow> next_display_ok c1")
  case True
  then have "ensures (pqParseInput3 c) (loop_post c)" by (intro parse_loop_ensures [OF assms]) blast
  then show ?thesis by (auto simp: ensures_def loop_post_def)
qed blast

lemma parse_input_safe_witness:
  "(\<exists>c' ms. pqParseInput3 (waiting_conn [0x43, 0, 0]) = Some c' \<and> parser_ok c' \<and> list_all is_message ms \<and> in_data (waiting_conn [0x43, 0, 0]) = concat ms @ in_data c') \<or>
    (\<exists>c1. parse_reach (waiting_conn [0x43, 0, 0]) c1 \<and> \<not> next_display_ok c1)"
  by (rule parse_input_safe) (simp add: waiting_conn_ok)

text \<open>C11: A client that asked for terse messages, so that no query is displayed, is safe without exception: \<open>pqParseInput3\<close> ends on all
  data from the server, and keeps the invariant.\<close>

theorem parse_input_terse_total:
  assumes "parser_ok c" "verbosity c = PQERRORS_TERSE"
  shows "\<exists>c' ms. pqParseInput3 c = Some c' \<and> parser_ok c' \<and> list_all is_message ms \<and> in_data c = concat ms @ in_data c'"
proof -
  have "ensures (pqParseInput3 c) (loop_post c)"
    by (rule parse_loop_ensures [OF assms(1)]) (use assms(2) terse_next_display_ok in auto)
  then show ?thesis by (auto simp: ensures_def loop_post_def)
qed

lemma parse_input_terse_total_witness:
  "\<exists>c' ms. pqParseInput3 (waiting_conn [0x45, 0xFF, 0xFF, 0xFF, 0xFF]) = Some c' \<and> parser_ok c' \<and> list_all is_message ms \<and>
    in_data (waiting_conn [0x45, 0xFF, 0xFF, 0xFF, 0xFF]) = concat ms @ in_data c'"
  by (rule parse_input_terse_total) (simp_all add: waiting_conn_ok)

text \<open>Data that comes in behind the data that is there keeps the invariant of the parser.\<close>

lemma only_in_more:
  assumes "only_in c c'"
  shows "curTuple c' = curTuple c" "queryclass c' = queryclass c" "client_encoding c' = client_encoding c" "verbosity c' = verbosity c"
  using assms unfolding only_in_def by (cases c; cases c'; simp)+

text \<open>C12: Reading and parsing fit together: \<open>pqReadData\<close> keeps the invariant of the parser, the row under construction included, when the
  rows and the data that has come in stay within the limit.\<close>

theorem read_data_keeps_parser_ok:
  assumes "parser_ok c" "state_ok c"
  shows "\<exists>r c'. pqReadData c = Some (r, c') \<and> state_ok c' \<and> (7 * rows_of c' + (inEnd c' - inStart c') < 3758096384 \<longrightarrow> parser_ok c')"
proof -
  obtain r bs c' where r: "pqReadData c = Some (r, c')" "read_in c bs c'"
    using pqReadData_spec [of c] assms(2) by (auto simp: state_ok_def)
  note i = r(2) [unfolded read_in_def]
  have o: "only_in c c'" using i by blast
  have s: "state_ok c'" using i assms(2) only_in_more [OF o] by (simp add: state_ok_def)
  have "results_ok c'" "row_started c"
    using assms(1) only_in_fields [OF o] only_in_more [OF o] by (simp_all add: parser_ok_def results_ok_def)
  moreover from this have "row_started c'" by (intro row_started_append [of c c' bs]) (use i only_in_fields [OF o] only_in_more [OF o] in auto)
  ultimately show ?thesis using r(1) s state_ok_rewind [OF s] by (simp add: parser_ok_def)
qed

lemma read_data_keeps_parser_ok_witness:
  "\<exists>r c'. pqReadData (waiting_conn [0x44, 0, 0]) = Some (r, c') \<and> state_ok c' \<and>
    (7 * rows_of c' + (inEnd c' - inStart c') < 3758096384 \<longrightarrow> parser_ok c')"
  by (rule read_data_keeps_parser_ok) (simp_all add: waiting_conn_ok)


section \<open>Answers\<close>

text \<open>C3: An answer of the server to a query (a description of the columns, any number of rows, the command tag), in the input in full, becomes
  the result the server described: the column descriptors, every value byte for byte, nulls as nulls, the rows in order, the tag
  cut to 64 characters. The client has a result to hand out then, and what follows the answer is still there.\<close>

theorem query_answer_roundtrip:
  assumes "parser_ok c" "plenty (e_alloc (env c))" "asyncStatus c = PGASYNC_BUSY" "queryclass c \<noteq> PGQUERY_DESCRIBE" "result c = None"
    and "in_data c = row_description fs @ concat (map data_row_message rows) @ command_complete_message tag @ rest"
    and "list_all field_fits fs" "length fs < 65536" "list_all (\<lambda>vs. length vs = length fs \<and> list_all value_fits vs) rows"
      "0 \<notin> set tag" "length tag < 29996" "next_waits rest"
  shows "\<exists>c' r. pqParseInput3 c = Some c' \<and> in_data c' = rest \<and> asyncStatus c' = PGASYNC_READY \<and> result c' = Some r \<and>
    resultStatus r = PGRES_TUPLES_OK \<and> attrs r = fs \<and> numAttributes r = int (length fs) \<and> ntups r = int (length rows) \<and>
    tuples r = map (map client_value) rows \<and> cmdStatus r = c_strncpy tag CMDSTATUS_LEN"
  using answer_parsed [OF assms] by (auto simp: answered_def)

lemma query_answer_roundtrip_witness:
  "\<exists>c' r. pqParseInput3 (waiting_conn example_answer) = Some c' \<and> in_data c' = server_message 0x5A [0x49] \<and> asyncStatus c' = PGASYNC_READY \<and>
    result c' = Some r \<and> resultStatus r = PGRES_TUPLES_OK \<and> attrs r = example_fields \<and> numAttributes r = int (length example_fields) \<and>
    ntups r = int (length example_rows) \<and> tuples r = map (map client_value) example_rows \<and>
    cmdStatus r = c_strncpy (lit ''SELECT 2'') CMDSTATUS_LEN"
  by (rule query_answer_roundtrip)
    (use example_answer_fits in \<open>simp_all add: waiting_conn_ok c_bytes_def\<close>, simp_all add: example_answer_def example_fields_def c_bytes_def)

text \<open>What the server tells, and what it means for the answer as a whole.\<close>

datatype answer_event = Described "PGresAttDesc list" | Row "byte list option list" | Completed "byte list"
datatype answer_state = Waiting | Gathering "PGresAttDesc list" "byte list option list list"
  | Answered "PGresAttDesc list" "byte list option list list" "byte list"

fun answer_step :: "answer_state \<Rightarrow> answer_event \<Rightarrow> answer_state option" where
  "answer_step Waiting (Described fs) = (if list_all field_fits fs \<and> length fs < 65536 then Some (Gathering fs []) else None)"
| "answer_step (Gathering fs rows) (Row vs) =
     (if length vs = length fs \<and> list_all value_fits vs \<and> length fs < 65536 then Some (Gathering fs (rows @ [vs])) else None)"
| "answer_step (Gathering fs rows) (Completed tag) = (if 0 \<notin> set tag \<and> length tag < 29996 then Some (Answered fs rows tag) else None)"
| "answer_step s e = None"

fun event_message :: "answer_event \<Rightarrow> byte list" where
  "event_message (Described fs) = row_description fs"
| "event_message (Row vs) = data_row_message vs"
| "event_message (Completed tag) = command_complete_message tag"

fun represents :: "pg_conn \<Rightarrow> answer_state \<Rightarrow> bool" where
  "represents c Waiting \<longleftrightarrow> parser_ok c \<and> plenty (e_alloc (env c)) \<and> asyncStatus c = PGASYNC_BUSY \<and> queryclass c \<noteq> PGQUERY_DESCRIBE \<and> result c = None"
| "represents c (Gathering fs rows) \<longleftrightarrow> gathering c fs rows"
| "represents c (Answered fs rows tag) \<longleftrightarrow> parser_ok c \<and> answered c fs rows tag"

lemma event_step:
  assumes "represents c s" "answer_step s e = Some s'" "in_data c = event_message e @ rest"
  obtains c' where "parse_step c = Some (True, c')" "represents c' s'" "in_data c' = rest" "same_link c c'" "plenty (e_alloc (env c'))"
proof (cases s)
  case Waiting
  then obtain fs where e: "e = Described fs" "list_all field_fits fs" "length fs < 65536" "s' = Gathering fs []"
    using assms(2) by (cases e) (auto split: if_splits)
  show thesis by (rule description_step [of c fs rest]) (use assms(1,3) Waiting e that in \<open>auto simp: gathering_def\<close>)
next
  case (Gathering fs rows)
  then have g: "gathering c fs rows" using assms(1) by simp
  show thesis
  proof (cases e)
    case (Row vs)
    then have d: "in_data c = data_row_message vs @ rest" "length vs = length fs" "list_all value_fits vs" "length fs < 65536" "s' = Gathering fs (rows @ [vs])"
      using assms(2,3) Gathering by (auto split: if_splits)
    show thesis by (rule row_step [OF g d(1-4)]) (use d(5) that in \<open>auto simp: gathering_def\<close>)
  next
    case (Completed tag)
    then have d: "in_data c = command_complete_message tag @ rest" "0 \<notin> set tag" "length tag < 29996" "s' = Answered fs rows tag"
      using assms(2,3) Gathering by (auto split: if_splits)
    show thesis by (rule complete_step [OF g d(1-3)]) (use d(4) that in auto)
  qed (use assms(2) Gathering in auto)
qed (use assms(2) in auto)

text \<open>C6: One turn of the loop refines the protocol: in a state that represents the answer so far, the message of the next event of the
  protocol leads to a state that represents the answer with that event, and takes exactly that message from the input.\<close>

theorem parse_step_refines_protocol:
  assumes "represents c s" "answer_step s e = Some s'" "in_data c = event_message e @ rest"
  shows "\<exists>c'. parse_step c = Some (True, c') \<and> represents c' s' \<and> in_data c' = rest"
  by (rule event_step [OF assms]) blast

lemma parse_step_refines_protocol_witness:
  "\<exists>c'. parse_step (waiting_conn (row_description example_fields)) = Some (True, c') \<and> represents c' (Gathering example_fields []) \<and> in_data c' = []"
proof (rule parse_step_refines_protocol [of _ Waiting "Described example_fields"])
  have "length (row_description example_fields) \<le> 16384" by (simp add: row_description_def example_fields_def enc_field_def)
  then show "represents (waiting_conn (row_description example_fields)) Waiting" by (simp add: waiting_conn_ok)
  show "answer_step Waiting (Described example_fields) = Some (Gathering example_fields [])"
    using example_answer_fits(1) by (simp, simp add: example_fields_def)
qed simp


section \<open>Errors\<close>




section \<open>Incomplete messages\<close>

lemma command_complete_starved:
  assumes "state_ok c" "0 \<notin> set (unread c)"
  shows "command_complete c = Some (False, c)"
proof -
  have "gets_work c = Some (EOF, c)" by (cases rule: gets_work_cases [OF assms(1)]) (use assms(2) in auto)
  then show ?thesis by (simp add: command_complete_def EOF_def)
qed



end
