(* ===== verification/Access.thy ===== *)
theory Access
  imports ParseSpecs
begin

text \<open>
  The functions of \<open>fe-exec.c\<close> that read a result.

  They answer a value and the environment, which a notice about a number out of range changes. The outer \<open>None\<close> is an access
  outside an array or through a null pointer. The result and the strings given by the caller may be \<open>NULL\<close>.
\<close>

section \<open>The whole result\<close>

definition PQresultStatus :: "pg_result option \<Rightarrow> ExecStatusType" where
  "PQresultStatus res = (case res of None \<Rightarrow> PGRES_FATAL_ERROR | Some r \<Rightarrow> resultStatus r)"

fun PQresStatus :: "ExecStatusType \<Rightarrow> byte list" where
  "PQresStatus PGRES_EMPTY_QUERY = lit ''PGRES_EMPTY_QUERY''"
| "PQresStatus PGRES_COMMAND_OK = lit ''PGRES_COMMAND_OK''"
| "PQresStatus PGRES_TUPLES_OK = lit ''PGRES_TUPLES_OK''"
| "PQresStatus PGRES_COPY_OUT = lit ''PGRES_COPY_OUT''"
| "PQresStatus PGRES_COPY_IN = lit ''PGRES_COPY_IN''"
| "PQresStatus PGRES_BAD_RESPONSE = lit ''PGRES_BAD_RESPONSE''"
| "PQresStatus PGRES_NONFATAL_ERROR = lit ''PGRES_NONFATAL_ERROR''"
| "PQresStatus PGRES_FATAL_ERROR = lit ''PGRES_FATAL_ERROR''"
| "PQresStatus PGRES_COPY_BOTH = lit ''PGRES_COPY_BOTH''"

definition PQntuples :: "pg_result option \<Rightarrow> int" where
  "PQntuples res = (case res of None \<Rightarrow> 0 | Some r \<Rightarrow> ntups r)"

definition PQnfields :: "pg_result option \<Rightarrow> int" where
  "PQnfields res = (case res of None \<Rightarrow> 0 | Some r \<Rightarrow> numAttributes r)"

definition PQbinaryTuples :: "pg_result option \<Rightarrow> int" where
  "PQbinaryTuples res = (case res of None \<Rightarrow> 0 | Some r \<Rightarrow> binary r)"

definition PQnparams :: "pg_result option \<Rightarrow> int" where
  "PQnparams res = (case res of None \<Rightarrow> 0 | Some r \<Rightarrow> numParameters r)"


section \<open>Range checks\<close>

definition out_of_range :: "pg_result \<Rightarrow> byte list \<Rightarrow> int \<Rightarrow> int \<Rightarrow> env \<Rightarrow> (bool \<times> env) option" where
  "out_of_range r what num limit en = do {
     en \<leftarrow> internal_notice (res_noticeRec r) en
       (what @ lit '' number '' @ show_int num @ lit '' is out of range 0..'' @ show_int (limit - 1));
     Some (False, en)
   }"

definition check_field_number :: "pg_result option \<Rightarrow> int \<Rightarrow> env \<Rightarrow> (bool \<times> env) option" where
  "check_field_number res field_num en =
     (case res of
        None \<Rightarrow> Some (False, en)
      | Some r \<Rightarrow>
          if field_num < 0 \<or> field_num \<ge> numAttributes r then out_of_range r (lit ''column'') field_num (numAttributes r) en
          else Some (True, en))"

definition check_tuple_field_number :: "pg_result option \<Rightarrow> int \<Rightarrow> int \<Rightarrow> env \<Rightarrow> (bool \<times> env) option" where
  "check_tuple_field_number res tup_num field_num en =
     (case res of
        None \<Rightarrow> Some (False, en)
      | Some r \<Rightarrow>
          if tup_num < 0 \<or> tup_num \<ge> ntups r then out_of_range r (lit ''row'') tup_num (ntups r) en
          else if field_num < 0 \<or> field_num \<ge> numAttributes r then out_of_range r (lit ''column'') field_num (numAttributes r) en
          else Some (True, en))"

definition check_param_number :: "pg_result option \<Rightarrow> int \<Rightarrow> env \<Rightarrow> (bool \<times> env) option" where
  "check_param_number res param_num en =
     (case res of
        None \<Rightarrow> Some (False, en)
      | Some r \<Rightarrow>
          if param_num < 0 \<or> param_num \<ge> numParameters r then out_of_range r (lit ''parameter'') param_num (numParameters r) en
          else Some (True, en))"


section \<open>Columns\<close>

text \<open>The seven functions that read a descriptor differ in the field they return and in what they return instead.\<close>

definition attr_field :: "(PGresAttDesc \<Rightarrow> 'a) \<Rightarrow> 'a \<Rightarrow> pg_result option \<Rightarrow> int \<Rightarrow> env \<Rightarrow> ('a \<times> env) option" where
  "attr_field f none res field_num en = do {
     (ok, en) \<leftarrow> check_field_number res field_num en;
     if \<not> ok then Some (none, en)
     else do {
       r \<leftarrow> res;
       case attDescs r of
         None \<Rightarrow> Some (none, en)
       | Some ds \<Rightarrow> do { d \<leftarrow> rdi ds field_num; Some (f d, en) }
     }
   }"

definition PQfname :: "pg_result option \<Rightarrow> int \<Rightarrow> env \<Rightarrow> (byte list option \<times> env) option" where
  "PQfname = attr_field ad_name None"

definition PQftable :: "pg_result option \<Rightarrow> int \<Rightarrow> env \<Rightarrow> (int \<times> env) option" where
  "PQftable = attr_field ad_tableid 0"

definition PQftablecol :: "pg_result option \<Rightarrow> int \<Rightarrow> env \<Rightarrow> (int \<times> env) option" where
  "PQftablecol = attr_field ad_columnid 0"

definition PQfformat :: "pg_result option \<Rightarrow> int \<Rightarrow> env \<Rightarrow> (int \<times> env) option" where
  "PQfformat = attr_field ad_format 0"

definition PQftype :: "pg_result option \<Rightarrow> int \<Rightarrow> env \<Rightarrow> (int \<times> env) option" where
  "PQftype = attr_field ad_typid 0"

definition PQfsize :: "pg_result option \<Rightarrow> int \<Rightarrow> env \<Rightarrow> (int \<times> env) option" where
  "PQfsize = attr_field ad_typlen 0"

definition PQfmod :: "pg_result option \<Rightarrow> int \<Rightarrow> env \<Rightarrow> (int \<times> env) option" where
  "PQfmod = attr_field ad_atttypmod 0"

text \<open>The name as in an SQL statement: folded outside double quotes, a doubled quote inside stands for one.\<close>

fun fold_name :: "ctype \<Rightarrow> bool \<Rightarrow> byte list \<Rightarrow> byte list" where
  "fold_name ct in_quotes [] = []"
| "fold_name ct in_quotes (c # s) =
     (if in_quotes then
        (if c = 0x22 then
           (case s of
              d # s' \<Rightarrow> if d = 0x22 then 0x22 # fold_name ct True s' else fold_name ct False (d # s')
            | [] \<Rightarrow> [])
         else c # fold_name ct True s)
      else if c = 0x22 then fold_name ct True s
      else pg_tolower ct c # fold_name ct False s)"

text \<open>The loop over the columns from \<open>i\<close> on, \<open>n\<close> of them. \<open>strcmp\<close> with a name that is \<open>NULL\<close> faults.\<close>

fun find_name :: "byte list \<Rightarrow> PGresAttDesc list \<Rightarrow> nat \<Rightarrow> nat \<Rightarrow> int option" where
  "find_name key ds i 0 = Some (- 1)"
| "find_name key ds i (Suc n) = do {
     d \<leftarrow> rd ds i;
     name \<leftarrow> ad_name d;
     if key = name then Some (int i) else find_name key ds (i + 1) n
   }"

definition PQfnumber :: "pg_result option \<Rightarrow> byte list option \<Rightarrow> env \<Rightarrow> (int \<times> env) option" where
  "PQfnumber res field_name en =
     (case (res, field_name) of
        (Some r, Some (c # s)) \<Rightarrow>
          (case attDescs r of
             None \<Rightarrow> Some (- 1, en)
           | Some ds \<Rightarrow> do {
               let ok = next_ok (e_alloc en);
               let en = en\<lparr>e_alloc := after_alloc (e_alloc en)\<rparr>;
               if \<not> ok then Some (- 1, en)
               else do {
                 i \<leftarrow> find_name (c_str (fold_name (e_ctype en) False (c # s))) ds 0 (nat (numAttributes r));
                 Some (i, en)
               }
             })
      | _ \<Rightarrow> Some (- 1, en))"

definition PQparamtype :: "pg_result option \<Rightarrow> int \<Rightarrow> env \<Rightarrow> (int \<times> env) option" where
  "PQparamtype res param_num en = do {
     (ok, en) \<leftarrow> check_param_number res param_num en;
     if \<not> ok then Some (0, en)
     else do {
       r \<leftarrow> res;
       case paramDescs r of
         None \<Rightarrow> Some (0, en)
       | Some ps \<Rightarrow> do { p \<leftarrow> rdi ps param_num; Some (p, en) }
     }
   }"


section \<open>Values\<close>

text \<open>What the three functions share: the check, and \<open>res->tuples[tup_num][field_num]\<close>.\<close>

definition att_value :: "(PGresAttValue \<Rightarrow> 'a) \<Rightarrow> 'a \<Rightarrow> pg_result option \<Rightarrow> int \<Rightarrow> int \<Rightarrow> env \<Rightarrow> ('a \<times> env) option" where
  "att_value f none res tup_num field_num en = do {
     (ok, en) \<leftarrow> check_tuple_field_number res tup_num field_num en;
     if \<not> ok then Some (none, en)
     else do {
       r \<leftarrow> res;
       t \<leftarrow> rdi (tuples r) tup_num;
       v \<leftarrow> rdi t field_num;
       Some (f v, en)
     }
   }"

definition PQgetvalue :: "pg_result option \<Rightarrow> int \<Rightarrow> int \<Rightarrow> env \<Rightarrow> (byte list option \<times> env) option" where
  "PQgetvalue = att_value av_value None"

definition PQgetlength :: "pg_result option \<Rightarrow> int \<Rightarrow> int \<Rightarrow> env \<Rightarrow> (int \<times> env) option" where
  "PQgetlength = att_value (\<lambda>v. if av_len v \<noteq> NULL_LEN then av_len v else 0) 0"

definition PQgetisnull :: "pg_result option \<Rightarrow> int \<Rightarrow> int \<Rightarrow> env \<Rightarrow> (int \<times> env) option" where
  "PQgetisnull = att_value (\<lambda>v. if av_len v = NULL_LEN then 1 else 0) 1"


section \<open>The command tag\<close>

definition PQcmdStatus :: "pg_result option \<Rightarrow> byte list option" where
  "PQcmdStatus res = map_option cmdStatus res"

text \<open>\<open>strncmp(s, p, strlen(p)) == 0\<close> for a literal \<open>p\<close>, which has no NUL.\<close>

fun starts_with :: "byte list \<Rightarrow> byte list \<Rightarrow> bool option" where
  "starts_with s [] = Some True"
| "starts_with [] (p # ps) = None"
| "starts_with (b # s) (p # ps) = (if b = p then starts_with s ps else Some False)"

text \<open>\<open>strspn(s, "0123456789")\<close>.\<close>

fun span_digits :: "byte list \<Rightarrow> nat option" where
  "span_digits [] = None"
| "span_digits (b # s) = (if is_digit b then map_option Suc (span_digits s) else Some 0)"

definition PQoidStatus :: "pg_result option \<Rightarrow> byte list option" where
  "PQoidStatus res =
     (case res of
        None \<Rightarrow> Some []
      | Some r \<Rightarrow> do {
          insert \<leftarrow> starts_with (cmdStatus r) (lit ''INSERT '');
          if \<not> insert then Some []
          else do {
            len \<leftarrow> span_digits (drop 7 (cmdStatus r));
            Some (take (min len 23) (drop 7 (cmdStatus r)))
          }
        })"

text \<open>\<open>strtoul\<close> of a text that starts with a digit; an \<open>unsigned long\<close> has 32 bits.\<close>

definition PQoidValue :: "pg_result option \<Rightarrow> int option" where
  "PQoidValue res =
     (case res of
        None \<Rightarrow> Some 0
      | Some r \<Rightarrow> do {
          insert \<leftarrow> starts_with (cmdStatus r) (lit ''INSERT '');
          if \<not> insert then Some 0
          else do {
            len \<leftarrow> span_digits (drop 7 (cmdStatus r));
            if len = 0 then Some 0
            else do {
              e \<leftarrow> rd (cmdStatus r) (7 + len);
              Some (if e \<noteq> 0x20 \<and> e \<noteq> 0 then 0
                else min (digits_value (take len (drop 7 (cmdStatus r)))) (2 ^ 32 - 1))
            }
          }
        })"

text \<open>\<open>while (*p && *p != ' ') p++\<close>: the rest from \<open>p\<close> on.\<close>

fun skip_word :: "byte list \<Rightarrow> byte list option" where
  "skip_word [] = None"
| "skip_word (b # s) = (if b \<noteq> 0 \<and> b \<noteq> 0x20 then skip_word s else Some (b # s))"

text \<open>The loop that checks for an integer; the answer is whether there is one from \<open>p\<close> on to the end.\<close>

fun all_digits :: "byte list \<Rightarrow> bool option" where
  "all_digits [] = None"
| "all_digits (b # s) = (if b = 0 then Some True else if \<not> is_digit b then Some False else all_digits s)"

text \<open>Where the number starts. \<open>Inl True\<close>: an error; \<open>Inl False\<close>: no number is expected.\<close>

definition count_start :: "byte list \<Rightarrow> (bool + byte list) option" where
  "count_start cs = do {
     insert \<leftarrow> starts_with cs (lit ''INSERT '');
     if insert then do {
       p \<leftarrow> skip_word (drop 7 cs);
       Some (if hd p = 0 then Inl True else Inr (tl p))
     }
     else do {
       sel \<leftarrow> starts_with cs (lit ''SELECT '');
       del \<leftarrow> starts_with cs (lit ''DELETE '');
       upd \<leftarrow> starts_with cs (lit ''UPDATE '');
       if sel \<or> del \<or> upd then Some (Inr (drop 7 cs))
       else do {
         fetch \<leftarrow> starts_with cs (lit ''FETCH '');
         if fetch then Some (Inr (drop 6 cs))
         else do {
           move \<leftarrow> starts_with cs (lit ''MOVE '');
           copy \<leftarrow> starts_with cs (lit ''COPY '');
           Some (if move \<or> copy then Inr (drop 5 cs) else Inl False)
         }
       }
     }
   }"

definition interpret_error :: "pg_result \<Rightarrow> env \<Rightarrow> (byte list \<times> env) option" where
  "interpret_error r en =
     (if 0 \<in> set (cmdStatus r) then do {
        en \<leftarrow> internal_notice (res_noticeRec r) en (lit ''could not interpret result from server: '' @ c_str (cmdStatus r));
        Some ([], en)
      }
      else None)"

definition PQcmdTuples :: "pg_result option \<Rightarrow> env \<Rightarrow> (byte list \<times> env) option" where
  "PQcmdTuples res en =
     (case res of
        None \<Rightarrow> Some ([], en)
      | Some r \<Rightarrow> do {
          st \<leftarrow> count_start (cmdStatus r);
          case st of
            Inl bad \<Rightarrow> if bad then interpret_error r en else Some ([], en)
          | Inr p \<Rightarrow> do {
              digits \<leftarrow> all_digits p;
              if \<not> digits \<or> hd p = 0 then interpret_error r en else Some (c_str p, en)
            }
        })"

end
