(* ===== verification/AccessProps.thy ===== *)
theory AccessProps
  imports Access ParseProps BaseProps
begin

text \<open>
  What the functions that read a result promise, alone and together with the parser.
\<close>

section \<open>Access by number\<close>

lemma out_of_range_spec: "\<exists>en'. out_of_range r what num limit en = Some (False, en') \<and> same_net en en'"
proof -
  obtain e where "internal_notice (res_noticeRec r) en (what @ lit '' number '' @ show_int num @ lit '' is out of range 0..'' @ show_int (limit - 1)) = Some e"
    "same_net en e" using internal_notice_spec by blast
  then show ?thesis by (simp add: out_of_range_def)
qed

lemma att_value_outside:
  assumes "\<not> (0 \<le> i \<and> i < ntups r \<and> 0 \<le> j \<and> j < numAttributes r)"
  shows "\<exists>en'. att_value f none (Some r) i j en = Some (none, en') \<and> same_net en en'"
proof -
  obtain e1 where 1: "out_of_range r (lit ''row'') i (ntups r) en = Some (False, e1)" "same_net en e1" using out_of_range_spec by blast
  obtain e2 where 2: "out_of_range r (lit ''column'') j (numAttributes r) en = Some (False, e2)" "same_net en e2" using out_of_range_spec by blast
  show ?thesis
    by (cases "i < 0 \<or> i \<ge> ntups r") (use 1 2 assms in \<open>auto simp: att_value_def check_tuple_field_number_def\<close>)
qed

lemma att_value_inside:
  assumes "0 \<le> i" "i < ntups r" "0 \<le> j" "j < numAttributes r" "rows_ok r"
  shows "att_value f none (Some r) i j en = Some (f (tuples r ! nat i ! nat j), en)"
    "tuples r ! nat i \<in> set (tuples r)" "tuples r ! nat i ! nat j \<in> set (tuples r ! nat i)"
proof -
  have n: "nat i < length (tuples r)" using assms(1,2,5) by (simp add: rows_ok_def)
  then show t: "tuples r ! nat i \<in> set (tuples r)" by simp
  then have "int (length (tuples r ! nat i)) = numAttributes r" using assms(5) by (simp add: rows_ok_def)
  then have m: "nat j < length (tuples r ! nat i)" using assms(3,4) by linarith
  then show "tuples r ! nat i ! nat j \<in> set (tuples r ! nat i)" by simp
  show "att_value f none (Some r) i j en = Some (f (tuples r ! nat i ! nat j), en)"
    using assms(1-4) n m by (simp add: att_value_def check_tuple_field_number_def rdi_def rd_def)
qed

text \<open>C15: On a result the parser has made, every row and column number is safe. Inside the range \<open>PQgetvalue\<close> gives a string with its
  terminator, whose length \<open>PQgetlength\<close> gives, and a null is an empty string; outside it gives \<open>NULL\<close>, which counts as null, and
  changes nothing but the allocator and the notices.\<close>

theorem getvalue_total:
  assumes "result_ok r"
  shows "if 0 \<le> i \<and> i < PQntuples (Some r) \<and> 0 \<le> j \<and> j < PQnfields (Some r)
    then \<exists>b n. PQgetvalue (Some r) i j en = Some (Some (b @ [0]), en) \<and> PQgetlength (Some r) i j en = Some (int (length b), en) \<and>
      PQgetisnull (Some r) i j en = Some (n, en) \<and> (n = 1 \<and> b = [] \<or> n = 0)
    else (\<exists>e1. PQgetvalue (Some r) i j en = Some (None, e1) \<and> same_net en e1) \<and>
      (\<exists>e2. PQgetlength (Some r) i j en = Some (0, e2) \<and> same_net en e2) \<and>
      (\<exists>e3. PQgetisnull (Some r) i j en = Some (1, e3) \<and> same_net en e3)"
proof (cases "0 \<le> i \<and> i < ntups r \<and> 0 \<le> j \<and> j < numAttributes r")
  case True
  have rows: "rows_ok r" using assms by (simp add: result_ok_def)
  note a = att_value_inside [OF _ _ _ _ rows, of i j]
  let ?v = "tuples r ! nat i ! nat j"
  have "value_ok ?v" using a(2,3) rows True by (simp add: rows_ok_def)
  then obtain b where b: "av_value ?v = Some (b @ [0])" "av_len ?v = int (length b) \<or> av_len ?v = NULL_LEN \<and> b = []"
    by (auto simp: value_ok_def)
  have "PQgetvalue (Some r) i j en = Some (Some (b @ [0]), en)"
    "PQgetlength (Some r) i j en = Some (if av_len ?v \<noteq> NULL_LEN then av_len ?v else 0, en)"
    "PQgetisnull (Some r) i j en = Some (if av_len ?v = NULL_LEN then 1 else 0, en)"
    using True b(1) by (simp_all add: PQgetvalue_def PQgetlength_def PQgetisnull_def att_value_inside(1) [OF _ _ _ _ rows])
  then show ?thesis using True b(2) by (cases "av_len ?v = NULL_LEN") (auto simp: PQntuples_def PQnfields_def NULL_LEN_def)
next
  case False
  then show ?thesis
    by (auto simp only: PQgetvalue_def PQgetlength_def PQgetisnull_def PQntuples_def PQnfields_def option.case if_False
      intro!: att_value_outside [OF False])
qed

text \<open>A result with one row of one value.\<close>

definition example_result :: pg_result where
  "example_result = (empty_result True PG_UTF8 PGRES_TUPLES_OK)\<lparr>numAttributes := 1, attDescs := Some [hd example_fields],
     tuples := [[\<lparr>av_len = 3, av_value = Some (lit ''tea'' @ [0])\<rparr>]], ntups := 1, tupArrSize := 128, cmdStatus := c_strncpy (lit ''SELECT 1'') 64\<rparr>"

lemma example_result_ok: "result_ok example_result"
proof -
  have "result_ok (empty_result True PG_UTF8 PGRES_TUPLES_OK)" by simp
  then have "res_ok example_result" unfolding result_ok_def example_result_def by simp
  moreover have "value_ok \<lparr>av_len = 3, av_value = Some (lit ''tea'' @ [0])\<rparr>" by (auto simp: value_ok_def c_bytes_def)
  ultimately show ?thesis
    by (simp add: result_ok_def rows_ok_def attrs_ok_def attrs_def) (simp add: example_result_def empty_result_def, auto intro!: exI [of _ 0])
qed

lemma getvalue_total_witness:
  "if 0 \<le> (0::int) \<and> 0 < PQntuples (Some example_result) \<and> 0 \<le> (0::int) \<and> 0 < PQnfields (Some example_result)
    then \<exists>b n. PQgetvalue (Some example_result) 0 0 (env example_conn) = Some (Some (b @ [0]), env example_conn) \<and>
      PQgetlength (Some example_result) 0 0 (env example_conn) = Some (int (length b), env example_conn) \<and>
      PQgetisnull (Some example_result) 0 0 (env example_conn) = Some (n, env example_conn) \<and> (n = 1 \<and> b = [] \<or> n = 0)
    else (\<exists>e1. PQgetvalue (Some example_result) 0 0 (env example_conn) = Some (None, e1) \<and> same_net (env example_conn) e1) \<and>
      (\<exists>e2. PQgetlength (Some example_result) 0 0 (env example_conn) = Some (0, e2) \<and> same_net (env example_conn) e2) \<and>
      (\<exists>e3. PQgetisnull (Some example_result) 0 0 (env example_conn) = Some (1, e3) \<and> same_net (env example_conn) e3)"
  by (rule getvalue_total [OF example_result_ok])


section \<open>From the wire to the application\<close>

definition value_string :: "byte list option \<Rightarrow> byte list" where
  "value_string v = (case v of None \<Rightarrow> [] | Some b \<Rightarrow> b)"

text \<open>What the application sees of a result.\<close>

definition shows_answer :: "pg_result option \<Rightarrow> env \<Rightarrow> PGresAttDesc list \<Rightarrow> byte list option list list \<Rightarrow> bool" where
  "shows_answer res en fs rows \<longleftrightarrow> PQresultStatus res = PGRES_TUPLES_OK \<and> PQntuples res = int (length rows) \<and> PQnfields res = int (length fs) \<and>
     (\<forall>j < length fs. PQfname res (int j) en = Some (ad_name (fs ! j), en) \<and> PQftype res (int j) en = Some (ad_typid (fs ! j), en) \<and>
        PQftable res (int j) en = Some (ad_tableid (fs ! j), en) \<and> PQftablecol res (int j) en = Some (ad_columnid (fs ! j), en) \<and>
        PQfsize res (int j) en = Some (ad_typlen (fs ! j), en) \<and> PQfmod res (int j) en = Some (ad_atttypmod (fs ! j), en) \<and>
        PQfformat res (int j) en = Some (ad_format (fs ! j), en)) \<and>
     (\<forall>i < length rows. \<forall>j < length fs.
        PQgetvalue res (int i) (int j) en = Some (Some (value_string (rows ! i ! j) @ [0]), en) \<and>
        PQgetlength res (int i) (int j) en = Some (int (length (value_string (rows ! i ! j))), en) \<and>
        PQgetisnull res (int i) (int j) en = Some (if rows ! i ! j = None then 1 else 0, en))"

lemma attr_field_inside:
  assumes "attrs r = fs" "numAttributes r = int (length fs)" "j < length fs"
  shows "attr_field f none (Some r) (int j) en = Some (f (fs ! j), en)"
proof -
  have "attDescs r = Some fs" using assms by (auto simp: attrs_def split: option.splits)
  then show ?thesis using assms by (simp add: attr_field_def check_field_number_def rdi_def rd_def)
qed

lemma answered_shows:
  assumes r: "result_ok r" "resultStatus r = PGRES_TUPLES_OK" "attrs r = fs" "numAttributes r = int (length fs)" "tuples r = map (map client_value) rows"
      "ntups r = int (length rows)"
    and w: "list_all (\<lambda>vs. length vs = length fs \<and> list_all value_fits vs) rows"
  shows "shows_answer (Some r) en fs rows"
proof -
  have rows: "rows_ok r" using r(1) by (simp add: result_ok_def)
  have v: "tuples r ! i ! j = client_value (rows ! i ! j)" if "i < length rows" "j < length fs" for i j
    using that r(5) w by (simp add: list_all_length)
  note f = attr_field_inside [OF r(3,4)]
  have "PQgetvalue (Some r) (int i) (int j) en = Some (Some (value_string (rows ! i ! j) @ [0]), en)"
    "PQgetlength (Some r) (int i) (int j) en = Some (int (length (value_string (rows ! i ! j))), en)"
    "PQgetisnull (Some r) (int i) (int j) en = Some (if rows ! i ! j = None then 1 else 0, en)" if h: "i < length rows" "j < length fs" for i j
  proof -
    have b: "0 \<le> int i" "int i < ntups r" "0 \<le> int j" "int j < numAttributes r" using h r(4,6) by simp_all
    show "PQgetvalue (Some r) (int i) (int j) en = Some (Some (value_string (rows ! i ! j) @ [0]), en)"
      "PQgetlength (Some r) (int i) (int j) en = Some (int (length (value_string (rows ! i ! j))), en)"
      "PQgetisnull (Some r) (int i) (int j) en = Some (if rows ! i ! j = None then 1 else 0, en)"
      using v [OF h] by (auto simp: PQgetvalue_def PQgetlength_def PQgetisnull_def att_value_inside(1) [OF b rows] client_value_def null_value_def
        value_string_def NULL_LEN_def split: option.splits)
  qed
  then show ?thesis
    unfolding shows_answer_def PQfname_def PQftype_def PQftable_def PQftablecol_def PQfsize_def PQfmod_def PQfformat_def
    using r(2,4,6) by (simp add: PQresultStatus_def PQntuples_def PQnfields_def f)
qed

text \<open>C4: From the wire to the application: when the answer of the server to a query has come in, the functions that read the result
  give the application exactly what the server sent. That holds for the number of rows and columns, for the name, type, table, size,
  modifier and format of every column, and for every value, its length and whether it is null; and the command tag is there when it
  fits.\<close>

theorem answer_reaches_application:
  assumes "parser_ok c" "plenty (e_alloc (env c))" "asyncStatus c = PGASYNC_BUSY" "queryclass c \<noteq> PGQUERY_DESCRIBE" "result c = None"
    and "in_data c = row_description fs @ concat (map data_row_message rows) @ command_complete_message tag @ rest"
    and "list_all field_fits fs" "length fs < 65536" "list_all (\<lambda>vs. length vs = length fs \<and> list_all value_fits vs) rows"
      "0 \<notin> set tag" "length tag < 64" "next_waits rest"
  shows "\<exists>c'. pqParseInput3 c = Some c' \<and> in_data c' = rest \<and> asyncStatus c' = PGASYNC_READY \<and> shows_answer (result c') en fs rows \<and>
    map_option c_str (PQcmdStatus (result c')) = Some tag"
proof -
  have t: "length tag < 29996" using assms(11) by simp
  obtain c' where c': "pqParseInput3 c = Some c'" "answered c' fs rows tag" "in_data c' = rest" "results_ok c'"
    using answer_parsed [OF assms(1-10) t assms(12)] by blast
  obtain r where r: "result c' = Some r" "resultStatus r = PGRES_TUPLES_OK" "attrs r = fs" "numAttributes r = int (length fs)"
    "tuples r = map (map client_value) rows" "ntups r = int (length rows)" "cmdStatus r = c_strncpy tag CMDSTATUS_LEN" "asyncStatus c' = PGASYNC_READY"
    using c'(2) by (auto simp: answered_def)
  have "result_ok r" using c'(4) r(1) by (simp add: results_ok_def)
  from answered_shows [OF this r(2-6) assms(9)] have "shows_answer (result c') en fs rows" unfolding r(1) .
  moreover have "c_strncpy tag CMDSTATUS_LEN = tag @ 0 # replicate (63 - length tag) 0"
    using assms(11) by (simp add: c_strncpy_def CMDSTATUS_LEN_def Suc_diff_Suc flip: replicate_Suc)
  then have "c_str (cmdStatus r) = tag" using r(7) c_str_append [OF assms(10)] by simp
  ultimately show ?thesis using c' r by (simp add: PQcmdStatus_def)
qed

lemma answer_reaches_application_witness:
  "\<exists>c'. pqParseInput3 (waiting_conn example_answer) = Some c' \<and> in_data c' = server_message 0x5A [0x49] \<and> asyncStatus c' = PGASYNC_READY \<and>
    shows_answer (result c') (env example_conn) example_fields example_rows \<and> map_option c_str (PQcmdStatus (result c')) = Some (lit ''SELECT 2'')"
  by (rule answer_reaches_application)
    (use example_answer_fits in \<open>simp_all add: waiting_conn_ok c_bytes_def\<close>, simp_all add: example_answer_def example_fields_def c_bytes_def)



section \<open>Columns by name\<close>

lemma find_name_first:
  assumes "i + n = length ds" "\<forall>d \<in> set ds. ad_name d \<noteq> None"
  shows "\<exists>k. find_name key ds i n = Some k \<and>
    (if \<exists>m. i \<le> m \<and> m < length ds \<and> ad_name (ds ! m) = Some key
     then \<exists>m. k = int m \<and> i \<le> m \<and> m < length ds \<and> ad_name (ds ! m) = Some key \<and> (\<forall>l. i \<le> l \<and> l < m \<longrightarrow> ad_name (ds ! l) \<noteq> Some key)
     else k = - 1)"
  using assms(1)
proof (induction n arbitrary: i)
  case (Suc n)
  then have i: "i < length ds" "Suc i + n = length ds" by simp_all
  obtain nm where nm: "ad_name (ds ! i) = Some nm" using assms(2) i(1) by (meson nth_mem option.exhaust)
  show ?case
  proof (cases "key = nm")
    case True
    then have "find_name key ds i (Suc n) = Some (int i)" using i(1) nm by (simp add: rd_def)
    moreover have "\<exists>m. int i = int m \<and> i \<le> m \<and> m < length ds \<and> ad_name (ds ! m) = Some key \<and> (\<forall>l. i \<le> l \<and> l < m \<longrightarrow> ad_name (ds ! l) \<noteq> Some key)"
      using i(1) nm True by (intro exI [of _ i]) auto
    ultimately show ?thesis using i(1) nm True by auto
  next
    case False
    have step: "find_name key ds i (Suc n) = find_name key ds (Suc i) n" using i(1) nm False by (simp add: rd_def)
    have shift: "i \<le> m \<and> ad_name (ds ! m) = Some key \<longleftrightarrow> Suc i \<le> m \<and> ad_name (ds ! m) = Some key" for m
      using nm False by (cases "m = i") auto
    obtain k where k: "find_name key ds (Suc i) n = Some k"
      "if \<exists>m. Suc i \<le> m \<and> m < length ds \<and> ad_name (ds ! m) = Some key
       then \<exists>m. k = int m \<and> Suc i \<le> m \<and> m < length ds \<and> ad_name (ds ! m) = Some key \<and> (\<forall>l. Suc i \<le> l \<and> l < m \<longrightarrow> ad_name (ds ! l) \<noteq> Some key)
       else k = - 1"
      using Suc.IH [OF i(2)] by blast
    have here: "ad_name (ds ! i) \<noteq> Some key" using nm False by simp
    show ?thesis
    proof (cases "\<exists>m. Suc i \<le> m \<and> m < length ds \<and> ad_name (ds ! m) = Some key")
      case True
      then obtain m where m: "k = int m" "Suc i \<le> m" "m < length ds" "ad_name (ds ! m) = Some key"
        "\<forall>l. Suc i \<le> l \<and> l < m \<longrightarrow> ad_name (ds ! l) \<noteq> Some key" using k(2) by auto
      have "ad_name (ds ! l) \<noteq> Some key" if "i \<le> l" "l < m" for l
        using m(5) that here by (cases "l = i") auto
      then have "\<exists>m. k = int m \<and> i \<le> m \<and> m < length ds \<and> ad_name (ds ! m) = Some key \<and> (\<forall>l. i \<le> l \<and> l < m \<longrightarrow> ad_name (ds ! l) \<noteq> Some key)"
        using m(1-4) by (intro exI [of _ m]) auto
      then show ?thesis unfolding step using k(1) by auto
    next
      case none: False
      then have "\<not> (\<exists>m. i \<le> m \<and> m < length ds \<and> ad_name (ds ! m) = Some key)" using shift by blast
      then show ?thesis unfolding step using k none by auto
    qed
  qed
qed auto

text \<open>An identifier in double quotes, with the quotes inside doubled.\<close>

definition quoted_name :: "byte list \<Rightarrow> byte list" where
  "quoted_name nm = 0x22 # concat (map (\<lambda>c. if c = 0x22 then [c, c] else [c]) nm) @ [0x22]"

lemma fold_quoted: "fold_name ct True (concat (map (\<lambda>c. if c = 0x22 then [c, c] else [c]) nm) @ [0x22]) = nm"
  by (induction nm) auto

lemma fold_quoted_name: "fold_name ct False (quoted_name nm) = nm"
  by (simp add: quoted_name_def fold_quoted)

lemma fold_unquoted: "0x22 \<notin> set nm \<Longrightarrow> fold_name ct False nm = map (pg_tolower ct) nm"
  by (induction nm) auto

text \<open>\<open>PQfnumber\<close> with an identifier in double quotes finds the first column of exactly that name, and with one that has no double quotes the
  first column of the case-folded name; it answers -1 when there is none, and for lack of memory.\<close>

theorem fnumber_finds_first:
  assumes "attDescs r = Some ds" "numAttributes r = int (length ds)" "\<forall>d \<in> set ds. ad_name d \<noteq> None" "0 \<notin> set nm" "nm \<noteq> []" "ctype_ok (e_ctype en)"
    and "ident = quoted_name nm \<and> key = nm \<or> 0x22 \<notin> set nm \<and> ident = nm \<and> key = map (pg_tolower (e_ctype en)) nm"
  shows "\<exists>k en'. PQfnumber (Some r) (Some ident) en = Some (k, en') \<and>
    (if next_ok (e_alloc en) \<and> (\<exists>m < length ds. ad_name (ds ! m) = Some key)
     then \<exists>m < length ds. k = int m \<and> ad_name (ds ! m) = Some key \<and> (\<forall>l < m. ad_name (ds ! l) \<noteq> Some key)
     else k = - 1)"
proof -
  have z: "0 \<notin> set (map (pg_tolower (e_ctype en)) nm)" using assms(4) pg_tolower_zero' [OF assms(6)] by auto
  have ident: "ident \<noteq> []" "c_str (fold_name (e_ctype en) False ident) = key"
    using assms(7)
  proof (atomize (full), elim disjE, goal_cases)
    case 1
    then show ?case using c_str_id [OF assms(4)] fold_quoted_name by (simp add: quoted_name_def)
  next
    case 2
    then show ?case using c_str_id [OF z] fold_unquoted assms(5) by simp
  qed
  obtain c s where cs: "ident = c # s" using ident(1) by (cases ident) auto
  obtain k where k: "find_name key ds 0 (length ds) = Some k"
    "if \<exists>m. 0 \<le> m \<and> m < length ds \<and> ad_name (ds ! m) = Some key
     then \<exists>m. k = int m \<and> 0 \<le> m \<and> m < length ds \<and> ad_name (ds ! m) = Some key \<and> (\<forall>l. 0 \<le> l \<and> l < m \<longrightarrow> ad_name (ds ! l) \<noteq> Some key)
     else k = - 1"
    using find_name_first [of 0 "length ds" ds key] assms(3) by auto
  have "PQfnumber (Some r) (Some ident) en = Some (if next_ok (e_alloc en) then k else - 1, en\<lparr>e_alloc := after_alloc (e_alloc en)\<rparr>)"
    using assms(1,2) ident(2) k(1) by (simp add: PQfnumber_def cs Let_def)
  then show ?thesis using k(2) by (auto split: if_splits)
qed

lemma fnumber_finds_first_witness:
  "\<exists>k en'. PQfnumber (Some example_result) (Some (lit ''Item'')) (env example_conn) = Some (k, en') \<and>
    (if next_ok (e_alloc (env example_conn)) \<and> (\<exists>m < length [hd example_fields]. ad_name ([hd example_fields] ! m) = Some (lit ''item''))
     then \<exists>m < length [hd example_fields]. k = int m \<and> ad_name ([hd example_fields] ! m) = Some (lit ''item'') \<and>
       (\<forall>l < m. ad_name ([hd example_fields] ! l) \<noteq> Some (lit ''item''))
     else k = - 1)"
  by (rule fnumber_finds_first [where nm = "lit ''Item''"])
    (simp_all add: example_result_def example_fields_def c_bytes_def example_conn_def C_locale_ok pg_tolower_def IS_HIGHBIT_SET_def)

text \<open>The descriptors of a COPY result have no names.\<close>

definition nameless :: "pg_result \<Rightarrow> bool" where
  "nameless r \<longleftrightarrow> (\<forall>ds. attDescs r = Some ds \<longrightarrow> (\<forall>d \<in> set ds. ad_name d = None))"

lemma read_formats_nameless:
  "read_formats n i r c = Some (ok, r', c') \<Longrightarrow> nameless r \<Longrightarrow> nameless r' \<and> (attDescs r' = None \<longleftrightarrow> attDescs r = None) \<and>
    map_option length (attDescs r') = map_option length (attDescs r) \<and> numAttributes r' = numAttributes r"
proof (induction n arbitrary: i r c)
  case (Suc n)
  show ?case
  proof (cases "\<exists>f c1. pqGetInt 2 c = Some (Some f, c1)")
    case True
    then obtain f c1 where f: "pqGetInt 2 c = Some (Some f, c1)" by blast
    then obtain ds where ds: "attDescs r = Some ds" "i < length ds"
      and r: "read_formats n (i + 1) (r\<lparr>attDescs := Some (ds[i := (ds ! i)\<lparr>ad_format := int16 f\<rparr>])\<rparr>) c1 = Some (ok, r', c')"
      using Suc.prems(1) by (auto simp: or_eof_def bind_Some_iff set_attr_def rd_def wr_def split: if_splits)
    have "nameless (r\<lparr>attDescs := Some (ds[i := (ds ! i)\<lparr>ad_format := int16 f\<rparr>])\<rparr>)"
      using Suc.prems(2) ds set_update_subset_insert [of ds i] by (fastforce simp: nameless_def)
    from Suc.IH [OF r this] show ?thesis using ds(1) by simp
  next
    case False
    then show ?thesis using Suc.prems by (auto simp: or_eof_def bind_Some_iff split: option.splits)
  qed
qed simp

lemma alloc_keeps_fields: "pqResultAlloc a r n bin = Some (sp, r', a') \<Longrightarrow> numAttributes r' = numAttributes r"
  by (auto simp: pqResultAlloc_def align_result_def Let_def split: if_splits list.splits prod.splits)

lemma alloc_nameless:
  assumes "alloc_attrs r0 nf c = Some (ok, r1, c1)" "ok" "attDescs r0 = None"
  shows "nameless r1 \<and> numAttributes r1 = numAttributes r0 \<and> (nf > 0 \<longrightarrow> attDescs r1 = Some (replicate (nat nf) null_attr))"
proof (cases "nf > 0")
  case True
  obtain sp r2 a where "pqResultAlloc (e_alloc (env c)) r0 (szmul (nat nf) sizeof_PGresAttDesc) True = Some (sp, r2, a)"
    "sp \<noteq> None" "r1 = r2\<lparr>attDescs := Some (replicate (nat nf) null_attr)\<rparr>"
    using assms True by (auto simp: alloc_attrs_def bind_Some_iff)
  then show ?thesis using True by (auto simp: nameless_def null_attr_def dest: alloc_keeps_fields)
next
  case False
  then show ?thesis using assms by (simp add: alloc_attrs_def nameless_def)
qed

text \<open>\<open>PQfnumber\<close> on the result of a COPY that has columns compares the name with a null pointer, whatever the name.\<close>

theorem fnumber_copy_null_name:
  assumes "getCopyStart c st = Some (0, c')" "state_ok c" "\<not> is_error_status st" "result c' = Some r" "numAttributes r > 0" "next_ok (e_alloc en)"
    "nm \<noteq> []"
  shows "PQfnumber (Some r) (Some nm) en = None"
proof -
  have no: "attDescs r0 = None" if "makeEmptyPGresult c st = Some (Some r0, c1)" for c1 r0
    by (cases rule: makeEmpty_cases [OF assms(2), of st]) (use assms(3) that in \<open>auto simp: empty_result_def\<close>)
  have "nameless r \<and> attDescs r \<noteq> None \<and> map_option length (attDescs r) = Some (nat (numAttributes r))"
  proof -
    obtain x c1 where x: "makeEmptyPGresult c st = Some (x, c1)" using assms(1) by (auto simp: getCopyStart_def bind_Some_iff)
    obtain r0 where r0: "x = Some r0" using assms(1) x by (cases x) (auto simp: getCopyStart_def EOF_def)
    obtain b c2 where b: "pqGetc c1 = Some (Some b, c2)"
      using assms(1) x r0 by (auto simp: getCopyStart_def or_eof_def bind_Some_iff EOF_def split: option.splits)
    obtain nf c3 where nf: "pqGetInt 2 (c2\<lparr>copy_is_binary := b\<rparr>) = Some (Some nf, c3)"
      using assms(1) x r0 b by (auto simp: getCopyStart_def or_eof_def bind_Some_iff EOF_def split: option.splits)
    obtain ok r1 c4 where a: "alloc_attrs (r0\<lparr>binary := sint b, numAttributes := nf\<rparr>) nf c3 = Some (ok, r1, c4)"
      using assms(1) x r0 b nf by (auto simp: getCopyStart_def or_eof_def bind_Some_iff EOF_def split: option.splits)
    have ok: "ok" using assms(1) x r0 b nf a by (cases ok) (auto simp: getCopyStart_def or_eof_def bind_Some_iff EOF_def split: option.splits)
    then have e: "getCopyStart c st = Option.bind (read_formats (nat nf) 0 r1 c4)
        (\<lambda>(ok, res, conn). if ok then Some (0, conn\<lparr>result := Some res\<rparr>) else Some (EOF, conn))"
      using x r0 b nf a by (simp add: getCopyStart_def or_eof_def)
    then obtain ok2 r2 c5 where f1: "read_formats (nat nf) 0 r1 c4 = Some (ok2, r2, c5)"
      using assms(1) by (cases "read_formats (nat nf) 0 r1 c4") auto
    then have "r = r2" using e assms(1,4) by (cases ok2) (auto simp: EOF_def)
    note f = f1 this
    have n1: "nameless r1 \<and> numAttributes r1 = nf \<and> (nf > 0 \<longrightarrow> attDescs r1 = Some (replicate (nat nf) null_attr))"
      using alloc_nameless [OF a ok] no [OF x [unfolded r0]] by simp
    from read_formats_nameless [OF f(1)] n1 show ?thesis using f(2) assms(5) by auto
  qed
  then obtain ds where ds: "attDescs r = Some ds" "\<forall>d \<in> set ds. ad_name d = None" "length ds = nat (numAttributes r)"
    by (auto simp: nameless_def)
  obtain n where n: "nat (numAttributes r) = Suc n" using assms(5) by (cases "nat (numAttributes r)") auto
  have "find_name key ds 0 (Suc n) = None" for key
    using ds n nth_mem [of 0 ds] by (auto simp: rd_def)
  then show ?thesis using assms(6,7) ds(1) n by (cases nm) (simp_all add: PQfnumber_def Let_def)
qed

lemma fnumber_copy_null_name_witness:
  "\<exists>c' r. getCopyStart (waiting_conn [0, 0, 1, 0, 0]) PGRES_COPY_OUT = Some (0, c') \<and> result c' = Some r \<and>
    PQfnumber (Some r) (Some (lit ''item'')) (env example_conn) = None"
proof -
  let ?c = "waiting_conn [0, 0, 1, 0, 0]"
  have "makeEmptyPGresult ?c PGRES_COPY_OUT = Some (Some (empty_result True PG_UTF8 PGRES_COPY_OUT), set_alloc (after_alloc (e_alloc (env ?c))) ?c)"
    by (simp add: makeEmptyPGresult_def PQmakeEmptyPGresult_def waiting_conn_def example_conn_def is_error_status_def next_ok_def)
  moreover have "rd_bytes (inBuffer ?c) 1 2 = Some [0, 1]" "rd_bytes (inBuffer ?c) 3 2 = Some [0, 0]" "rdi (inBuffer ?c) 0 = Some 0"
    by (simp_all add: rd_bytes_def rdi_def rd_def waiting_conn_def example_conn_def numeral_2_eq_2 numeral_3_eq_3)
  moreover have "e_alloc (env ?c) = \<lparr>oks = [], junk = 0\<rparr>" by (simp add: waiting_conn_def example_conn_def)
  moreover have "be_value [0, 1] = 1" "be_value [0, 0] = 0" by (simp_all add: be_value_def)
  ultimately obtain c' r where h: "getCopyStart ?c PGRES_COPY_OUT = Some (0, c')" "result c' = Some r" "numAttributes r = 1"
    by (simp add: getCopyStart_def or_eof_def pqGetc_def pqGetInt_def wrap32_def alloc_attrs_def pqResultAlloc_def empty_result_def
      result_sizes szmul_def align_result_def set_attr_def rd_def wr_def set_alloc_def after_alloc_def next_ok_def Let_def)
  have "PQfnumber (Some r) (Some (lit ''item'')) (env example_conn) = None"
    by (rule fnumber_copy_null_name [OF h(1) _ _ h(2)]) (simp_all add: h waiting_conn_ok is_error_status_def example_conn_def c_bytes_def next_ok_def)
  then show ?thesis using h by blast
qed

section \<open>The command tag\<close>

lemma starts_with_append [simp]: "starts_with (p @ s) p = Some True"
  by (induction p) simp_all

lemma digit_bytes: "list_all is_digit ds \<Longrightarrow> 0 \<notin> set ds \<and> 0x20 \<notin> set ds"
  by (auto simp: list_all_iff is_digit_def)

lemma span_digits_append: "list_all is_digit ds \<Longrightarrow> \<not> is_digit b \<Longrightarrow> span_digits (ds @ b # s) = Some (length ds)"
  by (induction ds) simp_all

lemma skip_word_append: "0 \<notin> set ds \<Longrightarrow> 0x20 \<notin> set ds \<Longrightarrow> b = 0 \<or> b = 0x20 \<Longrightarrow> skip_word (ds @ b # s) = Some (b # s)"
  by (induction ds) auto

lemma all_digits_append: "list_all is_digit ds \<Longrightarrow> all_digits (ds @ 0 # s) = Some True"
  by (induction ds) (auto simp: is_digit_def)

lemma cmdTuples_number:
  assumes "count_start (cmdStatus r) = Some (Inr (show_nat n @ 0 # s))"
  shows "PQcmdTuples (Some r) en = Some (show_nat n, en)"
proof -
  note d = show_nat_digits [of n]
  have "hd (show_nat n @ 0 # s) \<noteq> 0" using d by (cases "show_nat n") (auto simp: is_digit_def)
  moreover have "c_str (show_nat n @ 0 # s) = show_nat n" using d digit_bytes c_str_append by blast
  ultimately show ?thesis using assms d by (simp add: PQcmdTuples_def all_digits_append)
qed

text \<open>The functions that take the command tag apart agree with the format of the tags of the server. After an \<open>INSERT\<close> they give
  the object id, as text and as a number, and the number of rows; after the other counted commands \<open>PQcmdTuples\<close> gives the number of
  rows and the object id is none; after an uncounted one both are empty.\<close>

theorem command_tag_read:
  assumes "k < 2 ^ 32" "length (show_nat k) \<le> 23"
  shows "(cmdStatus r = lit ''INSERT '' @ show_nat k @ 0x20 # show_nat n @ 0 # s \<longrightarrow>
      PQoidStatus (Some r) = Some (show_nat k) \<and> PQoidValue (Some r) = Some (int k) \<and> PQcmdTuples (Some r) en = Some (show_nat n, en)) \<and>
    (\<forall>w \<in> {''SELECT '', ''DELETE '', ''UPDATE '', ''FETCH '', ''MOVE '', ''COPY ''}. cmdStatus r = lit w @ show_nat n @ 0 # s \<longrightarrow>
      PQoidStatus (Some r) = Some [] \<and> PQoidValue (Some r) = Some 0 \<and> PQcmdTuples (Some r) en = Some (show_nat n, en))"
proof (intro conjI ballI)
  show "cmdStatus r = lit ''INSERT '' @ show_nat k @ 0x20 # show_nat n @ 0 # s \<longrightarrow>
      PQoidStatus (Some r) = Some (show_nat k) \<and> PQoidValue (Some r) = Some (int k) \<and> PQcmdTuples (Some r) en = Some (show_nat n, en)"
  proof (intro impI conjI)
    note d = show_nat_digits [of k]
    have sp: "\<not> is_digit 0x20" by (simp add: is_digit_def)
    assume c: "cmdStatus r = lit ''INSERT '' @ show_nat k @ 0x20 # show_nat n @ 0 # s"
    have rest: "drop 7 (cmdStatus r) = show_nat k @ 0x20 # show_nat n @ 0 # s" unfolding c by (simp add: c_bytes_def)
    have ins: "starts_with (cmdStatus r) (lit ''INSERT '') = Some True" unfolding c by (rule starts_with_append)
    have span: "span_digits (drop 7 (cmdStatus r)) = Some (length (show_nat k))" unfolding rest using d sp by (simp add: span_digits_append)
    show "PQoidStatus (Some r) = Some (show_nat k)" using ins span rest assms(2) by (simp add: PQoidStatus_def min_def)
    have "rd (cmdStatus r) (7 + length (show_nat k)) = Some 0x20" unfolding c by (simp add: rd_def c_bytes_def)
    then show "PQoidValue (Some r) = Some (int k)" using ins span rest d assms(1) by (simp add: PQoidValue_def min_def)
    have "count_start (cmdStatus r) = Some (Inr (show_nat n @ 0 # s))"
      using ins rest digit_bytes [of "show_nat k"] d by (simp add: count_start_def skip_word_append)
    then show "PQcmdTuples (Some r) en = Some (show_nat n, en)" by (rule cmdTuples_number)
  qed
next
  fix w assume w: "w \<in> {''SELECT '', ''DELETE '', ''UPDATE '', ''FETCH '', ''MOVE '', ''COPY ''}"
  show "cmdStatus r = lit w @ show_nat n @ 0 # s \<longrightarrow>
      PQoidStatus (Some r) = Some [] \<and> PQoidValue (Some r) = Some 0 \<and> PQcmdTuples (Some r) en = Some (show_nat n, en)"
  proof (intro impI conjI)
    assume c: "cmdStatus r = lit w @ show_nat n @ 0 # s"
    have ins: "starts_with (cmdStatus r) (lit ''INSERT '') = Some False" unfolding c using w by (auto simp: c_bytes_def)
    then show "PQoidStatus (Some r) = Some []" "PQoidValue (Some r) = Some 0" by (simp_all add: PQoidStatus_def PQoidValue_def)
    have "count_start (cmdStatus r) = Some (Inr (show_nat n @ 0 # s))"
      using w ins unfolding c by (auto simp: count_start_def c_bytes_def)
    then show "PQcmdTuples (Some r) en = Some (show_nat n, en)" by (rule cmdTuples_number)
  qed
qed

lemma command_tag_read_witness:
  "PQoidValue (Some (example_result\<lparr>cmdStatus := lit ''INSERT 16384 1'' @ [0]\<rparr>)) = Some 16384 \<and>
    PQcmdTuples (Some example_result) (env example_conn) = Some (lit ''1'', env example_conn)"
proof
  let ?r = "example_result\<lparr>cmdStatus := lit ''INSERT 16384 1'' @ [0]\<rparr>"
  have "cmdStatus ?r = lit ''INSERT '' @ show_nat 16384 @ 0x20 # show_nat 1 @ 0 # []" by (simp add: show_nat.simps c_bytes_def)
  then show "PQoidValue (Some ?r) = Some 16384"
    using command_tag_read [of 16384 ?r 1 "[]" "env example_conn"] by (simp add: show_nat.simps)
  have "cmdStatus example_result = lit ''SELECT '' @ show_nat 1 @ 0 # replicate 55 0"
    by (simp add: example_result_def c_strncpy_def show_nat.simps c_bytes_def flip: replicate_Suc)
  then show "PQcmdTuples (Some example_result) (env example_conn) = Some (lit ''1'', env example_conn)"
    using command_tag_read [of 0 example_result 1 "replicate 55 0" "env example_conn"] by (simp add: show_nat.simps c_bytes_def)
qed

end
