(* ===== verification/Exec.thy ===== *)
theory Exec
  imports Access Messages ParseLoop
begin

text \<open>
  Query execution: the functions of \<open>fe-exec.c\<close> that send a query and collect its results.

  They work on a connection; every one of them answers its failure value at once when it is given a null pointer instead. The outer
  \<open>None\<close> is undefined behaviour or a loop that does not end. Results are freed by \<open>PQclear\<close>, which has no effect in the model; the
  procedures an application can register for events are not modelled, so that a result has none. The parser of protocol 2 is not
  modelled: with an older server \<open>parseInput\<close> is \<open>None\<close>.
\<close>

section \<open>Common parts\<close>

definition parseInput :: "pg_conn \<Rightarrow> pg_conn option" where
  "parseInput conn = (if PG_PROTOCOL_MAJOR (pversion conn) \<ge> 3 then pqParseInput3 conn else None)"

definition reset_error :: "pg_conn \<Rightarrow> pg_conn option" where
  "reset_error conn = do {
     (str, a) \<leftarrow> resetPQExpBuffer (e_alloc (env conn)) (errorMessage conn);
     Some (set_alloc a (conn\<lparr>errorMessage := str\<rparr>))
   }"

text \<open>An error message and the answer of the function.\<close>

definition refuse :: "'a \<Rightarrow> pg_conn \<Rightarrow> byte list \<Rightarrow> ('a \<times> pg_conn) option" where
  "refuse r conn msg = do { conn \<leftarrow> printf_error conn (msg @ [0x0A]); Some (r, conn) }"

text \<open>\<open>strdup\<close> into \<open>last_query\<close>; without memory it ends up \<open>NULL\<close>.\<close>

definition remember_query :: "byte list option \<Rightarrow> pg_conn \<Rightarrow> pg_conn" where
  "remember_query query conn =
     (case query of
        None \<Rightarrow> conn\<lparr>last_query := None\<rparr>
      | Some q \<Rightarrow> set_alloc (after_alloc (e_alloc (env conn)))
          (conn\<lparr>last_query := (if next_ok (e_alloc (env conn)) then Some q else None)\<rparr>))"

text \<open>Calls of the \<open>pqPut\<close> functions, which answer 0 or \<open>EOF\<close>, in a chain \<open>f < 0 || g < 0 || \<dots>\<close>.\<close>

fun put_all :: "(pg_conn \<Rightarrow> (int \<times> pg_conn) option) list \<Rightarrow> pg_conn \<Rightarrow> (int \<times> pg_conn) option" where
  "put_all [] conn = Some (0, conn)"
| "put_all (f # fs) conn = do { (r, conn) \<leftarrow> f conn; if r \<noteq> 0 then Some (EOF, conn) else put_all fs conn }"

partial_function (option) read_all :: "pg_conn \<Rightarrow> pg_conn option" where
  "read_all conn = Option.bind (pqReadData conn) (\<lambda>(r, conn). if r > 0 then read_all conn else Some conn)"

definition pqHandleSendFailure :: "pg_conn \<Rightarrow> pg_conn option" where
  "pqHandleSendFailure conn = do { conn \<leftarrow> read_all conn; parseInput conn }"

definition send_failed :: "pg_conn \<Rightarrow> (int \<times> pg_conn) option" where
  "send_failed conn = do { conn \<leftarrow> pqHandleSendFailure conn; Some (0, conn) }"

text \<open>How every function that sends a command ends.\<close>

definition launch :: "pg_conn \<Rightarrow> (int \<times> pg_conn) option" where
  "launch conn = do {
     (r, conn) \<leftarrow> pqFlush conn;
     if r < 0 then send_failed conn else Some (1, conn\<lparr>asyncStatus := PGASYNC_BUSY\<rparr>)
   }"


section \<open>Sending a command\<close>

definition PQsendQueryStart :: "pg_conn \<Rightarrow> (bool \<times> pg_conn) option" where
  "PQsendQueryStart conn = do {
     conn \<leftarrow> reset_error conn;
     if status conn \<noteq> CONNECTION_OK then refuse False conn (lit ''no connection to the server'')
     else if asyncStatus conn \<noteq> PGASYNC_IDLE then refuse False conn (lit ''another command is already in progress'')
     else Some (True, conn\<lparr>result := None, curTuple := None\<rparr>)
   }"

definition PQsendQuery :: "pg_conn \<Rightarrow> byte list option \<Rightarrow> (int \<times> pg_conn) option" where
  "PQsendQuery conn query = do {
     (ok, conn) \<leftarrow> PQsendQueryStart conn;
     if \<not> ok then Some (0, conn)
     else case query of
       None \<Rightarrow> refuse 0 conn (lit ''command string is a null pointer'')
     | Some q \<Rightarrow> do {
         (r, conn) \<leftarrow> put_all [pqPutMsgStart 0x51 False, pqPuts q, pqPutMsgEnd] conn;
         if r < 0 then send_failed conn
         else launch (remember_query (Some q) (conn\<lparr>queryclass := PGQUERY_SIMPLE\<rparr>))
       }
   }"

text \<open>The loops over the arrays of the caller, from \<open>i\<close> on, \<open>n\<close> elements, of \<open>width\<close> bytes each.\<close>

fun put_ints :: "nat \<Rightarrow> int list \<Rightarrow> nat \<Rightarrow> nat \<Rightarrow> pg_conn \<Rightarrow> (int \<times> pg_conn) option" where
  "put_ints width vs i 0 conn = Some (0, conn)"
| "put_ints width vs i (Suc n) conn = do {
     v \<leftarrow> rd vs i;
     (r, conn) \<leftarrow> pqPutInt v width conn;
     if r < 0 then Some (EOF, conn) else put_ints width vs (i + 1) n conn
   }"

text \<open>\<open>if (nParams > 0 && array)\<close>: the number and the elements, otherwise a zero.\<close>

definition put_array :: "nat \<Rightarrow> int \<Rightarrow> int list option \<Rightarrow> pg_conn \<Rightarrow> (int \<times> pg_conn) option" where
  "put_array width nParams arr =
     (case arr of
        Some vs \<Rightarrow> if nParams > 0 then put_all [pqPutInt nParams 2, put_ints width vs 0 (nat nParams)] else pqPutInt 0 2
      | None \<Rightarrow> pqPutInt 0 2)"

text \<open>
  The parameters. \<open>paramValues[i]\<close> is the memory from the pointer on: a text ends at its terminator, a binary value has the length
  given, and one that is negative asks for a copy of more bytes than there can be.
\<close>

definition param_length :: "int list option \<Rightarrow> int list option \<Rightarrow> nat \<Rightarrow> byte list \<Rightarrow> int option option" where
  "param_length lengths formats i value = do {
     is_binary \<leftarrow> (case formats of None \<Rightarrow> Some False | Some fs \<Rightarrow> map_option (\<lambda>f. f \<noteq> 0) (rd fs i));
     if is_binary then
       (case lengths of
          None \<Rightarrow> Some None
        | Some ls \<Rightarrow> map_option Some (rd ls i))
     else map_option (\<lambda>n. Some (wrap32 (int n))) (c_strlen value)
   }"

definition put_param ::
  "byte list option list option \<Rightarrow> int list option \<Rightarrow> int list option \<Rightarrow> nat \<Rightarrow> pg_conn \<Rightarrow> (int \<times> pg_conn) option" where
  "put_param values lengths formats i conn = do {
     v \<leftarrow> (case values of None \<Rightarrow> Some None | Some vs \<Rightarrow> rd vs i);
     case v of
       None \<Rightarrow> pqPutInt (- 1) 4 conn
     | Some value \<Rightarrow> do {
         len \<leftarrow> param_length lengths formats i value;
         case len of
           None \<Rightarrow> refuse EOF conn (lit ''length must be given for binary parameter'')
         | Some nbytes \<Rightarrow> do {
             (r, conn) \<leftarrow> pqPutInt nbytes 4 conn;
             if r < 0 then Some (EOF, conn)
             else do {
               bs \<leftarrow> (if nbytes < 0 then None else rd_bytes value 0 (nat nbytes));
               pqPutnchar bs conn
             }
           }
       }
   }"

fun put_params ::
  "byte list option list option \<Rightarrow> int list option \<Rightarrow> int list option \<Rightarrow> nat \<Rightarrow> nat \<Rightarrow> pg_conn \<Rightarrow> (int \<times> pg_conn) option" where
  "put_params values lengths formats i 0 conn = Some (0, conn)"
| "put_params values lengths formats i (Suc n) conn = do {
     (r, conn) \<leftarrow> put_param values lengths formats i conn;
     if r < 0 then Some (EOF, conn) else put_params values lengths formats (i + 1) n conn
   }"

definition PQsendQueryGuts ::
  "pg_conn \<Rightarrow> byte list option \<Rightarrow> byte list \<Rightarrow> int \<Rightarrow> int list option \<Rightarrow> byte list option list option \<Rightarrow>
   int list option \<Rightarrow> int list option \<Rightarrow> int \<Rightarrow> (int \<times> pg_conn) option" where
  "PQsendQueryGuts conn command stmtName nParams paramTypes paramValues paramLengths paramFormats resultFormat =
     (if PG_PROTOCOL_MAJOR (pversion conn) < 3 then refuse 0 conn (lit ''function requires at least protocol version 3.0'')
      else do {
        (r, conn) \<leftarrow> put_all (
          (case command of
             None \<Rightarrow> []
           | Some q \<Rightarrow> [pqPutMsgStart 0x50 False, pqPuts stmtName, pqPuts q, put_array 4 nParams paramTypes, pqPutMsgEnd]) @
          [pqPutMsgStart 0x42 False, pqPuts [], pqPuts stmtName, put_array 2 nParams paramFormats,
           pqPutInt nParams 2, put_params paramValues paramLengths paramFormats 0 (nat nParams),
           pqPutInt 1 2, pqPutInt resultFormat 2, pqPutMsgEnd,
           pqPutMsgStart 0x44 False, pqPutc 0x50, pqPuts [], pqPutMsgEnd,
           pqPutMsgStart 0x45 False, pqPuts [], pqPutInt 0 4, pqPutMsgEnd,
           pqPutMsgStart 0x53 False, pqPutMsgEnd]) conn;
        if r < 0 then send_failed conn
        else launch (remember_query command (conn\<lparr>queryclass := PGQUERY_EXTENDED\<rparr>))
      })"

definition PQsendQueryParams ::
  "pg_conn \<Rightarrow> byte list option \<Rightarrow> int \<Rightarrow> int list option \<Rightarrow> byte list option list option \<Rightarrow>
   int list option \<Rightarrow> int list option \<Rightarrow> int \<Rightarrow> (int \<times> pg_conn) option" where
  "PQsendQueryParams conn command nParams paramTypes paramValues paramLengths paramFormats resultFormat = do {
     (ok, conn) \<leftarrow> PQsendQueryStart conn;
     if \<not> ok then Some (0, conn)
     else case command of
       None \<Rightarrow> refuse 0 conn (lit ''command string is a null pointer'')
     | Some q \<Rightarrow> PQsendQueryGuts conn (Some q) [] nParams paramTypes paramValues paramLengths paramFormats resultFormat
   }"

definition PQsendPrepare :: "pg_conn \<Rightarrow> byte list option \<Rightarrow> byte list option \<Rightarrow> int \<Rightarrow> int list option \<Rightarrow> (int \<times> pg_conn) option" where
  "PQsendPrepare conn stmtName query nParams paramTypes = do {
     (ok, conn) \<leftarrow> PQsendQueryStart conn;
     if \<not> ok then Some (0, conn)
     else case stmtName of
       None \<Rightarrow> refuse 0 conn (lit ''statement name is a null pointer'')
     | Some s \<Rightarrow>
         (case query of
            None \<Rightarrow> refuse 0 conn (lit ''command string is a null pointer'')
          | Some q \<Rightarrow>
              if PG_PROTOCOL_MAJOR (pversion conn) < 3 then refuse 0 conn (lit ''function requires at least protocol version 3.0'')
              else do {
                (r, conn) \<leftarrow> put_all [pqPutMsgStart 0x50 False, pqPuts s, pqPuts q, put_array 4 nParams paramTypes, pqPutMsgEnd,
                  pqPutMsgStart 0x53 False, pqPutMsgEnd] conn;
                if r < 0 then send_failed conn
                else launch (remember_query (Some q) (conn\<lparr>queryclass := PGQUERY_PREPARE\<rparr>))
              })
   }"

definition PQsendQueryPrepared ::
  "pg_conn \<Rightarrow> byte list option \<Rightarrow> int \<Rightarrow> byte list option list option \<Rightarrow> int list option \<Rightarrow> int list option \<Rightarrow> int \<Rightarrow> (int \<times> pg_conn) option" where
  "PQsendQueryPrepared conn stmtName nParams paramValues paramLengths paramFormats resultFormat = do {
     (ok, conn) \<leftarrow> PQsendQueryStart conn;
     if \<not> ok then Some (0, conn)
     else case stmtName of
       None \<Rightarrow> refuse 0 conn (lit ''statement name is a null pointer'')
     | Some s \<Rightarrow> PQsendQueryGuts conn None s nParams None paramValues paramLengths paramFormats resultFormat
   }"

definition PQsendDescribe :: "pg_conn \<Rightarrow> byte \<Rightarrow> byte list option \<Rightarrow> (int \<times> pg_conn) option" where
  "PQsendDescribe conn desc_type desc_target = do {
     let target = (case desc_target of None \<Rightarrow> [] | Some s \<Rightarrow> s);
     (ok, conn) \<leftarrow> PQsendQueryStart conn;
     if \<not> ok then Some (0, conn)
     else if PG_PROTOCOL_MAJOR (pversion conn) < 3 then refuse 0 conn (lit ''function requires at least protocol version 3.0'')
     else do {
       (r, conn) \<leftarrow> put_all [pqPutMsgStart 0x44 False, pqPutc desc_type, pqPuts target, pqPutMsgEnd, pqPutMsgStart 0x53 False, pqPutMsgEnd] conn;
       if r < 0 then send_failed conn
       else launch (remember_query None (conn\<lparr>queryclass := PGQUERY_DESCRIBE\<rparr>))
     }
   }"

definition PQsendDescribePrepared :: "pg_conn \<Rightarrow> byte list option \<Rightarrow> (int \<times> pg_conn) option" where
  "PQsendDescribePrepared conn stmt = PQsendDescribe conn 0x53 stmt"

definition PQsendDescribePortal :: "pg_conn \<Rightarrow> byte list option \<Rightarrow> (int \<times> pg_conn) option" where
  "PQsendDescribePortal conn portal = PQsendDescribe conn 0x50 portal"


section \<open>Collecting results\<close>

definition PQconsumeInput :: "pg_conn \<Rightarrow> (int \<times> pg_conn) option" where
  "PQconsumeInput conn = do {
     (r, conn) \<leftarrow> (if nonblocking conn then pqFlush conn else Some (0, conn));
     if r < 0 then Some (0, conn)
     else do {
       (n, conn) \<leftarrow> pqReadData conn;
       Some (if n < 0 then 0 else 1, conn)
     }
   }"

definition PQisBusy :: "pg_conn \<Rightarrow> (bool \<times> pg_conn) option" where
  "PQisBusy conn = do { conn \<leftarrow> parseInput conn; Some (asyncStatus conn = PGASYNC_BUSY, conn) }"

text \<open>\<open>while ((flushResult = pqFlush(conn)) > 0)\<close>; the answer is \<open>flushResult\<close>.\<close>

partial_function (option) flush_all :: "pg_conn \<Rightarrow> (int \<times> pg_conn) option" where
  "flush_all conn =
     Option.bind (pqFlush conn) (\<lambda>(r, conn).
       if r > 0 then
         Option.bind (pqWait False True conn) (\<lambda>(w, conn). if w \<noteq> 0 then Some (- 1, conn) else flush_all conn)
       else Some (r, conn))"

text \<open>Send what waits, wait for data and load them. \<open>False\<close>: one of these failed.\<close>

definition load_more :: "pg_conn \<Rightarrow> (bool \<times> pg_conn) option" where
  "load_more conn = do {
     (flushResult, conn) \<leftarrow> flush_all conn;
     if flushResult \<noteq> 0 then Some (False, conn)
     else do {
       (w, conn) \<leftarrow> pqWait True False conn;
       if w \<noteq> 0 then Some (False, conn)
       else do {
         (n, conn) \<leftarrow> pqReadData conn;
         Some (n \<ge> 0, conn)
       }
     }
   }"

text \<open>\<open>while (conn->asyncStatus == PGASYNC_BUSY)\<close>. \<open>False\<close>: loading failed.\<close>

partial_function (option) wait_result :: "pg_conn \<Rightarrow> (bool \<times> pg_conn) option" where
  "wait_result conn =
     (if asyncStatus conn = PGASYNC_BUSY then
        Option.bind (load_more conn) (\<lambda>(ok, conn).
          if ok then Option.bind (parseInput conn) wait_result else Some (False, conn))
      else Some (True, conn))"

text \<open>The result of a COPY, which the client may have taken before.\<close>

definition copy_result :: "pg_conn \<Rightarrow> ExecStatusType \<Rightarrow> (pg_result option \<times> pg_conn) option" where
  "copy_result conn st =
     (case result conn of
        Some r \<Rightarrow> if resultStatus r = st then pqPrepareAsyncResult conn else makeEmptyPGresult conn st
      | None \<Rightarrow> makeEmptyPGresult conn st)"

definition current_result :: "pg_conn \<Rightarrow> (pg_result option \<times> pg_conn) option" where
  "current_result conn =
     (case asyncStatus conn of
        PGASYNC_IDLE \<Rightarrow> Some (None, conn)
      | PGASYNC_READY \<Rightarrow> do {
          (res, conn) \<leftarrow> pqPrepareAsyncResult conn;
          Some (res, conn\<lparr>asyncStatus := PGASYNC_BUSY\<rparr>)
        }
      | PGASYNC_COPY_IN \<Rightarrow> copy_result conn PGRES_COPY_IN
      | PGASYNC_COPY_OUT \<Rightarrow> copy_result conn PGRES_COPY_OUT
      | PGASYNC_COPY_BOTH \<Rightarrow> copy_result conn PGRES_COPY_BOTH
      | PGASYNC_BUSY \<Rightarrow> do {
          conn \<leftarrow> printf_error conn (lit ''unexpected asyncStatus: 1'' @ [0x0A]);
          makeEmptyPGresult conn PGRES_FATAL_ERROR
        })"

definition PQgetResult :: "pg_conn \<Rightarrow> (pg_result option \<times> pg_conn) option" where
  "PQgetResult conn = do {
     conn \<leftarrow> parseInput conn;
     (ok, conn) \<leftarrow> wait_result conn;
     if ok then current_result conn
     else do {
       conn \<leftarrow> pqSaveErrorResult conn;
       pqPrepareAsyncResult (conn\<lparr>asyncStatus := PGASYNC_IDLE\<rparr>)
     }
   }"

definition PQnotifies :: "pg_conn \<Rightarrow> (PGnotify option \<times> pg_conn) option" where
  "PQnotifies conn = do {
     conn \<leftarrow> parseInput conn;
     Some (case notifies conn of
         [] \<Rightarrow> (None, conn)
       | n # ns \<Rightarrow> (Some n, conn\<lparr>notifies := ns\<rparr>))
   }"


section \<open>Sending data for a COPY\<close>

definition PQputCopyData :: "pg_conn \<Rightarrow> byte list \<Rightarrow> int \<Rightarrow> (int \<times> pg_conn) option" where
  "PQputCopyData conn buffer nbytes =
     (if asyncStatus conn \<noteq> PGASYNC_COPY_IN \<and> asyncStatus conn \<noteq> PGASYNC_COPY_BOTH then refuse (- 1) conn (lit ''no COPY in progress'')
      else do {
        conn \<leftarrow> parseInput conn;
        if nbytes > 0 then do {
          (full, conn) \<leftarrow> (if wrap32 (outBufSize conn - outCount conn - 5) < nbytes then do {
              (r, conn) \<leftarrow> pqFlush conn;
              if r < 0 then Some (Some (- 1), conn)
              else do {
                (r, conn) \<leftarrow> pqCheckOutBufferSpace (szadd (nat (outCount conn + 5)) (nat nbytes)) conn;
                Some (if r \<noteq> 0 then Some (if nonblocking conn then 0 else - 1) else None, conn)
              }
            }
            else Some (None, conn));
          case full of
            Some r \<Rightarrow> Some (r, conn)
          | None \<Rightarrow> do {
              bs \<leftarrow> rd_bytes buffer 0 (nat nbytes);
              (r, conn) \<leftarrow> put_all [pqPutMsgStart (if PG_PROTOCOL_MAJOR (pversion conn) \<ge> 3 then 0x64 else 0) False, pqPutnchar bs, pqPutMsgEnd] conn;
              Some (if r < 0 then - 1 else 1, conn)
            }
        }
        else Some (1, conn)
      })"

text \<open>The messages that end the transfer, after which a \<open>Sync\<close> is due in the extended protocol.\<close>

definition copy_end_calls :: "byte list option \<Rightarrow> pg_conn \<Rightarrow> (pg_conn \<Rightarrow> (int \<times> pg_conn) option) list" where
  "copy_end_calls errormsg conn =
     (if PG_PROTOCOL_MAJOR (pversion conn) \<ge> 3 then
        (case errormsg of
           Some msg \<Rightarrow> [pqPutMsgStart 0x66 False, pqPuts msg, pqPutMsgEnd]
         | None \<Rightarrow> [pqPutMsgStart 0x63 False, pqPutMsgEnd]) @
        (if queryclass conn \<noteq> PGQUERY_SIMPLE then [pqPutMsgStart 0x53 False, pqPutMsgEnd] else [])
      else [pqPutMsgStart 0 False, pqPutnchar [0x5C, 0x2E, 0x0A], pqPutMsgEnd])"

definition PQputCopyEnd :: "pg_conn \<Rightarrow> byte list option \<Rightarrow> (int \<times> pg_conn) option" where
  "PQputCopyEnd conn errormsg =
     (if asyncStatus conn \<noteq> PGASYNC_COPY_IN then refuse (- 1) conn (lit ''no COPY in progress'')
      else if PG_PROTOCOL_MAJOR (pversion conn) < 3 \<and> errormsg \<noteq> None then
        refuse (- 1) conn (lit ''function requires at least protocol version 3.0'')
      else do {
        (r, conn) \<leftarrow> put_all (copy_end_calls errormsg conn) conn;
        if r < 0 then Some (- 1, conn)
        else do {
          conn \<leftarrow> reset_error (conn\<lparr>asyncStatus := PGASYNC_BUSY\<rparr>);
          (r, conn) \<leftarrow> pqFlush conn;
          Some (if r < 0 then - 1 else 1, conn)
        }
      })"

definition PQputnbytes :: "pg_conn \<Rightarrow> byte list \<Rightarrow> int \<Rightarrow> (int \<times> pg_conn) option" where
  "PQputnbytes conn buffer nbytes = do {
     (r, conn) \<leftarrow> PQputCopyData conn buffer nbytes;
     Some (if r > 0 then 0 else EOF, conn)
   }"

definition PQputline :: "pg_conn \<Rightarrow> byte list \<Rightarrow> (int \<times> pg_conn) option" where
  "PQputline conn s = do { n \<leftarrow> c_strlen s; PQputnbytes conn s (wrap32 (int n)) }"


section \<open>Commands as a whole\<close>

text \<open>What is done with a result of an earlier command; \<open>False\<close>: a new one may not be sent.\<close>

definition discard_result :: "ExecStatusType \<Rightarrow> pg_conn \<Rightarrow> (bool \<times> pg_conn) option" where
  "discard_result st conn =
     (if st = PGRES_COPY_IN then
        (if PG_PROTOCOL_MAJOR (pversion conn) \<ge> 3 then do {
           (r, conn) \<leftarrow> PQputCopyEnd conn (Some (lit ''COPY terminated by new PQexec''));
           Some (r \<ge> 0, conn)
         }
         else refuse False conn (lit ''COPY IN state must be terminated first''))
      else if st = PGRES_COPY_OUT then
        (if PG_PROTOCOL_MAJOR (pversion conn) \<ge> 3 then Some (True, conn\<lparr>asyncStatus := PGASYNC_BUSY\<rparr>)
         else refuse False conn (lit ''COPY OUT state must be terminated first''))
      else if st = PGRES_COPY_BOTH then refuse False conn (lit ''PQexec not allowed during COPY BOTH'')
      else Some (True, conn))"

partial_function (option) PQexecStart :: "pg_conn \<Rightarrow> (bool \<times> pg_conn) option" where
  "PQexecStart conn =
     Option.bind (PQgetResult conn) (\<lambda>(res, conn).
       case res of
         None \<Rightarrow> Some (True, conn)
       | Some r \<Rightarrow> Option.bind (discard_result (resultStatus r) conn) (\<lambda>(ok, conn).
           if \<not> ok \<or> status conn = CONNECTION_BAD then Some (False, conn) else PQexecStart conn))"

text \<open>Two error results become one; otherwise the new result replaces the last one.\<close>

definition merge_result :: "pg_result option \<Rightarrow> pg_result \<Rightarrow> pg_conn \<Rightarrow> (pg_result \<times> pg_conn) option" where
  "merge_result last_res res conn =
     (case last_res of
        None \<Rightarrow> Some (res, conn)
      | Some l \<Rightarrow>
          if resultStatus l = PGRES_FATAL_ERROR \<and> resultStatus res = PGRES_FATAL_ERROR then do {
            msg \<leftarrow> errMsg res;
            (l, a) \<leftarrow> pqCatenateResultError (e_alloc (env conn)) l msg;
            conn \<leftarrow> reset_error (set_alloc a conn);
            m \<leftarrow> errMsg l;
            (str, a) \<leftarrow> appendPQExpBufferStr (e_alloc (env conn)) (errorMessage conn) (m @ [0]);
            Some (l, set_alloc a (conn\<lparr>errorMessage := str\<rparr>))
          }
          else Some (res, conn))"

definition stops_exec :: "ExecStatusType \<Rightarrow> bool" where
  "stops_exec st \<longleftrightarrow> st = PGRES_COPY_IN \<or> st = PGRES_COPY_OUT \<or> st = PGRES_COPY_BOTH"

text \<open>The loop of \<open>PQexecFinish\<close>, with \<open>lastResult\<close>.\<close>

partial_function (option) finish_loop :: "pg_result option \<Rightarrow> pg_conn \<Rightarrow> (pg_result option \<times> pg_conn) option" where
  "finish_loop lastResult conn =
     Option.bind (PQgetResult conn) (\<lambda>(res, conn).
       case res of
         None \<Rightarrow> Some (lastResult, conn)
       | Some r \<Rightarrow> Option.bind (merge_result lastResult r conn) (\<lambda>(r, conn).
           if stops_exec (resultStatus r) \<or> status conn = CONNECTION_BAD then Some (Some r, conn)
           else finish_loop (Some r) conn))"

definition PQexecFinish :: "pg_conn \<Rightarrow> (pg_result option \<times> pg_conn) option" where
  "PQexecFinish conn = finish_loop None conn"

text \<open>The functions that send a command and wait for its result differ in how they send it.\<close>

definition exec_with :: "(pg_conn \<Rightarrow> (int \<times> pg_conn) option) \<Rightarrow> pg_conn \<Rightarrow> (pg_result option \<times> pg_conn) option" where
  "exec_with send conn = do {
     (ok, conn) \<leftarrow> PQexecStart conn;
     if \<not> ok then Some (None, conn)
     else do {
       (sent, conn) \<leftarrow> send conn;
       if sent = 0 then Some (None, conn) else PQexecFinish conn
     }
   }"

definition PQexec :: "pg_conn \<Rightarrow> byte list option \<Rightarrow> (pg_result option \<times> pg_conn) option" where
  "PQexec conn query = exec_with (\<lambda>conn. PQsendQuery conn query) conn"

definition PQexecParams ::
  "pg_conn \<Rightarrow> byte list option \<Rightarrow> int \<Rightarrow> int list option \<Rightarrow> byte list option list option \<Rightarrow>
   int list option \<Rightarrow> int list option \<Rightarrow> int \<Rightarrow> (pg_result option \<times> pg_conn) option" where
  "PQexecParams conn command nParams paramTypes paramValues paramLengths paramFormats resultFormat =
     exec_with (\<lambda>conn. PQsendQueryParams conn command nParams paramTypes paramValues paramLengths paramFormats resultFormat) conn"

definition PQprepare :: "pg_conn \<Rightarrow> byte list option \<Rightarrow> byte list option \<Rightarrow> int \<Rightarrow> int list option \<Rightarrow> (pg_result option \<times> pg_conn) option" where
  "PQprepare conn stmtName query nParams paramTypes = exec_with (\<lambda>conn. PQsendPrepare conn stmtName query nParams paramTypes) conn"

definition PQexecPrepared ::
  "pg_conn \<Rightarrow> byte list option \<Rightarrow> int \<Rightarrow> byte list option list option \<Rightarrow> int list option \<Rightarrow> int list option \<Rightarrow> int \<Rightarrow> (pg_result option \<times> pg_conn) option" where
  "PQexecPrepared conn stmtName nParams paramValues paramLengths paramFormats resultFormat =
     exec_with (\<lambda>conn. PQsendQueryPrepared conn stmtName nParams paramValues paramLengths paramFormats resultFormat) conn"

definition PQdescribePrepared :: "pg_conn \<Rightarrow> byte list option \<Rightarrow> (pg_result option \<times> pg_conn) option" where
  "PQdescribePrepared conn stmt = exec_with (\<lambda>conn. PQsendDescribe conn 0x53 stmt) conn"

definition PQdescribePortal :: "pg_conn \<Rightarrow> byte list option \<Rightarrow> (pg_result option \<times> pg_conn) option" where
  "PQdescribePortal conn portal = exec_with (\<lambda>conn. PQsendDescribe conn 0x50 portal) conn"


section \<open>Blocking or not\<close>

definition PQsetnonblocking :: "pg_conn \<Rightarrow> int \<Rightarrow> (int \<times> pg_conn) option" where
  "PQsetnonblocking conn arg =
     (if status conn = CONNECTION_BAD then Some (- 1, conn)
      else if (arg \<noteq> 0) = nonblocking conn then Some (0, conn)
      else do {
        (r, conn) \<leftarrow> pqFlush conn;
        if r \<noteq> 0 then Some (- 1, conn) else Some (0, conn\<lparr>nonblocking := arg \<noteq> 0\<rparr>)
      })"

definition PQisnonblocking :: "pg_conn \<Rightarrow> bool" where
  "PQisnonblocking conn = nonblocking conn"

definition PQflush :: "pg_conn \<Rightarrow> (int \<times> pg_conn) option" where
  "PQflush conn = pqFlush conn"

end
