(* ===== verification/Progress.thy ===== *)
theory Progress
  imports Messages ParseSteps
begin

text \<open>
  How the communication with the server comes to an end.

  The network is a finite sequence of events: packets and errors on reading, partial writes and errors on writing, answers of
  \<open>poll\<close>. Every attempt to read or to write that does not fail for good takes up one of them; \<open>steps\<close> counts what is left. The
  loops above \<open>fe-misc.c\<close> end because of that. What has been read is never lost: \<open>through\<close> says that an operation only appends
  bytes of the network to the input.
\<close>

section \<open>What is left of the network\<close>

definition fewer :: "env \<Rightarrow> env \<Rightarrow> bool" where
  "fewer e e' \<longleftrightarrow> stream_steps e' \<le> stream_steps e \<and> length (e_send e') \<le> length (e_send e) \<and> length (e_poll e') \<le> length (e_poll e)"

definition steps :: "env \<Rightarrow> nat" where
  "steps e = stream_steps e + length (e_send e) + length (e_poll e)"

lemma fewer_refl [simp]: "fewer e e"
  by (simp add: fewer_def)

lemma fewer_trans: "fewer a b \<Longrightarrow> fewer b c \<Longrightarrow> fewer a c"
  by (simp add: fewer_def)

lemma fewer_steps: "fewer a b \<Longrightarrow> steps b \<le> steps a"
  by (simp add: fewer_def steps_def)

lemma fewer_errno [simp]: "fewer e (e'\<lparr>e_errno := x\<rparr>) = fewer e e'" "steps (e\<lparr>e_errno := x\<rparr>) = steps e"
    "fewer (e\<lparr>e_errno := x\<rparr>) e' = fewer e e'"
  by (simp_all add: fewer_def steps_def stream_steps_def)

text \<open>\<open>progress p e e'\<close>: nothing comes back, and when \<open>p\<close> holds something has gone.\<close>

definition progress :: "bool \<Rightarrow> env \<Rightarrow> env \<Rightarrow> bool" where
  "progress p e e' \<longleftrightarrow> fewer e e' \<and> (p \<longrightarrow> steps e' < steps e)"

lemma progress_trans: "progress p a b \<Longrightarrow> progress q b c \<Longrightarrow> progress (p \<or> q) a c"
  using fewer_steps [of a b] fewer_steps [of b c] by (auto simp: progress_def intro: fewer_trans)

lemma progress_mono: "progress p a b \<Longrightarrow> (q \<Longrightarrow> p) \<Longrightarrow> progress q a b"
  by (auto simp: progress_def)

lemma progress_refl [simp]: "progress p e e \<longleftrightarrow> \<not> p"
  by (auto simp: progress_def)

lemma progress_errno [simp]: "progress p e (e'\<lparr>e_errno := x\<rparr>) = progress p e e'" "progress p (e\<lparr>e_errno := x\<rparr>) e' = progress p e e'"
  by (simp_all add: progress_def)

lemma same_events_steps: "same_events e e' \<Longrightarrow> fewer e e' \<and> steps e' = steps e"
  by (simp add: same_events_def same_io_def fewer_def steps_def stream_steps_def)

lemma progress_same: "progress p a b \<Longrightarrow> same_events b c \<Longrightarrow> progress p a c"
  using same_events_steps [of b c] by (auto simp: progress_def intro: fewer_trans)

lemma same_progress: "same_events a b \<Longrightarrow> progress p b c \<Longrightarrow> progress p a c"
  using same_events_steps [of a b] by (auto simp: progress_def intro: fewer_trans)

lemma printf_error_events:
  assumes "printf_error c t = Some c'"
  shows "same_events (env c) (env c')"
proof -
  obtain s a where "c' = set_alloc a (c\<lparr>errorMessage := s\<rparr>)"
    using assms by (auto simp: printf_error_def bind_Some_iff)
  then show ?thesis by (simp add: set_alloc_def same_events_def same_io_def)
qed

lemma c_recv_progress: "c_recv e n = (ev, e') \<Longrightarrow> progress (case ev of Recv bs \<Rightarrow> bs \<noteq> [] | Recv_error _ \<Rightarrow> True) e e'"
  by (auto simp: c_recv_def progress_def fewer_def steps_def stream_steps_def split: list.splits recv_event.splits if_splits)

lemma c_send_progress: "c_send e bs = (ev, e') \<Longrightarrow> progress (case ev of Sent n \<Rightarrow> n < length bs | Send_error _ \<Rightarrow> True) e e'"
  by (auto simp: c_send_def progress_def fewer_def steps_def stream_steps_def split: list.splits send_event.splits)

lemma c_poll_progress: "c_poll e s fr fw t = (ev, e') \<Longrightarrow> progress (ev \<noteq> Poll 1) e e'"
  by (auto simp: c_poll_def Let_def progress_def fewer_def steps_def stream_steps_def split: list.splits)

lemma pqSocketPoll_progress: "pqSocketPoll e s fr fw t = (r, e') \<Longrightarrow> fr \<or> fw \<Longrightarrow> progress (r \<noteq> 1) e e'"
  by (auto simp: pqSocketPoll_def Let_def split: prod.splits poll_event.splits if_splits dest!: c_poll_progress)

lemma poll_loop_progress: "poll_loop e s fr fw t = Some (r, e') \<Longrightarrow> fr \<or> fw \<Longrightarrow> progress (r \<noteq> 1) e e'"
proof -
  have "fr \<or> fw \<longrightarrow> progress (fst y \<noteq> 1) e (snd y)" if "poll_loop e s fr fw t = Some y" for y
  proof (rule poll_loop.raw_induct [where P = "\<lambda>e s fr fw t y. fr \<or> fw \<longrightarrow> progress (fst y \<noteq> 1) e (snd y)", OF _ that], goal_cases)
    case (1 loop e s fr fw t y)
    obtain r1 e1 where p: "pqSocketPoll e s fr fw t = (r1, e1)" by (cases "pqSocketPoll e s fr fw t")
    show ?case
    proof
      assume w: "fr \<or> fw"
      note g = pqSocketPoll_progress [OF p w]
      show "progress (fst y \<noteq> 1) e (snd y)"
      proof (cases "r1 < 0 \<and> e_errno e1 = Some EINTR")
        case True
        then have "progress (fst y \<noteq> 1) e1 (snd y)" using 1(1) [of e1 s fr fw t y] 1(2) p w by simp
        from progress_trans [OF g this] show ?thesis by (rule progress_mono) simp
      qed (use 1(2) p g in auto)
    qed
  qed
  then show "poll_loop e s fr fw t = Some (r, e') \<Longrightarrow> fr \<or> fw \<Longrightarrow> progress (r \<noteq> 1) e e'" by fastforce
qed

lemma pqSocketCheck_progress:
  assumes "pqSocketCheck c fr fw t = Some (r, c')" "fr \<or> fw"
  shows "progress (r = 0 \<or> r > 1) (env c) (env c')"
proof (cases "sock c < 0")
  case True
  then show ?thesis using assms printf_error_events same_events_steps by (fastforce simp: pqSocketCheck_def bind_Some_iff progress_def)
next
  case False
  then obtain r1 e1 where p: "poll_loop (env c) (sock c) fr fw t = Some (r1, e1)"
    "(if r1 < 0 then do {
        conn \<leftarrow> printf_error (c\<lparr>env := e1\<rparr>) (lit ''select() failed: '' @ errno_text e1 @ [0x0A]);
        Some (r1, conn)
      }
      else Some (r1, c\<lparr>env := e1\<rparr>)) = Some (r, c')"
    using assms(1) False by (auto simp: pqSocketCheck_def bind_Some_iff Let_def)
  note g = poll_loop_progress [OF p(1) assms(2)]
  show ?thesis
  proof (cases "r1 < 0")
    case True
    then show ?thesis using p(2) progress_same [OF g] printf_error_events by (fastforce simp: bind_Some_iff intro: progress_mono)
  next
    case False
    then show ?thesis using p(2) g by (auto intro: progress_mono)
  qed
qed

lemma pqWait_progress:
  assumes "pqWait fr fw c = Some (r, c')" "fr \<or> fw"
  shows "progress False (env c) (env c')"
proof -
  obtain r1 c1 where 1: "pqSocketCheck c fr fw (- 1) = Some (r1, c1)"
    using assms(1) by (auto simp: pqWait_def pqWaitTimed_def bind_Some_iff)
  from pqSocketCheck_progress [OF this assms(2)] have g: "progress False (env c) (env c1)" by (rule progress_mono) simp
  show ?thesis using assms(1) 1 g progress_same [OF g printf_error_events]
    by (auto simp: pqWait_def pqWaitTimed_def bind_Some_iff split: if_splits)
qed


section \<open>Reading\<close>

lemma pqsecure_read_progress:
  assumes "pqsecure_read c n = Some (r, bs, c')"
  shows "progress (r \<noteq> 0) (env c) (env c')"
proof -
  obtain ev e where ev: "c_recv (env c) n = (ev, e)" by (cases "c_recv (env c) n")
  note g = c_recv_progress [OF ev]
  show ?thesis
  proof (cases ev)
    case (Recv b)
    then show ?thesis using assms ev g by (auto simp: pqsecure_read_def set_errno_def intro: progress_mono)
  next
    case (Recv_error x)
    have "same_events e (env (c\<lparr>env := e\<rparr>))" by (simp add: same_events_def same_io_def)
    with Recv_error obtain c1 where c1: "same_events e (env c1)" "c' = set_errno (Some x) c1"
      using assms ev
      by (cases x) (fastforce simp: pqsecure_read_def bind_Some_iff Let_def dest: printf_error_events)+
    then show ?thesis using progress_same [OF g c1(1)] Recv_error by (auto simp: set_errno_def intro: progress_mono)
  qed
qed

lemma read_some_progress: "read_some c = Some (r, c') \<Longrightarrow> progress (r \<noteq> 0) (env c) (env c')"
  by (auto simp: read_some_def bind_Some_iff dest!: pqsecure_read_progress)

lemma definitely_failed_env [simp]: "env (snd (definitely_failed c)) = env c" "fst (definitely_failed c) = - 1"
  by (simp_all add: definitely_failed_def)

lemma read_retry4_progress: "read_retry4 c = Some (r, c') \<Longrightarrow> progress (r \<ge> 0) (env c) (env c')"
proof -
  have "progress (fst y \<ge> 0) (env c) (env (snd y))" if "read_retry4 c = Some y" for y
  proof (rule read_retry4.raw_induct [where P = "\<lambda>c y. progress (fst y \<ge> 0) (env c) (env (snd y))", OF _ that], goal_cases)
    case (1 loop c y)
    obtain n c1 where r: "read_some c = Some (n, c1)" using 1(2) by (auto simp: bind_Some_iff)
    note g = read_some_progress [OF r]
    show ?case
    proof (cases "n < 0 \<and> e_errno (env c1) = Some EINTR")
      case True
      then have "progress (fst y \<ge> 0) (env c1) (env (snd y))" using 1 r by simp
      from progress_trans [OF g this] show ?thesis by (rule progress_mono) simp
    next
      case False
      then show ?thesis using 1(2) r g by (auto split: if_splits intro: progress_mono)
    qed
  qed
  then show "read_retry4 c = Some (r, c') \<Longrightarrow> progress (r \<ge> 0) (env c) (env c')" by fastforce
qed

lemma read_nothing_progress:
  assumes "read_nothing c = Some (r, c')"
  shows "progress (r \<ge> 0) (env c) (env c')"
proof -
  obtain r1 c1 where 1: "pqReadReady c = Some (r1, c1)" using assms by (auto simp: read_nothing_def bind_Some_iff)
  have g: "progress (r1 = 0 \<or> r1 > 1) (env c) (env c1)" using 1 pqSocketCheck_progress [of c True False] by (simp add: pqReadReady_def)
  consider "r1 = 0" | "r1 = 1" | "r1 \<noteq> 0" "r1 \<noteq> 1" by blast
  then show ?thesis
  proof cases
    case 1
    then show ?thesis using assms \<open>pqReadReady c = Some (r1, c1)\<close> g by (auto simp: read_nothing_def intro: progress_mono)
  next
    case 2
    then have "read_retry4 c1 = Some (r, c')" using assms 1 by (simp add: read_nothing_def)
    from progress_trans [OF g read_retry4_progress [OF this]] show ?thesis by (rule progress_mono) simp
  next
    case 3
    then obtain c2 where c2: "printf_error c1 server_closed_text = Some c2" "(r, c') = definitely_failed c2"
      using assms 1 by (auto simp: read_nothing_def bind_Some_iff)
    have "r = - 1" "env c' = env c2" using c2(2) by (simp_all add: definitely_failed_def)
    then show ?thesis using progress_same [OF g printf_error_events [OF c2(1)]] by (auto intro: progress_mono)
  qed
qed

lemma read_retry3_progress: "read_retry3 k c = Some (r, c') \<Longrightarrow> progress (k = 0 \<and> r \<ge> 0) (env c) (env c')"
proof -
  have "progress (k = 0 \<and> fst y \<ge> 0) (env c) (env (snd y))" if "read_retry3 k c = Some y" for y
  proof (rule read_retry3.raw_induct [where P = "\<lambda>k c y. progress (k = 0 \<and> fst y \<ge> 0) (env c) (env (snd y))", OF _ that], goal_cases)
    case (1 loop k c y)
    obtain n c1 where r: "read_some c = Some (n, c1)" using 1(2) by (auto simp: bind_Some_iff)
    note g = read_some_progress [OF r]
    have again: "progress (k = 0 \<and> fst y \<ge> 0) (env c) (env (snd y))" if "loop k' c2 = Some y" "env c2 = env c1" "n \<noteq> 0" for k' c2
    proof -
      have "progress (k' = 0 \<and> fst y \<ge> 0) (env c1) (env (snd y))" using 1(1) that by fastforce
      from progress_trans [OF g this] show ?thesis using that(3) by (auto intro: progress_mono)
    qed
    consider "n < 0" | "n > 0" | "n = 0" by linarith
    then show ?case
    proof cases
      case 1
      then show ?thesis using \<open>_ = Some y\<close> r g again [of k c1] by (auto split: if_splits intro: progress_mono)
    next
      case 2
      then show ?thesis using \<open>_ = Some y\<close> r g again [of 1 "c1\<lparr>inEnd := inEnd c1 + n\<rparr>"]
        by (auto simp: Let_def split: if_splits intro: progress_mono)
    next
      case 3
      show ?thesis
      proof (cases "k = 0")
        case True
        then have "read_nothing c1 = Some (fst y, snd y)" using \<open>_ = Some y\<close> r 3 by simp
        from progress_trans [OF g read_nothing_progress [OF this]] show ?thesis by (rule progress_mono) simp
      qed (use \<open>_ = Some y\<close> r g 3 in \<open>auto intro: progress_mono\<close>)
    qed
  qed
  then show "read_retry3 k c = Some (r, c') \<Longrightarrow> progress (k = 0 \<and> r \<ge> 0) (env c) (env c')" by fastforce
qed

lemma pqReadData_progress:
  assumes "pqReadData c = Some (r, c')" "conn_ok c"
  shows "progress (r \<ge> 0) (env c) (env c')"
proof (cases "sock c < 0")
  case True
  then show ?thesis using assms(1) same_events_steps [OF printf_error_events] by (auto simp: pqReadData_def bind_Some_iff progress_def)
next
  case False
  obtain c1 where c1: "left_justify c = Some c1" "env c1 = env c" "conn_ok c1"
    using left_justify_spec [OF assms(2)] by (auto simp: read_in_def)
  obtain full c2 where c2: "make_room c1 = Some (full, c2)" using assms(1) False c1(1) by (auto simp: pqReadData_def bind_Some_iff)
  have e: "same_events (env c1) (env c2)"
  proof (cases "inBufSize c1 - inEnd c1 < 8192")
    case True
    then show ?thesis using c2 pqCheckInBufferSpace_spec [OF c1(3), of "nat (inEnd c1) + 8192"] same_net_events
      by (auto simp: make_room_def bind_Some_iff Let_def)
  qed (use c2 in \<open>simp add: make_room_def same_events_def same_io_def\<close>)
  then show ?thesis
    using assms(1) False c1(1,2) c2 same_events_steps [OF e] read_retry3_progress [of 0 c2 r c'] same_progress [OF e]
    by (auto simp: pqReadData_def progress_def split: if_splits)
qed


section \<open>Writing\<close>

lemma pqsecure_write_progress:
  assumes "pqsecure_write c bs = Some (n, c')"
  shows "progress (n < int (length bs)) (env c) (env c')" "e_recv (env c') = e_recv (env c)" "\<exists>s. e_sent (env c') = e_sent (env c) @ s"
proof -
  obtain ev e where ev: "c_send (env c) bs = (ev, e)" by (cases "c_send (env c) bs")
  note g = c_send_progress [OF ev]
  have rc: "e_recv e = e_recv (env c) \<and> (\<exists>s. e_sent e = e_sent (env c) @ s)" using ev by (auto simp: c_send_def split: list.splits send_event.splits)
  have "progress (n < int (length bs)) (env c) (env c') \<and> e_recv (env c') = e_recv (env c) \<and> (\<exists>s. e_sent (env c') = e_sent (env c) @ s)"
  proof (cases ev)
    case (Sent k)
    then show ?thesis using assms ev g rc by (auto simp: pqsecure_write_def set_errno_def intro: progress_mono)
  next
    case (Send_error x)
    have "same_events e (env (c\<lparr>env := e\<rparr>))" by (simp add: same_events_def same_io_def)
    with Send_error obtain c1 where c1: "same_events e (env c1)" "c' = set_errno (Some x) c1"
      using assms ev by (cases x) (fastforce simp: pqsecure_write_def bind_Some_iff Let_def dest: printf_error_events)+
    then show ?thesis using progress_same [OF g c1(1)] Send_error rc
      by (auto simp: set_errno_def same_events_def same_io_def intro: progress_mono)
  qed
  then show "progress (n < int (length bs)) (env c) (env c')" "e_recv (env c') = e_recv (env c)" "\<exists>s. e_sent (env c') = e_sent (env c) @ s" by simp_all
qed

text \<open>What has come in follows what was there, and what has gone out follows what had.\<close>

definition through :: "pg_conn \<Rightarrow> pg_conn \<Rightarrow> bool" where
  "through c c' \<longleftrightarrow> only_io c c' \<and> inCursor c' - inStart c' = inCursor c - inStart c \<and>
     (\<exists>bs. in_data c' = in_data c @ bs \<and> stream (env c) = bs @ stream (env c')) \<and> (\<exists>s. e_sent (env c') = e_sent (env c) @ s)"

lemma through_trans: "through a b \<Longrightarrow> through b c \<Longrightarrow> through a c"
  using frame_trans(3) [of a b c] by (fastforce simp: through_def)

lemma through_refl [simp]: "through c c"
  by (simp add: through_def)

lemma read_in_through: "read_in c bs c' \<Longrightarrow> through c c'"
  using frame_mono(3) [of c c'] by (auto simp: read_in_def through_def)

lemma only_out_through: "only_out c c' \<Longrightarrow> e_recv (env c') = e_recv (env c) \<Longrightarrow> \<exists>s. e_sent (env c') = e_sent (env c) @ s \<Longrightarrow> through c c'"
  using only_out_fields [of c c'] frame_mono(4) [of c c'] by (simp add: through_def in_data_def stream_def)

lemma only_env_through: "only_env c c' \<Longrightarrow> e_recv (env c') = e_recv (env c) \<Longrightarrow> \<exists>s. e_sent (env c') = e_sent (env c) @ s \<Longrightarrow> through c c'"
  by (intro only_out_through frame_mono)

lemma through_out [simp]: "through c (c'\<lparr>outBuffer := b\<rparr>) = through c c'" "through c (c'\<lparr>outCount := n\<rparr>) = through c c'"
proof -
  have "only_io c (c'\<lparr>outBuffer := b\<rparr>) = only_io c c'" "only_io c (c'\<lparr>outCount := n\<rparr>) = only_io c c'"
    unfolding only_io_def by (cases c; cases c'; simp)+
  then show "through c (c'\<lparr>outBuffer := b\<rparr>) = through c c'" "through c (c'\<lparr>outCount := n\<rparr>) = through c c'"
    by (simp_all add: through_def in_data_def)
qed

definition sender :: "pg_conn + int \<times> int \<times> int \<times> pg_conn \<Rightarrow> int \<times> pg_conn" where
  "sender y = (case y of Inl c \<Rightarrow> (- 1, c) | Inr (r, p, n, c) \<Rightarrow> (r, c))"

lemma sender_simps [simp]: "sender (Inl c) = (- 1, c)" "sender (Inr (r, p, n, c)) = (r, c)"
  by (simp_all add: sender_def)

lemma send_loop_through:
  assumes "send_loop ptr len left c = Some y" "conn_ok c"
  shows "through c (snd (sender y)) \<and> progress (fst (sender y) > 0) (env c) (env (snd (sender y)))"
proof -
  have "conn_ok c \<longrightarrow> through c (snd (sender y)) \<and> progress (fst (sender y) > 0) (env c) (env (snd (sender y)))"
  proof (rule send_loop.raw_induct [where P = "\<lambda>ptr len left c y. conn_ok c \<longrightarrow> through c (snd (sender y)) \<and>
      progress (fst (sender y) > 0) (env c) (env (snd (sender y)))", OF _ assms(1)], goal_cases)
    case (1 loop ptr len left c y)
    show ?case
    proof (cases "len > 0")
      case False
      then show ?thesis using 1(2) by auto
    next
      case True
      obtain bs where bs: "rd_bytes (outBuffer c) (nat ptr) (nat len) = Some bs" using 1(2) True by (auto simp: bind_Some_iff)
      then have len: "length bs = nat len" by (auto simp: rd_bytes_def split: if_splits)
      obtain n c1 where w: "pqsecure_write c bs = Some (n, c1)" using 1(2) True bs by (auto simp: bind_Some_iff)
      note g = pqsecure_write_progress [OF w]
      show ?thesis
      proof
        assume ok: "conn_ok c"
        obtain n' c1' where "pqsecure_write c bs = Some (n', c1')" "only_env c c1'" "conn_ok c1'"
          using pqsecure_write_spec [OF ok] by blast
        then have c1: "only_env c c1" "conn_ok c1" using w by auto
        have t: "through c c1" by (rule only_env_through [OF c1(1) g(2,3)])
        have go: "through c (snd (sender y)) \<and> progress (fst (sender y) > 0) (env c) (env (snd (sender y)))"
          if "loop p l m c2 = Some y" "conn_ok c2" "through c1 c2" "progress False (env c1) (env c2)" for p l m c2
        proof -
          have i: "through c2 (snd (sender y))" "progress (fst (sender y) > 0) (env c2) (env (snd (sender y)))"
            using 1(1) [OF that(1)] that(2) by simp_all
          show ?thesis using through_trans [OF t through_trans [OF that(3) i(1)]]
              progress_trans [OF g(1) progress_trans [OF that(4) i(2)]]
            by (auto intro: progress_mono)
        qed
        show "through c (snd (sender y)) \<and> progress (fst (sender y) > 0) (env c) (env (snd (sender y)))"
        proof (cases "n < 0 \<and> e_errno (env c1) = Some EINTR")
          case True
          then show ?thesis using 1(2) \<open>len > 0\<close> bs w go [of ptr len left c1] c1 by simp
        next
          case no_eintr: False
          let ?p = "if n < 0 then ptr else ptr + n" and ?l = "if n < 0 then len else len - n" and ?m = "if n < 0 then left else left - n"
          consider "n < 0" "e_errno (env c1) \<noteq> Some EAGAIN" | "n \<ge> 0 \<or> e_errno (env c1) = Some EAGAIN" by linarith
          then show ?thesis
          proof cases
            case 1
            then show ?thesis using \<open>_ = Some y\<close> \<open>len > 0\<close> bs w no_eintr t g(1) by (auto intro: progress_mono)
          next
            case 2
            then have n2: "\<not> (n < 0 \<and> e_errno (env c1) \<noteq> Some EAGAIN)" by auto
            have y: "(if ?l > 0 then
              (if nonblocking c1 then Some (Inr (1, ?p, ?m, c1))
               else Option.bind (pqReadData c1) (\<lambda>(r, conn).
                 if r < 0 then Some (Inr (- 1, ?p, ?m, conn))
                 else Option.bind (pqWait True True conn) (\<lambda>(r, conn).
                   if r \<noteq> 0 then Some (Inr (- 1, ?p, ?m, conn))
                   else loop ?p ?l ?m conn)))
            else Some (Inr (0, ?p, ?m, c1))) = Some y"
              using 1(2) \<open>len > 0\<close> bs w no_eintr n2 by (simp add: Let_def)
            show ?thesis
            proof (cases "?l > 0 \<and> \<not> nonblocking c1")
              case False
              then show ?thesis using y t g(1) len by (auto split: if_splits intro: progress_mono)
            next
              case True
              obtain r2 b2 c2 where r2: "pqReadData c1 = Some (r2, c2)" "read_in c1 b2 c2" using pqReadData_spec [OF c1(2)] by blast
              then have ok2: "conn_ok c2" by (simp add: read_in_def)
              obtain r3 c3 where r3: "pqWait True True c2 = Some (r3, c3)" "only_env c2 c3" "conn_ok c3" "same_io (env c2) (env c3)"
                using pqWait_spec [OF ok2] by blast
              have t2: "through c c2" using through_trans [OF t read_in_through [OF r2(2)]] .
              have p2: "progress False (env c1) (env c2)" using pqReadData_progress [OF r2(1) c1(2)] by (rule progress_mono) simp
              have t3: "through c1 c3"
                using through_trans [OF read_in_through [OF r2(2)] only_env_through [OF r3(2)]] r3(4) by (simp add: same_io_def)
              have p3: "progress False (env c1) (env c3)"
                using progress_trans [OF p2 pqWait_progress [OF r3(1)]] by (auto intro: progress_mono)
              have q: "progress False (env c) (env c2)" "progress False (env c) (env c3)"
                using progress_trans [OF g(1) p2] progress_trans [OF g(1) p3] by (auto intro: progress_mono)
              show ?thesis
              proof (cases "r2 < 0 \<or> r3 \<noteq> 0")
                case True
                then show ?thesis using y \<open>?l > 0 \<and> _\<close> r2(1) r3(1) t2 through_trans [OF t t3] q by (auto split: if_splits)
              next
                case False
                then have "loop ?p ?l ?m c3 = Some y" using y \<open>?l > 0 \<and> _\<close> r2(1) r3(1) by simp
                from go [OF this r3(3) t3 p3] show ?thesis .
              qed
            qed
          qed
        qed
      qed
    qed
  qed
  then show ?thesis using assms(2) by blast
qed

lemma pqSendSome_through:
  assumes "pqSendSome c len = Some (r, c')" "conn_ok c"
  shows "through c c' \<and> progress (r > 0) (env c) (env c')"
proof (cases "sock c < 0")
  case True
  obtain c1 where "printf_error c (lit ''connection not open'' @ [0x0A]) = Some c1" "only_env c c1" "same_net (env c) (env c1)" "conn_ok c1"
    by (rule printf_error_ok [OF assms(2), of "lit ''connection not open'' @ [0x0A]"]) simp
  then show ?thesis using assms(1) True same_events_steps [OF same_net_events] same_net_fields only_env_through
    by (auto simp: pqSendSome_def progress_def)
next
  case False
  then obtain y where y: "send_loop 0 len (outCount c) c = Some y" using assms(1) by (auto simp: pqSendSome_def bind_Some_iff)
  note t = send_loop_through [OF y assms(2)]
  show ?thesis
  proof (cases y)
    case (Inl c1)
    then show ?thesis using assms(1) False y t by (auto simp: pqSendSome_def)
  next
    case (Inr z)
    obtain r1 p n c1 where z: "z = (r1, p, n, c1)" by (cases z)
    then obtain b where "(r, c') = (r1, c1\<lparr>outBuffer := b, outCount := n\<rparr>)"
      using assms(1) False y Inr by (auto simp: pqSendSome_def bind_Some_iff)
    then show ?thesis using t Inr z by simp
  qed
qed

lemma pqFlush_through:
  assumes "pqFlush c = Some (r, c')" "conn_ok c"
  shows "through c c' \<and> progress (r > 0) (env c) (env c')"
  using assms pqSendSome_through by (auto simp: pqFlush_def split: if_splits)

lemma pqCheckOutBufferSpace_quiet:
  assumes "pqCheckOutBufferSpace n c = Some (r, c')" "conn_ok c"
  shows "only_out c c'" "same_events (env c) (env c')"
proof -
  obtain r' c1 where c1: "pqCheckOutBufferSpace n c = Some (r', c1)" "same_net (env c) (env c1)"
    "if r' = 0 then grown (outBuffer c) (outBufSize c) n (outBuffer c1) (outBufSize c1) \<and>
       c1 = c\<lparr>outBuffer := outBuffer c1, outBufSize := outBufSize c1, env := env c1\<rparr>
     else r' = EOF \<and> only_env c c1 \<and> (n \<le> 2147475456 \<longrightarrow> False \<in> set (oks (e_alloc (env c))))"
    using pqCheckOutBufferSpace_spec [OF assms(2)] by blast
  have "only_out c c1"
  proof (cases "r' = 0")
    case True
    then have "c1 = c\<lparr>outBuffer := outBuffer c1, outBufSize := outBufSize c1, env := env c1\<rparr>" using c1(3) by simp
    then show ?thesis by (cases c; cases c1; simp add: only_out_def)
  qed (use c1(3) frame_mono(2) in auto)
  then show "only_out c c'" "same_events (env c) (env c')" using assms(1) c1(1,2) same_net_events by auto
qed

text \<open>The functions that write into the output buffer touch neither the input nor the network.\<close>

definition put_quiet :: "pg_conn \<Rightarrow> pg_conn \<Rightarrow> bool" where
  "put_quiet c c' \<longleftrightarrow> only_out c c' \<and> same_events (env c) (env c')"

lemma put_quiet_trans: "put_quiet a b \<Longrightarrow> put_quiet b c \<Longrightarrow> put_quiet a c"
  using frame_trans(2) [of a b c] same_events_trans by (auto simp: put_quiet_def)

lemma put_quiet_through: "put_quiet c c' \<Longrightarrow> through c c'"
  by (auto simp: put_quiet_def same_events_def same_io_def intro: only_out_through)

lemma put_quiet_update [simp]: "put_quiet c (c'\<lparr>outBuffer := b\<rparr>) = put_quiet c c'" "put_quiet c (c'\<lparr>outMsgStart := i\<rparr>) = put_quiet c c'"
    "put_quiet c (c'\<lparr>outMsgEnd := i\<rparr>) = put_quiet c c'"
  unfolding put_quiet_def only_out_def by (cases c; cases c'; simp)+

lemma put_quiet_write: "put_quiet c c1 \<Longrightarrow> Option.bind w (\<lambda>b. Some (0, f b)) = Some (r, c') \<Longrightarrow> (\<And>b. put_quiet c (f b) = put_quiet c c1) \<Longrightarrow> put_quiet c c'"
  by (cases w) auto

lemma pqPutMsgStart_quiet:
  assumes "pqPutMsgStart t force_len c = Some (r, c')" "conn_ok c"
  shows "put_quiet c c'"
proof -
  let ?n = "let endPos = (if t \<noteq> 0 then outCount c + 1 else outCount c) in
    if force_len \<or> PG_PROTOCOL_MAJOR (pversion c) \<ge> 3 then endPos + 4 else endPos"
  let ?s = "if force_len \<or> PG_PROTOCOL_MAJOR (pversion c) \<ge> 3 then (if t \<noteq> 0 then outCount c + 1 else outCount c) else - 1"
  obtain r1 c1 where 1: "pqCheckOutBufferSpace (nat ?n) c = Some (r1, c1)"
    using assms(1) by (cases "pqCheckOutBufferSpace (nat ?n) c") (auto simp: pqPutMsgStart_def Let_def)
  have q: "put_quiet c c1" using pqCheckOutBufferSpace_quiet [OF 1 assms(2)] by (simp add: put_quiet_def)
  show ?thesis
  proof (cases "r1 = 0")
    case True
    then have "Option.bind (if t \<noteq> 0 then wr (outBuffer c1) (nat (outCount c1)) t else Some (outBuffer c1)) (\<lambda>buf.
      Some (0, c1\<lparr>outBuffer := buf, outMsgStart := ?s, outMsgEnd := ?n\<rparr>)) = Some (r, c')"
      using assms(1) 1 by (simp add: pqPutMsgStart_def Let_def)
    from put_quiet_write [OF q this] show ?thesis by simp
  next
    case False
    then show ?thesis using assms(1) 1 q by (simp add: pqPutMsgStart_def Let_def)
  qed
qed

lemma pqPutMsgBytes_quiet:
  assumes "pqPutMsgBytes bs c = Some (r, c')" "conn_ok c"
  shows "put_quiet c c'"
proof -
  let ?n = "szadd (nat (outMsgEnd c)) (length bs)"
  obtain r1 c1 where 1: "pqCheckOutBufferSpace ?n c = Some (r1, c1)"
    using assms(1) by (cases "pqCheckOutBufferSpace ?n c") (auto simp: pqPutMsgBytes_def)
  have q: "put_quiet c c1" using pqCheckOutBufferSpace_quiet [OF 1 assms(2)] by (simp add: put_quiet_def)
  show ?thesis
  proof (cases "r1 = 0")
    case True
    then have "Option.bind (wr_bytes (outBuffer c1) (nat (outMsgEnd c1)) bs) (\<lambda>buf.
      Some (0, c1\<lparr>outBuffer := buf, outMsgEnd := wrap32 (outMsgEnd c1 + int (length bs))\<rparr>)) = Some (r, c')"
      using assms(1) 1 by (simp add: pqPutMsgBytes_def)
    from put_quiet_write [OF q this] show ?thesis by simp
  next
    case False
    then show ?thesis using assms(1) 1 q by (simp add: pqPutMsgBytes_def)
  qed
qed

lemma put_field_quiet: "put_field f c = Some (r, c') \<Longrightarrow> conn_ok c \<Longrightarrow> put_quiet c c'"
  by (cases f) (auto simp: pqPutInt_def pqPuts_def pqPutnchar_def pqPutc_def bind_Some_iff dest: pqPutMsgBytes_quiet)

lemma pqPutMsgEnd_through:
  assumes "pqPutMsgEnd c = Some (r, c')" "conn_ok c" "msg_ok c"
  shows "through c c' \<and> fewer (env c) (env c')"
proof -
  obtain b where b: "(if outMsgStart c \<ge> 0 then wr_bytes (outBuffer c) (nat (outMsgStart c)) (be_bytes 4 (outMsgEnd c - outMsgStart c))
       else Some (outBuffer c)) = Some b"
    using assms(1) unfolding pqPutMsgEnd_def by (auto simp only: bind_Some_iff)
  let ?c = "c\<lparr>outBuffer := b, outCount := outMsgEnd c\<rparr>"
  have len: "length b = length (outBuffer c)" using b by (auto simp: wr_bytes_def split: if_splits)
  have ok: "conn_ok ?c" using assms(2) len msg_okD [OF assms(2,3)] by (auto simp: conn_ok_def in_ok_def out_ok_def)
  have t: "through c ?c" by simp
  show ?thesis
  proof (cases "outMsgEnd c \<ge> 8192")
    case True
    then obtain r1 where "pqSendSome ?c (outMsgEnd c - outMsgEnd c mod 8192) = Some (r1, c')"
      using assms(1) b by (auto simp: pqPutMsgEnd_def Let_def bind_Some_iff)
    from pqSendSome_through [OF this ok] show ?thesis using through_trans [OF t] by (simp add: progress_def)
  next
    case False
    then have "c' = ?c" using assms(1) b by (simp add: pqPutMsgEnd_def Let_def)
    then show ?thesis using t by simp
  qed
qed


section \<open>What the client keeps\<close>

text \<open>
  The invariant of the client between the calls of the application. The rows there are, those in the input and those the network
  can still deliver stay below the number at which the array of rows no longer fits in 32 bits.
\<close>

definition client_ok :: "pg_conn \<Rightarrow> bool" where
  "client_ok c \<longleftrightarrow> parser_ok c \<and> state_ok c \<and> load c + int (length (stream (env c))) < 3758096384"

lemma client_okD: "client_ok c \<Longrightarrow> conn_ok c" "client_ok c \<Longrightarrow> parser_ok c" "client_ok c \<Longrightarrow> state_ok c" "client_ok c \<Longrightarrow> results_ok c"
  by (simp_all add: client_ok_def state_ok_def parser_ok_def)

lemma only_io_more:
  assumes "only_io c c'"
  shows "curTuple c' = curTuple c" "queryclass c' = queryclass c" "client_encoding c' = client_encoding c" "verbosity c' = verbosity c"
    "last_query c' = last_query c" "notifies c' = notifies c" "pstatus c' = pstatus c"
  using assms unfolding only_io_def by (cases c; cases c'; simp)+

lemma in_data_length:
  assumes "conn_ok c"
  shows "int (length (in_data c)) = inEnd c - inStart c"
proof -
  have i: "0 \<le> inStart c" "inStart c \<le> inEnd c" using in_okD [OF conn_okD(1) [OF assms]] by auto
  have f: "length (filled c) = nat (inEnd c)" "in_data c = drop (nat (inStart c)) (filled c)"
    using filled_length [OF conn_okD(1) [OF assms]] in_data_filled [OF conn_okD(1) [OF assms]] by auto
  then show ?thesis using i by simp
qed

lemma through_client_ok:
  assumes "client_ok c" "through c c'" "conn_ok c'"
  shows "client_ok c'"
proof -
  note t = assms(2) [unfolded through_def]
  have io: "only_io c c'" using t by blast
  obtain bs where bs: "in_data c' = in_data c @ bs" "stream (env c) = bs @ stream (env c')" using t by blast
  have p: "parser_ok c" "state_ok c" using assms(1) by (simp_all add: client_ok_def)
  have s: "state_ok c'" using p(2) assms(3) only_io_more [OF io] by (simp add: state_ok_def)
  have r: "rows_of c' = rows_of c" "results_ok c'" "row_started c"
    using p(1) only_io_fields [OF io] only_io_more [OF io] by (simp_all add: parser_ok_def results_ok_def rows_of_def)
  have "row_started c'" by (rule row_started_append [OF r(3) bs(1)]) (use only_io_fields [OF io] only_io_more [OF io] in simp_all)
  moreover have l: "load c' = load c + int (length bs)"
    using in_data_length [OF assms(3)] in_data_length [OF client_okD(1) [OF assms(1)]] r(1) bs(1) by (simp add: load_def)
  moreover have "load c' + int (length (stream (env c'))) < 3758096384" using assms(1) l bs(2) by (simp add: client_ok_def)
  ultimately show ?thesis using s r(2) state_ok_rewind [OF s] by (simp add: client_ok_def parser_ok_def load_def)
qed

lemma pqReadData_client:
  assumes "client_ok c"
  shows "\<exists>r c'. pqReadData c = Some (r, c') \<and> client_ok c' \<and> through c c' \<and> progress (r \<ge> 0) (env c) (env c')"
proof -
  obtain r bs c' where r: "pqReadData c = Some (r, c')" "read_in c bs c'" using pqReadData_spec [OF client_okD(1) [OF assms]] by blast
  have t: "through c c'" "conn_ok c'" using r(2) read_in_through by (auto simp: read_in_def)
  show ?thesis using r(1) through_client_ok [OF assms t] t(1) pqReadData_progress [OF r(1) client_okD(1) [OF assms]] by blast
qed

lemma pqWait_client:
  assumes "client_ok c" "fr \<or> fw"
  shows "\<exists>r c'. pqWait fr fw c = Some (r, c') \<and> client_ok c' \<and> through c c' \<and> progress False (env c) (env c') \<and> (r = 0 \<or> r = EOF)"
proof -
  obtain r c' where r: "pqWait fr fw c = Some (r, c')" "r = 0 \<or> r = EOF" "only_env c c'" "conn_ok c'" "same_io (env c) (env c')"
    using pqWait_spec [OF client_okD(1) [OF assms(1)]] by blast
  have t: "through c c'" using only_env_through [OF r(3)] r(5) by (simp add: same_io_def)
  show ?thesis using r(1,2) through_client_ok [OF assms(1) t r(4)] t pqWait_progress [OF r(1) assms(2)] by blast
qed

lemma pqFlush_client:
  assumes "client_ok c"
  shows "\<exists>r c'. pqFlush c = Some (r, c') \<and> client_ok c' \<and> through c c' \<and> progress (r > 0) (env c) (env c') \<and>
    send_answer c (length (pending c)) r c'"
proof -
  obtain r c' where r: "pqFlush c = Some (r, c')" "send_answer c (length (pending c)) r c'" using pqFlush_spec [OF client_okD(1) [OF assms]] by blast
  then have "conn_ok c'" by (simp add: send_answer_def)
  then show ?thesis using r through_client_ok [OF assms] pqFlush_through [OF r(1) client_okD(1) [OF assms]] by blast
qed

text \<open>Parsing: it leaves the network alone and comes to a state in which the client may go on.\<close>

lemma parse_client:
  assumes "client_ok c" "verbosity c = PQERRORS_TERSE"
  shows "\<exists>c'. pqParseInput3 c = Some c' \<and> client_ok c' \<and> net_frame c c' \<and> (\<exists>ms. list_all is_message ms \<and> in_data c = concat ms @ in_data c')"
proof -
  have "ensures (pqParseInput3 c) (loop_post c)"
    by (rule parse_loop_ensures) (use assms terse_next_display_ok in \<open>auto simp: client_ok_def\<close>)
  then obtain c' where c': "pqParseInput3 c = Some c'" "loop_post c c'" by (auto simp: ensures_def)
  then have l: "parser_ok c'" "state_ok c'" "net_frame c c'" "load c' \<le> load c" by (simp_all add: loop_post_def)
  then have "stream (env c') = stream (env c)" by (simp add: net_frame_def same_events_def same_io_def stream_def)
  then have "client_ok c'" using assms(1) l by (simp add: client_ok_def)
  then show ?thesis using c' l(3) by (auto simp: loop_post_def)
qed

end
