(* ===== verification/Sending.thy ===== *)
theory Sending
  imports Exec Progress ParseQuery
begin

text \<open>
  What the functions of \<open>fe-exec.c\<close> that send a command put on the wire.

  Two contracts carry the proofs: \<open>part_writer\<close>, an operation that adds bytes to the message under construction, and
  \<open>message_sender\<close>, an operation that hands whole messages to the output. Both are closed under the chains \<open>f < 0 || g < 0 || \<dots>\<close>
  of the code, so that the messages of every command are read off its definition.
\<close>

section \<open>Parts of a message\<close>

locale part_writer =
  fixes put :: "pg_conn \<Rightarrow> (int \<times> pg_conn) option"
    and bytes :: "byte list"
  assumes writes: "conn_ok c \<Longrightarrow> msg_ok c \<Longrightarrow>
    \<exists>r c'. put c = Some (r, c') \<and> conn_ok c' \<and> put_quiet c c' \<and> (if r = 0 then built c bytes c'
      else r = EOF \<and> e_sent (env c') = e_sent (env c) \<and> pending c' = pending c)"
begin

text \<open>The next operation is tried when the answer does not count as a failure.\<close>

lemma then_writer:
  assumes "part_writer put2 bytes2" "\<not> failed 0" "failed EOF"
  shows "part_writer (\<lambda>c. do { (r, c) \<leftarrow> put c; if failed r then Some (EOF, c) else put2 c }) (bytes @ bytes2)"
proof
  fix c assume c: "conn_ok c" "msg_ok c"
  obtain r c1 where 1: "put c = Some (r, c1)" "conn_ok c1" "put_quiet c c1" "if r = 0 then built c bytes c1
      else r = EOF \<and> e_sent (env c1) = e_sent (env c) \<and> pending c1 = pending c" using writes [OF c] by blast
  show "\<exists>r c'. (do { (r, c) \<leftarrow> put c; if failed r then Some (EOF, c) else put2 c }) = Some (r, c') \<and> conn_ok c' \<and> put_quiet c c' \<and>
      (if r = 0 then built c (bytes @ bytes2) c' else r = EOF \<and> e_sent (env c') = e_sent (env c) \<and> pending c' = pending c)"
  proof (cases "r = 0")
    case True
    then have b: "built c bytes c1" "msg_ok c1" using 1(4) by (auto simp: built_def)
    obtain r2 c2 where 2: "put2 c1 = Some (r2, c2)" "conn_ok c2" "put_quiet c1 c2" "if r2 = 0 then built c1 bytes2 c2
      else r2 = EOF \<and> e_sent (env c2) = e_sent (env c1) \<and> pending c2 = pending c1" using part_writer.writes [OF assms(1) 1(2) b(2)] by blast
    then show ?thesis using 1(1) True assms(2) put_quiet_trans [OF 1(3) 2(3)] built_trans [OF b(1)] b(1) by (auto simp: built_def split: if_splits)
  next
    case False
    then have "failed r" "r = EOF" using 1(4) assms(3) by simp_all
    then show ?thesis using 1 False by (simp add: EOF_def)
  qed
qed

end

lemma put_nothing: "part_writer (\<lambda>c. Some (0, c)) []"
  by unfold_locales (auto simp: built_def put_quiet_def same_events_def same_io_def)

lemma field_part:
  assumes "short_field f"
  shows "part_writer (put_field f) (field_bytes f)"
proof
  fix c assume c: "conn_ok c" "msg_ok c"
  obtain r c' where r: "put_field f c = Some (r, c')" "if r = 0 then built c (field_bytes f) c' else r = EOF \<and> unbuilt c c'"
    using message_writer.appends [OF put_field_writer [OF assms] c] by blast
  then show "\<exists>r c'. put_field f c = Some (r, c') \<and> conn_ok c' \<and> put_quiet c c' \<and> (if r = 0 then built c (field_bytes f) c'
      else r = EOF \<and> e_sent (env c') = e_sent (env c) \<and> pending c' = pending c)"
    using put_field_quiet [OF r(1) c(1)] by (auto simp: built_def unbuilt_def pending_def only_env_fields split: if_splits)
qed

text \<open>The functions of \<open>fe-misc.c\<close>, for arguments that fit in an \<open>int\<close>.\<close>

interpretation put_char: part_writer "pqPutc b" "[b]" for b
  using field_part [of "Char b"] by (simp add: short_field_def)

interpretation put_int2: part_writer "pqPutInt v 2" "be_bytes 2 v" for v
  using field_part [of "Int2 v"] by (simp add: short_field_def)

interpretation put_int4: part_writer "pqPutInt v 4" "be_bytes 4 v" for v
  using field_part [of "Int4 v"] by (simp add: short_field_def)

lemma put_string: "length s + 1 < 2 ^ 31 \<Longrightarrow> part_writer (pqPuts s) (s @ [0])"
  using field_part [of "Str s"] by (simp add: short_field_def)

lemma put_block: "length s < 2 ^ 31 \<Longrightarrow> part_writer (pqPutnchar s) s"
  using field_part [of "Bytes s"] by (simp add: short_field_def)

lemma put_all_parts: "list_all2 part_writer ws bs \<Longrightarrow> part_writer (put_all ws) (concat bs)"
proof (induction rule: list_all2_induct)
  case Nil
  then show ?case using put_nothing by (simp add: part_writer_def)
next
  case (Cons w ws b bs)
  have "part_writer (\<lambda>c. do { (r, c) \<leftarrow> w c; if r \<noteq> 0 then Some (EOF, c) else put_all ws c }) (b @ concat bs)"
    by (rule part_writer.then_writer [OF Cons.hyps(1) Cons.IH, where failed = "\<lambda>r. r \<noteq> 0"]) (simp_all add: EOF_def)
  then show ?case by (simp add: part_writer_def)
qed


section \<open>Whole messages\<close>

definition client_message :: "byte \<Rightarrow> byte list \<Rightarrow> byte list" where
  "client_message t body = t # be_bytes 4 (4 + int (length body)) @ body"

locale message_sender =
  fixes put :: "pg_conn \<Rightarrow> (int \<times> pg_conn) option"
    and bytes :: "byte list"
  assumes sends: "conn_ok c \<Longrightarrow> PG_PROTOCOL_MAJOR (pversion c) \<ge> 3 \<Longrightarrow>
    \<exists>r c'. put c = Some (r, c') \<and> conn_ok c' \<and> through c c' \<and> fewer (env c) (env c') \<and>
      (if r = 0 then e_sent (env c') @ pending c' = e_sent (env c) @ pending c @ bytes
       else r = EOF \<and> (\<exists>k. e_sent (env c') = e_sent (env c) @ take k (pending c @ bytes)))"
begin

lemma then_sender:
  assumes "message_sender put2 bytes2"
  shows "message_sender (\<lambda>c. do { (r, c) \<leftarrow> put c; if r \<noteq> 0 then Some (EOF, c) else put2 c }) (bytes @ bytes2)"
proof
  fix c assume c: "conn_ok c" "PG_PROTOCOL_MAJOR (pversion c) \<ge> 3"
  obtain r c1 where 1: "put c = Some (r, c1)" "conn_ok c1" "through c c1" "fewer (env c) (env c1)"
    "if r = 0 then e_sent (env c1) @ pending c1 = e_sent (env c) @ pending c @ bytes
       else r = EOF \<and> (\<exists>k. e_sent (env c1) = e_sent (env c) @ take k (pending c @ bytes))" using sends [OF c] by blast
  show "\<exists>r c'. (do { (r, c) \<leftarrow> put c; if r \<noteq> 0 then Some (EOF, c) else put2 c }) = Some (r, c') \<and> conn_ok c' \<and> through c c' \<and> fewer (env c) (env c') \<and>
      (if r = 0 then e_sent (env c') @ pending c' = e_sent (env c) @ pending c @ bytes @ bytes2
       else r = EOF \<and> (\<exists>k. e_sent (env c') = e_sent (env c) @ take k (pending c @ bytes @ bytes2)))"
  proof (cases "r = 0")
    case True
    then have e: "e_sent (env c1) @ pending c1 = e_sent (env c) @ pending c @ bytes" using 1(5) by simp
    have "pversion c1 = pversion c" using 1(3) only_io_fields by (auto simp: through_def)
    then obtain r2 c2 where 2: "put2 c1 = Some (r2, c2)" "conn_ok c2" "through c1 c2" "fewer (env c1) (env c2)"
      "if r2 = 0 then e_sent (env c2) @ pending c2 = e_sent (env c1) @ pending c1 @ bytes2
       else r2 = EOF \<and> (\<exists>k. e_sent (env c2) = e_sent (env c1) @ take k (pending c1 @ bytes2))"
      using message_sender.sends [OF assms 1(2)] c(2) by auto
    have all: "e_sent (env c1) @ pending c1 @ bytes2 = e_sent (env c) @ pending c @ bytes @ bytes2" using e by simp
    have "\<exists>k. e_sent (env c2) = e_sent (env c) @ take k (pending c @ bytes @ bytes2)"
      if s2: "e_sent (env c2) = e_sent (env c1) @ take k (pending c1 @ bytes2)" for k
    proof -
      obtain s where s: "e_sent (env c2) = e_sent (env c) @ s" using through_trans [OF 1(3) 2(3)] by (auto simp: through_def)
      have "e_sent (env c2) @ drop k (pending c1 @ bytes2) = e_sent (env c) @ pending c @ bytes @ bytes2" unfolding s2 append.assoc append_take_drop_id all ..
      then have "s @ drop k (pending c1 @ bytes2) = pending c @ bytes @ bytes2" unfolding s by simp
      then have "s = take (length s) (pending c @ bytes @ bytes2)" by (metis append_eq_conv_conj)
      then show ?thesis using s by metis
    qed
    then show ?thesis using 1(1) True 2 through_trans [OF 1(3) 2(3)] fewer_trans [OF 1(4) 2(4)] all by (auto split: if_splits)
  next
    case False
    then obtain k where "e_sent (env c1) = e_sent (env c) @ take k (pending c @ bytes)" using 1(5) by auto
    then have "e_sent (env c1) = e_sent (env c) @ take (min k (length (pending c @ bytes))) (pending c @ bytes @ bytes2)"
      by (simp add: min_def)
    then have "\<exists>k. e_sent (env c1) = e_sent (env c) @ take k (pending c @ bytes @ bytes2)" by blast
    then show ?thesis using 1(1-4) False by (simp add: EOF_def del: take_append)
  qed
qed

end

text \<open>A message written by its parts, as every caller writes one.\<close>

lemma pqPutMsgEnd_answer: "pqPutMsgEnd c = Some (r, c') \<Longrightarrow> r = 0 \<or> r = EOF"
  by (auto simp: pqPutMsgEnd_def Let_def bind_Some_iff split: if_splits)

lemma put_all_append:
  "put_all (fs @ gs) c = Option.bind (put_all fs c) (\<lambda>(r, c). if r \<noteq> 0 then Some (EOF, c) else put_all gs c)"
proof (induction fs arbitrary: c)
  case (Cons f fs)
  then show ?case by (cases "f c") (auto simp: EOF_def)
qed simp

lemma message_parts:
  assumes "list_all2 part_writer ws bs" "t \<noteq> 0"
  shows "message_sender (put_all (pqPutMsgStart t False # ws @ [pqPutMsgEnd])) (client_message t (concat bs))"
proof
  fix c assume c: "conn_ok c" "PG_PROTOCOL_MAJOR (pversion c) \<ge> 3"
  let ?msg = "client_message t (concat bs)"
  obtain r c1 where raw: "pqPutMsgStart t False c = Some (r, c1)"
    "if r = 0 then conn_ok c1 \<and> msg_ok c1 \<and> only_out c c1 \<and> outCount c1 = outCount c \<and> pending c1 = pending c \<and>
       e_sent (env c1) = e_sent (env c) \<and> outMsgStart c1 = (if False \<or> PG_PROTOCOL_MAJOR (pversion c) \<ge> 3
         then outCount c + int (if t \<noteq> 0 then 1 else 0) else - 1) \<and>
       length (msg_bytes c1) = (if t \<noteq> 0 then 1 else 0) + (if False \<or> PG_PROTOCOL_MAJOR (pversion c) \<ge> 3 then 4 else 0) \<and>
       take (if t \<noteq> 0 then 1 else 0) (msg_bytes c1) = take (if t \<noteq> 0 then 1 else 0) [t]
     else r = EOF \<and> unbuilt c c1"
    using pqPutMsgStart_spec [OF c(1), of t False] by blast
  have q: "put_quiet c c1" by (rule pqPutMsgStart_quiet [OF raw(1) c(1)])
  have qf: "through c x" "fewer (env c) (env x)" if "put_quiet c x" for x
    using put_quiet_through [OF that] same_events_steps that by (auto simp: put_quiet_def)
  show "\<exists>r c'. put_all (pqPutMsgStart t False # ws @ [pqPutMsgEnd]) c = Some (r, c') \<and> conn_ok c' \<and> through c c' \<and> fewer (env c) (env c') \<and>
      (if r = 0 then e_sent (env c') @ pending c' = e_sent (env c) @ pending c @ ?msg
       else r = EOF \<and> (\<exists>k. e_sent (env c') = e_sent (env c) @ take k (pending c @ ?msg)))"
  proof (cases "r = 0")
    case False
    then show ?thesis using raw qf [OF q] by (auto simp: unbuilt_def EOF_def intro: exI [of _ 0])
  next
    case True
    then have c1: "conn_ok c1" "msg_ok c1" "outCount c1 = outCount c" "pending c1 = pending c" "e_sent (env c1) = e_sent (env c)"
      "outMsgStart c1 = outCount c + 1" "length (msg_bytes c1) = 1 + 4" "take 1 (msg_bytes c1) = [t]" using raw(2) c(2) assms(2) by auto
    obtain r2 c2 where 2: "put_all ws c1 = Some (r2, c2)" "conn_ok c2" "put_quiet c1 c2" "if r2 = 0 then built c1 (concat bs) c2
       else r2 = EOF \<and> e_sent (env c2) = e_sent (env c1) \<and> pending c2 = pending c1"
      using part_writer.writes [OF put_all_parts [OF assms(1)] c1(1,2)] by blast
    have q2: "put_quiet c c2" by (rule put_quiet_trans [OF q 2(3)])
    show ?thesis
    proof (cases "r2 = 0")
      case False
      then show ?thesis using raw(1) True 2 c1 qf [OF q2] by (auto simp: put_all_append EOF_def intro: exI [of _ 0])
    next
      case ok2: True
      then have b: "msg_ok c2" "outCount c2 = outCount c" "pending c2 = pending c" "e_sent (env c2) = e_sent (env c)"
        "outMsgStart c2 = outCount c + 1" "msg_bytes c2 = msg_bytes c1 @ concat bs"
        using 2(4) c1 by (auto simp: built_def)
      have "0 \<le> outCount c" using out_okD [OF conn_okD(2) [OF c(1)]] by simp
      then have fr: "framed (msg_bytes c2) (if outMsgStart c2 = - 1 then - 1 else outMsgStart c2 - outCount c2) = ?msg"
        using framed_message [OF c1(7,8), of "concat bs"] by (simp add: b client_message_def)
      obtain r3 c3 where 3: "pqPutMsgEnd c2 = Some (r3, c3)" "conn_ok c3"
        "if r3 = 0 then e_sent (env c3) @ pending c3 = e_sent (env c2) @ pending c2 @ ?msg
         else r3 = EOF \<and> (\<exists>k. e_sent (env c3) = e_sent (env c2) @ take k (pending c2 @ ?msg))"
        using pqPutMsgEnd_spec [OF 2(2) b(1)] unfolding fr by blast
      note e = pqPutMsgEnd_through [OF 3(1) 2(2) b(1)]
      have t: "through c c3" "fewer (env c) (env c3)" using through_trans [OF qf(1) [OF q2]] fewer_trans [OF qf(2) [OF q2]] e by auto
      have run: "put_all (pqPutMsgStart t False # ws @ [pqPutMsgEnd]) c = Some (if r3 \<noteq> 0 then EOF else 0, c3)"
        using raw(1) True 2(1) ok2 3(1) by (simp add: put_all_append)
      show ?thesis using run t 3(2,3) pqPutMsgEnd_answer [OF 3(1)] b(3,4) by (auto simp: EOF_def)
    qed
  qed
qed

lemma message_chain:
  assumes "message_sender (put_all fs) bs" "message_sender (put_all gs) cs"
  shows "message_sender (put_all (fs @ gs)) (bs @ cs)"
  using message_sender.then_sender [OF assms] by (simp add: put_all_append [abs_def])

interpretation sync: message_sender "put_all [pqPutMsgStart 0x53 False, pqPutMsgEnd]" "client_message 0x53 []"
  using message_parts [where ws = "[]" and bs = "[]" and t = "0x53"] by simp

interpretation describe_portal:
  message_sender "put_all [pqPutMsgStart 0x44 False, pqPutc 0x50, pqPuts [], pqPutMsgEnd]" "client_message 0x44 [0x50, 0]"
  using message_parts [where ws = "[pqPutc 0x50, pqPuts []]" and bs = "[[0x50], [0]]" and t = "0x44"] put_char.part_writer_axioms put_string [of "[]"] by simp

interpretation execute_portal:
  message_sender "put_all [pqPutMsgStart 0x45 False, pqPuts [], pqPutInt 0 4, pqPutMsgEnd]" "client_message 0x45 (0 # be_bytes 4 0)"
  using message_parts [where ws = "[pqPuts [], pqPutInt 0 4]" and bs = "[[0], be_bytes 4 0]" and t = "0x45"] put_int4.part_writer_axioms put_string [of "[]"] by simp



section \<open>The arguments of the application\<close>

definition array_fits :: "int \<Rightarrow> int list option \<Rightarrow> bool" where
  "array_fits n arr \<longleftrightarrow> (case arr of None \<Rightarrow> True | Some vs \<Rightarrow> nat n \<le> length vs)"

definition enc_array :: "nat \<Rightarrow> int \<Rightarrow> int list option \<Rightarrow> byte list" where
  "enc_array width n arr =
     (case arr of
        Some vs \<Rightarrow> if n > 0 then be_bytes 2 n @ concat (map (be_bytes width) (take (nat n) vs)) else be_bytes 2 0
      | None \<Rightarrow> be_bytes 2 0)"

lemma put_int_part: "w = 2 \<or> w = 4 \<Longrightarrow> part_writer (pqPutInt v w) (be_bytes w v)"
  using put_int2.part_writer_axioms put_int4.part_writer_axioms by auto

lemma put_ints_part:
  "w = 2 \<or> w = 4 \<Longrightarrow> i + n \<le> length vs \<Longrightarrow> part_writer (put_ints w vs i n) (concat (map (be_bytes w) (take n (drop i vs))))"
proof (induction n arbitrary: i)
  case 0
  then show ?case using put_nothing by (simp add: part_writer_def)
next
  case (Suc n)
  then have "part_writer (put_ints w vs (i + 1) n) (concat (map (be_bytes w) (take n (drop (i + 1) vs))))" by simp
  from part_writer.then_writer [OF put_int_part [OF Suc.prems(1), of "vs ! i"] this, where failed = "\<lambda>r. r < 0"]
  have "part_writer (\<lambda>c. do { (r, c) \<leftarrow> pqPutInt (vs ! i) w c; if r < 0 then Some (EOF, c) else put_ints w vs (i + 1) n c })
      (be_bytes w (vs ! i) @ concat (map (be_bytes w) (take n (drop (i + 1) vs))))" by (simp add: EOF_def)
  moreover have "drop i vs = vs ! i # drop (i + 1) vs" using Suc.prems(2) by (simp add: Cons_nth_drop_Suc)
  ultimately show ?case using Suc.prems(2) by (simp add: part_writer_def rd_def)
qed

lemma put_array_part:
  assumes "w = 2 \<or> w = 4" "array_fits n arr"
  shows "part_writer (put_array w n arr) (enc_array w n arr)"
proof (cases "\<exists>vs. arr = Some vs \<and> n > 0")
  case False
  then show ?thesis using put_int2.part_writer_axioms by (auto simp: put_array_def enc_array_def split: option.splits)
next
  case True
  then obtain vs where vs: "arr = Some vs" "n > 0" "nat n \<le> length vs" using assms(2) by (auto simp: array_fits_def)
  have "part_writer (put_all [pqPutInt n 2, put_ints w vs 0 (nat n)]) (concat [be_bytes 2 n, concat (map (be_bytes w) (take (nat n) vs))])"
    by (rule put_all_parts) (use put_int2.part_writer_axioms put_ints_part [OF assms(1), of 0 "nat n" vs] vs(3) in simp)
  then show ?thesis using vs by (simp add: put_array_def enc_array_def)
qed

text \<open>A parameter as the application means it: \<open>NULL\<close>, a text, or bytes.\<close>

definition is_binary :: "int list option \<Rightarrow> nat \<Rightarrow> bool" where
  "is_binary formats i \<longleftrightarrow> (case formats of None \<Rightarrow> False | Some fs \<Rightarrow> fs ! i \<noteq> 0)"

definition param_value :: "byte list option list option \<Rightarrow> int list option \<Rightarrow> int list option \<Rightarrow> nat \<Rightarrow> byte list option" where
  "param_value values lengths formats i =
     (case values of
        None \<Rightarrow> None
      | Some vs \<Rightarrow> map_option (\<lambda>v. if is_binary formats i then take (nat (the lengths ! i)) v else c_str v) (vs ! i))"

definition param_fits :: "byte list option list option \<Rightarrow> int list option \<Rightarrow> int list option \<Rightarrow> nat \<Rightarrow> bool" where
  "param_fits values lengths formats i \<longleftrightarrow>
     (case values of
        None \<Rightarrow> True
      | Some vs \<Rightarrow> i < length vs \<and> (case vs ! i of
          None \<Rightarrow> True
        | Some v \<Rightarrow> (case formats of None \<Rightarrow> True | Some fs \<Rightarrow> i < length fs) \<and> length v < 2 ^ 31 \<and>
            (if is_binary formats i then \<exists>ls. lengths = Some ls \<and> i < length ls \<and> 0 \<le> ls ! i \<and> nat (ls ! i) \<le> length v else 0 \<in> set v)))"

lemma c_str_length: "0 \<in> set v \<Longrightarrow> length (c_str v) \<le> length v"
  using c_str_lt [of v] by simp

lemma put_param_part:
  assumes "param_fits values lengths formats i"
  shows "part_writer (put_param values lengths formats i) (enc_value (param_value values lengths formats i))"
proof (cases "\<exists>vs v. values = Some vs \<and> vs ! i = Some v")
  case False
  then have "put_param values lengths formats i = pqPutInt (- 1) 4" "enc_value (param_value values lengths formats i) = be_bytes 4 (- 1)"
    using assms by (auto simp: put_param_def param_fits_def param_value_def enc_value_def rd_def fun_eq_iff split: option.splits)
  then show ?thesis using put_int4.part_writer_axioms by simp
next
  case True
  then obtain vs v where v: "values = Some vs" "vs ! i = Some v" "i < length vs" "length v < 2 ^ 31"
    "case formats of None \<Rightarrow> True | Some fs \<Rightarrow> i < length fs"
    "if is_binary formats i then \<exists>ls. lengths = Some ls \<and> i < length ls \<and> 0 \<le> ls ! i \<and> nat (ls ! i) \<le> length v else 0 \<in> set v"
    using assms by (auto simp: param_fits_def)
  obtain b where b: "param_value values lengths formats i = Some b" "param_length lengths formats i v = Some (Some (int (length b)))"
    "length b \<le> length v" "take (length b) v = b"
  proof -
    let ?b = "if is_binary formats i then take (nat (the lengths ! i)) v else c_str v"
    have le: "0 \<in> set v \<Longrightarrow> int (length (c_str v)) < 2147483648" using c_str_length [of v] v(4) by simp
    have "param_length lengths formats i v = Some (Some (int (length ?b)))" "length ?b \<le> length v" "take (length ?b) v = ?b"
      using v(4-6) le
      by (auto simp: param_length_def is_binary_def rd_def c_strlen_def c_str_length c_str_take min_def wrap32_id split: option.splits if_splits)
    moreover have "param_value values lengths formats i = Some ?b" using v(1,2) by (simp add: param_value_def)
    ultimately show thesis using that by blast
  qed
  have put: "put_param values lengths formats i =
      (\<lambda>c. do { (r, c) \<leftarrow> pqPutInt (int (length b)) 4 c; if r < 0 then Some (EOF, c) else pqPutnchar b c })"
    using v(1-3) b(2-4) by (simp add: put_param_def rd_def rd_bytes_def fun_eq_iff cong: if_cong)
  have "part_writer (pqPutnchar b) b" using b(3) v(4) by (intro put_block) linarith
  from part_writer.then_writer [OF put_int4.part_writer_axioms this, where failed = "\<lambda>r. r < 0"]
  show ?thesis by (simp add: put b(1) enc_value_def EOF_def)
qed

lemma put_params_part:
  "\<forall>j < i + n. param_fits values lengths formats j \<Longrightarrow>
    part_writer (put_params values lengths formats i n) (concat (map (\<lambda>j. enc_value (param_value values lengths formats j)) [i..<i + n]))"
proof (induction n arbitrary: i)
  case 0
  then show ?case using put_nothing by (simp add: part_writer_def)
next
  case (Suc n)
  have "part_writer (put_params values lengths formats (i + 1) n) (concat (map (\<lambda>j. enc_value (param_value values lengths formats j)) [i + 1..<i + 1 + n]))"
    using Suc.prems by (intro Suc.IH) simp
  moreover have "param_fits values lengths formats i" using Suc.prems by simp
  ultimately have "part_writer (\<lambda>c. do { (r, c) \<leftarrow> put_param values lengths formats i c; if r < 0 then Some (EOF, c)
      else put_params values lengths formats (i + 1) n c })
    (enc_value (param_value values lengths formats i) @ concat (map (\<lambda>j. enc_value (param_value values lengths formats j)) [i + 1..<i + 1 + n]))"
    by (intro part_writer.then_writer [OF put_param_part, where failed = "\<lambda>r. r < 0"]) (simp_all add: EOF_def)
  moreover have "put_params values lengths formats i (Suc n) = (\<lambda>c. do { (r, c) \<leftarrow> put_param values lengths formats i c; if r < 0 then Some (EOF, c)
      else put_params values lengths formats (i + 1) n c })" by (simp add: fun_eq_iff)
  moreover have "[i..<i + Suc n] = i # [i + 1..<i + 1 + n]" by (simp add: upt_conv_Cons del: upt_Suc)
  ultimately show ?case by (simp only: list.map concat.simps)
qed

text \<open>The messages of the extended protocol for one command.\<close>

definition command_messages ::
  "byte list option \<Rightarrow> byte list \<Rightarrow> int \<Rightarrow> int list option \<Rightarrow> byte list option list option \<Rightarrow> int list option \<Rightarrow> int list option \<Rightarrow> int \<Rightarrow> byte list" where
  "command_messages command stmt n types values lengths formats res_format =
     (case command of None \<Rightarrow> [] | Some q \<Rightarrow> client_message 0x50 (stmt @ 0 # q @ 0 # enc_array 4 n types)) @
     client_message 0x42 (0 # stmt @ 0 # enc_array 2 n formats @ be_bytes 2 n @
       concat (map (\<lambda>i. enc_value (param_value values lengths formats i)) [0..<nat n]) @ be_bytes 2 1 @ be_bytes 2 res_format) @
     client_message 0x44 [0x50, 0] @ client_message 0x45 (0 # be_bytes 4 0) @ client_message 0x53 []"

definition command_fits ::
  "byte list option \<Rightarrow> byte list \<Rightarrow> int \<Rightarrow> int list option \<Rightarrow> byte list option list option \<Rightarrow> int list option \<Rightarrow> int list option \<Rightarrow> bool" where
  "command_fits command stmt n types values lengths formats \<longleftrightarrow>
     (\<forall>q. command = Some q \<longrightarrow> length q + 1 < 2 ^ 31) \<and> length stmt + 1 < 2 ^ 31 \<and> array_fits n types \<and> array_fits n formats \<and>
     (\<forall>i < nat n. param_fits values lengths formats i)"

lemma command_sender:
  assumes "command_fits command stmt n types values lengths formats"
  shows "message_sender (put_all (
      (case command of
         None \<Rightarrow> []
       | Some q \<Rightarrow> [pqPutMsgStart 0x50 False, pqPuts stmt, pqPuts q, put_array 4 n types, pqPutMsgEnd]) @
      [pqPutMsgStart 0x42 False, pqPuts [], pqPuts stmt, put_array 2 n formats,
       pqPutInt n 2, put_params values lengths formats 0 (nat n),
       pqPutInt 1 2, pqPutInt res_format 2, pqPutMsgEnd,
       pqPutMsgStart 0x44 False, pqPutc 0x50, pqPuts [], pqPutMsgEnd,
       pqPutMsgStart 0x45 False, pqPuts [], pqPutInt 0 4, pqPutMsgEnd,
       pqPutMsgStart 0x53 False, pqPutMsgEnd])) (command_messages command stmt n types values lengths formats res_format)"
proof -
  have f: "length stmt + 1 < 2 ^ 31" "array_fits n types" "array_fits n formats" "\<forall>i < nat n. param_fits values lengths formats i"
    using assms by (simp_all add: command_fits_def)
  let ?B = "[pqPuts [], pqPuts stmt, put_array 2 n formats, pqPutInt n 2, put_params values lengths formats 0 (nat n), pqPutInt 1 2, pqPutInt res_format 2]"
  let ?b = "[[0], stmt @ [0], enc_array 2 n formats, be_bytes 2 n,
    concat (map (\<lambda>i. enc_value (param_value values lengths formats i)) [0..<nat n]), be_bytes 2 1, be_bytes 2 res_format]"
  have "list_all2 part_writer ?B ?b"
    using put_string [of "[]"] put_string [OF f(1)] put_array_part [OF _ f(3), where w = 2] put_int2.part_writer_axioms
      put_params_part [of 0 "nat n" "values" lengths formats] f(4) by simp
  from message_parts [where t = "0x42", OF this]
  have binding: "message_sender (put_all (pqPutMsgStart 0x42 False # ?B @ [pqPutMsgEnd])) (client_message 0x42 (concat ?b))" by simp
  note es = message_chain [OF execute_portal.message_sender_axioms sync.message_sender_axioms]
  note des = message_chain [OF describe_portal.message_sender_axioms es]
  note tail = message_chain [OF binding des]
  show ?thesis
  proof (cases command)
    case None
    then show ?thesis using tail by (simp add: command_messages_def)
  next
    case (Some q)
    then have q: "length q + 1 < 2 ^ 31" using assms by (simp add: command_fits_def)
    have "list_all2 part_writer [pqPuts stmt, pqPuts q, put_array 4 n types] [stmt @ [0], q @ [0], enc_array 4 n types]"
      using put_string [OF f(1)] put_string [OF q] put_array_part [OF _ f(2), where w = 4] by simp
    note parse = message_parts [OF this, where t = "0x50"]
    from message_chain [OF parse tail] show ?thesis using Some by (simp add: command_messages_def)
  qed
qed


section \<open>The invariant of a session\<close>

text \<open>A client of a server of protocol 3 that asked for terse messages, so that no query is displayed.\<close>

definition session_ok :: "pg_conn \<Rightarrow> bool" where
  "session_ok c \<longleftrightarrow> client_ok c \<and> verbosity c = PQERRORS_TERSE \<and> PG_PROTOCOL_MAJOR (pversion c) \<ge> 3"

lemma client_ok_iff: "client_ok c \<longleftrightarrow> state_ok c \<and> results_ok c \<and> row_started c \<and> load c + int (length (stream (env c))) < 3758096384"
  using state_ok_rewind [of c] by (auto simp: client_ok_def parser_ok_def load_def)

lemma calm_client_ok:
  assumes "client_ok c" "state_ok c'" "results_ok c'" "curTuple c' = None" "rows_of c' \<le> rows_of c"
    "inEnd c' - inStart c' = inEnd c - inStart c" "same_events (env c) (env c')"
  shows "client_ok c'"
proof -
  have "stream (env c') = stream (env c)" using assms(7) by (simp add: same_events_def same_io_def stream_def)
  then show ?thesis using assms by (simp add: client_ok_iff row_started_def load_def)
qed

lemma fresh_client_ok:
  assumes "client_ok c" "state_ok c'" "result c' = None" "curTuple c' = None"
    "inEnd c' - inStart c' = inEnd c - inStart c" "same_events (env c) (env c')"
  shows "client_ok c'"
  by (rule calm_client_ok [OF assms(1,2) _ assms(4) _ assms(5,6)])
    (use assms(1,3) rows_of_nonneg in \<open>auto simp: results_ok_def rows_of_def client_ok_iff\<close>)

lemma session_okD:
  assumes "session_ok c"
  shows "client_ok c" "conn_ok c" "state_ok c" "results_ok c" "PG_PROTOCOL_MAJOR (pversion c) \<ge> 3" "verbosity c = PQERRORS_TERSE"
  using assms by (simp_all add: session_ok_def client_ok_iff state_ok_def)

lemma through_session:
  assumes "session_ok c" "through c c'" "conn_ok c'"
  shows "session_ok c'"
  using through_client_ok [OF session_okD(1) [OF assms(1)] assms(2,3)] assms(1,2) only_io_fields [of c c'] only_io_more [of c c']
  by (auto simp: session_ok_def through_def)

lemma state_ok_settings [simp]:
  "state_ok (c\<lparr>queryclass := q\<rparr>) = state_ok c" "state_ok (c\<lparr>last_query := l\<rparr>) = state_ok c" "state_ok (c\<lparr>nonblocking := b\<rparr>) = state_ok c"
  by (simp_all add: state_ok_def conn_ok_def in_ok_def out_ok_def)

text \<open>What an error message changes.\<close>

definition told :: "pg_conn \<Rightarrow> pg_conn \<Rightarrow> bool" where
  "told c c' \<longleftrightarrow> only_env c c' \<and> same_events (env c) (env c')"

lemma told_fields:
  assumes "told c c'"
  shows "result c' = result c" "curTuple c' = curTuple c" "asyncStatus c' = asyncStatus c" "status c' = status c" "queryclass c' = queryclass c"
    "pending c' = pending c" "e_sent (env c') = e_sent (env c)" "in_data c' = in_data c" "nonblocking c' = nonblocking c"
    "stream (env c') = stream (env c)" "verbosity c' = verbosity c" "pversion c' = pversion c" "client_encoding c' = client_encoding c"
proof -
  obtain e m where c': "c' = c\<lparr>env := e, errorMessage := m\<rparr>" using assms by (cases c; cases c') (simp add: told_def only_env_def)
  then show "result c' = result c" "curTuple c' = curTuple c" "asyncStatus c' = asyncStatus c" "status c' = status c" "queryclass c' = queryclass c"
    "pending c' = pending c" "e_sent (env c') = e_sent (env c)" "in_data c' = in_data c" "nonblocking c' = nonblocking c"
    "stream (env c') = stream (env c)" "verbosity c' = verbosity c" "pversion c' = pversion c" "client_encoding c' = client_encoding c"
    using assms by (simp_all add: told_def same_events_def same_io_def pending_def in_data_def stream_def)
qed

lemma told_session:
  assumes "session_ok c" "told c c'" "conn_ok c'"
  shows "session_ok c'"
proof -
  have "through c c'" using assms(2) only_env_through [of c c'] by (auto simp: told_def same_events_def same_io_def)
  then show ?thesis by (rule through_session [OF assms(1) _ assms(3)])
qed

lemma reset_error_session:
  assumes "session_ok c"
  obtains c' where "reset_error c = Some c'" "session_ok c'" "told c c'"
proof -
  have v: "valid_expbuf (errorMessage c)" using session_okD(2) [OF assms] by (simp add: conn_ok_def)
  obtain m a where m: "resetPQExpBuffer (e_alloc (env c)) (errorMessage c) = Some (m, a)" "valid_expbuf m"
    using resetPQExpBuffer_spec [OF v] by blast
  let ?c = "set_alloc a (c\<lparr>errorMessage := m\<rparr>)"
  have t: "told c ?c" by (simp add: told_def only_env_def set_alloc_def same_events_def same_io_def)
  have "conn_ok (c\<lparr>errorMessage := m\<rparr>)" using session_okD(2) [OF assms] m(2) by (simp add: conn_ok_def in_ok_def out_ok_def)
  then have "conn_ok ?c" by simp
  with t show thesis using that told_session [OF assms] m(1) by (simp add: reset_error_def)
qed

lemma refuse_session:
  assumes "session_ok c" "length msg < 1000"
  obtains c' where "refuse r c msg = Some (r, c')" "session_ok c'" "told c c'"
proof -
  obtain c' where c': "printf_error c (msg @ [0x0A]) = Some c'" "only_env c c'" "same_net (env c) (env c')" "conn_ok c'"
    by (rule printf_error_ok [OF session_okD(2) [OF assms(1)], of "msg @ [0x0A]"]) (use assms(2) in simp)
  then have "told c c'" by (simp add: told_def same_net_events)
  then show thesis using that told_session [OF assms(1)] c' by (simp add: refuse_def)
qed

lemma parse_session:
  assumes "session_ok c"
  obtains c' where "parseInput c = Some c'" "session_ok c'" "net_frame c c'"
  using parse_client [OF session_okD(1) [OF assms] session_okD(6) [OF assms]] assms
  by (auto simp: parseInput_def session_ok_def net_frame_def)

lemma read_all_session: "session_ok c \<Longrightarrow> \<exists>c'. read_all c = Some c' \<and> session_ok c' \<and> e_sent (env c') = e_sent (env c)"
proof (induction "steps (env c)" arbitrary: c rule: less_induct)
  case less
  obtain r bs c1 where r: "pqReadData c = Some (r, c1)" "read_in c bs c1" using pqReadData_spec [OF session_okD(2) [OF less.prems]] by blast
  have s: "session_ok c1" "e_sent (env c1) = e_sent (env c)"
    using through_session [OF less.prems read_in_through [OF r(2)]] r(2) by (simp_all add: read_in_def)
  show ?case
  proof (cases "r > 0")
    case True
    then have "steps (env c1) < steps (env c)"
      using pqReadData_progress [OF r(1) session_okD(2) [OF less.prems]] by (simp add: progress_def)
    then obtain c' where "read_all c1 = Some c'" "session_ok c'" "e_sent (env c') = e_sent (env c1)" using less.hyps s(1) by blast
    then show ?thesis using r(1) True s(2) by (simp add: read_all.simps)
  qed (use r(1) s in \<open>simp add: read_all.simps\<close>)
qed

lemma send_failed_session:
  assumes "session_ok c"
  obtains c' where "send_failed c = Some (0, c')" "session_ok c'" "e_sent (env c') = e_sent (env c)"
proof -
  obtain c1 where c1: "read_all c = Some c1" "session_ok c1" "e_sent (env c1) = e_sent (env c)" using read_all_session [OF assms] by blast
  obtain c2 where c2: "parseInput c1 = Some c2" "session_ok c2" "net_frame c1 c2" by (rule parse_session [OF c1(2)])
  then have "e_sent (env c2) = e_sent (env c)" using c1(3) by (simp add: net_frame_def same_events_def same_io_def)
  then show thesis using that c1(1) c2(1,2) by (simp add: send_failed_def pqHandleSendFailure_def)
qed


section \<open>A command on its way\<close>

lemma sent_prefix:
  assumes "a @ b = p @ q" "length p \<le> length a"
  shows "\<exists>k. a = p @ take k q"
proof -
  have "a = p @ drop (length p) a" "p = take (length p) a" using assms by (metis append_eq_append_conv_if append_take_drop_id)+
  then show ?thesis using assms by (metis append_eq_append_conv_if append_eq_conv_conj)
qed

text \<open>\<open>sent_off c k bytes r c'\<close>: the command with these bytes is on its way, or the send failed and a prefix has gone out.\<close>

definition sent_off :: "pg_conn \<Rightarrow> PGQueryClass \<Rightarrow> byte list \<Rightarrow> int \<Rightarrow> pg_conn \<Rightarrow> bool" where
  "sent_off c k bytes r c' \<longleftrightarrow> session_ok c' \<and>
     (r = 1 \<and> asyncStatus c' = PGASYNC_BUSY \<and> queryclass c' = k \<and> result c' = None \<and> curTuple c' = None \<and>
        e_sent (env c') @ pending c' = e_sent (env c) @ pending c @ bytes \<or>
      r = 0 \<and> (\<exists>n. e_sent (env c') = e_sent (env c) @ take n (pending c @ bytes)))"

lemma launch_sent:
  assumes "session_ok c1" "result c1 = None" "curTuple c1 = None" "queryclass c1 = k"
    and sent: "e_sent (env c1) @ pending c1 = e_sent (env c) @ pending c @ bytes" "e_sent (env c1) = e_sent (env c) @ s"
  shows "\<exists>r c'. launch c1 = Some (r, c') \<and> sent_off c k bytes r c'"
proof -
  obtain r c2 where r: "pqFlush c1 = Some (r, c2)" "client_ok c2" "through c1 c2" "send_answer c1 (length (pending c1)) r c2"
    using pqFlush_client [OF session_okD(1) [OF assms(1)]] by blast
  have s2: "session_ok c2" using through_session [OF assms(1) r(3) client_okD(1) [OF r(2)]] .
  have io: "result c2 = None" "curTuple c2 = None" "queryclass c2 = k"
    using r(3) assms(2-4) only_io_fields [of c1 c2] only_io_more [of c1 c2] by (simp_all add: through_def)
  show ?thesis
  proof (cases "r < 0")
    case False
    then have "e_sent (env c2) @ pending c2 = e_sent (env c1) @ pending c1"
      using r(4) by (auto simp: send_answer_def sent_out_def)
    moreover have "client_ok (c2\<lparr>asyncStatus := PGASYNC_BUSY\<rparr>)"
      by (rule fresh_client_ok [OF r(2)]) (use s2 io in \<open>simp_all add: session_okD same_events_def same_io_def\<close>)
    ultimately have "sent_off c k bytes 1 (c2\<lparr>asyncStatus := PGASYNC_BUSY\<rparr>)"
      using s2 io sent(1) by (simp add: sent_off_def session_ok_def pending_def)
    then show ?thesis using r(1) False by (simp add: launch_def)
  next
    case True
    obtain c3 where c3: "send_failed c2 = Some (0, c3)" "session_ok c3" "e_sent (env c3) = e_sent (env c2)" by (rule send_failed_session [OF s2])
    obtain n where n: "e_sent (env c2) = e_sent (env c1) @ take n (pending c1)" using r(4) True by (auto simp: send_answer_def sent_out_def)
    then have "e_sent (env c2) @ drop n (pending c1) = e_sent (env c) @ pending c @ bytes" using sent(1) by simp
    moreover have "length (e_sent (env c)) \<le> length (e_sent (env c2))" using n sent(2) by simp
    ultimately have "\<exists>n. e_sent (env c2) = e_sent (env c) @ take n (pending c @ bytes)" by (rule sent_prefix)
    then show ?thesis using r(1) True c3 by (simp add: launch_def sent_off_def)
  qed
qed

lemma remember_query_session:
  assumes "session_ok c" "result c = None" "curTuple c = None"
  shows "session_ok (remember_query q (c\<lparr>queryclass := k\<rparr>))"
proof -
  have "client_ok (remember_query q (c\<lparr>queryclass := k\<rparr>))"
    by (rule fresh_client_ok [OF session_okD(1) [OF assms(1)]])
      (use assms in \<open>auto simp: remember_query_def session_okD same_events_def same_io_def set_alloc_def split: option.splits\<close>)
  then show ?thesis using assms(1) by (auto simp: session_ok_def remember_query_def set_alloc_def split: option.splits)
qed

lemma command_sent:
  assumes "session_ok c" "result c = None" "curTuple c = None" "message_sender (put_all ps) bytes"
  shows "\<exists>r c'. (do { (r, conn) \<leftarrow> put_all ps c; if r < 0 then send_failed conn else launch (remember_query q (conn\<lparr>queryclass := k\<rparr>)) }) = Some (r, c') \<and>
    sent_off c k bytes r c'"
proof -
  obtain r c1 where 1: "put_all ps c = Some (r, c1)" "conn_ok c1" "through c c1"
    "if r = 0 then e_sent (env c1) @ pending c1 = e_sent (env c) @ pending c @ bytes
       else r = EOF \<and> (\<exists>k. e_sent (env c1) = e_sent (env c) @ take k (pending c @ bytes))"
    using message_sender.sends [OF assms(4) session_okD(2) [OF assms(1)] session_okD(5) [OF assms(1)]] by blast
  have s1: "session_ok c1" by (rule through_session [OF assms(1) 1(3,2)])
  have io: "result c1 = None" "curTuple c1 = None"
    using 1(3) assms(2,3) only_io_fields [of c c1] only_io_more [of c c1] by (simp_all add: through_def)
  show ?thesis
  proof (cases "r = 0")
    case True
    let ?c = "remember_query q (c1\<lparr>queryclass := k\<rparr>)"
    obtain s where s: "e_sent (env c1) = e_sent (env c) @ s" using 1(3) by (auto simp: through_def)
    have f: "result ?c = None" "curTuple ?c = None" "queryclass ?c = k" "e_sent (env ?c) = e_sent (env c1)" "pending ?c = pending c1"
      using io by (auto simp: remember_query_def set_alloc_def pending_def split: option.splits)
    have "\<exists>r c'. launch ?c = Some (r, c') \<and> sent_off c k bytes r c'"
      by (rule launch_sent [OF remember_query_session [OF s1 io] f(1-3)]) (use 1(4) True s f(4,5) in simp_all)
    then show ?thesis using 1(1) True by simp
  next
    case False
    then have r: "r < 0" using 1(4) by (simp add: EOF_def)
    obtain c2 where "send_failed c1 = Some (0, c2)" "session_ok c2" "e_sent (env c2) = e_sent (env c1)" by (rule send_failed_session [OF s1])
    then show ?thesis using 1 r False by (auto simp: sent_off_def)
  qed
qed

lemma PQsendQueryStart_session:
  assumes "session_ok c"
  obtains ok c' where "PQsendQueryStart c = Some (ok, c')" "session_ok c'" "ok \<longleftrightarrow> status c = CONNECTION_OK \<and> asyncStatus c = PGASYNC_IDLE"
    "pending c' = pending c" "e_sent (env c') = e_sent (env c)" "ok \<Longrightarrow> result c' = None \<and> curTuple c' = None" "pversion c' = pversion c"
proof -
  obtain c1 where c1: "reset_error c = Some c1" "session_ok c1" "told c c1" by (rule reset_error_session [OF assms])
  note f = told_fields [OF c1(3)]
  show thesis
  proof (cases "status c = CONNECTION_OK \<and> asyncStatus c = PGASYNC_IDLE")
    case True
    let ?c = "c1\<lparr>result := None, curTuple := None\<rparr>"
    have "client_ok ?c" by (rule fresh_client_ok [OF session_okD(1) [OF c1(2)]]) (use c1(2) in \<open>simp_all add: session_okD same_events_def same_io_def\<close>)
    then have "session_ok ?c" using c1(2) by (simp add: session_ok_def)
    then show thesis using that [of True ?c] c1(1) True f by (simp add: PQsendQueryStart_def pending_def)
  next
    case False
    obtain msg where msg: "PQsendQueryStart c = refuse False c1 msg" "length msg < 1000"
      using that c1(1) False f by (cases "status c = CONNECTION_OK") (auto simp: PQsendQueryStart_def)
    obtain c2 where c2: "refuse False c1 msg = Some (False, c2)" "session_ok c2" "told c1 c2" by (rule refuse_session [OF c1(2) msg(2)])
    then show thesis using that [of False c2] msg(1) False f told_fields [OF c2(3)] by simp
  qed
qed

end
