(* ===== verification/Stays.thy ===== *)
theory Stays
  imports Progress
begin

text \<open>
  A handler that has to wait for more data changes neither the state of the query nor makes a result. Messages taken from the input are
  therefore the only way in which the client gets on.
\<close>

definition stays :: "pg_conn \<Rightarrow> pg_conn \<Rightarrow> bool" where
  "stays c c' \<longleftrightarrow> asyncStatus c' = asyncStatus c \<and> (result c = None \<longrightarrow> result c' = None)"

lemma stays_refl [simp]: "stays c c"
  by (simp add: stays_def)

lemma stays_trans: "stays a b \<Longrightarrow> stays b c \<Longrightarrow> stays a c"
  by (simp add: stays_def)

lemma stays_update [simp]:
  "stays c (set_alloc a c') = stays c c'" "stays c (c'\<lparr>workBuffer := b\<rparr>) = stays c c'" "stays c (c'\<lparr>inCursor := i\<rparr>) = stays c c'"
  "stays c (c'\<lparr>env := e\<rparr>) = stays c c'" "stays c (c'\<lparr>be_pid := p\<rparr>) = stays c c'" "stays c (c'\<lparr>copy_is_binary := q\<rparr>) = stays c c'"
  "stays c (c'\<lparr>inBuffer := ib\<rparr>) = stays c c'" "stays c (c'\<lparr>inBufSize := n\<rparr>) = stays c c'"
  "stays c (c'\<lparr>last_sqlstate := s\<rparr>) = stays c c'" "stays (c\<lparr>inCursor := i\<rparr>) c' = stays c c'" "stays (set_alloc a c) c' = stays c c'"
  by (simp_all add: stays_def set_alloc_def)

lemma pqGetc_stays: "pqGetc c = Some (v, c') \<Longrightarrow> stays c c'"
  by (auto simp: pqGetc_def bind_Some_iff split: if_splits)

lemma pqGetInt_stays: "pqGetInt w c = Some (v, c') \<Longrightarrow> stays c c'"
  by (auto simp: pqGetInt_def bind_Some_iff pqInternalNotice_def Let_def split: if_splits option.splits)

lemma pqGetnchar_stays: "pqGetnchar n c = Some (v, c') \<Longrightarrow> stays c c'"
  by (auto simp: pqGetnchar_def bind_Some_iff Let_def split: if_splits)

lemma pqGets_stays: "pqGets b c = Some (r, b', c') \<Longrightarrow> stays c c'"
  by (auto simp: pqGets_def pqGets_internal_def bind_Some_iff Let_def split: if_splits option.splits)

lemma gets_work_stays: "gets_work c = Some (r, c') \<Longrightarrow> stays c c'"
  by (auto simp: gets_work_def bind_Some_iff dest!: pqGets_stays)

lemma or_eof_iff: "or_eof m eof k = Some y \<longleftrightarrow> (\<exists>c. m = Some (None, c) \<and> eof c = Some y) \<or> (\<exists>v c. m = Some (Some v, c) \<and> k v c = Some y)"
  unfolding or_eof_def bind_Some_iff by (force split: option.splits)

lemma makeEmpty_stays: "makeEmptyPGresult c st = Some (r, c') \<Longrightarrow> stays c c'"
  by (auto simp: makeEmptyPGresult_def PQmakeEmptyPGresult_def bind_Some_iff Let_def split: if_splits prod.splits)

lemma alloc_attrs_stays: "alloc_attrs r n c = Some (ok, r', c') \<Longrightarrow> stays c c'"
  by (auto simp: alloc_attrs_def bind_Some_iff split: if_splits)

lemmas read_stays = pqGetc_stays pqGetInt_stays pqGetnchar_stays gets_work_stays makeEmpty_stays alloc_attrs_stays

lemma read_attrs_stays: "read_attrs n i r c = Some (ok, r', c') \<Longrightarrow> stays c c'"
proof (induction n arbitrary: i r c)
  case (Suc n)
  from Suc.prems show ?case
    by (auto simp: bind_Some_iff or_eof_iff Let_def split: if_splits dest!: read_stays Suc.IH) (auto simp: stays_def)
qed simp

lemma getRowDescriptions_stays: "getRowDescriptions c = Some (r, c') \<Longrightarrow> r \<noteq> 0 \<Longrightarrow> stays c c'"
  by (auto simp: getRowDescriptions_def read_row_description_def bind_Some_iff or_eof_iff Let_def split: if_splits option.splits
      dest!: read_stays read_attrs_stays) (auto simp: stays_def)

lemma read_params_stays: "read_params n i r c = Some (ok, r', c') \<Longrightarrow> stays c c'"
proof (induction n arbitrary: i r c)
  case (Suc n)
  from Suc.prems show ?case
    by (auto simp: bind_Some_iff or_eof_iff dest!: read_stays Suc.IH) (auto simp: stays_def)
qed simp

lemma bind_SomeE: "Option.bind m k = Some y \<Longrightarrow> (\<And>x. m = Some x \<Longrightarrow> k x = Some y \<Longrightarrow> P) \<Longrightarrow> P"
  by (auto simp: bind_Some_iff)

lemma or_eofE:
  assumes "or_eof m eof k = Some y"
  obtains (eof) c1 where "m = Some (None, c1)" "eof c1 = Some y" | (read) v c1 where "m = Some (Some v, c1)" "k v c1 = Some y"
  using assms by (auto simp: or_eof_iff)

lemma param_space_stays:
  assumes "(if n > 0 then do {
      (sp, res, a) \<leftarrow> pqResultAlloc (e_alloc (env c)) res (szmul (nat n) sizeof_PGresParamDesc) True;
      Some (sp \<noteq> None, res\<lparr>paramDescs := (if sp = None then None else Some (replicate (nat n) 0))\<rparr>, set_alloc a c)
    } else Some (True, res, c)) = Some (ok, r, c')"
  shows "stays c c'"
  using assms by (auto simp: bind_Some_iff split: if_splits)

lemma getParamDescriptions_stays:
  assumes "getParamDescriptions c = Some (r, c')" "r \<noteq> 0"
  shows "stays c c'"
proof -
  obtain x c1 where 1: "makeEmptyPGresult c PGRES_COMMAND_OK = Some (x, c1)"
    using assms(1) by (cases "makeEmptyPGresult c PGRES_COMMAND_OK") (auto simp: getParamDescriptions_def)
  note s1 = makeEmpty_stays [OF this]
  show ?thesis
  proof (cases x)
    case None
    then show ?thesis using assms(1) 1 s1 by (simp add: getParamDescriptions_def)
  next
    case (Some res)
    from assms(1) [unfolded getParamDescriptions_def 1 bind.bind_lunit prod.case Some option.case] show ?thesis
    proof (cases rule: or_eofE)
      case (eof c2)
      then show ?thesis using s1 pqGetInt_stays stays_trans by fastforce
    next
      case (read n c2)
      have s2: "stays c c2" using stays_trans [OF s1 pqGetInt_stays [OF read(1)]] .
      from read(2) [unfolded Let_def] show ?thesis
      proof (elim bind_SomeE, clarify, elim bind_SomeE, clarify, goal_cases)
        case (1 ok r3 c3 ok2 r4 c4)
        have "stays c2 c3" by (rule param_space_stays [OF 1(1)])
        moreover have "stays c3 c4" using 1(2) by (auto split: if_splits dest: read_params_stays)
        ultimately have "stays c c4" using s2 stays_trans by blast
        then show ?case using 1(3) assms(2) by (auto split: if_splits)
      qed
    qed
  qed
qed

lemma value_space_stays: "value_space r v i n c = Some (x, r', c') \<Longrightarrow> stays c c'"
  by (auto simp: value_space_def bind_Some_iff Let_def split: option.splits)

lemma read_values_stays: "read_values n i r tup c = Some (oc, r', tup', c') \<Longrightarrow> stays c c'"
proof (induction n arbitrary: i r tup c)
  case (Suc n)
  from Suc.prems show ?case
    by (auto simp: bind_Some_iff or_eof_iff Let_def split: if_splits option.splits dest!: read_stays value_space_stays Suc.IH) (auto simp: stays_def)
qed simp

lemma getAnotherTuple_stays:
  assumes "getAnotherTuple c n = Some (r, c')" "r \<noteq> 0"
  shows "stays c c'"
proof -
  have row: "asyncStatus c' = asyncStatus c1" if "read_row n res tup c1 = Some (r, c')" for res tup c1
    using that assms(2) by (auto simp: read_row_def row_no_memory_def bind_Some_iff or_eof_iff Let_def split: if_splits row_outcome.splits
      dest!: read_stays read_values_stays) (auto simp: stays_def, (metis row_outcome.exhaust)+)
  then show ?thesis
    using assms by (auto simp: getAnotherTuple_def row_no_memory_def bind_Some_iff Let_def stays_def split: if_splits option.splits dest!: row)
qed

lemma read_fields_stays: "read_fields r b c = Some (ok, r', b', c') \<Longrightarrow> stays c c'"
proof -
  have "stays c (snd (snd (snd y)))" if "read_fields r b c = Some y" for y
  proof (rule read_fields.raw_induct [where P = "\<lambda>r b c y. stays c (snd (snd (snd y)))", OF _ that], goal_cases)
    case (1 loop r b c y)
    from 1(2) show ?case
      by (auto simp: bind_Some_iff split: if_splits dest!: read_stays pqGets_stays 1(1)) (auto simp: stays_def)
  qed
  then show "read_fields r b c = Some (ok, r', b', c') \<Longrightarrow> stays c c'" by fastforce
qed

lemma read_error_message_stays: "read_error_message c e = Some (r, b, c') \<Longrightarrow> stays c c'"
  by (auto simp: read_error_message_def bind_Some_iff Let_def split: option.splits if_splits dest!: read_stays read_fields_stays) (auto simp: stays_def)

lemma build_message_stays:
  assumes "build_message c res b = Some (b', c')"
  shows "stays c c'"
proof -
  define c1 where "c1 = (case PQresultErrorField (Some res) PG_DIAG_SQLSTATE of
      None \<Rightarrow> c | Some v \<Rightarrow> if length v < 6 then c\<lparr>last_sqlstate := v\<rparr> else c)"
  obtain calls q p where "position_calls c1 res = (calls, q, p)" by (cases "position_calls c1 res")
  then have "\<exists>a. c' = set_alloc a c1"
    using assms unfolding build_message_def Let_def c1_def [symmetric] by (auto simp: bind_Some_iff)
  then show ?thesis by (auto simp: c1_def split: option.splits)
qed

lemma pqGetErrorNotice3_stays: "pqGetErrorNotice3 c e = Some (r, c') \<Longrightarrow> r \<noteq> 0 \<Longrightarrow> stays c c'"
  by (auto simp: pqGetErrorNotice3_def bind_Some_iff Let_def split: option.splits if_splits
      dest!: read_error_message_stays build_message_stays) (auto simp: stays_def)

lemma getParameterStatus_stays: "getParameterStatus c = Some (r, c') \<Longrightarrow> r \<noteq> 0 \<Longrightarrow> stays c c'"
  by (auto simp: getParameterStatus_def bind_Some_iff split: if_splits dest!: read_stays pqGets_stays) (auto simp: stays_def)

lemma getNotify_stays: "getNotify c = Some (r, c') \<Longrightarrow> r \<noteq> 0 \<Longrightarrow> stays c c'"
  by (auto simp: getNotify_def bind_Some_iff or_eof_iff Let_def split: if_splits dest!: read_stays) (auto simp: stays_def)

lemma read_formats_stays: "read_formats n i r c = Some (ok, r', c') \<Longrightarrow> stays c c'"
proof (induction n arbitrary: i r c)
  case (Suc n)
  from Suc.prems show ?case
    by (auto simp: bind_Some_iff or_eof_iff dest!: read_stays Suc.IH) (auto simp: stays_def)
qed simp

lemma getCopyStart_stays: "getCopyStart c st = Some (r, c') \<Longrightarrow> r \<noteq> 0 \<Longrightarrow> stays c c'"
  by (auto simp: getCopyStart_def bind_Some_iff or_eof_iff Let_def split: if_splits option.splits
      dest!: read_stays read_formats_stays) (auto simp: stays_def)

lemma getReadyForQuery_stays: "getReadyForQuery c = Some (r, c') \<Longrightarrow> r \<noteq> 0 \<Longrightarrow> stays c c'"
  by (auto simp: getReadyForQuery_def or_eof_iff dest!: read_stays)

lemma have_result_stays: "have_result st c = Some (False, c') \<Longrightarrow> stays c c'"
  by (auto simp: have_result_def bind_Some_iff stays_def split: if_splits dest!: read_stays)

lemma ready_result_stays: "ready_result st c = Some (False, c') \<Longrightarrow> stays c c'"
  by (auto simp: ready_result_def bind_Some_iff split: if_splits dest!: have_result_stays)

lemma command_complete_stays: "command_complete c = Some (False, c') \<Longrightarrow> stays c c'"
  by (auto simp: command_complete_def bind_Some_iff split: if_splits dest!: gets_work_stays have_result_stays) (auto simp: stays_def)

lemma then_status_False: "then_status m st = Some (False, c') \<longleftrightarrow> (\<exists>r. m = Some (r, c') \<and> r \<noteq> 0)"
  by (auto simp: then_status_def bind_Some_iff)

text \<open>The one message that is refused while the query is busy: a second description, with which the first result is complete.\<close>

lemma busy_message_stays:
  "busy_message ident n c = Some (False, c') \<Longrightarrow> stays c c' \<or> result c \<noteq> None"
  unfolding busy_message_def
  by (auto simp: data_row_def then_status_False bind_Some_iff or_eof_iff Let_def split: if_splits
      dest!: read_stays command_complete_stays ready_result_stays
      dest: pqGetErrorNotice3_stays getReadyForQuery_stays getParameterStatus_stays getRowDescriptions_stays getParamDescriptions_stays
        getAnotherTuple_stays getCopyStart_stays)
    (auto simp: stays_def)

lemma idle_message_stays: "idle_message ident n c = Some (False, c') \<Longrightarrow> stays c c'"
  by (auto simp: idle_message_def then_status_False bind_Some_iff split: if_splits dest: pqGetErrorNotice3_stays getParameterStatus_stays)

lemma busy_refusal:
  assumes "busy_message ident n c = Some (False, c')"
  shows "stays c c' \<or> result c \<noteq> None \<and> (asyncStatus c' = asyncStatus c \<or> asyncStatus c' = PGASYNC_READY)"
  using assms unfolding busy_message_def
  by (auto simp: data_row_def then_status_False bind_Some_iff or_eof_iff Let_def split: if_splits
      dest!: read_stays command_complete_stays ready_result_stays
      dest: pqGetErrorNotice3_stays getReadyForQuery_stays getParameterStatus_stays getRowDescriptions_stays getParamDescriptions_stays
        getAnotherTuple_stays getCopyStart_stays)
    (auto simp: stays_def)

text \<open>The client gets on: it gives the connection up, takes a message, stays as it is, or finishes the result it has.\<close>

definition ahead :: "pg_conn \<Rightarrow> nat" where
  "ahead c = length (in_data c) + length (stream (env c))"

definition onward :: "pg_conn \<Rightarrow> pg_conn \<Rightarrow> bool" where
  "onward c c' \<longleftrightarrow> status c' = CONNECTION_BAD \<and> asyncStatus c' = PGASYNC_READY \<or> ahead c' < ahead c \<or>
     ahead c' = ahead c \<and> (stays c c' \<or> asyncStatus c = PGASYNC_BUSY \<and> result c \<noteq> None \<and> asyncStatus c' = PGASYNC_READY)"

lemma onward_refl [simp]: "onward c c"
  by (simp add: onward_def)

lemma onward_trans:
  assumes "onward a b" "onward b c" "asyncStatus b = PGASYNC_BUSY"
  shows "onward a c"
  using assms by (auto simp: onward_def stays_def)

lemma handle_message_stays:
  "handle_message ident n c = Some (False, c') \<Longrightarrow>
    stays c c' \<or> asyncStatus c = PGASYNC_BUSY \<and> result c \<noteq> None \<and> asyncStatus c' = PGASYNC_READY"
  unfolding handle_message_def
  by (auto simp: then_status_False split: if_splits dest: getNotify_stays pqGetErrorNotice3_stays idle_message_stays dest!: busy_refusal)
    (auto simp: stays_def)

lemma handleSyncLoss_bad: "handleSyncLoss c ident n = Some c' \<Longrightarrow> status c' = CONNECTION_BAD \<and> asyncStatus c' = PGASYNC_READY"
  by (auto simp: handleSyncLoss_def bind_Some_iff)

lemma pqCheckInBufferSpace_stays: "pqCheckInBufferSpace n c = Some (r, c') \<Longrightarrow> stays c c'"
  by (auto simp: pqCheckInBufferSpace_def printf_error_def bind_Some_iff split: if_splits option.splits) (auto simp: stays_def set_alloc_def)

lemma parse_step_stays:
  assumes "parse_step c = Some (False, c')"
  shows "status c' = CONNECTION_BAD \<and> asyncStatus c' = PGASYNC_READY \<or> stays c c' \<or>
    asyncStatus c = PGASYNC_BUSY \<and> result c \<noteq> None \<and> asyncStatus c' = PGASYNC_READY"
  using assms unfolding parse_step_def
proof (cases rule: or_eofE)
  case (eof c1)
  then show ?thesis using pqGetc_stays by fastforce
next
  case (read ident c1)
  have 1: "stays c c1" using pqGetc_stays [OF read(1)] by simp
  from read(2) show ?thesis
  proof (cases rule: or_eofE)
    case (eof c2)
    then show ?thesis using stays_trans [OF 1] pqGetInt_stays by fastforce
  next
    case (read n c2)
    have h2: "stays c c2" using stays_trans [OF 1 pqGetInt_stays [OF read(1)]] .
    note goal = read(2) [unfolded Let_def]
    consider "n < 4 \<or> n > 30000 \<and> \<not> VALID_LONG_MESSAGE_TYPE ident" | "\<not> (n < 4 \<or> n > 30000 \<and> \<not> VALID_LONG_MESSAGE_TYPE ident)" "inEnd c2 - inCursor c2 < n - 4"
      | "\<not> (n < 4 \<or> n > 30000 \<and> \<not> VALID_LONG_MESSAGE_TYPE ident)" "\<not> inEnd c2 - inCursor c2 < n - 4" by linarith
    then show ?thesis
    proof cases
      case 1
      then show ?thesis using goal handleSyncLoss_bad by (auto simp: bind_Some_iff)
    next
      case 2
      then show ?thesis using goal stays_trans [OF h2] by (auto simp: bind_Some_iff split: if_splits dest: handleSyncLoss_bad pqCheckInBufferSpace_stays)
    next
      case 3
      then have "handle_message ident (n - 4) c2 = Some (False, c')" using goal by (auto simp: bind_Some_iff split: if_splits)
      from handle_message_stays [OF this] show ?thesis using h2 by (auto simp: stays_def)
    qed
  qed
qed

lemma parse_onward:
  assumes "client_ok c" "verbosity c = PQERRORS_TERSE"
  shows "\<exists>c'. pqParseInput3 c = Some c' \<and> client_ok c' \<and> net_frame c c' \<and> onward c c'"
proof -
  obtain c' where c': "pqParseInput3 c = Some c'" "client_ok c'" "net_frame c c'" using parse_client [OF assms] by blast
  have p: "parser_ok c" using assms(1) by (simp add: client_ok_def)
  obtain go c1 where s: "parse_step c = Some (go, c1)" "step_post c (go, c1)"
    using parse_step_ensures [OF p terse_next_display_ok [OF p assms(2)]] by (auto simp: ensures_def)
  have st: "stream (env c') = stream (env c)" using c'(3) by (simp add: net_frame_def same_events_def same_io_def stream_def)
  show ?thesis
  proof (cases go)
    case False
    then have "c' = c1" using s(1) c'(1) by (simp add: pqParseInput3.simps)
    moreover have "in_data c1 = in_data c" using s(2) False by (simp add: step_post_def)
    ultimately have "onward c c'" using parse_step_stays [of c c1] s(1) False st by (auto simp: onward_def ahead_def)
    then show ?thesis using c' by blast
  next
    case True
    then obtain m where m: "is_message m" "in_data c = m @ in_data c1" "parser_ok c1" "verbosity c1 = PQERRORS_TERSE"
      using s(2) assms(2) by (auto simp: step_post_def)
    have "ensures (pqParseInput3 c1) (loop_post c1)" by (rule parse_loop_ensures [OF m(3)]) (use m(4) terse_next_display_ok in auto)
    moreover have "pqParseInput3 c1 = Some c'" using s(1) True c'(1) by (simp add: pqParseInput3.simps)
    ultimately have "length (in_data c') \<le> length (in_data c1)" by (auto simp: ensures_def loop_post_def)
    then have "ahead c' < ahead c" using m(2) is_message_length [OF m(1)] st by (simp add: ahead_def)
    then show ?thesis using c' by (auto simp: onward_def)
  qed
qed

end
