(* ===== verification/Returns.thy ===== *)
theory Returns
  imports Sending Stays
begin

text \<open>
  The loops that wait for the server come back to the application.
\<close>

section \<open>Waiting for a result\<close>

lemma through_steady:
  assumes "through c c'"
  shows "stays c c'" "ahead c' = ahead c" "asyncStatus c' = asyncStatus c" "queryclass c' = queryclass c" "result c' = result c"
proof -
  have io: "only_io c c'" using assms by (simp add: through_def)
  obtain bs where "in_data c' = in_data c @ bs" "stream (env c) = bs @ stream (env c')" using assms by (auto simp: through_def)
  then show "ahead c' = ahead c" by (simp add: ahead_def)
  show "stays c c'" "asyncStatus c' = asyncStatus c" "queryclass c' = queryclass c" "result c' = result c"
    using only_io_fields [OF io] only_io_more [OF io] by (simp_all add: stays_def)
qed

lemma through_onward: "through c c' \<Longrightarrow> onward c c'"
  using through_steady [of c c'] by (simp add: onward_def)

lemma parse_session_onward:
  assumes "session_ok c"
  obtains c' where "parseInput c = Some c'" "session_ok c'" "net_frame c c'" "onward c c'"
  using parse_onward [OF session_okD(1) [OF assms] session_okD(6) [OF assms]] assms
  by (auto simp: parseInput_def session_ok_def net_frame_def)

lemma net_frame_steps: "net_frame c c' \<Longrightarrow> steps (env c') = steps (env c) \<and> fewer (env c) (env c')"
  using same_events_steps by (simp add: net_frame_def)

lemma flush_all_session:
  "session_ok c \<Longrightarrow> \<exists>r c'. flush_all c = Some (r, c') \<and> session_ok c' \<and> through c c' \<and> progress False (env c) (env c')"
proof (induction "steps (env c)" arbitrary: c rule: less_induct)
  case less
  obtain r c1 where r: "pqFlush c = Some (r, c1)" "client_ok c1" "through c c1" "progress (r > 0) (env c) (env c1)"
    using pqFlush_client [OF session_okD(1) [OF less.prems]] by blast
  have s1: "session_ok c1" by (rule through_session [OF less.prems r(3) client_okD(1) [OF r(2)]])
  show ?case
  proof (cases "r > 0")
    case False
    then show ?thesis using r s1 by (auto simp: flush_all.simps intro: progress_mono)
  next
    case True
    obtain w c2 where w: "pqWait False True c1 = Some (w, c2)" "client_ok c2" "through c1 c2" "progress False (env c1) (env c2)"
      using pqWait_client [OF r(2), of False True] by blast
    have s2: "session_ok c2" by (rule through_session [OF s1 w(3) client_okD(1) [OF w(2)]])
    have t: "through c c2" "progress True (env c) (env c2)"
      using through_trans [OF r(3) w(3)] progress_trans [OF r(4) w(4)] True by (auto intro: progress_mono)
    show ?thesis
    proof (cases "w = 0")
      case False
      have "flush_all c = Some (- 1, c2)" using True r(1) w(1) False by (simp add: flush_all.simps)
      then show ?thesis using s2 t by (auto intro: progress_mono)
    next
      case zero: True
      have "steps (env c2) < steps (env c)" using t(2) by (simp add: progress_def)
      from less.hyps [OF this s2] obtain r' c' where c': "flush_all c2 = Some (r', c')" "session_ok c'" "through c2 c'" "progress False (env c2) (env c')"
        by blast
      have "flush_all c = Some (r', c')" using True r(1) w(1) zero c'(1) by (subst flush_all.simps) simp
      moreover have "progress False (env c) (env c')" using progress_trans [OF t(2) c'(4)] by (rule progress_mono) simp
      ultimately show ?thesis using c'(2) through_trans [OF t(1) c'(3)] by blast
    qed
  qed
qed

lemma load_more_session:
  assumes "session_ok c"
  shows "\<exists>ok c'. load_more c = Some (ok, c') \<and> session_ok c' \<and> through c c' \<and> progress ok (env c) (env c')"
proof -
  obtain r c1 where r: "flush_all c = Some (r, c1)" "session_ok c1" "through c c1" "progress False (env c) (env c1)"
    using flush_all_session [OF assms] by blast
  obtain w c2 where w: "pqWait True False c1 = Some (w, c2)" "client_ok c2" "through c1 c2" "progress False (env c1) (env c2)"
    using pqWait_client [OF session_okD(1) [OF r(2)], of True False] by blast
  have s2: "session_ok c2" by (rule through_session [OF r(2) w(3) client_okD(1) [OF w(2)]])
  obtain n c3 where n: "pqReadData c2 = Some (n, c3)" "client_ok c3" "through c2 c3" "progress (n \<ge> 0) (env c2) (env c3)"
    using pqReadData_client [OF w(2)] by blast
  have s3: "session_ok c3" by (rule through_session [OF s2 n(3) client_okD(1) [OF n(2)]])
  have t2: "through c c2" "progress False (env c) (env c2)"
    using through_trans [OF r(3) w(3)] progress_trans [OF r(4) w(4)] by (auto intro: progress_mono)
  have t3: "through c c3" "progress (n \<ge> 0) (env c) (env c3)"
    using through_trans [OF t2(1) n(3)] progress_trans [OF t2(2) n(4)] by (auto intro: progress_mono)
  show ?thesis
    using r w(1) n(1) s2 s3 t2 t3 by (auto simp: load_more_def)
qed

lemma wait_result_session:
  "session_ok c \<Longrightarrow> \<exists>ok c'. wait_result c = Some (ok, c') \<and> session_ok c' \<and> onward c c' \<and> progress False (env c) (env c') \<and>
    (ok \<longleftrightarrow> asyncStatus c' \<noteq> PGASYNC_BUSY)"
proof (induction "steps (env c)" arbitrary: c rule: less_induct)
  case less
  show ?case
  proof (cases "asyncStatus c = PGASYNC_BUSY")
    case False
    then show ?thesis using less.prems by (intro exI [of _ True] exI [of _ c]) (simp add: wait_result.simps)
  next
    case True
    obtain ok c1 where l: "load_more c = Some (ok, c1)" "session_ok c1" "through c c1" "progress ok (env c) (env c1)"
      using load_more_session [OF less.prems] by blast
    note t = through_steady [OF l(3)]
    show ?thesis
    proof (cases ok)
      case False
      then show ?thesis using True l t(3) through_onward by (auto simp: wait_result.simps intro: progress_mono)
    next
      case ok: True
      obtain c2 where c2: "parseInput c1 = Some c2" "session_ok c2" "net_frame c1 c2" "onward c1 c2" by (rule parse_session_onward [OF l(2)])
      have e: "same_events (env c1) (env c2)" using c2(3) by (simp add: net_frame_def)
      then have p: "progress True (env c) (env c2)" using progress_same [OF l(4)] ok by simp
      have o: "onward c c2" using onward_trans [OF through_onward [OF l(3)] c2(4)] t(3) True by simp
      have "steps (env c2) < steps (env c)" using p by (simp add: progress_def)
      from less.hyps [OF this c2(2)] obtain ok' c' where c': "wait_result c2 = Some (ok', c')" "session_ok c'" "onward c2 c'"
        "progress False (env c2) (env c')" "ok' \<longleftrightarrow> asyncStatus c' \<noteq> PGASYNC_BUSY" by blast
      have w: "wait_result c = Some (ok', c')" using True l(1) ok c2(1) c'(1) by (subst wait_result.simps) simp
      have "progress False (env c) (env c')" using progress_trans [OF p c'(4)] by (rule progress_mono) simp
      moreover have "onward c c'"
      proof (cases "asyncStatus c2 = PGASYNC_BUSY")
        case True
        then show ?thesis by (rule onward_trans [OF o c'(3)])
      next
        case False
        then have "c' = c2" using c'(1) by (simp add: wait_result.simps)
        then show ?thesis using o by simp
      qed
      ultimately show ?thesis using w c' by blast
    qed
  qed
qed


section \<open>The result handed out\<close>

lemma calm_session:
  assumes "session_ok c" "moved c c'" "results_ok c'" "curTuple c' = None" "rows_of c' \<le> rows_of c"
  shows "session_ok c'"
proof -
  have n: "net_frame c c'" "inEnd c' - inStart c' = inEnd c - inStart c" using moved_net_frame [OF assms(2)] moved_data [OF assms(2)] by simp_all
  have "client_ok c'"
    by (rule calm_client_ok [OF session_okD(1) [OF assms(1)] moved_ok [OF assms(2)] assms(3-5) n(2)]) (use n(1) in \<open>simp add: net_frame_def\<close>)
  then show ?thesis using assms(1) n(1) by (simp add: session_ok_def net_frame_def)
qed

lemma session_status [simp]: "curTuple c = None \<Longrightarrow> session_ok (c\<lparr>asyncStatus := a\<rparr>) = session_ok c"
  by (simp add: session_ok_def client_ok_iff row_started_def load_def)

lemma data_status [simp]: "in_data (c\<lparr>asyncStatus := a\<rparr>) = in_data c" "pending (c\<lparr>asyncStatus := a\<rparr>) = pending c"
  by (simp_all add: in_data_def pending_def)

lemma ahead_update [simp]: "ahead (c\<lparr>asyncStatus := a\<rparr>) = ahead c" "ahead (c\<lparr>result := r\<rparr>) = ahead c" "ahead (c\<lparr>curTuple := t\<rparr>) = ahead c"
    "ahead (c\<lparr>errorMessage := m\<rparr>) = ahead c" "ahead (set_alloc x c) = ahead c"
  by (simp_all add: ahead_def in_data_def set_alloc_def stream_def)

lemma moved_ahead: "moved c c' \<Longrightarrow> ahead c' = ahead c"
  using moved_net_frame [of c c'] moved_data(1) [of c c'] moved_data(1)
  by (simp add: ahead_def net_frame_def same_events_def same_io_def stream_def)

text \<open>What the application sees: the result it gets is well formed and no longer in the connection.\<close>

definition given :: "pg_conn \<Rightarrow> pg_result option \<Rightarrow> pg_conn \<Rightarrow> bool" where
  "given c res c' \<longleftrightarrow> session_ok c' \<and> curTuple c' = None \<and> asyncStatus c' = asyncStatus c \<and> status c' = status c \<and> ahead c' = ahead c \<and>
     env c' = (env c)\<lparr>e_alloc := e_alloc (env c')\<rparr> \<and> (\<forall>r. res = Some r \<longrightarrow> result_ok r)"

lemma pqPrepareAsyncResult_session:
  assumes "session_ok c"
  shows "\<exists>res c'. pqPrepareAsyncResult c = Some (res, c') \<and> given c res c' \<and> result c' = None \<and>
    (result c = None \<longrightarrow> (\<forall>r. res = Some r \<longrightarrow> resultStatus r = PGRES_FATAL_ERROR)) \<and> (\<forall>r. result c = Some r \<longrightarrow> res = Some r)"
proof -
  let ?c = "c\<lparr>result := None, curTuple := None\<rparr>"
  have "client_ok ?c" by (rule fresh_client_ok [OF session_okD(1) [OF assms]]) (use session_okD(3) [OF assms] in \<open>simp_all add: same_events_def same_io_def\<close>)
  then have s: "session_ok ?c" using assms by (simp add: session_ok_def)
  show ?thesis
  proof (cases "result c")
    case None
    have keep: "session_ok (set_alloc a ?c)" for a
      using told_session [OF s, of "set_alloc a ?c"] session_okD(2) [OF s] by (simp add: told_def only_env_def set_alloc_def same_events_def same_io_def conn_ok_def in_ok_def out_ok_def)
    obtain r a where "makeEmptyPGresult ?c PGRES_FATAL_ERROR = Some (r, set_alloc a ?c)" "\<forall>x. r = Some x \<longrightarrow> result_ok x \<and> resultStatus x = PGRES_FATAL_ERROR"
      by (cases rule: makeEmpty_cases [OF session_okD(3) [OF s], of PGRES_FATAL_ERROR]) auto
    then show ?thesis using None keep [of a] by (auto simp: pqPrepareAsyncResult_def given_def set_alloc_def ahead_def in_data_def stream_def)
  next
    case (Some r)
    have ro: "result_ok r" using session_okD(4) [OF assms] Some by (simp add: results_ok_def)
    have v: "valid_expbuf (errorMessage ?c)" using session_okD(2) [OF s] by (simp add: conn_ok_def)
    obtain m a where m: "resetPQExpBuffer (e_alloc (env ?c)) (errorMessage ?c) = Some (m, a)" "valid_expbuf m"
      using resetPQExpBuffer_spec [OF v] by blast
    have t: "0 \<in> set (PQresultErrorMessage (Some r) @ [0])" "length (PQresultErrorMessage (Some r) @ [0]) < 2 ^ 32"
      using ro by (auto simp: PQresultErrorMessage_def result_ok_def str_ok_def split: option.splits)
    obtain m2 a2 where m2: "appendPQExpBufferStr a m (PQresultErrorMessage (Some r) @ [0]) = Some (m2, a2)" "valid_expbuf m2"
      using appendPQExpBufferStr_spec [OF m(2) t] by (blast dest: appended_valid)
    let ?c2 = "set_alloc a2 (?c\<lparr>errorMessage := m2\<rparr>)"
    have k: "conn_ok (?c\<lparr>errorMessage := m2\<rparr>)" using session_okD(2) [OF s] m2(2) by (simp add: conn_ok_def in_ok_def out_ok_def)
    have "session_ok ?c2"
      by (rule told_session [OF s]) (use k in \<open>simp_all add: told_def only_env_def set_alloc_def same_events_def same_io_def\<close>)
    then show ?thesis using Some m(1) m2(1) ro by (auto simp: pqPrepareAsyncResult_def given_def set_alloc_def ahead_def in_data_def stream_def)
  qed
qed

text \<open>What is left to be done: bytes to take, and how far the query has come.\<close>

definition phase :: "pg_conn \<Rightarrow> nat" where
  "phase c = (if asyncStatus c = PGASYNC_IDLE then 0 else if asyncStatus c = PGASYNC_BUSY then (if result c = None then 1 else 2) else 3)"

definition weight :: "pg_conn \<Rightarrow> nat" where
  "weight c = 4 * ahead c + phase c"

definition copy_status :: "PGAsyncStatusType \<Rightarrow> ExecStatusType option" where
  "copy_status a = (case a of PGASYNC_COPY_IN \<Rightarrow> Some PGRES_COPY_IN | PGASYNC_COPY_OUT \<Rightarrow> Some PGRES_COPY_OUT
     | PGASYNC_COPY_BOTH \<Rightarrow> Some PGRES_COPY_BOTH | _ \<Rightarrow> None)"

lemma copy_result_session:
  assumes "session_ok c" "copy_status (asyncStatus c) = Some st"
  shows "\<exists>res c'. copy_result c st = Some (res, c') \<and> given c res c' \<and> (\<forall>r. res = Some r \<longrightarrow> resultStatus r = st)"
proof -
  have "curTuple c = None" using session_okD(1) [OF assms(1)] assms(2) by (cases "curTuple c") (auto simp: client_ok_iff row_started_def copy_status_def)
  have empty: "\<exists>res c'. makeEmptyPGresult c st = Some (res, c') \<and> given c res c' \<and> (\<forall>r. res = Some r \<longrightarrow> resultStatus r = st)"
  proof -
    have keep: "session_ok (set_alloc a c)" for a
      using told_session [OF assms(1), of "set_alloc a c"] session_okD(2) [OF assms(1)] by (simp add: told_def only_env_def set_alloc_def same_events_def same_io_def conn_ok_def in_ok_def out_ok_def)
    obtain r a where "makeEmptyPGresult c st = Some (r, set_alloc a c)" "\<forall>x. r = Some x \<longrightarrow> result_ok x \<and> resultStatus x = st"
      by (cases rule: makeEmpty_cases [OF session_okD(3) [OF assms(1)], of st]) auto
    then show ?thesis using keep [of a] \<open>curTuple c = None\<close> by (auto simp: given_def set_alloc_def ahead_def in_data_def stream_def)
  qed
  show ?thesis
  proof (cases "\<exists>r. result c = Some r \<and> resultStatus r = st")
    case True
    then show ?thesis using pqPrepareAsyncResult_session [OF assms(1)] by (fastforce simp: copy_result_def)
  next
    case False
    then have "copy_result c st = makeEmptyPGresult c st" by (auto simp: copy_result_def split: option.splits)
    then show ?thesis using empty by simp
  qed
qed


lemma given_steady:
  assumes "given c res c'"
  shows "same_events (env c) (env c')"
proof -
  have "env c' = (env c)\<lparr>e_alloc := e_alloc (env c')\<rparr>" using assms by (simp add: given_def)
  moreover have "same_events (env c) ((env c)\<lparr>e_alloc := x\<rparr>)" for x by (simp add: same_events_def same_io_def)
  ultimately show ?thesis by metis
qed

text \<open>The state in which \<open>PQgetResult\<close> leaves the query, from the state after the wait.\<close>

definition came_back :: "pg_conn \<Rightarrow> pg_result option \<Rightarrow> pg_conn \<Rightarrow> bool" where
  "came_back c res c' \<longleftrightarrow> session_ok c' \<and> curTuple c' = None \<and> status c' = status c \<and> ahead c' = ahead c \<and> same_events (env c) (env c') \<and>
     (\<forall>r. res = Some r \<longrightarrow> result_ok r) \<and>
     (case asyncStatus c of
        PGASYNC_IDLE \<Rightarrow> res = None \<and> c' = c
      | PGASYNC_BUSY \<Rightarrow> False
      | PGASYNC_READY \<Rightarrow> asyncStatus c' = PGASYNC_BUSY \<and> result c' = None \<and> (\<forall>r. result c = Some r \<longrightarrow> res = Some r)
      | _ \<Rightarrow> asyncStatus c' = asyncStatus c \<and> (\<forall>r. res = Some r \<longrightarrow> Some (resultStatus r) = copy_status (asyncStatus c)))"

lemma current_result_session:
  assumes "session_ok c" "asyncStatus c \<noteq> PGASYNC_BUSY"
  shows "\<exists>res c'. current_result c = Some (res, c') \<and> came_back c res c'"
proof -
  have copy: "\<exists>res c'. copy_result c st = Some (res, c') \<and> came_back c res c'" if st: "copy_status (asyncStatus c) = Some st" for st
  proof -
    obtain res c' where p: "copy_result c st = Some (res, c')" "given c res c'" "\<forall>r. res = Some r \<longrightarrow> resultStatus r = st"
      using copy_result_session [OF assms(1) st] by blast
    then have "came_back c res c'"
      using st given_steady [OF p(2)] by (cases "asyncStatus c") (simp_all add: came_back_def given_def copy_status_def)
    then show ?thesis using p(1) by blast
  qed
  show ?thesis
  proof (cases "asyncStatus c")
    case PGASYNC_IDLE
    moreover have "curTuple c = None" using session_okD(1) [OF assms(1)] PGASYNC_IDLE by (cases "curTuple c") (auto simp: client_ok_iff row_started_def)
    ultimately show ?thesis using assms(1) by (simp add: current_result_def came_back_def same_events_def same_io_def)
  next
    case PGASYNC_READY
    obtain res c' where p: "pqPrepareAsyncResult c = Some (res, c')" "given c res c'" "result c' = None" "\<forall>r. result c = Some r \<longrightarrow> res = Some r"
      using pqPrepareAsyncResult_session [OF assms(1)] by blast
    then show ?thesis using PGASYNC_READY given_steady [OF p(2)] by (simp add: current_result_def came_back_def given_def)
  qed (use assms(2) copy in \<open>auto simp: copy_status_def current_result_def\<close>)
qed

text \<open>\<open>PQgetResult\<close> returns. Each result it gives brings the client nearer to the end, but for a COPY, which the application has to end.\<close>

definition got_result :: "pg_conn \<Rightarrow> pg_result option \<Rightarrow> pg_conn \<Rightarrow> bool" where
  "got_result c res c' \<longleftrightarrow> session_ok c' \<and> curTuple c' = None \<and> progress False (env c) (env c') \<and> (\<forall>r. res = Some r \<longrightarrow> result_ok r \<and>
     (status c' = CONNECTION_BAD \<and> asyncStatus c' = PGASYNC_BUSY \<or> weight c' < weight c \<and> (asyncStatus c' = PGASYNC_IDLE \<longrightarrow> resultStatus r = PGRES_FATAL_ERROR) \<or>
      weight c' \<le> weight c \<and> Some (resultStatus r) = copy_status (asyncStatus c')))"

lemma PQgetResult_session:
  assumes "session_ok c"
  shows "\<exists>res c'. PQgetResult c = Some (res, c') \<and> got_result c res c'"
proof -
  obtain c1 where c1: "parseInput c = Some c1" "session_ok c1" "net_frame c c1" "onward c c1" by (rule parse_session_onward [OF assms])
  obtain ok c2 where c2: "wait_result c1 = Some (ok, c2)" "session_ok c2" "onward c1 c2" "progress False (env c1) (env c2)"
    "ok \<longleftrightarrow> asyncStatus c2 \<noteq> PGASYNC_BUSY" using wait_result_session [OF c1(2)] by blast
  have pr: "progress False (env c) (env c2)" using c1(3) c2(4) by (auto simp: net_frame_def intro: same_progress)
  have on: "onward c c2"
  proof (cases "asyncStatus c1 = PGASYNC_BUSY")
    case True
    then show ?thesis by (rule onward_trans [OF c1(4) c2(3)])
  next
    case False
    then show ?thesis using c1(4) c2(1) by (simp add: wait_result.simps)
  qed
  show ?thesis
  proof (cases ok)
    case True
    obtain res c' where r: "current_result c2 = Some (res, c')" "came_back c2 res c'"
      using current_result_session [OF c2(2)] c2(5) True by blast
    note b = r(2) [unfolded came_back_def]
    have "status c' = CONNECTION_BAD \<and> asyncStatus c' = PGASYNC_BUSY \<or> weight c' < weight c \<and> (asyncStatus c' = PGASYNC_IDLE \<longrightarrow> resultStatus x = PGRES_FATAL_ERROR) \<or>
      weight c' \<le> weight c \<and> Some (resultStatus x) = copy_status (asyncStatus c')" if "res = Some x" for x
      using on b that by (cases "asyncStatus c2") (auto simp: onward_def stays_def weight_def phase_def)
    moreover have "progress False (env c) (env c')" using progress_same [OF pr] b by blast
    ultimately have "got_result c res c'" using b by (simp add: got_result_def)
    then show ?thesis using c1(1) c2(1) r(1) True by (simp add: PQgetResult_def)
  next
    case False
    have busy: "asyncStatus c2 = PGASYNC_BUSY" using c2(5) False by simp
    have "may_report c2" using session_okD(1) [OF c2(2)] may_report_started by (simp add: client_ok_iff)
    then obtain c3 where c3: "pqSaveErrorResult c2 = Some c3" "moved c2 c3" "error_result c3" "asyncStatus c3 = asyncStatus c2"
      using pqSaveErrorResult_spec [of c2] by (auto simp: may_report_def results_ok_def)
    have e: "results_ok c3" "rows_of c3 = 0" "curTuple c3 = None" using c3(3) by (auto simp: error_result_def results_ok_def rows_of_def split: option.splits)
    have "0 \<le> rows_of c2" using session_okD(4) [OF c2(2)] by (rule rows_of_nonneg)
    then have s3: "session_ok c3" using calm_session [OF c2(2) c3(2)] e by simp
    let ?c = "c3\<lparr>asyncStatus := PGASYNC_IDLE\<rparr>"
    have "session_ok ?c" using s3 e by simp
    from pqPrepareAsyncResult_session [OF this] obtain res c' where p: "pqPrepareAsyncResult ?c = Some (res, c')" "given ?c res c'"
      "result c3 = None \<longrightarrow> (\<forall>r. res = Some r \<longrightarrow> resultStatus r = PGRES_FATAL_ERROR)" "\<forall>r. result c3 = Some r \<longrightarrow> res = Some r" by auto
    have fatal: "resultStatus r = PGRES_FATAL_ERROR" if "res = Some r" for r
      using p(3,4) c3(3) that by (cases "result c3") (auto simp: error_result_def)
    have a: "ahead c' = ahead c2" "asyncStatus c' = PGASYNC_IDLE" "session_ok c'" "curTuple c' = None"
      using p(2) moved_ahead [OF c3(2)] by (simp_all add: given_def)
    have "weight c' < weight c" using on busy a by (auto simp: onward_def stays_def weight_def phase_def)
    moreover have "same_events (env c2) (env c')"
      using moved_net_frame [OF c3(2)] given_steady [OF p(2)] by (auto simp: net_frame_def intro: same_events_trans)
    then have "progress False (env c) (env c')" by (rule progress_same [OF pr])
    ultimately have "got_result c res c'" using a fatal p(2) by (auto simp: got_result_def given_def)
    then show ?thesis using c1(1) c2(1) False c3(1) p(1) by (simp add: PQgetResult_def)
  qed
qed



section \<open>The end of a COPY\<close>

definition copy_end_messages :: "byte list option \<Rightarrow> PGQueryClass \<Rightarrow> byte list" where
  "copy_end_messages errormsg k =
     (case errormsg of None \<Rightarrow> client_message 0x63 [] | Some msg \<Rightarrow> client_message 0x66 (msg @ [0])) @
     (if k = PGQUERY_SIMPLE then [] else client_message 0x53 [])"

lemma copy_end_sender:
  assumes "\<And>msg. errormsg = Some msg \<Longrightarrow> length msg + 1 < 2 ^ 31" "PG_PROTOCOL_MAJOR (pversion c) \<ge> 3"
  shows "message_sender (put_all (copy_end_calls errormsg c)) (copy_end_messages errormsg (queryclass c))"
proof -
  let ?head = "case errormsg of Some msg \<Rightarrow> [pqPutMsgStart 0x66 False, pqPuts msg, pqPutMsgEnd] | None \<Rightarrow> [pqPutMsgStart 0x63 False, pqPutMsgEnd]"
  have head: "message_sender (put_all ?head) (case errormsg of None \<Rightarrow> client_message 0x63 [] | Some msg \<Rightarrow> client_message 0x66 (msg @ [0]))"
  proof (cases errormsg)
    case None
    then show ?thesis using message_parts [where ws = "[]" and bs = "[]" and t = "0x63"] by simp
  next
    case (Some msg)
    have "list_all2 part_writer [pqPuts msg] [msg @ [0]]" using put_string assms(1) Some by simp
    from message_parts [OF this, where t = "0x66"] show ?thesis using Some by simp
  qed
  show ?thesis
  proof (cases "queryclass c = PGQUERY_SIMPLE")
    case True
    then show ?thesis using head assms(2) by (simp add: copy_end_calls_def copy_end_messages_def)
  next
    case False
    have "message_sender (put_all [pqPutMsgStart 0x53 False, pqPutMsgEnd]) (client_message 0x53 [])"
      using message_parts [where ws = "[]" and bs = "[]" and t = "0x53"] by simp
    from message_chain [OF head this] show ?thesis using False assms(2) by (simp add: copy_end_calls_def copy_end_messages_def)
  qed
qed

lemma PQputCopyEnd_session:
  assumes "session_ok c" "curTuple c = None" "\<And>msg. errormsg = Some msg \<Longrightarrow> length msg + 1 < 2 ^ 31"
  shows "\<exists>r c'. PQputCopyEnd c errormsg = Some (r, c') \<and> session_ok c' \<and> curTuple c' = None \<and>
    (r = 1 \<and> asyncStatus c = PGASYNC_COPY_IN \<and> asyncStatus c' = PGASYNC_BUSY \<and> ahead c' = ahead c \<and>
       e_sent (env c') @ pending c' = e_sent (env c) @ pending c @ copy_end_messages errormsg (queryclass c) \<or>
     r = - 1 \<and> (\<exists>n. e_sent (env c') = e_sent (env c) @ take n (pending c @ copy_end_messages errormsg (queryclass c))))"
proof (cases "asyncStatus c = PGASYNC_COPY_IN")
  case False
  obtain c1 where c1: "refuse (- 1 :: int) c (lit ''no COPY in progress'') = Some (- 1, c1)" "session_ok c1" "told c c1"
    by (rule refuse_session [OF assms(1), of "lit ''no COPY in progress''" "- 1"]) simp
  then have "PQputCopyEnd c errormsg = Some (- 1, c1)" using False c1(1) by (simp add: PQputCopyEnd_def)
  moreover have "e_sent (env c1) = e_sent (env c) @ take 0 (pending c @ copy_end_messages errormsg (queryclass c))" "curTuple c1 = None"
    using told_fields [OF c1(3)] assms(2) by simp_all
  ultimately show ?thesis using c1(2) by blast
next
  case True
  let ?bs = "copy_end_messages errormsg (queryclass c)"
  note v = session_okD(5) [OF assms(1)]
  obtain r c1 where 1: "put_all (copy_end_calls errormsg c) c = Some (r, c1)" "conn_ok c1" "through c c1"
    "if r = 0 then e_sent (env c1) @ pending c1 = e_sent (env c) @ pending c @ ?bs
       else r = EOF \<and> (\<exists>k. e_sent (env c1) = e_sent (env c) @ take k (pending c @ ?bs))"
    using message_sender.sends [OF copy_end_sender session_okD(2) [OF assms(1)] v] assms(3) v by blast
  have s1: "session_ok c1" by (rule through_session [OF assms(1) 1(3,2)])
  have io: "curTuple c1 = None" "ahead c1 = ahead c"
    using 1(3) assms(2) only_io_more [of c c1] through_steady [OF 1(3)] by (simp_all add: through_def)
  show ?thesis
  proof (cases "r = 0")
    case False
    then have "PQputCopyEnd c errormsg = Some (- 1, c1)" using True v 1(1,4) by (auto simp: PQputCopyEnd_def EOF_def)
    then show ?thesis using False 1(4) s1 io(1) by auto
  next
    case zero: True
    let ?c1 = "c1\<lparr>asyncStatus := PGASYNC_BUSY\<rparr>"
    have sb: "session_ok ?c1" using s1 io by simp
    obtain c2 where c2: "reset_error ?c1 = Some c2" "session_ok c2" "told ?c1 c2" by (rule reset_error_session [OF sb])
    note f = told_fields [OF c2(3)]
    obtain r3 c3 where c3: "pqFlush c2 = Some (r3, c3)" "client_ok c3" "through c2 c3" "send_answer c2 (length (pending c2)) r3 c3"
      using pqFlush_client [OF session_okD(1) [OF c2(2)]] by blast
    have s3: "session_ok c3" by (rule through_session [OF c2(2) c3(3) client_okD(1) [OF c3(2)]])
    have t3: "curTuple c3 = None" "asyncStatus c3 = PGASYNC_BUSY" "ahead c3 = ahead c"
      using c3(3) only_io_more [of c2 c3] through_steady [OF c3(3)] f io by (simp_all add: through_def ahead_def)
    have sent: "e_sent (env c2) = e_sent (env c1)" "pending c2 = pending c1" using f by (simp_all add: pending_def)
    have all: "e_sent (env c2) @ pending c2 = e_sent (env c) @ pending c @ ?bs" using 1(4) zero sent by simp
    have run: "PQputCopyEnd c errormsg = Some (if r3 < 0 then - 1 else 1, c3)"
      using True v 1(1) zero c2(1) c3(1) by (simp add: PQputCopyEnd_def)
    show ?thesis
    proof (cases "r3 < 0")
      case False
      then have "e_sent (env c3) @ pending c3 = e_sent (env c2) @ pending c2" using c3(4) by (auto simp: send_answer_def sent_out_def)
      then show ?thesis using run False s3 t3 True all by auto
    next
      case failed: True
      obtain n where n: "e_sent (env c3) = e_sent (env c2) @ take n (pending c2)" using c3(4) failed by (auto simp: send_answer_def sent_out_def)
      then have "e_sent (env c3) @ drop n (pending c2) = e_sent (env c) @ pending c @ ?bs" using all by simp
      moreover obtain s where "e_sent (env c1) = e_sent (env c) @ s" using 1(3) by (auto simp: through_def)
      then have "length (e_sent (env c)) \<le> length (e_sent (env c3))" using n sent by simp
      ultimately have "\<exists>k. e_sent (env c3) = e_sent (env c) @ take k (pending c @ ?bs)" by (rule sent_prefix)
      then show ?thesis using run failed s3 t3 by auto
    qed
  qed
qed



section \<open>Before and after a command\<close>

lemma discard_result_session:
  assumes "got_result c (Some r) c1"
  shows "\<exists>ok c2. discard_result (resultStatus r) c1 = Some (ok, c2) \<and> session_ok c2 \<and> (ok \<and> status c2 \<noteq> CONNECTION_BAD \<longrightarrow> weight c2 < weight c)"
proof -
  have s: "session_ok c1" "curTuple c1 = None" using assms by (simp_all add: got_result_def)
  have w: "status c1 = CONNECTION_BAD \<and> asyncStatus c1 = PGASYNC_BUSY \<or> weight c1 < weight c \<and> (asyncStatus c1 = PGASYNC_IDLE \<longrightarrow> resultStatus r = PGRES_FATAL_ERROR) \<or>
      weight c1 \<le> weight c \<and> Some (resultStatus r) = copy_status (asyncStatus c1)" using assms by (simp add: got_result_def)
  note v = session_okD(5) [OF s(1)]
  consider "resultStatus r = PGRES_COPY_IN" | "resultStatus r = PGRES_COPY_OUT" | "resultStatus r = PGRES_COPY_BOTH"
    | "resultStatus r \<noteq> PGRES_COPY_IN" "resultStatus r \<noteq> PGRES_COPY_OUT" "resultStatus r \<noteq> PGRES_COPY_BOTH" by blast
  then show ?thesis
  proof cases
    case 1
    obtain k c2 where c2: "PQputCopyEnd c1 (Some (lit ''COPY terminated by new PQexec'')) = Some (k, c2)" "session_ok c2"
      "k = 1 \<and> asyncStatus c1 = PGASYNC_COPY_IN \<and> asyncStatus c2 = PGASYNC_BUSY \<and> ahead c2 = ahead c1 \<or> k = - 1"
      using PQputCopyEnd_session [OF s, of "Some (lit ''COPY terminated by new PQexec'')"] by auto
    have "weight c2 < weight c" if "k = 1"
      using c2(3) w that by (auto simp: weight_def phase_def)
    then show ?thesis using c2 1 v by (auto simp: discard_result_def)
  next
    case 2
    let ?c2 = "c1\<lparr>asyncStatus := PGASYNC_BUSY\<rparr>"
    have "weight ?c2 < weight c" if "status ?c2 \<noteq> CONNECTION_BAD"
      using w that 2 by (auto simp: weight_def phase_def copy_status_def split: if_splits PGAsyncStatusType.splits)
    then show ?thesis using 2 v s by (auto simp: discard_result_def)
  next
    case 3
    obtain c2 where "refuse False c1 (lit ''PQexec not allowed during COPY BOTH'') = Some (False, c2)" "session_ok c2" "told c1 c2"
      by (rule refuse_session [OF s(1), of "lit ''PQexec not allowed during COPY BOTH''" False]) simp
    then show ?thesis using 3 by (auto simp: discard_result_def)
  next
    case 4
    then have "copy_status (asyncStatus c1) \<noteq> Some (resultStatus r)" by (cases "asyncStatus c1") (auto simp: copy_status_def)
    then show ?thesis using 4 w s(1) by (auto simp: discard_result_def)
  qed
qed

lemma PQexecStart_session: "session_ok c \<Longrightarrow> \<exists>ok c'. PQexecStart c = Some (ok, c') \<and> session_ok c'"
proof (induction "weight c" arbitrary: c rule: less_induct)
  case less
  obtain res c1 where r: "PQgetResult c = Some (res, c1)" "got_result c res c1" using PQgetResult_session [OF less.prems] by blast
  show ?case
  proof (cases res)
    case None
    then show ?thesis using r by (intro exI [of _ True] exI [of _ c1]) (simp add: PQexecStart.simps got_result_def)
  next
    case (Some x)
    obtain ok c2 where d: "discard_result (resultStatus x) c1 = Some (ok, c2)" "session_ok c2"
      "ok \<and> status c2 \<noteq> CONNECTION_BAD \<Longrightarrow> weight c2 < weight c" using discard_result_session r(2) Some by blast
    show ?thesis
    proof (cases "ok \<and> status c2 \<noteq> CONNECTION_BAD")
      case True
      from less.hyps [OF d(3) [OF True] d(2)] show ?thesis using r(1) Some d(1) True by (simp add: PQexecStart.simps [of c])
    next
      case False
      then have "\<not> ok \<or> status c2 = CONNECTION_BAD" by blast
      then show ?thesis using r(1) Some d(1,2) by (auto simp: PQexecStart.simps [of c])
    qed
  qed
qed

text \<open>The states of \<open>PQexecFinish\<close>: the last result and the connection at the start of a turn.\<close>

inductive finish_reach :: "pg_result option \<Rightarrow> pg_conn \<Rightarrow> pg_result option \<Rightarrow> pg_conn \<Rightarrow> bool" where
  finish_start: "finish_reach l c l c"
| finish_turn: "PQgetResult c = Some (Some r, c1) \<Longrightarrow> merge_result l r c1 = Some (r2, c2) \<Longrightarrow> \<not> stops_exec (resultStatus r2) \<Longrightarrow>
    status c2 \<noteq> CONNECTION_BAD \<Longrightarrow> finish_reach (Some r2) c2 l' c' \<Longrightarrow> finish_reach l c l' c'"

text \<open>Two errors cannot be joined when one has no text, for lack of memory.\<close>

definition no_text :: "pg_result option \<Rightarrow> pg_conn \<Rightarrow> bool" where
  "no_text last_res c \<longleftrightarrow> (\<exists>l r c1. last_res = Some l \<and> PQgetResult c = Some (Some r, c1) \<and> resultStatus l = PGRES_FATAL_ERROR \<and>
     resultStatus r = PGRES_FATAL_ERROR \<and> (errMsg r = None \<or>
       (\<exists>m l' a. errMsg r = Some m \<and> pqCatenateResultError (e_alloc (env c1)) l m = Some (l', a) \<and> errMsg l' = None)))"

lemma merge_result_session:
  assumes "session_ok c1" "result_ok r" "\<And>l. last_res = Some l \<Longrightarrow> result_ok l"
  shows "(\<exists>r2 c2. merge_result last_res r c1 = Some (r2, c2) \<and> session_ok c2 \<and> result_ok r2 \<and> resultStatus r2 = resultStatus r \<and>
      weight c2 = weight c1 \<and> status c2 = status c1) \<or>
    (\<exists>l. last_res = Some l \<and> resultStatus l = PGRES_FATAL_ERROR \<and> resultStatus r = PGRES_FATAL_ERROR \<and> (errMsg r = None \<or>
       (\<exists>m l' a. errMsg r = Some m \<and> pqCatenateResultError (e_alloc (env c1)) l m = Some (l', a) \<and> errMsg l' = None)))"
proof (cases "\<exists>l. last_res = Some l \<and> resultStatus l = PGRES_FATAL_ERROR \<and> resultStatus r = PGRES_FATAL_ERROR")
  case False
  then have "merge_result last_res r c1 = Some (r, c1)" by (auto simp: merge_result_def split: option.splits)
  then show ?thesis using assms by auto
next
  case True
  then obtain l where l: "last_res = Some l" "resultStatus l = PGRES_FATAL_ERROR" "resultStatus r = PGRES_FATAL_ERROR" by blast
  show ?thesis
  proof (cases "errMsg r")
    case None
    then show ?thesis using l by blast
  next
    case (Some m)
    then have "str_ok m" using assms(2) by (simp add: result_ok_def)
    then obtain l' a where l': "pqCatenateResultError (e_alloc (env c1)) l m = Some (l', a)" "result_ok l'" "resultStatus l' = resultStatus l"
      using pqCatenateResultError_spec [OF assms(3) [OF l(1)]] by blast
    show ?thesis
    proof (cases "errMsg l'")
      case None
      then show ?thesis using l Some l'(1) by blast
    next
      case t: (Some t)
      have a1: "told c1 (set_alloc a c1)" by (simp add: told_def only_env_def set_alloc_def same_events_def same_io_def)
      have "session_ok (set_alloc a c1)" by (rule told_session [OF assms(1) a1]) (use session_okD(2) [OF assms(1)] in simp)
      then obtain c2 where c2: "reset_error (set_alloc a c1) = Some c2" "session_ok c2" "told (set_alloc a c1) c2" by (rule reset_error_session)
      have v: "valid_expbuf (errorMessage c2)" using session_okD(2) [OF c2(2)] by (simp add: conn_ok_def)
      have "0 \<in> set (t @ [0])" "length (t @ [0]) < 2 ^ 32" using l'(2) t by (auto simp: result_ok_def str_ok_def)
      then obtain e a2 where e: "appendPQExpBufferStr (e_alloc (env c2)) (errorMessage c2) (t @ [0]) = Some (e, a2)" "valid_expbuf e"
        using appendPQExpBufferStr_spec [OF v] by (blast dest: appended_valid)
      let ?c3 = "set_alloc a2 (c2\<lparr>errorMessage := e\<rparr>)"
      have a3: "told c2 ?c3" by (simp add: told_def only_env_def set_alloc_def same_events_def same_io_def)
      have k: "conn_ok (c2\<lparr>errorMessage := e\<rparr>)" using session_okD(2) [OF c2(2)] e(2) by (simp add: conn_ok_def in_ok_def out_ok_def)
      then have "session_ok ?c3" by (intro told_session [OF c2(2) a3]) simp
      moreover have "weight ?c3 = weight c1" "status ?c3 = status c1"
        using told_fields [OF c2(3)] told_fields [OF a3] by (simp_all add: weight_def phase_def ahead_def stream_def set_alloc_def in_data_def)
      ultimately show ?thesis using l l' Some t c2(1) e(1) by (auto simp: merge_result_def)
    qed
  qed
qed

lemma finish_loop_session:
  "session_ok c \<Longrightarrow> (\<And>l. last_res = Some l \<Longrightarrow> result_ok l) \<Longrightarrow>
    (\<exists>res c'. finish_loop last_res c = Some (res, c') \<and> session_ok c' \<and> (\<forall>r. res = Some r \<longrightarrow> result_ok r)) \<or>
    (\<exists>l' c'. finish_reach last_res c l' c' \<and> no_text l' c')"
proof (induction "weight c" arbitrary: c last_res rule: less_induct)
  case less
  obtain res c1 where r: "PQgetResult c = Some (res, c1)" "got_result c res c1" using PQgetResult_session [OF less.prems(1)] by blast
  show ?case
  proof (cases res)
    case None
    then show ?thesis using r less.prems(2) by (simp add: finish_loop.simps got_result_def)
  next
    case (Some x)
    have x: "session_ok c1" "result_ok x" using r(2) Some by (simp_all add: got_result_def)
    show ?thesis
    proof (cases "\<exists>r2 c2. merge_result last_res x c1 = Some (r2, c2) \<and> session_ok c2 \<and> result_ok r2 \<and> resultStatus r2 = resultStatus x \<and>
      weight c2 = weight c1 \<and> status c2 = status c1")
      case False
      then have "no_text last_res c" using merge_result_session [OF x less.prems(2)] r(1) Some unfolding no_text_def by blast
      then show ?thesis using finish_start by blast
    next
      case True
      then obtain r2 c2 where m: "merge_result last_res x c1 = Some (r2, c2)" "session_ok c2" "result_ok r2" "resultStatus r2 = resultStatus x"
        "weight c2 = weight c1" "status c2 = status c1" by blast
      show ?thesis
      proof (cases "stops_exec (resultStatus r2) \<or> status c2 = CONNECTION_BAD")
        case True
        then show ?thesis using r(1) Some m by (auto simp: finish_loop.simps [of last_res c])
      next
        case False
        then have "weight c2 < weight c"
          using r(2) Some m(4-6) by (cases "asyncStatus c1") (auto simp: got_result_def stops_exec_def copy_status_def)
        from less.hyps [OF this m(2), of "Some r2"] m(3)
        consider (ends) res' c' where "finish_loop (Some r2) c2 = Some (res', c')" "session_ok c'" "\<forall>r. res' = Some r \<longrightarrow> result_ok r"
          | (stuck) l' c' where "finish_reach (Some r2) c2 l' c'" "no_text l' c'" by blast
        then show ?thesis
        proof cases
          case ends
          then show ?thesis using r(1) Some m(1) False by (auto simp: finish_loop.simps [of last_res c])
        next
          case stuck
          have "finish_reach last_res c l' c'"
            by (rule finish_turn [OF _ m(1) _ _ stuck(1)]) (use r(1) Some False in simp_all)
          then show ?thesis using stuck(2) by blast
        qed
      qed
    qed
  qed
qed

end
