(* ===== verification/Answers.thy ===== *)
theory Answers
  imports Returns ParseProps
begin

text \<open>
  From the network to the application: an answer of the server, cut into packets in any way, comes out of \<open>PQgetResult\<close>.
\<close>

section \<open>A healthy connection\<close>

text \<open>The packets come in one after the other, without an error, and \<open>poll\<close> finds the socket ready.\<close>

definition healthy :: "env \<Rightarrow> bool" where
  "healthy e \<longleftrightarrow> (\<forall>ev \<in> set (e_recv e). \<exists>bs. ev = Recv bs \<and> bs \<noteq> []) \<and> (\<forall>p \<in> set (e_poll e). p = Poll 1)"

lemma healthy_same: "same_events e e' \<Longrightarrow> healthy e' = healthy e"
  by (simp add: healthy_def same_events_def same_io_def)

lemma healthy_update [simp]: "healthy (e\<lparr>e_errno := x\<rparr>) = healthy e" "healthy (e\<lparr>e_alloc := a\<rparr>) = healthy e"
  by (simp_all add: healthy_def)

text \<open>What such a connection keeps.\<close>

definition alike :: "pg_conn \<Rightarrow> pg_conn \<Rightarrow> bool" where
  "alike c c' \<longleftrightarrow> sock c' = sock c \<and> status c' = status c \<and> inStart c' \<le> inStart c \<and>
     (plenty (e_alloc (env c)) \<longrightarrow> e_alloc (env c') = e_alloc (env c)) \<and> (healthy (env c) \<longrightarrow> healthy (env c'))"

lemma alike_refl [simp]: "alike c c"
  by (simp add: alike_def)

lemma alike_trans: "alike a b \<Longrightarrow> alike b c \<Longrightarrow> alike a c"
  by (auto simp: alike_def)

lemma c_recv_healthy:
  assumes "healthy e" "0 < n"
  obtains bs e' where "c_recv e n = (Recv bs, e')" "healthy e'" "e_alloc e' = e_alloc e" "bs = [] \<longleftrightarrow> e_recv e = []"
proof (cases "e_recv e")
  case Nil
  then show thesis using that assms(1) by (simp add: c_recv_def)
next
  case (Cons ev r)
  then obtain bs where bs: "ev = Recv bs" "bs \<noteq> []" using assms(1) by (auto simp: healthy_def)
  have h: "healthy (e\<lparr>e_recv := r\<rparr>)" "drop n bs \<noteq> [] \<Longrightarrow> healthy (e\<lparr>e_recv := Recv (drop n bs) # r\<rparr>)"
    using assms(1) Cons by (auto simp: healthy_def)
  show thesis
  proof (cases "length bs \<le> n")
    case True
    then show thesis using that [of bs "e\<lparr>e_recv := r\<rparr>"] Cons bs h(1) by (simp add: c_recv_def)
  next
    case False
    then show thesis using that [of "take n bs" "e\<lparr>e_recv := Recv (drop n bs) # r\<rparr>"] Cons bs h(2) assms(2) by (simp add: c_recv_def)
  qed
qed

lemma read_some_healthy:
  assumes "conn_ok c" "healthy (env c)" "inEnd c < inBufSize c" "read_some c = Some (r, c')"
  shows "alike c c'" "healthy (env c')" "r \<ge> 0" "r = 0 \<longleftrightarrow> e_recv (env c) = []" "inEnd c' = inEnd c" "inBufSize c' = inBufSize c" "inStart c' = inStart c"
proof -
  obtain bs e where e: "c_recv (env c) (nat (inBufSize c - inEnd c)) = (Recv bs, e)" "healthy e" "e_alloc e = e_alloc (env c)"
    "bs = [] \<longleftrightarrow> e_recv (env c) = []"
    by (rule c_recv_healthy [OF assms(2), of "nat (inBufSize c - inEnd c)"]) (use assms(3) in simp_all)
  then obtain b where b: "r = int (length bs)" "c' = c\<lparr>env := e\<lparr>e_errno := None\<rparr>, inBuffer := b\<rparr>"
    using assms(4) by (auto simp: read_some_def pqsecure_read_def bind_Some_iff set_errno_def)
  show "alike c c'" "healthy (env c')" "r \<ge> 0" "r = 0 \<longleftrightarrow> e_recv (env c) = []" "inEnd c' = inEnd c" "inBufSize c' = inBufSize c" "inStart c' = inStart c"
    using e by (auto simp: b alike_def)
qed

lemma read_retry3_healthy:
  assumes "read_retry3 k c = Some (r, c')" "conn_ok c" "healthy (env c)" "inEnd c < inBufSize c" "k = 1 \<or> k = 0 \<and> e_recv (env c) \<noteq> []"
  shows "r = 1 \<and> alike c c' \<and> healthy (env c')"
proof -
  have "conn_ok c \<and> healthy (env c) \<and> inEnd c < inBufSize c \<and> (k = 1 \<or> k = 0 \<and> e_recv (env c) \<noteq> []) \<longrightarrow> fst y = 1 \<and> alike c (snd y) \<and> healthy (env (snd y))"
    if "read_retry3 k c = Some y" for y
  proof (rule read_retry3.raw_induct [where P = "\<lambda>k c y. conn_ok c \<and> healthy (env c) \<and> inEnd c < inBufSize c \<and>
      (k = 1 \<or> k = 0 \<and> e_recv (env c) \<noteq> []) \<longrightarrow> fst y = 1 \<and> alike c (snd y) \<and> healthy (env (snd y))", OF _ that], goal_cases)
    case (1 loop k c y)
    show ?case
    proof
      assume a: "conn_ok c \<and> healthy (env c) \<and> inEnd c < inBufSize c \<and> (k = 1 \<or> k = 0 \<and> e_recv (env c) \<noteq> [])"
      obtain n c1 where r: "read_some c = Some (n, c1)" using 1(2) by (auto simp: bind_Some_iff)
      note h = read_some_healthy [OF _ _ _ r]
      have h': "alike c c1" "healthy (env c1)" "n \<ge> 0" "n = 0 \<longleftrightarrow> e_recv (env c) = []" "inEnd c1 = inEnd c" "inBufSize c1 = inBufSize c"
        using h a by blast+
      let ?c = "c1\<lparr>inEnd := inEnd c1 + n\<rparr>"
      have l: "alike c ?c" using h'(1) by (simp add: alike_def)
      have ok: "n > 0 \<Longrightarrow> conn_ok ?c" using read_some_spec [of c] a r h'(5) by (auto simp: received_def)
      consider "n = 0" "k = 1" | "n > 0" "inEnd ?c > 32768 \<and> inBufSize ?c - inEnd ?c \<ge> 8192" | "n > 0" "\<not> (inEnd ?c > 32768 \<and> inBufSize ?c - inEnd ?c \<ge> 8192)"
        using h'(3,4) a by linarith
      then show "fst y = 1 \<and> alike c (snd y) \<and> healthy (env (snd y))"
      proof cases
        case 2
        then have y: "loop 1 ?c = Some y" using 1(2) r by (simp add: Let_def)
        have "fst y = 1 \<and> alike ?c (snd y) \<and> healthy (env (snd y))" using 1(1) [OF y] ok 2 h'(2) by simp
        then show ?thesis using alike_trans [OF l] by blast
      qed (use 1(2) r h' l in \<open>auto simp: Let_def\<close>)
    qed
  qed
  then show ?thesis using assms by fastforce
qed

lemma left_justify_alike:
  assumes "left_justify c = Some c'" "conn_ok c"
  shows "alike c c'" "env c' = env c" "inStart c' = 0" "inEnd c' - inStart c' = inEnd c - inStart c"
  using assms(1) in_okD [OF conn_okD(1) [OF assms(2)]] by (auto simp: left_justify_def bind_Some_iff alike_def split: if_splits)

lemma try_size_plenty: "try_size a b n m = (r, a') \<Longrightarrow> plenty a \<Longrightarrow> a' = a"
  by (auto simp: try_size_def c_realloc_def split: if_splits prod.splits option.splits)

lemma grow_plenty:
  assumes "grow_buffer a b s n = Some (r, a')" "plenty a"
  shows "a' = a"
proof -
  obtain m where m: "size_loop double_size n s = Some m" using assms(1) by (auto simp: grow_buffer_def bind_Some_iff)
  obtain x a1 where x: "try_size a b n m = (x, a1)" by (cases "try_size a b n m")
  have "a1 = a" by (rule try_size_plenty [OF x assms(2)])
  then show ?thesis using assms m x
    by (cases x) (auto simp: grow_buffer_def bind_Some_iff dest: try_size_plenty [OF _ assms(2)])
qed

lemma check_space_healthy:
  assumes "conn_ok c" "plenty (e_alloc (env c))" "n \<le> 2147475456"
  obtains b k where "pqCheckInBufferSpace n c = Some (0, c\<lparr>inBuffer := b, inBufSize := k\<rparr>)" "int n \<le> k" "conn_ok (c\<lparr>inBuffer := b, inBufSize := k\<rparr>)"
    "in_data (c\<lparr>inBuffer := b, inBufSize := k\<rparr>) = in_data c"
proof -
  obtain r c' where r: "pqCheckInBufferSpace n c = Some (r, c')" "conn_ok c'"
    "if r = 0 then grown (inBuffer c) (inBufSize c) n (inBuffer c') (inBufSize c') \<and>
       c' = c\<lparr>inBuffer := inBuffer c', inBufSize := inBufSize c', env := env c'\<rparr>
     else r = EOF \<and> only_env c c' \<and> (n \<le> 2147475456 \<longrightarrow> False \<in> set (oks (e_alloc (env c))))"
    using pqCheckInBufferSpace_spec [OF assms(1)] by blast
  then have z: "r = 0" "grown (inBuffer c) (inBufSize c) n (inBuffer c') (inBufSize c')"
      "c' = c\<lparr>inBuffer := inBuffer c', inBufSize := inBufSize c', env := env c'\<rparr>"
    using assms(2,3) by (auto simp: plenty_def split: if_splits)
  have "env c' = env c"
    using r(1) z(1) assms(2) by (auto simp: pqCheckInBufferSpace_def bind_Some_iff set_alloc_def EOF_def split: if_splits option.splits dest!: grow_plenty)
  then have c': "c' = c\<lparr>inBuffer := inBuffer c', inBufSize := inBufSize c'\<rparr>" using z(3) by (cases c; cases c') simp
  have "filled c' = filled c" using grown_bytes [OF _ z(2), of "nat (inEnd c)"] in_okD [OF conn_okD(1) [OF assms(1)]]
    by (subst c') (simp add: filled_def)
  moreover have "inStart c' = inStart c" "inEnd c' = inEnd c" by (subst c', simp)+
  ultimately have "in_data c' = in_data c"
    using in_data_filled [OF conn_okD(1) [OF assms(1)]] in_data_filled [OF conn_okD(1) [OF r(2)]] by simp
  moreover have "int n \<le> inBufSize c'" using z(2) by (auto simp: grown_def good_size_def)
  ultimately show thesis using that [of "inBufSize c'" "inBuffer c'"] r(1,2) z(1) c' by simp
qed

lemma pqReadData_healthy:
  assumes "pqReadData c = Some (r, c')" "conn_ok c" "healthy (env c)" "plenty (e_alloc (env c))" "0 \<le> sock c" "stream (env c) \<noteq> []" "inEnd c \<le> 2147467264"
  shows "r = 1" "alike c c'"
proof -
  obtain c1 where c1: "left_justify c = Some c1" "conn_ok c1" using left_justify_spec [OF assms(2)] by (auto simp: read_in_def)
  note l = left_justify_alike [OF c1(1) assms(2)]
  have i: "0 \<le> inStart c" "0 \<le> inEnd c1" "inEnd c1 \<le> inEnd c" using l(3,4) in_okD [OF conn_okD(1) [OF assms(2)]] in_okD [OF conn_okD(1) [OF c1(2)]] by linarith+
  obtain c2 where c2: "make_room c1 = Some (False, c2)" "conn_ok c2" "alike c1 c2" "env c2 = env c1" "inEnd c2 < inBufSize c2"
  proof (cases "inBufSize c1 - inEnd c1 < 8192")
    case False
    then show thesis using that [of c1] c1(2) by (simp add: make_room_def)
  next
    case True
    obtain b k where b: "pqCheckInBufferSpace (nat (inEnd c1) + 8192) c1 = Some (0, c1\<lparr>inBuffer := b, inBufSize := k\<rparr>)"
      "int (nat (inEnd c1) + 8192) \<le> k" "conn_ok (c1\<lparr>inBuffer := b, inBufSize := k\<rparr>)"
      by (rule check_space_healthy [OF c1(2), of "nat (inEnd c1) + 8192"]) (use assms(4,7) l(2) i in simp_all)
    show thesis by (rule that [of "c1\<lparr>inBuffer := b, inBufSize := k\<rparr>"]) (use True b i in \<open>simp_all add: make_room_def alike_def\<close>)
  qed
  have "read_retry3 0 c2 = Some (r, c')" using assms(1,5) c1(1) c2(1) by (simp add: pqReadData_def)
  moreover have "e_recv (env c2) \<noteq> []" "healthy (env c2)" using assms(3,6) l(2) c2(4) by (auto simp: stream_def)
  ultimately have "r = 1 \<and> alike c2 c'" using read_retry3_healthy c2(2,5) by blast
  then show "r = 1" "alike c c'" using alike_trans [OF l(1) alike_trans [OF c2(3)]] by simp_all
qed

lemma pqWait_healthy:
  assumes "healthy (env c)" "0 \<le> sock c"
  obtains c' where "pqWait True False c = Some (0, c')" "alike c c'"
proof -
  obtain e where e: "pqSocketPoll (env c) (sock c) True False (- 1) = (1, e)" "healthy e" "e_alloc e = e_alloc (env c)"
  proof (cases "e_poll (env c)")
    case Nil
    then show thesis using that assms(1) by (simp add: pqSocketPoll_def c_poll_def Let_def healthy_def)
  next
    case (Cons p ps)
    then show thesis using that assms(1) by (auto simp: pqSocketPoll_def c_poll_def Let_def healthy_def)
  qed
  have "poll_loop (env c) (sock c) True False (- 1) = Some (1, e)" using e(1) by (simp add: poll_loop.simps)
  then have "pqWait True False c = Some (0, c\<lparr>env := e\<rparr>)"
    using assms(2) by (simp add: pqWait_def pqWaitTimed_def pqSocketCheck_def)
  moreover have "alike c (c\<lparr>env := e\<rparr>)" using e by (simp add: alike_def)
  ultimately show thesis using that by blast
qed

text \<open>A client with nothing left to send and memory for everything, on such a connection.\<close>

definition good :: "pg_conn \<Rightarrow> bool" where
  "good c \<longleftrightarrow> session_ok c \<and> healthy (env c) \<and> plenty (e_alloc (env c)) \<and> 0 \<le> sock c \<and> status c = CONNECTION_OK \<and> outCount c = 0 \<and>
     inEnd c + int (length (stream (env c))) < 2 ^ 30"

lemma goodD:
  assumes "good c"
  shows "session_ok c" "healthy (env c)" "plenty (e_alloc (env c))" "0 \<le> sock c" "status c = CONNECTION_OK" "outCount c = 0"
    "inEnd c + int (length (stream (env c))) < 2 ^ 30" "conn_ok c" "parser_ok c"
  using assms session_okD [of c] by (simp_all add: good_def client_ok_def)

lemma good_through:
  assumes "good c" "through c c'" "alike c c'" "conn_ok c'" "outCount c' = 0"
  shows "good c'"
proof -
  obtain bs where bs: "in_data c' = in_data c @ bs" "stream (env c) = bs @ stream (env c')" using assms(2) by (auto simp: through_def)
  have "inEnd c' - inStart c' = inEnd c - inStart c + int (length bs)"
    using in_data_length [OF assms(4)] in_data_length [OF goodD(8) [OF assms(1)]] bs(1) by simp
  then have "inEnd c' \<le> inEnd c + int (length bs)" using assms(3) by (simp add: alike_def)
  then show ?thesis
    using assms through_session [OF goodD(1) [OF assms(1)] assms(2,4)] bs(2) by (simp add: good_def alike_def)
qed

lemma load_more_good:
  assumes "good c" "stream (env c) \<noteq> []"
  obtains c' where "load_more c = Some (True, c')" "good c'" "through c c'" "alike c c'" "e_sent (env c') = e_sent (env c)"
proof -
  note g = goodD [OF assms(1)]
  have f: "flush_all c = Some (0, c)" using g(6) by (simp add: flush_all.simps pqFlush_def)
  obtain c1 where c1: "pqWait True False c = Some (0, c1)" "alike c c1" by (rule pqWait_healthy [OF g(2,4)])
  obtain w c1' where w: "pqWait True False c = Some (w, c1')" "only_env c c1'" "conn_ok c1'" "same_io (env c) (env c1')" using pqWait_spec [OF g(8)] by blast
  then have k: "conn_ok c1" "only_env c c1" "same_io (env c) (env c1)" using c1(1) by auto
  have e: "inEnd c1 = inEnd c" "sock c1 = sock c" "outCount c1 = outCount c" using only_env_fields [OF k(2)] by simp_all
  have s1: "stream (env c1) = stream (env c)" using k(3) by (simp add: same_io_def stream_def)
  have t1: "through c c1" using only_env_through [OF k(2)] k(3) by (simp add: same_io_def)
  obtain r bs c2 where r: "pqReadData c1 = Some (r, c2)" "read_in c1 bs c2" using pqReadData_spec [OF k(1)] by blast
  have h1: "healthy (env c1)" "plenty (e_alloc (env c1))" using c1(2) g(2,3) by (simp_all add: alike_def)
  have "inEnd c1 \<le> 2147467264" using g(7) e(1) by simp
  note h = pqReadData_healthy [OF r(1) k(1) h1 _ _ this]
  have r1: "r = 1" "alike c1 c2" using h e(2) g(4) s1 assms(2) by simp_all
  have t2: "through c c2" using through_trans [OF t1 read_in_through [OF r(2)]] .
  have a2: "alike c c2" by (rule alike_trans [OF c1(2) r1(2)])
  have "good c2"
  proof (rule good_through [OF assms(1) t2 a2])
    show "conn_ok c2" using r(2) by (simp add: read_in_def)
    have "only_in c1 c2" using r(2) by (simp add: read_in_def)
    then show "outCount c2 = 0" using only_in_fields [of c1 c2] e(3) g(6) by simp
  qed
  moreover have "load_more c = Some (True, c2)" using f c1(1) r(1) r1(1) by (simp add: load_more_def)
  moreover have "e_sent (env c2) = e_sent (env c)" using k(3) r(2) by (simp add: same_io_def read_in_def)
  ultimately show thesis using that t2 a2 by blast
qed


section \<open>Messages that come in pieces\<close>

text \<open>The parser leaves an incomplete message alone, but for its cursor and the size of the buffer.\<close>

definition paused :: "pg_conn \<Rightarrow> pg_conn \<Rightarrow> bool" where
  "paused c c' \<longleftrightarrow> (\<exists>i b n. c' = c\<lparr>inCursor := i, inBuffer := b, inBufSize := n\<rparr>) \<and> in_data c' = in_data c"

lemma paused_fields:
  assumes "paused c c'"
  shows "in_data c' = in_data c" "env c' = env c" "asyncStatus c' = asyncStatus c" "result c' = result c" "curTuple c' = curTuple c"
    "queryclass c' = queryclass c" "sock c' = sock c" "status c' = status c" "inEnd c' = inEnd c" "outCount c' = outCount c" "verbosity c' = verbosity c"
  using assms by (auto simp: paused_def)

text \<open>Every function that reads a message comes to a stop in the same way when the message is not there in full.\<close>

lemma incomplete_turn:
  assumes "parser_ok c" "plenty (e_alloc (env c))" "in_data c = take k (server_message ident body)" "k < 5 + length body"
    and room: "inStart c + 5 + int (length body) \<le> 2147475456"
    and wait: "\<And>c2. inEnd (at_body c) - inCursor (at_body c) < int (length body) \<Longrightarrow> 0 \<le> inStart c \<Longrightarrow>
      pqCheckInBufferSpace (nat (inStart c + 5) + length body) (at_body c) = Some (0, c2) \<Longrightarrow> go_on ident (4 + int (length body)) (at_body c) = Some (out c2)"
  shows "\<exists>c'. or_eof (pqGetc (c\<lparr>inCursor := inStart c\<rparr>)) (\<lambda>c. Some (out c)) (\<lambda>i c. or_eof (pqGetInt 4 c) (\<lambda>c. Some (out c)) (go_on i)) = Some (out c') \<and>
    paused c c' \<and> state_ok c'"
proof -
  let ?c = "c\<lparr>inCursor := inStart c\<rparr>" let ?n = "int (length body)"
  have s: "state_ok ?c" using assms(1) by (simp add: parser_ok_def)
  have u0: "unread ?c = take k (server_message ident body)" using assms(3) by (simp add: unread_def in_data_def)
  have p: "paused c (c\<lparr>inCursor := i\<rparr>)" for i
    unfolding paused_def by (intro conjI exI [of _ i] exI [of _ "inBuffer c"] exI [of _ "inBufSize c"]) simp_all
  show ?thesis
  proof (cases "k = 0")
    case True
    then have "pqGetc ?c = Some (None, ?c)" using u0 by (cases rule: pqGetc_cases [OF s]) simp_all
    then show ?thesis using p s by (intro exI [of _ ?c]) (simp add: or_eof_def)
  next
    case False
    obtain b where b: "unread ?c = b # unread (skip 1 ?c)" "pqGetc ?c = Some (Some b, skip 1 ?c)" "moved ?c (skip 1 ?c)"
      using pqGetc_cases [OF s] u0 False by (auto simp: server_message_def)
    have "unread ?c = ident # take (k - 1) (be_bytes 4 (4 + ?n) @ body)"
      unfolding u0 server_message_def using False by (simp add: take_Cons')
    then have u1: "b = ident" "unread (skip 1 ?c) = take (k - 1) (be_bytes 4 (4 + ?n) @ body)" using b(1) by simp_all
    have s1: "state_ok (skip 1 ?c)" using b(3) by (rule moved_ok)
    have b2: "pqGetc ?c = Some (Some ident, skip 1 ?c)" using b(2) u1(1) by simp
    show ?thesis
    proof (cases "k < 5")
      case True
      then have "length (unread (skip 1 ?c)) < 4" using u1(2) by simp
      then have "pqGetInt 4 (skip 1 ?c) = Some (None, skip 1 ?c)"
        by (cases rule: pqGetInt_cases [OF s1, of 4]) auto
      then show ?thesis using s1 p by (intro exI [of _ "skip 1 ?c"]) (simp add: or_eof_def b2 skip_def del: One_nat_def)
    next
      case False
      then have "take 4 (unread (skip 1 ?c)) = be_bytes 4 (4 + ?n)" "\<not> length (unread (skip 1 ?c)) < 4"
        using u1(2) assms(4) by (simp_all add: min_def)
      moreover have i0: "0 \<le> inStart c" using state_ok_in [OF s] by simp
      then have "net_int (be_bytes 4 (4 + ?n)) = 4 + ?n" using room by (simp add: net_int_be4 wrap32_id)
      moreover have "skip 4 (skip 1 ?c) = at_body c" by (simp add: skip_def at_body_def)
      ultimately have g: "pqGetInt 4 (skip 1 ?c) = Some (Some (4 + ?n), at_body c)" "state_ok (at_body c)"
        by (cases rule: pqGetInt_cases [OF s1, of 4]; simp add: moved_ok)+
      have len: "inEnd c - inStart c = int k"
        using unread_length [of ?c] s state_ok_in [OF s] u0 assms(4) by (simp add: state_ok_def conn_ok_def)
      have lt: "inEnd (at_body c) - inCursor (at_body c) < ?n" using len assms(4) by simp
      have need: "nat (inStart c + 5) + length body \<le> 2147475456" using room i0 by simp
      have ok: "conn_ok (at_body c)" using g(2) by (simp add: state_ok_def)
      obtain b2' n2 where c3: "pqCheckInBufferSpace (nat (inStart c + 5) + length body) (at_body c) =
          Some (0, (at_body c)\<lparr>inBuffer := b2', inBufSize := n2\<rparr>)" "conn_ok ((at_body c)\<lparr>inBuffer := b2', inBufSize := n2\<rparr>)"
        "in_data ((at_body c)\<lparr>inBuffer := b2', inBufSize := n2\<rparr>) = in_data (at_body c)"
        by (rule check_space_healthy [OF ok _ need]) (use assms(2) in simp_all)
      have "paused c ((at_body c)\<lparr>inBuffer := b2', inBufSize := n2\<rparr>)"
        unfolding paused_def using c3(3) by (auto simp: at_body_def)
      moreover have "state_ok ((at_body c)\<lparr>inBuffer := b2', inBufSize := n2\<rparr>)" using c3(2) g(2) by (simp add: state_ok_def)
      ultimately show ?thesis by (intro exI [of _ "(at_body c)\<lparr>inBuffer := b2', inBufSize := n2\<rparr>"]) (simp add: or_eof_def b2 g(1) wait [OF lt i0 c3(1)] del: One_nat_def)
    qed
  qed
qed

lemma incomplete_step:
  assumes "parser_ok c" "plenty (e_alloc (env c))" "in_data c = take k (server_message ident body)" "k < 5 + length body" "short_enough ident body"
    and room: "inStart c + 5 + int (length body) \<le> 2147475456"
  shows "\<exists>c'. parse_step c = Some (False, c') \<and> paused c c' \<and> state_ok c'"
  unfolding parse_step_def
proof (rule incomplete_turn [OF assms(1-4) room, where out = "Pair False"], goal_cases)
  case (1 c2)
  have long: "\<not> (4 + int (length body) < 4 \<or> 30000 < 4 + int (length body) \<and> \<not> VALID_LONG_MESSAGE_TYPE ident)" using assms(5) by (auto simp: short_enough_def)
  have sub: "4 + int (length body) - 4 = int (length body)" by simp
  have "szadd (nat (inCursor (at_body c))) (nat (int (length body))) = nat (inStart c + 5) + length body" using room 1(2) by (simp add: szadd_def)
  then show ?case unfolding if_not_P [OF long] Let_def sub if_P [OF 1(1)] using 1(3) by simp
qed


lemma split_prefix: "a @ b = m @ r \<Longrightarrow> length m \<le> length a \<Longrightarrow> \<exists>x. a = m @ x \<and> x @ b = r"
  by (auto simp: append_eq_append_conv2)

lemma paused_same_link: "paused c c' \<Longrightarrow> same_link c c'"
  by (auto simp: paused_def same_link_def net_frame_def same_events_def same_io_def)

lemma incomplete_parse:
  assumes "parser_ok c" "verbosity c = PQERRORS_TERSE" "plenty (e_alloc (env c))" "in_data c @ tail = server_message ident body @ rest"
    and "length (in_data c) < 5 + length body" "short_enough ident body" "inEnd c + int (length tail) \<le> 2147475456"
  obtains c' where "pqParseInput3 c = Some c'" "paused c c'" "parser_ok c'"
proof -
  have d: "in_data c = take (length (in_data c)) (server_message ident body)"
  proof -
    have "in_data c = take (length (in_data c)) (server_message ident body @ rest)" using assms(4) by (metis append_eq_conv_conj)
    then show ?thesis using assms(5) by simp
  qed
  have s: "state_ok (c\<lparr>inCursor := inStart c\<rparr>)" using assms(1) by (simp add: parser_ok_def)
  have "length (in_data c) = nat (inEnd c - inStart c)" "inStart c \<le> inEnd c"
    using unread_length [of "c\<lparr>inCursor := inStart c\<rparr>"] state_ok_in [OF s] s by (simp_all add: state_ok_def conn_ok_def unread_def in_data_def)
  moreover have "5 + length body \<le> length (in_data c) + length tail" using arg_cong [OF assms(4), of length] by simp
  ultimately have "inStart c + 5 + int (length body) \<le> 2147475456" using assms(7) by linarith
  then obtain c' where c': "parse_step c = Some (False, c')" "paused c c'" using incomplete_step [OF assms(1,3) d assms(5,6)] by blast
  have "step_post c (False, c')" using parse_step_ensures [OF assms(1) terse_next_display_ok [OF assms(1,2)]] c'(1) by simp
  then show thesis using that c' by (simp add: step_post_def pqParseInput3.simps)
qed

lemma represents_paused: "represents c s \<Longrightarrow> paused c c' \<Longrightarrow> parser_ok c' \<Longrightarrow> represents c' s"
  using paused_fields [of c c'] by (cases s) (auto simp: gathering_def answered_def)

fun answer_run :: "answer_state \<Rightarrow> answer_event list \<Rightarrow> answer_state option" where
  "answer_run s [] = Some s"
| "answer_run s (e # es) = Option.bind (answer_step s e) (\<lambda>s. answer_run s es)"

lemma event_message_shape:
  assumes "answer_step s e = Some s'"
  obtains ident body where "event_message e = server_message ident body" "short_enough ident body"
proof (cases e)
  case (Described fs)
  then show thesis using that by (auto simp: row_description_def short_enough_def VALID_LONG_MESSAGE_TYPE_def)
next
  case (Row vs)
  then show thesis using that by (auto simp: data_row_message_def short_enough_def VALID_LONG_MESSAGE_TYPE_def)
next
  case (Completed tag)
  then have "length tag < 29996" using assms by (cases s) (auto split: if_splits)
  then show thesis using that Completed by (auto simp: command_complete_message_def short_enough_def)
qed

text \<open>The message at the end of a simple query, which says that the server is ready for the next one.\<close>

definition ready_message :: "byte \<Rightarrow> byte list" where
  "ready_message x = server_message 0x5A [x]"

lemma parse_pieces:
  assumes "represents c s" "answer_run s es = Some (Answered fs rows tag)" "in_data c @ tail = concat (map event_message es) @ ready_message x"
    and "verbosity c = PQERRORS_TERSE" "plenty (e_alloc (env c))" "inEnd c + int (length tail) \<le> 2147475456"
  shows "\<exists>c' s' es'. pqParseInput3 c = Some c' \<and> represents c' s' \<and> answer_run s' es' = Some (Answered fs rows tag) \<and>
    in_data c' @ tail = concat (map event_message es') @ ready_message x \<and> same_link c c' \<and> plenty (e_alloc (env c')) \<and> (es' \<noteq> [] \<longrightarrow> tail \<noteq> [])"
  using assms
proof (induction es arbitrary: c s)
  case Nil
  then have a: "parser_ok c" "answered c fs rows tag" by simp_all
  have r: "in_data c @ tail = server_message 0x5A [x] @ []" using Nil.prems(3) by (simp add: ready_message_def)
  have short: "short_enough 0x5A [x]" by (simp add: short_enough_def)
  obtain c' where c': "pqParseInput3 c = Some c'" "represents c' (Answered fs rows tag)" "in_data c' = in_data c" "same_link c c'" "env c' = env c"
  proof (cases "length (in_data c) < 6")
    case True
    then have l: "length (in_data c) < 5 + length [x]" by simp
    obtain c' where "pqParseInput3 c = Some c'" "paused c c'" "parser_ok c'"
      by (rule incomplete_parse [OF a(1) Nil.prems(4,5) r l short Nil.prems(6)])
    then show thesis using that Nil.prems(1,2) represents_paused [of c s c'] paused_same_link paused_fields [of c c'] by auto
  next
    case False
    moreover have "length (in_data c) + length tail = 6" using arg_cong [OF r, of length] by simp
    ultimately have "length tail = 0" by linarith
    then have "in_data c = server_message 0x5A [x] @ []" using r by simp
    then have "next_waits (in_data c)" unfolding next_waits_def using short by fastforce
    moreover have "asyncStatus c = PGASYNC_READY" using a(2) by (simp add: answered_def)
    ultimately obtain k where k: "pqParseInput3 c = Some (c\<lparr>inCursor := k\<rparr>)" using ready_stops [OF a(1)] by blast
    have "parser_ok (c\<lparr>inCursor := k\<rparr>)" using a(1) by (simp add: parser_ok_def results_ok_def row_started_def rows_of_def in_data_def)
    then show thesis using that [of "c\<lparr>inCursor := k\<rparr>"] k a by simp
  qed
  show ?case
    by (rule exI [of _ c'], rule exI [of _ "Answered fs rows tag"], rule exI [of _ "[]"]) (use c' Nil.prems r in \<open>simp add: ready_message_def\<close>)
next
  case (Cons e es)
  obtain s1 where s1: "answer_step s e = Some s1" "answer_run s1 es = Some (Answered fs rows tag)" using Cons.prems(2) by (auto simp: bind_Some_iff)
  obtain ident body where m: "event_message e = server_message ident body" "short_enough ident body" by (rule event_message_shape [OF s1(1)])
  have d: "in_data c @ tail = server_message ident body @ concat (map event_message es) @ ready_message x" using Cons.prems(3) m(1) by simp
  have p: "parser_ok c" using Cons.prems(1) by (cases s) (simp_all add: gathering_def)
  show ?case
  proof (cases "length (in_data c) < 5 + length body")
    case True
    obtain c' where c': "pqParseInput3 c = Some c'" "paused c c'" "parser_ok c'"
      by (rule incomplete_parse [OF p Cons.prems(4,5) d True m(2) Cons.prems(6)])
    have "tail \<noteq> []" using d True by (metis append_Nil2 length_append not_add_less1 server_message_length)
    then show ?thesis using c'(1) represents_paused [OF Cons.prems(1) c'(2,3)] paused_same_link [OF c'(2)] paused_fields [OF c'(2)] Cons.prems(2,3,5)
      by (intro exI [of _ c'] exI [of _ s] exI [of _ "e # es"]) simp
  next
    case False
    then obtain r where r: "in_data c = event_message e @ r" "r @ tail = concat (map event_message es) @ ready_message x"
      using split_prefix [OF d] m(1) by auto
    obtain c1 where c1: "parse_step c = Some (True, c1)" "represents c1 s1" "in_data c1 = r" "same_link c c1" "plenty (e_alloc (env c1))"
      by (rule event_step [OF Cons.prems(1) s1(1) r(1)])
    have v: "verbosity c1 = PQERRORS_TERSE" "inEnd c1 + int (length tail) \<le> 2147475456"
      using c1(4) Cons.prems(4,6) by (simp_all add: same_link_def net_frame_def)
    obtain c' s' es' where c': "pqParseInput3 c1 = Some c'" "represents c' s'" "answer_run s' es' = Some (Answered fs rows tag)"
      "in_data c' @ tail = concat (map event_message es') @ ready_message x" "same_link c1 c'" "plenty (e_alloc (env c'))" "es' \<noteq> [] \<longrightarrow> tail \<noteq> []"
      using Cons.IH [OF c1(2) s1(2) _ v(1) c1(5) v(2)] c1(3) r(2) by blast
    have "pqParseInput3 c = Some c'" using c1(1) c'(1) by (subst pqParseInput3.simps) simp
    then show ?thesis using c' same_link_trans [OF c1(4) c'(5)] by blast
  qed
qed


section \<open>Waiting for something that comes\<close>

text \<open>
  \<open>unfinished c tail\<close>: with the bytes \<open>tail\<close> the network still has to deliver, what the client waits for is complete. Parsing brings the client
  on until it is finished or needs more of the tail.
\<close>

locale awaited =
  fixes unfinished finished :: "pg_conn \<Rightarrow> byte list \<Rightarrow> bool"
  assumes parse_on: "good c \<Longrightarrow> unfinished c (stream (env c)) \<Longrightarrow> \<exists>c'. pqParseInput3 c = Some c' \<and> same_link c c' \<and> plenty (e_alloc (env c')) \<and>
      (finished c' (stream (env c')) \<or> unfinished c' (stream (env c')) \<and> stream (env c') \<noteq> [])"
    and grows: "good c \<Longrightarrow> good c' \<Longrightarrow> through c c' \<Longrightarrow> unfinished c (stream (env c)) \<Longrightarrow> unfinished c' (stream (env c'))"
    and busy: "unfinished c tail \<Longrightarrow> asyncStatus c = PGASYNC_BUSY \<or> finished c tail"
    and done_with: "finished c tail \<Longrightarrow> asyncStatus c \<noteq> PGASYNC_BUSY"
begin

lemma parse_good:
  assumes "good c" "unfinished c (stream (env c))"
  obtains c' where "parseInput c = Some c'" "good c'" "e_sent (env c') = e_sent (env c)"
    "finished c' (stream (env c')) \<or> unfinished c' (stream (env c')) \<and> stream (env c') \<noteq> []"
proof -
  note g = goodD [OF assms(1)]
  obtain c1 where c1: "parseInput c = Some c1" "session_ok c1" "net_frame c c1" by (rule parse_session [OF g(1)])
  have v: "PG_PROTOCOL_MAJOR (pversion c) \<ge> 3" by (rule session_okD(5) [OF g(1)])
  obtain c2 where c2: "pqParseInput3 c = Some c2" "same_link c c2" "plenty (e_alloc (env c2))"
    "finished c2 (stream (env c2)) \<or> unfinished c2 (stream (env c2)) \<and> stream (env c2) \<noteq> []" using parse_on [OF assms] by blast
  have eq: "c2 = c1" using c1(1) c2(1) v by (simp add: parseInput_def)
  have "good c1" using c1(2) c2(2,3) g healthy_same [of "env c" "env c1"] same_linkD(2) [OF c2(2)]
    unfolding eq by (auto simp: good_def same_link_def net_frame_def same_events_def same_io_def stream_def)
  moreover have "e_sent (env c1) = e_sent (env c)" using c1(3) by (simp add: net_frame_def same_events_def same_io_def)
  ultimately show thesis using that [of c1] c1(1) c2(4) unfolding eq by blast
qed

lemma wait_good: "good c \<Longrightarrow> unfinished c (stream (env c)) \<Longrightarrow> stream (env c) \<noteq> [] \<or> finished c (stream (env c)) \<Longrightarrow>
    \<exists>c'. wait_result c = Some (True, c') \<and> good c' \<and> e_sent (env c') = e_sent (env c) \<and> finished c' (stream (env c'))"
proof (induction "steps (env c)" arbitrary: c rule: less_induct)
  case less
  show ?case
  proof (cases "finished c (stream (env c))")
    case True
    then show ?thesis using less.prems(1) done_with by (auto simp: wait_result.simps)
  next
    case False
    then have b: "asyncStatus c = PGASYNC_BUSY" "stream (env c) \<noteq> []" using busy less.prems(2,3) by blast+
    obtain c1 where c1: "load_more c = Some (True, c1)" "good c1" "through c c1" "alike c c1" "e_sent (env c1) = e_sent (env c)"
      by (rule load_more_good [OF less.prems(1) b(2)])
    obtain ok c1' where "load_more c = Some (ok, c1')" "progress ok (env c) (env c1')" using load_more_session [OF goodD(1) [OF less.prems(1)]] by blast
    then have p: "steps (env c1) < steps (env c)" using c1(1) by (simp add: progress_def)
    have u: "unfinished c1 (stream (env c1))" by (rule grows [OF less.prems(1) c1(2,3) less.prems(2)])
    obtain c2 where c2: "parseInput c1 = Some c2" "good c2" "e_sent (env c2) = e_sent (env c1)"
      "finished c2 (stream (env c2)) \<or> unfinished c2 (stream (env c2)) \<and> stream (env c2) \<noteq> []" by (rule parse_good [OF c1(2) u])
    have run: "wait_result c = wait_result c2" using b(1) c1(1) c2(1) by (subst wait_result.simps) simp
    show ?thesis
    proof (cases "finished c2 (stream (env c2))")
      case True
      then have "wait_result c2 = Some (True, c2)" using done_with by (simp add: wait_result.simps)
      then show ?thesis using run c2(2,3) c1(5) True by auto
    next
      case False
      obtain c2' where "parseInput c1 = Some c2'" "net_frame c1 c2'" by (rule parse_session [OF goodD(1) [OF c1(2)]])
      then have "steps (env c2) < steps (env c)" using p net_frame_steps [of c1 c2] c2(1) by simp
      from less.hyps [OF this c2(2)] show ?thesis using c2(3,4) c1(5) False run by simp
    qed
  qed
qed

theorem result_comes:
  assumes "good c" "unfinished c (stream (env c))"
  shows "\<exists>c'. good c' \<and> e_sent (env c') = e_sent (env c) \<and> finished c' (stream (env c')) \<and> PQgetResult c = current_result c'"
proof -
  obtain c1 where c1: "parseInput c = Some c1" "good c1" "e_sent (env c1) = e_sent (env c)" "finished c1 (stream (env c1)) \<or> unfinished c1 (stream (env c1)) \<and> stream (env c1) \<noteq> []"
    by (rule parse_good [OF assms])
  have "\<exists>c'. wait_result c1 = Some (True, c') \<and> good c' \<and> e_sent (env c') = e_sent (env c1) \<and> finished c' (stream (env c'))"
  proof (cases "finished c1 (stream (env c1))")
    case True
    then show ?thesis using c1(2) done_with by (auto simp: wait_result.simps)
  next
    case False
    then show ?thesis using wait_good [OF c1(2)] c1(4) by blast
  qed
  then show ?thesis using c1(1,3) by (auto simp: PQgetResult_def)
qed

end


lemma through_good:
  assumes "good c" "good c'" "through c c'" "in_data c @ stream (env c) = d"
  shows "in_data c' @ stream (env c') = d" "parser_ok c'" "plenty (e_alloc (env c'))" "asyncStatus c' = asyncStatus c" "result c' = result c"
    "queryclass c' = queryclass c" "curTuple c' = curTuple c"
  using assms through_steady [OF assms(3)] goodD [OF assms(2)] only_io_more [of c c'] by (auto simp: through_def)

lemma parsed_stream: "same_link c c' \<Longrightarrow> stream (env c') = stream (env c)"
  by (simp add: same_link_def net_frame_def same_events_def same_io_def stream_def)

text \<open>The client is somewhere in an answer.\<close>

definition in_answer :: "PGresAttDesc list \<Rightarrow> byte list option list list \<Rightarrow> byte list \<Rightarrow> byte \<Rightarrow> pg_conn \<Rightarrow> byte list \<Rightarrow> bool" where
  "in_answer fs rows tag x c tail \<longleftrightarrow> (\<exists>s es. represents c s \<and> answer_run s es = Some (Answered fs rows tag) \<and>
     in_data c @ tail = concat (map event_message es) @ ready_message x)"

definition after_answer :: "PGresAttDesc list \<Rightarrow> byte list option list list \<Rightarrow> byte list \<Rightarrow> byte \<Rightarrow> pg_conn \<Rightarrow> byte list \<Rightarrow> bool" where
  "after_answer fs rows tag x c tail \<longleftrightarrow> answered c fs rows tag \<and> in_data c @ tail = ready_message x"

lemma answer_run_Answered: "answer_run (Answered fs rows tag) es = Some s \<longleftrightarrow> es = [] \<and> s = Answered fs rows tag"
  by (cases es) auto

lemma in_answer_end: "answer_run s [] = Some (Answered fs rows tag) \<Longrightarrow> represents c s \<Longrightarrow> in_data c @ tail = ready_message x \<Longrightarrow>
    after_answer fs rows tag x c tail"
  by (simp add: after_answer_def)

lemma room_good: "good c \<Longrightarrow> inEnd c + int (length (stream (env c))) \<le> 2147475456"
  using goodD(7) [of c] by simp

interpretation answer: awaited "in_answer fs rows tag x" "after_answer fs rows tag x" for fs rows tag x
proof (unfold_locales, goal_cases)
  case (1 c)
  then obtain s es where a: "represents c s" "answer_run s es = Some (Answered fs rows tag)"
    "in_data c @ stream (env c) = concat (map event_message es) @ ready_message x" by (auto simp: in_answer_def)
  note g = goodD [OF 1(1)]
  obtain c' s' es' where c': "pqParseInput3 c = Some c'" "represents c' s'" "answer_run s' es' = Some (Answered fs rows tag)"
    "in_data c' @ stream (env c) = concat (map event_message es') @ ready_message x" "same_link c c'" "plenty (e_alloc (env c'))"
    "es' \<noteq> [] \<longrightarrow> stream (env c) \<noteq> []"
    using parse_pieces [OF a session_okD(6) [OF g(1)] g(3) room_good [OF 1(1)]] by blast
  show ?case
  proof (cases es')
    case Nil
    then show ?thesis using c' in_answer_end [of s' fs rows tag c'] parsed_stream [OF c'(5)] by auto
  next
    case (Cons e es2)
    then have "in_answer fs rows tag x c' (stream (env c'))" "stream (env c') \<noteq> []"
      using c' parsed_stream [OF c'(5)] unfolding in_answer_def by (auto simp del: answer_run.simps event_message.simps list.map concat.simps)
    then show ?thesis using c' by blast
  qed
next
  case (2 c c')
  then obtain s es where a: "represents c s" "answer_run s es = Some (Answered fs rows tag)"
    "in_data c @ stream (env c) = concat (map event_message es) @ ready_message x" by (auto simp: in_answer_def)
  note t = through_good [OF 2(1-3) a(3)]
  have "represents c' s" using a(1) t by (cases s) (simp_all add: gathering_def answered_def)
  then show ?case using a(2) t(1) unfolding in_answer_def by blast
next
  case (3 c tail)
  then obtain s es where a: "represents c s" "answer_run s es = Some (Answered fs rows tag)"
    "in_data c @ tail = concat (map event_message es) @ ready_message x" by (auto simp: in_answer_def)
  then show ?case by (cases s) (auto simp: gathering_def after_answer_def answer_run_Answered)
qed (simp add: after_answer_def answered_def)

text \<open>The client waits for the server to be ready.\<close>

definition before_ready :: "byte \<Rightarrow> pg_conn \<Rightarrow> byte list \<Rightarrow> bool" where
  "before_ready x c tail \<longleftrightarrow> asyncStatus c = PGASYNC_BUSY \<and> result c = None \<and> curTuple c = None \<and> in_data c @ tail = ready_message x"

definition at_rest :: "pg_conn \<Rightarrow> byte list \<Rightarrow> bool" where
  "at_rest c tail \<longleftrightarrow> asyncStatus c = PGASYNC_IDLE \<and> in_data c = [] \<and> tail = []"

lemma ready_step:
  assumes "good c" "asyncStatus c = PGASYNC_BUSY" "curTuple c = None" "in_data c = ready_message x"
  obtains c' where "pqParseInput3 c = Some c'" "same_link c c'" "plenty (e_alloc (env c'))" "asyncStatus c' = PGASYNC_IDLE" "in_data c' = []"
proof -
  note g = goodD [OF assms(1)]
  have d: "in_data c = server_message 0x5A [x] @ []" "short_enough 0x5A [x]" using assms(4) by (simp_all add: ready_message_def short_enough_def)
  note step = server_message_step [OF g(9) d]
  have s: "state_ok (at_body c)" using step(2) by (simp add: handler_ok_def)
  have "unread (at_body c) = [x]" using step(3) by simp
  then have get: "pqGetc (at_body c) = Some (Some x, skip 1 (at_body c))" by (cases rule: pqGetc_cases [OF s]) simp_all
  define c1 where "c1 = (skip 1 (at_body c))\<lparr>xactStatus := (if x = 0x49 then PQTRANS_IDLE else if x = 0x54 then PQTRANS_INTRANS
      else if x = 0x45 then PQTRANS_INERROR else PQTRANS_UNKNOWN), asyncStatus := PGASYNC_IDLE\<rparr>"
  have h: "handle_message 0x5A (int (length [x])) (at_body c) = Some (True, c1)"
    using assms(2) get by (simp add: handle_message_def busy_message_def then_status_def getReadyForQuery_def c1_def)
  have cur: "inCursor c1 = inStart c + 5 + int (length [x])" by (simp add: c1_def skip_def)
  note e = exact_step [OF g(9) d h cur, simplified]
  let ?c = "c1\<lparr>inStart := inCursor c1\<rparr>"
  have e2: "plenty (e_alloc (env ?c))" "asyncStatus ?c = PGASYNC_IDLE" using g(3) by (simp_all add: c1_def skip_def at_body_def)
  have z: "in_data ?c = take 0 (server_message 0x5A [x])" using e(3) by simp
  have "state_ok (?c\<lparr>inCursor := inStart ?c\<rparr>)" using e(2) unfolding parser_ok_def by blast
  then have "inStart ?c \<le> inEnd ?c" using state_ok_in by fastforce
  then have room: "inStart ?c + 5 + int (length [x]) \<le> 2147475456" using e(4) g(7) by (simp add: same_link_def)
  obtain c2 where c2: "parse_step ?c = Some (False, c2)" "paused ?c c2"
    using incomplete_step [OF e(2) e2(1) z _ d(2) room] by auto
  have "pqParseInput3 ?c = Some c2" using c2(1) by (simp add: pqParseInput3.simps)
  then have "pqParseInput3 c = Some c2" using e(1) by (subst pqParseInput3.simps) simp
  moreover have "same_link c ?c" using e(4) by simp
  then have "same_link c c2" by (rule same_link_trans [OF _ paused_same_link [OF c2(2)]])
  ultimately show thesis using that [of c2] paused_fields [OF c2(2)] e2 e(3) by simp
qed

interpretation ready: awaited "before_ready x" at_rest for x
proof (unfold_locales, goal_cases)
  case (1 c)
  note g = goodD [OF 1(1)]
  have b: "asyncStatus c = PGASYNC_BUSY" "result c = None" "curTuple c = None" "in_data c @ stream (env c) = server_message 0x5A [x] @ []"
    using 1(2) by (simp_all add: before_ready_def ready_message_def)
  have short: "short_enough 0x5A [x]" by (simp add: short_enough_def)
  have len: "length (in_data c) + length (stream (env c)) = 6" using arg_cong [OF b(4), of length] by simp
  show ?case
  proof (cases "length (in_data c) < 6")
    case True
    then have l: "length (in_data c) < 5 + length [x]" by simp
    obtain c' where c': "pqParseInput3 c = Some c'" "paused c c'" "parser_ok c'"
      by (rule incomplete_parse [OF g(9) session_okD(6) [OF g(1)] g(3) b(4) l short room_good [OF 1(1)]])
    note f = paused_fields [OF c'(2)]
    have "before_ready x c' (stream (env c'))" using b f by (simp add: before_ready_def ready_message_def)
    moreover have "stream (env c') \<noteq> []" using len True f by auto
    ultimately show ?thesis using c'(1) paused_same_link [OF c'(2)] f g(3) by auto
  next
    case False
    then have "length (stream (env c)) = 0" using len by linarith
    then have e: "stream (env c) = []" by simp
    then have "in_data c = ready_message x" using b(4) by (simp add: ready_message_def)
    then obtain c' where c': "pqParseInput3 c = Some c'" "same_link c c'" "plenty (e_alloc (env c'))" "asyncStatus c' = PGASYNC_IDLE" "in_data c' = []"
      by (rule ready_step [OF 1(1) b(1,3)])
    then show ?thesis using e parsed_stream [OF c'(2)] by (auto simp: at_rest_def)
  qed
next
  case (2 c c')
  have d: "in_data c @ stream (env c) = ready_message x" using 2(4) by (simp add: before_ready_def)
  show ?case using 2(4) through_good [OF 2(1-3) d] by (simp add: before_ready_def)
qed (auto simp: before_ready_def at_rest_def)


section \<open>The result and the end of the command\<close>

lemma current_result_good:
  assumes "good c" "asyncStatus c = PGASYNC_READY" "result c = Some r"
  obtains c' where "current_result c = Some (Some r, c')" "good c'" "asyncStatus c' = PGASYNC_BUSY" "result c' = None" "curTuple c' = None"
    "in_data c' = in_data c" "stream (env c') = stream (env c)" "queryclass c' = queryclass c" "e_sent (env c') = e_sent (env c)"
proof -
  note g = goodD [OF assms(1)]
  have v: "valid_expbuf (errorMessage c)" using g(8) by (simp add: conn_ok_def)
  obtain m where m: "resetPQExpBuffer (e_alloc (env c)) (errorMessage c) = Some (m, e_alloc (env c))"
    using resetPQExpBuffer_plenty [OF v g(3)] by blast
  obtain res c1 where p: "pqPrepareAsyncResult c = Some (res, c1)" "given c res c1" "result c1 = None" "res = Some r"
    using pqPrepareAsyncResult_session [OF g(1)] assms(3) by auto
  obtain m2 a2 where m2: "appendPQExpBufferStr (e_alloc (env c)) m (PQresultErrorMessage (Some r) @ [0]) = Some (m2, a2)"
    "c1 = set_alloc a2 (c\<lparr>result := None, curTuple := None, errorMessage := m2\<rparr>)"
    using p(1) m assms(3) by (auto simp: pqPrepareAsyncResult_def bind_Some_iff Let_def)
  have "plenty a2" by (rule str_plenty [OF m2(1) g(3)])
  let ?c = "c1\<lparr>asyncStatus := PGASYNC_BUSY\<rparr>"
  have "session_ok ?c" using p(2) by (simp add: given_def)
  then have "good ?c" using g \<open>plenty a2\<close> m2(2) by (simp add: good_def set_alloc_def stream_def)
  moreover have "current_result c = Some (Some r, ?c)" using assms(2) p(1,4) by (simp add: current_result_def)
  ultimately show thesis using that [of ?c] m2(2) by (simp add: set_alloc_def stream_def in_data_def)
qed

text \<open>A result that holds what the server described.\<close>

definition holds_answer :: "PGresAttDesc list \<Rightarrow> byte list option list list \<Rightarrow> byte list \<Rightarrow> pg_result \<Rightarrow> bool" where
  "holds_answer fs rows tag r \<longleftrightarrow> resultStatus r = PGRES_TUPLES_OK \<and> attrs r = fs \<and> numAttributes r = int (length fs) \<and> ntups r = int (length rows) \<and>
     tuples r = map (map client_value) rows \<and> cmdStatus r = c_strncpy tag CMDSTATUS_LEN"

definition answer_bytes :: "PGresAttDesc list \<Rightarrow> byte list option list list \<Rightarrow> byte list \<Rightarrow> byte list" where
  "answer_bytes fs rows tag = row_description fs @ concat (map data_row_message rows) @ command_complete_message tag"

definition answer_fits :: "PGresAttDesc list \<Rightarrow> byte list option list list \<Rightarrow> byte list \<Rightarrow> bool" where
  "answer_fits fs rows tag \<longleftrightarrow> list_all field_fits fs \<and> length fs < 65536 \<and>
     list_all (\<lambda>vs. length vs = length fs \<and> list_all value_fits vs) rows \<and> 0 \<notin> set tag \<and> length tag < 29996"

lemma run_rows:
  "list_all (\<lambda>vs. length vs = length fs \<and> list_all value_fits vs) rows \<Longrightarrow> length fs < 65536 \<Longrightarrow> 0 \<notin> set tag \<Longrightarrow> length tag < 29996 \<Longrightarrow>
    answer_run (Gathering fs rows0) (map Row rows @ [Completed tag]) = Some (Answered fs (rows0 @ rows) tag)"
  by (induction rows arbitrary: rows0) auto

lemma answer_events:
  assumes "answer_fits fs rows tag"
  shows "answer_run Waiting (Described fs # map Row rows @ [Completed tag]) = Some (Answered fs rows tag)"
    "concat (map event_message (Described fs # map Row rows @ [Completed tag])) = answer_bytes fs rows tag"
proof -
  show "answer_run Waiting (Described fs # map Row rows @ [Completed tag]) = Some (Answered fs rows tag)"
    using assms run_rows [of fs rows tag "[]"] by (simp add: answer_fits_def)
  show "concat (map event_message (Described fs # map Row rows @ [Completed tag])) = answer_bytes fs rows tag"
    by (simp add: answer_bytes_def o_def)
qed

lemma waiting_in_answer:
  assumes "good c" "asyncStatus c = PGASYNC_BUSY" "queryclass c \<noteq> PGQUERY_DESCRIBE" "result c = None"
    "in_data c @ stream (env c) = answer_bytes fs rows tag @ ready_message x" "answer_fits fs rows tag"
  shows "in_answer fs rows tag x c (stream (env c))"
proof -
  note e = answer_events [OF assms(6)] and g = goodD [OF assms(1)]
  have "represents c Waiting" using assms(2-4) g by simp
  then show ?thesis unfolding in_answer_def using e(1) assms(5) e(2)
    by (intro exI [of _ Waiting] exI [of _ "Described fs # map Row rows @ [Completed tag]"]) (simp del: answer_run.simps represents.simps)
qed

lemma get_answer:
  assumes "good c" "in_answer fs rows tag x c (stream (env c))"
  obtains r c' where "PQgetResult c = Some (Some r, c')" "good c'" "before_ready x c' (stream (env c'))" "holds_answer fs rows tag r"
    "e_sent (env c') = e_sent (env c)"
proof -
  obtain c1 where c1: "good c1" "after_answer fs rows tag x c1 (stream (env c1))" "PQgetResult c = current_result c1"
    "e_sent (env c1) = e_sent (env c)" using answer.result_comes [OF assms] by blast
  obtain r where r: "result c1 = Some r" "holds_answer fs rows tag r" "asyncStatus c1 = PGASYNC_READY"
    using c1(2) by (auto simp: after_answer_def answered_def holds_answer_def)
  obtain c2 where c2: "current_result c1 = Some (Some r, c2)" "good c2" "asyncStatus c2 = PGASYNC_BUSY" "result c2 = None" "curTuple c2 = None"
    "in_data c2 = in_data c1" "stream (env c2) = stream (env c1)" "e_sent (env c2) = e_sent (env c1)"
    by (rule current_result_good [OF c1(1) r(3,1)])
  then have "before_ready x c2 (stream (env c2))" using c1(2) by (simp add: before_ready_def after_answer_def)
  then show thesis using that c1(3,4) c2(1,2,8) r(2) by simp
qed

lemma get_ready:
  assumes "good c" "before_ready x c (stream (env c))"
  obtains c' where "PQgetResult c = Some (None, c')" "good c'" "at_rest c' (stream (env c'))" "e_sent (env c') = e_sent (env c)"
proof -
  obtain c1 where c1: "good c1" "at_rest c1 (stream (env c1))" "PQgetResult c = current_result c1"
    "e_sent (env c1) = e_sent (env c)" using ready.result_comes [OF assms] by blast
  then show thesis using that [of c1] by (simp add: at_rest_def current_result_def)
qed

lemma finish_answer:
  assumes "good c" "in_answer fs rows tag x c (stream (env c))"
  obtains r c' where "PQexecFinish c = Some (Some r, c')" "good c'" "at_rest c' (stream (env c'))" "holds_answer fs rows tag r"
    "e_sent (env c') = e_sent (env c)"
proof -
  obtain r c1 where 1: "PQgetResult c = Some (Some r, c1)" "good c1" "before_ready x c1 (stream (env c1))" "holds_answer fs rows tag r"
    "e_sent (env c1) = e_sent (env c)"
    by (rule get_answer [OF assms])
  obtain c2 where 2: "PQgetResult c1 = Some (None, c2)" "good c2" "at_rest c2 (stream (env c2))" "e_sent (env c2) = e_sent (env c1)"
    by (rule get_ready [OF 1(2,3)])
  have "finish_loop (Some r) c1 = Some (Some r, c2)" using 2(1) by (simp add: finish_loop.simps)
  then have "PQexecFinish c = Some (Some r, c2)"
    using 1(1,4) goodD(5) [OF 1(2)] by (simp add: PQexecFinish_def finish_loop.simps [of None] merge_result_def holds_answer_def stops_exec_def)
  then show thesis using that 2(2-4) 1(4,5) by simp
qed

end
