(* ===== verification/Queries.thy ===== *)
theory Queries
  imports Answers
begin

text \<open>
  A simple query from the application to the server and back: on a healthy connection with memory for everything the command is sent, all of it,
  and what \<open>PQexec\<close> returns is the answer.
\<close>

section \<open>Sending that succeeds\<close>

text \<open>Sending does not touch what comes in.\<close>

definition inward :: "pg_conn \<Rightarrow> pg_conn \<Rightarrow> bool" where
  "inward c c' \<longleftrightarrow> sock c' = sock c \<and> status c' = status c \<and> inEnd c' = inEnd c \<and> in_data c' = in_data c \<and>
     e_recv (env c') = e_recv (env c) \<and> e_poll (env c') = e_poll (env c) \<and> e_send (env c') = e_send (env c) \<and> e_alloc (env c') = e_alloc (env c)"

lemma inward_refl [simp]: "inward c c"
  by (simp add: inward_def)

lemma inward_trans: "inward a b \<Longrightarrow> inward b c \<Longrightarrow> inward a c"
  by (simp add: inward_def)

lemma check_out_plenty:
  assumes "conn_ok c" "plenty (e_alloc (env c))" "n \<le> 2147475456"
  shows "\<exists>b k. pqCheckOutBufferSpace n c = Some (0, c\<lparr>outBuffer := b, outBufSize := k\<rparr>)"
proof -
  obtain r c' where r: "pqCheckOutBufferSpace n c = Some (r, c')"
    "if r = 0 then grown (outBuffer c) (outBufSize c) n (outBuffer c') (outBufSize c') \<and>
       c' = c\<lparr>outBuffer := outBuffer c', outBufSize := outBufSize c', env := env c'\<rparr>
     else r = EOF \<and> only_env c c' \<and> (n \<le> 2147475456 \<longrightarrow> False \<in> set (oks (e_alloc (env c))))"
    using pqCheckOutBufferSpace_spec [OF assms(1)] by blast
  then have z: "r = 0" "c' = c\<lparr>outBuffer := outBuffer c', outBufSize := outBufSize c', env := env c'\<rparr>"
    using assms(2,3) by (auto simp: plenty_def split: if_splits)
  have "env c' = env c"
    using r(1) z(1) assms(2) by (auto simp: pqCheckOutBufferSpace_def bind_Some_iff set_alloc_def EOF_def split: if_splits option.splits dest!: grow_plenty)
  then have "c' = c\<lparr>outBuffer := outBuffer c', outBufSize := outBufSize c'\<rparr>" using z(2) by (cases c; cases c') simp
  then show ?thesis using r(1) z(1) by metis
qed

lemma put_start_plenty:
  assumes "pqPutMsgStart t False c = Some (r, c')" "conn_ok c" "plenty (e_alloc (env c))" "outCount c \<le> 2147475000"
  shows "r = 0" "inward c c'" "outMsgEnd c' \<le> outCount c + 5"
proof -
  let ?n = "nat (outCount c + (if t \<noteq> 0 then 1 else 0) + (if PG_PROTOCOL_MAJOR (pversion c) \<ge> 3 then 4 else 0))"
  have "?n \<le> 2147475456" using assms(4) by (auto simp: nat_le_iff)
  from check_out_plenty [OF assms(2,3) this] obtain b k where
    "pqCheckOutBufferSpace ?n c = Some (0, c\<lparr>outBuffer := b, outBufSize := k\<rparr>)" by blast
  then show "r = 0" "inward c c'" "outMsgEnd c' \<le> outCount c + 5"
    using assms(1) by (auto simp: pqPutMsgStart_def Let_def bind_Some_iff inward_def in_data_def add_ac split: if_splits)
qed

lemma put_bytes_plenty:
  assumes "pqPutMsgBytes bs c = Some (r, c')" "conn_ok c" "msg_ok c" "plenty (e_alloc (env c))" "outMsgEnd c + int (length bs) \<le> 2147475456"
  shows "r = 0" "inward c c'"
proof -
  note m = msg_okD [OF assms(2,3)]
  have "szadd (nat (outMsgEnd c)) (length bs) = nat (outMsgEnd c) + length bs" "nat (outMsgEnd c) + length bs \<le> 2147475456"
    using m assms(5) by (simp_all add: szadd_def)
  then obtain b k where "pqCheckOutBufferSpace (szadd (nat (outMsgEnd c)) (length bs)) c = Some (0, c\<lparr>outBuffer := b, outBufSize := k\<rparr>)"
    using check_out_plenty [OF assms(2,4)] by metis
  then show "r = 0" "inward c c'" using assms(1) by (auto simp: pqPutMsgBytes_def bind_Some_iff inward_def in_data_def)
qed

lemma send_some_plenty:
  assumes "pqSendSome c len = Some (r, c')" "conn_ok c" "0 \<le> len" "len \<le> outCount c" "0 \<le> sock c" "e_send (env c) = []"
  shows "r = 0" "inward c c'" "outCount c' = outCount c - len"
proof -
  have l: "length (outBuffer c) = nat (outBufSize c)" "outCount c \<le> outBufSize c" using conn_okD(2) [OF assms(2)] by (simp_all add: out_ok_def)
  have rd: "rd_bytes (outBuffer c) 0 (nat len) = Some (take (nat len) (outBuffer c))" "min (length (outBuffer c)) (nat len) = nat len"
    using l assms(3,4) by (simp_all add: rd_bytes_def)
  have "\<exists>e x. send_loop 0 len (outCount c) c = Some (Inr (0, len, outCount c - len, c\<lparr>env := (env c)\<lparr>e_sent := e, e_errno := x\<rparr>\<rparr>))"
  proof (cases "len > 0")
    case True
    let ?bs = "take (nat len) (outBuffer c)"
    let ?c = "c\<lparr>env := (env c)\<lparr>e_sent := e_sent (env c) @ ?bs, e_errno := None\<rparr>\<rparr>"
    have w: "pqsecure_write c ?bs = Some (len, ?c)" using assms(3,6) rd(2) by (simp add: pqsecure_write_def c_send_def set_errno_def)
    have "send_loop 0 len (outCount c) c = Some (Inr (0, len, outCount c - len, ?c))"
      using True rd(1) w by (subst send_loop.simps) (simp add: Let_def)
    then show ?thesis by blast
  next
    case False
    then have "send_loop 0 len (outCount c) c = Some (Inr (0, len, outCount c - len, c))" using assms(3) by (subst send_loop.simps) simp
    moreover have "c = c\<lparr>env := (env c)\<lparr>e_sent := e_sent (env c), e_errno := e_errno (env c)\<rparr>\<rparr>" by simp
    ultimately show ?thesis by metis
  qed
  then obtain e x where "send_loop 0 len (outCount c) c = Some (Inr (0, len, outCount c - len, c\<lparr>env := (env c)\<lparr>e_sent := e, e_errno := x\<rparr>\<rparr>))"
    by blast
  then show "r = 0" "inward c c'" "outCount c' = outCount c - len"
    using assms(1,5) by (auto simp: pqSendSome_def bind_Some_iff inward_def in_data_def split: if_splits)
qed

lemma put_end_plenty:
  assumes "pqPutMsgEnd c = Some (r, c')" "conn_ok c" "msg_ok c" "0 \<le> sock c" "e_send (env c) = []"
  shows "r = 0" "inward c c'"
proof -
  note m = msg_okD [OF assms(2,3)]
  obtain b where wb: "(if outMsgStart c \<ge> 0 then wr_bytes (outBuffer c) (nat (outMsgStart c)) (be_bytes 4 (outMsgEnd c - outMsgStart c))
      else Some (outBuffer c)) = Some b" using assms(1) unfolding pqPutMsgEnd_def bind_Some_iff by blast
  then have b: "length b = length (outBuffer c)" by (auto split: if_splits dest: wr_bytes_length)
  let ?c = "c\<lparr>outBuffer := b, outCount := outMsgEnd c\<rparr>"
  have ok: "conn_ok ?c" using assms(2) m b(1) by (simp add: conn_ok_def in_ok_def out_ok_def)
  have in1: "inward c ?c" by (simp add: inward_def in_data_def)
  have run: "(if outMsgEnd c \<ge> 8192
      then Option.bind (pqSendSome ?c (outMsgEnd c - outMsgEnd c mod 8192)) (\<lambda>(r, c). Some (if r < 0 then EOF else 0, c)) else Some (0, ?c)) = Some (r, c')"
    using assms(1) unfolding pqPutMsgEnd_def wb by (simp add: Let_def cong: if_cong)
  have "r = 0 \<and> inward c c'"
  proof (cases "outMsgEnd c \<ge> 8192")
    case False
    then show ?thesis using run in1 by simp
  next
    case True
    then obtain r1 c1 where s: "pqSendSome ?c (outMsgEnd c - outMsgEnd c mod 8192) = Some (r1, c1)" "r = (if r1 < 0 then EOF else 0)" "c' = c1"
      using run by (auto simp: bind_Some_iff)
    have "0 \<le> outMsgEnd c - outMsgEnd c mod 8192" "outMsgEnd c - outMsgEnd c mod 8192 \<le> outMsgEnd c" using True zmod_le_nonneg_dividend [of "outMsgEnd c" 8192] by simp_all
    then show ?thesis using send_some_plenty [OF s(1) ok] assms(4,5) s(2,3) inward_trans [OF in1] by simp
  qed
  then show "r = 0" "inward c c'" by simp_all
qed


text \<open>A part of a message that gets written when there is memory, and the chain of such parts.\<close>

locale sure_writer = part_writer +
  assumes sure: "conn_ok c \<Longrightarrow> msg_ok c \<Longrightarrow> plenty (e_alloc (env c)) \<Longrightarrow> outMsgEnd c + int (length bytes) \<le> 2147475456 \<Longrightarrow>
    put c = Some (r, c') \<Longrightarrow> r = 0 \<and> inward c c'"
begin

lemma writes_on:
  assumes "conn_ok c" "msg_ok c" "plenty (e_alloc (env c))" "outMsgEnd c + int (length bytes) \<le> 2147475456"
  obtains c' where "put c = Some (0, c')" "conn_ok c'" "msg_ok c'" "plenty (e_alloc (env c'))" "inward c c'" "outMsgEnd c' = outMsgEnd c + int (length bytes)"
proof -
  obtain r c' where r: "put c = Some (r, c')" "conn_ok c'" "if r = 0 then built c bytes c'
      else r = EOF \<and> e_sent (env c') = e_sent (env c) \<and> pending c' = pending c" using writes [OF assms(1,2)] by blast
  have z: "r = 0" "inward c c'" using sure [OF assms r(1)] by simp_all
  then have b: "msg_ok c'" "outCount c' = outCount c" "msg_bytes c' = msg_bytes c @ bytes" using r(3) by (simp_all add: built_def)
  have "outMsgEnd c' = outMsgEnd c + int (length bytes)"
    using msg_okD(2,6) [OF assms(1,2)] msg_okD(2,6) [OF r(2) b(1)] b(2,3) by simp
  then show thesis using that r(1,2) z b(1) assms(3) by (simp add: inward_def)
qed

lemma then_sure:
  assumes "sure_writer put2 bytes2" "\<not> failed 0" "failed EOF"
  shows "sure_writer (\<lambda>c. do { (r, c) \<leftarrow> put c; if failed r then Some (EOF, c) else put2 c }) (bytes @ bytes2)"
proof (intro sure_writer.intro then_writer sure_writer_axioms.intro)
  show "part_writer put2 bytes2" by (rule sure_writer.axioms(1) [OF assms(1)])
next
    fix c r c'
    assume c: "conn_ok c" "msg_ok c" "plenty (e_alloc (env c))" "outMsgEnd c + int (length (bytes @ bytes2)) \<le> 2147475456"
      and run: "(do { (r, c) \<leftarrow> put c; if failed r then Some (EOF, c) else put2 c }) = Some (r, c')"
    obtain c1 where c1: "put c = Some (0, c1)" "conn_ok c1" "msg_ok c1" "plenty (e_alloc (env c1))" "inward c c1"
      "outMsgEnd c1 = outMsgEnd c + int (length bytes)" by (rule writes_on [OF c(1-3)]) (use c(4) in simp_all)
    have "put2 c1 = Some (r, c')" using run c1(1) assms(2) by simp
    then have "r = 0 \<and> inward c1 c'" using sure_writer.sure [OF assms(1) c1(2-4)] c(4) c1(6) by simp
    then show "r = 0 \<and> inward c c'" using inward_trans [OF c1(5)] by simp
qed (use assms in simp_all)

end

lemma sure_nothing: "sure_writer (\<lambda>c. Some (0, c)) []"
  by (intro sure_writer.intro put_nothing sure_writer_axioms.intro) simp

lemma sure_bytes:
  assumes "part_writer w bytes" "\<And>c r c'. w c = Some (r, c') \<Longrightarrow> \<exists>r'. pqPutMsgBytes bytes c = Some (r', c') \<and> (r' = 0 \<longrightarrow> r = 0)"
  shows "sure_writer w bytes"
proof (intro sure_writer.intro assms(1) sure_writer_axioms.intro)
  fix c r c' assume c: "conn_ok c" "msg_ok c" "plenty (e_alloc (env c))" "outMsgEnd c + int (length bytes) \<le> 2147475456" and run: "w c = Some (r, c')"
  obtain r' where r': "pqPutMsgBytes bytes c = Some (r', c')" "r' = 0 \<longrightarrow> r = 0" using assms(2) [OF run] by blast
  show "r = 0 \<and> inward c c'" using put_bytes_plenty [OF r'(1) c] r'(2) by simp
qed

lemma sure_string: "length s + 1 < 2 ^ 31 \<Longrightarrow> sure_writer (pqPuts s) (s @ [0])"
  by (rule sure_bytes [OF put_string]) (auto simp: pqPuts_def bind_Some_iff)

lemma sure_block: "length s < 2 ^ 31 \<Longrightarrow> sure_writer (pqPutnchar s) s"
  by (rule sure_bytes [OF put_block]) (auto simp: pqPutnchar_def bind_Some_iff)

lemma sure_int: "w = 2 \<or> w = 4 \<Longrightarrow> sure_writer (pqPutInt v w) (be_bytes w v)"
  by (rule sure_bytes [OF put_int_part]) (auto simp: pqPutInt_def bind_Some_iff)

interpretation sure_int2: sure_writer "pqPutInt v 2" "be_bytes 2 v" for v
  by (rule sure_int) simp

interpretation sure_int4: sure_writer "pqPutInt v 4" "be_bytes 4 v" for v
  by (rule sure_int) simp

lemma sure_all: "list_all2 sure_writer ws bs \<Longrightarrow> sure_writer (put_all ws) (concat bs)"
proof (induction rule: list_all2_induct)
  case Nil
  then show ?case using sure_nothing by (simp add: sure_writer_def part_writer_def sure_writer_axioms_def)
next
  case (Cons w ws b bs)
  have "sure_writer (\<lambda>c. do { (r, c) \<leftarrow> w c; if r \<noteq> 0 then Some (EOF, c) else put_all ws c }) (b @ concat bs)"
    by (rule sure_writer.then_sure [OF Cons.hyps(1) Cons.IH, where failed = "\<lambda>r. r \<noteq> 0"]) (simp_all add: EOF_def)
  then show ?case by (simp add: sure_writer_def part_writer_def sure_writer_axioms_def)
qed

lemma sure_parts: "list_all2 sure_writer ws bs \<Longrightarrow> list_all2 part_writer ws bs"
  by (erule list_all2_mono) (rule sure_writer.axioms(1))

lemma sure_message:
  assumes "list_all2 sure_writer ws bs" "put_all (pqPutMsgStart t False # ws @ [pqPutMsgEnd]) c = Some (r, c')" "conn_ok c" "plenty (e_alloc (env c))"
    "0 \<le> sock c" "e_send (env c) = []" "outCount c + int (length (concat bs)) \<le> 2147475000"
  shows "r = 0" "inward c c'"
proof -
  have l: "0 \<le> outCount c" "outCount c \<le> 2147475000" using assms(7) conn_okD(2) [OF assms(3)] by (simp_all add: out_ok_def)
  obtain r1 c1 where 1: "pqPutMsgStart t False c = Some (r1, c1)" "r1 = 0 \<Longrightarrow> conn_ok c1 \<and> msg_ok c1"
    using pqPutMsgStart_spec [OF assms(3), of t False] by auto
  note p1 = put_start_plenty [OF 1(1) assms(3,4) l(2)]
  have ok1: "conn_ok c1" "msg_ok c1" using 1(2) p1(1) by auto
  have pl: "plenty (e_alloc (env c1))" "outMsgEnd c1 + int (length (concat bs)) \<le> 2147475456"
    using p1(2,3) assms(4,7) by (simp_all add: inward_def)
  obtain c2 where c2: "put_all ws c1 = Some (0, c2)" "conn_ok c2" "msg_ok c2" "inward c1 c2"
    by (rule sure_writer.writes_on [OF sure_all [OF assms(1)] ok1 pl])
  have in2: "inward c c2" by (rule inward_trans [OF p1(2) c2(4)])
  obtain r3 c3 where 3: "pqPutMsgEnd c2 = Some (r3, c3)" using pqPutMsgEnd_spec [OF c2(2,3)] by blast
  have i: "0 \<le> sock c2" "e_send (env c2) = []" using in2 assms(5,6) by (simp_all add: inward_def)
  note p3 = put_end_plenty [OF 3 c2(2,3) i]
  have "put_all (pqPutMsgStart t False # ws @ [pqPutMsgEnd]) c = Some (0, c3)"
    using 1(1) p1(1) c2(1) 3 p3(1) by (simp add: put_all_append)
  then show "r = 0" "inward c c'" using assms(2) inward_trans [OF in2 p3(2)] by simp_all
qed


section \<open>A simple query\<close>

lemma flush_plenty:
  assumes "pqFlush c = Some (k, c')" "conn_ok c" "0 \<le> sock c" "e_send (env c) = []"
  shows "k = 0" "inward c c'" "outCount c' = 0"
proof -
  have z: "0 \<le> outCount c" using conn_okD(2) [OF assms(2)] by (simp add: out_ok_def)
  have "k = 0 \<and> inward c c' \<and> outCount c' = 0"
  proof (cases "outCount c > 0")
    case True
    then have "pqSendSome c (outCount c) = Some (k, c')" using assms(1) by (simp add: pqFlush_def)
    then show ?thesis using send_some_plenty [OF _ assms(2) z _ assms(3,4)] by fastforce
  next
    case False
    then show ?thesis using assms(1) z by (simp add: pqFlush_def)
  qed
  then show "k = 0" "inward c c'" "outCount c' = 0" by simp_all
qed

lemma launch_plenty:
  assumes "launch c = Some (r, c')" "conn_ok c" "0 \<le> sock c" "e_send (env c) = []"
  shows "r = 1" "inward c c'" "outCount c' = 0"
proof -
  obtain k c1 where f: "pqFlush c = Some (k, c1)" using assms(1) by (auto simp: launch_def bind_Some_iff)
  note g = flush_plenty [OF f assms(2-4)]
  have "launch c = Some (1, c1\<lparr>asyncStatus := PGASYNC_BUSY\<rparr>)" using f g(1) by (simp add: launch_def)
  then show "r = 1" "inward c c'" "outCount c' = 0" using g assms(1) by (auto simp: inward_def in_data_def)
qed

lemma good_inward:
  assumes "good c" "inward c c'" "session_ok c'" "outCount c' = 0"
  shows "good c'"
  using assms by (simp add: good_def inward_def healthy_def stream_def)

text \<open>One message on a healthy connection with memory for everything: all of it goes out at once.\<close>

lemma message_sent:
  assumes "list_all2 sure_writer ws bs" "t \<noteq> 0" "good c" "e_send (env c) = []" "length (client_message t (concat bs)) < 2 ^ 30"
  obtains c' where "put_all ((pqPutMsgStart t False # ws @ [pqPutMsgEnd]) @ [pqFlush]) c = Some (0, c')" "good c'" "inward c c'" "through c c'"
    "e_sent (env c') = e_sent (env c) @ client_message t (concat bs)"
proof -
  note g = goodD [OF assms(3)]
  let ?m = "client_message t (concat bs)"
  obtain r1 c1 where 1: "put_all (pqPutMsgStart t False # ws @ [pqPutMsgEnd]) c = Some (r1, c1)" "conn_ok c1" "through c c1"
    "if r1 = 0 then e_sent (env c1) @ pending c1 = e_sent (env c) @ pending c @ ?m
       else r1 = EOF \<and> (\<exists>k. e_sent (env c1) = e_sent (env c) @ take k (pending c @ ?m))"
    using message_sender.sends [OF message_parts [OF sure_parts [OF assms(1)] assms(2)] g(8) session_okD(5) [OF g(1)]] by blast
  have "outCount c + int (length (concat bs)) \<le> 2147475000" using assms(5) g(6) unfolding client_message_def by simp
  note p1 = sure_message [OF assms(1) 1(1) g(8,3,4) assms(4) this]
  have s1: "session_ok c1" by (rule through_session [OF g(1) 1(3,2)])
  obtain k c2 where 2: "pqFlush c1 = Some (k, c2)" "client_ok c2" "through c1 c2" "send_answer c1 (length (pending c1)) k c2"
    using pqFlush_client [OF session_okD(1) [OF s1]] by blast
  have s2: "session_ok c2" by (rule through_session [OF s1 2(3) client_okD(1) [OF 2(2)]])
  have i: "0 \<le> sock c1" "e_send (env c1) = []" using p1(2) g(4) assms(4) by (simp_all add: inward_def)
  note p2 = flush_plenty [OF 2(1) 1(2) i]
  have in2: "inward c c2" by (rule inward_trans [OF p1(2) p2(2)])
  have "put_all ((pqPutMsgStart t False # ws @ [pqPutMsgEnd]) @ [pqFlush]) c = Some (0, c2)"
    unfolding put_all_append [of "pqPutMsgStart t False # ws @ [pqPutMsgEnd]"] using 1(1) p1(1) 2(1) p2(1) by simp
  moreover have "pending c = []" "pending c2 = []" using g(6) p2(3) by (simp_all add: pending_def)
  then have "e_sent (env c2) = e_sent (env c) @ ?m" using 1(4) 2(4) p1(1) p2(1) by (auto simp: send_answer_def sent_out_def)
  moreover have "through c c2" by (rule through_trans [OF 1(3) 2(3)])
  ultimately show thesis using that [of c2] good_inward [OF assms(3) in2 s2 p2(3)] in2 by simp
qed

lemma send_query_good:
  assumes "good c" "asyncStatus c = PGASYNC_IDLE" "e_send (env c) = []" "length q < 2 ^ 30"
  obtains c' where "PQsendQuery c (Some q) = Some (1, c')" "good c'" "inward c c'" "asyncStatus c' = PGASYNC_BUSY" "queryclass c' = PGQUERY_SIMPLE"
    "result c' = None" "curTuple c' = None" "e_sent (env c') = e_sent (env c) @ client_message 0x51 (q @ [0])"
proof -
  note g = goodD [OF assms(1)]
  obtain ok c1 where c1: "PQsendQueryStart c = Some (ok, c1)" "session_ok c1" "ok" "pending c1 = pending c" "e_sent (env c1) = e_sent (env c)"
    "result c1 = None \<and> curTuple c1 = None"
    by (rule PQsendQueryStart_session [OF g(1)]) (use g(5) assms(2) in blast)
  have v: "valid_expbuf (errorMessage c)" using g(8) by (simp add: conn_ok_def)
  obtain m where m: "resetPQExpBuffer (e_alloc (env c)) (errorMessage c) = Some (m, e_alloc (env c))"
    using resetPQExpBuffer_plenty [OF v g(3)] by blast
  then have e1: "inward c c1" "outCount c1 = 0"
    using c1(1) assms(2) g(5,6) by (auto simp: PQsendQueryStart_def reset_error_def set_alloc_def inward_def in_data_def)
  have i1: "plenty (e_alloc (env c1))" "0 \<le> sock c1" "e_send (env c1) = []" "outCount c1 + int (length (concat [q @ [0]])) \<le> 2147475000"
    using e1 g(3,4) assms(3,4) by (simp_all add: inward_def)
  let ?ps = "[pqPutMsgStart 0x51 False, pqPuts q, pqPutMsgEnd]" and ?bs = "client_message 0x51 (q @ [0])"
  have w: "list_all2 sure_writer [pqPuts q] [q @ [0]]" using sure_string [of q] assms(4) by simp
  from message_parts [OF sure_parts [OF w], where t = "0x51"] have ms: "message_sender (put_all ?ps) ?bs" by simp
  obtain r2 c2 where p: "put_all ?ps c1 = Some (r2, c2)" "conn_ok c2" "through c1 c2"
    using message_sender.sends [OF ms session_okD(2) [OF c1(2)] session_okD(5) [OF c1(2)]] by blast
  have "put_all (pqPutMsgStart 0x51 False # [pqPuts q] @ [pqPutMsgEnd]) c1 = Some (r2, c2)" using p(1) by simp
  note p2 = sure_message [OF w this session_okD(2) [OF c1(2)] i1]
  let ?c = "remember_query (Some q) (c2\<lparr>queryclass := PGQUERY_SIMPLE\<rparr>)"
  obtain r c' where s: "(do { (r, conn) \<leftarrow> put_all ?ps c1; if r < 0 then send_failed conn
      else launch (remember_query (Some q) (conn\<lparr>queryclass := PGQUERY_SIMPLE\<rparr>)) }) = Some (r, c')" "sent_off c1 PGQUERY_SIMPLE ?bs r c'"
    using command_sent [OF c1(2) _ _ ms] c1(6) by blast
  then have l: "launch ?c = Some (r, c')" using p2(1) unfolding p(1) by simp
  have s2: "session_ok c2" by (rule through_session [OF c1(2) p(3,2)])
  have "result c2 = None" "curTuple c2 = None" using p(3) c1(6) only_io_fields [of c1 c2] only_io_more [of c1 c2] by (simp_all add: through_def)
  then have "session_ok ?c" by (rule remember_query_session [OF s2])
  then have k: "conn_ok ?c" by (rule session_okD(2))
  have pl2: "plenty (e_alloc (env c2))" using p2(2) i1(1) by (simp add: inward_def)
  have "inward c2 ?c" using pl2 by (simp add: remember_query_def set_alloc_def inward_def in_data_def)
  then have in2: "inward c ?c" by (rule inward_trans [OF inward_trans [OF e1(1) p2(2)]])
  then have "0 \<le> sock ?c" "e_send (env ?c) = []" using g(4) assms(3) by (simp_all add: inward_def)
  note p3 = launch_plenty [OF l k this]
  have "PQsendQuery c (Some q) = Some (1, c')" using c1(1,3) s(1) p3(1) by (simp add: PQsendQuery_def)
  moreover have "pending c' = []" "pending c1 = []" using p3(3) e1(2) by (simp_all add: pending_def)
  moreover have "inward c c'" by (rule inward_trans [OF in2 p3(2)])
  ultimately show thesis using that [of c'] s(2) p3(1,3) c1(5) good_inward [OF assms(1)] by (simp add: sent_off_def)
qed

text \<open>The whole of \<open>PQexec\<close>.\<close>

lemma exec_start_idle:
  assumes "good c" "asyncStatus c = PGASYNC_IDLE" "in_data c = []"
  obtains c' where "PQexecStart c = Some (True, c')" "good c'" "asyncStatus c' = PGASYNC_IDLE" "in_data c' = []" "inward c c'" "env c' = env c"
proof -
  note g = goodD [OF assms(1)]
  have s: "state_ok (c\<lparr>inCursor := inStart c\<rparr>)" using g(9) by (simp add: parser_ok_def)
  have "unread (c\<lparr>inCursor := inStart c\<rparr>) = []" using assms(3) by (simp add: unread_def in_data_def)
  then have "pqGetc (c\<lparr>inCursor := inStart c\<rparr>) = Some (None, c\<lparr>inCursor := inStart c\<rparr>)" by (cases rule: pqGetc_cases [OF s]) simp_all
  then have "pqParseInput3 c = Some (c\<lparr>inCursor := inStart c\<rparr>)" by (simp add: pqParseInput3.simps parse_step_def)
  then have p: "parseInput c = Some (c\<lparr>inCursor := inStart c\<rparr>)" using session_okD(5) [OF g(1)] by (simp add: parseInput_def)
  obtain c1 where c1: "parseInput c = Some c1" "session_ok c1" by (rule parse_session [OF g(1)])
  let ?c = "c\<lparr>inCursor := inStart c\<rparr>"
  have i: "inward c ?c" by (simp add: inward_def in_data_def)
  have "session_ok ?c" using c1 p by simp
  then have "good ?c" using good_inward [OF assms(1) i] g(6) by simp
  moreover have "PQexecStart c = Some (True, ?c)"
    using p assms(2) by (simp add: PQexecStart.simps PQgetResult_def wait_result.simps current_result_def)
  ultimately show thesis using that [of ?c] assms(2,3) i by (simp add: in_data_def)
qed

lemma exec_query:
  assumes "good c" "asyncStatus c = PGASYNC_IDLE" "in_data c = []" "e_send (env c) = []" "length q < 2 ^ 30"
    and "stream (env c) = answer_bytes fs rows tag @ ready_message x" "answer_fits fs rows tag"
  obtains r c' where "PQexec c (Some q) = Some (Some r, c')" "good c'" "at_rest c' (stream (env c'))" "holds_answer fs rows tag r"
    "e_sent (env c') = e_sent (env c) @ client_message 0x51 (q @ [0])"
proof -
  obtain c1 where c1: "PQexecStart c = Some (True, c1)" "good c1" "asyncStatus c1 = PGASYNC_IDLE" "in_data c1 = []" "env c1 = env c"
    by (rule exec_start_idle [OF assms(1-3)])
  obtain c2 where c2: "PQsendQuery c1 (Some q) = Some (1, c2)" "good c2" "inward c1 c2" "asyncStatus c2 = PGASYNC_BUSY" "queryclass c2 = PGQUERY_SIMPLE"
    "result c2 = None" "e_sent (env c2) = e_sent (env c1) @ client_message 0x51 (q @ [0])"
    by (rule send_query_good [OF c1(2,3) _ assms(5)]) (use assms(4) c1(5) in simp_all)
  have d: "in_data c2 @ stream (env c2) = answer_bytes fs rows tag @ ready_message x"
    using c2(3) c1(4,5) assms(6) by (simp add: inward_def stream_def)
  have "in_answer fs rows tag x c2 (stream (env c2))"
    by (rule waiting_in_answer [OF c2(2,4) _ c2(6) d assms(7)]) (use c2(5) in simp)
  then obtain r c3 where c3: "PQexecFinish c2 = Some (Some r, c3)" "good c3" "at_rest c3 (stream (env c3))" "holds_answer fs rows tag r"
    "e_sent (env c3) = e_sent (env c2)" by (rule finish_answer [OF c2(2)])
  have "PQexec c (Some q) = Some (Some r, c3)" using c1(1) c2(1) c3(1) by (simp add: PQexec_def exec_with_def)
  then show thesis using that c3 c2(7) c1(5) by simp
qed

end
