(* ===== verification/ExecProps.thy ===== *)
theory ExecProps
  imports Queries
begin

text \<open>
  The properties of query execution.
\<close>

section \<open>Example connections\<close>

text \<open>A client at rest; the packets are still under way.\<close>

definition idle_conn :: "byte list list \<Rightarrow> pg_conn" where
  "idle_conn packets = (waiting_conn [])\<lparr>asyncStatus := PGASYNC_IDLE, env := (env (waiting_conn []))\<lparr>e_recv := map Recv packets\<rparr>\<rparr>"

lemma idle_conn_fields [simp]:
  "asyncStatus (idle_conn ps) = PGASYNC_IDLE" "in_data (idle_conn ps) = []" "e_send (env (idle_conn ps)) = []" "e_sent (env (idle_conn ps)) = []"
  "stream (env (idle_conn ps)) = concat ps" "pending (idle_conn ps) = []" "status (idle_conn ps) = CONNECTION_OK" "queryclass (idle_conn ps) = PGQUERY_SIMPLE"
  "curTuple (idle_conn ps) = None"
proof -
  have "concat (map (\<lambda>ev. case ev of Recv bs \<Rightarrow> bs | Recv_error e \<Rightarrow> []) (map Recv ps)) = concat ps" by (induction ps) simp_all
  then show "stream (env (idle_conn ps)) = concat ps" by (simp add: idle_conn_def stream_def)
qed (simp_all add: idle_conn_def waiting_conn_def example_conn_def in_data_def pending_def)

lemma idle_conn_good:
  assumes "length (concat ps) \<le> 10000"
  shows "session_ok (idle_conn ps)" "[] \<notin> set ps \<Longrightarrow> good (idle_conn ps)"
proof -
  have w: "state_ok (waiting_conn [])" by (simp add: waiting_conn_ok)
  then have s: "state_ok (idle_conn ps)" by (simp add: idle_conn_def state_ok_def conn_ok_def in_ok_def out_ok_def)
  have f: "result (idle_conn ps) = None" "curTuple (idle_conn ps) = None" "inStart (idle_conn ps) = 0" "inEnd (idle_conn ps) = 0"
    "verbosity (idle_conn ps) = PQERRORS_TERSE" "PG_PROTOCOL_MAJOR (pversion (idle_conn ps)) = 3"
    by (simp_all add: idle_conn_def) (simp add: waiting_conn_def example_conn_def PG_PROTOCOL_MAJOR_def)
  show ok: "session_ok (idle_conn ps)"
    using s f assms by (simp add: session_ok_def client_ok_iff results_ok_def row_started_def load_def rows_of_def)
  have n: "\<exists>ps'. env (idle_conn ps) = (env (waiting_conn []))\<lparr>e_recv := map Recv ps\<rparr>" "outCount (idle_conn ps) = 0" "sock (idle_conn ps) = 3"
    "e_poll (env (waiting_conn [])) = []" "status (idle_conn ps) = CONNECTION_OK"
    by (simp_all add: idle_conn_def) (simp_all add: waiting_conn_def example_conn_def)
  show "good (idle_conn ps)" if "[] \<notin> set ps"
  proof -
    have "healthy (env (idle_conn ps))" using n that by (auto simp: healthy_def)
    moreover have "plenty (e_alloc (env (idle_conn ps)))" using n(1) waiting_conn_fields(9) [of "[]"] by simp
    moreover have "length (stream (env (idle_conn ps))) \<le> 10000" using assms by simp
    ultimately show ?thesis using ok n(2,3,5) f unfolding good_def by simp
  qed
qed


section \<open>Commands that return\<close>

lemma send_params_session:
  assumes "session_ok c" "command_fits (Some q) [] n types values lengths formats"
  shows "\<exists>r c'. PQsendQueryParams c (Some q) n types values lengths formats res_format = Some (r, c') \<and> session_ok c' \<and>
    (status c = CONNECTION_OK \<and> asyncStatus c = PGASYNC_IDLE \<longrightarrow>
      sent_off c PGQUERY_EXTENDED (command_messages (Some q) [] n types values lengths formats res_format) r c')"
proof -
  obtain ok c1 where c1: "PQsendQueryStart c = Some (ok, c1)" "session_ok c1" "ok \<longleftrightarrow> status c = CONNECTION_OK \<and> asyncStatus c = PGASYNC_IDLE"
    "pending c1 = pending c" "e_sent (env c1) = e_sent (env c)" "ok \<Longrightarrow> result c1 = None \<and> curTuple c1 = None"
    by (rule PQsendQueryStart_session [OF assms(1)]) blast
  show ?thesis
  proof (cases ok)
    case False
    then show ?thesis using c1(1-3) by (auto simp: PQsendQueryParams_def)
  next
    case True
    then have r1: "result c1 = None" "curTuple c1 = None" using c1(6) by simp_all
    have v: "\<not> PG_PROTOCOL_MAJOR (pversion c1) < 3" using session_okD(5) [OF c1(2)] by simp
    from command_sent [OF c1(2) r1 command_sender [OF assms(2), of res_format], of "Some q" PGQUERY_EXTENDED]
    obtain r c' where s: "PQsendQueryGuts c1 (Some q) [] n types values lengths formats res_format = Some (r, c')"
      "sent_off c1 PGQUERY_EXTENDED (command_messages (Some q) [] n types values lengths formats res_format) r c'"
      unfolding PQsendQueryGuts_def if_not_P [OF v] by blast
    have "PQsendQueryParams c (Some q) n types values lengths formats res_format = Some (r, c')"
      using c1(1) True s(1) by (simp add: PQsendQueryParams_def)
    then show ?thesis using s(2) c1(4,5) by (auto simp: sent_off_def)
  qed
qed

lemma exec_with_session:
  assumes "session_ok c" "\<And>c. session_ok c \<Longrightarrow> \<exists>r c'. send c = Some (r, c') \<and> session_ok c'"
  shows "(\<exists>res c'. exec_with send c = Some (res, c') \<and> session_ok c' \<and> (\<forall>r. res = Some r \<longrightarrow> result_ok r)) \<or>
    (\<exists>c1 l c2. session_ok c1 \<and> finish_reach None c1 l c2 \<and> no_text l c2)"
proof -
  obtain ok c1 where 1: "PQexecStart c = Some (ok, c1)" "session_ok c1" using PQexecStart_session [OF assms(1)] by blast
  obtain r c2 where 2: "send c1 = Some (r, c2)" "session_ok c2" using assms(2) [OF 1(2)] by blast
  consider (ends) res c' where "PQexecFinish c2 = Some (res, c')" "session_ok c'" "\<forall>r. res = Some r \<longrightarrow> result_ok r"
    | (stuck) l c' where "finish_reach None c2 l c'" "no_text l c'"
    using finish_loop_session [OF 2(2), of None] unfolding PQexecFinish_def by fastforce
  then show ?thesis
  proof cases
    case ends
    then show ?thesis using 1 2 by (cases "ok \<and> r \<noteq> 0") (auto simp: exec_with_def)
  next
    case stuck
    then show ?thesis using 2(2) by blast
  qed
qed

text \<open>The copy of the data into the output buffer, after which no space has to be found in the middle of the message.\<close>

lemma check_out_space_session:
  assumes "session_ok c"
  shows "\<exists>r c'. pqCheckOutBufferSpace n c = Some (r, c') \<and> session_ok c' \<and> e_sent (env c') = e_sent (env c) \<and> pending c' = pending c \<and>
    nonblocking c' = nonblocking c"
proof -
  obtain r c' where r: "pqCheckOutBufferSpace n c = Some (r, c')" "conn_ok c'"
    "if r = 0 then grown (outBuffer c) (outBufSize c) n (outBuffer c') (outBufSize c') \<and>
       c' = c\<lparr>outBuffer := outBuffer c', outBufSize := outBufSize c', env := env c'\<rparr>
     else r = EOF \<and> only_env c c' \<and> (n \<le> 2147475456 \<longrightarrow> False \<in> set (oks (e_alloc (env c))))"
    using pqCheckOutBufferSpace_spec [OF session_okD(2) [OF assms]] by blast
  have q: "only_out c c'" "same_events (env c) (env c')" using pqCheckOutBufferSpace_quiet [OF r(1) session_okD(2) [OF assms]] by auto
  then have t: "through c c'" using put_quiet_through [of c c'] by (simp add: put_quiet_def)
  have "pending c' = pending c"
  proof (cases "r = 0")
    case True
    then have g: "grown (outBuffer c) (outBufSize c) n (outBuffer c') (outBufSize c')"
      and c': "c' = c\<lparr>outBuffer := outBuffer c', outBufSize := outBufSize c', env := env c'\<rparr>" using r(3) by auto
    have "outCount c' = outCount c" using c' by (cases c; cases c') simp
    moreover have "nat (outCount c) \<le> length (outBuffer c)" using conn_okD(2) [OF session_okD(2) [OF assms]] by (auto simp: out_ok_def)
    ultimately show ?thesis using grown_bytes [OF _ g, of "nat (outCount c)"] by (simp add: pending_def)
  next
    case False
    then show ?thesis using r(3) by (auto simp: pending_def only_env_fields)
  qed
  moreover have "e_sent (env c') = e_sent (env c)" using q(2) by (simp add: same_events_def same_io_def)
  moreover have "nonblocking c' = nonblocking c" using q(1) unfolding only_out_def by (cases c; cases c') simp
  ultimately show ?thesis using r(1) through_session [OF assms t r(2)] by blast
qed

lemma PQputCopyData_session:
  assumes "session_ok c" "asyncStatus c = PGASYNC_COPY_IN \<or> asyncStatus c = PGASYNC_COPY_BOTH" "0 < nbytes" "nbytes < 2 ^ 31" "nat nbytes \<le> length buffer"
  shows "\<exists>r c'. PQputCopyData c buffer nbytes = Some (r, c') \<and> session_ok c' \<and>
    (r = 1 \<and> e_sent (env c') @ pending c' = e_sent (env c) @ pending c @ client_message 0x64 (take (nat nbytes) buffer) \<or>
     (r = 0 \<and> nonblocking c \<or> r = - 1) \<and> (\<exists>n. e_sent (env c') = e_sent (env c) @ take n (pending c @ client_message 0x64 (take (nat nbytes) buffer))))"
proof -
  let ?bs = "take (nat nbytes) buffer" let ?m = "client_message 0x64 ?bs"
  obtain c1 where c1: "parseInput c = Some c1" "session_ok c1" "net_frame c c1" by (rule parse_session [OF assms(1)])
  have f1: "e_sent (env c1) = e_sent (env c)" "pending c1 = pending c" "nonblocking c1 = nonblocking c"
    using c1(3) by (simp_all add: net_frame_def same_events_def same_io_def pending_def)
  have rd: "rd_bytes buffer 0 (nat nbytes) = Some ?bs" using assms(5) by (simp add: rd_bytes_def)
  have "part_writer (pqPutnchar ?bs) ?bs" using assms(3-5) by (intro put_block) simp
  then have "list_all2 part_writer [pqPutnchar ?bs] [?bs]" by simp
  from message_parts [OF this, where t = "0x64"] have ms: "message_sender (put_all [pqPutMsgStart 0x64 False, pqPutnchar ?bs, pqPutMsgEnd]) ?m" by simp
  define flush where "flush = (if wrap32 (outBufSize c1 - outCount c1 - 5) < nbytes then do {
      (r, conn) \<leftarrow> pqFlush c1;
      if r < 0 then Some (Some (- 1 :: int), conn)
      else do {
        (r, conn) \<leftarrow> pqCheckOutBufferSpace (szadd (nat (outCount conn + 5)) (nat nbytes)) conn;
        Some (if r \<noteq> 0 then Some (if nonblocking conn then 0 else - 1) else None, conn)
      }
    }
    else Some (None, c1))"
  have "\<exists>full c2 n. flush = Some (full, c2) \<and> session_ok c2 \<and> e_sent (env c2) = e_sent (env c) @ take n (pending c) \<and>
    (full = None \<and> e_sent (env c2) @ pending c2 = e_sent (env c) @ pending c \<or> full = Some (- 1) \<or> full = Some 0 \<and> nonblocking c)"
  proof (cases "wrap32 (outBufSize c1 - outCount c1 - 5) < nbytes")
    case False
    then show ?thesis using c1(2) f1 by (intro exI [of _ None] exI [of _ c1] exI [of _ 0]) (simp add: flush_def)
  next
    case True
    obtain r c2 where r: "pqFlush c1 = Some (r, c2)" "client_ok c2" "through c1 c2" "send_answer c1 (length (pending c1)) r c2"
      using pqFlush_client [OF session_okD(1) [OF c1(2)]] by blast
    have s2: "session_ok c2" by (rule through_session [OF c1(2) r(3) client_okD(1) [OF r(2)]])
    have "\<exists>n. e_sent (env c2) = e_sent (env c1) @ take n (pending c1)" using r(4) unfolding send_answer_def sent_out_def by blast
    then obtain n where n: "e_sent (env c2) = e_sent (env c) @ take n (pending c)" using f1 by auto
    show ?thesis
    proof (cases "r < 0")
      case neg: True
      then show ?thesis using True r(1) s2 n by (intro exI [of _ "Some (- 1)"] exI [of _ c2] exI [of _ n]) (simp add: flush_def)
    next
      case False
      then have all: "e_sent (env c2) @ pending c2 = e_sent (env c) @ pending c" using r(4) f1 by (auto simp: send_answer_def sent_out_def)
      have nb: "nonblocking c2 = nonblocking c" using r(3) f1(3) only_io_fields [of c1 c2] by (simp add: through_def)
      obtain k c3 where k: "pqCheckOutBufferSpace (szadd (nat (outCount c2 + 5)) (nat nbytes)) c2 = Some (k, c3)" "session_ok c3"
        "e_sent (env c3) = e_sent (env c2)" "pending c3 = pending c2" "nonblocking c3 = nonblocking c2" using check_out_space_session [OF s2] by blast
      show ?thesis using True False r(1) k n all nb
        by (intro exI [of _ "if k \<noteq> 0 then Some (if nonblocking c3 then 0 else - 1) else None"] exI [of _ c3] exI [of _ n]) (simp add: flush_def)
    qed
  qed
  then obtain full c2 n where c2: "flush = Some (full, c2)" "session_ok c2" "e_sent (env c2) = e_sent (env c) @ take n (pending c)"
    "full = None \<and> e_sent (env c2) @ pending c2 = e_sent (env c) @ pending c \<or> full = Some (- 1) \<or> full = Some 0 \<and> nonblocking c" by blast
  have v: "PG_PROTOCOL_MAJOR (pversion c2) \<ge> 3" by (rule session_okD(5) [OF c2(2)])
  have run: "PQputCopyData c buffer nbytes = (case full of Some r \<Rightarrow> Some (r, c2)
      | None \<Rightarrow> Option.bind (put_all [pqPutMsgStart 0x64 False, pqPutnchar ?bs, pqPutMsgEnd] c2) (\<lambda>(r, conn). Some (if r < 0 then - 1 else 1, conn)))"
    using assms(2,3) c1(1) c2(1) rd v unfolding PQputCopyData_def flush_def by (auto split: option.splits)
  show ?thesis
  proof (cases full)
    case (Some r)
    have "e_sent (env c2) = e_sent (env c) @ take (min n (length (pending c))) (pending c @ ?m)" using c2(3) by (simp add: min_def)
    then have "\<exists>n. e_sent (env c2) = e_sent (env c) @ take n (pending c @ ?m)" by blast
    then show ?thesis using run Some c2(2,4) by auto
  next
    case None
    then have all: "e_sent (env c2) @ pending c2 = e_sent (env c) @ pending c" using c2(4) by simp
    obtain r c3 where r: "put_all [pqPutMsgStart 0x64 False, pqPutnchar ?bs, pqPutMsgEnd] c2 = Some (r, c3)" "conn_ok c3" "through c2 c3"
      "if r = 0 then e_sent (env c3) @ pending c3 = e_sent (env c2) @ pending c2 @ ?m
       else r = EOF \<and> (\<exists>k. e_sent (env c3) = e_sent (env c2) @ take k (pending c2 @ ?m))"
      using message_sender.sends [OF ms session_okD(2) [OF c2(2)] v] by blast
    have s3: "session_ok c3" by (rule through_session [OF c2(2) r(3,2)])
    have res: "PQputCopyData c buffer nbytes = Some (if r < 0 then - 1 else 1, c3)" using run None unfolding r(1) by simp
    show ?thesis
    proof (cases "r = 0")
      case True
      then have "e_sent (env c3) @ pending c3 = (e_sent (env c2) @ pending c2) @ ?m" using r(4) by simp
      then show ?thesis using res True s3 unfolding all by simp
    next
      case False
      then obtain k where k: "e_sent (env c3) = e_sent (env c2) @ take k (pending c2 @ ?m)" and neg: "r < 0" using r(4) by (auto simp: EOF_def)
      then have "e_sent (env c3) @ drop k (pending c2 @ ?m) = (e_sent (env c2) @ pending c2) @ ?m" by (metis append.assoc append_take_drop_id)
      then have "e_sent (env c3) @ drop k (pending c2 @ ?m) = e_sent (env c) @ pending c @ ?m" unfolding all by simp
      moreover have "length (e_sent (env c)) \<le> length (e_sent (env c3))" using k c2(3) by simp
      ultimately have "\<exists>n. e_sent (env c3) = e_sent (env c) @ take n (pending c @ ?m)" by (rule sent_prefix)
      then show ?thesis using res neg s3 by auto
    qed
  qed
qed


section \<open>A query from the application to the server and back\<close>




section \<open>What goes out\<close>








section \<open>What comes back\<close>





end
