(* ===== verification/CopyOut.thy ===== *)
theory CopyOut
  imports Exec
begin

text \<open>
  Receiving the data of a COPY: \<open>getCopyDataMessage\<close>, \<open>pqGetCopyData3\<close>, \<open>pqGetline3\<close>, \<open>pqGetlineAsync3\<close> and \<open>pqEndcopy3\<close> of \<open>fe-protocol3.c\<close> and
  their callers in \<open>fe-exec.c\<close>.

  The outer \<open>None\<close> is undefined behaviour or a loop that does not end, and a server of protocol 2. A buffer of the caller is the memory behind the pointer;
  a write behind its end is undefined. The functions answer their failure value at once for a null connection.
\<close>

section \<open>The next message\<close>

text \<open>A message that does not belong to the COPY is taken by its handler; \<open>None\<close>: on to the next message.\<close>

definition copy_async :: "(int \<times> pg_conn) option \<Rightarrow> (int option \<times> pg_conn) option" where
  "copy_async m = do {
     (r, conn) \<leftarrow> m;
     Some (if r \<noteq> 0 then (Some 0, conn) else (None, conn\<lparr>inStart := inCursor conn\<rparr>))
   }"

text \<open>One turn of the loop of \<open>getCopyDataMessage\<close>: its answer, or none yet.\<close>

definition copy_turn :: "pg_conn \<Rightarrow> (int option \<times> pg_conn) option" where
  "copy_turn conn =
     or_eof (pqGetc (conn\<lparr>inCursor := inStart conn\<rparr>)) (\<lambda>conn. Some (Some 0, conn)) (\<lambda>ident conn.
     or_eof (pqGetInt 4 conn) (\<lambda>conn. Some (Some 0, conn)) (\<lambda>msgLength conn.
       if msgLength < 4 then do {
         conn \<leftarrow> handleSyncLoss conn ident msgLength;
         Some (Some (- 2), conn)
       }
       else if inEnd conn - inCursor conn < msgLength - 4 then do {
         (r, conn) \<leftarrow> pqCheckInBufferSpace (szsub (szadd (nat (inCursor conn)) (nat msgLength)) 4) conn;
         if r \<noteq> 0 then do { conn \<leftarrow> handleSyncLoss conn ident msgLength; Some (Some (- 2), conn) }
         else Some (Some 0, conn)
       }
       else if ident = 0x41 then copy_async (getNotify conn)
       else if ident = 0x4E then copy_async (pqGetErrorNotice3 conn False)
       else if ident = 0x53 then copy_async (getParameterStatus conn)
       else if ident = 0x64 then Some (Some msgLength, conn)
       else Some (Some (- 1), conn)))"

partial_function (option) getCopyDataMessage :: "pg_conn \<Rightarrow> (int \<times> pg_conn) option" where
  "getCopyDataMessage conn =
     Option.bind (copy_turn conn) (\<lambda>(r, conn). case r of Some n \<Rightarrow> Some (n, conn) | None \<Rightarrow> getCopyDataMessage conn)"


section \<open>Rows\<close>

text \<open>Wait for data and load them; \<open>False\<close>: one of these failed.\<close>

definition wait_and_read :: "pg_conn \<Rightarrow> (bool \<times> pg_conn) option" where
  "wait_and_read conn = do {
     (w, conn) \<leftarrow> pqWait True False conn;
     if w \<noteq> 0 then Some (False, conn)
     else do { (n, conn) \<leftarrow> pqReadData conn; Some (n \<ge> 0, conn) }
   }"

text \<open>The row is copied into a block of its own, with a terminator.\<close>

definition hand_out_row :: "int \<Rightarrow> pg_conn \<Rightarrow> (int \<times> byte list option \<times> pg_conn) option" where
  "hand_out_row msgLength conn = do {
     let (block, a) = c_malloc (e_alloc (env conn)) (nat (msgLength + 1));
     let conn = set_alloc a conn;
     case block of
       None \<Rightarrow> do { conn \<leftarrow> printf_error conn (lit ''out of memory'' @ [0x0A]); Some (- 2, None, conn) }
     | Some block \<Rightarrow> do {
         bs \<leftarrow> rd_bytes (inBuffer conn) (nat (inCursor conn)) (nat msgLength);
         block \<leftarrow> wr_bytes block 0 (bs @ [0]);
         Some (msgLength, Some block, conn\<lparr>inStart := inCursor conn + msgLength\<rparr>)
       }
   }"

partial_function (option) pqGetCopyData3 :: "bool \<Rightarrow> pg_conn \<Rightarrow> (int \<times> byte list option \<times> pg_conn) option" where
  "pqGetCopyData3 async conn =
     Option.bind (getCopyDataMessage conn) (\<lambda>(msgLength, conn).
       if msgLength < 0 then Some (msgLength, None, if msgLength = - 1 then conn\<lparr>asyncStatus := PGASYNC_BUSY\<rparr> else conn)
       else if msgLength = 0 then
         (if async then Some (0, None, conn)
          else Option.bind (wait_and_read conn) (\<lambda>(ok, conn). if ok then pqGetCopyData3 async conn else Some (- 2, None, conn)))
       else if msgLength - 4 > 0 then hand_out_row (msgLength - 4) conn
       else pqGetCopyData3 async (conn\<lparr>inStart := inCursor conn\<rparr>))"

definition PQgetCopyData :: "pg_conn \<Rightarrow> bool \<Rightarrow> (int \<times> byte list option \<times> pg_conn) option" where
  "PQgetCopyData conn async =
     (if asyncStatus conn \<noteq> PGASYNC_COPY_OUT \<and> asyncStatus conn \<noteq> PGASYNC_COPY_BOTH then do {
        conn \<leftarrow> printf_error conn (lit ''no COPY in progress'' @ [0x0A]);
        Some (- 2, None, conn)
      }
      else if PG_PROTOCOL_MAJOR (pversion conn) \<ge> 3 then pqGetCopyData3 async conn
      else None)"


section \<open>Lines\<close>

text \<open>\<open>memcpy\<close> of \<open>n\<close> bytes from the input into the buffer of the caller; a negative number is a size beyond all memory.\<close>

definition give_bytes :: "byte list \<Rightarrow> int \<Rightarrow> pg_conn \<Rightarrow> byte list option" where
  "give_bytes buffer n conn =
     (if n < 0 then None
      else do {
        bs \<leftarrow> rd_bytes (inBuffer conn) (nat (inCursor conn)) (nat n);
        wr_bytes buffer 0 bs
      })"

definition pqGetlineAsync3 :: "pg_conn \<Rightarrow> byte list \<Rightarrow> int \<Rightarrow> (int \<times> byte list \<times> pg_conn) option" where
  "pqGetlineAsync3 conn buffer bufsize =
     (if asyncStatus conn \<noteq> PGASYNC_COPY_OUT then Some (- 1, buffer, conn)
      else do {
        (msgLength, conn) \<leftarrow> getCopyDataMessage conn;
        if msgLength < 0 then Some (- 1, buffer, conn)
        else if msgLength = 0 then Some (0, buffer, conn)
        else do {
          let conn = conn\<lparr>inCursor := inCursor conn + copy_already_done conn\<rparr>;
          let avail = msgLength - 4 - copy_already_done conn;
          if avail \<le> bufsize then do {
            buffer \<leftarrow> give_bytes buffer avail conn;
            Some (avail, buffer, conn\<lparr>inStart := inCursor conn + avail, copy_already_done := 0\<rparr>)
          }
          else do {
            buffer \<leftarrow> give_bytes buffer bufsize conn;
            Some (bufsize, buffer, conn\<lparr>copy_already_done := copy_already_done conn + bufsize\<rparr>)
          }
        }
      })"

definition PQgetlineAsync :: "pg_conn \<Rightarrow> byte list \<Rightarrow> int \<Rightarrow> (int \<times> byte list \<times> pg_conn) option" where
  "PQgetlineAsync conn buffer bufsize = (if PG_PROTOCOL_MAJOR (pversion conn) \<ge> 3 then pqGetlineAsync3 conn buffer bufsize else None)"

text \<open>\<open>while ((status = PQgetlineAsync(conn, s, maxlen - 1)) == 0)\<close>; \<open>False\<close>: no more data can be loaded.\<close>

partial_function (option) getline_loop :: "int \<Rightarrow> byte list \<Rightarrow> pg_conn \<Rightarrow> (bool \<times> int \<times> byte list \<times> pg_conn) option" where
  "getline_loop n s conn =
     Option.bind (PQgetlineAsync conn s n) (\<lambda>(st, s, conn).
       if st = 0 then
         Option.bind (wait_and_read conn) (\<lambda>(ok, conn). if ok then getline_loop n s conn else Some (False, 0, s, conn))
       else Some (True, st, s, conn))"

definition pqGetline3 :: "pg_conn \<Rightarrow> byte list \<Rightarrow> int \<Rightarrow> (int \<times> byte list \<times> pg_conn) option" where
  "pqGetline3 conn s maxlen =
     (if sock conn < 0 \<or> asyncStatus conn \<noteq> PGASYNC_COPY_OUT \<or> copy_is_binary conn \<noteq> 0 then do {
        conn \<leftarrow> printf_error conn (lit ''PQgetline: not doing text COPY OUT'' @ [0x0A]);
        s \<leftarrow> wr s 0 0;
        Some (EOF, s, conn)
      }
      else do {
        (ok, st, s, conn) \<leftarrow> getline_loop (maxlen - 1) s conn;
        if \<not> ok then do { s \<leftarrow> wr s 0 0; Some (EOF, s, conn) }
        else if st < 0 then do { s \<leftarrow> wr_bytes s 0 [0x5C, 0x2E, 0]; Some (0, s, conn) }
        else do {
          b \<leftarrow> rd s (nat (st - 1));
          if b = 0x0A then do { s \<leftarrow> wr s (nat (st - 1)) 0; Some (0, s, conn) }
          else do { s \<leftarrow> wr s (nat st) 0; Some (1, s, conn) }
        }
      })"

definition PQgetline :: "pg_conn \<Rightarrow> byte list option \<Rightarrow> int \<Rightarrow> (int \<times> byte list option \<times> pg_conn) option" where
  "PQgetline conn buffer maxlen =
     (case buffer of
        None \<Rightarrow> Some (EOF, None, conn)
      | Some s \<Rightarrow>
          if maxlen \<le> 0 then Some (EOF, Some s, conn)
          else do {
            s \<leftarrow> wr s 0 0;
            if maxlen < 3 then Some (EOF, Some s, conn)
            else if PG_PROTOCOL_MAJOR (pversion conn) \<ge> 3 then do {
              (r, s, conn) \<leftarrow> pqGetline3 conn s maxlen;
              Some (r, Some s, conn)
            }
            else None
          })"


section \<open>The end of the COPY\<close>

text \<open>The error message as a notice, without the newline at its end.\<close>

definition message_as_notice :: "pg_conn \<Rightarrow> pg_conn option" where
  "message_as_notice conn =
     (if eb_len (errorMessage conn) > 0 then do {
        d \<leftarrow> eb_data (errorMessage conn);
        svLast \<leftarrow> rd d (eb_len (errorMessage conn) - 1);
        d \<leftarrow> (if svLast = 0x0A then wr d (eb_len (errorMessage conn) - 1) 0 else Some d);
        msg \<leftarrow> eb_cstr ((errorMessage conn)\<lparr>eb_data := Some d\<rparr>);
        pqInternalNotice conn msg
      }
      else Some conn)"

definition pqEndcopy3 :: "pg_conn \<Rightarrow> (int \<times> pg_conn) option" where
  "pqEndcopy3 conn =
     (if asyncStatus conn \<noteq> PGASYNC_COPY_IN \<and> asyncStatus conn \<noteq> PGASYNC_COPY_OUT then refuse 1 conn (lit ''no COPY in progress'')
      else do {
        (r, conn) \<leftarrow> (if asyncStatus conn = PGASYNC_COPY_IN
          then put_all ([pqPutMsgStart 0x63 False, pqPutMsgEnd] @ (if queryclass conn \<noteq> PGQUERY_SIMPLE then [pqPutMsgStart 0x53 False, pqPutMsgEnd] else [])) conn
          else Some (0, conn));
        if r < 0 then Some (1, conn)
        else do {
          (r, conn) \<leftarrow> pqFlush conn;
          if r \<noteq> 0 \<and> nonblocking conn then Some (1, conn)
          else do {
            conn \<leftarrow> reset_error (conn\<lparr>asyncStatus := PGASYNC_BUSY\<rparr>);
            (waiting, conn) \<leftarrow> (if nonblocking conn then PQisBusy conn else Some (False, conn));
            if waiting then Some (1, conn)
            else do {
              (res, conn) \<leftarrow> PQgetResult conn;
              if \<exists>r. res = Some r \<and> resultStatus r = PGRES_COMMAND_OK then Some (0, conn)
              else do { conn \<leftarrow> message_as_notice conn; Some (1, conn) }
            }
          }
        }
      })"

definition PQendcopy :: "pg_conn \<Rightarrow> (int \<times> pg_conn) option" where
  "PQendcopy conn = (if PG_PROTOCOL_MAJOR (pversion conn) \<ge> 3 then pqEndcopy3 conn else None)"

end
