(* ===== verification/FastPath.thy ===== *)
theory FastPath
  imports Exec
begin

text \<open>
  Function calls of the server ("fast path"): \<open>pqFunctionCall3\<close> of \<open>fe-protocol3.c\<close> and \<open>PQfn\<close> of \<open>fe-exec.c\<close>.

  The result buffer of the caller is the memory behind \<open>result_buf\<close>; a write behind its end is undefined, as is a negative size for \<open>memcpy\<close>. An \<open>int\<close> in it
  has its bytes in the order of the targets, the lowest one first. Before a message of the server says otherwise, \<open>*actual_result_len\<close> is 0.
\<close>

record PQArgBlock =
  arg_len :: int
  arg_isint :: bool
  arg_integer :: int
  arg_ptr :: "byte list"

section \<open>The call\<close>

definition put_arg :: "PQArgBlock \<Rightarrow> pg_conn \<Rightarrow> (int \<times> pg_conn) option" where
  "put_arg arg conn = do {
     (r, conn) \<leftarrow> pqPutInt (arg_len arg) 4 conn;
     if r \<noteq> 0 then Some (EOF, conn)
     else if arg_len arg = - 1 then Some (0, conn)
     else if arg_isint arg then pqPutInt (arg_integer arg) (nat (arg_len arg mod 2 ^ 32)) conn
     else if arg_len arg < 0 then None
     else do {
       bs \<leftarrow> rd_bytes (arg_ptr arg) 0 (nat (arg_len arg));
       pqPutnchar bs conn
     }
   }"

text \<open>The loop over the arguments, from \<open>i\<close> on.\<close>

fun put_args :: "PQArgBlock list \<Rightarrow> nat \<Rightarrow> nat \<Rightarrow> pg_conn \<Rightarrow> (int \<times> pg_conn) option" where
  "put_args args i 0 conn = Some (0, conn)"
| "put_args args i (Suc n) conn = do {
     arg \<leftarrow> rd args i;
     (r, conn) \<leftarrow> put_arg arg conn;
     if r \<noteq> 0 then Some (EOF, conn) else put_args args (i + 1) n conn
   }"

definition call_parts :: "int \<Rightarrow> PQArgBlock list \<Rightarrow> int \<Rightarrow> (pg_conn \<Rightarrow> (int \<times> pg_conn) option) list" where
  "call_parts fnid args nargs =
     [pqPutMsgStart 0x46 False, pqPutInt fnid 4, pqPutInt 1 2, pqPutInt 1 2, pqPutInt nargs 2, put_args args 0 (nat nargs), pqPutInt 1 2, pqPutMsgEnd]"


section \<open>The answer\<close>

text \<open>What the function knows: the status of the call, the memory of the result and its length.\<close>

record fn_answer =
  fn_status :: ExecStatusType
  fn_buf :: "byte list"
  fn_len :: int

text \<open>How a turn of the loop ends: more data are needed, on to the next message, the answer of the function, or the exit of the loop.\<close>

datatype fn_turn = Fn_more | Fn_next | Fn_return "pg_result option" | Fn_break

definition le_bytes :: "nat \<Rightarrow> int \<Rightarrow> byte list" where
  "le_bytes n v = rev (be_bytes n v)"

text \<open>The message \<open>V\<close>: the value goes to the memory of the caller.\<close>

definition function_result :: "bool \<Rightarrow> fn_answer \<Rightarrow> pg_conn \<Rightarrow> (bool \<times> fn_answer \<times> pg_conn) option" where
  "function_result result_is_int ans conn =
     or_eof (pqGetInt 4 conn) (\<lambda>conn. Some (False, ans, conn)) (\<lambda>len conn.
       let ans = ans\<lparr>fn_len := len\<rparr> in
       if len = - 1 then Some (True, ans\<lparr>fn_status := PGRES_COMMAND_OK\<rparr>, conn)
       else if result_is_int then
         or_eof (pqGetInt (nat (len mod 2 ^ 32)) conn) (\<lambda>conn. Some (False, ans, conn)) (\<lambda>v conn. do {
           buf \<leftarrow> wr_bytes (fn_buf ans) 0 (le_bytes 4 v);
           Some (True, ans\<lparr>fn_buf := buf, fn_status := PGRES_COMMAND_OK\<rparr>, conn)
         })
       else
         or_eof (pqGetnchar (nat (len mod 2 ^ 32)) conn) (\<lambda>conn. Some (False, ans, conn)) (\<lambda>bs conn. do {
           buf \<leftarrow> wr_bytes (fn_buf ans) 0 bs;
           Some (True, ans\<lparr>fn_buf := buf, fn_status := PGRES_COMMAND_OK\<rparr>, conn)
         }))"

text \<open>A handler that is shared with the parser: it has taken its message or needs more data.\<close>

definition fn_handled :: "(int \<times> pg_conn) option \<Rightarrow> fn_answer \<Rightarrow> (bool \<times> fn_answer \<times> pg_conn) option" where
  "fn_handled m ans = do { (r, conn) \<leftarrow> m; Some (r = 0, ans, conn) }"

text \<open>The end of the call, after the message \<open>Z\<close>.\<close>

definition fn_ready :: "int \<Rightarrow> fn_answer \<Rightarrow> pg_conn \<Rightarrow> (fn_turn \<times> fn_answer \<times> pg_conn) option" where
  "fn_ready msgLength ans conn = do {
     (r, conn) \<leftarrow> getReadyForQuery conn;
     if r \<noteq> 0 then Some (Fn_more, ans, conn)
     else do {
       let conn = conn\<lparr>inStart := inStart conn + 5 + msgLength\<rparr>;
       (res, conn) \<leftarrow> (if result conn \<noteq> None then pqPrepareAsyncResult conn else makeEmptyPGresult conn (fn_status ans));
       Some (Fn_return res, ans, conn)
     }
   }"

definition fn_violation :: "byte \<Rightarrow> int \<Rightarrow> fn_answer \<Rightarrow> pg_conn \<Rightarrow> (fn_turn \<times> fn_answer \<times> pg_conn) option" where
  "fn_violation ident msgLength ans conn = do {
     conn \<leftarrow> printf_error conn (lit ''protocol error: id=0x'' @ show_hex (nat (sint ident mod 2 ^ 32)) @ [0x0A]);
     conn \<leftarrow> pqSaveErrorResult conn;
     (res, conn) \<leftarrow> pqPrepareAsyncResult (conn\<lparr>inStart := inStart conn + 5 + msgLength\<rparr>);
     Some (Fn_return res, ans, conn)
   }"

text \<open>The \<open>switch\<close>: V E A N S Z, anything else violates the protocol.\<close>

definition fn_message :: "bool \<Rightarrow> byte \<Rightarrow> int \<Rightarrow> fn_answer \<Rightarrow> pg_conn \<Rightarrow> (fn_turn \<times> fn_answer \<times> pg_conn) option" where
  "fn_message result_is_int ident msgLength ans conn =
     (if ident = 0x5A then fn_ready msgLength ans conn
      else if ident \<notin> {0x56, 0x45, 0x41, 0x4E, 0x53} then fn_violation ident msgLength ans conn
      else do {
        (ok, ans, conn) \<leftarrow>
          (if ident = 0x56 then function_result result_is_int ans conn
           else if ident = 0x45 then do {
             (ok, ans, conn) \<leftarrow> fn_handled (pqGetErrorNotice3 conn True) ans;
             Some (ok, if ok then ans\<lparr>fn_status := PGRES_FATAL_ERROR\<rparr> else ans, conn)
           }
           else if ident = 0x41 then fn_handled (getNotify conn) ans
           else if ident = 0x4E then fn_handled (pqGetErrorNotice3 conn False) ans
           else fn_handled (getParameterStatus conn) ans);
        Some (if ok then (Fn_next, ans, conn\<lparr>inStart := inStart conn + 5 + msgLength\<rparr>) else (Fn_more, ans, conn))
      })"

definition fn_scan :: "bool \<Rightarrow> fn_answer \<Rightarrow> pg_conn \<Rightarrow> (fn_turn \<times> fn_answer \<times> pg_conn) option" where
  "fn_scan result_is_int ans conn =
     or_eof (pqGetc (conn\<lparr>inCursor := inStart conn\<rparr>)) (\<lambda>conn. Some (Fn_more, ans, conn)) (\<lambda>ident conn.
     or_eof (pqGetInt 4 conn) (\<lambda>conn. Some (Fn_more, ans, conn)) (\<lambda>msgLength conn.
       if msgLength < 4 \<or> msgLength > 30000 \<and> \<not> VALID_LONG_MESSAGE_TYPE ident then do {
         conn \<leftarrow> handleSyncLoss conn ident msgLength;
         Some (Fn_break, ans, conn)
       }
       else let msgLength = msgLength - 4 in
         if inEnd conn - inCursor conn < msgLength then do {
           (r, conn) \<leftarrow> pqCheckInBufferSpace (szadd (nat (inCursor conn)) (nat msgLength)) conn;
           if r \<noteq> 0 then do { conn \<leftarrow> handleSyncLoss conn ident msgLength; Some (Fn_break, ans, conn) }
           else Some (Fn_more, ans, conn)
         }
         else fn_message result_is_int ident msgLength ans conn))"

text \<open>The exit of the loop.\<close>

definition fn_failed :: "fn_answer \<Rightarrow> pg_conn \<Rightarrow> (pg_result option \<times> fn_answer \<times> pg_conn) option" where
  "fn_failed ans conn = do {
     conn \<leftarrow> pqSaveErrorResult conn;
     (res, conn) \<leftarrow> pqPrepareAsyncResult conn;
     Some (res, ans, conn)
   }"

definition need_input :: "bool \<Rightarrow> pg_conn \<Rightarrow> (bool \<times> pg_conn) option" where
  "need_input needInput conn =
     (if needInput then do {
        (w, conn) \<leftarrow> pqWait True False conn;
        if w \<noteq> 0 then Some (False, conn)
        else do { (n, conn) \<leftarrow> pqReadData conn; Some (n \<ge> 0, conn) }
      }
      else Some (True, conn))"

partial_function (option) fn_loop :: "bool \<Rightarrow> bool \<Rightarrow> fn_answer \<Rightarrow> pg_conn \<Rightarrow> (pg_result option \<times> fn_answer \<times> pg_conn) option" where
  "fn_loop result_is_int needInput ans conn =
     Option.bind (need_input needInput conn) (\<lambda>(ok, conn).
       if \<not> ok then fn_failed ans conn
       else Option.bind (fn_scan result_is_int ans conn) (\<lambda>(t, ans, conn).
         case t of
           Fn_more \<Rightarrow> fn_loop result_is_int True ans conn
         | Fn_next \<Rightarrow> fn_loop result_is_int False ans conn
         | Fn_return res \<Rightarrow> Some (res, ans, conn)
         | Fn_break \<Rightarrow> fn_failed ans conn))"

definition pqFunctionCall3 ::
  "pg_conn \<Rightarrow> int \<Rightarrow> byte list \<Rightarrow> bool \<Rightarrow> PQArgBlock list \<Rightarrow> int \<Rightarrow> (pg_result option \<times> byte list \<times> int \<times> pg_conn) option" where
  "pqFunctionCall3 conn fnid result_buf result_is_int args nargs = do {
     (r, conn) \<leftarrow> put_all (call_parts fnid args nargs @ [pqFlush]) conn;
     if r \<noteq> 0 then do { conn \<leftarrow> pqHandleSendFailure conn; Some (None, result_buf, 0, conn) }
     else do {
       (res, ans, conn) \<leftarrow> fn_loop result_is_int False \<lparr>fn_status = PGRES_FATAL_ERROR, fn_buf = result_buf, fn_len = 0\<rparr> conn;
       Some (res, fn_buf ans, fn_len ans, conn)
     }
   }"

definition PQfn ::
  "pg_conn \<Rightarrow> int \<Rightarrow> byte list \<Rightarrow> bool \<Rightarrow> PQArgBlock list \<Rightarrow> int \<Rightarrow> (pg_result option \<times> byte list \<times> int \<times> pg_conn) option" where
  "PQfn conn fnid result_buf result_is_int args nargs = do {
     conn \<leftarrow> reset_error conn;
     if sock conn < 0 \<or> asyncStatus conn \<noteq> PGASYNC_IDLE \<or> result conn \<noteq> None then do {
       conn \<leftarrow> printf_error conn (lit ''connection in wrong state'' @ [0x0A]);
       Some (None, result_buf, 0, conn)
     }
     else if PG_PROTOCOL_MAJOR (pversion conn) \<ge> 3 then pqFunctionCall3 conn fnid result_buf result_is_int args nargs
     else None
   }"

end
