(* ===== verification/CopySteps.thy ===== *)
theory CopySteps
  imports CopyOut Returns
begin

text \<open>
  What the functions that receive the data of a COPY keep: the invariant of the session, the data they have not handed out, and that they come back.
\<close>

section \<open>One message\<close>

text \<open>The next message is a row: the cursor is behind its length word and the row is there in full.\<close>

definition row_here :: "int \<Rightarrow> pg_conn \<Rightarrow> bool" where
  "row_here n c \<longleftrightarrow> 4 \<le> n \<and> inCursor c = inStart c + 5 \<and> n - 4 \<le> inEnd c - inCursor c"

definition copy_post :: "pg_conn \<Rightarrow> int option \<times> pg_conn \<Rightarrow> bool" where
  "copy_post c = (\<lambda>(r, c'). parser_ok c' \<and> state_ok c' \<and> curTuple c' = None \<and> verbosity c' = verbosity c \<and> net_frame c c' \<and> load c' \<le> load c \<and>
     (case r of
        None \<Rightarrow> length (in_data c') < length (in_data c)
      | Some n \<Rightarrow> in_data c' = in_data c \<and> (n \<in> {0, - 1, - 2} \<or> row_here n c')))"

lemma step_copy_post:
  assumes "step_post c (False, c')" "curTuple c' = None" "n \<in> {0, - 1, - 2}"
  shows "copy_post c (Some n, c')"
  using assms by (simp add: step_post_def copy_post_def)

lemma in_data_size: "state_ok c \<Longrightarrow> int (length (in_data c)) = inEnd c - inStart c"
  using in_data_length [of c] by (simp add: state_ok_def)

lemma copy_async_ensures:
  assumes "parser_ok c" "got (c\<lparr>inCursor := inStart c\<rparr>) 5 c1" "ensures m (\<lambda>(r, c'). calm c1 c')"
  shows "ensures (copy_async m) (copy_post c)"
  unfolding copy_async_def ensures_bind
proof (rule ensures_mono [OF assms(3)], clarify, goal_cases)
  case (1 r c')
  note d = calmD [OF 1] and md = moved_data [OF calmD(1) [OF 1]] and g = gotD [OF assms(2)]
  have c1: "inStart c1 = inStart c" "inEnd c1 = inEnd c" "verbosity c1 = verbosity c" "rows_of c1 = rows_of c" "in_data c1 = in_data c" "inCursor c1 = inStart c + 5"
    using g moved_data [OF g(5)] by (simp_all add: rows_of_def in_data_def)
  have nf: "net_frame c c'" using net_frame_trans [OF _ moved_net_frame [OF d(1)]] moved_net_frame [OF g(5)] by simp
  have p: "parser_ok c'"
    by (rule parser_okI [OF assms(1) d(5) d(2)]) (use d md c1 in \<open>simp_all add: row_started_def\<close>)
  have l: "load c' \<le> load c" using d(4) md c1 by (simp add: load_def)
  show ?case
  proof (cases "r = 0")
    case False
    then show ?thesis using p d md c1 nf l by (simp add: copy_post_def)
  next
    case True
    let ?c = "c'\<lparr>inStart := inCursor c'\<rparr>"
    have i: "inStart c' + 5 \<le> inCursor c'" "inCursor c' \<le> inEnd c'"
      using d(1) md c1 state_ok_in [OF d(5)] by (simp_all add: moved_def)
    have s: "state_ok ?c" using state_ok_start(1) [OF d(5), of "inCursor c'"] i by simp
    have p2: "parser_ok ?c" using p s i d(3) by (simp add: parser_ok_def row_started_def rows_of_def results_ok_def)
    have "int (length (in_data ?c)) < int (length (in_data c'))" using in_data_size [OF s] in_data_size [OF d(5)] i by simp
    moreover have "load ?c \<le> load c" using l i by (simp add: load_def rows_of_def)
    ultimately show ?thesis using True s p2 d md c1 nf by (simp add: copy_post_def)
  qed
qed

lemma copy_turn_ensures:
  assumes "parser_ok c" "curTuple c = None" "verbosity c = PQERRORS_TERSE"
  shows "ensures (copy_turn c) (copy_post c)"
proof -
  let ?c = "c\<lparr>inCursor := inStart c\<rparr>"
  have ok: "state_ok ?c" "results_ok c" using assms(1) by (simp_all add: parser_ok_def)
  have g0: "got ?c 0 ?c" using ok(1) by simp
  note wait = step_copy_post [OF got_step_post(1) [OF assms(1)]]
  show ?thesis unfolding copy_turn_def
  proof (rule getc_got [OF g0], goal_cases)
    case 1
    show ?case using wait [OF g0] assms(2) by simp
  next
    case (2 ident c1)
    show ?case
    proof (rule getInt_got [OF 2(1)], goal_cases)
      case 2
      then show ?case using wait [OF \<open>got ?c (0 + 1) c1\<close>] gotD(8) [OF \<open>got ?c (0 + 1) c1\<close>] assms(2) by simp
    next
      case (3 v c2)
      note got2 = 3 and g2 = gotD [OF 3(1)]
      have v: "- 2147483648 \<le> v" "v < 2147483648" using net_int_4 [of "take 4 (unread c1)"] 3(3,4) by simp_all
      have c2: "c2 = c\<lparr>inCursor := inStart c + 5\<rparr>" using 3(5) 2(3) by (simp add: skip_def)
      have d2: "in_data c2 = in_data c" "inStart c2 = inStart c" "inEnd c2 = inEnd c" "verbosity c2 = verbosity c" by (simp_all add: c2 in_data_def)
      have got5: "got ?c 5 c2" using 3(1) by simp
      have h: "state_ok c2" "results_ok c2" "curTuple c2 = None" using g2(2) ok(2) assms(2) by (simp_all add: c2 results_ok_def)
      have disp: "display_ok c2" by (rule terse_display_ok [OF h(1)]) (use assms(3) d2 in simp)
      note async = copy_async_ensures [OF assms(1) got5]
      have here: "copy_post c (Some n, c2)" if "n = - 1 \<or> row_here n c2" for n
        using got_step_post(1) [OF assms(1) got5] h(3) that by (auto simp: copy_post_def step_post_def)
      show ?case
      proof (intro if_ensures, goal_cases)
        case 1
        have "ensures (handleSyncLoss c2 ident v) (\<lambda>c''. copy_post c (Some (- 2), c''))"
        proof (rule ensures_mono [OF handleSyncLoss_ensures [OF got_step_post(2) [OF assms(1) got2(1)] v]])
          show "copy_post c (Some (- 2), c'')" if "sync_lost c2 c''" for c''
            using step_copy_post [OF sync_lost_step [OF assms(1) that d2]] that by (simp add: c2 sync_lost_def error_result_def)
        qed
        then show ?case by simp
      next
        case 2
        show ?case
          by (rule ensures_mono [OF wait_outcome_ensures [OF assms(1) got2(1) v]]) (use h(3) step_copy_post in auto)
      next
        case 3
        show ?case by (rule async [OF getNotify_ensures [OF h]])
      next
        case 4
        show ?case by (rule async [OF error_calm [OF h disp]])
      next
        case 5
        show ?case by (rule async [OF getParameterStatus_ensures [OF h]])
      next
        case 6
        then have "row_here v c2" by (simp add: row_here_def c2)
        then show ?case using here by simp
      next
        case 7
        then show ?case using here by simp
      qed
    qed simp
  qed
qed


section \<open>The messages up to the next row\<close>

lemma copy_turn_cursor [simp]: "copy_turn (c\<lparr>inCursor := k\<rparr>) = copy_turn c"
  by (simp add: copy_turn_def)

lemma getCopyDataMessage_cursor [simp]: "getCopyDataMessage (c\<lparr>inCursor := k\<rparr>) = getCopyDataMessage c"
  by (simp add: getCopyDataMessage.simps [of c] getCopyDataMessage.simps [of "c\<lparr>inCursor := k\<rparr>"])

text \<open>Taking a row leaves the cursor behind the start of the data; every function that parses puts it back first.\<close>

definition settled :: "pg_conn \<Rightarrow> bool" where
  "settled c \<longleftrightarrow> session_ok (c\<lparr>inCursor := inStart c\<rparr>) \<and> curTuple c = None"

lemma session_settled: "session_ok c \<Longrightarrow> curTuple c = None \<Longrightarrow> settled c"
  using state_ok_rewind [of c] by (simp add: settled_def session_ok_def client_ok_iff row_started_def load_def rows_of_def results_ok_def)

lemma copy_post_session:
  assumes "session_ok c" "copy_post c (r, c')"
  shows "session_ok c'" "curTuple c' = None" "net_frame c c'"
proof -
  have p: "parser_ok c'" "state_ok c'" "verbosity c' = verbosity c" "load c' \<le> load c"
    and n: "net_frame c c'" and t: "curTuple c' = None" using assms(2) by (simp_all add: copy_post_def)
  have "stream (env c') = stream (env c)" using n by (simp add: net_frame_def same_events_def same_io_def stream_def)
  then have "client_ok c'" using session_okD(1) [OF assms(1)] p by (simp add: client_ok_def)
  then show "session_ok c'" using assms(1) p(3) n by (simp add: session_ok_def net_frame_def)
  show "curTuple c' = None" "net_frame c c'" using t n by simp_all
qed

definition next_row :: "pg_conn \<Rightarrow> int \<Rightarrow> pg_conn \<Rightarrow> bool" where
  "next_row c n c' \<longleftrightarrow> session_ok c' \<and> curTuple c' = None \<and> net_frame c c' \<and> length (in_data c') \<le> length (in_data c) \<and>
     (n \<in> {0, - 1, - 2} \<or> row_here n c')"

lemma getCopyDataMessage_session: "session_ok c \<Longrightarrow> curTuple c = None \<Longrightarrow> \<exists>n c'. getCopyDataMessage c = Some (n, c') \<and> next_row c n c'"
proof (induction "length (in_data c)" arbitrary: c rule: less_induct)
  case less
  have "parser_ok c" using session_okD(1) [OF less.prems(1)] by (simp add: client_ok_def)
  then have "ensures (copy_turn c) (copy_post c)" by (rule copy_turn_ensures [OF _ less.prems(2) session_okD(6) [OF less.prems(1)]])
  then obtain r c1 where r: "copy_turn c = Some (r, c1)" "copy_post c (r, c1)" by (auto simp: ensures_def)
  note s = copy_post_session [OF less.prems(1) r(2)]
  show ?case
  proof (cases r)
    case (Some n)
    then have "next_row c n c1" using s r(2) by (simp add: next_row_def copy_post_def)
    then show ?thesis using r(1) Some by (simp add: getCopyDataMessage.simps [of c])
  next
    case None
    then have l: "length (in_data c1) < length (in_data c)" using r(2) by (simp add: copy_post_def)
    from less.hyps [OF this s(1,2)] obtain n c' where c': "getCopyDataMessage c1 = Some (n, c')" "next_row c1 n c'" by blast
    then have "next_row c n c'" using l net_frame_trans [OF s(3)] by (auto simp: next_row_def)
    then show ?thesis using r(1) None c'(1) by (simp add: getCopyDataMessage.simps [of c])
  qed
qed

lemma getCopyDataMessage_settled:
  assumes "settled c"
  obtains n c' where "getCopyDataMessage c = Some (n, c')" "next_row c n c'"
proof -
  let ?c = "c\<lparr>inCursor := inStart c\<rparr>"
  obtain n c' where "getCopyDataMessage ?c = Some (n, c')" "next_row ?c n c'"
    using getCopyDataMessage_session [of ?c] assms by (auto simp: settled_def)
  then show thesis using that by (simp add: next_row_def in_data_def)
qed


section \<open>The application takes rows\<close>

lemma wait_and_read_session:
  assumes "session_ok c"
  shows "\<exists>ok c'. wait_and_read c = Some (ok, c') \<and> session_ok c' \<and> through c c' \<and> progress ok (env c) (env c')"
proof -
  obtain w c2 where w: "pqWait True False c = Some (w, c2)" "client_ok c2" "through c c2" "progress False (env c) (env c2)"
    using pqWait_client [OF session_okD(1) [OF assms], of True False] by blast
  have s2: "session_ok c2" by (rule through_session [OF assms w(3) client_okD(1) [OF w(2)]])
  obtain n c3 where n: "pqReadData c2 = Some (n, c3)" "client_ok c3" "through c2 c3" "progress (n \<ge> 0) (env c2) (env c3)"
    using pqReadData_client [OF w(2)] by blast
  have s3: "session_ok c3" by (rule through_session [OF s2 n(3) client_okD(1) [OF n(2)]])
  have t3: "through c c3" "progress (n \<ge> 0) (env c) (env c3)"
    using through_trans [OF w(3) n(3)] progress_trans [OF w(4) n(4)] by (auto intro: progress_mono)
  show ?thesis using w(1,3,4) n(1) s2 s3 t3 by (auto simp: wait_and_read_def)
qed

lemma settled_consume:
  assumes "session_ok c" "curTuple c = None" "inStart c \<le> s" "s \<le> inEnd c"
  shows "settled (c\<lparr>inStart := s\<rparr>)"
proof -
  have p: "parser_ok c" "state_ok c" "load c + int (length (stream (env c))) < 3758096384" using session_okD(1) [OF assms(1)] by (simp_all add: client_ok_def)
  have st: "state_ok (c\<lparr>inStart := s, inCursor := s\<rparr>)" by (rule state_ok_start(1) [OF p(2) assms(3,4)])
  show ?thesis using st p assms
    by (simp add: settled_def session_ok_def client_ok_iff row_started_def load_def rows_of_def results_ok_def)
qed

text \<open>What a call of \<open>PQgetCopyData\<close> answers: a row with its terminator, nothing yet, the end, or an error.\<close>

definition row_answer :: "bool \<Rightarrow> int \<Rightarrow> byte list option \<Rightarrow> bool" where
  "row_answer async n b \<longleftrightarrow> (case b of
       Some bs \<Rightarrow> 0 < n \<and> int (length bs) = n + 1 \<and> last bs = 0
     | None \<Rightarrow> n = - 1 \<or> n = - 2 \<or> n = 0 \<and> async)"

lemma hand_out_row_session:
  assumes "session_ok c" "curTuple c = None" "row_here n c" "4 < n"
  shows "\<exists>r b c'. hand_out_row (n - 4) c = Some (r, b, c') \<and> settled c' \<and> row_answer async r b"
proof -
  have k: "0 \<le> inCursor c" "inCursor c + (n - 4) \<le> inEnd c" "inEnd c \<le> int (length (inBuffer c))"
    using assms(3) state_ok_in [OF session_okD(3) [OF assms(1)]] by (auto simp: row_here_def)
  obtain block a where m: "c_malloc (e_alloc (env c)) (nat (n - 4 + 1)) = (block, a)" by (cases "c_malloc (e_alloc (env c)) (nat (n - 4 + 1))")
  have t: "told c (set_alloc a c)" by (simp add: told_def only_env_def set_alloc_def same_events_def same_io_def)
  have s: "session_ok (set_alloc a c)" by (rule told_session [OF assms(1) t]) (use session_okD(2) [OF assms(1)] in simp)
  have ct: "curTuple (set_alloc a c) = None" using assms(2) by simp
  show ?thesis
  proof (cases block)
    case None
    obtain c' where c': "printf_error (set_alloc a c) (lit ''out of memory'' @ [0x0A]) = Some c'" "only_env (set_alloc a c) c'"
      "same_net (env (set_alloc a c)) (env c')" "conn_ok c'"
      by (rule printf_error_ok [OF session_okD(2) [OF s], of "lit ''out of memory'' @ [0x0A]"]) simp
    have "told (set_alloc a c) c'" using c'(2,3) by (simp add: told_def same_net_events)
    then have "session_ok c'" "curTuple c' = None" using told_session [OF s _ c'(4)] told_fields(2) ct by metis+
    then show ?thesis using m None c'(1) session_settled by (simp add: hand_out_row_def row_answer_def)
  next
    case (Some bl)
    let ?bs = "take (nat (n - 4)) (drop (nat (inCursor c)) (inBuffer c))"
    have rd: "rd_bytes (inBuffer c) (nat (inCursor c)) (nat (n - 4)) = Some ?bs" "length ?bs = nat (n - 4)"
      using k assms(4) by (auto simp: rd_bytes_def)
    have bl: "length bl = nat (n - 4) + 1" using m Some assms(4) by (auto simp: c_malloc_def nat_add_distrib split: if_splits)
    then have wr: "wr_bytes bl 0 (?bs @ [0]) = Some (?bs @ [0])" using rd(2) by (simp add: wr_bytes_def)
    have "settled ((set_alloc a c)\<lparr>inStart := inCursor (set_alloc a c) + (n - 4)\<rparr>)"
      by (rule settled_consume [OF s ct]) (use k assms(3,4) in \<open>simp_all add: row_here_def\<close>)
    then show ?thesis using m Some rd wr assms(4) by (simp add: hand_out_row_def row_answer_def)
  qed
qed

lemma pqGetCopyData3_session:
  "settled c \<Longrightarrow> \<exists>n b c'. pqGetCopyData3 async c = Some (n, b, c') \<and> settled c' \<and> row_answer async n b"
proof (induction "(steps (env c), length (in_data c))" arbitrary: c rule: wf_induct_rule [OF wf_lex_prod [OF wf_less_than wf_less_than]])
  case (1 c)
  note IH = 1(1)
  obtain n c1 where n: "getCopyDataMessage c = Some (n, c1)" "next_row c n c1" by (rule getCopyDataMessage_settled [OF 1(2)])
  have s1: "session_ok c1" "curTuple c1 = None" "steps (env c1) = steps (env c)" "length (in_data c1) \<le> length (in_data c)"
    using n(2) net_frame_steps [of c c1] by (simp_all add: next_row_def)
  consider "n = - 1" | "n = - 2" | "n = 0" "async" | (wait) "n = 0" "\<not> async" | (empty) "n = 4" "row_here n c1" | (row) "n > 4" "row_here n c1"
  proof -
    assume cs: "n = - 1 \<Longrightarrow> thesis" "n = - 2 \<Longrightarrow> thesis" "n = 0 \<Longrightarrow> async \<Longrightarrow> thesis" "n = 0 \<Longrightarrow> \<not> async \<Longrightarrow> thesis"
      "n = 4 \<Longrightarrow> row_here n c1 \<Longrightarrow> thesis" "n > 4 \<Longrightarrow> row_here n c1 \<Longrightarrow> thesis"
    have "n \<in> {0, - 1, - 2} \<or> row_here n c1 \<and> (n = 4 \<or> n > 4)" using n(2) by (auto simp: next_row_def row_here_def)
    then show thesis using cs by (cases async) blast+
  qed
  then show ?case
  proof cases
    case wait
    obtain ok c2 where w: "wait_and_read c1 = Some (ok, c2)" "session_ok c2" "through c1 c2" "progress ok (env c1) (env c2)"
      using wait_and_read_session [OF s1(1)] by blast
    have t: "curTuple c2 = None" using w(3) only_io_more [of c1 c2] s1(2) by (simp add: through_def)
    then have sd: "settled c2" by (rule session_settled [OF w(2)])
    show ?thesis
    proof (cases ok)
      case False
      then show ?thesis using n(1) wait w(1) sd by (simp add: pqGetCopyData3.simps [of _ c] row_answer_def)
    next
      case True
      then have "steps (env c2) < steps (env c)" using w(4) s1(3) by (simp add: progress_def)
      then have "\<exists>n b c'. pqGetCopyData3 async c2 = Some (n, b, c') \<and> settled c' \<and> row_answer async n b" by (intro IH [OF _ sd]) simp
      then show ?thesis using n(1) wait w(1) True by (simp add: pqGetCopyData3.simps [of _ c])
    qed
  next
    case empty
    let ?c = "c1\<lparr>inStart := inCursor c1\<rparr>"
    have i: "inStart c1 + 5 = inCursor c1" "inCursor c1 \<le> inEnd c1" using empty by (simp_all add: row_here_def)
    have sd: "settled ?c" by (rule settled_consume [OF s1(1,2)]) (use i in simp_all)
    have "state_ok ?c" using state_ok_start(1) [OF session_okD(3) [OF s1(1)], of "inCursor c1"] i by simp
    then have "int (length (in_data ?c)) < int (length (in_data c1))" using in_data_size [of ?c] in_data_size [OF session_okD(3) [OF s1(1)]] i by simp
    then have "\<exists>n b c'. pqGetCopyData3 async ?c = Some (n, b, c') \<and> settled c' \<and> row_answer async n b" using s1(3,4) by (intro IH [OF _ sd]) simp
    then show ?thesis using n(1) empty by (simp add: pqGetCopyData3.simps [of _ c])
  next
    case row
    then show ?thesis using n(1) hand_out_row_session [OF s1(1,2) row(2,1)] by (simp add: pqGetCopyData3.simps [of _ c])
  qed (use n(1) s1 session_settled [of "c1\<lparr>asyncStatus := PGASYNC_BUSY\<rparr>"] session_settled [of c1]
       in \<open>simp_all add: pqGetCopyData3.simps [of _ c] row_answer_def\<close>)
qed

end
