(* ===== verification/Arrival.thy ===== *)
theory Arrival
  imports CopySteps Answers
begin

text \<open>
  Waiting for one message of the server, outside of \<open>PQgetResult\<close>: the functions for COPY data and for function calls read a message when it is there in
  full, and otherwise wait for data and start again.
\<close>

section \<open>Waiting on a healthy connection\<close>

lemma good_paused:
  assumes "good c" "curTuple c = None" "paused c c'" "state_ok c'"
  shows "good c'"
proof -
  note f = paused_fields [OF assms(3)]
  have l: "inEnd c' - inStart c' = inEnd c - inStart c" "results_ok c' = results_ok c" "rows_of c' = rows_of c"
    using assms(3) by (auto simp: paused_def results_ok_def rows_of_def)
  have k: "results_ok c" using session_okD(1) [OF goodD(1) [OF assms(1)]] by (simp add: client_ok_iff)
  have "client_ok c'"
    by (rule calm_client_ok [OF session_okD(1) [OF goodD(1) [OF assms(1)]] assms(4)]) (use l f k assms(2) in \<open>simp_all add: same_events_def same_io_def\<close>)
  moreover have "pversion c' = pversion c" using assms(3) by (auto simp: paused_def)
  ultimately show ?thesis using assms(1) f by (simp add: good_def session_ok_def)
qed

lemma wait_and_read_good:
  assumes "good c" "stream (env c) \<noteq> []"
  obtains c' where "wait_and_read c = Some (True, c')" "good c'" "through c c'" "e_sent (env c') = e_sent (env c)" "steps (env c') < steps (env c)"
proof -
  note g = goodD [OF assms(1)]
  have f: "flush_all c = Some (0, c)" using g(6) by (simp add: flush_all.simps pqFlush_def)
  obtain c' where c': "load_more c = Some (True, c')" "good c'" "through c c'" "e_sent (env c') = e_sent (env c)" by (rule load_more_good [OF assms])
  then have w: "wait_and_read c = Some (True, c')" using f by (simp add: load_more_def wait_and_read_def)
  moreover obtain ok c1 where "wait_and_read c = Some (ok, c1)" "progress ok (env c) (env c1)" using wait_and_read_session [OF g(1)] by blast
  ultimately have "steps (env c') < steps (env c)" by (simp add: progress_def)
  then show thesis using that w c'(2-4) by blast
qed

text \<open>The message \<open>ident body\<close> is next, in the input or still under way; too little of it has come in.\<close>

definition message_next :: "byte \<Rightarrow> byte list \<Rightarrow> byte list \<Rightarrow> pg_conn \<Rightarrow> bool" where
  "message_next ident body rest c \<longleftrightarrow> good c \<and> curTuple c = None \<and> in_data c @ stream (env c) = server_message ident body @ rest"

lemma message_nextD:
  assumes "message_next ident body rest c"
  shows "good c" "curTuple c = None" "in_data c @ stream (env c) = server_message ident body @ rest" "session_ok c" "parser_ok c"
    "plenty (e_alloc (env c))" "0 \<le> sock c" "status c = CONNECTION_OK"
  using assms goodD [of c] by (simp_all add: message_next_def)

lemma message_part:
  assumes "message_next ident body rest c" "length (in_data c) < 5 + length body"
  shows "in_data c = take (length (in_data c)) (server_message ident body)" "inStart c + 5 + int (length body) \<le> 2147475456"
proof -
  note m = message_nextD [OF assms(1)] and g = goodD [OF message_nextD(1) [OF assms(1)]]
  have "in_data c = take (length (in_data c)) (server_message ident body @ rest)" using m(3) by (metis append_eq_conv_conj)
  then show "in_data c = take (length (in_data c)) (server_message ident body)" using assms(2) by simp
  have "5 + length body \<le> length (in_data c) + length (stream (env c))" using arg_cong [OF m(3), of length] by simp
  moreover have "inEnd c + int (length (stream (env c))) < 1073741824" using g(7) by simp
  ultimately show "inStart c + 5 + int (length body) \<le> 2147475456" using in_data_length [OF g(8)] by linarith
qed

text \<open>A function that finds a message incomplete leaves it alone and goes on when more data have come in.\<close>

locale message_reader =
  fixes run :: "pg_conn \<Rightarrow> 'a option" and fits :: "byte \<Rightarrow> byte list \<Rightarrow> bool"
  assumes goes_on: "fits ident body \<Longrightarrow> message_next ident body rest c \<Longrightarrow> length (in_data c) < 5 + length body \<Longrightarrow>
    \<exists>c1. paused c c1 \<and> state_ok c1 \<and> (\<forall>c2. wait_and_read c1 = Some (True, c2) \<longrightarrow> run c = run c2)"
begin

theorem message_arrives:
  "message_next ident body rest c \<Longrightarrow> fits ident body \<Longrightarrow> \<exists>c'. message_next ident body rest c' \<and> 5 + length body \<le> length (in_data c') \<and>
    asyncStatus c' = asyncStatus c \<and> result c' = result c \<and> e_sent (env c') = e_sent (env c) \<and> run c = run c'"
proof (induction "steps (env c)" arbitrary: c rule: less_induct)
  case less
  note m = message_nextD [OF less.prems(1)]
  show ?case
  proof (cases "length (in_data c) < 5 + length body")
    case False
    then show ?thesis using less.prems by (intro exI [of _ c]) simp
  next
    case True
    obtain c1 where c1: "paused c c1" "state_ok c1" "\<And>c2. wait_and_read c1 = Some (True, c2) \<Longrightarrow> run c = run c2"
      using goes_on [OF less.prems(2,1) True] by blast
    note f = paused_fields [OF c1(1)]
    have g1: "good c1" by (rule good_paused [OF m(1,2) c1(1,2)])
    have "stream (env c1) \<noteq> []" using arg_cong [OF m(3), of length] True f(2) by auto
    then obtain c2 where c2: "wait_and_read c1 = Some (True, c2)" "good c2" "through c1 c2" "e_sent (env c2) = e_sent (env c1)" "steps (env c2) < steps (env c1)"
      by (rule wait_and_read_good [OF g1])
    have d: "in_data c1 @ stream (env c1) = server_message ident body @ rest" using m(3) f by simp
    note t = through_good [OF g1 c2(2,3) d]
    have "message_next ident body rest c2" using c2(2) t m(2) f by (simp add: message_next_def)
    moreover have "steps (env c2) < steps (env c)" using c2(5) f(2) by simp
    ultimately obtain c' where c': "message_next ident body rest c'" "5 + length body \<le> length (in_data c')" "asyncStatus c' = asyncStatus c2"
      "result c' = result c2" "e_sent (env c') = e_sent (env c2)" "run c2 = run c'" using less.hyps less.prems(2) by blast
    then show ?thesis using c1(3) [OF c2(1)] t(4,5) c2(4) f by auto
  qed
qed

end

text \<open>The message when it is there in full.\<close>

lemma message_whole:
  assumes "message_next ident body rest c" "5 + length body \<le> length (in_data c)"
  obtains r where "in_data c = server_message ident body @ r" "r @ stream (env c) = rest" "session_ok (at_body c)" "unread (at_body c) = body @ r"
    "inStart c + 5 + int (length body) \<le> inEnd c"
proof -
  note m = message_nextD [OF assms(1)]
  obtain r where r: "in_data c = server_message ident body @ r" "r @ stream (env c) = rest"
    using split_prefix [OF m(3)] assms(2) by auto
  note rd = message_read [OF m(5) r(1)]
  have "client_ok (at_body c)"
    by (rule calm_client_ok [OF session_okD(1) [OF m(4)] rd(2)])
      (use session_okD(4) [OF m(4)] m(2) in \<open>simp_all add: same_events_def same_io_def\<close>)
  then have "session_ok (at_body c)" using m(4) by (simp add: session_ok_def) (simp add: at_body_def)
  then show thesis using that r rd(3,4) by simp
qed

text \<open>The message is taken.\<close>

lemma good_consume:
  assumes "good c" "curTuple c = None" "in_data c = server_message ident body @ r"
  shows "good (c\<lparr>inStart := inStart c + 5 + int (length body), inCursor := inStart c + 5 + int (length body)\<rparr>)"
    "in_data (c\<lparr>inStart := inStart c + 5 + int (length body)\<rparr>) = r"
proof -
  note g = goodD [OF assms(1)]
  let ?s = "inStart c + 5 + int (length body)"
  have i: "inStart c \<le> ?s" "?s \<le> inEnd c" using in_data_length [OF g(8)] assms(3) by simp_all
  have "settled (c\<lparr>inStart := ?s\<rparr>)" by (rule settled_consume [OF g(1) assms(2) i])
  then show "good (c\<lparr>inStart := ?s, inCursor := ?s\<rparr>)" using g(2-7) by (simp add: settled_def good_def)
  show "in_data (c\<lparr>inStart := ?s\<rparr>) = r" using state_ok_start(2) [OF session_okD(3) [OF g(1)] i] assms(3) by simp
qed

end
