(* ===== verification/CopyRows.thy ===== *)
theory CopyRows
  imports Arrival ExecProps
begin

text \<open>
  The data of a COPY from the network to the application: the rows come out of \<open>PQgetCopyData\<close> one by one, however the network cuts them.
\<close>

section \<open>Waiting for a message\<close>

lemma pqGetCopyData3_cursor [simp]: "pqGetCopyData3 async (c\<lparr>inCursor := k\<rparr>) = pqGetCopyData3 async c"
  by (simp add: pqGetCopyData3.simps [of _ c] pqGetCopyData3.simps [of _ "c\<lparr>inCursor := k\<rparr>"])

lemma copy_incomplete:
  assumes "message_next ident body rest c" "length (in_data c) < 5 + length body"
  obtains c' where "getCopyDataMessage c = Some (0, c')" "paused c c'" "state_ok c'"
proof -
  note m = message_nextD [OF assms(1)] and p = message_part [OF assms]
  have "\<exists>c'. copy_turn c = Some (Some 0, c') \<and> paused c c' \<and> state_ok c'"
    unfolding copy_turn_def
  proof (rule incomplete_turn [OF m(5,6) p(1) assms(2) p(2), where out = "Pair (Some 0)"], goal_cases)
    case (1 c2)
    have "\<not> 4 + int (length body) < 4" "inEnd (at_body c) - inCursor (at_body c) < 4 + int (length body) - 4" using 1(1) by simp_all
    moreover have "nat (4 + int (length body)) = 4 + length body" by linarith
    then have "szsub (szadd (nat (inCursor (at_body c))) (nat (4 + int (length body)))) 4 = nat (inStart c + 5) + length body"
      using p(2) 1(2) by (simp add: szadd_def szsub_def)
    ultimately show ?case using 1(3) by simp
  qed
  then show thesis using that by (auto simp: getCopyDataMessage.simps [of c])
qed

interpretation copy_reader: message_reader "pqGetCopyData3 False" "\<lambda>_ _. True"
proof
  fix ident body rest c assume "message_next ident body rest c" "length (in_data c) < 5 + length body"
  then obtain c1 where c1: "getCopyDataMessage c = Some (0, c1)" "paused c c1" "state_ok c1" by (rule copy_incomplete)
  then show "\<exists>c1. paused c c1 \<and> state_ok c1 \<and> (\<forall>c2. wait_and_read c1 = Some (True, c2) \<longrightarrow> pqGetCopyData3 False c = pqGetCopyData3 False c2)"
    by (intro exI [of _ c1]) (simp add: pqGetCopyData3.simps [of _ c])
qed

lemma copy_complete:
  assumes "message_next ident body rest c" "in_data c = server_message ident body @ r" "ident \<notin> {0x41, 0x4E, 0x53}"
  shows "getCopyDataMessage c = Some (if ident = 0x64 then 4 + int (length body) else - 1, at_body c)"
proof -
  note rd = message_read [OF message_nextD(5) [OF assms(1)] assms(2)]
  have "\<not> 4 + int (length body) < 4" "\<not> inEnd (at_body c) - inCursor (at_body c) < 4 + int (length body) - 4" using rd(4) by simp_all
  then have "copy_turn c = Some (Some (if ident = 0x64 then 4 + int (length body) else - 1), at_body c)"
    using assms(3) unfolding copy_turn_def rd(1) by simp
  then show ?thesis by (simp add: getCopyDataMessage.simps [of c])
qed


section \<open>Rows and the end\<close>

text \<open>The client between two rows of a COPY; the input and the network hold \<open>d\<close>.\<close>

definition copying :: "byte list \<Rightarrow> pg_conn \<Rightarrow> bool" where
  "copying d c \<longleftrightarrow> good (c\<lparr>inCursor := inStart c\<rparr>) \<and> curTuple c = None \<and> (asyncStatus c = PGASYNC_COPY_OUT \<or> asyncStatus c = PGASYNC_COPY_BOTH) \<and>
     in_data c @ stream (env c) = d"

lemma copying_next:
  assumes "copying (server_message ident body @ rest) c"
  shows "message_next ident body rest (c\<lparr>inCursor := inStart c\<rparr>)" "PQgetCopyData c False = pqGetCopyData3 False (c\<lparr>inCursor := inStart c\<rparr>)"
proof -
  show "message_next ident body rest (c\<lparr>inCursor := inStart c\<rparr>)" using assms by (simp add: copying_def message_next_def)
  have "PG_PROTOCOL_MAJOR (pversion c) \<ge> 3" using session_okD(5) [OF goodD(1)] assms by (fastforce simp: copying_def)
  then show "PQgetCopyData c False = pqGetCopyData3 False (c\<lparr>inCursor := inStart c\<rparr>)" using assms by (auto simp: PQgetCopyData_def copying_def)
qed

lemma copying_consume:
  assumes "good c" "curTuple c = None" "asyncStatus c = PGASYNC_COPY_OUT \<or> asyncStatus c = PGASYNC_COPY_BOTH"
    and "in_data c = server_message ident body @ r"
  shows "copying (r @ stream (env c)) (c\<lparr>inStart := inStart c + 5 + int (length body)\<rparr>)"
  using good_consume [OF assms(1,2,4)] assms(2,3) by (simp add: copying_def)

lemma c_malloc_plenty: "plenty a \<Longrightarrow> \<exists>b. c_malloc a n = (Some b, a) \<and> length b = n"
  by (simp add: c_malloc_def)

lemma row_step_copy:
  assumes "copying (server_message 0x64 row @ rest) c" "row \<noteq> []"
  obtains c' where "PQgetCopyData c False = Some (int (length row), Some (row @ [0]), c')" "copying rest c'" "e_sent (env c') = e_sent (env c)"
proof -
  let ?c = "c\<lparr>inCursor := inStart c\<rparr>"
  note n = copying_next [OF assms(1)]
  obtain c1 where c1: "message_next 0x64 row rest c1" "5 + length row \<le> length (in_data c1)" "asyncStatus c1 = asyncStatus ?c"
    "e_sent (env c1) = e_sent (env ?c)" "pqGetCopyData3 False ?c = pqGetCopyData3 False c1" using copy_reader.message_arrives [OF n(1)] by blast
  obtain r where r: "in_data c1 = server_message 0x64 row @ r" "r @ stream (env c1) = rest" "session_ok (at_body c1)" "unread (at_body c1) = row @ r"
    by (rule message_whole [OF c1(1,2)])
  have g: "good c1" "curTuple c1 = None" using c1(1) by (simp_all add: message_next_def)
  have msg: "getCopyDataMessage c1 = Some (4 + int (length row), at_body c1)" using copy_complete [OF c1(1) r(1)] by simp
  have e: "e_alloc (env (at_body c1)) = e_alloc (env c1)" by simp
  obtain b where b: "c_malloc (e_alloc (env c1)) (length row + 1) = (Some b, e_alloc (env c1))" "length b = length row + 1"
    using c_malloc_plenty [OF goodD(3) [OF g(1)]] by blast
  have k: "state_ok (at_body c1)" using r(3) by (rule session_okD(3))
  have "length row \<le> length (unread (at_body c1))" using r(4) by simp
  moreover have ok: "in_ok (at_body c1)" using k by (simp add: state_ok_def conn_ok_def)
  ultimately have rd: "rd_bytes (inBuffer (at_body c1)) (nat (inCursor (at_body c1))) (length row) = Some row"
    using rd_bytes_unread [OF ok] r(4) by simp
  have wr: "wr_bytes b 0 (row @ [0]) = Some (row @ [0])" using b(2) by (simp add: wr_bytes_def)
  have nn: "nat (int (length row) + 1) = length row + 1" by linarith
  have set: "set_alloc (e_alloc (env c1)) (at_body c1) = at_body c1" by (simp add: set_alloc_def at_body_def)
  have "hand_out_row (int (length row)) (at_body c1) =
      Some (int (length row), Some (row @ [0]), (at_body c1)\<lparr>inStart := inCursor (at_body c1) + int (length row)\<rparr>)"
    unfolding hand_out_row_def e nn b(1) using rd wr set by simp
  then have run: "pqGetCopyData3 False c1 = Some (int (length row), Some (row @ [0]), (c1\<lparr>inStart := inStart c1 + 5 + int (length row)\<rparr>)\<lparr>inCursor := inStart c1 + 5\<rparr>)"
    using msg assms(2) by (simp add: pqGetCopyData3.simps [of _ c1] at_body_def add_ac)
  have "copying (r @ stream (env c1)) (c1\<lparr>inStart := inStart c1 + 5 + int (length row)\<rparr>)"
    by (rule copying_consume [OF g _ r(1)]) (use c1(3) assms(1) in \<open>simp add: copying_def\<close>)
  then have "copying rest ((c1\<lparr>inStart := inStart c1 + 5 + int (length row)\<rparr>)\<lparr>inCursor := inStart c1 + 5\<rparr>)"
    using r(2) by (simp add: copying_def)
  then show thesis using that n(2) c1(4,5) run by simp
qed

lemma end_step_copy:
  assumes "copying (server_message 0x63 body @ rest) c"
  obtains c' where "PQgetCopyData c False = Some (- 1, None, c')" "good c'" "asyncStatus c' = PGASYNC_BUSY" "curTuple c' = None"
    "in_data c' @ stream (env c') = server_message 0x63 body @ rest" "e_sent (env c') = e_sent (env c)"
proof -
  let ?c = "c\<lparr>inCursor := inStart c\<rparr>"
  note n = copying_next [OF assms(1)]
  obtain c1 where c1: "message_next 0x63 body rest c1" "5 + length body \<le> length (in_data c1)" "asyncStatus c1 = asyncStatus ?c"
    "e_sent (env c1) = e_sent (env ?c)" "pqGetCopyData3 False ?c = pqGetCopyData3 False c1" using copy_reader.message_arrives [OF n(1)] by blast
  obtain r where r0: "in_data c1 = server_message 0x63 body @ r" and r: "session_ok (at_body c1)" by (rule message_whole [OF c1(1,2)])
  have g: "good c1" "curTuple c1 = None" "in_data c1 @ stream (env c1) = server_message 0x63 body @ rest" using c1(1) by (simp_all add: message_next_def)
  let ?d = "(at_body c1)\<lparr>asyncStatus := PGASYNC_BUSY\<rparr>"
  have run: "pqGetCopyData3 False c1 = Some (- 1, None, ?d)"
    using copy_complete [OF c1(1) r0] by (simp add: pqGetCopyData3.simps [of _ c1])
  have "session_ok ?d" using r g(2) by simp
  then have "good ?d" using goodD [OF g(1)] by (simp add: good_def) (simp add: at_body_def)
  then show thesis using that [of ?d] n(2) c1(4,5) run g by simp
qed

text \<open>An application that takes all rows: at most \<open>n\<close> calls, until one answers something negative.\<close>

fun fetch_rows :: "nat \<Rightarrow> pg_conn \<Rightarrow> (byte list list \<times> int \<times> pg_conn) option" where
  "fetch_rows 0 conn = None"
| "fetch_rows (Suc n) conn = do {
     (r, buffer, conn) \<leftarrow> PQgetCopyData conn False;
     if r < 0 then Some ([], r, conn)
     else do {
       row \<leftarrow> buffer;
       (rows, r, conn) \<leftarrow> fetch_rows n conn;
       Some (row # rows, r, conn)
     }
   }"

lemma fetch_all_rows:
  "copying (concat (map (server_message 0x64) rows) @ server_message 0x63 [] @ rest) c \<Longrightarrow> [] \<notin> set rows \<Longrightarrow>
    \<exists>c'. fetch_rows (Suc (length rows)) c = Some (map (\<lambda>row. row @ [0]) rows, - 1, c') \<and> good c' \<and> asyncStatus c' = PGASYNC_BUSY \<and> curTuple c' = None \<and>
      in_data c' @ stream (env c') = server_message 0x63 [] @ rest \<and> e_sent (env c') = e_sent (env c)"
proof (induction rows arbitrary: c)
  case Nil
  then obtain c' where "PQgetCopyData c False = Some (- 1, None, c')" "good c'" "asyncStatus c' = PGASYNC_BUSY" "curTuple c' = None"
    "in_data c' @ stream (env c') = server_message 0x63 [] @ rest" "e_sent (env c') = e_sent (env c)" using end_step_copy [of "[]" rest c] by auto
  then show ?case by simp
next
  case (Cons row rows)
  have d: "copying (server_message 0x64 row @ concat (map (server_message 0x64) rows) @ server_message 0x63 [] @ rest) c" "row \<noteq> []"
    using Cons.prems by auto
  obtain c1 where c1: "PQgetCopyData c False = Some (int (length row), Some (row @ [0]), c1)"
    "copying (concat (map (server_message 0x64) rows) @ server_message 0x63 [] @ rest) c1" "e_sent (env c1) = e_sent (env c)"
    by (rule row_step_copy [OF d])
  obtain c' where "fetch_rows (Suc (length rows)) c1 = Some (map (\<lambda>row. row @ [0]) rows, - 1, c')" "good c'" "asyncStatus c' = PGASYNC_BUSY"
    "curTuple c' = None" "in_data c' @ stream (env c') = server_message 0x63 [] @ rest" "e_sent (env c') = e_sent (env c1)"
    using Cons.IH [OF c1(2)] Cons.prems(2) by auto
  then show ?case using c1(1,3) by (simp del: fetch_rows.simps add: fetch_rows.simps(2) [of "Suc (length rows)"])
qed

end
