(* ===== verification/FastCall.thy ===== *)
theory FastCall
  imports CopyRows FastPath
begin

text \<open>
  A function call of the server as a whole: the request goes out, the value comes back into the memory of the caller, however the network cuts the answer.
\<close>

section \<open>One message of the answer\<close>

lemma fn_loop_turn:
  "fn_loop i False ans c = Option.bind (fn_scan i ans c) (\<lambda>(t, ans, conn).
     case t of Fn_more \<Rightarrow> fn_loop i True ans conn | Fn_next \<Rightarrow> fn_loop i False ans conn | Fn_return res \<Rightarrow> Some (res, ans, conn) | Fn_break \<Rightarrow> fn_failed ans conn)"
  by (subst fn_loop.simps) (simp add: need_input_def)

lemma fn_incomplete:
  assumes "message_next ident body rest c" "length (in_data c) < 5 + length body" "short_enough ident body"
  shows "\<exists>c'. fn_scan i ans c = Some (Fn_more, ans, c') \<and> paused c c' \<and> state_ok c'"
  unfolding fn_scan_def
proof (rule incomplete_turn [OF message_nextD(5,6) [OF assms(1)] message_part(1) [OF assms(1,2)] assms(2) message_part(2) [OF assms(1,2)],
    where out = "\<lambda>c. (Fn_more, ans, c)"], goal_cases)
  case (1 c2)
  have long: "\<not> (4 + int (length body) < 4 \<or> 30000 < 4 + int (length body) \<and> \<not> VALID_LONG_MESSAGE_TYPE ident)" using assms(3) by (auto simp: short_enough_def)
  have sub: "4 + int (length body) - 4 = int (length body)" by simp
  have "szadd (nat (inCursor (at_body c))) (nat (int (length body))) = nat (inStart c + 5) + length body"
    using message_part(2) [OF assms(1,2)] 1(2) by (simp add: szadd_def)
  then show ?case unfolding if_not_P [OF long] Let_def sub if_P [OF 1(1)] using 1(3) by simp
qed

interpretation fn_reader: message_reader "fn_loop i False ans" short_enough for i ans
proof
  fix ident body rest c assume "short_enough ident body" "message_next ident body rest c" "length (in_data c) < 5 + length body"
  then obtain c1 where c1: "fn_scan i ans c = Some (Fn_more, ans, c1)" "paused c c1" "state_ok c1" using fn_incomplete by blast
  have "fn_loop i False ans c = fn_loop i False ans c2" if "wait_and_read c1 = Some (True, c2)" for c2
  proof -
    have "need_input True c1 = Some (True, c2)" using that by (simp add: need_input_def wait_and_read_def)
    then have "fn_loop i True ans c1 = fn_loop i False ans c2" by (subst fn_loop.simps) (simp add: fn_loop_turn [of i ans c2])
    then show ?thesis using c1(1) by (simp add: fn_loop_turn [of i ans c])
  qed
  then show "\<exists>c1. paused c c1 \<and> state_ok c1 \<and> (\<forall>c2. wait_and_read c1 = Some (True, c2) \<longrightarrow> fn_loop i False ans c = fn_loop i False ans c2)"
    by (intro exI [of _ c1] conjI allI impI c1(2,3))
qed

lemma fn_complete:
  assumes "parser_ok c" "in_data c = server_message ident body @ r" "short_enough ident body"
  shows "fn_scan i ans c = fn_message i ident (int (length body)) ans (at_body c)"
proof -
  note rd = message_read [OF assms(1,2)]
  have long: "\<not> (4 + int (length body) < 4 \<or> 30000 < 4 + int (length body) \<and> \<not> VALID_LONG_MESSAGE_TYPE ident)" using assms(3) by (auto simp: short_enough_def)
  have sub: "4 + int (length body) - 4 = int (length body)" by simp
  have "\<not> inEnd (at_body c) - inCursor (at_body c) < int (length body)" using rd(4) by simp
  then show ?thesis unfolding fn_scan_def rd(1) if_not_P [OF long] Let_def sub by simp
qed


section \<open>The value\<close>

definition function_value :: "byte list \<Rightarrow> byte list" where
  "function_value v = be_bytes 4 (int (length v)) @ v"

text \<open>The length of the value comes from the server; the size of the memory of the caller does not enter.\<close>

lemma function_result_value:
  assumes "state_ok c" "unread c = function_value v @ r" "length v < 2 ^ 31"
  shows "function_result False ans c = Option.bind (wr_bytes (fn_buf ans) 0 v) (\<lambda>b.
    Some (True, ans\<lparr>fn_len := int (length v), fn_buf := b, fn_status := PGRES_COMMAND_OK\<rparr>, skip (length v) (skip 4 c)))"
proof -
  have n: "net_int (be_bytes 4 (int (length v))) = int (length v)" using assms(3) by (simp add: net_int_be4 wrap32_id)
  obtain g: "pqGetInt 4 c = Some (Some (int (length v)), skip 4 c)" "state_ok (skip 4 c)" "unread (skip 4 c) = v @ r"
    by (cases rule: pqGetInt_cases [OF assms(1), of 4]) (use assms(2) n in \<open>auto simp: function_value_def dest: moved_ok\<close>)
  have b: "pqGetnchar (length v) (skip 4 c) = Some (Some v, skip (length v) (skip 4 c))"
    by (cases rule: pqGetnchar_cases [OF g(2), of "length v"]) (use g(3) in simp_all)
  have "nat (int (length v) mod 2 ^ 32) = length v" using assms(3) by simp
  then show ?thesis using g(1) b by (simp add: function_result_def)
qed

lemma value_scanned:
  assumes "message_next 0x56 (function_value v) rest c"
  obtains c1 r where "fn_loop False False ans c = fn_loop False False ans c1" "good c1" "curTuple c1 = None"
    "in_data c1 = server_message 0x56 (function_value v) @ r" "r @ stream (env c1) = rest"
    "asyncStatus c1 = asyncStatus c" "result c1 = result c" "e_sent (env c1) = e_sent (env c)"
    "fn_scan False ans c1 = Option.bind (wr_bytes (fn_buf ans) 0 v) (\<lambda>b. Some (Fn_next, ans\<lparr>fn_len := int (length v), fn_buf := b, fn_status := PGRES_COMMAND_OK\<rparr>,
       c1\<lparr>inStart := inStart c1 + 5 + int (length (function_value v)), inCursor := inStart c1 + 5 + int (length (function_value v))\<rparr>))"
proof -
  have sh: "short_enough 0x56 (function_value v)" by (simp add: short_enough_def VALID_LONG_MESSAGE_TYPE_def)
  obtain c1 where c1: "message_next 0x56 (function_value v) rest c1" "5 + length (function_value v) \<le> length (in_data c1)" "asyncStatus c1 = asyncStatus c"
    "result c1 = result c" "e_sent (env c1) = e_sent (env c)" "fn_loop False False ans c = fn_loop False False ans c1"
    using fn_reader.message_arrives [OF assms sh] by blast
  obtain r where r: "in_data c1 = server_message 0x56 (function_value v) @ r" "r @ stream (env c1) = rest" "session_ok (at_body c1)"
    "unread (at_body c1) = function_value v @ r" "inStart c1 + 5 + int (length (function_value v)) \<le> inEnd c1"
    by (rule message_whole [OF c1(1,2)])
  have g: "good c1" "curTuple c1 = None" using c1(1) by (simp_all add: message_next_def)
  have k: "state_ok (at_body c1)" by (rule session_okD(3) [OF r(3)])
  have lv: "length v < 2 ^ 31" using r(5) goodD(7) [OF g(1)] state_ok_in [OF k] by (simp add: function_value_def)
  have "fn_scan False ans c1 = Option.bind (wr_bytes (fn_buf ans) 0 v) (\<lambda>b. Some (Fn_next, ans\<lparr>fn_len := int (length v), fn_buf := b, fn_status := PGRES_COMMAND_OK\<rparr>,
       c1\<lparr>inStart := inStart c1 + 5 + int (length (function_value v)), inCursor := inStart c1 + 5 + int (length (function_value v))\<rparr>))"
    unfolding fn_complete [OF goodD(9) [OF g(1)] r(1) sh]
    using function_result_value [OF k r(4) lv, of ans] by (cases "wr_bytes (fn_buf ans) 0 v") (simp_all add: fn_message_def skip_def at_body_def function_value_def)
  then show thesis using that c1(3-6) g r(1,2) by simp
qed

text \<open>A value that fits the memory of the caller, and one that does not.\<close>

lemma value_arrives:
  assumes "message_next 0x56 (function_value v) rest c" "length v \<le> length (fn_buf ans)"
  obtains c' where "fn_loop False False ans c =
      fn_loop False False (ans\<lparr>fn_len := int (length v), fn_buf := v @ drop (length v) (fn_buf ans), fn_status := PGRES_COMMAND_OK\<rparr>) c'"
    "good c'" "curTuple c' = None" "in_data c' @ stream (env c') = rest" "asyncStatus c' = asyncStatus c" "result c' = result c" "e_sent (env c') = e_sent (env c)"
proof -
  obtain c1 r where c1: "fn_loop False False ans c = fn_loop False False ans c1" "good c1" "curTuple c1 = None"
    "in_data c1 = server_message 0x56 (function_value v) @ r" "r @ stream (env c1) = rest"
    "asyncStatus c1 = asyncStatus c" "result c1 = result c" "e_sent (env c1) = e_sent (env c)"
    "fn_scan False ans c1 = Option.bind (wr_bytes (fn_buf ans) 0 v) (\<lambda>b. Some (Fn_next, ans\<lparr>fn_len := int (length v), fn_buf := b, fn_status := PGRES_COMMAND_OK\<rparr>,
       c1\<lparr>inStart := inStart c1 + 5 + int (length (function_value v)), inCursor := inStart c1 + 5 + int (length (function_value v))\<rparr>))"
    by (rule value_scanned [OF assms(1)])
  have "wr_bytes (fn_buf ans) 0 v = Some (v @ drop (length v) (fn_buf ans))" using assms(2) by (simp add: wr_bytes_def)
  then show thesis using that c1 good_consume [OF c1(2-4)] by (simp add: fn_loop_turn [of False ans c1])
qed

lemma value_overflows:
  assumes "message_next 0x56 (function_value v) rest c" "length (fn_buf ans) < length v"
  shows "fn_loop False False ans c = None"
proof -
  obtain c1 where c1: "fn_loop False False ans c = fn_loop False False ans c1"
    "fn_scan False ans c1 = Option.bind (wr_bytes (fn_buf ans) 0 v) (\<lambda>b. Some (Fn_next, ans\<lparr>fn_len := int (length v), fn_buf := b, fn_status := PGRES_COMMAND_OK\<rparr>,
       c1\<lparr>inStart := inStart c1 + 5 + int (length (function_value v)), inCursor := inStart c1 + 5 + int (length (function_value v))\<rparr>))"
    by (rule value_scanned [OF assms(1)])
  have "wr_bytes (fn_buf ans) 0 v = None" using assms(2) by (simp add: wr_bytes_def)
  then show ?thesis using c1 by (simp add: fn_loop_turn [of False ans c1])
qed

lemma fn_ready_arrives:
  assumes "message_next 0x5A [x] rest c" "result c = None" "\<not> is_error_status (fn_status ans)"
  obtains c' where "fn_loop i False ans c = Some (Some (empty_result (noticeRec c') (client_encoding c') (fn_status ans)), ans, c')"
    "good c'" "in_data c' @ stream (env c') = rest" "asyncStatus c' = asyncStatus c" "result c' = None" "e_sent (env c') = e_sent (env c)"
proof -
  have sh: "short_enough 0x5A [x]" by (simp add: short_enough_def)
  obtain c1 where c1: "message_next 0x5A [x] rest c1" "5 + length [x] \<le> length (in_data c1)" "asyncStatus c1 = asyncStatus c"
    "result c1 = result c" "e_sent (env c1) = e_sent (env c)" "fn_loop i False ans c = fn_loop i False ans c1"
    using fn_reader.message_arrives [OF assms(1) sh] by blast
  obtain r where r: "in_data c1 = server_message 0x5A [x] @ r" "r @ stream (env c1) = rest" "session_ok (at_body c1)" "unread (at_body c1) = [x] @ r"
    by (rule message_whole [OF c1(1,2)])
  have g: "good c1" "curTuple c1 = None" using c1(1) by (simp_all add: message_next_def)
  have k: "state_ok (at_body c1)" by (rule session_okD(3) [OF r(3)])
  have get: "pqGetc (at_body c1) = Some (Some x, skip 1 (at_body c1))" by (cases rule: pqGetc_cases [OF k]) (use r(4) in simp_all)
  define t where "t = (if x = 0x49 then PQTRANS_IDLE else if x = 0x54 then PQTRANS_INTRANS else if x = 0x45 then PQTRANS_INERROR else PQTRANS_UNKNOWN)"
  let ?s = "inStart c1 + 5 + int (length [x])"
  let ?c = "(c1\<lparr>inStart := ?s, inCursor := ?s\<rparr>)\<lparr>xactStatus := t\<rparr>"
  have gc: "good (c1\<lparr>inStart := ?s, inCursor := ?s\<rparr>)" by (rule good_consume(1) [OF g r(1)])
  have ready: "getReadyForQuery (at_body c1) = Some (0, (skip 1 (at_body c1))\<lparr>xactStatus := t\<rparr>)" using get by (simp add: getReadyForQuery_def t_def)
  have eq: "((skip 1 (at_body c1))\<lparr>xactStatus := t\<rparr>)\<lparr>inStart := inStart c1 + 5 + 1\<rparr> = ?c" by (simp add: skip_def at_body_def)
  have "good ?c" using gc g(2) by (simp add: good_def session_ok_def client_ok_iff row_started_def load_def rows_of_def results_ok_def)
  moreover have nk: "next_ok (e_alloc (env c1))" using goodD(3) [OF g(1)] by simp
  moreover have "makeEmptyPGresult ?c (fn_status ans) = Some (Some (empty_result (noticeRec ?c) (client_encoding ?c) (fn_status ans)), ?c)"
    using assms(3) nk goodD(3) [OF g(1)] by (simp add: makeEmptyPGresult_def PQmakeEmptyPGresult_def set_alloc_def Let_def)
  moreover have "fn_scan i ans c1 = fn_ready 1 ans (at_body c1)"
    unfolding fn_complete [OF goodD(9) [OF g(1)] r(1) sh] by (simp add: fn_message_def)
  ultimately have "fn_loop i False ans c1 = Some (Some (empty_result (noticeRec ?c) (client_encoding ?c) (fn_status ans)), ans, ?c)"
    using ready eq c1(4) assms(2) by (simp add: fn_loop_turn [of i ans c1] fn_ready_def)
  then show thesis using that [of ?c] c1(3-6) \<open>good ?c\<close> good_consume(2) [OF g r(1)] r(2) assms(2) by (simp add: in_data_def)
qed


section \<open>The request\<close>

definition arg_fits :: "PQArgBlock \<Rightarrow> bool" where
  "arg_fits a \<longleftrightarrow> arg_len a = - 1 \<or> (if arg_isint a then arg_len a = 2 \<or> arg_len a = 4
     else 0 \<le> arg_len a \<and> nat (arg_len a) \<le> length (arg_ptr a) \<and> arg_len a < 2 ^ 31)"

definition arg_value :: "PQArgBlock \<Rightarrow> byte list option" where
  "arg_value a = (if arg_len a = - 1 then None
     else Some (if arg_isint a then be_bytes (nat (arg_len a)) (arg_integer a) else take (nat (arg_len a)) (arg_ptr a)))"

lemma sure_arg:
  assumes "arg_fits a"
  shows "sure_writer (put_arg a) (enc_value (arg_value a))"
proof -
  define w where "w = (if arg_len a = - 1 then \<lambda>c. Some (0, c) else if arg_isint a then pqPutInt (arg_integer a) (nat (arg_len a))
    else pqPutnchar (take (nat (arg_len a)) (arg_ptr a)))"
  define bs where "bs = (case arg_value a of None \<Rightarrow> [] | Some v \<Rightarrow> v)"
  have "sure_writer w bs"
    using assms sure_nothing sure_int sure_block by (auto simp: w_def bs_def arg_fits_def arg_value_def split: if_splits)
  then have "sure_writer (\<lambda>c. do { (r, c) \<leftarrow> pqPutInt (arg_len a) 4 c; if r \<noteq> 0 then Some (EOF, c) else w c }) (be_bytes 4 (arg_len a) @ bs)"
    by (intro sure_int4.then_sure) (simp_all add: EOF_def)
  moreover have "put_arg a = (\<lambda>c. do { (r, c) \<leftarrow> pqPutInt (arg_len a) 4 c; if r \<noteq> 0 then Some (EOF, c) else w c })"
    using assms by (cases "arg_len a = - 1"; cases "arg_isint a") (auto simp: put_arg_def [abs_def] w_def arg_fits_def rd_bytes_def cong: if_cong)
  moreover have "enc_value (arg_value a) = be_bytes 4 (arg_len a) @ bs"
    using assms by (cases "arg_isint a") (auto simp: enc_value_def arg_value_def bs_def arg_fits_def)
  ultimately show ?thesis by simp
qed

lemma sure_args:
  "i + n \<le> length args \<Longrightarrow> \<forall>a \<in> set args. arg_fits a \<Longrightarrow> sure_writer (put_args args i n) (concat (map (\<lambda>a. enc_value (arg_value a)) (take n (drop i args))))"
proof (induction n arbitrary: i)
  case 0
  then show ?case using sure_nothing by (simp add: sure_writer_def part_writer_def sure_writer_axioms_def)
next
  case (Suc n)
  have i: "i < length args" using Suc.prems(1) by simp
  then have a: "rd args i = Some (args ! i)" "arg_fits (args ! i)" using Suc.prems(2) by (simp_all add: rd_def)
  have "sure_writer (\<lambda>c. do { (r, c) \<leftarrow> put_arg (args ! i) c; if r \<noteq> 0 then Some (EOF, c) else put_args args (i + 1) n c })
    (enc_value (arg_value (args ! i)) @ concat (map (\<lambda>a. enc_value (arg_value a)) (take n (drop (i + 1) args))))"
    using Suc.prems by (intro sure_writer.then_sure [OF sure_arg [OF a(2)] Suc.IH, where failed = "\<lambda>r. r \<noteq> 0"]) (simp_all add: EOF_def)
  moreover have "put_args args i (Suc n) = (\<lambda>c. do { (r, c) \<leftarrow> put_arg (args ! i) c; if r \<noteq> 0 then Some (EOF, c) else put_args args (i + 1) n c })"
    using a(1) by (simp add: fun_eq_iff)
  moreover have "take (Suc n) (drop i args) = args ! i # take n (drop (i + 1) args)" using i by (simp add: Cons_nth_drop_Suc [symmetric])
  ultimately show ?case by simp
qed

definition call_bytes :: "int \<Rightarrow> PQArgBlock list \<Rightarrow> byte list" where
  "call_bytes fnid args = client_message 0x46 (be_bytes 4 fnid @ be_bytes 2 1 @ be_bytes 2 1 @ be_bytes 2 (int (length args)) @
     concat (map (\<lambda>a. enc_value (arg_value a)) args) @ be_bytes 2 1)"


lemma call_sent:
  assumes "good c" "e_send (env c) = []" "\<forall>a \<in> set args. arg_fits a" "length (call_bytes fnid args) < 2 ^ 30"
  obtains c' where "put_all (call_parts fnid args (int (length args)) @ [pqFlush]) c = Some (0, c')" "good c'" "inward c c'"
    "e_sent (env c') = e_sent (env c) @ call_bytes fnid args" "result c' = result c" "curTuple c' = curTuple c" "asyncStatus c' = asyncStatus c"
proof -
  let ?ws = "[pqPutInt fnid 4, pqPutInt 1 2, pqPutInt 1 2, pqPutInt (int (length args)) 2, put_args args 0 (length args), pqPutInt 1 2]"
  let ?bs = "[be_bytes 4 fnid, be_bytes 2 1, be_bytes 2 1, be_bytes 2 (int (length args)), concat (map (\<lambda>a. enc_value (arg_value a)) args), be_bytes 2 1]"
  have w: "list_all2 sure_writer ?ws ?bs" using sure_args [of 0 "length args" args] assms(3) by (simp add: sure_int2.sure_writer_axioms sure_int4.sure_writer_axioms)
  have cp: "call_parts fnid args (int (length args)) = pqPutMsgStart 0x46 False # ?ws @ [pqPutMsgEnd]" by (simp add: call_parts_def)
  have cb: "client_message 0x46 (concat ?bs) = call_bytes fnid args" by (simp add: call_bytes_def)
  obtain c' where c': "put_all (call_parts fnid args (int (length args)) @ [pqFlush]) c = Some (0, c')" "good c'" "inward c c'" "through c c'"
    "e_sent (env c') = e_sent (env c) @ call_bytes fnid args"
    by (rule message_sent [OF w _ assms(1,2), of "0x46"]) (use assms(4) in \<open>simp_all only: cb cp, simp\<close>)
  then show thesis using that only_io_fields [of c c'] only_io_more [of c c'] by (simp add: through_def)
qed


section \<open>The whole call\<close>

lemma reset_error_good:
  assumes "good c"
  obtains c' where "reset_error c = Some c'" "good c'" "inward c c'" "env c' = env c" "result c' = result c" "curTuple c' = curTuple c"
    "asyncStatus c' = asyncStatus c" "outCount c' = outCount c"
proof -
  note g = goodD [OF assms]
  have "valid_expbuf (errorMessage c)" using g(8) by (simp add: conn_ok_def)
  then obtain m where m: "resetPQExpBuffer (e_alloc (env c)) (errorMessage c) = Some (m, e_alloc (env c))" "valid_expbuf m"
    using resetPQExpBuffer_plenty g(3) by blast
  let ?c = "c\<lparr>errorMessage := m\<rparr>"
  have r: "reset_error c = Some ?c" using m(1) by (simp add: reset_error_def set_alloc_def)
  have i: "inward c ?c" by (simp add: inward_def in_data_def)
  obtain c1 where "reset_error c = Some c1" "session_ok c1" using reset_error_session [OF g(1)] by blast
  then have "session_ok ?c" using r by simp
  then have "good ?c" using good_inward [OF assms i] g(6) by simp
  then show thesis using that [of ?c] r i by simp
qed

text \<open>The client at rest makes a call, and waits for the value.\<close>

definition can_call :: "int \<Rightarrow> PQArgBlock list \<Rightarrow> pg_conn \<Rightarrow> bool" where
  "can_call fnid args c \<longleftrightarrow> good c \<and> asyncStatus c = PGASYNC_IDLE \<and> result c = None \<and> curTuple c = None \<and> in_data c = [] \<and> e_send (env c) = [] \<and>
     (\<forall>a \<in> set args. arg_fits a) \<and> length (call_bytes fnid args) < 2 ^ 30"

definition new_answer :: "byte list \<Rightarrow> fn_answer" where
  "new_answer buf = \<lparr>fn_status = PGRES_FATAL_ERROR, fn_buf = buf, fn_len = 0\<rparr>"

lemma call_made:
  assumes "can_call fnid args c" "stream (env c) = server_message ident body @ rest"
  obtains c' where "PQfn c fnid buf i args (int (length args)) =
      Option.bind (fn_loop i False (new_answer buf) c') (\<lambda>(res, ans, conn). Some (res, fn_buf ans, fn_len ans, conn))"
    "message_next ident body rest c'" "asyncStatus c' = PGASYNC_IDLE" "result c' = None" "e_sent (env c') = e_sent (env c) @ call_bytes fnid args"
proof -
  have c: "good c" "asyncStatus c = PGASYNC_IDLE" "result c = None" "curTuple c = None" "in_data c = []" "e_send (env c) = []"
    "\<forall>a \<in> set args. arg_fits a" "length (call_bytes fnid args) < 2 ^ 30" using assms(1) by (simp_all add: can_call_def)
  obtain c1 where c1: "reset_error c = Some c1" "good c1" "inward c c1" "env c1 = env c" "result c1 = result c" "curTuple c1 = curTuple c"
    "asyncStatus c1 = asyncStatus c" "outCount c1 = outCount c" by (rule reset_error_good [OF c(1)])
  obtain c2 where c2: "put_all (call_parts fnid args (int (length args)) @ [pqFlush]) c1 = Some (0, c2)" "good c2" "inward c1 c2"
    "e_sent (env c2) = e_sent (env c1) @ call_bytes fnid args" "result c2 = result c1" "curTuple c2 = curTuple c1" "asyncStatus c2 = asyncStatus c1"
    by (rule call_sent [OF c1(2) _ c(7,8)]) (use c(6) c1(4) in simp)
  have "in_data c2 @ stream (env c2) = server_message ident body @ rest"
    using c1(3) c2(3) c(5) assms(2) by (simp add: inward_def stream_def)
  then have "message_next ident body rest c2" using c2(2,6) c1(6) c(4) by (simp add: message_next_def)
  moreover have "pqFunctionCall3 c1 fnid buf i args (int (length args)) =
      Option.bind (fn_loop i False (new_answer buf) c2) (\<lambda>(res, ans, conn). Some (res, fn_buf ans, fn_len ans, conn))"
    unfolding pqFunctionCall3_def new_answer_def using c2(1) by simp
  moreover have "PG_PROTOCOL_MAJOR (pversion c1) \<ge> 3" by (rule session_okD(5) [OF goodD(1) [OF c1(2)]])
  ultimately show thesis using that [of c2] c1(1,4,5,7) c2(4,5,7) goodD(4) [OF c1(2)] c(2,3) by (simp add: PQfn_def)
qed

lemma function_call:
  assumes "can_call fnid args c" "length v \<le> length buf" "stream (env c) = server_message 0x56 (function_value v) @ ready_message x"
  obtains c' r where "PQfn c fnid buf False args (int (length args)) = Some (Some r, v @ drop (length v) buf, int (length v), c')"
    "resultStatus r = PGRES_COMMAND_OK" "good c'" "at_rest c' (stream (env c'))" "e_sent (env c') = e_sent (env c) @ call_bytes fnid args"
proof -
  let ?a = "new_answer buf"
  obtain c2 where c2: "PQfn c fnid buf False args (int (length args)) =
      Option.bind (fn_loop False False ?a c2) (\<lambda>(res, ans, conn). Some (res, fn_buf ans, fn_len ans, conn))"
    "message_next 0x56 (function_value v) (ready_message x) c2" "asyncStatus c2 = PGASYNC_IDLE" "result c2 = None"
    "e_sent (env c2) = e_sent (env c) @ call_bytes fnid args" by (rule call_made [OF assms(1,3)])
  let ?b = "?a\<lparr>fn_len := int (length v), fn_buf := v @ drop (length v) (fn_buf ?a), fn_status := PGRES_COMMAND_OK\<rparr>"
  have lb: "length v \<le> length (fn_buf ?a)" using assms(2) by (simp add: new_answer_def)
  obtain c3 where c3: "fn_loop False False ?a c2 = fn_loop False False ?b c3"
    "good c3" "curTuple c3 = None" "in_data c3 @ stream (env c3) = ready_message x" "asyncStatus c3 = asyncStatus c2" "result c3 = result c2"
    "e_sent (env c3) = e_sent (env c2)" by (rule value_arrives [OF c2(2) lb])
  have n: "message_next 0x5A [x] [] c3" using c3(2-4) by (simp add: message_next_def ready_message_def)
  have z: "result c3 = None" "\<not> is_error_status (fn_status ?b)" using c3(6) c2(4) by (simp_all add: is_error_status_def)
  obtain c4 where c4: "fn_loop False False ?b c3 = Some (Some (empty_result (noticeRec c4) (client_encoding c4) (fn_status ?b)), ?b, c4)"
    "good c4" "in_data c4 @ stream (env c4) = []" "asyncStatus c4 = asyncStatus c3" "e_sent (env c4) = e_sent (env c3)"
    by (rule fn_ready_arrives [OF n z]) blast
  have "PQfn c fnid buf False args (int (length args)) =
      Some (Some (empty_result (noticeRec c4) (client_encoding c4) PGRES_COMMAND_OK), v @ drop (length v) buf, int (length v), c4)"
    unfolding c2(1) c3(1) c4(1) by (simp add: new_answer_def)
  then show thesis using that [of "empty_result (noticeRec c4) (client_encoding c4) PGRES_COMMAND_OK" c4] c4 c3(5,7) c2(3,5)
    by (simp add: at_rest_def empty_result_def)
qed

lemma function_overflow:
  assumes "can_call fnid args c" "length buf < length v" "stream (env c) = server_message 0x56 (function_value v) @ rest"
  shows "PQfn c fnid buf False args (int (length args)) = None"
proof -
  obtain c2 where c2: "PQfn c fnid buf False args (int (length args)) =
      Option.bind (fn_loop False False (new_answer buf) c2) (\<lambda>(res, ans, conn). Some (res, fn_buf ans, fn_len ans, conn))"
    "message_next 0x56 (function_value v) rest c2" by (rule call_made [OF assms(1,3)])
  have "fn_loop False False (new_answer buf) c2 = None" by (rule value_overflows [OF c2(2)]) (use assms(2) in \<open>simp add: new_answer_def\<close>)
  then show ?thesis using c2(1) by simp
qed

end
