(* ===== verification/CopyProps.thy ===== *)
theory CopyProps
  imports FastCall
begin

text \<open>
  The properties of COPY data and of function calls.
\<close>

lemma be_bytes_4: "be_bytes 4 v = [word_of_int (v div 16777216), word_of_int (v div 65536), word_of_int (v div 256), word_of_int v]"
  by (simp add: be_bytes_def eval_nat_numeral)


section \<open>The rows of a COPY\<close>





text \<open>An empty row: \<open>PQgetCopyData\<close> drops it and goes on, \<open>PQgetlineAsync\<close> takes it and answers 0, which stands for no data at all.\<close>

lemma empty_row_is_no_data:
  assumes "good c" "curTuple c = None" "asyncStatus c = PGASYNC_COPY_OUT" "copy_already_done c = 0" "0 \<le> bufsize"
    and "in_data c = server_message 0x64 [] @ server_message ident body @ rest"
  shows "\<exists>c'. PQgetlineAsync c buffer bufsize = Some (0, buffer, c') \<and> in_data c' = server_message ident body @ rest"
proof -
  have "message_next 0x64 [] (server_message ident body @ rest @ stream (env c)) c" using assms(1,2,6) by (simp add: message_next_def)
  note msg = copy_complete [OF this assms(6)]
  have i: "0 \<le> inStart c" "inEnd c \<le> int (length (inBuffer c))" using state_ok_in [OF session_okD(3) [OF goodD(1) [OF assms(1)]]] by simp_all
  moreover have "int (length (in_data c)) = inEnd c - inStart c" by (rule in_data_length [OF goodD(8) [OF assms(1)]])
  then have "inStart c + 5 \<le> inEnd c" unfolding assms(6) by simp
  ultimately have "nat (inStart c + 5) \<le> length (inBuffer c)" by linarith
  then have "rd_bytes (inBuffer c) (nat (inStart c + 5)) 0 = Some []" "wr_bytes buffer 0 [] = Some buffer"
    by (simp_all add: rd_bytes_def wr_bytes_def)
  then have "PQgetlineAsync c buffer bufsize = Some (0, buffer, c\<lparr>inCursor := inStart c + 5, inStart := inStart c + 5, copy_already_done := 0\<rparr>)"
    using msg assms(3-5) session_okD(5) [OF goodD(1) [OF assms(1)]]
    by (simp add: PQgetlineAsync_def pqGetlineAsync3_def at_body_def Let_def) (simp add: give_bytes_def)
  moreover have "in_data (c\<lparr>inCursor := inStart c + 5, inStart := inStart c + 5, copy_already_done := 0\<rparr>) = server_message ident body @ rest"
    using good_consume(2) [OF assms(1,2,6)] by (simp add: in_data_def)
  ultimately show ?thesis by blast
qed


section \<open>Function calls\<close>


lemma can_call_idle:
  assumes "\<forall>a \<in> set args. arg_fits a" "length (call_bytes fnid args) < 2 ^ 30" "length (concat ps) \<le> 10000" "[] \<notin> set ps"
  shows "can_call fnid args (idle_conn ps)"
  using idle_conn_good(2) [OF assms(3,4)] assms(1,2) by (simp add: can_call_def) (simp add: idle_conn_def)




end
