(* ===== verification/Md5.thy ===== *)
theory Md5
  imports Conn
begin

text \<open>
  The message digest of \<open>backend/libpq/md5.c\<close>: the padded copy, the rounds, the digest in hexadecimal, and the encryption of passwords built on it; and the
  algorithm of RFC 1321 that the code implements.

  A \<open>uint32\<close> is a \<open>32 word\<close>. The outer \<open>None\<close> is an access outside of a block; \<open>sum16\<close>, \<open>hexsum\<close> and \<open>buf\<close> are memory of the caller.
\<close>

section \<open>The padded copy\<close>

fun zero_pad :: "byte list \<Rightarrow> nat \<Rightarrow> nat \<Rightarrow> byte list option" where
  "zero_pad ret q 0 = Some ret"
| "zero_pad ret q (Suc n) = do { ret \<leftarrow> wr ret q 0; zero_pad ret (q + 1) n }"

fun wr_each :: "byte list \<Rightarrow> nat \<Rightarrow> byte list \<Rightarrow> byte list option" where
  "wr_each ret q [] = Some ret"
| "wr_each ret q (b # bs) = do { ret \<leftarrow> wr ret q b; wr_each ret (q + 1) bs }"

text \<open>The bytes of a word, the lowest one first.\<close>

definition low_bytes :: "32 word \<Rightarrow> byte list" where
  "low_bytes w = [ucast (w AND 0xFF), ucast (drop_bit 8 w AND 0xFF), ucast (drop_bit 16 w AND 0xFF), ucast (drop_bit 24 w AND 0xFF)]"

text \<open>The number of bits, as two words.\<close>

definition bit_count :: "32 word \<Rightarrow> byte list" where
  "bit_count len = low_bytes (push_bit 3 len) @ low_bytes (drop_bit 29 len)"

text \<open>The answer: the copy, or nothing for lack of memory, and its length.\<close>

definition createPaddedCopyWithLength :: "byte list option \<Rightarrow> 32 word \<Rightarrow> alloc \<Rightarrow> (byte list option \<times> 32 word \<times> alloc) option" where
  "createPaddedCopyWithLength b l a = do {
     let len = (if b = None then 0 else l);
     let newLen448 = len + 64 - len mod 64 - 8;
     let newLen448 = (if newLen448 \<le> len then newLen448 + 64 else newLen448);
     let l = newLen448 + 8;
     let (ret, a) = c_malloc a (unat l);
     case ret of
       None \<Rightarrow> Some (None, l, a)
     | Some ret \<Rightarrow> do {
         ret \<leftarrow> (case b of None \<Rightarrow> Some ret | Some b \<Rightarrow> do { bs \<leftarrow> rd_bytes b 0 (unat len); wr_bytes ret 0 bs });
         ret \<leftarrow> wr ret (unat len) 0x80;
         ret \<leftarrow> zero_pad ret (unat (len + 1)) (unat newLen448 - unat (len + 1));
         ret \<leftarrow> wr_each ret (unat newLen448) (bit_count len);
         Some (Some ret, l, a)
       }
   }"


section \<open>The rounds\<close>

definition MD5_F :: "32 word \<Rightarrow> 32 word \<Rightarrow> 32 word \<Rightarrow> 32 word" where
  "MD5_F x y z = (x AND y) OR (NOT x AND z)"

definition MD5_G :: "32 word \<Rightarrow> 32 word \<Rightarrow> 32 word \<Rightarrow> 32 word" where
  "MD5_G x y z = (x AND z) OR (y AND NOT z)"

definition MD5_H :: "32 word \<Rightarrow> 32 word \<Rightarrow> 32 word \<Rightarrow> 32 word" where
  "MD5_H x y z = x XOR y XOR z"

definition MD5_I :: "32 word \<Rightarrow> 32 word \<Rightarrow> 32 word \<Rightarrow> 32 word" where
  "MD5_I x y z = y XOR (x OR NOT z)"

definition ROT_LEFT :: "32 word \<Rightarrow> nat \<Rightarrow> 32 word" where
  "ROT_LEFT x n = push_bit n x OR drop_bit (32 - n) x"

type_synonym md5_state = "32 word \<times> 32 word \<times> 32 word \<times> 32 word"

text \<open>The work buffer has 16 words.\<close>

definition doTheRounds :: "32 word list \<Rightarrow> md5_state \<Rightarrow> md5_state" where
  "doTheRounds X state = (case state of (a0, b0, c0, d0) \<Rightarrow>
     let a = a0 in let b = b0 in let c = c0 in let d = d0 in
     let a = b + ROT_LEFT (a + MD5_F b c d + X ! 0 + 0xd76aa478) 7 in
     let d = a + ROT_LEFT (d + MD5_F a b c + X ! 1 + 0xe8c7b756) 12 in
     let c = d + ROT_LEFT (c + MD5_F d a b + X ! 2 + 0x242070db) 17 in
     let b = c + ROT_LEFT (b + MD5_F c d a + X ! 3 + 0xc1bdceee) 22 in
     let a = b + ROT_LEFT (a + MD5_F b c d + X ! 4 + 0xf57c0faf) 7 in
     let d = a + ROT_LEFT (d + MD5_F a b c + X ! 5 + 0x4787c62a) 12 in
     let c = d + ROT_LEFT (c + MD5_F d a b + X ! 6 + 0xa8304613) 17 in
     let b = c + ROT_LEFT (b + MD5_F c d a + X ! 7 + 0xfd469501) 22 in
     let a = b + ROT_LEFT (a + MD5_F b c d + X ! 8 + 0x698098d8) 7 in
     let d = a + ROT_LEFT (d + MD5_F a b c + X ! 9 + 0x8b44f7af) 12 in
     let c = d + ROT_LEFT (c + MD5_F d a b + X ! 10 + 0xffff5bb1) 17 in
     let b = c + ROT_LEFT (b + MD5_F c d a + X ! 11 + 0x895cd7be) 22 in
     let a = b + ROT_LEFT (a + MD5_F b c d + X ! 12 + 0x6b901122) 7 in
     let d = a + ROT_LEFT (d + MD5_F a b c + X ! 13 + 0xfd987193) 12 in
     let c = d + ROT_LEFT (c + MD5_F d a b + X ! 14 + 0xa679438e) 17 in
     let b = c + ROT_LEFT (b + MD5_F c d a + X ! 15 + 0x49b40821) 22 in
     let a = b + ROT_LEFT (a + MD5_G b c d + X ! 1 + 0xf61e2562) 5 in
     let d = a + ROT_LEFT (d + MD5_G a b c + X ! 6 + 0xc040b340) 9 in
     let c = d + ROT_LEFT (c + MD5_G d a b + X ! 11 + 0x265e5a51) 14 in
     let b = c + ROT_LEFT (b + MD5_G c d a + X ! 0 + 0xe9b6c7aa) 20 in
     let a = b + ROT_LEFT (a + MD5_G b c d + X ! 5 + 0xd62f105d) 5 in
     let d = a + ROT_LEFT (d + MD5_G a b c + X ! 10 + 0x02441453) 9 in
     let c = d + ROT_LEFT (c + MD5_G d a b + X ! 15 + 0xd8a1e681) 14 in
     let b = c + ROT_LEFT (b + MD5_G c d a + X ! 4 + 0xe7d3fbc8) 20 in
     let a = b + ROT_LEFT (a + MD5_G b c d + X ! 9 + 0x21e1cde6) 5 in
     let d = a + ROT_LEFT (d + MD5_G a b c + X ! 14 + 0xc33707d6) 9 in
     let c = d + ROT_LEFT (c + MD5_G d a b + X ! 3 + 0xf4d50d87) 14 in
     let b = c + ROT_LEFT (b + MD5_G c d a + X ! 8 + 0x455a14ed) 20 in
     let a = b + ROT_LEFT (a + MD5_G b c d + X ! 13 + 0xa9e3e905) 5 in
     let d = a + ROT_LEFT (d + MD5_G a b c + X ! 2 + 0xfcefa3f8) 9 in
     let c = d + ROT_LEFT (c + MD5_G d a b + X ! 7 + 0x676f02d9) 14 in
     let b = c + ROT_LEFT (b + MD5_G c d a + X ! 12 + 0x8d2a4c8a) 20 in
     let a = b + ROT_LEFT (a + MD5_H b c d + X ! 5 + 0xfffa3942) 4 in
     let d = a + ROT_LEFT (d + MD5_H a b c + X ! 8 + 0x8771f681) 11 in
     let c = d + ROT_LEFT (c + MD5_H d a b + X ! 11 + 0x6d9d6122) 16 in
     let b = c + ROT_LEFT (b + MD5_H c d a + X ! 14 + 0xfde5380c) 23 in
     let a = b + ROT_LEFT (a + MD5_H b c d + X ! 1 + 0xa4beea44) 4 in
     let d = a + ROT_LEFT (d + MD5_H a b c + X ! 4 + 0x4bdecfa9) 11 in
     let c = d + ROT_LEFT (c + MD5_H d a b + X ! 7 + 0xf6bb4b60) 16 in
     let b = c + ROT_LEFT (b + MD5_H c d a + X ! 10 + 0xbebfbc70) 23 in
     let a = b + ROT_LEFT (a + MD5_H b c d + X ! 13 + 0x289b7ec6) 4 in
     let d = a + ROT_LEFT (d + MD5_H a b c + X ! 0 + 0xeaa127fa) 11 in
     let c = d + ROT_LEFT (c + MD5_H d a b + X ! 3 + 0xd4ef3085) 16 in
     let b = c + ROT_LEFT (b + MD5_H c d a + X ! 6 + 0x04881d05) 23 in
     let a = b + ROT_LEFT (a + MD5_H b c d + X ! 9 + 0xd9d4d039) 4 in
     let d = a + ROT_LEFT (d + MD5_H a b c + X ! 12 + 0xe6db99e5) 11 in
     let c = d + ROT_LEFT (c + MD5_H d a b + X ! 15 + 0x1fa27cf8) 16 in
     let b = c + ROT_LEFT (b + MD5_H c d a + X ! 2 + 0xc4ac5665) 23 in
     let a = b + ROT_LEFT (a + MD5_I b c d + X ! 0 + 0xf4292244) 6 in
     let d = a + ROT_LEFT (d + MD5_I a b c + X ! 7 + 0x432aff97) 10 in
     let c = d + ROT_LEFT (c + MD5_I d a b + X ! 14 + 0xab9423a7) 15 in
     let b = c + ROT_LEFT (b + MD5_I c d a + X ! 5 + 0xfc93a039) 21 in
     let a = b + ROT_LEFT (a + MD5_I b c d + X ! 12 + 0x655b59c3) 6 in
     let d = a + ROT_LEFT (d + MD5_I a b c + X ! 3 + 0x8f0ccc92) 10 in
     let c = d + ROT_LEFT (c + MD5_I d a b + X ! 10 + 0xffeff47d) 15 in
     let b = c + ROT_LEFT (b + MD5_I c d a + X ! 1 + 0x85845dd1) 21 in
     let a = b + ROT_LEFT (a + MD5_I b c d + X ! 8 + 0x6fa87e4f) 6 in
     let d = a + ROT_LEFT (d + MD5_I a b c + X ! 15 + 0xfe2ce6e0) 10 in
     let c = d + ROT_LEFT (c + MD5_I d a b + X ! 6 + 0xa3014314) 15 in
     let b = c + ROT_LEFT (b + MD5_I c d a + X ! 13 + 0x4e0811a1) 21 in
     let a = b + ROT_LEFT (a + MD5_I b c d + X ! 4 + 0xf7537e82) 6 in
     let d = a + ROT_LEFT (d + MD5_I a b c + X ! 11 + 0xbd3af235) 10 in
     let c = d + ROT_LEFT (c + MD5_I d a b + X ! 2 + 0x2ad7d2bb) 15 in
     let b = c + ROT_LEFT (b + MD5_I c d a + X ! 9 + 0xeb86d391) 21 in
     (a0 + a, b0 + b, c0 + c, d0 + d))"


section \<open>The digest\<close>

definition load_word :: "byte list \<Rightarrow> nat \<Rightarrow> (32 word) option" where
  "load_word input k = do {
     b3 \<leftarrow> rd input (k + 3);
     b2 \<leftarrow> rd input (k + 2);
     b1 \<leftarrow> rd input (k + 1);
     b0 \<leftarrow> rd input k;
     Some (push_bit 8 (push_bit 8 (push_bit 8 (ucast b3) OR ucast b2) OR ucast b1) OR ucast b0)
   }"

fun load_words :: "byte list \<Rightarrow> nat \<Rightarrow> nat \<Rightarrow> 32 word list option" where
  "load_words input k 0 = Some []"
| "load_words input k (Suc n) = do { w \<leftarrow> load_word input k; ws \<leftarrow> load_words input (k + 4) n; Some (w # ws) }"

partial_function (option) digest_loop :: "byte list \<Rightarrow> 32 word \<Rightarrow> 32 word \<Rightarrow> md5_state \<Rightarrow> md5_state option" where
  "digest_loop input i l state =
     (let newI = i + 64 in
      if newI > l then Some state
      else Option.bind (load_words input (unat i) 16) (\<lambda>X. digest_loop input newI l (doTheRounds X state)))"

definition calculateDigestFromBuffer :: "byte list option \<Rightarrow> 32 word \<Rightarrow> byte list \<Rightarrow> alloc \<Rightarrow> (bool \<times> byte list \<times> alloc) option" where
  "calculateDigestFromBuffer b len sum16 a = do {
     (input, l, a) \<leftarrow> createPaddedCopyWithLength b len a;
     case input of
       None \<Rightarrow> Some (False, sum16, a)
     | Some input \<Rightarrow> do {
         (s0, s1, s2, s3) \<leftarrow> digest_loop input 0 l (0x67452301, 0xEFCDAB89, 0x98BADCFE, 0x10325476);
         sum16 \<leftarrow> wr_each sum16 0 (concat (map low_bytes [s0, s1, s2, s3]));
         Some (True, sum16, a)
       }
   }"

text \<open>The loop over the bytes of the digest; \<open>w\<close> is the position in the text.\<close>

fun hex_loop :: "byte list \<Rightarrow> nat \<Rightarrow> byte list \<Rightarrow> byte list option" where
  "hex_loop [] w s = wr s w 0"
| "hex_loop (x # b) w s = do {
     h \<leftarrow> rd (c_bytes ''0123456789abcdef'') (unat (drop_bit 4 x AND 0x0F));
     s \<leftarrow> wr s w h;
     h \<leftarrow> rd (c_bytes ''0123456789abcdef'') (unat (x AND 0x0F));
     s \<leftarrow> wr s (w + 1) h;
     hex_loop b (w + 2) s
   }"

definition bytesToHex :: "byte list \<Rightarrow> byte list \<Rightarrow> byte list option" where
  "bytesToHex b s = hex_loop b 0 s"

definition pg_md5_hash :: "byte list option \<Rightarrow> 32 word \<Rightarrow> byte list \<Rightarrow> alloc \<Rightarrow> (bool \<times> byte list \<times> alloc) option" where
  "pg_md5_hash buff len hexsum a = do {
     (ok, sum16, a) \<leftarrow> calculateDigestFromBuffer buff len (replicate 16 (junk a)) a;
     if \<not> ok then Some (False, hexsum, a)
     else do { hexsum \<leftarrow> bytesToHex sum16 hexsum; Some (True, hexsum, a) }
   }"

definition pg_md5_binary :: "byte list option \<Rightarrow> 32 word \<Rightarrow> byte list \<Rightarrow> alloc \<Rightarrow> (bool \<times> byte list \<times> alloc) option" where
  "pg_md5_binary buff len outbuf a = calculateDigestFromBuffer buff len outbuf a"

definition pg_md5_encrypt :: "byte list \<Rightarrow> byte list \<Rightarrow> nat \<Rightarrow> byte list \<Rightarrow> alloc \<Rightarrow> (bool \<times> byte list \<times> alloc) option" where
  "pg_md5_encrypt passwd salt salt_len buf a = do {
     passwd_len \<leftarrow> c_strlen passwd;
     let (crypt_buf, a) = c_malloc a (szadd (szadd passwd_len salt_len) 1);
     case crypt_buf of
       None \<Rightarrow> Some (False, buf, a)
     | Some crypt_buf \<Rightarrow> do {
         p \<leftarrow> rd_bytes passwd 0 passwd_len;
         crypt_buf \<leftarrow> wr_bytes crypt_buf 0 p;
         s \<leftarrow> rd_bytes salt 0 salt_len;
         crypt_buf \<leftarrow> wr_bytes crypt_buf passwd_len s;
         buf \<leftarrow> wr_bytes buf 0 (c_bytes ''md5'' @ [0]);
         (ret, hexsum, a) \<leftarrow> pg_md5_hash (Some crypt_buf) (of_nat (szadd passwd_len salt_len)) (drop 3 buf) a;
         Some (ret, take 3 buf @ hexsum, a)
       }
   }"


section \<open>RFC 1321\<close>

text \<open>The message, padded to a multiple of 64 bytes: a bit, zeros, and the number of bits as a number of 8 bytes.\<close>

definition md5_padded :: "byte list \<Rightarrow> byte list" where
  "md5_padded m = m @ [0x80] @ replicate ((119 - length m mod 64) mod 64) 0 @ map (\<lambda>i. of_nat (8 * length m div 256 ^ i)) [0..<8]"

definition md5_word :: "byte list \<Rightarrow> 32 word" where
  "md5_word bs = foldr (\<lambda>b w. ucast b + 256 * w) bs 0"

definition md5_words :: "byte list \<Rightarrow> 32 word list" where
  "md5_words block = map (\<lambda>i. md5_word (take 4 (drop (4 * i) block))) [0..<16]"

definition md5_T :: "32 word list" where
  "md5_T =
    [0xd76aa478, 0xe8c7b756, 0x242070db, 0xc1bdceee, 0xf57c0faf, 0x4787c62a, 0xa8304613, 0xfd469501,
     0x698098d8, 0x8b44f7af, 0xffff5bb1, 0x895cd7be, 0x6b901122, 0xfd987193, 0xa679438e, 0x49b40821,
     0xf61e2562, 0xc040b340, 0x265e5a51, 0xe9b6c7aa, 0xd62f105d, 0x02441453, 0xd8a1e681, 0xe7d3fbc8,
     0x21e1cde6, 0xc33707d6, 0xf4d50d87, 0x455a14ed, 0xa9e3e905, 0xfcefa3f8, 0x676f02d9, 0x8d2a4c8a,
     0xfffa3942, 0x8771f681, 0x6d9d6122, 0xfde5380c, 0xa4beea44, 0x4bdecfa9, 0xf6bb4b60, 0xbebfbc70,
     0x289b7ec6, 0xeaa127fa, 0xd4ef3085, 0x04881d05, 0xd9d4d039, 0xe6db99e5, 0x1fa27cf8, 0xc4ac5665,
     0xf4292244, 0x432aff97, 0xab9423a7, 0xfc93a039, 0x655b59c3, 0x8f0ccc92, 0xffeff47d, 0x85845dd1,
     0x6fa87e4f, 0xfe2ce6e0, 0xa3014314, 0x4e0811a1, 0xf7537e82, 0xbd3af235, 0x2ad7d2bb, 0xeb86d391]"

definition md5_shift :: "nat \<Rightarrow> nat" where
  "md5_shift i = (if i < 16 then [7, 12, 17, 22] else if i < 32 then [5, 9, 14, 20] else if i < 48 then [4, 11, 16, 23] else [6, 10, 15, 21]) ! (i mod 4)"

definition md5_index :: "nat \<Rightarrow> nat" where
  "md5_index i = (if i < 16 then i else if i < 32 then 5 * i + 1 else if i < 48 then 3 * i + 5 else 7 * i) mod 16"

definition md5_function :: "nat \<Rightarrow> 32 word \<Rightarrow> 32 word \<Rightarrow> 32 word \<Rightarrow> 32 word" where
  "md5_function i x y z =
     (if i < 16 then (x AND y) OR (NOT x AND z) else if i < 32 then (x AND z) OR (y AND NOT z) else if i < 48 then x XOR y XOR z
      else y XOR (x OR NOT z))"

definition md5_step :: "32 word list \<Rightarrow> md5_state \<Rightarrow> nat \<Rightarrow> md5_state" where
  "md5_step X = (\<lambda>(a, b, c, d) i.
     (d, b + word_rotl (md5_shift i) (a + md5_function i b c d + X ! md5_index i + md5_T ! i), b, c))"

definition md5_compress :: "32 word list \<Rightarrow> md5_state \<Rightarrow> md5_state" where
  "md5_compress X = (\<lambda>(a, b, c, d). case foldl (md5_step X) (a, b, c, d) [0..<64] of (a', b', c', d') \<Rightarrow> (a + a', b + b', c + c', d + d'))"

fun md5_blocks :: "nat \<Rightarrow> byte list \<Rightarrow> md5_state \<Rightarrow> md5_state" where
  "md5_blocks 0 bs st = st"
| "md5_blocks (Suc n) bs st = md5_blocks n (drop 64 bs) (md5_compress (md5_words (take 64 bs)) st)"

definition md5 :: "byte list \<Rightarrow> byte list" where
  "md5 m = (case md5_blocks (length (md5_padded m) div 64) (md5_padded m) (0x67452301, 0xEFCDAB89, 0x98BADCFE, 0x10325476) of
     (a, b, c, d) \<Rightarrow> concat (map (\<lambda>w. map (\<lambda>i. ucast (drop_bit (8 * i) w)) [0..<4]) [a, b, c, d]))"

definition hex_text :: "byte list \<Rightarrow> byte list" where
  "hex_text bs = concat (map (\<lambda>b. [c_bytes ''0123456789abcdef'' ! (unat b div 16), c_bytes ''0123456789abcdef'' ! (unat b mod 16)]) bs)"


section \<open>The rounds are those of RFC 1321\<close>

definition md5_table :: "((32 word \<Rightarrow> 32 word \<Rightarrow> 32 word \<Rightarrow> 32 word) \<times> nat \<times> nat \<times> 32 word) list" where
  "md5_table =
    [(MD5_F, 0, 7, 0xd76aa478), (MD5_F, 1, 12, 0xe8c7b756), (MD5_F, 2, 17, 0x242070db), (MD5_F, 3, 22, 0xc1bdceee),
     (MD5_F, 4, 7, 0xf57c0faf), (MD5_F, 5, 12, 0x4787c62a), (MD5_F, 6, 17, 0xa8304613), (MD5_F, 7, 22, 0xfd469501),
     (MD5_F, 8, 7, 0x698098d8), (MD5_F, 9, 12, 0x8b44f7af), (MD5_F, 10, 17, 0xffff5bb1), (MD5_F, 11, 22, 0x895cd7be),
     (MD5_F, 12, 7, 0x6b901122), (MD5_F, 13, 12, 0xfd987193), (MD5_F, 14, 17, 0xa679438e), (MD5_F, 15, 22, 0x49b40821),
     (MD5_G, 1, 5, 0xf61e2562), (MD5_G, 6, 9, 0xc040b340), (MD5_G, 11, 14, 0x265e5a51), (MD5_G, 0, 20, 0xe9b6c7aa),
     (MD5_G, 5, 5, 0xd62f105d), (MD5_G, 10, 9, 0x02441453), (MD5_G, 15, 14, 0xd8a1e681), (MD5_G, 4, 20, 0xe7d3fbc8),
     (MD5_G, 9, 5, 0x21e1cde6), (MD5_G, 14, 9, 0xc33707d6), (MD5_G, 3, 14, 0xf4d50d87), (MD5_G, 8, 20, 0x455a14ed),
     (MD5_G, 13, 5, 0xa9e3e905), (MD5_G, 2, 9, 0xfcefa3f8), (MD5_G, 7, 14, 0x676f02d9), (MD5_G, 12, 20, 0x8d2a4c8a),
     (MD5_H, 5, 4, 0xfffa3942), (MD5_H, 8, 11, 0x8771f681), (MD5_H, 11, 16, 0x6d9d6122), (MD5_H, 14, 23, 0xfde5380c),
     (MD5_H, 1, 4, 0xa4beea44), (MD5_H, 4, 11, 0x4bdecfa9), (MD5_H, 7, 16, 0xf6bb4b60), (MD5_H, 10, 23, 0xbebfbc70),
     (MD5_H, 13, 4, 0x289b7ec6), (MD5_H, 0, 11, 0xeaa127fa), (MD5_H, 3, 16, 0xd4ef3085), (MD5_H, 6, 23, 0x04881d05),
     (MD5_H, 9, 4, 0xd9d4d039), (MD5_H, 12, 11, 0xe6db99e5), (MD5_H, 15, 16, 0x1fa27cf8), (MD5_H, 2, 23, 0xc4ac5665),
     (MD5_I, 0, 6, 0xf4292244), (MD5_I, 7, 10, 0x432aff97), (MD5_I, 14, 15, 0xab9423a7), (MD5_I, 5, 21, 0xfc93a039),
     (MD5_I, 12, 6, 0x655b59c3), (MD5_I, 3, 10, 0x8f0ccc92), (MD5_I, 10, 15, 0xffeff47d), (MD5_I, 1, 21, 0x85845dd1),
     (MD5_I, 8, 6, 0x6fa87e4f), (MD5_I, 15, 10, 0xfe2ce6e0), (MD5_I, 6, 15, 0xa3014314), (MD5_I, 13, 21, 0x4e0811a1),
     (MD5_I, 4, 6, 0xf7537e82), (MD5_I, 11, 10, 0xbd3af235), (MD5_I, 2, 15, 0x2ad7d2bb), (MD5_I, 9, 21, 0xeb86d391)]"

lemma ROT_LEFT_rotl:
  assumes "0 < n" "n < 32"
  shows "ROT_LEFT x n = word_rotl n x"
proof (rule bit_word_eqI)
  fix k assume k: "k < LENGTH(32)"
  have rotl: "bit (word_rotl n x) k = bit x ((k + (32 - n)) mod 32)" using assms k by (simp add: bit_word_rotl_iff)
  have rot: "bit (ROT_LEFT x n) k = (n \<le> k \<and> bit x (k - n) \<or> bit x (32 - n + k))"
    using k by (auto simp: ROT_LEFT_def bit_or_iff bit_push_bit_iff bit_drop_bit_eq)
  show "bit (ROT_LEFT x n) k = bit (word_rotl n x) k"
  proof (cases "k < n")
    case True
    then have "(k + (32 - n)) mod 32 = 32 - n + k" using assms by simp
    then show ?thesis using True rot rotl by simp
  next
    case False
    then have e: "k + (32 - n) = (k - n) + 32" using assms by simp
    have "k - n < 32" using k by simp
    then have "(k + (32 - n)) mod 32 = k - n" unfolding e mod_add_self2 by (rule mod_less)
    moreover have "\<not> bit x (32 - n + k)" using False bit_imp_le_length [of x "32 - n + k"] assms by auto
    ultimately show ?thesis using False rot rotl by simp
  qed
qed

lemma upt_64: "[0..<64] = [0, 1, 2, 3, 4, 5, 6, 7, 8, 9, 10, 11, 12, 13, 14, 15, 16, 17, 18, 19, 20, 21, 22, 23, 24, 25, 26, 27, 28, 29, 30, 31,
    32, 33, 34, 35, 36, 37, 38, 39, 40, 41, 42, 43, 44, 45, 46, 47, 48, 49, 50, 51, 52, 53, 54, 55, 56, 57, 58, 59, 60, 61, 62, 63]"
  by (simp add: upt_rec)

lemma md5_functions:
  "i < 16 \<Longrightarrow> md5_function i = MD5_F" "16 \<le> i \<Longrightarrow> i < 32 \<Longrightarrow> md5_function i = MD5_G" "32 \<le> i \<Longrightarrow> i < 48 \<Longrightarrow> md5_function i = MD5_H"
  "48 \<le> i \<Longrightarrow> md5_function i = MD5_I"
  by (simp_all add: fun_eq_iff md5_function_def MD5_F_def MD5_G_def MD5_H_def MD5_I_def)

lemma md5_table_entries: "map (\<lambda>i. (md5_function i, md5_index i, md5_shift i, md5_T ! i)) [0..<64] = md5_table"
  unfolding upt_64 md5_table_def
  by (simp add: md5_functions md5_index_def md5_shift_def md5_T_def)

definition table_step :: "32 word list \<Rightarrow> md5_state \<Rightarrow> (32 word \<Rightarrow> 32 word \<Rightarrow> 32 word \<Rightarrow> 32 word) \<times> nat \<times> nat \<times> 32 word \<Rightarrow> md5_state" where
  "table_step X = (\<lambda>(a, b, c, d) (f, k, s, t). (d, b + ROT_LEFT (a + f b c d + X ! k + t) s, b, c))"

lemma md5_shift_range: "0 < md5_shift i" "md5_shift i < 32"
proof -
  have "i mod 4 \<in> {0, 1, 2, 3}" by auto
  then show "0 < md5_shift i" "md5_shift i < 32" by (auto simp: md5_shift_def)
qed

lemma steps_table: "foldl (md5_step X) st [0..<64] = foldl (table_step X) st md5_table"
proof -
  have "md5_step X st i = table_step X st (md5_function i, md5_index i, md5_shift i, md5_T ! i)" for st i
    by (cases st) (simp add: md5_step_def table_step_def ROT_LEFT_rotl md5_shift_range)
  then have "foldl (md5_step X) st is = foldl (table_step X) st (map (\<lambda>i. (md5_function i, md5_index i, md5_shift i, md5_T ! i)) is)" for st "is"
    by (induction "is" arbitrary: st) simp_all
  from this [of st "[0..<64]"] show ?thesis unfolding md5_table_entries .
qed

text \<open>One step of the table, as the assignment it is in the code.\<close>

lemma table_step_let:
  "foldl (table_step X) (a, b, c, d) ((f, k, s, t) # ts) = (let x = b + ROT_LEFT (a + f b c d + X ! k + t) s in foldl (table_step X) (d, x, b, c) ts)"
  by (simp add: table_step_def)

lemma doTheRounds_compress: "doTheRounds X st = md5_compress X st"
proof -
  obtain a b c d where st: "st = (a, b, c, d)" by (cases st)
  have "md5_compress X st = (let a' = a in let b' = b in let c' = c in let d' = d in
      case foldl (table_step X) (a', b', c', d') md5_table of (a', b', c', d') \<Rightarrow> (a + a', b + b', c + c', d + d'))"
    by (simp add: st md5_compress_def steps_table)
  moreover have "(case Let v h of (a', b', c', d') \<Rightarrow> (a + a', b + b', c + c', d + d')) = (let x = v in case h x of (a', b', c', d') \<Rightarrow> (a + a', b + b', c + c', d + d'))"
    for v :: "32 word" and h :: "32 word \<Rightarrow> md5_state" by (simp add: Let_def)
  ultimately show ?thesis
    unfolding st doTheRounds_def md5_table_def prod.case by (simp only: table_step_let foldl_Nil prod.case)
qed


section \<open>The padded copy is the padded message\<close>

lemma bit_word_of_nat: "bit (of_nat m :: 'a::len word) k \<longleftrightarrow> k < LENGTH('a) \<and> bit m k"
  by transfer (simp add: bit_take_bit_iff bit_of_nat_iff_bit)

lemma bit_nat_unat: "bit (unat w) k = bit w k"
  by (simp add: bit_unsigned_iff)

lemma low_byte: "(ucast (x AND 0xFF) :: byte) = ucast (x :: 32 word)"
proof (rule bit_word_eqI)
  have m: "0xFF = (mask 8 :: 32 word)" by (simp add: mask_eq_exp_minus_1)
  show "bit (ucast (x AND 0xFF) :: byte) k = bit (ucast x :: byte) k" if "k < LENGTH(8)" for k
    using that unfolding m by (simp add: bit_unsigned_iff bit_and_iff bit_mask_iff)
qed

lemma low_bytes_bits: "low_bytes w = map (\<lambda>i. ucast (drop_bit (8 * i) w)) [0..<4]"
  by (simp add: low_bytes_def low_byte upt_rec)

lemma bit_count_bytes: "bit_count w = map (\<lambda>i. of_nat (8 * unat w div 256 ^ i)) [0..<8]"
proof -
  have bits: "bit (of_nat (8 * unat w div 256 ^ i) :: byte) k \<longleftrightarrow> k < 8 \<and> 3 \<le> 8 * i + k \<and> bit w (8 * i + k - 3)" for i k
  proof -
    have "8 * unat w div 256 ^ i = drop_bit (8 * i) (push_bit 3 (unat w))" proof -
      have "256 ^ i = (2::nat) ^ (8 * i)" by (simp add: power_mult)
      then show ?thesis by (simp add: drop_bit_eq_div push_bit_eq_mult mult.commute)
    qed
    then show ?thesis by (auto simp: bit_word_of_nat bit_drop_bit_eq bit_push_bit_iff bit_nat_unat)
  qed
  have low: "(ucast (drop_bit (8 * i) (push_bit 3 w)) :: byte) = of_nat (8 * unat w div 256 ^ i)" if "i < 4" for i
    by (rule bit_word_eqI) (use that in \<open>auto simp: bits bit_unsigned_iff bit_drop_bit_eq bit_push_bit_iff\<close>)
  have high: "(ucast (drop_bit (8 * i) (drop_bit 29 w)) :: byte) = of_nat (8 * unat w div 256 ^ (4 + i))" for i
  proof (rule bit_word_eqI)
    fix k assume k: "k < LENGTH(8)"
    have "8 * (4 + i) + k - 3 = 29 + (8 * i + k)" "3 \<le> 8 * (4 + i) + k" by simp_all
    then show "bit (ucast (drop_bit (8 * i) (drop_bit 29 w)) :: byte) k = bit (of_nat (8 * unat w div 256 ^ (4 + i)) :: byte) k"
      using k unfolding bits by (simp add: bit_unsigned_iff bit_drop_bit_eq add.assoc add.left_commute)
  qed
  have "map (\<lambda>i. of_nat (8 * unat w div 256 ^ i) :: byte) [0..<8] =
      map (\<lambda>i. of_nat (8 * unat w div 256 ^ i)) [0..<4] @ map (\<lambda>i. of_nat (8 * unat w div 256 ^ (4 + i))) [0..<4]"
    by (simp add: upt_rec)
  also have "\<dots> = low_bytes (push_bit 3 w) @ low_bytes (drop_bit 29 w)"
    unfolding low_bytes_bits high [symmetric] by (simp add: low [symmetric])
  finally show ?thesis by (simp add: bit_count_def)
qed

lemma zero_pad_bytes: "q + n \<le> length ret \<Longrightarrow> zero_pad ret q n = wr_bytes ret q (replicate n 0)"
proof (induction n arbitrary: ret q)
  case (Suc n)
  then show ?case
    by (simp add: wr_def wr_bytes_def upd_conv_take_nth_drop add.commute)
qed (simp add: wr_bytes_def)

lemma wr_each_bytes: "q + length bs \<le> length ret \<Longrightarrow> wr_each ret q bs = wr_bytes ret q bs"
proof (induction bs arbitrary: ret q)
  case (Cons b bs)
  then show ?case
    by (simp add: wr_def wr_bytes_def upd_conv_take_nth_drop add.commute)
qed (simp add: wr_bytes_def)

text \<open>Writes that follow each other fill the block from its start.\<close>

lemma wr_bytes_next:
  "length p = q \<Longrightarrow> q + length bs \<le> length p + length r \<Longrightarrow> wr_bytes (p @ r) q bs = Some ((p @ bs) @ drop (length bs) r)"
  by (simp add: wr_bytes_def)

lemma wr_next: "length p = q \<Longrightarrow> r \<noteq> [] \<Longrightarrow> wr (p @ r) q b = Some ((p @ [b]) @ tl r)"
  by (cases r) (simp_all add: wr_def list_update_append)

lemma padded_length: "length (md5_padded m) = 64 * (length (md5_padded m) div 64)" "length (md5_padded m) \<le> length m + 72"
proof -
  define q r where "q = length m div 64" and "r = length m mod 64"
  have r: "r < 64" "length m = 64 * q + r" by (simp_all add: q_def r_def)
  have l: "length (md5_padded m) = length m + 9 + (119 - r) mod 64" by (simp add: md5_padded_def r_def)
  have "(119 - r) mod 64 = (if r < 56 then 55 - r else 119 - r)" using r(1) by (simp add: mod_if)
  then have "length (md5_padded m) = 64 * (q + (if r < 56 then 1 else 2))" using r unfolding l r(2) by (cases "r < 56") simp_all
  then show "length (md5_padded m) = 64 * (length (md5_padded m) div 64)" by simp
  show "length (md5_padded m) \<le> length m + 72" using l mod_less_divisor [of 64 "119 - r"] by simp
qed

lemma createPaddedCopy:
  assumes "length m + 136 < 2 ^ 32"
  shows "createPaddedCopyWithLength (Some (m @ rest)) (of_nat (length m)) a =
    Some (if next_ok a then Some (md5_padded m) else None, of_nat (length (md5_padded m)), after_alloc a)"
proof -
  define n where "n = length m"
  define r where "r = n mod 64"
  have n: "n + 136 < 2 ^ 32" using assms by (simp add: n_def)
  have r: "r < 64" "r \<le> n" by (simp_all add: r_def)
  have un: "unat (of_nat k :: 32 word) = k" if "k < 2 ^ 32" for k using that by (simp add: unat_of_nat)
  have md: "of_nat n mod 64 = (of_nat r :: 32 word)"
    by (rule word_unat_eq_iff [THEN iffD2]) (use n r in \<open>simp add: unat_mod un r_def\<close>)
  define N0 where "N0 = n + 56 - r"
  define N where "N = (if r < 56 then N0 else N0 + 64)"
  have N0: "of_nat n + 64 - of_nat n mod 64 - 8 = (of_nat N0 :: 32 word)"
  proof -
    have "(of_nat N0 :: 32 word) = of_nat (n + 56) - of_nat r" unfolding N0_def using r by (intro of_nat_diff) simp
    then show ?thesis unfolding md by simp
  qed
  have le: "(of_nat N0 :: 32 word) \<le> of_nat n \<longleftrightarrow> \<not> r < 56"
  proof -
    have "N0 < 2 ^ 32" "n < 2 ^ 32" using n r by (simp_all add: N0_def)
    then show ?thesis unfolding word_le_nat_alt un [OF \<open>N0 < 2 ^ 32\<close>] un [OF \<open>n < 2 ^ 32\<close>] using r by (simp add: N0_def) linarith
  qed
  have N: "N < 2 ^ 32" "n + 1 \<le> N" "N + 8 < 2 ^ 32" using n r unfolding N_def N0_def by (cases "r < 56"; simp)+
  have pad: "N - (n + 1) = (119 - r) mod 64" using r by (auto simp: N_def N0_def mod_if)
  have len: "length (md5_padded m) = N + 8" using N(2) pad by (simp add: md5_padded_def n_def r_def)
  have nl: "(if (of_nat N0 :: 32 word) \<le> of_nat n then of_nat N0 + 64 else of_nat N0) = (of_nat N :: 32 word)" by (simp add: le N_def)
  have run: "createPaddedCopyWithLength (Some b) (of_nat (length m)) a = (case c_malloc a (unat (of_nat N + 8 :: 32 word)) of
      (None, a) \<Rightarrow> Some (None, of_nat N + 8, a)
    | (Some ret, a) \<Rightarrow> do {
        bs \<leftarrow> rd_bytes b 0 (unat (of_nat n :: 32 word));
        ret \<leftarrow> wr_bytes ret 0 bs;
        ret \<leftarrow> wr ret (unat (of_nat n :: 32 word)) 0x80;
        ret \<leftarrow> zero_pad ret (unat (of_nat n + 1 :: 32 word)) (unat (of_nat N :: 32 word) - unat (of_nat n + 1 :: 32 word));
        ret \<leftarrow> wr_each ret (unat (of_nat N :: 32 word)) (bit_count (of_nat n));
        Some (Some ret, of_nat N + 8, a)
      })" for b
    by (simp only: createPaddedCopyWithLength_def n_def [symmetric] Let_def option.distinct if_False N0 nl option.case)
      (simp split: prod.split option.split)
  show ?thesis
  proof (cases "next_ok a")
    case False
    then show ?thesis
      unfolding run by (simp add: c_malloc_def len)
  next
    case True
    have u: "unat (of_nat N + 8 :: 32 word) = N + 8" "unat (of_nat n :: 32 word) = n" "unat (of_nat n + 1 :: 32 word) = n + 1" "unat (of_nat N :: 32 word) = N"
      using un [of "N + 8"] un [of n] un [of "n + 1"] un [of N] N n by (simp_all add: add.commute)
    define B where "B = replicate (N + 8) (junk a)"
    have 1: "wr_bytes B 0 m = Some (m @ drop n B)" using N by (simp add: B_def wr_bytes_def n_def)
    have 2: "wr (m @ drop n B) n 0x80 = Some ((m @ [0x80]) @ drop (n + 1) B)"
      using wr_next [of m n "drop n B" "0x80"] N by (simp add: n_def B_def tl_drop [symmetric] drop_Suc [symmetric])
    have 3: "zero_pad ((m @ [0x80]) @ drop (n + 1) B) (n + 1) (N - (n + 1)) = Some ((m @ [0x80] @ replicate ((119 - r) mod 64) 0) @ drop N B)"
      using zero_pad_bytes [of "n + 1" "N - (n + 1)" "(m @ [0x80]) @ drop (n + 1) B"]
        wr_bytes_next [of "m @ [0x80]" "n + 1" "replicate (N - (n + 1)) 0" "drop (n + 1) B"] N
      by (simp add: n_def B_def pad [symmetric] del: append_assoc)
    have 4: "wr_each ((m @ [0x80] @ replicate ((119 - r) mod 64) 0) @ drop N B) N (bit_count (of_nat n)) = Some (md5_padded m)"
    proof -
      let ?p = "m @ [0x80] @ replicate ((119 - r) mod 64) 0"
      have p: "length ?p = N" using pad N(2) by (simp add: n_def)
      have c: "bit_count (of_nat n) = map (\<lambda>i. of_nat (8 * n div 256 ^ i)) [0..<8]" unfolding bit_count_bytes u(2) ..
      have "wr_each (?p @ drop N B) N (bit_count (of_nat n)) = Some ((?p @ bit_count (of_nat n)) @ drop 8 (drop N B))"
        using wr_each_bytes [of N "bit_count (of_nat n)" "?p @ drop N B"] wr_bytes_next [OF p, of "bit_count (of_nat n)" "drop N B"] p
        by (simp add: c B_def)
      moreover have "drop 8 (drop N B) = []" by (simp add: B_def)
      ultimately show ?thesis by (simp add: md5_padded_def c n_def [symmetric] r_def [symmetric])
    qed
    show ?thesis
      unfolding run using True 1 2 3 4
      by (simp add: c_malloc_def len u rd_bytes_def n_def [symmetric] B_def [symmetric])
  qed
qed



section \<open>The digest is that of RFC 1321\<close>

lemma or_is_plus: "push_bit 8 w OR ucast (b :: byte) = (ucast b + 256 * w :: 32 word)"
proof -
  have "\<not> bit (push_bit 8 w) n \<or> \<not> bit (ucast b :: 32 word) n" for n
    by (auto simp: bit_push_bit_iff bit_unsigned_iff dest: bit_imp_le_length)
  then have "push_bit 8 w OR ucast b = push_bit 8 w + (ucast b :: 32 word)" by (intro disjunctive_add [symmetric])
  then show ?thesis by (simp add: push_bit_eq_mult mult.commute)
qed

lemma load_word_value: "k + 4 \<le> length input \<Longrightarrow> load_word input k = Some (md5_word (take 4 (drop k input)))"
proof -
  assume k: "k + 4 \<le> length input"
  then have t: "take 4 (drop k input) = [input ! k, input ! (k + 1), input ! (k + 2), input ! (k + 3)]"
    by (intro nth_equalityI) (auto simp: less_Suc_eq numeral_eq_Suc)
  have "push_bit 8 0 OR ucast b = (ucast b :: 32 word)" for b :: byte by simp
  then show ?thesis using k unfolding t by (simp add: load_word_def rd_def md5_word_def or_is_plus)
qed

lemma load_words_values: "k + 4 * n \<le> length input \<Longrightarrow> load_words input k n = Some (map (\<lambda>i. md5_word (take 4 (drop (k + 4 * i) input))) [0..<n])"
proof (induction n arbitrary: k)
  case (Suc n)
  then have "load_words input (k + 4) n = Some (map (\<lambda>i. md5_word (take 4 (drop (k + 4 + 4 * i) input))) [0..<n])" by simp
  moreover have "load_word input k = Some (md5_word (take 4 (drop k input)))" using Suc.prems by (intro load_word_value) simp
  moreover have "map (\<lambda>i. md5_word (take 4 (drop (k + 4 * i) input))) [0..<Suc n] =
      md5_word (take 4 (drop k input)) # map (\<lambda>i. md5_word (take 4 (drop (k + 4 + 4 * i) input))) [0..<n]"
    by (simp add: upt_conv_Cons map_Suc_upt [symmetric] del: upt_Suc) (simp add: add_ac)
  ultimately show ?case by simp
qed simp

lemma digest_loop_blocks:
  assumes "length input = 64 * B" "64 * B + 64 < 2 ^ 32"
  shows "j \<le> B \<Longrightarrow> digest_loop input (of_nat (64 * j)) (of_nat (64 * B)) st = Some (md5_blocks (B - j) (drop (64 * j) input) st)"
proof (induction "B - j" arbitrary: j st)
  case 0
  have un: "unat (of_nat k :: 32 word) = k" if "k < 2 ^ 32" for k using that by (simp add: unat_of_nat)
  have "(of_nat (64 * j) + 64 :: 32 word) = of_nat (64 * B + 64)" using 0 by simp
  then have "of_nat (64 * j) + 64 > (of_nat (64 * B) :: 32 word)"
    unfolding word_less_nat_alt using un [of "64 * B + 64"] un [of "64 * B"] assms(2) by simp
  then show ?case using 0 by (simp add: digest_loop.simps)
next
  case (Suc n)
  have un: "unat (of_nat k :: 32 word) = k" if "k < 2 ^ 32" for k using that by (simp add: unat_of_nat)
  have j: "64 * j + 64 \<le> 64 * B" "n = B - (j + 1)" "j + 1 \<le> B" using Suc.hyps(2) by simp_all
  have e: "(of_nat (64 * j) + 64 :: 32 word) = of_nat (64 * (j + 1))" by simp
  have "\<not> of_nat (64 * (j + 1)) > (of_nat (64 * B) :: 32 word)"
    unfolding word_less_nat_alt using un [of "64 * (j + 1)"] un [of "64 * B"] assms(2) j(1) by simp
  moreover have "unat (of_nat (64 * j) :: 32 word) = 64 * j" using un [of "64 * j"] assms(2) j(1) by simp
  moreover have "load_words input (64 * j) 16 = Some (md5_words (take 64 (drop (64 * j) input)))"
  proof -
    have "take 4 (drop (64 * j + 4 * i) input) = take 4 (drop (4 * i) (take 64 (drop (64 * j) input)))" if "i < 16" for i
      using that by (simp add: drop_take take_take min_def add.commute)
    then show ?thesis using load_words_values [of "64 * j" 16 input] assms(1) j(1) by (simp add: md5_words_def)
  qed
  moreover have "digest_loop input (of_nat (64 * (j + 1))) (of_nat (64 * B)) (doTheRounds (md5_words (take 64 (drop (64 * j) input))) st) =
      Some (md5_blocks n (drop (64 * (j + 1)) input) (doTheRounds (md5_words (take 64 (drop (64 * j) input))) st))"
    using Suc.hyps(1) [OF j(2,3)] j(2) by simp
  moreover have "drop (64 * (j + 1)) input = drop 64 (drop (64 * j) input)" by (simp add: add.commute)
  ultimately show ?case
    unfolding digest_loop.simps [of input "of_nat (64 * j)"] Let_def e Suc.hyps(2) [symmetric]
    by (simp add: doTheRounds_compress)
qed

lemma hex_loop_text: "w + 2 * length b < length s \<Longrightarrow> hex_loop b w s = wr_bytes s w (hex_text b @ [0])"
proof (induction b arbitrary: w s)
  case Nil
  then show ?case by (simp add: wr_def wr_bytes_def hex_text_def upd_conv_take_nth_drop)
next
  case (Cons x b)
  let ?d = "c_bytes ''0123456789abcdef''"
  have d: "unat (drop_bit 4 x AND 0x0F) = unat x div 16" "unat (x AND 0x0F) = unat x mod 16"
  proof -
    have m: "0x0F = (mask 4 :: byte)" by (simp add: mask_eq_exp_minus_1)
    have "drop_bit 4 x AND mask 4 = drop_bit 4 x"
      by (rule bit_word_eqI) (auto simp: bit_and_iff bit_mask_iff bit_drop_bit_eq dest: bit_imp_le_length)
    then show "unat (drop_bit 4 x AND 0x0F) = unat x div 16" unfolding m by (simp add: drop_bit_eq_div unat_div)
    show "unat (x AND 0x0F) = unat x mod 16" unfolding m take_bit_eq_mask [symmetric] by (simp add: take_bit_eq_mod unat_mod)
  qed
  have l: "length ?d = 16" by (simp add: c_bytes_def)
  have "unat x < 2 ^ LENGTH(8)" by (rule unsigned_less)
  then have "unat x div 16 < 16" by simp
  then have r: "rd ?d (unat x div 16) = Some (?d ! (unat x div 16))" "rd ?d (unat x mod 16) = Some (?d ! (unat x mod 16))" by (simp_all add: rd_def l)
  define s' where "s' = s[w := ?d ! (unat x div 16), w + 1 := ?d ! (unat x mod 16)]"
  have "hex_loop b (w + 2) s' = wr_bytes s' (w + 2) (hex_text b @ [0])" by (rule Cons.IH) (use Cons.prems in \<open>simp add: s'_def\<close>)
  moreover have "take (w + 2) s' = take w s @ [?d ! (unat x div 16), ?d ! (unat x mod 16)]"
    using Cons.prems by (intro nth_equalityI) (auto simp: s'_def nth_append nth_list_update less_Suc_eq nth_Cons')
  moreover have "drop (w + 2 + (2 * length b + 1)) s' = drop (w + 2 + (2 * length b + 1)) s" by (simp add: s'_def)
  moreover have "length (hex_text b) = 2 * length b" for b by (induction b) (simp_all add: hex_text_def)
  ultimately show ?case
    using Cons.prems by (simp add: d r wr_def s'_def [symmetric]) (simp add: wr_bytes_def hex_text_def s'_def)
qed

lemma md5_length: "length (md5 m) = 16"
  by (simp add: md5_def split: prod.split)

lemma calculateDigest:
  assumes "length m + 136 < 2 ^ 32" "16 \<le> length s16"
  shows "calculateDigestFromBuffer (Some (m @ rest)) (of_nat (length m)) s16 a =
    Some (if next_ok a then (True, md5 m @ drop 16 s16, after_alloc a) else (False, s16, after_alloc a))"
proof -
  note pad = createPaddedCopy [OF assms(1), of rest a]
  define B where "B = length (md5_padded m) div 64"
  have len: "length (md5_padded m) = 64 * B" unfolding B_def by (rule padded_length(1))
  have "64 * B + 64 < 2 ^ 32" using padded_length(2) [of m] assms(1) len by simp
  from digest_loop_blocks [OF len this, of 0] have loop:
    "digest_loop (md5_padded m) 0 (of_nat (64 * B)) st = Some (md5_blocks B (md5_padded m) st)" for st by simp
  obtain s0 s1 s2 s3 where st: "md5_blocks B (md5_padded m) (0x67452301, 0xEFCDAB89, 0x98BADCFE, 0x10325476) = (s0, s1, s2, s3)" by (rule prod_cases4)
  have "concat (map low_bytes [s0, s1, s2, s3]) = md5 m"
    unfolding md5_def B_def [symmetric] st by (simp add: low_bytes_bits)
  moreover have "wr_each s16 0 (md5 m) = Some (md5 m @ drop 16 s16)"
    using wr_each_bytes [of 0 "md5 m" s16] assms(2) by (simp add: md5_length wr_bytes_def)
  ultimately show ?thesis unfolding calculateDigestFromBuffer_def pad len using loop st by simp
qed

lemma hash_text:
  assumes "length m + 136 < 2 ^ 32" "33 \<le> length hexsum"
  shows "pg_md5_hash (Some (m @ rest)) (of_nat (length m)) hexsum a =
    Some (if next_ok a then (True, hex_text (md5 m) @ [0] @ drop 33 hexsum, after_alloc a) else (False, hexsum, after_alloc a))"
proof -
  have h: "length (hex_text b) = 2 * length b" for b by (induction b) (simp_all add: hex_text_def)
  have "bytesToHex (md5 m) hexsum = Some (hex_text (md5 m) @ [0] @ drop 33 hexsum)"
    using hex_loop_text [of 0 "md5 m" hexsum] assms(2) by (simp add: bytesToHex_def md5_length wr_bytes_def h)
  then show ?thesis using calculateDigest [OF assms(1), of "replicate 16 (junk a)" rest a] by (simp add: pg_md5_hash_def)
qed

lemma encrypt_text:
  assumes "0 \<notin> set passwd" "salt_len \<le> length salt" "length passwd + salt_len + 136 < 2 ^ 32" "36 \<le> length buf"
  shows "pg_md5_encrypt (passwd @ 0 # r) salt salt_len buf a =
    Some (if \<not> next_ok a then (False, buf, after_alloc a)
      else if \<not> next_ok (after_alloc a) then (False, c_bytes ''md5'' @ 0 # drop 4 buf, after_alloc (after_alloc a))
      else (True, c_bytes ''md5'' @ hex_text (md5 (passwd @ take salt_len salt)) @ [0] @ drop 36 buf, after_alloc (after_alloc a)))"
proof (cases "next_ok a")
  case False
  then show ?thesis using assms(1) by (simp add: pg_md5_encrypt_def c_strlen_append c_malloc_def)
next
  case True
  let ?n = "length passwd" and ?s = "take salt_len salt"
  have sz: "szadd ?n salt_len = ?n + salt_len" "szadd (?n + salt_len) 1 = ?n + salt_len + 1" using assms(3) by (simp_all add: szadd_def)
  have 1: "wr_bytes (replicate (?n + salt_len + 1) (junk a)) 0 passwd = Some (passwd @ replicate (salt_len + 1) (junk a))"
    by (simp add: wr_bytes_def del: replicate_Suc)
  have 2: "wr_bytes (passwd @ replicate (salt_len + 1) (junk a)) ?n ?s = Some ((passwd @ ?s) @ [junk a])"
    using assms(2) wr_bytes_next [of passwd ?n ?s "replicate (salt_len + 1) (junk a)"] by (simp del: replicate_Suc) simp
  have 3: "wr_bytes buf 0 (c_bytes ''md5'' @ [0]) = Some (c_bytes ''md5'' @ 0 # drop 4 buf)" using assms(4) by (simp add: wr_bytes_def c_bytes_def numeral_eq_Suc)
  have d: "drop 3 (c_bytes ''md5'' @ 0 # drop 4 buf) = 0 # drop 4 buf" "take 3 (c_bytes ''md5'' @ 0 # drop 4 buf) = c_bytes ''md5''"
    by (simp_all add: c_bytes_def)
  have l: "length (passwd @ ?s) = ?n + salt_len" using assms(2) by simp
  have "33 \<le> length (0 # drop 4 buf)" using assms(4) by simp
  from hash_text [OF _ this, of "passwd @ ?s" "[junk a]" "after_alloc a"] assms(3)
  have 4: "pg_md5_hash (Some ((passwd @ ?s) @ [junk a])) (of_nat (?n + salt_len)) (0 # drop 4 buf) (after_alloc a) =
      Some (if next_ok (after_alloc a) then (True, hex_text (md5 (passwd @ ?s)) @ [0] @ drop 36 buf, after_alloc (after_alloc a))
        else (False, 0 # drop 4 buf, after_alloc (after_alloc a)))" unfolding l by simp
  show ?thesis
    unfolding pg_md5_encrypt_def c_strlen_append [OF assms(1)] using True assms(2) 1 2 3 4 d sz
    by (simp add: c_malloc_def rd_bytes_def numeral_eq_Suc del: append_assoc)
qed


section \<open>A known digest\<close>

lemma table_step_eq: "table_step X (a, b, c, d) (f, k, s, t) = (d, b + ROT_LEFT (a + f b c d + X ! k + t) s, b, c)"
  by (simp add: table_step_def)

lemmas step_defs = table_step_eq ROT_LEFT_def MD5_F_def MD5_G_def MD5_H_def MD5_I_def

lemma md5_abc: "md5 [0x61, 0x62, 0x63] =
    [0x90, 0x01, 0x50, 0x98, 0x3c, 0xd2, 0x4f, 0xb0, 0xd6, 0x96, 0x3f, 0x7d, 0x28, 0xe1, 0x7f, 0x72]"
proof -
  let ?X = "[0x80636261, 0, 0, 0, 0, 0, 0, 0, 0, 0, 0, 0, 0, 0, 24, 0] :: 32 word list"
  have r: "replicate 52 (0 :: byte) = [0, 0, 0, 0, 0, 0, 0, 0, 0, 0, 0, 0, 0, 0, 0, 0, 0, 0, 0, 0, 0, 0, 0, 0, 0, 0, 0, 0, 0, 0, 0, 0, 0, 0, 0, 0, 0, 0, 0, 0, 0, 0, 0, 0,
      0, 0, 0, 0, 0, 0, 0, 0]" by (rule replicate_eqI [symmetric]) auto
  have p: "md5_padded [0x61, 0x62, 0x63] = [0x61, 0x62, 0x63, 0x80] @ replicate 52 0 @ [24, 0, 0, 0, 0, 0, 0, 0]"
    by (simp add: md5_padded_def upt_rec)
  have w: "md5_words (md5_padded [0x61, 0x62, 0x63]) = ?X"
    unfolding p r by (simp add: md5_words_def upt_rec md5_word_def)
  have t: "foldl (table_step ?X) s md5_table = foldl (table_step ?X) (foldl (table_step ?X) (foldl (table_step ?X) (foldl (table_step ?X) s
      (take 16 md5_table)) (take 16 (drop 16 md5_table))) (take 16 (drop 32 md5_table))) (drop 48 md5_table)" for s
    by (simp add: md5_table_def)
  have 1: "foldl (table_step ?X) (0x67452301, 0xefcdab89, 0x98badcfe, 0x10325476) (take 16 md5_table) =
      (0xdda9b9a6, 0x72aff2e0, 0xe396856b, 0xa1051895)" by (simp add: md5_table_def step_defs)
  have 2: "foldl (table_step ?X) (0xdda9b9a6, 0x72aff2e0, 0xe396856b, 0xa1051895) (take 16 (drop 16 md5_table)) =
      (0x790a77fb, 0x726342d3, 0xa62884aa, 0x9f47e4f8)" by (simp add: md5_table_def step_defs)
  have 3: "foldl (table_step ?X) (0x790a77fb, 0x726342d3, 0xa62884aa, 0x9f47e4f8) (take 16 (drop 32 md5_table)) =
      (0x7f2e507b, 0x7beb9700, 0x8fae6399, 0x99d9679d)" by (simp add: md5_table_def step_defs)
  have 4: "foldl (table_step ?X) (0x7f2e507b, 0x7beb9700, 0x8fae6399, 0x99d9679d) (drop 48 md5_table) =
      (0x310ade8f, 0xc08226b3, 0xe484b9d8, 0x624d8cb2)" by (simp add: md5_table_def step_defs)
  have c: "md5_compress ?X (0x67452301, 0xefcdab89, 0x98badcfe, 0x10325476) = (0x98500190, 0xb04fd23c, 0x7d3f96d6, 0x727fe128)"
    unfolding md5_compress_def steps_table prod.case t 1 2 3 4 by simp
  have l: "length (md5_padded [0x61, 0x62, 0x63]) = 64" by (simp add: p)
  show ?thesis using w c by (simp add: md5_def l upt_rec)
qed

end
