(* ===== verification/Auth.thy ===== *)
theory Auth
  imports Md5 FastCall
begin

text \<open>
  Authentication: \<open>fe-auth.c\<close> as far as it is not Kerberos, and \<open>pqPacketSend\<close> of \<open>fe-connect.c\<close>.

  The library is configured with Kerberos 5 and without GSSAPI, SSPI and \<open>struct cmsgcred\<close>. The Kerberos exchange \<open>pg_krb5_sendauth\<close> is made of calls of that
  library; it is the parameter \<open>krb5\<close>. User name and password are C strings, held without the terminator; the outer \<open>None\<close> is undefined behaviour.
\<close>

section \<open>Packets\<close>

definition STATUS_OK :: int where "STATUS_OK = 0"
definition STATUS_ERROR :: int where "STATUS_ERROR = - 1"

definition pqPacketSend :: "pg_conn \<Rightarrow> byte \<Rightarrow> byte list \<Rightarrow> (int \<times> pg_conn) option" where
  "pqPacketSend conn pack_type buf = do {
     (r, conn) \<leftarrow> put_all [pqPutMsgStart pack_type True, pqPutnchar buf, pqPutMsgEnd, pqFlush] conn;
     Some (if r \<noteq> 0 then STATUS_ERROR else STATUS_OK, conn)
   }"


section \<open>Passwords\<close>

definition AUTH_REQ_OK :: int where "AUTH_REQ_OK = 0"
definition AUTH_REQ_KRB4 :: int where "AUTH_REQ_KRB4 = 1"
definition AUTH_REQ_KRB5 :: int where "AUTH_REQ_KRB5 = 2"
definition AUTH_REQ_PASSWORD :: int where "AUTH_REQ_PASSWORD = 3"
definition AUTH_REQ_CRYPT :: int where "AUTH_REQ_CRYPT = 4"
definition AUTH_REQ_MD5 :: int where "AUTH_REQ_MD5 = 5"
definition AUTH_REQ_SCM_CREDS :: int where "AUTH_REQ_SCM_CREDS = 6"
definition AUTH_REQ_GSS :: int where "AUTH_REQ_GSS = 7"
definition AUTH_REQ_GSS_CONT :: int where "AUTH_REQ_GSS_CONT = 8"
definition AUTH_REQ_SSPI :: int where "AUTH_REQ_SSPI = 9"

lemmas auth_requests = AUTH_REQ_OK_def AUTH_REQ_KRB4_def AUTH_REQ_KRB5_def AUTH_REQ_PASSWORD_def AUTH_REQ_CRYPT_def AUTH_REQ_MD5_def
  AUTH_REQ_SCM_CREDS_def AUTH_REQ_GSS_def AUTH_REQ_GSS_CONT_def AUTH_REQ_SSPI_def

definition MD5_PASSWD_LEN :: nat where "MD5_PASSWD_LEN = 35"

text \<open>The two digests: the block holds the answer in its first half and the digest of password and user in its second. \<open>pg_md5_encrypt\<close> copies
  its password before it writes, so the second call reads the block as it is before. \<open>None\<close>: one of the calls has failed.\<close>

definition md5_answer :: "byte list \<Rightarrow> byte list \<Rightarrow> byte list \<Rightarrow> byte list \<Rightarrow> alloc \<Rightarrow> (byte list option \<times> alloc) option" where
  "md5_answer password user salt crypt_pwd a = do {
     (ok, crypt_pwd2, a) \<leftarrow> pg_md5_encrypt (password @ [0]) (user @ [0]) (length user) (drop (MD5_PASSWD_LEN + 1) crypt_pwd) a;
     if \<not> ok then Some (None, a)
     else do {
       let crypt_pwd = take (MD5_PASSWD_LEN + 1) crypt_pwd @ crypt_pwd2;
       (ok, crypt_pwd, a) \<leftarrow> pg_md5_encrypt (drop (MD5_PASSWD_LEN + 1 + 3) crypt_pwd) salt 4 crypt_pwd a;
       Some (if ok then Some crypt_pwd else None, a)
     }
   }"

definition pg_password_sendauth :: "pg_conn \<Rightarrow> byte list \<Rightarrow> int \<Rightarrow> (int \<times> pg_conn) option" where
  "pg_password_sendauth conn password areq = do {
     (crypt_pwd, conn) \<leftarrow>
       (if areq = AUTH_REQ_MD5 then do {
          let (block, a) = c_malloc (e_alloc (env conn)) (2 * (MD5_PASSWD_LEN + 1));
          let conn = set_alloc a conn;
          case block of
            None \<Rightarrow> do { conn \<leftarrow> printf_error conn (lit ''out of memory'' @ [0x0A]); Some (None, conn) }
          | Some block \<Rightarrow> do {
              user \<leftarrow> pguser conn;
              (crypt_pwd, a) \<leftarrow> md5_answer password user (md5Salt conn) block a;
              Some (crypt_pwd, set_alloc a conn)
            }
        }
        else if areq = AUTH_REQ_PASSWORD then Some (Some (password @ [0]), conn)
        else Some (None, conn));
     case crypt_pwd of
       None \<Rightarrow> Some (STATUS_ERROR, conn)
     | Some crypt_pwd \<Rightarrow> do {
         n \<leftarrow> c_strlen crypt_pwd;
         pqPacketSend conn (if PG_PROTOCOL_MAJOR (pversion conn) \<ge> 3 then 0x70 else 0) (take (n + 1) crypt_pwd)
       }
   }"

definition pg_local_sendauth :: "pg_conn \<Rightarrow> (int \<times> pg_conn) option" where
  "pg_local_sendauth conn = refuse STATUS_ERROR conn (lit ''SCM_CRED authentication method not supported'')"

definition pg_fe_sendauth :: "(pg_conn \<Rightarrow> (int \<times> pg_conn) option) \<Rightarrow> int \<Rightarrow> pg_conn \<Rightarrow> (int \<times> pg_conn) option" where
  "pg_fe_sendauth krb5 areq conn =
     (if areq = AUTH_REQ_OK then Some (STATUS_OK, conn)
      else if areq = AUTH_REQ_KRB4 then refuse STATUS_ERROR conn (lit ''Kerberos 4 authentication not supported'')
      else if areq = AUTH_REQ_KRB5 then do {
        (r, conn) \<leftarrow> krb5 conn;
        Some (if r \<noteq> STATUS_OK then STATUS_ERROR else STATUS_OK, conn)
      }
      else if areq = AUTH_REQ_GSS \<or> areq = AUTH_REQ_GSS_CONT then refuse STATUS_ERROR conn (lit ''GSSAPI authentication not supported'')
      else if areq = AUTH_REQ_SSPI then refuse STATUS_ERROR conn (lit ''SSPI authentication not supported'')
      else if areq = AUTH_REQ_CRYPT then refuse STATUS_ERROR conn (lit ''Crypt authentication not supported'')
      else if areq = AUTH_REQ_MD5 \<or> areq = AUTH_REQ_PASSWORD then do {
        let conn = conn\<lparr>password_needed := True\<rparr>;
        if pgpass conn = None \<or> pgpass conn = Some [] then refuse STATUS_ERROR conn (lit ''fe_sendauth: no password supplied'')
        else do {
          password \<leftarrow> pgpass conn;
          (r, conn) \<leftarrow> pg_password_sendauth conn password areq;
          if r \<noteq> STATUS_OK then refuse STATUS_ERROR conn (lit ''fe_sendauth: error sending password authentication'')
          else Some (STATUS_OK, conn)
        }
      }
      else if areq = AUTH_REQ_SCM_CREDS then do {
        (r, conn) \<leftarrow> pg_local_sendauth conn;
        Some (if r \<noteq> STATUS_OK then STATUS_ERROR else STATUS_OK, conn)
      }
      else refuse STATUS_ERROR conn (lit ''authentication method '' @ show_nat (nat areq) @ lit '' not supported''))"

text \<open>\<open>NULL\<close> for lack of memory.\<close>

definition PQencryptPassword :: "byte list \<Rightarrow> byte list \<Rightarrow> alloc \<Rightarrow> (byte list option \<times> alloc) option" where
  "PQencryptPassword passwd user a = do {
     let (crypt_pwd, a) = c_malloc a (MD5_PASSWD_LEN + 1);
     case crypt_pwd of
       None \<Rightarrow> Some (None, a)
     | Some crypt_pwd \<Rightarrow> do {
         (ok, crypt_pwd, a) \<leftarrow> pg_md5_encrypt (passwd @ [0]) (user @ [0]) (length user) crypt_pwd a;
         Some (if ok then Some crypt_pwd else None, a)
       }
   }"


section \<open>The server's side\<close>

text \<open>What a server stores for a user, and how it checks the answer to its salt (\<open>md5_crypt_verify\<close> of the backend).\<close>

definition md5_crypt :: "byte list \<Rightarrow> byte list \<Rightarrow> byte list" where
  "md5_crypt secret salt = lit ''md5'' @ hex_text (md5 (secret @ salt))"

definition server_accepts :: "byte list \<Rightarrow> byte list \<Rightarrow> byte list \<Rightarrow> bool" where
  "server_accepts secret salt answer \<longleftrightarrow> answer = md5_crypt (drop 3 secret) salt"


section \<open>The answer\<close>

lemma hex_text_no_nul: "0 \<notin> set (hex_text b)"
proof -
  let ?d = "c_bytes ''0123456789abcdef''"
  have "length ?d = 16" "0 \<notin> set ?d" by (simp_all add: c_bytes_def)
  moreover have "unat x div 16 < 16" for x :: byte
  proof -
    have "unat x < 2 ^ LENGTH(8)" by (rule unsigned_less)
    then show ?thesis by simp
  qed
  ultimately have "?d ! (unat x div 16) \<noteq> 0" "?d ! (unat x mod 16) \<noteq> 0" for x :: byte
    by (metis nth_mem, metis nth_mem mod_less_divisor zero_less_numeral)
  then show ?thesis by (auto simp: hex_text_def)
qed

lemma hex_text_length: "length (hex_text b) = 2 * length b"
  by (induction b) (simp_all add: hex_text_def)

lemma md5_crypt_text: "length (md5_crypt p s) = 35" "0 \<notin> set (md5_crypt p s)" "drop 3 (md5_crypt p s) = hex_text (md5 (p @ s))"
  using hex_text_no_nul by (simp_all add: md5_crypt_def c_bytes_def hex_text_length md5_length)

lemma encrypt_plenty:
  assumes "plenty a" "0 \<notin> set passwd" "salt_len \<le> length salt" "length passwd + salt_len + 136 < 2 ^ 32" "36 \<le> length buf"
  shows "pg_md5_encrypt (passwd @ 0 # r) salt salt_len buf a = Some (True, md5_crypt passwd (take salt_len salt) @ [0] @ drop 36 buf, a)"
  using encrypt_text [OF assms(2-5), of r a] assms(1) by (simp add: md5_crypt_def)

lemma md5_answer_plenty:
  assumes "plenty a" "0 \<notin> set password" "length password + length user + 136 < 2 ^ 32" "length salt = 4" "length block = 72"
  shows "\<exists>rest. md5_answer password user salt block a = Some (Some (md5_crypt (drop 3 (md5_crypt password user)) salt @ 0 # rest), a)"
proof -
  let ?h = "hex_text (md5 (password @ user))"
  have 1: "pg_md5_encrypt (password @ [0]) (user @ [0]) (length user) (drop 36 block) a = Some (True, md5_crypt password user @ [0], a)"
    using encrypt_plenty [OF assms(1,2), of "length user" "user @ [0]" "drop 36 block" "[]"] assms(3,5) by simp
  define B where "B = take 36 block @ md5_crypt password user @ [0]"
  have d: "drop 39 B = ?h @ 0 # []" "length B = 72" using assms(5) md5_crypt_text(1,3) by (simp_all add: B_def)
  have 2: "pg_md5_encrypt (?h @ 0 # []) salt 4 B a = Some (True, md5_crypt ?h (take 4 salt) @ [0] @ drop 36 B, a)"
    by (rule encrypt_plenty [OF assms(1) hex_text_no_nul]) (use assms(4) d(2) in \<open>simp_all add: hex_text_length md5_length\<close>)
  have "md5_answer password user salt block a =
      Option.bind (pg_md5_encrypt (drop 39 B) salt 4 B a) (\<lambda>(ok, crypt_pwd, a). Some (if ok then Some crypt_pwd else None, a))"
    using 1 by (simp add: md5_answer_def MD5_PASSWD_LEN_def B_def Let_def del: drop_append)
  then show ?thesis using 2 assms(4) md5_crypt_text(3) [of password user] by (simp add: d(1))
qed


section \<open>Sending it\<close>

lemma start_forced: "PG_PROTOCOL_MAJOR (pversion c) \<ge> 3 \<Longrightarrow> pqPutMsgStart t True c = pqPutMsgStart t False c"
  by (simp add: pqPutMsgStart_def)

text \<open>A connection on which a message can go out at once, whatever its state: nothing waits, the socket is open and takes all, memory is there.\<close>

definition can_send :: "pg_conn \<Rightarrow> bool" where
  "can_send c \<longleftrightarrow> conn_ok c \<and> plenty (e_alloc (env c)) \<and> 0 \<le> sock c \<and> outCount c = 0 \<and> e_send (env c) = [] \<and> PG_PROTOCOL_MAJOR (pversion c) \<ge> 3"

lemma packet_sent:
  assumes "can_send c" "t \<noteq> 0" "length (client_message t bs) < 2 ^ 30"
  obtains c' where "pqPacketSend c t bs = Some (STATUS_OK, c')" "can_send c'" "inward c c'" "through c c'"
    "e_sent (env c') = e_sent (env c) @ client_message t bs"
proof -
  have g: "conn_ok c" "plenty (e_alloc (env c))" "0 \<le> sock c" "outCount c = 0" "e_send (env c) = []" "PG_PROTOCOL_MAJOR (pversion c) \<ge> 3"
    using assms(1) by (simp_all add: can_send_def)
  have "length bs < 2 ^ 31" using assms(3) by (simp add: client_message_def)
  then have w: "list_all2 sure_writer [pqPutnchar bs] [bs]" using sure_block by simp
  obtain r1 c1 where 1: "put_all (pqPutMsgStart t False # [pqPutnchar bs] @ [pqPutMsgEnd]) c = Some (r1, c1)" "conn_ok c1" "through c c1"
    "if r1 = 0 then e_sent (env c1) @ pending c1 = e_sent (env c) @ pending c @ client_message t (concat [bs])
       else r1 = EOF \<and> (\<exists>k. e_sent (env c1) = e_sent (env c) @ take k (pending c @ client_message t (concat [bs])))"
    using message_sender.sends [OF message_parts [OF sure_parts [OF w] assms(2)] g(1,6)] by blast
  have "outCount c + int (length (concat [bs])) \<le> 2147475000" using assms(3) g(4) unfolding client_message_def by simp
  note p1 = sure_message [OF w 1(1) g(1,2,3,5) this]
  obtain k c2 where 2: "pqFlush c1 = Some (k, c2)" "send_answer c1 (length (pending c1)) k c2" using pqFlush_spec [OF 1(2)] by blast
  have i: "0 \<le> sock c1" "e_send (env c1) = []" using p1(2) g(3,5) by (simp_all add: inward_def)
  note p2 = flush_plenty [OF 2(1) 1(2) i]
  have t: "through c c2" using through_trans [OF 1(3)] pqFlush_through [OF 2(1) 1(2)] by blast
  have in2: "inward c c2" by (rule inward_trans [OF p1(2) p2(2)])
  have "pending c = []" "pending c2 = []" using g(4) p2(3) by (simp_all add: pending_def)
  then have e: "e_sent (env c2) = e_sent (env c) @ client_message t bs" using 1(4) 2(2) p1(1) p2(1) by (auto simp: send_answer_def sent_out_def)
  have "only_io c c2" using t by (simp add: through_def)
  then have "pversion c2 = pversion c" by (rule only_io_fields(5))
  moreover have "conn_ok c2" using 2(2) by (simp add: send_answer_def)
  ultimately have c2: "can_send c2" using in2 p2(3) g by (simp add: can_send_def inward_def)
  have "put_all ([pqPutMsgStart t False, pqPutnchar bs, pqPutMsgEnd] @ [pqFlush]) c = Some (0, c2)"
    unfolding put_all_append using 1(1) p1(1) 2(1) p2(1) by simp
  then have "pqPacketSend c t bs = Some (STATUS_OK, c2)" by (simp add: pqPacketSend_def start_forced [OF g(6)])
  then show thesis using that c2 in2 t e by blast
qed

lemma can_send_needed [simp]: "can_send (c\<lparr>password_needed := b\<rparr>) = can_send c"
  by (simp add: can_send_def conn_ok_def in_ok_def out_ok_def)

lemma set_same_alloc [simp]: "set_alloc (e_alloc (env c)) c = c"
  by (simp add: set_alloc_def)

lemma password_sent:
  assumes "can_send c" "pgpass c = Some password" "password \<noteq> []" "0 \<notin> set password"
    and "areq = AUTH_REQ_PASSWORD \<and> answer = password \<or>
      areq = AUTH_REQ_MD5 \<and> pguser c = Some user \<and> length user < 2 ^ 30 \<and> length (md5Salt c) = 4 \<and> answer = md5_crypt (drop 3 (md5_crypt password user)) (md5Salt c)"
    and "length password < 2 ^ 29"
  obtains c' where "pg_fe_sendauth krb5 areq c = Some (STATUS_OK, c')" "can_send c'" "e_sent (env c') = e_sent (env c) @ client_message 0x70 (answer @ [0])"
proof -
  let ?c = "c\<lparr>password_needed := True\<rparr>"
  have g: "can_send ?c" using assms(1) by simp
  have v: "PG_PROTOCOL_MAJOR (pversion c) \<ge> 3" and pl: "plenty (e_alloc (env c))" using assms(1) by (simp_all add: can_send_def)
  have a: "0 \<notin> set answer" "length answer < 2 ^ 29" using assms(4-6) md5_crypt_text by auto
  obtain c' where c': "pqPacketSend ?c 0x70 (answer @ [0]) = Some (STATUS_OK, c')" "can_send c'"
    "e_sent (env c') = e_sent (env ?c) @ client_message 0x70 (answer @ [0])"
    by (rule packet_sent [OF g, of "0x70" "answer @ [0]"]) (use a(2) in \<open>simp_all add: client_message_def\<close>)
  have "pg_password_sendauth ?c password areq = pqPacketSend ?c 0x70 (answer @ [0])"
  proof (cases "areq = AUTH_REQ_MD5")
    case False
    then have "areq = AUTH_REQ_PASSWORD" "answer = password" using assms(5) by auto
    moreover have "c_strlen (password @ [0]) = Some (length password)" using c_strlen_append [OF assms(4), of "[]"] by simp
    ultimately show ?thesis using v by (simp add: pg_password_sendauth_def auth_requests)
  next
    case True
    then have m: "pguser c = Some user" "length user < 2 ^ 30" "length (md5Salt c) = 4" "answer = md5_crypt (drop 3 (md5_crypt password user)) (md5Salt c)"
      using assms(5) by (auto simp: auth_requests)
    obtain block where b: "c_malloc (e_alloc (env c)) 72 = (Some block, e_alloc (env c))" "length block = 72" using c_malloc_plenty [OF pl] by blast
    obtain rest where r: "md5_answer password user (md5Salt c) block (e_alloc (env c)) = Some (Some (answer @ 0 # rest), e_alloc (env c))"
      using md5_answer_plenty [OF pl assms(4) _ m(3) b(2), of user] m(2,4) assms(6) by auto
    have e: "set_alloc (e_alloc (env c)) ?c = ?c" by (simp add: set_alloc_def)
    show ?thesis using True v b(1) r m(1) e c_strlen_append [OF a(1), of rest] by (simp add: pg_password_sendauth_def MD5_PASSWD_LEN_def)
  qed
  moreover have "areq = AUTH_REQ_MD5 \<or> areq = AUTH_REQ_PASSWORD" using assms(5) by auto
  ultimately have "pg_fe_sendauth krb5 areq c = Some (STATUS_OK, c')"
    using assms(2,3) c'(1) unfolding pg_fe_sendauth_def by (auto simp: auth_requests)
  then show thesis using that c'(2,3) by simp
qed

lemma encrypted_password:
  assumes "plenty a" "0 \<notin> set passwd" "length passwd + length user + 136 < 2 ^ 32"
  shows "PQencryptPassword passwd user a = Some (Some (md5_crypt passwd user @ [0]), a)"
proof -
  obtain block where b: "c_malloc a 36 = (Some block, a)" "length block = 36" using c_malloc_plenty [OF assms(1)] by blast
  show ?thesis
    using encrypt_plenty [OF assms(1,2), of "length user" "user @ [0]" block "[]"] assms(3) b by (simp add: PQencryptPassword_def MD5_PASSWD_LEN_def)
qed

end
