(* ===== verification/Startup.thy ===== *)
theory Startup
  imports FeMisc
begin

text \<open>
  The start-up packet: \<open>pqBuildStartupPacket3\<close> and \<open>build_startup_packet\<close> of \<open>fe-protocol3.c\<close>, with the table of environment variables in \<open>fe-connect.c\<close>.

  The settings of the connection are C strings, held without the terminator; the environment is a function \<open>getenv\<close>. The packet is memory that is written by
  position, or nothing in the pass that only counts; the outer \<open>None\<close> is a write outside of it.
\<close>

section \<open>The packet\<close>

type_synonym packet_state = "byte list option \<times> int"

definition EnvironmentOptions :: "(byte list \<times> byte list) list" where
  "EnvironmentOptions = [(lit ''PGDATESTYLE'', lit ''datestyle''), (lit ''PGTZ'', lit ''timezone''), (lit ''PGGEQO'', lit ''geqo'')]"

text \<open>\<open>if (packet) memcpy(packet + packet_len, bs); packet_len += \<dots>\<close>.\<close>

definition put_packet :: "byte list \<Rightarrow> packet_state \<Rightarrow> packet_state option" where
  "put_packet bs = (\<lambda>(packet, packet_len). do {
     packet \<leftarrow> (case packet of
       None \<Rightarrow> Some None
     | Some p \<Rightarrow> if packet_len < 0 then None else map_option Some (wr_bytes p (nat packet_len) bs));
     Some (packet, wrap32 (packet_len + int (length bs)))
   })"

definition ADD_STARTUP_OPTION :: "byte list \<Rightarrow> byte list \<Rightarrow> packet_state \<Rightarrow> packet_state option" where
  "ADD_STARTUP_OPTION optname optval st = do { st \<leftarrow> put_packet (optname @ [0]) st; put_packet (optval @ [0]) st }"

text \<open>\<open>if (val && val[0])\<close>.\<close>

definition add_setting :: "byte list \<Rightarrow> byte list option \<Rightarrow> packet_state \<Rightarrow> packet_state option" where
  "add_setting optname val st = (if val = None \<or> val = Some [] then Some st else do { v \<leftarrow> val; ADD_STARTUP_OPTION optname v st })"

fun add_environment :: "ctype \<Rightarrow> (byte list \<Rightarrow> byte list option) \<Rightarrow> (byte list \<times> byte list) list \<Rightarrow> packet_state \<Rightarrow> packet_state option" where
  "add_environment ct getenv [] st = Some st"
| "add_environment ct getenv ((envName, pgName) # eos) st = do {
     st \<leftarrow> (case getenv envName of
       None \<Rightarrow> Some st
     | Some val \<Rightarrow> do {
         c \<leftarrow> pg_strcasecmp ct (val @ [0]) (lit ''default'' @ [0]);
         if c \<noteq> 0 then ADD_STARTUP_OPTION pgName val st else Some st
       });
     add_environment ct getenv eos st
   }"

definition build_startup_packet :: "pg_conn \<Rightarrow> byte list option \<Rightarrow> (byte list \<Rightarrow> byte list option) \<Rightarrow> packet_state option" where
  "build_startup_packet conn packet getenv = do {
     st \<leftarrow> put_packet (be_bytes 4 (uint (pversion conn))) (packet, 0);
     st \<leftarrow> add_setting (lit ''user'') (pguser conn) st;
     st \<leftarrow> add_setting (lit ''database'') (dbName conn) st;
     st \<leftarrow> add_setting (lit ''replication'') (replication conn) st;
     st \<leftarrow> add_setting (lit ''options'') (pgoptions conn) st;
     st \<leftarrow> (if send_appname conn
       then add_setting (lit ''application_name'') (if appname conn \<noteq> None then appname conn else fbappname conn) st else Some st);
     st \<leftarrow> add_setting (lit ''client_encoding'') (client_encoding_initial conn) st;
     st \<leftarrow> add_environment (e_ctype (env conn)) getenv EnvironmentOptions st;
     put_packet [0] st
   }"

text \<open>The packet, or nothing for lack of memory, and its length.\<close>

definition pqBuildStartupPacket3 :: "pg_conn \<Rightarrow> (byte list \<Rightarrow> byte list option) \<Rightarrow> (byte list option \<times> int \<times> pg_conn) option" where
  "pqBuildStartupPacket3 conn getenv = do {
     (packet, packetlen) \<leftarrow> build_startup_packet conn None getenv;
     let (startpacket, a) = c_malloc (e_alloc (env conn)) (nat (packetlen mod 2 ^ 32));
     let conn = set_alloc a conn;
     case startpacket of
       None \<Rightarrow> Some (None, packetlen, conn)
     | Some startpacket \<Rightarrow> do {
         (startpacket, packetlen) \<leftarrow> build_startup_packet conn (Some startpacket) getenv;
         Some (startpacket, packetlen, conn)
       }
   }"


section \<open>What the server reads\<close>

text \<open>The settings of the connection that are in force, and those of the environment.\<close>

definition setting :: "byte list \<Rightarrow> byte list option \<Rightarrow> (byte list \<times> byte list) list" where
  "setting name val = (case val of Some (b # v) \<Rightarrow> [(name, b # v)] | _ \<Rightarrow> [])"

definition environment_settings :: "ctype \<Rightarrow> (byte list \<Rightarrow> byte list option) \<Rightarrow> (byte list \<times> byte list) list \<Rightarrow> (byte list \<times> byte list) list" where
  "environment_settings ct getenv eos = concat (map (\<lambda>(envName, pgName). case getenv envName of
     None \<Rightarrow> []
   | Some val \<Rightarrow> if map (pg_tolower ct) val = lit ''default'' then [] else [(pgName, val)]) eos)"

definition startup_settings :: "pg_conn \<Rightarrow> (byte list \<Rightarrow> byte list option) \<Rightarrow> (byte list \<times> byte list) list" where
  "startup_settings conn getenv =
     setting (lit ''user'') (pguser conn) @ setting (lit ''database'') (dbName conn) @ setting (lit ''replication'') (replication conn) @
     setting (lit ''options'') (pgoptions conn) @
     (if send_appname conn then setting (lit ''application_name'') (if appname conn \<noteq> None then appname conn else fbappname conn) else []) @
     setting (lit ''client_encoding'') (client_encoding_initial conn) @ environment_settings (e_ctype (env conn)) getenv EnvironmentOptions"

text \<open>The loop of the server over the options of a packet: names and values up to an empty name, which has to be the last byte.\<close>

function read_settings :: "byte list \<Rightarrow> (byte list \<times> byte list) list option" where
  "read_settings bs =
     (let name = c_str bs; rest = drop (length name + 1) bs; val = c_str rest in
      if bs = [] then None
      else if name = [] then (if tl bs = [] then Some [] else None)
      else if 0 \<notin> set bs \<or> 0 \<notin> set rest then None
      else map_option (\<lambda>opts. (name, val) # opts) (read_settings (drop (length val + 1) rest)))"
  by pat_completeness auto
termination by (relation "measure length") auto

declare read_settings.simps [simp del]


section \<open>Writers that count\<close>

text \<open>A step of the construction writes the same bytes in both passes, and counts them.\<close>

locale packet_writer =
  fixes put :: "packet_state \<Rightarrow> packet_state option" and bytes :: "byte list"
  assumes counts: "0 \<le> n \<Longrightarrow> n + int (length bytes) < 2 ^ 31 \<Longrightarrow> put (None, n) = Some (None, n + int (length bytes))"
    and writes: "length p + length bytes < 2 ^ 31 \<Longrightarrow> length bytes \<le> length r \<Longrightarrow>
      put (Some (p @ r), int (length p)) = Some (Some ((p @ bytes) @ drop (length bytes) r), int (length (p @ bytes)))"
begin

lemma then_packet:
  assumes "packet_writer put2 bytes2"
  shows "packet_writer (\<lambda>st. Option.bind (put st) put2) (bytes @ bytes2)"
proof
  fix n :: int assume "0 \<le> n" "n + int (length (bytes @ bytes2)) < 2 ^ 31"
  then show "Option.bind (put (None, n)) put2 = Some (None, n + int (length (bytes @ bytes2)))"
    using counts [of n] packet_writer.counts [OF assms, of "n + int (length bytes)"] by simp
next
  fix p r :: "byte list" assume "length p + length (bytes @ bytes2) < 2 ^ 31" "length (bytes @ bytes2) \<le> length r"
  then show "Option.bind (put (Some (p @ r), int (length p))) put2 =
      Some (Some ((p @ bytes @ bytes2) @ drop (length (bytes @ bytes2)) r), int (length (p @ bytes @ bytes2)))"
    using writes [of p r] packet_writer.writes [OF assms, of "p @ bytes" "drop (length bytes) r"] by (simp add: add.commute)
qed

end

interpretation piece: packet_writer "put_packet bs" bs for bs
proof
  fix n :: int assume "0 \<le> n" "n + int (length bs) < 2 ^ 31"
  then show "put_packet bs (None, n) = Some (None, n + int (length bs))" by (simp add: put_packet_def wrap32_id)
next
  fix p r :: "byte list" assume "length p + length bs < 2 ^ 31" "length bs \<le> length r"
  then show "put_packet bs (Some (p @ r), int (length p)) = Some (Some ((p @ bs) @ drop (length bs) r), int (length (p @ bs)))"
    by (simp add: put_packet_def wrap32_id wr_bytes_def)
qed

lemma write_nothing: "packet_writer Some []"
  by unfold_locales simp_all

definition option_bytes :: "(byte list \<times> byte list) list \<Rightarrow> byte list" where
  "option_bytes opts = concat (map (\<lambda>(n, v). n @ [0] @ v @ [0]) opts)"

lemma option_writer: "packet_writer (ADD_STARTUP_OPTION n v) (option_bytes [(n, v)])"
  using piece.then_packet [OF piece.packet_writer_axioms, of "n @ [0]" "v @ [0]"] by (simp add: ADD_STARTUP_OPTION_def [abs_def] option_bytes_def)

lemma setting_writer: "packet_writer (add_setting n v) (option_bytes (setting n v))"
proof (cases "v = None \<or> v = Some []")
  case True
  then show ?thesis using write_nothing by (auto simp: add_setting_def [abs_def] setting_def option_bytes_def packet_writer_def)
next
  case False
  then obtain b w where "v = Some (b # w)" by (cases v) (auto simp: neq_Nil_conv)
  then show ?thesis using option_writer [of n "b # w"] by (simp add: add_setting_def [abs_def] setting_def)
qed

lemma environment_writer:
  assumes "ctype_ok ct" "\<And>n v. getenv n = Some v \<Longrightarrow> 0 \<notin> set v"
  shows "packet_writer (add_environment ct getenv eos) (option_bytes (environment_settings ct getenv eos))"
proof (induction eos)
  case Nil
  then show ?case using write_nothing by (simp add: environment_settings_def option_bytes_def packet_writer_def)
next
  case (Cons eo eos)
  obtain e n where eo: "eo = (e, n)" by (cases eo)
  let ?step = "\<lambda>st. case getenv e of None \<Rightarrow> Some st
    | Some val \<Rightarrow> do { c \<leftarrow> pg_strcasecmp ct (val @ [0]) (lit ''default'' @ [0]); if c \<noteq> 0 then ADD_STARTUP_OPTION n val st else Some st }"
  have "packet_writer ?step (option_bytes (environment_settings ct getenv [eo]))"
  proof (cases "getenv e")
    case None
    then show ?thesis using write_nothing by (simp add: eo environment_settings_def option_bytes_def)
  next
    case (Some val)
    have lower: "map (pg_tolower ct) (lit ''default'') = lit ''default''" by (simp add: c_bytes_def pg_tolower_def IS_HIGHBIT_SET_def)
    have z: "0 \<notin> set val" "0 \<notin> set (lit ''default'')" using assms(2) [OF Some] by (simp_all add: c_bytes_def)
    have m: "0 \<notin> set (map (pg_tolower ct) val)" using z(1) by (auto simp: pg_tolower_zero' [OF assms(1)])
    have c: "pg_strcasecmp ct (val @ [0]) (lit ''default'' @ [0]) = Some (c_strcmp (map (pg_tolower ct) val) (lit ''default''))"
      using pg_strcasecmp_spec [OF assms(1) z, of "[]" "[]"] lower by simp
    show ?thesis
      using write_nothing option_writer [of n val] c_strcmp_zero [OF m z(2)] unfolding eo Some option.case c bind.bind_lunit
      by (simp add: Some environment_settings_def option_bytes_def)
  qed
  from packet_writer.then_packet [OF this Cons.IH] show ?case
    by (simp add: eo environment_settings_def option_bytes_def cong: option.case_cong)
qed

lemma option_bytes_append: "option_bytes (xs @ ys) = option_bytes xs @ option_bytes ys"
  by (simp add: option_bytes_def)

lemma appname_writer:
  "packet_writer (\<lambda>st. if b then add_setting n v st else Some st) (option_bytes (if b then setting n v else []))"
  using setting_writer [of n v] write_nothing by (cases b) (simp_all add: option_bytes_def)

text \<open>The whole construction: the length that the first pass counts is the one that the second pass fills.\<close>

definition packet_bytes :: "pg_conn \<Rightarrow> (byte list \<Rightarrow> byte list option) \<Rightarrow> byte list" where
  "packet_bytes conn getenv = be_bytes 4 (uint (pversion conn)) @ option_bytes (startup_settings conn getenv) @ [0]"

lemma packet_built:
  assumes "ctype_ok (e_ctype (env conn))" "\<And>n v. getenv n = Some v \<Longrightarrow> 0 \<notin> set v" "length (packet_bytes conn getenv) < 2 ^ 31"
  shows "build_startup_packet conn None getenv = Some (None, int (length (packet_bytes conn getenv)))"
    "length block = length (packet_bytes conn getenv) \<Longrightarrow>
      build_startup_packet conn (Some block) getenv = Some (Some (packet_bytes conn getenv), int (length (packet_bytes conn getenv)))"
proof -
  note then_w = packet_writer.then_packet
  have ew: "packet_writer (add_environment (e_ctype (env conn)) getenv eos) (option_bytes (environment_settings (e_ctype (env conn)) getenv eos))" for eos
    using assms(2) by (rule environment_writer [OF assms(1)])
  note w = piece.then_packet [OF then_w [OF setting_writer then_w [OF setting_writer then_w [OF setting_writer then_w [OF setting_writer
    then_w [OF appname_writer then_w [OF setting_writer then_w [OF ew piece.packet_writer_axioms]]]]]]]]
  have b: "option_bytes (startup_settings conn getenv) @ [0] = option_bytes (setting (lit ''user'') (pguser conn)) @
      option_bytes (setting (lit ''database'') (dbName conn)) @ option_bytes (setting (lit ''replication'') (replication conn)) @
      option_bytes (setting (lit ''options'') (pgoptions conn)) @
      option_bytes (if send_appname conn then setting (lit ''application_name'') (if appname conn \<noteq> None then appname conn else fbappname conn) else []) @
      option_bytes (setting (lit ''client_encoding'') (client_encoding_initial conn)) @
      option_bytes (environment_settings (e_ctype (env conn)) getenv EnvironmentOptions) @ [0]"
    by (simp add: startup_settings_def option_bytes_append)
  have "\<exists>put. packet_writer put (packet_bytes conn getenv) \<and> (\<forall>packet. build_startup_packet conn packet getenv = put (packet, 0))"
    unfolding packet_bytes_def b build_startup_packet_def by (rule exI, rule conjI, rule w) simp
  then obtain put where put: "packet_writer put (packet_bytes conn getenv)" "\<And>packet. build_startup_packet conn packet getenv = put (packet, 0)"
    by blast
  show "build_startup_packet conn None getenv = Some (None, int (length (packet_bytes conn getenv)))"
    using packet_writer.counts [OF put(1), of 0] assms(3) by (simp add: put(2))
  show "build_startup_packet conn (Some block) getenv = Some (Some (packet_bytes conn getenv), int (length (packet_bytes conn getenv)))"
    if "length block = length (packet_bytes conn getenv)"
    using packet_writer.writes [OF put(1), of "[]" block] assms(3) that by (simp add: put(2))
qed


section \<open>The server reads it back\<close>

lemma read_options_back:
  "\<forall>(n, v) \<in> set opts. n \<noteq> [] \<and> 0 \<notin> set n \<and> 0 \<notin> set v \<Longrightarrow> read_settings (option_bytes opts @ [0]) = Some opts"
proof (induction opts)
  case Nil
  then show ?case by (simp add: read_settings.simps option_bytes_def c_str_Cons)
next
  case (Cons x opts)
  obtain n v where x: "x = (n, v)" by (cases x)
  have nv: "n \<noteq> []" "0 \<notin> set n" "0 \<notin> set v" using Cons.prems by (auto simp: x)
  have e: "option_bytes (x # opts) @ [0] = n @ 0 # v @ 0 # option_bytes opts @ [0]" by (simp add: x option_bytes_def)
  have "read_settings (option_bytes opts @ [0]) = Some opts" using Cons by auto
  then show ?case
    unfolding e using nv by (simp add: read_settings.simps [of "n @ 0 # v @ 0 # option_bytes opts @ [0]"] c_str_append x)
qed

lemma startup_settings_texts:
  assumes "\<And>s. s \<in> {pguser conn, dbName conn, replication conn, pgoptions conn, appname conn, fbappname conn, client_encoding_initial conn} \<Longrightarrow>
      0 \<notin> set (the s) \<or> s = None"
    and "\<And>n v. getenv n = Some v \<Longrightarrow> 0 \<notin> set v"
  shows "\<forall>(n, v) \<in> set (startup_settings conn getenv). n \<noteq> [] \<and> 0 \<notin> set n \<and> 0 \<notin> set v"
proof -
  have s: "\<forall>(n, v) \<in> set (setting name val). n \<noteq> [] \<and> 0 \<notin> set n \<and> 0 \<notin> set v" if "name \<noteq> []" "0 \<notin> set name" "0 \<notin> set (the val) \<or> val = None" for name val
    using that by (auto simp: setting_def split: option.splits list.splits)
  have e: "\<forall>(n, v) \<in> set (environment_settings (e_ctype (env conn)) getenv EnvironmentOptions). n \<noteq> [] \<and> 0 \<notin> set n \<and> 0 \<notin> set v"
    using assms(2) by (auto simp: environment_settings_def EnvironmentOptions_def c_bytes_def split: option.splits if_splits)
  have app: "0 \<notin> set (the (if appname conn \<noteq> None then appname conn else fbappname conn)) \<or> (if appname conn \<noteq> None then appname conn else fbappname conn) = None"
    using assms(1) [of "appname conn"] assms(1) [of "fbappname conn"] by auto
  show ?thesis
    unfolding startup_settings_def set_append
    using s [of "lit ''user''" "pguser conn"] s [of "lit ''database''" "dbName conn"] s [of "lit ''replication''" "replication conn"]
      s [of "lit ''options''" "pgoptions conn"] s [of "lit ''application_name''", OF _ _ app] s [of "lit ''client_encoding''" "client_encoding_initial conn"]
      e assms(1)
    by (auto simp: c_bytes_def)
qed

end
