(* ===== verification/AuthProps.thy ===== *)
theory AuthProps
  imports Auth Startup ExecProps
begin

text \<open>
  The properties of authentication and of the start-up packet.
\<close>

text \<open>A connection that has heard from the server, and the environment of the client.\<close>

definition till_conn :: pg_conn where
  "till_conn = (idle_conn [])\<lparr>status := CONNECTION_AWAITING_RESPONSE, pguser := Some (lit ''anna''), dbName := Some (lit ''shop''), pgpass := Some (lit ''till'')\<rparr>"

definition till_env :: "byte list \<Rightarrow> byte list option" where
  "till_env n = (if n = lit ''PGTZ'' then Some (lit ''UTC'') else None)"

lemma till_conn_fields:
  "can_send till_conn" "pguser till_conn = Some (lit ''anna'')" "dbName till_conn = Some (lit ''shop'')" "pgpass till_conn = Some (lit ''till'')"
  "length (md5Salt till_conn) = 4" "ctype_ok (e_ctype (env till_conn))" "replication till_conn = None" "pgoptions till_conn = None" "appname till_conn = None" "fbappname till_conn = None" "client_encoding_initial till_conn = None"
  using idle_conn_good [of "[]"] goodD [of "idle_conn []"] session_okD [of "idle_conn []"]
  subgoal by (simp add: till_conn_def can_send_def conn_ok_def in_ok_def out_ok_def)
  by (simp_all add: till_conn_def) (simp_all add: idle_conn_def waiting_conn_def example_conn_def C_locale_ok)

lemma till_packet: "length (packet_bytes till_conn till_env) < 2 ^ 31"
  by (simp add: packet_bytes_def option_bytes_def startup_settings_def till_conn_fields setting_def c_bytes_def
    environment_settings_def EnvironmentOptions_def till_env_def)

text \<open>C26: \<open>pg_md5_hash\<close> is the MD5 of RFC 1321: for every message (up to 136 bytes less than the address space of the 32-bit target) it writes the digest in
  lower-case hexadecimal and a terminator, and nothing else; it fails only when there is no memory for the padded copy, and then it writes nothing.\<close>

theorem md5_hash_is_rfc1321:
  assumes "length m + 136 < 2 ^ 32" "33 \<le> length hexsum"
  shows "pg_md5_hash (Some (m @ rest)) (of_nat (length m)) hexsum a =
    Some (if next_ok a then (True, hex_text (md5 m) @ [0] @ drop 33 hexsum, after_alloc a) else (False, hexsum, after_alloc a))"
  by (rule hash_text [OF assms])

theorem md5_hash_is_rfc1321_witness:
  "pg_md5_hash (Some (lit ''abc'' @ lit ''def'')) 3 (replicate 40 7) \<lparr>oks = [True], junk = 9\<rparr> =
    Some (True, lit ''900150983cd24fb0d6963f7d28e17f72'' @ [0, 7, 7, 7, 7, 7, 7, 7], \<lparr>oks = [], junk = 9\<rparr>)"
proof -
  have h: "hex_text (md5 (lit ''abc'')) = lit ''900150983cd24fb0d6963f7d28e17f72''"
    using md5_abc by (simp add: hex_text_def c_bytes_def)
  have r: "drop 33 (replicate 40 7) = [7, 7, 7, 7, 7, 7, 7 :: byte]" by (simp add: numeral_eq_Suc)
  show ?thesis
    using md5_hash_is_rfc1321 [of "lit ''abc''" "replicate 40 7" "lit ''def''" "\<lparr>oks = [True], junk = 9\<rparr>"] unfolding h r
    by (simp add: c_bytes_def next_ok_def after_alloc_def)
qed

text \<open>C25: Answering an MD5 request of the server. \<open>PQencryptPassword\<close> makes the secret that the server stores for a user. When the server later asks for an
  MD5 answer with a salt of its own, \<open>pg_fe_sendauth\<close> sends exactly one password message, whatever state the connection is in; its contents are the answer the
  server accepts for that secret and that salt, and not the password.\<close>

theorem md5_authentication:
  assumes "can_send c" "pgpass c = Some password" "password \<noteq> []" "0 \<notin> set password" "length password < 2 ^ 29"
    and "pguser c = Some user" "length user < 2 ^ 30" "length (md5Salt c) = 4" "plenty a"
  shows "\<exists>secret answer c'. PQencryptPassword password user a = Some (Some (secret @ [0]), a) \<and>
    pg_fe_sendauth krb5 AUTH_REQ_MD5 c = Some (STATUS_OK, c') \<and> can_send c' \<and>
    e_sent (env c') = e_sent (env c) @ client_message 0x70 (answer @ [0]) \<and> server_accepts secret (md5Salt c) answer"
proof -
  let ?secret = "md5_crypt password user"
  let ?answer = "md5_crypt (drop 3 ?secret) (md5Salt c)"
  have "PQencryptPassword password user a = Some (Some (?secret @ [0]), a)"
    by (rule encrypted_password [OF assms(9,4)]) (use assms(5,7) in simp)
  moreover obtain c' where "pg_fe_sendauth krb5 AUTH_REQ_MD5 c = Some (STATUS_OK, c')" "can_send c'"
    "e_sent (env c') = e_sent (env c) @ client_message 0x70 (?answer @ [0])"
    by (rule password_sent [where areq = AUTH_REQ_MD5 and answer = ?answer and user = user, OF assms(1-4) _ assms(5)]) (use assms(6-8) in auto)
  ultimately show ?thesis using server_accepts_def by blast
qed

theorem md5_authentication_witness:
  "\<exists>secret answer c'. PQencryptPassword (lit ''till'') (lit ''anna'') \<lparr>oks = [], junk = 9\<rparr> = Some (Some (secret @ [0]), \<lparr>oks = [], junk = 9\<rparr>) \<and>
    pg_fe_sendauth (\<lambda>c. None) AUTH_REQ_MD5 till_conn =
      Some (STATUS_OK, c') \<and> can_send c' \<and>
    e_sent (env c') = e_sent (env till_conn) @
      client_message 0x70 (answer @ [0]) \<and>
    server_accepts secret (md5Salt till_conn) answer"
  by (rule md5_authentication) (simp_all add: till_conn_fields c_bytes_def plenty_def)

text \<open>C27: The start-up packet. On C strings that fit into memory \<open>pqBuildStartupPacket3\<close> fills the block it allocates to the last byte and writes nowhere else,
  or gives up for lack of memory; behind the protocol version, a server that reads the packet finds exactly the settings of the connection and of the
  environment that are in force, in this order.\<close>

theorem startup_packet_roundtrip:
  assumes "ctype_ok (e_ctype (env c))" "\<And>n v. getenv n = Some v \<Longrightarrow> 0 \<notin> set v" "length (packet_bytes c getenv) < 2 ^ 31"
    and "\<And>s v. s \<in> {pguser c, dbName c, replication c, pgoptions c, appname c, fbappname c, client_encoding_initial c} \<Longrightarrow> s = Some v \<Longrightarrow> 0 \<notin> set v"
  shows "\<exists>packet. pqBuildStartupPacket3 c getenv =
      Some (packet, int (length (packet_bytes c getenv)), set_alloc (after_alloc (e_alloc (env c))) c) \<and>
    packet = (if next_ok (e_alloc (env c)) then Some (packet_bytes c getenv) else None) \<and>
    take 4 (packet_bytes c getenv) = be_bytes 4 (uint (pversion c)) \<and> read_settings (drop 4 (packet_bytes c getenv)) = Some (startup_settings c getenv)"
proof -
  let ?b = "packet_bytes c getenv"
  have w: "nat (int (length ?b) mod 2 ^ 32) = length ?b" using assms(3) by simp
  have "build_startup_packet (set_alloc a c) p getenv = build_startup_packet c p getenv" for a p
    by (simp add: build_startup_packet_def set_alloc_def cong: if_cong)
  then have "pqBuildStartupPacket3 c getenv = Some (if next_ok (e_alloc (env c)) then Some ?b else None, int (length ?b), set_alloc (after_alloc (e_alloc (env c))) c)"
    using packet_built(1) [OF assms(1,2,3)] packet_built(2) [where block = "replicate (length ?b) (junk (e_alloc (env c)))", OF assms(1,2,3)] w
    by (simp add: pqBuildStartupPacket3_def c_malloc_def)
  moreover have texts: "0 \<notin> set (the s) \<or> s = None"
    if "s \<in> {pguser c, dbName c, replication c, pgoptions c, appname c, fbappname c, client_encoding_initial c}" for s
    using assms(4) [OF that] by (cases s) auto
  have "read_settings (drop 4 ?b) = Some (startup_settings c getenv)"
    using read_options_back [OF startup_settings_texts [OF texts assms(2)]] by (simp add: packet_bytes_def)
  ultimately show ?thesis by (simp add: packet_bytes_def)
qed

theorem startup_packet_roundtrip_witness:
  "\<exists>packet. pqBuildStartupPacket3 till_conn till_env =
      Some (packet, int (length (packet_bytes till_conn till_env)),
        set_alloc (after_alloc (e_alloc (env till_conn))) till_conn) \<and>
    packet = (if next_ok (e_alloc (env till_conn))
      then Some (packet_bytes till_conn till_env) else None) \<and>
    take 4 (packet_bytes till_conn till_env) =
      be_bytes 4 (uint (pversion till_conn)) \<and>
    read_settings (drop 4 (packet_bytes till_conn till_env)) =
      Some (startup_settings till_conn till_env)"
  by (rule startup_packet_roundtrip) (auto simp: till_conn_fields till_packet [simplified] till_env_def c_bytes_def split: if_splits)

end
