(* ===== verification/Spec2Isabelle.thy ===== *)
theory Spec2Isabelle
  imports Prelude ExpBuffer Wchar Utf8 WcharConv Encnames MbTable Conn Results Escape Bytea FeMisc Messages BaseProps ErrorPos Protocol3 ParseSpecs ParseRows ParseMsgs ParseErrors ParseLoop ParseSteps ParseQuery ParseProps Access AccessProps Exec Progress Sending Stays Returns Answers Queries ExecProps CopyOut FastPath CopySteps Arrival CopyRows FastCall CopyProps Md5 Auth Startup AuthProps
begin

text \<open>
  Verification of libpq as the \<open>pqtouch\<close> project of this repository builds it.

  The point of sales application is an Objective-C program; all the C code it is made of is libpq, the
  client library of PostgreSQL 9.1.1, which \<open>src/pqtouch/pqtouch.xcodeproj\<close> compiles from
  \<open>src/pqtouch/postgresql/versions/postgresql-9.1.1/src\<close> (below: \<open>PG\<close>) with \<open>FRONTEND\<close> defined for
  32-bit targets. \<open>int\<close> and \<open>size_t\<close> therefore have 32 bits; \<open>wrap32\<close>, \<open>szadd\<close>, \<open>szsub\<close> and \<open>szmul\<close>
  of Prelude are their arithmetic.
\<close>

end
